(* ===== verification/Ztk_Prelude.thy ===== *)
theory Ztk_Prelude
  imports Main "HOL-Library.Word" "HOL-Library.Multiset" "HOL-Library.Monad_Syntax"
begin

text \<open>
  Shared vocabulary of the development: the machine types and error codes of the library
  (\<^verbatim>\<open>include/ztk/ztk_errno.h\<close>), byte memory with uninitialised cells, the capacity-doubling loop
  that \<^verbatim>\<open>byte_buf.c\<close> and \<^verbatim>\<open>poller_timer.c\<close> both contain, and generic facts on lists and words.
  A pointer that may be NULL is an \<open>option\<close>; a result of type \<open>'a option\<close> in an operation that
  touches raw memory has \<open>None\<close> for an execution that has no defined outcome (an out-of-bounds
  access) or that never returns.
\<close>

section \<open>Machine types\<close>

type_synonym u8 = "8 word"
type_synonym u16 = "16 word"
type_synonym u32 = "32 word"
type_synonym u64 = "64 word"
type_synonym size_t = "64 word"

named_theorems ztk_defs \<open>definitions that component proofs unfold\<close>
named_theorems ztk_inv \<open>preservation of component invariants\<close>

section \<open>Error codes\<close>

datatype ztk_err =
    ZTK_OK
  | ZTK_ERR_NOMEM
  | ZTK_ERR_INVALID
  | ZTK_ERR_IO
  | ZTK_ERR_TIMEOUT
  | ZTK_ERR_AGAIN
  | ZTK_ERR_NOT_IMPL
  | ZTK_ERR_PLATFORM
  | ZTK_ERR_STATE
  | ZTK_ERR_BUFFER_TOO_SMALL

fun err_code :: "ztk_err \<Rightarrow> int" where
  "err_code ZTK_OK = 0"
| "err_code ZTK_ERR_NOMEM = -1"
| "err_code ZTK_ERR_INVALID = -2"
| "err_code ZTK_ERR_IO = -3"
| "err_code ZTK_ERR_TIMEOUT = -4"
| "err_code ZTK_ERR_AGAIN = -5"
| "err_code ZTK_ERR_NOT_IMPL = -6"
| "err_code ZTK_ERR_PLATFORM = -7"
| "err_code ZTK_ERR_STATE = -8"
| "err_code ZTK_ERR_BUFFER_TOO_SMALL = -9"

text \<open>The message table of \<^verbatim>\<open>ztk_errno.c\<close>, indexed by the negated code.\<close>

definition k_msgs :: "string list" where
  "k_msgs = [''ok'', ''out of memory'', ''invalid argument'', ''I/O error'', ''timeout'',
     ''try again'', ''not implemented'', ''platform error'', ''invalid state'',
     ''buffer too small'']"

definition ztk_strerror :: "int \<Rightarrow> string" where
  "ztk_strerror err =
     (let idx = - err in
      if 0 \<le> idx \<and> idx < int (length k_msgs) then k_msgs ! nat idx else ''unknown error'')"

section \<open>Byte memory\<close>

text \<open>
  A block of memory is a list of cells; \<open>None\<close> is a cell that was allocated and never written.
  Writes and moves outside the block have no defined outcome.
\<close>

type_synonym mem = "u8 option list"

definition mem_malloc :: "nat \<Rightarrow> mem" where
  "mem_malloc n = replicate n None"

definition mem_realloc :: "mem \<Rightarrow> nat \<Rightarrow> mem" where
  "mem_realloc m n = take n m @ replicate (n - length m) None"

definition mem_write :: "mem \<Rightarrow> nat \<Rightarrow> u8 option list \<Rightarrow> mem option" where
  "mem_write m off bs =
     (if off + length bs \<le> length m
      then Some (take off m @ bs @ drop (off + length bs) m) else None)"

definition mem_read :: "mem \<Rightarrow> nat \<Rightarrow> nat \<Rightarrow> u8 option list option" where
  "mem_read m off n = (if off + n \<le> length m then Some (take n (drop off m)) else None)"

section \<open>The capacity-doubling loop\<close>

text \<open>
  \<^verbatim>\<open>while (cap < need) cap *= 2;\<close> on \<^verbatim>\<open>size_t\<close>: the product wraps, and the loop need not end.
\<close>

partial_function (option) grow_cap :: "size_t \<Rightarrow> size_t \<Rightarrow> size_t option" where
  "grow_cap cap need = (if cap < need then grow_cap (cap * 2) need else Some cap)"

section \<open>Generic lemmas\<close>

lemma length_mem_malloc [simp]: "length (mem_malloc n) = n"
  by (simp add: mem_malloc_def)

lemma length_mem_realloc [simp]: "length (mem_realloc m n) = n"
  by (simp add: mem_realloc_def)

lemma take_mem_realloc [simp]: "k \<le> n \<Longrightarrow> k \<le> length m \<Longrightarrow> take k (mem_realloc m n) = take k m"
  by (simp add: mem_realloc_def min_def)

lemma mem_write_Some:
  "mem_write m off bs = Some m' \<longleftrightarrow>
     off + length bs \<le> length m \<and> m' = take off m @ bs @ drop (off + length bs) m"
  by (auto simp: mem_write_def)

lemma mem_read_Some:
  "mem_read m off n = Some bs \<longleftrightarrow> off + n \<le> length m \<and> bs = take n (drop off m)"
  by (auto simp: mem_read_def)

lemma unat_double:
  fixes w :: size_t
  assumes "unat w < 2 ^ 63"
  shows "unat (w * 2) = 2 * unat w"
  using assms by (simp add: unat_word_ariths)

lemma unat_add_size:
  fixes a b :: size_t
  assumes "unat a + unat b < 2 ^ 64"
  shows "unat (a + b) = unat a + unat b"
  using assms by (simp add: unat_word_ariths)

lemma unat_sub_size:
  fixes a b :: "'a::len word"
  assumes "unat b \<le> unat a"
  shows "unat (a - b) = unat a - unat b"
  using assms by (simp add: unat_sub word_le_nat_alt)

lemma sint_of_nat_small:
  assumes "m < 2 ^ 63"
  shows "sint (of_nat m :: u64) = int m"
proof -
  have "sint (word_of_int (int m) :: u64) = (int m + 2 ^ 63) mod 2 ^ 64 - 2 ^ 63"
    using int_word_sint [where ?'a = 64, of "int m"] by simp
  also have "(int m + 2 ^ 63) mod 2 ^ 64 = int m + 2 ^ 63"
    using assms by (intro mod_pos_pos_trivial) auto
  finally show ?thesis by simp
qed

lemma sint_small: "unat (w :: u64) < 2 ^ 63 \<Longrightarrow> sint w = int (unat w)"
  using sint_of_nat_small [of "unat w"] by simp

lemma grow_cap_done: "\<not> cap < need \<Longrightarrow> grow_cap cap need = Some cap"
  by (simp add: grow_cap.simps)

lemma grow_cap_step: "cap < need \<Longrightarrow> grow_cap cap need = grow_cap (cap * 2) need"
  by (subst grow_cap.simps) simp

text \<open>The loop ends when the request is at most half the address space.\<close>

lemma grow_cap_returns:
  assumes "0 < unat cap" and "unat need \<le> 2 ^ 63"
  shows "\<exists>c. grow_cap cap need = Some c \<and> unat need \<le> unat c
           \<and> unat cap \<le> unat c \<and> (c = cap \<or> unat c < 2 * unat need)"
  using assms
proof (induction "unat need - unat cap" arbitrary: cap rule: less_induct)
  case less
  show ?case
  proof (cases "cap < need")
    case False
    then show ?thesis by (auto simp: grow_cap_done word_less_nat_alt)
  next
    case True
    then have lt: "unat cap < unat need" by (simp add: word_less_nat_alt)
    have dbl: "unat (cap * 2) = 2 * unat cap"
      by (rule unat_double) (use lt less.prems in linarith)
    have "unat need - unat (cap * 2) < unat need - unat cap"
      using lt less.prems dbl by linarith
    moreover have "0 < unat (cap * 2)" using dbl less.prems(1) by simp
    ultimately obtain c where c: "grow_cap (cap * 2) need = Some c" "unat need \<le> unat c"
        "unat (cap * 2) \<le> unat c" "c = cap * 2 \<or> unat c < 2 * unat need"
      using less.hyps less.prems(2) by blast
    have "unat cap \<le> unat c" using c(3) dbl by linarith
    moreover have "unat c < 2 * unat need" using c(4) dbl lt by auto
    ultimately show ?thesis using c(1,2) grow_cap_step [OF True] by (intro exI [of _ c]) simp
  qed
qed

text \<open>A value the loop returns is the start value shifted left, so it may have lost its top bits.\<close>

lemma grow_cap_shape:
  assumes ret: "grow_cap cap need = Some c"
  shows "need \<le> c \<and> (\<exists>k. c = cap * 2 ^ k)"
proof (rule grow_cap.raw_induct [where P = "\<lambda>cap need c. need \<le> c \<and> (\<exists>k. c = cap * 2 ^ k)", OF _ ret])
  fix g and cap need c :: size_t
  assume IH: "\<And>cap need c. g cap need = Some c \<Longrightarrow> need \<le> c \<and> (\<exists>k. c = cap * 2 ^ k)"
    and eq: "(if cap < need then g (cap * 2) need else Some cap) = Some c"
  show "need \<le> c \<and> (\<exists>k. c = cap * 2 ^ k)"
  proof (cases "cap < need")
    case True
    with eq have "g (cap * 2) need = Some c" by simp
    from IH [OF this] obtain k where "need \<le> c" and "c = cap * 2 * 2 ^ k" by blast
    then show ?thesis by (auto simp: mult.assoc intro: exI [of _ "Suc k"])
  next
    case False
    with eq show ?thesis by (auto intro: exI [of _ 0])
  qed
qed

lemma pow2_word64_le: "(2 :: size_t) ^ k \<le> 2 ^ 63"
proof (cases "k < 64")
  case True
  then have "(2 :: nat) ^ k \<le> 2 ^ 63" by (intro power_increasing) auto
  moreover have "unat ((2 :: size_t) ^ k) = 2 ^ k"
  proof -
    have "(2 :: nat) ^ k < 2 ^ 64" using True by (intro power_strict_increasing) auto
    then have "unat (of_nat (2 ^ k) :: size_t) = 2 ^ k" by (simp only: unat_of_nat) simp
    then show ?thesis by simp
  qed
  ultimately show ?thesis by (simp add: word_le_nat_alt)
next
  case False
  then obtain j where "k = 64 + j" by (metis le_Suc_ex not_less)
  moreover have "(2 :: size_t) ^ 64 = 0" by simp
  ultimately have z: "(2 :: size_t) ^ k = 0" by (simp only: power_add mult_zero_left)
  show ?thesis unfolding z by (rule word_zero_le)
qed

lemma grow_cap_diverges:
  assumes "2 ^ 63 < need"
  shows "grow_cap (2 ^ j) need = None"
proof (rule ccontr)
  assume "grow_cap (2 ^ j) need \<noteq> None"
  then obtain c where "grow_cap (2 ^ j) need = Some c" by blast
  from grow_cap_shape [OF this] obtain k where "need \<le> c" "c = 2 ^ (j + k)"
    by (auto simp: power_add)
  with pow2_word64_le [of "j + k"] assms show False by simp
qed

lemma sum_list_take_drop: "sum_list (take n xs) + sum_list (drop n xs) = (sum_list xs :: nat)"
  by (metis append_take_drop_id sum_list_append)

section \<open>All-or-nothing operations\<close>

text \<open>
  Several components promise that an operation either succeeds with its specified effect or reports
  an error and changes nothing a client can see. \<open>run_ops\<close> performs a sequence of operations,
  collecting the results; \<open>eff_ops\<close> is what such a sequence means: the effects of the operations
  that succeeded, in order. The environment \<open>'v\<close> holds what the operations are given from outside.
\<close>

fun run_ops :: "('v \<Rightarrow> 'a \<Rightarrow> 's \<Rightarrow> ztk_err \<times> 's) \<Rightarrow> 'v \<Rightarrow> 'a list \<Rightarrow> 's \<Rightarrow> ztk_err list \<times> 's" where
  "run_ops step env [] s = ([], s)"
| "run_ops step env (x # xs) s =
     (let (e, s1) = step env x s; (es, s2) = run_ops step env xs s1 in (e # es, s2))"

fun eff_ops :: "('a \<Rightarrow> 'm \<Rightarrow> 'm) \<Rightarrow> 'a list \<Rightarrow> ztk_err list \<Rightarrow> 'm \<Rightarrow> 'm" where
  "eff_ops spec (x # xs) (e # es) m = eff_ops spec xs es (if e = ZTK_OK then spec x m else m)"
| "eff_ops spec _ _ m = m"

locale all_or_nothing =
  fixes good :: "'v \<Rightarrow> 's \<Rightarrow> bool"
    and step :: "'v \<Rightarrow> 'a \<Rightarrow> 's \<Rightarrow> ztk_err \<times> 's"
    and view :: "'s \<Rightarrow> 'm"
    and spec :: "'a \<Rightarrow> 'm \<Rightarrow> 'm"
  assumes step_good: "good env s \<Longrightarrow> step env x s = (e, s') \<Longrightarrow> good env s'"
    and step_view: "good env s \<Longrightarrow> step env x s = (e, s') \<Longrightarrow>
      view s' = (if e = ZTK_OK then spec x (view s) else view s)"
begin

lemma run_view:
  assumes "good env s" and "run_ops step env xs s = (es, s')"
  shows "good env s' \<and> view s' = eff_ops spec xs es (view s)"
  using assms
proof (induction xs arbitrary: s es s')
  case (Cons x xs)
  obtain e s1 where st: "step env x s = (e, s1)" by fastforce
  obtain es' s2 where r: "run_ops step env xs s1 = (es', s2)" by fastforce
  show ?case
    using Cons.IH [OF step_good [OF Cons.prems(1) st] r] Cons.prems(2) step_view [OF Cons.prems(1) st] st r
    by auto
qed simp

end

end
