(* ===== verification/Byte_Buf.thy ===== *)
theory Byte_Buf
  imports Ztk_Prelude
begin

text \<open>
  The growable byte buffer of \<^verbatim>\<open>src/util/byte_buf.c\<close>. The record \<open>byte_buf\<close> is
  \<^verbatim>\<open>struct ztk_byte_buf\<close>; \<open>data\<close> is the block \<^verbatim>\<open>b->data\<close> points to (\<open>None\<close> for NULL). Whether an
  allocation succeeds is an argument of the operation. The invariant \<open>byte_buf_wf\<close> and the
  abstraction \<open>contents\<close> make the buffer a queue of bytes: \<open>append\<close> adds at the end,
  \<open>erase_front\<close> drops from the front, \<open>clear\<close> empties. The locale \<open>byte_queue\<close> states that
  contract once and derives the behaviour of every sequence of operations from it.
\<close>

section \<open>State and operations\<close>

record byte_buf =
  bdata :: "mem option"
  bsize :: size_t
  bcapacity :: size_t

definition ztk_byte_buf_create :: "bool \<Rightarrow> bool \<Rightarrow> size_t \<Rightarrow> byte_buf option" where
  "ztk_byte_buf_create calloc_ok malloc_ok initial_capacity =
     (if \<not> calloc_ok then None
      else let b = \<lparr>bdata = None, bsize = 0, bcapacity = 0\<rparr> in
        if 0 < initial_capacity then
          (if \<not> malloc_ok then None
           else Some (b\<lparr>bdata := Some (mem_malloc (unat initial_capacity)),
                        bcapacity := initial_capacity\<rparr>))
        else Some b)"

definition ztk_byte_buf_data :: "byte_buf option \<Rightarrow> mem" where
  "ztk_byte_buf_data b =
     (case b of None \<Rightarrow> [Some 0]
      | Some bb \<Rightarrow> (case bdata bb of None \<Rightarrow> [Some 0] | Some m \<Rightarrow> m))"

definition ztk_byte_buf_size :: "byte_buf option \<Rightarrow> size_t" where
  "ztk_byte_buf_size b = (case b of None \<Rightarrow> 0 | Some bb \<Rightarrow> bsize bb)"

definition ztk_byte_buf_capacity :: "byte_buf option \<Rightarrow> size_t" where
  "ztk_byte_buf_capacity b = (case b of None \<Rightarrow> 0 | Some bb \<Rightarrow> bcapacity bb)"

definition ztk_byte_buf_reserve ::
    "bool \<Rightarrow> byte_buf option \<Rightarrow> size_t \<Rightarrow> ztk_err \<times> byte_buf option" where
  "ztk_byte_buf_reserve realloc_ok b cap =
     (case b of None \<Rightarrow> (ZTK_ERR_INVALID, None)
      | Some bb \<Rightarrow>
          if cap \<le> bcapacity bb then (ZTK_OK, b)
          else if \<not> realloc_ok then (ZTK_ERR_NOMEM, b)
          else (ZTK_OK, Some (bb\<lparr>bdata := Some (case bdata bb of None \<Rightarrow> mem_malloc (unat cap)
                                               | Some m \<Rightarrow> mem_realloc m (unat cap)),
                                bcapacity := cap\<rparr>)))"

text \<open>
  \<^verbatim>\<open>memcpy(b->data + b->size, data, len); b->size = new_size; b->data[b->size] = 0\<close>. The source
  must hold \<open>len\<close> bytes, and both writes must fall inside the block.
\<close>

definition append_copy :: "byte_buf \<Rightarrow> u8 list \<Rightarrow> size_t \<Rightarrow> size_t \<Rightarrow> byte_buf option" where
  "append_copy bb d len new_size =
     (if length d < unat len then None
      else do {
        m \<leftarrow> bdata bb;
        m1 \<leftarrow> mem_write m (unat (bsize bb)) (map Some (take (unat len) d));
        m2 \<leftarrow> mem_write m1 (unat new_size) [Some 0];
        Some (bb\<lparr>bdata := Some m2, bsize := new_size\<rparr>)
      })"

text \<open>\<^verbatim>\<open>if (need_cap > b->capacity) { ... while (cap < need_cap) cap *= 2; reserve(b, cap); }\<close>\<close>

definition append_grow :: "bool \<Rightarrow> byte_buf \<Rightarrow> size_t \<Rightarrow> (ztk_err \<times> byte_buf option) option" where
  "append_grow realloc_ok bb need_cap =
     (if bcapacity bb < need_cap
      then do {
        cap \<leftarrow> grow_cap (if bcapacity bb \<noteq> 0 then bcapacity bb else 64) need_cap;
        Some (ztk_byte_buf_reserve realloc_ok (Some bb) cap)
      }
      else Some (ZTK_OK, Some bb))"

definition ztk_byte_buf_append ::
    "bool \<Rightarrow> byte_buf option \<Rightarrow> u8 list option \<Rightarrow> size_t \<Rightarrow> (ztk_err \<times> byte_buf option) option" where
  "ztk_byte_buf_append realloc_ok b dat len =
     (case b of None \<Rightarrow> Some (ZTK_ERR_INVALID, b)
      | Some bb \<Rightarrow>
        (case dat of
           None \<Rightarrow> Some (if len \<noteq> 0 then ZTK_ERR_INVALID else ZTK_OK, b)
         | Some d \<Rightarrow>
           if len = 0 then Some (ZTK_OK, b)
           else let new_size = bsize bb + len; need_cap = new_size + 1 in
             do {
               r \<leftarrow> append_grow realloc_ok bb need_cap;
               (if fst r \<noteq> ZTK_OK then Some r
                else do {
                  bb' \<leftarrow> snd r;
                  bb'' \<leftarrow> append_copy bb' d len new_size;
                  Some (ZTK_OK, Some bb'')
                })
             }))"

text \<open>\<^verbatim>\<open>if (b->data) b->data[i] = 0\<close>\<close>

definition put_nul :: "byte_buf \<Rightarrow> size_t \<Rightarrow> byte_buf option" where
  "put_nul bb i =
     (case bdata bb of None \<Rightarrow> Some bb
      | Some m \<Rightarrow> do { m' \<leftarrow> mem_write m (unat i) [Some 0]; Some (bb\<lparr>bdata := Some m'\<rparr>) })"

definition ztk_byte_buf_clear :: "byte_buf option \<Rightarrow> (ztk_err \<times> byte_buf option) option" where
  "ztk_byte_buf_clear b =
     (case b of None \<Rightarrow> Some (ZTK_ERR_INVALID, None)
      | Some bb \<Rightarrow> do { bb' \<leftarrow> put_nul (bb\<lparr>bsize := 0\<rparr>) 0; Some (ZTK_OK, Some bb') })"

definition ztk_byte_buf_erase_front ::
    "byte_buf option \<Rightarrow> size_t \<Rightarrow> (ztk_err \<times> byte_buf option) option" where
  "ztk_byte_buf_erase_front b n =
     (case b of None \<Rightarrow> Some (ZTK_ERR_INVALID, None)
      | Some bb \<Rightarrow>
          if n = 0 then Some (ZTK_OK, b)
          else if bsize bb \<le> n then
            do { bb' \<leftarrow> put_nul (bb\<lparr>bsize := 0\<rparr>) 0; Some (ZTK_OK, Some bb') }
          else
            do {
              m \<leftarrow> bdata bb;
              tail \<leftarrow> mem_read m (unat n) (unat (bsize bb - n));
              m' \<leftarrow> mem_write m 0 tail;
              bb' \<leftarrow> put_nul (bb\<lparr>bdata := Some m', bsize := bsize bb - n\<rparr>) (bsize bb - n);
              Some (ZTK_OK, Some bb')
            })"

section \<open>Invariant and abstraction\<close>

text \<open>
  The block has \<open>capacity\<close> cells, its first \<open>size\<close> cells are initialised, and a non-empty buffer
  is followed by a NUL inside the block.
\<close>

definition byte_buf_wf :: "byte_buf \<Rightarrow> bool" where
  "byte_buf_wf bb \<longleftrightarrow>
     (case bdata bb of
        None \<Rightarrow> bcapacity bb = 0 \<and> bsize bb = 0
      | Some m \<Rightarrow> 0 < bcapacity bb \<and> length m = unat (bcapacity bb) \<and> unat (bsize bb) \<le> length m \<and>
          (\<forall>i < unat (bsize bb). m ! i \<noteq> None) \<and>
          (0 < bsize bb \<longrightarrow> unat (bsize bb) < length m \<and> m ! unat (bsize bb) = Some 0))"

definition contents :: "byte_buf \<Rightarrow> u8 list" where
  "contents bb =
     (case bdata bb of None \<Rightarrow> [] | Some m \<Rightarrow> map the (take (unat (bsize bb)) m))"

definition nul_terminated :: "byte_buf \<Rightarrow> bool" where
  "nul_terminated bb \<longleftrightarrow>
     (case bdata bb of None \<Rightarrow> False
      | Some m \<Rightarrow> unat (bsize bb) < length m \<and> m ! unat (bsize bb) = Some 0)"

text \<open>
  Sequences of operations. What a client can rely on is the list of bytes, whether there is a block at all
  (without one, \<^verbatim>\<open>ztk_byte_buf_data\<close> is the empty string) and whether the bytes are followed by a NUL:
  a block that was only allocated has none yet, every operation that writes puts one, also on an
  empty buffer. An operation that allocates carries the outcome of the allocation.
\<close>

datatype byte_op = Append bool "u8 list" | Reserve bool size_t | Erase size_t | Clear

record byte_view =
  vbytes :: "u8 list"
  vblock :: bool
  vnul :: bool

definition view_of :: "byte_buf \<Rightarrow> byte_view" where
  "view_of bb = \<lparr>vbytes = contents bb, vblock = (bdata bb \<noteq> None), vnul = nul_terminated bb\<rparr>"

fun byte_op_spec :: "byte_op \<Rightarrow> byte_view \<Rightarrow> byte_view" where
  "byte_op_spec (Append _ d) v =
     (if d = [] then v else \<lparr>vbytes = vbytes v @ d, vblock = True, vnul = True\<rparr>)"
| "byte_op_spec (Reserve _ cap) v = v\<lparr>vblock := vblock v \<or> cap \<noteq> 0\<rparr>"
| "byte_op_spec (Erase n) v =
     (if n = 0 then v else v\<lparr>vbytes := drop (unat n) (vbytes v), vnul := vblock v\<rparr>)"
| "byte_op_spec Clear v = v\<lparr>vbytes := [], vnul := vblock v\<rparr>"

text \<open>The results an operation may have: an error only where an allocation failed.\<close>

fun byte_op_may :: "byte_op \<Rightarrow> ztk_err \<Rightarrow> bool" where
  "byte_op_may (Append ok d) e \<longleftrightarrow> e = ZTK_OK \<or> e = ZTK_ERR_NOMEM \<and> \<not> ok"
| "byte_op_may (Reserve ok cap) e \<longleftrightarrow> e = ZTK_OK \<or> e = ZTK_ERR_NOMEM \<and> \<not> ok"
| "byte_op_may _ e \<longleftrightarrow> e = ZTK_OK"

fun byte_op_len :: "byte_op \<Rightarrow> nat" where
  "byte_op_len (Append _ d) = length d"
| "byte_op_len _ = 0"

fun run_byte_ops :: "('b \<Rightarrow> byte_op \<Rightarrow> (ztk_err \<times> 'b) option) \<Rightarrow> 'b \<Rightarrow> byte_op list \<Rightarrow> (ztk_err list \<times> 'b) option" where
  "run_byte_ops step b [] = Some ([], b)"
| "run_byte_ops step b (x # xs) = do {
     (e, b1) \<leftarrow> step b x;
     (es, b2) \<leftarrow> run_byte_ops step b1 xs;
     Some (e # es, b2)
   }"

definition with_buf :: "(ztk_err \<times> byte_buf option) option \<Rightarrow> (ztk_err \<times> byte_buf) option" where
  "with_buf r = do { (e, b) \<leftarrow> r; bb \<leftarrow> b; Some (e, bb) }"

fun byte_buf_step :: "byte_buf \<Rightarrow> byte_op \<Rightarrow> (ztk_err \<times> byte_buf) option" where
  "byte_buf_step bb (Append ok d) =
     with_buf (ztk_byte_buf_append ok (Some bb) (Some d) (of_nat (length d)))"
| "byte_buf_step bb (Reserve ok cap) = with_buf (Some (ztk_byte_buf_reserve ok (Some bb) cap))"
| "byte_buf_step bb (Erase n) = with_buf (ztk_byte_buf_erase_front (Some bb) n)"
| "byte_buf_step bb Clear = with_buf (ztk_byte_buf_clear (Some bb))"

declare grow_cap.simps [code]

section \<open>Lemmas\<close>

lemma byte_buf_wf_Some:
  assumes "bdata bb = Some m"
  shows "byte_buf_wf bb \<longleftrightarrow> 0 < bcapacity bb \<and> length m = unat (bcapacity bb) \<and>
     unat (bsize bb) \<le> length m \<and> (\<forall>i < unat (bsize bb). m ! i \<noteq> None) \<and>
     (0 < bsize bb \<longrightarrow> unat (bsize bb) < length m \<and> m ! unat (bsize bb) = Some 0)"
  using assms by (simp add: byte_buf_wf_def)

lemma byte_buf_wf_size: "byte_buf_wf bb \<Longrightarrow> bsize bb \<le> bcapacity bb"
  by (auto simp: byte_buf_wf_def word_le_nat_alt split: option.splits)

lemma create_wf: "ztk_byte_buf_create c m n = Some b \<Longrightarrow> byte_buf_wf b \<and> contents b = []"
  by (auto simp: ztk_byte_buf_create_def byte_buf_wf_def contents_def Let_def split: if_splits)

lemma reserve_wf:
  assumes "byte_buf_wf bb" and "ztk_byte_buf_reserve ok (Some bb) cap = (e, Some bb')"
  shows "byte_buf_wf bb' \<and> contents bb' = contents bb \<and> bsize bb' = bsize bb \<and>
    (e = ZTK_OK \<longrightarrow> cap \<le> bcapacity bb') \<and> (e \<noteq> ZTK_OK \<longrightarrow> bb' = bb)"
proof (cases "cap \<le> bcapacity bb \<or> \<not> ok")
  case True
  with assms show ?thesis by (auto simp: ztk_byte_buf_reserve_def split: if_splits)
next
  case False
  then have lt: "unat (bcapacity bb) < unat cap" by (simp add: word_le_nat_alt)
  from False assms(2) have e: "e = ZTK_OK" and bb': "bb' = bb\<lparr>bdata := Some (case bdata bb of
      None \<Rightarrow> mem_malloc (unat cap) | Some m \<Rightarrow> mem_realloc m (unat cap)), bcapacity := cap\<rparr>"
    by (auto simp: ztk_byte_buf_reserve_def)
  have pos: "0 < cap" using lt by (simp add: word_less_nat_alt)
  show ?thesis
  proof (cases "bdata bb")
    case None
    with assms(1) pos e bb' show ?thesis by (simp add: byte_buf_wf_def contents_def)
  next
    case (Some m)
    have nth: "mem_realloc m (unat cap) ! i = m ! i" if "i < length m" for i
      using that assms(1) Some lt by (simp add: mem_realloc_def nth_append byte_buf_wf_def)
    from assms(1) Some lt nth pos e bb' show ?thesis
      by (auto simp: byte_buf_wf_def contents_def)
  qed
qed

lemma reserve_returns: "\<exists>e bb'. ztk_byte_buf_reserve ok (Some bb) cap = (e, Some bb')"
  by (auto simp: ztk_byte_buf_reserve_def)

lemma append_copy_correct:
  assumes dat: "bdata bb = Some m" and wf: "byte_buf_wf bb"
    and src: "unat len \<le> length d"
    and new: "unat new_size = unat (bsize bb) + unat len" and room: "unat new_size < length m"
  shows "\<exists>bb'. append_copy bb d len new_size = Some bb' \<and> byte_buf_wf bb' \<and> nul_terminated bb' \<and>
           contents bb' = contents bb @ take (unat len) d \<and> bcapacity bb' = bcapacity bb"
proof -
  let ?s = "unat (bsize bb)" and ?n = "unat new_size"
  define c where "c = map Some (take (unat len) d)"
  define m1 where "m1 = take ?s m @ c @ drop (?s + length c) m"
  define m2 where "m2 = take ?n m1 @ [Some 0] @ drop (?n + 1) m1"
  have lc: "length c = unat len" using src by (simp add: c_def)
  have l1: "length m1 = length m" using lc new room by (simp add: m1_def)
  have l2: "length m2 = length m" using l1 room by (simp add: m2_def)
  have cp: "append_copy bb d len new_size = Some (bb\<lparr>bdata := Some m2, bsize := new_size\<rparr>)"
    using dat src lc new room l1
    by (simp add: append_copy_def mem_write_def c_def [symmetric] m1_def m2_def)
  have t1: "take ?n m1 = take ?s m @ c"
    using new room lc by (simp add: m1_def)
  have "take ?n m2 = take ?n m1" using l1 room by (simp add: m2_def)
  then have t2: "take ?n m2 = take ?s m @ c" using t1 by simp
  have nul: "m2 ! ?n = Some 0" using l1 room by (simp add: m2_def nth_append)
  have ini: "m2 ! i \<noteq> None" if "i < ?n" for i
  proof -
    have "m2 ! i = (take ?s m @ c) ! i" using that t2 by (metis nth_take)
    also have "\<dots> \<noteq> None"
      using that wf dat new room lc by (auto simp: nth_append c_def byte_buf_wf_Some)
    finally show ?thesis .
  qed
  have "byte_buf_wf (bb\<lparr>bdata := Some m2, bsize := new_size\<rparr>)"
    using wf dat l2 room nul ini by (simp add: byte_buf_wf_def)
  moreover have "contents (bb\<lparr>bdata := Some m2, bsize := new_size\<rparr>) = contents bb @ take (unat len) d"
    using dat t2 by (simp add: contents_def c_def comp_def)
  moreover have "nul_terminated (bb\<lparr>bdata := Some m2, bsize := new_size\<rparr>)"
    using l2 room nul by (simp add: nul_terminated_def)
  ultimately show ?thesis using cp by auto
qed

text \<open>The growth step of append leaves a block with room for the data and its terminator.\<close>

lemma append_grow_correct:
  assumes wf: "byte_buf_wf bb" and need: "0 < unat need_cap" "unat need_cap \<le> 2 ^ 63"
  shows "\<exists>e bb'. append_grow ok bb need_cap = Some (e, Some bb') \<and>
         byte_buf_wf bb' \<and> contents bb' = contents bb \<and> bsize bb' = bsize bb \<and>
         (ok \<longrightarrow> e = ZTK_OK) \<and> (e \<noteq> ZTK_OK \<longrightarrow> e = ZTK_ERR_NOMEM \<and> bb' = bb) \<and>
         (e = ZTK_OK \<longrightarrow> unat need_cap \<le> unat (bcapacity bb'))"
proof (cases "bcapacity bb < need_cap")
  case False
  then show ?thesis using wf by (simp add: append_grow_def word_less_nat_alt)
next
  case True
  have pos: "0 < unat (if bcapacity bb \<noteq> 0 then bcapacity bb else 64)"
    by (simp add: unat_gt_0)
  obtain c where c: "grow_cap (if bcapacity bb \<noteq> 0 then bcapacity bb else 64) need_cap = Some c"
      "unat need_cap \<le> unat c"
    using grow_cap_returns [OF pos need(2)] by blast
  obtain e bb' where r: "ztk_byte_buf_reserve ok (Some bb) c = (e, Some bb')"
    using reserve_returns by blast
  have "ok \<longrightarrow> e = ZTK_OK" "e \<noteq> ZTK_OK \<longrightarrow> e = ZTK_ERR_NOMEM"
    using r by (auto simp: ztk_byte_buf_reserve_def split: if_splits)
  then show ?thesis
    using True c r reserve_wf [OF wf r] by (auto simp: append_grow_def word_le_nat_alt)
qed

lemma contents_length: "byte_buf_wf bb \<Longrightarrow> length (contents bb) = unat (bsize bb)"
  by (auto simp: byte_buf_wf_def contents_def split: option.splits)

lemma append_cases:
  assumes wf: "byte_buf_wf bb" and src: "unat len \<le> length d"
    and bound: "unat (bsize bb) + unat len + 1 \<le> 2 ^ 63" and len: "len \<noteq> 0"
  shows "(\<exists>bb'. ztk_byte_buf_append ok (Some bb) (Some d) len = Some (ZTK_OK, Some bb') \<and>
            byte_buf_wf bb' \<and> nul_terminated bb' \<and> contents bb' = contents bb @ take (unat len) d) \<or>
         (\<not> ok \<and> ztk_byte_buf_append ok (Some bb) (Some d) len = Some (ZTK_ERR_NOMEM, Some bb))"
proof -
  let ?new = "bsize bb + len"
  have new: "unat ?new = unat (bsize bb) + unat len"
    by (rule unat_add_size) (use bound in simp)
  have need: "unat (?new + 1) = unat ?new + 1"
    using unat_add_size [of ?new 1] new bound by simp
  obtain e bb1 where g: "append_grow ok bb (?new + 1) = Some (e, Some bb1)"
      and wf1: "byte_buf_wf bb1" and c1: "contents bb1 = contents bb" "bsize bb1 = bsize bb"
      and e: "ok \<longrightarrow> e = ZTK_OK" "e \<noteq> ZTK_OK \<longrightarrow> e = ZTK_ERR_NOMEM \<and> bb1 = bb"
      and room: "e = ZTK_OK \<longrightarrow> unat (?new + 1) \<le> unat (bcapacity bb1)"
    using append_grow_correct [OF wf, of "?new + 1" ok] need new bound by auto
  show ?thesis
  proof (cases "e = ZTK_OK")
    case False
    with g e len show ?thesis
      by (simp add: ztk_byte_buf_append_def Let_def)
  next
    case True
    from wf1 room True need obtain m where m: "bdata bb1 = Some m" "length m = unat (bcapacity bb1)"
      by (auto simp: byte_buf_wf_def split: option.splits)
    obtain bb2 where "append_copy bb1 d len ?new = Some bb2" "byte_buf_wf bb2" "nul_terminated bb2"
        "contents bb2 = contents bb1 @ take (unat len) d"
      using append_copy_correct [OF m(1) wf1 src, of ?new] new c1 m room True need by auto
    with g True len c1 show ?thesis
      by (simp add: ztk_byte_buf_append_def Let_def)
  qed
qed

lemma put_nul_wf:
  assumes wf: "byte_buf_wf bb" and i: "i \<le> bsize bb"
  shows "\<exists>bb'. put_nul (bb\<lparr>bsize := i\<rparr>) i = Some bb' \<and> byte_buf_wf bb' \<and>
           contents bb' = take (unat i) (contents bb) \<and> (bdata bb' \<noteq> None \<longleftrightarrow> bdata bb \<noteq> None) \<and>
           (nul_terminated bb' \<longleftrightarrow> bdata bb \<noteq> None)"
proof (cases "bdata bb")
  case None
  with wf i show ?thesis by (auto simp: put_nul_def byte_buf_wf_def contents_def nul_terminated_def)
next
  case (Some m)
  have le: "unat i \<le> unat (bsize bb)" using i by (simp add: word_le_nat_alt)
  have lt: "unat i < length m"
    using wf Some le by (cases "bsize bb = 0") (auto simp: byte_buf_wf_def word_less_nat_alt unat_gt_0)
  define m' where "m' = take (unat i) m @ [Some 0] @ drop (unat i + 1) m"
  have m': "length m' = length m" "m' ! unat i = Some 0" "take (unat i) m' = take (unat i) m"
    using lt by (simp_all add: m'_def nth_append)
  have "m' ! k = m ! k" if "k < unat i" for k using that m'(3) by (metis nth_take)
  then have "byte_buf_wf (bb\<lparr>bdata := Some m', bsize := i\<rparr>)"
    using wf Some lt le m' by (auto simp: byte_buf_wf_def)
  moreover have "contents (bb\<lparr>bdata := Some m', bsize := i\<rparr>) = take (unat i) (contents bb)"
    using Some m'(3) le by (simp add: contents_def take_map min_def)
  moreover have "put_nul (bb\<lparr>bsize := i\<rparr>) i = Some (bb\<lparr>bdata := Some m', bsize := i\<rparr>)"
    using Some lt by (simp add: put_nul_def mem_write_def m'_def)
  moreover have "nul_terminated (bb\<lparr>bdata := Some m', bsize := i\<rparr>)"
    using lt m' by (simp add: nul_terminated_def)
  ultimately show ?thesis using Some by auto
qed

lemma erase_shift:
  assumes wf: "byte_buf_wf bb" and dat: "bdata bb = Some m" and n: "n < bsize bb"
  defines "m' \<equiv> take (unat (bsize bb - n)) (drop (unat n) m) @ drop (unat (bsize bb - n)) m"
  shows "byte_buf_wf (bb\<lparr>bdata := Some m'\<rparr>) \<and>
     take (unat (bsize bb - n)) (contents (bb\<lparr>bdata := Some m'\<rparr>)) = drop (unat n) (contents bb)"
proof -
  let ?s = "unat (bsize bb)" and ?r = "unat (bsize bb - n)"
  have r: "?r = ?s - unat n" and n': "unat n < ?s"
    using n by (simp_all add: unat_sub_size word_less_nat_alt)
  have sm: "?s < length m" "m ! ?s = Some 0" "\<forall>i < ?s. m ! i \<noteq> None"
    using wf dat n by (auto simp: byte_buf_wf_def word_less_nat_alt)
  have lt: "length (take ?r (drop (unat n) m)) = ?r" using r n' sm by simp
  have len: "length m' = length m" using r n' sm by (simp add: m'_def)
  have "\<not> ?s < ?r" using r by simp
  then have nul: "m' ! ?s = m ! ?s" using lt r sm by (simp add: m'_def nth_append)
  have ini: "m' ! i \<noteq> None" if "i < ?s" for i
    using that lt r n' sm by (auto simp: m'_def nth_append)
  have "byte_buf_wf (bb\<lparr>bdata := Some m'\<rparr>)"
    using wf dat len nul sm ini by (auto simp: byte_buf_wf_def)
  moreover have "take ?r m' = take ?r (drop (unat n) m)" using lt by (simp add: m'_def)
  then have "take ?r (contents (bb\<lparr>bdata := Some m'\<rparr>)) = drop (unat n) (contents bb)"
    using dat r by (simp add: contents_def take_map drop_map drop_take)
  ultimately show ?thesis by simp
qed

lemma erase_front_correct:
  assumes wf: "byte_buf_wf bb"
  shows "\<exists>bb'. ztk_byte_buf_erase_front (Some bb) n = Some (ZTK_OK, Some bb') \<and>
           byte_buf_wf bb' \<and> view_of bb' = byte_op_spec (Erase n) (view_of bb)"
proof (cases "n = 0 \<or> bsize bb \<le> n")
  case True
  then show ?thesis
    using wf put_nul_wf [OF wf, of 0] contents_length [OF wf]
    by (auto simp: ztk_byte_buf_erase_front_def view_of_def word_le_nat_alt)
next
  case False
  then have n: "n < bsize bb" by (simp add: not_le)
  then have n': "unat n < unat (bsize bb)" and r: "unat (bsize bb - n) = unat (bsize bb) - unat n"
    by (simp_all add: unat_sub_size word_less_nat_alt)
  obtain m where dat: "bdata bb = Some m" and m: "unat (bsize bb) < length m"
    using wf n' by (auto simp: byte_buf_wf_def word_less_nat_alt split: option.splits)
  define m' where "m' = take (unat (bsize bb - n)) (drop (unat n) m) @ drop (unat (bsize bb - n)) m"
  note sh = erase_shift [OF wf dat n, folded m'_def]
  have le: "bsize bb - n \<le> bsize (bb\<lparr>bdata := Some m'\<rparr>)" using r by (simp add: word_le_nat_alt)
  obtain bb' where "put_nul (bb\<lparr>bdata := Some m', bsize := bsize bb - n\<rparr>) (bsize bb - n) = Some bb'"
      "byte_buf_wf bb'" "contents bb' = drop (unat n) (contents bb)" "bdata bb' \<noteq> None" "nul_terminated bb'"
    using put_nul_wf [OF conjunct1 [OF sh] le] sh by auto
  moreover have "mem_read m (unat n) (unat (bsize bb - n)) =
      Some (take (unat (bsize bb - n)) (drop (unat n) m))"
    using r n' m by (simp add: mem_read_def)
  moreover have "mem_write m 0 (take (unat (bsize bb - n)) (drop (unat n) m)) = Some m'"
    using r n' m by (auto simp: mem_write_def m'_def min_def)
  ultimately show ?thesis using False dat by (simp add: ztk_byte_buf_erase_front_def view_of_def)
qed

lemma clear_correct:
  assumes wf: "byte_buf_wf bb"
  shows "\<exists>bb'. ztk_byte_buf_clear (Some bb) = Some (ZTK_OK, Some bb') \<and>
           byte_buf_wf bb' \<and> view_of bb' = byte_op_spec Clear (view_of bb)"
  using put_nul_wf [OF wf, of 0] by (auto simp: ztk_byte_buf_clear_def view_of_def)

lemma reserve_correct:
  assumes wf: "byte_buf_wf bb" and r: "ztk_byte_buf_reserve ok (Some bb) cap = (e, Some bb')"
  shows "byte_op_may (Reserve ok cap) e \<and>
    view_of bb' = (if e = ZTK_OK then byte_op_spec (Reserve ok cap) (view_of bb) else view_of bb)"
proof (cases "cap \<le> bcapacity bb \<or> \<not> ok")
  case True
  with wf r show ?thesis
    by (auto simp: ztk_byte_buf_reserve_def view_of_def byte_buf_wf_def split: if_splits option.splits)
next
  case False
  then have lt: "unat (bcapacity bb) < unat cap" and c0: "cap \<noteq> 0"
    by (auto simp: word_le_nat_alt)
  from False r have e: "e = ZTK_OK" and bb': "bb' = bb\<lparr>bdata := Some (case bdata bb of
      None \<Rightarrow> mem_malloc (unat cap) | Some m \<Rightarrow> mem_realloc m (unat cap)), bcapacity := cap\<rparr>"
    by (auto simp: ztk_byte_buf_reserve_def)
  have "nul_terminated bb' \<longleftrightarrow> nul_terminated bb"
  proof (cases "bdata bb")
    case None
    with wf c0 bb' show ?thesis by (simp add: nul_terminated_def byte_buf_wf_def mem_malloc_def unat_gt_0)
  next
    case (Some m)
    have "unat (bsize bb) < length m"
      using wf Some by (cases "bsize bb = 0") (auto simp: byte_buf_wf_def word_less_nat_alt unat_gt_0)
    moreover have "length m = unat (bcapacity bb)" using wf Some by (simp add: byte_buf_wf_def)
    ultimately show ?thesis
      using Some bb' lt by (simp add: nul_terminated_def mem_realloc_def nth_append)
  qed
  then show ?thesis using e bb' c0 reserve_wf [OF wf r] by (simp add: view_of_def)
qed

section \<open>The byte-queue contract\<close>

locale byte_queue =
  fixes invar :: "'b \<Rightarrow> bool"
    and view :: "'b \<Rightarrow> byte_view"
    and step :: "'b \<Rightarrow> byte_op \<Rightarrow> (ztk_err \<times> 'b) option"
  assumes step_ok: "invar b \<Longrightarrow> length (vbytes (view b)) + byte_op_len x < 2 ^ 63 \<Longrightarrow>
      \<exists>e b'. step b x = Some (e, b') \<and> invar b' \<and> byte_op_may x e \<and>
        view b' = (if e = ZTK_OK then byte_op_spec x (view b) else view b)"
begin

lemma run_refines:
  assumes "invar b" and "length (vbytes (view b)) + sum_list (map byte_op_len ops) < 2 ^ 63"
  shows "\<exists>es b'. run_byte_ops step b ops = Some (es, b') \<and> invar b' \<and> list_all2 byte_op_may ops es \<and>
           view b' = eff_ops byte_op_spec ops es (view b)"
  using assms
proof (induction ops arbitrary: b)
  case Nil
  then show ?case by simp
next
  case (Cons x ops)
  have "length (vbytes (byte_op_spec x v)) \<le> length (vbytes v) + byte_op_len x" for v
    by (cases x) auto
  from this [of "view b"]
  have "length (vbytes (byte_op_spec x (view b))) + sum_list (map byte_op_len ops) < 2 ^ 63"
    using Cons.prems(2) by simp
  moreover obtain e b1 where "step b x = Some (e, b1)" "invar b1" "byte_op_may x e"
      "view b1 = (if e = ZTK_OK then byte_op_spec x (view b) else view b)"
    using step_ok [OF Cons.prems(1), of x] Cons.prems(2) by auto
  ultimately show ?case
    using Cons.IH [of b1] Cons.prems(2) by (auto split: if_splits)
qed

end

lemma byte_buf_step_append:
  assumes wf: "byte_buf_wf bb" and b: "length (contents bb) + length d < 2 ^ 63"
  shows "\<exists>e bb'. byte_buf_step bb (Append ok d) = Some (e, bb') \<and> byte_buf_wf bb' \<and> byte_op_may (Append ok d) e \<and>
    view_of bb' = (if e = ZTK_OK then byte_op_spec (Append ok d) (view_of bb) else view_of bb)"
proof (cases "d = []")
  case True
  with wf show ?thesis by (simp add: ztk_byte_buf_append_def with_buf_def)
next
  case False
  have u: "unat (of_nat (length d) :: size_t) = length d"
    using b by (simp add: unat_of_nat)
  have "(of_nat (length d) :: size_t) \<noteq> 0" using u False by force
  moreover have "nul_terminated c \<Longrightarrow> bdata c \<noteq> None" for c
    by (auto simp: nul_terminated_def split: option.splits)
  ultimately show ?thesis
    using append_cases [OF wf, of "of_nat (length d)" d ok] u b contents_length [OF wf] False wf
    by (auto simp: with_buf_def view_of_def)
qed

interpretation bb: byte_queue byte_buf_wf view_of byte_buf_step
proof
  fix bb x
  assume wf: "byte_buf_wf bb" and b: "length (vbytes (view_of bb)) + byte_op_len x < 2 ^ 63"
  show "\<exists>e bb'. byte_buf_step bb x = Some (e, bb') \<and> byte_buf_wf bb' \<and> byte_op_may x e \<and>
      view_of bb' = (if e = ZTK_OK then byte_op_spec x (view_of bb) else view_of bb)"
  proof (cases x)
    case (Append ok d)
    have "length (contents bb) + length d < 2 ^ 63" using b Append by (simp add: view_of_def)
    from byte_buf_step_append [OF wf this, of ok] show ?thesis by (simp only: Append)
  next
    case (Reserve ok cap)
    obtain e bb' where r: "ztk_byte_buf_reserve ok (Some bb) cap = (e, Some bb')"
      using reserve_returns by blast
    then show ?thesis using Reserve reserve_wf [OF wf r] reserve_correct [OF wf r] by (simp add: with_buf_def)
  next
    case (Erase n)
    then show ?thesis using erase_front_correct [OF wf, of n] by (auto simp: with_buf_def)
  next
    case Clear
    then show ?thesis using clear_correct [OF wf] by (auto simp: with_buf_def)
  qed
qed

section \<open>Properties\<close>

text \<open>
  C6. Refinement: from any well-formed buffer, every sequence of appends, reservations, front erasures and
  clears whose total data stays below half the address space runs to completion (no out-of-bounds access,
  no endless growth loop), whatever the allocator answers at each step. An operation reports an error only where
  its allocation failed, and then changes nothing. The buffer ends with exactly the bytes that the
  successful operations leave in a plain list, and these are followed by a NUL exactly if
  one was there before or was put by an operation that writes: an append of at least one byte, and, once
  there is a block, clear and an erasure, also when they leave the buffer empty.
\<close>

theorem byte_buf_refines_list:
  assumes "byte_buf_wf bb" and "length (contents bb) + sum_list (map byte_op_len ops) < 2 ^ 63"
  shows "\<exists>es bb'. run_byte_ops byte_buf_step bb ops = Some (es, bb') \<and> byte_buf_wf bb' \<and>
           list_all2 byte_op_may ops es \<and> view_of bb' = eff_ops byte_op_spec ops es (view_of bb)"
  using bb.run_refines [OF assms(1)] assms(2) by (simp add: view_of_def)

theorem byte_buf_refines_list_witness:
  "\<exists>es bb'. run_byte_ops byte_buf_step \<lparr>bdata = None, bsize = 0, bcapacity = 0\<rparr>
           [Append True [1, 2, 3], Reserve False 100, Erase 1, Append True [4], Erase 9] = Some (es, bb') \<and>
     es = [ZTK_OK, ZTK_ERR_NOMEM, ZTK_OK, ZTK_OK, ZTK_OK] \<and> byte_buf_wf bb' \<and> contents bb' = [] \<and> nul_terminated bb'"
proof -
  let ?b = "\<lparr>bdata = None, bsize = 0, bcapacity = 0\<rparr>"
  let ?ops = "[Append True [1, 2, 3], Reserve False 100, Erase 1, Append True [4], Erase 9]"
  obtain es bb' where r: "run_byte_ops byte_buf_step ?b ?ops = Some (es, bb')" and wf: "byte_buf_wf bb'"
    and v: "view_of bb' = eff_ops byte_op_spec ?ops es (view_of ?b)"
    using byte_buf_refines_list [of ?b ?ops] by (auto simp: byte_buf_wf_def contents_def)
  have "map_option fst (run_byte_ops byte_buf_step ?b ?ops) = Some [ZTK_OK, ZTK_ERR_NOMEM, ZTK_OK, ZTK_OK, ZTK_OK]"
    by code_simp
  with r have es: "es = [ZTK_OK, ZTK_ERR_NOMEM, ZTK_OK, ZTK_OK, ZTK_OK]" by simp
  with v have "contents bb' = []" "nul_terminated bb'"
    by (simp_all add: view_of_def contents_def)
  with r wf es show ?thesis by blast
qed

text \<open>
  Every outcome of one append of \<open>len\<close> bytes, with \<open>size + len + 1\<close> at most half the address
  space: either it returns \<open>ZTK_OK\<close> with the bytes added behind the old contents and a NUL behind
  them, or the reallocation failed and it returns \<open>ZTK_ERR_NOMEM\<close> with the buffer untouched.
\<close>

lemma byte_buf_append_outcomes:
  assumes "byte_buf_wf bb" and "unat len \<le> length d" and "len \<noteq> 0"
    and "unat (bsize bb) + unat len + 1 \<le> 2 ^ 63"
  shows "(\<exists>bb'. ztk_byte_buf_append ok (Some bb) (Some d) len = Some (ZTK_OK, Some bb') \<and>
            byte_buf_wf bb' \<and> nul_terminated bb' \<and> contents bb' = contents bb @ take (unat len) d) \<or>
         (\<not> ok \<and> ztk_byte_buf_append ok (Some bb) (Some d) len = Some (ZTK_ERR_NOMEM, Some bb))"
  using append_cases [OF assms(1,2,4,3)] .

text \<open>
  C16. The bound of the refinement is needed. Let the capacity be zero or a power of two (what every growth from an empty
  buffer produces) and the needed capacity \<open>size + len + 1\<close>, which does not wrap, exceed half the address space. Then the doubling
  loop of append runs forever: however often it doubles, the capacity stays below the need, because it
  wraps to zero. So append has no result, although the source holds all the bytes it asks for.
\<close>

theorem byte_buf_append_diverges:
  assumes "bcapacity bb = 0 \<or> bcapacity bb = 2 ^ j" and "2 ^ 63 < unat (bsize bb) + unat len + 1"
    and "unat (bsize bb) + unat len + 1 < 2 ^ 64" and "len \<noteq> 0" and "unat len \<le> length d"
  shows "(\<forall>n. (((\<lambda>cap. cap * 2) ^^ n) (if bcapacity bb \<noteq> 0 then bcapacity bb else 64)) < bsize bb + len + 1) \<and>
    append_grow ok bb (bsize bb + len + 1) = None \<and>
    ztk_byte_buf_append ok (Some bb) (Some d) len = None"
proof -
  let ?c = "if bcapacity bb \<noteq> 0 then bcapacity bb else 64" and ?need = "bsize bb + len + 1"
  have "unat (bsize bb + len) = unat (bsize bb) + unat len"
    by (rule unat_add_size) (use assms(3) in simp)
  then have "unat ?need = unat (bsize bb) + unat len + 1"
    using unat_add_size [of "bsize bb + len" 1] assms(3) by simp
  then have need: "2 ^ 63 < ?need"
    using assms(2) by (simp add: word_less_nat_alt)
  obtain i where i: "?c = 2 ^ i"
  proof (cases "bcapacity bb = 0")
    case True
    then show ?thesis using that [of 6] by simp
  next
    case False
    then show ?thesis using assms(1) that [of j] by auto
  qed
  have pw: "((\<lambda>cap. cap * 2) ^^ n) (2 ^ i :: size_t) = 2 ^ (i + n)" for n
    by (induction n) auto
  have all: "((\<lambda>cap. cap * 2) ^^ n) ?c < ?need" for n
    unfolding i pw using pow2_word64_le need by (rule le_less_trans)
  have lt: "bcapacity bb < ?need"
    using all [of 0] need by (cases "bcapacity bb = 0") (auto simp: word_less_nat_alt)
  have "append_grow ok bb ?need = None"
    using grow_cap_diverges [OF need, of i] i lt by (simp add: append_grow_def)
  then show ?thesis
    using all assms(4) by (simp add: ztk_byte_buf_append_def Let_def)
qed

theorem byte_buf_append_diverges_witness:
  "ztk_byte_buf_append True
     (Some \<lparr>bdata = Some [Some 65, Some 0], bsize = 1, bcapacity = 2\<rparr>) (Some (replicate (2 ^ 63) 0)) (2 ^ 63) = None"
  using byte_buf_append_diverges
      [of "\<lparr>bdata = Some [Some 65, Some 0], bsize = 1, bcapacity = 2\<rparr>" 1 "2 ^ 63" "replicate (2 ^ 63) 0" True]
  by simp

end
