(* ===== verification/Linked_Queue.thy ===== *)
theory Linked_Queue
  imports Ztk_Prelude
begin

text \<open>
  The singly linked queue with head and tail pointers that \<^verbatim>\<open>poller_task.c\<close> and \<^verbatim>\<open>thread_pool.c\<close>
  both contain. Nodes live in a store from addresses to (payload, next); the address of a new
  node is what \<^verbatim>\<open>calloc\<close> returned, so it is an argument that must be fresh. The relation
  \<open>lq_rep q xs\<close> says that the chain from the head visits every stored node once, carries the
  payloads \<open>xs\<close> and ends at the tail. The locale \<open>linked_queue\<close> is the interface its clients
  rely on: a double-ended-insert, front-remove sequence.
\<close>

section \<open>Nodes, pointers and operations\<close>

type_synonym 'a node_store = "nat \<rightharpoonup> 'a \<times> nat option"

record 'a lq =
  nodes :: "'a node_store"
  lhead :: "nat option"
  ltail :: "nat option"

definition lq_empty :: "'a lq" where
  "lq_empty = \<lparr>nodes = Map.empty, lhead = None, ltail = None\<rparr>"

text \<open>\<^verbatim>\<open>task->next = head; head = task; if (!tail) tail = task;\<close>\<close>

definition lq_push_front :: "nat \<Rightarrow> 'a \<Rightarrow> 'a lq \<Rightarrow> 'a lq" where
  "lq_push_front a x q =
     q\<lparr>nodes := (nodes q)(a \<mapsto> (x, lhead q)), lhead := Some a,
       ltail := (case ltail q of None \<Rightarrow> Some a | Some t \<Rightarrow> Some t)\<rparr>"

text \<open>\<^verbatim>\<open>task->next = NULL; if (tail) tail->next = task; else head = task; tail = task;\<close>\<close>

definition lq_push_back :: "nat \<Rightarrow> 'a \<Rightarrow> 'a lq \<Rightarrow> 'a lq" where
  "lq_push_back a x q =
     (let h = (nodes q)(a \<mapsto> (x, None)) in
      case ltail q of
        None \<Rightarrow> q\<lparr>nodes := h, lhead := Some a, ltail := Some a\<rparr>
      | Some t \<Rightarrow>
          q\<lparr>nodes := h(t := map_option (\<lambda>(y, _). (y, Some a)) (h t)), ltail := Some a\<rparr>)"

text \<open>
  \<^verbatim>\<open>t = head; if (t) { head = t->next; if (!head) tail = NULL; }\<close>: the node leaves the queue.
\<close>

definition lq_pop :: "'a lq \<Rightarrow> ('a \<times> 'a lq) option" where
  "lq_pop q =
     (case lhead q of None \<Rightarrow> None
      | Some a \<Rightarrow>
         (case nodes q a of None \<Rightarrow> None
          | Some (x, n) \<Rightarrow>
              Some (x, q\<lparr>nodes := (nodes q)(a := None), lhead := n,
                         ltail := (if n = None then None else ltail q)\<rparr>)))"

text \<open>Following the chain from a pointer; no result on a dangling or cyclic chain.\<close>

partial_function (option) lq_walk :: "'a node_store \<Rightarrow> nat option \<Rightarrow> 'a list option" where
  "lq_walk h p =
     (case p of None \<Rightarrow> Some []
      | Some a \<Rightarrow> (case h a of None \<Rightarrow> None
                   | Some (x, n) \<Rightarrow> Option.bind (lq_walk h n) (\<lambda>xs. Some (x # xs))))"

section \<open>Representation\<close>

fun lpath :: "'a node_store \<Rightarrow> nat option \<Rightarrow> (nat \<times> 'a) list \<Rightarrow> bool" where
  "lpath h p [] \<longleftrightarrow> p = None"
| "lpath h p ((a, x) # ns) \<longleftrightarrow> p = Some a \<and> (\<exists>n. h a = Some (x, n) \<and> lpath h n ns)"

definition lq_repn :: "'a lq \<Rightarrow> (nat \<times> 'a) list \<Rightarrow> bool" where
  "lq_repn q ns \<longleftrightarrow> lpath (nodes q) (lhead q) ns \<and> distinct (map fst ns) \<and>
     dom (nodes q) = fst ` set ns \<and>
     ltail q = (if ns = [] then None else Some (fst (last ns)))"

definition lq_rep :: "'a lq \<Rightarrow> 'a list \<Rightarrow> bool" where
  "lq_rep q xs \<longleftrightarrow> (\<exists>ns. lq_repn q ns \<and> xs = map snd ns)"

definition lq_fresh :: "'a lq \<Rightarrow> nat \<Rightarrow> bool" where
  "lq_fresh q a \<longleftrightarrow> nodes q a = None"

section \<open>Lemmas\<close>

lemma lpath_upd_other [simp]:
  "a \<notin> fst ` set ns \<Longrightarrow> lpath (h(a := v)) p ns \<longleftrightarrow> lpath h p ns"
  by (induction h p ns rule: lpath.induct) auto

lemma lpath_snoc:
  assumes "lpath h p (ns @ [(t, y)])" and "distinct (map fst (ns @ [(t, y)]))"
    and "a \<notin> fst ` set (ns @ [(t, y)])"
  shows "lpath (h(a \<mapsto> (x, None), t \<mapsto> (y, Some a))) p (ns @ [(t, y), (a, x)])"
  using assms
proof (induction ns arbitrary: p)
  case Nil
  then show ?case by auto
next
  case (Cons m ns)
  obtain b z where m: "m = (b, z)" by (cases m)
  with Cons.prems obtain n where n: "p = Some b" "h b = Some (z, n)" "lpath h n (ns @ [(t, y)])"
    by auto
  have "lpath (h(a \<mapsto> (x, None), t \<mapsto> (y, Some a))) n (ns @ [(t, y), (a, x)])"
    using Cons.prems by (intro Cons.IH n(3)) auto
  moreover have "(h(a \<mapsto> (x, None), t \<mapsto> (y, Some a))) b = Some (z, n)"
    using Cons.prems m n(2) by auto
  ultimately show ?case using n(1) by (auto simp del: fun_upd_apply simp: m)
qed

lemma lpath_last:
  "lpath h p (ns @ [(t, y)]) \<Longrightarrow> h t = Some (y, None)"
  by (induction ns arbitrary: p) auto

lemma lq_rep_empty: "lq_rep lq_empty []"
  by (auto simp: lq_rep_def lq_repn_def lq_empty_def)

lemma lq_repn_push_front:
  assumes "lq_repn q ns" and "lq_fresh q a"
  shows "lq_repn (lq_push_front a x q) ((a, x) # ns)"
proof -
  have "a \<notin> fst ` set ns"
    using assms by (auto simp: lq_repn_def lq_fresh_def domIff)
  with assms show ?thesis
    by (auto simp: lq_repn_def lq_push_front_def)
qed

lemma lq_repn_push_back:
  assumes rep: "lq_repn q ns" and fresh: "lq_fresh q a"
  shows "lq_repn (lq_push_back a x q) (ns @ [(a, x)])"
proof (cases ns rule: rev_cases)
  case Nil
  with rep show ?thesis by (auto simp: lq_repn_def lq_push_back_def Let_def)
next
  case (snoc ms m)
  obtain t y where m: "m = (t, y)" by (cases m)
  have notin: "a \<notin> fst ` set ns" using rep fresh by (auto simp: lq_repn_def lq_fresh_def domIff)
  then have at: "a \<noteq> t" using snoc m by auto
  from rep snoc m have path: "lpath (nodes q) (lhead q) (ms @ [(t, y)])"
    and dist: "distinct (map fst (ms @ [(t, y)]))" and tl: "ltail q = Some t"
    by (auto simp: lq_repn_def)
  have ht: "nodes q t = Some (y, None)" by (rule lpath_last [OF path])
  have "lq_push_back a x q =
      q\<lparr>nodes := (nodes q)(a \<mapsto> (x, None), t \<mapsto> (y, Some a)), ltail := Some a\<rparr>"
    using tl ht at by (simp add: lq_push_back_def Let_def)
  then show ?thesis
    using rep snoc m notin lpath_snoc [OF path dist] by (auto simp: lq_repn_def)
qed

lemma lq_rep_push_front: "lq_rep q xs \<Longrightarrow> lq_fresh q a \<Longrightarrow> lq_rep (lq_push_front a x q) (x # xs)"
  by (force simp: lq_rep_def dest: lq_repn_push_front)

lemma lq_rep_push_back: "lq_rep q xs \<Longrightarrow> lq_fresh q a \<Longrightarrow> lq_rep (lq_push_back a x q) (xs @ [x])"
  by (force simp: lq_rep_def dest: lq_repn_push_back)

lemma lq_pop_Nil: "lq_rep q [] \<Longrightarrow> lq_pop q = None"
  by (auto simp: lq_rep_def lq_repn_def lq_pop_def)

lemma lq_pop_Cons:
  assumes "lq_rep q (x # xs)"
  shows "\<exists>q'. lq_pop q = Some (x, q') \<and> lq_rep q' xs"
proof -
  obtain a ns where rep: "lq_repn q ((a, x) # ns)" and xs: "xs = map snd ns"
    using assms by (auto simp: lq_rep_def map_eq_Cons_conv)
  then obtain n where n: "lhead q = Some a" "nodes q a = Some (x, n)" "lpath (nodes q) n ns"
    by (auto simp: lq_repn_def)
  have nz: "n = None \<longleftrightarrow> ns = []" using n(3) by (cases ns) auto
  have "lq_repn (q\<lparr>nodes := (nodes q)(a := None), lhead := n,
                  ltail := (if n = None then None else ltail q)\<rparr>) ns"
    using rep n nz by (auto simp: lq_repn_def)
  with n xs show ?thesis by (auto simp: lq_pop_def lq_rep_def)
qed

lemma lq_walk_path: "lpath h p ns \<Longrightarrow> lq_walk h p = Some (map snd ns)"
  by (induction h p ns rule: lpath.induct) (auto simp: lq_walk.simps)

lemma lq_walk_rep: "lq_rep q xs \<Longrightarrow> lq_walk (nodes q) (lhead q) = Some xs"
  by (auto simp: lq_rep_def lq_repn_def lq_walk_path)

lemma lq_rep_unique: "lq_rep q xs \<Longrightarrow> lq_rep q ys \<Longrightarrow> xs = ys"
  by (metis lq_walk_rep option.inject)

section \<open>Nodes that are allocated but not in the queue\<close>

text \<open>
  A consumer that has unlinked nodes and not freed them yet leaves them in the store: the queue
  without the nodes \<open>D\<close> is \<open>lq_off D q\<close>. Insertions commute with taking those nodes away and do not
  touch them.
\<close>

definition lq_off :: "nat set \<Rightarrow> 'a lq \<Rightarrow> 'a lq" where
  "lq_off D q = q\<lparr>nodes := nodes q |` (- D)\<rparr>"

lemma lq_off_empty [simp]: "lq_off {} q = q"
  by (simp add: lq_off_def restrict_map_def)

lemma lq_off_fresh: "lq_fresh q a \<Longrightarrow> lq_fresh (lq_off D q) a"
  by (auto simp: lq_fresh_def lq_off_def restrict_map_def)

lemma lq_off_tail:
  assumes "lq_rep (lq_off D q) xs" and "ltail q = Some t"
  shows "t \<notin> D"
proof -
  obtain ns where ns: "lq_repn (lq_off D q) ns" using assms(1) by (auto simp: lq_rep_def)
  then have ne: "ns \<noteq> []" and t: "t = fst (last ns)"
    using assms(2) by (auto simp: lq_repn_def lq_off_def split: if_splits)
  have "t \<in> dom (nodes (lq_off D q))" using ns ne t by (auto simp: lq_repn_def)
  then show ?thesis by (auto simp: lq_off_def)
qed

lemma lq_off_push_front: "a \<notin> D \<Longrightarrow> lq_off D (lq_push_front a x q) = lq_push_front a x (lq_off D q)"
  by (auto simp: lq_off_def lq_push_front_def restrict_map_def fun_eq_iff)

lemma lq_off_push_back:
  assumes "a \<notin> D" and "\<And>t. ltail q = Some t \<Longrightarrow> t \<notin> D"
  shows "lq_off D (lq_push_back a x q) = lq_push_back a x (lq_off D q)"
  using assms by (auto simp: lq_off_def lq_push_back_def restrict_map_def Let_def fun_eq_iff split: option.splits)

lemma lq_push_keeps:
  assumes "lq_fresh q a" and "b \<in> D" and "D \<subseteq> dom (nodes q)"
  shows "nodes (lq_push_front a x q) b = nodes q b"
    and "(\<And>t. ltail q = Some t \<Longrightarrow> t \<notin> D) \<Longrightarrow> nodes (lq_push_back a x q) b = nodes q b"
  using assms by (auto simp: lq_fresh_def lq_push_front_def lq_push_back_def Let_def split: option.splits)

section \<open>The interface\<close>

datatype 'a qop = PushBack nat 'a | PushFront nat 'a | Pop

text \<open>What a run of queue operations does to the sequence; the second component is what the pops returned.\<close>

fun qops_spec :: "'a list \<Rightarrow> 'a qop list \<Rightarrow> 'a list \<times> 'a option list" where
  "qops_spec xs [] = (xs, [])"
| "qops_spec xs (PushBack a x # ops) = qops_spec (xs @ [x]) ops"
| "qops_spec xs (PushFront a x # ops) = qops_spec (x # xs) ops"
| "qops_spec [] (Pop # ops) = (let (r, out) = qops_spec [] ops in (r, None # out))"
| "qops_spec (x # xs) (Pop # ops) = (let (r, out) = qops_spec xs ops in (r, Some x # out))"

fun qops_run :: "(nat \<Rightarrow> 'a \<Rightarrow> 'q \<Rightarrow> 'q) \<Rightarrow> (nat \<Rightarrow> 'a \<Rightarrow> 'q \<Rightarrow> 'q) \<Rightarrow> ('q \<Rightarrow> ('a \<times> 'q) option) \<Rightarrow>
    'q \<Rightarrow> 'a qop list \<Rightarrow> 'q \<times> 'a option list" where
  "qops_run pb pf pp q [] = (q, [])"
| "qops_run pb pf pp q (PushBack a x # ops) = qops_run pb pf pp (pb a x q) ops"
| "qops_run pb pf pp q (PushFront a x # ops) = qops_run pb pf pp (pf a x q) ops"
| "qops_run pb pf pp q (Pop # ops) =
     (case pp q of
        None \<Rightarrow> (let (r, out) = qops_run pb pf pp q ops in (r, None # out))
      | Some (x, q') \<Rightarrow> (let (r, out) = qops_run pb pf pp q' ops in (r, Some x # out)))"

text \<open>Every push of the run is given an address that is free when it happens.\<close>

fun qops_fresh :: "(nat \<Rightarrow> 'a \<Rightarrow> 'q \<Rightarrow> 'q) \<Rightarrow> (nat \<Rightarrow> 'a \<Rightarrow> 'q \<Rightarrow> 'q) \<Rightarrow> ('q \<Rightarrow> ('a \<times> 'q) option) \<Rightarrow>
    ('q \<Rightarrow> nat \<Rightarrow> bool) \<Rightarrow> 'q \<Rightarrow> 'a qop list \<Rightarrow> bool" where
  "qops_fresh pb pf pp fr q [] \<longleftrightarrow> True"
| "qops_fresh pb pf pp fr q (PushBack a x # ops) \<longleftrightarrow> fr q a \<and> qops_fresh pb pf pp fr (pb a x q) ops"
| "qops_fresh pb pf pp fr q (PushFront a x # ops) \<longleftrightarrow> fr q a \<and> qops_fresh pb pf pp fr (pf a x q) ops"
| "qops_fresh pb pf pp fr q (Pop # ops) \<longleftrightarrow>
     (case pp q of None \<Rightarrow> qops_fresh pb pf pp fr q ops | Some (x, q') \<Rightarrow> qops_fresh pb pf pp fr q' ops)"

locale linked_queue =
  fixes rep :: "'q \<Rightarrow> 'a list \<Rightarrow> bool"
    and push_back :: "nat \<Rightarrow> 'a \<Rightarrow> 'q \<Rightarrow> 'q"
    and push_front :: "nat \<Rightarrow> 'a \<Rightarrow> 'q \<Rightarrow> 'q"
    and pop :: "'q \<Rightarrow> ('a \<times> 'q) option"
    and fresh :: "'q \<Rightarrow> nat \<Rightarrow> bool"
  assumes rep_push_back: "rep q xs \<Longrightarrow> fresh q a \<Longrightarrow> rep (push_back a x q) (xs @ [x])"
    and rep_push_front: "rep q xs \<Longrightarrow> fresh q a \<Longrightarrow> rep (push_front a x q) (x # xs)"
    and pop_Nil: "rep q [] \<Longrightarrow> pop q = None"
    and pop_Cons: "rep q (x # xs) \<Longrightarrow> \<exists>q'. pop q = Some (x, q') \<and> rep q' xs"
begin

lemma run_refines:
  assumes "rep q xs" and "qops_fresh push_back push_front pop fresh q ops"
  shows "\<exists>q'. qops_run push_back push_front pop q ops = (q', snd (qops_spec xs ops)) \<and>
           rep q' (fst (qops_spec xs ops))"
  using assms
proof (induction xs ops arbitrary: q rule: qops_spec.induct)
  case (1 xs)
  then show ?case by simp
next
  case (2 xs a x ops)
  then show ?case by (simp add: rep_push_back)
next
  case (3 xs a x ops)
  then show ?case by (simp add: rep_push_front)
next
  case (4 ops)
  then show ?case using pop_Nil [of q] by (fastforce split: prod.splits)
next
  case (5 x xs ops)
  obtain q' where "pop q = Some (x, q')" "rep q' xs" using pop_Cons 5(2) by blast
  with 5 show ?case by (fastforce split: prod.splits)
qed

end

interpretation lq: linked_queue lq_rep lq_push_back lq_push_front lq_pop lq_fresh
  by unfold_locales (simp_all add: lq_rep_push_back lq_rep_push_front lq_pop_Nil lq_pop_Cons)

end
