(* ===== verification/Mpsc.thy ===== *)
theory Mpsc
  imports Ztk_Prelude
begin

unbundle bit_operations_syntax

text \<open>
  The bounded multi-producer single-consumer queue of \<^verbatim>\<open>src/util/mpsc.c\<close>: a ring of cells with
  sequence numbers. \<open>ztk_mpsc_push\<close> and \<open>ztk_mpsc_pop\<close> are the two operations run without
  interference (the retry loop of push may not end, so it is an \<open>option\<close>); they refine a bounded
  FIFO list. \<open>mpsc_step\<close> interleaves any number of producers with the consumer at the granularity
  of single atomic operations (the code uses sequentially consistent atomics). Positions are 64-bit
  and the signed difference of the code is exact while they stay below \<open>2 ^ 63\<close>, which is the
  bound the theorems carry.
\<close>

section \<open>State\<close>

record 'a mpsc_cell =
  cdata :: "'a option"
  cseq :: u64

record 'a mpsc_queue =
  qbuf :: "'a mpsc_cell list"
  qcap :: size_t
  qmask :: size_t
  qhead :: u64
  qtail :: u64

definition is_pow2 :: "size_t \<Rightarrow> bool" where
  "is_pow2 n \<longleftrightarrow> 2 \<le> n \<and> n AND (n - 1) = 0"

definition ztk_mpsc_create :: "bool \<Rightarrow> bool \<Rightarrow> size_t \<Rightarrow> 'a mpsc_queue option" where
  "ztk_mpsc_create calloc_q calloc_buf cap_pow2 =
     (if \<not> is_pow2 cap_pow2 then None
      else if \<not> calloc_q then None
      else if \<not> calloc_buf then None
      else Some \<lparr>qbuf = map (\<lambda>i. \<lparr>cdata = None, cseq = of_nat i\<rparr>) [0..<unat cap_pow2],
                 qcap = cap_pow2, qmask = cap_pow2 - 1, qhead = 0, qtail = 0\<rparr>)"

text \<open>\<^verbatim>\<open>&q->buf[(size_t)(pos & q->mask)]\<close> and \<^verbatim>\<open>(int64_t)seq - (int64_t)pos\<close>\<close>

definition cell_idx :: "'a mpsc_queue \<Rightarrow> u64 \<Rightarrow> nat" where
  "cell_idx q pos = unat (pos AND qmask q)"

definition seq_dif :: "u64 \<Rightarrow> u64 \<Rightarrow> int" where
  "seq_dif sq pos = sint sq - sint pos"

definition cell_at :: "'a mpsc_queue \<Rightarrow> u64 \<Rightarrow> 'a mpsc_cell" where
  "cell_at q pos = qbuf q ! cell_idx q pos"

definition set_cdata :: "'a mpsc_queue \<Rightarrow> u64 \<Rightarrow> 'a option \<Rightarrow> 'a mpsc_queue" where
  "set_cdata q pos d = q\<lparr>qbuf := (qbuf q)[cell_idx q pos := (cell_at q pos)\<lparr>cdata := d\<rparr>]\<rparr>"

definition set_cseq :: "'a mpsc_queue \<Rightarrow> u64 \<Rightarrow> u64 \<Rightarrow> 'a mpsc_queue" where
  "set_cseq q pos sq = q\<lparr>qbuf := (qbuf q)[cell_idx q pos := (cell_at q pos)\<lparr>cseq := sq\<rparr>]\<rparr>"

section \<open>The operations without interference\<close>

text \<open>
  The retry loop: the position it reserves (\<open>Inr\<close>), or \<open>ZTK_ERR_AGAIN\<close> when the ring is full. With
  nobody else running, the compare-and-swap succeeds exactly when the tail is still \<open>pos\<close>.
\<close>

partial_function (option) push_loop :: "'a mpsc_queue \<Rightarrow> u64 \<Rightarrow> (ztk_err + u64) option" where
  "push_loop q pos =
     (let dif = seq_dif (cseq (cell_at q pos)) pos in
      if dif = 0 then
        (if qtail q = pos then Some (Inr pos) else push_loop q (qtail q))
      else if dif < 0 then Some (Inl ZTK_ERR_AGAIN)
      else push_loop q (qtail q))"

definition ztk_mpsc_push ::
    "'a mpsc_queue option \<Rightarrow> 'a option \<Rightarrow> (ztk_err \<times> 'a mpsc_queue option) option" where
  "ztk_mpsc_push qo item =
     (case qo of None \<Rightarrow> Some (ZTK_ERR_INVALID, None)
      | Some q \<Rightarrow>
          do {
            r \<leftarrow> push_loop q (qtail q);
            (case r of
               Inl e \<Rightarrow> Some (e, Some q)
             | Inr pos \<Rightarrow>
                 (let q1 = q\<lparr>qtail := pos + 1\<rparr>;
                      q2 = set_cdata q1 pos item;
                      q3 = set_cseq q2 pos (pos + 1)
                  in Some (ZTK_OK, Some q3)))
          })"

definition ztk_mpsc_pop :: "'a mpsc_queue option \<Rightarrow> 'a option \<times> 'a mpsc_queue option" where
  "ztk_mpsc_pop qo =
     (case qo of None \<Rightarrow> (None, None)
      | Some q \<Rightarrow>
          let pos = qhead q;
              dif = seq_dif (cseq (cell_at q pos)) (pos + 1)
          in if dif \<noteq> 0 then (None, Some q)
             else (cdata (cell_at q pos),
                   Some ((set_cseq q pos (pos + qmask q + 1))\<lparr>qhead := pos + 1\<rparr>)))"

section \<open>Producers and the consumer, interleaved\<close>

text \<open>
  Where a producer stands in \<^verbatim>\<open>ztk_mpsc_push(q, x)\<close>: before loading the tail, before loading the
  cell's sequence, before the compare-and-swap, before writing the cell's data, before publishing
  its sequence, returning.
\<close>

datatype 'a producer =
    PIdle
  | PTail "'a option"
  | PSeq "'a option" u64
  | PCas "'a option" u64
  | PWrite "'a option" u64
  | PStore "'a option" u64
  | PDone ztk_err

text \<open>Likewise for the consumer in \<^verbatim>\<open>ztk_mpsc_pop(q)\<close>; \<open>CDone\<close> holds the returned pointer.\<close>

datatype 'a consumer =
    CIdle
  | CSeq u64
  | CRead u64
  | CSetSeq u64 "'a option"
  | CSetHead u64 "'a option"
  | CDone "'a option"

text \<open>
  The system. \<open>reserved\<close> and \<open>taken\<close> are history: the items in the order their compare-and-swaps
  succeeded, and the items in the order the consumer read them.
\<close>

record 'a mpsc_sys =
  mq :: "'a mpsc_queue"
  prods :: "nat \<Rightarrow> 'a producer"
  consumer :: "'a consumer"
  reserved :: "'a option list"
  taken :: "'a option list"

definition mpsc_init :: "'a mpsc_queue \<Rightarrow> 'a mpsc_sys" where
  "mpsc_init q = \<lparr>mq = q, prods = (\<lambda>_. PIdle), consumer = CIdle, reserved = [], taken = []\<rparr>"

inductive mpsc_step :: "'a mpsc_sys \<Rightarrow> 'a mpsc_sys \<Rightarrow> bool" where
  push_call: "prods s i = PIdle \<Longrightarrow> mpsc_step s (s\<lparr>prods := (prods s)(i := PTail x)\<rparr>)"
| load_tail: "prods s i = PTail x \<Longrightarrow>
    mpsc_step s (s\<lparr>prods := (prods s)(i := PSeq x (qtail (mq s)))\<rparr>)"
| seq_eq: "prods s i = PSeq x pos \<Longrightarrow> seq_dif (cseq (cell_at (mq s) pos)) pos = 0 \<Longrightarrow>
    mpsc_step s (s\<lparr>prods := (prods s)(i := PCas x pos)\<rparr>)"
| seq_lt: "prods s i = PSeq x pos \<Longrightarrow> seq_dif (cseq (cell_at (mq s) pos)) pos < 0 \<Longrightarrow>
    mpsc_step s (s\<lparr>prods := (prods s)(i := PDone ZTK_ERR_AGAIN)\<rparr>)"
| seq_gt: "prods s i = PSeq x pos \<Longrightarrow> seq_dif (cseq (cell_at (mq s) pos)) pos > 0 \<Longrightarrow>
    mpsc_step s (s\<lparr>prods := (prods s)(i := PTail x)\<rparr>)"
| cas_ok: "prods s i = PCas x pos \<Longrightarrow> qtail (mq s) = pos \<Longrightarrow>
    mpsc_step s (s\<lparr>mq := (mq s)\<lparr>qtail := pos + 1\<rparr>,
                   prods := (prods s)(i := PWrite x pos), reserved := reserved s @ [x]\<rparr>)"
| cas_fail: "prods s i = PCas x pos \<Longrightarrow> qtail (mq s) \<noteq> pos \<Longrightarrow>
    mpsc_step s (s\<lparr>prods := (prods s)(i := PSeq x (qtail (mq s)))\<rparr>)"
| write_data: "prods s i = PWrite x pos \<Longrightarrow>
    mpsc_step s (s\<lparr>mq := set_cdata (mq s) pos x, prods := (prods s)(i := PStore x pos)\<rparr>)"
| store_seq: "prods s i = PStore x pos \<Longrightarrow>
    mpsc_step s (s\<lparr>mq := set_cseq (mq s) pos (pos + 1), prods := (prods s)(i := PDone ZTK_OK)\<rparr>)"
| push_return: "prods s i = PDone e \<Longrightarrow> mpsc_step s (s\<lparr>prods := (prods s)(i := PIdle)\<rparr>)"
| pop_call: "consumer s = CIdle \<Longrightarrow> mpsc_step s (s\<lparr>consumer := CSeq (qhead (mq s))\<rparr>)"
| pop_ready: "consumer s = CSeq pos \<Longrightarrow> seq_dif (cseq (cell_at (mq s) pos)) (pos + 1) = 0 \<Longrightarrow>
    mpsc_step s (s\<lparr>consumer := CRead pos\<rparr>)"
| pop_empty: "consumer s = CSeq pos \<Longrightarrow> seq_dif (cseq (cell_at (mq s) pos)) (pos + 1) \<noteq> 0 \<Longrightarrow>
    mpsc_step s (s\<lparr>consumer := CDone None\<rparr>)"
| pop_read: "consumer s = CRead pos \<Longrightarrow>
    mpsc_step s (s\<lparr>consumer := CSetSeq pos (cdata (cell_at (mq s) pos)),
                   taken := taken s @ [cdata (cell_at (mq s) pos)]\<rparr>)"
| pop_recycle: "consumer s = CSetSeq pos d \<Longrightarrow>
    mpsc_step s (s\<lparr>mq := set_cseq (mq s) pos (pos + qmask (mq s) + 1), consumer := CSetHead pos d\<rparr>)"
| pop_advance: "consumer s = CSetHead pos d \<Longrightarrow>
    mpsc_step s (s\<lparr>mq := (mq s)\<lparr>qhead := pos + 1\<rparr>, consumer := CDone d\<rparr>)"
| pop_return: "consumer s = CDone d \<Longrightarrow> mpsc_step s (s\<lparr>consumer := CIdle\<rparr>)"

inductive mpsc_reach :: "'a mpsc_queue \<Rightarrow> 'a mpsc_sys \<Rightarrow> bool" for q where
  mpsc_start: "mpsc_reach q (mpsc_init q)"
| mpsc_next: "mpsc_reach q s \<Longrightarrow> mpsc_step s t \<Longrightarrow> mpsc_reach q t"

section \<open>Geometry of the ring\<close>

lemma pow2_and_pred_nat: "n AND (n - 1) = 0 \<Longrightarrow> 0 < n \<Longrightarrow> \<exists>k. (n :: nat) = 2 ^ k"
proof (induction n rule: less_induct)
  case (less n)
  show ?case
  proof (cases "even n")
    case True
    then obtain m where m: "n = 2 * m" by blast
    with less.prems have pos: "0 < m" by simp
    then have "2 * m - 1 = 2 * (m - 1) + 1" by simp
    then have "n AND (n - 1) = 2 * (m AND (m - 1))"
      using m pos by (simp add: and_nat_unfold [of "2 * m"])
    with less.prems have "m AND (m - 1) = 0" by simp
    with less.IH [of m] pos m obtain k where "m = 2 ^ k" by auto
    with m have "n = 2 ^ Suc k" by simp
    then show ?thesis by blast
  next
    case False
    then obtain m where m: "n = 2 * m + 1" by (metis oddE)
    have "n AND (n - 1) = 2 * m" using m by (simp add: and_nat_unfold [of "Suc (2 * m)"])
    with less.prems m have "n = 2 ^ 0" by simp
    then show ?thesis by blast
  qed
qed

lemma is_pow2_exp:
  assumes "is_pow2 n"
  shows "\<exists>k. unat n = 2 ^ k \<and> 0 < k \<and> k < 64"
proof -
  have n2: "2 \<le> unat n" using assms by (simp add: is_pow2_def word_le_nat_alt)
  have "unat (n - 1) = unat n - 1" using n2 by (simp add: unat_sub_size)
  moreover have "unat (n AND (n - 1)) = unat n AND unat (n - 1)" by (simp add: unsigned_and_eq)
  ultimately have "unat n AND (unat n - 1) = 0" using assms by (simp add: is_pow2_def)
  with pow2_and_pred_nat n2 obtain k where k: "unat n = 2 ^ k" by (metis gr_zeroI not_numeral_le_zero)
  have "0 < k" using k n2 by (cases k) auto
  moreover have "k < 64"
  proof (rule ccontr)
    assume "\<not> k < 64"
    then have "(2 :: nat) ^ 64 \<le> 2 ^ k" by (intro power_increasing) auto
    with k unsigned_less [of n, where ?'a = nat] show False by simp
  qed
  ultimately show ?thesis using k by blast
qed

definition ring_wf :: "'a mpsc_queue \<Rightarrow> bool" where
  "ring_wf q \<longleftrightarrow> is_pow2 (qcap q) \<and> qmask q = qcap q - 1 \<and> length (qbuf q) = unat (qcap q)"

abbreviation ring_size :: "'a mpsc_queue \<Rightarrow> nat" where
  "ring_size q \<equiv> unat (qcap q)"

text \<open>The cell a position (a natural number) lives in.\<close>

definition cell_n :: "'a mpsc_queue \<Rightarrow> nat \<Rightarrow> 'a mpsc_cell" where
  "cell_n q p = qbuf q ! (p mod ring_size q)"

lemma ring_size_ge2: "ring_wf q \<Longrightarrow> 2 \<le> ring_size q"
  by (simp add: ring_wf_def is_pow2_def word_le_nat_alt)

lemma unat_of_nat_u64: "p < 2 ^ 64 \<Longrightarrow> unat (of_nat p :: u64) = p"
  by (simp only: unat_of_nat) simp

lemma of_nat_u64_inj: "p < 2 ^ 64 \<Longrightarrow> r < 2 ^ 64 \<Longrightarrow> (of_nat p :: u64) = of_nat r \<longleftrightarrow> p = r"
  by (metis unat_of_nat_u64)

lemma cell_idx_mod:
  assumes "ring_wf q" and "p < 2 ^ 64"
  shows "cell_idx q (of_nat p) = p mod ring_size q"
proof -
  obtain k where k: "ring_size q = 2 ^ k" using assms is_pow2_exp by (auto simp: ring_wf_def)
  have "unat (qcap q - 1) = ring_size q - 1"
    using ring_size_ge2 [OF assms(1)] by (simp add: unat_sub_size)
  then have "unat (of_nat p AND qmask q) = p AND (2 ^ k - 1)"
    using assms k by (simp add: ring_wf_def unsigned_and_eq unat_of_nat_u64)
  also have "\<dots> = p mod 2 ^ k"
    by (metis mask_eq_exp_minus_1 take_bit_eq_mask take_bit_eq_mod)
  finally show ?thesis using k by (simp add: cell_idx_def)
qed

lemma seq_dif_nat:
  assumes "p < 2 ^ 63" and "r < 2 ^ 63"
  shows "seq_dif (of_nat p) (of_nat r) = int p - int r"
  using assms by (simp add: seq_dif_def sint_of_nat_small)

lemma cell_at_nat: "ring_wf q \<Longrightarrow> p < 2 ^ 64 \<Longrightarrow> cell_at q (of_nat p) = cell_n q p"
  by (simp add: cell_at_def cell_n_def cell_idx_mod)

lemma ring_upd [simp]:
  "qcap (set_cdata q pos d) = qcap q" "qmask (set_cdata q pos d) = qmask q"
  "qhead (set_cdata q pos d) = qhead q" "qtail (set_cdata q pos d) = qtail q"
  "qcap (set_cseq q pos v) = qcap q" "qmask (set_cseq q pos v) = qmask q"
  "qhead (set_cseq q pos v) = qhead q" "qtail (set_cseq q pos v) = qtail q"
  "ring_wf (set_cdata q pos d) = ring_wf q" "ring_wf (set_cseq q pos v) = ring_wf q"
  "ring_wf (q\<lparr>qtail := t\<rparr>) = ring_wf q" "ring_wf (q\<lparr>qhead := t\<rparr>) = ring_wf q"
  "cell_n (q\<lparr>qtail := t\<rparr>) p = cell_n q p" "cell_n (q\<lparr>qhead := t\<rparr>) p = cell_n q p"
  by (simp_all add: set_cdata_def set_cseq_def ring_wf_def cell_n_def)

lemma cell_n_set_cdata:
  assumes "ring_wf q" and "p < 2 ^ 64"
  shows "cell_n (set_cdata q (of_nat p) d) r =
     (if r mod ring_size q = p mod ring_size q then (cell_n q p)\<lparr>cdata := d\<rparr> else cell_n q r)"
proof -
  have "p mod ring_size q < length (qbuf q)"
    using assms ring_size_ge2 [OF assms(1)] by (simp add: ring_wf_def)
  then show ?thesis
    using assms by (auto simp: set_cdata_def cell_n_def cell_at_def cell_idx_mod)
qed

lemma cell_n_set_cseq:
  assumes "ring_wf q" and "p < 2 ^ 64"
  shows "cell_n (set_cseq q (of_nat p) v) r =
     (if r mod ring_size q = p mod ring_size q then (cell_n q p)\<lparr>cseq := v\<rparr> else cell_n q r)"
proof -
  have "p mod ring_size q < length (qbuf q)"
    using assms ring_size_ge2 [OF assms(1)] by (simp add: ring_wf_def)
  then show ?thesis
    using assms by (auto simp: set_cseq_def cell_n_def cell_at_def cell_idx_mod)
qed

text \<open>Two positions of one window of ring length that share a cell are equal.\<close>

lemma window_mod_inj:
  assumes "R \<le> p" "p < R + n" "R \<le> r" "r < R + n" and "p mod n = r mod n"
  shows "p = (r :: nat)"
proof -
  have eq: "b = c" if "c \<le> b" "b - c < n" "b mod n = c mod n" for b c :: nat
  proof -
    have "n dvd b - c" using that(1,3) mod_eq_dvd_iff_nat [of c b n] by simp
    then have "\<not> 0 < b - c" using that(2) nat_dvd_not_less by blast
    with that(1) show ?thesis by simp
  qed
  show ?thesis
  proof (cases "r \<le> p")
    case True
    then show ?thesis by (rule eq) (use assms in simp_all)
  next
    case False
    then have "p \<le> r" by simp
    then have "r = p" by (rule eq) (use assms in simp_all)
    then show ?thesis ..
  qed
qed

section \<open>The invariant of the interleaved queue\<close>

text \<open>
  A producer that won the compare-and-swap owns its position until it publishes it. A position
  below the tail is published (its cell carries the next sequence number and the item) or owned
  by a producer; a position at or above the tail is free.
\<close>

definition owns :: "'a producer \<Rightarrow> u64 \<Rightarrow> 'a option \<Rightarrow> bool" where
  "owns pr pos x \<longleftrightarrow> pr = PWrite x pos \<or> pr = PStore x pos"

definition published :: "'a mpsc_queue \<Rightarrow> 'a option list \<Rightarrow> nat \<Rightarrow> bool" where
  "published q rs p \<longleftrightarrow> p < length rs \<and> cseq (cell_n q p) = of_nat (p + 1) \<and> cdata (cell_n q p) = rs ! p"

definition slot_ok :: "'a mpsc_queue \<Rightarrow> 'a option list \<Rightarrow> (nat \<Rightarrow> 'a producer) \<Rightarrow> nat \<Rightarrow> bool" where
  "slot_ok q rs ps p \<longleftrightarrow>
     (if length rs \<le> p then cseq (cell_n q p) = of_nat p
      else published q rs p \<or> (cseq (cell_n q p) = of_nat p \<and> (\<exists>i. owns (ps i) (of_nat p) (rs ! p))))"

fun prod_ok :: "'a mpsc_queue \<Rightarrow> 'a option list \<Rightarrow> nat \<Rightarrow> 'a producer \<Rightarrow> bool" where
  "prod_ok q rs R (PSeq x pos) \<longleftrightarrow> (\<exists>p. pos = of_nat p \<and> p \<le> length rs)"
| "prod_ok q rs R (PCas x pos) \<longleftrightarrow> (\<exists>p. pos = of_nat p \<and> p \<le> length rs \<and> p < R + ring_size q)"
| "prod_ok q rs R (PWrite x pos) \<longleftrightarrow>
     (\<exists>p. pos = of_nat p \<and> R \<le> p \<and> p < length rs \<and> rs ! p = x \<and> cseq (cell_n q p) = of_nat p)"
| "prod_ok q rs R (PStore x pos) \<longleftrightarrow>
     (\<exists>p. pos = of_nat p \<and> R \<le> p \<and> p < length rs \<and> rs ! p = x \<and> cseq (cell_n q p) = of_nat p \<and>
          cdata (cell_n q p) = x)"
| "prod_ok q rs R _ \<longleftrightarrow> True"

text \<open>
  \<open>recycled\<close> positions have been given back to the producers; the head pointer lags behind by one
  between the two stores of pop.
\<close>

fun recycled :: "'a consumer \<Rightarrow> nat \<Rightarrow> nat" where
  "recycled (CSetSeq pos d) L = L - 1"
| "recycled _ L = L"

fun head_pos :: "'a consumer \<Rightarrow> nat \<Rightarrow> nat" where
  "head_pos (CSetSeq pos d) L = L - 1"
| "head_pos (CSetHead pos d) L = L - 1"
| "head_pos _ L = L"

fun cons_ok :: "'a mpsc_queue \<Rightarrow> 'a option list \<Rightarrow> nat \<Rightarrow> 'a consumer \<Rightarrow> bool" where
  "cons_ok q rs L (CSeq pos) \<longleftrightarrow> pos = of_nat L"
| "cons_ok q rs L (CRead pos) \<longleftrightarrow> pos = of_nat L \<and> published q rs L"
| "cons_ok q rs L (CSetSeq pos d) \<longleftrightarrow> 0 < L \<and> pos = of_nat (L - 1) \<and> published q rs (L - 1) \<and> d = rs ! (L - 1)"
| "cons_ok q rs L (CSetHead pos d) \<longleftrightarrow> 0 < L \<and> pos = of_nat (L - 1) \<and> d = rs ! (L - 1)"
| "cons_ok q rs L _ \<longleftrightarrow> True"

definition mpsc_inv_at ::
    "'a mpsc_queue \<Rightarrow> 'a option list \<Rightarrow> nat \<Rightarrow> (nat \<Rightarrow> 'a producer) \<Rightarrow> 'a consumer \<Rightarrow> nat \<Rightarrow> bool" where
  "mpsc_inv_at q rs R ps c L \<longleftrightarrow>
     ring_wf q \<and> recycled c L = R \<and> qtail q = of_nat (length rs) \<and> qhead q = of_nat (head_pos c L) \<and>
     L \<le> length rs \<and> length rs \<le> R + ring_size q \<and>
     (\<forall>p. R \<le> p \<and> p < R + ring_size q \<longrightarrow> slot_ok q rs ps p) \<and>
     (\<forall>i. prod_ok q rs R (ps i)) \<and>
     (\<forall>i j pos x y. owns (ps i) pos x \<longrightarrow> owns (ps j) pos y \<longrightarrow> i = j) \<and>
     cons_ok q rs L c"

definition mpsc_inv :: "'a mpsc_sys \<Rightarrow> bool" where
  "mpsc_inv s \<longleftrightarrow>
     mpsc_inv_at (mq s) (reserved s) (recycled (consumer s) (length (taken s))) (prods s) (consumer s)
       (length (taken s)) \<and>
     taken s = take (length (taken s)) (reserved s)"

text \<open>The positions used so far, plus one turn of the ring, fit in 63 bits.\<close>

definition mpsc_bounded :: "'a mpsc_sys \<Rightarrow> bool" where
  "mpsc_bounded s \<longleftrightarrow> length (reserved s) + ring_size (mq s) < 2 ^ 63"

lemma head_irrelevant [simp]:
  "published (q\<lparr>qhead := t\<rparr>) rs p = published q rs p"
  "slot_ok (q\<lparr>qhead := t\<rparr>) rs ps p = slot_ok q rs ps p"
  "prod_ok (q\<lparr>qhead := t\<rparr>) rs R pr = prod_ok q rs R pr"
  by (simp_all add: published_def slot_ok_def) (cases pr; simp)

lemma recycled_le: "recycled c L \<le> L"
  by (cases c) auto

lemma window_rep:
  assumes "0 < n"
  shows "\<exists>p'. R \<le> p' \<and> p' < R + n \<and> p' mod n = p mod (n :: nat)"
proof -
  define p' where "p' = R + (p + n - R mod n) mod n"
  have "R mod n \<le> R" "R mod n < n" using assms by simp_all
  then have "R + (p + n - R mod n) = p + n + (R - R mod n)" by linarith
  then have "(R + (p + n - R mod n)) mod n = (p + n + (R - R mod n)) mod n" by simp
  also have "\<dots> = p mod n" by (simp add: minus_mod_eq_mult_div mod_add_right_eq [symmetric])
  finally have "p' mod n = p mod n" by (simp add: p'_def mod_add_right_eq)
  moreover have "(p + n - R mod n) mod n < n" using assms by simp
  ultimately show ?thesis by (auto simp: p'_def intro: exI [of _ p'])
qed

lemma mod_Suc_neq: "2 \<le> n \<Longrightarrow> Suc p mod n \<noteq> p mod (n :: nat)"
  by (simp add: mod_Suc)

text \<open>What sequence number any cell can carry.\<close>

lemma seq_window:
  assumes "mpsc_inv_at q rs R ps c L"
  shows "\<exists>p'. R \<le> p' \<and> p' < R + ring_size q \<and> p' mod ring_size q = p mod ring_size q \<and>
    (cseq (cell_n q p) = of_nat p' \<or> (cseq (cell_n q p) = of_nat (p' + 1) \<and> p' < length rs))"
proof -
  have wf: "ring_wf q" using assms by (simp add: mpsc_inv_at_def)
  obtain p' where p': "R \<le> p'" "p' < R + ring_size q" "p' mod ring_size q = p mod ring_size q"
    using window_rep [of "ring_size q" R p] ring_size_ge2 [OF wf] by auto
  moreover have "cell_n q p = cell_n q p'" using p'(3) by (simp add: cell_n_def)
  moreover have "slot_ok q rs ps p'" using assms p' by (simp add: mpsc_inv_at_def)
  ultimately show ?thesis by (auto simp: slot_ok_def published_def split: if_splits)
qed

definition owning :: "'a producer \<Rightarrow> bool" where
  "owning pr \<longleftrightarrow> (case pr of PWrite x pos \<Rightarrow> True | PStore x pos \<Rightarrow> True | _ \<Rightarrow> False)"

lemma owns_owning: "owns pr p x \<Longrightarrow> owning pr"
  by (auto simp: owns_def owning_def)

text \<open>A producer that moves between states in which it owns nothing keeps the invariant.\<close>

lemma inv_prod_local:
  assumes inv: "mpsc_inv_at q rs R ps c L"
    and no: "\<not> owning (ps i)" "\<not> owning pr" and ok: "prod_ok q rs R pr"
  shows "mpsc_inv_at q rs R (ps(i := pr)) c L"
proof -
  have o1: "\<not> owns (ps i) p x" "\<not> owns pr p x" for p x using no owns_owning by blast+
  have o2: "owns ((ps(i := pr)) j) p x \<longleftrightarrow> owns (ps j) p x" for j p x using o1 by auto
  have "slot_ok q rs (ps(i := pr)) p \<longleftrightarrow> slot_ok q rs ps p" for p
    by (simp add: slot_ok_def o2 del: fun_upd_apply)
  moreover have "prod_ok q rs R ((ps(i := pr)) j)" for j
    using inv ok by (simp add: mpsc_inv_at_def)
  ultimately show ?thesis
    using inv by (simp add: mpsc_inv_at_def o2 del: fun_upd_apply)
qed

text \<open>A successful compare-and-swap happens only while a cell is free.\<close>

lemma inv_cas_ok:
  assumes inv: "mpsc_inv_at q rs R ps c L" and pr: "ps i = PCas x (qtail q)"
    and bnd: "length rs + ring_size q < 2 ^ 63"
  shows "length rs < R + ring_size q \<and>
    mpsc_inv_at (q\<lparr>qtail := qtail q + 1\<rparr>) (rs @ [x]) R (ps(i := PWrite x (qtail q))) c L"
proof -
  let ?T = "length rs" and ?n = "ring_size q" and ?ps = "ps(i := PWrite x (qtail q))"
  note inv' = inv [unfolded mpsc_inv_at_def]
  have tl: "qtail q = of_nat ?T" and LT: "L \<le> ?T" using inv' by blast+
  have RL: "R \<le> L" using inv' recycled_le [of c L] by simp
  have "prod_ok q rs R (PCas x (qtail q))" using inv' pr by metis
  then obtain p where p: "of_nat ?T = (of_nat p :: u64)" "p \<le> ?T" "p < R + ?n" using tl by auto
  have "p = ?T" using p(1,2) bnd of_nat_u64_inj [of ?T p] by simp
  with p have room: "?T < R + ?n" by simp
  have own: "\<exists>p<?T. R \<le> p \<and> pos = of_nat p" if "owns (ps j) pos y" for j pos y
  proof -
    have "prod_ok q rs R (ps j)" using inv' by blast
    with that show ?thesis by (auto simp: owns_def)
  qed
  have ni: "\<not> owns (ps i) pos y" for pos y using pr by (simp add: owns_def)
  have slots: "slot_ok (q\<lparr>qtail := qtail q + 1\<rparr>) (rs @ [x]) ?ps r"
    if r: "R \<le> r" "r < R + ?n" for r
  proof -
    have s: "slot_ok q rs ps r" using inv' r by blast
    show ?thesis
    proof (cases "r = ?T")
      case True
      with s have "cseq (cell_n q r) = of_nat r" by (simp add: slot_ok_def)
      moreover have "owns (?ps i) (of_nat r) x" using True tl by (simp add: owns_def)
      ultimately show ?thesis using True by (auto simp: slot_ok_def)
    next
      case False
      have "owns (?ps j) pos y" if "owns (ps j) pos y" for j pos y
        using that ni by auto
      with s False show ?thesis
        by (auto simp: slot_ok_def published_def nth_append simp del: fun_upd_apply) blast+
    qed
  qed
  have prods: "prod_ok (q\<lparr>qtail := qtail q + 1\<rparr>) (rs @ [x]) R (?ps j)" for j
  proof (cases "j = i")
    case True
    have "slot_ok q rs ps ?T" using inv' RL LT room by auto
    then show ?thesis using True tl RL LT by (auto simp: slot_ok_def)
  next
    case False
    have "prod_ok q rs R (ps j)" using inv' by blast
    with False show ?thesis by (cases "ps j") (auto simp: nth_append intro: le_SucI less_SucI)
  qed
  have new: "\<not> owns (ps j) (qtail q) y" for j y
  proof
    assume "owns (ps j) (qtail q) y"
    then have "\<exists>p<?T. R \<le> p \<and> qtail q = of_nat p" by (rule own)
    then obtain p where "p < ?T" "of_nat ?T = (of_nat p :: u64)" using tl by auto
    then show False using bnd of_nat_u64_inj [of ?T p] by simp
  qed
  have dist: "a = b" if "owns (?ps a) pos y" "owns (?ps b) pos z" for a b pos y z
    using that new inv' by (auto simp: owns_def split: if_splits)
  have cons: "cons_ok (q\<lparr>qtail := qtail q + 1\<rparr>) (rs @ [x]) L c"
    using inv' by (cases c) (auto simp: published_def nth_append)
  show ?thesis
    using inv' room tl slots prods dist cons
    by (simp add: mpsc_inv_at_def add.commute del: fun_upd_apply)
qed

text \<open>Writing the item into an owned cell, and publishing it.\<close>

lemma inv_owner:
  assumes "mpsc_inv_at q rs R ps c L" and "owns (ps i) pos x"
  shows "\<exists>p. pos = of_nat p \<and> R \<le> p \<and> p < length rs \<and> rs ! p = x \<and> cseq (cell_n q p) = of_nat p"
proof -
  have "prod_ok q rs R (ps i)" using assms(1) by (simp add: mpsc_inv_at_def)
  with assms(2) show ?thesis by (auto simp: owns_def)
qed

lemma inv_write_data:
  assumes inv: "mpsc_inv_at q rs R ps c L" and pr: "ps i = PWrite x pos"
    and bnd: "length rs + ring_size q < 2 ^ 63"
  shows "mpsc_inv_at (set_cdata q pos x) rs R (ps(i := PStore x pos)) c L"
proof -
  let ?n = "ring_size q" and ?ps = "ps(i := PStore x pos)" and ?q = "set_cdata q pos x"
  note inv' = inv [unfolded mpsc_inv_at_def]
  have wf: "ring_wf q" and LT: "L \<le> length rs" and TR: "length rs \<le> R + ?n" using inv' by blast+
  obtain p where p: "pos = of_nat p" "R \<le> p" "p < length rs" "rs ! p = x" "cseq (cell_n q p) = of_nat p"
    using inv_owner [OF inv, of i pos x] pr by (auto simp: owns_def)
  have p64: "p < 2 ^ 64" using p bnd by simp
  have cell: "cell_n ?q r = (if r = p then (cell_n q p)\<lparr>cdata := x\<rparr> else cell_n q r)"
    if "R \<le> r" "r < R + ?n" for r
    using cell_n_set_cdata [OF wf p64] window_mod_inj [of R r ?n p] that p TR by auto
  have own: "owns (?ps j) ps' y \<longleftrightarrow> owns (ps j) ps' y" for j ps' y
    using pr by (auto simp: owns_def)
  have unpub: "\<not> published q rs p"
    using p bnd of_nat_u64_inj [of p "p + 1"] by (auto simp: published_def)
  have slots: "slot_ok ?q rs ?ps r" if r: "R \<le> r" "r < R + ?n" for r
  proof -
    have "slot_ok q rs ps r" using inv' r by blast
    then show ?thesis
      using cell [OF r] p(3) unpub
      by (cases "r = p") (auto simp: slot_ok_def published_def own simp del: fun_upd_apply)
  qed
  have prods: "prod_ok ?q rs R (?ps j)" for j
  proof (cases "j = i")
    case True
    with p cell [of p] TR show ?thesis by auto
  next
    case False
    have ok: "prod_ok q rs R (ps j)" using inv' by blast
    have diff: "owns (ps j) (of_nat p) y \<Longrightarrow> False" for y
      using False inv' pr p(1) by (auto simp: owns_def)
    show ?thesis
      using ok diff cell False TR by (cases "ps j") (fastforce simp: owns_def)+
  qed
  have cons: "cons_ok ?q rs L c"
  proof -
    have "published ?q rs r" if "published q rs r" "R \<le> r" for r
      using that cell [of r] unpub TR by (auto simp: published_def)
    with inv' show ?thesis by (cases c) auto
  qed
  show ?thesis
    using inv' slots prods cons by (simp add: mpsc_inv_at_def own del: fun_upd_apply)
qed

lemma inv_store_seq:
  assumes inv: "mpsc_inv_at q rs R ps c L" and pr: "ps i = PStore x pos"
    and bnd: "length rs + ring_size q < 2 ^ 63"
  shows "mpsc_inv_at (set_cseq q pos (pos + 1)) rs R (ps(i := PDone e)) c L"
proof -
  let ?n = "ring_size q" and ?ps = "ps(i := PDone e)" and ?q = "set_cseq q pos (pos + 1)"
  note inv' = inv [unfolded mpsc_inv_at_def]
  have wf: "ring_wf q" and LT: "L \<le> length rs" and TR: "length rs \<le> R + ?n" using inv' by blast+
  have "prod_ok q rs R (PStore x pos)" using inv' pr by metis
  then obtain p where p: "pos = of_nat p" "R \<le> p" "p < length rs" "rs ! p = x"
      "cseq (cell_n q p) = of_nat p" "cdata (cell_n q p) = x" by auto
  have p64: "p < 2 ^ 64" using p bnd by simp
  have cell: "cell_n ?q r = (if r = p then (cell_n q p)\<lparr>cseq := of_nat (p + 1)\<rparr> else cell_n q r)"
    if "R \<le> r" "r < R + ?n" for r
    using cell_n_set_cseq [OF wf p64] window_mod_inj [of R r ?n p] that p TR
    by (auto simp: add.commute)
  have diff: "\<not> owns (ps j) (of_nat p) y" if "j \<noteq> i" for j y
    using that inv' pr p(1) by (auto simp: owns_def)
  have keep: "owns (?ps j) ps' y" if "owns (ps j) ps' y" "ps' \<noteq> of_nat p" for j ps' y
    using that pr p(1) by (auto simp: owns_def)
  have own: "owns (ps j) ps' y" if "owns (?ps j) ps' y" for j ps' y
    using that by (auto simp: owns_def split: if_splits)
  have slots: "slot_ok ?q rs ?ps r" if r: "R \<le> r" "r < R + ?n" for r
  proof (cases "r = p")
    case True
    with cell [OF r] p show ?thesis by (auto simp: slot_ok_def published_def)
  next
    case False
    have "(of_nat r :: u64) \<noteq> of_nat p"
      using False r p TR bnd LT recycled_le [of c L] inv' of_nat_u64_inj [of r p] by auto
    moreover have "slot_ok q rs ps r" using inv' r by blast
    ultimately show ?thesis
      using cell [OF r] False keep
      by (auto simp: slot_ok_def published_def simp del: fun_upd_apply) blast+
  qed
  have prods: "prod_ok ?q rs R (?ps j)" for j
  proof (cases "j = i")
    case False
    have "prod_ok q rs R (ps j)" using inv' by blast
    with diff [OF False] cell False TR show ?thesis by (cases "ps j") (fastforce simp: owns_def)+
  qed simp
  have cons: "cons_ok ?q rs L c"
  proof -
    have "published ?q rs r" if "published q rs r" "R \<le> r" for r
      using that cell [of r] p(5) TR by (auto simp: published_def)
    with inv' show ?thesis by (cases c) auto
  qed
  have dist: "a = b" if "owns (?ps a) ps' y" "owns (?ps b) ps' z" for a b ps' y z
    using own [OF that(1)] own [OF that(2)] inv' by blast
  show ?thesis
    using inv' slots prods cons dist by (simp add: mpsc_inv_at_def del: fun_upd_apply)
qed

text \<open>The consumer gives the cell it has read back to the producers.\<close>

lemma inv_recycle:
  assumes inv: "mpsc_inv_at q rs R ps (CSetSeq pos d) L"
    and bnd: "length rs + ring_size q < 2 ^ 63"
  shows "mpsc_inv_at (set_cseq q pos (pos + qmask q + 1)) rs L ps (CSetHead pos d) L"
proof -
  let ?n = "ring_size q" and ?q = "set_cseq q pos (pos + qmask q + 1)"
  note inv' = inv [unfolded mpsc_inv_at_def]
  have wf: "ring_wf q" and LT: "L \<le> length rs" and TR: "length rs \<le> R + ?n" and R: "L = Suc R"
    and L: "pos = of_nat R" "published q rs R" "d = rs ! R"
    using inv' by auto
  have n2: "2 \<le> ?n" by (rule ring_size_ge2 [OF wf])
  have val: "pos + qmask q + 1 = of_nat (R + ?n)"
    using wf L(1) by (simp add: ring_wf_def)
  have R64: "R < 2 ^ 64" using R LT bnd by simp
  have cell: "cell_n ?q r = (if r = R + ?n then (cell_n q R)\<lparr>cseq := of_nat (R + ?n)\<rparr> else cell_n q r)"
    if "L \<le> r" "r < L + ?n" for r
  proof -
    have "r mod ?n = R mod ?n \<longleftrightarrow> r = R + ?n"
      using window_mod_inj [of L r ?n "R + ?n"] that R n2 by auto
    then show ?thesis
      using cell_n_set_cseq [OF wf R64, of "pos + qmask q + 1" r] L(1) val by simp
  qed
  have slots: "slot_ok ?q rs ps r" if r: "L \<le> r" "r < L + ?n" for r
  proof (cases "r = R + ?n")
    case True
    with cell [OF r] TR show ?thesis by (auto simp: slot_ok_def)
  next
    case False
    with r R have "R \<le> r \<and> r < R + ?n" by auto
    then have "slot_ok q rs ps r" using inv' by blast
    with cell [OF r] False show ?thesis by (auto simp: slot_ok_def published_def split: if_splits)
  qed
  have prods: "prod_ok ?q rs L (ps j)" for j
  proof -
    have ok: "prod_ok q rs R (ps j)" using inv' by blast
    have neq: "cseq (cell_n q p) = of_nat p \<Longrightarrow> R \<le> p \<Longrightarrow> L \<le> p" for p
      using L(2) R of_nat_u64_inj [of R "R + 1"] R64 LT bnd
      by (cases "p = R") (auto simp: published_def)
    have lt: "p < length rs \<Longrightarrow> p < L + ?n \<and> p \<noteq> R + ?n" for p using TR R by auto
    show ?thesis
      using ok neq lt cell R by (cases "ps j") (fastforce)+
  qed
  show ?thesis
    using inv' slots prods L TR R by (simp add: mpsc_inv_at_def)
qed

text \<open>Reading a sequence number: equal to the position only inside the window, smaller only when full.\<close>

lemma seq_read:
  assumes inv: "mpsc_inv_at q rs R ps c L" and p: "p \<le> length rs"
    and bnd: "length rs + ring_size q < 2 ^ 63"
  shows "seq_dif (cseq (cell_at q (of_nat p))) (of_nat p) = 0 \<Longrightarrow> p < R + ring_size q"
    and "seq_dif (cseq (cell_at q (of_nat p))) (of_nat p) < 0 \<Longrightarrow>
           p = length rs \<and> length rs = R + ring_size q"
proof -
  note inv' = inv [unfolded mpsc_inv_at_def]
  have wf: "ring_wf q" and TR: "length rs \<le> R + ring_size q" using inv' by blast+
  have RT: "R \<le> length rs" using inv' recycled_le [of c L] by auto
  have n2: "2 \<le> ring_size q" by (rule ring_size_ge2 [OF wf])
  obtain p' where p': "R \<le> p'" "p' < R + ring_size q" "p' mod ring_size q = p mod ring_size q"
    and sq: "cseq (cell_n q p) = of_nat p' \<or> (cseq (cell_n q p) = of_nat (p' + 1) \<and> p' < length rs)"
    using seq_window [OF inv, of p] by blast
  have cell: "cell_at q (of_nat p) = cell_n q p" using cell_at_nat [OF wf] p bnd by simp
  have b: "p < 2 ^ 63" "p' + 1 < 2 ^ 63" using p p' TR RT bnd by auto
  have dif: "seq_dif (cseq (cell_at q (of_nat p))) (of_nat p) = int p' - int p \<or>
             seq_dif (cseq (cell_at q (of_nat p))) (of_nat p) = int (p' + 1) - int p"
    using sq cell seq_dif_nat [of p' p] seq_dif_nat [of "p' + 1" p] b by auto
  show "p < R + ring_size q" if "seq_dif (cseq (cell_at q (of_nat p))) (of_nat p) = 0"
  proof -
    have "p = p' \<or> p = Suc p'" using dif that by auto
    moreover have "p \<noteq> Suc p'" using p'(3) mod_Suc_neq [OF n2, of p'] by auto
    ultimately show ?thesis using p' by simp
  qed
  show "p = length rs \<and> length rs = R + ring_size q"
    if "seq_dif (cseq (cell_at q (of_nat p))) (of_nat p) < 0"
  proof -
    have lt: "p' < p" using dif that by auto
    have "R + ring_size q \<le> p"
    proof (rule ccontr)
      assume "\<not> R + ring_size q \<le> p"
      then have "p' = p" by (intro window_mod_inj [of R p' "ring_size q" p] p') (use lt p' in auto)
      with lt show False by simp
    qed
    then show ?thesis using p TR by simp
  qed
qed

lemma pop_seq_read:
  assumes inv: "mpsc_inv_at q rs R ps (CSeq pos) L" and bnd: "length rs + ring_size q < 2 ^ 63"
  shows "seq_dif (cseq (cell_at q pos)) (pos + 1) = 0 \<longleftrightarrow> published q rs L"
proof -
  note inv' = inv [unfolded mpsc_inv_at_def]
  have wf: "ring_wf q" and R: "R = L" and LT: "L \<le> length rs" and pos: "pos = of_nat L"
    using inv' by auto
  have cell: "cell_at q pos = cell_n q L" using cell_at_nat [OF wf, of L] pos LT bnd by simp
  have slot: "slot_ok q rs ps L" using inv' R ring_size_ge2 [OF wf] by auto
  have p1: "pos + 1 = of_nat (L + 1)" using pos by simp
  have "seq_dif (of_nat L) (pos + 1) = -1" "seq_dif (of_nat (L + 1)) (pos + 1) = 0"
    using seq_dif_nat [of L "L + 1"] seq_dif_nat [of "L + 1" "L + 1"] LT bnd
      ring_size_ge2 [OF wf] p1 by (simp_all add: add.commute)
  with slot cell show ?thesis
    by (auto simp: slot_ok_def published_def split: if_splits)
qed

abbreviation given_back :: "'a mpsc_sys \<Rightarrow> nat" where
  "given_back s \<equiv> recycled (consumer s) (length (taken s))"

lemma mpsc_invD:
  assumes "mpsc_inv s"
  shows "mpsc_inv_at (mq s) (reserved s) (given_back s) (prods s) (consumer s) (length (taken s))"
    and "taken s = take (length (taken s)) (reserved s)"
    and "prod_ok (mq s) (reserved s) (given_back s) (prods s i)"
    and "qtail (mq s) = of_nat (length (reserved s))"
    and "ring_wf (mq s)" and "length (taken s) \<le> length (reserved s)"
    and "cons_ok (mq s) (reserved s) (length (taken s)) (consumer s)"
proof -
  show i: "mpsc_inv_at (mq s) (reserved s) (given_back s) (prods s) (consumer s) (length (taken s))"
    and "taken s = take (length (taken s)) (reserved s)"
    using assms unfolding mpsc_inv_def by blast+
  show "prod_ok (mq s) (reserved s) (given_back s) (prods s i)"
    and "qtail (mq s) = of_nat (length (reserved s))"
    and "ring_wf (mq s)" and "length (taken s) \<le> length (reserved s)"
    and "cons_ok (mq s) (reserved s) (length (taken s)) (consumer s)"
    using i unfolding mpsc_inv_at_def by blast+
qed

lemma step_prod_local:
  assumes "mpsc_inv s" and "\<not> owning (prods s i)" "\<not> owning pr"
    and "prod_ok (mq s) (reserved s) (given_back s) pr"
  shows "mpsc_inv (s\<lparr>prods := (prods s)(i := pr)\<rparr>)"
  using inv_prod_local [OF mpsc_invD(1) [OF assms(1)] assms(2-4)] mpsc_invD(2) [OF assms(1)]
  by (simp add: mpsc_inv_def del: fun_upd_apply)

lemma pop_read_inv:
  assumes inv: "mpsc_inv s" and bnd: "mpsc_bounded s" and c: "consumer s = CRead pos"
  defines "d \<equiv> cdata (cell_at (mq s) pos)"
  shows "mpsc_inv (s\<lparr>consumer := CSetSeq pos d, taken := taken s @ [d]\<rparr>)"
proof -
  let ?L = "length (taken s)"
  have pos: "pos = of_nat ?L" and pub: "published (mq s) (reserved s) ?L"
    using mpsc_invD(7) [OF inv] c by auto
  have cell: "cell_at (mq s) pos = cell_n (mq s) ?L"
    using cell_at_nat [OF mpsc_invD(5) [OF inv], of ?L] pos bnd mpsc_invD(6) [OF inv]
    by (simp add: mpsc_bounded_def)
  have d: "d = reserved s ! ?L" and lt: "?L < length (reserved s)"
    using pub cell by (auto simp: published_def d_def)
  have tk: "taken s @ [d] = take (Suc ?L) (reserved s)"
    using mpsc_invD(2) [OF inv] d lt by (metis take_Suc_conv_app_nth)
  show ?thesis
    using mpsc_invD(1) [OF inv] c pos pub d lt tk
    by (simp add: mpsc_inv_def mpsc_inv_at_def)
qed

lemma mpsc_step_inv:
  assumes "mpsc_step s t" and "mpsc_inv s" and "mpsc_bounded s"
  shows "mpsc_inv t"
  using assms
proof (induction rule: mpsc_step.induct)
  case (push_call s i x)
  then show ?case by (intro step_prod_local) (auto simp: owning_def)
next
  case (load_tail s i x)
  then show ?case using mpsc_invD(4) by (intro step_prod_local) (auto simp: owning_def)
next
  case (seq_eq s i x pos)
  obtain p where p: "pos = of_nat p" "p \<le> length (reserved s)"
    using mpsc_invD(3) [OF seq_eq(3), of i] seq_eq(1) by auto
  have "p < given_back s + ring_size (mq s)"
    using seq_read(1) [OF mpsc_invD(1) [OF seq_eq(3)] p(2)] seq_eq p(1) by (simp add: mpsc_bounded_def)
  with p seq_eq show ?case by (intro step_prod_local) (auto simp: owning_def)
next
  case (seq_lt s i x pos)
  then show ?case by (intro step_prod_local) (auto simp: owning_def)
next
  case (seq_gt s i x pos)
  then show ?case by (intro step_prod_local) (auto simp: owning_def)
next
  case (cas_fail s i x pos)
  then show ?case using mpsc_invD(4) by (intro step_prod_local) (auto simp: owning_def)
next
  case (push_return s i e)
  then show ?case by (intro step_prod_local) (auto simp: owning_def)
next
  case (cas_ok s i x pos)
  have pr: "prods s i = PCas x (qtail (mq s))" using cas_ok by simp
  show ?case
    using inv_cas_ok [OF mpsc_invD(1) [OF cas_ok(3)] pr] cas_ok mpsc_invD(2,6) [OF cas_ok(3)]
    by (simp add: mpsc_inv_def mpsc_bounded_def del: fun_upd_apply)
next
  case (write_data s i x pos)
  show ?case
    using inv_write_data [OF mpsc_invD(1) [OF write_data(2)] write_data(1)] write_data(3)
      mpsc_invD(2) [OF write_data(2)]
    by (simp add: mpsc_inv_def mpsc_bounded_def del: fun_upd_apply)
next
  case (store_seq s i x pos)
  show ?case
    using inv_store_seq [OF mpsc_invD(1) [OF store_seq(2)] store_seq(1)] store_seq(3)
      mpsc_invD(2) [OF store_seq(2)]
    by (simp add: mpsc_inv_def mpsc_bounded_def del: fun_upd_apply)
next
  case (pop_call s)
  then show ?case by (simp add: mpsc_inv_def mpsc_inv_at_def)
next
  case (pop_ready s pos)
  have "published (mq s) (reserved s) (length (taken s))"
    using pop_seq_read [of "mq s" "reserved s" _ "prods s" pos] mpsc_invD(1) [OF pop_ready(3)] pop_ready
    by (simp add: mpsc_bounded_def)
  with mpsc_invD(7) [OF pop_ready(3)] pop_ready show ?case
    by (simp add: mpsc_inv_def mpsc_inv_at_def)
next
  case (pop_empty s pos)
  then show ?case by (simp add: mpsc_inv_def mpsc_inv_at_def)
next
  case (pop_read s pos)
  then show ?case by (intro pop_read_inv)
next
  case (pop_recycle s pos d)
  then show ?case
    using inv_recycle [of "mq s" "reserved s" _ "prods s" pos d "length (taken s)"]
      mpsc_invD(1,2) [OF pop_recycle(2)]
    by (simp add: mpsc_inv_def mpsc_bounded_def)
next
  case (pop_advance s pos d)
  have "0 < length (taken s)" "pos = of_nat (length (taken s) - 1)"
    using mpsc_invD(7) [OF pop_advance(2)] pop_advance(1) by auto
  then have "pos + 1 = of_nat (length (taken s))" by (cases "taken s") (simp_all add: add.commute)
  with pop_advance show ?case by (simp add: mpsc_inv_def mpsc_inv_at_def)
next
  case (pop_return s d)
  then show ?case by (simp add: mpsc_inv_def mpsc_inv_at_def)
qed

lemma create_inv:
  assumes "ztk_mpsc_create a b n = Some q"
  shows "mpsc_inv_at q [] 0 (\<lambda>_. PIdle) CIdle 0 \<and> ring_size q = unat n"
proof -
  from assms have q: "q = \<lparr>qbuf = map (\<lambda>i. \<lparr>cdata = None, cseq = of_nat i\<rparr>) [0..<unat n],
      qcap = n, qmask = n - 1, qhead = 0, qtail = 0\<rparr>" and n: "is_pow2 n"
    by (auto simp: ztk_mpsc_create_def split: if_splits)
  show ?thesis
    using n by (auto simp: q mpsc_inv_at_def ring_wf_def slot_ok_def cell_n_def owns_def)
qed

lemma mpsc_step_mono:
  assumes "mpsc_step s t"
  shows "length (reserved s) \<le> length (reserved t) \<and> qcap (mq t) = qcap (mq s)"
  using assms by (induction rule: mpsc_step.induct) auto

lemma mpsc_reach_inv:
  assumes "mpsc_reach q s" and "ztk_mpsc_create a b n = Some q"
    and "length (reserved s) + unat n < 2 ^ 63"
  shows "mpsc_inv s \<and> mpsc_bounded s \<and> ring_size (mq s) = unat n"
  using assms
proof (induction rule: mpsc_reach.induct)
  case mpsc_start
  then show ?case
    using create_inv [of a b n q] by (simp add: mpsc_init_def mpsc_inv_def mpsc_bounded_def)
next
  case (mpsc_next s t)
  then show ?case
    using mpsc_step_inv [of s t] mpsc_step_mono [of s t] by (simp add: mpsc_bounded_def)
qed

section \<open>The operations without interference refine a bounded list\<close>

text \<open>Nobody is inside an operation; the queue holds what was reserved and not yet taken.\<close>

definition quiet :: "'a mpsc_queue \<Rightarrow> 'a option list \<Rightarrow> nat \<Rightarrow> bool" where
  "quiet q rs L \<longleftrightarrow> mpsc_inv_at q rs L (\<lambda>_. PIdle) CIdle L"

definition mpsc_rep :: "nat \<Rightarrow> 'a mpsc_queue \<Rightarrow> 'a option list \<Rightarrow> bool" where
  "mpsc_rep k q xs \<longleftrightarrow>
     (\<exists>rs L. quiet q rs L \<and> xs = drop L rs \<and> length rs + k + ring_size q < 2 ^ 63)"

lemma quietD:
  assumes "quiet q rs L"
  shows "ring_wf q" "qtail q = of_nat (length rs)" "qhead q = of_nat L" "L \<le> length rs"
    "length rs \<le> L + ring_size q"
    "\<And>p. L \<le> p \<Longrightarrow> p < L + ring_size q \<Longrightarrow>
       cseq (cell_n q p) = of_nat (if p < length rs then p + 1 else p)"
    "\<And>p. L \<le> p \<Longrightarrow> p < length rs \<Longrightarrow> published q rs p"
  using assms by (auto simp: quiet_def mpsc_inv_at_def slot_ok_def owns_def published_def)

lemma push_loop_quiet:
  assumes q: "quiet q rs L" and bnd: "length rs + ring_size q < 2 ^ 63"
  shows "push_loop q (qtail q) =
    Some (if length rs < L + ring_size q then Inr (qtail q) else Inl ZTK_ERR_AGAIN)"
proof -
  let ?T = "length rs" and ?n = "ring_size q"
  note D = quietD [OF q]
  have cell: "cell_at q (qtail q) = cell_n q ?T" using cell_at_nat [OF D(1), of ?T] D(2) bnd by simp
  show ?thesis
  proof (cases "?T < L + ?n")
    case True
    then have "cseq (cell_n q ?T) = of_nat ?T" using D(4) D(6) [of ?T] by simp
    then have "seq_dif (cseq (cell_at q (qtail q))) (qtail q) = 0"
      using cell D(2) by (simp add: seq_dif_def)
    then show ?thesis using True by (simp add: push_loop.simps Let_def)
  next
    case False
    with D(5) have T: "?T = L + ?n" by simp
    have c1: "cell_n q ?T = cell_n q L" using T by (simp add: cell_n_def)
    have c2: "cseq (cell_n q L) = of_nat (L + 1)"
      using D(6) [of L] T ring_size_ge2 [OF D(1)] by simp
    have c3: "seq_dif (of_nat (L + 1)) (of_nat ?T) = int (L + 1) - int ?T"
      by (rule seq_dif_nat) (use bnd T ring_size_ge2 [OF D(1)] in simp_all)
    have "seq_dif (cseq (cell_at q (qtail q))) (qtail q) = int (L + 1) - int ?T"
      unfolding cell c1 c2 unfolding D(2) by (rule c3)
    then have "seq_dif (cseq (cell_at q (qtail q))) (qtail q) < 0"
      using T ring_size_ge2 [OF D(1)] by linarith
    then show ?thesis using False by (simp add: push_loop.simps Let_def)
  qed
qed

lemma push_quiet:
  assumes q: "quiet q rs L" and bnd': "length (rs @ [x]) + ring_size q < 2 ^ 63"
    and room: "length rs < L + ring_size q"
  shows "\<exists>q'. ztk_mpsc_push (Some q) x = Some (ZTK_OK, Some q') \<and> quiet q' (rs @ [x]) L \<and>
           ring_size q' = ring_size q"
proof -
  let ?pos = "qtail q"
  have bnd: "length rs + ring_size q < 2 ^ 63" using bnd' by simp
  define q1 where "q1 = q\<lparr>qtail := ?pos + 1\<rparr>"
  define q2 where "q2 = set_cdata q1 ?pos x"
  define q3 where "q3 = set_cseq q2 ?pos (?pos + 1)"
  have n: "ring_size q1 = ring_size q" "ring_size q2 = ring_size q" "ring_size q3 = ring_size q"
    by (simp_all add: q1_def q2_def q3_def)
  have 0: "mpsc_inv_at q rs L ((\<lambda>_. PIdle)(0 := PCas x ?pos)) CIdle L"
    using q room quietD(2) [OF q] by (intro inv_prod_local) (auto simp: quiet_def owning_def)
  have 1: "mpsc_inv_at q1 (rs @ [x]) L ((\<lambda>_. PIdle)(0 := PWrite x ?pos)) CIdle L"
    using inv_cas_ok [OF 0, of 0 x] bnd by (simp add: q1_def)
  have 2: "mpsc_inv_at q2 (rs @ [x]) L ((\<lambda>_. PIdle)(0 := PStore x ?pos)) CIdle L"
    using inv_write_data [OF 1, of 0 x ?pos] bnd' n by (simp add: q2_def)
  have 3: "mpsc_inv_at q3 (rs @ [x]) L ((\<lambda>_. PIdle)(0 := PDone ZTK_OK)) CIdle L"
    using inv_store_seq [OF 2, of 0 x ?pos ZTK_OK] bnd' n by (simp add: q3_def)
  have 4: "quiet q3 (rs @ [x]) L"
    using inv_prod_local [OF 3, of 0 PIdle] by (simp add: quiet_def owning_def fun_upd_idem)
  have "ztk_mpsc_push (Some q) x = Some (ZTK_OK, Some q3)"
    using push_loop_quiet [OF q bnd] room
    by (simp add: ztk_mpsc_push_def Let_def q1_def q2_def q3_def)
  then show ?thesis using 4 n by blast
qed

lemma push_quiet_full:
  assumes "quiet q rs L" and "length rs + ring_size q < 2 ^ 63" and "length rs = L + ring_size q"
  shows "ztk_mpsc_push (Some q) x = Some (ZTK_ERR_AGAIN, Some q)"
  using push_loop_quiet [OF assms(1,2)] assms(3) by (simp add: ztk_mpsc_push_def)

lemma pop_ready_quiet:
  assumes q: "quiet q rs L" and bnd: "length rs + ring_size q < 2 ^ 63"
  shows "seq_dif (cseq (cell_at q (qhead q))) (qhead q + 1) = 0 \<longleftrightarrow> L < length rs"
    and "L < length rs \<Longrightarrow> cdata (cell_at q (qhead q)) = rs ! L"
proof -
  note D = quietD [OF q]
  have "mpsc_inv_at q rs L (\<lambda>_. PIdle) (CSeq (qhead q)) L"
    using q D(3) by (simp add: quiet_def mpsc_inv_at_def)
  from pop_seq_read [OF this bnd]
  show "seq_dif (cseq (cell_at q (qhead q))) (qhead q + 1) = 0 \<longleftrightarrow> L < length rs"
    using D(7) [of L] by (auto simp: published_def)
  show "cdata (cell_at q (qhead q)) = rs ! L" if "L < length rs"
    using D(7) [of L] that cell_at_nat [OF D(1), of L] D(3) bnd by (simp add: published_def)
qed

lemma pop_quiet:
  assumes q: "quiet q rs L" and bnd: "length rs + ring_size q < 2 ^ 63" and ne: "L < length rs"
  shows "\<exists>q'. ztk_mpsc_pop (Some q) = (rs ! L, Some q') \<and> quiet q' rs (Suc L) \<and>
           ring_size q' = ring_size q"
proof -
  let ?pos = "qhead q"
  note D = quietD [OF q]
  define q1 where "q1 = set_cseq q ?pos (?pos + qmask q + 1)"
  have "mpsc_inv_at q rs L (\<lambda>_. PIdle) (CSetSeq ?pos (rs ! L)) (Suc L)"
    using q ne D(3) D(7) [of L] by (simp add: quiet_def mpsc_inv_at_def)
  from inv_recycle [OF this bnd]
  have "mpsc_inv_at q1 rs (Suc L) (\<lambda>_. PIdle) (CSetHead ?pos (rs ! L)) (Suc L)" by (simp add: q1_def)
  then have "quiet (q1\<lparr>qhead := ?pos + 1\<rparr>) rs (Suc L)"
    using D(3) by (simp add: quiet_def mpsc_inv_at_def add.commute)
  moreover have "ztk_mpsc_pop (Some q) = (rs ! L, Some (q1\<lparr>qhead := ?pos + 1\<rparr>))"
    using pop_ready_quiet [OF q bnd] ne by (simp add: ztk_mpsc_pop_def Let_def q1_def)
  ultimately show ?thesis by (auto simp: q1_def)
qed

lemma pop_quiet_empty:
  assumes "quiet q rs L" and "length rs + ring_size q < 2 ^ 63" and "length rs = L"
  shows "ztk_mpsc_pop (Some q) = (None, Some q)"
  using pop_ready_quiet [OF assms(1,2)] assms(3) by (simp add: ztk_mpsc_pop_def Let_def)

text \<open>The contract of a bounded queue with a budget of pushes, and what a client gets from it.\<close>

fun push_all :: "('q \<Rightarrow> 'a \<Rightarrow> 'q option) \<Rightarrow> 'q \<Rightarrow> 'a list \<Rightarrow> 'q option" where
  "push_all push q [] = Some q"
| "push_all push q (x # xs) = push q x \<bind> (\<lambda>q'. push_all push q' xs)"

fun pop_all :: "('q \<Rightarrow> 'a \<times> 'q) \<Rightarrow> nat \<Rightarrow> 'q \<Rightarrow> 'a list \<times> 'q" where
  "pop_all pop 0 q = ([], q)"
| "pop_all pop (Suc n) q = (let (x, q') = pop q; (xs, q'') = pop_all pop n q' in (x # xs, q''))"

locale bounded_queue =
  fixes rep :: "nat \<Rightarrow> 'q \<Rightarrow> 'a list \<Rightarrow> bool"
    and capacity :: "'q \<Rightarrow> nat"
    and push :: "'q \<Rightarrow> 'a \<Rightarrow> 'q option"
    and pop :: "'q \<Rightarrow> 'a \<times> 'q"
  assumes rep_push: "rep (Suc k) q xs \<Longrightarrow> length xs < capacity q \<Longrightarrow>
      \<exists>q'. push q x = Some q' \<and> rep k q' (xs @ [x]) \<and> capacity q' = capacity q"
    and rep_full: "rep k q xs \<Longrightarrow> length xs = capacity q \<Longrightarrow> push q x = None"
    and rep_pop: "rep k q (x # xs) \<Longrightarrow> \<exists>q'. pop q = (x, q') \<and> rep k q' xs \<and> capacity q' = capacity q"
begin

lemma push_all_rep:
  "rep (k + length ys) q xs \<Longrightarrow> length xs + length ys \<le> capacity q \<Longrightarrow>
   \<exists>q'. push_all push q ys = Some q' \<and> rep k q' (xs @ ys) \<and> capacity q' = capacity q"
proof (induction ys arbitrary: q xs)
  case Nil
  then show ?case by simp
next
  case (Cons y ys)
  from Cons.prems obtain q1 where q1: "push q y = Some q1" "rep (k + length ys) q1 (xs @ [y])"
      "capacity q1 = capacity q"
    using rep_push [of "k + length ys" q xs y] by auto
  with Cons.prems Cons.IH [OF q1(2)] show ?case by simp
qed

lemma pop_all_rep:
  "rep k q (xs @ ys) \<Longrightarrow> \<exists>q'. pop_all pop (length xs) q = (xs, q') \<and> rep k q' ys"
proof (induction xs arbitrary: q)
  case Nil
  then show ?case by simp
next
  case (Cons x xs)
  from Cons.prems obtain q1 where q1: "pop q = (x, q1)" "rep k q1 (xs @ ys)"
    using rep_pop [of k q x "xs @ ys"] by auto
  with Cons.IH [OF q1(2)] show ?case by auto
qed

lemma round_trip:
  assumes "rep (k + length ys) q []" and "length ys \<le> capacity q"
  shows "\<exists>q1 q2. push_all push q ys = Some q1 \<and> pop_all pop (length ys) q1 = (ys, q2) \<and> rep k q2 []"
proof -
  obtain q1 where q1: "push_all push q ys = Some q1" "rep k q1 (ys @ [])"
    using push_all_rep [OF assms(1)] assms(2) by auto
  with pop_all_rep [OF q1(2)] show ?thesis by auto
qed

end

definition mpsc_push_ok :: "'a mpsc_queue \<Rightarrow> 'a option \<Rightarrow> 'a mpsc_queue option" where
  "mpsc_push_ok q x =
     (case ztk_mpsc_push (Some q) x of Some (ZTK_OK, Some q') \<Rightarrow> Some q' | _ \<Rightarrow> None)"

definition mpsc_pop_ok :: "'a mpsc_queue \<Rightarrow> 'a option \<times> 'a mpsc_queue" where
  "mpsc_pop_ok q = (case ztk_mpsc_pop (Some q) of (x, Some q') \<Rightarrow> (x, q') | (x, None) \<Rightarrow> (x, q))"

interpretation mpsc: bounded_queue mpsc_rep "\<lambda>q. ring_size q" mpsc_push_ok mpsc_pop_ok
proof unfold_locales
  fix k :: nat and q :: "'a mpsc_queue" and xs x
  assume rep: "mpsc_rep (Suc k) q xs" and lt: "length xs < ring_size q"
  then obtain rs L where r: "quiet q rs L" "xs = drop L rs" "length rs + Suc k + ring_size q < 2 ^ 63"
    by (auto simp: mpsc_rep_def)
  have "length rs < L + ring_size q" using lt r(2) by simp
  then obtain q' where "ztk_mpsc_push (Some q) x = Some (ZTK_OK, Some q')" "quiet q' (rs @ [x]) L"
      "ring_size q' = ring_size q"
    using push_quiet [OF r(1), of x] r(3) by auto
  then show "\<exists>q'. mpsc_push_ok q x = Some q' \<and> mpsc_rep k q' (xs @ [x]) \<and> ring_size q' = ring_size q"
    using r quietD(4) [OF r(1)] by (fastforce simp: mpsc_push_ok_def mpsc_rep_def)
next
  fix k :: nat and q :: "'a mpsc_queue" and xs x
  assume rep: "mpsc_rep k q xs" and full: "length xs = ring_size q"
  then obtain rs L where r: "quiet q rs L" "xs = drop L rs" "length rs + k + ring_size q < 2 ^ 63"
    by (auto simp: mpsc_rep_def)
  then show "mpsc_push_ok q x = None"
    using push_quiet_full [OF r(1), of x] full quietD(4) [OF r(1)] by (simp add: mpsc_push_ok_def)
next
  fix k :: nat and q :: "'a mpsc_queue" and xs x
  assume "mpsc_rep k q (x # xs)"
  then obtain rs L where r: "quiet q rs L" "x # xs = drop L rs" "length rs + k + ring_size q < 2 ^ 63"
    by (auto simp: mpsc_rep_def)
  have lt: "L < length rs" using r(2) by (metis drop_all list.distinct(1) not_less)
  then have x: "rs ! L = x" "xs = drop (Suc L) rs"
    using r(2) by (metis Cons_nth_drop_Suc list.inject)+
  obtain q' where "ztk_mpsc_pop (Some q) = (x, Some q')" "quiet q' rs (Suc L)" "ring_size q' = ring_size q"
    using pop_quiet [OF r(1) _ lt] r(3) x by auto
  then show "\<exists>q'. mpsc_pop_ok q = (x, q') \<and> mpsc_rep k q' xs \<and> ring_size q' = ring_size q"
    using r(3) x by (fastforce simp: mpsc_pop_ok_def mpsc_rep_def)
qed

lemma mpsc_rep_create:
  assumes "ztk_mpsc_create a b n = Some q" and "unat n + k < 2 ^ 63"
  shows "mpsc_rep k q [] \<and> ring_size q = unat n"
  using create_inv [OF assms(1)] assms(2)
  by (auto simp: mpsc_rep_def quiet_def add.commute intro!: exI [of _ "[]"] exI [of _ 0])

section \<open>Facts about reachable states\<close>

lemma owners_disjoint:
  assumes inv: "mpsc_inv s" and bnd: "mpsc_bounded s"
    and o: "owns (prods s i) pos x" "owns (prods s j) pos' y" and "j \<noteq> i"
  shows "cell_idx (mq s) pos' \<noteq> cell_idx (mq s) pos"
proof -
  note I = mpsc_invD [OF inv]
  note ow = inv_owner [OF I(1) o(1)] inv_owner [OF I(1) o(2)]
  obtain p r where p: "pos = of_nat p" "given_back s \<le> p" "p < length (reserved s)"
    and r: "pos' = of_nat r" "given_back s \<le> r" "r < length (reserved s)"
    using ow by blast
  have TR: "length (reserved s) \<le> given_back s + ring_size (mq s)"
    using I(1) by (simp add: mpsc_inv_at_def)
  have "i = j" if "p = r" using I(1) o that p(1) r(1) unfolding mpsc_inv_at_def by blast
  with assms(5) have "p \<noteq> r" by blast
  then have "r mod ring_size (mq s) \<noteq> p mod ring_size (mq s)"
    using window_mod_inj [of "given_back s" r "ring_size (mq s)" p] p r TR by auto
  then show ?thesis
    using cell_idx_mod [OF I(5)] p r bnd by (simp add: mpsc_bounded_def)
qed

lemma reader_disjoint:
  assumes inv: "mpsc_inv s" and bnd: "mpsc_bounded s"
    and o: "owns (prods s i) pos x" and c: "consumer s = CRead pos'"
  shows "cell_idx (mq s) pos' \<noteq> cell_idx (mq s) pos"
proof -
  note I = mpsc_invD [OF inv]
  let ?L = "length (taken s)"
  obtain p where p: "pos = of_nat p" "given_back s \<le> p" "p < length (reserved s)"
      "cseq (cell_n (mq s) p) = of_nat p"
    using inv_owner [OF I(1) o] by blast
  have r: "pos' = of_nat ?L" "published (mq s) (reserved s) ?L" and gb: "given_back s = ?L"
    using I(7) c by auto
  have TR: "length (reserved s) \<le> given_back s + ring_size (mq s)"
    using I(1) by (simp add: mpsc_inv_at_def)
  have "p \<noteq> ?L"
    using p(4) r(2) bnd of_nat_u64_inj [of p "p + 1"] p(3)
    by (auto simp: published_def mpsc_bounded_def)
  then have "?L mod ring_size (mq s) \<noteq> p mod ring_size (mq s)"
    using window_mod_inj [of ?L ?L "ring_size (mq s)" p] p gb TR ring_size_ge2 [OF I(5)] by auto
  then show ?thesis
    using cell_idx_mod [OF I(5)] p r bnd I(6) by (simp add: mpsc_bounded_def)
qed

text \<open>A run in which producer 0 has reserved the first position of a ring of two.\<close>

definition ring2 :: "nat mpsc_queue" where
  "ring2 = \<lparr>qbuf = [\<lparr>cdata = None, cseq = 0\<rparr>, \<lparr>cdata = None, cseq = 1\<rparr>],
            qcap = 2, qmask = 1, qhead = 0, qtail = 0\<rparr>"

definition ring2_reserved :: "nat mpsc_sys" where
  "ring2_reserved = \<lparr>mq = ring2\<lparr>qtail := 1\<rparr>, prods = (\<lambda>_. PIdle)(0 := PWrite (Some 7) 0),
     consumer = CIdle, reserved = [Some 7], taken = []\<rparr>"

lemma ring2_create: "ztk_mpsc_create True True 2 = Some ring2"
  by (simp add: ztk_mpsc_create_def is_pow2_def ring2_def upt_rec)

lemma reach_at_seq:
  assumes "mpsc_reach q s" and "prods s i = PIdle"
  shows "mpsc_reach q (s\<lparr>prods := (prods s)(i := PSeq x (qtail (mq s)))\<rparr>)"
  using mpsc_next [OF mpsc_next [OF assms(1) push_call [OF assms(2), of x]] load_tail [of _ i x]]
  by simp

lemma reach_reserve:
  assumes "mpsc_reach q s" and "prods s i = PIdle"
    and "seq_dif (cseq (cell_at (mq s) (qtail (mq s)))) (qtail (mq s)) = 0"
  shows "mpsc_reach q (s\<lparr>mq := (mq s)\<lparr>qtail := qtail (mq s) + 1\<rparr>,
     prods := (prods s)(i := PWrite x (qtail (mq s))), reserved := reserved s @ [x]\<rparr>)"
proof -
  have "mpsc_reach q (s\<lparr>prods := (prods s)(i := PCas x (qtail (mq s)))\<rparr>)"
    using mpsc_next [OF reach_at_seq [OF assms(1,2)] seq_eq [of _ i x]] assms(3) by simp
  from mpsc_next [OF this cas_ok [of _ i x]] show ?thesis by simp
qed

lemma ring2_reach: "mpsc_reach ring2 ring2_reserved"
  using reach_reserve [OF mpsc_start, of ring2 0 "Some 7"]
  by (simp add: ring2_reserved_def mpsc_init_def ring2_def seq_dif_def cell_at_def cell_idx_def)

text \<open>Both positions are reserved and a third producer looks at the tail.\<close>

definition ring2_full :: "nat mpsc_sys" where
  "ring2_full = \<lparr>mq = ring2\<lparr>qtail := 2\<rparr>,
     prods = (\<lambda>_. PIdle)(0 := PWrite (Some 7) 0, 1 := PWrite (Some 8) 1, 2 := PSeq (Some 9) 2),
     consumer = CIdle, reserved = [Some 7, Some 8], taken = []\<rparr>"

lemma ring2_full_reach: "mpsc_reach ring2 ring2_full"
proof -
  have "mpsc_reach ring2 (ring2_reserved\<lparr>mq := ring2\<lparr>qtail := 2\<rparr>,
      prods := (\<lambda>_. PIdle)(0 := PWrite (Some 7) 0, 1 := PWrite (Some 8) 1),
      reserved := [Some 7, Some 8]\<rparr>)"
    using reach_reserve [OF ring2_reach, of 1 "Some 8"]
    by (simp add: ring2_reserved_def ring2_def seq_dif_def cell_at_def cell_idx_def)
  from reach_at_seq [OF this, of 2 "Some 9"] show ?thesis
    by (simp add: ring2_full_def ring2_reserved_def ring2_def)
qed

section \<open>Properties\<close>

text \<open>
  C1. First in, first out, under every interleaving of any number of producers with the consumer:
  what the consumer has taken is a prefix of what was pushed, in the order the producers won their
  slots - nothing is lost, duplicated, reordered or invented - and at most \<open>n\<close> items are in flight.
  The bound says that positions have not reached \<open>2 ^ 63\<close>.
\<close>

theorem mpsc_fifo:
  assumes "ztk_mpsc_create a b n = Some q" and "mpsc_reach q s"
    and "length (reserved s) + unat n < 2 ^ 63"
  shows "taken s = take (length (taken s)) (reserved s) \<and>
         length (reserved s) \<le> length (taken s) + unat n"
proof -
  have inv: "mpsc_inv s" and n: "ring_size (mq s) = unat n"
    using mpsc_reach_inv [OF assms(2,1,3)] by auto
  have "length (reserved s) \<le> given_back s + unat n"
    using mpsc_invD(1) [OF inv] n by (simp add: mpsc_inv_at_def)
  then show ?thesis
    using mpsc_invD(2) [OF inv] recycled_le [of "consumer s" "length (taken s)"] by auto
qed

theorem mpsc_fifo_witness:
  "mpsc_reach ring2 ring2_reserved \<and> reserved ring2_reserved = [Some 7] \<and>
   taken ring2_reserved = take (length (taken ring2_reserved)) (reserved ring2_reserved)"
  using mpsc_fifo [OF ring2_create ring2_reach] ring2_reach by (simp add: ring2_reserved_def)

text \<open>
  C14. No data race on a cell: while a producer is about to write a cell's data, no other producer
  that still has to write or publish, and not the consumer about to read, uses the same cell.
\<close>

theorem mpsc_data_race_free:
  assumes "ztk_mpsc_create a b n = Some q" and "mpsc_reach q s"
    and "length (reserved s) + unat n < 2 ^ 63" and "prods s i = PWrite x pos"
  shows "(\<forall>j y pos'. j \<noteq> i \<longrightarrow> prods s j = PWrite y pos' \<or> prods s j = PStore y pos' \<longrightarrow>
            cell_idx (mq s) pos' \<noteq> cell_idx (mq s) pos) \<and>
         (\<forall>pos'. consumer s = CRead pos' \<longrightarrow> cell_idx (mq s) pos' \<noteq> cell_idx (mq s) pos)"
proof -
  have inv: "mpsc_inv s" and b: "mpsc_bounded s" using mpsc_reach_inv [OF assms(2,1,3)] by auto
  have o: "owns (prods s i) pos x" using assms(4) by (simp add: owns_def)
  show ?thesis
    using owners_disjoint [OF inv b o] reader_disjoint [OF inv b o] by (auto simp: owns_def)
qed

theorem mpsc_data_race_free_witness:
  "prods ring2_reserved 0 = PWrite (Some 7) 0 \<and>
   \<not> (\<exists>j y pos'. j \<noteq> 0 \<and> (prods ring2_reserved j = PWrite y pos' \<or> prods ring2_reserved j = PStore y pos') \<and>
      cell_idx (mq ring2_reserved) pos' = cell_idx (mq ring2_reserved) 0)"
proof -
  have at: "prods ring2_reserved 0 = PWrite (Some 7) 0" by (simp add: ring2_reserved_def)
  have "length (reserved ring2_reserved) + unat (2 :: size_t) < 2 ^ 63" by (simp add: ring2_reserved_def)
  from mpsc_data_race_free [OF ring2_create ring2_reach this at] at show ?thesis by blast
qed

text \<open>
  C15. The results of a push. Whenever a step of the interleaved system makes a producer return from
  \<^verbatim>\<open>ztk_mpsc_push\<close>, the result is one of two: \<open>ZTK_ERR_AGAIN\<close>, and then at that moment the ring is full, all \<open>n\<close> cells hold
  positions that the consumer has not given back, and the call has reserved no position for its item; or \<open>ZTK_OK\<close>, and then the item of this
  call is at a position of its own among the reserved ones, and its cell now carries it.
\<close>

theorem mpsc_again_only_when_full:
  assumes "ztk_mpsc_create a b n = Some q" and "mpsc_reach q s" and "mpsc_step s t"
    and "length (reserved s) + unat n < 2 ^ 63" and "prods t i = PDone e" and "prods s i \<noteq> PDone e"
  shows "(e = ZTK_ERR_AGAIN \<and> length (reserved s) = recycled (consumer s) (length (taken s)) + unat n \<and>
            reserved t = reserved s \<and> (\<exists>x pos. prods s i = PSeq x pos)) \<or>
         (e = ZTK_OK \<and> (\<exists>x p. prods s i = PStore x (of_nat p) \<and> p < length (reserved t) \<and> reserved t ! p = x \<and>
            published (mq t) (reserved t) p))"
proof -
  have inv: "mpsc_inv s" and n: "ring_size (mq s) = unat n" and bnd: "mpsc_bounded s"
    using mpsc_reach_inv [OF assms(2,1,4)] by auto
  from assms(3,5,6) show ?thesis
  proof cases
    case (seq_lt j x pos)
    then have j: "j = i" "e = ZTK_ERR_AGAIN" using assms(5,6) by (auto split: if_splits)
    obtain p where p: "pos = of_nat p" "p \<le> length (reserved s)"
      using mpsc_invD(3) [OF inv, of j] seq_lt by auto
    then show ?thesis
      using seq_read(2) [OF mpsc_invD(1) [OF inv] p(2)] assms(4) n seq_lt j by auto
  next
    case (store_seq j x pos)
    then have j: "j = i" "e = ZTK_OK" using assms(5,6) by (auto split: if_splits)
    obtain p where p: "pos = of_nat p" "p < length (reserved s)" "reserved s ! p = x" "cdata (cell_n (mq s) p) = x"
      using mpsc_invD(3) [OF inv, of j] store_seq by auto
    then have "published (mq t) (reserved t) p"
      using store_seq cell_n_set_cseq [OF mpsc_invD(5) [OF inv], of p] bnd
      by (simp add: published_def mpsc_bounded_def)
    then show ?thesis using store_seq j p by auto
  qed (auto split: if_splits)
qed

theorem mpsc_again_only_when_full_witness:
  "prods ring2_full 2 = PSeq (Some 9) 2 \<and>
   mpsc_step ring2_full (ring2_full\<lparr>prods := (prods ring2_full)(2 := PDone ZTK_ERR_AGAIN)\<rparr>) \<and>
   length (reserved ring2_full) = recycled (consumer ring2_full) (length (taken ring2_full)) + 2"
proof -
  let ?t = "ring2_full\<lparr>prods := (prods ring2_full)(2 := PDone ZTK_ERR_AGAIN)\<rparr>"
  have at: "prods ring2_full 2 = PSeq (Some 9) 2"
    and "seq_dif (cseq (cell_at (mq ring2_full) 2)) 2 < 0" and b: "length (reserved ring2_full) + unat (2 :: size_t) < 2 ^ 63"
    by (simp_all add: ring2_full_def ring2_def seq_dif_def cell_at_def cell_idx_def)
  then have st: "mpsc_step ring2_full ?t" by (intro mpsc_step.seq_lt)
  with mpsc_again_only_when_full [OF ring2_create ring2_full_reach st b, of 2 ZTK_ERR_AGAIN] at show ?thesis by simp
qed

text \<open>
  A pop returns NULL only when every pushed item has been taken, or the next position is
  reserved by a producer that has not published it yet.
\<close>

lemma mpsc_pop_null_reason:
  assumes "ztk_mpsc_create a b n = Some q" and "mpsc_reach q s"
    and "length (reserved s) + unat n < 2 ^ 63" and "consumer s = CSeq pos"
    and "seq_dif (cseq (cell_at (mq s) pos)) (pos + 1) \<noteq> 0"
  shows "taken s = reserved s \<or>
         (\<exists>i x. prods s i = PWrite x pos \<or> prods s i = PStore x pos)"
proof -
  have inv: "mpsc_inv s" and b: "mpsc_bounded s" using mpsc_reach_inv [OF assms(2,1,3)] by auto
  note I = mpsc_invD [OF inv]
  let ?L = "length (taken s)"
  have c: "mpsc_inv_at (mq s) (reserved s) ?L (prods s) (CSeq pos) ?L" and pos: "pos = of_nat ?L"
    using I(1) I(7) assms(4) by auto
  have np: "\<not> published (mq s) (reserved s) ?L"
    using pop_seq_read [OF c] assms(5) b by (simp add: mpsc_bounded_def)
  have "slot_ok (mq s) (reserved s) (prods s) ?L"
    using c ring_size_ge2 [OF I(5)] by (simp add: mpsc_inv_at_def)
  then have "length (reserved s) \<le> ?L \<or> (\<exists>i x. prods s i = PWrite x pos \<or> prods s i = PStore x pos)"
    using np pos by (auto simp: slot_ok_def owns_def split: if_splits)
  moreover have "taken s = reserved s" if "length (reserved s) \<le> ?L"
    using I(2) that by (metis take_all)
  ultimately show ?thesis by blast
qed

text \<open>
  Without interference: a batch that fits the ring, pushed into a new queue, is accepted whole
  and popped back in the same order, leaving the queue empty.
\<close>

lemma mpsc_round_trip:
  assumes "ztk_mpsc_create a b n = Some q" and "length ys \<le> unat n" and "unat n + length ys < 2 ^ 63"
  shows "\<exists>q1 q2. push_all mpsc_push_ok q ys = Some q1 \<and>
           pop_all mpsc_pop_ok (length ys) q1 = (ys, q2) \<and> mpsc_rep 0 q2 []"
proof -
  have "mpsc_rep (0 + length ys) q []" "ring_size q = unat n"
    using mpsc_rep_create [OF assms(1), of "length ys"] assms(3) by auto
  then show ?thesis using mpsc.round_trip [of 0 ys q] assms(2) by simp
qed

end
