(* ===== verification/Rtp_Port.thy ===== *)
theory Rtp_Port
  imports Ztk_Prelude
begin

unbundle bit_operations_syntax

text \<open>
  The RTP/RTCP port pool of \<^verbatim>\<open>src/net/rtp_port.c\<close>: a stack of free even ports in a growable array.
  \<open>free_ports\<close> is the array with its \<open>free_cap\<close> cells (\<open>None\<close> for a cell never written), of which
  the first \<open>free_count\<close> are in use; a write outside the array has no defined outcome (\<open>None\<close>).
  Whether a reallocation to a given capacity succeeds is an argument. The properties follow the
  ports that clients hold: a port is free or held by one client, never both, as long as clients
  release only what they hold - and a second release of the same port breaks exactly that.
\<close>

section \<open>State and operations\<close>

record rtp_pool =
  range_start :: u16
  range_end :: u16
  free_ports :: "u16 option list"
  free_cap :: u32
  free_count :: u32

definition port_valid :: "u16 \<Rightarrow> u16 \<Rightarrow> u16 \<Rightarrow> bool" where
  "port_valid p start end \<longleftrightarrow> start \<le> p \<and> p \<le> end \<and> p AND 1 = 0"

definition pool_push :: "(u32 \<Rightarrow> bool) \<Rightarrow> rtp_pool \<Rightarrow> u16 \<Rightarrow> (bool \<times> rtp_pool) option" where
  "pool_push realloc_ok pool port =
     (let ncap = (if free_cap pool \<noteq> 0 then free_cap pool * 2 else 64);
          grow = free_cap pool \<le> free_count pool;
          pool1 = (if grow then pool\<lparr>free_ports := take (unat ncap) (free_ports pool) @
                                        replicate (unat ncap - length (free_ports pool)) None,
                                     free_cap := ncap\<rparr> else pool)
      in if grow \<and> \<not> realloc_ok ncap then Some (False, pool)
         else if unat (free_count pool) < length (free_ports pool1)
         then Some (True, pool1\<lparr>free_ports := (free_ports pool1)[unat (free_count pool) := Some port],
                                free_count := free_count pool + 1\<rparr>)
         else None)"

text \<open>\<open>Some (None, _)\<close> is the return value 0; reading a cell never written is undefined.\<close>

definition pool_pop :: "rtp_pool \<Rightarrow> (u16 option \<times> rtp_pool) option" where
  "pool_pop pool =
     (if free_count pool = 0 then Some (None, pool)
      else let c = free_count pool - 1 in
        if unat c < length (free_ports pool) then
          (case free_ports pool ! unat c of
             None \<Rightarrow> None
           | Some port \<Rightarrow> Some (Some port, pool\<lparr>free_count := c\<rparr>))
        else None)"

text \<open>
  \<^verbatim>\<open>for (uint32_t p = start; p <= end; p += 2u)\<close>: the 32-bit counter cannot wrap, since \<open>end\<close> has 16 bits.
\<close>

function fill_ports :: "(u32 \<Rightarrow> bool) \<Rightarrow> nat \<Rightarrow> nat \<Rightarrow> rtp_pool \<Rightarrow> (bool \<times> rtp_pool) option" where
  "fill_ports ok p e pool =
     (if p \<le> e then
        (case pool_push ok pool (of_nat p) of
           None \<Rightarrow> None
         | Some (False, pool') \<Rightarrow> Some (False, pool')
         | Some (True, pool') \<Rightarrow> fill_ports ok (p + 2) e pool')
      else Some (True, pool))"
  by pat_completeness auto
termination
  by (relation "measure (\<lambda>(ok, p, e, pool). e + 1 - p)") auto

text \<open>Options are an optional pair; the default range is 30000 to 39998.\<close>

definition ztk_rtp_port_pool_create ::
    "bool \<Rightarrow> (u32 \<Rightarrow> bool) \<Rightarrow> (u16 \<times> u16) option \<Rightarrow> rtp_pool option option" where
  "ztk_rtp_port_pool_create calloc_ok realloc_ok opts =
     (let start = (case opts of None \<Rightarrow> 30000 | Some (s, e) \<Rightarrow> if s \<noteq> 0 then s else 30000);
          end = (case opts of None \<Rightarrow> 39998 | Some (s, e) \<Rightarrow> if e \<noteq> 0 then e else 39998)
      in if start AND 1 \<noteq> 0 \<or> end AND 1 \<noteq> 0 \<or> end < start then Some None
         else if \<not> calloc_ok then Some None
         else case fill_ports realloc_ok (unat start) (unat end)
                     \<lparr>range_start = start, range_end = end, free_ports = [], free_cap = 0,
                      free_count = 0\<rparr> of
                None \<Rightarrow> None
              | Some (ok, pool) \<Rightarrow> Some (if ok then Some pool else None))"

text \<open>The two flags say that the out-pointers are not \<^verbatim>\<open>NULL\<close>; the written values are the pair.\<close>

definition ztk_rtp_port_pool_acquire ::
    "rtp_pool option \<Rightarrow> bool \<Rightarrow> bool \<Rightarrow>
     (ztk_err \<times> (u16 \<times> u16) option \<times> rtp_pool option) option" where
  "ztk_rtp_port_pool_acquire pool rtp_port rtcp_port =
     (case pool of None \<Rightarrow> Some (ZTK_ERR_INVALID, None, None)
      | Some p \<Rightarrow>
          if \<not> rtp_port \<or> \<not> rtcp_port then Some (ZTK_ERR_INVALID, None, pool)
          else (case pool_pop p of
                  None \<Rightarrow> None
                | Some (None, p') \<Rightarrow> Some (ZTK_ERR_NOMEM, None, Some p')
                | Some (Some rtp, p') \<Rightarrow> Some (ZTK_OK, Some (rtp, rtp + 1), Some p')))"

definition ztk_rtp_port_pool_release ::
    "(u32 \<Rightarrow> bool) \<Rightarrow> rtp_pool option \<Rightarrow> u16 \<Rightarrow> rtp_pool option option" where
  "ztk_rtp_port_pool_release realloc_ok pool port =
     (case pool of None \<Rightarrow> Some None
      | Some p \<Rightarrow>
          if \<not> port_valid port (range_start p) (range_end p) then Some pool
          else map_option (\<lambda>r. Some (snd r)) (pool_push realloc_ok p port))"

definition ztk_rtp_port_pool_free_count :: "rtp_pool option \<Rightarrow> u32" where
  "ztk_rtp_port_pool_free_count pool = (case pool of None \<Rightarrow> 0 | Some p \<Rightarrow> free_count p)"

section \<open>Invariant and abstraction\<close>

definition rtp_wf :: "rtp_pool \<Rightarrow> bool" where
  "rtp_wf p \<longleftrightarrow> length (free_ports p) = unat (free_cap p) \<and> free_count p \<le> free_cap p \<and>
     (\<forall>i < unat (free_count p). free_ports p ! i \<noteq> None)"

definition ports :: "rtp_pool \<Rightarrow> u16 list" where
  "ports p = map the (take (unat (free_count p)) (free_ports p))"

text \<open>The even ports of a range, in the order the constructor stacks them.\<close>

definition port_range :: "nat \<Rightarrow> nat \<Rightarrow> nat list" where
  "port_range s e = map (\<lambda>k. s + 2 * k) [0..<(e + 2 - s) div 2]"

section \<open>Lemmas\<close>

lemma rtp_wf_len: "rtp_wf p \<Longrightarrow> length (ports p) = unat (free_count p)"
  by (simp add: rtp_wf_def ports_def word_le_nat_alt)

lemma pool_push_room:
  assumes wf: "rtp_wf p" and room: "free_count p < free_cap p"
  shows "\<exists>p'. pool_push ok p x = Some (True, p') \<and> rtp_wf p' \<and> ports p' = ports p @ [x] \<and>
     free_cap p' = free_cap p \<and> range_start p' = range_start p \<and> range_end p' = range_end p"
proof -
  let ?c = "unat (free_count p)"
  define p' where "p' = p\<lparr>free_ports := (free_ports p)[?c := Some x], free_count := free_count p + 1\<rparr>"
  have lt: "?c < length (free_ports p)" using wf room by (simp add: rtp_wf_def word_less_nat_alt)
  have c1: "unat (free_count p + 1) = ?c + 1"
    using room unsigned_less [of "free_cap p", where ?'a = nat]
    by (simp add: unat_word_ariths word_less_nat_alt)
  have "rtp_wf p'"
    using wf lt c1 by (auto simp: rtp_wf_def p'_def word_le_nat_alt nth_list_update less_Suc_eq)
  moreover have "ports p' = ports p @ [x]"
    using lt c1 by (simp add: ports_def p'_def take_Suc_conv_app_nth)
  moreover have "pool_push ok p x = Some (True, p')"
    using room [folded not_le] lt by (simp add: pool_push_def p'_def)
  ultimately show ?thesis by (auto simp: p'_def)
qed

lemma pool_push_grow:
  assumes wf: "rtp_wf p" and full: "free_cap p \<le> free_count p" and ok: "\<forall>n. ok n"
    and small: "unat (free_cap p) < 2 ^ 31"
  shows "\<exists>p'. pool_push ok p x = Some (True, p') \<and> rtp_wf p' \<and> ports p' = ports p @ [x] \<and>
     free_cap p' = (if free_cap p \<noteq> 0 then free_cap p * 2 else 64) \<and>
     range_start p' = range_start p \<and> range_end p' = range_end p"
proof -
  let ?n = "if free_cap p \<noteq> 0 then free_cap p * 2 else 64"
  let ?p1 = "p\<lparr>free_ports := take (unat ?n) (free_ports p) @
                replicate (unat ?n - length (free_ports p)) None, free_cap := ?n\<rparr>"
  have eq: "free_count p = free_cap p" using wf full by (simp add: rtp_wf_def)
  have "unat (free_cap p * 2) = 2 * unat (free_cap p)" using small by (simp add: unat_word_ariths)
  then have gt: "unat (free_cap p) < unat ?n" by (simp add: unat_gt_0)
  have wf1: "rtp_wf ?p1"
    using wf gt eq by (auto simp: rtp_wf_def word_le_nat_alt nth_append)
  have "ports ?p1 = ports p" using wf gt eq by (simp add: ports_def rtp_wf_def)
  moreover have "pool_push ok p x = pool_push ok ?p1 x"
    using wf full ok gt eq by (simp add: pool_push_def Let_def word_le_nat_alt rtp_wf_def)
  moreover have "free_count ?p1 < free_cap ?p1" using gt eq by (simp add: word_less_nat_alt)
  ultimately show ?thesis using pool_push_room [OF wf1, of ok x] by auto
qed

lemma port_range_Cons:
  assumes "p \<le> e"
  shows "port_range p e = p # port_range (p + 2) e"
proof -
  have "(e + 2 - p) div 2 = Suc ((e + 2 - (p + 2)) div 2)" using assms by simp
  then show ?thesis
    by (simp add: port_range_def upt_conv_Cons map_Suc_upt [symmetric] del: upt_Suc)
qed

lemma port_range_count: "length (port_range s e) = (e + 2 - s) div 2"
  by (simp add: port_range_def)

text \<open>One push with room in the address space always succeeds and keeps the array small.\<close>

lemma pool_push_small:
  assumes "rtp_wf p" and "\<forall>n. ok n" and "unat (free_count p) < 2 ^ 20" and "unat (free_cap p) \<le> 2 ^ 21"
  shows "\<exists>p'. pool_push ok p x = Some (True, p') \<and> rtp_wf p' \<and> ports p' = ports p @ [x] \<and>
     unat (free_count p') = unat (free_count p) + 1 \<and> unat (free_cap p') \<le> 2 ^ 21 \<and>
     range_start p' = range_start p \<and> range_end p' = range_end p"
proof -
  have cnt: "unat (free_count q) = unat (free_count p) + 1"
    if "rtp_wf q" "ports q = ports p @ [x]" for q
    using rtp_wf_len [OF that(1)] rtp_wf_len [OF assms(1)] that(2) by simp
  show ?thesis
  proof (cases "free_count p < free_cap p")
    case True
    from pool_push_room [OF assms(1) True, of ok x] cnt assms(4) show ?thesis by fastforce
  next
    case False
    then have le: "free_cap p \<le> free_count p" by simp
    then have small: "unat (free_cap p) < 2 ^ 20" using assms(3) by (simp add: word_le_nat_alt)
    then have dbl: "unat (free_cap p * 2) = 2 * unat (free_cap p)" by (simp add: unat_word_ariths)
    obtain p' where p': "pool_push ok p x = Some (True, p')" "rtp_wf p'" "ports p' = ports p @ [x]"
        "free_cap p' = (if free_cap p \<noteq> 0 then free_cap p * 2 else 64)"
        "range_start p' = range_start p" "range_end p' = range_end p"
      using pool_push_grow [OF assms(1) le assms(2), where x = x] small by auto
    moreover have "unat (free_cap p') \<le> 2 ^ 21" using p'(4) dbl small by simp
    ultimately show ?thesis using cnt by blast
  qed
qed

lemma fill_ports_all:
  assumes "rtp_wf pool" and "\<forall>n. ok n" and "p \<le> e + 2"
    and "unat (free_count pool) + (e + 2 - p) div 2 \<le> 2 ^ 20"
    and "unat (free_cap pool) \<le> 2 ^ 21"
  shows "\<exists>pool'. fill_ports ok p e pool = Some (True, pool') \<and> rtp_wf pool' \<and>
     ports pool' = ports pool @ map of_nat (port_range p e) \<and>
     range_start pool' = range_start pool \<and> range_end pool' = range_end pool"
  using assms
proof (induction ok p e pool rule: fill_ports.induct)
  case (1 ok p e pool)
  show ?case
  proof (cases "p \<le> e")
    case False
    then have "(e + 2 - p) div 2 = 0" using 1(4) by auto
    with False 1 show ?thesis by (subst fill_ports.simps) (simp add: port_range_def)
  next
    case True
    then have d: "(e + 2 - p) div 2 = Suc ((e + 2 - (p + 2)) div 2)" by simp
    then have "unat (free_count pool) < 2 ^ 20" using "1.prems"(4) by simp
    then obtain p1 where p1: "pool_push ok pool (of_nat p) = Some (True, p1)" "rtp_wf p1"
        "ports p1 = ports pool @ [of_nat p]" "unat (free_count p1) = unat (free_count pool) + 1"
        "unat (free_cap p1) \<le> 2 ^ 21"
        "range_start p1 = range_start pool" "range_end p1 = range_end pool"
      using pool_push_small [OF "1.prems"(1,2), where x = "of_nat p"] "1.prems"(5) by blast
    have "\<exists>pool'. fill_ports ok (p + 2) e p1 = Some (True, pool') \<and> rtp_wf pool' \<and>
        ports pool' = ports p1 @ map of_nat (port_range (p + 2) e) \<and>
        range_start pool' = range_start p1 \<and> range_end pool' = range_end p1"
      by (rule "1.IH" [OF True p1(1)]) (use True p1 "1.prems" d in simp_all)
    with True p1 show ?thesis
      by (subst fill_ports.simps) (simp add: port_range_Cons)
  qed
qed

lemma pool_pop_wf:
  assumes wf: "rtp_wf p" and ne: "ports p \<noteq> []"
  shows "\<exists>p'. pool_pop p = Some (Some (last (ports p)), p') \<and> rtp_wf p' \<and> ports p' = butlast (ports p) \<and>
     free_cap p' = free_cap p \<and> range_start p' = range_start p \<and> range_end p' = range_end p"
proof -
  have "unat (free_count p) \<noteq> 0" using ne rtp_wf_len [OF wf] by (metis length_0_conv)
  then obtain c where c: "unat (free_count p) = Suc c" by (metis not0_implies_Suc)
  then have c1: "unat (free_count p - 1) = c" and nz: "free_count p \<noteq> 0"
    by (auto simp: unat_sub_size)
  have lt: "c < length (free_ports p)" using wf c by (simp add: rtp_wf_def word_le_nat_alt)
  obtain x where x: "free_ports p ! c = Some x" using wf c by (auto simp: rtp_wf_def)
  have app: "ports p = ports (p\<lparr>free_count := free_count p - 1\<rparr>) @ [x]"
    using c c1 lt x by (simp add: ports_def take_Suc_conv_app_nth)
  have "rtp_wf (p\<lparr>free_count := free_count p - 1\<rparr>)"
    using wf c c1 by (auto simp: rtp_wf_def word_le_nat_alt)
  moreover have "pool_pop p = Some (Some x, p\<lparr>free_count := free_count p - 1\<rparr>)"
    using nz c1 x lt by (simp add: pool_pop_def Let_def)
  ultimately show ?thesis using app by auto
qed

lemma pool_pop_empty: "rtp_wf p \<Longrightarrow> ports p = [] \<Longrightarrow> pool_pop p = Some (None, p)"
  using rtp_wf_len [of p] by (simp add: pool_pop_def unat_eq_zero)

section \<open>Clients of a pool of exclusive resources\<close>

datatype 'a res_op = Acquire | Release 'a

text \<open>
  A client's run: what it acquires it holds, and it gives back only what it holds (a release of
  something else is not an operation of such a client and is skipped).
\<close>

fun res_run :: "('p \<Rightarrow> ('a \<times> 'p) option) \<Rightarrow> ('p \<Rightarrow> 'a \<Rightarrow> 'p option) \<Rightarrow>
    'p \<Rightarrow> 'a multiset \<Rightarrow> 'a res_op list \<Rightarrow> ('p \<times> 'a multiset) option" where
  "res_run acq rel p h [] = Some (p, h)"
| "res_run acq rel p h (Acquire # ops) =
     (case acq p of None \<Rightarrow> res_run acq rel p h ops
      | Some (x, p') \<Rightarrow> res_run acq rel p' (add_mset x h) ops)"
| "res_run acq rel p h (Release x # ops) =
     (if x \<in># h then rel p x \<bind> (\<lambda>p'. res_run acq rel p' (h - {#x#}) ops)
      else res_run acq rel p h ops)"

locale resource_pool =
  fixes invar :: "'a multiset \<Rightarrow> 'p \<Rightarrow> bool"
    and free :: "'p \<Rightarrow> 'a multiset"
    and acquire :: "'p \<Rightarrow> ('a \<times> 'p) option"
    and release :: "'p \<Rightarrow> 'a \<Rightarrow> 'p option"
  assumes acquire_Some: "invar A p \<Longrightarrow> acquire p = Some (x, p') \<Longrightarrow>
      invar A p' \<and> free p = add_mset x (free p')"
    and acquire_None: "invar A p \<Longrightarrow> acquire p = None \<Longrightarrow> free p = {#}"
    and release_held: "invar A p \<Longrightarrow> free p + add_mset x h = A \<Longrightarrow>
      \<exists>p'. release p x = Some p' \<and> invar A p' \<and> free p' = add_mset x (free p)"
begin

lemma run_conserves:
  assumes "invar A p" and "free p + h = A"
  shows "\<exists>p' h'. res_run acquire release p h ops = Some (p', h') \<and> invar A p' \<and> free p' + h' = A"
  using assms
proof (induction ops arbitrary: p h)
  case Nil
  then show ?case by simp
next
  case (Cons x ops)
  show ?case
  proof (cases x)
    case Acquire
    show ?thesis
    proof (cases "acquire p")
      case None
      with Acquire Cons show ?thesis by simp
    next
      case (Some r)
      obtain y p' where r: "r = (y, p')" by (cases r)
      then have "invar A p'" "free p = add_mset y (free p')"
        using acquire_Some [OF Cons.prems(1)] Some by auto
      with Acquire Some r Cons.prems(2) Cons.IH [of p' "add_mset y h"] show ?thesis by simp
    qed
  next
    case (Release y)
    show ?thesis
    proof (cases "y \<in># h")
      case False
      with Release Cons show ?thesis by simp
    next
      case True
      then have h: "add_mset y (h - {#y#}) = h" by simp
      then obtain p' where p': "release p y = Some p'" "invar A p'" "free p' = add_mset y (free p)"
        using release_held [OF Cons.prems(1), of y "h - {#y#}"] Cons.prems(2) by auto
      have "free p' + (h - {#y#}) = A"
        using p'(3) h Cons.prems(2) by (metis union_mset_add_mset_left union_mset_add_mset_right)
      with Release True p' Cons.IH [of p' "h - {#y#}"] show ?thesis by simp
    qed
  qed
qed

end

text \<open>The port pool seen by such a client.\<close>

definition rtp_acquire :: "rtp_pool \<Rightarrow> (u16 \<times> rtp_pool) option" where
  "rtp_acquire p =
     (case ztk_rtp_port_pool_acquire (Some p) True True of
        Some (ZTK_OK, Some (rtp, rtcp), Some p') \<Rightarrow> Some (rtp, p') | _ \<Rightarrow> None)"

definition rtp_release :: "rtp_pool \<Rightarrow> u16 \<Rightarrow> rtp_pool option" where
  "rtp_release p x = (case ztk_rtp_port_pool_release (\<lambda>_. False) (Some p) x of
     Some (Some p') \<Rightarrow> Some p' | _ \<Rightarrow> None)"

definition rtp_inv :: "u16 multiset \<Rightarrow> rtp_pool \<Rightarrow> bool" where
  "rtp_inv A p \<longleftrightarrow> rtp_wf p \<and> (\<forall>x \<in># A. port_valid x (range_start p) (range_end p)) \<and>
     size A \<le> unat (free_cap p)"

lemma rtp_acquire_pop:
  "rtp_acquire p = (case pool_pop p of Some (Some x, p') \<Rightarrow> Some (x, p') | _ \<Rightarrow> None)"
  by (auto simp: rtp_acquire_def ztk_rtp_port_pool_acquire_def split: option.splits)

lemma rtp_release_held:
  assumes inv: "rtp_inv A p" and held: "mset (ports p) + add_mset x h = A"
  shows "\<exists>p'. rtp_release p x = Some p' \<and> rtp_inv A p' \<and> mset (ports p') = add_mset x (mset (ports p))"
proof -
  have wf: "rtp_wf p" and val: "port_valid x (range_start p) (range_end p)"
    using inv held by (auto simp: rtp_inv_def)
  have "size (mset (ports p) + add_mset x h) \<le> unat (free_cap p)"
    using inv held by (simp add: rtp_inv_def)
  then have "free_count p < free_cap p"
    using rtp_wf_len [OF wf] by (simp add: word_less_nat_alt)
  from pool_push_room [OF wf this, of "\<lambda>_. False" x] inv val show ?thesis
    by (auto simp: rtp_release_def ztk_rtp_port_pool_release_def rtp_inv_def)
qed

interpretation rtp: resource_pool rtp_inv "\<lambda>p. mset (ports p)" rtp_acquire rtp_release
proof unfold_locales
  fix A p x p'
  assume inv: "rtp_inv A p" and acq: "rtp_acquire p = Some (x, p')"
  have wf: "rtp_wf p" using inv by (simp add: rtp_inv_def)
  have ne: "ports p \<noteq> []" using acq pool_pop_empty [OF wf] by (auto simp: rtp_acquire_pop)
  from pool_pop_wf [OF wf ne] acq have "x = last (ports p)" "rtp_wf p'" "ports p' = butlast (ports p)"
      "free_cap p' = free_cap p" "range_start p' = range_start p" "range_end p' = range_end p"
    by (auto simp: rtp_acquire_pop)
  moreover have "mset (ports p) = add_mset (last (ports p)) (mset (butlast (ports p)))"
    using ne by (metis append_butlast_last_id mset.simps(1,2) mset_append union_mset_add_mset_right add_0_right)
  ultimately show "rtp_inv A p' \<and> mset (ports p) = add_mset x (mset (ports p'))"
    using inv by (auto simp: rtp_inv_def)
next
  fix A p
  assume "rtp_inv A p" and "rtp_acquire p = None"
  then show "mset (ports p) = {#}"
    using pool_pop_wf [of p] by (force simp: rtp_inv_def rtp_acquire_pop)
next
  fix A p x h
  assume "rtp_inv A p" and "mset (ports p) + add_mset x h = A"
  then show "\<exists>p'. rtp_release p x = Some p' \<and> rtp_inv A p' \<and>
      mset (ports p') = add_mset x (mset (ports p))"
    by (rule rtp_release_held)
qed

section \<open>The pool a client gets\<close>

lemma pool_push_granted: "pool_push ok p x = Some (True, q) \<Longrightarrow> pool_push (\<lambda>_. True) p x = Some (True, q)"
  by (auto simp: pool_push_def Let_def split: if_splits)

lemma fill_ports_granted:
  "fill_ports ok p e pool = Some (True, q) \<Longrightarrow> fill_ports (\<lambda>_. True) p e pool = Some (True, q)"
proof (induction ok p e pool rule: fill_ports.induct)
  case (1 ok p e pool)
  show ?case
  proof (cases "p \<le> e")
    case False
    then show ?thesis using "1.prems" by (simp add: fill_ports.simps)
  next
    case True
    then obtain r where r: "pool_push ok pool (of_nat p) = Some (True, r)"
        "fill_ports ok (p + 2) e r = Some (True, q)"
      using "1.prems" by (auto simp: fill_ports.simps [of ok p] split: option.splits bool.splits)
    have "fill_ports (\<lambda>_. True) (p + 2) e r = Some (True, q)"
      by (rule "1.IH" [OF True r(1)]) (use r in simp_all)
    with True pool_push_granted [OF r(1)] show ?thesis by (subst fill_ports.simps) simp
  qed
qed

lemma even_word_unat: "(x :: u16) AND 1 = 0 \<longleftrightarrow> even (unat x)"
  by (simp add: and_one_eq even_iff_mod_2_eq_zero word_unat_eq_iff unat_mod_distrib)

lemma set_port_range: "even s \<Longrightarrow> even e \<Longrightarrow> x \<in> set (port_range s e) \<longleftrightarrow> s \<le> x \<and> x \<le> e \<and> even x"
proof
  assume "even s" "even e" and r: "s \<le> x \<and> x \<le> e \<and> even x"
  then have "x = s + 2 * ((x - s) div 2)" by auto
  moreover have "(x - s) div 2 < (e + 2 - s) div 2" using r by linarith
  ultimately show "x \<in> set (port_range s e)" by (auto simp: port_range_def)
qed (auto simp: port_range_def)

lemma distinct_port_range: "distinct (port_range s e)"
  by (simp add: port_range_def distinct_map inj_on_def)

lemma rtp_create_inv:
  assumes "ztk_rtp_port_pool_create c ok opts = Some (Some p)"
  shows "range_start p AND 1 = 0 \<and> range_end p AND 1 = 0 \<and> range_start p \<le> range_end p \<and> rtp_wf p \<and>
     ports p = map of_nat (port_range (unat (range_start p)) (unat (range_end p)))"
proof -
  let ?st = "case opts of None \<Rightarrow> 30000 | Some (s, e) \<Rightarrow> if s \<noteq> 0 then s else 30000"
  let ?en = "case opts of None \<Rightarrow> 39998 | Some (s, e) \<Rightarrow> if e \<noteq> 0 then e else 39998"
  obtain s e where se: "s = ?st" "e = ?en" by blast
  have par: "s AND 1 = 0" "e AND 1 = 0" "s \<le> e" and fill: "fill_ports ok (unat s) (unat e)
      \<lparr>range_start = s, range_end = e, free_ports = [], free_cap = 0, free_count = 0\<rparr> = Some (True, p)"
    using assms unfolding ztk_rtp_port_pool_create_def Let_def se [symmetric]
    by (auto simp del: fill_ports.simps simp: not_less split: if_splits option.splits)
  let ?p0 = "\<lparr>range_start = s, range_end = e, free_ports = [], free_cap = 0, free_count = 0\<rparr>"
  have "unat e < 2 ^ 16" using unsigned_less [of e, where ?'a = nat] by simp
  then have "\<exists>q. fill_ports (\<lambda>_. True) (unat s) (unat e) ?p0 = Some (True, q) \<and> rtp_wf q \<and>
      ports q = ports ?p0 @ map of_nat (port_range (unat s) (unat e)) \<and>
      range_start q = range_start ?p0 \<and> range_end q = range_end ?p0"
    using par(3) by (intro fill_ports_all) (auto simp: rtp_wf_def word_le_nat_alt)
  with par fill_ports_granted [OF fill] show ?thesis by (auto simp: ports_def)
qed

lemma create_ports:
  assumes "ztk_rtp_port_pool_create c ok opts = Some (Some p)"
  shows "rtp_wf p" and "distinct (ports p)"
    and "x \<in> set (ports p) \<longleftrightarrow> port_valid x (range_start p) (range_end p)"
proof -
  let ?s = "unat (range_start p)" and ?e = "unat (range_end p)"
  note inv = rtp_create_inv [OF assms]
  then have ev: "even ?s" "even ?e" by (auto simp: even_word_unat)
  have lim: "y < 2 ^ 16" if "y \<in> set (port_range ?s ?e)" for y
    using that set_port_range [OF ev, of y] unsigned_less [of "range_end p", where ?'a = nat] by simp
  show "rtp_wf p" using inv by simp
  have "inj_on (of_nat :: nat \<Rightarrow> u16) (set (port_range ?s ?e))"
    by (rule inj_on_inverseI [where g = unat]) (use lim in \<open>simp add: of_nat_inverse\<close>)
  then show "distinct (ports p)" using inv by (simp add: distinct_map distinct_port_range)
  have "x \<in> set (ports p) \<longleftrightarrow> unat x \<in> set (port_range ?s ?e)"
  proof
    assume "x \<in> set (ports p)"
    then show "unat x \<in> set (port_range ?s ?e)" using inv lim by (auto simp: of_nat_inverse)
  next
    assume "unat x \<in> set (port_range ?s ?e)"
    then have "(of_nat (unat x) :: u16) \<in> of_nat ` set (port_range ?s ?e)" by blast
    then show "x \<in> set (ports p)" using inv by simp
  qed
  then show "x \<in> set (ports p) \<longleftrightarrow> port_valid x (range_start p) (range_end p)"
    by (simp add: set_port_range [OF ev] port_valid_def even_word_unat word_le_nat_alt)
qed

section \<open>Properties\<close>

text \<open>
  C7. Exclusive port pairs. Take any pool the constructor returns (whatever options, allocation
  succeeding) and any sequence of acquire and release calls in which a client gives back only ports
  it holds. The run has a defined outcome, needs no further allocation, and at its end every even
  port of the range is either free or held, once: no port is held twice, none is lost, none is both
  free and held. The RTCP port of a held pair is the next port number, without wrap-around, and is
  never itself the RTP port of a pair.
\<close>

theorem rtp_ports_exclusive:
  assumes "ztk_rtp_port_pool_create calloc_ok realloc_ok opts = Some (Some p)"
  shows "\<exists>p' held. res_run rtp_acquire rtp_release p {#} ops = Some (p', held) \<and>
     rtp_wf p' \<and> mset (ports p') + held = mset (ports p) \<and>
     (\<forall>x. count held x \<le> 1 \<and> \<not> (x \<in># held \<and> x \<in> set (ports p')) \<and>
        (x \<in># held \<or> x \<in> set (ports p')) = port_valid x (range_start p) (range_end p)) \<and>
     \<not> (\<exists>x \<in># held. unat (x + 1) \<noteq> unat x + 1 \<or> x + 1 \<in># held)"
proof -
  note cr = create_ports [OF assms]
  have "length (free_ports p) = unat (free_cap p)" "length (ports p) \<le> length (free_ports p)"
    using cr(1) by (auto simp: rtp_wf_def ports_def)
  then have inv: "rtp_inv (mset (ports p)) p" using cr by (simp add: rtp_inv_def)
  obtain p' held where run: "res_run rtp_acquire rtp_release p {#} ops = Some (p', held)"
      and inv': "rtp_inv (mset (ports p)) p'" and cons: "mset (ports p') + held = mset (ports p)"
    using rtp.run_conserves [OF inv, of "{#}" ops] by auto
  have cnt: "count (mset (ports p')) x + count held x = (if x \<in> set (ports p) then 1 else 0)" for x
    using arg_cong [OF cons, of "\<lambda>m. count m x"] cr(2) by (simp add: distinct_count_atmost_1)
  have mem: "x \<in># held \<longleftrightarrow> count held x \<noteq> 0" "x \<in> set (ports p') \<longleftrightarrow> count (mset (ports p')) x \<noteq> 0" for x
    by (auto simp: not_in_iff [symmetric] count_mset_0_iff)
  have excl: "count held x \<le> 1 \<and> \<not> (x \<in># held \<and> x \<in> set (ports p')) \<and>
      (x \<in># held \<or> x \<in> set (ports p')) = port_valid x (range_start p) (range_end p)" for x
    using cnt [of x] cr(3) [of x] unfolding mem
    by (cases "count held x"; cases "port_valid x (range_start p) (range_end p)") simp_all
  have odd: "unat (x + 1) = unat x + 1 \<and> \<not> port_valid (x + 1) s e" if "port_valid x s e" for x s e
  proof -
    have ev: "even (unat x)" using that by (simp add: port_valid_def even_word_unat)
    then have "unat x \<noteq> 2 ^ 16 - 1" by auto
    then have "unat x + 1 < 2 ^ 16" using unsigned_less [of x, where ?'a = nat] by simp
    then have "unat (x + 1) = unat x + 1" by (simp add: unat_word_ariths)
    with ev show ?thesis by (simp add: port_valid_def even_word_unat)
  qed
  show ?thesis
    using run inv' cons excl odd unfolding rtp_inv_def by blast
qed

theorem rtp_ports_exclusive_witness:
  "\<exists>p. ztk_rtp_port_pool_create True (\<lambda>_. True) (Some (10, 14)) = Some (Some p) \<and> ports p = [10, 12, 14] \<and>
     (\<exists>p' held. res_run rtp_acquire rtp_release p {#} [Acquire, Acquire, Release 14] = Some (p', held) \<and>
        mset (ports p') + held = mset (ports p))"
proof -
  have "case ztk_rtp_port_pool_create True (\<lambda>_. True) (Some (10, 14)) of
      Some (Some p) \<Rightarrow> ports p = [10, 12, 14] | _ \<Rightarrow> False"
    by code_simp
  then obtain p where p: "ztk_rtp_port_pool_create True (\<lambda>_. True) (Some (10, 14)) = Some (Some p)"
      "ports p = [10, 12, 14]"
    by (auto split: option.splits)
  from rtp_ports_exclusive [OF p(1), of "[Acquire, Acquire, Release 14]"] p show ?thesis by blast
qed

text \<open>
  No guard against a second release. Release does not check that the port is out: a client
  that releases the same valid port twice makes the next two acquires hand out the same pair to two
  different callers.
\<close>

lemma rtp_double_release:
  assumes "rtp_wf p" and "port_valid x (range_start p) (range_end p)"
    and "unat (free_count p) + 1 < unat (free_cap p)"
  shows "\<exists>p1 p2 p3 p4. ztk_rtp_port_pool_release ok (Some p) x = Some (Some p1) \<and>
     ztk_rtp_port_pool_release ok (Some p1) x = Some (Some p2) \<and>
     ztk_rtp_port_pool_acquire (Some p2) True True = Some (ZTK_OK, Some (x, x + 1), Some p3) \<and>
     ztk_rtp_port_pool_acquire (Some p3) True True = Some (ZTK_OK, Some (x, x + 1), Some p4)"
proof -
  note push = pool_push_room
  have lt: "free_count p < free_cap p" using assms(3) by (simp add: word_less_nat_alt)
  obtain p1 where p1: "pool_push ok p x = Some (True, p1)" "rtp_wf p1" "ports p1 = ports p @ [x]"
      "free_cap p1 = free_cap p" "range_start p1 = range_start p" "range_end p1 = range_end p"
    using push [OF assms(1) lt, of ok x] by blast
  have "unat (free_count p1) = unat (free_count p) + 1"
    using rtp_wf_len [OF p1(2)] rtp_wf_len [OF assms(1)] p1(3) by simp
  then have "free_count p1 < free_cap p1" using assms(3) p1(4) by (simp add: word_less_nat_alt)
  then obtain p2 where p2: "pool_push ok p1 x = Some (True, p2)" "rtp_wf p2" "ports p2 = ports p1 @ [x]"
    using push [OF p1(2), of ok x] by blast
  obtain p3 where p3: "pool_pop p2 = Some (Some x, p3)" "rtp_wf p3" "ports p3 = ports p1"
    using pool_pop_wf [OF p2(2)] p2(3) by auto
  obtain p4 where "pool_pop p3 = Some (Some x, p4)" using pool_pop_wf [OF p3(2)] p3(3) p1(3) by auto
  with assms(2) p1 p2 p3 show ?thesis
    by (simp add: ztk_rtp_port_pool_release_def ztk_rtp_port_pool_acquire_def)
qed

end
