(* ===== verification/Poller_Task.thy ===== *)
theory Poller_Task
  imports Linked_Queue
begin

text \<open>
  The task queue of a poller, \<^verbatim>\<open>src/poller/poller_task.c\<close>: tasks posted from any thread with
  \<^verbatim>\<open>async\<close> (at the back) or \<^verbatim>\<open>async_first\<close> (at the front), run in order by the poller thread when
  it drains the queue. The node of a task is the address \<^verbatim>\<open>calloc\<close> returned (an argument; \<open>None\<close> is
  \<^verbatim>\<open>NULL\<close>, and an address in use is no answer of \<^verbatim>\<open>calloc\<close>); the result of waking the poller and
  what a task does when it runs are arguments too. The record is extensible: the other parts of a
  poller extend it, and a task may change all of them.
\<close>

section \<open>State and operations\<close>

record 't ptask =
  task_mtx :: bool
  task_q :: "'t lq"
  owner_thread :: u64

definition calloc_node :: "nat option \<Rightarrow> 't lq \<Rightarrow> nat option" where
  "calloc_node mem q = (case mem of None \<Rightarrow> None | Some a \<Rightarrow> if nodes q a = None then Some a else None)"

definition ztk_poller_async_impl ::
    "('t \<Rightarrow> ('t, 'z) ptask_scheme \<Rightarrow> ('t, 'z) ptask_scheme option) \<Rightarrow> u64 \<Rightarrow> nat option \<Rightarrow> ztk_err \<Rightarrow>
     ('t, 'z) ptask_scheme option \<Rightarrow> 't option \<Rightarrow> bool \<Rightarrow> bool \<Rightarrow>
     (ztk_err \<times> ('t, 'z) ptask_scheme option) option" where
  "ztk_poller_async_impl run self mem wake p fn may_sync push_front =
     (case (p, fn) of
        (Some s, Some t) \<Rightarrow>
          if may_sync \<and> owner_thread s \<noteq> 0 \<and> owner_thread s = self
          then map_option (\<lambda>s'. (ZTK_OK, Some s')) (run t s)
          else if \<not> task_mtx s then Some (ZTK_ERR_STATE, p)
          else (case calloc_node mem (task_q s) of
                  None \<Rightarrow> Some (ZTK_ERR_NOMEM, p)
                | Some a \<Rightarrow>
                    Some (wake, Some (s\<lparr>task_q := (if push_front then lq_push_front a t (task_q s)
                                                   else lq_push_back a t (task_q s))\<rparr>)))
      | _ \<Rightarrow> Some (ZTK_ERR_INVALID, p))"

definition ztk_poller_async ::
    "('t \<Rightarrow> ('t, 'z) ptask_scheme \<Rightarrow> ('t, 'z) ptask_scheme option) \<Rightarrow> u64 \<Rightarrow> nat option \<Rightarrow> ztk_err \<Rightarrow>
     ('t, 'z) ptask_scheme option \<Rightarrow> 't option \<Rightarrow> bool \<Rightarrow>
     (ztk_err \<times> ('t, 'z) ptask_scheme option) option" where
  "ztk_poller_async run self mem wake p fn may_sync =
     ztk_poller_async_impl run self mem wake p fn may_sync False"

definition ztk_poller_async_first ::
    "('t \<Rightarrow> ('t, 'z) ptask_scheme \<Rightarrow> ('t, 'z) ptask_scheme option) \<Rightarrow> u64 \<Rightarrow> nat option \<Rightarrow> ztk_err \<Rightarrow>
     ('t, 'z) ptask_scheme option \<Rightarrow> 't option \<Rightarrow> bool \<Rightarrow>
     (ztk_err \<times> ('t, 'z) ptask_scheme option) option" where
  "ztk_poller_async_first run self mem wake p fn may_sync =
     ztk_poller_async_impl run self mem wake p fn may_sync True"

text \<open>
  The loop over the detached list: read \<^verbatim>\<open>next\<close>, run the task, free the node. Reading or freeing a
  node that is not allocated has no defined outcome (\<open>None\<close>).
\<close>

partial_function (option) drain_list ::
    "('t \<Rightarrow> ('t, 'z) ptask_scheme \<Rightarrow> ('t, 'z) ptask_scheme option) \<Rightarrow> nat option \<Rightarrow>
     ('t, 'z) ptask_scheme \<Rightarrow> ('t, 'z) ptask_scheme option" where
  "drain_list run list s =
     (case list of None \<Rightarrow> Some s
      | Some a \<Rightarrow>
         (case nodes (task_q s) a of None \<Rightarrow> None
          | Some (t, next) \<Rightarrow>
             Option.bind (run t s) (\<lambda>s1.
               if nodes (task_q s1) a = None then None
               else drain_list run next
                      (s1\<lparr>task_q := (task_q s1)\<lparr>nodes := (nodes (task_q s1))(a := None)\<rparr>\<rparr>))))"

definition ztk_poller_drain_tasks ::
    "('t \<Rightarrow> ('t, 'z) ptask_scheme \<Rightarrow> ('t, 'z) ptask_scheme option) \<Rightarrow>
     ('t, 'z) ptask_scheme option \<Rightarrow> ('t, 'z) ptask_scheme option option" where
  "ztk_poller_drain_tasks run p =
     (case p of None \<Rightarrow> Some None
      | Some s \<Rightarrow>
          if \<not> task_mtx s then Some p
          else map_option Some
                 (drain_list run (lhead (task_q s))
                    (s\<lparr>task_q := (task_q s)\<lparr>lhead := None, ltail := None\<rparr>\<rparr>)))"

definition ztk_poller_process_pending ::
    "('t \<Rightarrow> ('t, 'z) ptask_scheme \<Rightarrow> ('t, 'z) ptask_scheme option) \<Rightarrow>
     ('t, 'z) ptask_scheme option \<Rightarrow> ('t, 'z) ptask_scheme option option" where
  "ztk_poller_process_pending run p = ztk_poller_drain_tasks run p"

definition ztk_poller_is_current_thread :: "u64 \<Rightarrow> ('t, 'z) ptask_scheme option \<Rightarrow> bool" where
  "ztk_poller_is_current_thread self p =
     (case p of None \<Rightarrow> False | Some s \<Rightarrow> if owner_thread s = 0 then False else owner_thread s = self)"

definition ztk_poller_bind_thread ::
    "u64 \<Rightarrow> ('t, 'z) ptask_scheme option \<Rightarrow> ('t, 'z) ptask_scheme option" where
  "ztk_poller_bind_thread self p = map_option (\<lambda>s. s\<lparr>owner_thread := self\<rparr>) p"

definition ztk_poller_unbind_thread ::
    "('t, 'z) ptask_scheme option \<Rightarrow> ('t, 'z) ptask_scheme option" where
  "ztk_poller_unbind_thread p = map_option (\<lambda>s. s\<lparr>owner_thread := 0\<rparr>) p"

section \<open>Queue contents beside detached nodes\<close>

text \<open>
  \<open>tq_rep D s xs\<close>: the queue holds the tasks \<open>xs\<close>, and the nodes \<open>D\<close> are allocated outside it.
\<close>

definition tq_rep :: "nat set \<Rightarrow> ('t, 'z) ptask_scheme \<Rightarrow> 't list \<Rightarrow> bool" where
  "tq_rep D s xs \<longleftrightarrow> D \<subseteq> dom (nodes (task_q s)) \<and> lq_rep (lq_off D (task_q s)) xs"

definition same_nodes :: "nat set \<Rightarrow> ('t, 'z) ptask_scheme \<Rightarrow> ('t, 'z) ptask_scheme \<Rightarrow> bool" where
  "same_nodes D s s' \<longleftrightarrow> (\<forall>a \<in> D. nodes (task_q s') a = nodes (task_q s) a)"

text \<open>An asynchronous post changes nothing but the queue, at the end asked for.\<close>

lemma async_impl_posts:
  assumes rep: "tq_rep D s xs" and mtx: "task_mtx s"
    and fresh: "calloc_node mem (task_q s) = Some a"
    and later: "\<not> (may_sync \<and> owner_thread s \<noteq> 0 \<and> owner_thread s = self)"
  shows "\<exists>q. ztk_poller_async_impl run self mem wake (Some s) (Some t) may_sync push_front =
       Some (wake, Some (s\<lparr>task_q := q\<rparr>)) \<and>
     tq_rep D (s\<lparr>task_q := q\<rparr>) (if push_front then t # xs else xs @ [t]) \<and> same_nodes D s (s\<lparr>task_q := q\<rparr>)"
proof -
  let ?q = "task_q s"
  have fr: "lq_fresh ?q a"
    using fresh by (auto simp: calloc_node_def lq_fresh_def split: option.splits if_splits)
  then have aD: "a \<notin> D" using rep by (auto simp: tq_rep_def lq_fresh_def)
  have tl: "\<And>u. ltail ?q = Some u \<Longrightarrow> u \<notin> D" using lq_off_tail rep by (metis tq_rep_def)
  have dom: "D \<subseteq> dom (nodes ?q)" and r: "lq_rep (lq_off D ?q) xs" using rep by (auto simp: tq_rep_def)
  note keep = lq_push_keeps [OF fr _ dom]
  have "lq_rep (lq_off D (lq_push_front a t ?q)) (t # xs)"
    using lq_rep_push_front [OF r lq_off_fresh [OF fr]] by (simp add: lq_off_push_front [OF aD])
  moreover have "lq_rep (lq_off D (lq_push_back a t ?q)) (xs @ [t])"
    using lq_rep_push_back [OF r lq_off_fresh [OF fr]] by (simp add: lq_off_push_back [OF aD tl])
  moreover have "D \<subseteq> dom (nodes (lq_push_front a t ?q))" "D \<subseteq> dom (nodes (lq_push_back a t ?q))"
    using dom keep(1) keep(2) [OF _ tl] by (auto simp: subset_iff domIff)
  ultimately show ?thesis
    using fresh mtx later keep(1) keep(2) [OF _ tl]
    by (auto simp: ztk_poller_async_impl_def tq_rep_def same_nodes_def)
qed

section \<open>Draining is folding the tasks\<close>

text \<open>
  What a task must guarantee for the poller that runs it: it returns, touches the queue only by
  posting (the nodes already detached stay as they are) and its effect on the queue contents and on
  the rest of the state (read off by \<open>wld\<close>) is the function \<open>effect\<close>. The condition \<open>winv ts w\<close> is what
  the tasks \<open>ts\<close> still to run need of the state.
\<close>

locale task_runner =
  fixes run :: "'t \<Rightarrow> ('t, 'z) ptask_scheme \<Rightarrow> ('t, 'z) ptask_scheme option"
    and wld :: "('t, 'z) ptask_scheme \<Rightarrow> 'w"
    and winv :: "'t list \<Rightarrow> 'w \<Rightarrow> bool"
    and effect :: "'t \<Rightarrow> 't list \<times> 'w \<Rightarrow> 't list \<times> 'w"
  assumes run_effect: "tq_rep D s xs \<Longrightarrow> winv (t # ts) (wld s) \<Longrightarrow>
      \<exists>s'. run t s = Some s' \<and> tq_rep D s' (fst (effect t (xs, wld s))) \<and>
        wld s' = snd (effect t (xs, wld s)) \<and> same_nodes D s s' \<and> task_mtx s' = task_mtx s"
    and effect_inv: "winv (t # ts) w \<Longrightarrow> winv ts (snd (effect t (xs, w)))"
    and wld_queue: "wld (s\<lparr>task_q := q\<rparr>) = wld s"
begin

lemma drain_list_folds:
  assumes "lpath (nodes (task_q s)) p ns" and "distinct (map fst ns)"
    and "tq_rep (fst ` set ns) s xs" and "winv (map snd ns) (wld s)"
  shows "\<exists>s'. drain_list run p s = Some s' \<and> task_mtx s' = task_mtx s \<and>
     tq_rep {} s' (fst (fold effect (map snd ns) (xs, wld s))) \<and>
     wld s' = snd (fold effect (map snd ns) (xs, wld s))"
  using assms
proof (induction ns arbitrary: p s xs)
  case Nil
  then show ?case by (subst drain_list.simps) simp
next
  case (Cons n ns)
  obtain a t where n: "n = (a, t)" by (cases n)
  obtain nx where at: "p = Some a" "nodes (task_q s) a = Some (t, nx)" "lpath (nodes (task_q s)) nx ns"
    using Cons.prems(1) n by auto
  let ?D = "fst ` set (n # ns)"
  obtain s1 where s1: "run t s = Some s1" "tq_rep ?D s1 (fst (effect t (xs, wld s)))"
      "wld s1 = snd (effect t (xs, wld s))" "same_nodes ?D s s1" "task_mtx s1 = task_mtx s"
    using run_effect [OF Cons.prems(3), of t "map snd ns"] Cons.prems(4) n by auto
  let ?s2 = "s1\<lparr>task_q := (task_q s1)\<lparr>nodes := (nodes (task_q s1))(a := None)\<rparr>\<rparr>"
  have a_in: "nodes (task_q s1) a = Some (t, nx)" using s1(4) at(2) n by (simp add: same_nodes_def)
  have notin: "a \<notin> fst ` set ns" using Cons.prems(2) n by auto
  have same: "\<And>b. b \<in> fst ` set ns \<Longrightarrow> nodes (task_q s1) b = nodes (task_q s) b"
    using s1(4) by (auto simp: same_nodes_def)
  have "lpath (nodes (task_q s1)) q ms = lpath (nodes (task_q s)) q ms" if "fst ` set ms \<subseteq> fst ` set ns" for q ms
    using that by (induction "nodes (task_q s)" q ms rule: lpath.induct) (auto simp: same)
  then have path: "lpath (nodes (task_q ?s2)) nx ns" using at(3) notin by simp
  have "lq_off (fst ` set ns) (task_q ?s2) = lq_off ?D (task_q s1)"
    by (auto simp: lq_off_def n restrict_map_def fun_eq_iff)
  then have rep2: "tq_rep (fst ` set ns) ?s2 (fst (effect t (xs, wld s)))"
    using s1(2) notin by (auto simp: tq_rep_def n)
  have w2: "wld ?s2 = snd (effect t (xs, wld s))" using s1(3) by (simp add: wld_queue)
  have "winv (map snd ns) (wld ?s2)" using effect_inv [of t "map snd ns" "wld s" xs] Cons.prems(4) n w2 by simp
  with Cons.IH [OF path _ rep2] Cons.prems(2) n w2 s1(5)
  obtain s' where "drain_list run nx ?s2 = Some s'" "task_mtx s' = task_mtx s"
      "tq_rep {} s' (fst (fold effect (map snd ns) (effect t (xs, wld s))))"
      "wld s' = snd (fold effect (map snd ns) (effect t (xs, wld s)))"
    by auto
  with at n s1(1) a_in show ?case by (subst drain_list.simps) simp
qed

theorem drain_folds:
  assumes rep: "tq_rep {} s ts" and mtx: "task_mtx s" and inv: "winv ts (wld s)"
  shows "\<exists>s'. ztk_poller_drain_tasks run (Some s) = Some (Some s') \<and>
     tq_rep {} s' (fst (fold effect ts ([], wld s))) \<and> wld s' = snd (fold effect ts ([], wld s))"
proof -
  obtain ns where ns: "lq_repn (task_q s) ns" "ts = map snd ns"
    using rep by (auto simp: tq_rep_def lq_rep_def)
  let ?s0 = "s\<lparr>task_q := (task_q s)\<lparr>lhead := None, ltail := None\<rparr>\<rparr>"
  have dom: "dom (nodes (task_q s)) = fst ` set ns" using ns(1) by (simp add: lq_repn_def)
  then have "nodes (task_q s) |` (- fst ` set ns) = Map.empty"
    by (auto simp: restrict_map_def fun_eq_iff domIff)
  then have "lq_repn (lq_off (fst ` set ns) (task_q ?s0)) []"
    by (simp add: lq_off_def lq_repn_def)
  then have "tq_rep (fst ` set ns) ?s0 []"
    using dom by (auto simp: tq_rep_def lq_rep_def)
  then obtain s' where s': "drain_list run (lhead (task_q s)) ?s0 = Some s'"
      "tq_rep {} s' (fst (fold effect (map snd ns) ([], wld ?s0)))"
      "wld s' = snd (fold effect (map snd ns) ([], wld ?s0))"
    using drain_list_folds [of ?s0 "lhead (task_q s)" ns "[]"] ns inv
    by (auto simp: lq_repn_def wld_queue)
  with mtx ns(2) show ?thesis by (simp add: ztk_poller_drain_tasks_def wld_queue)
qed

end

end
