(* ===== verification/Timer_Heap.thy ===== *)
theory Timer_Heap
  imports Ztk_Prelude
begin

text \<open>
  The array heap that \<^verbatim>\<open>poller_timer.c\<close> keeps its timers in, seen as a list of elements with a key:
  sift up, sift down, push, remove the minimum and remove at an index, with the index arithmetic
  of the source. This is the algorithmic layer: \<open>Poller_Timer\<close> shows that the operations on the
  timer array, with its back pointers, compute these functions. The heap order of an array is
  \<open>heap_on\<close>; the locale \<open>min_queue\<close> is the contract of a priority queue with removal.
\<close>

section \<open>Sifting\<close>

definition par :: "nat \<Rightarrow> nat" where
  "par i = (i - 1) div 2"

definition lswap :: "'a list \<Rightarrow> nat \<Rightarrow> nat \<Rightarrow> 'a list" where
  "lswap xs i j = xs[i := xs ! j, j := xs ! i]"

fun up :: "('a \<Rightarrow> 'k::linorder) \<Rightarrow> 'a list \<Rightarrow> nat \<Rightarrow> 'a list" where
  "up K xs i =
     (if i = 0 then xs
      else if K (xs ! ((i - 1) div 2)) \<le> K (xs ! i) then xs
      else up K (lswap xs ((i - 1) div 2) i) ((i - 1) div 2))"

declare up.simps [simp del]

definition smallest :: "('a \<Rightarrow> 'k::linorder) \<Rightarrow> 'a list \<Rightarrow> nat \<Rightarrow> nat" where
  "smallest K xs i =
     (let left = i * 2 + 1; right = left + 1;
          s = (if left < length xs \<and> K (xs ! left) < K (xs ! i) then left else i)
      in if right < length xs \<and> K (xs ! right) < K (xs ! s) then right else s)"

lemma length_lswap [simp]: "length (lswap xs i j) = length xs"
  by (simp add: lswap_def)

lemma nth_lswap:
  "i < length xs \<Longrightarrow> j < length xs \<Longrightarrow>
   lswap xs i j ! k = (if k = i then xs ! j else if k = j then xs ! i else xs ! k)"
  by (cases "k < length xs") (auto simp: lswap_def nth_list_update)

lemma mset_lswap [simp]: "i < length xs \<Longrightarrow> j < length xs \<Longrightarrow> mset (lswap xs i j) = mset xs"
  unfolding lswap_def by (rule mset_swap)

lemma smallest_cases:
  "smallest K xs i = i \<or> (i < smallest K xs i \<and> smallest K xs i < length xs \<and>
     par (smallest K xs i) = i \<and> K (xs ! smallest K xs i) < K (xs ! i))"
  by (auto simp: smallest_def Let_def par_def split: if_splits)

lemma smallest_le:
  assumes "c < length xs" and "0 < c" and "par c = i"
  shows "K (xs ! smallest K xs i) \<le> K (xs ! c)"
proof -
  have "c = i * 2 + 1 \<or> c = i * 2 + 2" using assms(2,3) by (auto simp: par_def)
  then show ?thesis using assms(1) by (auto simp: smallest_def Let_def)
qed

function down :: "('a \<Rightarrow> 'k::linorder) \<Rightarrow> 'a list \<Rightarrow> nat \<Rightarrow> 'a list" where
  "down K xs i =
     (if smallest K xs i = i then xs else down K (lswap xs i (smallest K xs i)) (smallest K xs i))"
  by pat_completeness auto
termination
proof (relation "measure (\<lambda>(K, xs, i). length xs - i)")
  fix K :: "'a \<Rightarrow> 'k::linorder" and xs i
  assume "smallest K xs i \<noteq> i"
  then show "((K, lswap xs i (smallest K xs i), smallest K xs i), (K, xs, i))
      \<in> measure (\<lambda>(K, xs, i). length xs - i)"
    using smallest_cases [of K xs i] by auto
qed simp

declare down.simps [simp del]

section \<open>The queue on lists\<close>

definition heap_push :: "('a \<Rightarrow> 'k::linorder) \<Rightarrow> 'a list \<Rightarrow> 'a \<Rightarrow> 'a list" where
  "heap_push K xs x = up K (xs @ [x]) (length xs)"

definition heap_pop :: "('a \<Rightarrow> 'k::linorder) \<Rightarrow> 'a list \<Rightarrow> 'a list" where
  "heap_pop K xs =
     (let ys = butlast xs in if ys = [] then [] else down K (ys[0 := last xs]) 0)"

definition heap_remove :: "('a \<Rightarrow> 'k::linorder) \<Rightarrow> 'a list \<Rightarrow> nat \<Rightarrow> 'a list" where
  "heap_remove K xs i =
     (let ys = butlast xs in
      if i < length ys then up K (down K (ys[i := last xs]) i) i else ys)"

definition heap_on :: "('a \<Rightarrow> 'k::linorder) \<Rightarrow> 'a list \<Rightarrow> bool" where
  "heap_on K xs \<longleftrightarrow> (\<forall>j < length xs. 0 < j \<longrightarrow> K (xs ! par j) \<le> K (xs ! j))"

section \<open>Order and contents\<close>

lemma par_less [simp]: "0 < i \<Longrightarrow> par i < i"
  by (auto simp: par_def)

lemma par_neq [simp]: "0 < i \<Longrightarrow> par i \<noteq> i" "0 < i \<Longrightarrow> i \<noteq> par i"
  by (auto simp: par_def)

lemma up_unfold:
  "up K xs i = (if i = 0 \<or> K (xs ! par i) \<le> K (xs ! i) then xs else up K (lswap xs (par i) i) (par i))"
  by (subst up.simps) (simp add: par_def)

lemma up_mset: "i < length xs \<Longrightarrow> mset (up K xs i) = mset xs \<and> length (up K xs i) = length xs"
proof (induction i arbitrary: xs rule: less_induct)
  case (less i)
  show ?case
  proof (cases "i = 0 \<or> K (xs ! par i) \<le> K (xs ! i)")
    case True
    then show ?thesis by (simp add: up_unfold)
  next
    case False
    then have "par i < i" by simp
    with less.IH [of "par i" "lswap xs (par i) i"] less.prems False show ?thesis
      by (simp add: up_unfold [of K xs i])
  qed
qed

lemma down_mset: "i < length xs \<Longrightarrow> mset (down K xs i) = mset xs \<and> length (down K xs i) = length xs"
proof (induction K xs i rule: down.induct)
  case (1 K xs i)
  then show ?case using smallest_cases [of K xs i] by (subst (1 2) down.simps) auto
qed

text \<open>Heap order at every edge but the one into \<open>i\<close>, whose children do respect the grandparent.\<close>

definition up_inv :: "('a \<Rightarrow> 'k::linorder) \<Rightarrow> 'a list \<Rightarrow> nat \<Rightarrow> bool" where
  "up_inv K xs i \<longleftrightarrow> i < length xs \<and>
     (\<forall>j < length xs. 0 < j \<and> j \<noteq> i \<longrightarrow> K (xs ! par j) \<le> K (xs ! j)) \<and>
     (\<forall>c < length xs. 0 < c \<and> par c = i \<and> 0 < i \<longrightarrow> K (xs ! par i) \<le> K (xs ! c))"

lemma up_heap: "up_inv K xs i \<Longrightarrow> heap_on K (up K xs i)"
proof (induction i arbitrary: xs rule: less_induct)
  case (less i)
  note inv = less.prems [unfolded up_inv_def]
  show ?case
  proof (cases "i = 0 \<or> K (xs ! par i) \<le> K (xs ! i)")
    case True
    then have "heap_on K xs" using inv unfolding heap_on_def by (metis not_gr_zero)
    with True show ?thesis by (simp add: up_unfold)
  next
    case False
    then have lt: "par i < i" "par i < length xs" "K (xs ! i) < K (xs ! par i)"
      using inv by (auto dest: par_less)
    let ?ys = "lswap xs (par i) i"
    have nth: "?ys ! k = (if k = par i then xs ! i else if k = i then xs ! par i else xs ! k)" for k
      using lt inv by (simp add: nth_lswap)
    have par_edge: "K (xs ! par j) \<le> K (xs ! j)" if "j < length xs" "0 < j" "j \<noteq> i" for j
      using inv that by blast
    have "up_inv K ?ys (par i)"
      unfolding up_inv_def length_lswap
    proof (intro conjI allI impI)
      show "par i < length xs" by fact
    next
      fix j assume j: "j < length xs" "0 < j \<and> j \<noteq> par i"
      show "K (?ys ! par j) \<le> K (?ys ! j)"
      proof (cases "j = i")
        case True
        then show ?thesis using lt nth by simp
      next
        case False
        then show ?thesis
          using j lt par_edge [of j] inv less_imp_le [OF lt(3)] unfolding nth
          by (auto intro: order_trans)
      qed
    next
      fix c assume c: "c < length xs" "0 < c \<and> par c = par i \<and> 0 < par i"
      then have "K (xs ! par (par i)) \<le> K (xs ! par i)" using par_edge [of "par i"] lt by auto
      moreover have "K (xs ! par i) \<le> K (xs ! c)" if "c \<noteq> i" using par_edge [of c] c that by simp
      moreover have "par (par i) < par i" "par i \<noteq> c" using c par_less [of c] par_less [of "par i"] by auto
      ultimately show "K (?ys ! par (par i)) \<le> K (?ys ! c)"
        using lt unfolding nth by auto
    qed
    from less.IH [OF lt(1) this] False show ?thesis by (simp add: up_unfold [of K xs i])
  qed
qed

text \<open>Heap order at every edge but those out of \<open>i\<close>, whose children respect the parent of \<open>i\<close>.\<close>

definition down_inv :: "('a \<Rightarrow> 'k::linorder) \<Rightarrow> 'a list \<Rightarrow> nat \<Rightarrow> bool" where
  "down_inv K xs i \<longleftrightarrow> i < length xs \<and>
     (\<forall>j < length xs. 0 < j \<and> par j \<noteq> i \<longrightarrow> K (xs ! par j) \<le> K (xs ! j)) \<and>
     (\<forall>c < length xs. 0 < c \<and> par c = i \<and> 0 < i \<longrightarrow> K (xs ! par i) \<le> K (xs ! c))"

lemma down_stop: "smallest K xs i = i \<Longrightarrow> down K xs i = xs"
  by (simp add: down.simps)

lemma down_heap: "down_inv K xs i \<Longrightarrow> heap_on K (down K xs i)"
proof (induction K xs i rule: down.induct)
  case (1 K xs i)
  note inv = "1.prems" [unfolded down_inv_def]
  let ?s = "smallest K xs i" and ?ys = "lswap xs i (smallest K xs i)"
  show ?case
  proof (cases "?s = i")
    case True
    then have "K (xs ! par j) \<le> K (xs ! j)" if "j < length xs" "0 < j" for j
      using that inv smallest_le [of j xs i K] by (cases "par j = i") auto
    with True show ?thesis by (simp add: down_stop heap_on_def)
  next
    case False
    then have s: "i < ?s" "?s < length xs" "par ?s = i" "K (xs ! ?s) < K (xs ! i)"
      using smallest_cases [of K xs i] by auto
    have nth: "?ys ! k = (if k = i then xs ! ?s else if k = ?s then xs ! i else xs ! k)" for k
      using s inv by (simp add: nth_lswap)
    have edge: "K (xs ! par j) \<le> K (xs ! j)" if "j < length xs" "0 < j" "par j \<noteq> i" for j
      using inv that by blast
    have "down_inv K ?ys ?s"
      unfolding down_inv_def length_lswap
    proof (intro conjI allI impI)
      show "?s < length xs" by fact
    next
      fix j assume j: "j < length xs" "0 < j \<and> par j \<noteq> ?s"
      have "K (?ys ! par j) \<le> K (?ys ! j)" if "par j = i"
        using that j s(4) par_less [of j] smallest_le [of j xs i K] unfolding nth by auto
      moreover have "K (?ys ! par j) \<le> K (?ys ! j)" if "par j \<noteq> i"
        using that j s edge [of j] inv unfolding nth by auto
      ultimately show "K (?ys ! par j) \<le> K (?ys ! j)" by blast
    next
      fix c assume c: "c < length xs" "0 < c \<and> par c = ?s \<and> 0 < ?s"
      then have "K (xs ! ?s) \<le> K (xs ! c)" using edge [of c] s by auto
      moreover have "c \<noteq> i" "c \<noteq> ?s" using c s par_less [of c] by auto
      ultimately show "K (?ys ! par ?s) \<le> K (?ys ! c)" using s(1,3) unfolding nth by simp
    qed
    from "1.IH" [OF False this] False show ?thesis by (simp add: down.simps [of K xs i])
  qed
qed

lemma up_heap_id: "heap_on K xs \<Longrightarrow> i < length xs \<Longrightarrow> up K xs i = xs"
  by (subst up_unfold) (auto simp: heap_on_def)

lemma heap_on_butlast: "heap_on K xs \<Longrightarrow> heap_on K (butlast xs)"
  unfolding heap_on_def
proof (intro allI impI)
  fix j assume h: "\<forall>j < length xs. 0 < j \<longrightarrow> K (xs ! par j) \<le> K (xs ! j)"
    and j: "j < length (butlast xs)" "0 < j"
  then have "par j < length (butlast xs)" using par_less [OF j(2)] by simp
  with h j show "K (butlast xs ! par j) \<le> K (butlast xs ! j)" by (simp add: nth_butlast)
qed

text \<open>The hole left at \<open>i\<close> is filled by any element: sifting it both ways restores the order.\<close>

lemma heap_refill:
  assumes h: "heap_on K ys" and i: "i < length ys"
  shows "heap_on K (up K (down K (ys[i := x]) i) i)"
proof -
  let ?zs = "ys[i := x]"
  have edge: "K (ys ! par j) \<le> K (ys ! j)" if "j < length ys" "0 < j" for j
    using h that by (simp add: heap_on_def)
  have nth: "?zs ! k = (if k = i then x else ys ! k)" for k using i by (simp add: nth_list_update)
  have grand: "K (ys ! par i) \<le> K (ys ! c)" if "c < length ys" "0 < c" "par c = i" "0 < i" for c
    using edge [of i] edge [of c] i that by auto
  show ?thesis
  proof (cases "0 < i \<and> x \<noteq> ys ! i \<and> K x < K (ys ! par i)")
    case False
    then have "down_inv K ?zs i"
      using i edge grand unfolding down_inv_def nth by (auto simp: not_less)
    then have "heap_on K (down K ?zs i)" by (rule down_heap)
    with i down_mset [of i ?zs K] show ?thesis by (simp add: up_heap_id)
  next
    case True
    then have small: "K x \<le> K (ys ! c)" if "c < length ys" "0 < c" "par c = i" for c
      using grand [OF that] by auto
    then have "smallest K ?zs i = i"
      using smallest_cases [of K ?zs i] par_less [of "smallest K ?zs i"] unfolding nth by force
    moreover have "up_inv K ?zs i"
      using i edge grand small unfolding up_inv_def nth by auto
    ultimately show ?thesis by (simp add: down_stop up_heap)
  qed
qed

lemma heap_min: "heap_on K xs \<Longrightarrow> j < length xs \<Longrightarrow> K (xs ! 0) \<le> K (xs ! j)"
proof (induction j rule: less_induct)
  case (less j)
  show ?case
  proof (cases "j = 0")
    case False
    then have "par j < j" by simp
    moreover have "K (xs ! par j) \<le> K (xs ! j)" using less.prems False by (simp add: heap_on_def)
    ultimately show ?thesis using less.IH [of "par j"] less.prems by (meson order_less_trans order_trans)
  qed simp
qed

lemma heap_push_correct:
  assumes "heap_on K xs"
  shows "heap_on K (heap_push K xs x) \<and> mset (heap_push K xs x) = add_mset x (mset xs)"
proof -
  have "up_inv K (xs @ [x]) (length xs)"
    unfolding up_inv_def
  proof (intro conjI allI impI)
    fix j assume j: "j < length (xs @ [x])" "0 < j \<and> j \<noteq> length xs"
    then have "j < length xs" by simp
    moreover have "par j < j" using j by simp
    ultimately have "j < length xs" "par j < length xs" by linarith+
    then show "K ((xs @ [x]) ! par j) \<le> K ((xs @ [x]) ! j)"
      using assms j by (simp add: heap_on_def nth_append)
  next
    fix c assume "c < length (xs @ [x])" "0 < c \<and> par c = length xs \<and> 0 < length xs"
    then show "K ((xs @ [x]) ! par (length xs)) \<le> K ((xs @ [x]) ! c)" using par_less [of c] by auto
  qed simp
  then show ?thesis by (simp add: heap_push_def up_heap up_mset)
qed

lemma mset_refill:
  assumes "ys \<noteq> []" and "i < length ys"
  shows "add_mset (ys ! i) (mset (ys[i := x])) = add_mset x (mset ys)"
  using assms by (simp add: mset_update)

lemma mset_butlast: "xs \<noteq> [] \<Longrightarrow> add_mset (last xs) (mset (butlast xs)) = mset xs"
  by (metis append_butlast_last_id mset.simps(1,2) mset_append union_mset_add_mset_right add_0_right)

lemma heap_remove_correct:
  assumes h: "heap_on K xs" and i: "i < length xs"
  shows "heap_on K (heap_remove K xs i) \<and> add_mset (xs ! i) (mset (heap_remove K xs i)) = mset xs"
proof -
  have ne: "xs \<noteq> []" using i by auto
  let ?ys = "butlast xs"
  have hb: "heap_on K ?ys" by (rule heap_on_butlast [OF h])
  show ?thesis
  proof (cases "i < length ?ys")
    case False
    then have "i = length xs - 1" using i by auto
    then have "xs ! i = last xs" using ne by (simp add: last_conv_nth)
    with False hb mset_butlast [OF ne] show ?thesis by (simp add: heap_remove_def)
  next
    case True
    have "?ys \<noteq> []" using True by (metis length_greater_0_conv not_less_zero gr_zeroI)
    then have "add_mset (xs ! i) (mset (?ys[i := last xs])) = mset xs"
      using mset_refill [OF _ True, of "last xs"] mset_butlast [OF ne] True by (simp add: nth_butlast)
    with True heap_refill [OF hb True] show ?thesis
      by (simp add: heap_remove_def up_mset down_mset)
  qed
qed

lemma heap_pop_remove: "heap_on K xs \<Longrightarrow> xs \<noteq> [] \<Longrightarrow> heap_pop K xs = heap_remove K xs 0"
  by (auto simp: heap_pop_def heap_remove_def up.simps Let_def)

lemma heap_pop_correct:
  assumes "heap_on K xs" and "xs \<noteq> []"
  shows "heap_on K (heap_pop K xs) \<and> add_mset (xs ! 0) (mset (heap_pop K xs)) = mset xs"
  using heap_remove_correct [OF assms(1), of 0] assms by (simp add: heap_pop_remove)

text \<open>Only the keys of the elements present matter.\<close>

lemma up_cong:
  assumes "\<And>x. x \<in> set xs \<Longrightarrow> K x = K' x" and "i < length xs"
  shows "up K xs i = up K' xs i"
  using assms
proof (induction i arbitrary: xs rule: less_induct)
  case (less i)
  show ?case
  proof (cases "i = 0")
    case False
    then have "par i < i" by simp
    then have p: "par i < i" "par i < length xs" using less.prems(2) by linarith+
    have "set (lswap xs (par i) i) = set xs"
      using mset_lswap [OF p(2) less.prems(2)] by (metis set_mset_mset)
    then have "up K (lswap xs (par i) i) (par i) = up K' (lswap xs (par i) i) (par i)"
      using p less.prems by (intro less.IH) auto
    then show ?thesis using less.prems p by (simp add: up_unfold [of _ xs i])
  qed (simp add: up_unfold)
qed

lemma down_cong:
  assumes "\<And>x. x \<in> set xs \<Longrightarrow> K x = K' x" and "i < length xs"
  shows "down K xs i = down K' xs i"
  using assms
proof (induction K xs i rule: down.induct)
  case (1 K xs i)
  have s: "smallest K xs i = smallest K' xs i"
    using "1.prems" by (auto simp: smallest_def Let_def)
  show ?case
  proof (cases "smallest K xs i = i")
    case False
    then have lt: "smallest K xs i < length xs" using smallest_cases [of K xs i] by auto
    have "set (lswap xs i (smallest K xs i)) = set xs"
      using mset_lswap [OF "1.prems"(2) lt] by (metis set_mset_mset)
    then have "down K (lswap xs i (smallest K xs i)) (smallest K xs i) =
        down K' (lswap xs i (smallest K xs i)) (smallest K xs i)"
      using False lt "1.prems"(1) by (intro "1.IH") auto
    with False s show ?thesis by (simp add: down.simps [of _ xs i])
  qed (simp add: s down_stop)
qed

lemma set_fill: "i < length ys \<Longrightarrow> distinct (ys @ [z]) \<Longrightarrow> set (ys[i := z]) \<subseteq> insert z (set ys) - {ys ! i}"
  by (auto simp: set_conv_nth nth_list_update nth_eq_iff_index_eq split: if_splits)

lemma heap_remove_cong:
  assumes "\<And>x. x \<in> set xs - {xs ! i} \<Longrightarrow> K x = K' x" and d: "distinct xs" and i: "i < length xs"
  shows "heap_remove K xs i = heap_remove K' xs i"
proof (cases "i < length (butlast xs)")
  case True
  let ?ys = "(butlast xs)[i := last xs]"
  have ne: "xs \<noteq> []" using i by auto
  have "distinct (butlast xs @ [last xs])" using d ne by simp
  then have "set ?ys \<subseteq> set xs - {xs ! i}"
    using set_fill [OF True, of "last xs"] True ne by (auto simp: nth_butlast dest: in_set_butlastD)
  then have k: "\<And>x. x \<in> set ?ys \<Longrightarrow> K x = K' x" using assms(1) by blast
  have iy: "i < length ?ys" using True by simp
  have "down K ?ys i = down K' ?ys i" by (rule down_cong [OF k iy])
  moreover have "set (down K ?ys i) = set ?ys" "i < length (down K ?ys i)"
    using down_mset [OF iy, of K] iy by (metis set_mset_mset, simp)
  ultimately show ?thesis using up_cong [of "down K ?ys i" K K' i] k True by (simp add: heap_remove_def)
qed (simp add: heap_remove_def)

lemma heap_on_cong: "(\<And>x. x \<in> set xs \<Longrightarrow> K x = K' x) \<Longrightarrow> heap_on K xs \<Longrightarrow> heap_on K' xs"
  unfolding heap_on_def
proof (intro allI impI)
  fix j assume k: "\<And>x. x \<in> set xs \<Longrightarrow> K x = K' x" and h: "\<forall>j < length xs. 0 < j \<longrightarrow> K (xs ! par j) \<le> K (xs ! j)"
    and j: "j < length xs" "0 < j"
  have "par j < j" using j by simp
  then have "par j < length xs" using j by linarith
  then have "xs ! par j \<in> set xs" "xs ! j \<in> set xs" using j by simp_all
  with k h j show "K' (xs ! par j) \<le> K' (xs ! j)" by metis
qed

section \<open>The contract of a minimum queue\<close>

fun pops :: "('s \<Rightarrow> ('e option \<times> 's) option) \<Rightarrow> nat \<Rightarrow> 's \<Rightarrow> ('e list \<times> 's) option" where
  "pops pop 0 s = Some ([], s)"
| "pops pop (Suc n) s =
     (case pop s of None \<Rightarrow> None
      | Some (None, s') \<Rightarrow> Some ([], s')
      | Some (Some e, s') \<Rightarrow> map_option (\<lambda>(es, t). (e # es, t)) (pops pop n s'))"

locale min_queue =
  fixes inv :: "'s \<Rightarrow> bool" and elems :: "'s \<Rightarrow> 'e set" and key :: "'s \<Rightarrow> 'e \<Rightarrow> 'k::linorder"
    and pop :: "'s \<Rightarrow> ('e option \<times> 's) option"
  assumes finite_elems: "inv s \<Longrightarrow> finite (elems s)"
    and pop_none: "inv s \<Longrightarrow> elems s = {} \<Longrightarrow> pop s = Some (None, s)"
    and pop_some: "inv s \<Longrightarrow> elems s \<noteq> {} \<Longrightarrow> \<exists>e s'. pop s = Some (Some e, s') \<and> e \<in> elems s \<and>
      (\<forall>x \<in> elems s. key s e \<le> key s x) \<and> inv s' \<and> elems s' = elems s - {e} \<and> key s' = key s"
begin

lemma pops_sorted:
  assumes "inv s" and "n \<le> card (elems s)"
  shows "\<exists>es s'. pops pop n s = Some (es, s') \<and> length es = n \<and> sorted (map (key s) es) \<and> distinct es \<and>
     set es \<subseteq> elems s \<and> elems s' = elems s - set es \<and> inv s' \<and> key s' = key s \<and>
     (\<forall>e \<in> set es. \<forall>x \<in> elems s'. key s e \<le> key s x)"
  using assms
proof (induction n arbitrary: s)
  case (Suc n)
  then have fin: "finite (elems s)" and ne: "elems s \<noteq> {}" using finite_elems by auto
  obtain e s1 where s1: "pop s = Some (Some e, s1)" "e \<in> elems s" "\<forall>x \<in> elems s. key s e \<le> key s x"
      "inv s1" "elems s1 = elems s - {e}" "key s1 = key s"
    using pop_some [OF Suc.prems(1) ne] by blast
  have "n \<le> card (elems s1)" using Suc.prems(2) s1(2,5) fin by (simp add: card_Diff_singleton)
  from Suc.IH [OF s1(4) this] obtain es s' where "pops pop n s1 = Some (es, s')" "length es = n"
      "sorted (map (key s) es)" "distinct es" "set es \<subseteq> elems s1" "elems s' = elems s1 - set es"
      "inv s'" "key s' = key s" "\<forall>e \<in> set es. \<forall>x \<in> elems s'. key s e \<le> key s x"
    using s1(6) by auto
  with s1 show ?case by (intro exI [of _ "e # es"] exI [of _ s']) auto
qed simp

end

end
