(* ===== verification/Poller_Timer.thy ===== *)
theory Poller_Timer
  imports Poller_Task Timer_Heap
begin

text \<open>
  The timers of a poller, \<^verbatim>\<open>src/poller/poller_timer.c\<close>: a growable array of timer pointers kept as a
  binary heap by deadline, each timer storing its own position (\<open>heap_index\<close>) so that it can be
  removed in place. Timers and the contexts of posted requests are objects at addresses; reading or
  freeing one that is not allocated, or an array cell that was never written or lies outside the
  array, has no defined outcome (\<open>None\<close>). The outcome of an allocation, the clock and the user's
  callback are arguments. The record extends the task queue of the poller, since timers are
  started and cancelled from other threads by posting.
\<close>

section \<open>State\<close>

record 'c tmr =
  cb :: "'c option"
  cancelled :: bool
  deadline_ms :: u64
  heap_index :: size_t

datatype tctx = InsertCtx nat u64 | CancelCtx nat

datatype 'u ttask = DelayInsert nat | TimerCancel nat | UserTask 'u

record ('c, 'u) tpoller = "'u ttask ptask" +
  timer_mtx :: bool
  timers :: "nat \<rightharpoonup> 'c tmr"
  timer_heap :: "nat option list"
  timer_heap_count :: size_t
  timer_heap_cap :: size_t
  ctxs :: "nat \<rightharpoonup> tctx"

definition ZTK_TIMER_HEAP_INDEX_NONE :: size_t where
  "ZTK_TIMER_HEAP_INDEX_NONE = - 1"

definition ZTK_TIMER_FLUSH_MAX :: nat where
  "ZTK_TIMER_FLUSH_MAX = 256"

section \<open>The heap array\<close>

definition heap_cell :: "('c, 'u, 'z) tpoller_scheme \<Rightarrow> nat \<Rightarrow> nat option" where
  "heap_cell p i = (if i < length (timer_heap p) then timer_heap p ! i else None)"

definition heap_key :: "('c, 'u, 'z) tpoller_scheme \<Rightarrow> nat \<Rightarrow> u64 option" where
  "heap_key p i = Option.bind (heap_cell p i) (\<lambda>a. map_option deadline_ms (timers p a))"

definition set_index :: "nat \<Rightarrow> size_t \<Rightarrow> ('c, 'u, 'z) tpoller_scheme \<Rightarrow> ('c, 'u, 'z) tpoller_scheme option" where
  "set_index a i p =
     (case timers p a of None \<Rightarrow> None
      | Some t \<Rightarrow> Some (p\<lparr>timers := (timers p)(a \<mapsto> t\<lparr>heap_index := i\<rparr>)\<rparr>))"

definition timer_heap_reserve ::
    "bool \<Rightarrow> ('c, 'u, 'z) tpoller_scheme \<Rightarrow> size_t \<Rightarrow> (bool \<times> ('c, 'u, 'z) tpoller_scheme) option" where
  "timer_heap_reserve realloc_ok p need =
     (let cap = (if timer_heap_cap p \<noteq> 0 then timer_heap_cap p else 8) in
      if need \<le> timer_heap_cap p then Some (True, p)
      else Option.bind (grow_cap cap need) (\<lambda>cap.
        if \<not> realloc_ok then Some (False, p)
        else let cells = unat (cap * 8) div 8 in
          Some (True, p\<lparr>timer_heap := take cells (timer_heap p) @
                                       replicate (cells - length (timer_heap p)) None,
                        timer_heap_cap := cap\<rparr>)))"

definition timer_heap_swap ::
    "('c, 'u, 'z) tpoller_scheme \<Rightarrow> nat \<Rightarrow> nat \<Rightarrow> ('c, 'u, 'z) tpoller_scheme option" where
  "timer_heap_swap p i j =
     (case (heap_cell p i, heap_cell p j) of
        (Some a, Some b) \<Rightarrow>
          Option.bind (set_index b (of_nat i) (p\<lparr>timer_heap := (timer_heap p)[i := Some b, j := Some a]\<rparr>))
            (\<lambda>p1. set_index a (of_nat j) p1)
      | _ \<Rightarrow> None)"

fun timer_heap_bubble_up ::
    "('c, 'u, 'z) tpoller_scheme \<Rightarrow> nat \<Rightarrow> ('c, 'u, 'z) tpoller_scheme option" where
  "timer_heap_bubble_up p i =
     (if i = 0 then Some p
      else (case (heap_key p ((i - 1) div 2), heap_key p i) of
              (Some kp, Some k) \<Rightarrow>
                if kp \<le> k then Some p
                else (case timer_heap_swap p ((i - 1) div 2) i of
                        None \<Rightarrow> None
                      | Some p' \<Rightarrow> timer_heap_bubble_up p' ((i - 1) div 2))
            | _ \<Rightarrow> None))"

declare timer_heap_bubble_up.simps [simp del]

text \<open>
  Indices are below \<open>timer_heap_count\<close>, which counts the cells of an array of pointers in memory, so
  \<^verbatim>\<open>i * 2 + 1\<close> stays below the width of \<^verbatim>\<open>size_t\<close> and is written on naturals.
\<close>

definition smaller_child :: "('c, 'u, 'z) tpoller_scheme \<Rightarrow> nat \<Rightarrow> nat \<Rightarrow> nat option" where
  "smaller_child p c s =
     (if c < unat (timer_heap_count p) then
        (case (heap_key p c, heap_key p s) of
           (Some kc, Some ks) \<Rightarrow> Some (if kc < ks then c else s)
         | _ \<Rightarrow> None)
      else Some s)"

partial_function (option) timer_heap_bubble_down ::
    "('c, 'u, 'z) tpoller_scheme \<Rightarrow> nat \<Rightarrow> ('c, 'u, 'z) tpoller_scheme option" where
  "timer_heap_bubble_down p i =
     (let left = i * 2 + 1; right = left + 1 in
      Option.bind (smaller_child p left i) (\<lambda>s1.
      Option.bind (smaller_child p right s1) (\<lambda>smallest.
        if smallest = i then Some p
        else Option.bind (timer_heap_swap p i smallest) (\<lambda>p'. timer_heap_bubble_down p' smallest))))"

definition put_cell :: "nat \<Rightarrow> nat \<Rightarrow> ('c, 'u, 'z) tpoller_scheme \<Rightarrow> ('c, 'u, 'z) tpoller_scheme option" where
  "put_cell i a p =
     (if i < length (timer_heap p) then Some (p\<lparr>timer_heap := (timer_heap p)[i := Some a]\<rparr>) else None)"

definition timer_heap_push ::
    "bool \<Rightarrow> ('c, 'u, 'z) tpoller_scheme \<Rightarrow> nat \<Rightarrow> (bool \<times> ('c, 'u, 'z) tpoller_scheme) option" where
  "timer_heap_push realloc_ok p timer =
     Option.bind (timer_heap_reserve realloc_ok p (timer_heap_count p + 1)) (\<lambda>(ok, p1).
       if \<not> ok then Some (False, p1)
       else let n = timer_heap_count p1 in
         Option.bind (set_index timer n p1) (\<lambda>p2.
         Option.bind (put_cell (unat n) timer p2) (\<lambda>p3.
           map_option (Pair True) (timer_heap_bubble_up (p3\<lparr>timer_heap_count := n + 1\<rparr>) (unat n)))))"

text \<open>The last cell moves to \<open>i\<close>: \<^verbatim>\<open>heap[i] = heap[count]; heap[i]->heap_index = i\<close>.\<close>

definition move_last :: "nat \<Rightarrow> ('c, 'u, 'z) tpoller_scheme \<Rightarrow> ('c, 'u, 'z) tpoller_scheme option" where
  "move_last i p =
     (case heap_cell p (unat (timer_heap_count p)) of None \<Rightarrow> None
      | Some b \<Rightarrow> Option.bind (put_cell i b p) (set_index b (of_nat i)))"

definition timer_heap_pop_min ::
    "('c, 'u, 'z) tpoller_scheme \<Rightarrow> (nat option \<times> ('c, 'u, 'z) tpoller_scheme) option" where
  "timer_heap_pop_min p =
     (if timer_heap_count p = 0 then Some (None, p)
      else case heap_cell p 0 of None \<Rightarrow> None
      | Some tm \<Rightarrow>
         Option.bind (set_index tm ZTK_TIMER_HEAP_INDEX_NONE p) (\<lambda>p1.
           let p2 = p1\<lparr>timer_heap_count := timer_heap_count p - 1\<rparr> in
           if timer_heap_count p2 = 0 then Some (Some tm, p2)
           else Option.bind (move_last 0 p2) (\<lambda>p3.
                  map_option (Pair (Some tm)) (timer_heap_bubble_down p3 0))))"

definition timer_heap_remove ::
    "('c, 'u, 'z) tpoller_scheme \<Rightarrow> nat \<Rightarrow> ('c, 'u, 'z) tpoller_scheme option" where
  "timer_heap_remove p timer =
     (case timers p timer of None \<Rightarrow> None
      | Some t \<Rightarrow>
         let i = heap_index t in
         if i = ZTK_TIMER_HEAP_INDEX_NONE \<or> timer_heap_count p \<le> i then Some p
         else Option.bind (set_index timer ZTK_TIMER_HEAP_INDEX_NONE p) (\<lambda>p1.
           let p2 = p1\<lparr>timer_heap_count := timer_heap_count p - 1\<rparr> in
           if i < timer_heap_count p2 then
             Option.bind (move_last (unat i) p2) (\<lambda>p3.
             Option.bind (timer_heap_bubble_down p3 (unat i)) (\<lambda>p4.
               timer_heap_bubble_up p4 (unat i)))
           else Some p2))"

section \<open>Timer operations\<close>

definition ztk_poller_timer_init ::
    "bool \<Rightarrow> ('c, 'u, 'z) tpoller_scheme \<Rightarrow> ('c, 'u, 'z) tpoller_scheme" where
  "ztk_poller_timer_init mutex_ok p =
     p\<lparr>timer_mtx := mutex_ok, timer_heap := [], timer_heap_count := 0, timer_heap_cap := 0\<rparr>"

definition free_timer :: "nat \<Rightarrow> ('c, 'u, 'z) tpoller_scheme \<Rightarrow> ('c, 'u, 'z) tpoller_scheme option" where
  "free_timer a p = (if timers p a = None then None else Some (p\<lparr>timers := (timers p)(a := None)\<rparr>))"

fun free_cells :: "nat list \<Rightarrow> ('c, 'u, 'z) tpoller_scheme \<Rightarrow> ('c, 'u, 'z) tpoller_scheme option" where
  "free_cells [] p = Some p"
| "free_cells (i # is) p =
     (case heap_cell p i of None \<Rightarrow> None
      | Some a \<Rightarrow> (case free_timer a p of None \<Rightarrow> None | Some p' \<Rightarrow> free_cells is p'))"

definition ztk_poller_timer_fini ::
    "('c, 'u, 'z) tpoller_scheme \<Rightarrow> ('c, 'u, 'z) tpoller_scheme option" where
  "ztk_poller_timer_fini p =
     map_option (\<lambda>p. p\<lparr>timer_heap := [], timer_heap_count := 0, timer_heap_cap := 0, timer_mtx := False\<rparr>)
       (free_cells [0..<unat (timer_heap_count p)] p)"

definition ztk_poller_timer_insert_locked ::
    "bool \<Rightarrow> ('c, 'u, 'z) tpoller_scheme \<Rightarrow> nat \<Rightarrow> u64 \<Rightarrow> ('c, 'u, 'z) tpoller_scheme option" where
  "ztk_poller_timer_insert_locked realloc_ok p timer deadline =
     (case timers p timer of None \<Rightarrow> None
      | Some t \<Rightarrow>
         let p1 = p\<lparr>timers := (timers p)(timer \<mapsto> t\<lparr>deadline_ms := deadline\<rparr>)\<rparr> in
         Option.bind (if heap_index t \<noteq> ZTK_TIMER_HEAP_INDEX_NONE then timer_heap_remove p1 timer else Some p1)
           (\<lambda>p2. map_option snd (timer_heap_push realloc_ok p2 timer)))"

definition free_ctx :: "nat \<Rightarrow> ('c, 'u, 'z) tpoller_scheme \<Rightarrow> ('c, 'u, 'z) tpoller_scheme option" where
  "free_ctx a p = (if ctxs p a = None then None else Some (p\<lparr>ctxs := (ctxs p)(a := None)\<rparr>))"

definition delay_insert_async ::
    "bool \<Rightarrow> nat \<Rightarrow> ('c, 'u, 'z) tpoller_scheme \<Rightarrow> ('c, 'u, 'z) tpoller_scheme option" where
  "delay_insert_async realloc_ok user p =
     (case ctxs p user of
        Some (InsertCtx timer deadline) \<Rightarrow>
          Option.bind (ztk_poller_timer_insert_locked realloc_ok p timer deadline) (free_ctx user)
      | _ \<Rightarrow> None)"

definition timer_cancel_async ::
    "nat \<Rightarrow> ('c, 'u, 'z) tpoller_scheme \<Rightarrow> ('c, 'u, 'z) tpoller_scheme option" where
  "timer_cancel_async user p =
     (case ctxs p user of
        Some (CancelCtx timer) \<Rightarrow> Option.bind (free_ctx user p) (\<lambda>p1. timer_heap_remove p1 timer)
      | _ \<Rightarrow> None)"

definition unlink_timer ::
    "('c, 'u, 'z) tpoller_scheme \<Rightarrow> nat \<Rightarrow> ('c, 'u, 'z) tpoller_scheme option" where
  "unlink_timer p timer = timer_heap_remove p timer"

text \<open>
  The callback of an expired timer runs with the mutex held: it returns the delay until its next run
  (0: none), or it does not return (\<open>None\<close>). \<open>cbs\<close> runs it; \<open>rok\<close> gives the outcome of the
  reallocation that re-inserting may need. The bound on the number of timers handled is the
  recursion parameter.
\<close>

fun flush_loop ::
    "('c \<Rightarrow> ('c, 'u, 'z) tpoller_scheme \<Rightarrow> (u64 \<times> ('c, 'u, 'z) tpoller_scheme) option) \<Rightarrow> bool \<Rightarrow> u64 \<Rightarrow>
     nat \<Rightarrow> ('c, 'u, 'z) tpoller_scheme \<Rightarrow> ('c, 'u, 'z) tpoller_scheme option" where
  "flush_loop cbs rok now 0 p = Some p"
| "flush_loop cbs rok now (Suc n) p =
     (if timer_heap_count p = 0 then Some p
      else case heap_key p 0 of None \<Rightarrow> None
      | Some k \<Rightarrow>
         if now < k then Some p
         else (case timer_heap_pop_min p of
             None \<Rightarrow> None
           | Some (None, p1) \<Rightarrow> flush_loop cbs rok now n p1
           | Some (Some a, p1) \<Rightarrow>
              (case timers p1 a of None \<Rightarrow> None
               | Some t \<Rightarrow>
                  if cancelled t then
                    (case free_timer a p1 of None \<Rightarrow> None | Some p2 \<Rightarrow> flush_loop cbs rok now n p2)
                  else
                    (case (case cb t of None \<Rightarrow> Some (0, p1) | Some c \<Rightarrow> cbs c p1) of
                       None \<Rightarrow> None
                     | Some (next_ms, p2) \<Rightarrow>
                        (case timers p2 a of None \<Rightarrow> None
                         | Some t2 \<Rightarrow>
                            (case (if 0 < next_ms \<and> \<not> cancelled t2
                                   then ztk_poller_timer_insert_locked rok p2 a (now + next_ms)
                                   else free_timer a p2) of
                               None \<Rightarrow> None
                             | Some p3 \<Rightarrow> flush_loop cbs rok now n p3))))))"

text \<open>The result is an \<^verbatim>\<open>int64_t\<close>.\<close>

definition flush_expired_timers ::
    "('c \<Rightarrow> ('c, 'u, 'z) tpoller_scheme \<Rightarrow> (u64 \<times> ('c, 'u, 'z) tpoller_scheme) option) \<Rightarrow> bool \<Rightarrow>
     ('c, 'u, 'z) tpoller_scheme \<Rightarrow> u64 \<Rightarrow> (int \<times> ('c, 'u, 'z) tpoller_scheme) option" where
  "flush_expired_timers cbs rok p now =
     (case flush_loop cbs rok now ZTK_TIMER_FLUSH_MAX p of None \<Rightarrow> None
      | Some p' \<Rightarrow>
          if timer_heap_count p' = 0 then Some (- 1, p')
          else (case heap_key p' 0 of None \<Rightarrow> None
                | Some k \<Rightarrow> Some (if now < k then sint (k - now) else 0, p')))"

definition ztk_poller_resolve_timeout_ms ::
    "('c \<Rightarrow> ('c, 'u, 'z) tpoller_scheme \<Rightarrow> (u64 \<times> ('c, 'u, 'z) tpoller_scheme) option) \<Rightarrow> bool \<Rightarrow> u64 \<Rightarrow>
     ('c, 'u, 'z) tpoller_scheme option \<Rightarrow> int \<Rightarrow> (int \<times> ('c, 'u, 'z) tpoller_scheme option) option" where
  "ztk_poller_resolve_timeout_ms cbs rok now p request_ms =
     (case p of None \<Rightarrow> Some (request_ms, p)
      | Some s \<Rightarrow>
          if \<not> timer_mtx s then Some (request_ms, p)
          else (case flush_expired_timers cbs rok s now of None \<Rightarrow> None
                | Some (delay, s') \<Rightarrow>
                    Some (if delay < 0 then request_ms
                          else if request_ms < 0 then (if delay > 0x7fffffff then 0x7fffffff else delay)
                          else if request_ms = 0 then 0
                          else if delay < request_ms then delay else request_ms, Some s')))"

text \<open>
  Starting a timer. \<open>tmem\<close>, \<open>cmem\<close> and \<open>nmem\<close> are the outcomes of the allocations of the timer, the
  request context and the queue node. The result is the timer's address.
\<close>

definition fresh_or_null :: "nat option \<Rightarrow> (nat \<rightharpoonup> 'b) \<Rightarrow> nat option" where
  "fresh_or_null mem m = (case mem of None \<Rightarrow> None | Some a \<Rightarrow> if m a = None then Some a else None)"

definition ztk_poller_do_delay ::
    "u64 \<Rightarrow> u64 \<Rightarrow> nat option \<Rightarrow> nat option \<Rightarrow> nat option \<Rightarrow> bool \<Rightarrow> ztk_err \<Rightarrow>
     ('c, 'u, 'z) tpoller_scheme option \<Rightarrow> u64 \<Rightarrow> 'c option \<Rightarrow>
     (nat option \<times> ('c, 'u, 'z) tpoller_scheme option) option" where
  "ztk_poller_do_delay self now tmem cmem nmem rok wake p delay_ms fn =
     (case p of None \<Rightarrow> Some (None, p)
      | Some s \<Rightarrow>
        if fn = None \<or> \<not> timer_mtx s then Some (None, p)
        else (case fresh_or_null tmem (timers s) of None \<Rightarrow> Some (None, p)
        | Some a \<Rightarrow>
          let s1 = s\<lparr>timers := (timers s)(a \<mapsto> \<lparr>cb = fn, cancelled = False, deadline_ms = 0,
                                     heap_index = ZTK_TIMER_HEAP_INDEX_NONE\<rparr>)\<rparr>;
              deadline = now + delay_ms
          in if owner_thread s \<noteq> 0 \<and> owner_thread s = self
             then map_option (\<lambda>s2. (Some a, Some s2)) (ztk_poller_timer_insert_locked rok s1 a deadline)
             else (case fresh_or_null cmem (ctxs s1) of
                None \<Rightarrow> map_option (\<lambda>s2. (None, Some s2)) (free_timer a s1)
              | Some c \<Rightarrow>
                 let s2 = s1\<lparr>ctxs := (ctxs s1)(c \<mapsto> InsertCtx a deadline)\<rparr> in
                 (case ztk_poller_async_first (\<lambda>_ _. None) self nmem wake (Some s2) (Some (DelayInsert c)) False of
                    Some (err, Some s3) \<Rightarrow>
                      if err \<noteq> ZTK_OK
                      then Option.bind (free_ctx c s3) (\<lambda>s4. map_option (\<lambda>s5. (None, Some s5)) (free_timer a s4))
                      else Some (Some a, Some s3)
                  | _ \<Rightarrow> None))))"

definition ztk_poller_timer_cancel ::
    "u64 \<Rightarrow> nat option \<Rightarrow> nat option \<Rightarrow> ztk_err \<Rightarrow>
     ('c, 'u, 'z) tpoller_scheme \<Rightarrow> nat option \<Rightarrow> ('c, 'u, 'z) tpoller_scheme option" where
  "ztk_poller_timer_cancel self cmem nmem wake p timer =
     (case timer of None \<Rightarrow> Some p
      | Some a \<Rightarrow>
         (case timers p a of None \<Rightarrow> None
          | Some t \<Rightarrow>
            let p1 = p\<lparr>timers := (timers p)(a \<mapsto> t\<lparr>cancelled := True\<rparr>)\<rparr> in
            if \<not> timer_mtx p then Some p1
            else if owner_thread p \<noteq> 0 \<and> owner_thread p = self then unlink_timer p1 a
            else (case fresh_or_null cmem (ctxs p1) of None \<Rightarrow> Some p1
              | Some c \<Rightarrow>
                 let p2 = p1\<lparr>ctxs := (ctxs p1)(c \<mapsto> CancelCtx a)\<rparr> in
                 (case ztk_poller_async (\<lambda>_ _. None) self nmem wake (Some p2) (Some (TimerCancel c)) False of
                    Some (err, Some p3) \<Rightarrow> if err \<noteq> ZTK_OK then free_ctx c p3 else Some p3
                  | _ \<Rightarrow> None))))"

text \<open>What the timer requests do when the poller runs them.\<close>

definition run_timer_task ::
    "(('u \<Rightarrow> ('c, 'u, 'z) tpoller_scheme \<Rightarrow> ('c, 'u, 'z) tpoller_scheme option)) \<Rightarrow> bool \<Rightarrow>
     'u ttask \<Rightarrow> ('c, 'u, 'z) tpoller_scheme \<Rightarrow> ('c, 'u, 'z) tpoller_scheme option" where
  "run_timer_task user rok t p =
     (case t of DelayInsert c \<Rightarrow> delay_insert_async rok c p
      | TimerCancel c \<Rightarrow> timer_cancel_async c p
      | UserTask u \<Rightarrow> user u p)"

section \<open>The array represents a list\<close>

definition keyof :: "('c, 'u, 'z) tpoller_scheme \<Rightarrow> nat \<Rightarrow> u64" where
  "keyof p a = (case timers p a of None \<Rightarrow> 0 | Some t \<Rightarrow> deadline_ms t)"

definition at_index :: "('c, 'u, 'z) tpoller_scheme \<Rightarrow> nat \<Rightarrow> size_t \<Rightarrow> bool" where
  "at_index p a i \<longleftrightarrow> (\<exists>t. timers p a = Some t \<and> heap_index t = i)"

text \<open>
  \<open>arr_rep p xs\<close>: the first \<open>timer_heap_count\<close> cells hold the timers \<open>xs\<close>, all allocated, no timer twice,
  each with its position as back pointer.
\<close>

definition arr_rep :: "('c, 'u, 'z) tpoller_scheme \<Rightarrow> nat list \<Rightarrow> bool" where
  "arr_rep p xs \<longleftrightarrow> unat (timer_heap_count p) = length xs \<and>
     length (timer_heap p) = unat (timer_heap_cap p) \<and> length xs \<le> unat (timer_heap_cap p) \<and>
     (\<forall>i < length xs. timer_heap p ! i = Some (xs ! i) \<and> at_index p (xs ! i) (of_nat i)) \<and> distinct xs"

text \<open>Two states that differ only in the array and in the back pointers of the timers \<open>A\<close>.\<close>

definition but_index :: "'c tmr \<Rightarrow> 'c tmr \<Rightarrow> bool" where
  "but_index t t' \<longleftrightarrow> t' = t\<lparr>heap_index := heap_index t'\<rparr>"

definition idx_upd :: "nat set \<Rightarrow> ('c, 'u, 'z) tpoller_scheme \<Rightarrow> ('c, 'u, 'z) tpoller_scheme \<Rightarrow> bool" where
  "idx_upd A p p' \<longleftrightarrow> p' = p\<lparr>timer_heap := timer_heap p', timers := timers p'\<rparr> \<and>
     (\<forall>a. a \<notin> A \<longrightarrow> timers p' a = timers p a) \<and> (\<forall>a. rel_option but_index (timers p a) (timers p' a))"

lemma but_index_refl [simp]: "but_index t t"
  by (simp add: but_index_def)

lemma but_index_option_refl [simp]: "rel_option but_index x x"
  by (cases x) auto

lemma but_index_trans: "but_index t u \<Longrightarrow> but_index u v \<Longrightarrow> but_index t v"
  unfolding but_index_def by (cases t; cases u; cases v) simp

lemma but_indexD: "but_index t t' \<Longrightarrow> deadline_ms t' = deadline_ms t \<and> cancelled t' = cancelled t \<and> cb t' = cb t"
  unfolding but_index_def by (cases t; cases t') simp

lemma idx_updD:
  assumes "idx_upd A p p'"
  shows "timer_heap_count p' = timer_heap_count p" and "timer_heap_cap p' = timer_heap_cap p"
    and "timer_mtx p' = timer_mtx p" and "task_q p' = task_q p" and "task_mtx p' = task_mtx p"
    and "ctxs p' = ctxs p" and "keyof p' = keyof p"
    and "a \<notin> A \<Longrightarrow> timers p' a = timers p a"
    and "timers p' a = None \<longleftrightarrow> timers p a = None"
    and "owner_thread p' = owner_thread p"
    and "rel_option but_index (timers p a) (timers p' a)"
proof -
  have e: "p' = p\<lparr>timer_heap := timer_heap p', timers := timers p'\<rparr>"
    and r: "\<And>a. rel_option but_index (timers p a) (timers p' a)"
    using assms by (auto simp: idx_upd_def)
  show "timer_heap_count p' = timer_heap_count p" "timer_heap_cap p' = timer_heap_cap p"
    "timer_mtx p' = timer_mtx p" "task_q p' = task_q p" "task_mtx p' = task_mtx p" "ctxs p' = ctxs p"
    "owner_thread p' = owner_thread p"
    by (subst e, simp)+
  show "rel_option but_index (timers p a) (timers p' a)" by (rule r)
  show "timers p' a = None \<longleftrightarrow> timers p a = None" using r [of a] by (auto elim: option.rel_cases)
  show "keyof p' = keyof p"
  proof
    fix b show "keyof p' b = keyof p b"
      using r [of b] by (cases rule: option.rel_cases) (auto simp: keyof_def dest: but_indexD)
  qed
qed (use assms in \<open>simp add: idx_upd_def\<close>)

lemma idx_upd_refl [simp]: "idx_upd A p p"
  by (simp add: idx_upd_def)

lemma idx_upd_trans:
  assumes pq: "idx_upd A p q" and qr: "idx_upd A q r"
  shows "idx_upd A p r"
proof -
  have "rel_option but_index x z" if "rel_option but_index x y" "rel_option but_index y z" for x y z
    using that by (cases x; cases y; cases z) (auto intro: but_index_trans)
  then have "rel_option but_index (timers p a) (timers r a)" for a
    using idx_updD(11) [OF pq] idx_updD(11) [OF qr] by blast
  moreover have "r = p\<lparr>timer_heap := timer_heap r, timers := timers r\<rparr>"
  proof -
    have "q = p\<lparr>timer_heap := timer_heap q, timers := timers q\<rparr>" using pq by (simp add: idx_upd_def)
    moreover have "r = q\<lparr>timer_heap := timer_heap r, timers := timers r\<rparr>" using qr by (simp add: idx_upd_def)
    ultimately show ?thesis by (cases p; cases q; cases r) simp
  qed
  moreover have "timers r a = timers p a" if "a \<notin> A" for a
    using idx_updD(8) [OF pq that] idx_updD(8) [OF qr that] by simp
  ultimately show ?thesis by (simp add: idx_upd_def)
qed

lemma idx_upd_heap: "idx_upd A p (p\<lparr>timer_heap := h\<rparr>)"
  using idx_upd_refl [of A p] by (simp add: idx_upd_def)

lemma set_index_upd:
  assumes "timers p a \<noteq> None" and "a \<in> A"
  shows "\<exists>p'. set_index a i p = Some p' \<and> idx_upd A p p' \<and> timer_heap p' = timer_heap p \<and>
     (\<forall>b j. at_index p' b j \<longleftrightarrow> (if b = a then j = i else at_index p b j))"
proof -
  obtain t where t: "timers p a = Some t" using assms by auto
  have "but_index t (t\<lparr>heap_index := i\<rparr>)" by (simp add: but_index_def)
  then have "idx_upd A p (p\<lparr>timers := (timers p)(a \<mapsto> t\<lparr>heap_index := i\<rparr>)\<rparr>)"
    using idx_upd_refl [of A p] assms t by (auto simp: idx_upd_def)
  with t show ?thesis by (auto simp: set_index_def at_index_def)
qed

lemma arr_cell: "arr_rep p xs \<Longrightarrow> i < length xs \<Longrightarrow> heap_cell p i = Some (xs ! i)"
  by (auto simp: arr_rep_def heap_cell_def)

lemma arr_key: "arr_rep p xs \<Longrightarrow> i < length xs \<Longrightarrow> heap_key p i = Some (keyof p (xs ! i))"
  by (auto simp: heap_key_def arr_cell keyof_def) (auto simp: arr_rep_def at_index_def)

lemma arr_live: "arr_rep p xs \<Longrightarrow> a \<in> set xs \<Longrightarrow> timers p a \<noteq> None"
  by (auto simp: arr_rep_def at_index_def in_set_conv_nth)

lemma set_lswap [simp]: "i < length xs \<Longrightarrow> j < length xs \<Longrightarrow> set (lswap xs i j) = set xs"
  by (metis mset_lswap set_mset_mset)

lemma swap_sim:
  assumes rep: "arr_rep p xs" and ij: "i < length xs" "j < length xs" "i \<noteq> j"
  shows "\<exists>p'. timer_heap_swap p i j = Some p' \<and> arr_rep p' (lswap xs i j) \<and> idx_upd (set xs) p p'"
proof -
  let ?a = "xs ! i" and ?b = "xs ! j"
  let ?p0 = "p\<lparr>timer_heap := (timer_heap p)[i := Some ?b, j := Some ?a]\<rparr>"
  have up0: "idx_upd (set xs) p ?p0" by (rule idx_upd_heap)
  have live: "timers ?p0 ?b \<noteq> None" "timers ?p0 ?a \<noteq> None"
    using arr_live [OF rep, of ?a] arr_live [OF rep, of ?b] ij by auto
  obtain p1 where p1: "set_index ?b (of_nat i) ?p0 = Some p1" "idx_upd (set xs) ?p0 p1"
      "timer_heap p1 = timer_heap ?p0" "\<And>b k. at_index p1 b k \<longleftrightarrow> (if b = ?b then k = of_nat i else at_index ?p0 b k)"
    using set_index_upd [OF live(1), of "set xs" "of_nat i"] ij by auto
  have "timers p1 ?a \<noteq> None" using idx_updD(9) [OF p1(2), of ?a] live(2) by simp
  then obtain p2 where p2: "set_index ?a (of_nat j) p1 = Some p2" "idx_upd (set xs) p1 p2"
      "timer_heap p2 = timer_heap p1" "\<And>b k. at_index p2 b k \<longleftrightarrow> (if b = ?a then k = of_nat j else at_index p1 b k)"
    using set_index_upd [of p1 ?a "set xs" "of_nat j"] ij by auto
  have upd: "idx_upd (set xs) p p2" using up0 p1(2) p2(2) by (blast intro: idx_upd_trans)
  have swap: "timer_heap_swap p i j = Some p2"
    using p1(1) p2(1) arr_cell [OF rep] ij by (simp add: timer_heap_swap_def)
  have dist: "distinct xs" using rep by (simp add: arr_rep_def)
  have "distinct (lswap xs i j)"
    using dist ij by (metis mset_lswap mset_eq_imp_distinct_iff)
  moreover have "timer_heap p2 ! k = Some (lswap xs i j ! k) \<and> at_index p2 (lswap xs i j ! k) (of_nat k)"
    if k: "k < length xs" for k
  proof -
    have "at_index p (xs ! k) (of_nat k)" "timer_heap p ! k = Some (xs ! k)" "k < length (timer_heap p)"
      using rep k by (auto simp: arr_rep_def)
    moreover have "at_index ?p0 b m = at_index p b m" for b m by (simp add: at_index_def)
    moreover have "xs ! k \<noteq> ?a" if "k \<noteq> i" using that dist k ij by (simp add: nth_eq_iff_index_eq)
    moreover have "xs ! k \<noteq> ?b" if "k \<noteq> j" using that dist k ij by (simp add: nth_eq_iff_index_eq)
    moreover have "?b \<noteq> ?a" using dist ij by (simp add: nth_eq_iff_index_eq)
    moreover have "i < length (timer_heap p)" "j < length (timer_heap p)" using rep ij by (auto simp: arr_rep_def)
    ultimately show ?thesis
      using ij by (auto simp: nth_lswap p2(3,4) p1(3,4) nth_list_update)
  qed
  ultimately have "arr_rep p2 (lswap xs i j)"
    using rep idx_updD(1,2) [OF upd] by (auto simp: arr_rep_def p1(3) p2(3))
  with swap upd show ?thesis by blast
qed

lemma up_sim:
  assumes "arr_rep p xs" and "i < length xs"
  shows "\<exists>p'. timer_heap_bubble_up p i = Some p' \<and> arr_rep p' (up (keyof p) xs i) \<and> idx_upd (set xs) p p'"
  using assms
proof (induction i arbitrary: p xs rule: less_induct)
  case (less i)
  let ?pi = "(i - 1) div 2" and ?K = "keyof p"
  show ?case
  proof (cases "i = 0 \<or> ?K (xs ! ?pi) \<le> ?K (xs ! i)")
    case True
    have "i \<noteq> 0 \<Longrightarrow> ?pi < length xs" using less.prems(2) by linarith
    with True less.prems show ?thesis
      by (subst timer_heap_bubble_up.simps, subst up.simps) (auto simp: arr_key)
  next
    case False
    then have pi: "?pi < i" "?pi < length xs" using less.prems(2) by (auto simp: less_Suc_eq_le)
    obtain p1 where p1: "timer_heap_swap p ?pi i = Some p1" "arr_rep p1 (lswap xs ?pi i)" "idx_upd (set xs) p p1"
      using swap_sim [OF less.prems(1) pi(2) less.prems(2)] pi(1) by auto
    have K: "keyof p1 = ?K" by (rule idx_updD(7) [OF p1(3)])
    obtain p' where p': "timer_heap_bubble_up p1 ?pi = Some p'"
        "arr_rep p' (up ?K (lswap xs ?pi i) ?pi)" "idx_upd (set xs) p1 p'"
      using less.IH [OF pi(1) p1(2)] pi(2) less.prems(2) K by auto
    have "timer_heap_bubble_up p i = Some p'"
      using False pi less.prems p1(1) p'(1)
      by (subst timer_heap_bubble_up.simps) (simp add: arr_key)
    moreover have "up ?K xs i = up ?K (lswap xs ?pi i) ?pi" using False by (subst up.simps) simp
    ultimately show ?thesis using p' p1(3) idx_upd_trans by auto
  qed
qed

lemma smaller_child_sim:
  assumes "arr_rep p xs" and "s < length xs"
  shows "smaller_child p c s =
     Some (if c < length xs \<and> keyof p (xs ! c) < keyof p (xs ! s) then c else s)"
proof -
  have "unat (timer_heap_count p) = length xs" using assms(1) by (simp add: arr_rep_def)
  then show ?thesis using assms by (auto simp: smaller_child_def arr_key)
qed

lemma down_sim:
  assumes "arr_rep p xs" and "i < length xs" and "K = keyof p"
  shows "\<exists>p'. timer_heap_bubble_down p i = Some p' \<and> arr_rep p' (down K xs i) \<and> idx_upd (set xs) p p'"
  using assms
proof (induction K xs i arbitrary: p rule: down.induct)
  case (1 K xs i)
  let ?s = "smallest K xs i"
  let ?s1 = "if i * 2 + 1 < length xs \<and> K (xs ! (i * 2 + 1)) < K (xs ! i) then i * 2 + 1 else i"
  have s1: "smaller_child p (i * 2 + 1) i = Some ?s1" "?s1 < length xs"
    using "1.prems" by (auto simp: smaller_child_sim)
  have s: "smaller_child p (i * 2 + 1 + 1) ?s1 = Some ?s"
    using smaller_child_sim [OF "1.prems"(1) s1(2)] by (simp add: smallest_def Let_def "1.prems"(3))
  show ?case
  proof (cases "?s = i")
    case True
    then show ?thesis
      using "1.prems" s1(1) s by (subst timer_heap_bubble_down.simps) (simp add: down_stop Let_def)
  next
    case False
    then have lt: "?s < length xs" using smallest_cases [of K xs i] by auto
    obtain p1 where p1: "timer_heap_swap p i ?s = Some p1" "arr_rep p1 (lswap xs i ?s)" "idx_upd (set xs) p p1"
      using swap_sim [OF "1.prems"(1,2) lt] False by auto
    obtain p' where p': "timer_heap_bubble_down p1 ?s = Some p'"
        "arr_rep p' (down K (lswap xs i ?s) ?s)" "idx_upd (set xs) p1 p'"
      using "1.IH" [OF False p1(2)] lt idx_updD(7) [OF p1(3)] "1.prems"(2,3) by auto
    have "timer_heap_bubble_down p i = Some p'"
      using False p1(1) p'(1) s1(1) s by (subst timer_heap_bubble_down.simps) (simp add: Let_def)
    moreover have "down K xs i = down K (lswap xs i ?s) ?s" using False by (subst down.simps) simp
    ultimately show ?thesis using p' p1(3) idx_upd_trans by auto
  qed
qed

text \<open>As \<open>idx_upd\<close>, with the count and the capacity free to change as well.\<close>

definition tfr :: "nat set \<Rightarrow> ('c, 'u, 'z) tpoller_scheme \<Rightarrow> ('c, 'u, 'z) tpoller_scheme \<Rightarrow> bool" where
  "tfr A p p' \<longleftrightarrow> idx_upd A (p\<lparr>timer_heap_count := timer_heap_count p', timer_heap_cap := timer_heap_cap p'\<rparr>) p'"

lemma idx_upd_tfr: "idx_upd A p p' \<Longrightarrow> tfr A p p'"
  using idx_updD(1,2) [of A p p'] by (simp add: tfr_def)

lemma idx_upd_mono: "idx_upd A p p' \<Longrightarrow> A \<subseteq> B \<Longrightarrow> idx_upd B p p'"
  by (auto simp: idx_upd_def)

lemma tfr_mono: "tfr A p p' \<Longrightarrow> A \<subseteq> B \<Longrightarrow> tfr B p p'"
  by (auto simp: tfr_def intro: idx_upd_mono)

lemma tfr_trans:
  assumes "tfr A p q" and "tfr A q r"
  shows "tfr A p r"
proof -
  let ?f = "\<lambda>x. x\<lparr>timer_heap_count := timer_heap_count r, timer_heap_cap := timer_heap_cap r\<rparr>"
  have "idx_upd A (?f p) (?f q)"
  proof -
    have "q = p\<lparr>timer_heap_count := timer_heap_count q, timer_heap_cap := timer_heap_cap q,
        timer_heap := timer_heap q, timers := timers q\<rparr>"
      using assms(1) by (simp add: tfr_def idx_upd_def)
    then have "?f q = (?f p)\<lparr>timer_heap := timer_heap q, timers := timers q\<rparr>"
      by (cases p; cases q) simp
    with assms(1) show ?thesis by (simp add: tfr_def idx_upd_def)
  qed
  moreover have "idx_upd A (?f q) r" using assms(2) by (simp add: tfr_def)
  ultimately show ?thesis unfolding tfr_def by (rule idx_upd_trans)
qed

lemma tfrD:
  assumes "tfr A p p'"
  shows "timer_mtx p' = timer_mtx p" and "task_q p' = task_q p" and "task_mtx p' = task_mtx p"
    and "ctxs p' = ctxs p" and "keyof p' = keyof p"
    and "a \<notin> A \<Longrightarrow> timers p' a = timers p a"
    and "timers p' a = None \<longleftrightarrow> timers p a = None"
    and "owner_thread p' = owner_thread p"
    and "rel_option but_index (timers p a) (timers p' a)"
  using idx_updD [OF assms [unfolded tfr_def]] by (simp_all add: keyof_def [abs_def])

lemma tfr_count: "tfr A p (p\<lparr>timer_heap_count := n\<rparr>)"
  using idx_upd_refl [of A "p\<lparr>timer_heap_count := n\<rparr>"] by (simp add: tfr_def)

lemma reserve_sim:
  assumes rep: "arr_rep p xs" and small: "length xs < 2 ^ 59"
  shows "(\<not> ok \<and> unat (timer_heap_cap p) = length xs \<and>
          timer_heap_reserve ok p (timer_heap_count p + 1) = Some (False, p)) \<or>
     (\<exists>p'. timer_heap_reserve ok p (timer_heap_count p + 1) = Some (True, p') \<and> arr_rep p' xs \<and>
        length xs < unat (timer_heap_cap p') \<and> timers p' = timers p \<and> tfr {} p p' \<and>
        (length xs < unat (timer_heap_cap p) \<longrightarrow> p' = p))"
proof -
  let ?n = "timer_heap_count p + 1"
  let ?c0 = "if timer_heap_cap p \<noteq> 0 then timer_heap_cap p else 8"
  have cnt: "unat (timer_heap_count p) = length xs" and len: "length (timer_heap p) = unat (timer_heap_cap p)"
    and le: "length xs \<le> unat (timer_heap_cap p)" using rep by (auto simp: arr_rep_def)
  have n: "unat ?n = length xs + 1" using cnt small by (simp add: unat_word_ariths)
  show ?thesis
  proof (cases "?n \<le> timer_heap_cap p")
    case True
    then show ?thesis using n rep idx_upd_tfr [OF idx_upd_refl]
      by (intro disjI2 exI [of _ p]) (simp add: timer_heap_reserve_def word_le_nat_alt)
  next
    case False
    then have full: "unat (timer_heap_cap p) = length xs" using n le by (simp add: word_le_nat_alt)
    have "0 < unat ?c0" by (simp add: unat_gt_0)
    then obtain c where c: "grow_cap ?c0 ?n = Some c" "unat ?n \<le> unat c" "unat ?c0 \<le> unat c"
        "c = ?c0 \<or> unat c < 2 * unat ?n"
      using grow_cap_returns [of ?c0 ?n] n small by auto
    then have "unat c < 2 ^ 61" using n small full by (auto split: if_splits)
    then have cells: "unat (c * 8) div 8 = unat c" by (simp add: unat_word_ariths)
    let ?p = "p\<lparr>timer_heap := take (unat c) (timer_heap p) @ replicate (unat c - length (timer_heap p)) None,
                timer_heap_cap := c\<rparr>"
    have lc: "length xs < unat c" using c(2) n by simp
    have "arr_rep ?p xs"
      using rep lc len full by (auto simp: arr_rep_def nth_append at_index_def)
    moreover have "tfr {} p ?p" by (simp add: tfr_def idx_upd_def)
    moreover have "timer_heap_reserve ok p ?n = (if ok then Some (True, ?p) else Some (False, p))"
      using False c(1) cells by (simp add: timer_heap_reserve_def Let_def)
    ultimately show ?thesis using full lc by (cases ok) auto
  qed
qed

lemma push_sim:
  assumes rep: "arr_rep p xs" and small: "length xs < 2 ^ 59" and a: "a \<notin> set xs" "timers p a \<noteq> None"
  shows "(\<not> ok \<and> unat (timer_heap_cap p) = length xs \<and> timer_heap_push ok p a = Some (False, p)) \<or>
     (\<exists>p'. timer_heap_push ok p a = Some (True, p') \<and> arr_rep p' (heap_push (keyof p) xs a) \<and>
        tfr (insert a (set xs)) p p' \<and>
        (length xs < unat (timer_heap_cap p) \<longrightarrow> timer_heap_cap p' = timer_heap_cap p))"
  using reserve_sim [OF rep small, of ok]
proof (elim disjE conjE exE)
  fix p1
  assume r: "timer_heap_reserve ok p (timer_heap_count p + 1) = Some (True, p1)" and rep1: "arr_rep p1 xs"
    and room: "length xs < unat (timer_heap_cap p1)" and tm: "timers p1 = timers p" and fr: "tfr {} p p1"
    and nogrow: "length xs < unat (timer_heap_cap p) \<longrightarrow> p1 = p"
  let ?n = "timer_heap_count p1" and ?A = "insert a (set xs)"
  have n: "unat ?n = length xs" using rep1 by (simp add: arr_rep_def)
  obtain p2 where p2: "set_index a ?n p1 = Some p2" "idx_upd ?A p1 p2" "timer_heap p2 = timer_heap p1"
      "\<And>b j. at_index p2 b j \<longleftrightarrow> (if b = a then j = ?n else at_index p1 b j)"
    using set_index_upd [of p1 a ?A ?n] a(2) tm by auto
  let ?p3 = "p2\<lparr>timer_heap := (timer_heap p2)[length xs := Some a], timer_heap_count := ?n + 1\<rparr>"
  have cap2: "timer_heap_cap p2 = timer_heap_cap p1" using idx_updD(2) [OF p2(2)] .
  have lenh: "length (timer_heap p1) = unat (timer_heap_cap p1)" using rep1 by (simp add: arr_rep_def)
  have put: "put_cell (unat ?n) a p2 = Some (p2\<lparr>timer_heap := (timer_heap p2)[length xs := Some a]\<rparr>)"
    using room lenh p2(3) n by (simp add: put_cell_def)
  have "unat (?n + 1) = length xs + 1" using n small by (simp add: unat_word_ariths)
  moreover have "of_nat (length xs) = ?n" using n by (metis word_unat_eq_iff of_nat_inverse unsigned_less)
  moreover have "xs ! i \<noteq> a" if "i < length xs" for i using a(1) that by auto
  moreover have "at_index ?p3 b j = at_index p2 b j" for b j by (simp add: at_index_def)
  ultimately have rep3: "arr_rep ?p3 (xs @ [a])"
    using rep1 room lenh p2(3,4) cap2 a(1)
    by (auto simp: arr_rep_def nth_append nth_list_update less_Suc_eq)
  have fr3: "tfr ?A p1 ?p3"
    using tfr_trans [OF idx_upd_tfr [OF p2(2)] tfr_trans [OF idx_upd_tfr [OF idx_upd_heap] tfr_count]] by simp
  have fr03: "tfr ?A p ?p3" using tfr_trans [OF tfr_mono [OF fr] fr3] by simp
  have K: "keyof ?p3 = keyof p" by (rule tfrD(5) [OF fr03])
  obtain p4 where p4: "timer_heap_bubble_up ?p3 (length xs) = Some p4"
      "arr_rep p4 (heap_push (keyof p) xs a)" "idx_upd ?A ?p3 p4"
    using up_sim [OF rep3, of "length xs"] K by (auto simp: heap_push_def)
  have "timer_heap_push ok p a = Some (True, p4)"
    using r p2(1) put p4(1) n by (simp add: timer_heap_push_def Let_def)
  moreover have "tfr ?A p p4" using tfr_trans [OF fr03 idx_upd_tfr [OF p4(3)]] .
  moreover have "timer_heap_cap p4 = timer_heap_cap p1" using idx_updD(2) [OF p4(3)] cap2 by simp
  ultimately show ?thesis using p4(2) nogrow by auto
next
  assume "\<not> ok" "unat (timer_heap_cap p) = length xs"
    "timer_heap_reserve ok p (timer_heap_count p + 1) = Some (False, p)"
  then show ?thesis by (simp add: timer_heap_push_def)
qed

text \<open>Taking the timer at \<open>i\<close> out: its index is reset, the count drops, the last timer fills the hole.\<close>

lemma take_out_sim:
  assumes rep: "arr_rep p xs" and i: "i < length xs"
  obtains p2 where "set_index (xs ! i) ZTK_TIMER_HEAP_INDEX_NONE p = Some p2"
    and "unat (timer_heap_count p - 1) = length xs - 1"
    and "tfr (set xs) p (p2\<lparr>timer_heap_count := timer_heap_count p - 1\<rparr>)"
    and "i = length xs - 1 \<Longrightarrow> arr_rep (p2\<lparr>timer_heap_count := timer_heap_count p - 1\<rparr>) (butlast xs)"
    and "at_index p2 (xs ! i) ZTK_TIMER_HEAP_INDEX_NONE" and "timer_heap_cap p2 = timer_heap_cap p"
    and "i < length xs - 1 \<Longrightarrow> \<exists>p3. move_last i (p2\<lparr>timer_heap_count := timer_heap_count p - 1\<rparr>) = Some p3 \<and>
      arr_rep p3 ((butlast xs)[i := last xs]) \<and> at_index p3 (xs ! i) ZTK_TIMER_HEAP_INDEX_NONE \<and>
      idx_upd (set xs) (p2\<lparr>timer_heap_count := timer_heap_count p - 1\<rparr>) p3"
proof -
  let ?a = "xs ! i" and ?n = "length xs - 1" and ?N = "ZTK_TIMER_HEAP_INDEX_NONE"
  have live: "timers p ?a \<noteq> None" using arr_live [OF rep] i by simp
  obtain p2 where p2: "set_index ?a ?N p = Some p2" "idx_upd (set xs) p p2" "timer_heap p2 = timer_heap p"
      "\<And>b j. at_index p2 b j \<longleftrightarrow> (if b = ?a then j = ?N else at_index p b j)"
    using set_index_upd [OF live, of "set xs" ?N] i by auto
  let ?q = "p2\<lparr>timer_heap_count := timer_heap_count p - 1\<rparr>"
  have cnt: "unat (timer_heap_count p) = length xs" and dist: "distinct xs"
    and lenh: "length (timer_heap p) = unat (timer_heap_cap p)" "length xs \<le> unat (timer_heap_cap p)"
    and cell: "\<And>k. k < length xs \<Longrightarrow> timer_heap p ! k = Some (xs ! k) \<and> at_index p (xs ! k) (of_nat k)"
    using rep by (auto simp: arr_rep_def)
  have n1: "unat (timer_heap_count p - 1) = ?n"
    using cnt i by (subst unat_sub_size) auto
  have cap2: "timer_heap_cap p2 = timer_heap_cap p" by (rule idx_updD(2) [OF p2(2)])
  have neq: "xs ! k \<noteq> ?a" if "k < length xs" "k \<noteq> i" for k
    using that dist i by (simp add: nth_eq_iff_index_eq)
  have ai: "at_index ?q b j = at_index p2 b j" for b j by (simp add: at_index_def)
  have last: "arr_rep ?q (butlast xs)" if "i = ?n"
    using that i n1 lenh p2(3,4) cap2 cell neq dist
    by (auto simp: arr_rep_def nth_butlast distinct_butlast ai)
  have mid: "\<exists>p3. move_last i ?q = Some p3 \<and> arr_rep p3 ((butlast xs)[i := last xs]) \<and>
      at_index p3 ?a ?N \<and> idx_upd (set xs) ?q p3" if lt: "i < ?n"
  proof -
    have ne: "xs \<noteq> []" using i by auto
    then have l: "last xs = xs ! ?n" by (simp add: last_conv_nth)
    let ?r = "?q\<lparr>timer_heap := (timer_heap p)[i := Some (last xs)]\<rparr>"
    have la: "last xs \<noteq> ?a" using l neq [of ?n] lt i by auto
    have lin: "last xs \<in> set xs" using ne by simp
    have "timers ?r (last xs) \<noteq> None" using idx_updD(9) [OF p2(2)] arr_live [OF rep lin] by simp
    then obtain p3 where p3: "set_index (last xs) (of_nat i) ?r = Some p3" "idx_upd (set xs) ?r p3"
        "timer_heap p3 = timer_heap ?r"
        "\<And>b j. at_index p3 b j \<longleftrightarrow> (if b = last xs then j = of_nat i else at_index ?r b j)"
      using set_index_upd [of ?r "last xs" "set xs" "of_nat i"] lin by blast
    have "heap_cell ?q (unat (timer_heap_count ?q)) = Some (last xs)"
      using n1 cell [of ?n] lenh i p2(3) l by (simp add: heap_cell_def)
    moreover have "put_cell i (last xs) ?q = Some ?r" using lenh i p2(3) by (simp add: put_cell_def)
    ultimately have mv: "move_last i ?q = Some p3" using p3(1) by (simp add: move_last_def)
    have fr: "idx_upd (set xs) ?q p3" using idx_upd_trans [OF idx_upd_heap p3(2)] .
    have ar: "at_index ?r b j = at_index p2 b j" for b j by (simp add: at_index_def)
    let ?ys = "(butlast xs)[i := last xs]"
    have "last xs \<notin> set (butlast xs)"
      using dist ne by (metis append_butlast_last_id distinct_append disjoint_iff list.set_intros(1))
    then have "distinct ?ys" using dist by (simp add: distinct_list_update distinct_butlast)
    moreover have "timer_heap p3 ! k = Some (?ys ! k) \<and> at_index p3 (?ys ! k) (of_nat k)" if k: "k < ?n" for k
    proof (cases "k = i")
      case True
      then show ?thesis using p3(3,4) lenh i lt by simp
    next
      case False
      have "xs ! k \<noteq> last xs" using l k dist i by (simp add: nth_eq_iff_index_eq)
      then show ?thesis
        using False k cell [of k] neq [of k] p3(3,4) p2(4) ar by (simp add: nth_butlast)
    qed
    ultimately have "arr_rep p3 ?ys"
      using idx_updD(1,2) [OF fr] n1 cap2 lenh p3(3) by (auto simp: arr_rep_def)
    with mv fr la p3(4) p2(4) ar show ?thesis by auto
  qed
  have "tfr (set xs) p ?q" using tfr_trans [OF idx_upd_tfr [OF p2(2)] tfr_count] .
  moreover have "at_index p2 ?a ?N" using p2(4) by simp
  ultimately show thesis using that [OF p2(1) n1 _ last _ cap2 mid] by simp
qed

lemma mset_set_eq: "mset xs = mset ys \<Longrightarrow> set xs = set ys"
  by (metis set_mset_mset)

lemma at_index_upd: "idx_upd A p p' \<Longrightarrow> a \<notin> A \<Longrightarrow> at_index p' a j = at_index p a j"
  by (simp add: at_index_def idx_updD(8))

lemma remove_sim:
  assumes rep: "arr_rep p xs" and i: "i < length xs" and n: "length xs < 2 ^ 64 - 1"
  shows "\<exists>p'. timer_heap_remove p (xs ! i) = Some p' \<and> arr_rep p' (heap_remove (keyof p) xs i) \<and>
     tfr (set xs) p p' \<and> at_index p' (xs ! i) ZTK_TIMER_HEAP_INDEX_NONE \<and> timer_heap_cap p' = timer_heap_cap p"
proof -
  let ?K = "keyof p"
  obtain p2 where p2: "set_index (xs ! i) ZTK_TIMER_HEAP_INDEX_NONE p = Some p2"
    "unat (timer_heap_count p - 1) = length xs - 1"
    "tfr (set xs) p (p2\<lparr>timer_heap_count := timer_heap_count p - 1\<rparr>)"
    "i = length xs - 1 \<Longrightarrow> arr_rep (p2\<lparr>timer_heap_count := timer_heap_count p - 1\<rparr>) (butlast xs)"
    "at_index p2 (xs ! i) ZTK_TIMER_HEAP_INDEX_NONE" "timer_heap_cap p2 = timer_heap_cap p"
    "i < length xs - 1 \<Longrightarrow> \<exists>p3. move_last i (p2\<lparr>timer_heap_count := timer_heap_count p - 1\<rparr>) = Some p3 \<and>
      arr_rep p3 ((butlast xs)[i := last xs]) \<and> at_index p3 (xs ! i) ZTK_TIMER_HEAP_INDEX_NONE \<and>
      idx_upd (set xs) (p2\<lparr>timer_heap_count := timer_heap_count p - 1\<rparr>) p3"
    using take_out_sim [OF rep i] by metis
  let ?q = "p2\<lparr>timer_heap_count := timer_heap_count p - 1\<rparr>"
  have ui: "unat (of_nat i :: size_t) = i" using i n by (intro of_nat_inverse) auto
  have none: "unat ZTK_TIMER_HEAP_INDEX_NONE = 2 ^ 64 - 1" by (simp add: ZTK_TIMER_HEAP_INDEX_NONE_def unsigned_minus_1_eq_mask mask_eq_exp_minus_1)
  have cnt: "unat (timer_heap_count p) = length xs" using rep by (simp add: arr_rep_def)
  obtain t where t: "timers p (xs ! i) = Some t" "heap_index t = of_nat i"
    using rep i by (auto simp: arr_rep_def at_index_def)
  have idx: "of_nat i \<noteq> ZTK_TIMER_HEAP_INDEX_NONE" "\<not> timer_heap_count p \<le> of_nat i"
    using ui none i n cnt by (auto simp: word_le_nat_alt dest: arg_cong [where f = unat])
  show ?thesis
  proof (cases "i < length xs - 1")
    case False
    then have e: "i = length xs - 1" using i by simp
    then have "timer_heap_remove p (xs ! i) = Some ?q"
      using t idx p2(1,2) ui by (simp add: timer_heap_remove_def Let_def word_less_nat_alt)
    moreover have "heap_remove ?K xs i = butlast xs" using e by (simp add: heap_remove_def)
    moreover have "at_index ?q (xs ! i) ZTK_TIMER_HEAP_INDEX_NONE" using p2(5) by (simp add: at_index_def)
    ultimately show ?thesis using p2(3,4,6) e by simp
  next
    case True
    let ?ys = "(butlast xs)[i := last xs]"
    obtain p3 where p3: "move_last i ?q = Some p3" "arr_rep p3 ?ys"
        "at_index p3 (xs ! i) ZTK_TIMER_HEAP_INDEX_NONE" "idx_upd (set xs) ?q p3"
      using p2(7) [OF True] by blast
    have fr3: "tfr (set xs) p p3" using tfr_trans [OF p2(3) idx_upd_tfr [OF p3(4)]] .
    have K: "keyof p3 = ?K" by (rule tfrD(5) [OF fr3])
    have iy: "i < length ?ys" using True by simp
    obtain p4 where p4: "timer_heap_bubble_down p3 i = Some p4" "arr_rep p4 (down ?K ?ys i)" "idx_upd (set ?ys) p3 p4"
      using down_sim [OF p3(2) iy] K by auto
    have iz: "i < length (down ?K ?ys i)" and sz: "set (down ?K ?ys i) = set ?ys"
      using down_mset [OF iy, of ?K] iy by (auto dest: mset_set_eq)
    obtain p5 where p5: "timer_heap_bubble_up p4 i = Some p5" "arr_rep p5 (up ?K (down ?K ?ys i) i)"
        "idx_upd (set ?ys) p4 p5"
      using up_sim [OF p4(2) iz] idx_updD(7) [OF p4(3)] K sz by auto
    have fr5: "idx_upd (set ?ys) p3 p5" using idx_upd_trans [OF p4(3) p5(3)] .
    have ne: "xs \<noteq> []" using i by auto
    have "distinct (butlast xs @ [last xs])" using rep ne by (simp add: arr_rep_def)
    then have sub: "set ?ys \<subseteq> set xs - {xs ! i}"
      using set_fill [of i "butlast xs" "last xs"] True ne
      by (auto simp: nth_butlast dest: in_set_butlastD)
    have "timer_heap_remove p (xs ! i) = Some p5"
      using t idx p2(1,2) ui True p3(1) p4(1) p5(1) by (simp add: timer_heap_remove_def Let_def word_less_nat_alt)
    moreover have "heap_remove ?K xs i = up ?K (down ?K ?ys i) i" using True by (simp add: heap_remove_def)
    moreover have "tfr (set xs) p p5"
      using tfr_trans [OF fr3 idx_upd_tfr [OF idx_upd_mono [OF fr5]]] sub by auto
    moreover have "at_index p5 (xs ! i) ZTK_TIMER_HEAP_INDEX_NONE"
      using p3(3) at_index_upd [OF fr5] sub by blast
    moreover have "timer_heap_cap p5 = timer_heap_cap p"
      using idx_updD(2) [OF fr5] idx_updD(2) [OF p3(4)] p2(6) by simp
    ultimately show ?thesis using p5(2) by simp
  qed
qed

lemma pop_sim:
  assumes rep: "arr_rep p xs" and ne: "xs \<noteq> []"
  shows "\<exists>p'. timer_heap_pop_min p = Some (Some (xs ! 0), p') \<and> arr_rep p' (heap_pop (keyof p) xs) \<and>
     tfr (set xs) p p' \<and> at_index p' (xs ! 0) ZTK_TIMER_HEAP_INDEX_NONE \<and> timer_heap_cap p' = timer_heap_cap p"
proof -
  let ?K = "keyof p"
  have i: "0 < length xs" using ne by simp
  obtain p2 where p2: "set_index (xs ! 0) ZTK_TIMER_HEAP_INDEX_NONE p = Some p2"
    "unat (timer_heap_count p - 1) = length xs - 1"
    "tfr (set xs) p (p2\<lparr>timer_heap_count := timer_heap_count p - 1\<rparr>)"
    "0 = length xs - 1 \<Longrightarrow> arr_rep (p2\<lparr>timer_heap_count := timer_heap_count p - 1\<rparr>) (butlast xs)"
    "at_index p2 (xs ! 0) ZTK_TIMER_HEAP_INDEX_NONE" "timer_heap_cap p2 = timer_heap_cap p"
    "0 < length xs - 1 \<Longrightarrow> \<exists>p3. move_last 0 (p2\<lparr>timer_heap_count := timer_heap_count p - 1\<rparr>) = Some p3 \<and>
      arr_rep p3 ((butlast xs)[0 := last xs]) \<and> at_index p3 (xs ! 0) ZTK_TIMER_HEAP_INDEX_NONE \<and>
      idx_upd (set xs) (p2\<lparr>timer_heap_count := timer_heap_count p - 1\<rparr>) p3"
    by (rule take_out_sim [OF rep i]) (rule that)
  let ?q = "p2\<lparr>timer_heap_count := timer_heap_count p - 1\<rparr>"
  have nz: "timer_heap_count p \<noteq> 0" and c0: "heap_cell p 0 = Some (xs ! 0)"
    using rep i arr_cell [OF rep i] by (auto simp: arr_rep_def)
  have zero: "timer_heap_count p - 1 = 0 \<longleftrightarrow> length xs - 1 = 0" using p2(2) by (metis unat_eq_zero)
  show ?thesis
  proof (cases "length xs - 1 = 0")
    case True
    then have "timer_heap_pop_min p = Some (Some (xs ! 0), ?q)"
      using nz c0 p2(1) zero by (simp add: timer_heap_pop_min_def Let_def)
    moreover have "butlast xs = []" using True by (simp flip: length_0_conv)
    moreover from this have "heap_pop ?K xs = butlast xs" by (simp add: heap_pop_def)
    moreover have "at_index ?q (xs ! 0) ZTK_TIMER_HEAP_INDEX_NONE" using p2(5) by (simp add: at_index_def)
    ultimately show ?thesis using p2(3,4,6) True by simp
  next
    case False
    then have lt: "0 < length xs - 1" by simp
    let ?ys = "(butlast xs)[0 := last xs]"
    obtain p3 where p3: "move_last 0 ?q = Some p3" "arr_rep p3 ?ys"
        "at_index p3 (xs ! 0) ZTK_TIMER_HEAP_INDEX_NONE" "idx_upd (set xs) ?q p3"
      using p2(7) [OF lt] by blast
    have fr3: "tfr (set xs) p p3" using tfr_trans [OF p2(3) idx_upd_tfr [OF p3(4)]] .
    have iy: "0 < length ?ys" using lt by simp
    obtain p4 where p4: "timer_heap_bubble_down p3 0 = Some p4" "arr_rep p4 (down ?K ?ys 0)" "idx_upd (set ?ys) p3 p4"
      using down_sim [OF p3(2) iy] tfrD(5) [OF fr3] by auto
    have "distinct (butlast xs @ [last xs])" using rep ne by (simp add: arr_rep_def)
    then have sub: "set ?ys \<subseteq> set xs - {xs ! 0}"
      using set_fill [of 0 "butlast xs" "last xs"] lt ne
      by (auto simp: nth_butlast dest: in_set_butlastD)
    have "timer_heap_pop_min p = Some (Some (xs ! 0), p4)"
      using nz c0 p2(1) zero False p3(1) p4(1) by (simp add: timer_heap_pop_min_def Let_def)
    moreover have "butlast xs \<noteq> []" using lt by (metis length_butlast list.size(3) less_not_refl)
    moreover from this have "heap_pop ?K xs = down ?K ?ys 0" by (simp add: heap_pop_def Let_def)
    moreover have "tfr (set xs) p p4"
      using tfr_trans [OF fr3 idx_upd_tfr [OF idx_upd_mono [OF p4(3)]]] sub by auto
    moreover have "at_index p4 (xs ! 0) ZTK_TIMER_HEAP_INDEX_NONE"
      using p3(3) at_index_upd [OF p4(3)] sub by blast
    moreover have "timer_heap_cap p4 = timer_heap_cap p"
      using idx_updD(2) [OF p4(3)] idx_updD(2) [OF p3(4)] p2(6) by simp
    ultimately show ?thesis using p4(2) by simp
  qed
qed

section \<open>Invariant and the set of armed timers\<close>

definition armed :: "('c, 'u, 'z) tpoller_scheme \<Rightarrow> nat set" where
  "armed p = set (List.map_filter (heap_cell p) [0..<unat (timer_heap_count p)])"

text \<open>
  The array is a heap by deadline with correct back pointers, and every other timer is marked as
  being outside.
\<close>

definition timer_inv :: "('c, 'u, 'z) tpoller_scheme \<Rightarrow> bool" where
  "timer_inv p \<longleftrightarrow> (\<exists>xs. arr_rep p xs \<and> heap_on (keyof p) xs \<and> length xs < 2 ^ 59 \<and>
     (\<forall>a t. timers p a = Some t \<longrightarrow> a \<notin> set xs \<longrightarrow> heap_index t = ZTK_TIMER_HEAP_INDEX_NONE))"

definition loose :: "('c, 'u, 'z) tpoller_scheme \<Rightarrow> nat list \<Rightarrow> bool" where
  "loose p xs \<longleftrightarrow> (\<forall>a. a \<notin> set xs \<longrightarrow> timers p a \<noteq> None \<longrightarrow> at_index p a ZTK_TIMER_HEAP_INDEX_NONE)"

lemma timer_invI: "arr_rep p xs \<Longrightarrow> heap_on (keyof p) xs \<Longrightarrow> length xs < 2 ^ 59 \<Longrightarrow> loose p xs \<Longrightarrow> timer_inv p"
  unfolding timer_inv_def loose_def at_index_def by fastforce

lemma timer_invE:
  assumes "timer_inv p"
  obtains xs where "arr_rep p xs" "heap_on (keyof p) xs" "length xs < 2 ^ 59" "loose p xs" "armed p = set xs"
proof -
  obtain xs where xs: "arr_rep p xs" "heap_on (keyof p) xs" "length xs < 2 ^ 59" "loose p xs"
    using assms unfolding timer_inv_def loose_def at_index_def by fastforce
  have "a \<in> armed p \<longleftrightarrow> (\<exists>i < length xs. heap_cell p i = Some a)" for a
    using xs(1) by (force simp: armed_def arr_rep_def map_filter_def image_iff)
  then have "armed p = set xs" using arr_cell [OF xs(1)] by (fastforce simp: in_set_conv_nth)
  with that xs show thesis by blast
qed

lemma armed_rep: "timer_inv p \<Longrightarrow> arr_rep p xs \<Longrightarrow> armed p = set xs"
proof -
  assume "timer_inv p" and rep: "arr_rep p xs"
  obtain ys where ys: "arr_rep p ys" "armed p = set ys" by (rule timer_invE [OF \<open>timer_inv p\<close>]) simp
  have "length xs = length ys" using rep ys(1) by (simp add: arr_rep_def)
  moreover have "xs ! i = ys ! i" if "i < length xs" for i
    using arr_cell [OF rep that] arr_cell [OF ys(1), of i] that \<open>length xs = length ys\<close> by simp
  ultimately have "xs = ys" by (intro nth_equalityI) auto
  with ys(2) show ?thesis by simp
qed

lemma taken_set:
  assumes "distinct xs" and "add_mset a (mset ys) = mset xs"
  shows "set ys = set xs - {a}" and "a \<in> set xs" and "length ys < length xs"
proof -
  have "distinct (a # ys)" using assms by (metis mset.simps(2) mset_eq_imp_distinct_iff)
  moreover have s: "set (a # ys) = set xs" using assms(2) by (metis mset.simps(2) mset_set_eq)
  ultimately show "set ys = set xs - {a}" "a \<in> set xs" by auto
  show "length ys < length xs" using arg_cong [OF assms(2), of size] by simp
qed

text \<open>After a timer left the array the invariant holds again.\<close>

lemma inv_after_take:
  assumes rep: "arr_rep p xs" and l: "loose p xs" and n: "length xs < 2 ^ 59"
    and rep': "arr_rep p' ys" and h: "heap_on (keyof p) ys" and ys: "add_mset a (mset ys) = mset xs"
    and fr: "tfr (set xs) p p'" and at: "at_index p' a ZTK_TIMER_HEAP_INDEX_NONE"
  shows "timer_inv p'" and "armed p' = set xs - {a}"
proof -
  have d: "distinct xs" using rep by (simp add: arr_rep_def)
  note t = taken_set [OF d ys]
  have "at_index p' b ZTK_TIMER_HEAP_INDEX_NONE" if "b \<notin> set ys" "timers p' b \<noteq> None" for b
  proof (cases "b = a")
    case False
    then have out: "b \<notin> set xs" using that t(1) by blast
    then have "at_index p b ZTK_TIMER_HEAP_INDEX_NONE"
      using l that(2) tfrD(7) [OF fr, of b] by (simp add: loose_def)
    then show ?thesis using tfrD(6) [OF fr out] by (simp add: at_index_def)
  qed (use at in simp)
  then show inv: "timer_inv p'"
    using timer_invI [OF rep'] h n t(3) tfrD(5) [OF fr] by (simp add: loose_def)
  show "armed p' = set xs - {a}" using armed_rep [OF inv rep'] t(1) by simp
qed

lemma pop_spec:
  assumes inv: "timer_inv p" and ne: "armed p \<noteq> {}"
  shows "\<exists>a p'. timer_heap_pop_min p = Some (Some a, p') \<and> a \<in> armed p \<and> heap_key p 0 = Some (keyof p a) \<and>
     (\<forall>b \<in> armed p. keyof p a \<le> keyof p b) \<and> timer_inv p' \<and> armed p' = armed p - {a} \<and>
     tfr (armed p) p p' \<and> timer_heap_cap p' = timer_heap_cap p"
proof -
  obtain xs where xs: "arr_rep p xs" "heap_on (keyof p) xs" "length xs < 2 ^ 59" "loose p xs" "armed p = set xs"
    using inv by (rule timer_invE)
  then have nx: "xs \<noteq> []" using ne by auto
  obtain p' where p': "timer_heap_pop_min p = Some (Some (xs ! 0), p')" "arr_rep p' (heap_pop (keyof p) xs)"
      "tfr (set xs) p p'" "at_index p' (xs ! 0) ZTK_TIMER_HEAP_INDEX_NONE" "timer_heap_cap p' = timer_heap_cap p"
    using pop_sim [OF xs(1) nx] by blast
  note hp = heap_pop_correct [OF xs(2) nx]
  have "\<forall>b \<in> armed p. keyof p (xs ! 0) \<le> keyof p b"
    using heap_min [OF xs(2)] xs(5) by (auto simp: in_set_conv_nth)
  moreover have "heap_key p 0 = Some (keyof p (xs ! 0))" using arr_key [OF xs(1), of 0] nx by simp
  ultimately show ?thesis
    using inv_after_take [OF xs(1,4,3) p'(2) _ _ p'(3,4)] hp p' xs(5) nx by auto
qed

lemma pop_spec_empty: "timer_inv p \<Longrightarrow> armed p = {} \<Longrightarrow> timer_heap_count p = 0 \<and> timer_heap_pop_min p = Some (None, p)"
  by (elim timer_invE) (auto simp: arr_rep_def timer_heap_pop_min_def unat_eq_zero)

lemma count_armed: "timer_inv p \<Longrightarrow> timer_heap_count p = 0 \<longleftrightarrow> armed p = {}"
  by (elim timer_invE) (auto simp: arr_rep_def unat_eq_zero)

lemma armed_card: "timer_inv p \<Longrightarrow> finite (armed p) \<and> card (armed p) = unat (timer_heap_count p)"
  by (elim timer_invE) (auto simp: arr_rep_def distinct_card)

lemma armed_live: "timer_inv p \<Longrightarrow> a \<in> armed p \<Longrightarrow> timers p a \<noteq> None"
  by (elim timer_invE) (metis arr_live)

lemma remove_spec:
  assumes inv: "timer_inv p" and live: "timers p a \<noteq> None"
  shows "\<exists>p'. timer_heap_remove p a = Some p' \<and> timer_inv p' \<and> armed p' = armed p - {a} \<and>
     tfr (armed p) p p' \<and> timer_heap_cap p' = timer_heap_cap p"
proof -
  obtain xs where xs: "arr_rep p xs" "heap_on (keyof p) xs" "length xs < 2 ^ 59" "loose p xs" "armed p = set xs"
    using inv by (rule timer_invE)
  show ?thesis
  proof (cases "a \<in> set xs")
    case False
    then have "timer_heap_remove p a = Some p"
      using xs(4) live by (auto simp: loose_def at_index_def timer_heap_remove_def Let_def)
    then show ?thesis using inv xs(5) False idx_upd_tfr [OF idx_upd_refl] by auto
  next
    case True
    then obtain i where i: "i < length xs" "xs ! i = a" by (auto simp: in_set_conv_nth)
    obtain p' where p': "timer_heap_remove p a = Some p'" "arr_rep p' (heap_remove (keyof p) xs i)"
        "tfr (set xs) p p'" "at_index p' a ZTK_TIMER_HEAP_INDEX_NONE" "timer_heap_cap p' = timer_heap_cap p"
      using remove_sim [OF xs(1) i(1)] xs(3) i(2) by auto
    show ?thesis
      using inv_after_take [OF xs(1,4,3) p'(2) _ _ p'(3,4)] heap_remove_correct [OF xs(2) i(1)] i(2) p' xs(5)
      by auto
  qed
qed

lemma push_spec:
  assumes inv: "timer_inv p" and live: "timers p a \<noteq> None" and out: "a \<notin> armed p"
    and room: "card (armed p) + 1 < 2 ^ 59"
  shows "(\<not> ok \<and> unat (timer_heap_cap p) = card (armed p) \<and> timer_heap_push ok p a = Some (False, p)) \<or>
     (\<exists>p'. timer_heap_push ok p a = Some (True, p') \<and> timer_inv p' \<and> armed p' = insert a (armed p) \<and>
        tfr (insert a (armed p)) p p' \<and>
        (card (armed p) < unat (timer_heap_cap p) \<longrightarrow> timer_heap_cap p' = timer_heap_cap p))"
proof -
  obtain xs where xs: "arr_rep p xs" "heap_on (keyof p) xs" "length xs < 2 ^ 59" "loose p xs" "armed p = set xs"
    using inv by (rule timer_invE)
  have len: "card (armed p) = length xs" using xs(1,5) by (simp add: arr_rep_def distinct_card)
  have ok: "timer_inv p' \<and> armed p' = insert a (armed p)"
    if p': "arr_rep p' (heap_push (keyof p) xs a)" "tfr (insert a (set xs)) p p'" for p'
  proof -
    note hp = heap_push_correct [OF xs(2), of a]
    have s: "set (heap_push (keyof p) xs a) = insert a (set xs)"
      using hp by (metis mset.simps(2) mset_set_eq list.set(2))
    have l: "length (heap_push (keyof p) xs a) = length xs + 1"
      using hp by (metis size_mset size_add_mset Suc_eq_plus1)
    have "loose p' (heap_push (keyof p) xs a)"
      unfolding loose_def
    proof (intro allI impI)
      fix b assume b: "b \<notin> set (heap_push (keyof p) xs a)" "timers p' b \<noteq> None"
      then have nb: "b \<notin> insert a (set xs)" using s by simp
      have "at_index p b ZTK_TIMER_HEAP_INDEX_NONE"
        using xs(4) nb b(2) tfrD(7) [OF p'(2), of b] by (simp add: loose_def)
      then show "at_index p' b ZTK_TIMER_HEAP_INDEX_NONE" using tfrD(6) [OF p'(2) nb] by (simp add: at_index_def)
    qed
    then have inv': "timer_inv p'" using timer_invI [OF p'(1)] hp l room len tfrD(5) [OF p'(2)] by simp
    then show ?thesis using armed_rep [OF inv' p'(1)] s xs(5) by simp
  qed
  show ?thesis
    using push_sim [OF xs(1,3), of a ok] out xs(5) live len ok by auto
qed

lemma index_none:
  assumes "arr_rep p xs" and "length xs < 2 ^ 59" and "loose p xs" and "timers p a = Some t"
  shows "heap_index t = ZTK_TIMER_HEAP_INDEX_NONE \<longleftrightarrow> a \<notin> set xs"
proof
  assume "a \<notin> set xs"
  then show "heap_index t = ZTK_TIMER_HEAP_INDEX_NONE" using assms by (auto simp: loose_def at_index_def)
next
  assume h: "heap_index t = ZTK_TIMER_HEAP_INDEX_NONE"
  show "a \<notin> set xs"
  proof
    assume "a \<in> set xs"
    then obtain i where i: "i < length xs" "xs ! i = a" by (auto simp: in_set_conv_nth)
    then have "of_nat i = ZTK_TIMER_HEAP_INDEX_NONE" using assms h by (auto simp: arr_rep_def at_index_def)
    moreover have "unat (of_nat i :: size_t) = i" using i(1) assms(2) by (intro of_nat_inverse) auto
    moreover have "unat ZTK_TIMER_HEAP_INDEX_NONE = 2 ^ 64 - 1"
      by (simp add: ZTK_TIMER_HEAP_INDEX_NONE_def unsigned_minus_1_eq_mask mask_eq_exp_minus_1)
    ultimately show False using i(1) assms(2) by simp
  qed
qed

lemma insert_spec:
  fixes d :: u64
  assumes inv: "timer_inv p" and t: "timers p a = Some t" and room: "card (armed p) + 1 < 2 ^ 59"
  defines "p1 \<equiv> p\<lparr>timers := (timers p)(a \<mapsto> t\<lparr>deadline_ms := d\<rparr>)\<rparr>"
  shows "\<exists>p'. ztk_poller_timer_insert_locked ok p a d = Some p' \<and> timer_inv p' \<and>
     keyof p' = (keyof p)(a := d) \<and> tfr (insert a (armed p)) p1 p' \<and>
     (armed p' = insert a (armed p) \<or>
      (\<not> ok \<and> unat (timer_heap_cap p) = card (armed p - {a}) \<and> armed p' = armed p - {a})) \<and>
     (card (armed p - {a}) < unat (timer_heap_cap p) \<longrightarrow> timer_heap_cap p' = timer_heap_cap p)"
proof -
  obtain xs where xs: "arr_rep p xs" "heap_on (keyof p) xs" "length xs < 2 ^ 59" "loose p xs" "armed p = set xs"
    using inv by (rule timer_invE)
  have ai: "at_index p1 b j = at_index p b j" for b j using t by (auto simp: at_index_def p1_def)
  have rep1: "arr_rep p1 xs" using xs(1) ai by (simp add: arr_rep_def p1_def)
  have l1: "loose p1 xs" using xs(4) ai t by (auto simp: loose_def p1_def)
  have K1: "keyof p1 = (keyof p)(a := d)" by (auto simp: keyof_def p1_def)
  let ?pre = "if heap_index t \<noteq> ZTK_TIMER_HEAP_INDEX_NONE then timer_heap_remove p1 a else Some p1"
  have "\<exists>p2. ?pre = Some p2 \<and> timer_inv p2 \<and> armed p2 = set xs - {a} \<and> tfr (set xs) p1 p2 \<and>
      timer_heap_cap p2 = timer_heap_cap p"
  proof (cases "a \<in> set xs")
    case False
    then have "heap_on (keyof p1) xs" by (intro heap_on_cong [OF _ xs(2)]) (use K1 in auto)
    then have "timer_inv p1" using timer_invI rep1 l1 xs(3) by blast
    with False index_none [OF xs(1,3,4) t] armed_rep [of p1, OF _ rep1] show ?thesis
      by (auto simp: idx_upd_tfr p1_def)
  next
    case True
    then obtain i where i: "i < length xs" "xs ! i = a" by (auto simp: in_set_conv_nth)
    obtain p2 where p2: "timer_heap_remove p1 a = Some p2" "arr_rep p2 (heap_remove (keyof p1) xs i)"
        "tfr (set xs) p1 p2" "at_index p2 a ZTK_TIMER_HEAP_INDEX_NONE" "timer_heap_cap p2 = timer_heap_cap p1"
      using remove_sim [OF rep1 i(1)] xs(3) i(2) by auto
    have d: "distinct xs" using xs(1) by (simp add: arr_rep_def)
    have eq: "heap_remove (keyof p1) xs i = heap_remove (keyof p) xs i"
      by (rule heap_remove_cong [OF _ d i(1)]) (use K1 i in auto)
    note hr = heap_remove_correct [OF xs(2) i(1)]
    have "set (heap_remove (keyof p) xs i) = set xs - {a}" using taken_set(1) [OF d] hr i(2) by simp
    then have "heap_on (keyof p1) (heap_remove (keyof p1) xs i)"
      unfolding eq using heap_on_cong [of "heap_remove (keyof p) xs i" "keyof p" "keyof p1"] hr K1 by auto
    then show ?thesis
      using inv_after_take [OF rep1 l1 xs(3) p2(2) _ _ p2(3,4)] hr eq i(2) p2 True index_none [OF xs(1,3,4) t]
      by (auto simp: p1_def)
  qed
  then obtain p2 where p2: "?pre = Some p2" "timer_inv p2" "armed p2 = set xs - {a}" "tfr (set xs) p1 p2"
      "timer_heap_cap p2 = timer_heap_cap p" by blast
  have live: "timers p2 a \<noteq> None" using tfrD(7) [OF p2(4), of a] t by (simp add: p1_def)
  have "card (armed p2) + 1 < 2 ^ 59"
    using room xs(5) p2(3) card_Diff1_le [of "set xs" a] by simp
  from push_spec [OF p2(2) live _ this, of ok] p2(2,3,5) obtain ok' p' where
    p': "timer_heap_push ok p2 a = Some (ok', p')" "timer_inv p'" "tfr (insert a (set xs)) p2 p'"
      "armed p' = insert a (set xs) \<or> (\<not> ok \<and> unat (timer_heap_cap p) = card (set xs - {a}) \<and> armed p' = set xs - {a})"
      "card (set xs - {a}) < unat (timer_heap_cap p) \<longrightarrow> timer_heap_cap p' = timer_heap_cap p"
    by (auto simp: insert_absorb idx_upd_tfr)
  have fr: "tfr (insert a (set xs)) p1 p'" using tfr_trans [OF tfr_mono [OF p2(4)] p'(3)] by blast
  have "ztk_poller_timer_insert_locked ok p a d = Some p'"
    unfolding ztk_poller_timer_insert_locked_def t option.case Let_def p1_def [symmetric] p2(1)
    using p'(1) by simp
  with p' fr tfrD(5) [OF fr] K1 xs(5) show ?thesis by auto
qed

interpretation tq: min_queue "timer_inv :: ('c, 'u, 'z) tpoller_scheme \<Rightarrow> bool" armed keyof timer_heap_pop_min
proof unfold_locales
  fix s :: "('c, 'u, 'z) tpoller_scheme"
  assume inv: "timer_inv s"
  show "finite (armed s)" using armed_card [OF inv] by simp
  show "timer_heap_pop_min s = Some (None, s)" if "armed s = {}" using pop_spec_empty [OF inv that] by simp
  show "\<exists>e s'. timer_heap_pop_min s = Some (Some e, s') \<and> e \<in> armed s \<and> (\<forall>x \<in> armed s. keyof s e \<le> keyof s x) \<and>
      timer_inv s' \<and> armed s' = armed s - {e} \<and> keyof s' = keyof s" if "armed s \<noteq> {}"
    using pop_spec [OF inv that] tfrD(5) by blast
qed

section \<open>Expired timers\<close>

text \<open>
  What a callback may do to the timers while it runs under the mutex: other threads may set the
  \<open>cancelled\<close> flag of a timer and allocate timers they have not armed yet; it does return.
\<close>

definition cb_frame :: "('c, 'u, 'z) tpoller_scheme \<Rightarrow> ('c, 'u, 'z) tpoller_scheme \<Rightarrow> bool" where
  "cb_frame p p' \<longleftrightarrow> timer_heap p' = timer_heap p \<and> timer_heap_count p' = timer_heap_count p \<and>
     timer_heap_cap p' = timer_heap_cap p \<and> timer_mtx p' = timer_mtx p \<and>
     (\<forall>a t. timers p a = Some t \<longrightarrow> (\<exists>c. timers p' a = Some (t\<lparr>cancelled := c\<rparr>))) \<and>
     (\<forall>a t. timers p a = None \<longrightarrow> timers p' a = Some t \<longrightarrow> heap_index t = ZTK_TIMER_HEAP_INDEX_NONE)"

definition cb_ok :: "u64 \<Rightarrow> ('c \<Rightarrow> ('c, 'u, 'z) tpoller_scheme \<Rightarrow> (u64 \<times> ('c, 'u, 'z) tpoller_scheme) option) \<Rightarrow> bool" where
  "cb_ok now cbs \<longleftrightarrow> (\<forall>c p. timer_inv p \<longrightarrow>
     (\<exists>n p'. cbs c p = Some (n, p') \<and> cb_frame p p' \<and> (0 < n \<longrightarrow> now < now + n)))"

lemma cb_frame_live:
  assumes "cb_frame p p'" and "timers p a \<noteq> None"
  shows "timers p' a \<noteq> None" and "keyof p' a = keyof p a" and "at_index p' a i = at_index p a i"
proof -
  obtain t where t: "timers p a = Some t" using assms(2) by auto
  then obtain c where "timers p' a = Some (t\<lparr>cancelled := c\<rparr>)" using assms(1) unfolding cb_frame_def by blast
  with t show "timers p' a \<noteq> None" "keyof p' a = keyof p a" "at_index p' a i = at_index p a i"
    by (simp_all add: keyof_def at_index_def)
qed

lemma cb_frame_refl: "cb_frame p p"
  unfolding cb_frame_def
proof (intro conjI allI impI)
  fix a t assume "timers p a = Some t"
  then have "timers p a = Some (t\<lparr>cancelled := cancelled t\<rparr>)" by simp
  then show "\<exists>c. timers p a = Some (t\<lparr>cancelled := c\<rparr>)" by (rule exI)
qed simp_all

lemma cb_frame_inv:
  assumes inv: "timer_inv p" and fr: "cb_frame p p'"
  shows "timer_inv p'" and "armed p' = armed p"
proof -
  obtain xs where xs: "arr_rep p xs" "heap_on (keyof p) xs" "length xs < 2 ^ 59" "loose p xs" "armed p = set xs"
    using inv by (rule timer_invE)
  note live = cb_frame_live [OF fr arr_live [OF xs(1)]]
  have rep: "arr_rep p' xs" using xs(1) live(3) fr by (simp add: arr_rep_def cb_frame_def)
  have "heap_on (keyof p') xs" by (rule heap_on_cong [OF _ xs(2)]) (simp add: live(2))
  moreover have "loose p' xs"
    unfolding loose_def
  proof (intro allI impI)
    fix a assume a: "a \<notin> set xs" "timers p' a \<noteq> None"
    show "at_index p' a ZTK_TIMER_HEAP_INDEX_NONE"
    proof (cases "timers p a")
      case None
      then show ?thesis using a(2) fr by (auto simp: cb_frame_def at_index_def)
    next
      case (Some t)
      then show ?thesis using xs(4) a(1) cb_frame_live(3) [OF fr, of a] by (simp add: loose_def)
    qed
  qed
  ultimately show inv': "timer_inv p'" using timer_invI [OF rep] xs(3) by blast
  show "armed p' = armed p" using armed_rep [OF inv' rep] xs(5) by simp
qed

text \<open>Timers that stay armed, with their deadlines.\<close>

definition kept :: "nat set \<Rightarrow> ('c, 'u, 'z) tpoller_scheme \<Rightarrow> ('c, 'u, 'z) tpoller_scheme \<Rightarrow> bool" where
  "kept A p p' \<longleftrightarrow> (\<forall>a \<in> A. a \<in> armed p' \<and> keyof p' a = keyof p a)"

lemma flush_step:
  assumes inv: "timer_inv p" and ne: "armed p \<noteq> {}" and due: "heap_key p 0 = Some k" "k \<le> now"
    and cbs: "cb_ok now cbs" and cap: "unat (timer_heap_count p) \<le> unat (timer_heap_cap p)"
  shows "\<exists>a p'. flush_loop cbs rok now (Suc n) p = flush_loop cbs rok now n p' \<and> timer_inv p' \<and>
     a \<in> armed p \<and> keyof p a \<le> now \<and> kept (armed p - {a}) p p' \<and> armed p' \<subseteq> armed p \<and>
     (a \<in> armed p' \<longrightarrow> now < keyof p' a)"
proof -
  obtain a p1 where p1: "timer_heap_pop_min p = Some (Some a, p1)" "a \<in> armed p" "heap_key p 0 = Some (keyof p a)"
      "timer_inv p1" "armed p1 = armed p - {a}" "tfr (armed p) p p1" "timer_heap_cap p1 = timer_heap_cap p"
    using pop_spec [OF inv ne] by blast
  have nz: "timer_heap_count p \<noteq> 0" using count_armed [OF inv] ne by simp
  have ka: "keyof p a \<le> now" and nlt: "\<not> now < k" using p1(3) due by auto
  have "timers p a \<noteq> None" using armed_live [OF inv p1(2)] .
  then obtain t where t: "timers p1 a = Some t" using tfrD(7) [OF p1(6), of a] by auto
  have out: "a \<notin> armed p1" using p1(5) by simp
  have K1: "keyof p1 = keyof p" by (rule tfrD(5) [OF p1(6)])
  have freed: "timer_inv (q\<lparr>timers := (timers q)(a := None)\<rparr>)" "armed (q\<lparr>timers := (timers q)(a := None)\<rparr>) = armed q"
      "\<And>b. b \<in> armed q \<Longrightarrow> keyof (q\<lparr>timers := (timers q)(a := None)\<rparr>) b = keyof q b"
    if q: "timer_inv q" "a \<notin> armed q" for q
  proof -
    let ?q = "q\<lparr>timers := (timers q)(a := None)\<rparr>"
    obtain xs where xs: "arr_rep q xs" "heap_on (keyof q) xs" "length xs < 2 ^ 59" "loose q xs" "armed q = set xs"
      using q(1) by (rule timer_invE)
    have nth: "xs ! i \<noteq> a" if "i < length xs" for i using that q(2) xs(5) by auto
    have rep: "arr_rep ?q xs" using xs(1) nth by (auto simp: arr_rep_def at_index_def)
    have k: "keyof ?q b = keyof q b" if "b \<in> set xs" for b using that q(2) xs(5) by (auto simp: keyof_def)
    have "heap_on (keyof ?q) xs" by (rule heap_on_cong [OF _ xs(2)]) (simp add: k)
    moreover have "loose ?q xs" using xs(4) by (auto simp: loose_def at_index_def)
    ultimately show inv': "timer_inv ?q" using timer_invI [OF rep] xs(3) by blast
    show "armed ?q = armed q" using armed_rep [OF inv' rep] xs(5) by simp
    show "\<And>b. b \<in> armed q \<Longrightarrow> keyof ?q b = keyof q b" using k xs(5) by simp
  qed
  show ?thesis
  proof (cases "cancelled t")
    case True
    let ?p' = "p1\<lparr>timers := (timers p1)(a := None)\<rparr>"
    have "flush_loop cbs rok now (Suc n) p = flush_loop cbs rok now n ?p'"
      using nz due(1) nlt p1(1) t True by (simp add: free_timer_def)
    then show ?thesis
      using freed [OF p1(4) out] p1(2,5) ka K1 by (intro exI [of _ a] exI [of _ ?p']) (auto simp: kept_def)
  next
    case False
    let ?r = "case cb t of None \<Rightarrow> Some (0, p1) | Some c \<Rightarrow> cbs c p1"
    have "\<exists>m p2. ?r = Some (m, p2) \<and> cb_frame p1 p2 \<and> (0 < m \<longrightarrow> now < now + m)"
    proof (cases "cb t")
      case None
      then show ?thesis by (simp add: cb_frame_refl)
    next
      case (Some c)
      then show ?thesis using cbs p1(4) by (simp add: cb_ok_def)
    qed
    then obtain m p2 where p2: "?r = Some (m, p2)" "cb_frame p1 p2" "0 < m \<longrightarrow> now < now + m" by blast
    note i2 = cb_frame_inv [OF p1(4) p2(2)]
    obtain t2 where t2: "timers p2 a = Some t2" using cb_frame_live(1) [OF p2(2), of a] t by auto
    have K2: "keyof p2 b = keyof p b" if "b \<in> armed p1" for b
      using cb_frame_live(2) [OF p2(2) armed_live [OF p1(4) that]] K1 by simp
    have out2: "a \<notin> armed p2" using i2(2) out by simp
    show ?thesis
    proof (cases "0 < m \<and> \<not> cancelled t2")
      case no: False
      let ?p' = "p2\<lparr>timers := (timers p2)(a := None)\<rparr>"
      have "flush_loop cbs rok now (Suc n) p = flush_loop cbs rok now n ?p'"
        using nz due(1) nlt p1(1) t t2 False no p2(1) by (auto simp: free_timer_def)
      then show ?thesis
        using freed [OF i2(1) out2] p1(2,5) ka K2 i2(2)
        by (intro exI [of _ a] exI [of _ ?p']) (auto simp: kept_def)
    next
      case yes: True
      have fin: "finite (armed p)" "card (armed p) = unat (timer_heap_count p)"
        using armed_card [OF inv] by auto
      have c: "card (armed p2) < card (armed p)"
        using i2(2) p1(2,5) card_Diff1_less [OF fin(1)] by metis
      have "card (armed p) < 2 ^ 59"
        using inv fin(2) by (auto elim!: timer_invE simp: arr_rep_def)
      then have room: "card (armed p2) + 1 < 2 ^ 59" using c by simp
      have cap2: "timer_heap_cap p2 = timer_heap_cap p" using p2(2) p1(7) by (simp add: cb_frame_def)
      have enough: "card (armed p2 - {a}) < unat (timer_heap_cap p2)"
        using c out2 cap fin(2) cap2 by simp
      obtain p3 where p3: "ztk_poller_timer_insert_locked rok p2 a (now + m) = Some p3" "timer_inv p3"
          "keyof p3 = (keyof p2)(a := now + m)" "armed p3 = insert a (armed p2)"
        using insert_spec [OF i2(1) t2 room, of rok "now + m"] enough by auto
      have "flush_loop cbs rok now (Suc n) p = flush_loop cbs rok now n p3"
        using nz due(1) nlt p1(1) t t2 False yes p2(1) p3(1) by simp
      then show ?thesis
        using p3 p1(2,5) ka K2 i2(2) out2 p2(3) yes
        by (intro exI [of _ a] exI [of _ p3]) (auto simp: kept_def)
    qed
  qed
qed

text \<open>The timers due at a time.\<close>

definition due_timers :: "u64 \<Rightarrow> ('c, 'u, 'z) tpoller_scheme \<Rightarrow> nat set" where
  "due_timers now p = {a \<in> armed p. keyof p a \<le> now}"

lemma flush_loop_correct:
  assumes "timer_inv p" and "cb_ok now cbs"
  shows "\<exists>p'. flush_loop cbs rok now n p = Some p' \<and> timer_inv p' \<and> armed p' \<subseteq> armed p \<and>
     kept (armed p - due_timers now p) p p' \<and>
     (card (due_timers now p) \<le> n \<longrightarrow> due_timers now p' = {})"
  using assms
proof (induction n arbitrary: p)
  case 0
  have "finite (due_timers now p)"
    using armed_card [OF 0(1)] by (auto simp: due_timers_def)
  with 0 show ?case by (auto simp: kept_def)
next
  case (Suc n)
  note inv = Suc.prems(1)
  have fin: "finite (armed p)" using armed_card [OF inv] by simp
  show ?case
  proof (cases "due_timers now p = {}")
    case True
    have "flush_loop cbs rok now (Suc n) p = Some p"
    proof (cases "armed p = {}")
      case True
      then show ?thesis using count_armed [OF inv] by simp
    next
      case False
      then obtain a where "a \<in> armed p" "heap_key p 0 = Some (keyof p a)" using pop_spec [OF inv] by blast
      with True show ?thesis by (auto simp: due_timers_def not_le)
    qed
    with inv True show ?thesis by (auto simp: kept_def)
  next
    case False
    then obtain b where b: "b \<in> armed p" "keyof p b \<le> now" by (auto simp: due_timers_def)
    then have ne: "armed p \<noteq> {}" by auto
    obtain c where c: "heap_key p 0 = Some (keyof p c)" "\<forall>b \<in> armed p. keyof p c \<le> keyof p b"
      using pop_spec [OF inv ne] by blast
    have cn: "keyof p c \<le> now" using c(2) b by (meson order_trans)
    have cap: "unat (timer_heap_count p) \<le> unat (timer_heap_cap p)"
      using inv by (auto elim!: timer_invE simp: arr_rep_def)
    obtain a p1 where p1: "flush_loop cbs rok now (Suc n) p = flush_loop cbs rok now n p1" "timer_inv p1"
        "a \<in> armed p" "keyof p a \<le> now" "kept (armed p - {a}) p p1" "armed p1 \<subseteq> armed p"
        "a \<in> armed p1 \<longrightarrow> now < keyof p1 a"
      using flush_step [OF inv ne c(1) cn Suc.prems(2) cap] by metis
    obtain p' where p': "flush_loop cbs rok now n p1 = Some p'" "timer_inv p'" "armed p' \<subseteq> armed p1"
        "kept (armed p1 - due_timers now p1) p1 p'" "card (due_timers now p1) \<le> n \<longrightarrow> due_timers now p' = {}"
      using Suc.IH [OF p1(2) Suc.prems(2)] by blast
    have due1: "due_timers now p1 = due_timers now p - {a}"
    proof -
      have k: "x \<in> armed p1 \<and> keyof p1 x = keyof p x" if "x \<in> armed p" "x \<noteq> a" for x
        using p1(5) that by (simp add: kept_def)
      have na: "\<not> (a \<in> armed p1 \<and> keyof p1 a \<le> now)" using p1(7) by (simp add: not_le)
      show ?thesis
      proof (rule set_eqI)
        fix x show "x \<in> due_timers now p1 \<longleftrightarrow> x \<in> due_timers now p - {a}"
          using k [of x] na p1(6) by (cases "x = a") (auto simp: due_timers_def)
      qed
    qed
    moreover have "a \<in> due_timers now p" "finite (due_timers now p)" using p1(3,4) fin by (auto simp: due_timers_def)
    ultimately have "card (due_timers now p1) = card (due_timers now p) - 1"
      by (simp add: card_Diff_singleton)
    then have "card (due_timers now p) \<le> Suc n \<longrightarrow> card (due_timers now p1) \<le> n" by arith
    moreover have "kept (armed p - due_timers now p) p p'"
      unfolding kept_def
    proof
      fix b assume b: "b \<in> armed p - due_timers now p"
      then have "b \<noteq> a" using p1(4) by (auto simp: due_timers_def)
      with b p1(5) have b1: "b \<in> armed p1" "keyof p1 b = keyof p b" by (auto simp: kept_def)
      with b due1 have "b \<in> armed p1 - due_timers now p1" by auto
      with p'(4) b1 show "b \<in> armed p' \<and> keyof p' b = keyof p b" by (auto simp: kept_def)
    qed
    ultimately show ?thesis using p1(1,6) p' by auto
  qed
qed

lemma heap_key_min:
  assumes inv: "timer_inv p" and ne: "armed p \<noteq> {}"
  shows "heap_key p 0 = Some (Min (keyof p ` armed p))"
proof -
  obtain a where a: "a \<in> armed p" "heap_key p 0 = Some (keyof p a)" "\<forall>b \<in> armed p. keyof p a \<le> keyof p b"
    using pop_spec [OF inv ne] by blast
  have "Min (keyof p ` armed p) = keyof p a"
    using a armed_card [OF inv] by (intro Min_eqI) auto
  with a(2) show ?thesis by simp
qed

lemma flush_correct:
  assumes "timer_inv p" and "cb_ok now cbs"
  shows "\<exists>r p'. flush_expired_timers cbs rok p now = Some (r, p') \<and> timer_inv p' \<and> armed p' \<subseteq> armed p \<and>
     (\<forall>a \<in> armed p. now < keyof p a \<longrightarrow> a \<in> armed p' \<and> keyof p' a = keyof p a) \<and>
     (card (due_timers now p) \<le> 256 \<longrightarrow> (\<forall>a \<in> armed p'. now < keyof p' a)) \<and>
     r = (if armed p' = {} then - 1
          else if now < Min (keyof p' ` armed p') then sint (Min (keyof p' ` armed p') - now) else 0)"
proof -
  obtain p' where p': "flush_loop cbs rok now 256 p = Some p'" "timer_inv p'" "armed p' \<subseteq> armed p"
      "kept (armed p - due_timers now p) p p'" "card (due_timers now p) \<le> 256 \<longrightarrow> due_timers now p' = {}"
    using flush_loop_correct [OF assms] by blast
  have "timer_heap_count p' = 0 \<longleftrightarrow> armed p' = {}" by (rule count_armed [OF p'(2)])
  then have "flush_expired_timers cbs rok p now =
      Some (if armed p' = {} then - 1
            else if now < Min (keyof p' ` armed p') then sint (Min (keyof p' ` armed p') - now) else 0, p')"
    using p'(1) heap_key_min [OF p'(2)] by (auto simp: flush_expired_timers_def ZTK_TIMER_FLUSH_MAX_def)
  moreover have "\<forall>a \<in> armed p. now < keyof p a \<longrightarrow> a \<in> armed p' \<and> keyof p' a = keyof p a"
    using p'(4) by (auto simp: kept_def due_timers_def not_le)
  moreover have "card (due_timers now p) \<le> 256 \<longrightarrow> (\<forall>a \<in> armed p'. now < keyof p' a)"
    using p'(5) by (auto simp: due_timers_def not_le)
  ultimately show ?thesis using p'(2,3) by blast
qed

section \<open>Requests from other threads\<close>

text \<open>
  What the requests queued by other threads do, abstractly: the armed timers and their deadlines, the
  allocated timers and the pending request contexts. The first component says that the concrete
  state satisfies the invariant.
\<close>

record tabs =
  ab_inv :: bool
  ab_armed :: "nat set"
  ab_key :: "nat \<Rightarrow> u64"
  ab_live :: "nat set"
  ab_ctxs :: "nat \<rightharpoonup> tctx"

definition tabs_of :: "('c, 'u, 'z) tpoller_scheme \<Rightarrow> tabs" where
  "tabs_of p = \<lparr>ab_inv = timer_inv p, ab_armed = armed p, ab_key = keyof p, ab_live = dom (timers p),
                ab_ctxs = ctxs p\<rparr>"

fun treq_effect :: "'u ttask \<Rightarrow> tabs \<Rightarrow> tabs" where
  "treq_effect (DelayInsert c) w =
     (case ab_ctxs w c of
        Some (InsertCtx a d) \<Rightarrow>
          w\<lparr>ab_armed := insert a (ab_armed w), ab_key := (ab_key w)(a := d), ab_ctxs := (ab_ctxs w)(c := None)\<rparr>
      | _ \<Rightarrow> w)"
| "treq_effect (TimerCancel c) w =
     (case ab_ctxs w c of
        Some (CancelCtx a) \<Rightarrow> w\<lparr>ab_armed := ab_armed w - {a}, ab_ctxs := (ab_ctxs w)(c := None)\<rparr>
      | _ \<Rightarrow> w)"
| "treq_effect (UserTask u) w = w"

fun treq_ctx :: "'u ttask \<Rightarrow> nat" where
  "treq_ctx (DelayInsert c) = c"
| "treq_ctx (TimerCancel c) = c"
| "treq_ctx (UserTask u) = 0"

fun treq_ok :: "tabs \<Rightarrow> 'u ttask \<Rightarrow> bool" where
  "treq_ok w (DelayInsert c) \<longleftrightarrow> (\<exists>a d. ab_ctxs w c = Some (InsertCtx a d) \<and> a \<in> ab_live w)"
| "treq_ok w (TimerCancel c) \<longleftrightarrow> (\<exists>a. ab_ctxs w c = Some (CancelCtx a) \<and> a \<in> ab_live w)"
| "treq_ok w (UserTask u) \<longleftrightarrow> False"

definition treqs_inv :: "'u ttask list \<Rightarrow> tabs \<Rightarrow> bool" where
  "treqs_inv ts w \<longleftrightarrow> ab_inv w \<and> finite (ab_armed w) \<and> card (ab_armed w) + length ts < 2 ^ 59 \<and>
     distinct (map treq_ctx ts) \<and> (\<forall>t \<in> set ts. treq_ok w t)"

lemma treq_ok_other:
  "treq_ctx t \<noteq> c \<Longrightarrow> treq_ok w t \<Longrightarrow>
   treq_ok (w\<lparr>ab_armed := A, ab_key := K, ab_ctxs := (ab_ctxs w)(c := None)\<rparr>) t"
  by (cases t) auto

lemma treqs_inv_step:
  assumes "treqs_inv (t # ts) w"
  shows "treqs_inv ts (treq_effect t w)"
proof -
  obtain A K where e: "treq_effect t w = w\<lparr>ab_armed := A, ab_key := K, ab_ctxs := (ab_ctxs w)(treq_ctx t := None)\<rparr>"
      "finite A" "card A \<le> card (ab_armed w) + 1"
  proof (cases t)
    case (DelayInsert c)
    then obtain a d where c: "ab_ctxs w c = Some (InsertCtx a d)" using assms by (auto simp: treqs_inv_def)
    show ?thesis
      using that [where A = "insert a (ab_armed w)" and K = "(ab_key w)(a := d)"] c DelayInsert assms
      by (simp add: treqs_inv_def card_insert_if)
  next
    case (TimerCancel c)
    then obtain a where c: "ab_ctxs w c = Some (CancelCtx a)" using assms by (auto simp: treqs_inv_def)
    have "card (ab_armed w - {a}) \<le> card (ab_armed w) + 1" by (meson card_Diff1_le le_add1 order_trans)
    then show ?thesis
      using that [where A = "ab_armed w - {a}" and K = "ab_key w"] c TimerCancel assms by (simp add: treqs_inv_def)
  qed (use assms in \<open>auto simp: treqs_inv_def\<close>)
  have "treq_ok (treq_effect t w) u" if "u \<in> set ts" for u
  proof -
    have "treq_ctx t \<notin> treq_ctx ` set ts" "treq_ok w u" using assms that by (auto simp: treqs_inv_def)
    moreover from this have "treq_ctx u \<noteq> treq_ctx t" using imageI [OF that, of treq_ctx] by auto
    ultimately show ?thesis unfolding e(1) by (simp add: treq_ok_other)
  qed
  with assms e show ?thesis by (auto simp: treqs_inv_def)
qed

lemma heap_cell_upd [simp]:
  "heap_cell (p\<lparr>ctxs := c\<rparr>) = heap_cell p" "heap_cell (p\<lparr>task_q := q\<rparr>) = heap_cell p"
  by (auto simp: heap_cell_def fun_eq_iff)

lemma timer_ctxs_upd [simp]:
  "timer_inv (p\<lparr>ctxs := c\<rparr>) = timer_inv p" "armed (p\<lparr>ctxs := c\<rparr>) = armed p" "keyof (p\<lparr>ctxs := c\<rparr>) = keyof p"
  "timer_inv (p\<lparr>task_q := q\<rparr>) = timer_inv p" "armed (p\<lparr>task_q := q\<rparr>) = armed p" "keyof (p\<lparr>task_q := q\<rparr>) = keyof p"
  by (simp_all add: timer_inv_def arr_rep_def at_index_def armed_def keyof_def [abs_def])

lemma dom_eqI: "(\<And>a. m a = None \<longleftrightarrow> m' a = None) \<Longrightarrow> dom m = dom m'"
  by (simp add: set_eq_iff domIff)

lemma run_treq:
  assumes w: "treqs_inv (t # ts) (tabs_of p)"
  shows "\<exists>p'. run_timer_task user True t p = Some p' \<and> tabs_of p' = treq_effect t (tabs_of p) \<and>
     task_q p' = task_q p \<and> task_mtx p' = task_mtx p"
proof -
  have inv: "timer_inv p" and room: "card (armed p) + 1 < 2 ^ 59" and ok: "treq_ok (tabs_of p) t"
    using w by (auto simp: treqs_inv_def tabs_of_def)
  show ?thesis
  proof (cases t)
    case (DelayInsert c)
    then obtain a d tm where c: "ctxs p c = Some (InsertCtx a d)" and tm: "timers p a = Some tm"
      using ok by (auto simp: tabs_of_def)
    let ?p1 = "p\<lparr>timers := (timers p)(a \<mapsto> tm\<lparr>deadline_ms := d\<rparr>)\<rparr>"
    obtain p' where p': "ztk_poller_timer_insert_locked True p a d = Some p'" "timer_inv p'"
        "keyof p' = (keyof p)(a := d)" "tfr (insert a (armed p)) ?p1 p'" "armed p' = insert a (armed p)"
      using insert_spec [OF inv tm room, of True d] by auto
    have "dom (timers p') = dom (timers ?p1)" by (rule dom_eqI) (rule tfrD(7) [OF p'(4)])
    then have "dom (timers p') = dom (timers p)" using tm by auto
    moreover have "ctxs p' = ctxs p" "task_q p' = task_q p" "task_mtx p' = task_mtx p"
      using tfrD(2-4) [OF p'(4)] by simp_all
    ultimately show ?thesis
      using DelayInsert c p' inv by (simp add: run_timer_task_def delay_insert_async_def free_ctx_def tabs_of_def)
  next
    case (TimerCancel c)
    then obtain a where c: "ctxs p c = Some (CancelCtx a)" and live: "timers p a \<noteq> None"
      using ok by (auto simp: tabs_of_def)
    let ?p1 = "p\<lparr>ctxs := (ctxs p)(c := None)\<rparr>"
    obtain p' where p': "timer_heap_remove ?p1 a = Some p'" "timer_inv p'" "armed p' = armed p - {a}"
        "tfr (armed p) ?p1 p'"
      using remove_spec [of ?p1 a] inv live by auto
    have "dom (timers p') = dom (timers ?p1)" by (rule dom_eqI) (rule tfrD(7) [OF p'(4)])
    then show ?thesis
      using TimerCancel c p' inv tfrD(2-5) [OF p'(4)]
      by (simp add: run_timer_task_def timer_cancel_async_def free_ctx_def tabs_of_def)
  qed (use ok in simp)
qed

interpretation treq: task_runner "run_timer_task user True" tabs_of treqs_inv
    "\<lambda>t (xs, w). (xs, treq_effect t w)"
  for user :: "'u \<Rightarrow> ('c, 'u, 'z) tpoller_scheme \<Rightarrow> ('c, 'u, 'z) tpoller_scheme option"
proof unfold_locales
  fix D and s :: "('c, 'u, 'z) tpoller_scheme" and xs and t :: "'u ttask" and ts
  assume rep: "tq_rep D s xs" and w: "treqs_inv (t # ts) (tabs_of s)"
  obtain s' where "run_timer_task user True t s = Some s'" "tabs_of s' = treq_effect t (tabs_of s)"
      "task_q s' = task_q s" "task_mtx s' = task_mtx s"
    using run_treq [OF w] by blast
  with rep show "\<exists>s'. run_timer_task user True t s = Some s' \<and>
      tq_rep D s' (fst (case (xs, tabs_of s) of (xs, w) \<Rightarrow> (xs, treq_effect t w))) \<and>
      tabs_of s' = snd (case (xs, tabs_of s) of (xs, w) \<Rightarrow> (xs, treq_effect t w)) \<and>
      same_nodes D s s' \<and> task_mtx s' = task_mtx s"
    by (auto simp: tq_rep_def same_nodes_def)
next
  fix t :: "'u ttask" and ts w xs
  assume "treqs_inv (t # ts) w"
  then show "treqs_inv ts (snd (case (xs, w) of (xs, w) \<Rightarrow> (xs, treq_effect t w)))"
    by (simp add: treqs_inv_step)
qed (simp add: tabs_of_def)

lemma fold_treq: "fold (\<lambda>t (xs, w). (xs, treq_effect t w)) ts (xs, w) = (xs, fold treq_effect ts w)"
  by (induction ts arbitrary: w) auto

section \<open>A concrete poller\<close>

definition tmr_at :: "u64 \<Rightarrow> size_t \<Rightarrow> nat tmr" where
  "tmr_at d i = \<lparr>cb = Some 0, cancelled = False, deadline_ms = d, heap_index = i\<rparr>"

definition tp2 :: "(nat, nat) tpoller" where
  "tp2 = \<lparr>task_mtx = True, task_q = lq_empty, owner_thread = 1, timer_mtx = True,
     timers = [1 \<mapsto> tmr_at 5 0, 2 \<mapsto> tmr_at 9 1], timer_heap = [Some 1, Some 2],
     timer_heap_count = 2, timer_heap_cap = 2, ctxs = Map.empty\<rparr>"

lemma tp2_inv: "timer_inv tp2" and tp2_armed: "armed tp2 = {1, 2}"
proof -
  have two: "i = 0 \<or> i = 1" if "i < Suc (Suc 0)" for i :: nat using that by auto
  have rep: "arr_rep tp2 [1, 2]"
    using two by (auto simp: arr_rep_def tp2_def at_index_def tmr_at_def less_Suc_eq)
  moreover have "heap_on (keyof tp2) [1, 2]"
    using two by (auto simp: heap_on_def tp2_def keyof_def tmr_at_def par_def less_Suc_eq)
  moreover have "loose tp2 [1, 2]" by (auto simp: loose_def tp2_def)
  ultimately show inv: "timer_inv tp2" by (intro timer_invI) auto
  show "armed tp2 = {1, 2}" using armed_rep [OF inv rep] by simp
qed

section \<open>Properties\<close>

text \<open>
  C11. The timer heap is a priority queue. From a state that satisfies the invariant, popping any
  number of times (up to the number of armed timers) has a defined outcome, keeps the invariant
  (heap order, back pointers, no timer twice) and yields the timers in order of deadline: the ones
  popped are due no later than any that stays armed, and no timer is lost or duplicated.
\<close>

theorem timer_heap_pops_sorted:
  assumes "timer_inv p" and "n \<le> card (armed p)"
  shows "\<exists>ts p'. pops timer_heap_pop_min n p = Some (ts, p') \<and> length ts = n \<and> sorted (map (keyof p) ts) \<and>
     distinct ts \<and> set ts \<subseteq> armed p \<and> armed p' = armed p - set ts \<and> timer_inv p' \<and>
     (\<forall>t \<in> set ts. \<forall>u \<in> armed p'. keyof p t \<le> keyof p u)"
  using tq.pops_sorted [OF assms] by blast

theorem timer_heap_pops_sorted_witness:
  "card (armed tp2) = 2 \<and> (\<exists>ts p'. pops timer_heap_pop_min 2 tp2 = Some (ts, p') \<and> length ts = 2 \<and>
     sorted (map (keyof tp2) ts) \<and> distinct ts \<and> set ts \<subseteq> armed tp2)"
proof -
  have c: "card (armed tp2) = 2" by (simp add: tp2_armed)
  then show ?thesis using timer_heap_pops_sorted [OF tp2_inv, of 2] by auto
qed

text \<open>
  Arming and removing. On a live timer, inserting with a deadline (re-arming it if it was armed)
  leaves the invariant, gives it that deadline, keeps every other deadline and arms it - unless the
  array is full and cannot grow, in which case the timer ends up unarmed and no error is reported.
  Removing it leaves exactly the others armed. Both always have a defined outcome.
\<close>

lemma timer_insert_remove:
  fixes ok :: bool and d :: u64
  assumes inv: "timer_inv p" and live: "timers p a \<noteq> None" and room: "card (armed p) + 1 < 2 ^ 59"
  shows "(\<exists>p'. ztk_poller_timer_insert_locked ok p a d = Some p' \<and> timer_inv p' \<and>
       keyof p' = (keyof p)(a := d) \<and>
       armed p' = (if \<not> ok \<and> unat (timer_heap_cap p) = card (armed p - {a}) \<and> a \<notin> armed p'
                   then armed p - {a} else insert a (armed p))) \<and>
     (\<exists>q. timer_heap_remove p a = Some q \<and> timer_inv q \<and> armed q = armed p - {a} \<and> keyof q = keyof p)"
proof -
  obtain t where t: "timers p a = Some t" using live by auto
  obtain p' where p': "ztk_poller_timer_insert_locked ok p a d = Some p'" "timer_inv p'"
      "keyof p' = (keyof p)(a := d)"
      "armed p' = insert a (armed p) \<or>
       (\<not> ok \<and> unat (timer_heap_cap p) = card (armed p - {a}) \<and> armed p' = armed p - {a})"
    using insert_spec [OF inv t room] by blast
  obtain q where "timer_heap_remove p a = Some q" "timer_inv q" "armed q = armed p - {a}" "tfr (armed p) p q"
    using remove_spec [OF inv live] by blast
  then show ?thesis using p' tfrD(5) by (auto simp: insert_absorb)
qed

text \<open>
  C8. Expired timers are served. Let the callbacks return, touch the timers only as other threads
  may (setting \<open>cancelled\<close>), and ask for a delay that does not wrap the clock. Then the flush returns,
  keeps the invariant, leaves every timer that was not due armed with its deadline, and - if at most
  256 timers were due - leaves no due timer behind. Its result is the time until the earliest
  deadline (as a signed 64-bit number), 0 if that is already due, -1 if no timer is armed.
\<close>

theorem flush_serves_due:
  assumes "timer_inv p" and "cb_ok now cbs"
  shows "\<exists>r p'. flush_expired_timers cbs rok p now = Some (r, p') \<and> timer_inv p' \<and> armed p' \<subseteq> armed p \<and>
     (\<forall>a \<in> armed p. now < keyof p a \<longrightarrow> a \<in> armed p' \<and> keyof p' a = keyof p a) \<and>
     (card (due_timers now p) \<le> 256 \<longrightarrow> (\<forall>a \<in> armed p'. now < keyof p' a)) \<and>
     r = (if armed p' = {} then - 1
          else if now < Min (keyof p' ` armed p') then sint (Min (keyof p' ` armed p') - now) else 0)"
  using flush_correct [OF assms] .

theorem flush_serves_due_witness:
  "\<exists>r p'. flush_expired_timers (\<lambda>c p. Some (0, p)) True tp2 7 = Some (r, p') \<and> timer_inv p' \<and>
     armed p' \<subseteq> {1, 2} \<and> 2 \<in> armed p' \<and> keyof p' 2 = 9"
proof -
  have ok: "cb_ok 7 (\<lambda>c p. Some (0, p))" by (simp add: cb_ok_def cb_frame_refl)
  have "keyof tp2 2 = 9" "2 \<in> armed tp2" by (simp_all add: tp2_armed) (simp add: tp2_def keyof_def tmr_at_def)
  with flush_serves_due [OF tp2_inv ok, of True] show ?thesis by (fastforce simp: tp2_armed)
qed

text \<open>
  C17. The wait never oversleeps. The timeout computed for the next wait is within the caller's
  request (when that is not negative), and no armed timer whose deadline is less than 2^63 ms away
  has its deadline before the wait ends. With no timer armed the request is returned unchanged.
\<close>

theorem resolve_timeout_bounds:
  assumes "timer_inv p" and "cb_ok now cbs" and "timer_mtx p" and "card (due_timers now p) \<le> 256"
  shows "\<exists>r p'. ztk_poller_resolve_timeout_ms cbs rok now (Some p) req = Some (r, Some p') \<and> timer_inv p' \<and>
     (0 \<le> req \<longrightarrow> 0 \<le> r \<and> r \<le> req) \<and> (armed p' = {} \<longrightarrow> r = req) \<and>
     (\<forall>a \<in> armed p'. unat (keyof p' a) - unat now < 2 ^ 63 \<longrightarrow>
        0 \<le> r \<and> int (unat now) + r \<le> int (unat (keyof p' a)))"
proof -
  obtain d p' where d: "flush_expired_timers cbs rok p now = Some (d, p')" "timer_inv p'"
      "\<forall>a \<in> armed p'. now < keyof p' a"
      "d = (if armed p' = {} then - 1
          else if now < Min (keyof p' ` armed p') then sint (Min (keyof p' ` armed p') - now) else 0)"
    using flush_correct [OF assms(1,2)] assms(4) by blast
  let ?m = "Min (keyof p' ` armed p')"
  have fin: "finite (armed p')" using armed_card [OF d(2)] by simp
  have key: "d = int (unat ?m) - int (unat now) \<and> 0 < d \<and> d \<le> int (unat (keyof p' a)) - int (unat now)"
    if a: "a \<in> armed p'" "unat (keyof p' a) - unat now < 2 ^ 63" for a
  proof -
    have le: "?m \<le> keyof p' a" using fin a(1) by simp
    have "?m \<in> keyof p' ` armed p'" using fin a(1) by (intro Min_in) auto
    then have lt: "now < ?m" using d(3) by auto
    have un: "unat (?m - now) = unat ?m - unat now" using lt by (subst unat_sub_size) (auto simp: word_less_nat_alt)
    have small: "unat (?m - now) < 2 ^ 63" using un le a(2) by (simp add: word_le_nat_alt)
    have "d = sint (?m - now)" using d(4) a(1) lt by auto
    then have "d = int (unat (?m - now))" using small by (simp add: sint_small)
    then show ?thesis using un lt [unfolded word_less_def] le [unfolded word_le_def] lt
      by (simp add: word_less_nat_alt)
  qed
  let ?r = "if d < 0 then req else if req < 0 then (if d > 0x7fffffff then 0x7fffffff else d)
            else if req = 0 then 0 else if d < req then d else req"
  have "ztk_poller_resolve_timeout_ms cbs rok now (Some p) req = Some (?r, Some p')"
    using assms(3) d(1) by (simp add: ztk_poller_resolve_timeout_ms_def)
  moreover have "0 \<le> ?r \<and> int (unat now) + ?r \<le> int (unat (keyof p' a))"
    if "a \<in> armed p'" "unat (keyof p' a) - unat now < 2 ^ 63" for a
    using key [OF that] by auto
  moreover have "armed p' = {} \<longrightarrow> ?r = req" using d(4) by simp
  ultimately show ?thesis using d(2) by (intro exI [of _ ?r] exI [of _ p']) auto
qed

theorem resolve_timeout_bounds_witness:
  "\<exists>r p'. ztk_poller_resolve_timeout_ms (\<lambda>c p. Some (0, p)) True 7 (Some tp2) 100 = Some (r, Some p') \<and>
     timer_inv p' \<and> 0 \<le> r \<and> r \<le> 100"
proof -
  have ok: "cb_ok 7 (\<lambda>c p. Some (0, p))" by (simp add: cb_ok_def cb_frame_refl)
  have "due_timers 7 tp2 \<subseteq> {1, 2}" by (auto simp: due_timers_def tp2_armed)
  then have "card (due_timers 7 tp2) \<le> 256" using card_mono [of "{1, 2 :: nat}" "due_timers 7 tp2"] by simp
  moreover have "timer_mtx tp2" by (simp add: tp2_def)
  ultimately show ?thesis using resolve_timeout_bounds [OF tp2_inv ok, of True 100] by auto
qed



text \<open>
  A failed wake leaves a request behind whose memory is gone. If \<^verbatim>\<open>do_delay\<close> is called from
  another thread, its allocations succeed and waking the poller reports an error, the call returns
  \<^verbatim>\<open>NULL\<close> having freed the timer and the context - but the request is at the front of the queue, and
  the next drain has no defined outcome: it reads the freed context.
\<close>

lemma do_delay_wake_failure:
  assumes "timer_mtx p" and "task_mtx p" and "owner_thread p \<noteq> self" and "wake \<noteq> ZTK_OK"
    and "timers p a = None" and "ctxs p c = None" and "nodes (task_q p) n = None"
  shows "\<exists>p'. ztk_poller_do_delay self now (Some a) (Some c) (Some n) rok wake (Some p) delay (Some f) =
       Some (None, Some p') \<and> timers p' = timers p \<and> ctxs p' = ctxs p \<and>
     ztk_poller_drain_tasks (run_timer_task user rok) (Some p') = None"
proof -
  let ?q = "lq_push_front n (DelayInsert c) (task_q p)"
  have fr: "calloc_node (Some n) (task_q p) = Some n" using assms(7) by (simp add: calloc_node_def)
  have tm: "(timers p)(a := None) = timers p" "(ctxs p)(c := None) = ctxs p"
    using assms(5,6) by (simp_all add: fun_upd_idem)
  have call: "ztk_poller_do_delay self now (Some a) (Some c) (Some n) rok wake (Some p) delay (Some f) =
      Some (None, Some (p\<lparr>task_q := ?q\<rparr>))"
    using assms(1-6) fr tm
    by (simp add: ztk_poller_do_delay_def fresh_or_null_def ztk_poller_async_first_def
        ztk_poller_async_impl_def Let_def free_ctx_def free_timer_def)
  have "ztk_poller_drain_tasks (run_timer_task user rok) (Some (p\<lparr>task_q := ?q\<rparr>)) = None"
    using assms(2,6)
    by (simp add: ztk_poller_drain_tasks_def drain_list.simps lq_push_front_def run_timer_task_def
        delay_insert_async_def)
  with call show ?thesis by simp
qed

text \<open>
  Cancelling on the poller's own thread disarms the timer at once and nothing else changes: the
  other timers stay armed with their deadlines. The timer object itself is not freed, and since it is
  no longer in the heap no later flush will free it.
\<close>

lemma timer_cancel_owner:
  assumes "timer_inv p" and "timer_mtx p" and "owner_thread p = self" and "self \<noteq> 0" and "timers p a \<noteq> None"
  shows "\<exists>p'. ztk_poller_timer_cancel self cmem nmem wake p (Some a) = Some p' \<and> timer_inv p' \<and>
     armed p' = armed p - {a} \<and> keyof p' = keyof p \<and> timers p' a \<noteq> None \<and> task_q p' = task_q p"
proof -
  obtain t where t: "timers p a = Some t" using assms(5) by auto
  let ?p1 = "p\<lparr>timers := (timers p)(a \<mapsto> t\<lparr>cancelled := True\<rparr>)\<rparr>"
  have "cb_frame p ?p1"
    unfolding cb_frame_def
  proof (intro conjI allI impI)
    fix b u assume b: "timers p b = Some u"
    have "timers ?p1 b = Some (u\<lparr>cancelled := (if b = a then True else cancelled u)\<rparr>)" using b t by auto
    then show "\<exists>c. timers ?p1 b = Some (u\<lparr>cancelled := c\<rparr>)" by (rule exI)
  qed (use t in \<open>auto split: if_splits\<close>)
  note i1 = cb_frame_inv [OF assms(1) this]
  have K: "keyof ?p1 = keyof p" using t by (auto simp: keyof_def fun_eq_iff)
  have live: "timers ?p1 a \<noteq> None" by simp
  obtain p' where p': "timer_heap_remove ?p1 a = Some p'" "timer_inv p'" "armed p' = armed ?p1 - {a}"
      "tfr (armed ?p1) ?p1 p'"
    using remove_spec [OF i1(1) live] by blast
  have "timers p' a \<noteq> None" using tfrD(7) [OF p'(4), of a] by simp
  with p' t assms i1 K tfrD(2,5) [OF p'(4)] show ?thesis
    by (simp add: ztk_poller_timer_cancel_def unlink_timer_def Let_def)
qed

end
