(* ===== verification/Buf.thy ===== *)
theory Buf
  imports Poller_Task
begin

text \<open>
  Reference-counted buffers and their size-class pools, \<^verbatim>\<open>src/util/buf.c\<close> and \<^verbatim>\<open>src/poller/poller_buf.c\<close>.
  The heap maps the address of an allocated block to its size and to what it currently holds: bytes
  of the caller, a node of a free list, a buffer header with its payload, or the argument of a
  deferred release. The outcomes of the coming \<^verbatim>\<open>malloc\<close>/\<^verbatim>\<open>calloc\<close> calls are the list \<open>avail\<close> of the heap
  (\<open>None\<close> is \<^verbatim>\<open>NULL\<close>; an address in use is no answer of an allocator and counts as \<^verbatim>\<open>NULL\<close>). Freeing,
  reading or writing a block that is not allocated, or beyond its size, has no defined outcome
  (\<open>None\<close>). Locks are not part of the state: each function runs as a whole.
\<close>

section \<open>State\<close>

record ztk_buf =
  refcnt :: "32 word"
  blen :: size_t
  bcap :: size_t
  bpool :: "nat option"
  pool_blk_cap :: size_t
  payload :: mem

record buf_defer =
  dpool :: "nat option"
  dptr :: "nat option"
  dcap :: size_t

datatype cell = Raw | FreeNode "nat option" | BufObj ztk_buf | Defer buf_defer

record ztk_buf_pool_stats =
  acquire_hit :: u64
  acquire_miss :: u64
  acquire_oversize :: u64
  release_cached :: u64
  release_dropped :: u64

record ztk_buf_pool =
  max_per_bucket :: u32
  thread_safe :: bool
  free_heads :: "nat option list"
  counts :: "u32 list"
  stats :: ztk_buf_pool_stats
  pmu :: bool
  powner :: "nat option"

text \<open>A poller as far as buffers see it: its task queue (of deferred releases) and its local pool.\<close>

record bpoller = "nat ptask" +
  buf_pool :: "nat option"

record bheap =
  blocks :: "nat \<rightharpoonup> nat \<times> cell"
  pools :: "nat \<rightharpoonup> ztk_buf_pool"
  pollers :: "nat \<rightharpoonup> bpoller"
  g_shared_pool :: "nat option"
  avail :: "nat option list"

definition no_stats :: ztk_buf_pool_stats where
  "no_stats = \<lparr>acquire_hit = 0, acquire_miss = 0, acquire_oversize = 0, release_cached = 0, release_dropped = 0\<rparr>"

definition hmalloc :: "nat \<Rightarrow> bheap \<Rightarrow> nat option \<times> bheap" where
  "hmalloc n h =
     (case avail h of [] \<Rightarrow> (None, h)
      | x # xs \<Rightarrow>
         (case x of
            Some a \<Rightarrow> if blocks h a = None
                      then (Some a, h\<lparr>avail := xs, blocks := (blocks h)(a \<mapsto> (n, Raw))\<rparr>)
                      else (None, h\<lparr>avail := xs\<rparr>)
          | None \<Rightarrow> (None, h\<lparr>avail := xs\<rparr>)))"

definition hfree :: "nat \<Rightarrow> bheap \<Rightarrow> bheap option" where
  "hfree a h = (if blocks h a = None then None else Some (h\<lparr>blocks := (blocks h)(a := None)\<rparr>))"

definition hwrite :: "nat \<Rightarrow> nat \<Rightarrow> cell \<Rightarrow> bheap \<Rightarrow> bheap option" where
  "hwrite a n c h =
     (case blocks h a of None \<Rightarrow> None
      | Some (sz, _) \<Rightarrow> if n \<le> sz then Some (h\<lparr>blocks := (blocks h)(a \<mapsto> (sz, c))\<rparr>) else None)"

section \<open>The pool\<close>

definition ZTK_BUF_BUCKET_COUNT :: nat where
  "ZTK_BUF_BUCKET_COUNT = 9"

definition k_bucket_caps :: "size_t list" where
  "k_bucket_caps = [512, 2048, 8192, 32768, 65536, 131072, 524288, 1048576, 2097152]"

definition ZTK_BUF_POOL_DEFAULT_MAX :: u32 where
  "ZTK_BUF_POOL_DEFAULT_MAX = 128"

text \<open>The loops over the table; \<open>None\<close> is the result -1.\<close>

fun first_fit :: "size_t \<Rightarrow> nat \<Rightarrow> size_t list \<Rightarrow> (nat \<times> size_t) option" where
  "first_fit sz i [] = None"
| "first_fit sz i (c # cs) = (if sz \<le> c then Some (i, c) else first_fit sz (i + 1) cs)"

definition bucket_index_for_size :: "size_t \<Rightarrow> (nat \<times> size_t) option" where
  "bucket_index_for_size sz = first_fit sz 0 k_bucket_caps"

fun exact_fit :: "size_t \<Rightarrow> nat \<Rightarrow> size_t list \<Rightarrow> nat option" where
  "exact_fit cap i [] = None"
| "exact_fit cap i (c # cs) = (if cap = c then Some i else exact_fit cap (i + 1) cs)"

definition bucket_index_exact_cap :: "size_t \<Rightarrow> nat option" where
  "bucket_index_exact_cap cap = exact_fit cap 0 k_bucket_caps"

definition upd_pool :: "nat \<Rightarrow> (ztk_buf_pool \<Rightarrow> ztk_buf_pool) \<Rightarrow> bheap \<Rightarrow> bheap" where
  "upd_pool pid f h = h\<lparr>pools := (pools h)(pid := map_option f (pools h pid))\<rparr>"

definition drop_stat :: "ztk_buf_pool \<Rightarrow> ztk_buf_pool" where
  "drop_stat P = P\<lparr>stats := (stats P)\<lparr>release_dropped := release_dropped (stats P) + 1\<rparr>\<rparr>"

definition pool_release_now :: "nat \<Rightarrow> nat \<Rightarrow> size_t \<Rightarrow> bheap \<Rightarrow> bheap option" where
  "pool_release_now pid ptr cap h =
     (case pools h pid of None \<Rightarrow> None
      | Some P \<Rightarrow>
        (case bucket_index_exact_cap cap of
           None \<Rightarrow> hfree ptr (upd_pool pid drop_stat h)
         | Some bi \<Rightarrow>
             if counts P ! bi < max_per_bucket P then
               Option.bind (hwrite ptr 8 (FreeNode (free_heads P ! bi)) h) (\<lambda>h1.
                 Some (upd_pool pid (\<lambda>P. P\<lparr>free_heads := (free_heads P)[bi := Some ptr],
                                         counts := (counts P)[bi := counts P ! bi + 1],
                                         stats := (stats P)\<lparr>release_cached := release_cached (stats P) + 1\<rparr>\<rparr>) h1))
             else hfree ptr (upd_pool pid drop_stat h)))"

text \<open>\<open>user\<close> is the address of the deferred release; \<^verbatim>\<open>NULL\<close> is not queued by this file.\<close>

definition pool_release_deferred :: "nat \<Rightarrow> bheap \<Rightarrow> bheap option" where
  "pool_release_deferred user h =
     (case blocks h user of
        Some (_, Defer d) \<Rightarrow>
          Option.bind (case (dpool d, dptr d) of
                         (Some pid, Some ptr) \<Rightarrow> pool_release_now pid ptr (dcap d) h
                       | _ \<Rightarrow> Some h)
            (hfree user)
      | _ \<Rightarrow> None)"

definition ztk_buf_pool_set_owner_poller :: "nat option \<Rightarrow> nat option \<Rightarrow> bheap \<Rightarrow> bheap option" where
  "ztk_buf_pool_set_owner_poller pool owner h =
     (case pool of None \<Rightarrow> Some h
      | Some pid \<Rightarrow> if pools h pid = None then None else Some (upd_pool pid (\<lambda>P. P\<lparr>powner := owner\<rparr>) h))"

text \<open>Options are an optional pair of bound and flag; the new pool object is at the fresh address \<open>pid\<close>.\<close>

definition ztk_buf_pool_create ::
    "nat option \<Rightarrow> bool \<Rightarrow> (u32 \<times> bool) option \<Rightarrow> bheap \<Rightarrow> nat option \<times> bheap" where
  "ztk_buf_pool_create mem mutex_ok opts h =
     (let maxb = (case opts of Some (m, _) \<Rightarrow> if m > 0 then m else ZTK_BUF_POOL_DEFAULT_MAX
                  | None \<Rightarrow> ZTK_BUF_POOL_DEFAULT_MAX);
          ts = (case opts of Some (_, t) \<Rightarrow> t | None \<Rightarrow> True)
      in case mem of None \<Rightarrow> (None, h)
         | Some pid \<Rightarrow>
             if pools h pid \<noteq> None \<or> (ts \<and> \<not> mutex_ok) then (None, h)
             else (Some pid, h\<lparr>pools := (pools h)(pid \<mapsto>
                     \<lparr>max_per_bucket = maxb, thread_safe = ts,
                      free_heads = replicate ZTK_BUF_BUCKET_COUNT None,
                      counts = replicate ZTK_BUF_BUCKET_COUNT 0, stats = no_stats, pmu = ts, powner = None\<rparr>)\<rparr>))"

text \<open>Freeing one list: read \<^verbatim>\<open>next\<close>, free the node.\<close>

partial_function (option) free_list :: "nat option \<Rightarrow> bheap \<Rightarrow> bheap option" where
  "free_list n h =
     (case n of None \<Rightarrow> Some h
      | Some a \<Rightarrow>
         (case blocks h a of
            Some (_, FreeNode next) \<Rightarrow> Option.bind (hfree a h) (free_list next)
          | _ \<Rightarrow> None))"

fun free_buckets :: "nat option list \<Rightarrow> bheap \<Rightarrow> bheap option" where
  "free_buckets [] h = Some h"
| "free_buckets (p # ps) h = Option.bind (free_list p h) (free_buckets ps)"

definition ztk_buf_pool_destroy :: "nat option \<Rightarrow> bheap \<Rightarrow> bheap option" where
  "ztk_buf_pool_destroy pool h =
     (case pool of None \<Rightarrow> Some h
      | Some pid \<Rightarrow>
         (case pools h pid of None \<Rightarrow> None
          | Some P \<Rightarrow> map_option (\<lambda>h. h\<lparr>pools := (pools h)(pid := None)\<rparr>) (free_buckets (free_heads P) h)))"

text \<open>
  The result is the block and the value written to \<^verbatim>\<open>*out_cap\<close> (\<open>None\<close>: not written). A block taken
  from a free list belongs to the caller again: what its bytes are no longer matters.
\<close>

definition ztk_buf_pool_acquire ::
    "nat option \<Rightarrow> size_t \<Rightarrow> bheap \<Rightarrow> ((nat option \<times> size_t option) \<times> bheap) option" where
  "ztk_buf_pool_acquire pool sz h =
     (case pool of None \<Rightarrow> Some ((None, None), h)
      | Some pid \<Rightarrow>
        if sz = 0 then Some ((None, None), h)
        else (case pools h pid of None \<Rightarrow> None
        | Some P \<Rightarrow>
          (case bucket_index_for_size sz of
             None \<Rightarrow>
               (let (p, h1) = hmalloc (unat sz) h in
                Some ((p, Some sz), upd_pool pid (\<lambda>P. P\<lparr>stats := (stats P)\<lparr>acquire_oversize := acquire_oversize (stats P) + 1\<rparr>\<rparr>) h1))
           | Some (bi, cap) \<Rightarrow>
               (case free_heads P ! bi of
                  Some n \<Rightarrow>
                    (case blocks h n of
                       Some (bs, FreeNode next) \<Rightarrow>
                         Some ((Some n, Some cap),
                           upd_pool pid (\<lambda>P. P\<lparr>free_heads := (free_heads P)[bi := next],
                                               counts := (counts P)[bi := counts P ! bi - 1],
                                               stats := (stats P)\<lparr>acquire_hit := acquire_hit (stats P) + 1\<rparr>\<rparr>)
                             (h\<lparr>blocks := (blocks h)(n \<mapsto> (bs, Raw))\<rparr>))
                     | _ \<Rightarrow> None)
                | None \<Rightarrow>
                    (let h1 = upd_pool pid (\<lambda>P. P\<lparr>stats := (stats P)\<lparr>acquire_miss := acquire_miss (stats P) + 1\<rparr>\<rparr>) h;
                         (p, h2) = hmalloc (unat cap) h1
                     in Some ((p, if p = None then None else Some cap), h2))))))"

text \<open>\<open>self\<close> is the calling thread, \<open>wake\<close> the result of waking the owner.\<close>

definition ztk_buf_pool_release ::
    "u64 \<Rightarrow> ztk_err \<Rightarrow> nat option \<Rightarrow> nat option \<Rightarrow> size_t \<Rightarrow> bheap \<Rightarrow> bheap option" where
  "ztk_buf_pool_release self wake pool ptr cap h =
     (case (pool, ptr) of
        (Some pid, Some p) \<Rightarrow>
         (case pools h pid of None \<Rightarrow> None
          | Some P \<Rightarrow>
             if \<not> thread_safe P \<and> powner P \<noteq> None \<and>
                \<not> ztk_poller_is_current_thread self (pollers h (the (powner P)))
             then (case hmalloc 24 h of
                     (None, h1) \<Rightarrow> hfree p h1
                   | (Some d, h1) \<Rightarrow>
                       Option.bind (hwrite d 24 (Defer \<lparr>dpool = Some pid, dptr = Some p, dcap = cap\<rparr>) h1) (\<lambda>h2.
                       let (nmem, h3) = (case avail h2 of [] \<Rightarrow> (None, h2) | x # xs \<Rightarrow> (x, h2\<lparr>avail := xs\<rparr>)) in
                       (case ztk_poller_async (\<lambda>_ _. None) self nmem wake (pollers h3 (the (powner P))) (Some d) False of
                          Some (err, q) \<Rightarrow>
                            (let h4 = h3\<lparr>pollers := (pollers h3)(the (powner P) := q)\<rparr> in
                             if err \<noteq> ZTK_OK then Option.bind (hfree p h4) (hfree d) else Some h4)
                        | None \<Rightarrow> None)))
             else pool_release_now pid p cap h)
      | _ \<Rightarrow> Some h)"

definition ztk_buf_pool_get_stats :: "nat option \<Rightarrow> bheap \<Rightarrow> ztk_buf_pool_stats" where
  "ztk_buf_pool_get_stats pool h =
     (case pool of None \<Rightarrow> no_stats
      | Some pid \<Rightarrow> (case pools h pid of None \<Rightarrow> no_stats | Some P \<Rightarrow> stats P))"

definition ztk_buf_pool_reset_stats :: "nat option \<Rightarrow> bheap \<Rightarrow> bheap" where
  "ztk_buf_pool_reset_stats pool h =
     (case pool of None \<Rightarrow> h | Some pid \<Rightarrow> upd_pool pid (\<lambda>P. P\<lparr>stats := no_stats\<rparr>) h)"

definition ztk_buf_pool_bucket_counts :: "nat option \<Rightarrow> bool \<Rightarrow> int \<Rightarrow> bheap \<Rightarrow> int \<times> u32 list" where
  "ztk_buf_pool_bucket_counts pool out_counts max_buckets h =
     (case pool of None \<Rightarrow> (0, [])
      | Some pid \<Rightarrow>
         (case pools h pid of None \<Rightarrow> (0, [])
          | Some P \<Rightarrow>
             if \<not> out_counts \<or> max_buckets \<le> 0 then (0, [])
             else let n = (if max_buckets < int ZTK_BUF_BUCKET_COUNT then max_buckets else int ZTK_BUF_BUCKET_COUNT)
                  in (n, take (nat n) (counts P))))"

section \<open>Pools of pollers\<close>

definition ztk_poller_attach_buf_pool :: "nat option \<Rightarrow> nat option \<Rightarrow> bheap \<Rightarrow> bheap option" where
  "ztk_poller_attach_buf_pool poller pool h =
     (case poller of None \<Rightarrow> Some h
      | Some q \<Rightarrow>
         (case pollers h q of None \<Rightarrow> None
          | Some p \<Rightarrow>
              Option.bind (if buf_pool p \<noteq> None \<and> buf_pool p \<noteq> pool
                           then ztk_buf_pool_set_owner_poller (buf_pool p) None h else Some h) (\<lambda>h1.
              let h2 = h1\<lparr>pollers := (pollers h1)(q \<mapsto> p\<lparr>buf_pool := pool\<rparr>)\<rparr> in
              if pool \<noteq> None then ztk_buf_pool_set_owner_poller pool (Some q) h2 else Some h2)))"

definition ztk_poller_buf_pool :: "nat option \<Rightarrow> bheap \<Rightarrow> nat option" where
  "ztk_poller_buf_pool poller h =
     (case poller of None \<Rightarrow> None
      | Some q \<Rightarrow> (case pollers h q of None \<Rightarrow> None | Some p \<Rightarrow> buf_pool p))"

section \<open>Buffers\<close>

text \<open>\<^verbatim>\<open>sizeof(ztk_buf)\<close> and \<^verbatim>\<open>offsetof(ztk_buf, data)\<close> on a 64-bit target.\<close>

definition buf_hdr :: size_t where
  "buf_hdr = 40"

definition init_buf :: "nat \<Rightarrow> size_t \<Rightarrow> nat option \<Rightarrow> size_t \<Rightarrow> bheap \<Rightarrow> bheap option" where
  "init_buf a cap pool blk h =
     (case blocks h a of None \<Rightarrow> None
      | Some (sz, _) \<Rightarrow>
          hwrite a (unat buf_hdr)
            (BufObj \<lparr>refcnt = 1, blen = 0, bcap = cap, bpool = pool, pool_blk_cap = blk,
                     payload = mem_malloc (sz - unat buf_hdr)\<rparr>) h)"

definition buf_create_malloc :: "size_t \<Rightarrow> bheap \<Rightarrow> (nat option \<times> bheap) option" where
  "buf_create_malloc cap h =
     (case hmalloc (unat (buf_hdr + cap)) h of
        (None, h1) \<Rightarrow> Some (None, h1)
      | (Some a, h1) \<Rightarrow> map_option (Pair (Some a)) (init_buf a cap None 0 h1))"

definition buf_create_from_pool :: "nat option \<Rightarrow> size_t \<Rightarrow> bheap \<Rightarrow> (nat option \<times> bheap) option" where
  "buf_create_from_pool pool cap h =
     (if pool = None then buf_create_malloc cap h
      else case ztk_buf_pool_acquire pool (buf_hdr + cap) h of
        None \<Rightarrow> None
      | Some ((None, _), h1) \<Rightarrow> buf_create_malloc cap h1
      | Some ((Some a, out), h1) \<Rightarrow>
          let blk = (case out of None \<Rightarrow> 0 | Some c \<Rightarrow> c) in
          map_option (Pair (Some a))
            (init_buf a (if blk > buf_hdr then blk - buf_hdr else cap) pool blk h1))"

definition ztk_buf_set_shared_pool :: "nat option \<Rightarrow> bheap \<Rightarrow> bheap" where
  "ztk_buf_set_shared_pool pool h = h\<lparr>g_shared_pool := pool\<rparr>"

definition ztk_buf_alloc :: "size_t \<Rightarrow> bheap \<Rightarrow> (nat option \<times> bheap) option" where
  "ztk_buf_alloc cap h = (if cap = 0 then Some (None, h) else buf_create_from_pool (g_shared_pool h) cap h)"

definition ztk_buf_alloc_local :: "nat option \<Rightarrow> size_t \<Rightarrow> bheap \<Rightarrow> (nat option \<times> bheap) option" where
  "ztk_buf_alloc_local poller cap h =
     (if cap = 0 then Some (None, h)
      else let local = ztk_poller_buf_pool poller h in
        if local \<noteq> None then buf_create_from_pool local cap h else ztk_buf_alloc cap h)"

definition buf_at :: "nat \<Rightarrow> bheap \<Rightarrow> ztk_buf option" where
  "buf_at a h = (case blocks h a of Some (_, BufObj b) \<Rightarrow> Some b | _ \<Rightarrow> None)"

definition set_buf :: "nat \<Rightarrow> ztk_buf \<Rightarrow> bheap \<Rightarrow> bheap" where
  "set_buf a b h = h\<lparr>blocks := (blocks h)(a := map_option (\<lambda>(sz, _). (sz, BufObj b)) (blocks h a))\<rparr>"

definition ztk_buf_ref :: "nat option \<Rightarrow> bheap \<Rightarrow> (nat option \<times> bheap) option" where
  "ztk_buf_ref b h =
     (case b of None \<Rightarrow> Some (None, h)
      | Some a \<Rightarrow> (case buf_at a h of None \<Rightarrow> None
                   | Some ob \<Rightarrow> Some (b, set_buf a (ob\<lparr>refcnt := refcnt ob + 1\<rparr>) h)))"

text \<open>The compare-and-swap loop, with no other thread in between: it succeeds the first time.\<close>

definition ztk_buf_try_ref :: "nat option \<Rightarrow> bheap \<Rightarrow> (nat option \<times> bheap) option" where
  "ztk_buf_try_ref b h =
     (case b of None \<Rightarrow> Some (None, h)
      | Some a \<Rightarrow> (case buf_at a h of None \<Rightarrow> None
                   | Some ob \<Rightarrow> if sint (refcnt ob) \<le> 0 then Some (None, h)
                               else Some (b, set_buf a (ob\<lparr>refcnt := refcnt ob + 1\<rparr>) h)))"

definition ztk_buf_unref :: "u64 \<Rightarrow> ztk_err \<Rightarrow> nat option \<Rightarrow> bheap \<Rightarrow> bheap option" where
  "ztk_buf_unref self wake b h =
     (case b of None \<Rightarrow> Some h
      | Some a \<Rightarrow>
         (case buf_at a h of None \<Rightarrow> None
          | Some ob \<Rightarrow>
             let h1 = set_buf a (ob\<lparr>refcnt := refcnt ob - 1\<rparr>) h in
             if refcnt ob = 1
             then (if bpool ob \<noteq> None then ztk_buf_pool_release self wake (bpool ob) b (pool_blk_cap ob) h1
                   else hfree a h1)
             else Some h1))"

definition ztk_buf_len :: "nat option \<Rightarrow> bheap \<Rightarrow> size_t option" where
  "ztk_buf_len b h = (case b of None \<Rightarrow> Some 0 | Some a \<Rightarrow> map_option blen (buf_at a h))"

definition ztk_buf_cap :: "nat option \<Rightarrow> bheap \<Rightarrow> size_t option" where
  "ztk_buf_cap b h = (case b of None \<Rightarrow> Some 0 | Some a \<Rightarrow> map_option bcap (buf_at a h))"

definition ztk_buf_refcnt :: "nat option \<Rightarrow> bheap \<Rightarrow> int option" where
  "ztk_buf_refcnt b h = (case b of None \<Rightarrow> Some 0 | Some a \<Rightarrow> map_option (\<lambda>ob. sint (refcnt ob)) (buf_at a h))"

definition ztk_buf_data :: "nat option \<Rightarrow> bheap \<Rightarrow> mem option" where
  "ztk_buf_data b h = (case b of None \<Rightarrow> Some [] | Some a \<Rightarrow> map_option payload (buf_at a h))"

definition ztk_buf_set_len :: "nat option \<Rightarrow> size_t \<Rightarrow> bheap \<Rightarrow> bheap option" where
  "ztk_buf_set_len b len h =
     (case b of None \<Rightarrow> Some h
      | Some a \<Rightarrow> (case buf_at a h of None \<Rightarrow> None
                   | Some ob \<Rightarrow> Some (if len > bcap ob then h else set_buf a (ob\<lparr>blen := len\<rparr>) h)))"

section \<open>Invariant\<close>

text \<open>A free list from a pointer: nodes \<open>ns\<close>, all of the size of the bucket.\<close>

fun flist :: "(nat \<rightharpoonup> nat \<times> cell) \<Rightarrow> nat \<Rightarrow> nat option \<Rightarrow> nat list \<Rightarrow> bool" where
  "flist B sz p [] \<longleftrightarrow> p = None"
| "flist B sz p (a # ns) \<longleftrightarrow> p = Some a \<and> (\<exists>n. B a = Some (sz, FreeNode n) \<and> flist B sz n ns)"

definition bucket_ok :: "(nat \<rightharpoonup> nat \<times> cell) \<Rightarrow> ztk_buf_pool \<Rightarrow> nat \<Rightarrow> nat list \<Rightarrow> bool" where
  "bucket_ok B P bi ns \<longleftrightarrow> flist B (unat (k_bucket_caps ! bi)) (free_heads P ! bi) ns \<and> distinct ns \<and>
     length ns = unat (counts P ! bi) \<and> counts P ! bi \<le> max_per_bucket P"

definition pool_ok :: "(nat \<rightharpoonup> nat \<times> cell) \<Rightarrow> ztk_buf_pool \<Rightarrow> (nat \<Rightarrow> nat list) \<Rightarrow> bool" where
  "pool_ok B P fp \<longleftrightarrow> length (free_heads P) = 9 \<and> length (counts P) = 9 \<and> (\<forall>bi < 9. bucket_ok B P bi (fp bi))"

text \<open>
  \<open>fl pid bi\<close> are the nodes cached by bucket \<open>bi\<close> of pool \<open>pid\<close>. No block is cached twice.
\<close>

definition heap_ok :: "bheap \<Rightarrow> (nat \<Rightarrow> nat \<Rightarrow> nat list) \<Rightarrow> bool" where
  "heap_ok h fl \<longleftrightarrow>
     (\<forall>pid P. pools h pid = Some P \<longrightarrow> pool_ok (blocks h) P (fl pid)) \<and>
     (\<forall>pid bi. pools h pid = None \<longrightarrow> fl pid bi = []) \<and>
     (\<forall>pid bi pid' bi' a. bi < 9 \<longrightarrow> bi' < 9 \<longrightarrow> a \<in> set (fl pid bi) \<longrightarrow> a \<in> set (fl pid' bi') \<longrightarrow>
        pid = pid' \<and> bi = bi')"

lemma flist_upd_other [simp]: "a \<notin> set ns \<Longrightarrow> flist (B(a := v)) sz p ns = flist B sz p ns"
  by (induction B sz p ns rule: flist.induct) auto

lemma flist_node: "flist B sz p ns \<Longrightarrow> a \<in> set ns \<Longrightarrow> \<exists>n. B a = Some (sz, FreeNode n)"
  by (induction B sz p ns rule: flist.induct) auto

lemma heap_okD:
  assumes "heap_ok h fl"
  shows "pools h pid = Some P \<Longrightarrow> pool_ok (blocks h) P (fl pid)"
    and "bi < 9 \<Longrightarrow> bi' < 9 \<Longrightarrow> a \<in> set (fl pid bi) \<Longrightarrow> a \<in> set (fl pid' bi') \<Longrightarrow> pid = pid' \<and> bi = bi'"
    and "pools h pid = None \<Longrightarrow> fl pid bi = []"
  using assms unfolding heap_ok_def by blast+

lemma heap_okI:
  assumes "\<And>pid P. pools h pid = Some P \<Longrightarrow> pool_ok (blocks h) P (fl pid)"
    and "\<And>pid bi. pools h pid = None \<Longrightarrow> fl pid bi = []"
    and "\<And>pid bi pid' bi' a. bi < 9 \<Longrightarrow> bi' < 9 \<Longrightarrow> a \<in> set (fl pid bi) \<Longrightarrow> a \<in> set (fl pid' bi') \<Longrightarrow>
      pid = pid' \<and> bi = bi'"
  shows "heap_ok h fl"
  unfolding heap_ok_def using assms by blast

lemma cached_node:
  assumes "heap_ok h fl" and "bi < 9" and "a \<in> set (fl pid bi)"
  shows "\<exists>n. blocks h a = Some (unat (k_bucket_caps ! bi), FreeNode n)"
proof (cases "pools h pid")
  case None
  then show ?thesis using heap_okD(3) [OF assms(1)] assms(3) by simp
next
  case (Some P)
  then show ?thesis
    using heap_okD(1) [OF assms(1) Some] assms(2,3) flist_node by (fastforce simp: pool_ok_def bucket_ok_def)
qed

text \<open>Changing a block that no list caches keeps the invariant, whatever happens to it.\<close>

definition uncached :: "(nat \<Rightarrow> nat \<Rightarrow> nat list) \<Rightarrow> nat \<Rightarrow> bool" where
  "uncached fl a \<longleftrightarrow> (\<forall>pid bi. bi < 9 \<longrightarrow> a \<notin> set (fl pid bi))"

lemma uncachedI: "heap_ok h fl \<Longrightarrow> \<not> (\<exists>sz n. blocks h a = Some (sz, FreeNode n)) \<Longrightarrow> uncached fl a"
  unfolding uncached_def using cached_node by blast

lemma bucket_ok_upd: "a \<notin> set ns \<Longrightarrow> bucket_ok (B(a := v)) P bi ns = bucket_ok B P bi ns"
  by (simp add: bucket_ok_def)

lemma pool_ok_upd: "(\<And>bi. bi < 9 \<Longrightarrow> a \<notin> set (fp bi)) \<Longrightarrow> pool_ok (B(a := v)) P fp = pool_ok B P fp"
  by (simp add: pool_ok_def bucket_ok_upd)

lemma heap_ok_block:
  assumes "heap_ok h fl" and "uncached fl a"
  shows "heap_ok (h\<lparr>blocks := (blocks h)(a := v)\<rparr>) fl"
proof -
  have "pool_ok ((blocks h)(a := v)) P (fl pid) = pool_ok (blocks h) P (fl pid)" for P pid
    using assms(2) by (intro pool_ok_upd) (simp add: uncached_def)
  with assms(1) show ?thesis by (simp add: heap_ok_def)
qed

lemma heap_ok_same:
  assumes "heap_ok h fl" and "blocks h' = blocks h" and "pools h' = pools h"
  shows "heap_ok h' fl"
  using assms unfolding heap_ok_def by simp

text \<open>Statistics and owner of a pool do not matter.\<close>

lemma heap_ok_pool_meta:
  assumes "heap_ok h fl"
    and "\<And>P. free_heads (f P) = free_heads P" "\<And>P. counts (f P) = counts P" "\<And>P. max_per_bucket (f P) = max_per_bucket P"
  shows "heap_ok (upd_pool pid f h) fl"
proof -
  have "pool_ok B (f P) fp = pool_ok B P fp" for B P fp
    using assms(2-4) by (simp add: pool_ok_def bucket_ok_def)
  with assms(1) show ?thesis
    unfolding heap_ok_def upd_pool_def by (auto split: if_splits)
qed

lemma upd_pool_simps [simp]:
  "blocks (upd_pool pid f h) = blocks h" "pollers (upd_pool pid f h) = pollers h" "avail (upd_pool pid f h) = avail h"
  "pools (upd_pool pid f h) q = (if q = pid then map_option f (pools h pid) else pools h q)"
  "g_shared_pool (upd_pool pid f h) = g_shared_pool h"
  by (simp_all add: upd_pool_def)

lemma hmalloc_cases:
  obtains (null) h' where "hmalloc n h = (None, h')" "blocks h' = blocks h" "pools h' = pools h" "pollers h' = pollers h"
      "g_shared_pool h' = g_shared_pool h"
  | (got) a h' where "hmalloc n h = (Some a, h')" "blocks h a = None" "blocks h' = (blocks h)(a \<mapsto> (n, Raw))"
      "pools h' = pools h" "pollers h' = pollers h" "g_shared_pool h' = g_shared_pool h"
proof (cases "avail h")
  case Nil
  then show ?thesis using null [of h] by (simp add: hmalloc_def)
next
  case (Cons x xs)
  show ?thesis
  proof (cases "\<exists>a. x = Some a \<and> blocks h a = None")
    case True
    then obtain a where a: "x = Some a" "blocks h a = None" by blast
    show ?thesis
      by (rule got [of a "h\<lparr>avail := xs, blocks := (blocks h)(a \<mapsto> (n, Raw))\<rparr>"]) (use Cons a in \<open>simp_all add: hmalloc_def\<close>)
  next
    case False
    then have "hmalloc n h = (None, h\<lparr>avail := xs\<rparr>)"
      using Cons by (cases x) (auto simp: hmalloc_def)
    then show ?thesis by (rule null) simp_all
  qed
qed

section \<open>Size classes\<close>

lemma caps9: "length k_bucket_caps = 9"
  by (simp add: k_bucket_caps_def)

lemma first_fit_sound: "first_fit sz i cs = Some (j, c) \<Longrightarrow> i \<le> j \<and> j < i + length cs \<and> cs ! (j - i) = c \<and> sz \<le> c"
  by (induction sz i cs rule: first_fit.induct) (auto split: if_splits simp: Suc_diff_le nth_Cons')

lemma bucket_for_size: "bucket_index_for_size sz = Some (bi, c) \<Longrightarrow> bi < 9 \<and> k_bucket_caps ! bi = c \<and> sz \<le> c"
  using first_fit_sound [of sz 0 k_bucket_caps bi c] by (simp add: bucket_index_for_size_def caps9)

lemma exact_fit_sound: "exact_fit c i cs = Some j \<Longrightarrow> i \<le> j \<and> j < i + length cs \<and> cs ! (j - i) = c"
  by (induction c i cs rule: exact_fit.induct) (auto split: if_splits simp: Suc_diff_le nth_Cons')

lemma bucket_exact: "bucket_index_exact_cap c = Some bi \<Longrightarrow> bi < 9 \<and> k_bucket_caps ! bi = c"
  using exact_fit_sound [of c 0 k_bucket_caps bi] by (simp add: bucket_index_exact_cap_def caps9)

lemma caps_large: "bi < 9 \<Longrightarrow> 8 \<le> unat (k_bucket_caps ! bi)"
proof -
  have "\<forall>c \<in> set k_bucket_caps. 8 \<le> unat c" by (simp add: k_bucket_caps_def)
  then show "bi < 9 \<Longrightarrow> 8 \<le> unat (k_bucket_caps ! bi)" using caps9 by (metis nth_mem)
qed

lemma caps_inj: "bi < 9 \<Longrightarrow> bj < 9 \<Longrightarrow> k_bucket_caps ! bi = k_bucket_caps ! bj \<Longrightarrow> bi = bj"
proof -
  have "distinct k_bucket_caps" by (simp add: k_bucket_caps_def)
  then show "bi < 9 \<Longrightarrow> bj < 9 \<Longrightarrow> k_bucket_caps ! bi = k_bucket_caps ! bj \<Longrightarrow> bi = bj"
    by (simp add: nth_eq_iff_index_eq caps9)
qed

section \<open>Acquire and release keep the invariant\<close>

lemma heap_ok_hmalloc:
  assumes "heap_ok h fl" and "hmalloc n h = (r, h')"
  shows "heap_ok h' fl"
proof (cases rule: hmalloc_cases [of n h])
  case (null h1)
  then show ?thesis using assms heap_ok_same [OF assms(1)] by simp
next
  case (got a h1)
  have "uncached fl a" by (rule uncachedI [OF assms(1)]) (simp add: got(2))
  from heap_ok_block [OF assms(1) this] heap_ok_same got assms(2) show ?thesis by fastforce
qed

text \<open>The list operations of one bucket.\<close>

lemma heap_ok_cache:
  assumes ok: "heap_ok h fl" and P: "pools h pid = Some P" and bi: "bi < 9"
    and a: "blocks h a = Some (unat (k_bucket_caps ! bi), c)" "uncached fl a"
    and room: "counts P ! bi < max_per_bucket P"
  shows "heap_ok (h\<lparr>blocks := (blocks h)(a \<mapsto> (unat (k_bucket_caps ! bi), FreeNode (free_heads P ! bi))),
                    pools := (pools h)(pid \<mapsto> P\<lparr>free_heads := (free_heads P)[bi := Some a],
                                                 counts := (counts P)[bi := counts P ! bi + 1], stats := st\<rparr>)\<rparr>)
     (fl(pid := (fl pid)(bi := a # fl pid bi)))"
    (is "heap_ok ?h ?fl")
proof -
  let ?P = "P\<lparr>free_heads := (free_heads P)[bi := Some a], counts := (counts P)[bi := counts P ! bi + 1], stats := st\<rparr>"
  let ?B = "(blocks h)(a \<mapsto> (unat (k_bucket_caps ! bi), FreeNode (free_heads P ! bi)))"
  have pok: "pool_ok (blocks h) P (fl pid)" by (rule heap_okD(1) [OF ok P])
  have un: "a \<notin> set (fl q bj)" if "bj < 9" for q bj using a(2) that by (simp add: uncached_def)
  have cnt: "unat (counts P ! bi + 1) = unat (counts P ! bi) + 1"
    using room unsigned_less [of "max_per_bucket P", where ?'a = nat]
    by (simp add: unat_word_ariths word_less_nat_alt)
  have "bucket_ok ?B ?P bi (a # fl pid bi)"
    using pok bi un [OF bi] cnt room by (auto simp: pool_ok_def bucket_ok_def word_le_nat_alt word_less_nat_alt)
  moreover have "bucket_ok ?B ?P bj (fl pid bj)" if "bj < 9" "bj \<noteq> bi" for bj
    using pok that un [OF that(1)] by (simp add: pool_ok_def bucket_ok_def)
  ultimately have "pool_ok ?B ?P (?fl pid)" using pok by (simp add: pool_ok_def)
  moreover have "pool_ok ?B Q (fl q)" if "pools h q = Some Q" for q Q
    using heap_okD(1) [OF ok that] un by (subst pool_ok_upd) auto
  moreover have "q = q' \<and> bj = bj'"
    if "bj < 9" "bj' < 9" "x \<in> set (?fl q bj)" "x \<in> set (?fl q' bj')" for q bj q' bj' x
    using that heap_okD(2) [OF ok that(1,2), of x q q'] un by (auto split: if_splits)
  moreover have "pool_ok (blocks ?h) Q (?fl q)" if "pools ?h q = Some Q" for q Q
    using that calculation(1) calculation(2) [of q Q] by (cases "q = pid") auto
  moreover have "?fl q bj = []" if "pools ?h q = None" for q bj
    using that heap_okD(3) [OF ok, of q bj] P by (auto split: if_splits)
  ultimately show ?thesis by (intro heap_okI) blast+
qed

lemma heap_ok_uncache:
  assumes ok: "heap_ok h fl" and P: "pools h pid = Some P" and bi: "bi < 9" and hd: "free_heads P ! bi = Some a"
  shows "\<exists>n. blocks h a = Some (unat (k_bucket_caps ! bi), FreeNode n) \<and>
     heap_ok (h\<lparr>blocks := (blocks h)(a \<mapsto> (unat (k_bucket_caps ! bi), Raw)),
               pools := (pools h)(pid \<mapsto> P\<lparr>free_heads := (free_heads P)[bi := n],
                                            counts := (counts P)[bi := counts P ! bi - 1], stats := st\<rparr>)\<rparr>)
       (fl(pid := (fl pid)(bi := tl (fl pid bi)))) \<and> uncached (fl(pid := (fl pid)(bi := tl (fl pid bi)))) a"
proof -
  have pok: "pool_ok (blocks h) P (fl pid)" by (rule heap_okD(1) [OF ok P])
  then obtain n ns where ns: "fl pid bi = a # ns" "blocks h a = Some (unat (k_bucket_caps ! bi), FreeNode n)"
      "flist (blocks h) (unat (k_bucket_caps ! bi)) n ns" "a \<notin> set ns" "distinct ns"
  proof -
    have "flist (blocks h) (unat (k_bucket_caps ! bi)) (Some a) (fl pid bi)" "distinct (fl pid bi)"
      using pok bi hd by (auto simp: pool_ok_def bucket_ok_def)
    then show ?thesis using that by (cases "fl pid bi") auto
  qed
  let ?fl = "fl(pid := (fl pid)(bi := tl (fl pid bi)))"
  let ?P = "P\<lparr>free_heads := (free_heads P)[bi := n], counts := (counts P)[bi := counts P ! bi - 1], stats := st\<rparr>"
  let ?B = "(blocks h)(a \<mapsto> (unat (k_bucket_caps ! bi), Raw))"
  have "length (fl pid bi) = unat (counts P ! bi)" "counts P ! bi \<le> max_per_bucket P"
    using pok bi by (auto simp: pool_ok_def bucket_ok_def)
  then have pos: "0 < unat (counts P ! bi)" "length ns = unat (counts P ! bi) - 1" using ns(1) by auto
  then have cnt: "unat (counts P ! bi - 1) = length ns" by (subst unat_sub_size) auto
  have un: "a \<notin> set (?fl q bj)" if "bj < 9" for q bj
    using heap_okD(2) [OF ok bi that, of a pid q] ns(1,4) by auto
  have "bucket_ok ?B ?P bi ns"
    using pok bi ns pos cnt by (auto simp: pool_ok_def bucket_ok_def word_le_nat_alt)
  moreover have "bucket_ok ?B ?P bj (fl pid bj)" if "bj < 9" "bj \<noteq> bi" for bj
    using pok that un [OF that(1), of pid] by (simp add: pool_ok_def bucket_ok_def)
  ultimately have mine: "pool_ok ?B ?P (?fl pid)" using pok ns(1) by (simp add: pool_ok_def)
  have other: "pool_ok ?B Q (fl q)" if "pools h q = Some Q" "q \<noteq> pid" for q Q
    using heap_okD(1) [OF ok that(1)] un [of _ q] that(2) by (subst pool_ok_upd) auto
  have "heap_ok (h\<lparr>blocks := ?B, pools := (pools h)(pid \<mapsto> ?P)\<rparr>) ?fl"
  proof (rule heap_okI)
    fix q Q assume "pools (h\<lparr>blocks := ?B, pools := (pools h)(pid \<mapsto> ?P)\<rparr>) q = Some Q"
    then show "pool_ok (blocks (h\<lparr>blocks := ?B, pools := (pools h)(pid \<mapsto> ?P)\<rparr>)) Q (?fl q)"
      using mine other by (cases "q = pid") auto
  next
    fix q bj assume "pools (h\<lparr>blocks := ?B, pools := (pools h)(pid \<mapsto> ?P)\<rparr>) q = None"
    then show "?fl q bj = []" using heap_okD(3) [OF ok, of q bj] by (auto split: if_splits)
  next
    fix q bj q' bj' x assume l: "bj < 9" "bj' < 9" and x: "x \<in> set (?fl q bj)" "x \<in> set (?fl q' bj')"
    have "x \<in> set (fl q bj)" "x \<in> set (fl q' bj')" using x ns(1) by (auto split: if_splits)
    then show "q = q' \<and> bj = bj'" using heap_okD(2) [OF ok l] by blast
  qed
  with ns(2) un show ?thesis unfolding uncached_def by blast
qed

text \<open>What no operation on blocks changes: which pools exist, their owners, the pollers.\<close>

definition same_meta :: "bheap \<Rightarrow> bheap \<Rightarrow> bool" where
  "same_meta h h' \<longleftrightarrow> pollers h' = pollers h \<and> g_shared_pool h' = g_shared_pool h \<and>
     (\<forall>q. map_option (\<lambda>P. (thread_safe P, powner P)) (pools h' q) =
          map_option (\<lambda>P. (thread_safe P, powner P)) (pools h q))"

lemma same_meta_refl [simp]: "same_meta h h"
  by (simp add: same_meta_def)

lemma same_meta_trans: "same_meta h h1 \<Longrightarrow> same_meta h1 h2 \<Longrightarrow> same_meta h h2"
  by (simp add: same_meta_def)

lemma same_metaD:
  assumes "same_meta h h'"
  shows "pollers h' = pollers h" and "g_shared_pool h' = g_shared_pool h"
    and "pools h' q = None \<longleftrightarrow> pools h q = None"
proof -
  show "pollers h' = pollers h" "g_shared_pool h' = g_shared_pool h" using assms by (simp_all add: same_meta_def)
  have "map_option (\<lambda>P. (thread_safe P, powner P)) (pools h' q) =
      map_option (\<lambda>P. (thread_safe P, powner P)) (pools h q)"
    using assms by (simp add: same_meta_def)
  then show "pools h' q = None \<longleftrightarrow> pools h q = None" by (cases "pools h' q"; cases "pools h q") auto
qed

lemma same_meta_pool:
  assumes "same_meta h h'" and "pools h q = Some P"
  shows "\<exists>P'. pools h' q = Some P' \<and> thread_safe P' = thread_safe P \<and> powner P' = powner P"
proof -
  have "map_option (\<lambda>P. (thread_safe P, powner P)) (pools h' q) = Some (thread_safe P, powner P)"
    using assms by (simp add: same_meta_def)
  then show ?thesis by auto
qed

lemma same_meta_upd:
  assumes "pollers h' = pollers h" "g_shared_pool h' = g_shared_pool h" "pools h' = (pools h)(pid \<mapsto> P')"
    and "pools h pid = Some P" "thread_safe P' = thread_safe P" "powner P' = powner P"
  shows "same_meta h h'"
  using assms by (auto simp: same_meta_def)

definition handed_out :: "bheap \<Rightarrow> bheap \<Rightarrow> (nat \<Rightarrow> nat \<Rightarrow> nat list) \<Rightarrow> size_t \<Rightarrow> nat \<Rightarrow> size_t \<Rightarrow> bool" where
  "handed_out h h' fl' sz a c \<longleftrightarrow> sz \<le> c \<and> blocks h' = (blocks h)(a \<mapsto> (unat c, Raw)) \<and> uncached fl' a \<and>
     (blocks h a = None \<or> (\<exists>n. blocks h a = Some (unat c, FreeNode n)))"

lemma acquire_spec:
  assumes ok: "heap_ok h fl" and P: "pools h pid = Some P" and sz: "sz \<noteq> 0"
  shows "\<exists>r out h' fl'. ztk_buf_pool_acquire (Some pid) sz h = Some ((r, out), h') \<and> heap_ok h' fl' \<and>
     same_meta h h' \<and>
     (case r of None \<Rightarrow> blocks h' = blocks h | Some a \<Rightarrow> (\<exists>c. out = Some c \<and> handed_out h h' fl' sz a c))"
proof (cases "bucket_index_for_size sz")
  case None
  let ?f = "\<lambda>P. P\<lparr>stats := (stats P)\<lparr>acquire_oversize := acquire_oversize (stats P) + 1\<rparr>\<rparr>"
  obtain r h1 where m: "hmalloc (unat sz) h = (r, h1)" by fastforce
  have ok1: "heap_ok (upd_pool pid ?f h1) fl"
    by (rule heap_ok_pool_meta [OF heap_ok_hmalloc [OF ok m]]) simp_all
  have acq: "ztk_buf_pool_acquire (Some pid) sz h = Some ((r, Some sz), upd_pool pid ?f h1)"
    using P sz None m by (simp add: ztk_buf_pool_acquire_def)
  have un: "uncached fl a" if "blocks h a = None" for a
    by (rule uncachedI [OF ok]) (simp add: that)
  show ?thesis
    by (cases rule: hmalloc_cases [of "unat sz" h])
      (use acq ok1 m P un in \<open>auto simp: same_meta_def handed_out_def intro!: exI [of _ fl]\<close>)
next
  case (Some bc)
  then obtain bi c where b: "bucket_index_for_size sz = Some (bi, c)" by (cases bc) auto
  note bi = bucket_for_size [OF b]
  show ?thesis
  proof (cases "free_heads P ! bi")
    case None
    let ?f = "\<lambda>P. P\<lparr>stats := (stats P)\<lparr>acquire_miss := acquire_miss (stats P) + 1\<rparr>\<rparr>"
    let ?h1 = "upd_pool pid ?f h"
    obtain r h2 where m: "hmalloc (unat c) ?h1 = (r, h2)" by fastforce
    have ok1: "heap_ok ?h1 fl" by (rule heap_ok_pool_meta [OF ok]) simp_all
    have ok2: "heap_ok h2 fl" by (rule heap_ok_hmalloc [OF ok1 m])
    have acq: "ztk_buf_pool_acquire (Some pid) sz h = Some ((r, if r = None then None else Some c), h2)"
      using P sz b None m by (simp add: ztk_buf_pool_acquire_def)
    have un: "uncached fl a" if "blocks h a = None" for a
      by (rule uncachedI [OF ok]) (simp add: that)
    show ?thesis
      by (cases rule: hmalloc_cases [of "unat c" ?h1])
        (use acq ok2 m P un bi in \<open>auto simp: same_meta_def handed_out_def intro!: exI [of _ fl]\<close>)
  next
    case (Some a)
    let ?st = "(stats P)\<lparr>acquire_hit := acquire_hit (stats P) + 1\<rparr>"
    obtain n where n: "blocks h a = Some (unat c, FreeNode n)"
      "heap_ok (h\<lparr>blocks := (blocks h)(a \<mapsto> (unat c, Raw)),
               pools := (pools h)(pid \<mapsto> P\<lparr>free_heads := (free_heads P)[bi := n],
                                            counts := (counts P)[bi := counts P ! bi - 1], stats := ?st\<rparr>)\<rparr>)
       (fl(pid := (fl pid)(bi := tl (fl pid bi))))" (is "heap_ok ?h' ?fl'")
      "uncached (fl(pid := (fl pid)(bi := tl (fl pid bi)))) a"
      using heap_ok_uncache [OF ok P _ Some, where st = ?st] bi by auto
    have "ztk_buf_pool_acquire (Some pid) sz h = Some ((Some a, Some c), ?h')"
      using P sz b Some n(1) by (simp add: ztk_buf_pool_acquire_def upd_pool_def)
    moreover have "handed_out h ?h' ?fl' sz a c" using n bi by (simp add: handed_out_def)
    moreover have "same_meta h ?h'" using P by (simp add: same_meta_def)
    ultimately show ?thesis using n(2) by (intro exI [of _ "Some a"] exI [of _ "Some c"] exI [of _ ?h'] exI [of _ ?fl']) simp
  qed
qed

lemma release_now_spec:
  assumes ok: "heap_ok h fl" and P: "pools h pid = Some P" and p: "blocks h p = Some (unat cap, c)" and un: "uncached fl p"
  shows "\<exists>h' fl'. pool_release_now pid p cap h = Some h' \<and> heap_ok h' fl' \<and> same_meta h h' \<and> avail h' = avail h \<and>
     (\<forall>a. a \<noteq> p \<longrightarrow> blocks h' a = blocks h a) \<and>
     (blocks h' p = None \<or> (\<exists>n. blocks h' p = Some (unat cap, FreeNode n)))"
proof -
  have drop: "\<exists>h'. hfree p (upd_pool pid drop_stat h) = Some h' \<and> heap_ok h' fl \<and> same_meta h h' \<and> avail h' = avail h \<and>
      (\<forall>a. a \<noteq> p \<longrightarrow> blocks h' a = blocks h a) \<and> blocks h' p = None"
  proof -
    have "heap_ok (upd_pool pid drop_stat h) fl"
      by (rule heap_ok_pool_meta [OF ok]) (simp_all add: drop_stat_def)
    from heap_ok_block [OF this un, of None] show ?thesis
      using p P by (simp add: hfree_def same_meta_def drop_stat_def)
  qed
  show ?thesis
  proof (cases "\<exists>bi. bucket_index_exact_cap cap = Some bi \<and> counts P ! bi < max_per_bucket P")
    case False
    then have "pool_release_now pid p cap h = hfree p (upd_pool pid drop_stat h)"
      using P by (auto simp: pool_release_now_def split: option.splits)
    with drop show ?thesis by auto
  next
    case True
    then obtain bi where b: "bucket_index_exact_cap cap = Some bi" "counts P ! bi < max_per_bucket P" by blast
    note bi = bucket_exact [OF b(1)]
    let ?st = "(stats P)\<lparr>release_cached := release_cached (stats P) + 1\<rparr>"
    have blk: "blocks h p = Some (unat (k_bucket_caps ! bi), c)" using p bi by simp
    let ?h' = "h\<lparr>blocks := (blocks h)(p \<mapsto> (unat cap, FreeNode (free_heads P ! bi))),
                    pools := (pools h)(pid \<mapsto> P\<lparr>free_heads := (free_heads P)[bi := Some p],
                                                 counts := (counts P)[bi := counts P ! bi + 1], stats := ?st\<rparr>)\<rparr>"
    have "heap_ok ?h' (fl(pid := (fl pid)(bi := p # fl pid bi)))"
      using heap_ok_cache [OF ok P _ blk un b(2), of ?st] bi by simp
    moreover have "8 \<le> unat cap" using caps_large [of bi] bi by simp
    then have "pool_release_now pid p cap h = Some ?h'"
      using P b p by (simp add: pool_release_now_def hwrite_def upd_pool_def)
    moreover have "same_meta h ?h'" using P by (simp add: same_meta_def)
    ultimately show ?thesis by (intro exI [of _ ?h']) auto
  qed
qed

section \<open>Clients of a pool\<close>

text \<open>
  The calling thread may touch the lists of the pool directly: the pool locks, or it has no owner, or
  the caller is the owner's thread.
\<close>

definition direct :: "u64 \<Rightarrow> nat \<Rightarrow> bheap \<Rightarrow> bool" where
  "direct self pid h \<longleftrightarrow> (\<exists>P. pools h pid = Some P \<and>
     (thread_safe P \<or> powner P = None \<or> ztk_poller_is_current_thread self (pollers h (the (powner P)))))"

lemma direct_release: "direct self pid h \<Longrightarrow> ztk_buf_pool_release self wake (Some pid) (Some p) cap h = pool_release_now pid p cap h"
  by (auto simp: direct_def ztk_buf_pool_release_def)

lemma direct_same: "direct self pid h \<Longrightarrow> same_meta h h' \<Longrightarrow> direct self pid h'"
  using same_meta_pool [of h h' pid] same_metaD(1) [of h h'] by (fastforce simp: direct_def)

text \<open>
  A client's run on one pool: what it acquires it holds, with the capacity reported to it, and it
  releases only what it holds, with that capacity.
\<close>

datatype pool_op = PAcquire size_t | PRelease nat

fun pool_run :: "u64 \<Rightarrow> ztk_err \<Rightarrow> nat \<Rightarrow> bheap \<Rightarrow> (nat \<rightharpoonup> size_t) \<Rightarrow> pool_op list \<Rightarrow>
    (bheap \<times> (nat \<rightharpoonup> size_t)) option" where
  "pool_run self wake pid h held [] = Some (h, held)"
| "pool_run self wake pid h held (PAcquire sz # ops) =
     (case ztk_buf_pool_acquire (Some pid) sz h of
        None \<Rightarrow> None
      | Some ((Some a, Some c), h') \<Rightarrow> pool_run self wake pid h' (held(a \<mapsto> c)) ops
      | Some (_, h') \<Rightarrow> pool_run self wake pid h' held ops)"
| "pool_run self wake pid h held (PRelease a # ops) =
     (case held a of
        None \<Rightarrow> pool_run self wake pid h held ops
      | Some c \<Rightarrow>
          (case ztk_buf_pool_release self wake (Some pid) (Some a) c h of
             None \<Rightarrow> None
           | Some h' \<Rightarrow> pool_run self wake pid h' (held(a := None)) ops))"

definition cached_cell :: "nat \<times> cell \<Rightarrow> bool" where
  "cached_cell x \<longleftrightarrow> (\<exists>n. snd x = FreeNode n)"

definition held_ok :: "(nat \<rightharpoonup> nat \<times> cell) \<Rightarrow> bheap \<Rightarrow> (nat \<rightharpoonup> size_t) \<Rightarrow> bool" where
  "held_ok B h held \<longleftrightarrow> (\<forall>a c. held a = Some c \<longrightarrow> blocks h a = Some (unat c, Raw)) \<and>
     (\<forall>a x. B a = Some x \<longrightarrow> \<not> cached_cell x \<longrightarrow> held a = None \<and> blocks h a = Some x)"

lemma pool_run_ok:
  assumes "heap_ok h fl" and "direct self pid h" and "held_ok B h held"
  shows "\<exists>h' held' fl'. pool_run self wake pid h held ops = Some (h', held') \<and> heap_ok h' fl' \<and>
     same_meta h h' \<and> held_ok B h' held'"
  using assms
proof (induction ops arbitrary: h held fl)
  case Nil
  then show ?case by auto
next
  case (Cons x ops)
  obtain P where P: "pools h pid = Some P" using Cons.prems(2) by (auto simp: direct_def)
  show ?case
  proof (cases x)
    case (PAcquire sz)
    show ?thesis
    proof (cases "sz = 0")
      case True
      then show ?thesis using PAcquire Cons by (simp add: ztk_buf_pool_acquire_def)
    next
      case False
      obtain r out h1 fl1 where r: "ztk_buf_pool_acquire (Some pid) sz h = Some ((r, out), h1)" "heap_ok h1 fl1"
          "same_meta h h1" "case r of None \<Rightarrow> blocks h1 = blocks h | Some a \<Rightarrow> (\<exists>c. out = Some c \<and> handed_out h h1 fl1 sz a c)"
        using acquire_spec [OF Cons.prems(1) P False] by blast
      have d1: "direct self pid h1" by (rule direct_same [OF Cons.prems(2) r(3)])
      show ?thesis
      proof (cases r)
        case None
        then have "held_ok B h1 held" using Cons.prems(3) r(4) by (simp add: held_ok_def)
        with Cons.IH [OF r(2) d1] r(1,3) None PAcquire show ?thesis by (fastforce intro: same_meta_trans)
      next
        case (Some a)
        then obtain c where c: "out = Some c" "handed_out h h1 fl1 sz a c" using r(4) by auto
        have "cached_cell x" if "B a = Some x" for x
        proof (rule ccontr)
          assume "\<not> cached_cell x"
          then have "blocks h a = Some x" using Cons.prems(3) that unfolding held_ok_def by blast
          with c(2) \<open>\<not> cached_cell x\<close> show False by (auto simp: handed_out_def cached_cell_def)
        qed
        then have "held_ok B h1 (held(a \<mapsto> c))"
          using Cons.prems(3) c(2) unfolding held_ok_def handed_out_def by auto
        with Cons.IH [OF r(2) d1] r(1,3) Some c(1) PAcquire show ?thesis by (fastforce intro: same_meta_trans)
      qed
    qed
  next
    case (PRelease a)
    show ?thesis
    proof (cases "held a")
      case None
      then show ?thesis using PRelease Cons by simp
    next
      case (Some c)
      then have blk: "blocks h a = Some (unat c, Raw)" using Cons.prems(3) by (simp add: held_ok_def)
      have un: "uncached fl a" by (rule uncachedI [OF Cons.prems(1)]) (simp add: blk)
      obtain h1 fl1 where h1: "pool_release_now pid a c h = Some h1" "heap_ok h1 fl1" "same_meta h h1"
          "\<forall>b. b \<noteq> a \<longrightarrow> blocks h1 b = blocks h b"
        using release_now_spec [OF Cons.prems(1) P blk un] by blast
      have "B a = None \<or> (\<exists>y. B a = Some y \<and> cached_cell y)" 
        using Cons.prems(3) Some unfolding held_ok_def by (metis option.exhaust option.distinct(1))
      then have "held_ok B h1 (held(a := None))"
        using Cons.prems(3) h1(4) unfolding held_ok_def by (auto split: if_splits)
      with Cons.IH [OF h1(2) direct_same [OF Cons.prems(2) h1(3)]] h1(1,3) PRelease Some
        direct_release [OF Cons.prems(2)]
      show ?thesis by (fastforce intro: same_meta_trans)
    qed
  qed
qed

section \<open>Destroying a pool\<close>

lemma free_list_nodes:
  assumes "flist (blocks h) sz p ns" and "distinct ns"
  shows "free_list p h = Some (h\<lparr>blocks := blocks h |` (- set ns)\<rparr>)"
  using assms
proof (induction ns arbitrary: h p)
  case Nil
  then show ?case by (simp add: free_list.simps restrict_map_def)
next
  case (Cons a ns)
  then obtain n where n: "p = Some a" "blocks h a = Some (sz, FreeNode n)" "flist (blocks h) sz n ns" by auto
  let ?h = "h\<lparr>blocks := (blocks h)(a := None)\<rparr>"
  have "free_list n ?h = Some (?h\<lparr>blocks := blocks ?h |` (- set ns)\<rparr>)"
    using Cons.prems n by (intro Cons.IH) (simp_all del: fun_upd_apply)
  moreover have "blocks ?h |` (- set ns) = blocks h |` (- set (a # ns))"
    by (auto simp: restrict_map_def fun_eq_iff)
  ultimately show ?case using n by (subst free_list.simps) (simp add: hfree_def)
qed

lemma free_buckets_nodes:
  assumes "length ps = length fs" and "\<And>i. i < length ps \<Longrightarrow> flist (blocks h) (sz i) (ps ! i) (fs ! i) \<and> distinct (fs ! i)"
    and "\<And>i j a. i < length ps \<Longrightarrow> j < length ps \<Longrightarrow> a \<in> set (fs ! i) \<Longrightarrow> a \<in> set (fs ! j) \<Longrightarrow> i = j"
  shows "free_buckets ps h = Some (h\<lparr>blocks := blocks h |` (- \<Union> (set ` set fs))\<rparr>)"
  using assms
proof (induction ps fs arbitrary: h sz rule: list_induct2)
  case Nil
  then show ?case by (simp add: restrict_map_def)
next
  case (Cons p ps f fs)
  have f0: "flist (blocks h) (sz 0) p f" "distinct f" using Cons.prems(1) [of 0] by auto
  let ?h = "h\<lparr>blocks := blocks h |` (- set f)\<rparr>"
  have "flist (blocks ?h) (sz (Suc i)) (ps ! i) (fs ! i) \<and> distinct (fs ! i)" if i: "i < length ps" for i
  proof -
    have "a \<notin> set f" if "a \<in> set (fs ! i)" for a using Cons.prems(2) [of 0 "Suc i" a] that i by auto
    then have "flist (blocks h |` (- set f)) s q ns = flist (blocks h) s q ns" if "set ns \<subseteq> set (fs ! i)" for s q ns
      using that by (induction "blocks h" s q ns rule: flist.induct) (auto simp: restrict_map_def)
    then show ?thesis using Cons.prems(1) [of "Suc i"] i by simp
  qed
  moreover have "i = j" if "i < length ps" "j < length ps" "a \<in> set (fs ! i)" "a \<in> set (fs ! j)" for i j a
    using Cons.prems(2) [of "Suc i" "Suc j" a] that by auto
  ultimately have "free_buckets ps ?h = Some (?h\<lparr>blocks := blocks ?h |` (- \<Union> (set ` set fs))\<rparr>)"
    by (intro Cons.IH [where sz = "\<lambda>i. sz (Suc i)"]) auto
  moreover have "blocks ?h |` (- \<Union> (set ` set fs)) = blocks h |` (- \<Union> (set ` set (f # fs)))"
    by (auto simp: restrict_map_def fun_eq_iff)
  ultimately show ?case using free_list_nodes [OF f0] by simp
qed

lemma destroy_spec:
  assumes ok: "heap_ok h fl" and P: "pools h pid = Some P"
  shows "ztk_buf_pool_destroy (Some pid) h =
     Some (h\<lparr>blocks := blocks h |` (- (\<Union>bi \<in> {0..<9}. set (fl pid bi))), pools := (pools h)(pid := None)\<rparr>)"
proof -
  let ?fs = "map (fl pid) [0..<9]"
  have pok: "pool_ok (blocks h) P (fl pid)" by (rule heap_okD(1) [OF ok P])
  have "free_buckets (free_heads P) h = Some (h\<lparr>blocks := blocks h |` (- \<Union> (set ` set ?fs))\<rparr>)"
  proof (rule free_buckets_nodes [where sz = "\<lambda>i. unat (k_bucket_caps ! i)"])
    show "length (free_heads P) = length ?fs" using pok by (simp add: pool_ok_def)
    fix i j a assume i: "i < length (free_heads P)"
    then show "flist (blocks h) (unat (k_bucket_caps ! i)) (free_heads P ! i) (?fs ! i) \<and> distinct (?fs ! i)"
      using pok by (simp add: pool_ok_def bucket_ok_def)
    assume "j < length (free_heads P)" "a \<in> set (?fs ! i)" "a \<in> set (?fs ! j)"
    then show "i = j" using i pok heap_okD(2) [OF ok, of i j a pid pid] by (simp add: pool_ok_def)
  qed
  then show ?thesis using P by (simp add: ztk_buf_pool_destroy_def)
qed

section \<open>Buffers\<close>

lemma buf_at_simps [simp]:
  "buf_at a (h\<lparr>blocks := (blocks h)(a \<mapsto> (sz, BufObj b))\<rparr>) = Some b"
  "a \<noteq> c \<Longrightarrow> buf_at a (h\<lparr>blocks := (blocks h)(c := v)\<rparr>) = buf_at a h"
  by (simp_all add: buf_at_def)

lemma init_buf_spec:
  assumes ok: "heap_ok h fl" and a: "blocks h a = Some (sz, c)" "uncached fl a" and sz: "40 \<le> sz"
  shows "init_buf a cap pool blk h = Some (h\<lparr>blocks := (blocks h)(a \<mapsto> (sz, BufObj \<lparr>refcnt = 1, blen = 0, bcap = cap,
       bpool = pool, pool_blk_cap = blk, payload = mem_malloc (sz - 40)\<rparr>))\<rparr>)"
    and "heap_ok (h\<lparr>blocks := (blocks h)(a \<mapsto> (sz, BufObj \<lparr>refcnt = 1, blen = 0, bcap = cap,
       bpool = pool, pool_blk_cap = blk, payload = mem_malloc (sz - 40)\<rparr>))\<rparr>) fl"
  using a sz heap_ok_block [OF ok a(2)] by (simp_all add: init_buf_def hwrite_def buf_hdr_def)

text \<open>
  A new buffer: one reference, empty, with at least the requested capacity, all of it inside its
  block, which it shares with no other live block; the block remembers its pool and size class.
\<close>

definition new_buf :: "bheap \<Rightarrow> bheap \<Rightarrow> size_t \<Rightarrow> nat \<Rightarrow> bool" where
  "new_buf h h' cap a \<longleftrightarrow> (\<exists>sz b. blocks h' = (blocks h)(a \<mapsto> (sz, BufObj b)) \<and>
     (blocks h a = None \<or> (\<exists>n. blocks h a = Some (sz, FreeNode n))) \<and>
     refcnt b = 1 \<and> blen b = 0 \<and> cap \<le> bcap b \<and> length (payload b) + 40 = sz \<and> unat (bcap b) \<le> length (payload b) \<and>
     (case bpool b of None \<Rightarrow> True | Some pid \<Rightarrow> pools h' pid \<noteq> None \<and> unat (pool_blk_cap b) = sz))"

lemma unat_hdr:
  assumes "unat cap + 40 < 2 ^ 64"
  shows "unat (buf_hdr + cap) = unat cap + 40"
proof -
  have h: "unat buf_hdr = 40" by (simp add: buf_hdr_def)
  have "unat (buf_hdr + cap) = unat buf_hdr + unat cap"
    by (rule unat_add_size) (use assms h in linarith)
  with h show ?thesis by simp
qed

lemma create_malloc_spec:
  assumes ok: "heap_ok h fl" and cap: "unat cap + 40 < 2 ^ 64"
  shows "\<exists>r h'. buf_create_malloc cap h = Some (r, h') \<and> heap_ok h' fl \<and> same_meta h h' \<and>
     (case r of None \<Rightarrow> blocks h' = blocks h | Some a \<Rightarrow> new_buf h h' cap a)"
proof (cases rule: hmalloc_cases [of "unat (buf_hdr + cap)" h])
  case (null h1)
  then show ?thesis using heap_ok_hmalloc [OF ok null(1)] by (simp add: buf_create_malloc_def same_meta_def)
next
  case (got a h1)
  have ok1: "heap_ok h1 fl" by (rule heap_ok_hmalloc [OF ok got(1)])
  have un: "uncached fl a" by (rule uncachedI [OF ok]) (simp add: got(2))
  have blk: "blocks h1 a = Some (unat cap + 40, Raw)" using got(3) unat_hdr [OF cap] by simp
  note ib = init_buf_spec [OF ok1 blk un, of cap None 0]
  let ?b = "\<lparr>refcnt = 1, blen = 0, bcap = cap, bpool = None, pool_blk_cap = 0, payload = mem_malloc (unat cap)\<rparr>"
  let ?h = "h1\<lparr>blocks := (blocks h1)(a \<mapsto> (unat cap + 40, BufObj ?b))\<rparr>"
  have "buf_create_malloc cap h = Some (Some a, ?h)" using ib(1) got(1) by (simp add: buf_create_malloc_def)
  moreover have "new_buf h ?h cap a" unfolding new_buf_def using got(2,3) by (intro exI [of _ "unat cap + 40"] exI [of _ ?b]) simp
  ultimately show ?thesis using ib(2) got by (intro exI [of _ "Some a"] exI [of _ ?h]) (simp add: same_meta_def)
qed

lemma create_from_pool_spec:
  assumes ok: "heap_ok h fl" and cap: "unat cap + 40 < 2 ^ 64"
    and pool: "case pool of None \<Rightarrow> True | Some pid \<Rightarrow> pools h pid \<noteq> None"
  shows "\<exists>r h' fl'. buf_create_from_pool pool cap h = Some (r, h') \<and> heap_ok h' fl' \<and> same_meta h h' \<and>
     (case r of None \<Rightarrow> blocks h' = blocks h | Some a \<Rightarrow> new_buf h h' cap a)"
proof (cases pool)
  case None
  then show ?thesis using create_malloc_spec [OF ok cap] by (auto simp: buf_create_from_pool_def)
next
  case (Some pid)
  then obtain P where P: "pools h pid = Some P" using pool by auto
  have need: "unat (buf_hdr + cap) = unat cap + 40" by (rule unat_hdr [OF cap])
  have "buf_hdr + cap \<noteq> 0"
  proof
    assume "buf_hdr + cap = 0"
    with need show False by simp
  qed
  from acquire_spec [OF ok P this] obtain r out h1 fl1 where
    r: "ztk_buf_pool_acquire (Some pid) (buf_hdr + cap) h = Some ((r, out), h1)" "heap_ok h1 fl1" "same_meta h h1"
      "case r of None \<Rightarrow> blocks h1 = blocks h | Some a \<Rightarrow> (\<exists>c. out = Some c \<and> handed_out h h1 fl1 (buf_hdr + cap) a c)"
    by blast
  show ?thesis
  proof (cases r)
    case None
    obtain r2 h2 where h2: "buf_create_malloc cap h1 = Some (r2, h2)" "heap_ok h2 fl1" "same_meta h1 h2"
        "case r2 of None \<Rightarrow> blocks h2 = blocks h1 | Some a \<Rightarrow> new_buf h1 h2 cap a"
      using create_malloc_spec [OF r(2) cap] by blast
    have eq: "blocks h1 = blocks h" using r(4) None by simp
    have "new_buf h1 h2 cap a = new_buf h h2 cap a" for a unfolding new_buf_def eq ..
    then have "case r2 of None \<Rightarrow> blocks h2 = blocks h | Some a \<Rightarrow> new_buf h h2 cap a"
      using h2(4) eq by (simp split: option.splits)
    with h2 r(1,3) None Some show ?thesis
      by (auto simp: buf_create_from_pool_def intro: same_meta_trans)
  next
    case got: (Some a)
    then obtain c where c: "out = Some c" "handed_out h h1 fl1 (buf_hdr + cap) a c" using r(4) by auto
    have cl: "unat cap + 40 \<le> unat c" using c(2) need by (simp add: handed_out_def word_le_nat_alt)
    have hdr: "unat buf_hdr = 40" by (simp add: buf_hdr_def)
    have sub: "unat (c - buf_hdr) = unat c - 40" using cl hdr by (subst unat_sub_size) auto
    have blk: "blocks h1 a = Some (unat c, Raw)" "uncached fl1 a" using c(2) by (auto simp: handed_out_def)
    let ?bc = "if c > buf_hdr then c - buf_hdr else cap"
    have bc: "cap \<le> ?bc" "unat ?bc \<le> unat c - 40" "40 \<le> unat c"
      using cl hdr sub by (auto simp: word_le_nat_alt word_less_nat_alt)
    note ib = init_buf_spec [OF r(2) blk bc(3), of ?bc pool c]
    let ?b = "\<lparr>refcnt = 1, blen = 0, bcap = ?bc, bpool = pool, pool_blk_cap = c, payload = mem_malloc (unat c - 40)\<rparr>"
    let ?h = "h1\<lparr>blocks := (blocks h1)(a \<mapsto> (unat c, BufObj ?b))\<rparr>"
    have "buf_create_from_pool pool cap h = Some (Some a, ?h)"
      using ib(1) r(1) got c(1) Some by (simp add: buf_create_from_pool_def)
    moreover have "pools h1 pid \<noteq> None" using same_metaD(3) [OF r(3), of pid] P by simp
    then have "new_buf h ?h cap a"
      unfolding new_buf_def using c(2) bc Some
      by (intro exI [of _ "unat c"] exI [of _ ?b]) (auto simp: handed_out_def)
    moreover have "same_meta h ?h" using r(3) by (simp add: same_meta_def)
    ultimately show ?thesis using ib(2) by (intro exI [of _ "Some a"] exI [of _ ?h] exI [of _ fl1]) simp
  qed
qed

lemma buf_at_block: "buf_at a h = Some b \<Longrightarrow> \<exists>sz. blocks h a = Some (sz, BufObj b)"
  by (auto simp: buf_at_def split: option.splits cell.splits)

lemma buf_uncached: "heap_ok h fl \<Longrightarrow> buf_at a h = Some b \<Longrightarrow> uncached fl a"
  by (rule uncachedI) (auto dest: buf_at_block)

lemma set_buf_block: "blocks h a = Some (sz, c) \<Longrightarrow> set_buf a b h = h\<lparr>blocks := (blocks h)(a \<mapsto> (sz, BufObj b))\<rparr>"
  by (simp add: set_buf_def)

lemma set_buf_at [simp]: "buf_at a h = Some b \<Longrightarrow> buf_at a (set_buf a b' h) = Some b'"
  by (auto simp: set_buf_block dest!: buf_at_block)

lemma set_buf_other [simp]: "c \<noteq> a \<Longrightarrow> buf_at c (set_buf a b h) = buf_at c h" "c \<noteq> a \<Longrightarrow> blocks (set_buf a b h) c = blocks h c"
  by (simp_all add: set_buf_def buf_at_def)

lemma set_buf_twice: "set_buf a b' (set_buf a b h) = set_buf a b' h"
  by (cases "blocks h a") (auto simp: set_buf_def)

lemma set_buf_same: "buf_at a h = Some b \<Longrightarrow> set_buf a b h = h"
  by (auto simp: set_buf_def fun_upd_idem dest!: buf_at_block)

lemma set_buf_meta [simp]: "same_meta h (set_buf a b h)" "avail (set_buf a b h) = avail h" "pools (set_buf a b h) = pools h"
  by (simp_all add: set_buf_def same_meta_def)

lemma heap_ok_set_buf: "heap_ok h fl \<Longrightarrow> buf_at a h = Some b \<Longrightarrow> heap_ok (set_buf a b' h) fl"
  using heap_ok_block [OF _ buf_uncached] by (auto simp: set_buf_def)

text \<open>The block of a buffer is what its pool expects back.\<close>

definition buf_returnable :: "u64 \<Rightarrow> nat \<Rightarrow> bheap \<Rightarrow> bool" where
  "buf_returnable self a h \<longleftrightarrow> (\<exists>sz b. blocks h a = Some (sz, BufObj b) \<and>
     (case bpool b of None \<Rightarrow> True | Some pid \<Rightarrow> direct self pid h \<and> unat (pool_blk_cap b) = sz))"

lemma unref_last_spec:
  assumes ok: "heap_ok h fl" and b: "buf_at a h = Some b" and one: "refcnt b = 1" and ret: "buf_returnable self a h"
  shows "\<exists>h' fl'. ztk_buf_unref self wake (Some a) h = Some h' \<and> heap_ok h' fl' \<and> same_meta h h' \<and>
     buf_at a h' = None \<and> (\<forall>c. c \<noteq> a \<longrightarrow> blocks h' c = blocks h c) \<and> avail h' = avail h"
proof -
  let ?h1 = "set_buf a (b\<lparr>refcnt := 0\<rparr>) h"
  obtain sz where sz: "blocks h a = Some (sz, BufObj b)" using buf_at_block [OF b] by blast
  have ok1: "heap_ok ?h1 fl" by (rule heap_ok_set_buf [OF ok b])
  have blk1: "blocks ?h1 a = Some (sz, BufObj (b\<lparr>refcnt := 0\<rparr>))" using sz by (simp add: set_buf_block)
  have un: "uncached fl a" by (rule buf_uncached [OF ok b])
  show ?thesis
  proof (cases "bpool b")
    case None
    have "heap_ok (?h1\<lparr>blocks := (blocks ?h1)(a := None)\<rparr>) fl" by (rule heap_ok_block [OF ok1 un])
    moreover have "ztk_buf_unref self wake (Some a) h = Some (?h1\<lparr>blocks := (blocks ?h1)(a := None)\<rparr>)"
      using b one None blk1 by (simp add: ztk_buf_unref_def hfree_def Let_def)
    ultimately show ?thesis by (auto simp: same_meta_def buf_at_def set_buf_def)
  next
    case (Some pid)
    then have d: "direct self pid h" and cap: "unat (pool_blk_cap b) = sz" using ret sz by (auto simp: buf_returnable_def)
    have d1: "direct self pid ?h1" by (rule direct_same [OF d]) simp
    obtain P where P: "pools ?h1 pid = Some P" using d by (auto simp: direct_def)
    obtain h' fl' where h': "pool_release_now pid a (pool_blk_cap b) ?h1 = Some h'" "heap_ok h' fl'" "same_meta ?h1 h'"
        "avail h' = avail ?h1" "\<forall>c. c \<noteq> a \<longrightarrow> blocks h' c = blocks ?h1 c"
        "blocks h' a = None \<or> (\<exists>n. blocks h' a = Some (unat (pool_blk_cap b), FreeNode n))"
      using release_now_spec [OF ok1 P _ un, of "pool_blk_cap b"] blk1 cap by auto
    have "ztk_buf_unref self wake (Some a) h = Some h'"
      using b one Some direct_release [OF d1] h'(1) by (simp add: ztk_buf_unref_def)
    moreover have "buf_at a h' = None" using h'(6) by (auto simp: buf_at_def)
    ultimately show ?thesis
      using h'(2-5) same_meta_trans [OF set_buf_meta(1) h'(3)] by (intro exI [of _ h'] exI [of _ fl']) simp
  qed
qed

text \<open>Taking (\<open>True\<close>) and dropping (\<open>False\<close>) references.\<close>

fun rc_run :: "u64 \<Rightarrow> ztk_err \<Rightarrow> nat \<Rightarrow> bool list \<Rightarrow> bheap \<Rightarrow> bheap option" where
  "rc_run self wake a [] h = Some h"
| "rc_run self wake a (True # rs) h =
     (case ztk_buf_ref (Some a) h of None \<Rightarrow> None | Some (_, h') \<Rightarrow> rc_run self wake a rs h')"
| "rc_run self wake a (False # rs) h =
     (case ztk_buf_unref self wake (Some a) h of None \<Rightarrow> None | Some h' \<Rightarrow> rc_run self wake a rs h')"

text \<open>The number of references after a run that starts with \<open>n\<close>; \<open>None\<close> if it reaches 0 on the way.\<close>

fun rc_count :: "nat \<Rightarrow> bool list \<Rightarrow> nat option" where
  "rc_count n [] = Some n"
| "rc_count n (True # rs) = rc_count (n + 1) rs"
| "rc_count n (False # rs) = (if n \<le> 1 then None else rc_count (n - 1) rs)"

lemma rc_run_counts:
  assumes "buf_at a h = Some b" and "refcnt b = of_nat n" and "0 < n" and "n + length rs < 2 ^ 31"
    and "rc_count n rs = Some m"
  shows "rc_run self wake a rs h = Some (set_buf a (b\<lparr>refcnt := of_nat m\<rparr>) h) \<and> 0 < m"
  using assms
proof (induction n rs arbitrary: h b rule: rc_count.induct)
  case (1 n)
  then have "b\<lparr>refcnt := of_nat m\<rparr> = b" by (cases b) simp
  with 1 show ?case by (simp add: set_buf_same)
next
  case (2 n rs)
  let ?b = "b\<lparr>refcnt := of_nat (n + 1)\<rparr>"
  have "ztk_buf_ref (Some a) h = Some (Some a, set_buf a ?b h)" using 2 by (simp add: ztk_buf_ref_def add.commute)
  moreover have "rc_run self wake a rs (set_buf a ?b h) =
      Some (set_buf a (?b\<lparr>refcnt := of_nat m\<rparr>) (set_buf a ?b h)) \<and> 0 < m"
    by (rule "2.IH") (use 2 in simp_all)
  ultimately show ?case by (simp add: set_buf_twice)
next
  case (3 n rs)
  then have n: "1 < n" "rc_count (n - 1) rs = Some m" by (auto split: if_splits)
  let ?b = "b\<lparr>refcnt := of_nat (n - 1)\<rparr>"
  have w: "of_nat n - (1 :: 32 word) = of_nat (n - 1)" using n(1) by (simp add: of_nat_diff)
  have "unat (of_nat n :: 32 word) = n" using "3.prems"(4) by (intro of_nat_inverse) auto
  then have "of_nat n \<noteq> (1 :: 32 word)" using n(1) by (auto dest: arg_cong [where f = unat])
  then have "ztk_buf_unref self wake (Some a) h = Some (set_buf a ?b h)" 
    using "3.prems"(1,2) w by (simp add: ztk_buf_unref_def Let_def)
  moreover have "rc_run self wake a rs (set_buf a ?b h) =
      Some (set_buf a (?b\<lparr>refcnt := of_nat m\<rparr>) (set_buf a ?b h)) \<and> 0 < m"
    by (rule "3.IH") (use 3 n in auto)
  ultimately show ?case by (simp add: set_buf_twice)
qed

lemma rc_run_append: "rc_run self wake a (rs @ ts) h = Option.bind (rc_run self wake a rs h) (rc_run self wake a ts)"
  by (induction self wake a rs h rule: rc_run.induct) (auto split: option.splits)

section \<open>Releases deferred to the owner\<close>

text \<open>
  The owner's drain: its tasks are deferred releases, which change the heap and leave the queue
  alone. The heap travels with the queue as the extension of the record.
\<close>

record bdrain = "nat ptask" +
  bw :: bheap

definition run_deferred :: "nat \<Rightarrow> bdrain \<Rightarrow> bdrain option" where
  "run_deferred d s = map_option (\<lambda>h. s\<lparr>bw := h\<rparr>) (pool_release_deferred d (bw s))"

definition poller_drain :: "nat \<Rightarrow> bheap \<Rightarrow> bheap option" where
  "poller_drain q h =
     (case pollers h q of None \<Rightarrow> None
      | Some p \<Rightarrow>
         (case ztk_poller_drain_tasks run_deferred
                 (Some \<lparr>task_mtx = task_mtx p, task_q = task_q p, owner_thread = owner_thread p, bw = h\<rparr>) of
            Some (Some s) \<Rightarrow> Some ((bw s)\<lparr>pollers := (pollers (bw s))(q \<mapsto> p\<lparr>task_q := task_q s\<rparr>)\<rparr>)
          | _ \<Rightarrow> None))"

definition defer_of :: "bheap \<Rightarrow> nat \<Rightarrow> buf_defer option" where
  "defer_of h d = (case blocks h d of Some (_, Defer x) \<Rightarrow> Some x | _ \<Rightarrow> None)"

definition ptr_of :: "bheap \<Rightarrow> nat \<Rightarrow> nat" where
  "ptr_of h d = (case defer_of h d of Some x \<Rightarrow> (case dptr x of Some p \<Rightarrow> p | None \<Rightarrow> 0) | None \<Rightarrow> 0)"

definition defer_ok :: "bheap \<Rightarrow> nat \<Rightarrow> bool" where
  "defer_ok h d \<longleftrightarrow> (\<exists>pid ptr cap c. defer_of h d = Some \<lparr>dpool = Some pid, dptr = Some ptr, dcap = cap\<rparr> \<and>
     pools h pid \<noteq> None \<and> blocks h ptr = Some (unat cap, c) \<and> \<not> cached_cell (unat cap, c))"

definition defers_inv :: "nat list \<Rightarrow> bheap \<Rightarrow> bool" where
  "defers_inv ds h \<longleftrightarrow> (\<exists>fl. heap_ok h fl) \<and> (\<forall>d \<in> set ds. defer_ok h d) \<and> distinct (ds @ map (ptr_of h) ds)"

lemma deferred_spec:
  assumes "heap_ok h fl" and "defer_ok h d" and "ptr_of h d \<noteq> d"
  shows "\<exists>h' fl'. pool_release_deferred d h = Some h' \<and> heap_ok h' fl' \<and> same_meta h h' \<and> blocks h' d = None \<and>
     (\<forall>a. a \<noteq> d \<longrightarrow> a \<noteq> ptr_of h d \<longrightarrow> blocks h' a = blocks h a) \<and>
     (case blocks h' (ptr_of h d) of None \<Rightarrow> True | Some x \<Rightarrow> cached_cell x)"
proof -
  obtain pid ptr cap c where d: "defer_of h d = Some \<lparr>dpool = Some pid, dptr = Some ptr, dcap = cap\<rparr>"
      "pools h pid \<noteq> None" "blocks h ptr = Some (unat cap, c)" "\<not> cached_cell (unat cap, c)"
    using assms(2) by (auto simp: defer_ok_def)
  obtain n where n: "blocks h d = Some (n, Defer \<lparr>dpool = Some pid, dptr = Some ptr, dcap = cap\<rparr>)"
    using d(1) by (auto simp: defer_of_def split: option.splits cell.splits)
  have pe: "ptr_of h d = ptr" using d(1) by (simp add: ptr_of_def)
  then have ne: "ptr \<noteq> d" using assms(3) by simp
  obtain P where P: "pools h pid = Some P" using d(2) by auto
  have un: "uncached fl ptr" by (rule uncachedI [OF assms(1)]) (use d(3,4) in \<open>simp add: cached_cell_def\<close>)
  obtain h1 fl1 where h1: "pool_release_now pid ptr cap h = Some h1" "heap_ok h1 fl1" "same_meta h h1"
      "\<forall>a. a \<noteq> ptr \<longrightarrow> blocks h1 a = blocks h a"
      "blocks h1 ptr = None \<or> (\<exists>n. blocks h1 ptr = Some (unat cap, FreeNode n))"
    using release_now_spec [OF assms(1) P d(3) un] by blast
  have blk: "blocks h1 d = Some (n, Defer \<lparr>dpool = Some pid, dptr = Some ptr, dcap = cap\<rparr>)" using h1(4) n ne by simp
  have un1: "uncached fl1 d" by (rule uncachedI [OF h1(2)]) (simp add: blk)
  let ?h = "h1\<lparr>blocks := (blocks h1)(d := None)\<rparr>"
  have "pool_release_deferred d h = Some ?h" using n h1(1) blk by (simp add: pool_release_deferred_def hfree_def)
  moreover have "heap_ok ?h fl1" by (rule heap_ok_block [OF h1(2) un1])
  moreover have "same_meta h ?h" using h1(3) by (simp add: same_meta_def)
  ultimately show ?thesis using pe ne h1(4,5) by (intro exI [of _ ?h] exI [of _ fl1]) (auto simp: cached_cell_def)
qed

lemma defers_inv_step:
  assumes "defers_inv (d # ds) h"
  shows "\<exists>h'. pool_release_deferred d h = Some h' \<and> defers_inv ds h' \<and> same_meta h h' \<and> blocks h' d = None \<and>
     (\<forall>a. a \<noteq> d \<longrightarrow> a \<noteq> ptr_of h d \<longrightarrow> blocks h' a = blocks h a) \<and>
     (case blocks h' (ptr_of h d) of None \<Rightarrow> True | Some x \<Rightarrow> cached_cell x) \<and> (\<forall>e \<in> set ds. ptr_of h' e = ptr_of h e)"
proof -
  obtain fl where fl: "heap_ok h fl" using assms by (auto simp: defers_inv_def)
  have ne: "ptr_of h d \<noteq> d" and ok: "defer_ok h d" using assms by (auto simp: defers_inv_def)
  obtain h' fl' where h': "pool_release_deferred d h = Some h'" "heap_ok h' fl'" "same_meta h h'" "blocks h' d = None"
      "\<forall>a. a \<noteq> d \<longrightarrow> a \<noteq> ptr_of h d \<longrightarrow> blocks h' a = blocks h a"
      "case blocks h' (ptr_of h d) of None \<Rightarrow> True | Some x \<Rightarrow> cached_cell x"
    using deferred_spec [OF fl ok ne] by blast
  have keep: "defer_of h' e = defer_of h e \<and> ptr_of h' e = ptr_of h e \<and> defer_ok h' e" if e: "e \<in> set ds" for e
  proof -
    have ne: "e \<noteq> d" "e \<noteq> ptr_of h d" "ptr_of h e \<noteq> d" "ptr_of h e \<noteq> ptr_of h d"
    proof -
      have pe: "ptr_of h e \<in> ptr_of h ` set ds" using e by (rule imageI)
      have "d \<notin> set ds" "d \<notin> ptr_of h ` set ds" "ptr_of h d \<notin> set ds" "ptr_of h d \<notin> ptr_of h ` set ds"
        using assms by (auto simp: defers_inv_def)
      with e pe show "e \<noteq> d" "e \<noteq> ptr_of h d" "ptr_of h e \<noteq> d" "ptr_of h e \<noteq> ptr_of h d" by metis+
    qed
    then have de: "defer_of h' e = defer_of h e" using h'(5) by (simp add: defer_of_def)
    then have pe: "ptr_of h' e = ptr_of h e" by (simp add: ptr_of_def)
    have "defer_ok h e" using assms e by (simp add: defers_inv_def)
    then obtain pid ptr cap c where x: "defer_of h e = Some \<lparr>dpool = Some pid, dptr = Some ptr, dcap = cap\<rparr>"
        "pools h pid \<noteq> None" "blocks h ptr = Some (unat cap, c)" "\<not> cached_cell (unat cap, c)"
      by (auto simp: defer_ok_def)
    have "ptr_of h e = ptr" using x(1) by (simp add: ptr_of_def)
    then have "blocks h' ptr = blocks h ptr" using ne h'(5) by simp
    with x de same_metaD(3) [OF h'(3), of pid] have "defer_ok h' e" by (auto simp: defer_ok_def)
    with de pe show ?thesis by simp
  qed
  then have m: "map (ptr_of h') ds = map (ptr_of h) ds" by simp
  have "distinct (ds @ map (ptr_of h') ds)" unfolding m using assms by (auto simp: defers_inv_def)
  then have "defers_inv ds h'" using keep h'(2) unfolding defers_inv_def by blast
  with h' keep show ?thesis by blast
qed

interpretation bdf: task_runner run_deferred bw defers_inv "\<lambda>d (xs, h). (xs, the (pool_release_deferred d h))"
proof unfold_locales
  fix D and s :: bdrain and xs t ts
  assume rep: "tq_rep D s xs" and inv: "defers_inv (t # ts) (bw s)"
  obtain h' where "pool_release_deferred t (bw s) = Some h'" using defers_inv_step [OF inv] by blast
  with rep show "\<exists>s'. run_deferred t s = Some s' \<and>
      tq_rep D s' (fst (case (xs, bw s) of (xs, h) \<Rightarrow> (xs, the (pool_release_deferred t h)))) \<and>
      bw s' = snd (case (xs, bw s) of (xs, h) \<Rightarrow> (xs, the (pool_release_deferred t h))) \<and>
      same_nodes D s s' \<and> task_mtx s' = task_mtx s"
    by (auto simp: run_deferred_def tq_rep_def same_nodes_def)
next
  fix t ts w and xs :: "nat list"
  assume "defers_inv (t # ts) w"
  then show "defers_inv ts (snd (case (xs, w) of (xs, h) \<Rightarrow> (xs, the (pool_release_deferred t h))))"
    using defers_inv_step by fastforce
qed simp

lemma fold_deferred:
  assumes "defers_inv ds h"
  shows "\<exists>h' fl'. fold (\<lambda>d (xs, h). (xs, the (pool_release_deferred d h))) ds (xs, h) = (xs, h') \<and>
     heap_ok h' fl' \<and> same_meta h h' \<and> (\<forall>d \<in> set ds. blocks h' d = None) \<and>
     (\<forall>d \<in> set ds. case blocks h' (ptr_of h d) of None \<Rightarrow> True | Some x \<Rightarrow> cached_cell x) \<and>
     (\<forall>a. a \<notin> set ds \<longrightarrow> a \<notin> ptr_of h ` set ds \<longrightarrow> blocks h' a = blocks h a)"
  using assms
proof (induction ds arbitrary: h)
  case Nil
  then show ?case by (auto simp: defers_inv_def)
next
  case (Cons d ds)
  obtain h1 where h1: "pool_release_deferred d h = Some h1" "defers_inv ds h1" "same_meta h h1" "blocks h1 d = None"
      "\<forall>a. a \<noteq> d \<longrightarrow> a \<noteq> ptr_of h d \<longrightarrow> blocks h1 a = blocks h a"
      "case blocks h1 (ptr_of h d) of None \<Rightarrow> True | Some x \<Rightarrow> cached_cell x" "\<forall>e \<in> set ds. ptr_of h1 e = ptr_of h e"
    using defers_inv_step [OF Cons.prems] by blast
  obtain h2 fl2 where h2: "fold (\<lambda>d (xs, h). (xs, the (pool_release_deferred d h))) ds (xs, h1) = (xs, h2)"
      "heap_ok h2 fl2" "same_meta h1 h2" "\<forall>d \<in> set ds. blocks h2 d = None"
      "\<forall>d \<in> set ds. case blocks h2 (ptr_of h1 d) of None \<Rightarrow> True | Some x \<Rightarrow> cached_cell x"
      "\<forall>a. a \<notin> set ds \<longrightarrow> a \<notin> ptr_of h1 ` set ds \<longrightarrow> blocks h2 a = blocks h1 a"
    using Cons.IH [OF h1(2)] by blast
  have im: "ptr_of h1 ` set ds = ptr_of h ` set ds" using h1(7) by (auto simp: image_iff)
  have dist: "d \<notin> set ds" "d \<notin> ptr_of h ` set ds" "ptr_of h d \<notin> set ds" "ptr_of h d \<notin> ptr_of h ` set ds" "ptr_of h d \<noteq> d"
    using Cons.prems by (auto simp: defers_inv_def)
  have "blocks h2 d = None" "blocks h2 (ptr_of h d) = blocks h1 (ptr_of h d)" using h2(6) im dist h1(4) by auto
  with h1 h2 im same_meta_trans [OF h1(3) h2(3)] show ?case by auto
qed

text \<open>A release from a thread that is not the owner's, when the queue of the owner is empty.\<close>

definition foreign :: "u64 \<Rightarrow> nat \<Rightarrow> nat \<Rightarrow> bheap \<Rightarrow> bool" where
  "foreign self pid q h \<longleftrightarrow> (\<exists>P p. pools h pid = Some P \<and> \<not> thread_safe P \<and> powner P = Some q \<and>
     pollers h q = Some p \<and> task_mtx p \<and> owner_thread p \<noteq> self \<and> task_q p = lq_empty)"

definition one_task :: "nat \<Rightarrow> nat \<Rightarrow> nat lq" where
  "one_task n d = lq_push_back n d lq_empty"

lemma foreign_release:
  assumes f: "foreign self pid q h" and av: "avail h = Some d # Some n # rest"
    and d: "blocks h d = None" and x: "blocks h x \<noteq> None"
  shows "ztk_buf_pool_release self wake (Some pid) (Some x) cap h =
     (let h1 = h\<lparr>avail := rest,
                 blocks := (blocks h)(d \<mapsto> (24, Defer \<lparr>dpool = Some pid, dptr = Some x, dcap = cap\<rparr>)),
                 pollers := (pollers h)(q := map_option (\<lambda>p. p\<lparr>task_q := one_task n d\<rparr>) (pollers h q))\<rparr>
      in if wake = ZTK_OK then Some h1
         else Some (h1\<lparr>blocks := (blocks h)(x := None)\<rparr>))"
proof -
  obtain P p where P: "pools h pid = Some P" "\<not> thread_safe P" "powner P = Some q" "pollers h q = Some p" "task_mtx p"
      "owner_thread p \<noteq> self" "task_q p = lq_empty"
    using f by (auto simp: foreign_def)
  have "x \<noteq> d" using d x by auto
  moreover have "blocks h = (blocks h)(d := None)" using d by (simp add: fun_upd_idem)
  ultimately show ?thesis
    using P av d x
    by (auto simp: ztk_buf_pool_release_def hmalloc_def hwrite_def hfree_def ztk_poller_is_current_thread_def
        ztk_poller_async_def ztk_poller_async_impl_def calloc_node_def lq_empty_def one_task_def Let_def
        fun_upd_twist fun_upd_upd split: if_splits)
qed

text \<open>Releasing does not look at the list of addresses, at the pollers or at other blocks.\<close>

lemma release_now_frame:
  assumes "x \<noteq> d"
  shows "pool_release_now pid x cap (h\<lparr>avail := av, blocks := (blocks h)(d := v), pollers := ps\<rparr>) =
     map_option (\<lambda>h. h\<lparr>avail := av, blocks := (blocks h)(d := v), pollers := ps\<rparr>) (pool_release_now pid x cap h)"
  using assms
  by (auto simp: pool_release_now_def hfree_def hwrite_def upd_pool_def Let_def fun_upd_twist
      split: option.splits prod.splits)

lemma deferred_now:
  assumes "pool_release_deferred d (h\<lparr>avail := av,
      blocks := (blocks h)(d \<mapsto> (24, Defer \<lparr>dpool = Some pid, dptr = Some x, dcap = cap\<rparr>)), pollers := ps\<rparr>) = Some h2"
    and "blocks h d = None" and "x \<noteq> d"
  shows "\<exists>ho. pool_release_now pid x cap h = Some ho \<and> pools h2 = pools ho \<and> blocks h2 = blocks ho"
proof -
  obtain ho where ho: "pool_release_now pid x cap h = Some ho"
    and h2: "h2 = ho\<lparr>avail := av, pollers := ps, blocks := (blocks ho)(d := None)\<rparr>"
    using assms(1) by (cases "pool_release_now pid x cap h")
      (auto simp: pool_release_deferred_def release_now_frame [OF assms(3)] hfree_def)
  have "blocks ho d = None"
    using ho assms(2,3)
    by (auto simp: pool_release_now_def hfree_def hwrite_def upd_pool_def split: option.splits prod.splits if_splits)
  with ho h2 show ?thesis by (auto simp: fun_upd_idem)
qed

lemma one_task_rep: "lq_rep (one_task n d) [d]"
  using lq_rep_push_back [OF lq_rep_empty, of n d] by (simp add: one_task_def lq_fresh_def lq_empty_def)

section \<open>A concrete heap\<close>

definition bpool0 :: "bool \<Rightarrow> nat option \<Rightarrow> ztk_buf_pool" where
  "bpool0 ts ow = \<lparr>max_per_bucket = 2, thread_safe = ts, free_heads = replicate 9 None, counts = replicate 9 0,
     stats = no_stats, pmu = ts, powner = ow\<rparr>"

text \<open>An empty pool 1 (locked, or owned by poller 5), one buffer in use at address 50.\<close>

definition buf50 :: "nat option \<Rightarrow> ztk_buf" where
  "buf50 pool = \<lparr>refcnt = 1, blen = 3, bcap = 472, bpool = pool, pool_blk_cap = 512, payload = replicate 472 None\<rparr>"

definition bh0 :: "bool \<Rightarrow> bheap" where
  "bh0 ts = \<lparr>blocks = [50 \<mapsto> (512, BufObj (buf50 (Some 1)))], pools = [1 \<mapsto> bpool0 ts (if ts then None else Some 5)],
     pollers = [5 \<mapsto> \<lparr>task_mtx = True, task_q = lq_empty, owner_thread = 7, buf_pool = Some 1\<rparr>],
     g_shared_pool = Some 1, avail = [Some 60, Some 61, Some 62]\<rparr>"

lemma bh0_ok: "heap_ok (bh0 ts) (\<lambda>_ _. [])"
  by (rule heap_okI) (auto simp: bh0_def bpool0_def pool_ok_def bucket_ok_def split: if_splits)

lemma bh0_direct: "direct 3 1 (bh0 True)"
  by (simp add: direct_def bh0_def bpool0_def)

section \<open>Properties\<close>

text \<open>
  C5. A pool hands every block to one client at a time. From any consistent heap, any sequence of
  acquire and release calls by clients that give back what they hold (with the capacity they were
  told) has a defined outcome and keeps the pools consistent: free lists acyclic, disjoint, of the
  size of their bucket, as long as their counters say and within the bound. What a client holds is a
  live block of exactly that size, distinct from everything that was in use before, which is left
  untouched.
\<close>

theorem pool_blocks_exclusive:
  assumes "heap_ok h fl" and "direct self pid h"
  shows "\<exists>h' held fl'. pool_run self wake pid h Map.empty ops = Some (h', held) \<and> heap_ok h' fl' \<and>
     (\<forall>a c. held a = Some c \<longrightarrow> blocks h' a = Some (unat c, Raw)) \<and>
     (\<forall>a x. blocks h a = Some x \<longrightarrow> \<not> cached_cell x \<longrightarrow> held a = None \<and> blocks h' a = Some x)"
proof -
  have "held_ok (blocks h) h Map.empty" by (simp add: held_ok_def)
  from pool_run_ok [OF assms this] show ?thesis unfolding held_ok_def by blast
qed

theorem pool_blocks_exclusive_witness:
  "\<exists>h' held fl'. pool_run 3 ZTK_OK 1 (bh0 True) Map.empty [PAcquire 100, PAcquire 5000, PRelease 60, PAcquire 300] =
     Some (h', held) \<and> heap_ok h' fl' \<and> held 50 = None \<and> blocks h' 50 = Some (512, BufObj (buf50 (Some 1)))"
proof -
  have "blocks (bh0 True) 50 = Some (512, BufObj (buf50 (Some 1)))" "\<not> cached_cell (512, BufObj (buf50 (Some 1)))"
    by (simp_all add: bh0_def cached_cell_def)
  with pool_blocks_exclusive [OF bh0_ok bh0_direct, of ZTK_OK "[PAcquire 100, PAcquire 5000, PRelease 60, PAcquire 300]"]
  show ?thesis by blast
qed

text \<open>
  Destroying a pool frees exactly the blocks it caches, each once, and nothing else.
\<close>

lemma pool_destroy_frees_cache:
  assumes "heap_ok h fl" and "pools h pid \<noteq> None"
  shows "\<exists>h'. ztk_buf_pool_destroy (Some pid) h = Some h' \<and> pools h' = (pools h)(pid := None) \<and>
     (\<forall>a. blocks h' a = (if \<exists>bi < 9. a \<in> set (fl pid bi) then None else blocks h a))"
proof -
  obtain P where P: "pools h pid = Some P" using assms(2) by auto
  show ?thesis using destroy_spec [OF assms(1) P] by (auto simp: restrict_map_def)
qed

text \<open>
  A new buffer is fresh and large enough. Allocating for a poller (local pool, else shared pool,
  else plain allocation) has a defined outcome as long as header plus capacity fits in \<^verbatim>\<open>size_t\<close>; it
  returns \<^verbatim>\<open>NULL\<close> without touching a block, or a buffer with one reference, length 0 and at least
  the capacity asked for, whose payload lies inside its block and overlaps no live block.
\<close>

lemma buf_alloc_local_fresh:
  assumes "heap_ok h fl" and "cap \<noteq> 0" and "unat cap + 40 < 2 ^ 64"
    and "\<And>q p pid. pollers h q = Some p \<Longrightarrow> buf_pool p = Some pid \<Longrightarrow> pools h pid \<noteq> None"
    and "\<And>pid. g_shared_pool h = Some pid \<Longrightarrow> pools h pid \<noteq> None"
  shows "\<exists>r h' fl'. ztk_buf_alloc_local poller cap h = Some (r, h') \<and> heap_ok h' fl' \<and>
     (case r of None \<Rightarrow> blocks h' = blocks h | Some a \<Rightarrow> new_buf h h' cap a)"
proof -
  let ?l = "ztk_poller_buf_pool poller h"
  let ?p = "if ?l \<noteq> None then ?l else g_shared_pool h"
  have "case ?p of None \<Rightarrow> True | Some pid \<Rightarrow> pools h pid \<noteq> None"
    using assms(4,5) by (auto simp: ztk_poller_buf_pool_def split: option.splits)
  from create_from_pool_spec [OF assms(1,3) this] assms(2) show ?thesis
    unfolding ztk_buf_alloc_local_def ztk_buf_alloc_def Let_def by (cases "?l = None") auto
qed

text \<open>
  The size computation is not guarded. A capacity within 40 bytes of the largest \<^verbatim>\<open>size_t\<close> makes
  header plus capacity wrap around: a plain allocation that succeeds is smaller than the header, and
  initialising it writes outside the block.
\<close>

lemma buf_alloc_overflow:
  assumes "2 ^ 64 \<le> unat cap + 40" and "g_shared_pool h = None" and "avail h = Some a # rest" and "blocks h a = None"
  shows "ztk_buf_alloc cap h = None"
proof -
  have "unat buf_hdr = 40" by (simp add: buf_hdr_def)
  then have "unat (buf_hdr + cap) = (40 + unat cap) mod 2 ^ 64" by (simp add: unat_word_ariths)
  moreover have "unat cap < 2 ^ 64" using unsigned_less [of cap, where ?'a = nat] by simp
  moreover have "(40 + unat cap) mod 2 ^ 64 = 40 + unat cap - 2 ^ 64" if "unat cap < 2 ^ 64"
    using that assms(1) by (subst le_mod_geq) (auto intro: mod_less)
  ultimately have small: "unat (buf_hdr + cap) < 40" using assms(1) by simp
  have "cap \<noteq> 0" using assms(1) by auto
  with small assms(2-4) show ?thesis
    by (simp add: ztk_buf_alloc_def buf_create_from_pool_def buf_create_malloc_def hmalloc_def init_buf_def
        hwrite_def buf_hdr_def)
qed





text \<open>
  A failed wake frees a block that is still queued. If waking the owner reports an error after the
  request was queued, the release frees the block and the request, but the owner's queue still holds
  the request: its next drain has no defined outcome.
\<close>

lemma release_wake_failure:
  assumes f: "foreign self pid q h" and av: "avail h = Some d # Some n # rest"
    and d: "blocks h d = None" and x: "blocks h x \<noteq> None" and w: "wake \<noteq> ZTK_OK"
  shows "\<exists>h1. ztk_buf_pool_release self wake (Some pid) (Some x) cap h = Some h1 \<and> blocks h1 x = None \<and>
     poller_drain q h1 = None"
proof -
  obtain p where p: "pollers h q = Some p" "task_mtx p" using f by (auto simp: foreign_def)
  show ?thesis
    using foreign_release [OF f av d x, of wake cap] w p d
    by (simp add: poller_drain_def ztk_poller_drain_tasks_def drain_list.simps one_task_def lq_push_back_def
        lq_empty_def run_deferred_def pool_release_deferred_def Let_def)
qed

end
