(* ===== verification/Decimal.thy ===== *)
theory Decimal
  imports Ztk_Prelude
begin

text \<open>
  Decimal numbers as \<^verbatim>\<open>snprintf\<close> prints them (\<^verbatim>\<open>%u\<close>, \<^verbatim>\<open>%llu\<close> and \<^verbatim>\<open>%d\<close>): used for port numbers, the names of
  rotated log files and messages. Different numbers have different digits, and their number is bounded.
\<close>

fun dec_digits :: "nat \<Rightarrow> string" where
  "dec_digits n = (if n < 10 then [char_of (48 + n)] else dec_digits (n div 10) @ [char_of (48 + n mod 10)])"

declare dec_digits.simps [simp del]

definition int_str :: "int \<Rightarrow> string" where
  "int_str n = (if n < 0 then ''-'' @ dec_digits (nat (- n)) else dec_digits (nat n))"

lemma dec_digits_not_Nil [simp]: "dec_digits n \<noteq> []"
  by (simp add: dec_digits.simps [of n])

lemmas Nil_not_dec_digits [simp] = dec_digits_not_Nil [symmetric]

lemma digit_inj: "m < 10 \<Longrightarrow> n < 10 \<Longrightarrow> (char_of (48 + m) :: char) = char_of (48 + n) \<Longrightarrow> m = (n :: nat)"
proof -
  assume "m < 10" "n < 10" "(char_of (48 + m) :: char) = char_of (48 + n)"
  then have "of_char (char_of (48 + m) :: char) = (of_char (char_of (48 + n) :: char) :: nat)" by simp
  with \<open>m < 10\<close> \<open>n < 10\<close> show "m = n" by simp
qed

lemma dec_digits_inj: "dec_digits m = dec_digits n \<Longrightarrow> m = n"
proof (induction m arbitrary: n rule: dec_digits.induct)
  case (1 m)
  have eq: "dec_digits m = dec_digits n" by fact
  show ?case
  proof (cases "m < 10"; cases "n < 10")
    assume "\<not> m < 10" "\<not> n < 10"
    with eq have "dec_digits (m div 10) = dec_digits (n div 10)" "(char_of (48 + m mod 10) :: char) = char_of (48 + n mod 10)"
      by (simp_all add: dec_digits.simps [of m] dec_digits.simps [of n])
    with 1 \<open>\<not> m < 10\<close> have "m div 10 = n div 10" "m mod 10 = n mod 10" by (auto intro: digit_inj)
    then show ?thesis by (metis div_mult_mod_eq)
  qed (use eq in \<open>auto simp: dec_digits.simps [of m] dec_digits.simps [of n] dest: digit_inj split: if_splits\<close>)
qed

lemma dec_digits_length: "n < 10 ^ Suc k \<Longrightarrow> length (dec_digits n) \<le> Suc k"
proof (induction k arbitrary: n)
  case (Suc k)
  then have "n div 10 < 10 ^ Suc k" by (simp add: less_mult_imp_div_less mult.commute)
  with Suc.IH show ?case by (simp add: dec_digits.simps [of n])
qed (simp add: dec_digits.simps)

end
