(* ===== verification/Sock_Linux.thy ===== *)
theory Sock_Linux
  imports Decimal
begin

text \<open>
  The socket platform layer on Linux, \<^verbatim>\<open>src/net/linux/sock_linux.c\<close>, over system calls that are a
  parameter: \<open>os c w\<close> is the kernel's answer to call \<open>c\<close> in world \<open>w\<close>. The calls carry exactly the
  arguments the code passes; the answer has the return value, the error number of a failing call
  and what the kernel wrote to out-parameters. \<^verbatim>\<open>errno\<close> is part of the state because
  \<^verbatim>\<open>map_errno\<close> reads it after other calls (such as \<^verbatim>\<open>close\<close>) have run. Data handed to the kernel is
  a list of memory cells, data received a list of bytes. Out-parameters are results, so the checks
  for \<^verbatim>\<open>NULL\<close> out-pointers have no counterpart; memory of resolved address lists is not tracked.
\<close>

unbundle bit_operations_syntax

section \<open>System calls\<close>

datatype saddr = SA_inet string u16 | SA_inet6 string u16 | SA_other

datatype in_addr = INADDR_ANY | Inet_addr string

record addrinfo =
  ai_family :: int
  ai_socktype :: int
  ai_protocol :: int
  ai_addr :: saddr

datatype sockopt =
    SO_REUSEADDR int
  | SO_REUSEPORT int
  | SO_BROADCAST int
  | TCP_NODELAY int
  | TCP_CONGESTION string
  | IP_MULTICAST_ALL int
  | IP_MULTICAST_TTL u8
  | IP_MULTICAST_IF in_addr
  | IP_MULTICAST_LOOP u8
  | IP_ADD_MEMBERSHIP in_addr in_addr
  | IP_DROP_MEMBERSHIP in_addr in_addr
  | IP_ADD_SOURCE_MEMBERSHIP in_addr in_addr in_addr
  | IP_DROP_SOURCE_MEMBERSHIP in_addr in_addr in_addr

datatype epoll_op = EPOLL_CTL_ADD | EPOLL_CTL_MOD | EPOLL_CTL_DEL

datatype syscall =
    Sys_getfl int
  | Sys_setfl int int
  | Sys_getfd int
  | Sys_setfd int int
  | Sys_setsockopt int sockopt
  | Sys_so_error int
  | Sys_getaddrinfo "string option" string int int bool
  | Sys_socket int int int
  | Sys_bind int saddr
  | Sys_listen int int
  | Sys_connect int saddr
  | Sys_accept int
  | Sys_close int
  | Sys_getsockname int
  | Sys_getpeername int
  | Sys_send int mem
  | Sys_writev int "mem list"
  | Sys_recv int nat
  | Sys_sendto int mem saddr
  | Sys_recvfrom int nat
  | Sys_epoll_create1
  | Sys_epoll_create int
  | Sys_epoll_ctl int epoll_op int u32
  | Sys_epoll_wait int nat int
  | Sys_pipe2
  | Sys_pipe
  | Sys_read int nat
  | Sys_write int mem

datatype errno_t = E_NONE | EAGAIN | ETIMEDOUT | EINPROGRESS | EINTR | E_OTHER int

record sysres =
  ret :: int
  res_errno :: errno_t
  res_addrs :: "addrinfo list"
  res_addr :: saddr
  res_bytes :: "u8 list"
  res_int :: int
  res_errval :: errno_t
  res_evs :: "(u32 \<times> int) list"
  res_fds :: "int \<times> int"

type_synonym 'w os = "syscall \<Rightarrow> 'w \<Rightarrow> sysres \<times> 'w"

record 'w sys =
  errno :: errno_t
  world :: 'w

text \<open>A call that fails (a negative return value) sets \<^verbatim>\<open>errno\<close>; others leave it alone.\<close>

definition sysc :: "'w os \<Rightarrow> syscall \<Rightarrow> 'w sys \<Rightarrow> sysres \<times> 'w sys" where
  "sysc os c s =
     (let (r, w) = os c (world s) in
      (r, \<lparr>errno = (if ret r < 0 then res_errno r else errno s), world = w\<rparr>))"

section \<open>Error mapping and descriptor flags\<close>

text \<open>On Linux \<^verbatim>\<open>EWOULDBLOCK\<close> is \<^verbatim>\<open>EAGAIN\<close>.\<close>

definition map_errno :: "'w sys \<Rightarrow> ztk_err" where
  "map_errno s =
     (if errno s = EAGAIN then ZTK_ERR_AGAIN
      else if errno s = ETIMEDOUT then ZTK_ERR_TIMEOUT else ZTK_ERR_IO)"

definition is_any_host :: "string option \<Rightarrow> bool" where
  "is_any_host host =
     (case host of None \<Rightarrow> True | Some h \<Rightarrow> h = '''' \<or> h = ''0.0.0.0'' \<or> h = ''::'')"

definition O_NONBLOCK :: int where "O_NONBLOCK = 2048"
definition FD_CLOEXEC :: int where "FD_CLOEXEC = 1"

definition set_nonblock :: "'w os \<Rightarrow> int \<Rightarrow> bool \<Rightarrow> 'w sys \<Rightarrow> ztk_err \<times> 'w sys" where
  "set_nonblock os fd on s =
     (let (r, s1) = sysc os (Sys_getfl fd) s; flags = ret r in
      if flags < 0 then (ZTK_ERR_PLATFORM, s1)
      else let flags = (if on then flags OR O_NONBLOCK else flags AND NOT O_NONBLOCK);
               (r2, s2) = sysc os (Sys_setfl fd flags) s1
           in (if ret r2 = 0 then ZTK_OK else ZTK_ERR_PLATFORM, s2))"

definition set_cloexec :: "'w os \<Rightarrow> int \<Rightarrow> 'w sys \<Rightarrow> ztk_err \<times> 'w sys" where
  "set_cloexec os fd s =
     (let (r, s1) = sysc os (Sys_getfd fd) s; flags = ret r in
      if flags < 0 then (ZTK_ERR_PLATFORM, s1)
      else let (r2, s2) = sysc os (Sys_setfd fd (flags OR FD_CLOEXEC)) s1
           in if ret r2 \<noteq> 0 then (ZTK_ERR_PLATFORM, s2) else (ZTK_OK, s2))"

definition set_opt :: "'w os \<Rightarrow> int \<Rightarrow> sockopt \<Rightarrow> 'w sys \<Rightarrow> ztk_err \<times> 'w sys" where
  "set_opt os fd opt s =
     (let (r, s1) = sysc os (Sys_setsockopt fd opt) s in
      (if ret r = 0 then ZTK_OK else ZTK_ERR_PLATFORM, s1))"

definition set_reuseaddr :: "'w os \<Rightarrow> int \<Rightarrow> bool \<Rightarrow> 'w sys \<Rightarrow> ztk_err \<times> 'w sys" where
  "set_reuseaddr os fd on = set_opt os fd (SO_REUSEADDR (if on then 1 else 0))"

definition set_reuseport :: "'w os \<Rightarrow> int \<Rightarrow> bool \<Rightarrow> 'w sys \<Rightarrow> ztk_err \<times> 'w sys" where
  "set_reuseport os fd on = set_opt os fd (SO_REUSEPORT (if on then 1 else 0))"

definition set_nodelay :: "'w os \<Rightarrow> int \<Rightarrow> 'w sys \<Rightarrow> ztk_err \<times> 'w sys" where
  "set_nodelay os fd = set_opt os fd (TCP_NODELAY 1)"

definition ztk_sockplat_init :: ztk_err where
  "ztk_sockplat_init = ZTK_OK"

definition ztk_sockplat_apply_tcp_server_opts :: "'w os \<Rightarrow> int \<Rightarrow> 'w sys \<Rightarrow> ztk_err \<times> 'w sys" where
  "ztk_sockplat_apply_tcp_server_opts os fd s =
     (let (e1, s1) = set_nonblock os fd True s in
      if e1 \<noteq> ZTK_OK then (ZTK_ERR_PLATFORM, s1)
      else let (e2, s2) = set_cloexec os fd s1 in
        if e2 \<noteq> ZTK_OK then (ZTK_ERR_PLATFORM, s2)
        else (ZTK_OK, snd (set_reuseaddr os fd True s2)))"

definition ztk_sockplat_apply_tcp_client_opts :: "'w os \<Rightarrow> int \<Rightarrow> 'w sys \<Rightarrow> ztk_err \<times> 'w sys" where
  "ztk_sockplat_apply_tcp_client_opts os fd s =
     (let (e1, s1) = set_nonblock os fd True s in
      if e1 \<noteq> ZTK_OK then (ZTK_ERR_PLATFORM, s1)
      else let (e2, s2) = set_cloexec os fd s1 in
        if e2 \<noteq> ZTK_OK then (ZTK_ERR_PLATFORM, s2)
        else (ZTK_OK, snd (set_nodelay os fd s2)))"

definition ztk_sockplat_apply_udp_opts :: "'w os \<Rightarrow> int \<Rightarrow> 'w sys \<Rightarrow> ztk_err \<times> 'w sys" where
  "ztk_sockplat_apply_udp_opts os fd s =
     (let (e1, s1) = set_nonblock os fd True s in
      if e1 \<noteq> ZTK_OK then (ZTK_ERR_PLATFORM, s1)
      else let (e2, s2) = set_cloexec os fd s1 in
        if e2 \<noteq> ZTK_OK then (ZTK_ERR_PLATFORM, s2) else (ZTK_OK, s2))"

section \<open>Name resolution\<close>

definition SOCK_STREAM :: int where "SOCK_STREAM = 1"
definition SOCK_DGRAM :: int where "SOCK_DGRAM = 2"
definition AF_UNSPEC :: int where "AF_UNSPEC = 0"
definition AF_INET :: int where "AF_INET = 2"
definition ZTK_TCP_DEFAULT_BACKLOG :: int where "ZTK_TCP_DEFAULT_BACKLOG = 128"
definition ZTK_SOCK_IOV_MAX :: nat where "ZTK_SOCK_IOV_MAX = 16"

text \<open>\<^verbatim>\<open>snprintf(port_str, 16, "%u", port)\<close>: a port has at most five digits.\<close>

definition port_str :: "u16 \<Rightarrow> string" where
  "port_str port = dec_digits (unat port)"

definition resolve_bind ::
    "'w os \<Rightarrow> string option \<Rightarrow> u16 \<Rightarrow> int \<Rightarrow> bool \<Rightarrow> 'w sys \<Rightarrow> (ztk_err \<times> addrinfo list) \<times> 'w sys" where
  "resolve_bind os host port type passive s =
     (let family = (if is_any_host host then AF_INET else AF_UNSPEC);
          (r, s1) = sysc os (Sys_getaddrinfo (if is_any_host host then None else host) (port_str port)
                               family type passive) s
      in if ret r \<noteq> 0 then ((ZTK_ERR_IO, []), s1) else ((ZTK_OK, res_addrs r), s1))"

definition resolve_connect ::
    "'w os \<Rightarrow> string \<Rightarrow> u16 \<Rightarrow> 'w sys \<Rightarrow> (ztk_err \<times> addrinfo list) \<times> 'w sys" where
  "resolve_connect os host port s =
     (let (r, s1) = sysc os (Sys_getaddrinfo (Some host) (port_str port) AF_UNSPEC SOCK_STREAM False) s
      in if ret r \<noteq> 0 then ((ZTK_ERR_IO, []), s1) else ((ZTK_OK, res_addrs r), s1))"

definition resolve_endpoint ::
    "'w os \<Rightarrow> string option \<Rightarrow> u16 \<Rightarrow> 'w sys \<Rightarrow> (ztk_err \<times> addrinfo list) \<times> 'w sys" where
  "resolve_endpoint os ip port s =
     (let (r, s1) = sysc os (Sys_getaddrinfo ip (port_str port) AF_UNSPEC SOCK_DGRAM False) s
      in if ret r \<noteq> 0 then ((ZTK_ERR_IO, []), s1) else ((ZTK_OK, res_addrs r), s1))"

section \<open>Opening descriptors\<close>

text \<open>
  Each loop tries the resolved addresses in order; its result is the value the variable \<^verbatim>\<open>fd\<close> has
  after the loop.
\<close>

definition close_next :: "'w os \<Rightarrow> int \<Rightarrow> 'w sys \<Rightarrow> 'w sys" where
  "close_next os fd s = snd (sysc os (Sys_close fd) s)"

fun listen_loop :: "'w os \<Rightarrow> int \<Rightarrow> addrinfo list \<Rightarrow> int \<Rightarrow> 'w sys \<Rightarrow> int \<times> 'w sys" where
  "listen_loop os backlog [] fd s = (fd, s)"
| "listen_loop os backlog (p # ps) _ s =
     (let (r, s1) = sysc os (Sys_socket (ai_family p) (ai_socktype p) (ai_protocol p)) s; fd = ret r in
      if fd < 0 then listen_loop os backlog ps fd s1
      else let (e, s2) = ztk_sockplat_apply_tcp_server_opts os fd s1 in
      if e \<noteq> ZTK_OK then listen_loop os backlog ps (- 1) (close_next os fd s2)
      else let (_, s3) = set_reuseaddr os fd True s2; (rb, s4) = sysc os (Sys_bind fd (ai_addr p)) s3 in
      if ret rb \<noteq> 0 then listen_loop os backlog ps (- 1) (close_next os fd s4)
      else let (rl, s5) = sysc os (Sys_listen fd (if backlog > 0 then backlog else ZTK_TCP_DEFAULT_BACKLOG)) s4 in
      if ret rl \<noteq> 0 then listen_loop os backlog ps (- 1) (close_next os fd s5)
      else (fd, s5))"

definition bind_and_listen ::
    "'w os \<Rightarrow> string option \<Rightarrow> u16 \<Rightarrow> int \<Rightarrow> 'w sys \<Rightarrow> (ztk_err \<times> int option) \<times> 'w sys" where
  "bind_and_listen os host port backlog s =
     (let ((e, res), s1) = resolve_bind os host port SOCK_STREAM True s in
      if e \<noteq> ZTK_OK then ((e, None), s1)
      else let (fd, s2) = listen_loop os backlog res (- 1) s1 in
        if fd < 0 then ((map_errno s2, None), s2) else ((ZTK_OK, Some fd), s2))"

definition ztk_sockplat_listen ::
    "'w os \<Rightarrow> string option \<Rightarrow> u16 \<Rightarrow> int \<Rightarrow> 'w sys \<Rightarrow> (ztk_err \<times> int option) \<times> 'w sys" where
  "ztk_sockplat_listen os host port backlog s = bind_and_listen os host port backlog s"

fun bind_udp_loop :: "'w os \<Rightarrow> bool \<Rightarrow> bool \<Rightarrow> addrinfo list \<Rightarrow> int \<Rightarrow> 'w sys \<Rightarrow> int \<times> 'w sys" where
  "bind_udp_loop os ra rp [] fd s = (fd, s)"
| "bind_udp_loop os ra rp (p # ps) _ s =
     (let (r, s1) = sysc os (Sys_socket (ai_family p) (ai_socktype p) (ai_protocol p)) s; fd = ret r in
      if fd < 0 then bind_udp_loop os ra rp ps fd s1
      else let (e, s2) = ztk_sockplat_apply_udp_opts os fd s1 in
      if e \<noteq> ZTK_OK then bind_udp_loop os ra rp ps (- 1) (close_next os fd s2)
      else let s3 = (if ra then snd (set_reuseaddr os fd True s2) else s2);
               (e2, s4) = (if rp then set_reuseport os fd True s3 else (ZTK_OK, s3)) in
      if e2 \<noteq> ZTK_OK then bind_udp_loop os ra rp ps (- 1) (close_next os fd s4)
      else let (rb, s5) = sysc os (Sys_bind fd (ai_addr p)) s4 in
      if ret rb \<noteq> 0 then bind_udp_loop os ra rp ps (- 1) (close_next os fd s5)
      else (fd, s5))"

definition ztk_sockplat_bind_udp ::
    "'w os \<Rightarrow> string option \<Rightarrow> u16 \<Rightarrow> bool \<Rightarrow> bool \<Rightarrow> 'w sys \<Rightarrow> (ztk_err \<times> int option) \<times> 'w sys" where
  "ztk_sockplat_bind_udp os host port reuse_addr reuse_port s =
     (let ((e, res), s1) = resolve_bind os host port SOCK_DGRAM True s in
      if e \<noteq> ZTK_OK then ((e, None), s1)
      else let (fd, s2) = bind_udp_loop os reuse_addr reuse_port res (- 1) s1 in
        if fd < 0 then ((map_errno s2, None), s2) else ((ZTK_OK, Some fd), s2))"

text \<open>The second component of the loop's result is \<^verbatim>\<open>*in_progress\<close>.\<close>

fun connect_loop :: "'w os \<Rightarrow> addrinfo list \<Rightarrow> int \<Rightarrow> 'w sys \<Rightarrow> (int \<times> bool) \<times> 'w sys" where
  "connect_loop os [] fd s = ((fd, False), s)"
| "connect_loop os (p # ps) _ s =
     (let (r, s1) = sysc os (Sys_socket (ai_family p) (ai_socktype p) (ai_protocol p)) s; fd = ret r in
      if fd < 0 then connect_loop os ps fd s1
      else let (e, s2) = ztk_sockplat_apply_tcp_client_opts os fd s1 in
      if e \<noteq> ZTK_OK then connect_loop os ps (- 1) (close_next os fd s2)
      else let (rc, s3) = sysc os (Sys_connect fd (ai_addr p)) s2 in
      if ret rc = 0 then ((fd, False), s3)
      else if errno s3 = EINPROGRESS then ((fd, True), s3)
      else connect_loop os ps (- 1) (close_next os fd s3))"

definition ztk_sockplat_connect ::
    "'w os \<Rightarrow> string option \<Rightarrow> u16 \<Rightarrow> 'w sys \<Rightarrow> (ztk_err \<times> int option \<times> bool) \<times> 'w sys" where
  "ztk_sockplat_connect os host port s =
     (case host of None \<Rightarrow> ((ZTK_ERR_INVALID, None, False), s)
      | Some h \<Rightarrow>
        let ((e, res), s1) = resolve_connect os h port s in
        if e \<noteq> ZTK_OK then ((e, None, False), s1)
        else let ((fd, pend), s2) = connect_loop os res (- 1) s1 in
          if fd < 0 then ((map_errno s2, None, pend), s2) else ((ZTK_OK, Some fd, pend), s2))"

definition ztk_sockplat_accept :: "'w os \<Rightarrow> int \<Rightarrow> 'w sys \<Rightarrow> (ztk_err \<times> int option) \<times> 'w sys" where
  "ztk_sockplat_accept os listen_fd s =
     (let (r, s1) = sysc os (Sys_accept listen_fd) s; fd = ret r in
      if fd < 0 then ((map_errno s1, None), s1)
      else ((ZTK_OK, Some fd), snd (ztk_sockplat_apply_tcp_client_opts os fd s1)))"

definition ztk_sockplat_close :: "'w os \<Rightarrow> int \<Rightarrow> 'w sys \<Rightarrow> ztk_err \<times> 'w sys" where
  "ztk_sockplat_close os fd s =
     (if fd < 0 then (ZTK_OK, s)
      else let (r, s1) = sysc os (Sys_close fd) s in (if ret r = 0 then ZTK_OK else map_errno s1, s1))"

section \<open>Addresses\<close>

text \<open>
  \<open>ip_len\<close> is the size of the text buffer, \<open>None\<close> for a \<^verbatim>\<open>NULL\<close> buffer; \<open>want_port\<close> tells whether
  the port pointer is given. The result has what was written to each. \<^verbatim>\<open>inet_ntop\<close> fails when the
  text and its NUL do not fit.
\<close>

definition ntop :: "string \<Rightarrow> nat option \<Rightarrow> string option option" where
  "ntop text ip_len =
     (case ip_len of None \<Rightarrow> Some None
      | Some n \<Rightarrow> if n = 0 then Some None else if length text < n then Some (Some text) else None)"

definition addr_to_string ::
    "saddr \<Rightarrow> nat option \<Rightarrow> bool \<Rightarrow> ztk_err \<times> string option \<times> u16 option" where
  "addr_to_string sa ip_len want_port =
     (case sa of
        SA_inet text port \<Rightarrow>
          (case ntop text ip_len of None \<Rightarrow> (ZTK_ERR_PLATFORM, None, None)
           | Some t \<Rightarrow> (ZTK_OK, t, if want_port then Some port else None))
      | SA_inet6 text port \<Rightarrow>
          (case ntop text ip_len of None \<Rightarrow> (ZTK_ERR_PLATFORM, None, None)
           | Some t \<Rightarrow> (ZTK_OK, t, if want_port then Some port else None))
      | SA_other \<Rightarrow> (ZTK_ERR_PLATFORM, None, None))"

definition ztk_sockplat_get_local ::
    "'w os \<Rightarrow> int \<Rightarrow> nat option \<Rightarrow> bool \<Rightarrow> 'w sys \<Rightarrow> (ztk_err \<times> string option \<times> u16 option) \<times> 'w sys" where
  "ztk_sockplat_get_local os fd ip_len want_port s =
     (let (r, s1) = sysc os (Sys_getsockname fd) s in
      if ret r \<noteq> 0 then ((map_errno s1, None, None), s1)
      else (addr_to_string (res_addr r) ip_len want_port, s1))"

definition ztk_sockplat_get_peer ::
    "'w os \<Rightarrow> int \<Rightarrow> nat option \<Rightarrow> bool \<Rightarrow> 'w sys \<Rightarrow> (ztk_err \<times> string option \<times> u16 option) \<times> 'w sys" where
  "ztk_sockplat_get_peer os fd ip_len want_port s =
     (let (r, s1) = sysc os (Sys_getpeername fd) s in
      if ret r \<noteq> 0 then ((map_errno s1, None, None), s1)
      else (addr_to_string (res_addr r) ip_len want_port, s1))"

text \<open>A pending socket error is stored into \<^verbatim>\<open>errno\<close> and mapped.\<close>

definition ztk_sockplat_check_connect :: "'w os \<Rightarrow> int \<Rightarrow> 'w sys \<Rightarrow> ztk_err \<times> 'w sys" where
  "ztk_sockplat_check_connect os fd s =
     (let (r, s1) = sysc os (Sys_getpeername fd) s in
      if ret r = 0 then (ZTK_OK, s1)
      else let (r2, s2) = sysc os (Sys_so_error fd) s1 in
        if ret r2 \<noteq> 0 then (map_errno s2, s2)
        else if res_errval r2 = E_NONE then (ZTK_ERR_AGAIN, s2)
        else let s3 = s2\<lparr>errno := res_errval r2\<rparr> in (map_errno s3, s3))"

section \<open>Data transfer\<close>

definition io_result :: "sysres \<times> 'w sys \<Rightarrow> int \<times> 'w sys" where
  "io_result rs = (let (r, s) = rs in (if ret r < 0 then err_code (map_errno s) else ret r, s))"

definition ztk_sockplat_send :: "'w os \<Rightarrow> int \<Rightarrow> mem \<Rightarrow> 'w sys \<Rightarrow> int \<times> 'w sys" where
  "ztk_sockplat_send os fd buf s = io_result (sysc os (Sys_send fd buf) s)"

definition ztk_sockplat_sendv :: "'w os \<Rightarrow> int \<Rightarrow> mem list \<Rightarrow> 'w sys \<Rightarrow> int \<times> 'w sys" where
  "ztk_sockplat_sendv os fd iov s =
     (if iov = [] then (err_code ZTK_ERR_INVALID, s)
      else io_result (sysc os (Sys_writev fd (take ZTK_SOCK_IOV_MAX iov)) s))"

text \<open>Receiving gives the return value and the bytes the kernel stored in the buffer.\<close>

definition ztk_sockplat_recv :: "'w os \<Rightarrow> int \<Rightarrow> nat \<Rightarrow> 'w sys \<Rightarrow> (int \<times> u8 list) \<times> 'w sys" where
  "ztk_sockplat_recv os fd len s =
     (let rs = sysc os (Sys_recv fd len) s; (n, s1) = io_result rs in ((n, res_bytes (fst rs)), s1))"

fun sendto_loop :: "'w os \<Rightarrow> int \<Rightarrow> mem \<Rightarrow> addrinfo list \<Rightarrow> int \<Rightarrow> 'w sys \<Rightarrow> int \<times> 'w sys" where
  "sendto_loop os fd buf [] n s = (n, s)"
| "sendto_loop os fd buf (p # ps) _ s =
     (let (r, s1) = sysc os (Sys_sendto fd buf (ai_addr p)) s in
      if ret r \<ge> 0 then (ret r, s1) else sendto_loop os fd buf ps (ret r) s1)"

definition ztk_sockplat_sendto ::
    "'w os \<Rightarrow> int \<Rightarrow> mem \<Rightarrow> string option \<Rightarrow> u16 \<Rightarrow> 'w sys \<Rightarrow> int \<times> 'w sys" where
  "ztk_sockplat_sendto os fd buf ip port s =
     (let ((e, res), s1) = resolve_endpoint os ip port s in
      if e \<noteq> ZTK_OK then (err_code ZTK_ERR_IO, s1)
      else let (n, s2) = sendto_loop os fd buf res (- 1) s1 in
        (if n < 0 then err_code (map_errno s2) else n, s2))"

text \<open>
  \<^verbatim>\<open>recvfrom\<close> also returns what was stored for the sender's address; a failure to convert it is
  ignored and leaves the caller's buffers as they were.
\<close>

definition ztk_sockplat_recvfrom ::
    "'w os \<Rightarrow> int \<Rightarrow> nat \<Rightarrow> nat option \<Rightarrow> bool \<Rightarrow> 'w sys \<Rightarrow>
     (int \<times> u8 list \<times> string option \<times> u16 option) \<times> 'w sys" where
  "ztk_sockplat_recvfrom os fd len ip_len want_port s =
     (let (r, s1) = sysc os (Sys_recvfrom fd len) s in
      if ret r < 0 then ((err_code (map_errno s1), [], None, None), s1)
      else let peer = (case ip_len of None \<Rightarrow> (None, None)
                       | Some n \<Rightarrow> if n > 0 then snd (addr_to_string (res_addr r) ip_len want_port)
                                   else (None, None))
           in ((ret r, res_bytes r, peer), s1))"

section \<open>Options\<close>

definition ztk_sockplat_set_tcp_bbr :: "'w os \<Rightarrow> int \<Rightarrow> bool \<Rightarrow> 'w sys \<Rightarrow> ztk_err \<times> 'w sys" where
  "ztk_sockplat_set_tcp_bbr os fd on s =
     (let (r, s1) = sysc os (Sys_setsockopt fd (TCP_CONGESTION (if on then ''bbr'' else ''cubic''))) s in
      if ret r \<noteq> 0 then (map_errno s1, s1) else (ZTK_OK, s1))"

definition multicast_if_addr :: "string option \<Rightarrow> in_addr" where
  "multicast_if_addr local_if =
     (case local_if of None \<Rightarrow> INADDR_ANY
      | Some l \<Rightarrow> if l = '''' \<or> l = ''0.0.0.0'' then INADDR_ANY else Inet_addr l)"

definition clear_multicast_all :: "'w os \<Rightarrow> int \<Rightarrow> 'w sys \<Rightarrow> 'w sys" where
  "clear_multicast_all os fd s = snd (sysc os (Sys_setsockopt fd (IP_MULTICAST_ALL 0)) s)"

definition ztk_sockplat_set_broadcast :: "'w os \<Rightarrow> int \<Rightarrow> bool \<Rightarrow> 'w sys \<Rightarrow> ztk_err \<times> 'w sys" where
  "ztk_sockplat_set_broadcast os fd on = set_opt os fd (SO_BROADCAST (if on then 1 else 0))"

definition ztk_sockplat_set_multicast_ttl :: "'w os \<Rightarrow> int \<Rightarrow> u8 \<Rightarrow> 'w sys \<Rightarrow> ztk_err \<times> 'w sys" where
  "ztk_sockplat_set_multicast_ttl os fd ttl s =
     (let (r, s1) = sysc os (Sys_setsockopt fd (IP_MULTICAST_TTL ttl)) s in
      if ret r \<noteq> 0 then (ZTK_ERR_PLATFORM, s1) else (ZTK_OK, clear_multicast_all os fd s1))"

definition ztk_sockplat_set_multicast_if ::
    "'w os \<Rightarrow> int \<Rightarrow> string option \<Rightarrow> 'w sys \<Rightarrow> ztk_err \<times> 'w sys" where
  "ztk_sockplat_set_multicast_if os fd local_ip s =
     (let (r, s1) = sysc os (Sys_setsockopt fd (IP_MULTICAST_IF (multicast_if_addr local_ip))) s in
      if ret r \<noteq> 0 then (ZTK_ERR_PLATFORM, s1) else (ZTK_OK, clear_multicast_all os fd s1))"

definition ztk_sockplat_set_multicast_loop :: "'w os \<Rightarrow> int \<Rightarrow> bool \<Rightarrow> 'w sys \<Rightarrow> ztk_err \<times> 'w sys" where
  "ztk_sockplat_set_multicast_loop os fd on s =
     (let (r, s1) = sysc os (Sys_setsockopt fd (IP_MULTICAST_LOOP (if on then 1 else 0))) s in
      if ret r \<noteq> 0 then (ZTK_ERR_PLATFORM, s1) else (ZTK_OK, clear_multicast_all os fd s1))"

definition ztk_sockplat_join_multicast ::
    "'w os \<Rightarrow> int \<Rightarrow> string \<Rightarrow> string option \<Rightarrow> 'w sys \<Rightarrow> ztk_err \<times> 'w sys" where
  "ztk_sockplat_join_multicast os fd grp local_if s =
     (let (r, s1) = sysc os (Sys_setsockopt fd
                      (IP_ADD_MEMBERSHIP (Inet_addr grp) (multicast_if_addr local_if))) s in
      if ret r \<noteq> 0 then (map_errno s1, s1) else (ZTK_OK, clear_multicast_all os fd s1))"

definition ztk_sockplat_leave_multicast ::
    "'w os \<Rightarrow> int \<Rightarrow> string \<Rightarrow> string option \<Rightarrow> 'w sys \<Rightarrow> ztk_err \<times> 'w sys" where
  "ztk_sockplat_leave_multicast os fd grp local_if s =
     (let (r, s1) = sysc os (Sys_setsockopt fd
                      (IP_DROP_MEMBERSHIP (Inet_addr grp) (multicast_if_addr local_if))) s in
      if ret r \<noteq> 0 then (map_errno s1, s1) else (ZTK_OK, s1))"

definition ztk_sockplat_join_multicast_filter ::
    "'w os \<Rightarrow> int \<Rightarrow> string \<Rightarrow> string \<Rightarrow> string option \<Rightarrow> 'w sys \<Rightarrow> ztk_err \<times> 'w sys" where
  "ztk_sockplat_join_multicast_filter os fd grp src_ip local_if s =
     (let (r, s1) = sysc os (Sys_setsockopt fd
                      (IP_ADD_SOURCE_MEMBERSHIP (Inet_addr grp) (Inet_addr src_ip) (multicast_if_addr local_if))) s in
      if ret r \<noteq> 0 then (map_errno s1, s1) else (ZTK_OK, clear_multicast_all os fd s1))"

definition ztk_sockplat_leave_multicast_filter ::
    "'w os \<Rightarrow> int \<Rightarrow> string \<Rightarrow> string \<Rightarrow> string option \<Rightarrow> 'w sys \<Rightarrow> ztk_err \<times> 'w sys" where
  "ztk_sockplat_leave_multicast_filter os fd grp src_ip local_if s =
     (let (r, s1) = sysc os (Sys_setsockopt fd
                      (IP_DROP_SOURCE_MEMBERSHIP (Inet_addr grp) (Inet_addr src_ip) (multicast_if_addr local_if))) s in
      if ret r \<noteq> 0 then (map_errno s1, s1) else (ZTK_OK, s1))"

section \<open>The kernel's contract on descriptors\<close>

text \<open>
  \<open>opn w\<close> is the set of open descriptors of the process. Opening calls return a number not in use,
  \<^verbatim>\<open>close\<close> releases its argument (on Linux also when it reports an error), all other calls leave
  the table alone.
\<close>

definition opens :: "('w \<Rightarrow> int set) \<Rightarrow> 'w \<Rightarrow> 'w \<Rightarrow> int \<Rightarrow> bool" where
  "opens opn w w' fd \<longleftrightarrow>
     (if fd < 0 then opn w' = opn w else fd \<notin> opn w \<and> opn w' = insert fd (opn w))"

definition opens_two :: "('w \<Rightarrow> int set) \<Rightarrow> 'w \<Rightarrow> 'w \<Rightarrow> sysres \<Rightarrow> bool" where
  "opens_two opn w w' r \<longleftrightarrow>
     (case res_fds r of (a, b) \<Rightarrow>
        if ret r = 0 then a \<notin> opn w \<and> b \<notin> opn w \<and> a \<noteq> b \<and> 0 \<le> a \<and> 0 \<le> b \<and> opn w' = {a, b} \<union> opn w
        else opn w' = opn w)"

definition fd_effect :: "('w \<Rightarrow> int set) \<Rightarrow> syscall \<Rightarrow> 'w \<Rightarrow> sysres \<Rightarrow> 'w \<Rightarrow> bool" where
  "fd_effect opn c w r w' \<longleftrightarrow>
     (case c of
        Sys_socket _ _ _ \<Rightarrow> opens opn w w' (ret r)
      | Sys_accept _ \<Rightarrow> opens opn w w' (ret r)
      | Sys_epoll_create1 \<Rightarrow> opens opn w w' (ret r)
      | Sys_epoll_create _ \<Rightarrow> opens opn w w' (ret r)
      | Sys_pipe2 \<Rightarrow> opens_two opn w w' r
      | Sys_pipe \<Rightarrow> opens_two opn w w' r
      | Sys_close fd \<Rightarrow> opn w' = opn w - {fd}
      | _ \<Rightarrow> opn w' = opn w)"

definition fds_ok :: "'w os \<Rightarrow> ('w \<Rightarrow> int set) \<Rightarrow> bool" where
  "fds_ok os opn \<longleftrightarrow> (\<forall>c w. case os c w of (r, w') \<Rightarrow> fd_effect opn c w r w')"

abbreviation op_of :: "('w \<Rightarrow> int set) \<Rightarrow> 'w sys \<Rightarrow> int set" where
  "op_of opn s \<equiv> opn (world s)"

lemma sysc_fds:
  "fds_ok os opn \<Longrightarrow> sysc os c s = (r, s') \<Longrightarrow> fd_effect opn c (world s) r (world s')"
  by (fastforce simp: fds_ok_def sysc_def split: prod.splits)

named_theorems fd_keep \<open>operations that leave the descriptor table alone\<close>

lemma sysc_keeps:
  assumes "fds_ok os opn" and "\<And>w r w'. fd_effect opn c w r w' \<Longrightarrow> opn w' = opn w"
  shows "op_of opn (snd (sysc os c s)) = op_of opn s"
  using assms(2) [OF sysc_fds [OF assms(1), of c s "fst (sysc os c s)" "snd (sysc os c s)"]] by simp

lemma sysc_keep_calls [fd_keep]:
  assumes "fds_ok os opn"
  shows "op_of opn (snd (sysc os (Sys_bind fd a) s)) = op_of opn s"
    and "op_of opn (snd (sysc os (Sys_listen fd n) s)) = op_of opn s"
    and "op_of opn (snd (sysc os (Sys_connect fd a) s)) = op_of opn s"
    and "op_of opn (snd (sysc os (Sys_getaddrinfo h p i j k) s)) = op_of opn s"
    and "op_of opn (snd (sysc os (Sys_setsockopt fd so) s)) = op_of opn s"
    and "op_of opn (snd (sysc os (Sys_getpeername fd) s)) = op_of opn s"
    and "op_of opn (snd (sysc os (Sys_getsockname fd) s)) = op_of opn s"
    and "op_of opn (snd (sysc os (Sys_so_error fd) s)) = op_of opn s"
    and "op_of opn (snd (sysc os (Sys_send fd m) s)) = op_of opn s"
    and "op_of opn (snd (sysc os (Sys_writev fd ms) s)) = op_of opn s"
    and "op_of opn (snd (sysc os (Sys_recv fd n') s)) = op_of opn s"
    and "op_of opn (snd (sysc os (Sys_sendto fd m a) s)) = op_of opn s"
    and "op_of opn (snd (sysc os (Sys_recvfrom fd n') s)) = op_of opn s"
    and "op_of opn (snd (sysc os (Sys_getfl fd) s)) = op_of opn s"
    and "op_of opn (snd (sysc os (Sys_setfl fd i) s)) = op_of opn s"
    and "op_of opn (snd (sysc os (Sys_getfd fd) s)) = op_of opn s"
    and "op_of opn (snd (sysc os (Sys_setfd fd i) s)) = op_of opn s"
    and "op_of opn (snd (sysc os (Sys_epoll_ctl fd eop fd' ev) s)) = op_of opn s"
  by (rule sysc_keeps [OF assms], simp add: fd_effect_def)+

lemma set_flags_keep [fd_keep]:
  assumes "fds_ok os opn"
  shows "op_of opn (snd (set_opt os fd opt s)) = op_of opn s"
    and "op_of opn (snd (set_nonblock os fd on s)) = op_of opn s"
    and "op_of opn (snd (set_cloexec os fd s)) = op_of opn s"
    and "op_of opn (clear_multicast_all os fd s) = op_of opn s"
  by (simp_all add: set_opt_def set_nonblock_def set_cloexec_def clear_multicast_all_def Let_def split_def
        fd_keep [OF assms])

lemma apply_opts_keep [fd_keep]:
  assumes "fds_ok os opn"
  shows "op_of opn (snd (ztk_sockplat_apply_tcp_server_opts os fd s)) = op_of opn s"
    and "op_of opn (snd (ztk_sockplat_apply_tcp_client_opts os fd s)) = op_of opn s"
    and "op_of opn (snd (ztk_sockplat_apply_udp_opts os fd s)) = op_of opn s"
  by (simp_all add: fd_keep [OF assms] ztk_sockplat_apply_tcp_server_opts_def ztk_sockplat_apply_tcp_client_opts_def
        ztk_sockplat_apply_udp_opts_def set_reuseaddr_def set_nodelay_def split_def Let_def)

lemma close_next_fds: "fds_ok os opn \<Longrightarrow> op_of opn (close_next os fd s) = op_of opn s - {fd}"
  using sysc_fds [of os opn "Sys_close fd" s "fst (sysc os (Sys_close fd) s)"]
  by (simp add: close_next_def fd_effect_def)

lemma sockplat_close_fds:
  assumes "fds_ok os opn" and "0 \<le> fd"
  shows "op_of opn (snd (ztk_sockplat_close os fd s)) = op_of opn s - {fd}"
  using close_next_fds [OF assms(1), of fd s] assms(2)
  by (simp add: ztk_sockplat_close_def close_next_def split_def Let_def)

text \<open>One attempt at an address: a descriptor is opened, and either kept or closed again.\<close>

lemma opens_from: "opn w1 = opn w \<Longrightarrow> opens opn w1 w2 fd \<Longrightarrow> opens opn w w2 fd"
  by (auto simp: opens_def)

lemma opensI: "\<not> f < 0 \<Longrightarrow> f \<notin> opn w \<Longrightarrow> opn w' = insert f (opn w) \<Longrightarrow> opens opn w w' f"
  by (simp add: opens_def)

lemma sysc_socket:
  assumes "fds_ok os opn"
  shows "opens opn (world s) (world (snd (sysc os (Sys_socket a b c) s))) (ret (fst (sysc os (Sys_socket a b c) s)))"
  using sysc_fds [OF assms, of "Sys_socket a b c" s "fst (sysc os (Sys_socket a b c) s)"]
  by (simp add: fd_effect_def)

lemma sysc_accept:
  assumes "fds_ok os opn"
  shows "opens opn (world s) (world (snd (sysc os (Sys_accept l) s))) (ret (fst (sysc os (Sys_accept l) s)))"
  using sysc_fds [OF assms, of "Sys_accept l" s "fst (sysc os (Sys_accept l) s)"]
  by (simp add: fd_effect_def)

lemma opens_nonneg: "opens opn w w' fd \<Longrightarrow> \<not> fd < 0 \<Longrightarrow> fd \<notin> opn w \<and> opn w' = insert fd (opn w)"
  by (simp add: opens_def)

lemma opens_neg: "opens opn w w' fd \<Longrightarrow> fd < 0 \<Longrightarrow> opn w' = opn w"
  by (simp add: opens_def)

lemma listen_loop_fds:
  assumes "fds_ok os opn" and "fd < 0"
  shows "opens opn (world s) (world (snd (listen_loop os bl ps fd s))) (fst (listen_loop os bl ps fd s))"
  using assms(2)
proof (induction ps arbitrary: fd s)
  case Nil
  then show ?case by (simp add: opens_def)
next
  case (Cons p ps)
  note so = sysc_socket [OF assms(1), of s "ai_family p" "ai_socktype p" "ai_protocol p"]
  note IH = opens_from [where opn = opn and w = "world s", OF _ Cons.IH]
  show ?case
    using opens_nonneg [OF so] opens_neg [OF so]
    by (simp add: Let_def split_def set_reuseaddr_def fd_keep [OF assms(1)] close_next_fds [OF assms(1)] IH opensI)
qed

lemma bind_udp_loop_fds:
  assumes "fds_ok os opn" and "fd < 0"
  shows "opens opn (world s) (world (snd (bind_udp_loop os ra rp ps fd s))) (fst (bind_udp_loop os ra rp ps fd s))"
  using assms(2)
proof (induction ps arbitrary: fd s ra rp)
  case Nil
  then show ?case by (simp add: opens_def)
next
  case (Cons p ps)
  note so = sysc_socket [OF assms(1), of s "ai_family p" "ai_socktype p" "ai_protocol p"]
  note IH = opens_from [where opn = opn and w = "world s", OF _ Cons.IH]
  show ?case
    using opens_nonneg [OF so] opens_neg [OF so]
    by (simp add: Let_def split_def set_reuseaddr_def set_reuseport_def fd_keep [OF assms(1)] close_next_fds [OF assms(1)] IH opensI)
qed

lemma connect_loop_fds:
  assumes "fds_ok os opn" and "fd < 0"
  shows "opens opn (world s) (world (snd (connect_loop os ps fd s))) (fst (fst (connect_loop os ps fd s)))"
  using assms(2)
proof (induction ps arbitrary: fd s)
  case Nil
  then show ?case by (simp add: opens_def)
next
  case (Cons p ps)
  note so = sysc_socket [OF assms(1), of s "ai_family p" "ai_socktype p" "ai_protocol p"]
  note IH = opens_from [where opn = opn and w = "world s", OF _ Cons.IH]
  show ?case
    using opens_nonneg [OF so] opens_neg [OF so]
    by (simp add: Let_def split_def fd_keep [OF assms(1)] close_next_fds [OF assms(1)] IH opensI)
qed

text \<open>
  What an opening operation promises: success hands over one new descriptor, failure leaves the
  descriptor table as it was.
\<close>

definition hands_over :: "('w \<Rightarrow> int set) \<Rightarrow> 'w sys \<Rightarrow> ztk_err \<Rightarrow> int option \<Rightarrow> 'w sys \<Rightarrow> bool" where
  "hands_over opn s e fd s' \<longleftrightarrow>
     (case fd of None \<Rightarrow> e \<noteq> ZTK_OK \<and> op_of opn s' = op_of opn s
      | Some f \<Rightarrow> e = ZTK_OK \<and> 0 \<le> f \<and> f \<notin> op_of opn s \<and> op_of opn s' = insert f (op_of opn s))"

lemma map_errno_not_ok [simp]: "map_errno s \<noteq> ZTK_OK"
  by (simp add: map_errno_def)

lemma sockplat_listen_fds:
  assumes "fds_ok os opn" and "ztk_sockplat_listen os host port bl s = ((e, fd), s')"
  shows "hands_over opn s e fd s'"
proof -
  let ?r = "resolve_bind os host port SOCK_STREAM True s"
  have k: "op_of opn (snd ?r) = op_of opn s"
    by (simp add: resolve_bind_def Let_def split_def fd_keep [OF assms(1)])
  have z: "fst (fst ?r) = ZTK_OK \<or> fst (fst ?r) = ZTK_ERR_IO"
    by (simp add: resolve_bind_def Let_def split_def)
  show ?thesis
    using assms(2) k z listen_loop_fds [OF assms(1), of "- 1" "snd ?r" bl "snd (fst ?r)"]
    by (auto simp: ztk_sockplat_listen_def bind_and_listen_def hands_over_def opens_def Let_def split_def
        split: if_splits)
qed

lemma sockplat_bind_udp_fds:
  assumes "fds_ok os opn" and "ztk_sockplat_bind_udp os host port ra rp s = ((e, fd), s')"
  shows "hands_over opn s e fd s'"
proof -
  let ?r = "resolve_bind os host port SOCK_DGRAM True s"
  have k: "op_of opn (snd ?r) = op_of opn s"
    by (simp add: resolve_bind_def Let_def split_def fd_keep [OF assms(1)])
  have z: "fst (fst ?r) = ZTK_OK \<or> fst (fst ?r) = ZTK_ERR_IO"
    by (simp add: resolve_bind_def Let_def split_def)
  show ?thesis
    using assms(2) k z bind_udp_loop_fds [OF assms(1), of "- 1" "snd ?r" ra rp "snd (fst ?r)"]
    by (auto simp: ztk_sockplat_bind_udp_def hands_over_def opens_def Let_def split_def
        split: if_splits)
qed

lemma sockplat_connect_fds:
  assumes "fds_ok os opn" and "ztk_sockplat_connect os host port s = ((e, fd, pend), s')"
  shows "hands_over opn s e fd s'"
proof (cases host)
  case None
  with assms(2) show ?thesis by (auto simp: ztk_sockplat_connect_def hands_over_def)
next
  case (Some h)
  let ?r = "resolve_connect os h port s"
  have k: "op_of opn (snd ?r) = op_of opn s"
    by (simp add: resolve_connect_def Let_def split_def fd_keep [OF assms(1)])
  have z: "fst (fst ?r) = ZTK_OK \<or> fst (fst ?r) = ZTK_ERR_IO"
    by (simp add: resolve_connect_def Let_def split_def)
  show ?thesis
    using assms(2) Some k z connect_loop_fds [OF assms(1), of "- 1" "snd ?r" "snd (fst ?r)"]
    by (auto simp: ztk_sockplat_connect_def hands_over_def opens_def Let_def split_def
        split: if_splits)
qed

lemma sockplat_accept_fds:
  assumes "fds_ok os opn" and "ztk_sockplat_accept os l s = ((e, fd), s')"
  shows "hands_over opn s e fd s'"
  using assms(2) sysc_accept [OF assms(1), of s l]
  by (auto simp: ztk_sockplat_accept_def hands_over_def opens_def Let_def split_def fd_keep [OF assms(1)]
      split: if_splits)

section \<open>The kernel's contract on byte streams\<close>

text \<open>
  \<open>wire w fd\<close> is everything the kernel has accepted for transmission on \<open>fd\<close>. A send that returns a
  positive count takes that many bytes from the front of the data, at most all of it; any other
  answer, and every other call, takes none.
\<close>

definition takes :: "('w \<Rightarrow> int \<Rightarrow> mem) \<Rightarrow> 'w \<Rightarrow> 'w \<Rightarrow> int \<Rightarrow> mem \<Rightarrow> int \<Rightarrow> bool" where
  "takes wire w w' fd m n \<longleftrightarrow>
     (if 0 < n then nat n \<le> length m \<and> wire w' = (wire w)(fd := wire w fd @ take (nat n) m)
      else wire w' = wire w)"

definition wire_effect :: "('w \<Rightarrow> int \<Rightarrow> mem) \<Rightarrow> syscall \<Rightarrow> 'w \<Rightarrow> sysres \<Rightarrow> 'w \<Rightarrow> bool" where
  "wire_effect wire c w r w' \<longleftrightarrow>
     (case c of
        Sys_send fd m \<Rightarrow> takes wire w w' fd m (ret r)
      | Sys_writev fd ms \<Rightarrow> takes wire w w' fd (concat ms) (ret r)
      | _ \<Rightarrow> wire w' = wire w)"

definition sends_ok :: "'w os \<Rightarrow> ('w \<Rightarrow> int \<Rightarrow> mem) \<Rightarrow> bool" where
  "sends_ok os wire \<longleftrightarrow> (\<forall>c w. case os c w of (r, w') \<Rightarrow> wire_effect wire c w r w')"

lemma sysc_wire:
  "sends_ok os wire \<Longrightarrow> wire_effect wire c (world s) (fst (sysc os c s)) (world (snd (sysc os c s)))"
  by (fastforce simp: sends_ok_def sysc_def split: prod.splits)

lemma err_code_neg: "e \<noteq> ZTK_OK \<Longrightarrow> err_code e < 0"
  by (cases e) auto

lemma err_code_errno [simp]: "\<not> 0 < err_code (map_errno s)"
  using err_code_neg [OF map_errno_not_ok [of s]] by linarith

lemma sockplat_send_takes:
  assumes "sends_ok os wire" and "ztk_sockplat_send os fd m s = (n, s')"
  shows "takes wire (world s) (world s') fd m n"
  using sysc_wire [OF assms(1), of "Sys_send fd m" s] assms(2)
  by (auto simp: ztk_sockplat_send_def io_result_def wire_effect_def takes_def Let_def split_def
      split: if_splits)

lemma sockplat_sendv_takes:
  assumes "sends_ok os wire" and "ztk_sockplat_sendv os fd iov s = (n, s')" and "length iov \<le> ZTK_SOCK_IOV_MAX"
  shows "takes wire (world s) (world s') fd (concat iov) n"
  using sysc_wire [OF assms(1), of "Sys_writev fd iov" s] assms(2,3)
  by (auto simp: ztk_sockplat_sendv_def io_result_def wire_effect_def takes_def Let_def split_def
      split: if_splits)

section \<open>A sample kernel\<close>

text \<open>
  A small executable kernel that meets both contracts, for evaluating the model: descriptors are
  numbered upwards, each data transfer consumes one number of a script that says how many bytes it
  accepts or returns (none left, or not positive: \<^verbatim>\<open>EAGAIN\<close>).
\<close>

record kern =
  k_open :: "int list"
  k_wire :: "int \<Rightarrow> mem"
  k_script :: "int list"
  k_in :: "u8 list"

definition k_res :: "int \<Rightarrow> sysres" where
  "k_res n = \<lparr>ret = n, res_errno = (if n < 0 then EAGAIN else E_NONE),
     res_addrs = [\<lparr>ai_family = 2, ai_socktype = 1, ai_protocol = 0, ai_addr = SA_inet ''127.0.0.1'' 80\<rparr>],
     res_addr = SA_inet ''127.0.0.1'' 80, res_bytes = [], res_int = 0, res_errval = E_NONE,
     res_evs = [], res_fds = (0, 0)\<rparr>"

definition k_new :: "kern \<Rightarrow> int" where
  "k_new w = fold max (k_open w) 2 + 1"

definition k_open_one :: "kern \<Rightarrow> sysres \<times> kern" where
  "k_open_one w = (k_res (k_new w), w\<lparr>k_open := k_new w # k_open w\<rparr>)"

definition k_open_two :: "kern \<Rightarrow> sysres \<times> kern" where
  "k_open_two w = ((k_res 0)\<lparr>res_fds := (k_new w, k_new w + 1)\<rparr>,
     w\<lparr>k_open := k_new w # (k_new w + 1) # k_open w\<rparr>)"

definition k_take :: "int \<Rightarrow> mem \<Rightarrow> kern \<Rightarrow> sysres \<times> kern" where
  "k_take fd m w =
     (case k_script w of [] \<Rightarrow> (k_res (- 1), w)
      | n # ns \<Rightarrow>
         let k = min (nat n) (length m) in
         if k = 0 then (k_res (- 1), w\<lparr>k_script := ns\<rparr>)
         else (k_res (int k), w\<lparr>k_script := ns, k_wire := (k_wire w)(fd := k_wire w fd @ take k m)\<rparr>))"

definition k_give :: "nat \<Rightarrow> kern \<Rightarrow> sysres \<times> kern" where
  "k_give len w =
     (case k_script w of [] \<Rightarrow> (k_res (- 1), w)
      | n # ns \<Rightarrow>
         let bs = take (min (nat n) len) (k_in w) in
         if bs = [] then (k_res (- 1), w\<lparr>k_script := ns\<rparr>)
         else ((k_res (int (length bs)))\<lparr>res_bytes := bs\<rparr>, w\<lparr>k_script := ns, k_in := drop (length bs) (k_in w)\<rparr>))"

definition k_os :: "kern os" where
  "k_os c w =
     (case c of
        Sys_socket _ _ _ \<Rightarrow> k_open_one w
      | Sys_accept _ \<Rightarrow>
          if k_script w = [] then (k_res (- 1), w) else k_open_one (w\<lparr>k_script := tl (k_script w)\<rparr>)
      | Sys_epoll_create1 \<Rightarrow> k_open_one w
      | Sys_epoll_create _ \<Rightarrow> k_open_one w
      | Sys_pipe2 \<Rightarrow> k_open_two w
      | Sys_pipe \<Rightarrow> k_open_two w
      | Sys_close fd \<Rightarrow> (k_res 0, w\<lparr>k_open := filter (\<lambda>f. f \<noteq> fd) (k_open w)\<rparr>)
      | Sys_send fd m \<Rightarrow> k_take fd m w
      | Sys_writev fd ms \<Rightarrow> k_take fd (concat ms) w
      | Sys_recv fd n \<Rightarrow> k_give n w
      | Sys_recvfrom fd n \<Rightarrow> k_give n w
      | Sys_sendto fd m a \<Rightarrow> (k_res (int (length m)), w)
      | _ \<Rightarrow> (k_res 0, w))"

lemma fold_max_init: "(c :: int) \<le> fold max xs c"
proof (induction xs arbitrary: c)
  case (Cons a xs)
  have "c \<le> max a c" by (rule max.cobounded2)
  also have "\<dots> \<le> fold max xs (max a c)" by (rule Cons.IH)
  finally show ?case by (simp only: fold_simps)
qed (simp only: fold_simps order.refl)

lemma fold_max_mem: "x \<in> set xs \<Longrightarrow> (x :: int) \<le> fold max xs c"
proof (induction xs arbitrary: c)
  case (Cons a xs)
  have "a \<le> fold max xs (max a c)" by (rule order.trans [OF max.cobounded1 fold_max_init])
  with Cons show ?case by (simp only: fold_simps list.set insert_iff) blast
qed simp

lemma k_new_above: "x \<in> set (k_open w) \<Longrightarrow> x < k_new w"
  using fold_max_mem [of x "k_open w" 2] by (simp add: k_new_def)

lemma k_new_nonneg: "0 \<le> k_new w"
  using fold_max_init [of 2 "k_open w"] by (simp add: k_new_def)

lemma k_new_new: "k_new w \<notin> set (k_open w)" "k_new w + 1 \<notin> set (k_open w)"
  using k_new_above [of "k_new w" w] k_new_above [of "k_new w + 1" w] by auto

lemma k_res_ret [simp]: "ret (k_res n) = n"
  by (simp add: k_res_def)

lemma k_open_one_fds: "opens (set \<circ> k_open) w (snd (k_open_one w)) (ret (fst (k_open_one w)))"
  using k_new_nonneg [of w] by (simp add: k_open_one_def opens_def k_new_new)

lemma k_open_two_fds: "opens_two (set \<circ> k_open) w (snd (k_open_two w)) (fst (k_open_two w))"
  using k_new_nonneg [of w] by (simp add: k_open_two_def opens_two_def k_new_new)

lemma k_data_fds [simp]: "k_open (snd (k_take fd m w)) = k_open w" "k_open (snd (k_give n w)) = k_open w"
  by (simp_all add: k_take_def k_give_def Let_def split: list.splits)

lemma opens_script: "opens (set \<circ> k_open) (w\<lparr>k_script := ns\<rparr>) w' fd = opens (set \<circ> k_open) w w' fd"
  by (simp add: opens_def)

lemma k_fds_ok: "fds_ok k_os (set \<circ> k_open)"
  unfolding fds_ok_def split_def
proof (intro allI)
  fix c w
  show "fd_effect (set \<circ> k_open) c w (fst (k_os c w)) (snd (k_os c w))"
    using k_open_one_fds [of "w\<lparr>k_script := tl (k_script w)\<rparr>", unfolded opens_script]
    by (cases c) (simp_all add: k_os_def fd_effect_def k_open_one_fds k_open_two_fds opens_script
        opens_def [of _ _ _ "- 1"] set_eq_iff)
qed

lemma k_take_wire: "takes k_wire w (snd (k_take fd m w)) fd m (ret (fst (k_take fd m w)))"
  by (auto simp: k_take_def takes_def Let_def split: list.splits)

lemma k_other_wire [simp]:
  "k_wire (snd (k_give n w)) = k_wire w" "k_wire (snd (k_open_one w)) = k_wire w"
  "k_wire (snd (k_open_two w)) = k_wire w"
  by (simp_all add: k_give_def k_open_one_def k_open_two_def Let_def split: list.splits)

lemma k_sends_ok: "sends_ok k_os k_wire"
  unfolding sends_ok_def split_def
proof (intro allI)
  fix c w
  show "wire_effect k_wire c w (fst (k_os c w)) (snd (k_os c w))"
    by (cases c) (simp_all add: k_os_def wire_effect_def k_take_wire)
qed

definition k_start :: "int list \<Rightarrow> kern sys" where
  "k_start script = \<lparr>errno = E_NONE, world = \<lparr>k_open = [5], k_wire = (\<lambda>_. []), k_script = script,
     k_in = [1, 2, 3]\<rparr>\<rparr>"

section \<open>Properties\<close>

text \<open>
  C12. Opening operations never leak a descriptor: whatever the kernel answers at each step (any
  failure of socket, fcntl, bind, listen or connect at any of the resolved addresses), listen,
  UDP bind, connect and accept either succeed and hand over exactly one new descriptor, or fail and
  leave the process's descriptor table as it was.
\<close>

theorem sockplat_no_fd_leak:
  assumes "fds_ok os opn"
  shows "(case ztk_sockplat_listen os host port backlog s of ((e, fd), s') \<Rightarrow> hands_over opn s e fd s') \<and>
    (case ztk_sockplat_bind_udp os host port ra rp s of ((e, fd), s') \<Rightarrow> hands_over opn s e fd s') \<and>
    (case ztk_sockplat_connect os host port s of ((e, fd, pend), s') \<Rightarrow> hands_over opn s e fd s') \<and>
    (case ztk_sockplat_accept os lfd s of ((e, fd), s') \<Rightarrow> hands_over opn s e fd s')"
  using sockplat_listen_fds [OF assms] sockplat_bind_udp_fds [OF assms] sockplat_connect_fds [OF assms]
    sockplat_accept_fds [OF assms]
  by (simp split: prod.splits)

theorem sockplat_no_fd_leak_witness:
  "fds_ok k_os (set \<circ> k_open) \<and>
   (case ztk_sockplat_listen k_os None 80 5 (k_start [1]) of
      ((e, fd), s') \<Rightarrow> (e, fd) = (ZTK_OK, Some 6) \<and> hands_over (set \<circ> k_open) (k_start [1]) e fd s') \<and>
   (case ztk_sockplat_accept k_os 6 (k_start []) of
      ((e, fd), s') \<Rightarrow> (e, fd) = (ZTK_ERR_AGAIN, None) \<and> hands_over (set \<circ> k_open) (k_start []) e fd s')"
proof -
  have "fst (ztk_sockplat_listen k_os None 80 5 (k_start [1])) = (ZTK_OK, Some 6)"
    and "fst (ztk_sockplat_accept k_os 6 (k_start [])) = (ZTK_ERR_AGAIN, None)"
    by code_simp+
  then show ?thesis
    using k_fds_ok sockplat_no_fd_leak [OF k_fds_ok, where s = "k_start [1]" and host = None and port = 80 and backlog = 5]
      sockplat_no_fd_leak [OF k_fds_ok, where s = "k_start []" and lfd = 6]
    by (auto split: prod.splits)
qed

end
