(* ===== verification/Poller_Load.thy ===== *)
theory Poller_Load
  imports Ztk_Prelude
begin

text \<open>
  Load accounting of a poller, \<^verbatim>\<open>src/poller/poller_load.c\<close>: the time spent running and sleeping, in
  milliseconds of the monotonic clock, halved together when their sum exceeds the window. Every
  reading of the clock is an argument. All times are 64-bit and wrap.
\<close>

record load_state =
  load_mtx :: bool
  last_ms :: u64
  run_ms :: u64
  sleep_ms :: u64
  sleeping :: bool

definition ZTK_POLLER_LOAD_WINDOW_MS :: u64 where
  "ZTK_POLLER_LOAD_WINDOW_MS = 2000"

definition ztk_poller_load_init :: "bool \<Rightarrow> u64 \<Rightarrow> load_state" where
  "ztk_poller_load_init mutex_ok now =
     \<lparr>load_mtx = mutex_ok, last_ms = now, run_ms = 0, sleep_ms = 0, sleeping = False\<rparr>"

definition ztk_poller_load_fini :: "load_state \<Rightarrow> load_state" where
  "ztk_poller_load_fini st = (if \<not> load_mtx st then st else st\<lparr>load_mtx := False\<rparr>)"

definition mark_time :: "u64 \<Rightarrow> load_state \<Rightarrow> bool \<Rightarrow> load_state" where
  "mark_time now st to_sleep =
     (let delta = now - last_ms st;
          st1 = st\<lparr>last_ms := now\<rparr>;
          st2 = (if sleeping st1 then st1\<lparr>sleep_ms := sleep_ms st1 + delta\<rparr>
                 else st1\<lparr>run_ms := run_ms st1 + delta\<rparr>);
          st3 = st2\<lparr>sleeping := to_sleep\<rparr>
      in if ZTK_POLLER_LOAD_WINDOW_MS < run_ms st3 + sleep_ms st3
         then st3\<lparr>run_ms := run_ms st3 div 2, sleep_ms := sleep_ms st3 div 2\<rparr> else st3)"

definition ztk_poller_load_on_sleep :: "u64 \<Rightarrow> load_state \<Rightarrow> load_state" where
  "ztk_poller_load_on_sleep now st =
     (if \<not> load_mtx st then st else if \<not> sleeping st then mark_time now st True else st)"

definition ztk_poller_load_on_wake :: "u64 \<Rightarrow> load_state \<Rightarrow> load_state" where
  "ztk_poller_load_on_wake now st =
     (if \<not> load_mtx st then st else if sleeping st then mark_time now st False else st)"

text \<open>The quotient is converted to \<^verbatim>\<open>int\<close> before it is capped at 100.\<close>

definition ztk_poller_load_percent :: "u64 \<Rightarrow> load_state \<Rightarrow> int \<times> load_state" where
  "ztk_poller_load_percent now st =
     (if \<not> load_mtx st then (0, st)
      else let st1 = (if sleeping st
                      then st\<lparr>sleep_ms := sleep_ms st + (now - last_ms st), last_ms := now\<rparr>
                      else st\<lparr>run_ms := run_ms st + (now - last_ms st), last_ms := now\<rparr>);
               total = run_ms st1 + sleep_ms st1;
               pct = (if 0 < total then sint (ucast ((run_ms st1 * 100) div total) :: 32 word) else 0)
           in (if pct > 100 then 100 else pct, st1))"

definition ztk_poller_get_load :: "u64 \<Rightarrow> load_state \<Rightarrow> int \<times> load_state" where
  "ztk_poller_get_load now st = ztk_poller_load_percent now st"

section \<open>Lemmas\<close>

text \<open>Times far from the width of the clock: none of the sums below wraps.\<close>

definition load_small :: "u64 \<Rightarrow> load_state \<Rightarrow> bool" where
  "load_small now st \<longleftrightarrow> last_ms st \<le> now \<and> unat now < 2 ^ 54 \<and> unat (run_ms st) < 2 ^ 55 \<and> unat (sleep_ms st) < 2 ^ 55"

lemma pct_small:
  assumes "unat q \<le> 100"
  shows "sint (ucast (q :: u64) :: 32 word) = int (unat q)"
proof -
  have "sint (word_of_int (int (unat q)) :: 32 word) = (int (unat q) + 2 ^ 31) mod 2 ^ 32 - 2 ^ 31"
    using int_word_sint [where ?'a = 32, of "int (unat q)"] by simp
  also have "(int (unat q) + 2 ^ 31) mod 2 ^ 32 = int (unat q) + 2 ^ 31"
    using assms by (intro mod_pos_pos_trivial) (simp_all del: of_nat_unat)
  finally show ?thesis by simp
qed

lemma percent_value:
  fixes r t :: u64
  assumes "unat r \<le> unat t" and "unat t < 2 ^ 57" and "0 < t"
  shows "sint (ucast (r * 100 div t) :: 32 word) = int (unat r * 100 div unat t)" and "unat r * 100 div unat t \<le> 100"
proof -
  have m: "unat (r * 100) = unat r * 100" using assms by (simp add: unat_word_ariths)
  show b: "unat r * 100 div unat t \<le> 100"
    using assms(1) by (intro less_Suc_eq_le [THEN iffD1] less_mult_imp_div_less) (use assms(3) in \<open>simp add: word_less_nat_alt\<close>)
  show "sint (ucast (r * 100 div t) :: 32 word) = int (unat r * 100 div unat t)"
    using pct_small [of "r * 100 div t"] b by (simp add: unat_div m)
qed

text \<open>What the reading is computed from: the counters with the time since the last mark added.\<close>

definition elapsed_run :: "u64 \<Rightarrow> load_state \<Rightarrow> nat" where
  "elapsed_run now st = unat (run_ms st) + (if sleeping st then 0 else unat now - unat (last_ms st))"

definition elapsed_total :: "u64 \<Rightarrow> load_state \<Rightarrow> nat" where
  "elapsed_total now st = unat (run_ms st) + unat (sleep_ms st) + (unat now - unat (last_ms st))"

lemma load_sums:
  assumes "load_small now st"
  shows "unat (run_ms st + (now - last_ms st)) = unat (run_ms st) + (unat now - unat (last_ms st))"
    and "unat (sleep_ms st + (now - last_ms st)) = unat (sleep_ms st) + (unat now - unat (last_ms st))"
    and "unat (run_ms st + (now - last_ms st) + sleep_ms st) = elapsed_total now st"
    and "unat (run_ms st + (sleep_ms st + (now - last_ms st))) = elapsed_total now st"
    and "elapsed_total now st < 2 ^ 57"
proof -
  let ?d = "now - last_ms st"
  have d: "unat ?d = unat now - unat (last_ms st)" "unat ?d < 2 ^ 54"
    using assms by (auto simp: load_small_def unat_sub_size word_le_nat_alt)
  have b: "unat (run_ms st) < 2 ^ 55" "unat (sleep_ms st) < 2 ^ 55" using assms by (simp_all add: load_small_def)
  show r: "unat (run_ms st + ?d) = unat (run_ms st) + (unat now - unat (last_ms st))"
    unfolding d(1) [symmetric] using d(2) b by (intro unat_add_size) simp
  show s: "unat (sleep_ms st + ?d) = unat (sleep_ms st) + (unat now - unat (last_ms st))"
    unfolding d(1) [symmetric] using d(2) b by (intro unat_add_size) simp
  have "unat (run_ms st + ?d + sleep_ms st) = unat (run_ms st + ?d) + unat (sleep_ms st)"
    using r d b by (intro unat_add_size) simp
  then show "unat (run_ms st + ?d + sleep_ms st) = elapsed_total now st" using r by (simp add: elapsed_total_def)
  have "unat (run_ms st + (sleep_ms st + ?d)) = unat (run_ms st) + unat (sleep_ms st + ?d)"
    using s d b by (intro unat_add_size) simp
  then show "unat (run_ms st + (sleep_ms st + ?d)) = elapsed_total now st" using s by (simp add: elapsed_total_def)
  show "elapsed_total now st < 2 ^ 57" unfolding elapsed_total_def using d b by simp
qed

lemma load_percent_value:
  assumes "load_small now st" and "load_mtx st" and "elapsed_total now st \<noteq> 0"
  shows "fst (ztk_poller_load_percent now st) = int (elapsed_run now st * 100 div elapsed_total now st)"
    and "elapsed_run now st * 100 div elapsed_total now st \<le> 100"
proof -
  let ?r = "if sleeping st then run_ms st else run_ms st + (now - last_ms st)"
  let ?t = "if sleeping st then run_ms st + (sleep_ms st + (now - last_ms st))
            else run_ms st + (now - last_ms st) + sleep_ms st"
  have r: "unat ?r = elapsed_run now st" and t: "unat ?t = elapsed_total now st"
    using load_sums [OF assms(1)] by (simp_all add: elapsed_run_def)
  have le: "unat ?r \<le> unat ?t" unfolding r t by (simp add: elapsed_run_def elapsed_total_def)
  have pos: "0 < ?t" using t assms(3) by (metis unat_0 word_neq_0_conv)
  have lt: "unat ?t < 2 ^ 57" using load_sums(5) [OF assms(1)] t by simp
  note pv = percent_value [OF le lt pos]
  show "elapsed_run now st * 100 div elapsed_total now st \<le> 100" using pv(2) r t by simp
  then show "fst (ztk_poller_load_percent now st) = int (elapsed_run now st * 100 div elapsed_total now st)"
    using pv(1) pos assms(2) r t by (auto simp: ztk_poller_load_percent_def Let_def split: if_splits)
qed

section \<open>Properties\<close>

text \<open>
  C20. The load of a poller is the percentage of time spent running: for any clock reading that is not
  before the last mark and counters below 2 to the power 55 ms, the result is the integer part of
  100 times the run time over the total time (0 if no time has passed), it lies between 0 and 100,
  and computing it moves the time since the last mark into the counter of the current phase, so
  that asking again at the same instant gives the same answer.
\<close>

theorem load_percent_exact:
  assumes "load_small now st" and "load_mtx st"
  shows "(case ztk_poller_get_load now st of (pct, st') \<Rightarrow>
     pct = (if elapsed_total now st = 0 then 0 else int (elapsed_run now st * 100 div elapsed_total now st)) \<and>
     0 \<le> pct \<and> pct \<le> 100 \<and> fst (ztk_poller_get_load now st') = pct)"
proof -
  let ?st = "snd (ztk_poller_load_percent now st)"
  have idle: "fst (ztk_poller_load_percent now st) = 0" if "elapsed_total now st = 0"
    using that load_sums [OF assms(1)] by (simp add: ztk_poller_load_percent_def Let_def word_less_nat_alt)
  have again: "fst (ztk_poller_load_percent now ?st) = fst (ztk_poller_load_percent now st)"
    using assms(2) by (simp add: ztk_poller_load_percent_def Let_def)
  show ?thesis
  proof (cases "elapsed_total now st = 0")
    case True
    then show ?thesis using idle again by (simp add: ztk_poller_get_load_def split_def)
  next
    case False
    then show ?thesis using load_percent_value [OF assms False] again
      by (simp add: ztk_poller_get_load_def split_def)
  qed
qed

definition load_sample :: load_state where
  "load_sample = \<lparr>load_mtx = True, last_ms = 1000, run_ms = 300, sleep_ms = 500, sleeping = False\<rparr>"

theorem load_percent_exact_witness:
  "load_small 1200 load_sample \<and> load_mtx load_sample \<and> fst (ztk_poller_get_load 1200 load_sample) = 50"
proof -
  have h: "load_small 1200 load_sample" "load_mtx load_sample" by (simp_all add: load_small_def load_sample_def)
  show ?thesis using load_percent_exact [OF h] h
    by (simp add: elapsed_total_def elapsed_run_def split_def) (simp add: load_sample_def)
qed

end
