(* ===== verification/Poller_Epoll.thy ===== *)
theory Poller_Epoll
  imports Poller_Timer Poller_Load Sock_Linux
begin

text \<open>
  The poller on Linux, \<^verbatim>\<open>src/poller/poller_epoll.c\<close>, with the rest of \<^verbatim>\<open>poller_task.c\<close> that is built on
  it (init, fini and the run loop). \<open>epset\<close> holds the descriptors a poller watches: the list of
  entries as the code links them (newest first), the epoll descriptor and the wake pipe. The whole
  poller \<open>epoller\<close> extends the timers and the task queue by it, by the load counters and by the state
  of the system calls. A callback with its user pointer is a value \<open>'e\<close>; what it does to the poller
  (and to whatever extends the record) is the argument \<open>ecbs\<close>, likewise \<open>run\<close> for posted tasks and
  \<open>cbs\<close> for timers. Outcomes of allocations and clock readings are arguments.
\<close>

section \<open>Watched descriptors\<close>

definition ZTK_POLL_IN :: u32 where "ZTK_POLL_IN = 1"
definition ZTK_POLL_OUT :: u32 where "ZTK_POLL_OUT = 2"
definition ZTK_POLL_ERR :: u32 where "ZTK_POLL_ERR = 4"
definition ZTK_POLL_HUP :: u32 where "ZTK_POLL_HUP = 8"
definition EPOLLIN :: u32 where "EPOLLIN = 1"
definition EPOLLOUT :: u32 where "EPOLLOUT = 4"
definition EPOLLERR :: u32 where "EPOLLERR = 8"
definition EPOLLHUP :: u32 where "EPOLLHUP = 16"
definition ZTK_EPOLL_MAX_EVENTS :: nat where "ZTK_EPOLL_MAX_EVENTS = 64"

lemmas poll_bits = ZTK_POLL_IN_def ZTK_POLL_OUT_def ZTK_POLL_ERR_def ZTK_POLL_HUP_def
  EPOLLIN_def EPOLLOUT_def EPOLLERR_def EPOLLHUP_def

record 'e fd_entry =
  efd :: int
  eevents :: u32
  ecb :: "'e option"

record 'e epset =
  epfd :: int
  wake_r :: int
  wake_w :: int
  entries :: "'e fd_entry list"

definition find_entry :: "'e epset \<Rightarrow> int \<Rightarrow> 'e fd_entry option" where
  "find_entry p fd = find (\<lambda>e. efd e = fd) (entries p)"

text \<open>Assigning through the pointer \<^verbatim>\<open>find_entry\<close> returned changes the first entry of the descriptor.\<close>

fun upd_entry :: "int \<Rightarrow> ('e fd_entry \<Rightarrow> 'e fd_entry) \<Rightarrow> 'e fd_entry list \<Rightarrow> 'e fd_entry list" where
  "upd_entry fd f [] = []"
| "upd_entry fd f (e # es) = (if efd e = fd then f e # es else e # upd_entry fd f es)"

fun unlink_entry :: "int \<Rightarrow> 'e fd_entry list \<Rightarrow> 'e fd_entry list" where
  "unlink_entry fd [] = []"
| "unlink_entry fd (e # es) = (if efd e = fd then es else e # unlink_entry fd es)"

definition make_pipe :: "'w os \<Rightarrow> 'w sys \<Rightarrow> (int \<times> int) option \<times> 'w sys" where
  "make_pipe os s =
     (let (r, s1) = sysc os Sys_pipe2 s in
      if ret r = 0 then (Some (res_fds r), s1)
      else let (r2, s2) = sysc os Sys_pipe s1 in
        if ret r2 \<noteq> 0 then (None, s2)
        else let nb = (\<lambda>fd s. let (g, s') = sysc os (Sys_getfl fd) s in
                        if ret g \<ge> 0 then snd (sysc os (Sys_setfl fd (ret g OR O_NONBLOCK)) s') else s')
             in (Some (res_fds r2), nb (snd (res_fds r2)) (nb (fst (res_fds r2)) s2)))"

definition epoll_ctl_wrap :: "'w os \<Rightarrow> int \<Rightarrow> epoll_op \<Rightarrow> int \<Rightarrow> u32 \<Rightarrow> 'w sys \<Rightarrow> ztk_err \<times> 'w sys" where
  "epoll_ctl_wrap os ep eop fd ev s =
     (let (r, s1) = sysc os (Sys_epoll_ctl ep eop fd ev) s in
      (if ret r \<noteq> 0 then ZTK_ERR_PLATFORM else ZTK_OK, s1))"

definition to_epoll :: "u32 \<Rightarrow> u32" where
  "to_epoll events =
     (let ev = 0;
          ev = (if events AND ZTK_POLL_IN \<noteq> 0 then ev OR EPOLLIN else ev);
          ev = (if events AND ZTK_POLL_OUT \<noteq> 0 then ev OR EPOLLOUT else ev);
          ev = (if events AND ZTK_POLL_ERR \<noteq> 0 then ev OR EPOLLERR else ev);
          ev = (if events AND ZTK_POLL_HUP \<noteq> 0 then ev OR EPOLLHUP else ev)
      in ev)"

text \<open>The translation of a reported event set, written inline in \<^verbatim>\<open>ztk_poller_poll\<close>.\<close>

definition from_epoll :: "u32 \<Rightarrow> u32" where
  "from_epoll ev =
     (let out = 0;
          out = (if ev AND EPOLLIN \<noteq> 0 then out OR ZTK_POLL_IN else out);
          out = (if ev AND EPOLLOUT \<noteq> 0 then out OR ZTK_POLL_OUT else out);
          out = (if ev AND EPOLLERR \<noteq> 0 then out OR ZTK_POLL_ERR else out);
          out = (if ev AND EPOLLHUP \<noteq> 0 then out OR ZTK_POLL_HUP else out)
      in out)"

definition ztk_poller_add ::
    "'w os \<Rightarrow> bool \<Rightarrow> 'e epset option \<Rightarrow> int \<Rightarrow> u32 \<Rightarrow> 'e option \<Rightarrow> 'w sys \<Rightarrow>
     (ztk_err \<times> 'e epset option) \<times> 'w sys" where
  "ztk_poller_add os calloc_ok poller fd events cbk s =
     (case poller of None \<Rightarrow> ((ZTK_ERR_INVALID, poller), s)
      | Some p \<Rightarrow>
        if fd < 0 then ((ZTK_ERR_INVALID, poller), s)
        else if find_entry p fd \<noteq> None then
          let p1 = p\<lparr>entries := upd_entry fd (\<lambda>e. e\<lparr>eevents := events, ecb := cbk\<rparr>) (entries p)\<rparr>;
              (err, s1) = epoll_ctl_wrap os (epfd p) EPOLL_CTL_MOD fd (to_epoll events) s
          in ((err, Some p1), s1)
        else if \<not> calloc_ok then ((ZTK_ERR_NOMEM, poller), s)
        else
          let p1 = p\<lparr>entries := \<lparr>efd = fd, eevents = events, ecb = cbk\<rparr> # entries p\<rparr>;
              (err, s1) = epoll_ctl_wrap os (epfd p) EPOLL_CTL_ADD fd (to_epoll events) s
          in if err \<noteq> ZTK_OK then ((ZTK_ERR_PLATFORM, Some (p1\<lparr>entries := tl (entries p1)\<rparr>)), s1)
             else ((ZTK_OK, Some p1), s1))"

definition ztk_poller_mod ::
    "'w os \<Rightarrow> 'e epset option \<Rightarrow> int \<Rightarrow> u32 \<Rightarrow> 'w sys \<Rightarrow> (ztk_err \<times> 'e epset option) \<times> 'w sys" where
  "ztk_poller_mod os poller fd events s =
     (case poller of None \<Rightarrow> ((ZTK_ERR_INVALID, poller), s)
      | Some p \<Rightarrow>
        if find_entry p fd = None then ((ZTK_ERR_INVALID, poller), s)
        else let p1 = p\<lparr>entries := upd_entry fd (\<lambda>e. e\<lparr>eevents := events\<rparr>) (entries p)\<rparr>;
                 (err, s1) = epoll_ctl_wrap os (epfd p) EPOLL_CTL_MOD fd (to_epoll events) s
             in ((err, Some p1), s1))"

definition ztk_poller_del ::
    "'w os \<Rightarrow> 'e epset option \<Rightarrow> int \<Rightarrow> 'w sys \<Rightarrow> (ztk_err \<times> 'e epset option) \<times> 'w sys" where
  "ztk_poller_del os poller fd s =
     (case poller of None \<Rightarrow> ((ZTK_ERR_INVALID, poller), s)
      | Some p \<Rightarrow>
        if fd = wake_r p then ((ZTK_ERR_INVALID, poller), s)
        else if find_entry p fd = None then ((ZTK_ERR_INVALID, poller), s)
        else ((ZTK_OK, Some (p\<lparr>entries := unlink_entry fd (entries p)\<rparr>)),
              snd (sysc os (Sys_epoll_ctl (epfd p) EPOLL_CTL_DEL fd 0) s)))"

definition ztk_poller_wake_read_fd :: "'e epset option \<Rightarrow> int" where
  "ztk_poller_wake_read_fd p = (case p of None \<Rightarrow> - 1 | Some p \<Rightarrow> wake_r p)"

definition ztk_poller_wake_write_fd :: "'e epset option \<Rightarrow> int" where
  "ztk_poller_wake_write_fd p = (case p of None \<Rightarrow> - 1 | Some p \<Rightarrow> wake_w p)"

definition ztk_poller_wake :: "'w os \<Rightarrow> 'e epset option \<Rightarrow> 'w sys \<Rightarrow> ztk_err \<times> 'w sys" where
  "ztk_poller_wake os poller s =
     (case poller of None \<Rightarrow> (ZTK_ERR_INVALID, s)
      | Some p \<Rightarrow>
        if wake_w p < 0 then (ZTK_ERR_INVALID, s)
        else let (r, s1) = sysc os (Sys_write (wake_w p) [Some 1]) s in
          if ret r < 0 then (if errno s1 = EAGAIN then ZTK_OK else ZTK_ERR_PLATFORM, s1)
          else (ZTK_OK, s1))"

section \<open>The whole poller\<close>

record ('c, 'u, 'e, 'w) epoller = "('c, 'u) tpoller" +
  load :: load_state
  eps :: "'e epset"
  psys :: "'w sys"

type_synonym ('c, 'u, 'e, 'w, 'z) task_run =
  "'u ttask \<Rightarrow> ('c, 'u, 'e, 'w, 'z) epoller_scheme \<Rightarrow> ('c, 'u, 'e, 'w, 'z) epoller_scheme option"

type_synonym ('c, 'u, 'e, 'w, 'z) timer_run =
  "'c \<Rightarrow> ('c, 'u, 'e, 'w, 'z) epoller_scheme \<Rightarrow> (u64 \<times> ('c, 'u, 'e, 'w, 'z) epoller_scheme) option"

type_synonym ('c, 'u, 'e, 'w, 'z) fd_run =
  "'e \<Rightarrow> int \<Rightarrow> u32 \<Rightarrow> ('c, 'u, 'e, 'w, 'z) epoller_scheme \<Rightarrow> ('c, 'u, 'e, 'w, 'z) epoller_scheme option"

definition ztk_poller_task_init ::
    "bool \<Rightarrow> bool \<Rightarrow> bool \<Rightarrow> u64 \<Rightarrow> ('c, 'u, 'e, 'w, 'z) epoller_scheme \<Rightarrow> ('c, 'u, 'e, 'w, 'z) epoller_scheme" where
  "ztk_poller_task_init task_mutex timer_mutex load_mutex now p =
     (let p1 = p\<lparr>task_mtx := task_mutex, task_q := (task_q p)\<lparr>lhead := None, ltail := None\<rparr>, owner_thread := 0\<rparr>;
          p2 = ztk_poller_timer_init timer_mutex p1
      in p2\<lparr>load := ztk_poller_load_init load_mutex now\<rparr>)"

definition ztk_poller_task_fini ::
    "('c, 'u, 'e, 'w, 'z) task_run \<Rightarrow> ('c, 'u, 'e, 'w, 'z) epoller_scheme \<Rightarrow>
     ('c, 'u, 'e, 'w, 'z) epoller_scheme option" where
  "ztk_poller_task_fini run p =
     Option.bind (ztk_poller_timer_fini (p\<lparr>load := ztk_poller_load_fini (load p)\<rparr>)) (\<lambda>p1.
       case ztk_poller_drain_tasks run (Some p1) of
         Some (Some p2) \<Rightarrow> Some (p2\<lparr>task_mtx := False\<rparr>)
       | _ \<Rightarrow> None)"

definition close_if_open :: "'w os \<Rightarrow> int \<Rightarrow> 'w sys \<Rightarrow> 'w sys" where
  "close_if_open os fd s = (if 0 \<le> fd then snd (sysc os (Sys_close fd) s) else s)"

text \<open>Destroying a poller leaves only the state of the system calls.\<close>

definition ztk_poller_destroy ::
    "'w os \<Rightarrow> ('c, 'u, 'e, 'w, 'z) task_run \<Rightarrow> ('c, 'u, 'e, 'w, 'z) epoller_scheme \<Rightarrow> 'w sys option" where
  "ztk_poller_destroy os run p =
     map_option (\<lambda>p1. close_if_open os (epfd (eps p1))
         (close_if_open os (wake_r (eps p1)) (close_if_open os (wake_w (eps p1)) (psys p1))))
       (ztk_poller_task_fini run p)"

definition empty_poller :: "'w sys \<Rightarrow> ('c, 'u, 'e, 'w) epoller" where
  "empty_poller s = \<lparr>task_mtx = False, task_q = lq_empty, owner_thread = 0, timer_mtx = False,
     timers = Map.empty, timer_heap = [], timer_heap_count = 0, timer_heap_cap = 0, ctxs = Map.empty,
     load = \<lparr>load_mtx = False, last_ms = 0, run_ms = 0, sleep_ms = 0, sleeping = False\<rparr>,
     eps = \<lparr>epfd = - 1, wake_r = - 1, wake_w = - 1, entries = []\<rparr>, psys = s\<rparr>"

text \<open>
  Creation: the first two arguments are the outcomes of the two allocations, then come the outcomes
  of creating the three mutexes. The result has the poller, or \<open>None\<close> for \<^verbatim>\<open>NULL\<close>, and the system state.
\<close>

definition ztk_poller_create ::
    "'w os \<Rightarrow> bool \<Rightarrow> bool \<Rightarrow> bool \<Rightarrow> bool \<Rightarrow> bool \<Rightarrow> u64 \<Rightarrow> 'w sys \<Rightarrow>
     (('c, 'u, 'e, 'w) epoller option \<times> 'w sys) option" where
  "ztk_poller_create os calloc_p calloc_we tm mm lm now s =
     (if \<not> calloc_p then Some (None, s)
      else let p = ztk_poller_task_init tm mm lm now (empty_poller s);
               fail = (\<lambda>q. map_option (Pair None) (ztk_poller_destroy os (\<lambda>_ _. None) q));
               (r, s1) = sysc os Sys_epoll_create1 s;
               (ep, s2) = (if ret r < 0 then let (r', s') = sysc os (Sys_epoll_create (int ZTK_EPOLL_MAX_EVENTS)) s1 in (ret r', s')
                           else (ret r, s1));
               p1 = p\<lparr>eps := (eps p)\<lparr>epfd := ep\<rparr>, psys := s2\<rparr>
           in if ep < 0 then fail p1
           else (case make_pipe os s2 of
               (None, s3) \<Rightarrow> fail (p1\<lparr>psys := s3\<rparr>)
             | (Some (rd, wr), s3) \<Rightarrow>
                 let p2 = p1\<lparr>eps := (eps p1)\<lparr>wake_r := rd, wake_w := wr\<rparr>, psys := s3\<rparr> in
                 if \<not> calloc_we then fail p2
                 else let p3 = p2\<lparr>eps := (eps p2)\<lparr>entries := \<lparr>efd = rd, eevents = ZTK_POLL_IN, ecb = None\<rparr> # entries (eps p2)\<rparr>\<rparr>;
                          (e, s4) = epoll_ctl_wrap os ep EPOLL_CTL_ADD rd EPOLLIN s3;
                          p4 = p3\<lparr>psys := s4\<rparr>
                      in if e \<noteq> ZTK_OK then fail p4 else Some (Some p4, s4)))"

text \<open>Reading the wake pipe until nothing is left; a pipe that always has data gives no result.\<close>

partial_function (option) drain_wake_pipe :: "'w os \<Rightarrow> int \<Rightarrow> 'w sys \<Rightarrow> 'w sys option" where
  "drain_wake_pipe os fd s =
     (let rs = sysc os (Sys_read fd 256) s in
      if ret (fst rs) > 0 then drain_wake_pipe os fd (snd rs) else Some (snd rs))"

definition drain_pending ::
    "('c, 'u, 'e, 'w, 'z) task_run \<Rightarrow> ('c, 'u, 'e, 'w, 'z) epoller_scheme \<Rightarrow>
     ('c, 'u, 'e, 'w, 'z) epoller_scheme option" where
  "drain_pending run p =
     (if task_mtx p \<and> lhead (task_q p) \<noteq> None
      then (case ztk_poller_drain_tasks run (Some p) of Some (Some p1) \<Rightarrow> Some p1 | _ \<Rightarrow> None)
      else Some p)"

fun poll_loop ::
    "'w os \<Rightarrow> ('c, 'u, 'e, 'w, 'z) task_run \<Rightarrow> ('c, 'u, 'e, 'w, 'z) fd_run \<Rightarrow> (u32 \<times> int) list \<Rightarrow>
     ('c, 'u, 'e, 'w, 'z) epoller_scheme \<Rightarrow> ('c, 'u, 'e, 'w, 'z) epoller_scheme option" where
  "poll_loop os run ecbs [] p = Some p"
| "poll_loop os run ecbs ((ev, fd) # evs) p =
     (case (if fd = wake_r (eps p)
            then Option.bind (drain_wake_pipe os (wake_r (eps p)) (psys p)) (\<lambda>s.
                   case ztk_poller_drain_tasks run (Some (p\<lparr>psys := s\<rparr>)) of Some (Some p1) \<Rightarrow> Some p1 | _ \<Rightarrow> None)
            else Some p) of
        None \<Rightarrow> None
      | Some p1 \<Rightarrow>
          (case Option.bind (find_entry (eps p1) fd) ecb of
             None \<Rightarrow> poll_loop os run ecbs evs p1
           | Some c \<Rightarrow>
               (case ecbs c fd (from_epoll ev) p1 of None \<Rightarrow> None
                | Some p2 \<Rightarrow> poll_loop os run ecbs evs p2)))"

text \<open>
  One turn. \<open>now\<close> is the clock of the timers, \<open>t1\<close> and \<open>t2\<close> those of the load marks, \<open>rok\<close> the outcome
  of reallocating the timer heap.
\<close>

definition ztk_poller_poll ::
    "'w os \<Rightarrow> ('c, 'u, 'e, 'w, 'z) task_run \<Rightarrow> ('c, 'u, 'e, 'w, 'z) timer_run \<Rightarrow>
     ('c, 'u, 'e, 'w, 'z) fd_run \<Rightarrow> bool \<Rightarrow> u64 \<Rightarrow> u64 \<Rightarrow> u64 \<Rightarrow>
     ('c, 'u, 'e, 'w, 'z) epoller_scheme option \<Rightarrow> int \<Rightarrow>
     (int \<times> ('c, 'u, 'e, 'w, 'z) epoller_scheme option) option" where
  "ztk_poller_poll os run cbs ecbs rok now t1 t2 poller timeout_ms =
     (case poller of None \<Rightarrow> Some (- 1, None)
      | Some p \<Rightarrow>
        (case ztk_poller_resolve_timeout_ms cbs rok now (Some p) timeout_ms of
           Some (wait_ms, Some p1) \<Rightarrow>
             let p2 = p1\<lparr>load := ztk_poller_load_on_sleep t1 (load p1)\<rparr>;
                 (r, s) = sysc os (Sys_epoll_wait (epfd (eps p2)) ZTK_EPOLL_MAX_EVENTS wait_ms) (psys p2);
                 p3 = p2\<lparr>psys := s, load := ztk_poller_load_on_wake t2 (load p2)\<rparr>;
                 n = ret r
             in if n < 0 then Some (if errno s = EINTR then 0 else - 1, Some p3)
                else Option.bind (if n = 0 then drain_pending run p3 else Some p3) (\<lambda>p4.
                     Option.bind (poll_loop os run ecbs (take (nat n) (res_evs r)) p4) (\<lambda>p5.
                       map_option (\<lambda>p6. (n, Some p6)) (drain_pending run p5)))
         | _ \<Rightarrow> None))"

definition ZTK_POLLER_PENDING_POLL_MS :: int where "ZTK_POLLER_PENDING_POLL_MS = 10"

text \<open>
  The run loop. Each turn reads the stop flag (\<open>False\<close> also when no flag was given) and the clocks;
  the list holds these readings in order. A list that ends before the flag was seen set and before a
  poll failed gives no result: the loop is still running.
\<close>

record turn =
  t_stop :: bool
  t_rok :: bool
  t_now0 :: u64
  t_now :: u64
  t_sleep :: u64
  t_wake :: u64

fun run_loop ::
    "'w os \<Rightarrow> ('c, 'u, 'e, 'w, 'z) task_run \<Rightarrow> ('c, 'u, 'e, 'w, 'z) timer_run \<Rightarrow>
     ('c, 'u, 'e, 'w, 'z) fd_run \<Rightarrow> turn list \<Rightarrow>
     ('c, 'u, 'e, 'w, 'z) epoller_scheme \<Rightarrow> ('c, 'u, 'e, 'w, 'z) epoller_scheme option" where
  "run_loop os run cbs ecbs [] p = None"
| "run_loop os run cbs ecbs (t # ts) p =
     (if t_stop t then Some p
      else case ztk_poller_resolve_timeout_ms cbs (t_rok t) (t_now0 t) (Some p) ZTK_POLLER_PENDING_POLL_MS of
        Some (ms, q) \<Rightarrow>
          (case ztk_poller_poll os run cbs ecbs (t_rok t) (t_now t) (t_sleep t) (t_wake t) q ms of
             Some (n, Some p1) \<Rightarrow> if n < 0 then Some p1 else run_loop os run cbs ecbs ts p1
           | _ \<Rightarrow> None)
      | None \<Rightarrow> None)"

definition ztk_poller_run ::
    "'w os \<Rightarrow> ('c, 'u, 'e, 'w, 'z) task_run \<Rightarrow> ('c, 'u, 'e, 'w, 'z) timer_run \<Rightarrow>
     ('c, 'u, 'e, 'w, 'z) fd_run \<Rightarrow> u64 \<Rightarrow> turn list \<Rightarrow> ('c, 'u, 'e, 'w, 'z) epoller_scheme option \<Rightarrow>
     ('c, 'u, 'e, 'w, 'z) epoller_scheme option option" where
  "ztk_poller_run os run cbs ecbs self turns poller =
     (case ztk_poller_bind_thread self poller of
        None \<Rightarrow> Some None
      | Some p \<Rightarrow> map_option (\<lambda>p1. ztk_poller_unbind_thread (Some p1)) (run_loop os run cbs ecbs turns p))"

section \<open>Registration and the kernel's interest list\<close>

text \<open>
  \<open>watch p\<close> is what a client registered: for each descriptor the event set and the callback. The
  contract of \<^verbatim>\<open>epoll_ctl(2)\<close>: every operation takes effect or fails and changes nothing (the manual has
  \<^verbatim>\<open>ENOMEM\<close> for any of them), modifying an unknown descriptor fails, and closing a descriptor drops it from every list.
  \<open>ctls_ok\<close> is the case where the kernel does not fail to modify or to delete what is registered.
\<close>

definition watch :: "'e epset \<Rightarrow> int \<rightharpoonup> u32 \<times> 'e option" where
  "watch p = map_of (map (\<lambda>e. (efd e, (eevents e, ecb e))) (entries p))"

definition ctl_effect :: "epoll_op \<Rightarrow> int \<Rightarrow> u32 \<Rightarrow> int \<Rightarrow> (int \<rightharpoonup> u32) \<Rightarrow> (int \<rightharpoonup> u32) \<Rightarrow> bool" where
  "ctl_effect eop fd ev res m m' \<longleftrightarrow>
     (case eop of
        EPOLL_CTL_ADD \<Rightarrow> (if res = 0 then m' = m(fd \<mapsto> ev) else m' = m)
      | EPOLL_CTL_MOD \<Rightarrow> (res = 0 \<longrightarrow> m fd \<noteq> None) \<and> (if res = 0 then m' = m(fd \<mapsto> ev) else m' = m)
      | EPOLL_CTL_DEL \<Rightarrow> m' = m(fd := None) \<or> res \<noteq> 0 \<and> m' = m)"

definition interest_effect :: "('w \<Rightarrow> int \<Rightarrow> int \<rightharpoonup> u32) \<Rightarrow> syscall \<Rightarrow> 'w \<Rightarrow> sysres \<Rightarrow> 'w \<Rightarrow> bool" where
  "interest_effect intr c w r w' \<longleftrightarrow>
     (case c of
        Sys_epoll_ctl ep eop fd ev \<Rightarrow>
          ctl_effect eop fd ev (ret r) (intr w ep) (intr w' ep) \<and> (\<forall>ep'. ep' \<noteq> ep \<longrightarrow> intr w' ep' = intr w ep')
      | Sys_close fd \<Rightarrow> intr w' = (\<lambda>ep. (intr w ep)(fd := None))
      | _ \<Rightarrow> intr w' = intr w)"

definition epoll_ok :: "'w os \<Rightarrow> ('w \<Rightarrow> int \<Rightarrow> int \<rightharpoonup> u32) \<Rightarrow> bool" where
  "epoll_ok os intr \<longleftrightarrow> (\<forall>c w. case os c w of (r, w') \<Rightarrow> interest_effect intr c w r w')"

definition ctls_ok :: "'w os \<Rightarrow> ('w \<Rightarrow> int \<Rightarrow> int \<rightharpoonup> u32) \<Rightarrow> bool" where
  "ctls_ok os intr \<longleftrightarrow> (\<forall>ep eop fd ev w. eop \<noteq> EPOLL_CTL_ADD \<longrightarrow> intr w ep fd \<noteq> None \<longrightarrow>
     ret (fst (os (Sys_epoll_ctl ep eop fd ev) w)) = 0)"

text \<open>
  The table has one entry for a descriptor, the kernel watches every descriptor of the table, and for the
  descriptors in \<open>A\<close> the two agree exactly: same descriptors, translated event sets.
\<close>

definition agree_at :: "(int \<rightharpoonup> u32) \<Rightarrow> 'e epset \<Rightarrow> int \<Rightarrow> bool" where
  "agree_at I p fd \<longleftrightarrow> I fd = map_option (\<lambda>(ev, _). to_epoll ev) (watch p fd)"

definition in_sync :: "int set \<Rightarrow> ('w \<Rightarrow> int \<Rightarrow> int \<rightharpoonup> u32) \<Rightarrow> 'e epset \<Rightarrow> 'w sys \<Rightarrow> bool" where
  "in_sync A intr p s \<longleftrightarrow> distinct (map efd (entries p)) \<and>
     (\<forall>fd. watch p fd \<noteq> None \<longrightarrow> intr (world s) (epfd p) fd \<noteq> None) \<and>
     (\<forall>fd \<in> A. agree_at (intr (world s) (epfd p)) p fd)"

lemma sysc_epoll_ctl:
  assumes "epoll_ok os intr"
  shows "ctl_effect eop fd ev (ret (fst (sysc os (Sys_epoll_ctl ep eop fd ev) s)))
     (intr (world s) ep) (intr (world (snd (sysc os (Sys_epoll_ctl ep eop fd ev) s))) ep)"
proof -
  have "case os (Sys_epoll_ctl ep eop fd ev) (world s) of
      (r, w') \<Rightarrow> interest_effect intr (Sys_epoll_ctl ep eop fd ev) (world s) r w'"
    using assms by (simp add: epoll_ok_def)
  then show ?thesis by (simp add: interest_effect_def sysc_def split_def Let_def)
qed

lemma find_watch: "find_entry p fd = None \<longleftrightarrow> watch p fd = None"
proof -
  have "find (\<lambda>e. efd e = fd) es = None \<longleftrightarrow> map_of (map (\<lambda>e. (efd e, (eevents e, ecb e))) es) fd = None" for es :: "'a fd_entry list"
    by (induction es) auto
  then show ?thesis by (simp add: find_entry_def watch_def)
qed

lemma upd_entry_fds [simp]: "(\<And>e. efd (f e) = efd e) \<Longrightarrow> map efd (upd_entry fd f es) = map efd es"
  by (induction es) auto

lemma upd_entry_map_of:
  assumes "\<And>e. efd (f e) = efd e" and "map_of (map (\<lambda>e. (efd e, g e)) es) fd = Some y"
    and "\<And>e. efd e = fd \<Longrightarrow> g e = y \<Longrightarrow> g (f e) = z"
  shows "map_of (map (\<lambda>e. (efd e, g e)) (upd_entry fd f es)) = (map_of (map (\<lambda>e. (efd e, g e)) es))(fd \<mapsto> z)"
  using assms by (induction es) (auto simp: fun_upd_twist split: if_splits)

lemma unlink_fds: "distinct (map efd es) \<Longrightarrow> distinct (map efd (unlink_entry fd es)) \<and> set (unlink_entry fd es) \<subseteq> set es"
  by (induction es) auto

lemma unlink_map_of:
  "distinct (map efd es) \<Longrightarrow> map_of (map (\<lambda>e. (efd e, g e)) (unlink_entry fd es)) = (map_of (map (\<lambda>e. (efd e, g e)) es))(fd := None)"
proof (induction es)
  case (Cons e es)
  show ?case
  proof (cases "efd e = fd")
    case True
    then have "map_of (map (\<lambda>e. (efd e, g e)) es) fd = None"
      using Cons.prems by (auto simp: map_of_eq_None_iff image_image)
    with True show ?thesis by (auto simp: fun_eq_iff)
  next
    case False
    with Cons show ?thesis by (auto simp: fun_eq_iff)
  qed
qed simp

text \<open>The registration interface as one operation type, for sequences of calls.\<close>

datatype 'e reg_op = RegAdd bool int u32 "'e option" | RegMod int u32 | RegDel int

fun reg_step ::
    "'w os \<times> ('w \<Rightarrow> int \<Rightarrow> int \<rightharpoonup> u32) \<Rightarrow> 'e reg_op \<Rightarrow> 'e epset \<times> 'w sys \<Rightarrow> ztk_err \<times> 'e epset \<times> 'w sys" where
  "reg_step env (RegAdd ok fd ev c) (p, s) =
     (let ((e, q), s') = ztk_poller_add (fst env) ok (Some p) fd ev c s in (e, the q, s'))"
| "reg_step env (RegMod fd ev) (p, s) =
     (let ((e, q), s') = ztk_poller_mod (fst env) (Some p) fd ev s in (e, the q, s'))"
| "reg_step env (RegDel fd) (p, s) =
     (let ((e, q), s') = ztk_poller_del (fst env) (Some p) fd s in (e, the q, s'))"

fun reg_spec :: "'e reg_op \<Rightarrow> (int \<rightharpoonup> u32 \<times> 'e option) \<Rightarrow> (int \<rightharpoonup> u32 \<times> 'e option)" where
  "reg_spec (RegAdd _ fd ev c) m = m(fd \<mapsto> (ev, c))"
| "reg_spec (RegMod fd ev) m = m(fd := map_option (\<lambda>(_, c). (ev, c)) (m fd))"
| "reg_spec (RegDel fd) m = m(fd := None)"

definition reg_good :: "'w os \<times> ('w \<Rightarrow> int \<Rightarrow> int \<rightharpoonup> u32) \<Rightarrow> 'e epset \<times> 'w sys \<Rightarrow> bool" where
  "reg_good env ps \<longleftrightarrow> epoll_ok (fst env) (snd env) \<and> ctls_ok (fst env) (snd env) \<and> in_sync UNIV (snd env) (fst ps) (snd ps)"

lemma upd_watch:
  assumes "watch p fd = Some (ev0, c0)"
  shows "watch (p\<lparr>entries := upd_entry fd (\<lambda>e. e\<lparr>eevents := ev, ecb := c\<rparr>) (entries p)\<rparr>) = (watch p)(fd \<mapsto> (ev, c))"
    and "watch (p\<lparr>entries := upd_entry fd (\<lambda>e. e\<lparr>eevents := ev\<rparr>) (entries p)\<rparr>) = (watch p)(fd \<mapsto> (ev, c0))"
  using assms upd_entry_map_of [where f = "\<lambda>e. e\<lparr>eevents := ev, ecb := c\<rparr>" and g = "\<lambda>e. (eevents e, ecb e)" and
      y = "(ev0, c0)" and z = "(ev, c)" and fd = fd and es = "entries p"]
    upd_entry_map_of [where f = "\<lambda>e. e\<lparr>eevents := ev\<rparr>" and g = "\<lambda>e. (eevents e, ecb e)" and
      y = "(ev0, c0)" and z = "(ev, c0)" and fd = fd and es = "entries p"]
  by (simp_all add: watch_def)

lemma sysc_ctls:
  assumes "ctls_ok os intr" and "eop \<noteq> EPOLL_CTL_ADD" and "intr (world s) ep fd \<noteq> None"
  shows "ret (fst (sysc os (Sys_epoll_ctl ep eop fd ev) s)) = 0"
  using assms by (simp add: ctls_ok_def sysc_def split_def Let_def)

text \<open>
  What a call does to the table and to the set of descriptors on which table and kernel agree. A failed
  modification is the one error that is not without effect: the table has the new event set, the kernel the old one. Whether
  a deletion reached the kernel is not reported.
\<close>

fun reg_eff :: "'e reg_op \<Rightarrow> ztk_err \<Rightarrow> (int \<rightharpoonup> u32 \<times> 'e option) \<times> int set \<Rightarrow> (int \<rightharpoonup> u32 \<times> 'e option) \<times> int set" where
  "reg_eff (RegAdd _ fd ev c) e (m, A) =
     (if e = ZTK_OK then (m(fd \<mapsto> (ev, c)), insert fd A)
      else if e = ZTK_ERR_PLATFORM \<and> m fd \<noteq> None then (m(fd \<mapsto> (ev, c)), A - {fd})
      else (m, A))"
| "reg_eff (RegMod fd ev) e (m, A) =
     (if e = ZTK_OK then (m(fd := map_option (\<lambda>(_, c). (ev, c)) (m fd)), insert fd A)
      else if e = ZTK_ERR_PLATFORM then (m(fd := map_option (\<lambda>(_, c). (ev, c)) (m fd)), A - {fd})
      else (m, A))"
| "reg_eff (RegDel fd) e (m, A) = (if e = ZTK_OK then (m(fd := None), A - {fd}) else (m, A))"

fun reg_track ::
    "'e reg_op list \<Rightarrow> ztk_err list \<Rightarrow> (int \<rightharpoonup> u32 \<times> 'e option) \<times> int set \<Rightarrow> (int \<rightharpoonup> u32 \<times> 'e option) \<times> int set" where
  "reg_track (x # xs) (e # es) st = reg_track xs es (reg_eff x e st)"
| "reg_track _ _ st = st"

lemma in_sync_mono: "in_sync A intr p s \<Longrightarrow> B \<subseteq> A \<Longrightarrow> in_sync B intr p s"
  by (auto simp: in_sync_def)

lemma add_sync:
  assumes "epoll_ok os intr" and "in_sync A intr p s" and "ztk_poller_add os ok (Some p) fd ev c s = ((e, q), s')"
  shows "\<exists>p'. q = Some p' \<and> epfd p' = epfd p \<and> wake_r p' = wake_r p \<and>
     fst (reg_eff (RegAdd ok fd ev c) e (watch p, A)) = watch p' \<and>
     in_sync (snd (reg_eff (RegAdd ok fd ev c) e (watch p, A))) intr p' s' \<and>
     (ctls_ok os intr \<longrightarrow> in_sync A intr p' s' \<and> (e = ZTK_OK \<or> watch p' = watch p))"
proof (cases "fd < 0")
  case True
  then show ?thesis using assms by (auto simp: ztk_poller_add_def)
next
  case False
  show ?thesis
  proof (cases "watch p fd")
    case None
    note ctl = sysc_epoll_ctl [OF assms(1), of EPOLL_CTL_ADD fd "to_epoll ev" "epfd p" s]
    have nin: "fd \<notin> efd ` set (entries p)" using None by (auto simp: watch_def map_of_eq_None_iff image_image)
    have w: "watch (p\<lparr>entries := \<lparr>efd = fd, eevents = ev, ecb = c\<rparr> # entries p\<rparr>) = (watch p)(fd \<mapsto> (ev, c))"
      by (simp add: watch_def)
    show ?thesis
      using assms(2,3) False None ctl nin w
      by (auto simp: ztk_poller_add_def find_watch epoll_ctl_wrap_def in_sync_def agree_at_def ctl_effect_def Let_def split_def
          split: if_splits)
  next
    case (Some y)
    obtain ev0 c0 where y: "y = (ev0, c0)" by (cases y)
    note ctl = sysc_epoll_ctl [OF assms(1), of EPOLL_CTL_MOD fd "to_epoll ev" "epfd p" s]
    note ctls = sysc_ctls [of os intr EPOLL_CTL_MOD s "epfd p" fd "to_epoll ev"]
    show ?thesis
      using assms(2,3) False Some y ctl ctls upd_watch(1) [of p fd ev0 c0 c ev]
      by (auto simp: ztk_poller_add_def find_watch epoll_ctl_wrap_def in_sync_def agree_at_def ctl_effect_def Let_def split_def
          split: if_splits)
  qed
qed

lemma mod_sync:
  assumes "epoll_ok os intr" and "in_sync A intr p s" and "ztk_poller_mod os (Some p) fd ev s = ((e, q), s')"
  shows "\<exists>p'. q = Some p' \<and> epfd p' = epfd p \<and> wake_r p' = wake_r p \<and>
     fst (reg_eff (RegMod fd ev) e (watch p, A)) = watch p' \<and>
     in_sync (snd (reg_eff (RegMod fd ev) e (watch p, A))) intr p' s' \<and>
     (ctls_ok os intr \<longrightarrow> in_sync A intr p' s' \<and> (e = ZTK_OK \<or> watch p' = watch p))"
proof (cases "watch p fd")
  case None
  then show ?thesis using assms by (auto simp: ztk_poller_mod_def find_watch split: if_splits)
next
  case (Some y)
  obtain ev0 c0 where y: "y = (ev0, c0)" by (cases y)
  note ctl = sysc_epoll_ctl [OF assms(1), of EPOLL_CTL_MOD fd "to_epoll ev" "epfd p" s]
  note ctls = sysc_ctls [of os intr EPOLL_CTL_MOD s "epfd p" fd "to_epoll ev"]
  show ?thesis
    using assms(2,3) Some y ctl ctls upd_watch(2) [of p fd ev0 c0 ev]
    by (auto simp: ztk_poller_mod_def find_watch epoll_ctl_wrap_def in_sync_def agree_at_def ctl_effect_def Let_def split_def
        split: if_splits)
qed

lemma del_sync:
  assumes "epoll_ok os intr" and "in_sync A intr p s" and "ztk_poller_del os (Some p) fd s = ((e, q), s')"
  shows "\<exists>p'. q = Some p' \<and> epfd p' = epfd p \<and> wake_r p' = wake_r p \<and>
     fst (reg_eff (RegDel fd) e (watch p, A)) = watch p' \<and>
     in_sync (snd (reg_eff (RegDel fd) e (watch p, A))) intr p' s' \<and>
     (ctls_ok os intr \<longrightarrow> in_sync A intr p' s' \<and> (e = ZTK_OK \<or> watch p' = watch p))"
proof (cases "fd = wake_r p \<or> watch p fd = None")
  case True
  then show ?thesis using assms by (auto simp: ztk_poller_del_def find_watch split: if_splits)
next
  case False
  note ctl = sysc_epoll_ctl [OF assms(1), of EPOLL_CTL_DEL fd 0 "epfd p" s]
  note ctls = sysc_ctls [of os intr EPOLL_CTL_DEL s "epfd p" fd 0]
  have w: "watch (p\<lparr>entries := unlink_entry fd (entries p)\<rparr>) = (watch p)(fd := None)"
    using assms(2) by (simp add: watch_def unlink_map_of in_sync_def)
  show ?thesis
    using assms(2,3) False ctl ctls w unlink_fds [of "entries p" fd]
    by (auto simp: ztk_poller_del_def find_watch in_sync_def agree_at_def ctl_effect_def Let_def split_def
        split: if_splits)
qed

text \<open>With a kernel that does not fail to modify and delete, registration is all or nothing.\<close>

interpretation reg: all_or_nothing reg_good reg_step "\<lambda>(p, s). watch p" reg_spec
proof
  fix env :: "'w os \<times> ('w \<Rightarrow> int \<Rightarrow> int \<rightharpoonup> u32)" and ps ps' :: "'e epset \<times> 'w sys" and x :: "'e reg_op" and e
  assume good: "reg_good env ps" and st: "reg_step env x ps = (e, ps')"
  obtain p s where ps: "ps = (p, s)" by (cases ps)
  have "reg_good env ps' \<and> watch (fst ps') = (if e = ZTK_OK then reg_spec x (watch p) else watch p)"
  proof (cases x)
    case (RegAdd ok fd ev c)
    with st ps add_sync [of "fst env" "snd env" UNIV p s ok fd ev c] good show ?thesis
      by (auto simp: reg_good_def Let_def split: prod.splits)
  next
    case (RegMod fd ev)
    with st ps mod_sync [of "fst env" "snd env" UNIV p s fd ev] good show ?thesis
      by (auto simp: reg_good_def Let_def split: prod.splits)
  next
    case (RegDel fd)
    with st ps del_sync [of "fst env" "snd env" UNIV p s fd] good show ?thesis
      by (auto simp: reg_good_def Let_def split: prod.splits)
  qed
  then show "reg_good env ps'"
    and "(case ps' of (p, s) \<Rightarrow> watch p) = (if e = ZTK_OK then reg_spec x (case ps of (p, s) \<Rightarrow> watch p) else case ps of (p, s) \<Rightarrow> watch p)"
    by (simp_all add: ps split_def)
qed

text \<open>In general the table follows the calls as \<open>reg_eff\<close> says, and agrees with the kernel on the tracked descriptors.\<close>

lemma reg_step_track:
  assumes "epoll_ok os intr" and "in_sync A intr p s" and "reg_step (os, intr) x (p, s) = (e, p', s')"
  shows "fst (reg_eff x e (watch p, A)) = watch p' \<and> in_sync (snd (reg_eff x e (watch p, A))) intr p' s'"
proof (cases x)
  case (RegAdd ok fd ev c)
  obtain e1 q y where r: "ztk_poller_add os ok (Some p) fd ev c s = ((e1, q), y)" by (metis prod.exhaust)
  from add_sync [OF assms(1,2) r] RegAdd r assms(3) show ?thesis by (auto simp del: reg_eff.simps)
next
  case (RegMod fd ev)
  obtain e1 q y where r: "ztk_poller_mod os (Some p) fd ev s = ((e1, q), y)" by (metis prod.exhaust)
  from mod_sync [OF assms(1,2) r] RegMod r assms(3) show ?thesis by (auto simp del: reg_eff.simps)
next
  case (RegDel fd)
  obtain e1 q y where r: "ztk_poller_del os (Some p) fd s = ((e1, q), y)" by (metis prod.exhaust)
  from del_sync [OF assms(1,2) r] RegDel r assms(3) show ?thesis by (auto simp del: reg_eff.simps)
qed

lemma reg_run_track:
  assumes "epoll_ok os intr" and "in_sync A intr p s" and "run_ops reg_step (os, intr) xs (p, s) = (es, p', s')"
  shows "fst (reg_track xs es (watch p, A)) = watch p' \<and> in_sync (snd (reg_track xs es (watch p, A))) intr p' s'"
  using assms(2,3)
proof (induction xs arbitrary: A p s es)
  case (Cons x xs)
  obtain e p1 s1 where st: "reg_step (os, intr) x (p, s) = (e, p1, s1)" by (metis prod.exhaust)
  obtain es1 where r: "run_ops reg_step (os, intr) xs (p1, s1) = (es1, p', s')" "es = e # es1"
    using Cons.prems(2) st by (auto simp: Let_def split: prod.splits)
  note x = reg_step_track [OF assms(1) Cons.prems(1) st]
  then have "reg_eff x e (watch p, A) = (watch p1, snd (reg_eff x e (watch p, A)))" by (metis prod.collapse)
  then show ?case using Cons.IH [OF conjunct2 [OF x] r(1)] r(2) by (metis reg_track.simps(1))
qed simp

text \<open>The failure that leaves table and kernel apart.\<close>

lemma poller_mod_failure:
  assumes "epoll_ok os intr" and "watch p fd = Some (ev0, c)"
    and "ret (fst (sysc os (Sys_epoll_ctl (epfd p) EPOLL_CTL_MOD fd (to_epoll ev)) s)) \<noteq> 0"
  shows "\<exists>p' s'. ztk_poller_mod os (Some p) fd ev s = ((ZTK_ERR_PLATFORM, Some p'), s') \<and>
     watch p' fd = Some (ev, c) \<and> intr (world s') (epfd p') = intr (world s) (epfd p)"
  using sysc_epoll_ctl [OF assms(1), of EPOLL_CTL_MOD fd "to_epoll ev" "epfd p" s] assms(2,3) upd_watch(2) [OF assms(2), of ev]
  by (auto simp: ztk_poller_mod_def find_watch epoll_ctl_wrap_def ctl_effect_def Let_def split_def)

section \<open>Every turn drains the task queue\<close>

text \<open>
  Tasks and descriptor callbacks that return and post nothing themselves; \<open>log\<close> observes the tasks
  that have run.
\<close>

definition quiet_tasks ::
    "('c, 'u, 'e, 'w, 'z) task_run \<Rightarrow> (('c, 'u, 'e, 'w, 'z) epoller_scheme \<Rightarrow> 'u ttask list) \<Rightarrow> bool" where
  "quiet_tasks run lg \<longleftrightarrow>
     (\<forall>t p. \<exists>p'. run t p = Some p' \<and> task_q p' = task_q p \<and> task_mtx p' = task_mtx p \<and> lg p' = lg p @ [t]) \<and>
     (\<forall>p q y l. lg (p\<lparr>task_q := q\<rparr>) = lg p \<and> lg (p\<lparr>psys := y\<rparr>) = lg p \<and> lg (p\<lparr>load := l\<rparr>) = lg p)"

definition quiet_cbs ::
    "('c, 'u, 'e, 'w, 'z) fd_run \<Rightarrow> (('c, 'u, 'e, 'w, 'z) epoller_scheme \<Rightarrow> 'u ttask list) \<Rightarrow> bool" where
  "quiet_cbs ecbs lg \<longleftrightarrow>
     (\<forall>c fd ev p. \<exists>p'. ecbs c fd ev p = Some p' \<and> task_q p' = task_q p \<and> task_mtx p' = task_mtx p \<and> lg p' = lg p)"

lemma tq_rep_same: "task_q s' = task_q s \<Longrightarrow> tq_rep D s' xs = tq_rep D s xs"
  by (simp add: tq_rep_def)

lemma quiet_runner:
  fixes run :: "('c, 'u, 'e, 'w, 'z) task_run"
  assumes "quiet_tasks run lg"
  shows "task_runner run (\<lambda>p. (lg p, task_mtx p)) (\<lambda>_ _. True) (\<lambda>t (xs, l, m). (xs, l @ [t], m))"
proof
  fix D xs t and p :: "('c, 'u, 'e, 'w, 'z) epoller_scheme" and ts :: "'u ttask list"
  assume rep: "tq_rep D p xs"
  obtain p' where p': "run t p = Some p'" "task_q p' = task_q p" "task_mtx p' = task_mtx p" "lg p' = lg p @ [t]"
    using assms unfolding quiet_tasks_def by blast
  then show "\<exists>p'. run t p = Some p' \<and> tq_rep D p' (fst (case (xs, lg p, task_mtx p) of (xs, l, m) \<Rightarrow> (xs, l @ [t], m))) \<and>
      (lg p', task_mtx p') = snd (case (xs, lg p, task_mtx p) of (xs, l, m) \<Rightarrow> (xs, l @ [t], m)) \<and>
      same_nodes D p p' \<and> task_mtx p' = task_mtx p"
    using rep tq_rep_same [of p' p D xs] by (auto simp: same_nodes_def)
next
  fix p :: "('c, 'u, 'e, 'w, 'z) epoller_scheme" and q
  show "(lg (p\<lparr>task_q := q\<rparr>), task_mtx (p\<lparr>task_q := q\<rparr>)) = (lg p, task_mtx p)"
    using assms by (simp add: quiet_tasks_def)
qed simp

lemma fold_log: "fold (\<lambda>t (xs, l, m). (xs, l @ [t], m)) ts (xs, l, m) = (xs, l @ ts, m)"
  by (induction ts arbitrary: l) auto

lemma quiet_drain:
  assumes "quiet_tasks run lg" and "tq_rep {} p ts" and "task_mtx p"
  shows "\<exists>p'. ztk_poller_drain_tasks run (Some p) = Some (Some p') \<and> tq_rep {} p' [] \<and> lg p' = lg p @ ts \<and> task_mtx p'"
  using task_runner.drain_folds [OF quiet_runner [OF assms(1)] assms(2,3)] assms(3)
  by (auto simp: fold_log)

lemma quiet_pending:
  assumes "quiet_tasks run lg" and "tq_rep {} p ts" and "task_mtx p"
  shows "\<exists>p'. drain_pending run p = Some p' \<and> tq_rep {} p' [] \<and> lg p' = lg p @ ts \<and> task_mtx p'"
proof (cases "lhead (task_q p)")
  case None
  then have "ts = []" using assms(2) by (auto simp: tq_rep_def lq_rep_def lq_repn_def elim: lpath.elims)
  then show ?thesis using None assms(2,3) by (simp add: drain_pending_def)
next
  case (Some a)
  then show ?thesis using quiet_drain [OF assms] assms(3) by (auto simp: drain_pending_def)
qed

lemma quiet_loop:
  assumes "quiet_tasks run lg" and "quiet_cbs ecbs lg" and "\<And>fd y. drain_wake_pipe os fd y \<noteq> None"
    and "tq_rep {} p ts" and "task_mtx p"
  shows "\<exists>p' done rest. poll_loop os run ecbs evs p = Some p' \<and> ts = done @ rest \<and> tq_rep {} p' rest \<and>
           lg p' = lg p @ done \<and> task_mtx p'"
  using assms(4,5)
proof (induction evs arbitrary: p ts)
  case Nil
  then show ?case by (auto intro!: exI [of _ "[]"])
next
  case (Cons e evs)
  obtain ev fd where e: "e = (ev, fd)" by (cases e)
  have "\<exists>p1 d r. (if fd = wake_r (eps p)
            then Option.bind (drain_wake_pipe os (wake_r (eps p)) (psys p)) (\<lambda>s.
                   case ztk_poller_drain_tasks run (Some (p\<lparr>psys := s\<rparr>)) of Some (Some p1) \<Rightarrow> Some p1 | _ \<Rightarrow> None)
            else Some p) = Some p1 \<and> ts = d @ r \<and> tq_rep {} p1 r \<and> lg p1 = lg p @ d \<and> task_mtx p1"
  proof (cases "fd = wake_r (eps p)")
    case True
    obtain s where s: "drain_wake_pipe os (wake_r (eps p)) (psys p) = Some s" using assms(3) by blast
    have "tq_rep {} (p\<lparr>psys := s\<rparr>) ts" "lg (p\<lparr>psys := s\<rparr>) = lg p"
      using Cons.prems(1) assms(1) by (simp_all add: tq_rep_def quiet_tasks_def)
    with quiet_drain [OF assms(1), of "p\<lparr>psys := s\<rparr>" ts] Cons.prems(2)
    show ?thesis using True s by (fastforce intro: exI [of _ "[]"])
  next
    case False
    with Cons.prems show ?thesis by (auto intro!: exI [of _ "[]"])
  qed
  then obtain p1 d r where p1: "(if fd = wake_r (eps p)
            then Option.bind (drain_wake_pipe os (wake_r (eps p)) (psys p)) (\<lambda>s.
                   case ztk_poller_drain_tasks run (Some (p\<lparr>psys := s\<rparr>)) of Some (Some p1) \<Rightarrow> Some p1 | _ \<Rightarrow> None)
            else Some p) = Some p1" and d: "ts = d @ r" "tq_rep {} p1 r" "lg p1 = lg p @ d" "task_mtx p1"
    by blast
  show ?case
  proof (cases "Option.bind (find_entry (eps p1) fd) ecb")
    case None
    obtain p' d' r' where "poll_loop os run ecbs evs p1 = Some p'" "r = d' @ r'" "tq_rep {} p' r'"
        "lg p' = lg p1 @ d'" "task_mtx p'"
      using Cons.IH [OF d(2,4)] by blast
    then show ?thesis using None p1 d e by (auto intro!: exI [of _ "d @ d'"])
  next
    case (Some c)
    obtain p2 where p2: "ecbs c fd (from_epoll ev) p1 = Some p2" "task_q p2 = task_q p1"
        "task_mtx p2 = task_mtx p1" "lg p2 = lg p1"
      using assms(2) unfolding quiet_cbs_def by blast
    have "tq_rep {} p2 r" using d(2) tq_rep_same [OF p2(2)] by blast
    then obtain p' d' r' where "poll_loop os run ecbs evs p2 = Some p'" "r = d' @ r'" "tq_rep {} p' r'"
        "lg p' = lg p2 @ d'" "task_mtx p'"
      using Cons.IH [of p2 r] p2(3) d(4) by auto
    then show ?thesis using Some p1 p2 d e by (auto intro!: exI [of _ "d @ d'"])
  qed
qed

section \<open>Closing a poller with a pending cancellation\<close>

lemma free_cells_frees:
  assumes "free_cells is p = Some p1"
  shows "(\<forall>i\<in>set is. \<forall>a. heap_cell p i = Some a \<longrightarrow> timers p1 a = None) \<and> task_q p1 = task_q p \<and>
    ctxs p1 = ctxs p \<and> task_mtx p1 = task_mtx p \<and> timer_heap p1 = timer_heap p \<and>
    (\<forall>a. timers p a = None \<longrightarrow> timers p1 a = None)"
  using assms
proof (induction "is" arbitrary: p)
  case (Cons i "is")
  from Cons.prems obtain a p2 where a: "heap_cell p i = Some a" and p2: "free_timer a p = Some p2"
      and fc: "free_cells is p2 = Some p1"
    by (auto split: option.splits)
  have p2': "p2 = p\<lparr>timers := (timers p)(a := None)\<rparr>" using p2 by (auto simp: free_timer_def split: if_splits)
  have "heap_cell p2 j = heap_cell p j" for j using p2' by (simp add: heap_cell_def)
  with Cons.IH [OF fc] a p2' show ?case by auto
qed simp

lemma timer_fini_frees:
  assumes "ztk_poller_timer_fini p = Some p1" and "i < unat (timer_heap_count p)" and "heap_cell p i = Some a"
  shows "timers p1 a = None \<and> task_q p1 = task_q p \<and> ctxs p1 = ctxs p \<and> task_mtx p1 = task_mtx p"
  using assms free_cells_frees [of "[0..<unat (timer_heap_count p)]" p] by (auto simp: ztk_poller_timer_fini_def)

section \<open>A kernel with interest lists\<close>

definition ep_ctl :: "epoll_op \<Rightarrow> int \<Rightarrow> u32 \<Rightarrow> (int \<rightharpoonup> u32) \<Rightarrow> int \<times> (int \<rightharpoonup> u32)" where
  "ep_ctl eop fd ev m =
     (case eop of
        EPOLL_CTL_ADD \<Rightarrow> if m fd = None then (0, m(fd \<mapsto> ev)) else (- 1, m)
      | EPOLL_CTL_MOD \<Rightarrow> if m fd = None then (- 1, m) else (0, m(fd \<mapsto> ev))
      | EPOLL_CTL_DEL \<Rightarrow> (if m fd = None then - 1 else 0, m(fd := None)))"

definition ep_os :: "(kern \<times> (int \<Rightarrow> int \<rightharpoonup> u32)) os" where
  "ep_os c wm =
     (case c of
        Sys_epoll_ctl ep eop fd ev \<Rightarrow>
          let (n, m) = ep_ctl eop fd ev (snd wm ep) in (k_res n, (fst wm, (snd wm)(ep := m)))
      | Sys_close fd \<Rightarrow> (k_res 0, (snd (k_os c (fst wm)), \<lambda>ep. (snd wm ep)(fd := None)))
      | _ \<Rightarrow> let (r, w) = k_os c (fst wm) in (r, (w, snd wm)))"

lemma ep_ctl_effect: "ctl_effect eop fd ev (fst (ep_ctl eop fd ev m)) m (snd (ep_ctl eop fd ev m))"
  by (cases eop) (auto simp: ep_ctl_def ctl_effect_def)

lemma ep_epoll_ok: "epoll_ok ep_os snd"
  unfolding epoll_ok_def split_def
proof (intro allI)
  fix c and wm :: "kern \<times> (int \<Rightarrow> int \<rightharpoonup> u32)"
  show "interest_effect snd c wm (fst (ep_os c wm)) (snd (ep_os c wm))"
    by (cases c) (simp_all add: interest_effect_def ep_os_def Let_def split_def ep_ctl_effect)
qed

record demo_poller = "(nat, nat, nat, kern) epoller" +
  ran :: "nat ttask list"

definition demo_set :: "nat epset" where
  "demo_set = \<lparr>epfd = 3, wake_r = 4, wake_w = 5, entries = []\<rparr>"

definition demo :: "nat ttask lq \<Rightarrow> demo_poller" where
  "demo q = \<lparr>task_mtx = True, task_q = q, owner_thread = 0, timer_mtx = True,
     timers = Map.empty, timer_heap = [], timer_heap_count = 0, timer_heap_cap = 0, ctxs = Map.empty,
     load = ztk_poller_load_init True 0, eps = demo_set, psys = k_start [], ran = []\<rparr>"

definition demo_run :: "nat ttask \<Rightarrow> demo_poller \<Rightarrow> demo_poller option" where
  "demo_run t p = Some (p\<lparr>ran := ran p @ [t]\<rparr>)"

lemma demo_quiet: "quiet_tasks demo_run ran" "quiet_cbs (\<lambda>_ _ _ p. Some p) ran"
  by (simp_all add: quiet_tasks_def quiet_cbs_def demo_run_def)

lemma k_pipe_empty: "drain_wake_pipe k_os fd y \<noteq> None"
  by (subst drain_wake_pipe.simps) (simp add: k_os_def sysc_def Let_def split_def)

definition demo_queue :: "nat ttask lq" where
  "demo_queue = lq_push_back 2 (UserTask 8) (lq_push_back 1 (UserTask 7) lq_empty)"

lemma demo_queue_rep: "tq_rep {} (demo demo_queue) [UserTask 7, UserTask 8]"
proof -
  have "lq_rep (lq_push_back 1 (UserTask 7) lq_empty) [UserTask (7 :: nat)]"
    using lq_rep_push_back [OF lq_rep_empty, of 1 "UserTask 7"] by (simp add: lq_fresh_def lq_empty_def)
  from lq_rep_push_back [OF this, of 2 "UserTask 8"]
  have "lq_rep demo_queue [UserTask 7, UserTask 8]"
    by (simp add: demo_queue_def lq_fresh_def lq_push_back_def lq_empty_def)
  then show ?thesis by (simp add: tq_rep_def demo_def)
qed

section \<open>Properties\<close>

text \<open>
  C4. The poller's table and the kernel's interest list, after any sequence of add, mod and del calls, whatever fails in
  between: allocation, each operation of \<^verbatim>\<open>epoll_ctl\<close>, unknown or negative descriptors. The table is what the results of the calls say:
  a call that returned OK had its effect and one that failed had none, except that a failed
  modification of a registered descriptor has changed the table all the same. The kernel watches every descriptor of the
  table, and it does so with exactly the translated event set for each descriptor whose last add or mod returned OK. If the kernel
  does not fail to modify or delete what is registered, the two agree on all descriptors, and every error was without effect.
\<close>

theorem poller_tracks_kernel:
  assumes "epoll_ok os intr" and "in_sync A intr p s"
    and "run_ops reg_step (os, intr) ops (p, s) = (es, p', s')"
    and "reg_track ops es (watch p, A) = (m, A')"
  shows "watch p' = m \<and> distinct (map efd (entries p')) \<and>
    (\<forall>fd. m fd \<noteq> None \<longrightarrow> intr (world s') (epfd p') fd \<noteq> None) \<and>
    (\<forall>fd \<in> A'. intr (world s') (epfd p') fd = map_option (\<lambda>(ev, _). to_epoll ev) (m fd)) \<and>
    (ctls_ok os intr \<and> A = UNIV \<longrightarrow> m = eff_ops reg_spec ops es (watch p) \<and>
       (\<forall>fd. intr (world s') (epfd p') fd = map_option (\<lambda>(ev, _). to_epoll ev) (m fd)))"
  using reg_run_track [OF assms(1-3)] reg.run_view [of "(os, intr)" "(p, s)" ops es "(p', s')"] assms
  by (auto simp: reg_good_def in_sync_def agree_at_def)

theorem poller_tracks_kernel_witness:
  "\<exists>p' s'. run_ops reg_step (ep_os, snd)
       [RegAdd True 9 1 (Some 7), RegAdd False 8 1 None, RegMod 9 3, RegMod 8 1, RegAdd True 6 1 None, RegDel 6]
       (demo_set, \<lparr>errno = E_NONE, world = (world (k_start []), \<lambda>_. Map.empty)\<rparr>) =
       ([ZTK_OK, ZTK_ERR_NOMEM, ZTK_OK, ZTK_ERR_INVALID, ZTK_OK, ZTK_OK], p', s') \<and>
     watch p' = [9 \<mapsto> (3, Some 7)] \<and> snd (world s') (epfd p') 9 = Some (to_epoll 3)"
proof -
  let ?s = "\<lparr>errno = E_NONE, world = (world (k_start []), \<lambda>_. Map.empty)\<rparr>"
  let ?ops = "[RegAdd True 9 1 (Some 7), RegAdd False 8 1 None, RegMod 9 3, RegMod 8 1, RegAdd True 6 1 None, RegDel 6]"
  let ?es = "[ZTK_OK, ZTK_ERR_NOMEM, ZTK_OK, ZTK_ERR_INVALID, ZTK_OK, ZTK_OK]"
  have sync: "in_sync UNIV snd demo_set ?s" by (simp add: in_sync_def agree_at_def demo_set_def watch_def)
  obtain p' s' where r: "run_ops reg_step (ep_os, snd) ?ops (demo_set, ?s) = (?es, p', s')"
    by (simp add: ztk_poller_add_def ztk_poller_mod_def ztk_poller_del_def demo_set_def find_entry_def
        epoll_ctl_wrap_def sysc_def ep_os_def ep_ctl_def k_start_def Let_def)
  have tr: "reg_track ?ops ?es (watch demo_set, UNIV) = ([9 \<mapsto> (3, Some 7)], UNIV - {6})"
    by (auto simp: demo_set_def watch_def fun_eq_iff)
  from poller_tracks_kernel [OF ep_epoll_ok sync r tr] r show ?thesis by auto
qed

text \<open>
  C13. No posted task waits beyond the current turn, unless the wait itself fails. Let the tasks and the callbacks return and
  post no further tasks (\<open>quiet_tasks\<close>, \<open>quiet_cbs\<close>), and let the wake pipe run empty when it is read. Then a poll returns. If
  \<^verbatim>\<open>epoll_wait\<close> succeeded, every task that was queued when the poller went to sleep has run exactly once, in queue order, and
  the queue is empty, whatever events were reported and even when no wake-up was among them. If it failed, the poll
  returns 0 for \<^verbatim>\<open>EINTR\<close> and -1 otherwise; no task has run, and all are still queued for the next turn.
\<close>

theorem poll_runs_pending_tasks:
  assumes "quiet_tasks run lg" and "quiet_cbs ecbs lg" and "\<And>fd y. drain_wake_pipe os fd y \<noteq> None"
    and "ztk_poller_resolve_timeout_ms cbs rok now (Some p) timeout = Some (wait, Some p1)"
    and "tq_rep {} p1 ts" and "task_mtx p1"
    and "r = sysc os (Sys_epoll_wait (epfd (eps p1)) ZTK_EPOLL_MAX_EVENTS wait) (psys p1)"
  shows "\<exists>n p'. ztk_poller_poll os run cbs ecbs rok now t1 t2 (Some p) timeout = Some (n, Some p') \<and>
     (if 0 \<le> ret (fst r) then n = ret (fst r) \<and> tq_rep {} p' [] \<and> lg p' = lg p1 @ ts
      else n = (if errno (snd r) = EINTR then 0 else - 1) \<and> tq_rep {} p' ts \<and> lg p' = lg p1)"
proof -
  let ?l = "ztk_poller_load_on_wake t2 (ztk_poller_load_on_sleep t1 (load p1))"
  let ?p3 = "p1\<lparr>psys := snd r, load := ?l\<rparr>"
  have p3: "tq_rep {} ?p3 ts" "task_mtx ?p3" "lg ?p3 = lg p1"
    using assms(1,5,6) by (simp_all add: tq_rep_def quiet_tasks_def)
  show ?thesis
  proof (cases "0 \<le> ret (fst r)")
    case False
    then show ?thesis using assms(4,7) p3 by (simp add: ztk_poller_poll_def Let_def split_def)
  next
    case True
    obtain p4 r4 d4 where p4: "(if ret (fst r) = 0 then drain_pending run ?p3 else Some ?p3) = Some p4"
        "ts = d4 @ r4" "tq_rep {} p4 r4" "lg p4 = lg p1 @ d4" "task_mtx p4"
    proof (cases "ret (fst r) = 0")
      case True
      then show ?thesis using that [of _ ts "[]"] quiet_pending [OF assms(1) p3(1,2)] p3(3) by auto
    next
      case False
      then show ?thesis using that [of ?p3 "[]" ts] p3 by simp
    qed
    obtain p5 d5 r5 where p5: "poll_loop os run ecbs (take (nat (ret (fst r))) (res_evs (fst r))) p4 = Some p5"
        "r4 = d5 @ r5" "tq_rep {} p5 r5" "lg p5 = lg p4 @ d5" "task_mtx p5"
      using quiet_loop [OF assms(1-3) p4(3,5)] by blast
    obtain p6 where p6: "drain_pending run p5 = Some p6" "tq_rep {} p6 []" "lg p6 = lg p5 @ r5"
      using quiet_pending [OF assms(1) p5(3,5)] by blast
    show ?thesis
      using True assms(4,7) p4 p5 p6
      by (cases "ret (fst r) = 0") (simp_all add: ztk_poller_poll_def Let_def split_def)
  qed
qed

theorem poll_runs_pending_tasks_witness:
  "\<exists>n p'. ztk_poller_poll k_os demo_run (\<lambda>_ _. None) (\<lambda>_ _ _ p. Some p) True 0 0 0 (Some (demo demo_queue)) 10 =
       Some (n, Some p') \<and> tq_rep {} p' [] \<and> ran p' = [UserTask 7, UserTask 8]"
proof -
  have "ztk_poller_resolve_timeout_ms (\<lambda>_ _. None) True 0 (Some (demo demo_queue)) 10 = Some (10, Some (demo demo_queue))"
    by (simp add: ztk_poller_resolve_timeout_ms_def flush_expired_timers_def ZTK_TIMER_FLUSH_MAX_def demo_def
        numeral_eq_Suc)
  moreover have "task_mtx (demo demo_queue)" "ran (demo demo_queue) = []" by (simp_all add: demo_def)
  ultimately show ?thesis
    using poll_runs_pending_tasks [where timeout = 10 and rok = True and now = 0 and ?t1.0 = 0 and ?t2.0 = 0,
        OF demo_quiet k_pipe_empty _ demo_queue_rep _ refl]
    by (fastforce simp: sysc_def k_os_def Let_def split_def)
qed

text \<open>
  Destroying a poller while the cancellation of an armed timer is still queued reads freed memory:
  \<^verbatim>\<open>ztk_poller_task_fini\<close> frees every timer of the heap and only then runs the queued tasks, so the
  cancellation finds its timer gone and the run has no defined outcome.
\<close>

lemma fini_pending_cancel:
  assumes "task_mtx p" and "lhead (task_q p) = Some n" and "nodes (task_q p) n = Some (TimerCancel c, nx)"
    and "ctxs p c = Some (CancelCtx a)" and "i < unat (timer_heap_count p)" and "heap_cell p i = Some a"
  shows "ztk_poller_task_fini (run_timer_task user rok) p = None"
proof (cases "ztk_poller_timer_fini (p\<lparr>load := ztk_poller_load_fini (load p)\<rparr>)")
  case None
  then show ?thesis by (simp add: ztk_poller_task_fini_def)
next
  case (Some p1)
  have cell: "heap_cell (p\<lparr>load := l\<rparr>) i = heap_cell p i" for l
    by (auto simp: heap_cell_def)
  have p1: "timers p1 a = None" "task_q p1 = task_q p" "ctxs p1 = ctxs p" "task_mtx p1"
    using timer_fini_frees [OF Some, of i a] assms(1,5,6) by (simp_all add: cell)
  have "timer_cancel_async c (p1\<lparr>task_q := q\<rparr>) = None" for q
    using p1 assms(4) by (simp add: timer_cancel_async_def free_ctx_def timer_heap_remove_def)
  then have "ztk_poller_drain_tasks (run_timer_task user rok) (Some p1) = None"
    using p1 assms(2,3) by (subst ztk_poller_drain_tasks_def) (simp add: drain_list.simps run_timer_task_def)
  then show ?thesis using Some by (simp add: ztk_poller_task_fini_def)
qed

end
