(* ===== verification/Socket.thy ===== *)
theory Socket
  imports Poller_Epoll
begin

text \<open>
  Sockets, \<^verbatim>\<open>src/net/socket.c\<close>, over the Linux platform layer and the poller's descriptor table.
  Sockets and pollers are objects at addresses of the record \<open>net\<close>, which components built on sockets
  extend. \<open>nmem\<close> lists the outcomes of the allocations to come (\<open>None\<close> is \<^verbatim>\<open>NULL\<close>; an address in use is
  no answer). A pointer argument is an optional address; using one that is not allocated has no
  defined outcome (\<open>None\<close>). A callback function of a client is a value \<open>'k\<close>; what it does is an
  argument of \<open>socket_poller_cb\<close>, which the poller calls.
\<close>

section \<open>State\<close>

datatype ztk_sock_type =
    ZTK_SOCK_NONE
  | ZTK_SOCK_TCP_CLIENT
  | ZTK_SOCK_TCP_LISTEN
  | ZTK_SOCK_TCP_CONNECTED
  | ZTK_SOCK_UDP

record 'k socket_cbs =
  on_readable :: "'k option"
  on_writable :: "'k option"
  on_error :: "'k option"

record 'k ztk_socket =
  s_fd :: int
  s_type :: ztk_sock_type
  s_poller :: "nat option"
  s_cb :: "'k socket_cbs"
  s_user :: "nat option"
  s_poll_events :: u32
  s_attached :: bool
  s_connect_pending :: bool

text \<open>What a poller entry calls: \<^verbatim>\<open>socket_poller_cb\<close> with a socket, or another function with its user pointer.\<close>

datatype 'k pcb = Socket_cb nat | Fd_cb 'k "nat option"

record ('k, 'w) net =
  nsys :: "'w sys"
  socks :: "nat \<rightharpoonup> 'k ztk_socket"
  npollers :: "nat \<rightharpoonup> 'k pcb epset"
  sockplat_inited :: bool
  nmem :: "nat option list"

definition no_cbs :: "'k socket_cbs" where
  "no_cbs = \<lparr>on_readable = None, on_writable = None, on_error = None\<rparr>"

definition take_mem :: "('k, 'w, 'z) net_scheme \<Rightarrow> nat option \<times> ('k, 'w, 'z) net_scheme" where
  "take_mem n = (case nmem n of [] \<Rightarrow> (None, n) | x # xs \<Rightarrow> (x, n\<lparr>nmem := xs\<rparr>))"

definition upd_sock :: "nat \<Rightarrow> ('k ztk_socket \<Rightarrow> 'k ztk_socket) \<Rightarrow> ('k, 'w, 'z) net_scheme \<Rightarrow> ('k, 'w, 'z) net_scheme" where
  "upd_sock a f n = n\<lparr>socks := (socks n)(a := map_option f (socks n a))\<rparr>"

text \<open>Calls on the poller at an address.\<close>

definition poller_add_at ::
    "'w os \<Rightarrow> nat option \<Rightarrow> int \<Rightarrow> u32 \<Rightarrow> 'k pcb option \<Rightarrow> ('k, 'w, 'z) net_scheme \<Rightarrow>
     (ztk_err \<times> ('k, 'w, 'z) net_scheme) option" where
  "poller_add_at os poller fd events c n =
     (case poller of None \<Rightarrow> Some (ZTK_ERR_INVALID, n)
      | Some p \<Rightarrow> do {
          e \<leftarrow> npollers n p;
          let (m, n1) = (if 0 \<le> fd \<and> find_entry e fd = None then take_mem n else (None, n));
          let ((err, q), s) = ztk_poller_add os (m \<noteq> None) (Some e) fd events c (nsys n1);
          Some (err, n1\<lparr>npollers := (npollers n1)(p := q), nsys := s\<rparr>)
        })"

definition poller_mod_at ::
    "'w os \<Rightarrow> nat option \<Rightarrow> int \<Rightarrow> u32 \<Rightarrow> ('k, 'w, 'z) net_scheme \<Rightarrow> (ztk_err \<times> ('k, 'w, 'z) net_scheme) option" where
  "poller_mod_at os poller fd events n =
     (case poller of None \<Rightarrow> Some (ZTK_ERR_INVALID, n)
      | Some p \<Rightarrow> do {
          e \<leftarrow> npollers n p;
          let ((err, q), s) = ztk_poller_mod os (Some e) fd events (nsys n);
          Some (err, n\<lparr>npollers := (npollers n)(p := q), nsys := s\<rparr>)
        })"

definition poller_del_at ::
    "'w os \<Rightarrow> nat option \<Rightarrow> int \<Rightarrow> ('k, 'w, 'z) net_scheme \<Rightarrow> (ztk_err \<times> ('k, 'w, 'z) net_scheme) option" where
  "poller_del_at os poller fd n =
     (case poller of None \<Rightarrow> Some (ZTK_ERR_INVALID, n)
      | Some p \<Rightarrow> do {
          e \<leftarrow> npollers n p;
          let ((err, q), s) = ztk_poller_del os (Some e) fd (nsys n);
          Some (err, n\<lparr>npollers := (npollers n)(p := q), nsys := s\<rparr>)
        })"

section \<open>Life cycle\<close>

definition ensure_sockplat :: "('k, 'w, 'z) net_scheme \<Rightarrow> ztk_err \<times> ('k, 'w, 'z) net_scheme" where
  "ensure_sockplat n =
     (if sockplat_inited n then (ZTK_OK, n)
      else if ztk_sockplat_init = ZTK_OK then (ZTK_OK, n\<lparr>sockplat_inited := True\<rparr>)
      else (ztk_sockplat_init, n))"

definition close_fd :: "'w os \<Rightarrow> nat \<Rightarrow> ('k, 'w, 'z) net_scheme \<Rightarrow> ('k, 'w, 'z) net_scheme option" where
  "close_fd os a n = do {
     s \<leftarrow> socks n a;
     if s_fd s < 0 then Some n
     else Some (upd_sock a (\<lambda>s. s\<lparr>s_fd := - 1\<rparr>) (n\<lparr>nsys := snd (ztk_sockplat_close os (s_fd s) (nsys n))\<rparr>))
   }"

definition default_poll_events :: "'k ztk_socket \<Rightarrow> u32" where
  "default_poll_events s =
     (let ev = ZTK_POLL_IN OR ZTK_POLL_ERR OR ZTK_POLL_HUP in
      if s_connect_pending s then ev OR ZTK_POLL_OUT else ev)"

definition ztk_socket_create :: "('k, 'w, 'z) net_scheme \<Rightarrow> nat option \<times> ('k, 'w, 'z) net_scheme" where
  "ztk_socket_create n =
     (let (m, n1) = take_mem n in
      case m of None \<Rightarrow> (None, n1)
      | Some a \<Rightarrow>
          if socks n1 a \<noteq> None then (None, n1)
          else (Some a, n1\<lparr>socks := (socks n1)(a \<mapsto>
                  \<lparr>s_fd = - 1, s_type = ZTK_SOCK_NONE, s_poller = None, s_cb = no_cbs, s_user = None,
                   s_poll_events = 0, s_attached = False, s_connect_pending = False\<rparr>)\<rparr>))"

definition ztk_socket_detach_poller ::
    "'w os \<Rightarrow> nat option \<Rightarrow> ('k, 'w, 'z) net_scheme \<Rightarrow> (ztk_err \<times> ('k, 'w, 'z) net_scheme) option" where
  "ztk_socket_detach_poller os sock n =
     (case sock of None \<Rightarrow> Some (ZTK_OK, n)
      | Some a \<Rightarrow> do {
          s \<leftarrow> socks n a;
          if \<not> s_attached s \<or> s_poller s = None \<or> s_fd s < 0 then Some (ZTK_OK, n)
          else do {
            (_, n1) \<leftarrow> poller_del_at os (s_poller s) (s_fd s) n;
            Some (ZTK_OK, upd_sock a (\<lambda>s. s\<lparr>s_attached := False, s_poller := None\<rparr>) n1)
          }
        })"

definition ztk_socket_destroy :: "'w os \<Rightarrow> nat option \<Rightarrow> ('k, 'w, 'z) net_scheme \<Rightarrow> ('k, 'w, 'z) net_scheme option" where
  "ztk_socket_destroy os sock n =
     (case sock of None \<Rightarrow> Some n
      | Some a \<Rightarrow> do {
          (_, n1) \<leftarrow> ztk_socket_detach_poller os (Some a) n;
          n2 \<leftarrow> close_fd os a n1;
          Some (n2\<lparr>socks := (socks n2)(a := None)\<rparr>)
        })"

text \<open>What listen, bind and connect do first: detach from the poller and close the old descriptor.\<close>

definition reset_sock :: "'w os \<Rightarrow> nat \<Rightarrow> ('k, 'w, 'z) net_scheme \<Rightarrow> ('k, 'w, 'z) net_scheme option" where
  "reset_sock os a n = do {
     (_, n1) \<leftarrow> ztk_socket_detach_poller os (Some a) n;
     close_fd os a n1
   }"

definition ztk_socket_adopt ::
    "'w os \<Rightarrow> nat option \<Rightarrow> int \<Rightarrow> ztk_sock_type \<Rightarrow> ('k, 'w, 'z) net_scheme \<Rightarrow> (ztk_err \<times> ('k, 'w, 'z) net_scheme) option" where
  "ztk_socket_adopt os sock fd type n =
     (case sock of None \<Rightarrow> Some (ZTK_ERR_INVALID, n)
      | Some a \<Rightarrow>
        if fd < 0 then Some (ZTK_ERR_INVALID, n)
        else let (e0, n0) = ensure_sockplat n in
        if e0 \<noteq> ZTK_OK then Some (ZTK_ERR_PLATFORM, n0)
        else do {
          n1 \<leftarrow> reset_sock os a n0;
          let (err, s1) = (case type of
              ZTK_SOCK_TCP_LISTEN \<Rightarrow> ztk_sockplat_apply_tcp_server_opts os fd (nsys n1)
            | ZTK_SOCK_TCP_CLIENT \<Rightarrow> ztk_sockplat_apply_tcp_client_opts os fd (nsys n1)
            | ZTK_SOCK_TCP_CONNECTED \<Rightarrow> ztk_sockplat_apply_tcp_client_opts os fd (nsys n1)
            | ZTK_SOCK_UDP \<Rightarrow> ztk_sockplat_apply_udp_opts os fd (nsys n1)
            | ZTK_SOCK_NONE \<Rightarrow> (ZTK_ERR_INVALID, nsys n1));
          let n2 = n1\<lparr>nsys := s1\<rparr>;
          if err \<noteq> ZTK_OK then Some (err, n2)
          else Some (ZTK_OK, upd_sock a (\<lambda>s. s\<lparr>s_fd := fd, s_type := type, s_connect_pending := False\<rparr>) n2)
        })"

definition ztk_socket_fd :: "nat option \<Rightarrow> ('k, 'w, 'z) net_scheme \<Rightarrow> int option" where
  "ztk_socket_fd sock n = (case sock of None \<Rightarrow> Some (- 1) | Some a \<Rightarrow> map_option s_fd (socks n a))"

definition ztk_socket_type :: "nat option \<Rightarrow> ('k, 'w, 'z) net_scheme \<Rightarrow> ztk_sock_type option" where
  "ztk_socket_type sock n = (case sock of None \<Rightarrow> Some ZTK_SOCK_NONE | Some a \<Rightarrow> map_option s_type (socks n a))"

definition ztk_socket_listen ::
    "'w os \<Rightarrow> nat option \<Rightarrow> string option \<Rightarrow> u16 \<Rightarrow> int \<Rightarrow> ('k, 'w, 'z) net_scheme \<Rightarrow>
     (ztk_err \<times> ('k, 'w, 'z) net_scheme) option" where
  "ztk_socket_listen os sock host port backlog n =
     (case sock of None \<Rightarrow> Some (ZTK_ERR_INVALID, n)
      | Some a \<Rightarrow>
        let (e0, n0) = ensure_sockplat n in
        if e0 \<noteq> ZTK_OK then Some (ZTK_ERR_PLATFORM, n0)
        else do {
          n1 \<leftarrow> reset_sock os a n0;
          let ((err, fd), s1) = ztk_sockplat_listen os host port backlog (nsys n1);
          let n2 = n1\<lparr>nsys := s1\<rparr>;
          (case fd of
             Some f \<Rightarrow> if err \<noteq> ZTK_OK then Some (err, n2)
               else Some (ZTK_OK, upd_sock a (\<lambda>s. s\<lparr>s_fd := f, s_type := ZTK_SOCK_TCP_LISTEN, s_connect_pending := False\<rparr>) n2)
           | None \<Rightarrow> Some (err, n2))
        })"

definition ztk_socket_bind_udp_ex ::
    "'w os \<Rightarrow> nat option \<Rightarrow> string option \<Rightarrow> u16 \<Rightarrow> bool \<Rightarrow> bool \<Rightarrow> ('k, 'w, 'z) net_scheme \<Rightarrow>
     (ztk_err \<times> ('k, 'w, 'z) net_scheme) option" where
  "ztk_socket_bind_udp_ex os sock host port reuse_addr reuse_port n =
     (case sock of None \<Rightarrow> Some (ZTK_ERR_INVALID, n)
      | Some a \<Rightarrow>
        let (e0, n0) = ensure_sockplat n in
        if e0 \<noteq> ZTK_OK then Some (ZTK_ERR_PLATFORM, n0)
        else do {
          n1 \<leftarrow> reset_sock os a n0;
          let ((err, fd), s1) = ztk_sockplat_bind_udp os host port reuse_addr reuse_port (nsys n1);
          let n2 = n1\<lparr>nsys := s1\<rparr>;
          (case fd of
             Some f \<Rightarrow> if err \<noteq> ZTK_OK then Some (err, n2)
               else Some (ZTK_OK, upd_sock a (\<lambda>s. s\<lparr>s_fd := f, s_type := ZTK_SOCK_UDP, s_connect_pending := False\<rparr>) n2)
           | None \<Rightarrow> Some (err, n2))
        })"

definition ztk_socket_bind_udp ::
    "'w os \<Rightarrow> nat option \<Rightarrow> string option \<Rightarrow> u16 \<Rightarrow> bool \<Rightarrow> ('k, 'w, 'z) net_scheme \<Rightarrow>
     (ztk_err \<times> ('k, 'w, 'z) net_scheme) option" where
  "ztk_socket_bind_udp os sock host port reuse n = ztk_socket_bind_udp_ex os sock host port reuse False n"

text \<open>The second result is \<^verbatim>\<open>*in_progress\<close>, written only on success.\<close>

definition ztk_socket_connect ::
    "'w os \<Rightarrow> nat option \<Rightarrow> string option \<Rightarrow> u16 \<Rightarrow> ('k, 'w, 'z) net_scheme \<Rightarrow>
     ((ztk_err \<times> bool option) \<times> ('k, 'w, 'z) net_scheme) option" where
  "ztk_socket_connect os sock host port n =
     (case (sock, host) of
        (Some a, Some h) \<Rightarrow>
        let (e0, n0) = ensure_sockplat n in
        if e0 \<noteq> ZTK_OK then Some ((ZTK_ERR_PLATFORM, None), n0)
        else do {
          n1 \<leftarrow> reset_sock os a n0;
          let ((err, fd, pending), s1) = ztk_sockplat_connect os (Some h) port (nsys n1);
          let n2 = n1\<lparr>nsys := s1\<rparr>;
          (case fd of
             Some f \<Rightarrow> if err \<noteq> ZTK_OK then Some ((err, None), n2)
               else Some ((ZTK_OK, Some pending), upd_sock a (\<lambda>s. s\<lparr>s_fd := f,
                      s_type := (if pending then ZTK_SOCK_TCP_CLIENT else ZTK_SOCK_TCP_CONNECTED),
                      s_connect_pending := pending\<rparr>) n2)
           | None \<Rightarrow> Some ((err, None), n2))
        }
      | _ \<Rightarrow> Some ((ZTK_ERR_INVALID, None), n))"

definition ztk_socket_check_connect ::
    "'w os \<Rightarrow> nat option \<Rightarrow> ('k, 'w, 'z) net_scheme \<Rightarrow> (ztk_err \<times> ('k, 'w, 'z) net_scheme) option" where
  "ztk_socket_check_connect os sock n =
     (case sock of None \<Rightarrow> Some (ZTK_ERR_INVALID, n)
      | Some a \<Rightarrow> do {
          s \<leftarrow> socks n a;
          if s_fd s < 0 then Some (ZTK_ERR_INVALID, n)
          else if \<not> s_connect_pending s then Some (ZTK_OK, n)
          else let (err, s1) = ztk_sockplat_check_connect os (s_fd s) (nsys n); n1 = n\<lparr>nsys := s1\<rparr> in
            if err = ZTK_OK
            then Some (err, upd_sock a (\<lambda>s. s\<lparr>s_connect_pending := False, s_type := ZTK_SOCK_TCP_CONNECTED\<rparr>) n1)
            else Some (err, n1)
        })"

definition ztk_socket_accept ::
    "'w os \<Rightarrow> nat option \<Rightarrow> ('k, 'w, 'z) net_scheme \<Rightarrow> ((ztk_err \<times> nat option) \<times> ('k, 'w, 'z) net_scheme) option" where
  "ztk_socket_accept os listen_sock n =
     (case listen_sock of None \<Rightarrow> Some ((ZTK_ERR_INVALID, None), n)
      | Some l \<Rightarrow> do {
          ls \<leftarrow> socks n l;
          if s_type ls \<noteq> ZTK_SOCK_TCP_LISTEN then Some ((ZTK_ERR_INVALID, None), n)
          else let ((err, cfd), s1) = ztk_sockplat_accept os (s_fd ls) (nsys n); n1 = n\<lparr>nsys := s1\<rparr> in
            case cfd of None \<Rightarrow> Some ((err, None), n1)
            | Some f \<Rightarrow>
              (case ztk_socket_create n1 of
                 (None, n2) \<Rightarrow> Some ((ZTK_ERR_NOMEM, None), n2\<lparr>nsys := snd (ztk_sockplat_close os f (nsys n2))\<rparr>)
               | (Some c, n2) \<Rightarrow>
                   Some ((ZTK_OK, Some c), upd_sock c (\<lambda>s. s\<lparr>s_fd := f, s_type := ZTK_SOCK_TCP_CONNECTED,
                           s_connect_pending := False\<rparr>) n2))
        })"

section \<open>Registration with a poller\<close>

definition ztk_socket_attach_poller ::
    "'w os \<Rightarrow> nat option \<Rightarrow> nat option \<Rightarrow> 'k socket_cbs option \<Rightarrow> nat option \<Rightarrow> ('k, 'w, 'z) net_scheme \<Rightarrow>
     (ztk_err \<times> ('k, 'w, 'z) net_scheme) option" where
  "ztk_socket_attach_poller os sock poller cbs user n =
     (case sock of None \<Rightarrow> Some (ZTK_ERR_INVALID, n)
      | Some a \<Rightarrow> do {
          s \<leftarrow> socks n a;
          if s_fd s < 0 \<or> poller = None then Some (ZTK_ERR_INVALID, n)
          else do {
            (_, n1) \<leftarrow> ztk_socket_detach_poller os (Some a) n;
            let n2 = upd_sock a (\<lambda>s. s\<lparr>s_cb := (case cbs of Some c \<Rightarrow> c | None \<Rightarrow> no_cbs), s_user := user,
                        s_poller := poller, s_poll_events := default_poll_events s\<rparr>) n1;
            s2 \<leftarrow> socks n2 a;
            (err, n3) \<leftarrow> poller_add_at os poller (s_fd s2) (s_poll_events s2) (Some (Socket_cb a)) n2;
            if err \<noteq> ZTK_OK then Some (err, n3)
            else Some (ZTK_OK, upd_sock a (\<lambda>s. s\<lparr>s_attached := True\<rparr>) n3)
          }
        })"

definition ztk_socket_mod_events ::
    "'w os \<Rightarrow> nat option \<Rightarrow> u32 \<Rightarrow> ('k, 'w, 'z) net_scheme \<Rightarrow> (ztk_err \<times> ('k, 'w, 'z) net_scheme) option" where
  "ztk_socket_mod_events os sock events n =
     (case sock of None \<Rightarrow> Some (ZTK_ERR_STATE, n)
      | Some a \<Rightarrow> do {
          s \<leftarrow> socks n a;
          if \<not> s_attached s \<or> s_poller s = None then Some (ZTK_ERR_STATE, n)
          else poller_mod_at os (s_poller s) (s_fd s) events (upd_sock a (\<lambda>s. s\<lparr>s_poll_events := events\<rparr>) n)
        })"

text \<open>
  The dispatcher the poller calls. \<open>call k a u n\<close> is what the client's function \<open>k\<close> does when it is
  called with socket \<open>a\<close> and user pointer \<open>u\<close>; it may do anything to the state. The socket is read
  again after each call, as the code does; if it is gone by then the run has no defined outcome.
\<close>

type_synonym ('k, 'w, 'z) sock_call =
  "'k \<Rightarrow> nat \<Rightarrow> nat option \<Rightarrow> ('k, 'w, 'z) net_scheme \<Rightarrow> ('k, 'w, 'z) net_scheme option"

definition fire :: "('k, 'w, 'z) sock_call \<Rightarrow> ('k socket_cbs \<Rightarrow> 'k option) \<Rightarrow> nat \<Rightarrow> ('k, 'w, 'z) net_scheme \<Rightarrow>
     ('k, 'w, 'z) net_scheme option" where
  "fire call which a n = do {
     s \<leftarrow> socks n a;
     (case which (s_cb s) of None \<Rightarrow> Some n | Some k \<Rightarrow> call k a (s_user s) n)
   }"

definition socket_poller_cb ::
    "'w os \<Rightarrow> ('k, 'w, 'z) sock_call \<Rightarrow> int \<Rightarrow> u32 \<Rightarrow> nat option \<Rightarrow> ('k, 'w, 'z) net_scheme \<Rightarrow>
     ('k, 'w, 'z) net_scheme option" where
  "socket_poller_cb os call fd events user n =
     (case user of None \<Rightarrow> Some n
      | Some a \<Rightarrow> do {
          s \<leftarrow> socks n a;
          if s_fd s \<noteq> fd then Some n
          else if events AND (ZTK_POLL_ERR OR ZTK_POLL_HUP) \<noteq> 0 then fire call on_error a n
          else do {
            (stop, n1) \<leftarrow>
              (if events AND ZTK_POLL_OUT \<noteq> 0 \<and> s_connect_pending s then do {
                 (err, m) \<leftarrow> ztk_socket_check_connect os (Some a) n;
                 if err = ZTK_OK then do {
                   let m1 = upd_sock a (\<lambda>s. s\<lparr>s_connect_pending := False, s_type := ZTK_SOCK_TCP_CONNECTED\<rparr>) m;
                   s1 \<leftarrow> socks m1 a;
                   if s_attached s1 then do {
                     (_, m2) \<leftarrow> ztk_socket_mod_events os (Some a) (default_poll_events s1) m1;
                     Some (False, m2)
                   } else Some (False, m1)
                 } else (if on_error (s_cb s) \<noteq> None then map_option (Pair True) (fire call on_error a m)
                         else Some (False, m))
               } else Some (False, n));
            if stop then Some n1
            else do {
              n2 \<leftarrow> (if events AND ZTK_POLL_OUT \<noteq> 0 then fire call on_writable a n1 else Some n1);
              if events AND ZTK_POLL_IN \<noteq> 0 then fire call on_readable a n2 else Some n2
            }
          }
        })"

section \<open>Data\<close>

definition ZTK_SOCKET_IOV_MAX :: nat where "ZTK_SOCKET_IOV_MAX = 16"

definition ztk_socket_send ::
    "'w os \<Rightarrow> nat option \<Rightarrow> mem \<Rightarrow> ('k, 'w, 'z) net_scheme \<Rightarrow> (int \<times> ('k, 'w, 'z) net_scheme) option" where
  "ztk_socket_send os sock data n =
     (case sock of None \<Rightarrow> Some (err_code ZTK_ERR_INVALID, n)
      | Some a \<Rightarrow> do {
          s \<leftarrow> socks n a;
          if s_fd s < 0 then Some (err_code ZTK_ERR_INVALID, n)
          else let (r, y) = ztk_sockplat_send os (s_fd s) data (nsys n) in Some (r, n\<lparr>nsys := y\<rparr>)
        })"

definition ztk_socket_sendv ::
    "'w os \<Rightarrow> nat option \<Rightarrow> mem list \<Rightarrow> ('k, 'w, 'z) net_scheme \<Rightarrow> (int \<times> ('k, 'w, 'z) net_scheme) option" where
  "ztk_socket_sendv os sock iov n =
     (case sock of None \<Rightarrow> Some (err_code ZTK_ERR_INVALID, n)
      | Some a \<Rightarrow> do {
          s \<leftarrow> socks n a;
          if s_fd s < 0 then Some (err_code ZTK_ERR_INVALID, n)
          else if iov = [] then Some (err_code ZTK_ERR_INVALID, n)
          else let (r, y) = ztk_sockplat_sendv os (s_fd s) (take ZTK_SOCKET_IOV_MAX iov) (nsys n)
               in Some (r, n\<lparr>nsys := y\<rparr>)
        })"

definition ztk_socket_recv ::
    "'w os \<Rightarrow> nat option \<Rightarrow> nat \<Rightarrow> ('k, 'w, 'z) net_scheme \<Rightarrow> ((int \<times> u8 list) \<times> ('k, 'w, 'z) net_scheme) option" where
  "ztk_socket_recv os sock len n =
     (case sock of None \<Rightarrow> Some ((err_code ZTK_ERR_INVALID, []), n)
      | Some a \<Rightarrow> do {
          s \<leftarrow> socks n a;
          if s_fd s < 0 then Some ((err_code ZTK_ERR_INVALID, []), n)
          else let (r, y) = ztk_sockplat_recv os (s_fd s) len (nsys n) in Some (r, n\<lparr>nsys := y\<rparr>)
        })"

definition ztk_socket_sendto ::
    "'w os \<Rightarrow> nat option \<Rightarrow> mem \<Rightarrow> string option \<Rightarrow> u16 \<Rightarrow> ('k, 'w, 'z) net_scheme \<Rightarrow>
     (int \<times> ('k, 'w, 'z) net_scheme) option" where
  "ztk_socket_sendto os sock data ip port n =
     (case sock of None \<Rightarrow> Some (err_code ZTK_ERR_INVALID, n)
      | Some a \<Rightarrow> do {
          s \<leftarrow> socks n a;
          if s_type s \<noteq> ZTK_SOCK_UDP then Some (err_code ZTK_ERR_INVALID, n)
          else let (r, y) = ztk_sockplat_sendto os (s_fd s) data ip port (nsys n) in Some (r, n\<lparr>nsys := y\<rparr>)
        })"

definition ztk_socket_recvfrom ::
    "'w os \<Rightarrow> nat option \<Rightarrow> nat \<Rightarrow> nat option \<Rightarrow> bool \<Rightarrow> ('k, 'w, 'z) net_scheme \<Rightarrow>
     ((int \<times> u8 list \<times> string option \<times> u16 option) \<times> ('k, 'w, 'z) net_scheme) option" where
  "ztk_socket_recvfrom os sock len ip_len want_port n =
     (case sock of None \<Rightarrow> Some ((err_code ZTK_ERR_INVALID, [], None, None), n)
      | Some a \<Rightarrow> do {
          s \<leftarrow> socks n a;
          if s_type s \<noteq> ZTK_SOCK_UDP then Some ((err_code ZTK_ERR_INVALID, [], None, None), n)
          else let (r, y) = ztk_sockplat_recvfrom os (s_fd s) len ip_len want_port (nsys n) in Some (r, n\<lparr>nsys := y\<rparr>)
        })"

definition ztk_socket_get_local ::
    "'w os \<Rightarrow> nat option \<Rightarrow> nat option \<Rightarrow> bool \<Rightarrow> ('k, 'w, 'z) net_scheme \<Rightarrow>
     ((ztk_err \<times> string option \<times> u16 option) \<times> ('k, 'w, 'z) net_scheme) option" where
  "ztk_socket_get_local os sock ip_len want_port n =
     (case sock of None \<Rightarrow> Some ((ZTK_ERR_INVALID, None, None), n)
      | Some a \<Rightarrow> do {
          s \<leftarrow> socks n a;
          if s_fd s < 0 then Some ((ZTK_ERR_INVALID, None, None), n)
          else let (r, y) = ztk_sockplat_get_local os (s_fd s) ip_len want_port (nsys n) in Some (r, n\<lparr>nsys := y\<rparr>)
        })"

definition ztk_socket_get_peer ::
    "'w os \<Rightarrow> nat option \<Rightarrow> nat option \<Rightarrow> bool \<Rightarrow> ('k, 'w, 'z) net_scheme \<Rightarrow>
     ((ztk_err \<times> string option \<times> u16 option) \<times> ('k, 'w, 'z) net_scheme) option" where
  "ztk_socket_get_peer os sock ip_len want_port n =
     (case sock of None \<Rightarrow> Some ((ZTK_ERR_INVALID, None, None), n)
      | Some a \<Rightarrow> do {
          s \<leftarrow> socks n a;
          if s_fd s < 0 then Some ((ZTK_ERR_INVALID, None, None), n)
          else let (r, y) = ztk_sockplat_get_peer os (s_fd s) ip_len want_port (nsys n) in Some (r, n\<lparr>nsys := y\<rparr>)
        })"

section \<open>Options\<close>

definition ztk_socket_set_bbr ::
    "'w os \<Rightarrow> nat option \<Rightarrow> bool \<Rightarrow> ('k, 'w, 'z) net_scheme \<Rightarrow> (ztk_err \<times> ('k, 'w, 'z) net_scheme) option" where
  "ztk_socket_set_bbr os sock on n =
     (case sock of None \<Rightarrow> Some (ZTK_ERR_INVALID, n)
      | Some a \<Rightarrow> do {
          s \<leftarrow> socks n a;
          if s_fd s < 0 then Some (ZTK_ERR_INVALID, n)
          else if s_type s \<noteq> ZTK_SOCK_TCP_CONNECTED \<and> s_type s \<noteq> ZTK_SOCK_TCP_CLIENT then Some (ZTK_ERR_INVALID, n)
          else let (e, y) = ztk_sockplat_set_tcp_bbr os (s_fd s) on (nsys n) in Some (e, n\<lparr>nsys := y\<rparr>)
        })"

definition udp_fd_check :: "nat option \<Rightarrow> ('k, 'w, 'z) net_scheme \<Rightarrow> ztk_err option" where
  "udp_fd_check sock n =
     (case sock of None \<Rightarrow> Some ZTK_ERR_INVALID
      | Some a \<Rightarrow> do {
          s \<leftarrow> socks n a;
          Some (if s_type s \<noteq> ZTK_SOCK_UDP \<or> s_fd s < 0 then ZTK_ERR_INVALID else ZTK_OK)
        })"

text \<open>A guarded option call: \<open>f\<close> is the platform function, \<open>args_ok\<close> the check of its pointer arguments.\<close>

definition udp_option ::
    "(int \<Rightarrow> 'w sys \<Rightarrow> ztk_err \<times> 'w sys) \<Rightarrow> bool \<Rightarrow> nat option \<Rightarrow> ('k, 'w, 'z) net_scheme \<Rightarrow>
     (ztk_err \<times> ('k, 'w, 'z) net_scheme) option" where
  "udp_option f args_ok sock n = do {
     err \<leftarrow> udp_fd_check sock n;
     if err \<noteq> ZTK_OK then Some (err, n)
     else if \<not> args_ok then Some (ZTK_ERR_INVALID, n)
     else do {
       fd \<leftarrow> ztk_socket_fd sock n;
       let (e, y) = f fd (nsys n);
       Some (e, n\<lparr>nsys := y\<rparr>)
     }
   }"

definition ztk_socket_set_broadcast ::
    "'w os \<Rightarrow> nat option \<Rightarrow> bool \<Rightarrow> ('k, 'w, 'z) net_scheme \<Rightarrow> (ztk_err \<times> ('k, 'w, 'z) net_scheme) option" where
  "ztk_socket_set_broadcast os sock on = udp_option (\<lambda>fd. ztk_sockplat_set_broadcast os fd on) True sock"

definition ztk_socket_set_multicast_ttl ::
    "'w os \<Rightarrow> nat option \<Rightarrow> u8 \<Rightarrow> ('k, 'w, 'z) net_scheme \<Rightarrow> (ztk_err \<times> ('k, 'w, 'z) net_scheme) option" where
  "ztk_socket_set_multicast_ttl os sock ttl = udp_option (\<lambda>fd. ztk_sockplat_set_multicast_ttl os fd ttl) True sock"

definition ztk_socket_set_multicast_if ::
    "'w os \<Rightarrow> nat option \<Rightarrow> string option \<Rightarrow> ('k, 'w, 'z) net_scheme \<Rightarrow> (ztk_err \<times> ('k, 'w, 'z) net_scheme) option" where
  "ztk_socket_set_multicast_if os sock local_ip =
     udp_option (\<lambda>fd. ztk_sockplat_set_multicast_if os fd local_ip) True sock"

definition ztk_socket_set_multicast_loop ::
    "'w os \<Rightarrow> nat option \<Rightarrow> bool \<Rightarrow> ('k, 'w, 'z) net_scheme \<Rightarrow> (ztk_err \<times> ('k, 'w, 'z) net_scheme) option" where
  "ztk_socket_set_multicast_loop os sock on = udp_option (\<lambda>fd. ztk_sockplat_set_multicast_loop os fd on) True sock"

definition ztk_socket_join_multicast ::
    "'w os \<Rightarrow> nat option \<Rightarrow> string option \<Rightarrow> string option \<Rightarrow> ('k, 'w, 'z) net_scheme \<Rightarrow>
     (ztk_err \<times> ('k, 'w, 'z) net_scheme) option" where
  "ztk_socket_join_multicast os sock grp local_if =
     udp_option (\<lambda>fd. ztk_sockplat_join_multicast os fd (the grp) local_if) (grp \<noteq> None) sock"

definition ztk_socket_leave_multicast ::
    "'w os \<Rightarrow> nat option \<Rightarrow> string option \<Rightarrow> string option \<Rightarrow> ('k, 'w, 'z) net_scheme \<Rightarrow>
     (ztk_err \<times> ('k, 'w, 'z) net_scheme) option" where
  "ztk_socket_leave_multicast os sock grp local_if =
     udp_option (\<lambda>fd. ztk_sockplat_leave_multicast os fd (the grp) local_if) (grp \<noteq> None) sock"

definition ztk_socket_join_multicast_filter ::
    "'w os \<Rightarrow> nat option \<Rightarrow> string option \<Rightarrow> string option \<Rightarrow> string option \<Rightarrow> ('k, 'w, 'z) net_scheme \<Rightarrow>
     (ztk_err \<times> ('k, 'w, 'z) net_scheme) option" where
  "ztk_socket_join_multicast_filter os sock grp src_ip local_if =
     udp_option (\<lambda>fd. ztk_sockplat_join_multicast_filter os fd (the grp) (the src_ip) local_if)
       (grp \<noteq> None \<and> src_ip \<noteq> None) sock"

definition ztk_socket_leave_multicast_filter ::
    "'w os \<Rightarrow> nat option \<Rightarrow> string option \<Rightarrow> string option \<Rightarrow> string option \<Rightarrow> ('k, 'w, 'z) net_scheme \<Rightarrow>
     (ztk_err \<times> ('k, 'w, 'z) net_scheme) option" where
  "ztk_socket_leave_multicast_filter os sock grp src_ip local_if =
     udp_option (\<lambda>fd. ztk_sockplat_leave_multicast_filter os fd (the grp) (the src_ip) local_if)
       (grp \<noteq> None \<and> src_ip \<noteq> None) sock"

section \<open>The invariant: who owns which descriptor, who is registered where\<close>

text \<open>
  \<open>net_inv A O I S P B\<close> relates the open descriptors \<open>O\<close>, the kernel's interest lists \<open>I\<close>, the sockets \<open>S\<close>,
  the pollers \<open>P\<close> and the descriptors \<open>B\<close> that belong to others (the epoll descriptors and wake pipes
  among them). Every other open descriptor is owned by exactly one socket; the kernel watches the descriptors of
  the tables, and only open ones, with the event sets of the tables for the descriptors in \<open>A\<close>; a callback in a table belongs to a live socket that is attached there with that
  descriptor, and an attached socket is registered with the event set it remembers.
\<close>

definition own1 :: "'k ztk_socket option \<Rightarrow> int set" where
  "own1 x = (case x of None \<Rightarrow> {} | Some s \<Rightarrow> if 0 \<le> s_fd s then {s_fd s} else {})"

definition others :: "(nat \<rightharpoonup> 'k ztk_socket) \<Rightarrow> nat \<Rightarrow> int set" where
  "others S a = (\<Union>b \<in> - {a}. own1 (S b))"

definition owned :: "(nat \<rightharpoonup> 'k ztk_socket) \<Rightarrow> int set" where
  "owned S = (\<Union>a. own1 (S a))"

definition table_ok :: "int set \<Rightarrow> int set \<Rightarrow> (int \<Rightarrow> int \<rightharpoonup> u32) \<Rightarrow> 'k pcb epset \<Rightarrow> bool" where
  "table_ok A O' I e \<longleftrightarrow> distinct (map efd (entries e)) \<and>
     (\<forall>fd. watch e fd \<noteq> None \<longrightarrow> I (epfd e) fd \<noteq> None) \<and> (\<forall>fd. I (epfd e) fd \<noteq> None \<longrightarrow> fd \<in> O') \<and>
     (\<forall>fd \<in> A. agree_at (I (epfd e)) e fd)"

definition registered :: "(nat \<rightharpoonup> 'k pcb epset) \<Rightarrow> nat \<Rightarrow> 'k ztk_socket \<Rightarrow> bool" where
  "registered P a s \<longleftrightarrow> 0 \<le> s_fd s \<and>
     (\<exists>p e. s_poller s = Some p \<and> P p = Some e \<and> watch e (s_fd s) = Some (s_poll_events s, Some (Socket_cb a)))"

definition entry_ok :: "(nat \<rightharpoonup> 'k ztk_socket) \<Rightarrow> int set \<Rightarrow> nat \<Rightarrow> 'k pcb epset \<Rightarrow> int \<Rightarrow> bool" where
  "entry_ok S B p e fd \<longleftrightarrow>
     (case watch e fd of None \<Rightarrow> True
      | Some (ev, None) \<Rightarrow> fd \<in> B
      | Some (ev, Some c) \<Rightarrow> \<exists>a s. c = Socket_cb a \<and> S a = Some s \<and> s_attached s \<and> s_poller s = Some p \<and> s_fd s = fd)"

definition net_inv ::
    "int set \<Rightarrow> int set \<Rightarrow> (int \<Rightarrow> int \<rightharpoonup> u32) \<Rightarrow> (nat \<rightharpoonup> 'k ztk_socket) \<Rightarrow> (nat \<rightharpoonup> 'k pcb epset) \<Rightarrow> int set \<Rightarrow> bool" where
  "net_inv A O' I S P B \<longleftrightarrow>
     O' = B \<union> owned S \<and> B \<inter> owned S = {} \<and>
     (\<forall>a b s t. S a = Some s \<longrightarrow> S b = Some t \<longrightarrow> s_fd s = s_fd t \<longrightarrow> 0 \<le> s_fd s \<longrightarrow> a = b) \<and>
     (\<forall>p e. P p = Some e \<longrightarrow> table_ok A O' I e \<and> wake_r e \<in> B) \<and>
     (\<forall>p q e f. P p = Some e \<longrightarrow> P q = Some f \<longrightarrow> epfd e = epfd f \<longrightarrow> p = q) \<and>
     (\<forall>p e fd. P p = Some e \<longrightarrow> entry_ok S B p e fd) \<and>
     (\<forall>a s. S a = Some s \<longrightarrow> s_attached s \<longrightarrow> registered P a s)"

lemma net_invD:
  assumes "net_inv A O' I S P B"
  shows "O' = B \<union> owned S" and "B \<inter> owned S = {}"
    and "\<And>a b s t. S a = Some s \<Longrightarrow> S b = Some t \<Longrightarrow> s_fd s = s_fd t \<Longrightarrow> 0 \<le> s_fd s \<Longrightarrow> a = b"
    and "\<And>p e. P p = Some e \<Longrightarrow> table_ok A O' I e \<and> wake_r e \<in> B"
    and "\<And>p q e f. P p = Some e \<Longrightarrow> P q = Some f \<Longrightarrow> epfd e = epfd f \<Longrightarrow> p = q"
    and "\<And>p e fd. P p = Some e \<Longrightarrow> entry_ok S B p e fd"
    and "\<And>a s. S a = Some s \<Longrightarrow> s_attached s \<Longrightarrow> registered P a s"
  using assms unfolding net_inv_def by blast+

lemma own1_simps [simp]:
  "own1 None = {}" "0 \<le> s_fd s \<Longrightarrow> own1 (Some s) = {s_fd s}" "s_fd s < 0 \<Longrightarrow> own1 (Some s) = {}"
  by (simp_all add: own1_def)

lemma owned_split: "owned S = own1 (S a) \<union> others S a"
  by (auto simp: owned_def others_def)

lemma owned_upd: "owned (S(a := x)) = own1 x \<union> others S a"
  by (auto simp: owned_def others_def split: if_splits)

lemma ownedI: "S a = Some s \<Longrightarrow> 0 \<le> s_fd s \<Longrightarrow> s_fd s \<in> owned S"
  using owned_split [of S a] by simp

lemma net_inv_others: "net_inv A O' I S P B \<Longrightarrow> S a = Some s \<Longrightarrow> 0 \<le> s_fd s \<Longrightarrow> s_fd s \<notin> others S a"
  unfolding others_def own1_def by (auto split: option.splits if_splits dest: net_invD(3))

text \<open>A descriptor that nobody attached owns is in no table.\<close>

lemma unwatched:
  assumes "net_inv A O' I S P B" and "S a = Some s" and "\<not> s_attached s" and "0 \<le> s_fd s" and "P p = Some e"
  shows "watch e (s_fd s) = None"
proof (rule ccontr)
  assume "watch e (s_fd s) \<noteq> None"
  then obtain ev c where w: "watch e (s_fd s) = Some (ev, c)" by (cases "watch e (s_fd s)") auto
  have ok: "entry_ok S B p e (s_fd s)" using net_invD(6) [OF assms(1,5)] .
  show False
  proof (cases c)
    case None
    then have "s_fd s \<in> B" using ok w by (simp add: entry_ok_def)
    then show False using net_invD(2) [OF assms(1)] ownedI [of S a s] assms(2,4) by blast
  next
    case (Some c')
    then obtain b t where "S b = Some t" "s_attached t" "s_fd t = s_fd s"
      using ok w by (auto simp: entry_ok_def)
    then show False using net_invD(3) [OF assms(1), of b t a s] assms(2-4) by auto
  qed
qed

lemma entry_ok_sock:
  assumes "entry_ok S B p e fd" and "S a = Some s"
    and "s_attached s \<Longrightarrow> s_attached t \<and> s_poller t = s_poller s \<and> s_fd t = s_fd s"
  shows "entry_ok (S(a \<mapsto> t)) B p e fd"
  using assms by (force simp: entry_ok_def split: option.splits prod.splits)

text \<open>Changing a socket's data in ways that do not touch its descriptor or registration.\<close>

lemma net_inv_meta:
  assumes inv: "net_inv A O' I S P B" and a: "S a = Some s"
    and t: "s_fd t = s_fd s" "s_attached t = s_attached s"
      "s_attached s \<Longrightarrow> s_poller t = s_poller s \<and> s_poll_events t = s_poll_events s"
  shows "net_inv A O' I (S(a \<mapsto> t)) P B"
proof -
  have ow: "owned (S(a \<mapsto> t)) = owned S" using a t(1) by (simp add: owned_upd owned_split [of S a] own1_def)
  show ?thesis
    unfolding net_inv_def
  proof (intro conjI allI impI)
    show "O' = B \<union> owned (S(a \<mapsto> t))" "B \<inter> owned (S(a \<mapsto> t)) = {}" using net_invD(1,2) [OF inv] ow by auto
    show "b = c" if "(S(a \<mapsto> t)) b = Some u" "(S(a \<mapsto> t)) c = Some v" "s_fd u = s_fd v" "0 \<le> s_fd u" for b c u v
      using net_invD(3) [OF inv] that a t(1) by (auto split: if_splits)
    show "table_ok A O' I e" "wake_r e \<in> B" if "P p = Some e" for p e using net_invD(4) [OF inv that] by auto
    show "p = q" if "P p = Some e" "P q = Some f" "epfd e = epfd f" for p q e f
      using net_invD(5) [OF inv that] .
    show "entry_ok (S(a \<mapsto> t)) B p e fd" if "P p = Some e" for p e fd
      using entry_ok_sock [OF net_invD(6) [OF inv that] a] t by auto
    show "registered P b u" if "(S(a \<mapsto> t)) b = Some u" "s_attached u" for b u
      using net_invD(7) [OF inv] that a t by (cases "b = a") (auto simp: registered_def)
  qed
qed

text \<open>A new socket, and freeing one that owns nothing.\<close>

lemma net_inv_new:
  assumes inv: "net_inv A O' I S P B" and a: "S a = None" and t: "s_fd t < 0" "\<not> s_attached t"
  shows "net_inv A O' I (S(a \<mapsto> t)) P B"
proof -
  have ow: "owned (S(a \<mapsto> t)) = owned S" using a t(1) by (simp add: owned_upd owned_split [of S a])
  have en: "entry_ok (S(a \<mapsto> t)) B p e fd" if "entry_ok S B p e fd" for p e fd
    using that a by (force simp: entry_ok_def split: option.splits prod.splits)
  show ?thesis
    using inv t en unfolding net_inv_def ow by (auto split: if_splits)
qed

lemma net_inv_free:
  assumes inv: "net_inv A O' I S P B" and a: "S a = Some s" and s: "s_fd s < 0" "\<not> s_attached s"
  shows "net_inv A O' I (S(a := None)) P B"
proof -
  have ow: "owned (S(a := None)) = owned S" using a s(1) by (simp add: owned_upd owned_split [of S a])
  have en: "entry_ok (S(a := None)) B p e fd" if "entry_ok S B p e fd" for p e fd
    using that a s by (force simp: entry_ok_def split: option.splits prod.splits)
  show ?thesis
    using inv s en unfolding net_inv_def ow by (auto split: if_splits)
qed

text \<open>Closing a detached socket's descriptor; a detached socket takes over a new descriptor.\<close>

lemma net_inv_close:
  assumes inv: "net_inv A O' I S P B" and a: "S a = Some s" and s: "0 \<le> s_fd s" "\<not> s_attached s"
    and t: "s_fd t < 0" "\<not> s_attached t"
  shows "net_inv A (O' - {s_fd s}) (\<lambda>ep. (I ep)(s_fd s := None)) (S(a \<mapsto> t)) P B"
proof -
  have uniq: "s_fd u \<noteq> s_fd s" if "S b = Some u" "b \<noteq> a" for b u
    using net_invD(3) [OF inv that(1) a] that(2) s(1) by auto
  have ow: "owned (S(a \<mapsto> t)) = owned S - {s_fd s}"
    using a t(1) s(1) net_inv_others [OF inv a s(1)] by (auto simp: owned_upd owned_split [of S a])
  have nB: "s_fd s \<notin> B" using net_invD(2) [OF inv] ownedI [of S a s] a s(1) by blast
  have en: "entry_ok (S(a \<mapsto> t)) B p e fd" if "entry_ok S B p e fd" for p e fd
    using entry_ok_sock [OF that a] s(2) by simp
  have tab: "table_ok A (O' - {s_fd s}) (\<lambda>ep. (I ep)(s_fd s := None)) e" if "P p = Some e" for p e
    using net_invD(4) [OF inv that] unwatched [OF inv a s(2,1) that] by (auto simp: table_ok_def agree_at_def)
  show ?thesis
    unfolding net_inv_def ow
    using net_invD [OF inv] nB en tab t uniq s a by (auto simp: registered_def split: if_splits)
qed

lemma net_inv_open:
  assumes inv: "net_inv A O' I S P B" and a: "S a = Some s" and s: "s_fd s < 0" "\<not> s_attached s"
    and t: "0 \<le> s_fd t" "\<not> s_attached t" "s_fd t \<notin> owned S" "s_fd t \<notin> B"
  shows "net_inv A (insert (s_fd t) O') I (S(a \<mapsto> t)) P B"
proof -
  have ow: "owned (S(a \<mapsto> t)) = insert (s_fd t) (owned S)"
    using a t(1) s(1) by (simp add: owned_upd owned_split [of S a])
  have uniq: "s_fd u \<noteq> s_fd t" if "S b = Some u" for b u
    using ownedI [of S b u] that t(1,3) by auto
  have en: "entry_ok (S(a \<mapsto> t)) B p e fd" if "entry_ok S B p e fd" for p e fd
    using entry_ok_sock [OF that a] s(2) by simp
  have inj: "b = c" if "(S(a \<mapsto> t)) b = Some u" "(S(a \<mapsto> t)) c = Some v" "s_fd u = s_fd v" "0 \<le> s_fd u" for b c u v
    using that uniq [of b u] uniq [of c v] net_invD(3) [OF inv, of b u c v] by (auto split: if_splits)
  show ?thesis
    unfolding net_inv_def ow
  proof (intro conjI allI impI)
    show "insert (s_fd t) O' = B \<union> insert (s_fd t) (owned S)" "B \<inter> insert (s_fd t) (owned S) = {}"
      using net_invD(1,2) [OF inv] t(4) by auto
    show "registered P b u" if "(S(a \<mapsto> t)) b = Some u" "s_attached u" for b u
      using that t(2) net_invD(7) [OF inv, of b u] by (auto split: if_splits)
    show "table_ok A (insert (s_fd t) O') I e" if "P p = Some e" for p e
      using net_invD(4) [OF inv that] by (auto simp: table_ok_def)
  qed (use net_invD(4-6) [OF inv] en inj in blast)+
qed

text \<open>
  A table change at one poller: the other tables and their interest lists stay as they are.
\<close>

lemma table_other:
  assumes "net_inv A O' I S P B" and "P p = Some e" and "P q = Some f" and "q \<noteq> p"
    and "\<And>ep. ep \<noteq> epfd e \<Longrightarrow> I' ep = I ep"
  shows "table_ok A O' I' f"
proof -
  have "epfd f \<noteq> epfd e" using net_invD(5) [OF assms(1,3,2)] assms(4) by blast
  then show ?thesis using net_invD(4) [OF assms(1,3)] assms(5) by (simp add: table_ok_def)
qed

lemma net_inv_unreg:
  assumes inv: "net_inv A O' I S P B" and a: "S a = Some s" "s_attached s" and p: "s_poller s = Some p" "P p = Some e"
    and e': "watch e' = (watch e)(s_fd s := None)" "epfd e' = epfd e" "wake_r e' = wake_r e" "table_ok A O' I' e'"
    and I': "\<And>ep. ep \<noteq> epfd e \<Longrightarrow> I' ep = I ep"
    and t: "s_fd t = s_fd s" "\<not> s_attached t"
  shows "net_inv A O' I' (S(a \<mapsto> t)) (P(p \<mapsto> e')) B"
proof -
  have ow: "owned (S(a \<mapsto> t)) = owned S" using a t(1) by (simp add: owned_upd owned_split [of S a] own1_def)
  have fd: "0 \<le> s_fd s" using net_invD(7) [OF inv a] by (simp add: registered_def)
  have uniq: "s_fd u \<noteq> s_fd s" if "S b = Some u" "b \<noteq> a" for b u
    using net_invD(3) [OF inv that(1) a(1)] that(2) fd by auto
  have en: "entry_ok (S(a \<mapsto> t)) B q f fd" if "(P(p \<mapsto> e')) q = Some f" for q f fd
  proof (cases "q = p")
    case True
    then show ?thesis using that net_invD(6) [OF inv p(2), of fd] e'(1) a p(1)
      by (force simp: entry_ok_def split: option.splits prod.splits)
  next
    case False
    then show ?thesis using that net_invD(6) [OF inv, of q f fd] a p(1)
      by (force simp: entry_ok_def split: option.splits prod.splits)
  qed
  have reg: "registered (P(p \<mapsto> e')) b u" if "(S(a \<mapsto> t)) b = Some u" "s_attached u" for b u
  proof -
    have b: "b \<noteq> a" "S b = Some u" using that t(2) by (auto split: if_splits)
    show ?thesis using net_invD(7) [OF inv b(2) that(2)] uniq [OF b(2,1)] e'(1) p(2)
      by (auto simp: registered_def)
  qed
  show ?thesis
    unfolding net_inv_def ow
    using net_invD(1-5) [OF inv] en reg e' table_other [OF inv p(2) _ _ I'] a t(1) p(2) by (auto split: if_splits)
qed

lemma net_inv_reg:
  assumes inv: "net_inv A O' I S P B" and a: "S a = Some s" "0 \<le> s_fd s" "s_attached s \<Longrightarrow> s_poller s = Some p"
    and p: "P p = Some e"
    and e': "watch e' = (watch e)(s_fd s \<mapsto> (s_poll_events t, Some (Socket_cb a)))" "epfd e' = epfd e"
      "wake_r e' = wake_r e" "table_ok A O' I' e'"
    and I': "\<And>ep. ep \<noteq> epfd e \<Longrightarrow> I' ep = I ep"
    and t: "s_fd t = s_fd s" "s_attached t" "s_poller t = Some p"
  shows "net_inv A O' I' (S(a \<mapsto> t)) (P(p \<mapsto> e')) B"
proof -
  have ow: "owned (S(a \<mapsto> t)) = owned S" using a t(1) by (simp add: owned_upd owned_split [of S a] own1_def)
  have uniq: "s_fd u \<noteq> s_fd s" if "S b = Some u" "b \<noteq> a" for b u
    using net_invD(3) [OF inv that(1) a(1)] that(2) a(2) by auto
  have en: "entry_ok (S(a \<mapsto> t)) B q f fd" if "(P(p \<mapsto> e')) q = Some f" for q f fd
  proof (cases "q = p")
    case True
    then show ?thesis using that net_invD(6) [OF inv p, of fd] e'(1) a t
      by (force simp: entry_ok_def split: option.splits prod.splits)
  next
    case False
    then show ?thesis using that net_invD(6) [OF inv, of q f fd] a
      by (force simp: entry_ok_def split: option.splits prod.splits)
  qed
  have reg: "registered (P(p \<mapsto> e')) b u" if "(S(a \<mapsto> t)) b = Some u" "s_attached u" for b u
  proof (cases "b = a")
    case True
    then show ?thesis using that t e'(1) a(2) by (auto simp: registered_def)
  next
    case False
    then have b: "S b = Some u" using that by simp
    show ?thesis using net_invD(7) [OF inv b that(2)] uniq [OF b False] e'(1) p
      by (auto simp: registered_def)
  qed
  show ?thesis
    unfolding net_inv_def ow
    using net_invD(1-5) [OF inv] en reg e' table_other [OF inv p _ _ I'] a t(1) p by (auto split: if_splits)
qed

section \<open>The platform layer and the interest lists\<close>

named_theorems in_keep \<open>operations that leave the interest lists alone\<close>

abbreviation in_of :: "('w \<Rightarrow> int \<Rightarrow> int \<rightharpoonup> u32) \<Rightarrow> 'w sys \<Rightarrow> int \<Rightarrow> int \<rightharpoonup> u32" where
  "in_of intr s \<equiv> intr (world s)"

lemma sysc_interest:
  assumes "epoll_ok os intr"
  shows "interest_effect intr c (world s) (fst (sysc os c s)) (world (snd (sysc os c s)))"
proof -
  have "case os c (world s) of (r, w') \<Rightarrow> interest_effect intr c (world s) r w'"
    using assms by (simp add: epoll_ok_def)
  then show ?thesis by (simp add: sysc_def Let_def split_def)
qed

lemma sysc_in_keepsI:
  assumes "epoll_ok os intr" and "\<And>w r w'. interest_effect intr c w r w' \<Longrightarrow> intr w' = intr w"
  shows "in_of intr (snd (sysc os c s)) = in_of intr s"
  using assms(2) [OF sysc_interest [OF assms(1)]] .

lemma sysc_in_keeps [in_keep]:
  assumes "epoll_ok os intr"
  shows "in_of intr (snd (sysc os (Sys_bind fd a) s)) = in_of intr s"
    and "in_of intr (snd (sysc os (Sys_listen fd n) s)) = in_of intr s"
    and "in_of intr (snd (sysc os (Sys_connect fd a) s)) = in_of intr s"
    and "in_of intr (snd (sysc os (Sys_accept fd) s)) = in_of intr s"
    and "in_of intr (snd (sysc os (Sys_socket i j k) s)) = in_of intr s"
    and "in_of intr (snd (sysc os (Sys_getaddrinfo h p i j b) s)) = in_of intr s"
    and "in_of intr (snd (sysc os (Sys_setsockopt fd so) s)) = in_of intr s"
    and "in_of intr (snd (sysc os (Sys_getpeername fd) s)) = in_of intr s"
    and "in_of intr (snd (sysc os (Sys_so_error fd) s)) = in_of intr s"
    and "in_of intr (snd (sysc os (Sys_getfl fd) s)) = in_of intr s"
    and "in_of intr (snd (sysc os (Sys_setfl fd i) s)) = in_of intr s"
    and "in_of intr (snd (sysc os (Sys_getfd fd) s)) = in_of intr s"
    and "in_of intr (snd (sysc os (Sys_setfd fd i) s)) = in_of intr s"
  by (rule sysc_in_keepsI [OF assms], simp add: interest_effect_def)+

lemma set_flags_in_keep [in_keep]:
  assumes "epoll_ok os intr"
  shows "in_of intr (snd (set_opt os fd opt s)) = in_of intr s"
    and "in_of intr (snd (set_nonblock os fd on s)) = in_of intr s"
    and "in_of intr (snd (set_cloexec os fd s)) = in_of intr s"
  by (simp_all add: set_opt_def set_nonblock_def set_cloexec_def Let_def split_def in_keep [OF assms])

lemma apply_opts_in_keep [in_keep]:
  assumes "epoll_ok os intr"
  shows "in_of intr (snd (ztk_sockplat_apply_tcp_server_opts os fd s)) = in_of intr s"
    and "in_of intr (snd (ztk_sockplat_apply_tcp_client_opts os fd s)) = in_of intr s"
    and "in_of intr (snd (ztk_sockplat_apply_udp_opts os fd s)) = in_of intr s"
  by (simp_all add: in_keep [OF assms] ztk_sockplat_apply_tcp_server_opts_def ztk_sockplat_apply_tcp_client_opts_def
        ztk_sockplat_apply_udp_opts_def set_reuseaddr_def set_nodelay_def split_def Let_def)

lemma close_in: "epoll_ok os intr \<Longrightarrow> in_of intr (close_next os fd s) = (\<lambda>ep. (in_of intr s ep)(fd := None))"
  using sysc_interest [of os intr "Sys_close fd" s] by (simp add: close_next_def interest_effect_def)

lemma sockplat_close_in:
  "epoll_ok os intr \<Longrightarrow> 0 \<le> fd \<Longrightarrow>
     in_of intr (snd (ztk_sockplat_close os fd s)) = (\<lambda>ep. (in_of intr s ep)(fd := None))"
  using close_in [of os intr fd s] by (simp add: ztk_sockplat_close_def close_next_def split_def Let_def)

text \<open>
  While an opening operation tries addresses it closes only descriptors it opened itself, so interest
  in a descriptor that was open before is untouched.
\<close>

definition intr_le :: "('w \<Rightarrow> int \<Rightarrow> int \<rightharpoonup> u32) \<Rightarrow> ('w \<Rightarrow> int set) \<Rightarrow> 'w sys \<Rightarrow> 'w sys \<Rightarrow> bool" where
  "intr_le intr opn s s' \<longleftrightarrow>
     (\<forall>ep fd. in_of intr s' ep fd = in_of intr s ep fd \<or> fd \<notin> op_of opn s \<and> in_of intr s' ep fd = None)"

lemma intr_le_same: "in_of intr s' = in_of intr s \<Longrightarrow> intr_le intr opn s s'"
  by (simp add: intr_le_def)

lemma intr_le_from:
  "op_of opn s1 = op_of opn s \<Longrightarrow> intr_le intr opn s s1 \<Longrightarrow> intr_le intr opn s1 s' \<Longrightarrow> intr_le intr opn s s'"
  by (simp add: intr_le_def) metis

lemma intr_le_close:
  "epoll_ok os intr \<Longrightarrow> in_of intr s1 = in_of intr s \<Longrightarrow> f \<notin> op_of opn s \<Longrightarrow> intr_le intr opn s (close_next os f s1)"
  by (simp add: intr_le_def close_in)

lemma listen_loop_intr:
  assumes "fds_ok os opn" and "epoll_ok os intr" and "fd < 0"
  shows "intr_le intr opn s (snd (listen_loop os bl ps fd s))"
  using assms(3)
proof (induction ps arbitrary: fd s)
  case Nil
  then show ?case by (simp add: intr_le_def)
next
  case (Cons p ps)
  note so = sysc_socket [OF assms(1), of s "ai_family p" "ai_socktype p" "ai_protocol p"]
  note IH = intr_le_from [of opn _ s, OF _ _ Cons.IH]
  show ?case
    using opens_nonneg [OF so] opens_neg [OF so]
    by (simp add: Let_def split_def set_reuseaddr_def fd_keep [OF assms(1)] in_keep [OF assms(2)]
        close_next_fds [OF assms(1)] IH intr_le_close [OF assms(2)] intr_le_same)
qed

lemma bind_udp_loop_intr:
  assumes "fds_ok os opn" and "epoll_ok os intr" and "fd < 0"
  shows "intr_le intr opn s (snd (bind_udp_loop os ra rp ps fd s))"
  using assms(3)
proof (induction ps arbitrary: fd s ra rp)
  case Nil
  then show ?case by (simp add: intr_le_def)
next
  case (Cons p ps)
  note so = sysc_socket [OF assms(1), of s "ai_family p" "ai_socktype p" "ai_protocol p"]
  note IH = intr_le_from [of opn _ s, OF _ _ Cons.IH]
  show ?case
    using opens_nonneg [OF so] opens_neg [OF so]
    by (simp add: Let_def split_def set_reuseaddr_def set_reuseport_def fd_keep [OF assms(1)] in_keep [OF assms(2)]
        close_next_fds [OF assms(1)] IH intr_le_close [OF assms(2)] intr_le_same)
qed

lemma connect_loop_intr:
  assumes "fds_ok os opn" and "epoll_ok os intr" and "fd < 0"
  shows "intr_le intr opn s (snd (connect_loop os ps fd s))"
  using assms(3)
proof (induction ps arbitrary: fd s)
  case Nil
  then show ?case by (simp add: intr_le_def)
next
  case (Cons p ps)
  note so = sysc_socket [OF assms(1), of s "ai_family p" "ai_socktype p" "ai_protocol p"]
  note IH = intr_le_from [of opn _ s, OF _ _ Cons.IH]
  show ?case
    using opens_nonneg [OF so] opens_neg [OF so]
    by (simp add: Let_def split_def fd_keep [OF assms(1)] in_keep [OF assms(2)]
        close_next_fds [OF assms(1)] IH intr_le_close [OF assms(2)] intr_le_same)
qed

lemma resolve_keeps:
  assumes "fds_ok os opn" and "epoll_ok os intr"
  shows "op_of opn (snd (resolve_bind os host port t pas s)) = op_of opn s"
    and "in_of intr (snd (resolve_bind os host port t pas s)) = in_of intr s"
    and "op_of opn (snd (resolve_connect os h port s)) = op_of opn s"
    and "in_of intr (snd (resolve_connect os h port s)) = in_of intr s"
  by (simp_all add: resolve_bind_def resolve_connect_def Let_def split_def fd_keep [OF assms(1)] in_keep [OF assms(2)])

lemma sockplat_open_intr:
  assumes "fds_ok os opn" and "epoll_ok os intr"
  shows "intr_le intr opn s (snd (ztk_sockplat_listen os host port bl s))"
    and "intr_le intr opn s (snd (ztk_sockplat_bind_udp os host port ra rp s))"
    and "intr_le intr opn s (snd (ztk_sockplat_connect os (Some h) port s))"
    and "intr_le intr opn s (snd (ztk_sockplat_accept os l s))"
proof -
  note R = resolve_keeps [OF assms]
  note L = intr_le_from [OF R(1) intr_le_same [OF R(2)] listen_loop_intr [OF assms]]
    intr_le_from [OF R(1) intr_le_same [OF R(2)] bind_udp_loop_intr [OF assms]]
    intr_le_from [OF R(3) intr_le_same [OF R(4)] connect_loop_intr [OF assms]]
  show "intr_le intr opn s (snd (ztk_sockplat_listen os host port bl s))"
    by (simp add: ztk_sockplat_listen_def bind_and_listen_def Let_def split_def L intr_le_same R)
  show "intr_le intr opn s (snd (ztk_sockplat_bind_udp os host port ra rp s))"
    by (simp add: ztk_sockplat_bind_udp_def Let_def split_def L intr_le_same R)
  show "intr_le intr opn s (snd (ztk_sockplat_connect os (Some h) port s))"
    by (simp add: ztk_sockplat_connect_def Let_def split_def L intr_le_same R)
  show "intr_le intr opn s (snd (ztk_sockplat_accept os l s))"
    by (simp add: ztk_sockplat_accept_def Let_def split_def intr_le_same in_keep [OF assms(2)])
qed

section \<open>Every operation keeps the invariant\<close>

text \<open>The event sets of table and kernel are the same on all descriptors if the kernel does not fail to modify and delete.\<close>

definition sure :: "'w os \<Rightarrow> ('w \<Rightarrow> int \<Rightarrow> int \<rightharpoonup> u32) \<Rightarrow> int set" where
  "sure os intr = (if ctls_ok os intr then UNIV else {})"

definition net_ok ::
    "'w os \<Rightarrow> ('w \<Rightarrow> int set) \<Rightarrow> ('w \<Rightarrow> int \<Rightarrow> int \<rightharpoonup> u32) \<Rightarrow> int set \<Rightarrow> ('k, 'w, 'z) net_scheme \<Rightarrow> bool" where
  "net_ok os opn intr B n \<longleftrightarrow> fds_ok os opn \<and> epoll_ok os intr \<and>
     net_inv (sure os intr) (op_of opn (nsys n)) (in_of intr (nsys n)) (socks n) (npollers n) B"

lemma net_okD:
  "net_ok os opn intr B n \<Longrightarrow> fds_ok os opn" "net_ok os opn intr B n \<Longrightarrow> epoll_ok os intr"
  "net_ok os opn intr B n \<Longrightarrow> net_inv (sure os intr) (op_of opn (nsys n)) (in_of intr (nsys n)) (socks n) (npollers n) B"
  by (simp_all add: net_ok_def)

lemma sync_table:
  "table_ok A O' (in_of intr s) e \<longleftrightarrow> in_sync A intr e s \<and> (\<forall>fd. in_of intr s (epfd e) fd \<noteq> None \<longrightarrow> fd \<in> O')"
  by (auto simp: in_sync_def table_ok_def)

lemma sure_sync:
  assumes "in_sync X intr e s" and "ctls_ok os intr \<longrightarrow> in_sync (sure os intr) intr e s \<and> Q"
  shows "in_sync (sure os intr) intr e s"
  using assms in_sync_mono [OF assms(1), of "{}"] by (auto simp: sure_def)

lemma ctl_dom:
  "epoll_ok os intr \<Longrightarrow> in_of intr (snd (sysc os (Sys_epoll_ctl ep eop fd ev) s)) ep g \<noteq> None \<Longrightarrow>
    in_of intr s ep g \<noteq> None \<or> g = fd \<and> eop = EPOLL_CTL_ADD"
  using sysc_epoll_ctl [of os intr eop fd ev ep s] by (cases eop) (auto simp: ctl_effect_def split: if_splits)

lemma reg_dom:
  assumes "epoll_ok os intr"
  shows "in_of intr (snd (ztk_poller_add os ok (Some e) fd ev c s)) (epfd e) g \<noteq> None \<Longrightarrow> in_of intr s (epfd e) g \<noteq> None \<or> g = fd"
    and "in_of intr (snd (ztk_poller_mod os (Some e) fd ev s)) (epfd e) g \<noteq> None \<Longrightarrow> in_of intr s (epfd e) g \<noteq> None"
    and "in_of intr (snd (ztk_poller_del os (Some e) fd s)) (epfd e) g \<noteq> None \<Longrightarrow> in_of intr s (epfd e) g \<noteq> None"
  using ctl_dom [OF assms]
  by (auto simp: ztk_poller_add_def ztk_poller_mod_def ztk_poller_del_def epoll_ctl_wrap_def Let_def split_def split: if_splits)
    (blast+)?

lemma ctl_others:
  "epoll_ok os intr \<Longrightarrow> ep' \<noteq> ep \<Longrightarrow> in_of intr (snd (sysc os (Sys_epoll_ctl ep eop fd ev) s)) ep' = in_of intr s ep'"
  using sysc_interest [of os intr "Sys_epoll_ctl ep eop fd ev" s] by (simp add: interest_effect_def)

lemma reg_frames:
  assumes "fds_ok os opn" and "epoll_ok os intr"
  shows "op_of opn (snd (ztk_poller_add os ok (Some e) fd ev c s)) = op_of opn s"
    and "ep \<noteq> epfd e \<Longrightarrow> in_of intr (snd (ztk_poller_add os ok (Some e) fd ev c s)) ep = in_of intr s ep"
    and "op_of opn (snd (ztk_poller_mod os (Some e) fd ev s)) = op_of opn s"
    and "ep \<noteq> epfd e \<Longrightarrow> in_of intr (snd (ztk_poller_mod os (Some e) fd ev s)) ep = in_of intr s ep"
    and "op_of opn (snd (ztk_poller_del os (Some e) fd s)) = op_of opn s"
    and "ep \<noteq> epfd e \<Longrightarrow> in_of intr (snd (ztk_poller_del os (Some e) fd s)) ep = in_of intr s ep"
  by (simp_all add: ztk_poller_add_def ztk_poller_mod_def ztk_poller_del_def epoll_ctl_wrap_def Let_def split_def
      fd_keep [OF assms(1)] ctl_others [OF assms(2)])

text \<open>Replacing a table by one with the same registrations.\<close>

lemma net_inv_table:
  assumes inv: "net_inv A O' I S P B" and p: "P p = Some e"
    and e': "watch e' = watch e" "epfd e' = epfd e" "wake_r e' = wake_r e" "table_ok A O' I' e'"
    and I': "\<And>ep. ep \<noteq> epfd e \<Longrightarrow> I' ep = I ep"
  shows "net_inv A O' I' S (P(p \<mapsto> e')) B"
proof -
  have reg: "registered (P(p \<mapsto> e')) b u" if "S b = Some u" "s_attached u" for b u
    using net_invD(7) [OF inv that] e'(1) p by (auto simp: registered_def)
  have en: "entry_ok S B q f fd" if "(P(p \<mapsto> e')) q = Some f" for q f fd
    using that net_invD(6) [OF inv, of q _ fd] e'(1) p by (auto simp: entry_ok_def split: if_splits)
  show ?thesis
    unfolding net_inv_def
    using net_invD(1-5) [OF inv] en reg e' table_other [OF inv p _ _ I'] p by (auto split: if_splits)
qed

text \<open>What an operation on socket \<open>a\<close> leaves alone.\<close>

definition frame :: "nat \<Rightarrow> ('k, 'w, 'z) net_scheme \<Rightarrow> ('k, 'w, 'z) net_scheme \<Rightarrow> bool" where
  "frame a n n' \<longleftrightarrow> (\<forall>b. b \<noteq> a \<longrightarrow> socks n' b = socks n b) \<and> dom (npollers n') = dom (npollers n)"

lemma frame_trans: "frame a n n1 \<Longrightarrow> frame a n1 n2 \<Longrightarrow> frame a n n2"
  by (simp add: frame_def)

lemma detach_ok:
  assumes ok: "net_ok os opn intr B n" and a: "socks n a = Some s"
  shows "\<exists>n' s'. ztk_socket_detach_poller os (Some a) n = Some (ZTK_OK, n') \<and> net_ok os opn intr B n' \<and>
     socks n' a = Some s' \<and> \<not> s_attached s' \<and> s_fd s' = s_fd s \<and> s_connect_pending s' = s_connect_pending s \<and>
     frame a n n' \<and> nmem n' = nmem n"
proof (cases "s_attached s")
  case False
  then show ?thesis using ok a by (simp add: ztk_socket_detach_poller_def frame_def)
next
  case True
  note inv = net_okD(3) [OF ok] and os = net_okD(1,2) [OF ok]
  obtain p e where pe: "s_poller s = Some p" "npollers n p = Some e" "0 \<le> s_fd s"
      "watch e (s_fd s) = Some (s_poll_events s, Some (Socket_cb a))"
    using net_invD(7) [OF inv a True] by (auto simp: registered_def)
  have wk: "s_fd s \<noteq> wake_r e"
    using net_invD(2) [OF inv] net_invD(4) [OF inv pe(2)] ownedI [of "socks n" a s] a pe(3) by auto
  have sync: "in_sync (sure os intr) intr e (nsys n)" and kd: "\<forall>fd. in_of intr (nsys n) (epfd e) fd \<noteq> None \<longrightarrow> fd \<in> op_of opn (nsys n)"
    using net_invD(4) [OF inv pe(2)] by (auto simp: sync_table)
  let ?d = "ztk_poller_del os (Some e) (s_fd s) (nsys n)"
  have "fst (fst ?d) = ZTK_OK" using wk pe(4) by (simp add: ztk_poller_del_def find_watch)
  then have d: "?d = ((ZTK_OK, snd (fst ?d)), snd ?d)" by (metis prod.collapse)
  obtain e' where e': "snd (fst ?d) = Some e'" "epfd e' = epfd e" "wake_r e' = wake_r e"
      "table_ok (sure os intr) (op_of opn (nsys n)) (in_of intr (snd ?d)) e'" "watch e' = (watch e)(s_fd s := None)"
  proof -
    obtain p' where p': "snd (fst ?d) = Some p'" "epfd p' = epfd e" "wake_r p' = wake_r e"
        "fst (reg_eff (RegDel (s_fd s)) ZTK_OK (watch e, sure os intr)) = watch p'"
        "in_sync (snd (reg_eff (RegDel (s_fd s)) ZTK_OK (watch e, sure os intr))) intr p' (snd ?d)"
        "ctls_ok os intr \<longrightarrow> in_sync (sure os intr) intr p' (snd ?d) \<and> (ZTK_OK = ZTK_OK \<or> watch p' = watch e)"
      using del_sync [OF os(2) sync d] by blast
    show ?thesis
      using sure_sync [OF p'(5,6)] p' kd reg_dom(3) [OF os(2), of e "s_fd s" "nsys n"]
      by (intro that [of p']) (auto simp: sync_table)
  qed
  have "net_inv (sure os intr) (op_of opn (nsys n)) (in_of intr (snd ?d)) ((socks n)(a \<mapsto> s\<lparr>s_attached := False, s_poller := None\<rparr>))
      ((npollers n)(p \<mapsto> e')) B"
    using e' reg_frames(6) [OF os]
    by (intro net_inv_unreg [OF inv a True pe(1,2)]) simp_all
  then have "net_ok os opn intr B (upd_sock a (\<lambda>s. s\<lparr>s_attached := False, s_poller := None\<rparr>)
      (n\<lparr>npollers := (npollers n)(p \<mapsto> e'), nsys := snd ?d\<rparr>))"
    using os reg_frames(5) [OF os, of e "s_fd s" "nsys n"] a by (simp add: net_ok_def upd_sock_def)
  then show ?thesis
    using a True pe e'(1) by (auto simp: ztk_socket_detach_poller_def poller_del_at_def Let_def split_def upd_sock_def
        frame_def)
qed

lemma close_ok:
  assumes ok: "net_ok os opn intr B n" and a: "socks n a = Some s" and at: "\<not> s_attached s"
  shows "\<exists>n' s'. close_fd os a n = Some n' \<and> net_ok os opn intr B n' \<and> socks n' a = Some s' \<and> \<not> s_attached s' \<and>
     s_fd s' < 0 \<and> frame a n n' \<and> nmem n' = nmem n"
proof (cases "s_fd s < 0")
  case True
  then show ?thesis using ok a at by (auto simp: close_fd_def frame_def)
next
  case False
  note inv = net_okD(3) [OF ok] and os = net_okD(1,2) [OF ok]
  have "net_inv (sure os intr) (op_of opn (nsys n) - {s_fd s}) (\<lambda>ep. (in_of intr (nsys n) ep)(s_fd s := None))
      ((socks n)(a \<mapsto> s\<lparr>s_fd := - 1\<rparr>)) (npollers n) B"
    using False at by (intro net_inv_close [OF inv a]) auto
  then have "net_ok os opn intr B (upd_sock a (\<lambda>s. s\<lparr>s_fd := - 1\<rparr>)
      (n\<lparr>nsys := snd (ztk_sockplat_close os (s_fd s) (nsys n))\<rparr>))"
    using os a False
    by (simp add: net_ok_def upd_sock_def sockplat_close_fds [OF os(1)] sockplat_close_in [OF os(2)])
  then show ?thesis using a False at by (auto simp: close_fd_def upd_sock_def frame_def)
qed

lemma reset_ok:
  assumes ok: "net_ok os opn intr B n" and a: "socks n a = Some s"
  shows "\<exists>n' s'. reset_sock os a n = Some n' \<and> net_ok os opn intr B n' \<and> socks n' a = Some s' \<and> \<not> s_attached s' \<and>
     s_fd s' < 0 \<and> frame a n n' \<and> nmem n' = nmem n"
proof -
  obtain n1 s1 where n1: "ztk_socket_detach_poller os (Some a) n = Some (ZTK_OK, n1)" "net_ok os opn intr B n1"
      "socks n1 a = Some s1" "\<not> s_attached s1" "frame a n n1" "nmem n1 = nmem n"
    using detach_ok [OF ok a] by blast
  obtain n2 s2 where n2: "close_fd os a n1 = Some n2" "net_ok os opn intr B n2" "socks n2 a = Some s2"
      "\<not> s_attached s2" "s_fd s2 < 0" "frame a n1 n2" "nmem n2 = nmem n1"
    using close_ok [OF n1(2-4)] by blast
  show ?thesis using n1 n2 frame_trans [OF n1(5) n2(6)] by (auto simp: reset_sock_def)
qed

lemma destroy_ok:
  assumes ok: "net_ok os opn intr B n" and a: "socks n a = Some s"
  shows "\<exists>n'. ztk_socket_destroy os (Some a) n = Some n' \<and> net_ok os opn intr B n' \<and> socks n' a = None \<and> frame a n n'"
proof -
  obtain n2 s2 where n2: "reset_sock os a n = Some n2" "net_ok os opn intr B n2" "socks n2 a = Some s2"
      "\<not> s_attached s2" "s_fd s2 < 0" "frame a n n2"
    using reset_ok [OF ok a] by blast
  have "ztk_socket_destroy os (Some a) n = Some (n2\<lparr>socks := (socks n2)(a := None)\<rparr>)"
    using n2(1) by (auto simp: ztk_socket_destroy_def reset_sock_def bind_eq_Some_conv)
  moreover have "net_ok os opn intr B (n2\<lparr>socks := (socks n2)(a := None)\<rparr>)"
    using n2(2) net_inv_free [OF net_okD(3) [OF n2(2)] n2(3,5,4)] by (simp add: net_ok_def)
  ultimately show ?thesis using n2(6) by (simp add: frame_def)
qed

text \<open>An opening platform call on a reset socket, and the assignment of its descriptor.\<close>

lemma watched_open:
  assumes inv: "net_inv A O' I S P B" and p: "P p = Some e" and w: "watch e fd \<noteq> None"
  shows "fd \<in> O'"
proof -
  obtain ev c where w: "watch e fd = Some (ev, c)" using w by (cases "watch e fd") auto
  have "fd \<in> B \<union> owned S"
  proof (cases c)
    case (Some c')
    then obtain a s' where s': "S a = Some s'" "s_attached s'" "s_fd s' = fd"
      using net_invD(6) [OF inv p, of fd] w by (auto simp: entry_ok_def)
    then show ?thesis using net_invD(7) [OF inv s'(1,2)] ownedI [of S a s'] by (auto simp: registered_def)
  qed (use net_invD(6) [OF inv p, of fd] w in \<open>auto simp: entry_ok_def\<close>)
  then show ?thesis using net_invD(1) [OF inv] by blast
qed

lemma intr_le_tables:
  assumes inv: "net_inv (sure os intr) (op_of opn s) (in_of intr s) S P B" and le: "intr_le intr opn s s'" and p: "P p = Some e"
  shows "in_of intr s' (epfd e) = in_of intr s (epfd e)"
proof
  fix fd
  have "in_of intr s (epfd e) fd = None" if "fd \<notin> op_of opn s"
    using net_invD(4) [OF inv p] that by (auto simp: table_ok_def)
  then show "in_of intr s' (epfd e) fd = in_of intr s (epfd e) fd"
    using le by (auto simp: intr_le_def) metis
qed

lemma net_inv_tables_eq:
  assumes "net_inv A O' I S P B" and "\<And>p e. P p = Some e \<Longrightarrow> I' (epfd e) = I (epfd e)"
  shows "net_inv A O' I' S P B"
  unfolding net_inv_def table_ok_def using net_invD [OF assms(1)] assms(2) by (auto simp: table_ok_def)

lemma open_ok:
  assumes ok: "net_ok os opn intr B n" and a: "socks n a = Some s" "\<not> s_attached s" "s_fd s < 0"
    and le: "intr_le intr opn (nsys n) y" and ho: "hands_over opn (nsys n) e fd y"
    and t: "\<And>f. fd = Some f \<Longrightarrow> s_fd (g f s) = f \<and> \<not> s_attached (g f s)"
  shows "net_ok os opn intr B (case fd of None \<Rightarrow> n\<lparr>nsys := y\<rparr> | Some f \<Rightarrow> upd_sock a (g f) (n\<lparr>nsys := y\<rparr>))"
proof -
  note inv = net_okD(3) [OF ok] and os = net_okD(1,2) [OF ok]
  have inv': "net_inv (sure os intr) (op_of opn (nsys n)) (in_of intr y) (socks n) (npollers n) B"
    using net_inv_tables_eq [OF inv] intr_le_tables [OF inv le] by blast
  show ?thesis
  proof (cases fd)
    case None
    then show ?thesis using inv' os ho by (simp add: net_ok_def hands_over_def)
  next
    case (Some f)
    have f: "0 \<le> f" "f \<notin> op_of opn (nsys n)" "op_of opn y = insert f (op_of opn (nsys n))"
      using ho Some by (auto simp: hands_over_def)
    have "net_inv (sure os intr) (insert (s_fd (g f s)) (op_of opn (nsys n))) (in_of intr y) ((socks n)(a \<mapsto> g f s)) (npollers n) B"
      using a t [OF Some] f net_invD(1) [OF inv] by (intro net_inv_open [OF inv' a(1)]) auto
    then show ?thesis using os f Some a t [OF Some] by (simp add: net_ok_def upd_sock_def)
  qed
qed

lemma ensure_ok:
  assumes "net_ok os opn intr B n"
  shows "\<exists>n0. ensure_sockplat n = (ZTK_OK, n0) \<and> net_ok os opn intr B n0 \<and> socks n0 = socks n \<and>
     npollers n0 = npollers n \<and> nmem n0 = nmem n"
  using assms by (simp add: ensure_sockplat_def ztk_sockplat_init_def net_ok_def)

lemma prepared_ok:
  assumes "net_ok os opn intr B n" and "socks n a = Some s"
  shows "\<exists>n0 n1 s1. ensure_sockplat n = (ZTK_OK, n0) \<and> reset_sock os a n0 = Some n1 \<and> net_ok os opn intr B n1 \<and>
     socks n1 a = Some s1 \<and> \<not> s_attached s1 \<and> s_fd s1 < 0"
  using ensure_ok [OF assms(1)] reset_ok [of os opn intr B _ a s] assms(2) by metis

lemma listen_ok:
  assumes "net_ok os opn intr B n" and "socks n a = Some s"
  shows "\<exists>e n'. ztk_socket_listen os (Some a) host port bl n = Some (e, n') \<and> net_ok os opn intr B n'"
proof -
  obtain n0 n1 s1 where n1: "ensure_sockplat n = (ZTK_OK, n0)" "reset_sock os a n0 = Some n1" "net_ok os opn intr B n1"
      "socks n1 a = Some s1" "\<not> s_attached s1" "s_fd s1 < 0"
    using prepared_ok [OF assms] by blast
  obtain e fd y where r: "ztk_sockplat_listen os host port bl (nsys n1) = ((e, fd), y)" by (metis prod.exhaust)
  note os = net_okD(1,2) [OF n1(3)]
  have ho: "hands_over opn (nsys n1) e fd y" using sockplat_listen_fds [OF os(1) r] .
  have le: "intr_le intr opn (nsys n1) y" using sockplat_open_intr(1) [OF os, of "nsys n1" host port bl] r by simp
  show ?thesis
    using open_ok [OF n1(3-6) le ho, of "\<lambda>f s. s\<lparr>s_fd := f, s_type := ZTK_SOCK_TCP_LISTEN, s_connect_pending := False\<rparr>"]
      n1(1,2,5) r ho by (auto simp: ztk_socket_listen_def hands_over_def split: option.splits)
qed

lemma bind_udp_ok:
  assumes "net_ok os opn intr B n" and "socks n a = Some s"
  shows "\<exists>e n'. ztk_socket_bind_udp_ex os (Some a) host port ra rp n = Some (e, n') \<and> net_ok os opn intr B n'"
proof -
  obtain n0 n1 s1 where n1: "ensure_sockplat n = (ZTK_OK, n0)" "reset_sock os a n0 = Some n1" "net_ok os opn intr B n1"
      "socks n1 a = Some s1" "\<not> s_attached s1" "s_fd s1 < 0"
    using prepared_ok [OF assms] by blast
  obtain e fd y where r: "ztk_sockplat_bind_udp os host port ra rp (nsys n1) = ((e, fd), y)" by (metis prod.exhaust)
  note os = net_okD(1,2) [OF n1(3)]
  have ho: "hands_over opn (nsys n1) e fd y" using sockplat_bind_udp_fds [OF os(1) r] .
  have le: "intr_le intr opn (nsys n1) y" using sockplat_open_intr(2) [OF os, of "nsys n1" host port ra rp] r by simp
  show ?thesis
    using open_ok [OF n1(3-6) le ho, of "\<lambda>f s. s\<lparr>s_fd := f, s_type := ZTK_SOCK_UDP, s_connect_pending := False\<rparr>"]
      n1(1,2,5) r ho by (auto simp: ztk_socket_bind_udp_ex_def hands_over_def split: option.splits)
qed

lemma connect_ok:
  assumes "net_ok os opn intr B n" and "socks n a = Some s"
  shows "\<exists>e n'. ztk_socket_connect os (Some a) host port n = Some (e, n') \<and> net_ok os opn intr B n'"
proof (cases host)
  case None
  then show ?thesis using assms by (simp add: ztk_socket_connect_def)
next
  case (Some h)
  obtain n0 n1 s1 where n1: "ensure_sockplat n = (ZTK_OK, n0)" "reset_sock os a n0 = Some n1" "net_ok os opn intr B n1"
      "socks n1 a = Some s1" "\<not> s_attached s1" "s_fd s1 < 0"
    using prepared_ok [OF assms] by blast
  obtain e fd pend y where r: "ztk_sockplat_connect os (Some h) port (nsys n1) = ((e, fd, pend), y)"
    by (metis prod.exhaust)
  note os = net_okD(1,2) [OF n1(3)]
  have ho: "hands_over opn (nsys n1) e fd y" using sockplat_connect_fds [OF os(1) r] .
  have le: "intr_le intr opn (nsys n1) y" using sockplat_open_intr(3) [OF os, of "nsys n1" h port] r by simp
  show ?thesis
    using open_ok [OF n1(3-6) le ho, of "\<lambda>f s. s\<lparr>s_fd := f,
        s_type := (if pend then ZTK_SOCK_TCP_CLIENT else ZTK_SOCK_TCP_CONNECTED), s_connect_pending := pend\<rparr>"]
      n1(1,2,5) r ho Some by (auto simp: ztk_socket_connect_def hands_over_def split: option.splits)
qed

lemma create_ok:
  assumes "net_ok os opn intr B n"
  shows "net_ok os opn intr B (snd (ztk_socket_create n)) \<and>
     (case fst (ztk_socket_create n) of None \<Rightarrow> socks (snd (ztk_socket_create n)) = socks n
      | Some c \<Rightarrow> \<exists>s. socks n c = None \<and> socks (snd (ztk_socket_create n)) = (socks n)(c \<mapsto> s) \<and>
          s_fd s < 0 \<and> \<not> s_attached s) \<and> nsys (snd (ztk_socket_create n)) = nsys n"
  using assms net_inv_new [OF net_okD(3) [OF assms]]
  by (auto simp: ztk_socket_create_def take_mem_def net_ok_def Let_def split: list.splits option.splits)

lemma create_sys:
  "ztk_socket_create (n\<lparr>nsys := y\<rparr>) = (fst (ztk_socket_create n), (snd (ztk_socket_create n))\<lparr>nsys := y\<rparr>)"
  by (simp add: ztk_socket_create_def take_mem_def Let_def split: list.splits option.splits)

lemma intr_le_close':
  "epoll_ok os intr \<Longrightarrow> intr_le intr opn s y \<Longrightarrow> f \<notin> op_of opn s \<Longrightarrow> 0 \<le> f \<Longrightarrow>
     intr_le intr opn s (snd (ztk_sockplat_close os f y))"
  by (simp add: intr_le_def sockplat_close_in)

lemma sys_ok:
  assumes "net_ok os opn intr B n" and "op_of opn y = op_of opn (nsys n)" and "intr_le intr opn (nsys n) y"
  shows "net_ok os opn intr B (n\<lparr>nsys := y\<rparr>)"
  using assms net_inv_tables_eq [OF net_okD(3) [OF assms(1)]] intr_le_tables [OF net_okD(3) [OF assms(1)] assms(3)]
  by (simp add: net_ok_def)

lemma accept_ok:
  assumes ok: "net_ok os opn intr B n" and a: "socks n a = Some s"
  shows "\<exists>e n'. ztk_socket_accept os (Some a) n = Some (e, n') \<and> net_ok os opn intr B n'"
proof (cases "s_type s = ZTK_SOCK_TCP_LISTEN")
  case False
  then show ?thesis using ok a by (simp add: ztk_socket_accept_def)
next
  case True
  obtain e fd y where r: "ztk_sockplat_accept os (s_fd s) (nsys n) = ((e, fd), y)" by (metis prod.exhaust)
  note os = net_okD(1,2) [OF ok]
  have ho: "hands_over opn (nsys n) e fd y" using sockplat_accept_fds [OF os(1) r] .
  have le: "intr_le intr opn (nsys n) y" using sockplat_open_intr(4) [OF os, of "nsys n" "s_fd s"] r by simp
  obtain m nc where nc: "ztk_socket_create n = (m, nc)" by (cases "ztk_socket_create n")
  have c: "net_ok os opn intr B nc" "nsys nc = nsys n" using create_ok [OF ok] nc by auto
  show ?thesis
  proof (cases fd)
    case None
    then have "net_ok os opn intr B (n\<lparr>nsys := y\<rparr>)" using sys_ok [OF ok _ le] ho by (simp add: hands_over_def)
    then show ?thesis using True a r None by (simp add: ztk_socket_accept_def)
  next
    case (Some f)
    have f: "0 \<le> f" "f \<notin> op_of opn (nsys n)" "op_of opn y = insert f (op_of opn (nsys n))"
      using ho Some by (auto simp: hands_over_def)
    show ?thesis
    proof (cases m)
      case None
      have "net_ok os opn intr B (nc\<lparr>nsys := snd (ztk_sockplat_close os f y)\<rparr>)"
        using sys_ok [OF c(1), of "snd (ztk_sockplat_close os f y)"] c(2) f sockplat_close_fds [OF os(1) f(1), of y]
          intr_le_close' [OF os(2) le f(2,1)] by simp
      then show ?thesis using True a r Some None nc by (simp add: ztk_socket_accept_def create_sys)
    next
      case (Some b)
      then obtain sb where sb: "socks nc b = Some sb" "\<not> s_attached sb" "s_fd sb < 0"
        using create_ok [OF ok] nc by auto
      have "net_ok os opn intr B (upd_sock b (\<lambda>s. s\<lparr>s_fd := f, s_type := ZTK_SOCK_TCP_CONNECTED, s_connect_pending := False\<rparr>) (nc\<lparr>nsys := y\<rparr>))"
        using open_ok [OF c(1) sb, of y e fd "\<lambda>f s. s\<lparr>s_fd := f, s_type := ZTK_SOCK_TCP_CONNECTED, s_connect_pending := False\<rparr>"]
          le ho c(2) \<open>fd = Some f\<close> sb(2) by simp
      then show ?thesis using True a r Some \<open>fd = Some f\<close> nc by (simp add: ztk_socket_accept_def create_sys)
    qed
  qed
qed

lemma net_inv_keep:
  assumes "net_ok os opn intr B n" and "op_of opn y = op_of opn (nsys n)" and "in_of intr y = in_of intr (nsys n)"
  shows "net_ok os opn intr B (n\<lparr>nsys := y\<rparr>)"
  using assms by (simp add: net_ok_def)

lemma meta_ok:
  assumes "net_ok os opn intr B n" and "socks n a = Some s" and "s_fd (f s) = s_fd s" "s_attached (f s) = s_attached s"
    "s_attached s \<Longrightarrow> s_poller (f s) = s_poller s \<and> s_poll_events (f s) = s_poll_events s"
  shows "net_ok os opn intr B (upd_sock a f n)"
  using assms(1,2) net_inv_meta [OF net_okD(3) [OF assms(1)] assms(2-5)] by (simp add: net_ok_def upd_sock_def)

lemma check_connect_ok:
  assumes "net_ok os opn intr B n" and "socks n a = Some s"
  shows "\<exists>e n'. ztk_socket_check_connect os (Some a) n = Some (e, n') \<and> net_ok os opn intr B n'"
proof -
  note os = net_okD(1,2) [OF assms(1)]
  let ?y = "snd (ztk_sockplat_check_connect os (s_fd s) (nsys n))"
  have "op_of opn ?y = op_of opn (nsys n)" "in_of intr ?y = in_of intr (nsys n)"
    by (simp_all add: ztk_sockplat_check_connect_def Let_def split_def fd_keep [OF os(1)] in_keep [OF os(2)])
  then have y: "net_ok os opn intr B (n\<lparr>nsys := ?y\<rparr>)" by (rule net_inv_keep [OF assms(1)])
  then show ?thesis
    using assms(2) y meta_ok [OF y, of a s "\<lambda>s. s\<lparr>s_connect_pending := False, s_type := ZTK_SOCK_TCP_CONNECTED\<rparr>"] assms
    by (auto simp: ztk_socket_check_connect_def Let_def split_def)
qed

lemma poller_add_ok:
  assumes ok: "net_ok os opn intr B n" and a: "socks n a = Some s" "\<not> s_attached s" "0 \<le> s_fd s" "s_poller s = Some p"
    and p: "npollers n p = Some e"
  shows "\<exists>err n'. poller_add_at os (Some p) (s_fd s) (s_poll_events s) (Some (Socket_cb a)) n = Some (err, n') \<and>
     socks n' a = Some s \<and>
     (if err = ZTK_OK then net_ok os opn intr B (upd_sock a (\<lambda>s. s\<lparr>s_attached := True\<rparr>) n') else net_ok os opn intr B n')"
proof -
  note inv = net_okD(3) [OF ok] and os = net_okD(1,2) [OF ok]
  let ?m = "if 0 \<le> s_fd s \<and> find_entry e (s_fd s) = None then take_mem n else (None, n)"
  have n1: "nsys (snd ?m) = nsys n" "socks (snd ?m) = socks n" "npollers (snd ?m) = npollers n"
    by (auto simp: take_mem_def split: list.splits)
  let ?r = "ztk_poller_add os (fst ?m \<noteq> None) (Some e) (s_fd s) (s_poll_events s) (Some (Socket_cb a)) (nsys n)"
  obtain err q y where r: "?r = ((err, q), y)" by (metis prod.exhaust)
  have sync: "in_sync (sure os intr) intr e (nsys n)" and kd: "\<forall>fd. in_of intr (nsys n) (epfd e) fd \<noteq> None \<longrightarrow> fd \<in> op_of opn (nsys n)"
    using net_invD(4) [OF inv p] by (auto simp: sync_table)
  have fo: "s_fd s \<in> op_of opn (nsys n)" using net_invD(1) [OF inv] ownedI [of "socks n" a s] a(1,3) by auto
  have uw: "watch e (s_fd s) = None" using unwatched [OF inv a(1-3) p] .
  obtain e' where e': "q = Some e'" "epfd e' = epfd e" "wake_r e' = wake_r e" "table_ok (sure os intr) (op_of opn (nsys n)) (in_of intr y) e'"
      "watch e' = (if err = ZTK_OK then (watch e)(s_fd s \<mapsto> (s_poll_events s, Some (Socket_cb a))) else watch e)"
  proof -
    let ?x = "reg_eff (RegAdd (fst ?m \<noteq> None) (s_fd s) (s_poll_events s) (Some (Socket_cb a))) err (watch e, sure os intr)"
    obtain p' where p': "q = Some p'" "epfd p' = epfd e" "wake_r p' = wake_r e" "fst ?x = watch p'" "in_sync (snd ?x) intr p' y"
        "ctls_ok os intr \<longrightarrow> in_sync (sure os intr) intr p' y \<and> (err = ZTK_OK \<or> watch p' = watch e)"
      using add_sync [OF os(2) sync r] by blast
    have "\<forall>g. in_of intr y (epfd e) g \<noteq> None \<longrightarrow> g \<in> op_of opn (nsys n)"
      using reg_dom(1) [OF os(2), of "fst ?m \<noteq> None" e "s_fd s" "s_poll_events s" "Some (Socket_cb a)" "nsys n"] r kd fo by auto
    then show ?thesis
      using sure_sync [OF p'(5,6)] p'(1-4) uw by (intro that [of p']) (auto simp: sync_table split: if_splits)
  qed
  have fr: "op_of opn y = op_of opn (nsys n)" "\<And>ep. ep \<noteq> epfd e \<Longrightarrow> in_of intr y ep = in_of intr (nsys n) ep"
    using reg_frames(1,2) [OF os, where ok = "fst ?m \<noteq> None" and e = e and fd = "s_fd s" and ev = "s_poll_events s" and
        c = "Some (Socket_cb a)" and s = "nsys n"] r by auto
  have "net_inv (sure os intr) (op_of opn (nsys n)) (in_of intr y) ((socks n)(a \<mapsto> s\<lparr>s_attached := True\<rparr>)) ((npollers n)(p \<mapsto> e')) B"
    if "err = ZTK_OK" using that a e' fr(2) by (intro net_inv_reg [OF inv a(1,3) _ p]) auto
  moreover have "net_inv (sure os intr) (op_of opn (nsys n)) (in_of intr y) (socks n) ((npollers n)(p \<mapsto> e')) B" if "err \<noteq> ZTK_OK"
    using that e' fr(2) by (intro net_inv_table [OF inv p]) auto
  ultimately show ?thesis
    using a p n1 r e'(1) os fr(1)
    by (auto simp: poller_add_at_def Let_def split_def net_ok_def upd_sock_def simp del: if_split)
qed

lemma attach_ok:
  assumes ok: "net_ok os opn intr B n" and a: "socks n a = Some s" and p: "npollers n p \<noteq> None"
  shows "\<exists>err n'. ztk_socket_attach_poller os (Some a) (Some p) cbs user n = Some (err, n') \<and> net_ok os opn intr B n'"
proof (cases "s_fd s < 0")
  case True
  then show ?thesis using ok a by (simp add: ztk_socket_attach_poller_def)
next
  case False
  obtain n1 s1 where n1: "ztk_socket_detach_poller os (Some a) n = Some (ZTK_OK, n1)" "net_ok os opn intr B n1"
      "socks n1 a = Some s1" "\<not> s_attached s1" "s_fd s1 = s_fd s" "frame a n n1"
    using detach_ok [OF ok a] by blast
  let ?f = "\<lambda>s. s\<lparr>s_cb := (case cbs of Some c \<Rightarrow> c | None \<Rightarrow> no_cbs), s_user := user,
      s_poller := Some p, s_poll_events := default_poll_events s\<rparr>"
  have n2: "net_ok os opn intr B (upd_sock a ?f n1)" using n1(3,4) by (intro meta_ok [OF n1(2,3)]) simp_all
  obtain e where e: "npollers (upd_sock a ?f n1) p = Some e" using p n1(6) by (auto simp: frame_def upd_sock_def)
  have s2: "socks (upd_sock a ?f n1) a = Some (?f s1)" using n1(3) by (simp add: upd_sock_def)
  obtain err n3 where "poller_add_at os (Some p) (s_fd s1) (default_poll_events s1) (Some (Socket_cb a)) (upd_sock a ?f n1) = Some (err, n3)"
      "if err = ZTK_OK then net_ok os opn intr B (upd_sock a (\<lambda>s. s\<lparr>s_attached := True\<rparr>) n3) else net_ok os opn intr B n3"
    using poller_add_ok [OF n2 s2 _ _ _ e] n1(4,5) False by auto
  then show ?thesis using a n1(1) s2 False by (simp add: ztk_socket_attach_poller_def split: if_splits)
qed

lemma mod_events_ok:
  assumes ok: "net_ok os opn intr B n" and a: "socks n a = Some s"
  shows "\<exists>err n'. ztk_socket_mod_events os (Some a) events n = Some (err, n') \<and> net_ok os opn intr B n'"
proof (cases "s_attached s")
  case False
  then show ?thesis using ok a by (simp add: ztk_socket_mod_events_def)
next
  case True
  note inv = net_okD(3) [OF ok] and os = net_okD(1,2) [OF ok]
  obtain p e where pe: "s_poller s = Some p" "npollers n p = Some e" "0 \<le> s_fd s"
      "watch e (s_fd s) = Some (s_poll_events s, Some (Socket_cb a))"
    using net_invD(7) [OF inv a True] by (auto simp: registered_def)
  let ?r = "ztk_poller_mod os (Some e) (s_fd s) events (nsys n)"
  have sync: "in_sync (sure os intr) intr e (nsys n)" and kd: "\<forall>fd. in_of intr (nsys n) (epfd e) fd \<noteq> None \<longrightarrow> fd \<in> op_of opn (nsys n)"
    using net_invD(4) [OF inv pe(2)] by (auto simp: sync_table)
  obtain err where r: "?r = ((err, snd (fst ?r)), snd ?r)" by (metis prod.collapse)
  have er: "err = ZTK_OK \<or> err = ZTK_ERR_PLATFORM"
    using r pe(4) by (auto simp: ztk_poller_mod_def find_watch epoll_ctl_wrap_def Let_def split_def split: if_splits)
  obtain e' where e': "snd (fst ?r) = Some e'" "epfd e' = epfd e" "wake_r e' = wake_r e"
      "table_ok (sure os intr) (op_of opn (nsys n)) (in_of intr (snd ?r)) e'"
      "watch e' = (watch e)(s_fd s \<mapsto> (events, Some (Socket_cb a)))"
  proof -
    let ?x = "reg_eff (RegMod (s_fd s) events) err (watch e, sure os intr)"
    obtain p' where p': "snd (fst ?r) = Some p'" "epfd p' = epfd e" "wake_r p' = wake_r e" "fst ?x = watch p'"
        "in_sync (snd ?x) intr p' (snd ?r)"
        "ctls_ok os intr \<longrightarrow> in_sync (sure os intr) intr p' (snd ?r) \<and> (err = ZTK_OK \<or> watch p' = watch e)"
      using mod_sync [OF os(2) sync r] by blast
    show ?thesis
      using sure_sync [OF p'(5,6)] p'(1-4) er pe(4) kd reg_dom(2) [OF os(2), of e "s_fd s" events "nsys n"]
      by (intro that [of p']) (auto simp: sync_table split: if_splits)
  qed
  have "net_inv (sure os intr) (op_of opn (nsys n)) (in_of intr (snd ?r)) ((socks n)(a \<mapsto> s\<lparr>s_poll_events := events\<rparr>)) ((npollers n)(p \<mapsto> e')) B"
    using e' pe True reg_frames(4) [OF os] by (intro net_inv_reg [OF inv a pe(3) _ pe(2)]) auto
  then have "net_ok os opn intr B ((upd_sock a (\<lambda>s. s\<lparr>s_poll_events := events\<rparr>) n)\<lparr>npollers := (npollers n)(p \<mapsto> e'), nsys := snd ?r\<rparr>)"
    using os a reg_frames(3) [OF os, of e "s_fd s" events "nsys n"] by (simp add: net_ok_def upd_sock_def)
  moreover have "fst (fst ?r) = err" using r by (metis fst_conv)
  ultimately show ?thesis using a True pe e'(1)
    by (simp add: ztk_socket_mod_events_def poller_mod_at_def Let_def split_def upd_sock_def)
qed

lemma upd_sock_idem: "socks m a = Some t \<Longrightarrow> f t = t \<Longrightarrow> upd_sock a f m = m"
  by (cases m) (simp add: upd_sock_def fun_upd_idem)

section \<open>Sequences of socket operations\<close>

datatype 'k sock_op =
    OpCreate
  | OpDestroy nat
  | OpListen nat "string option" u16 int
  | OpBindUdp nat "string option" u16 bool bool
  | OpConnect nat "string option" u16
  | OpCheckConnect nat
  | OpAccept nat
  | OpAttach nat nat "'k socket_cbs option" "nat option"
  | OpDetach nat
  | OpModEvents nat u32

text \<open>The caller's part of the contract: pointers to live sockets and pollers.\<close>

fun sock_op_ok :: "'k sock_op \<Rightarrow> ('k, 'w, 'z) net_scheme \<Rightarrow> bool" where
  "sock_op_ok OpCreate n \<longleftrightarrow> True"
| "sock_op_ok (OpDestroy a) n \<longleftrightarrow> socks n a \<noteq> None"
| "sock_op_ok (OpListen a _ _ _) n \<longleftrightarrow> socks n a \<noteq> None"
| "sock_op_ok (OpBindUdp a _ _ _ _) n \<longleftrightarrow> socks n a \<noteq> None"
| "sock_op_ok (OpConnect a _ _) n \<longleftrightarrow> socks n a \<noteq> None"
| "sock_op_ok (OpCheckConnect a) n \<longleftrightarrow> socks n a \<noteq> None"
| "sock_op_ok (OpAccept a) n \<longleftrightarrow> socks n a \<noteq> None"
| "sock_op_ok (OpAttach a p _ _) n \<longleftrightarrow> socks n a \<noteq> None \<and> npollers n p \<noteq> None"
| "sock_op_ok (OpDetach a) n \<longleftrightarrow> socks n a \<noteq> None"
| "sock_op_ok (OpModEvents a _) n \<longleftrightarrow> socks n a \<noteq> None"

fun sock_step :: "'w os \<Rightarrow> 'k sock_op \<Rightarrow> ('k, 'w, 'z) net_scheme \<Rightarrow> ('k, 'w, 'z) net_scheme option" where
  "sock_step os OpCreate n = Some (snd (ztk_socket_create n))"
| "sock_step os (OpDestroy a) n = ztk_socket_destroy os (Some a) n"
| "sock_step os (OpListen a h p b) n = map_option snd (ztk_socket_listen os (Some a) h p b n)"
| "sock_step os (OpBindUdp a h p ra rp) n = map_option snd (ztk_socket_bind_udp_ex os (Some a) h p ra rp n)"
| "sock_step os (OpConnect a h p) n = map_option snd (ztk_socket_connect os (Some a) h p n)"
| "sock_step os (OpCheckConnect a) n = map_option snd (ztk_socket_check_connect os (Some a) n)"
| "sock_step os (OpAccept a) n = map_option snd (ztk_socket_accept os (Some a) n)"
| "sock_step os (OpAttach a p c u) n = map_option snd (ztk_socket_attach_poller os (Some a) (Some p) c u n)"
| "sock_step os (OpDetach a) n = map_option snd (ztk_socket_detach_poller os (Some a) n)"
| "sock_step os (OpModEvents a ev) n = map_option snd (ztk_socket_mod_events os (Some a) ev n)"

inductive sock_reach :: "'w os \<Rightarrow> ('k, 'w, 'z) net_scheme \<Rightarrow> ('k, 'w, 'z) net_scheme \<Rightarrow> bool" for os n0 where
  reach_start: "sock_reach os n0 n0"
| reach_step: "sock_reach os n0 n \<Longrightarrow> sock_op_ok x n \<Longrightarrow> sock_step os x n = Some n' \<Longrightarrow> sock_reach os n0 n'"

lemma sock_step_ok:
  assumes "net_ok os opn intr B n" and "sock_op_ok x n"
  shows "\<exists>n'. sock_step os x n = Some n' \<and> net_ok os opn intr B n'"
proof (cases x)
  case OpCreate
  then show ?thesis using create_ok [OF assms(1)] by simp
next
  case (OpDestroy a)
  then show ?thesis using assms destroy_ok [OF assms(1), of a] by auto
next
  case (OpListen a h p b)
  then show ?thesis using assms listen_ok [OF assms(1), of a _ h p b] by fastforce
next
  case (OpBindUdp a h p ra rp)
  then show ?thesis using assms bind_udp_ok [OF assms(1), of a _ h p ra rp] by fastforce
next
  case (OpConnect a h p)
  then show ?thesis using assms connect_ok [OF assms(1), of a _ h p] by fastforce
next
  case (OpCheckConnect a)
  then show ?thesis using assms check_connect_ok [OF assms(1), of a] by fastforce
next
  case (OpAccept a)
  then show ?thesis using assms accept_ok [OF assms(1), of a] by fastforce
next
  case (OpAttach a p c u)
  then show ?thesis using assms attach_ok [OF assms(1), of a _ p c u] by fastforce
next
  case (OpDetach a)
  then show ?thesis using assms detach_ok [OF assms(1), of a] by fastforce
next
  case (OpModEvents a ev)
  then show ?thesis using assms mod_events_ok [OF assms(1), of a _ ev] by fastforce
qed

lemma sock_reach_ok:
  "sock_reach os n0 n \<Longrightarrow> net_ok os opn intr B n0 \<Longrightarrow> net_ok os opn intr B n"
  by (induction rule: sock_reach.induct) (auto dest: sock_step_ok)

section \<open>A sample network\<close>

lemma opens_fst:
  "opens (f \<circ> fst) w w' fd = opens f (fst w) (fst w') fd" "opens_two (f \<circ> fst) w w' r = opens_two f (fst w) (fst w') r"
  by (simp_all add: opens_def opens_two_def)

lemma ep_fds_ok: "fds_ok ep_os (set \<circ> k_open \<circ> fst)"
  unfolding fds_ok_def split_def
proof (intro allI)
  fix c and wm :: "kern \<times> (int \<Rightarrow> int \<rightharpoonup> u32)"
  have "fd_effect (set \<circ> k_open) c (fst wm) (fst (k_os c (fst wm))) (snd (k_os c (fst wm)))"
    using k_fds_ok by (simp add: fds_ok_def split_def)
  then show "fd_effect (set \<circ> k_open \<circ> fst) c wm (fst (ep_os c wm)) (snd (ep_os c wm))"
    by (cases c) (simp_all add: fd_effect_def ep_os_def Let_def split_def opens_fst)
qed

definition net0 :: "(nat, kern \<times> (int \<Rightarrow> int \<rightharpoonup> u32)) net" where
  "net0 = \<lparr>nsys = \<lparr>errno = E_NONE, world = (\<lparr>k_open = [5, 4, 3], k_wire = (\<lambda>_. []), k_script = [1], k_in = []\<rparr>, \<lambda>_. Map.empty)\<rparr>,
     socks = Map.empty, npollers = [1 \<mapsto> \<lparr>epfd = 3, wake_r = 4, wake_w = 5, entries = []\<rparr>], sockplat_inited = False, nmem = [Some 11, Some 12, Some 13]\<rparr>"

lemma net0_ok: "net_ok ep_os (set \<circ> k_open \<circ> fst) snd {3, 4, 5} net0"
  by (auto simp: net_ok_def ep_fds_ok ep_epoll_ok net_inv_def net0_def owned_def table_ok_def agree_at_def watch_def
      entry_ok_def split: if_splits)

section \<open>Properties\<close>

text \<open>
  C3. Descriptor ownership and registration stay consistent under every sequence of socket operations
  (create, destroy, listen, bind, connect, check, accept, attach, detach, change of events) on live
  sockets and pollers, whatever the allocator and the kernel answer, failures of \<^verbatim>\<open>epoll_ctl\<close> included: every open descriptor belongs to
  exactly one socket or to the rest of the process, so none leaks and none is closed twice; every
  callback in a poller's table belongs to a live socket attached there with that descriptor, so no
  callback dangles; the kernel watches every descriptor of a poller's table and only open descriptors. No such operation ever
  runs into undefined behaviour. The event sets the kernel has are those of the tables on all descriptors (\<open>sure\<close> is everything)
  provided that \<^verbatim>\<open>epoll_ctl\<close> does not fail to modify or delete what is registered (\<open>ctls_ok\<close>); when it may
  fail, all the rest still holds, and only the event sets can differ (\<open>sure\<close> is empty).
\<close>

theorem socket_descriptors_safe:
  assumes "net_ok os opn intr B n0" and "sock_reach os n0 n"
  shows "net_ok os opn intr B n \<and> (\<forall>x. sock_op_ok x n \<longrightarrow> sock_step os x n \<noteq> None)"
  using sock_reach_ok [OF assms(2,1)] sock_step_ok by fastforce

theorem socket_descriptors_safe_witness:
  "\<exists>n. sock_reach ep_os net0 n \<and> map_option s_fd (socks n 11) = Some 6 \<and>
     net_ok ep_os (set \<circ> k_open \<circ> fst) snd {3, 4, 5} n"
proof -
  let ?n1 = "snd (ztk_socket_create net0)"
  have r1: "sock_reach ep_os net0 ?n1" by (rule reach_step [OF reach_start, of OpCreate]) simp_all
  have c: "socks ?n1 11 \<noteq> None" by (simp add: net0_def ztk_socket_create_def take_mem_def)
  obtain n2 where n2: "sock_step ep_os (OpListen 11 None 80 0) ?n1 = Some n2" "map_option s_fd (socks n2 11) = Some 6"
    by (simp add: net0_def ztk_socket_create_def take_mem_def ztk_socket_listen_def ensure_sockplat_def
        ztk_sockplat_init_def reset_sock_def ztk_socket_detach_poller_def close_fd_def ztk_sockplat_listen_def
        bind_and_listen_def resolve_bind_def sysc_def ep_os_def k_os_def k_res_def k_open_one_def k_new_def
        ztk_sockplat_apply_tcp_server_opts_def set_nonblock_def set_cloexec_def set_reuseaddr_def set_opt_def
        upd_sock_def Let_def)
  have "sock_reach ep_os net0 n2" using reach_step [OF r1 _ n2(1)] c by simp
  then show ?thesis using socket_descriptors_safe [OF net0_ok] n2(2) by blast
qed

text \<open>
  C21. A pending connection is settled by the first writable event. If the kernel reports the
  connection established, the socket becomes connected, its event set no longer has writability, it stays
  registered and consistent (with the kernel's event set equal to it, unless the kernel may fail to
  modify a registration), and the writable callback is what runs next; if the check gives any
  other answer, including \<^verbatim>\<open>ZTK_ERR_AGAIN\<close>, the error callback runs and nothing else.
\<close>

theorem connect_completion:
  assumes "net_ok os opn intr B n" and "socks n a = Some s" and "s_attached s" and "s_connect_pending s"
    and "events AND (ZTK_POLL_ERR OR ZTK_POLL_HUP) = 0" and "events AND ZTK_POLL_OUT \<noteq> 0" and "events AND ZTK_POLL_IN = 0"
  shows "\<exists>e m. ztk_socket_check_connect os (Some a) n = Some (e, m) \<and>
     (if e = ZTK_OK then \<exists>n1 s1. socket_poller_cb os call (s_fd s) events (Some a) n = fire call on_writable a n1 \<and>
         net_ok os opn intr B n1 \<and> socks n1 a = Some s1 \<and> s_type s1 = ZTK_SOCK_TCP_CONNECTED \<and> \<not> s_connect_pending s1 \<and>
         s_attached s1 \<and> s_poll_events s1 = ZTK_POLL_IN OR ZTK_POLL_ERR OR ZTK_POLL_HUP
      else on_error (s_cb s) \<noteq> None \<longrightarrow>
         socket_poller_cb os call (s_fd s) events (Some a) n = fire call on_error a m)"
proof -
  obtain e m where em: "ztk_socket_check_connect os (Some a) n = Some (e, m)" "net_ok os opn intr B m"
    using check_connect_ok [OF assms(1,2)] by blast
  have fd: "0 \<le> s_fd s" using net_invD(7) [OF net_okD(3) [OF assms(1)] assms(2,3)] by (simp add: registered_def)
  have sm: "socks m a = Some (if e = ZTK_OK then s\<lparr>s_connect_pending := False, s_type := ZTK_SOCK_TCP_CONNECTED\<rparr> else s)"
    using em(1) assms(2,4) fd by (auto simp: ztk_socket_check_connect_def upd_sock_def Let_def split_def split: if_splits)
  show ?thesis
  proof (cases "e = ZTK_OK")
    case True
    let ?t = "s\<lparr>s_connect_pending := False, s_type := ZTK_SOCK_TCP_CONNECTED\<rparr>"
    have m: "socks m a = Some ?t" "upd_sock a (\<lambda>s. s\<lparr>s_connect_pending := False, s_type := ZTK_SOCK_TCP_CONNECTED\<rparr>) m = m"
      using sm True by (simp_all add: upd_sock_idem)
    obtain e2 n1 where n1: "ztk_socket_mod_events os (Some a) (default_poll_events ?t) m = Some (e2, n1)" "net_ok os opn intr B n1"
      using mod_events_ok [OF em(2) m(1)] by blast
    have "socks n1 a = Some (?t\<lparr>s_poll_events := default_poll_events ?t\<rparr>)"
      using n1(1) m(1) assms(3) net_invD(7) [OF net_okD(3) [OF em(2)] m(1)]
      by (auto simp: ztk_socket_mod_events_def poller_mod_at_def upd_sock_def registered_def Let_def split_def)
    moreover have "socket_poller_cb os call (s_fd s) events (Some a) n = fire call on_writable a n1"
      using assms(2-7) em(1) True m n1(1) by (simp add: socket_poller_cb_def)
    ultimately show ?thesis using em(1) True n1(2) assms(3) by (auto simp: default_poll_events_def)
  next
    case False
    then show ?thesis using assms(2-7) em(1)
      by (cases "fire call on_error a m") (auto simp: socket_poller_cb_def)
  qed
qed

definition net1 :: "(nat, kern \<times> (int \<Rightarrow> int \<rightharpoonup> u32)) net" where
  "net1 = net0\<lparr>nsys := \<lparr>errno = E_NONE, world = (\<lparr>k_open = [6, 5, 4, 3], k_wire = (\<lambda>_. []), k_script = [], k_in = []\<rparr>,
        (\<lambda>_. Map.empty)(3 := [6 \<mapsto> to_epoll 15]))\<rparr>,
     socks := [11 \<mapsto> \<lparr>s_fd = 6, s_type = ZTK_SOCK_TCP_CLIENT, s_poller = Some 1, s_cb = no_cbs, s_user = None,
        s_poll_events = 15, s_attached = True, s_connect_pending = True\<rparr>],
     npollers := [1 \<mapsto> \<lparr>epfd = 3, wake_r = 4, wake_w = 5,
        entries = [\<lparr>efd = 6, eevents = 15, ecb = Some (Socket_cb 11)\<rparr>]\<rparr>]\<rparr>"

lemma net1_ok: "net_ok ep_os (set \<circ> k_open \<circ> fst) snd {3, 4, 5} net1"
proof -
  have "owned [11 \<mapsto> s] = own1 (Some s)" for s :: "nat ztk_socket"
    using owned_upd [of Map.empty 11 "Some s"] by (simp add: others_def)
  then show ?thesis
    by (auto simp: net_ok_def ep_fds_ok ep_epoll_ok net_inv_def net1_def net0_def own1_def table_ok_def agree_at_def watch_def
        entry_ok_def registered_def split: if_splits)
qed

theorem connect_completion_witness:
  "net_ok ep_os (set \<circ> k_open \<circ> fst) snd {3, 4, 5} net1 \<and>
   (\<exists>n1 s1. socket_poller_cb ep_os (\<lambda>_ _ _. Some) 6 ZTK_POLL_OUT (Some 11) net1 = fire (\<lambda>_ _ _. Some) on_writable 11 n1 \<and>
     socks n1 11 = Some s1 \<and> s_type s1 = ZTK_SOCK_TCP_CONNECTED \<and> s_poll_events s1 = 13)"
proof -
  obtain s where s: "socks net1 11 = Some s" "s_attached s" "s_connect_pending s" "s_fd s = 6" by (simp add: net1_def)
  have c: "map_option fst (ztk_socket_check_connect ep_os (Some 11) net1) = Some ZTK_OK"
    by (simp add: net1_def net0_def ztk_socket_check_connect_def ztk_sockplat_check_connect_def sysc_def ep_os_def
        k_os_def k_res_def Let_def)
  have ev: "ZTK_POLL_OUT AND (ZTK_POLL_ERR OR ZTK_POLL_HUP) = 0" "ZTK_POLL_OUT AND ZTK_POLL_OUT \<noteq> 0"
      "ZTK_POLL_OUT AND ZTK_POLL_IN = 0" "ZTK_POLL_IN OR ZTK_POLL_ERR OR ZTK_POLL_HUP = 13"
    by (simp_all add: poll_bits)
  show ?thesis
    using connect_completion [OF net1_ok s(1-3) ev(1-3), of "\<lambda>_ _ _. Some"] c s(4) ev(4) net1_ok
    by (auto simp del: not_None_eq) blast
qed

end
