(* ===== verification/Poller_Pool.thy ===== *)
theory Poller_Pool
  imports Poller_Epoll Buf
begin

text \<open>
  The pool of pollers, \<^verbatim>\<open>src/poller/poller_pool.c\<close>: one poller and one worker thread per slot, and
  the choice of a poller by load, by key or by current thread. Pollers live at addresses; what
  buffers see of a poller (its task queue of deferred releases and its local pool) is kept in the
  buffer heap under the same address. \<open>pw_threads\<close> holds the worker threads that run, with the slot
  each serves; a thread that was asked to stop ends when it is joined. Outcomes of allocations and
  of thread creation, and readings of the clock, are arguments.
\<close>

section \<open>State\<close>

record pool_slot =
  sl_poller :: "nat option"
  sl_thread :: "nat option"
  sl_stop :: bool
  sl_buf_pool :: "nat option"

record ztk_poller_pool =
  pl_slots :: "pool_slot list option"
  pl_count :: u32
  pl_thread_pos :: u32
  pl_prefer_current :: bool
  pl_started :: bool
  pl_priority :: int
  pl_mtx :: bool

record pool_opts =
  po_size :: u32
  po_prefer_current :: bool
  po_priority :: int

record ('c, 'u, 'e, 'w) pworld =
  pw_sys :: "'w sys"
  pw_pollers :: "nat \<rightharpoonup> ('c, 'u, 'e, 'w) epoller"
  pw_heap :: bheap
  pw_threads :: "nat \<rightharpoonup> nat"

text \<open>Outcomes of the allocations inside one \<^verbatim>\<open>ztk_poller_create\<close>.\<close>

record mk_poller =
  mk_addr :: "nat option"
  mk_entry :: bool
  mk_task_mtx :: bool
  mk_timer_mtx :: bool
  mk_load_mtx :: bool
  mk_now :: u64

definition slots_of :: "ztk_poller_pool \<Rightarrow> pool_slot list" where
  "slots_of pool = (case pl_slots pool of None \<Rightarrow> [] | Some sl \<Rightarrow> sl)"

definition slot_poller :: "ztk_poller_pool \<Rightarrow> nat \<Rightarrow> nat option" where
  "slot_poller pool i = (if i < length (slots_of pool) then sl_poller (slots_of pool ! i) else None)"

definition upd_slot :: "nat \<Rightarrow> (pool_slot \<Rightarrow> pool_slot) \<Rightarrow> ztk_poller_pool \<Rightarrow> ztk_poller_pool" where
  "upd_slot i f pool = pool\<lparr>pl_slots := map_option (\<lambda>sl. sl[i := f (sl ! i)]) (pl_slots pool)\<rparr>"

section \<open>Life cycle\<close>

text \<open>The body of a worker thread: it runs the poller of its slot; \<open>turns\<close> tells when the slot's stop flag is seen.\<close>

definition pool_worker ::
    "'w os \<Rightarrow> ('c, 'u, 'e, 'w, unit) task_run \<Rightarrow> ('c, 'u, 'e, 'w, unit) timer_run \<Rightarrow> ('c, 'u, 'e, 'w, unit) fd_run \<Rightarrow>
     u64 \<Rightarrow> turn list \<Rightarrow> pool_slot \<Rightarrow> ('c, 'u, 'e, 'w) pworld \<Rightarrow> ('c, 'u, 'e, 'w) pworld option" where
  "pool_worker os run cbs ecbs self turns slot w =
     (let p = Option.bind (sl_poller slot) (pw_pollers w)
      in case ztk_poller_run os run cbs ecbs self turns (map_option (\<lambda>q. q\<lparr>psys := pw_sys w\<rparr>) p) of
           None \<Rightarrow> None
         | Some None \<Rightarrow> Some w
         | Some (Some q) \<Rightarrow> Some (w\<lparr>pw_sys := psys q, pw_pollers := (pw_pollers w)(the (sl_poller slot) \<mapsto> q)\<rparr>))"

definition ztk_poller_pool_stop ::
    "ztk_poller_pool \<Rightarrow> ('c, 'u, 'e, 'w) pworld \<Rightarrow> ztk_poller_pool \<times> ('c, 'u, 'e, 'w) pworld" where
  "ztk_poller_pool_stop pool w =
     (if \<not> pl_started pool then (pool, w)
      else let ths = List.map_filter sl_thread (slots_of pool);
               sl = map (\<lambda>s. s\<lparr>sl_stop := True, sl_thread := None\<rparr>) (slots_of pool)
           in (pool\<lparr>pl_slots := Some sl, pl_started := False\<rparr>,
               w\<lparr>pw_threads := pw_threads w |` (- set ths)\<rparr>))"

fun detach_loop :: "pool_slot list \<Rightarrow> bheap \<Rightarrow> (pool_slot list \<times> bheap) option" where
  "detach_loop [] h = Some ([], h)"
| "detach_loop (s # ss) h = do {
     h1 \<leftarrow> (if sl_poller s \<noteq> None then ztk_poller_attach_buf_pool (sl_poller s) None h else Some h);
     (s1, h2) \<leftarrow> (if sl_buf_pool s \<noteq> None
                  then map_option (Pair (s\<lparr>sl_buf_pool := None\<rparr>)) (ztk_buf_pool_destroy (sl_buf_pool s) h1)
                  else Some (s, h1));
     (ss1, h3) \<leftarrow> detach_loop ss h2;
     Some (s1 # ss1, h3)
   }"

definition ztk_poller_pool_detach_buf_pools ::
    "ztk_poller_pool \<Rightarrow> bheap \<Rightarrow> (ztk_poller_pool \<times> bheap) option" where
  "ztk_poller_pool_detach_buf_pools pool h =
     (case pl_slots pool of None \<Rightarrow> Some (pool, h)
      | Some sl \<Rightarrow> map_option (\<lambda>(sl1, h1). (pool\<lparr>pl_slots := Some sl1\<rparr>, h1)) (detach_loop sl h))"

text \<open>Destroying the pollers of the slots in turn; the task runner is that of the pollers.\<close>

fun destroy_loop ::
    "'w os \<Rightarrow> ('c, 'u, 'e, 'w, unit) task_run \<Rightarrow> pool_slot list \<Rightarrow> ('c, 'u, 'e, 'w) pworld \<Rightarrow>
     ('c, 'u, 'e, 'w) pworld option" where
  "destroy_loop os run [] w = Some w"
| "destroy_loop os run (s # ss) w =
     (case sl_poller s of None \<Rightarrow> destroy_loop os run ss w
      | Some a \<Rightarrow>
         (case pw_pollers w a of None \<Rightarrow> None
          | Some p \<Rightarrow>
             (case ztk_poller_destroy os run (p\<lparr>psys := pw_sys w\<rparr>) of None \<Rightarrow> None
              | Some y \<Rightarrow> destroy_loop os run ss (w\<lparr>pw_sys := y, pw_pollers := (pw_pollers w)(a := None),
                    pw_heap := (pw_heap w)\<lparr>pollers := (pollers (pw_heap w))(a := None)\<rparr>\<rparr>))))"

definition ztk_poller_pool_destroy ::
    "'w os \<Rightarrow> ('c, 'u, 'e, 'w, unit) task_run \<Rightarrow> ztk_poller_pool option \<Rightarrow> ('c, 'u, 'e, 'w) pworld \<Rightarrow>
     ('c, 'u, 'e, 'w) pworld option" where
  "ztk_poller_pool_destroy os run pool w =
     (case pool of None \<Rightarrow> Some w
      | Some pl \<Rightarrow> do {
          let (pl1, w1) = ztk_poller_pool_stop pl w;
          (pl2, h) \<leftarrow> ztk_poller_pool_detach_buf_pools pl1 (pw_heap w1);
          destroy_loop os run (slots_of pl2) (w1\<lparr>pw_heap := h\<rparr>)
        })"

text \<open>One \<^verbatim>\<open>ztk_poller_create\<close> at a fresh address.\<close>

definition new_poller ::
    "'w os \<Rightarrow> mk_poller \<Rightarrow> ('c, 'u, 'e, 'w) pworld \<Rightarrow> (nat option \<times> ('c, 'u, 'e, 'w) pworld) option" where
  "new_poller os mk w =
     (case fresh_or_null (mk_addr mk) (pw_pollers w) of None \<Rightarrow> Some (None, w)
      | Some a \<Rightarrow> do {
          (p, y) \<leftarrow> ztk_poller_create os True (mk_entry mk) (mk_task_mtx mk) (mk_timer_mtx mk) (mk_load_mtx mk) (mk_now mk) (pw_sys w);
          let w1 = w\<lparr>pw_sys := y\<rparr>;
          (case p of None \<Rightarrow> Some (None, w1)
           | Some q \<Rightarrow> Some (Some a, w1\<lparr>pw_pollers := (pw_pollers w1)(a \<mapsto> q),
               pw_heap := (pw_heap w1)\<lparr>pollers := (pollers (pw_heap w1))(a \<mapsto>
                 \<lparr>task_mtx = task_mtx q, task_q = lq_empty, owner_thread = 0, buf_pool = None\<rparr>)\<rparr>\<rparr>))
        })"

fun create_loop ::
    "'w os \<Rightarrow> (nat \<Rightarrow> mk_poller) \<Rightarrow> nat list \<Rightarrow> ztk_poller_pool \<Rightarrow> ('c, 'u, 'e, 'w) pworld \<Rightarrow>
     (bool \<times> ztk_poller_pool \<times> ('c, 'u, 'e, 'w) pworld) option" where
  "create_loop os mk [] pool w = Some (True, pool, w)"
| "create_loop os mk (i # is) pool w = do {
     (p, w1) \<leftarrow> new_poller os (mk i) w;
     let pool1 = upd_slot i (\<lambda>s. s\<lparr>sl_poller := p\<rparr>) pool;
     if p = None then Some (False, pool1, w1) else create_loop os mk is pool1 w1
   }"

definition no_slot :: pool_slot where
  "no_slot = \<lparr>sl_poller = None, sl_thread = None, sl_stop = False, sl_buf_pool = None\<rparr>"

definition ztk_poller_pool_create ::
    "'w os \<Rightarrow> ('c, 'u, 'e, 'w, unit) task_run \<Rightarrow> u32 \<Rightarrow> bool \<Rightarrow> bool \<Rightarrow> bool \<Rightarrow> (nat \<Rightarrow> mk_poller) \<Rightarrow> pool_opts option \<Rightarrow>
     ('c, 'u, 'e, 'w) pworld \<Rightarrow> (ztk_poller_pool option \<times> ('c, 'u, 'e, 'w) pworld) option" where
  "ztk_poller_pool_create os run hw calloc_pool mutex_ok calloc_slots mk opts w =
     (let n = (case opts of Some po \<Rightarrow> if po_size po \<noteq> 0 then po_size po else hw | None \<Rightarrow> hw);
          n = (if n < 1 then 1 else n);
          pool = \<lparr>pl_slots = None, pl_count = 0, pl_thread_pos = 0, pl_prefer_current = False, pl_started = False,
                  pl_priority = 0, pl_mtx = mutex_ok\<rparr>;
          drop = (\<lambda>pl w. map_option (Pair None) (ztk_poller_pool_destroy os run (Some pl) w))
      in if \<not> calloc_pool then Some (None, w)
         else if \<not> mutex_ok then Some (None, w)
         else if \<not> calloc_slots then drop pool w
         else do {
           let pool1 = pool\<lparr>pl_slots := Some (replicate (unat n) no_slot), pl_count := n,
                 pl_prefer_current := (case opts of Some po \<Rightarrow> po_prefer_current po | None \<Rightarrow> False),
                 pl_priority := (case opts of Some po \<Rightarrow> po_priority po | None \<Rightarrow> 0)\<rparr>;
           (ok, pool2, w2) \<leftarrow> create_loop os mk [0..<unat n] pool1 w;
           if ok then Some (Some pool2, w2) else drop pool2 w2
         })"

text \<open>\<open>mk_thread i\<close> is the thread handle \<^verbatim>\<open>ztk_thread_create_ex\<close> returned for slot \<open>i\<close>.\<close>

fun start_loop ::
    "(nat \<Rightarrow> nat option) \<Rightarrow> nat list \<Rightarrow> ztk_poller_pool \<Rightarrow> ('c, 'u, 'e, 'w) pworld \<Rightarrow>
     bool \<times> ztk_poller_pool \<times> ('c, 'u, 'e, 'w) pworld" where
  "start_loop mk_thread [] pool w = (True, pool, w)"
| "start_loop mk_thread (i # is) pool w =
     (let t = fresh_or_null (mk_thread i) (pw_threads w);
          pool1 = upd_slot i (\<lambda>s. s\<lparr>sl_stop := False, sl_thread := t\<rparr>) pool
      in case t of None \<Rightarrow> (False, pool1, w)
         | Some a \<Rightarrow> start_loop mk_thread is pool1 (w\<lparr>pw_threads := (pw_threads w)(a \<mapsto> i)\<rparr>))"

definition ztk_poller_pool_start ::
    "(nat \<Rightarrow> nat option) \<Rightarrow> ztk_poller_pool option \<Rightarrow> ('c, 'u, 'e, 'w) pworld \<Rightarrow>
     ztk_err \<times> ztk_poller_pool option \<times> ('c, 'u, 'e, 'w) pworld" where
  "ztk_poller_pool_start mk_thread pool w =
     (case pool of None \<Rightarrow> (ZTK_ERR_INVALID, None, w)
      | Some pl \<Rightarrow>
        if pl_started pl then (ZTK_OK, pool, w)
        else (case start_loop mk_thread [0..<unat (pl_count pl)] pl w of
                (True, pl1, w1) \<Rightarrow> (ZTK_OK, Some (pl1\<lparr>pl_started := True\<rparr>), w1)
              | (False, pl1, w1) \<Rightarrow>
                  let (pl2, w2) = ztk_poller_pool_stop pl1 w1 in (ZTK_ERR_PLATFORM, Some pl2, w2)))"

section \<open>Selection\<close>

definition ztk_poller_pool_size :: "ztk_poller_pool option \<Rightarrow> u32" where
  "ztk_poller_pool_size pool = (case pool of None \<Rightarrow> 0 | Some pl \<Rightarrow> pl_count pl)"

definition ztk_poller_pool_at :: "ztk_poller_pool option \<Rightarrow> u32 \<Rightarrow> nat option" where
  "ztk_poller_pool_at pool index =
     (case pool of None \<Rightarrow> None
      | Some pl \<Rightarrow> if pl_count pl \<le> index then None else slot_poller pl (unat index))"

definition ztk_poller_pool_get_first :: "ztk_poller_pool option \<Rightarrow> nat option" where
  "ztk_poller_pool_get_first pool = ztk_poller_pool_at pool 0"

text \<open>\<open>owners\<close> gives the owning thread of each poller, as \<^verbatim>\<open>ztk_poller_is_current_thread\<close> reads it.\<close>

definition find_current_poller :: "u64 \<Rightarrow> (nat \<rightharpoonup> u64) \<Rightarrow> ztk_poller_pool \<Rightarrow> nat option" where
  "find_current_poller self owners pool =
     (let is_current = (\<lambda>i. case slot_poller pool i of None \<Rightarrow> False
            | Some a \<Rightarrow> (case owners a of None \<Rightarrow> False | Some t \<Rightarrow> if t = 0 then False else t = self))
      in case find is_current [0..<unat (pl_count pool)] of None \<Rightarrow> None | Some i \<Rightarrow> slot_poller pool i)"

definition ztk_hash_u64 :: "u64 \<Rightarrow> u64" where
  "ztk_hash_u64 x =
     (let x = x XOR drop_bit 33 x;
          x = x * 0xff51afd7ed558ccd;
          x = x XOR drop_bit 33 x;
          x = x * 0xc4ceb9fe1a85ec53;
          x = x XOR drop_bit 33 x
      in x)"

definition ztk_poller_pool_get_by_key :: "ztk_poller_pool option \<Rightarrow> u64 \<Rightarrow> nat option" where
  "ztk_poller_pool_get_by_key pool key =
     (case pool of None \<Rightarrow> None
      | Some pl \<Rightarrow>
        if pl_count pl = 0 then None
        else let idx = (ucast (ztk_hash_u64 key mod ucast (pl_count pl)) :: u32) in slot_poller pl (unat idx))"

text \<open>
  The load of a poller at one reading of the clock; reading it updates the poller's counters. No
  poller (a \<^verbatim>\<open>NULL\<close> slot) has load 0.
\<close>

definition load_at :: "u64 \<Rightarrow> nat option \<Rightarrow> (nat \<rightharpoonup> load_state) \<Rightarrow> int \<times> (nat \<rightharpoonup> load_state)" where
  "load_at now p ls =
     (case p of None \<Rightarrow> (0, ls)
      | Some a \<Rightarrow> (case ls a of None \<Rightarrow> (0, ls)
                   | Some st \<Rightarrow> let (l, st1) = ztk_poller_get_load now st in (l, ls(a \<mapsto> st1))))"

text \<open>
  The scan. \<open>clk i\<close> is the clock when the load of round \<open>i\<close> is read. As in the code, a better poller
  also moves the base \<open>pos\<close> of the index computation.
\<close>

fun pick_loop ::
    "(u32 \<Rightarrow> u64) \<Rightarrow> ztk_poller_pool \<Rightarrow> u32 list \<Rightarrow> u32 \<Rightarrow> nat option \<Rightarrow> int \<Rightarrow> (nat \<rightharpoonup> load_state) \<Rightarrow>
     (u32 \<times> nat option) \<times> (nat \<rightharpoonup> load_state)" where
  "pick_loop clk pool [] pos best min_load ls = ((pos, best), ls)"
| "pick_loop clk pool (i # is) pos best min_load ls =
     (let idx = (pos + i) mod pl_count pool;
          p = slot_poller pool (unat idx);
          (ld, ls1) = load_at (clk i) p ls;
          (pos1, best1, min1) = (if ld < min_load then (idx, p, ld) else (pos, best, min_load))
      in if min1 = 0 then ((pos1, best1), ls1) else pick_loop clk pool is pos1 best1 min1 ls1)"

definition ztk_poller_pool_get ::
    "(u32 \<Rightarrow> u64) \<Rightarrow> u64 \<Rightarrow> u64 \<Rightarrow> (nat \<rightharpoonup> u64) \<Rightarrow> ztk_poller_pool option \<Rightarrow> bool \<Rightarrow> (nat \<rightharpoonup> load_state) \<Rightarrow>
     (nat option \<times> ztk_poller_pool option) \<times> (nat \<rightharpoonup> load_state)" where
  "ztk_poller_pool_get clk now self owners pool prefer_current ls =
     (case pool of None \<Rightarrow> ((None, None), ls)
      | Some pl \<Rightarrow>
        if pl_count pl = 0 then ((None, pool), ls)
        else let cur = find_current_poller self owners pl
        in if prefer_current \<and> pl_prefer_current pl \<and> cur \<noteq> None then ((cur, pool), ls)
        else let pos = (if pl_count pl \<le> pl_thread_pos pl then 0 else pl_thread_pos pl);
                 best = slot_poller pl (unat pos);
                 (min_load, ls0) = load_at now best ls;
                 ((pos1, best1), ls1) = pick_loop clk pl (map of_nat [0..<unat (pl_count pl)]) pos best min_load ls0
             in ((best1, Some (pl\<lparr>pl_thread_pos := (pos1 + 1) mod pl_count pl\<rparr>)), ls1))"

definition ztk_poller_pool_set_prefer_current_thread :: "ztk_poller_pool option \<Rightarrow> bool \<Rightarrow> ztk_poller_pool option" where
  "ztk_poller_pool_set_prefer_current_thread pool on = map_option (\<lambda>pl. pl\<lparr>pl_prefer_current := on\<rparr>) pool"

fun loads_loop :: "(nat \<Rightarrow> u64) \<Rightarrow> ztk_poller_pool \<Rightarrow> nat list \<Rightarrow> (nat \<rightharpoonup> load_state) \<Rightarrow> int list \<times> (nat \<rightharpoonup> load_state)" where
  "loads_loop clk pool [] ls = ([], ls)"
| "loads_loop clk pool (i # is) ls =
     (let (l, ls1) = load_at (clk i) (slot_poller pool i) ls; (rest, ls2) = loads_loop clk pool is ls1 in (l # rest, ls2))"

text \<open>The result is the list of values written; its length is the returned count.\<close>

definition ztk_poller_pool_get_loads ::
    "(nat \<Rightarrow> u64) \<Rightarrow> ztk_poller_pool option \<Rightarrow> bool \<Rightarrow> u32 \<Rightarrow> (nat \<rightharpoonup> load_state) \<Rightarrow> int list \<times> (nat \<rightharpoonup> load_state)" where
  "ztk_poller_pool_get_loads clk pool loads loads_cap ls =
     (case pool of None \<Rightarrow> ([], ls)
      | Some pl \<Rightarrow>
        if \<not> loads \<or> loads_cap = 0 then ([], ls)
        else let n = (if pl_count pl < loads_cap then pl_count pl else loads_cap) in
          loads_loop clk pl [0..<unat n] ls)"

definition ztk_tcp_pick_poller_from_pool ::
    "(u32 \<Rightarrow> u64) \<Rightarrow> u64 \<Rightarrow> u64 \<Rightarrow> (nat \<rightharpoonup> u64) \<Rightarrow> ztk_poller_pool option \<Rightarrow> nat option \<Rightarrow> (nat \<rightharpoonup> load_state) \<Rightarrow>
     (nat option \<times> ztk_poller_pool option) \<times> (nat \<rightharpoonup> load_state)" where
  "ztk_tcp_pick_poller_from_pool clk now self owners pool accept_poller ls =
     (case pool of None \<Rightarrow> ((None, None), ls) | Some _ \<Rightarrow> ztk_poller_pool_get clk now self owners pool False ls)"

definition ztk_tcp_pick_poller_by_key :: "ztk_poller_pool option \<Rightarrow> u64 \<Rightarrow> nat option" where
  "ztk_tcp_pick_poller_by_key pool key =
     (case pool of None \<Rightarrow> None | Some _ \<Rightarrow> ztk_poller_pool_get_by_key pool key)"

section \<open>Local buffer pools\<close>

text \<open>\<open>mk i\<close> has the outcomes of the allocations of the \<open>i\<close>th pool: its address and its mutex.\<close>

fun attach_loop ::
    "(nat \<Rightarrow> nat option \<times> bool) \<Rightarrow> (u32 \<times> bool) option \<Rightarrow> nat list \<Rightarrow> ztk_poller_pool \<Rightarrow> bheap \<Rightarrow>
     (ztk_err \<times> ztk_poller_pool \<times> bheap) option" where
  "attach_loop mk opts [] pool h = Some (ZTK_OK, pool, h)"
| "attach_loop mk opts (i # is) pool h =
     (if sl_buf_pool (slots_of pool ! i) \<noteq> None then attach_loop mk opts is pool h
      else let (b, h1) = ztk_buf_pool_create (fst (mk i)) (snd (mk i)) opts h;
               pool1 = upd_slot i (\<lambda>s. s\<lparr>sl_buf_pool := b\<rparr>) pool
           in if b = None then map_option (Pair ZTK_ERR_NOMEM) (ztk_poller_pool_detach_buf_pools pool1 h1)
              else (case ztk_poller_attach_buf_pool (slot_poller pool1 i) b h1 of None \<Rightarrow> None
                    | Some h2 \<Rightarrow> attach_loop mk opts is pool1 h2))"

definition ztk_poller_pool_attach_buf_pools ::
    "(nat \<Rightarrow> nat option \<times> bool) \<Rightarrow> (u32 \<times> bool) option \<Rightarrow> ztk_poller_pool option \<Rightarrow> bheap \<Rightarrow>
     (ztk_err \<times> ztk_poller_pool option \<times> bheap) option" where
  "ztk_poller_pool_attach_buf_pools mk opts pool h =
     (case pool of None \<Rightarrow> Some (ZTK_ERR_INVALID, None, h)
      | Some pl \<Rightarrow>
        if pl_slots pl = None then Some (ZTK_ERR_INVALID, pool, h)
        else map_option (\<lambda>(e, pl1, h1). (e, Some pl1, h1)) (attach_loop mk opts [0..<unat (pl_count pl)] pl h))"

section \<open>Lemmas\<close>

text \<open>A pool after creation: as many slots as counted, each with its poller, and every poller has load counters.\<close>

definition ppool_ok :: "ztk_poller_pool \<Rightarrow> (nat \<rightharpoonup> load_state) \<Rightarrow> bool" where
  "ppool_ok pool ls \<longleftrightarrow> pl_count pool \<noteq> 0 \<and> length (slots_of pool) = unat (pl_count pool) \<and>
     (\<forall>i < unat (pl_count pool). \<exists>a. slot_poller pool i = Some a \<and> ls a \<noteq> None)"

text \<open>What the load of each poller is at a fixed instant.\<close>

definition load_now :: "u64 \<Rightarrow> (nat \<rightharpoonup> load_state) \<Rightarrow> nat option \<Rightarrow> int" where
  "load_now now ls p = fst (load_at now p ls)"

lemma load_again:
  "fst (ztk_poller_get_load now (snd (ztk_poller_get_load now st))) = fst (ztk_poller_get_load now st)"
  by (simp add: ztk_poller_get_load_def ztk_poller_load_percent_def Let_def)

lemma load_at_keeps: "load_now now (snd (load_at now p ls)) q = load_now now ls q"
  by (auto simp: load_now_def load_at_def Let_def split_def load_again split: option.splits)

lemma idx_bound: "c \<noteq> (0 :: u32) \<Longrightarrow> x mod c < c"
  by (simp add: word_mod_less_divisor word_neq_0_conv)

lemma pick_loop_sound:
  assumes "pl_count pool \<noteq> 0" and "pos < pl_count pool" and "best = slot_poller pool (unat pos)"
    and "min_load = load_now now ls best"
    and "pick_loop (\<lambda>_. now) pool is pos best min_load ls = ((pos', best'), ls')"
  shows "pos' < pl_count pool \<and> best' = slot_poller pool (unat pos') \<and> load_now now ls best' \<le> min_load \<and>
     (\<forall>q. load_now now ls' q = load_now now ls q)"
  using assms
proof (induction "is" arbitrary: pos best min_load ls)
  case Nil
  then show ?case by auto
next
  case (Cons i "is")
  let ?idx = "(pos + i) mod pl_count pool"
  let ?p = "slot_poller pool (unat ?idx)"
  let ?ls = "snd (load_at now ?p ls)"
  have ld: "fst (load_at now ?p ls) = load_now now ls ?p" by (simp add: load_now_def)
  have b: "?idx < pl_count pool" using idx_bound [OF Cons.prems(1)] .
  define better where "better = (load_now now ls ?p < min_load)"
  define pos1 where "pos1 = (if better then ?idx else pos)"
  define best1 where "best1 = (if better then ?p else best)"
  define min1 where "min1 = (if better then load_now now ls ?p else min_load)"
  have step: "pick_loop (\<lambda>_. now) pool (i # is) pos best min_load ls =
      (if min1 = 0 then ((pos1, best1), ?ls) else pick_loop (\<lambda>_. now) pool is pos1 best1 min1 ?ls)"
    by (simp add: ld Let_def split_def better_def pos1_def best1_def min1_def)
  have now: "pos1 < pl_count pool" "best1 = slot_poller pool (unat pos1)" "min1 = load_now now ls best1" "min1 \<le> min_load"
    using Cons.prems b by (simp_all add: better_def pos1_def best1_def min1_def)
  have keep: "load_now now ?ls q = load_now now ls q" for q by (rule load_at_keeps)
  show ?case
  proof (cases "min1 = 0")
    case True
    then show ?thesis using Cons.prems(5) now keep unfolding step by auto
  next
    case False
    then have "pick_loop (\<lambda>_. now) pool is pos1 best1 min1 ?ls = ((pos', best'), ls')"
      using Cons.prems(5) unfolding step by simp
    from Cons.IH [OF Cons.prems(1) now(1,2) _ this] now(3,4)
    show ?thesis unfolding keep by (meson order_trans)
  qed
qed

lemma get_load_nonneg:
  assumes "load_small now st"
  shows "0 \<le> fst (ztk_poller_get_load now st)"
proof (cases "load_mtx st \<and> elapsed_total now st \<noteq> 0")
  case True
  then show ?thesis using load_percent_value [OF assms] by (simp add: ztk_poller_get_load_def)
next
  case False
  then show ?thesis
    using load_sums [OF assms] by (auto simp: ztk_poller_get_load_def ztk_poller_load_percent_def Let_def word_less_nat_alt)
qed

lemma load_nonneg: "\<forall>a st. ls a = Some st \<longrightarrow> load_small now st \<Longrightarrow> 0 \<le> load_now now ls p"
  by (auto simp: load_now_def load_at_def Let_def split_def get_load_nonneg split: option.splits)

text \<open>
  The slot \<open>k\<close> places after \<open>s\<close>, and the rounds from \<open>m\<close> on of a scan that has not found a slot less busy
  than \<open>s\<close> yet: the outcome is at most as busy as every slot up to the first one that is less busy.
\<close>

definition slot_after :: "ztk_poller_pool \<Rightarrow> u32 \<Rightarrow> nat \<Rightarrow> nat" where
  "slot_after pool s k = unat ((s + of_nat k) mod pl_count pool)"

definition slot_load :: "u64 \<Rightarrow> (nat \<rightharpoonup> load_state) \<Rightarrow> ztk_poller_pool \<Rightarrow> nat \<Rightarrow> int" where
  "slot_load now ls pool i = load_now now ls (slot_poller pool i)"

lemma pick_loop_first:
  assumes c: "pl_count pool \<noteq> 0" and s: "s < pl_count pool"
    and "\<forall>q. 0 \<le> load_now now ls q"
    and "pick_loop (\<lambda>_. now) pool (map of_nat [m..<n]) s (slot_poller pool (unat s)) (slot_load now ls pool (unat s)) ls =
      ((pos', best'), ls')"
    and "\<forall>j < m. slot_load now ls pool (unat s) \<le> slot_load now ls pool (slot_after pool s j)"
    and "k < n" and "\<forall>j < k. slot_load now ls pool (unat s) \<le> slot_load now ls pool (slot_after pool s j)"
  shows "slot_load now ls pool (unat pos') \<le> slot_load now ls pool (slot_after pool s k)"
  using assms(3-7)
proof (induction "n - m" arbitrary: m ls)
  case 0
  then show ?case by (simp add: slot_load_def)
next
  case (Suc x)
  let ?idx = "(s + of_nat m) mod pl_count pool"
  let ?p = "slot_poller pool (unat ?idx)"
  let ?ls = "snd (load_at now ?p ls)"
  let ?L = "slot_load now ls pool"
  have up: "[m..<n] = m # [Suc m..<n]" using Suc.hyps(2) by (simp add: upt_conv_Cons)
  have keep: "slot_load now ?ls pool i = ?L i" for i by (simp add: slot_load_def load_at_keeps)
  have ld: "fst (load_at now ?p ls) = ?L (slot_after pool s m)"
    by (simp add: slot_load_def load_now_def slot_after_def)
  consider (better) "?L (slot_after pool s m) < ?L (unat s)" | (zero) "\<not> ?L (slot_after pool s m) < ?L (unat s)" "?L (unat s) = 0"
    | (on) "\<not> ?L (slot_after pool s m) < ?L (unat s)" "?L (unat s) \<noteq> 0" by blast
  then show ?case
  proof cases
    case better
    have "k \<le> m" using Suc.prems(5) better by (meson not_le)
    then have "?L (slot_after pool s m) \<le> ?L (slot_after pool s k)"
      using Suc.prems(3) better by (cases "k = m") (auto simp: dual_order.order_iff_strict)
    moreover have "?L (unat pos') \<le> ?L (slot_after pool s m)"
    proof (cases "?L (slot_after pool s m) = 0")
      case True
      then have "pos' = ?idx" using Suc.prems(2) better ld by (simp add: up Let_def split_def)
      then show ?thesis by (simp add: slot_after_def)
    next
      case False
      then have eq: "pick_loop (\<lambda>_. now) pool (map of_nat [Suc m..<n]) ?idx ?p (?L (slot_after pool s m)) ?ls = ((pos', best'), ls')"
        using Suc.prems(2) better ld by (simp add: up Let_def split_def)
      have "?L (slot_after pool s m) = load_now now ?ls ?p"
        by (simp add: slot_load_def slot_after_def load_at_keeps)
      from pick_loop_sound [OF c idx_bound [OF c] refl this eq] keep show ?thesis by (auto simp: slot_load_def)
    qed
    ultimately show ?thesis by linarith
  next
    case zero
    then have "pos' = s" using Suc.prems(2) ld by (simp add: up Let_def split_def)
    then show ?thesis using zero(2) Suc.prems(1) by (simp add: slot_load_def)
  next
    case on
    then have "pick_loop (\<lambda>_. now) pool (map of_nat [Suc m..<n]) s (slot_poller pool (unat s))
        (slot_load now ?ls pool (unat s)) ?ls = ((pos', best'), ls')"
      using Suc.prems(2) ld by (simp add: up Let_def split_def keep)
    moreover have "\<forall>j < Suc m. ?L (unat s) \<le> ?L (slot_after pool s j)"
      using Suc.prems(3) on(1) by (auto simp: less_Suc_eq)
    ultimately show ?thesis
      using Suc.hyps(1) [of "Suc m" ?ls] Suc.hyps(2) Suc.prems(1,4,5) unfolding keep load_at_keeps by simp
  qed
qed

text \<open>As long as positions do not wrap, the slots \<open>0, 1, ...\<close> places after \<open>s\<close> are all slots.\<close>

lemma slot_after_all:
  assumes "s < pl_count pool" and "unat (pl_count pool) \<le> 2 ^ 31" and "i < unat (pl_count pool)"
  shows "\<exists>k < unat (pl_count pool). slot_after pool s k = i"
proof -
  let ?n = "unat (pl_count pool)"
  have s: "unat s < ?n" using assms(1) by (simp add: word_less_nat_alt)
  have a: "slot_after pool s k = (unat s + k) mod ?n" if "k < ?n" for k
    using s that assms(2) by (simp add: slot_after_def unat_mod_distrib unat_word_ariths(1) unat_of_nat)
  let ?k = "(i + ?n - unat s) mod ?n"
  have "?k < ?n" using s by simp
  moreover have "(unat s + ?k) mod ?n = i"
  proof -
    have "(unat s + ?k) mod ?n = (unat s + (i + ?n - unat s)) mod ?n" by (simp add: mod_add_right_eq)
    then show ?thesis using s assms(3) by simp
  qed
  ultimately show ?thesis using a by auto
qed

lemma detach_loop_pollers: "detach_loop ss h = Some (ss', h') \<Longrightarrow> map sl_poller ss' = map sl_poller ss"
  by (induction ss arbitrary: h ss' h') (auto simp: bind_eq_Some_conv split: if_splits)

lemma destroy_loop_frees:
  assumes "destroy_loop os run ss w = Some w'"
  shows "pw_threads w' = pw_threads w \<and> (\<forall>a. Some a \<in> set (map sl_poller ss) \<longrightarrow> pw_pollers w' a = None) \<and>
     (\<forall>a. pw_pollers w a = None \<longrightarrow> pw_pollers w' a = None)"
  using assms
proof (induction os run ss w rule: destroy_loop.induct)
  case (2 os run s ss w)
  then show ?case by (fastforce split: option.splits)
qed simp

section \<open>Properties\<close>

text \<open>
  C22. Choosing a poller by load, all loads being read at the same millisecond, with counters below 2 to the power 55 ms. The scan starts at the slot \<open>s\<close> of the
  rotating position and answers with the poller of a slot \<open>i\<close> that is at most as busy as every slot from \<open>s\<close>
  up to and including the first one that is less busy than \<open>s\<close>. So with a pool of at most \<open>2 ^ 31\<close> slots: if the answer is as busy as the
  poller at \<open>s\<close>, no poller of the pool is less busy; and of two pollers it is always the less busy one. The next
  scan starts at the slot after \<open>i\<close>, and every load reading is left as it was. (With three and more pollers the answer need not be the least loaded
  one, see \<open>pool_get_misses_least\<close> below.)
\<close>

theorem pool_get_sound:
  assumes "ppool_ok pl ls" and "\<forall>a st. ls a = Some st \<longrightarrow> load_small now st" and "unat (pl_count pl) \<le> 2 ^ 31"
    and "s = (if pl_count pl \<le> pl_thread_pos pl then 0 else pl_thread_pos pl)"
  shows "\<exists>i pl' ls'. ztk_poller_pool_get (\<lambda>_. now) now self owners (Some pl) False ls = ((slot_poller pl (unat i), Some pl'), ls') \<and>
      i < pl_count pl \<and> slot_poller pl (unat i) \<noteq> None \<and> pl' = pl\<lparr>pl_thread_pos := (i + 1) mod pl_count pl\<rparr> \<and>
      (\<forall>k < unat (pl_count pl). (\<forall>j < k. slot_load now ls pl (unat s) \<le> slot_load now ls pl (slot_after pl s j)) \<longrightarrow>
         slot_load now ls pl (unat i) \<le> slot_load now ls pl (slot_after pl s k)) \<and>
      (slot_load now ls pl (unat i) = slot_load now ls pl (unat s) \<longrightarrow>
         (\<forall>j < unat (pl_count pl). slot_load now ls pl (unat i) \<le> slot_load now ls pl j)) \<and>
      (pl_count pl \<le> 2 \<longrightarrow> (\<forall>j < unat (pl_count pl). slot_load now ls pl (unat i) \<le> slot_load now ls pl j)) \<and>
      (\<forall>q. load_now now ls' q = load_now now ls q)"
proof -
  let ?n = "unat (pl_count pl)"
  let ?best = "slot_poller pl (unat s)"
  let ?ls = "snd (load_at now ?best ls)"
  let ?L = "slot_load now ls pl"
  have c: "pl_count pl \<noteq> 0" using assms by (simp add: ppool_ok_def)
  have pos: "s < pl_count pl" using c assms(4) by (auto simp: word_neq_0_conv)
  have keep: "slot_load now ?ls pl i = ?L i" for i by (simp add: slot_load_def load_at_keeps)
  obtain i best' ls' where pk: "pick_loop (\<lambda>_. now) pl (map of_nat [0..<?n]) s ?best (?L (unat s)) ?ls = ((i, best'), ls')"
    by (metis prod.exhaust)
  have r: "i < pl_count pl" "best' = slot_poller pl (unat i)" "\<And>q. load_now now ls' q = load_now now ?ls q"
    using pick_loop_sound [OF c pos refl _ pk] keep [of "unat s"] by (auto simp: slot_load_def)
  have first: "?L (unat i) \<le> ?L (slot_after pl s k)"
    if "k < ?n" "\<forall>j < k. ?L (unat s) \<le> ?L (slot_after pl s j)" for k
    using pick_loop_first [OF c pos, of now ?ls 0 ?n i best' ls' k] pk that load_nonneg [OF assms(2)]
    unfolding keep load_at_keeps by simp
  have s0: "slot_after pl s 0 = unat s"
    using pos by (simp add: slot_after_def mod_word_less)
  have least: "\<forall>j < ?n. ?L (unat i) \<le> ?L j" if "\<And>k. k < ?n \<Longrightarrow> \<forall>j < k. ?L (unat s) \<le> ?L (slot_after pl s j)"
    using first that slot_after_all [OF pos assms(3)] by metis
  have same: "\<forall>j < k. ?L (unat s) \<le> ?L (slot_after pl s j)" if "?L (unat i) = ?L (unat s)" "k < ?n" for k
    using that(2)
  proof (induction k)
    case (Suc k)
    then show ?case using first [of k] that(1) by (auto simp: less_Suc_eq)
  qed simp
  have two: "\<forall>j < k. ?L (unat s) \<le> ?L (slot_after pl s j)" if "pl_count pl \<le> 2" "k < ?n" for k
  proof -
    have "k \<le> 1" using that by (simp add: word_le_nat_alt)
    then have "j < k \<Longrightarrow> j = 0" for j by simp
    then show ?thesis using s0 by fastforce
  qed
  have "unat i < ?n" using r(1) by (simp add: word_less_nat_alt)
  then have "slot_poller pl (unat i) \<noteq> None" using assms by (auto simp: ppool_ok_def)
  moreover have "ztk_poller_pool_get (\<lambda>_. now) now self owners (Some pl) False ls =
      ((slot_poller pl (unat i), Some (pl\<lparr>pl_thread_pos := (i + 1) mod pl_count pl\<rparr>)), ls')"
    using c pk r(2) by (simp add: ztk_poller_pool_get_def Let_def split_def assms(4) [symmetric] slot_load_def load_now_def)
  ultimately show ?thesis
    using r first least [OF same] least [OF two] load_at_keeps [of now ?best ls]
    by (intro exI [of _ i] exI [of _ "pl\<lparr>pl_thread_pos := (i + 1) mod pl_count pl\<rparr>"] exI [of _ ls']) auto
qed

definition busy :: "u64 \<Rightarrow> load_state" where
  "busy n = \<lparr>load_mtx = True, last_ms = 0, run_ms = n, sleep_ms = 100 - n, sleeping = False\<rparr>"

definition pool4 :: ztk_poller_pool where
  "pool4 = \<lparr>pl_slots = Some (map (\<lambda>a. no_slot\<lparr>sl_poller := Some a\<rparr>) [1, 2, 3, 4]), pl_count = 4, pl_thread_pos = 0,
     pl_prefer_current = True, pl_started = True, pl_priority = 0, pl_mtx = True\<rparr>"

definition loads4 :: "nat \<rightharpoonup> load_state" where
  "loads4 = [1 \<mapsto> busy 50, 2 \<mapsto> busy 40, 3 \<mapsto> busy 10, 4 \<mapsto> busy 45]"

lemma pool4_slots: "slot_poller pool4 0 = Some 1" "slot_poller pool4 1 = Some 2" "slot_poller pool4 2 = Some 3"
    "slot_poller pool4 3 = Some 4"
  by (simp_all add: slot_poller_def slots_of_def pool4_def no_slot_def)

lemma pool4_ok: "ppool_ok pool4 loads4"
proof -
  have "\<exists>a. slot_poller pool4 i = Some a \<and> loads4 a \<noteq> None" if "i < 4" for i
  proof -
    consider "i = 0" | "i = 1" | "i = 2" | "i = 3" using \<open>i < 4\<close> by linarith
    then show ?thesis
      by cases (use pool4_slots in \<open>simp_all add: loads4_def\<close>)
  qed
  then show ?thesis by (simp add: ppool_ok_def pool4_def slots_of_def)
qed

lemma loads4_small: "\<forall>a st. loads4 a = Some st \<longrightarrow> load_small 0 st"
  by (auto simp: loads4_def busy_def load_small_def split: if_splits)

lemma busy_load:
  "ztk_poller_get_load 0 (busy 50) = (50, busy 50)" "ztk_poller_get_load 0 (busy 40) = (40, busy 40)"
  "ztk_poller_get_load 0 (busy 10) = (10, busy 10)" "ztk_poller_get_load 0 (busy 45) = (45, busy 45)"
  by code_simp+

lemma loads4_at:
  "load_at 0 (Some 1) loads4 = (50, loads4)" "load_at 0 (Some 2) loads4 = (40, loads4)"
  "load_at 0 (Some 3) loads4 = (10, loads4)" "load_at 0 (Some 4) loads4 = (45, loads4)"
  by (auto simp: load_at_def loads4_def busy_load fun_upd_twist)

lemma pool4_counts: "pl_count pool4 = 4" "pl_thread_pos pool4 = 0"
  by (simp_all add: pool4_def)

lemma upto4: "map of_nat [0..<4] = [0, 1, 2, 3 :: u32]"
  by (simp add: upt_conv_Cons)

lemma pool4_get: "fst (fst (ztk_poller_pool_get (\<lambda>_. 0) 0 self owners (Some pool4) False loads4)) = Some 2"
  by (simp add: ztk_poller_pool_get_def pool4_counts upto4 pool4_slots [unfolded One_nat_def]
      loads4_at [unfolded One_nat_def])

theorem pool_get_sound_witness:
  "ppool_ok pool4 loads4 \<and>
   (\<exists>i :: u32. fst (fst (ztk_poller_pool_get (\<lambda>_. 0) 0 9 Map.empty (Some pool4) False loads4)) = slot_poller pool4 (unat i) \<and>
     slot_load 0 loads4 pool4 (unat i) \<le> slot_load 0 loads4 pool4 1)"
proof -
  have s: "(0 :: u32) = (if pl_count pool4 \<le> pl_thread_pos pool4 then 0 else pl_thread_pos pool4)"
    and n: "unat (pl_count pool4) \<le> 2 ^ 31" "1 < unat (pl_count pool4)" and k: "slot_after pool4 0 0 = 0" "slot_after pool4 0 1 = 1"
    by (simp_all add: pool4_counts slot_after_def)
  obtain i :: u32 and pl' ls' where g: "ztk_poller_pool_get (\<lambda>_. 0) 0 9 Map.empty (Some pool4) False loads4 = ((slot_poller pool4 (unat i), Some pl'), ls')"
    and i: "\<forall>k < unat (pl_count pool4). (\<forall>j < k. slot_load 0 loads4 pool4 (unat (0 :: u32)) \<le> slot_load 0 loads4 pool4 (slot_after pool4 0 j)) \<longrightarrow>
       slot_load 0 loads4 pool4 (unat i) \<le> slot_load 0 loads4 pool4 (slot_after pool4 0 k)"
    using pool_get_sound [OF pool4_ok loads4_small n(1) s, of 9 Map.empty] by blast
  have "slot_load 0 loads4 pool4 (unat i) \<le> slot_load 0 loads4 pool4 1"
    using i [rule_format, OF n(2)] k by simp
  with g pool4_ok show ?thesis by auto
qed

text \<open>
  The choice is not the least loaded poller: of four pollers with loads 50, 40, 10 and 45, seen
  from position 0, the scan answers with the second. Once it moves its base to the second poller,
  its next index is the fourth one, and the third, which is the least busy, is never looked at.
\<close>

lemma pool_get_misses_least:
  "fst (fst (ztk_poller_pool_get (\<lambda>_. 0) 0 self owners (Some pool4) False loads4)) = Some 2 \<and>
   load_now 0 loads4 (Some 2) = 40 \<and> load_now 0 loads4 (Some 3) = 10"
  by (simp add: pool4_get load_now_def loads4_at)

section \<open>A failed start\<close>

lemma start_loop_keeps:
  "start_loop mk_thread is pool w = (ok, pool', w') \<Longrightarrow> pl_started pool' = pl_started pool \<and> pw_threads w \<subseteq>\<^sub>m pw_threads w'"
proof (induction "is" arbitrary: pool w)
  case (Cons i "is")
  show ?case
  proof (cases "fresh_or_null (mk_thread i) (pw_threads w)")
    case None
    then show ?thesis using Cons.prems by (auto simp: upd_slot_def Let_def)
  next
    case (Some t)
    then have "pw_threads w t = None" by (auto simp: fresh_or_null_def split: option.splits if_splits)
    then have "pw_threads w \<subseteq>\<^sub>m (pw_threads w)(t \<mapsto> i)" by (auto simp: map_le_def dom_def)
    then show ?thesis using Cons Some by (fastforce simp: upd_slot_def Let_def intro: map_le_trans)
  qed
qed simp

text \<open>
  When a thread cannot be created, the clean-up is a call of \<^verbatim>\<open>ztk_poller_pool_stop\<close> on a pool that
  is not marked as started. It returns at once: no thread that was created is stopped or joined,
  and no later \<^verbatim>\<open>ztk_poller_pool_stop\<close> does so either.
\<close>

lemma failed_start_keeps_threads:
  assumes "\<not> pl_started pl" and "start_loop mk_thread [0..<unat (pl_count pl)] pl w = (False, pl1, w1)"
  shows "ztk_poller_pool_start mk_thread (Some pl) w = (ZTK_ERR_PLATFORM, Some pl1, w1) \<and>
     ztk_poller_pool_stop pl1 w1 = (pl1, w1) \<and> pw_threads w \<subseteq>\<^sub>m pw_threads w1"
  using assms start_loop_keeps [OF assms(2)] by (simp add: ztk_poller_pool_start_def ztk_poller_pool_stop_def)

end
