(* ===== verification/Buf_Refs.thy ===== *)
theory Buf_Refs
  imports Buf
begin

text \<open>
  What a component that keeps references to buffers relies on. \<open>R b\<close> is the number of references to
  buffer \<open>b\<close> all holders have together. Taking and dropping references and allocating a buffer keep
  the account, and the length and bytes of every buffer that is still referenced. \<open>heap_inv\<close> is the
  invariant of the buffer heap with two conditions of use: the pools that pollers and the library
  point to exist, and the calling thread may return blocks to every pool itself.
\<close>

section \<open>The account of references\<close>

definition heap_inv :: "u64 \<Rightarrow> bheap \<Rightarrow> bool" where
  "heap_inv self h \<longleftrightarrow> (\<exists>fl. heap_ok h fl) \<and>
     (\<forall>q p pid. pollers h q = Some p \<longrightarrow> buf_pool p = Some pid \<longrightarrow> pools h pid \<noteq> None) \<and>
     (\<forall>pid. g_shared_pool h = Some pid \<longrightarrow> pools h pid \<noteq> None) \<and>
     (\<forall>pid. pools h pid \<noteq> None \<longrightarrow> direct self pid h)"

definition ref_ok :: "u64 \<Rightarrow> nat \<Rightarrow> bheap \<Rightarrow> nat \<Rightarrow> bool" where
  "ref_ok self n h b \<longleftrightarrow> (\<exists>ob. buf_at b h = Some ob \<and> refcnt ob = of_nat n \<and> n < 2 ^ 31 \<and> buf_returnable self b h)"

definition refs :: "u64 \<Rightarrow> (nat \<Rightarrow> nat) \<Rightarrow> bheap \<Rightarrow> bool" where
  "refs self R h \<longleftrightarrow> heap_inv self h \<and> (\<forall>b. 0 < R b \<longrightarrow> ref_ok self (R b) h b)"

definition bdata :: "bheap \<Rightarrow> nat \<Rightarrow> (size_t \<times> mem) option" where
  "bdata h b = map_option (\<lambda>ob. (blen ob, payload ob)) (buf_at b h)"

definition same_data :: "(nat \<Rightarrow> nat) \<Rightarrow> bheap \<Rightarrow> bheap \<Rightarrow> bool" where
  "same_data R h h' \<longleftrightarrow> (\<forall>b. 0 < R b \<longrightarrow> bdata h' b = bdata h b)"

lemma same_data_refl [simp]: "same_data R h h"
  by (simp add: same_data_def)

lemma same_data_trans: "same_data R h h1 \<Longrightarrow> same_data R h1 h2 \<Longrightarrow> same_data R h h2"
  by (simp add: same_data_def)

lemma same_dataD: "same_data R h h' \<Longrightarrow> 0 < R b \<Longrightarrow> bdata h' b = bdata h b"
  by (simp add: same_data_def)

lemma same_data_mono: "same_data R h h' \<Longrightarrow> (\<And>b. R' b \<le> R b) \<Longrightarrow> same_data R' h h'"
  unfolding same_data_def by (meson less_le_trans)

lemma refs_inv: "refs self R h \<Longrightarrow> heap_inv self h"
  by (simp add: refs_def)

lemma refsD: "refs self R h \<Longrightarrow> 0 < R b \<Longrightarrow> ref_ok self (R b) h b"
  by (simp add: refs_def)

lemma heap_inv_same:
  assumes "heap_inv self h" and "heap_ok h' fl" and "same_meta h h'"
  shows "heap_inv self h'"
  using assms direct_same [OF _ assms(3)] unfolding heap_inv_def same_metaD [OF assms(3)] by blast

lemma ref_ok_other:
  assumes "ref_ok self n h b" and "same_meta h h'" and "blocks h' b = blocks h b"
  shows "ref_ok self n h' b \<and> bdata h' b = bdata h b"
proof -
  have "buf_at b h' = buf_at b h" using assms(3) by (simp add: buf_at_def)
  moreover have "buf_returnable self b h'" if "buf_returnable self b h"
    using that direct_same [OF _ assms(2)] unfolding buf_returnable_def assms(3) by (metis option.case_eq_if)
  ultimately show ?thesis using assms(1) by (auto simp: ref_ok_def bdata_def)
qed

lemma refs_upd:
  assumes "refs self R h" and "heap_ok h' fl" and "same_meta h h'" and "\<And>c. c \<noteq> b \<Longrightarrow> blocks h' c = blocks h c"
    and "0 < n \<Longrightarrow> ref_ok self n h' b"
  shows "refs self (R(b := n)) h'"
proof -
  have "ref_ok self (R c) h' c" if "c \<noteq> b" "0 < R c" for c
    using ref_ok_other [OF refsD [OF assms(1) that(2)] assms(3) assms(4) [OF that(1)]] by blast
  then show ?thesis
    using heap_inv_same [OF refs_inv [OF assms(1)] assms(2,3)] assms(5) by (simp add: refs_def)
qed

lemma same_data_other:
  assumes "\<And>c. c \<noteq> b \<Longrightarrow> blocks h' c = blocks h c" and "0 < R b \<Longrightarrow> bdata h' b = bdata h b"
  shows "same_data R h h'"
proof -
  have "bdata h' c = bdata h c" if "0 < R c" for c
    using assms that by (cases "c = b") (simp_all add: bdata_def buf_at_def)
  then show ?thesis by (simp add: same_data_def)
qed

text \<open>Changing a buffer other than in its pool.\<close>

lemma set_obj:
  assumes "refs self R h" and "0 < R b" and "n < 2 ^ 31" and "buf_at b h = Some ob"
    and "refcnt ob' = of_nat n" "bpool ob' = bpool ob" "pool_blk_cap ob' = pool_blk_cap ob"
  shows "refs self (R(b := n)) (set_buf b ob' h)"
proof -
  let ?h = "set_buf b ob' h"
  obtain fl where ok: "heap_ok h fl" using refs_inv [OF assms(1)] by (auto simp: heap_inv_def)
  have "buf_returnable self b h" using refsD [OF assms(1,2)] by (auto simp: ref_ok_def)
  moreover obtain sz where sz: "blocks h b = Some (sz, BufObj ob)" using buf_at_block [OF assms(4)] by blast
  moreover have "blocks ?h b = Some (sz, BufObj ob')" using sz by (simp add: set_buf_block)
  moreover have "direct self pid ?h" if "direct self pid h" for pid by (rule direct_same [OF that]) simp
  ultimately have "buf_returnable self b ?h"
    using assms(6,7) by (auto simp: buf_returnable_def split: option.splits)
  then have "ref_ok self n ?h b" using assms(3,4,5) by (simp add: ref_ok_def)
  then show ?thesis
    by (intro refs_upd [OF assms(1) heap_ok_set_buf [OF ok assms(4)]]) simp_all
qed

lemma set_count:
  assumes "refs self R h" and "0 < R b" and "n < 2 ^ 31" and "buf_at b h = Some ob"
  shows "refs self (R(b := n)) (set_buf b (ob\<lparr>refcnt := of_nat n\<rparr>) h) \<and> same_data R h (set_buf b (ob\<lparr>refcnt := of_nat n\<rparr>) h)"
  using set_obj [OF assms, of "ob\<lparr>refcnt := of_nat n\<rparr>"] same_data_other [of b _ h R] assms(4)
  by (simp add: bdata_def)

lemma buf_ref_spec:
  assumes "refs self R h" and "0 < R b" and "R b + 1 < 2 ^ 31"
  shows "\<exists>h'. ztk_buf_ref (Some b) h = Some (Some b, h') \<and> refs self (R(b := R b + 1)) h' \<and> same_data R h h'"
proof -
  obtain ob where ob: "buf_at b h = Some ob" "refcnt ob = of_nat (R b)"
    using refsD [OF assms(1,2)] by (auto simp: ref_ok_def)
  have "ztk_buf_ref (Some b) h = Some (Some b, set_buf b (ob\<lparr>refcnt := of_nat (R b + 1)\<rparr>) h)"
    using ob by (simp add: ztk_buf_ref_def add.commute)
  with set_count [OF assms ob(1)] show ?thesis by blast
qed

lemma buf_unref_spec:
  assumes R: "refs self R h" and b: "0 < R b"
  shows "\<exists>h'. ztk_buf_unref self wake (Some b) h = Some h' \<and> refs self (R(b := R b - 1)) h' \<and>
     same_data (R(b := R b - 1)) h h'"
proof -
  obtain ob where ob: "buf_at b h = Some ob" "refcnt ob = of_nat (R b)" "R b < 2 ^ 31" "buf_returnable self b h"
    using refsD [OF R b] by (auto simp: ref_ok_def)
  obtain fl where ok: "heap_ok h fl" using refs_inv [OF R] by (auto simp: heap_inv_def)
  show ?thesis
  proof (cases "R b = 1")
    case True
    with ob have "refcnt ob = 1" by simp
    from unref_last_spec [OF ok ob(1) this ob(4), of wake] obtain h' fl' where
      h': "ztk_buf_unref self wake (Some b) h = Some h'" "heap_ok h' fl'" "same_meta h h'"
        "\<forall>c. c \<noteq> b \<longrightarrow> blocks h' c = blocks h c" by blast
    have "refs self (R(b := 0)) h'" by (rule refs_upd [OF R h'(2,3)]) (use h'(4) in simp_all)
    moreover have "same_data (R(b := 0)) h h'" by (rule same_data_other [of b]) (use h'(4) in simp_all)
    ultimately show ?thesis using h'(1) True by auto
  next
    case False
    have "unat (of_nat (R b) :: 32 word) = R b" using ob(3) by (intro of_nat_inverse) auto
    with False have ne: "refcnt ob \<noteq> 1" using ob(2) by (metis unat_1)
    have "refcnt ob - 1 = of_nat (R b - 1)" using ob(2) b by (simp add: of_nat_diff)
    with ne ob have "ztk_buf_unref self wake (Some b) h = Some (set_buf b (ob\<lparr>refcnt := of_nat (R b - 1)\<rparr>) h)"
      by (simp add: ztk_buf_unref_def Let_def)
    moreover have "R b - 1 < 2 ^ 31" using ob(3) by linarith
    note set_count [OF R b this ob(1)]
    moreover have "same_data (R(b := R b - 1)) h x" if "same_data R h x" for x
      by (rule same_data_mono [OF that]) simp
    ultimately show ?thesis by blast
  qed
qed

section \<open>A new buffer with its bytes\<close>

lemma new_buf_refs:
  assumes R: "refs self R h" and ok: "heap_ok h' fl" and meta: "same_meta h h'" and new: "new_buf h h' cap b"
  shows "R b = 0 \<and> refs self (R(b := 1)) h' \<and> same_data R h h' \<and>
     (\<exists>ob. buf_at b h' = Some ob \<and> blen ob = 0 \<and> cap \<le> bcap ob \<and> unat (bcap ob) \<le> length (payload ob))"
proof -
  from new obtain sz ob where ob: "blocks h' = (blocks h)(b \<mapsto> (sz, BufObj ob))"
      "blocks h b = None \<or> (\<exists>n. blocks h b = Some (sz, FreeNode n))" "refcnt ob = 1" "blen ob = 0"
      "cap \<le> bcap ob" "unat (bcap ob) \<le> length (payload ob)"
      "case bpool ob of None \<Rightarrow> True | Some pid \<Rightarrow> pools h' pid \<noteq> None \<and> unat (pool_blk_cap ob) = sz"
    unfolding new_buf_def by blast
  have at: "buf_at b h' = Some ob" using ob(1) by (simp add: buf_at_def)
  have "buf_at b h = None" using ob(2) by (auto simp: buf_at_def)
  then have z: "R b = 0" using refsD [OF R, of b] by (cases "R b = 0") (auto simp: ref_ok_def)
  have inv': "heap_inv self h'" by (rule heap_inv_same [OF refs_inv [OF R] ok meta])
  have "buf_returnable self b h'"
    using ob(1,7) inv' by (auto simp: buf_returnable_def heap_inv_def split: option.splits)
  then have "ref_ok self 1 h' b" using at ob(3) by (simp add: ref_ok_def)
  then have "refs self (R(b := 1)) h'" by (intro refs_upd [OF R ok meta]) (use ob(1) in simp_all)
  moreover have "same_data R h h'" by (rule same_data_other [of b]) (use ob(1) z in simp_all)
  ultimately show ?thesis using z at ob(4-6) by blast
qed

lemma alloc_local_spec:
  assumes R: "refs self R h" and cap: "cap \<noteq> 0" "unat cap + 40 < 2 ^ 64"
  shows "\<exists>r h'. ztk_buf_alloc_local poller cap h = Some (r, h') \<and> same_data R h h' \<and>
     (case r of None \<Rightarrow> refs self R h'
      | Some b \<Rightarrow> R b = 0 \<and> refs self (R(b := 1)) h' \<and>
          (\<exists>ob. buf_at b h' = Some ob \<and> blen ob = 0 \<and> cap \<le> bcap ob \<and> unat (bcap ob) \<le> length (payload ob)))"
proof -
  have inv: "heap_inv self h" by (rule refs_inv [OF R])
  let ?l = "ztk_poller_buf_pool poller h"
  let ?p = "if ?l \<noteq> None then ?l else g_shared_pool h"
  obtain fl where ok: "heap_ok h fl" using inv by (auto simp: heap_inv_def)
  have "case ?p of None \<Rightarrow> True | Some pid \<Rightarrow> pools h pid \<noteq> None"
    using inv by (auto simp: heap_inv_def ztk_poller_buf_pool_def split: option.splits)
  from create_from_pool_spec [OF ok cap(2) this] obtain r h' fl' where
    r: "buf_create_from_pool ?p cap h = Some (r, h')" "heap_ok h' fl'" "same_meta h h'"
      "case r of None \<Rightarrow> blocks h' = blocks h | Some a \<Rightarrow> new_buf h h' cap a" by blast
  have call: "ztk_buf_alloc_local poller cap h = Some (r, h')"
    using r(1) cap(1) by (cases "?l = None") (simp_all add: ztk_buf_alloc_local_def ztk_buf_alloc_def)
  show ?thesis
  proof (cases r)
    case None
    then have eq: "blocks h' = blocks h" using r(4) by simp
    have "refs self (R(b := R b)) h'" for b
      by (rule refs_upd [OF R r(2,3)]) (use eq ref_ok_other [OF refsD [OF R] r(3)] in auto)
    moreover have "same_data R h h'" using eq by (simp add: same_data_def bdata_def buf_at_def)
    ultimately show ?thesis using call None by simp
  next
    case (Some b)
    then have "new_buf h h' cap b" using r(4) by simp
    from new_buf_refs [OF R r(2,3) this] call Some show ?thesis by auto
  qed
qed

end
