(* ===== verification/Tcp_Session.thy ===== *)
theory Tcp_Session
  imports Complex_Main Socket Poller_Pool Buf_Refs
begin

text \<open>
  The outgoing side of TCP sessions, \<^verbatim>\<open>src/net/tcp_server.c\<close>: the queue of chunks that wait for the
  socket, sending with copy, gathered and zero-copy, flushing, the high-water callback. The state
  extends that of the sockets by the buffer heap, the sessions and servers at their addresses, what
  a server uses of its pollers (timers, loads) and pools, and the state of the application. A callback
  of the application is a value \<open>'f\<close>; what it does to the state is given by the environment. The
  chunks of a queue are listed from \<^verbatim>\<open>out_head\<close> along \<^verbatim>\<open>next\<close>. Internal functions are called with
  sessions that exist; a dangling session pointer has no defined outcome (\<open>None\<close>).
\<close>

section \<open>State\<close>

text \<open>The functions registered with pollers; the one for listening sockets with its binding: server and index.\<close>

datatype tcp_cb = Session_on_readable | Session_on_error | Listen_on_readable nat nat

datatype tcp_timer = Manager_timer_cb nat nat

datatype out_data = Out_mem mem | Out_buf nat

record ztk_tcp_out_chunk =
  ck_data :: out_data
  ck_off :: size_t
  ck_len :: size_t

record ztk_tcp_session =
  se_server :: "nat option"
  se_sock :: "nat option"
  se_poller :: "nat option"
  se_user :: "nat option"
  se_closing :: bool
  se_out :: "ztk_tcp_out_chunk list"
  se_out_pending :: size_t
  se_highwater_hit :: bool

record 'f ztk_tcp_session_ops =
  op_on_recv :: "'f option"
  op_on_error :: "'f option"
  op_on_manager :: "'f option"

record ztk_listen_binding =
  lb_server :: "nat option"
  lb_poller :: "nat option"
  lb_manager_timer :: "nat option"

text \<open>
  A server. \<open>sv_sessions\<close> is the array of sessions, its capacity apart; the interval of the manager
  is a rational number of seconds (the rounding of \<^verbatim>\<open>float\<close> is not modelled).
\<close>

record 'f ztk_tcp_server =
  sv_listen_sock :: "nat option"
  sv_pollers :: "nat option list option"
  sv_poller_count :: u32
  sv_ops :: "'f ztk_tcp_session_ops"
  sv_session_user :: "nat option"
  sv_session_create_user :: "'f option"
  sv_pick_poller :: "'f option"
  sv_pick_poller_user :: "nat option"
  sv_poller_pool :: "nat option"
  sv_pool_pick_poller :: bool
  sv_manager_interval :: rat
  sv_bindings :: "ztk_listen_binding list option"
  sv_sessions :: "nat list"
  sv_session_cap :: size_t
  sv_host :: string
  sv_port :: u16
  sv_backlog :: int
  sv_started :: bool
  sv_highwater_bytes :: size_t
  sv_on_highwater :: "'f option"

record ('f, 'w, 'x) tnet = "(tcp_cb, 'w) net" +
  tbufs :: bheap
  tsessions :: "nat \<rightharpoonup> ztk_tcp_session"
  tservers :: "nat \<rightharpoonup> 'f ztk_tcp_server"
  ttimers :: "nat \<rightharpoonup> (tcp_timer, unit) tpoller"
  tpools :: "nat \<rightharpoonup> ztk_poller_pool"
  tloads :: "nat \<rightharpoonup> load_state"
  tapp :: 'x

text \<open>
  What the code runs in: the kernel, the calling thread, the result of waking another poller's thread,
  the clock, and what the functions of the application do.
\<close>

record ('f, 'w, 's) tenv =
  te_os :: "'w os"
  te_self :: u64
  te_wake :: ztk_err
  te_now :: u64
  te_recv :: "'f \<Rightarrow> nat \<Rightarrow> u8 list \<Rightarrow> nat option \<Rightarrow> 's \<Rightarrow> 's option"
  te_call :: "'f \<Rightarrow> nat \<Rightarrow> nat option \<Rightarrow> 's \<Rightarrow> 's option"
  te_high :: "'f \<Rightarrow> nat \<Rightarrow> size_t \<Rightarrow> nat option \<Rightarrow> 's \<Rightarrow> 's option"
  te_user :: "'f \<Rightarrow> nat \<Rightarrow> nat \<Rightarrow> 's \<Rightarrow> (nat option \<times> 's) option"
  te_pick :: "'f \<Rightarrow> nat \<Rightarrow> nat option \<Rightarrow> nat option \<Rightarrow> 's \<Rightarrow> (nat option \<times> 's) option"

type_synonym ('f, 'w, 'x) tcp_env = "('f, 'w, ('f, 'w, 'x) tnet) tenv"

definition upd_sess :: "nat \<Rightarrow> (ztk_tcp_session \<Rightarrow> ztk_tcp_session) \<Rightarrow> ('f, 'w, 'x) tnet \<Rightarrow> ('f, 'w, 'x) tnet" where
  "upd_sess a f s = s\<lparr>tsessions := (tsessions s)(a := map_option f (tsessions s a))\<rparr>"

section \<open>The queue of a session\<close>

definition session_out_free_chunk ::
    "('f, 'w, 'x) tcp_env \<Rightarrow> ztk_tcp_out_chunk \<Rightarrow> ('f, 'w, 'x) tnet \<Rightarrow> ('f, 'w, 'x) tnet option" where
  "session_out_free_chunk E c s =
     (case ck_data c of
        Out_mem m \<Rightarrow> Some s
      | Out_buf b \<Rightarrow> map_option (\<lambda>h. s\<lparr>tbufs := h\<rparr>) (ztk_buf_unref (te_self E) (te_wake E) (Some b) (tbufs s)))"

definition sub_floor :: "size_t \<Rightarrow> size_t \<Rightarrow> size_t" where
  "sub_floor p l = (if l \<le> p then p - l else 0)"

definition session_out_pop_chunk ::
    "('f, 'w, 'x) tcp_env \<Rightarrow> nat \<Rightarrow> ('f, 'w, 'x) tnet \<Rightarrow> ('f, 'w, 'x) tnet option" where
  "session_out_pop_chunk E a s =
     (case tsessions s a of None \<Rightarrow> None
      | Some se \<Rightarrow>
        (case se_out se of [] \<Rightarrow> Some s
         | c # cs \<Rightarrow> session_out_free_chunk E c
             (upd_sess a (\<lambda>se. se\<lparr>se_out := cs, se_out_pending := sub_floor (se_out_pending se) (ck_len c)\<rparr>) s)))"

text \<open>The bytes a chunk stands for; outside its buffer there is nothing to read.\<close>

definition session_chunk_ptr :: "bheap \<Rightarrow> ztk_tcp_out_chunk \<Rightarrow> mem option" where
  "session_chunk_ptr h c =
     (case (case ck_data c of Out_buf b \<Rightarrow> ztk_buf_data (Some b) h | Out_mem m \<Rightarrow> Some m) of
        None \<Rightarrow> None
      | Some m \<Rightarrow> mem_read m (unat (ck_off c)) (unat (ck_len c)))"

definition session_out_check_highwater ::
    "('f, 'w, 'x) tcp_env \<Rightarrow> nat \<Rightarrow> ('f, 'w, 'x) tnet \<Rightarrow> ('f, 'w, 'x) tnet option" where
  "session_out_check_highwater E a s = do {
     se \<leftarrow> tsessions s a;
     (case se_server se of None \<Rightarrow> Some s
      | Some v \<Rightarrow> do {
          srv \<leftarrow> tservers s v;
          (case sv_on_highwater srv of None \<Rightarrow> Some s
           | Some f \<Rightarrow>
             if sv_highwater_bytes srv = 0 then Some s
             else if se_out_pending se < sv_highwater_bytes srv
             then Some (upd_sess a (\<lambda>se. se\<lparr>se_highwater_hit := False\<rparr>) s)
             else if \<not> se_highwater_hit se
             then te_high E f a (se_out_pending se) (se_user se) (upd_sess a (\<lambda>se. se\<lparr>se_highwater_hit := True\<rparr>) s)
             else Some s)
        })
   }"

definition session_out_enqueue ::
    "('f, 'w, 'x) tcp_env \<Rightarrow> nat \<Rightarrow> ztk_tcp_out_chunk \<Rightarrow> ('f, 'w, 'x) tnet \<Rightarrow> (int \<times> ('f, 'w, 'x) tnet) option" where
  "session_out_enqueue E a c s =
     map_option (Pair 0) (session_out_check_highwater E a
       (upd_sess a (\<lambda>se. se\<lparr>se_out := se_out se @ [c], se_out_pending := se_out_pending se + ck_len c\<rparr>) s))"

definition session_out_append_buf ::
    "('f, 'w, 'x) tcp_env \<Rightarrow> nat \<Rightarrow> nat \<Rightarrow> ('f, 'w, 'x) tnet \<Rightarrow> (int \<times> ('f, 'w, 'x) tnet) option" where
  "session_out_append_buf E a b s = do {
     len \<leftarrow> ztk_buf_len (Some b) (tbufs s);
     if len = 0 then Some (0, s)
     else let (m, s1) = take_mem s in
       if m = None then Some (- 1, s1)
       else do {
         (_, h) \<leftarrow> ztk_buf_ref (Some b) (tbufs s1);
         session_out_enqueue E a \<lparr>ck_data = Out_buf b, ck_off = 0, ck_len = len\<rparr> (s1\<lparr>tbufs := h\<rparr>)
       }
   }"

text \<open>Copying into a buffer of the session's poller.\<close>

definition fill_buf :: "nat \<Rightarrow> mem \<Rightarrow> bheap \<Rightarrow> bheap option" where
  "fill_buf b d h = do {
     ob \<leftarrow> buf_at b h;
     p \<leftarrow> mem_write (payload ob) 0 d;
     ztk_buf_set_len (Some b) (of_nat (length d)) (set_buf b (ob\<lparr>payload := p\<rparr>) h)
   }"

definition session_out_append_mem ::
    "('f, 'w, 'x) tcp_env \<Rightarrow> nat \<Rightarrow> mem \<Rightarrow> ('f, 'w, 'x) tnet \<Rightarrow> (int \<times> ('f, 'w, 'x) tnet) option" where
  "session_out_append_mem E a d s =
     (if d = [] then Some (0, s)
      else do {
        se \<leftarrow> tsessions s a;
        (buf, h) \<leftarrow> ztk_buf_alloc_local (se_poller se) (of_nat (length d)) (tbufs s);
        (case buf of None \<Rightarrow> Some (- 1, s\<lparr>tbufs := h\<rparr>)
         | Some b \<Rightarrow> do {
             h1 \<leftarrow> fill_buf b d h;
             (r, s1) \<leftarrow> session_out_append_buf E a b (s\<lparr>tbufs := h1\<rparr>);
             h2 \<leftarrow> ztk_buf_unref (te_self E) (te_wake E) (Some b) (tbufs s1);
             Some (r, s1\<lparr>tbufs := h2\<rparr>)
           })
      })"

lemma pop_chunk_shorter:
  assumes "session_out_pop_chunk E a s = Some s'" and "tsessions s a = Some se" and "se_out se \<noteq> []"
  shows "tsessions s' a = Some (se\<lparr>se_out := tl (se_out se),
     se_out_pending := sub_floor (se_out_pending se) (ck_len (hd (se_out se)))\<rparr>)"
  using assms by (cases "se_out se")
    (auto simp: session_out_pop_chunk_def session_out_free_chunk_def upd_sess_def split: out_data.splits)

definition out_count :: "nat \<Rightarrow> ('f, 'w, 'x) tnet \<Rightarrow> nat" where
  "out_count a s = (case tsessions s a of None \<Rightarrow> 0 | Some se \<Rightarrow> length (se_out se))"

lemma pop_chunk_count:
  "session_out_pop_chunk E a s = Some s' \<Longrightarrow> tsessions s a = Some se \<Longrightarrow> se_out se = c # cs \<Longrightarrow>
     out_count a s' < out_count a s"
  using pop_chunk_shorter [of E a s s' se] by (simp add: out_count_def)

function session_out_advance_sent ::
    "('f, 'w, 'x) tcp_env \<Rightarrow> nat \<Rightarrow> size_t \<Rightarrow> ('f, 'w, 'x) tnet \<Rightarrow> ('f, 'w, 'x) tnet option" where
  "session_out_advance_sent E a skip s =
     (if skip = 0 then Some s
      else case tsessions s a of None \<Rightarrow> None
      | Some se \<Rightarrow>
        (case se_out se of [] \<Rightarrow> Some s
         | c # cs \<Rightarrow>
           if ck_len c = 0 then Option.bind (session_out_pop_chunk E a s) (session_out_advance_sent E a skip)
           else if ck_len c \<le> skip
           then Option.bind (session_out_pop_chunk E a s) (session_out_advance_sent E a (skip - ck_len c))
           else Some (upd_sess a (\<lambda>se. se\<lparr>se_out := c\<lparr>ck_off := ck_off c + skip, ck_len := ck_len c - skip\<rparr> # cs,
                  se_out_pending := sub_floor (se_out_pending se) skip\<rparr>) s)))"
  by pat_completeness auto

termination
  by (relation "measure (\<lambda>(E, a, skip, s). out_count a s)") (auto dest: pop_chunk_count)

text \<open>The gather list: the bytes of at most \<open>k\<close> non-empty chunks.\<close>

fun out_iov :: "bheap \<Rightarrow> nat \<Rightarrow> ztk_tcp_out_chunk list \<Rightarrow> mem list option" where
  "out_iov h k [] = Some []"
| "out_iov h 0 cs = Some []"
| "out_iov h (Suc k) (c # cs) =
     (if ck_len c = 0 then out_iov h (Suc k) cs
      else case session_chunk_ptr h c of None \<Rightarrow> None | Some m \<Rightarrow> map_option (Cons m) (out_iov h k cs))"

definition session_out_try_sendv ::
    "('f, 'w, 'x) tcp_env \<Rightarrow> nat \<Rightarrow> ('f, 'w, 'x) tnet \<Rightarrow> (int \<times> ('f, 'w, 'x) tnet) option" where
  "session_out_try_sendv E a s = do {
     se \<leftarrow> tsessions s a;
     if se_sock se = None then Some (err_code ZTK_ERR_INVALID, s)
     else do {
       iov \<leftarrow> out_iov (tbufs s) ZTK_SOCKET_IOV_MAX (se_out se);
       (case iov of [] \<Rightarrow> Some (0, s)
        | [m] \<Rightarrow> ztk_socket_send (te_os E) (se_sock se) m s
        | _ \<Rightarrow> ztk_socket_sendv (te_os E) (se_sock se) iov s)
     }
   }"

text \<open>The loop that adds up the bytes of the next send; it stops at an empty chunk.\<close>

fun flush_total :: "nat \<Rightarrow> ztk_tcp_out_chunk list \<Rightarrow> nat \<times> size_t" where
  "flush_total k [] = (0, 0)"
| "flush_total 0 cs = (0, 0)"
| "flush_total (Suc k) (c # cs) =
     (if ck_len c = 0 then (0, 0) else let (n, t) = flush_total k cs in (n + 1, t + ck_len c))"

partial_function (option) session_out_flush ::
    "('f, 'w, 'x) tcp_env \<Rightarrow> nat \<Rightarrow> ('f, 'w, 'x) tnet \<Rightarrow> ('f, 'w, 'x) tnet option" where
  "session_out_flush E a s =
     (case tsessions s a of None \<Rightarrow> None
      | Some se \<Rightarrow>
        if se_sock se = None then Some s
        else (case se_out se of [] \<Rightarrow> Some s
         | c # cs \<Rightarrow>
           if ck_len c = 0 then Option.bind (session_out_pop_chunk E a s) (session_out_flush E a)
           else if fst (flush_total ZTK_SOCKET_IOV_MAX (se_out se)) = 0 then Some s
           else (case session_out_try_sendv E a s of None \<Rightarrow> None
             | Some (n, s1) \<Rightarrow>
               if n = sint (snd (flush_total ZTK_SOCKET_IOV_MAX (se_out se)))
               then Option.bind (session_out_advance_sent E a (of_int n) s1) (session_out_flush E a)
               else if n > 0 then Option.bind (session_out_advance_sent E a (of_int n) s1) (session_out_flush E a)
               else Some s1)))"

function out_pop_all :: "('f, 'w, 'x) tcp_env \<Rightarrow> nat \<Rightarrow> ('f, 'w, 'x) tnet \<Rightarrow> ('f, 'w, 'x) tnet option" where
  "out_pop_all E a s =
     (case tsessions s a of None \<Rightarrow> None
      | Some se \<Rightarrow>
        (case se_out se of [] \<Rightarrow> Some s
         | c # cs \<Rightarrow> Option.bind (session_out_pop_chunk E a s) (out_pop_all E a)))"
  by pat_completeness auto

termination
  by (relation "measure (\<lambda>(E, a, s). out_count a s)") (auto dest: pop_chunk_count)

declare session_out_advance_sent.simps [simp del] out_pop_all.simps [simp del]

section \<open>Sending\<close>

text \<open>
  Results are the codes returned: \<open>err_code ZTK_OK\<close> is 0. A pointer to data is an optional block, its
  length the number of bytes passed; an array of pointers with lengths is a list of them, missing if
  one of the two arrays is \<^verbatim>\<open>NULL\<close>.
\<close>

text \<open>Queueing, then flushing: what every sender does when bytes remain.\<close>

definition queue_then_flush ::
    "('f, 'w, 'x) tcp_env \<Rightarrow> nat \<Rightarrow> (int \<times> ('f, 'w, 'x) tnet) option \<Rightarrow> (int \<times> ('f, 'w, 'x) tnet) option" where
  "queue_then_flush E a q = do {
     (r, s) \<leftarrow> q;
     if r \<noteq> 0 then Some (err_code ZTK_ERR_NOMEM, s)
     else map_option (Pair (err_code ZTK_OK)) (session_out_flush E a s)
   }"

text \<open>Queueing alone, when the socket takes nothing now.\<close>

definition queue_only :: "(int \<times> ('f, 'w, 'x) tnet) option \<Rightarrow> (int \<times> ('f, 'w, 'x) tnet) option" where
  "queue_only q = map_option (\<lambda>(r, s). (if r \<noteq> 0 then err_code ZTK_ERR_NOMEM else err_code ZTK_OK, s)) q"

definition ztk_tcp_session_send ::
    "('f, 'w, 'x) tcp_env \<Rightarrow> nat option \<Rightarrow> mem option \<Rightarrow> ('f, 'w, 'x) tnet \<Rightarrow> (int \<times> ('f, 'w, 'x) tnet) option" where
  "ztk_tcp_session_send E session data s =
     (case session of None \<Rightarrow> Some (err_code ZTK_ERR_INVALID, s)
      | Some a \<Rightarrow> do {
          se \<leftarrow> tsessions s a;
          (case data of None \<Rightarrow> Some (err_code ZTK_ERR_INVALID, s)
           | Some d \<Rightarrow>
             if se_closing se \<or> d = [] then Some (err_code ZTK_ERR_INVALID, s)
             else if se_out se \<noteq> [] then queue_then_flush E a (session_out_append_mem E a d s)
             else do {
               (n, s1) \<leftarrow> ztk_socket_send (te_os E) (se_sock se) d s;
               if n = sint (of_nat (length d) :: size_t) then Some (err_code ZTK_OK, s1)
               else if n > 0 then queue_then_flush E a (session_out_append_mem E a (drop (nat n) d) s1)
               else if n = err_code ZTK_ERR_AGAIN then queue_only (session_out_append_mem E a d s1)
               else Some (n, s1)
             })
        })"

fun append_all ::
    "('f, 'w, 'x) tcp_env \<Rightarrow> nat \<Rightarrow> mem list \<Rightarrow> ('f, 'w, 'x) tnet \<Rightarrow> (int \<times> ('f, 'w, 'x) tnet) option" where
  "append_all E a [] s = Some (0, s)"
| "append_all E a (d # ds) s = do {
     (r, s1) \<leftarrow> session_out_append_mem E a d s;
     if r \<noteq> 0 then Some (r, s1) else append_all E a ds s1
   }"

text \<open>Queueing what a partial gathered send left over.\<close>

fun append_left ::
    "('f, 'w, 'x) tcp_env \<Rightarrow> nat \<Rightarrow> size_t \<Rightarrow> mem list \<Rightarrow> ('f, 'w, 'x) tnet \<Rightarrow> (int \<times> ('f, 'w, 'x) tnet) option" where
  "append_left E a skip [] s = Some (0, s)"
| "append_left E a skip (d # ds) s =
     (if of_nat (length d) \<le> skip then append_left E a (skip - of_nat (length d)) ds s
      else do {
        (r, s1) \<leftarrow> session_out_append_mem E a (drop (unat skip) d) s;
        if r \<noteq> 0 then Some (r, s1) else append_all E a ds s1
      })"

definition ztk_tcp_session_sendv ::
    "('f, 'w, 'x) tcp_env \<Rightarrow> nat option \<Rightarrow> mem option list option \<Rightarrow> ('f, 'w, 'x) tnet \<Rightarrow> (int \<times> ('f, 'w, 'x) tnet) option" where
  "ztk_tcp_session_sendv E session parts s =
     (case session of None \<Rightarrow> Some (err_code ZTK_ERR_INVALID, s)
      | Some a \<Rightarrow> do {
          se \<leftarrow> tsessions s a;
          (case parts of None \<Rightarrow> Some (err_code ZTK_ERR_INVALID, s)
           | Some ps \<Rightarrow>
             if se_closing se \<or> ps = [] then Some (err_code ZTK_ERR_INVALID, s)
             else let qs = take ZTK_SOCKET_IOV_MAX ps in
             if list_ex (\<lambda>p. p = None \<or> p = Some []) qs then Some (err_code ZTK_ERR_INVALID, s)
             else let ds = map the qs; total = (\<Sum>d\<leftarrow>ds. of_nat (length d) :: size_t) in
             if se_out se \<noteq> [] then queue_then_flush E a (append_all E a ds s)
             else do {
               (n, s1) \<leftarrow> ztk_socket_sendv (te_os E) (se_sock se) ds s;
               if n = sint total then Some (err_code ZTK_OK, s1)
               else if n > 0 then queue_then_flush E a (append_left E a (of_int n) ds s1)
               else if n = err_code ZTK_ERR_AGAIN then queue_only (append_all E a ds s1)
               else Some (n, s1)
             })
        })"

text \<open>Queueing the rest of a buffer of which \<open>n\<close> bytes were sent.\<close>

definition append_buf_rest ::
    "('f, 'w, 'x) tcp_env \<Rightarrow> nat \<Rightarrow> nat \<Rightarrow> size_t \<Rightarrow> size_t \<Rightarrow> ('f, 'w, 'x) tnet \<Rightarrow> (int \<times> ('f, 'w, 'x) tnet) option" where
  "append_buf_rest E a b n len s =
     (let (m, s1) = take_mem s in
      if m = None then Some (- 1, s1)
      else do {
        (_, h) \<leftarrow> ztk_buf_ref (Some b) (tbufs s1);
        (r, s2) \<leftarrow> session_out_enqueue E a \<lparr>ck_data = Out_buf b, ck_off = n, ck_len = len - n\<rparr> (s1\<lparr>tbufs := h\<rparr>);
        if r \<noteq> 0 then map_option (\<lambda>h. (r, s2\<lparr>tbufs := h\<rparr>)) (ztk_buf_unref (te_self E) (te_wake E) (Some b) (tbufs s2))
        else Some (0, s2)
      })"

definition ztk_tcp_session_send_buf ::
    "('f, 'w, 'x) tcp_env \<Rightarrow> nat option \<Rightarrow> nat option \<Rightarrow> ('f, 'w, 'x) tnet \<Rightarrow> (int \<times> ('f, 'w, 'x) tnet) option" where
  "ztk_tcp_session_send_buf E session buf s =
     (case session of None \<Rightarrow> Some (err_code ZTK_ERR_INVALID, s)
      | Some a \<Rightarrow> do {
          se \<leftarrow> tsessions s a;
          (case buf of None \<Rightarrow> Some (err_code ZTK_ERR_INVALID, s)
           | Some b \<Rightarrow>
             if se_closing se then Some (err_code ZTK_ERR_INVALID, s)
             else do {
               len \<leftarrow> ztk_buf_len (Some b) (tbufs s);
               if len = 0 then Some (err_code ZTK_OK, s)
               else do {
                 data \<leftarrow> ztk_buf_data (Some b) (tbufs s);
                 if se_out se \<noteq> [] then queue_then_flush E a (session_out_append_buf E a b s)
                 else do {
                   d \<leftarrow> mem_read data 0 (unat len);
                   (n, s1) \<leftarrow> ztk_socket_send (te_os E) (se_sock se) d s;
                   if n = sint len then Some (err_code ZTK_OK, s1)
                   else if n > 0 then queue_then_flush E a (append_buf_rest E a b (of_int n) len s1)
                   else if n = err_code ZTK_ERR_AGAIN then queue_only (session_out_append_buf E a b s1)
                   else Some (n, s1)
                 }
               }
             })
        })"

definition ztk_tcp_session_flush ::
    "('f, 'w, 'x) tcp_env \<Rightarrow> nat option \<Rightarrow> ('f, 'w, 'x) tnet \<Rightarrow> ('f, 'w, 'x) tnet option" where
  "ztk_tcp_session_flush E session s = (case session of None \<Rightarrow> Some s | Some a \<Rightarrow> session_out_flush E a s)"

definition ztk_tcp_session_out_pending :: "nat option \<Rightarrow> ('f, 'w, 'x) tnet \<Rightarrow> size_t option" where
  "ztk_tcp_session_out_pending session s =
     (case session of None \<Rightarrow> Some 0 | Some a \<Rightarrow> map_option se_out_pending (tsessions s a))"

definition ztk_tcp_session_out_discard ::
    "('f, 'w, 'x) tcp_env \<Rightarrow> nat option \<Rightarrow> ('f, 'w, 'x) tnet \<Rightarrow> ('f, 'w, 'x) tnet option" where
  "ztk_tcp_session_out_discard E session s =
     (case session of None \<Rightarrow> Some s
      | Some a \<Rightarrow> map_option (upd_sess a (\<lambda>se. se\<lparr>se_highwater_hit := False\<rparr>)) (out_pop_all E a s))"

definition ztk_tcp_session_socket :: "nat option \<Rightarrow> ('f, 'w, 'x) tnet \<Rightarrow> nat option option" where
  "ztk_tcp_session_socket session s =
     (case session of None \<Rightarrow> Some None | Some a \<Rightarrow> map_option se_sock (tsessions s a))"

definition ztk_tcp_session_user :: "nat option \<Rightarrow> ('f, 'w, 'x) tnet \<Rightarrow> nat option option" where
  "ztk_tcp_session_user session s =
     (case session of None \<Rightarrow> Some None | Some a \<Rightarrow> map_option se_user (tsessions s a))"

definition ztk_tcp_session_poller :: "nat option \<Rightarrow> ('f, 'w, 'x) tnet \<Rightarrow> nat option option" where
  "ztk_tcp_session_poller session s =
     (case session of None \<Rightarrow> Some None | Some a \<Rightarrow> map_option se_poller (tsessions s a))"

section \<open>Invariant\<close>

text \<open>
  \<open>hold b\<close> counts the references to buffer \<open>b\<close> that are not those of this queue: of the
  application, and of other sessions. Every chunk has one of its own.
\<close>

definition uses :: "ztk_tcp_out_chunk list \<Rightarrow> nat \<Rightarrow> nat" where
  "uses cs b = length (filter (\<lambda>c. ck_data c = Out_buf b) cs)"

definition owed :: "(nat \<Rightarrow> nat) \<Rightarrow> ztk_tcp_out_chunk list \<Rightarrow> nat \<Rightarrow> nat" where
  "owed hold cs b = hold b + uses cs b"

definition chunk_ok :: "bheap \<Rightarrow> ztk_tcp_out_chunk \<Rightarrow> bool" where
  "chunk_ok h c \<longleftrightarrow> ck_len c \<noteq> 0 \<and> session_chunk_ptr h c \<noteq> None \<and> unat (ck_off c) + unat (ck_len c) < 2 ^ 64"

definition chunk_bytes :: "bheap \<Rightarrow> ztk_tcp_out_chunk \<Rightarrow> mem" where
  "chunk_bytes h c = the (session_chunk_ptr h c)"

definition pend :: "bheap \<Rightarrow> ztk_tcp_out_chunk list \<Rightarrow> mem" where
  "pend h cs = concat (map (chunk_bytes h) cs)"

definition queue_ok :: "u64 \<Rightarrow> (nat \<Rightarrow> nat) \<Rightarrow> bheap \<Rightarrow> ztk_tcp_out_chunk list \<Rightarrow> bool" where
  "queue_ok self hold h cs \<longleftrightarrow> refs self (owed hold cs) h \<and> (\<forall>c \<in> set cs. chunk_ok h c)"

lemma pend_simps [simp]: "pend h [] = []" "pend h (c # cs) = chunk_bytes h c @ pend h cs" "pend h (cs @ ds) = pend h cs @ pend h ds"
  by (simp_all add: pend_def)

lemma queue_okD: "queue_ok self hold h cs \<Longrightarrow> refs self (owed hold cs) h" "queue_ok self hold h cs \<Longrightarrow> c \<in> set cs \<Longrightarrow> chunk_ok h c"
  by (simp_all add: queue_ok_def)

lemma uses_simps [simp]:
  "uses [] = (\<lambda>_. 0)" "uses (c # cs) b = (if ck_data c = Out_buf b then 1 else 0) + uses cs b"
  "uses (cs @ ds) b = uses cs b + uses ds b"
  by (simp_all add: uses_def fun_eq_iff)

lemma uses_pos: "c \<in> set cs \<Longrightarrow> ck_data c = Out_buf b \<Longrightarrow> 0 < owed hold cs b"
  by (induction cs) (auto simp: owed_def)

lemma chunk_len: "chunk_ok h c \<Longrightarrow> length (chunk_bytes h c) = unat (ck_len c)"
  by (auto simp: chunk_ok_def chunk_bytes_def session_chunk_ptr_def mem_read_def split: option.splits if_splits)

lemma chunk_len_pos: "chunk_ok h c \<Longrightarrow> 0 < unat (ck_len c)"
  by (auto simp: chunk_ok_def unat_gt_0)

lemma chunk_rest:
  assumes "chunk_ok h c" and "n < unat (ck_len c)"
  shows "chunk_ok h (c\<lparr>ck_off := ck_off c + of_nat n, ck_len := ck_len c - of_nat n\<rparr>)"
    and "chunk_bytes h (c\<lparr>ck_off := ck_off c + of_nat n, ck_len := ck_len c - of_nat n\<rparr>) = drop n (chunk_bytes h c)"
proof -
  let ?c = "c\<lparr>ck_off := ck_off c + of_nat n, ck_len := ck_len c - of_nat n\<rparr>"
  have b: "unat (ck_off c) + unat (ck_len c) < 2 ^ 64" using assms(1) by (simp add: chunk_ok_def)
  have n: "unat (of_nat n :: size_t) = n" using assms(2) b by (intro of_nat_inverse) auto
  have off: "unat (ck_off ?c) = unat (ck_off c) + n"
    using unat_add_size [of "ck_off c" "of_nat n"] n assms(2) b by simp
  have len: "unat (ck_len ?c) = unat (ck_len c) - n" using unat_sub_size [of "of_nat n" "ck_len c"] n assms(2) by simp
  then have "ck_len ?c \<noteq> 0" using assms(2) by (metis diff_is_0_eq' not_less unat_0 less_irrefl_nat le_eq_less_or_eq zero_less_diff)
  moreover have ptr: "session_chunk_ptr h ?c = Some (drop n (chunk_bytes h c))"
    using assms off len
    by (auto simp: chunk_ok_def chunk_bytes_def session_chunk_ptr_def mem_read_def drop_take add.commute
        split: option.splits if_splits)
  ultimately show "chunk_ok h ?c" unfolding chunk_ok_def using off len assms(2) b by auto
  show "chunk_bytes h ?c = drop n (chunk_bytes h c)" using ptr by (simp add: chunk_bytes_def)
qed

lemma chunk_ptr_same:
  assumes "\<And>b. ck_data c = Out_buf b \<Longrightarrow> bdata h' b = bdata h b"
  shows "session_chunk_ptr h' c = session_chunk_ptr h c"
proof (cases "ck_data c")
  case (Out_buf b)
  then have "map_option snd (bdata h' b) = map_option snd (bdata h b)" using assms by simp
  then have "ztk_buf_data (Some b) h' = ztk_buf_data (Some b) h"
    by (simp add: bdata_def ztk_buf_data_def option.map_comp comp_def)
  then show ?thesis using Out_buf by (simp add: session_chunk_ptr_def)
qed (simp add: session_chunk_ptr_def)

lemma same_hold: "same_data (owed hold cs) h h' \<Longrightarrow> same_data hold h h'"
  by (erule same_data_mono) (simp add: owed_def)

lemma same_uses: "same_data (owed hold cs) h h' \<Longrightarrow> same_data (uses cs) h h'"
  by (erule same_data_mono) (simp add: owed_def)

text \<open>The heap changed, and perhaps chunks were removed: what is left in the queue is as it was.\<close>

lemma queue_keep:
  assumes "queue_ok self hold h cs" and "refs self (owed hold' ds) h'" and "same_data (uses ds) h h'" and "set ds \<subseteq> set cs"
  shows "queue_ok self hold' h' ds \<and> pend h' ds = pend h ds"
proof -
  have ptr: "session_chunk_ptr h' c = session_chunk_ptr h c" if "c \<in> set ds" for c
    by (rule chunk_ptr_same) (use that same_dataD [OF assms(3) uses_pos [of c ds _ "\<lambda>_. 0", simplified owed_def add_0]] in blast)
  then have "map (chunk_bytes h') ds = map (chunk_bytes h) ds" by (simp add: chunk_bytes_def)
  then have "pend h' ds = pend h ds" by (simp only: pend_def)
  moreover have "chunk_ok h' c" if "c \<in> set ds" for c
    using ptr [OF that] queue_okD(2) [OF assms(1)] that assms(4) unfolding chunk_ok_def by auto
  ultimately show ?thesis using assms(2) by (simp add: queue_ok_def)
qed

section \<open>Taking bytes off the queue\<close>

definition put_sess :: "nat \<Rightarrow> ztk_tcp_session \<Rightarrow> bheap \<Rightarrow> ('f, 'w, 'x) tnet \<Rightarrow> ('f, 'w, 'x) tnet" where
  "put_sess a se h s = s\<lparr>tbufs := h, tsessions := (tsessions s)(a \<mapsto> se)\<rparr>"

lemma put_sess_simps [simp]:
  "tsessions (put_sess a se h s) a = Some se" "tbufs (put_sess a se h s) = h"
  "put_sess a se' h' (put_sess a se h s) = put_sess a se' h' s"
  by (simp_all add: put_sess_def)

lemma upd_sess_put: "tsessions s a = Some se \<Longrightarrow> upd_sess a f s = put_sess a (f se) (tbufs s) s"
  by (simp add: upd_sess_def put_sess_def)

lemma sub_floor_len: "sub_floor (of_nat (k + unat l)) l = of_nat k" if "k + unat l < 2 ^ 64"
proof -
  have "unat (of_nat (k + unat l) :: size_t) = k + unat l" using that by (intro of_nat_inverse) auto
  then have "l \<le> of_nat (k + unat l)" by (simp add: word_le_nat_alt)
  then show ?thesis by (simp add: sub_floor_def)
qed

lemma pop_chunk_spec:
  assumes "queue_ok (te_self E) hold (tbufs s) (c # cs)" and "tsessions s a = Some se" and "se_out se = c # cs"
  shows "\<exists>h. session_out_pop_chunk E a s = Some (put_sess a (se\<lparr>se_out := cs,
       se_out_pending := sub_floor (se_out_pending se) (ck_len c)\<rparr>) h s) \<and>
     queue_ok (te_self E) hold h cs \<and> pend h cs = pend (tbufs s) cs \<and> same_data hold (tbufs s) h"
proof (cases "ck_data c")
  case (Out_mem m)
  then have "owed hold (c # cs) = owed hold cs" by (simp add: owed_def fun_eq_iff)
  then have "queue_ok (te_self E) hold (tbufs s) cs" using assms(1) by (simp add: queue_ok_def)
  then show ?thesis using assms(2,3) Out_mem
    by (auto simp: session_out_pop_chunk_def session_out_free_chunk_def upd_sess_put)
next
  case (Out_buf b)
  let ?R = "owed hold (c # cs)"
  have b: "0 < ?R b" by (rule uses_pos) (use Out_buf in auto)
  have R': "?R(b := ?R b - 1) = owed hold cs" using Out_buf by (auto simp: owed_def fun_eq_iff)
  obtain h where h: "ztk_buf_unref (te_self E) (te_wake E) (Some b) (tbufs s) = Some h" "refs (te_self E) (owed hold cs) h"
      "same_data (owed hold cs) (tbufs s) h"
    using buf_unref_spec [OF queue_okD(1) [OF assms(1)] b, unfolded R'] by blast
  have "session_out_pop_chunk E a s = Some (put_sess a (se\<lparr>se_out := cs,
       se_out_pending := sub_floor (se_out_pending se) (ck_len c)\<rparr>) h s)"
    using assms(2,3) Out_buf h(1)
    by (simp add: session_out_pop_chunk_def session_out_free_chunk_def upd_sess_put) (simp add: put_sess_def)
  then show ?thesis using queue_keep [OF assms(1) h(2) same_uses [OF h(3)]] same_hold [OF h(3)] by auto
qed

text \<open>A session whose queue is in order and whose count of pending bytes is right.\<close>

definition out_ok :: "('f, 'w, 'x) tcp_env \<Rightarrow> (nat \<Rightarrow> nat) \<Rightarrow> bheap \<Rightarrow> ztk_tcp_session \<Rightarrow> bool" where
  "out_ok E hold h se \<longleftrightarrow> queue_ok (te_self E) hold h (se_out se) \<and>
     se_out_pending se = of_nat (length (pend h (se_out se)))"

definition same_session :: "ztk_tcp_session \<Rightarrow> ztk_tcp_session \<Rightarrow> bool" where
  "same_session se se' \<longleftrightarrow> se' = se\<lparr>se_out := se_out se', se_out_pending := se_out_pending se', se_highwater_hit := se_highwater_hit se'\<rparr>"

lemma same_session_refl [simp]: "same_session se se"
  by (simp add: same_session_def)

lemma same_session_trans: "same_session se se1 \<Longrightarrow> same_session se1 se2 \<Longrightarrow> same_session se se2"
  by (cases se; cases se1; cases se2) (simp add: same_session_def)

lemma same_session_upd [simp]:
  "same_session se (se\<lparr>se_out := cs, se_out_pending := n\<rparr>)"
  "same_session se (se\<lparr>se_out := cs, se_out_pending := n, se_highwater_hit := b\<rparr>)"
  by (simp_all add: same_session_def)

lemma same_sessionD: "same_session se se' \<Longrightarrow> se_sock se' = se_sock se \<and> se_server se' = se_server se \<and> se_poller se' = se_poller se \<and>
    se_closing se' = se_closing se \<and> se_user se' = se_user se"
  by (cases se; cases se') (simp add: same_session_def)

lemma advance_spec:
  assumes "out_ok E hold (tbufs s) se" and "tsessions s a = Some se" and "n \<le> length (pend (tbufs s) (se_out se))"
    and "length (pend (tbufs s) (se_out se)) < 2 ^ 63"
  shows "\<exists>h se'. session_out_advance_sent E a (of_nat n) s = Some (put_sess a se' h s) \<and> out_ok E hold h se' \<and>
     same_session se se' \<and> pend h (se_out se') = drop n (pend (tbufs s) (se_out se)) \<and> same_data hold (tbufs s) h"
  using assms
proof (induction "se_out se" arbitrary: se s n)
  case Nil
  then have "n = 0" by (metis le_zero_eq list.size(3) pend_simps(1))
  then show ?case using Nil by (intro exI [of _ "tbufs s"] exI [of _ se])
      (simp add: session_out_advance_sent.simps put_sess_def fun_upd_idem)
next
  case (Cons c cs)
  note out = Cons.hyps(2) [symmetric]
  have q: "queue_ok (te_self E) hold (tbufs s) (c # cs)" using Cons.prems(1) out by (simp add: out_ok_def)
  have ck: "chunk_ok (tbufs s) c" by (rule queue_okD(2) [OF q]) simp
  let ?m = "length (pend (tbufs s) cs)" and ?l = "unat (ck_len c)"
  have len: "length (pend (tbufs s) (se_out se)) = ?m + ?l" using chunk_len [OF ck] out by simp
  then have bound: "?m + ?l < 2 ^ 63" using Cons.prems(4) by simp
  have l0: "0 < ?l" by (rule chunk_len_pos [OF ck])
  have pd: "se_out_pending se = of_nat (?m + ?l)" using Cons.prems(1) len by (simp add: out_ok_def)
  have un: "unat (of_nat n :: size_t) = n" using Cons.prems(3,4) by (intro of_nat_inverse) auto
  show ?case
  proof (cases "n = 0")
    case True
    then show ?thesis using Cons.prems by (intro exI [of _ "tbufs s"] exI [of _ se])
        (simp add: session_out_advance_sent.simps put_sess_def fun_upd_idem)
  next
    case False
    then have n0: "(of_nat n :: size_t) \<noteq> 0" using un by (metis unat_0)
    have len0: "ck_len c \<noteq> 0" using ck by (simp add: chunk_ok_def)
    show ?thesis
    proof (cases "?l \<le> n")
      case True
      let ?se = "se\<lparr>se_out := cs, se_out_pending := of_nat ?m\<rparr>"
      obtain h where h: "session_out_pop_chunk E a s = Some (put_sess a ?se h s)" "queue_ok (te_self E) hold h cs"
          "pend h cs = pend (tbufs s) cs" "same_data hold (tbufs s) h"
        using pop_chunk_spec [OF q Cons.prems(2) out] sub_floor_len [of ?m "ck_len c"] bound pd by auto
      have "\<exists>h' se'. session_out_advance_sent E a (of_nat (n - ?l)) (put_sess a ?se h s) = Some (put_sess a se' h' (put_sess a ?se h s)) \<and>
          out_ok E hold h' se' \<and> same_session ?se se' \<and> pend h' (se_out se') = drop (n - ?l) (pend (tbufs (put_sess a ?se h s)) (se_out ?se)) \<and>
          same_data hold (tbufs (put_sess a ?se h s)) h'"
        by (rule Cons.hyps(1)) (use h Cons.prems(3) len bound True in \<open>auto simp: out_ok_def\<close>)
      then obtain h' se' where ih: "session_out_advance_sent E a (of_nat (n - ?l)) (put_sess a ?se h s) = Some (put_sess a se' h' s)"
          "out_ok E hold h' se'" "same_session ?se se'" "pend h' (se_out se') = drop (n - ?l) (pend (tbufs s) cs)" "same_data hold h h'"
        using h(3) by auto
      have "ck_len c \<le> of_nat n" using True un by (simp add: word_le_nat_alt)
      moreover have "of_nat n - ck_len c = of_nat (n - ?l)" using True by (simp add: of_nat_diff)
      ultimately have "session_out_advance_sent E a (of_nat n) s = Some (put_sess a se' h' s)"
        using n0 len0 Cons.prems(2) out h(1) ih(1) by (subst session_out_advance_sent.simps) simp
      moreover have "same_session se se'" by (rule same_session_trans [OF _ ih(3)]) simp
      moreover have "drop n (pend (tbufs s) (se_out se)) = drop (n - ?l) (pend (tbufs s) cs)"
        using out True chunk_len [OF ck] by simp
      moreover have "same_data hold (tbufs s) h'" by (rule same_data_trans [OF h(4) ih(5)])
      ultimately show ?thesis using ih(2,4) by auto
    next
      case False
      let ?c = "c\<lparr>ck_off := ck_off c + of_nat n, ck_len := ck_len c - of_nat n\<rparr>"
      let ?se = "se\<lparr>se_out := ?c # cs, se_out_pending := of_nat (?m + ?l - n)\<rparr>"
      have lt: "n < ?l" using False by simp
      have "owed hold (?c # cs) = owed hold (c # cs)" by (simp add: owed_def fun_eq_iff)
      then have q': "queue_ok (te_self E) hold (tbufs s) (?c # cs)"
        using q chunk_rest(1) [OF ck lt] by (auto simp: queue_ok_def)
      have "\<not> ck_len c \<le> of_nat n" using lt un by (simp add: word_le_nat_alt)
      moreover have "sub_floor (se_out_pending se) (of_nat n) = of_nat (?m + ?l - n)"
        using sub_floor_len [of "?m + ?l - n" "of_nat n"] un lt bound pd by simp
      ultimately have "session_out_advance_sent E a (of_nat n) s = Some (put_sess a ?se (tbufs s) s)"
        using n0 len0 Cons.prems(2) out by (subst session_out_advance_sent.simps) (simp add: upd_sess_put)
      moreover have "pend (tbufs s) (se_out ?se) = drop n (pend (tbufs s) (se_out se))"
        using chunk_rest(2) [OF ck lt] chunk_len [OF ck] lt out by simp
      moreover have "out_ok E hold (tbufs s) ?se"
        using q' chunk_rest(2) [OF ck lt] chunk_len [OF ck] lt by (simp add: out_ok_def)
      ultimately show ?thesis by (intro exI [of _ "tbufs s"] exI [of _ ?se]) simp
    qed
  qed
qed

section \<open>The socket takes bytes\<close>

text \<open>
  \<open>passes wire fd s s' k\<close>: between the two states exactly the bytes \<open>k\<close> were handed to the kernel for
  descriptor \<open>fd\<close>, and none for any other. \<open>sends_some\<close>: a send of something never answers 0.
\<close>

definition passes :: "('w \<Rightarrow> int \<Rightarrow> mem) \<Rightarrow> int \<Rightarrow> ('f, 'w, 'x) tnet \<Rightarrow> ('f, 'w, 'x) tnet \<Rightarrow> mem \<Rightarrow> bool" where
  "passes wire fd s s' k \<longleftrightarrow>
     wire (world (nsys s')) = (wire (world (nsys s)))(fd := wire (world (nsys s)) fd @ k)"

definition sends_some :: "'w os \<Rightarrow> bool" where
  "sends_some os \<longleftrightarrow> (\<forall>fd m ms w. (m \<noteq> [] \<longrightarrow> ret (fst (os (Sys_send fd m) w)) \<noteq> 0) \<and>
     (concat ms \<noteq> [] \<longrightarrow> ret (fst (os (Sys_writev fd ms) w)) \<noteq> 0))"

lemma passes_refl: "nsys s' = nsys s \<Longrightarrow> passes wire fd s s' []"
  by (simp add: passes_def)

lemma passes_trans: "passes wire fd s s1 k \<Longrightarrow> passes wire fd s1 s2 l \<Longrightarrow> passes wire fd s s2 (k @ l)"
  by (simp add: passes_def)

lemma takes_passes: "takes wire (world (nsys s)) (world y) fd m n \<Longrightarrow> passes wire fd s (s\<lparr>nsys := y\<rparr>) (take (nat n) m)"
  by (auto simp: takes_def passes_def split: if_splits)

definition live_sock :: "('f, 'w, 'x) tnet \<Rightarrow> nat option \<Rightarrow> int \<Rightarrow> bool" where
  "live_sock s sk fd \<longleftrightarrow> (\<exists>k so. sk = Some k \<and> socks s k = Some so \<and> s_fd so = fd \<and> 0 \<le> fd)"

lemma sysc_nonzero:
  assumes "ret (fst (os c (world s))) \<noteq> 0"
  shows "fst (io_result (sysc os c s)) \<noteq> 0"
proof -
  have "ret (fst (sysc os c s)) \<noteq> 0" using assms by (simp add: sysc_def split_def Let_def)
  then show ?thesis using err_code_neg [OF map_errno_not_ok [of "snd (sysc os c s)"]]
    by (simp add: io_result_def split_def Let_def)
qed

lemma socket_send_spec:
  assumes "sends_ok os wire" and "sends_some os" and "live_sock s sk fd" and "m \<noteq> []"
  shows "\<exists>n y. ztk_socket_send os sk m s = Some (n, s\<lparr>nsys := y\<rparr>) \<and> takes wire (world (nsys s)) (world y) fd m n \<and> n \<noteq> 0"
proof -
  obtain n y where ny: "ztk_sockplat_send os fd m (nsys s) = (n, y)" by fastforce
  have "n \<noteq> 0"
    using ny sysc_nonzero [of os "Sys_send fd m" "nsys s"] assms(2,4)
    by (simp add: ztk_sockplat_send_def sends_some_def)
  then show ?thesis
    using assms(3) ny sockplat_send_takes [OF assms(1) ny] by (auto simp: ztk_socket_send_def live_sock_def)
qed

lemma socket_sendv_spec:
  assumes "sends_ok os wire" and "sends_some os" and "live_sock s sk fd" and "concat ms \<noteq> []" and "length ms \<le> ZTK_SOCKET_IOV_MAX"
  shows "\<exists>n y. ztk_socket_sendv os sk ms s = Some (n, s\<lparr>nsys := y\<rparr>) \<and>
     takes wire (world (nsys s)) (world y) fd (concat ms) n \<and> n \<noteq> 0"
proof -
  obtain n y where ny: "ztk_sockplat_sendv os fd ms (nsys s) = (n, y)" by fastforce
  have len: "length ms \<le> ZTK_SOCK_IOV_MAX" using assms(5) by (simp add: ZTK_SOCK_IOV_MAX_def ZTK_SOCKET_IOV_MAX_def)
  have "n \<noteq> 0"
    using ny sysc_nonzero [of os "Sys_writev fd ms" "nsys s"] assms(2,4) len
    by (auto simp: ztk_sockplat_sendv_def sends_some_def split: if_splits)
  then show ?thesis
    using assms(3-5) ny sockplat_sendv_takes [OF assms(1) ny len] by (auto simp: ztk_socket_sendv_def live_sock_def)
qed

lemma iov_chunks: "\<forall>c \<in> set cs. chunk_ok h c \<Longrightarrow> out_iov h k cs = Some (map (chunk_bytes h) (take k cs))"
  by (induction h k cs rule: out_iov.induct) (auto simp: chunk_ok_def chunk_bytes_def)

lemma flush_total_chunks:
  "\<forall>c \<in> set cs. chunk_ok h c \<Longrightarrow> flush_total k cs = (min k (length cs), of_nat (length (pend h (take k cs))))"
proof (induction k cs rule: flush_total.induct)
  case (3 k c cs)
  then have c: "chunk_ok h c" by simp
  then have "ck_len c \<noteq> 0" by (simp add: chunk_ok_def)
  moreover have "ck_len c = of_nat (length (chunk_bytes h c))" using chunk_len [OF c] by simp
  ultimately show ?case using 3 by (simp add: add.commute)
qed simp_all

lemma try_sendv_spec:
  assumes "sends_ok (te_os E) wire" and "sends_some (te_os E)" and "live_sock s (se_sock se) fd"
    and "tsessions s a = Some se" and "\<forall>c \<in> set (se_out se). chunk_ok (tbufs s) c" and "se_out se \<noteq> []"
  shows "\<exists>n y. session_out_try_sendv E a s = Some (n, s\<lparr>nsys := y\<rparr>) \<and> n \<noteq> 0 \<and>
     takes wire (world (nsys s)) (world y) fd (pend (tbufs s) (take ZTK_SOCKET_IOV_MAX (se_out se))) n"
proof -
  let ?iov = "map (chunk_bytes (tbufs s)) (take ZTK_SOCKET_IOV_MAX (se_out se))"
  obtain c cs where out: "se_out se = c # cs" using assms(6) by (cases "se_out se") auto
  have "length (chunk_bytes (tbufs s) c) = unat (ck_len c)" using assms(5) out by (intro chunk_len) simp
  then have c: "chunk_bytes (tbufs s) c \<noteq> []" using chunk_len_pos [of "tbufs s" c] assms(5) out by auto
  obtain m iov where iov: "?iov = m # iov" "m \<noteq> []" using c out by (simp add: ZTK_SOCKET_IOV_MAX_def)
  have pe: "pend (tbufs s) (take ZTK_SOCKET_IOV_MAX (se_out se)) = concat ?iov" by (simp only: pend_def)
  have sk: "se_sock se \<noteq> None" using assms(3) by (auto simp: live_sock_def)
  have len: "length ?iov \<le> ZTK_SOCKET_IOV_MAX" by simp
  show ?thesis
  proof (cases iov)
    case Nil
    then have "session_out_try_sendv E a s = ztk_socket_send (te_os E) (se_sock se) m s"
      using assms(4) sk iov iov_chunks [OF assms(5), of ZTK_SOCKET_IOV_MAX]
      by auto (simp add: session_out_try_sendv_def)
    then show ?thesis
      unfolding pe iov(1) Nil using socket_send_spec [OF assms(1-3) iov(2)] by auto
  next
    case (Cons m2 iov2)
    then have "session_out_try_sendv E a s = ztk_socket_sendv (te_os E) (se_sock se) ?iov s"
      using assms(4) sk iov iov_chunks [OF assms(5), of ZTK_SOCKET_IOV_MAX]
      by auto (simp add: session_out_try_sendv_def)
    moreover have "concat ?iov \<noteq> []" using iov by simp
    ultimately show ?thesis
      unfolding pe using socket_sendv_spec [OF assms(1-3) _ len] by auto
  qed
qed

section \<open>Flushing\<close>

text \<open>
  \<open>sess_ok\<close> is the invariant of session \<open>a\<close> on descriptor \<open>fd\<close>. \<open>moves a s s'\<close>: of the whole state
  only the queue of \<open>a\<close>, the buffers, the kernel, the allocator and the application's own state differ.
\<close>

definition sess_ok :: "('f, 'w, 'x) tcp_env \<Rightarrow> (nat \<Rightarrow> nat) \<Rightarrow> nat \<Rightarrow> int \<Rightarrow> ('f, 'w, 'x) tnet \<Rightarrow> bool" where
  "sess_ok E hold a fd s \<longleftrightarrow> (\<exists>se. tsessions s a = Some se \<and> out_ok E hold (tbufs s) se \<and> live_sock s (se_sock se) fd \<and>
     (\<forall>v. se_server se = Some v \<longrightarrow> tservers s v \<noteq> None))"

definition out_bytes :: "nat \<Rightarrow> ('f, 'w, 'x) tnet \<Rightarrow> mem" where
  "out_bytes a s = (case tsessions s a of None \<Rightarrow> [] | Some se \<Rightarrow> pend (tbufs s) (se_out se))"

definition moves :: "nat \<Rightarrow> ('f, 'w, 'x) tnet \<Rightarrow> ('f, 'w, 'x) tnet \<Rightarrow> bool" where
  "moves a s s' \<longleftrightarrow> (\<exists>y m h se se' x. tsessions s a = Some se \<and> same_session se se' \<and>
     s' = s\<lparr>nsys := y, nmem := m, tbufs := h, tsessions := (tsessions s)(a \<mapsto> se'), tapp := x\<rparr>)"

lemma movesI:
  assumes "tsessions s a = Some se" and "same_session se se'"
  shows "moves a s (s\<lparr>nsys := y, nmem := m, tbufs := h, tsessions := (tsessions s)(a \<mapsto> se'), tapp := x\<rparr>)"
  using assms unfolding moves_def by blast

lemma moves_trans:
  assumes "moves a s s1" and "moves a s1 s2"
  shows "moves a s s2"
proof -
  obtain y m h se se' x where 1: "tsessions s a = Some se" "same_session se se'"
     "s1 = s\<lparr>nsys := y, nmem := m, tbufs := h, tsessions := (tsessions s)(a \<mapsto> se'), tapp := x\<rparr>"
    using assms(1) unfolding moves_def by blast
  obtain y2 m2 h2 se2 se2' x2 where 2: "tsessions s1 a = Some se2" "same_session se2 se2'"
     "s2 = s1\<lparr>nsys := y2, nmem := m2, tbufs := h2, tsessions := (tsessions s1)(a \<mapsto> se2'), tapp := x2\<rparr>"
    using assms(2) unfolding moves_def by blast
  have "se2 = se'" using 1(3) 2(1) by simp
  then have "same_session se se2'" using 1(2) 2(2) same_session_trans by blast
  moreover have "s2 = s\<lparr>nsys := y2, nmem := m2, tbufs := h2, tsessions := (tsessions s)(a \<mapsto> se2'), tapp := x2\<rparr>"
    unfolding 2(3) 1(3) by simp
  ultimately show ?thesis using movesI [OF 1(1)] by simp
qed

lemma moves_sys:
  assumes "tsessions s a = Some se"
  shows "moves a s (s\<lparr>nsys := y\<rparr>)"
  using movesI [OF assms same_session_refl, where y = y and m = "nmem s" and h = "tbufs s" and x = "tapp s"] assms
  by (simp add: fun_upd_idem)

lemma moves_refl: "tsessions s a = Some se \<Longrightarrow> moves a s s"
  using moves_sys [of s a se "nsys s"] by simp

lemma moves_put:
  assumes "tsessions s a = Some se" and "same_session se se'"
  shows "moves a s (put_sess a se' h s)"
proof -
  have eq: "put_sess a se' h s = s\<lparr>nsys := nsys s, nmem := nmem s, tbufs := h, tsessions := (tsessions s)(a \<mapsto> se'), tapp := tapp s\<rparr>"
    by (simp add: put_sess_def)
  show ?thesis unfolding eq by (rule movesI [OF assms])
qed

lemma movesD: "moves a s s' \<Longrightarrow> socks s' = socks s \<and> tservers s' = tservers s \<and> npollers s' = npollers s \<and>
     (\<forall>b. b \<noteq> a \<longrightarrow> tsessions s' b = tsessions s b)"
  by (auto simp: moves_def)

lemma sess_okI:
  assumes "moves a s s'" and "sess_ok E hold0 a fd s" and "tsessions s' a = Some se'" and "out_ok E hold (tbufs s') se'"
  shows "sess_ok E hold a fd s'"
proof -
  obtain se where se: "tsessions s a = Some se" "live_sock s (se_sock se) fd"
      "\<forall>v. se_server se = Some v \<longrightarrow> tservers s v \<noteq> None"
    using assms(2) by (auto simp: sess_ok_def)
  have "same_session se se'" using assms(1,3) se(1) by (auto simp: moves_def)
  from same_sessionD [OF this] have "se_sock se' = se_sock se" "se_server se' = se_server se" by simp_all
  moreover have "live_sock s' sk fd = live_sock s sk fd" for sk using movesD [OF assms(1)] by (simp add: live_sock_def)
  moreover have "tservers s' = tservers s" using movesD [OF assms(1)] by simp
  ultimately show ?thesis unfolding sess_ok_def using assms(3,4) se(2,3) by (simp split: option.splits)
qed

text \<open>
  The flush returns, whatever the kernel answers: each round takes bytes off the queue. What it
  took off is what the kernel got.
\<close>

lemma flush_round:
  assumes "tsessions s a = Some se" and "se_sock se = Some k" and "se_out se = c # cs" and "ck_len c \<noteq> 0"
    and "flush_total ZTK_SOCKET_IOV_MAX (c # cs) = (j, t)" and "j \<noteq> 0" and "session_out_try_sendv E a s = Some (n, s1)"
  shows "session_out_flush E a s =
     (if n = sint t \<or> 0 < n then Option.bind (session_out_advance_sent E a (of_int n) s1) (session_out_flush E a) else Some s1)"
  using assms by (subst session_out_flush.simps) auto

lemma flush_spec:
  assumes "sends_ok (te_os E) wire" and "sends_some (te_os E)" and "sess_ok E hold a fd s" and "length (out_bytes a s) < 2 ^ 63"
  shows "\<exists>s' k. session_out_flush E a s = Some s' \<and> sess_ok E hold a fd s' \<and> moves a s s' \<and>
     passes wire fd s s' k \<and> out_bytes a s = k @ out_bytes a s' \<and> same_data hold (tbufs s) (tbufs s')"
  using assms(3,4)
proof (induction "length (out_bytes a s)" arbitrary: s rule: less_induct)
  case less
  obtain se where se: "tsessions s a = Some se" "out_ok E hold (tbufs s) se" "live_sock s (se_sock se) fd"
    using less.prems(1) by (auto simp: sess_ok_def)
  have ob: "out_bytes a s = pend (tbufs s) (se_out se)" using se(1) by (simp add: out_bytes_def)
  obtain sk where sk: "se_sock se = Some sk" using se(3) by (auto simp: live_sock_def)
  have ck: "\<forall>c \<in> set (se_out se). chunk_ok (tbufs s) c" using se(2) by (simp add: out_ok_def queue_ok_def)
  show ?case
  proof (cases "se_out se")
    case Nil
    then have "session_out_flush E a s = Some s" using se(1) by (subst session_out_flush.simps) simp
    then show ?thesis using less.prems(1) moves_refl [OF se(1)] passes_refl by fastforce
  next
    case (Cons c cs)
    let ?front = "pend (tbufs s) (take ZTK_SOCKET_IOV_MAX (se_out se))"
    let ?rest = "pend (tbufs s) (drop ZTK_SOCKET_IOV_MAX (se_out se))"
    have split: "out_bytes a s = ?front @ ?rest" unfolding ob pend_simps(3) [symmetric] append_take_drop_id ..
    obtain n y where n: "session_out_try_sendv E a s = Some (n, s\<lparr>nsys := y\<rparr>)" "n \<noteq> 0"
        "takes wire (world (nsys s)) (world y) fd ?front n"
      using try_sendv_spec [OF assms(1,2) se(3,1) ck] Cons by auto
    let ?s1 = "s\<lparr>nsys := y\<rparr>"
    have tot: "flush_total ZTK_SOCKET_IOV_MAX (se_out se) = (min ZTK_SOCKET_IOV_MAX (length (se_out se)), of_nat (length ?front))"
      by (rule flush_total_chunks [OF ck])
    have "length ?front < 2 ^ 63" using split less.prems(2) by simp
    then have sint: "sint (of_nat (length ?front) :: size_t) = int (length ?front)" by (rule sint_of_nat_small)
    have c0: "ck_len c \<noteq> 0" using ck Cons by (simp add: chunk_ok_def)
    have cnt: "min ZTK_SOCKET_IOV_MAX (length (se_out se)) \<noteq> 0" using Cons by (simp add: ZTK_SOCKET_IOV_MAX_def)
    note round = flush_round [OF se(1) sk Cons c0 tot [unfolded Cons] cnt [unfolded Cons] n(1)]
    have sint': "sint (of_nat (length (pend (tbufs s) (take ZTK_SOCKET_IOV_MAX (c # cs)))) :: size_t) = int (length ?front)"
      using sint Cons by simp
    show ?thesis
    proof (cases "0 < n")
      case False
      then have "n \<noteq> int (length ?front)" using n(2) by linarith
      then have "session_out_flush E a s = Some ?s1"
        unfolding round sint' using False by simp
      moreover have "passes wire fd s ?s1 []" using takes_passes [OF n(3)] False by simp
      moreover have "sess_ok E hold a fd ?s1" by (rule sess_okI [OF moves_sys [OF se(1)] less.prems(1)]) (use se in simp_all)
      moreover have "out_bytes a ?s1 = out_bytes a s" using se(1) by (simp add: out_bytes_def)
      ultimately show ?thesis using moves_sys [OF se(1)] by fastforce
    next
      case True
      then have nl: "nat n \<le> length ?front" using n(3) by (simp add: takes_def)
      then have nl2: "nat n \<le> length (out_bytes a s)" using split by simp
      have "\<exists>h se'. session_out_advance_sent E a (of_nat (nat n)) ?s1 = Some (put_sess a se' h ?s1) \<and> out_ok E hold h se' \<and>
         same_session se se' \<and> pend h (se_out se') = drop (nat n) (pend (tbufs ?s1) (se_out se)) \<and> same_data hold (tbufs ?s1) h"
        by (rule advance_spec) (use se nl2 less.prems(2) ob in simp_all)
      then obtain h se' where adv: "session_out_advance_sent E a (of_int n) ?s1 = Some (put_sess a se' h ?s1)"
          "out_ok E hold h se'" "same_session se se'" "pend h (se_out se') = drop (nat n) (out_bytes a s)"
          "same_data hold (tbufs s) h"
        using True ob by auto
      let ?s2 = "put_sess a se' h ?s1"
      have mv: "moves a s ?s2" by (rule moves_trans [OF moves_sys [OF se(1)] moves_put]) (use se(1) adv(3) in simp_all)
      have ok2: "sess_ok E hold a fd ?s2" by (rule sess_okI [OF mv less.prems(1)]) (use adv(2) in simp_all)
      have ob2: "out_bytes a ?s2 = drop (nat n) (out_bytes a s)" using adv(4) by (simp add: out_bytes_def)
      have lt: "length (out_bytes a ?s2) < length (out_bytes a s)" using ob2 True nl2 by simp
      obtain s' k where ih: "session_out_flush E a ?s2 = Some s'" "sess_ok E hold a fd s'" "moves a ?s2 s'"
          "passes wire fd ?s2 s' k" "out_bytes a ?s2 = k @ out_bytes a s'" "same_data hold h (tbufs s')"
        using less.hyps [OF lt ok2] lt less.prems(2) by auto
      have "session_out_flush E a s = Some s'"
        unfolding round using True adv(1) ih(1) by simp
      moreover have "passes wire fd s s' (take (nat n) ?front @ k)"
        by (rule passes_trans [OF takes_passes [OF n(3)]]) (use ih(4) in \<open>simp add: passes_def put_sess_def\<close>)
      moreover have "take (nat n) ?front = take (nat n) (out_bytes a s)" using split nl by simp
      moreover have "out_bytes a s = (take (nat n) (out_bytes a s) @ k) @ out_bytes a s'"
        using append_take_drop_id [of "nat n" "out_bytes a s"] ob2 ih(5) by simp
      moreover have "same_data hold (tbufs s) (tbufs s')" by (rule same_data_trans [OF adv(5) ih(6)])
      ultimately show ?thesis using ih(2) moves_trans [OF mv ih(3)] by metis
    qed
  qed
qed

section \<open>Queueing\<close>

text \<open>
  The high-water callback is called in the middle of queueing. \<open>mild\<close> says that it only changes the
  application's own state; one that closes the session frees what the sender goes on to use.
\<close>

definition mild :: "('f, 'w, 'x) tcp_env \<Rightarrow> bool" where
  "mild E \<longleftrightarrow> (\<forall>f a p u s. \<exists>x. te_high E f a p u s = Some (s\<lparr>tapp := x\<rparr>))"

definition queued ::
    "('f, 'w, 'x) tcp_env \<Rightarrow> (nat \<Rightarrow> nat) \<Rightarrow> nat \<Rightarrow> int \<Rightarrow> ('f, 'w, 'x) tnet \<Rightarrow> mem \<Rightarrow> int \<Rightarrow> ('f, 'w, 'x) tnet \<Rightarrow> bool" where
  "queued E hold a fd s d r s' \<longleftrightarrow> sess_ok E hold a fd s' \<and> moves a s s' \<and> nsys s' = nsys s \<and> same_data hold (tbufs s) (tbufs s') \<and>
     (\<exists>p q. d = p @ q \<and> out_bytes a s' = out_bytes a s @ p \<and> (r = 0 \<longrightarrow> q = []))"

lemma moves_buf:
  assumes "tsessions s a = Some se"
  shows "moves a s (s\<lparr>tbufs := h\<rparr>)"
  using moves_put [OF assms same_session_refl, of h] assms by (simp add: put_sess_def fun_upd_idem)

lemma moves_mem:
  assumes "tsessions s a = Some se"
  shows "moves a s (snd (take_mem s))"
proof -
  have "moves a s (s\<lparr>nmem := m\<rparr>)" for m
    using movesI [OF assms same_session_refl, where y = "nsys s" and m = m and h = "tbufs s" and x = "tapp s"] assms
    by (simp add: fun_upd_idem)
  from this [of "nmem s"] this show ?thesis by (auto simp: take_mem_def split: list.splits)
qed

lemma take_mem_same [simp]:
  "tsessions (snd (take_mem s)) = tsessions s" "tbufs (snd (take_mem s)) = tbufs s" "nsys (snd (take_mem s)) = nsys s"
  by (simp_all add: take_mem_def split: list.splits)

lemma out_bytes_same: "tsessions s' a = tsessions s a \<Longrightarrow> tbufs s' = tbufs s \<Longrightarrow> out_bytes a s' = out_bytes a s"
  by (simp add: out_bytes_def split: option.splits)

lemma sess_ok_same:
  assumes "sess_ok E hold a fd s" and "moves a s s'" and "tsessions s' a = tsessions s a" and "tbufs s' = tbufs s"
  shows "sess_ok E hold a fd s'"
proof -
  obtain se where se: "tsessions s a = Some se" "out_ok E hold (tbufs s) se" using assms(1) by (auto simp: sess_ok_def)
  then show ?thesis using sess_okI [OF assms(2,1), of se] assms(3,4) by simp
qed

lemma sess_get: "sess_ok E hold a fd s \<Longrightarrow> \<exists>se. tsessions s a = Some se"
  by (auto simp: sess_ok_def)

lemma uses_le:
  assumes "\<forall>c \<in> set cs. chunk_ok h c"
  shows "uses cs b \<le> length (pend h cs)"
  using assms
proof (induction cs)
  case (Cons c cs)
  then have "1 \<le> length (chunk_bytes h c)" using chunk_len [of h c] chunk_len_pos [of h c] by simp
  moreover have "uses cs b \<le> length (pend h cs)" using Cons by simp
  ultimately show ?case by (simp only: uses_simps pend_simps length_append) (auto intro: add_mono)
qed simp

text \<open>The heap changes in a way that keeps the buffers of the queue.\<close>

lemma sess_heap:
  assumes "sess_ok E hold a fd s" and "tsessions s a = Some se"
    and "refs (te_self E) (owed hold' (se_out se)) h" and "same_data (uses (se_out se)) (tbufs s) h"
  shows "sess_ok E hold' a fd (s\<lparr>tbufs := h\<rparr>)" and "out_bytes a (s\<lparr>tbufs := h\<rparr>) = out_bytes a s"
proof -
  have o: "out_ok E hold (tbufs s) se" using assms(1,2) by (auto simp: sess_ok_def)
  have q: "queue_ok (te_self E) hold' h (se_out se) \<and> pend h (se_out se) = pend (tbufs s) (se_out se)"
    by (rule queue_keep [OF _ assms(3,4)]) (use o in \<open>auto simp: out_ok_def\<close>)
  then have "out_ok E hold' h se" using o by (simp add: out_ok_def)
  then show "sess_ok E hold' a fd (s\<lparr>tbufs := h\<rparr>)"
    using sess_okI [OF moves_buf [OF assms(2)] assms(1)] assms(2) by simp
  show "out_bytes a (s\<lparr>tbufs := h\<rparr>) = out_bytes a s" using q assms(2) by (simp add: out_bytes_def)
qed

lemma enqueue_spec:
  assumes "mild E" and "tsessions s a = Some se" and "\<forall>v. se_server se = Some v \<longrightarrow> tservers s v \<noteq> None"
  shows "\<exists>hit x. session_out_enqueue E a c s = Some (0, (put_sess a (se\<lparr>se_out := se_out se @ [c],
     se_out_pending := se_out_pending se + ck_len c, se_highwater_hit := hit\<rparr>) (tbufs s) s)\<lparr>tapp := x\<rparr>)"
proof -
  let ?se = "se\<lparr>se_out := se_out se @ [c], se_out_pending := se_out_pending se + ck_len c\<rparr>"
  let ?s = "put_sess a ?se (tbufs s) s"
  let ?P = "\<lambda>o'. \<exists>hit x. o' = Some ((put_sess a (?se\<lparr>se_highwater_hit := hit\<rparr>) (tbufs s) s)\<lparr>tapp := x\<rparr>)"
  have keep: "?P (Some ?s)"
    by (rule exI [of _ "se_highwater_hit se"], rule exI [of _ "tapp s"]) (simp add: put_sess_def)
  have hit: "upd_sess a (\<lambda>se. se\<lparr>se_highwater_hit := b\<rparr>) ?s = put_sess a (?se\<lparr>se_highwater_hit := b\<rparr>) (tbufs s) s" for b
    by (subst upd_sess_put [of _ _ ?se]) simp_all
  have off: "?P (Some (upd_sess a (\<lambda>se. se\<lparr>se_highwater_hit := b\<rparr>) ?s))" for b
    unfolding hit by (rule exI [of _ b], rule exI [of _ "tapp s"]) (simp add: put_sess_def)
  have on: "?P (te_high E f a p u (upd_sess a (\<lambda>se. se\<lparr>se_highwater_hit := b\<rparr>) ?s))" for f p u b
    unfolding hit using assms(1) by (metis mild_def)
  have "?P (session_out_check_highwater E a ?s)"
  proof (cases "se_server se")
    case None
    then show ?thesis using keep by (simp add: session_out_check_highwater_def)
  next
    case (Some v)
    then obtain srv where "tservers s v = Some srv" using assms(3) by auto
    then have v: "tservers ?s v = Some srv" by (simp add: put_sess_def)
    show ?thesis
      using keep off [of False] on [of _ _ _ True] Some v
      by (cases "sv_on_highwater srv") (simp_all add: session_out_check_highwater_def)
  qed
  then show ?thesis by (auto simp: session_out_enqueue_def upd_sess_put [OF assms(2)])
qed

lemma unat_size: "unat (w :: size_t) < 2 ^ 64"
  using unsigned_less [of w, where ?'a = nat] by simp

lemma chunk_keep:
  assumes "chunk_ok h c" and "\<And>b. ck_data c = Out_buf b \<Longrightarrow> bdata h' b = bdata h b"
  shows "chunk_ok h' c" and "chunk_bytes h' c = chunk_bytes h c"
  using assms(1) chunk_ptr_same [of c h' h] assms(2) by (simp_all add: chunk_ok_def chunk_bytes_def)

lemma add_chunk:
  assumes mild: "mild E" and ok: "sess_ok E hold a fd s" and b: "0 < hold b" and room: "hold b + length (out_bytes a s) + 1 < 2 ^ 31"
    and c: "ck_data c = Out_buf b" "chunk_ok (tbufs s) c"
  shows "\<exists>h s'. ztk_buf_ref (Some b) (tbufs s) = Some (Some b, h) \<and> session_out_enqueue E a c (s\<lparr>tbufs := h\<rparr>) = Some (0, s') \<and>
     queued E hold a fd s (chunk_bytes (tbufs s) c) 0 s'"
proof -
  obtain se where se: "tsessions s a = Some se" "out_ok E hold (tbufs s) se"
      "\<forall>v. se_server se = Some v \<longrightarrow> tservers s v \<noteq> None"
    using ok by (auto simp: sess_ok_def)
  let ?cs = "se_out se" and ?R = "owed hold (se_out se)"
  have q: "queue_ok (te_self E) hold (tbufs s) ?cs" using se(2) by (simp add: out_ok_def)
  then have ck: "\<forall>c \<in> set ?cs. chunk_ok (tbufs s) c" by (simp add: queue_ok_def)
  have ob: "out_bytes a s = pend (tbufs s) ?cs" using se(1) by (simp add: out_bytes_def)
  have "?R b + 1 < 2 ^ 31" using room uses_le [OF ck, of b] ob by (simp add: owed_def)
  moreover have "0 < ?R b" using b by (simp add: owed_def)
  ultimately obtain h where h: "ztk_buf_ref (Some b) (tbufs s) = Some (Some b, h)" "refs (te_self E) (?R(b := ?R b + 1)) h"
      "same_data ?R (tbufs s) h"
    using buf_ref_spec [OF queue_okD(1) [OF q]] by blast
  have R': "?R(b := ?R b + 1) = owed hold (?cs @ [c])" using c(1) by (auto simp: owed_def fun_eq_iff)
  have "bdata h b = bdata (tbufs s) b" using same_dataD [OF h(3)] b by (simp add: owed_def)
  then have bk: "bdata h x = bdata (tbufs s) x" if "ck_data c = Out_buf x" for x using that c(1) by simp
  note c' = chunk_keep [OF c(2) bk]
  have keep: "chunk_ok h d \<and> chunk_bytes h d = chunk_bytes (tbufs s) d" if "d \<in> set ?cs" for d
  proof -
    have "bdata h x = bdata (tbufs s) x" if "ck_data d = Out_buf x" for x
      by (rule same_dataD [OF h(3) uses_pos [OF \<open>d \<in> set ?cs\<close> that]])
    note k = chunk_keep [OF bspec [OF ck \<open>d \<in> set ?cs\<close>] this]
    show ?thesis by (rule conjI [OF k])
  qed
  then have "map (chunk_bytes h) ?cs = map (chunk_bytes (tbufs s)) ?cs" by simp
  then have pe: "pend h ?cs = pend (tbufs s) ?cs" by (simp only: pend_def)
  have q': "queue_ok (te_self E) hold h (?cs @ [c])" using h(2) R' keep c'(1) by (auto simp: queue_ok_def)
  obtain hit x where enq: "session_out_enqueue E a c (s\<lparr>tbufs := h\<rparr>) = Some (0, (put_sess a (se\<lparr>se_out := ?cs @ [c],
       se_out_pending := se_out_pending se + ck_len c, se_highwater_hit := hit\<rparr>) h s)\<lparr>tapp := x\<rparr>)"
    using enqueue_spec [OF mild, of "s\<lparr>tbufs := h\<rparr>" a se c] se(1,3) by (auto simp: put_sess_def)
  let ?se = "se\<lparr>se_out := ?cs @ [c], se_out_pending := se_out_pending se + ck_len c, se_highwater_hit := hit\<rparr>"
  let ?s = "(put_sess a ?se h s)\<lparr>tapp := x\<rparr>"
  have mv: "moves a s ?s"
    using movesI [OF se(1), where se' = ?se and y = "nsys s" and m = "nmem s" and h = h and x = x] by (simp add: put_sess_def)
  have "ck_len c = of_nat (length (chunk_bytes h c))" using chunk_len [OF c'(1)] by simp
  then have "out_ok E hold h ?se" using q' pe se(2) by (simp add: out_ok_def)
  then have "sess_ok E hold a fd ?s" using sess_okI [OF mv ok, of ?se] by (simp add: put_sess_def)
  moreover have "out_bytes a ?s = out_bytes a s @ chunk_bytes (tbufs s) c"
    using pe c'(2) ob by (simp add: out_bytes_def put_sess_def)
  ultimately have "queued E hold a fd s (chunk_bytes (tbufs s) c) 0 ?s"
    using mv same_hold [OF h(3)] by (simp add: queued_def put_sess_def)
  then show ?thesis using h(1) enq by blast
qed

text \<open>Queueing the bytes of a buffer from an offset, for a holder of a reference.\<close>

lemma take_then_chunk:
  assumes mild: "mild E" and ok: "sess_ok E hold a fd s" and b: "0 < hold b" and room: "hold b + length (out_bytes a s) + 1 < 2 ^ 31"
    and c: "ck_data c = Out_buf b" "chunk_ok (tbufs s) c" and tm: "take_mem s = (m, s1)"
  shows "m = None \<and> queued E hold a fd s (chunk_bytes (tbufs s) c) (- 1) s1 \<or>
     m \<noteq> None \<and> (\<exists>h s'. ztk_buf_ref (Some b) (tbufs s1) = Some (Some b, h) \<and> session_out_enqueue E a c (s1\<lparr>tbufs := h\<rparr>) = Some (0, s') \<and>
     queued E hold a fd s (chunk_bytes (tbufs s) c) 0 s')"
proof -
  obtain se where se: "tsessions s a = Some se" using sess_get [OF ok] by blast
  have s1: "s1 = snd (take_mem s)" using tm by simp
  have mv: "moves a s s1" unfolding s1 by (rule moves_mem [OF se])
  have ok1: "sess_ok E hold a fd s1" by (rule sess_ok_same [OF ok mv]) (simp_all add: s1)
  have ob: "out_bytes a s1 = out_bytes a s" by (rule out_bytes_same) (simp_all add: s1)
  have tb: "tbufs s1 = tbufs s" "nsys s1 = nsys s" by (simp_all add: s1)
  obtain h s' where *: "ztk_buf_ref (Some b) (tbufs s1) = Some (Some b, h)" "session_out_enqueue E a c (s1\<lparr>tbufs := h\<rparr>) = Some (0, s')"
     "queued E hold a fd s1 (chunk_bytes (tbufs s1) c) 0 s'"
    using add_chunk [OF mild ok1 b _ c(1)] room c(2) ob tb(1) by auto
  have "queued E hold a fd s (chunk_bytes (tbufs s) c) 0 s'"
    using *(3) mv moves_trans ob tb unfolding queued_def by auto
  moreover have "queued E hold a fd s (chunk_bytes (tbufs s) c) (- 1) s1"
    using ok1 mv ob tb by (auto simp: queued_def)
  ultimately show ?thesis using *(1,2) by (cases m) auto
qed

text \<open>The chunk that stands for \<open>l\<close> bytes of a buffer from offset \<open>o'\<close>.\<close>

lemma buf_chunk:
  assumes "bdata h b = Some (len, p)" and "l \<noteq> 0" and "unat o' + unat l \<le> length p" and "unat o' + unat l < 2 ^ 64"
  shows "chunk_ok h \<lparr>ck_data = Out_buf b, ck_off = o', ck_len = l\<rparr>"
    and "chunk_bytes h \<lparr>ck_data = Out_buf b, ck_off = o', ck_len = l\<rparr> = take (unat l) (drop (unat o') p)"
proof -
  have "ztk_buf_data (Some b) h = Some p" using assms(1) by (auto simp: bdata_def ztk_buf_data_def)
  then have "session_chunk_ptr h \<lparr>ck_data = Out_buf b, ck_off = o', ck_len = l\<rparr> = Some (take (unat l) (drop (unat o') p))"
    using assms(3) by (simp add: session_chunk_ptr_def mem_read_def)
  then show "chunk_ok h \<lparr>ck_data = Out_buf b, ck_off = o', ck_len = l\<rparr>"
    and "chunk_bytes h \<lparr>ck_data = Out_buf b, ck_off = o', ck_len = l\<rparr> = take (unat l) (drop (unat o') p)"
    using assms(2,4) by (simp_all add: chunk_ok_def chunk_bytes_def)
qed

lemma append_buf_spec:
  assumes "mild E" and "sess_ok E hold a fd s" and "0 < hold b" and "hold b + length (out_bytes a s) + 1 < 2 ^ 31"
    and buf: "bdata (tbufs s) b = Some (len, p)" "len \<noteq> 0" "unat len \<le> length p"
  shows "\<exists>r s'. session_out_append_buf E a b s = Some (r, s') \<and> (r = 0 \<or> r = - 1) \<and> queued E hold a fd s (take (unat len) p) r s'"
proof -
  let ?c = "\<lparr>ck_data = Out_buf b, ck_off = 0, ck_len = len\<rparr>"
  have c: "chunk_ok (tbufs s) ?c" "chunk_bytes (tbufs s) ?c = take (unat len) p"
    using buf_chunk [OF buf(1,2), of 0] buf(3) unat_size [of len] by simp_all
  have len: "ztk_buf_len (Some b) (tbufs s) = Some len" using buf(1) by (auto simp: bdata_def ztk_buf_len_def)
  obtain m s1 where tm: "take_mem s = (m, s1)" by fastforce
  have "ck_data ?c = Out_buf b" by simp
  from take_then_chunk [OF assms(1-4) this c(1) tm] show ?thesis
    using len buf(2) tm c(2) by (auto simp: session_out_append_buf_def)
qed

lemma append_buf_rest_spec:
  assumes "mild E" and "sess_ok E hold a fd s" and "0 < hold b" and "hold b + length (out_bytes a s) + 1 < 2 ^ 31"
    and buf: "bdata (tbufs s) b = Some (len, p)" "unat len \<le> length p" "n < len"
  shows "\<exists>r s'. append_buf_rest E a b n len s = Some (r, s') \<and> (r = 0 \<or> r = - 1) \<and>
     queued E hold a fd s (drop (unat n) (take (unat len) p)) r s'"
proof -
  let ?c = "\<lparr>ck_data = Out_buf b, ck_off = n, ck_len = len - n\<rparr>"
  have lt: "unat n < unat len" using buf(3) by (simp add: word_less_nat_alt)
  then have sub: "unat (len - n) = unat len - unat n" using unat_sub_size [of n len] by simp
  have "len - n \<noteq> 0" using buf(3) by auto
  moreover have "unat len < 2 ^ 64" by (rule unat_size)
  ultimately have c: "chunk_ok (tbufs s) ?c" "chunk_bytes (tbufs s) ?c = drop (unat n) (take (unat len) p)"
    using buf_chunk [OF buf(1), of "len - n" n] buf(2) lt sub by (simp_all add: drop_take)
  obtain m s1 where tm: "take_mem s = (m, s1)" by fastforce
  have "ck_data ?c = Out_buf b" by simp
  from take_then_chunk [OF assms(1-4) this c(1) tm] show ?thesis
    using tm c(2) by (auto simp: append_buf_rest_def)
qed

text \<open>A new buffer, filled: one reference of its creator, all bytes there.\<close>

lemma fill_spec:
  assumes R: "refs self R h" and cap: "d \<noteq> []" "length d + 40 < 2 ^ 63"
  shows "\<exists>r h'. ztk_buf_alloc_local poller (of_nat (length d)) h = Some (r, h') \<and>
     (case r of None \<Rightarrow> refs self R h' \<and> same_data R h h'
      | Some b \<Rightarrow> \<exists>h1 p. R b = 0 \<and> fill_buf b d h' = Some h1 \<and> refs self (R(b := 1)) h1 \<and> same_data R h h1 \<and>
          bdata h1 b = Some (of_nat (length d), p) \<and> take (length d) p = d)"
proof -
  let ?n = "of_nat (length d) :: size_t"
  have un: "unat ?n = length d" using cap(2) by (intro of_nat_inverse) auto
  then have n0: "?n \<noteq> 0" using cap(1) by (metis length_0_conv unat_0)
  have "unat ?n + 40 < 2 ^ 64" using un cap(2) by simp
  from alloc_local_spec [OF R n0 this, of poller] obtain r h' where
    al: "ztk_buf_alloc_local poller ?n h = Some (r, h')" "same_data R h h'"
      "case r of None \<Rightarrow> refs self R h' | Some b \<Rightarrow> R b = 0 \<and> refs self (R(b := 1)) h' \<and>
          (\<exists>ob. buf_at b h' = Some ob \<and> blen ob = 0 \<and> ?n \<le> bcap ob \<and> unat (bcap ob) \<le> length (payload ob))"
    by blast
  show ?thesis
  proof (cases r)
    case None
    then show ?thesis using al by auto
  next
    case (Some b)
    then obtain ob where b: "R b = 0" "refs self (R(b := 1)) h'" "buf_at b h' = Some ob" "?n \<le> bcap ob"
        "unat (bcap ob) \<le> length (payload ob)" using al(3) by auto
    let ?p = "d @ drop (length d) (payload ob)"
    let ?ob = "ob\<lparr>payload := ?p, blen := ?n\<rparr>"
    let ?h1 = "set_buf b ?ob h'"
    have "length d \<le> length (payload ob)" using b(4,5) un by (simp add: word_le_nat_alt)
    then have fill: "fill_buf b d h' = Some ?h1"
      using b(3,4) by (simp add: fill_buf_def mem_write_def ztk_buf_set_len_def set_buf_twice not_less)
    have rc: "refcnt ob = of_nat 1" using refsD [OF b(2), of b] b(3) by (auto simp: ref_ok_def)
    have R1: "(R(b := 1))(b := 1) = R(b := 1)" by simp
    have "refs self ((R(b := 1))(b := 1)) ?h1" by (rule set_obj [OF b(2) _ _ b(3)]) (use rc in simp_all)
    then have "refs self (R(b := 1)) ?h1" unfolding R1 .
    moreover have "same_data R h' ?h1" by (rule same_data_other [of b]) (use b(1) in simp_all)
    then have "same_data R h ?h1" by (rule same_data_trans [OF al(2)])
    moreover have "bdata ?h1 b = Some (?n, ?p)" using b(3) by (simp add: bdata_def)
    ultimately show ?thesis using al(1) Some fill b(1) by auto
  qed
qed

lemma queued_refl: "sess_ok E hold a fd s \<Longrightarrow> queued E hold a fd s [] 0 s"
  using sess_get [of E hold a fd s] moves_refl [of s a] by (auto simp: queued_def)

lemma append_mem_spec:
  assumes "mild E" and ok: "sess_ok E hold a fd s" and room: "length d + length (out_bytes a s) + 2 < 2 ^ 31"
  shows "\<exists>r s'. session_out_append_mem E a d s = Some (r, s') \<and> queued E hold a fd s d r s'"
proof (cases "d = []")
  case True
  then show ?thesis using queued_refl [OF ok] by (simp add: session_out_append_mem_def)
next
  case False
  obtain se where se: "tsessions s a = Some se" "out_ok E hold (tbufs s) se" using ok by (auto simp: sess_ok_def)
  let ?R = "owed hold (se_out se)"
  have R: "refs (te_self E) ?R (tbufs s)" using se(2) by (simp add: out_ok_def queue_ok_def)
  have "length d + 40 < 2 ^ 63" using room by simp
  from fill_spec [OF R False this, of "se_poller se"] obtain r h where
    al: "ztk_buf_alloc_local (se_poller se) (of_nat (length d)) (tbufs s) = Some (r, h)"
      "case r of None \<Rightarrow> refs (te_self E) ?R h \<and> same_data ?R (tbufs s) h
      | Some b \<Rightarrow> \<exists>h1 p. ?R b = 0 \<and> fill_buf b d h = Some h1 \<and> refs (te_self E) (?R(b := 1)) h1 \<and> same_data ?R (tbufs s) h1 \<and>
          bdata h1 b = Some (of_nat (length d), p) \<and> take (length d) p = d"
    by blast
  show ?thesis
  proof (cases r)
    case None
    then have "queued E hold a fd s d (- 1) (s\<lparr>tbufs := h\<rparr>)"
      using al(2) sess_heap [OF ok se(1)] moves_buf [OF se(1)] same_uses same_hold by (auto simp: queued_def)
    then show ?thesis using al(1) None se(1) False by (auto simp: session_out_append_mem_def)
  next
    case (Some b)
    then obtain h1 p where h1: "?R b = 0" "fill_buf b d h = Some h1" "refs (te_self E) (?R(b := 1)) h1"
        "same_data ?R (tbufs s) h1" "bdata h1 b = Some (of_nat (length d), p)" "take (length d) p = d"
      using al(2) by auto
    let ?hold = "hold(b := 1)" and ?s1 = "s\<lparr>tbufs := h1\<rparr>"
    have b0: "hold b = 0" "uses (se_out se) b = 0" using h1(1) by (simp_all add: owed_def)
    have R1: "?R(b := 1) = owed ?hold (se_out se)" using b0 by (auto simp: owed_def fun_eq_iff)
    note s1 = sess_heap [OF ok se(1) h1(3) [unfolded R1] same_uses [OF h1(4)]]
    have "\<exists>r s2. session_out_append_buf E a b ?s1 = Some (r, s2) \<and> (r = 0 \<or> r = - 1) \<and>
        queued E ?hold a fd ?s1 (take (unat (of_nat (length d) :: size_t)) p) r s2"
    proof (rule append_buf_spec [OF assms(1) s1(1)])
      have un: "unat (of_nat (length d) :: size_t) = length d" using room by (intro of_nat_inverse) auto
      then show "(of_nat (length d) :: size_t) \<noteq> 0" using False by (metis length_0_conv unat_0)
      have "length d \<le> length p" using h1(6) by (metis length_take min.cobounded1)
      then show "unat (of_nat (length d) :: size_t) \<le> length p" using un by simp
    qed (use h1(5) room s1(2) in simp_all)
    moreover have "unat (of_nat (length d) :: size_t) = length d" using room by (intro of_nat_inverse) auto
    ultimately obtain r s2 where s2: "session_out_append_buf E a b ?s1 = Some (r, s2)" "queued E ?hold a fd ?s1 d r s2"
      using h1(6) by auto
    have ok2: "sess_ok E ?hold a fd s2" using s2(2) by (simp add: queued_def)
    obtain se2 where se2: "tsessions s2 a = Some se2" "out_ok E ?hold (tbufs s2) se2" using ok2 by (auto simp: sess_ok_def)
    let ?R2 = "owed ?hold (se_out se2)"
    have "refs (te_self E) ?R2 (tbufs s2)" "0 < ?R2 b" using se2(2) by (auto simp: out_ok_def queue_ok_def owed_def)
    from buf_unref_spec [OF this] obtain h3 where
      h3: "ztk_buf_unref (te_self E) (te_wake E) (Some b) (tbufs s2) = Some h3" "refs (te_self E) (?R2(b := ?R2 b - 1)) h3"
        "same_data (?R2(b := ?R2 b - 1)) (tbufs s2) h3" by blast
    have R3: "?R2(b := ?R2 b - 1) = owed hold (se_out se2)" using b0(1) by (auto simp: owed_def fun_eq_iff)
    note s3 = sess_heap [OF ok2 se2(1) h3(2) [unfolded R3] same_uses [OF h3(3) [unfolded R3]]]
    have "moves a s (s2\<lparr>tbufs := h3\<rparr>)"
      using moves_buf [OF se(1)] s2(2) moves_buf [OF se2(1)] moves_trans unfolding queued_def by blast
    moreover have "same_data hold (tbufs s) h3"
    proof -
      have "same_data hold h1 (tbufs s2)"
        by (rule same_data_mono [where R = ?hold]) (use s2(2) b0(1) in \<open>auto simp: queued_def\<close>)
      then show ?thesis using same_hold [OF h1(4)] same_hold [OF h3(3) [unfolded R3]] same_data_trans by blast
    qed
    ultimately have "queued E hold a fd s d r (s2\<lparr>tbufs := h3\<rparr>)" using s3 s2(2) s1(2) by (simp add: queued_def)
    moreover have "session_out_append_mem E a d s = Some (r, s2\<lparr>tbufs := h3\<rparr>)"
      using False se(1) al(1) Some h1(2) s2(1) h3(1) by (simp add: session_out_append_mem_def)
    ultimately show ?thesis by blast
  qed
qed

lemma queued_step:
  assumes "queued E hold a fd s d r s1" and "r = 0 \<Longrightarrow> queued E hold a fd s1 e r' s2" and "r \<noteq> 0 \<Longrightarrow> r' = r \<and> s2 = s1"
  shows "queued E hold a fd s (d @ e) r' s2"
proof (cases "r = 0")
  case True
  then have *: "sess_ok E hold a fd s2" "moves a s1 s2" "nsys s2 = nsys s1" "same_data hold (tbufs s1) (tbufs s2)"
      "\<exists>p q. e = p @ q \<and> out_bytes a s2 = out_bytes a s1 @ p \<and> (r' = 0 \<longrightarrow> q = [])"
    using assms(2) by (auto simp: queued_def)
  have **: "moves a s s1" "nsys s1 = nsys s" "same_data hold (tbufs s) (tbufs s1)" "out_bytes a s1 = out_bytes a s @ d"
    using assms(1) True by (auto simp: queued_def)
  show ?thesis
    unfolding queued_def using * ** moves_trans [OF **(1) *(2)] same_data_trans [OF **(3) *(4)] by auto
next
  case False
  then show ?thesis using assms(1,3) unfolding queued_def by (metis append_assoc)
qed

lemma append_all_spec:
  assumes "mild E" and "sess_ok E hold a fd s" and "length (concat ds) + length (out_bytes a s) + 2 < 2 ^ 31"
  shows "\<exists>r s'. append_all E a ds s = Some (r, s') \<and> queued E hold a fd s (concat ds) r s'"
  using assms(2,3)
proof (induction ds arbitrary: s)
  case Nil
  then show ?case using queued_refl by auto
next
  case (Cons d ds)
  obtain r s1 where 1: "session_out_append_mem E a d s = Some (r, s1)" "queued E hold a fd s d r s1"
    using append_mem_spec [OF assms(1) Cons.prems(1), of d] Cons.prems(2) by auto
  show ?case
  proof (cases "r = 0")
    case True
    then have "sess_ok E hold a fd s1" "out_bytes a s1 = out_bytes a s @ d" using 1(2) by (auto simp: queued_def)
    then obtain r' s2 where 2: "append_all E a ds s1 = Some (r', s2)" "queued E hold a fd s1 (concat ds) r' s2"
      using Cons.IH [of s1] Cons.prems(2) by auto
    have "queued E hold a fd s (d @ concat ds) r' s2" by (rule queued_step [OF 1(2)]) (use True 2(2) in simp_all)
    then show ?thesis using 1(1) 2(1) True by simp
  next
    case False
    have "queued E hold a fd s (d @ concat ds) r s1" by (rule queued_step [OF 1(2)]) (use False in simp_all)
    then show ?thesis using 1(1) False by simp
  qed
qed

lemma append_left_spec:
  assumes "mild E" and "sess_ok E hold a fd s" and "length (concat ds) + length (out_bytes a s) + 2 < 2 ^ 31" and "n < 2 ^ 63"
  shows "\<exists>r s'. append_left E a (of_nat n) ds s = Some (r, s') \<and> queued E hold a fd s (drop n (concat ds)) r s'"
  using assms(3,4)
proof (induction ds arbitrary: n)
  case Nil
  then show ?case using queued_refl [OF assms(2)] by auto
next
  case (Cons d ds)
  have un: "unat (of_nat n :: size_t) = n" using Cons.prems(2) by (intro of_nat_inverse) auto
  have ud: "unat (of_nat (length d) :: size_t) = length d" using Cons.prems(1) by (intro of_nat_inverse) auto
  show ?case
  proof (cases "length d \<le> n")
    case True
    then have "(of_nat (length d) :: size_t) \<le> of_nat n" using un ud by (simp add: word_le_nat_alt)
    moreover have "(of_nat n :: size_t) - of_nat (length d) = of_nat (n - length d)" using True by (simp add: of_nat_diff)
    ultimately show ?thesis using Cons.IH [of "n - length d"] Cons.prems True by simp
  next
    case False
    then have lt: "\<not> (of_nat (length d) :: size_t) \<le> of_nat n" using un ud by (simp add: word_le_nat_alt)
    have eq: "append_left E a (of_nat n) (d # ds) s = append_all E a (drop n d # ds) s" using lt un by simp
    have "drop n (concat (d # ds)) = concat (drop n d # ds)" using False by simp
    then show ?thesis unfolding eq using append_all_spec [OF assms(1,2), of "drop n d # ds"] Cons.prems(1) by simp
  qed
qed

section \<open>What a send does\<close>

text \<open>
  The outcome \<open>r\<close> of an operation that offers the bytes \<open>d\<close>: a prefix of them is accepted, and what
  the kernel got together with what still waits is what it was before, with the accepted bytes at
  the end. All are accepted on success; none on a failure other than \<^verbatim>\<open>ZTK_ERR_NOMEM\<close>.
\<close>

definition accepts ::
    "('f, 'w, 'x) tcp_env \<Rightarrow> (nat \<Rightarrow> nat) \<Rightarrow> nat \<Rightarrow> int \<Rightarrow> ('w \<Rightarrow> int \<Rightarrow> mem) \<Rightarrow> ('f, 'w, 'x) tnet \<Rightarrow> mem \<Rightarrow> int \<Rightarrow>
     ('f, 'w, 'x) tnet \<Rightarrow> bool" where
  "accepts E hold a fd wire s d r s' \<longleftrightarrow> sess_ok E hold a fd s' \<and> moves a s s' \<and> same_data hold (tbufs s) (tbufs s') \<and>
     (\<exists>p q k. d = p @ q \<and> passes wire fd s s' k \<and> out_bytes a s @ p = k @ out_bytes a s' \<and>
        (r = 0 \<longrightarrow> q = []) \<and> (r \<noteq> 0 \<and> r \<noteq> err_code ZTK_ERR_NOMEM \<longrightarrow> p = []))"

lemma acceptsI:
  assumes "sess_ok E hold a fd s'" and "moves a s s'" and "same_data hold (tbufs s) (tbufs s')" and "passes wire fd s s' k"
    and "out_bytes a s @ p = k @ out_bytes a s'" and "r = 0 \<longrightarrow> q = []" and "r \<noteq> 0 \<and> r \<noteq> err_code ZTK_ERR_NOMEM \<longrightarrow> p = []"
  shows "accepts E hold a fd wire s (p @ q) r s'"
  unfolding accepts_def using assms by blast

lemma queue_only_spec:
  assumes "queued E hold a fd s d r s1"
  shows "\<exists>r'. queue_only (Some (r, s1)) = Some (r', s1) \<and> accepts E hold a fd wire s d r' s1 \<and> (r' = 0 \<or> r' = err_code ZTK_ERR_NOMEM)"
proof -
  obtain p q where q: "d = p @ q" "out_bytes a s1 = out_bytes a s @ p" "r = 0 \<longrightarrow> q = []" using assms by (auto simp: queued_def)
  have "passes wire fd s s1 []" using assms by (simp add: queued_def passes_refl)
  then show ?thesis using assms q unfolding accepts_def queued_def queue_only_def
    by (intro exI [of _ "if r \<noteq> 0 then err_code ZTK_ERR_NOMEM else 0"]) auto
qed

lemma queue_then_flush_spec:
  assumes "sends_ok (te_os E) wire" and "sends_some (te_os E)" and "queued E hold a fd s d r s1"
    and "length (out_bytes a s) + length d < 2 ^ 63"
  shows "\<exists>r' s'. queue_then_flush E a (Some (r, s1)) = Some (r', s') \<and> accepts E hold a fd wire s d r' s' \<and>
     (r' = 0 \<or> r' = err_code ZTK_ERR_NOMEM)"
proof (cases "r = 0")
  case True
  then have 1: "sess_ok E hold a fd s1" "moves a s s1" "nsys s1 = nsys s" "same_data hold (tbufs s) (tbufs s1)"
      "out_bytes a s1 = out_bytes a s @ d" using assms(3) by (auto simp: queued_def)
  have "length (out_bytes a s1) < 2 ^ 63" using 1(5) assms(4) by simp
  from flush_spec [OF assms(1,2) 1(1) this] obtain s' k where
    f: "session_out_flush E a s1 = Some s'" "sess_ok E hold a fd s'" "moves a s1 s'" "passes wire fd s1 s' k"
      "out_bytes a s1 = k @ out_bytes a s'" "same_data hold (tbufs s1) (tbufs s')" by blast
  have "passes wire fd s s' k" using f(4) 1(3) by (simp add: passes_def)
  then have "accepts E hold a fd wire s d 0 s'"
    unfolding accepts_def using f(2,5) 1(5) moves_trans [OF 1(2) f(3)] same_data_trans [OF 1(4) f(6)] by auto
  then show ?thesis using True f(1) by (simp add: queue_then_flush_def)
next
  case False
  then show ?thesis using queue_only_spec [OF assms(3), of wire] by (simp add: queue_then_flush_def queue_only_def)
qed

text \<open>The first attempt handed \<open>k\<close> to the kernel while the queue was empty; then the rest is queued.\<close>

lemma accepts_after:
  assumes "out_bytes a s = []" and "tsessions s a = Some se" and "passes wire fd s (s\<lparr>nsys := y\<rparr>) k"
    and "accepts E hold a fd wire (s\<lparr>nsys := y\<rparr>) d r s'" and "r = 0 \<or> r = err_code ZTK_ERR_NOMEM"
  shows "accepts E hold a fd wire s (k @ d) r s'"
proof -
  let ?s1 = "s\<lparr>nsys := y\<rparr>"
  have ob: "out_bytes a ?s1 = []" using assms(1) out_bytes_same [of ?s1 a s] by simp
  obtain p q l where l: "d = p @ q" "passes wire fd ?s1 s' l" "p = l @ out_bytes a s'" "r = 0 \<longrightarrow> q = []"
    using assms(4) unfolding accepts_def ob append_Nil by blast
  have "passes wire fd s s' (k @ l)" by (rule passes_trans [OF assms(3) l(2)])
  moreover have "moves a s s'" using assms(4) moves_trans [OF moves_sys [OF assms(2)]] by (auto simp: accepts_def)
  moreover have "sess_ok E hold a fd s'" "same_data hold (tbufs s) (tbufs s')" using assms(4) by (simp_all add: accepts_def)
  ultimately have "accepts E hold a fd wire s ((k @ p) @ q) r s'"
    using assms(1,5) l(3,4) by (intro acceptsI) auto
  then show ?thesis using l(1) by simp
qed

text \<open>A failed or refused first attempt leaves the stream as it was.\<close>

lemma accepts_none:
  assumes "sess_ok E hold a fd s" and "tsessions s a = Some se" and "passes wire fd s (s\<lparr>nsys := y\<rparr>) []" and "r \<noteq> 0"
  shows "accepts E hold a fd wire s d r (s\<lparr>nsys := y\<rparr>)"
proof -
  let ?s1 = "s\<lparr>nsys := y\<rparr>"
  have mv: "moves a s ?s1" by (rule moves_sys [OF assms(2)])
  have "sess_ok E hold a fd ?s1" by (rule sess_ok_same [OF assms(1) mv]) simp_all
  moreover have "out_bytes a ?s1 = out_bytes a s" by (rule out_bytes_same) simp_all
  ultimately show ?thesis
    using acceptsI [of E hold a fd ?s1 s wire "[]" "[]" r d] assms(3,4) mv by simp
qed

lemma accepts_all:
  assumes "sess_ok E hold a fd s" and "tsessions s a = Some se" and "passes wire fd s (s\<lparr>nsys := y\<rparr>) d" and "out_bytes a s = []"
  shows "accepts E hold a fd wire s d 0 (s\<lparr>nsys := y\<rparr>)"
proof -
  let ?s1 = "s\<lparr>nsys := y\<rparr>"
  have mv: "moves a s ?s1" by (rule moves_sys [OF assms(2)])
  have "sess_ok E hold a fd ?s1" by (rule sess_ok_same [OF assms(1) mv]) simp_all
  moreover have "out_bytes a ?s1 = out_bytes a s" by (rule out_bytes_same) simp_all
  ultimately show ?thesis unfolding accepts_def using assms(3,4) mv by auto
qed

text \<open>
  The shape shared by the three senders, when nothing waits: one attempt, then depending on its
  answer \<open>n\<close> done, queue the rest and flush, queue everything, or fail.
\<close>

lemma first_attempt:
  assumes "sends_ok (te_os E) wire" and "sends_some (te_os E)" and "sess_ok E hold a fd s" and "tsessions s a = Some se"
    and "out_bytes a s = []" and "d \<noteq> []" and "length d < 2 ^ 63"
    and "takes wire (world (nsys s)) (world y) fd d n" and "n \<noteq> 0"
    and rest: "\<And>s1. 0 < n \<Longrightarrow> s1 = s\<lparr>nsys := y\<rparr> \<Longrightarrow> nat n < length d \<Longrightarrow> \<exists>r s'. q1 s1 = Some (r, s') \<and> queued E hold a fd s1 (drop (nat n) d) r s'"
    and whole: "\<And>s1. s1 = s\<lparr>nsys := y\<rparr> \<Longrightarrow> \<exists>r s'. q2 s1 = Some (r, s') \<and> queued E hold a fd s1 d r s'"
  shows "\<exists>r s'. (if n = int (length d) then Some (err_code ZTK_OK, s\<lparr>nsys := y\<rparr>)
      else if n > 0 then queue_then_flush E a (q1 (s\<lparr>nsys := y\<rparr>))
      else if n = err_code ZTK_ERR_AGAIN then queue_only (q2 (s\<lparr>nsys := y\<rparr>))
      else Some (n, s\<lparr>nsys := y\<rparr>)) = Some (r, s') \<and> accepts E hold a fd wire s d r s'"
proof -
  let ?s1 = "s\<lparr>nsys := y\<rparr>"
  have pass: "passes wire fd s ?s1 (take (nat n) d)" by (rule takes_passes [OF assms(8)])
  have ob1: "out_bytes a ?s1 = []" using out_bytes_same [of ?s1 a s] assms(5) by simp
  consider "n = int (length d)" | "n \<noteq> int (length d)" "0 < n" | "n < 0" "n = err_code ZTK_ERR_AGAIN" | "n < 0" "n \<noteq> err_code ZTK_ERR_AGAIN"
    using assms(9) by linarith
  then show ?thesis
  proof cases
    case 1
    then have "accepts E hold a fd wire s d 0 ?s1" using accepts_all [OF assms(3,4) _ assms(5)] pass by simp
    then show ?thesis using 1 by simp
  next
    case 2
    then have "nat n \<le> length d" using assms(8) by (simp add: takes_def)
    then have lt: "nat n < length d" using 2 by linarith
    obtain r s2 where q: "q1 ?s1 = Some (r, s2)" "queued E hold a fd ?s1 (drop (nat n) d) r s2"
      using rest [OF 2(2) refl lt] by blast
    have "length (out_bytes a ?s1) + length (drop (nat n) d) < 2 ^ 63" using ob1 assms(7) by simp
    from queue_then_flush_spec [OF assms(1,2) q(2) this] obtain r' s' where
      f: "queue_then_flush E a (Some (r, s2)) = Some (r', s')" "accepts E hold a fd wire ?s1 (drop (nat n) d) r' s'"
        "r' = 0 \<or> r' = err_code ZTK_ERR_NOMEM" by blast
    have "accepts E hold a fd wire s (take (nat n) d @ drop (nat n) d) r' s'"
      by (rule accepts_after [OF assms(5,4) pass f(2,3)])
    then show ?thesis using 2 q(1) f(1) by auto
  next
    case 3
    obtain r s2 where q: "q2 ?s1 = Some (r, s2)" "queued E hold a fd ?s1 d r s2" using whole by blast
    obtain r' where f: "queue_only (Some (r, s2)) = Some (r', s2)" "accepts E hold a fd wire ?s1 d r' s2"
        "r' = 0 \<or> r' = err_code ZTK_ERR_NOMEM" using queue_only_spec [OF q(2), of wire] by blast
    have "passes wire fd s ?s1 []" using pass 3(1) by simp
    from accepts_after [OF assms(5,4) this f(2,3)] show ?thesis using 3 q(1) f(1) by auto
  next
    case 4
    have "passes wire fd s ?s1 []" using pass 4(1) by simp
    from accepts_none [OF assms(3,4) this, of n d] show ?thesis using 4 by auto
  qed
qed

lemma send_invalid: "sess_ok E hold a fd s \<Longrightarrow> accepts E hold a fd wire s d (err_code ZTK_ERR_INVALID) s"
  using accepts_none [of E hold a fd s _ wire "nsys s" "err_code ZTK_ERR_INVALID" d] sess_get [of E hold a fd s]
  by (auto simp: passes_refl)

definition room :: "nat \<Rightarrow> nat \<Rightarrow> ('f, 'w, 'x) tnet \<Rightarrow> bool" where
  "room k a s \<longleftrightarrow> k + length (out_bytes a s) + 2 < 2 ^ 31"

lemma empty_out: "tsessions s a = Some se \<Longrightarrow> se_out se = [] \<Longrightarrow> out_bytes a s = []"
  by (simp add: out_bytes_def)

lemma sys_step:
  assumes "sess_ok E hold a fd s" and "tsessions s a = Some se" and "s1 = s\<lparr>nsys := y\<rparr>"
  shows "sess_ok E hold a fd s1" and "out_bytes a s1 = out_bytes a s" and "tbufs s1 = tbufs s"
  using sess_ok_same [OF assms(1) moves_sys [OF assms(2)]] out_bytes_same [of s1 a s] assms(3) by simp_all

lemma send_spec:
  assumes "sends_ok (te_os E) wire" and "sends_some (te_os E)" and "mild E" and ok: "sess_ok E hold a fd s" and rm: "room (length d) a s"
  shows "\<exists>r s'. ztk_tcp_session_send E (Some a) (Some d) s = Some (r, s') \<and> accepts E hold a fd wire s d r s'"
proof -
  obtain se where se: "tsessions s a = Some se" "live_sock s (se_sock se) fd" using ok by (auto simp: sess_ok_def)
  have len: "length d < 2 ^ 63" using rm by (simp add: room_def)
  consider "se_closing se \<or> d = []" | "\<not> se_closing se" "d \<noteq> []" "se_out se \<noteq> []" | "\<not> se_closing se" "d \<noteq> []" "se_out se = []"
    by blast
  then show ?thesis
  proof cases
    case 1
    then show ?thesis using se(1) send_invalid [OF ok, of wire d] by (auto simp: ztk_tcp_session_send_def)
  next
    case 2
    obtain r s1 where q: "session_out_append_mem E a d s = Some (r, s1)" "queued E hold a fd s d r s1"
      using append_mem_spec [OF assms(3) ok, of d] rm by (auto simp: room_def)
    have "length (out_bytes a s) + length d < 2 ^ 63" using rm by (simp add: room_def)
    from queue_then_flush_spec [OF assms(1,2) q(2) this] show ?thesis
      using 2 se(1) q(1) by (auto simp: ztk_tcp_session_send_def)
  next
    case 3
    obtain n y where n: "ztk_socket_send (te_os E) (se_sock se) d s = Some (n, s\<lparr>nsys := y\<rparr>)"
        "takes wire (world (nsys s)) (world y) fd d n" "n \<noteq> 0"
      using socket_send_spec [OF assms(1,2) se(2) 3(2)] by blast
    have "\<exists>r s'. (if n = int (length d) then Some (err_code ZTK_OK, s\<lparr>nsys := y\<rparr>)
        else if n > 0 then queue_then_flush E a (session_out_append_mem E a (drop (nat n) d) (s\<lparr>nsys := y\<rparr>))
        else if n = err_code ZTK_ERR_AGAIN then queue_only (session_out_append_mem E a d (s\<lparr>nsys := y\<rparr>))
        else Some (n, s\<lparr>nsys := y\<rparr>)) = Some (r, s') \<and> accepts E hold a fd wire s d r s'"
    proof (rule first_attempt [OF assms(1,2) ok se(1) empty_out [OF se(1) 3(3)] 3(2) len n(2,3)])
      fix s1 assume s1: "s1 = s\<lparr>nsys := y\<rparr>"
      note st = sys_step [OF ok se(1) s1]
      show "\<exists>r s'. session_out_append_mem E a d s1 = Some (r, s') \<and> queued E hold a fd s1 d r s'"
        using append_mem_spec [OF assms(3) st(1), of d] rm st(2) by (simp add: room_def)
      show "\<exists>r s'. session_out_append_mem E a (drop (nat n) d) s1 = Some (r, s') \<and> queued E hold a fd s1 (drop (nat n) d) r s'"
        using append_mem_spec [OF assms(3) st(1), of "drop (nat n) d"] rm st(2) by (simp add: room_def)
    qed
    then show ?thesis using 3 se(1) n(1) sint_of_nat_small [OF len] by (simp add: ztk_tcp_session_send_def)
  qed
qed

lemma unat_of_int_small: "0 \<le> n \<Longrightarrow> n < 2 ^ 63 \<Longrightarrow> unat (of_int n :: size_t) = nat n"
  using of_nat_inverse [of "nat n" "of_int n :: size_t"] by simp

lemma total_len: "(\<Sum>d\<leftarrow>ds. of_nat (length d) :: size_t) = of_nat (length (concat ds))"
  by (induction ds) simp_all

text \<open>What a gathered send offers: the first 16 parts.\<close>

definition sendv_bytes :: "mem option list \<Rightarrow> mem" where
  "sendv_bytes ps = concat (map the (take ZTK_SOCKET_IOV_MAX ps))"

lemma sendv_spec:
  assumes "sends_ok (te_os E) wire" and "sends_some (te_os E)" and "mild E" and ok: "sess_ok E hold a fd s"
    and rm: "room (length (sendv_bytes ps)) a s"
  shows "\<exists>r s'. ztk_tcp_session_sendv E (Some a) (Some ps) s = Some (r, s') \<and> accepts E hold a fd wire s (sendv_bytes ps) r s'"
proof -
  obtain se where se: "tsessions s a = Some se" "live_sock s (se_sock se) fd" using ok by (auto simp: sess_ok_def)
  let ?qs = "take ZTK_SOCKET_IOV_MAX ps"
  let ?ds = "map the ?qs" and ?bad = "list_ex (\<lambda>p. p = None \<or> p = Some []) ?qs" and ?d = "sendv_bytes ps"
  have d: "?d = concat ?ds" by (simp add: sendv_bytes_def)
  have len: "length ?d < 2 ^ 63" using rm by (simp add: room_def)
  have tot: "sint (\<Sum>d\<leftarrow>?ds. of_nat (length d) :: size_t) = int (length ?d)"
    unfolding total_len d [symmetric] by (rule sint_of_nat_small [OF len])
  consider "se_closing se \<or> ps = [] \<or> ?bad" | "\<not> se_closing se" "ps \<noteq> []" "\<not> ?bad" "se_out se \<noteq> []"
    | "\<not> se_closing se" "ps \<noteq> []" "\<not> ?bad" "se_out se = []" by blast
  then show ?thesis
  proof cases
    case 1
    then have "ztk_tcp_session_sendv E (Some a) (Some ps) s = Some (err_code ZTK_ERR_INVALID, s)"
      using se(1) by (auto simp: ztk_tcp_session_sendv_def Let_def)
    then show ?thesis using send_invalid [OF ok, of wire ?d] by blast
  next
    case 2
    obtain r s1 where q: "append_all E a ?ds s = Some (r, s1)" "queued E hold a fd s ?d r s1"
      using append_all_spec [OF assms(3) ok, of ?ds] rm by (auto simp: room_def d)
    have "length (out_bytes a s) + length ?d < 2 ^ 63" using rm by (simp add: room_def)
    moreover have "ztk_tcp_session_sendv E (Some a) (Some ps) s = queue_then_flush E a (Some (r, s1))"
      using 2 se(1) q(1) by (simp add: ztk_tcp_session_sendv_def Let_def)
    ultimately show ?thesis using queue_then_flush_spec [OF assms(1,2) q(2)] by auto
  next
    case 3
    have ne: "?d \<noteq> []"
    proof -
      obtain p ps' where ps: "ps = p # ps'" using 3(2) by (cases ps) auto
      then have "p \<noteq> None" "p \<noteq> Some []" using 3(3) by (auto simp: ZTK_SOCKET_IOV_MAX_def)
      then show ?thesis using ps by (auto simp: sendv_bytes_def ZTK_SOCKET_IOV_MAX_def)
    qed
    have "length ?ds \<le> ZTK_SOCKET_IOV_MAX" by simp
    then obtain n y where n: "ztk_socket_sendv (te_os E) (se_sock se) ?ds s = Some (n, s\<lparr>nsys := y\<rparr>)"
        "takes wire (world (nsys s)) (world y) fd ?d n" "n \<noteq> 0"
      using socket_sendv_spec [OF assms(1,2) se(2), of ?ds] ne unfolding d by blast
    have "\<exists>r s'. (if n = int (length ?d) then Some (err_code ZTK_OK, s\<lparr>nsys := y\<rparr>)
        else if n > 0 then queue_then_flush E a (append_left E a (of_int n) ?ds (s\<lparr>nsys := y\<rparr>))
        else if n = err_code ZTK_ERR_AGAIN then queue_only (append_all E a ?ds (s\<lparr>nsys := y\<rparr>))
        else Some (n, s\<lparr>nsys := y\<rparr>)) = Some (r, s') \<and> accepts E hold a fd wire s ?d r s'"
    proof (rule first_attempt [OF assms(1,2) ok se(1) empty_out [OF se(1) 3(4)] ne len n(2,3)])
      fix s1 assume s1: "s1 = s\<lparr>nsys := y\<rparr>"
      note st = sys_step [OF ok se(1) s1]
      have rm1: "length (concat ?ds) + length (out_bytes a s1) + 2 < 2 ^ 31" using rm st(2) d by (simp add: room_def)
      show "\<exists>r s'. append_all E a ?ds s1 = Some (r, s') \<and> queued E hold a fd s1 ?d r s'"
        unfolding d by (rule append_all_spec [OF assms(3) st(1) rm1])
      assume "0 < n" "nat n < length ?d"
      then have "nat n < 2 ^ 63" "of_int n = (of_nat (nat n) :: size_t)" using len by simp_all
      then show "\<exists>r s'. append_left E a (of_int n) ?ds s1 = Some (r, s') \<and> queued E hold a fd s1 (drop (nat n) ?d) r s'"
        unfolding d using append_left_spec [OF assms(3) st(1) rm1] by simp
    qed
    moreover have "ztk_tcp_session_sendv E (Some a) (Some ps) s =
       (if n = int (length ?d) then Some (err_code ZTK_OK, s\<lparr>nsys := y\<rparr>)
        else if n > 0 then queue_then_flush E a (append_left E a (of_int n) ?ds (s\<lparr>nsys := y\<rparr>))
        else if n = err_code ZTK_ERR_AGAIN then queue_only (append_all E a ?ds (s\<lparr>nsys := y\<rparr>))
        else Some (n, s\<lparr>nsys := y\<rparr>))"
      using 3 se(1) n(1) tot by (simp add: ztk_tcp_session_sendv_def Let_def)
    ultimately show ?thesis by simp
  qed
qed

text \<open>What a buffer holds for its readers: as many bytes of its payload as its length says.\<close>

definition buf_view :: "bheap \<Rightarrow> nat \<Rightarrow> mem \<Rightarrow> bool" where
  "buf_view h b d \<longleftrightarrow> (\<exists>len p. bdata h b = Some (len, p) \<and> unat len \<le> length p \<and> d = take (unat len) p)"

lemma send_buf_spec:
  assumes "sends_ok (te_os E) wire" and "sends_some (te_os E)" and "mild E" and ok: "sess_ok E hold a fd s"
    and rm: "room (length d) a s" and b: "0 < hold b" "hold b + length (out_bytes a s) + 1 < 2 ^ 31" and view: "buf_view (tbufs s) b d"
  shows "\<exists>r s'. ztk_tcp_session_send_buf E (Some a) (Some b) s = Some (r, s') \<and> accepts E hold a fd wire s d r s'"
proof -
  obtain se where se: "tsessions s a = Some se" "live_sock s (se_sock se) fd" using ok by (auto simp: sess_ok_def)
  obtain len p where buf: "bdata (tbufs s) b = Some (len, p)" "unat len \<le> length p" "d = take (unat len) p"
    using view by (auto simp: buf_view_def)
  have bl: "ztk_buf_len (Some b) (tbufs s) = Some len" "ztk_buf_data (Some b) (tbufs s) = Some p"
    using buf(1) by (auto simp: bdata_def ztk_buf_len_def ztk_buf_data_def)
  have ld: "length d = unat len" using buf(2,3) by simp
  have lim: "length d < 2 ^ 63" using rm by (simp add: room_def)
  have sl: "sint len = int (length d)" using sint_small [of len] lim ld by simp
  have rd: "mem_read p 0 (unat len) = Some d" using buf by (simp add: mem_read_def)
  consider "se_closing se" | "\<not> se_closing se" "len = 0" | "\<not> se_closing se" "len \<noteq> 0" "se_out se \<noteq> []"
    | "\<not> se_closing se" "len \<noteq> 0" "se_out se = []" by blast
  then show ?thesis
  proof cases
    case 1
    then show ?thesis using se(1) send_invalid [OF ok, of wire d] by (auto simp: ztk_tcp_session_send_buf_def)
  next
    case 2
    then have "d = []" using ld by simp
    moreover have "accepts E hold a fd wire s ([] @ []) 0 s"
      by (rule acceptsI [OF ok moves_refl [OF se(1)]]) (simp_all add: passes_refl)
    ultimately show ?thesis using 2 se(1) bl by (auto simp: ztk_tcp_session_send_buf_def)
  next
    case 3
    obtain r s1 where q: "session_out_append_buf E a b s = Some (r, s1)" "queued E hold a fd s d r s1"
      using append_buf_spec [OF assms(3) ok b buf(1) 3(2) buf(2)] buf(3) by auto
    have "length (out_bytes a s) + length d < 2 ^ 63" using rm by (simp add: room_def)
    from queue_then_flush_spec [OF assms(1,2) q(2) this] show ?thesis
      using 3 se(1) q(1) bl by (auto simp: ztk_tcp_session_send_buf_def)
  next
    case 4
    have ne: "d \<noteq> []" using 4(2) ld by (metis length_0_conv unat_eq_zero)
    obtain n y where n: "ztk_socket_send (te_os E) (se_sock se) d s = Some (n, s\<lparr>nsys := y\<rparr>)"
        "takes wire (world (nsys s)) (world y) fd d n" "n \<noteq> 0"
      using socket_send_spec [OF assms(1,2) se(2) ne] by blast
    have "\<exists>r s'. (if n = int (length d) then Some (err_code ZTK_OK, s\<lparr>nsys := y\<rparr>)
        else if n > 0 then queue_then_flush E a (append_buf_rest E a b (of_int n) len (s\<lparr>nsys := y\<rparr>))
        else if n = err_code ZTK_ERR_AGAIN then queue_only (session_out_append_buf E a b (s\<lparr>nsys := y\<rparr>))
        else Some (n, s\<lparr>nsys := y\<rparr>)) = Some (r, s') \<and> accepts E hold a fd wire s d r s'"
    proof (rule first_attempt [OF assms(1,2) ok se(1) empty_out [OF se(1) 4(3)] ne lim n(2,3)])
      fix s1 assume s1: "s1 = s\<lparr>nsys := y\<rparr>"
      note st = sys_step [OF ok se(1) s1]
      have b1: "hold b + length (out_bytes a s1) + 1 < 2 ^ 31" "bdata (tbufs s1) b = Some (len, p)"
        using b(2) buf(1) st(2,3) by simp_all
      show "\<exists>r s'. session_out_append_buf E a b s1 = Some (r, s') \<and> queued E hold a fd s1 d r s'"
        using append_buf_spec [OF assms(3) st(1) b(1) b1 4(2) buf(2)] buf(3) by auto
      assume lt: "0 < n" "nat n < length d"
      then have "unat (of_int n :: size_t) = nat n" using lim by (intro unat_of_int_small) auto
      moreover from this have "of_int n < len" using lt(2) ld by (simp add: word_less_nat_alt)
      ultimately show "\<exists>r s'. append_buf_rest E a b (of_int n) len s1 = Some (r, s') \<and> queued E hold a fd s1 (drop (nat n) d) r s'"
        using append_buf_rest_spec [OF assms(3) st(1) b(1) b1 buf(2), of "of_int n"] buf(3) by auto
    qed
    then show ?thesis using 4 se(1) n(1) bl rd sl by (simp add: ztk_tcp_session_send_buf_def)
  qed
qed

section \<open>A session as a byte stream\<close>

text \<open>
  The contract of an ordered stream: an operation offers bytes, some prefix of them joins the end of
  what is sent and pending, all of it on success. \<open>good n s\<close> is the invariant with room for \<open>n\<close> bytes.
\<close>

primrec run_stream :: "('o \<Rightarrow> 's \<Rightarrow> (int \<times> 's) option) \<Rightarrow> 'o list \<Rightarrow> 's \<Rightarrow> (int list \<times> 's) option" where
  "run_stream step [] s = Some ([], s)"
| "run_stream step (x # xs) s =
     Option.bind (step x s) (\<lambda>(r, s1). map_option (\<lambda>(rs, s2). (r # rs, s2)) (run_stream step xs s1))"

text \<open>\<open>p\<close> may be what was accepted of \<open>d\<close> by an operation with result \<open>r\<close>.\<close>

definition part :: "int \<Rightarrow> mem \<Rightarrow> mem \<Rightarrow> bool" where
  "part r d p \<longleftrightarrow> (\<exists>q. d = p @ q \<and> (r = 0 \<longrightarrow> q = []) \<and> (r \<noteq> 0 \<and> r \<noteq> err_code ZTK_ERR_NOMEM \<longrightarrow> p = []))"

locale ordered_stream =
  fixes valid :: "'o \<Rightarrow> bool"
    and good :: "nat \<Rightarrow> 's \<Rightarrow> bool"
    and step :: "'o \<Rightarrow> 's \<Rightarrow> (int \<times> 's) option"
    and bytes :: "'o \<Rightarrow> mem"
    and sent :: "'s \<Rightarrow> mem"
    and pending :: "'s \<Rightarrow> mem"
  assumes step_accepts: "valid x \<Longrightarrow> good (length (bytes x) + n) s \<Longrightarrow>
      \<exists>r s' p. step x s = Some (r, s') \<and> good n s' \<and> part r (bytes x) p \<and> sent s' @ pending s' = sent s @ pending s @ p"
begin

lemma run_accepts:
  assumes "\<forall>x \<in> set xs. valid x" and "good (length (concat (map bytes xs))) s"
  shows "\<exists>rs s' ps. run_stream step xs s = Some (rs, s') \<and> good 0 s' \<and> length rs = length xs \<and> length ps = length xs \<and>
     (\<forall>i < length xs. part (rs ! i) (bytes (xs ! i)) (ps ! i)) \<and>
     sent s' @ pending s' = sent s @ pending s @ concat ps"
  using assms
proof (induction xs arbitrary: s)
  case (Cons x xs)
  then obtain r s1 p where 1: "step x s = Some (r, s1)" "good (length (concat (map bytes xs))) s1" "part r (bytes x) p"
      "sent s1 @ pending s1 = sent s @ pending s @ p"
    using step_accepts [of x "length (concat (map bytes xs))" s] by auto
  from Cons.IH [OF _ 1(2)] Cons.prems(1) obtain rs s' ps where 2: "run_stream step xs s1 = Some (rs, s')" "good 0 s'"
      "length rs = length xs" "length ps = length xs" "\<forall>i < length xs. part (rs ! i) (bytes (xs ! i)) (ps ! i)"
      "sent s' @ pending s' = sent s1 @ pending s1 @ concat ps" by auto
  have "\<forall>i < length (x # xs). part ((r # rs) ! i) (bytes ((x # xs) ! i)) ((p # ps) ! i)"
    using 2(5) 1(3) by (auto simp: nth_Cons split: nat.splits)
  moreover have "sent s' @ pending s' = sent s @ pending s @ concat (p # ps)"
    using 2(6) 1(4) by (metis append.assoc concat.simps(2))
  ultimately show ?case using 1(1) 2(1-4)
    by (intro exI [of _ "r # rs"] exI [of _ s'] exI [of _ "p # ps"]) simp
qed simp

lemma run_all_sent:
  assumes "\<forall>x \<in> set xs. valid x" and "good (length (concat (map bytes xs))) s"
  shows "\<exists>rs s'. run_stream step xs s = Some (rs, s') \<and> good 0 s' \<and> length rs = length xs \<and>
     ((\<forall>r \<in> set rs. r = 0) \<longrightarrow> sent s' @ pending s' = sent s @ pending s @ concat (map bytes xs))"
proof -
  obtain rs s' ps where *: "run_stream step xs s = Some (rs, s')" "good 0 s'" "length rs = length xs" "length ps = length xs"
     "\<forall>i < length xs. part (rs ! i) (bytes (xs ! i)) (ps ! i)" "sent s' @ pending s' = sent s @ pending s @ concat ps"
    using run_accepts [OF assms] by blast
  have "ps = map bytes xs" if "\<forall>r \<in> set rs. r = 0"
  proof (rule nth_equalityI)
    fix i assume "i < length ps"
    then show "ps ! i = map bytes xs ! i" using * that by (auto simp: part_def)
  qed (use *(4) in simp)
  then show ?thesis using *(1-3,6) by (intro exI [of _ rs] exI [of _ s']) auto
qed

end

datatype tcp_op = T_send mem | T_sendv "mem option list" | T_send_buf nat | T_flush

definition tcp_step :: "('f, 'w, 'x) tcp_env \<Rightarrow> nat \<Rightarrow> tcp_op \<Rightarrow> ('f, 'w, 'x) tnet \<Rightarrow> (int \<times> ('f, 'w, 'x) tnet) option" where
  "tcp_step E a x s =
     (case x of
        T_send d \<Rightarrow> ztk_tcp_session_send E (Some a) (Some d) s
      | T_sendv ps \<Rightarrow> ztk_tcp_session_sendv E (Some a) (Some ps) s
      | T_send_buf b \<Rightarrow> ztk_tcp_session_send_buf E (Some a) (Some b) s
      | T_flush \<Rightarrow> map_option (Pair 0) (ztk_tcp_session_flush E (Some a) s))"

definition op_bytes :: "(nat \<Rightarrow> mem) \<Rightarrow> tcp_op \<Rightarrow> mem" where
  "op_bytes cont x = (case x of T_send d \<Rightarrow> d | T_sendv ps \<Rightarrow> sendv_bytes ps | T_send_buf b \<Rightarrow> cont b | T_flush \<Rightarrow> [])"

text \<open>
  The application holds references to the buffers it sends (\<open>hold\<close>), whose contents are \<open>cont\<close>; the
  calling conditions of the kernel and of the application are part of the invariant.
\<close>

definition stream_good ::
    "('f, 'w, 'x) tcp_env \<Rightarrow> (nat \<Rightarrow> nat) \<Rightarrow> (nat \<Rightarrow> mem) \<Rightarrow> nat \<Rightarrow> int \<Rightarrow> ('w \<Rightarrow> int \<Rightarrow> mem) \<Rightarrow> nat \<Rightarrow> ('f, 'w, 'x) tnet \<Rightarrow> bool" where
  "stream_good E hold cont a fd wire n s \<longleftrightarrow> sends_ok (te_os E) wire \<and> sends_some (te_os E) \<and> mild E \<and> sess_ok E hold a fd s \<and>
     (\<forall>b. 0 < hold b \<longrightarrow> hold b < 2 ^ 30 \<and> buf_view (tbufs s) b (cont b)) \<and> n + length (out_bytes a s) + 2 < 2 ^ 30"

definition op_valid :: "(nat \<Rightarrow> nat) \<Rightarrow> tcp_op \<Rightarrow> bool" where
  "op_valid hold x = (case x of T_send_buf b \<Rightarrow> 0 < hold b | _ \<Rightarrow> True)"

lemma tcp_step_accepts:
  assumes v: "op_valid hold x" and g: "stream_good E hold cont a fd wire (length (op_bytes cont x) + n) s"
  shows "\<exists>r s'. tcp_step E a x s = Some (r, s') \<and> accepts E hold a fd wire s (op_bytes cont x) r s'"
proof -
  have E: "sends_ok (te_os E) wire" "sends_some (te_os E)" "mild E" and ok: "sess_ok E hold a fd s"
    and rm: "length (op_bytes cont x) + n + length (out_bytes a s) + 2 < 2 ^ 30"
    using g by (simp_all add: stream_good_def)
  show ?thesis
  proof (cases x)
    case (T_send d)
    then show ?thesis using send_spec [OF E ok, of d] rm by (simp add: tcp_step_def op_bytes_def room_def)
  next
    case (T_sendv ps)
    then show ?thesis using sendv_spec [OF E ok, of ps] rm by (simp add: tcp_step_def op_bytes_def room_def)
  next
    case (T_send_buf b)
    then have "0 < hold b" "hold b < 2 ^ 30" "buf_view (tbufs s) b (cont b)"
      using v g by (auto simp: op_valid_def stream_good_def)
    then show ?thesis
      using send_buf_spec [OF E ok, of "cont b" b] rm T_send_buf by (simp add: tcp_step_def op_bytes_def room_def)
  next
    case T_flush
    have "length (out_bytes a s) < 2 ^ 63" using rm by simp
    from flush_spec [OF E(1,2) ok this] obtain s' k where f: "session_out_flush E a s = Some s'" "sess_ok E hold a fd s'"
        "moves a s s'" "passes wire fd s s' k" "out_bytes a s = k @ out_bytes a s'" "same_data hold (tbufs s) (tbufs s')"
      by blast
    have "accepts E hold a fd wire s ([] @ []) 0 s'" by (rule acceptsI [OF f(2,3,6,4)]) (use f(5) in simp_all)
    then show ?thesis using T_flush f(1) by (simp add: tcp_step_def ztk_tcp_session_flush_def op_bytes_def)
  qed
qed

lemma accepts_stream:
  assumes g: "stream_good E hold cont a fd wire (length d + n) s" and acc: "accepts E hold a fd wire s d r s'"
  shows "stream_good E hold cont a fd wire n s' \<and> (\<exists>p. part r d p \<and>
     wire (world (nsys s')) fd @ out_bytes a s' = wire (world (nsys s)) fd @ out_bytes a s @ p)"
proof -
  obtain p q k where *: "d = p @ q" "passes wire fd s s' k" "out_bytes a s @ p = k @ out_bytes a s'"
      "r = 0 \<longrightarrow> q = []" "r \<noteq> 0 \<and> r \<noteq> err_code ZTK_ERR_NOMEM \<longrightarrow> p = []"
    using acc unfolding accepts_def by blast
  have ok: "sess_ok E hold a fd s'" and same: "same_data hold (tbufs s) (tbufs s')" using acc by (simp_all add: accepts_def)
  have "length k + length (out_bytes a s') = length (out_bytes a s) + length p" using *(3) by (metis length_append)
  then have "n + length (out_bytes a s') + 2 < 2 ^ 30" using g *(1) by (simp add: stream_good_def)
  moreover have "buf_view (tbufs s') b (cont b)" if "0 < hold b" for b
    using g that same_dataD [OF same that] by (simp add: stream_good_def buf_view_def)
  ultimately have "stream_good E hold cont a fd wire n s'" using g ok by (simp add: stream_good_def)
  moreover have "part r d p" using *(1,4,5) by (auto simp: part_def)
  moreover have "wire (world (nsys s')) fd @ out_bytes a s' = wire (world (nsys s)) fd @ out_bytes a s @ p"
    using *(2,3) by (simp add: passes_def)
  ultimately show ?thesis by blast
qed

interpretation ts: ordered_stream "op_valid hold" "stream_good E hold cont a fd wire" "tcp_step E a" "op_bytes cont"
    "\<lambda>s. wire (world (nsys s)) fd" "out_bytes a"
proof
  fix x n and s :: "('a, 'b, 'c) tnet"
  assume v: "op_valid hold x" and g: "stream_good E hold cont a fd wire (length (op_bytes cont x) + n) s"
  obtain r s' where "tcp_step E a x s = Some (r, s')" "accepts E hold a fd wire s (op_bytes cont x) r s'"
    using tcp_step_accepts [OF v g] by blast
  with accepts_stream [OF g this(2)]
  show "\<exists>r s' p. tcp_step E a x s = Some (r, s') \<and> stream_good E hold cont a fd wire n s' \<and> part r (op_bytes cont x) p \<and>
      wire (world (nsys s')) fd @ out_bytes a s' = wire (world (nsys s)) fd @ out_bytes a s @ p"
    by blast
qed

lemma pending_exact: "sess_ok E hold a fd s \<Longrightarrow> ztk_tcp_session_out_pending (Some a) s = Some (of_nat (length (out_bytes a s)))"
  by (auto simp: sess_ok_def out_ok_def ztk_tcp_session_out_pending_def out_bytes_def)

section \<open>A sample session\<close>

text \<open>
  Session 3 on socket 1, descriptor 5, of a kernel that takes 2 bytes and then refuses; the
  application holds the buffer at address 50. The server at address 7 reports more than 3 pending bytes.
\<close>

definition tenv0 :: "(nat, kern, nat) tcp_env" where
  "tenv0 = \<lparr>te_os = k_os, te_self = 3, te_wake = ZTK_OK, te_now = 0, te_recv = (\<lambda>_ _ _ _ s. Some s), te_call = (\<lambda>_ _ _ s. Some s),
     te_high = (\<lambda>_ _ _ _ s. Some (s\<lparr>tapp := tapp s + 1\<rparr>)), te_user = (\<lambda>_ _ _ s. Some (None, s)), te_pick = (\<lambda>_ _ _ _ s. Some (None, s))\<rparr>"

definition sess0 :: ztk_tcp_session where
  "sess0 = \<lparr>se_server = Some 7, se_sock = Some 1, se_poller = Some 5, se_user = None, se_closing = False, se_out = [],
     se_out_pending = 0, se_highwater_hit = False\<rparr>"

definition srv0 :: "nat ztk_tcp_server" where
  "srv0 = \<lparr>sv_listen_sock = Some 2, sv_pollers = Some [Some 5], sv_poller_count = 1,
     sv_ops = \<lparr>op_on_recv = None, op_on_error = None, op_on_manager = None\<rparr>, sv_session_user = None,
     sv_session_create_user = None, sv_pick_poller = None, sv_pick_poller_user = None, sv_poller_pool = None,
     sv_pool_pick_poller = False, sv_manager_interval = - 1, sv_bindings = None, sv_sessions = [3], sv_session_cap = 8,
     sv_host = [], sv_port = 80, sv_backlog = 128, sv_started = True, sv_highwater_bytes = 3, sv_on_highwater = Some 0\<rparr>"

definition tnet0 :: "(nat, kern, nat) tnet" where
  "tnet0 = \<lparr>nsys = k_start [2], socks = [1 \<mapsto> \<lparr>s_fd = 5, s_type = ZTK_SOCK_TCP_CONNECTED, s_poller = Some 5, s_cb = no_cbs,
       s_user = Some 3, s_poll_events = 1, s_attached = True, s_connect_pending = False\<rparr>],
     npollers = Map.empty, sockplat_inited = True, nmem = [Some 70, Some 71, Some 72], tbufs = bh0 True,
     tsessions = [3 \<mapsto> sess0], tservers = [7 \<mapsto> srv0], ttimers = Map.empty, tpools = Map.empty,
     tloads = Map.empty, tapp = 0\<rparr>"

definition hold0 :: "nat \<Rightarrow> nat" where
  "hold0 b = (if b = 50 then 1 else 0)"

lemma k_sends_some: "sends_some k_os"
  by (auto simp: sends_some_def k_os_def k_take_def Let_def min_def split: list.splits)

lemma bh0_refs: "refs 3 hold0 (bh0 True)"
proof -
  have "heap_inv 3 (bh0 True)"
    using bh0_ok [of True] bh0_direct by (auto simp: heap_inv_def bh0_def split: if_splits)
  moreover have "ref_ok 3 1 (bh0 True) 50"
    using bh0_direct by (auto simp: ref_ok_def buf_at_def buf_returnable_def bh0_def buf50_def)
  ultimately show ?thesis by (simp add: refs_def hold0_def)
qed

lemma tnet0_good: "stream_good tenv0 hold0 (\<lambda>_. replicate 3 None) 3 5 k_wire 100 tnet0"
proof -
  have "mild tenv0" by (auto simp: mild_def tenv0_def)
  moreover have "owed hold0 [] = hold0" by (simp add: owed_def fun_eq_iff)
  then have "out_ok tenv0 hold0 (bh0 True) sess0"
    using bh0_refs by (simp add: out_ok_def queue_ok_def sess0_def tenv0_def)
  then have "sess_ok tenv0 hold0 3 5 tnet0"
    by (simp add: sess_ok_def tnet0_def live_sock_def) (simp add: sess0_def)
  moreover have "buf_view (tbufs tnet0) 50 (replicate 3 None)"
    by (simp add: buf_view_def bdata_def buf_at_def bh0_def buf50_def tnet0_def)
  moreover have "out_bytes 3 tnet0 = []" by (simp add: out_bytes_def tnet0_def sess0_def)
  moreover have "sends_ok (te_os tenv0) k_wire" "sends_some (te_os tenv0)"
    using k_sends_ok k_sends_some by (simp_all add: tenv0_def)
  ultimately show ?thesis by (simp add: stream_good_def hold0_def)
qed

section \<open>Properties\<close>

text \<open>
  C2. A session is an ordered byte stream. Take any sequence of send, gathered send, zero-copy send
  and flush on a session, over any kernel that takes a prefix of what it is offered or refuses.
  Every operation returns. At the end, what the kernel got for the descriptor followed by what still
  waits in the queue is exactly what it was at the start followed by the accepted bytes of each
  operation in order: all offered bytes where the operation succeeded, none where it failed, a
  prefix where memory ran out. The reported number of pending bytes is right, every chunk has its
  reference to a live buffer, and buffers that the application holds are unchanged.
\<close>

theorem tcp_stream_in_order:
  assumes "\<forall>x \<in> set xs. op_valid hold x"
    and "stream_good E hold cont a fd wire (length (concat (map (op_bytes cont) xs))) s"
  shows "\<exists>rs s' ps. run_stream (tcp_step E a) xs s = Some (rs, s') \<and> length rs = length xs \<and> length ps = length xs \<and>
     (\<forall>i < length xs. part (rs ! i) (op_bytes cont (xs ! i)) (ps ! i)) \<and>
     wire (world (nsys s')) fd @ out_bytes a s' = wire (world (nsys s)) fd @ out_bytes a s @ concat ps \<and>
     ztk_tcp_session_out_pending (Some a) s' = Some (of_nat (length (out_bytes a s'))) \<and>
     stream_good E hold cont a fd wire 0 s'"
proof -
  from ts.run_accepts [OF assms] obtain rs s' ps where *: "run_stream (tcp_step E a) xs s = Some (rs, s')"
     "stream_good E hold cont a fd wire 0 s'" "length rs = length xs" "length ps = length xs"
     "\<forall>i < length xs. part (rs ! i) (op_bytes cont (xs ! i)) (ps ! i)"
     "wire (world (nsys s')) fd @ out_bytes a s' = wire (world (nsys s)) fd @ out_bytes a s @ concat ps" by blast
  have "sess_ok E hold a fd s'" using *(2) by (simp add: stream_good_def)
  from pending_exact [OF this] * show ?thesis by blast
qed

theorem tcp_stream_in_order_witness:
  "\<exists>rs s' ps. run_stream (tcp_step tenv0 3) [T_send [Some 1, Some 2, Some 3], T_send_buf 50, T_flush] tnet0 = Some (rs, s') \<and>
     length ps = 3 \<and> k_wire (world (nsys s')) 5 @ out_bytes 3 s' = concat ps"
proof -
  let ?xs = "[T_send [Some 1, Some 2, Some 3], T_send_buf 50, T_flush]"
  have v: "\<forall>x \<in> set ?xs. op_valid hold0 x" by (simp add: op_valid_def hold0_def)
  have g: "stream_good tenv0 hold0 (\<lambda>_. replicate 3 None) 3 5 k_wire (length (concat (map (op_bytes (\<lambda>_. replicate 3 None)) ?xs))) tnet0"
    using tnet0_good by (simp add: stream_good_def op_bytes_def)
  have start: "k_wire (world (nsys tnet0)) 5 = []" "out_bytes 3 tnet0 = []"
    by (simp_all add: tnet0_def k_start_def out_bytes_def sess0_def)
  obtain rs s' ps where *: "run_stream (tcp_step tenv0 3) ?xs tnet0 = Some (rs, s')" "length ps = length ?xs"
      "k_wire (world (nsys s')) 5 @ out_bytes 3 s' = k_wire (world (nsys tnet0)) 5 @ out_bytes 3 tnet0 @ concat ps"
    using tcp_stream_in_order [OF v g] by blast
  have "length ps = 3" using *(2) by simp
  with * show ?thesis unfolding start append_Nil by blast
qed

text \<open>
  The high-water callback can be missed. The flag that says it was called is cleared only when
  something is queued while the count is below the mark. If the queue drains completely and the
  next queued piece alone reaches the mark, the callback is not called: the outcome is the same
  whatever the callback would do.
\<close>

lemma highwater_missed:
  assumes "tsessions s a = Some se" and "se_highwater_hit se" and "se_out se = []" and "se_out_pending se = 0"
    and "se_server se = Some v" and "tservers s v = Some srv" and "sv_highwater_bytes srv \<le> ck_len c"
  shows "session_out_enqueue E a c s = Some (0, upd_sess a (\<lambda>se. se\<lparr>se_out := [c], se_out_pending := ck_len c\<rparr>) s)"
proof -
  let ?s = "upd_sess a (\<lambda>se. se\<lparr>se_out := se_out se @ [c], se_out_pending := se_out_pending se + ck_len c\<rparr>) s"
  have eq: "?s = upd_sess a (\<lambda>se. se\<lparr>se_out := [c], se_out_pending := ck_len c\<rparr>) s"
    using assms(1,3,4) by (simp add: upd_sess_def)
  have "tservers ?s v = Some srv" using assms(6) by (simp add: upd_sess_def)
  moreover have "tsessions ?s a = Some (se\<lparr>se_out := [c], se_out_pending := ck_len c\<rparr>)"
    unfolding eq using assms(1) by (simp add: upd_sess_def)
  ultimately have "session_out_check_highwater E a ?s = Some ?s"
    using assms(2,5,7) by (cases "sv_on_highwater srv") (simp_all add: session_out_check_highwater_def not_less)
  then show ?thesis unfolding session_out_enqueue_def eq by simp
qed

end
