(* ===== verification/Tcp_Server.thy ===== *)
theory Tcp_Server
  imports Tcp_Session "HOL-Library.Multiset"
begin

text \<open>
  TCP servers and the life of their sessions, \<^verbatim>\<open>src/net/tcp_server.c\<close>: accepting connections, choosing
  a poller for each, the array of sessions, receiving, closing, the manager timer, and creating,
  starting, stopping and destroying a server. The functions run on the state of \<open>Tcp_Session\<close>. Loops
  that go on as long as the kernel or the application keep them busy are partial functions; mutexes
  are not part of the state, each function runs as a whole.
\<close>

section \<open>Sessions\<close>

definition ZTK_TCP_RECV_CHUNK :: nat where "ZTK_TCP_RECV_CHUNK = 4096"

definition upd_srv :: "nat \<Rightarrow> ('f ztk_tcp_server \<Rightarrow> 'f ztk_tcp_server) \<Rightarrow> ('f, 'w, 'x) tnet \<Rightarrow> ('f, 'w, 'x) tnet" where
  "upd_srv v f s = s\<lparr>tservers := (tservers s)(v := map_option f (tservers s v))\<rparr>"

definition session_detach :: "('f, 'w, 'x) tcp_env \<Rightarrow> nat \<Rightarrow> ('f, 'w, 'x) tnet \<Rightarrow> ('f, 'w, 'x) tnet option" where
  "session_detach E a s = do {
     se \<leftarrow> tsessions s a;
     if se_sock se = None then Some s
     else map_option snd (ztk_socket_detach_poller (te_os E) (se_sock se) s)
   }"

definition session_destroy :: "('f, 'w, 'x) tcp_env \<Rightarrow> nat \<Rightarrow> ('f, 'w, 'x) tnet \<Rightarrow> ('f, 'w, 'x) tnet option" where
  "session_destroy E a s = do {
     s1 \<leftarrow> session_detach E a s;
     s2 \<leftarrow> out_pop_all E a s1;
     se \<leftarrow> tsessions s2 a;
     s3 \<leftarrow> ztk_socket_destroy (te_os E) (se_sock se) s2;
     Some (s3\<lparr>tsessions := (tsessions s3)(a := None)\<rparr>)
   }"

fun find_idx :: "nat \<Rightarrow> nat list \<Rightarrow> nat option" where
  "find_idx a [] = None"
| "find_idx a (x # xs) = (if x = a then Some 0 else map_option Suc (find_idx a xs))"

text \<open>Removal from the array: the last entry takes the place.\<close>

definition swap_remove :: "nat \<Rightarrow> nat list \<Rightarrow> nat list" where
  "swap_remove a xs = (case find_idx a xs of None \<Rightarrow> xs | Some i \<Rightarrow> butlast (xs[i := last xs]))"

definition session_remove ::
    "('f, 'w, 'x) tcp_env \<Rightarrow> nat option \<Rightarrow> nat \<Rightarrow> ('f, 'w, 'x) tnet \<Rightarrow> ('f, 'w, 'x) tnet option" where
  "session_remove E srv a s =
     (case srv of None \<Rightarrow> Some s
      | Some v \<Rightarrow> do {
          se \<leftarrow> tsessions s a;
          if se_closing se then Some s
          else do {
            let s1 = upd_sess a (\<lambda>se. se\<lparr>se_closing := True\<rparr>) s;
            sv \<leftarrow> tservers s1 v;
            let s2 = upd_srv v (\<lambda>sv. sv\<lparr>sv_sessions := swap_remove a (sv_sessions sv)\<rparr>) s1;
            s3 \<leftarrow> (case op_on_error (sv_ops sv) of None \<Rightarrow> Some s2 | Some f \<Rightarrow> te_call E f a (se_user se) s2);
            session_destroy E a s3
          }
        })"

definition session_on_error :: "('f, 'w, 'x) tcp_env \<Rightarrow> nat option \<Rightarrow> ('f, 'w, 'x) tnet \<Rightarrow> ('f, 'w, 'x) tnet option" where
  "session_on_error E user s =
     (case user of None \<Rightarrow> Some s
      | Some a \<Rightarrow> do {
          se \<leftarrow> tsessions s a;
          if se_closing se then Some s else session_remove E (se_server se) a s
        })"

text \<open>The loop of \<^verbatim>\<open>session_on_readable\<close>: the socket and the session are used again after each callback.\<close>

partial_function (option) recv_loop ::
    "('f, 'w, 'x) tcp_env \<Rightarrow> nat \<Rightarrow> nat \<Rightarrow> ('f, 'w, 'x) tnet \<Rightarrow> ('f, 'w, 'x) tnet option" where
  "recv_loop E sock a s =
     (case ztk_socket_recv (te_os E) (Some sock) ZTK_TCP_RECV_CHUNK s of None \<Rightarrow> None
      | Some ((n, bs), s1) \<Rightarrow>
        if n > 0
        then (case tsessions s1 a of None \<Rightarrow> None
          | Some se \<Rightarrow>
            (case Option.bind (se_server se) (tservers s1) of None \<Rightarrow> None
             | Some sv \<Rightarrow>
               (case op_on_recv (sv_ops sv) of None \<Rightarrow> recv_loop E sock a s1
                | Some f \<Rightarrow> Option.bind (te_recv E f a (take (nat n) bs) (se_user se) s1) (recv_loop E sock a))))
        else if n = err_code ZTK_ERR_AGAIN then Some s1
        else (case tsessions s1 a of None \<Rightarrow> None | Some se \<Rightarrow> session_remove E (se_server se) a s1))"

definition session_on_readable ::
    "('f, 'w, 'x) tcp_env \<Rightarrow> nat \<Rightarrow> nat option \<Rightarrow> ('f, 'w, 'x) tnet \<Rightarrow> ('f, 'w, 'x) tnet option" where
  "session_on_readable E sock user s =
     (case user of None \<Rightarrow> Some s
      | Some a \<Rightarrow> do {
          se \<leftarrow> tsessions s a;
          if se_closing se then Some s else recv_loop E sock a s
        })"

definition session_attach ::
    "('f, 'w, 'x) tcp_env \<Rightarrow> nat \<Rightarrow> nat option \<Rightarrow> ('f, 'w, 'x) tnet \<Rightarrow> (ztk_err \<times> ('f, 'w, 'x) tnet) option" where
  "session_attach E a poller s = do {
     se \<leftarrow> tsessions s a;
     ztk_socket_attach_poller (te_os E) (se_sock se) poller
       (Some \<lparr>on_readable = Some Session_on_readable, on_writable = None, on_error = Some Session_on_error\<rparr>) (Some a) s
   }"

definition session_create ::
    "('f, 'w, 'x) tcp_env \<Rightarrow> nat \<Rightarrow> nat option \<Rightarrow> nat option \<Rightarrow> ('f, 'w, 'x) tnet \<Rightarrow> (nat option \<times> ('f, 'w, 'x) tnet) option" where
  "session_create E v client poller s =
     (let (m, s1) = take_mem s in
      case fresh_or_null m (tsessions s1) of None \<Rightarrow> Some (None, s1)
      | Some a \<Rightarrow> do {
          sv \<leftarrow> tservers s1 v;
          let s2 = s1\<lparr>tsessions := (tsessions s1)(a \<mapsto> \<lparr>se_server = Some v, se_sock = client, se_poller = poller,
                se_user = None, se_closing = False, se_out = [], se_out_pending = 0, se_highwater_hit = False\<rparr>)\<rparr>;
          (u, s3) \<leftarrow> (case sv_session_create_user sv of Some f \<Rightarrow> te_user E f v a s2 | None \<Rightarrow> Some (sv_session_user sv, s2));
          (err, s4) \<leftarrow> session_attach E a poller (upd_sess a (\<lambda>se. se\<lparr>se_user := u\<rparr>) s3);
          if err \<noteq> ZTK_OK then Some (None, s4\<lparr>tsessions := (tsessions s4)(a := None)\<rparr>)
          else Some (Some a, s4)
        })"

definition session_list_add :: "nat \<Rightarrow> nat \<Rightarrow> ('f, 'w, 'x) tnet \<Rightarrow> (ztk_err \<times> ('f, 'w, 'x) tnet) option" where
  "session_list_add v a s = do {
     sv \<leftarrow> tservers s v;
     let put = (\<lambda>cap. upd_srv v (\<lambda>sv. sv\<lparr>sv_session_cap := cap, sv_sessions := sv_sessions sv @ [a]\<rparr>));
     if sv_session_cap sv \<le> of_nat (length (sv_sessions sv))
     then let cap = (if sv_session_cap sv \<noteq> 0 then sv_session_cap sv * 2 else 8); (m, s1) = take_mem s in
       if m = None then Some (ZTK_ERR_NOMEM, s1) else Some (ZTK_OK, put cap s1)
     else Some (ZTK_OK, put (sv_session_cap sv) s)
   }"

section \<open>Accepting\<close>

definition choose_poller ::
    "('f, 'w, 'x) tcp_env \<Rightarrow> nat \<Rightarrow> nat option \<Rightarrow> ('f, 'w, 'x) tnet \<Rightarrow> (nat option \<times> ('f, 'w, 'x) tnet) option" where
  "choose_poller E v accept_poller s = do {
     sv \<leftarrow> tservers s v;
     (p, s1) \<leftarrow> (case sv_pick_poller sv of Some f \<Rightarrow> te_pick E f v accept_poller (sv_pick_poller_user sv) s | None \<Rightarrow> Some (None, s));
     if p \<noteq> None then Some (p, s1)
     else if sv_pool_pick_poller sv \<and> sv_poller_pool sv \<noteq> None then do {
       let pid = the (sv_poller_pool sv);
       pool \<leftarrow> tpools s1 pid;
       let ((q, pool1), ls) = ztk_tcp_pick_poller_from_pool (\<lambda>_. te_now E) (te_now E) (te_self E)
             (\<lambda>p. map_option owner_thread (ttimers s1 p)) (Some pool) accept_poller (tloads s1);
       let s2 = s1\<lparr>tpools := (tpools s1)(pid := pool1), tloads := ls\<rparr>;
       Some (if q \<noteq> None then q else accept_poller, s2)
     }
     else Some (accept_poller, s1)
   }"

text \<open>What follows an accepted connection.\<close>

definition accept_one ::
    "('f, 'w, 'x) tcp_env \<Rightarrow> nat \<Rightarrow> nat option \<Rightarrow> nat option \<Rightarrow> ('f, 'w, 'x) tnet \<Rightarrow> ('f, 'w, 'x) tnet option" where
  "accept_one E v accept_poller client s = do {
     (target, s1) \<leftarrow> choose_poller E v accept_poller s;
     (session, s2) \<leftarrow> session_create E v client target s1;
     (case session of None \<Rightarrow> ztk_socket_destroy (te_os E) client s2
      | Some a \<Rightarrow> do {
          (err, s3) \<leftarrow> session_list_add v a s2;
          if err \<noteq> ZTK_OK then session_destroy E a s3 else Some s3
        })
   }"

partial_function (option) accept_loop ::
    "('f, 'w, 'x) tcp_env \<Rightarrow> nat \<Rightarrow> nat option \<Rightarrow> ('f, 'w, 'x) tnet \<Rightarrow> ('f, 'w, 'x) tnet option" where
  "accept_loop E v accept_poller s =
     (case tservers s v of None \<Rightarrow> None
      | Some sv \<Rightarrow>
        (case ztk_socket_accept (te_os E) (sv_listen_sock sv) s of None \<Rightarrow> None
         | Some ((err, client), s1) \<Rightarrow>
           if err = ZTK_ERR_AGAIN then Some s1
           else if err \<noteq> ZTK_OK \<or> client = None then Some s1
           else Option.bind (accept_one E v accept_poller client s1) (accept_loop E v accept_poller)))"

definition binding_at :: "nat \<Rightarrow> 'f ztk_tcp_server \<Rightarrow> ztk_listen_binding option" where
  "binding_at i sv = (case sv_bindings sv of None \<Rightarrow> None | Some bs \<Rightarrow> if i < length bs then Some (bs ! i) else None)"

definition listen_on_readable ::
    "('f, 'w, 'x) tcp_env \<Rightarrow> int \<Rightarrow> nat \<Rightarrow> nat \<Rightarrow> ('f, 'w, 'x) tnet \<Rightarrow> ('f, 'w, 'x) tnet option" where
  "listen_on_readable E fd v i s = do {
     sv0 \<leftarrow> tservers s v;
     b \<leftarrow> binding_at i sv0;
     (case lb_server b of None \<Rightarrow> Some s
      | Some w \<Rightarrow> do {
          sv \<leftarrow> tservers s w;
          if sv_listen_sock sv = None then Some s
          else do {
            f \<leftarrow> ztk_socket_fd (sv_listen_sock sv) s;
            if f \<noteq> fd then Some s else accept_loop E w (lb_poller b) s
          }
        })
   }"

section \<open>The manager\<close>

partial_function (option) manager_loop ::
    "('f, 'w, 'x) tcp_env \<Rightarrow> nat \<Rightarrow> nat option \<Rightarrow> nat \<Rightarrow> ('f, 'w, 'x) tnet \<Rightarrow> ('f, 'w, 'x) tnet option" where
  "manager_loop E v poller i s =
     (case tservers s v of None \<Rightarrow> None
      | Some sv \<Rightarrow>
        if i < length (sv_sessions sv)
        then (case tsessions s (sv_sessions sv ! i) of None \<Rightarrow> None
          | Some se \<Rightarrow>
            if se_closing se \<or> se_poller se \<noteq> poller then manager_loop E v poller (i + 1) s
            else Option.bind (session_out_flush E (sv_sessions sv ! i) s) (\<lambda>s1.
                 Option.bind (case op_on_manager (sv_ops sv) of None \<Rightarrow> Some s1
                              | Some f \<Rightarrow> te_call E f (sv_sessions sv ! i) (se_user se) s1)
                   (manager_loop E v poller (i + 1))))
        else Some s)"

definition run_manager_on_poller ::
    "('f, 'w, 'x) tcp_env \<Rightarrow> nat \<Rightarrow> nat option \<Rightarrow> ('f, 'w, 'x) tnet \<Rightarrow> ('f, 'w, 'x) tnet option" where
  "run_manager_on_poller E v poller s = manager_loop E v poller 0 s"

definition ZTK_MS_PER_SEC :: rat where "ZTK_MS_PER_SEC = 1000"

definition manager_ms :: "'f ztk_tcp_server \<Rightarrow> u64" where
  "manager_ms sv = of_int \<lfloor>sv_manager_interval sv * ZTK_MS_PER_SEC\<rfloor>"

definition manager_timer_cb ::
    "('f, 'w, 'x) tcp_env \<Rightarrow> tcp_timer \<Rightarrow> ('f, 'w, 'x) tnet \<Rightarrow> (u64 \<times> ('f, 'w, 'x) tnet) option" where
  "manager_timer_cb E t s =
     (case t of Manager_timer_cb v i \<Rightarrow> do {
        sv0 \<leftarrow> tservers s v;
        b \<leftarrow> binding_at i sv0;
        w \<leftarrow> lb_server b;
        s1 \<leftarrow> run_manager_on_poller E w (lb_poller b) s;
        sv \<leftarrow> tservers s1 w;
        Some (if sv_manager_interval sv \<le> 0 then 0 else manager_ms sv, s1)
      })"

definition upd_binding :: "nat \<Rightarrow> nat \<Rightarrow> (ztk_listen_binding \<Rightarrow> ztk_listen_binding) \<Rightarrow> ('f, 'w, 'x) tnet \<Rightarrow> ('f, 'w, 'x) tnet" where
  "upd_binding v i f = upd_srv v (\<lambda>sv. sv\<lparr>sv_bindings := map_option (\<lambda>bs. bs[i := f (bs ! i)]) (sv_bindings sv)\<rparr>)"

text \<open>
  Starting a timer may allocate up to four times (timer, request, queue node, heap array); four
  outcomes are set aside for it, used or not. Cancelling may allocate twice.
\<close>

definition listen_attach_manager ::
    "('f, 'w, 'x) tcp_env \<Rightarrow> nat \<Rightarrow> nat \<Rightarrow> ('f, 'w, 'x) tnet \<Rightarrow> (ztk_err \<times> ('f, 'w, 'x) tnet) option" where
  "listen_attach_manager E v i s = do {
     sv \<leftarrow> tservers s v;
     b \<leftarrow> binding_at i sv;
     if sv_manager_interval sv \<le> 0 \<or> op_on_manager (sv_ops sv) = None then Some (ZTK_OK, s)
     else do {
       let (m1, s1) = take_mem s;
       let (m2, s2) = take_mem s1;
       let (m3, s3) = take_mem s2;
       let (m4, s4) = take_mem s3;
       (t, p) \<leftarrow> ztk_poller_do_delay (te_self E) (te_now E) m1 m2 m3 (m4 \<noteq> None) (te_wake E)
                   (Option.bind (lb_poller b) (ttimers s4)) (manager_ms sv) (Some (Manager_timer_cb v i));
       let s5 = (case lb_poller b of None \<Rightarrow> s4 | Some q \<Rightarrow> s4\<lparr>ttimers := (ttimers s4)(q := p)\<rparr>);
       let s6 = upd_binding v i (\<lambda>b. b\<lparr>lb_manager_timer := t\<rparr>) s5;
       Some (if t = None then ZTK_ERR_NOMEM else ZTK_OK, s6)
     }
   }"

section \<open>Servers\<close>

record 'f ztk_tcp_server_opts =
  to_host :: "string option"
  to_port :: u16
  to_backlog :: int
  to_poller_pool :: "nat option"
  to_session_ops :: "'f ztk_tcp_session_ops option"
  to_session_user :: "nat option"
  to_session_create_user :: "'f option"
  to_pick_poller :: "'f option"
  to_pick_poller_user :: "nat option"
  to_manager_interval :: rat
  to_highwater_bytes :: size_t
  to_on_highwater :: "'f option"

definition ZTK_NET_ADDR_STR_LEN :: nat where "ZTK_NET_ADDR_STR_LEN = 64"

definition ZTK_TCP_DEFAULT_BACKLOG :: int where "ZTK_TCP_DEFAULT_BACKLOG = 128"

definition ZTK_TCP_DEFAULT_MANAGER_SEC :: rat where "ZTK_TCP_DEFAULT_MANAGER_SEC = 2"

text \<open>The events a listening socket is registered for.\<close>

definition listen_events :: u32 where
  "listen_events = ZTK_POLL_IN OR ZTK_POLL_ERR OR ZTK_POLL_HUP"

text \<open>Stopping one binding: cancel its timer, forget the listening descriptor.\<close>

definition stop_binding :: "('f, 'w, 'x) tcp_env \<Rightarrow> nat \<Rightarrow> int \<Rightarrow> nat \<Rightarrow> ('f, 'w, 'x) tnet \<Rightarrow> ('f, 'w, 'x) tnet option" where
  "stop_binding E v listen_fd i s = do {
     sv \<leftarrow> tservers s v;
     b \<leftarrow> binding_at i sv;
     ps \<leftarrow> sv_pollers sv;
     s1 \<leftarrow> (if lb_manager_timer b \<noteq> None then do {
              q \<leftarrow> lb_poller b;
              p \<leftarrow> ttimers s q;
              let (m1, s') = take_mem s;
              let (m2, s'') = take_mem s';
              p1 \<leftarrow> ztk_poller_timer_cancel (te_self E) m1 m2 (te_wake E) p (lb_manager_timer b);
              Some (upd_binding v i (\<lambda>b. b\<lparr>lb_manager_timer := None\<rparr>) (s''\<lparr>ttimers := (ttimers s'')(q \<mapsto> p1)\<rparr>))
            } else Some s);
     if i < length ps then map_option snd (poller_del_at (te_os E) (ps ! i) listen_fd s1) else None
   }"

fun stop_loop :: "('f, 'w, 'x) tcp_env \<Rightarrow> nat \<Rightarrow> int \<Rightarrow> nat list \<Rightarrow> ('f, 'w, 'x) tnet \<Rightarrow> ('f, 'w, 'x) tnet option" where
  "stop_loop E v fd [] s = Some s"
| "stop_loop E v fd (i # is) s = Option.bind (stop_binding E v fd i s) (stop_loop E v fd is)"

definition ztk_tcp_server_stop :: "('f, 'w, 'x) tcp_env \<Rightarrow> nat option \<Rightarrow> ('f, 'w, 'x) tnet \<Rightarrow> ('f, 'w, 'x) tnet option" where
  "ztk_tcp_server_stop E srv s =
     (case srv of None \<Rightarrow> Some s
      | Some v \<Rightarrow> do {
          sv \<leftarrow> tservers s v;
          if \<not> sv_started sv then Some s
          else do {
            fd \<leftarrow> ztk_socket_fd (sv_listen_sock sv) s;
            s1 \<leftarrow> stop_loop E v fd [0..<unat (sv_poller_count sv)] s;
            Some (upd_srv v (\<lambda>sv. sv\<lparr>sv_started := False\<rparr>) s1)
          }
        })"

fun destroy_sessions :: "('f, 'w, 'x) tcp_env \<Rightarrow> nat list \<Rightarrow> ('f, 'w, 'x) tnet \<Rightarrow> ('f, 'w, 'x) tnet option" where
  "destroy_sessions E [] s = Some s"
| "destroy_sessions E (a # as) s = Option.bind (session_destroy E a s) (destroy_sessions E as)"

definition ztk_tcp_server_destroy :: "('f, 'w, 'x) tcp_env \<Rightarrow> nat option \<Rightarrow> ('f, 'w, 'x) tnet \<Rightarrow> ('f, 'w, 'x) tnet option" where
  "ztk_tcp_server_destroy E srv s =
     (case srv of None \<Rightarrow> Some s
      | Some v \<Rightarrow> do {
          s1 \<leftarrow> ztk_tcp_server_stop E srv s;
          sv \<leftarrow> tservers s1 v;
          s2 \<leftarrow> destroy_sessions E (sv_sessions sv) s1;
          s3 \<leftarrow> ztk_socket_destroy (te_os E) (sv_listen_sock sv) (upd_srv v (\<lambda>sv. sv\<lparr>sv_sessions := []\<rparr>) s2);
          Some (s3\<lparr>tservers := (tservers s3)(v := None)\<rparr>)
        })"

text \<open>A zeroed server, with the fields \<^verbatim>\<open>ztk_tcp_server_create\<close> fills in from its options.\<close>

definition manager_interval_of :: "'f ztk_tcp_server_opts \<Rightarrow> 'f ztk_tcp_session_ops \<Rightarrow> rat" where
  "manager_interval_of opts ops =
     (if to_manager_interval opts < 0 then - 1
      else if to_manager_interval opts > 0 then to_manager_interval opts
      else if op_on_manager ops \<noteq> None then ZTK_TCP_DEFAULT_MANAGER_SEC
      else - 1)"

definition server_of :: "'f ztk_tcp_server_opts \<Rightarrow> 'f ztk_tcp_session_ops \<Rightarrow> u32 \<Rightarrow> nat option list \<Rightarrow> 'f ztk_tcp_server" where
  "server_of opts ops n ps = \<lparr>sv_listen_sock = None, sv_pollers = Some ps, sv_poller_count = n, sv_ops = ops,
     sv_session_user = to_session_user opts, sv_session_create_user = to_session_create_user opts,
     sv_pick_poller = to_pick_poller opts, sv_pick_poller_user = to_pick_poller_user opts,
     sv_poller_pool = to_poller_pool opts,
     sv_pool_pick_poller = (to_poller_pool opts \<noteq> None \<and> to_pick_poller opts = None),
     sv_manager_interval = manager_interval_of opts ops, sv_bindings = None, sv_sessions = [], sv_session_cap = 0,
     sv_host = (case to_host opts of None \<Rightarrow> [] | Some h \<Rightarrow> take (ZTK_NET_ADDR_STR_LEN - 1) h),
     sv_port = to_port opts, sv_backlog = (if to_backlog opts > 0 then to_backlog opts else ZTK_TCP_DEFAULT_BACKLOG),
     sv_started = False, sv_highwater_bytes = to_highwater_bytes opts, sv_on_highwater = to_on_highwater opts\<rparr>"

text \<open>
  Creation. The server appears in the store once its mutex exists; before the array of pollers is
  there, and while a slot of the pool is empty, the failure paths destroy a server that has neither
  sessions nor a socket.
\<close>

definition ztk_tcp_server_create ::
    "('f, 'w, 'x) tcp_env \<Rightarrow> 'f ztk_tcp_server_opts option \<Rightarrow> ('f, 'w, 'x) tnet \<Rightarrow> (nat option \<times> ('f, 'w, 'x) tnet) option" where
  "ztk_tcp_server_create E opts s =
     (case opts of None \<Rightarrow> Some (None, s)
      | Some o' \<Rightarrow>
        (case (to_session_ops o', to_poller_pool o') of
           (Some ops, Some pid) \<Rightarrow> do {
             pool \<leftarrow> tpools s pid;
             let n = ztk_poller_pool_size (Some pool);
             if n = 0 then Some (None, s)
             else let (m1, s1) = take_mem s in
             case fresh_or_null m1 (tservers s1) of None \<Rightarrow> Some (None, s1)
             | Some v \<Rightarrow>
               let (m2, s2) = take_mem s1 in
               if m2 = None then Some (None, s2)
               else let (m3, s3) = take_mem s2;
                 ps = map (\<lambda>i. ztk_poller_pool_at (Some pool) (of_nat i)) [0..<unat n];
                 sv = server_of o' ops n ps;
                 fail = (\<lambda>s. map_option (Pair None) (ztk_tcp_server_destroy E (Some v) s))
               in if m3 = None then fail (s3\<lparr>tservers := (tservers s3)(v \<mapsto> sv\<lparr>sv_pollers := None\<rparr>)\<rparr>)
               else if None \<in> set ps then fail (s3\<lparr>tservers := (tservers s3)(v \<mapsto> sv)\<rparr>)
               else let (l, s4) = ztk_socket_create (s3\<lparr>tservers := (tservers s3)(v \<mapsto> sv)\<rparr>) in
               if l = None then fail s4
               else let s5 = upd_srv v (\<lambda>sv. sv\<lparr>sv_listen_sock := l\<rparr>) s4; (m6, s6) = take_mem s5 in
               if m6 = None then fail s6
               else Some (Some v, upd_srv v (\<lambda>sv. sv\<lparr>sv_bindings := Some (replicate (unat n)
                      \<lparr>lb_server = None, lb_poller = None, lb_manager_timer = None\<rparr>)\<rparr>) s6)
           }
         | _ \<Rightarrow> Some (None, s)))"

text \<open>One round of the registration loop: the descriptor with the poller, then the manager timer.\<close>

definition start_binding ::
    "('f, 'w, 'x) tcp_env \<Rightarrow> nat \<Rightarrow> int \<Rightarrow> nat \<Rightarrow> ('f, 'w, 'x) tnet \<Rightarrow> (ztk_err \<times> ('f, 'w, 'x) tnet) option" where
  "start_binding E v listen_fd i s = do {
     sv \<leftarrow> tservers s v;
     ps \<leftarrow> sv_pollers sv;
     if i < length ps then do {
       let s1 = upd_binding v i (\<lambda>b. b\<lparr>lb_server := Some v, lb_poller := ps ! i\<rparr>) s;
       (err, s2) \<leftarrow> poller_add_at (te_os E) (ps ! i) listen_fd listen_events (Some (Fd_cb (Listen_on_readable v i) None)) s1;
       if err \<noteq> ZTK_OK then Some (err, s2) else listen_attach_manager E v i s2
     } else None
   }"

fun register_loop ::
    "('f, 'w, 'x) tcp_env \<Rightarrow> nat \<Rightarrow> int \<Rightarrow> nat list \<Rightarrow> ('f, 'w, 'x) tnet \<Rightarrow> (ztk_err \<times> ('f, 'w, 'x) tnet) option" where
  "register_loop E v fd [] s = Some (ZTK_OK, s)"
| "register_loop E v fd (i # is) s = do {
     (err, s1) \<leftarrow> start_binding E v fd i s;
     if err \<noteq> ZTK_OK then map_option (Pair err) (ztk_tcp_server_stop E (Some v) s1)
     else register_loop E v fd is s1
   }"

definition ztk_tcp_server_start ::
    "('f, 'w, 'x) tcp_env \<Rightarrow> nat option \<Rightarrow> ('f, 'w, 'x) tnet \<Rightarrow> (ztk_err \<times> ('f, 'w, 'x) tnet) option" where
  "ztk_tcp_server_start E srv s =
     (case srv of None \<Rightarrow> Some (ZTK_ERR_STATE, s)
      | Some v \<Rightarrow> do {
          sv \<leftarrow> tservers s v;
          if sv_started sv then Some (ZTK_ERR_STATE, s)
          else do {
            (err, s1) \<leftarrow> ztk_socket_listen (te_os E) (sv_listen_sock sv) (if sv_host sv \<noteq> [] then Some (sv_host sv) else None)
                           (sv_port sv) (sv_backlog sv) s;
            if err \<noteq> ZTK_OK then Some (err, s1)
            else do {
              ((e2, _, port), s2) \<leftarrow> ztk_socket_get_local (te_os E) (sv_listen_sock sv) (Some ZTK_NET_ADDR_STR_LEN) True s1;
              let s3 = (case port of Some p \<Rightarrow> if e2 = ZTK_OK \<and> p \<noteq> 0 then upd_srv v (\<lambda>sv. sv\<lparr>sv_port := p\<rparr>) s2 else s2
                        | None \<Rightarrow> s2);
              fd \<leftarrow> ztk_socket_fd (sv_listen_sock sv) s3;
              (err, s4) \<leftarrow> register_loop E v fd [0..<unat (sv_poller_count sv)] s3;
              if err \<noteq> ZTK_OK then Some (err, s4)
              else Some (ZTK_OK, upd_srv v (\<lambda>sv. sv\<lparr>sv_started := True\<rparr>) s4)
            }
          }
        })"

definition ztk_tcp_server_is_running :: "nat option \<Rightarrow> ('f, 'w, 'x) tnet \<Rightarrow> bool option" where
  "ztk_tcp_server_is_running srv s = (case srv of None \<Rightarrow> Some False | Some v \<Rightarrow> map_option sv_started (tservers s v))"

definition ztk_tcp_server_port :: "nat option \<Rightarrow> ('f, 'w, 'x) tnet \<Rightarrow> u16 option" where
  "ztk_tcp_server_port srv s = (case srv of None \<Rightarrow> Some 0 | Some v \<Rightarrow> map_option sv_port (tservers s v))"

definition ztk_tcp_server_poller_count :: "nat option \<Rightarrow> ('f, 'w, 'x) tnet \<Rightarrow> u32 option" where
  "ztk_tcp_server_poller_count srv s = (case srv of None \<Rightarrow> Some 0 | Some v \<Rightarrow> map_option sv_poller_count (tservers s v))"

definition ztk_tcp_server_poller :: "nat option \<Rightarrow> u32 \<Rightarrow> ('f, 'w, 'x) tnet \<Rightarrow> nat option option" where
  "ztk_tcp_server_poller srv index s =
     (case srv of None \<Rightarrow> Some None
      | Some v \<Rightarrow> do {
          sv \<leftarrow> tservers s v;
          if sv_poller_count sv \<le> index then Some None
          else do {
            ps \<leftarrow> sv_pollers sv;
            if unat index < length ps then Some (ps ! unat index) else None
          }
        })"

definition ztk_tcp_session_close :: "('f, 'w, 'x) tcp_env \<Rightarrow> nat option \<Rightarrow> ('f, 'w, 'x) tnet \<Rightarrow> ('f, 'w, 'x) tnet option" where
  "ztk_tcp_session_close E session s =
     (case session of None \<Rightarrow> Some s
      | Some a \<Rightarrow> do {
          se \<leftarrow> tsessions s a;
          if se_server se = None then Some s else session_remove E (se_server se) a s
        })"

text \<open>What the poller's dispatcher calls for the sockets of sessions.\<close>

definition tcp_call :: "('f, 'w, 'x) tcp_env \<Rightarrow> tcp_cb \<Rightarrow> nat \<Rightarrow> nat option \<Rightarrow> ('f, 'w, 'x) tnet \<Rightarrow> ('f, 'w, 'x) tnet option" where
  "tcp_call E k sock user s =
     (case k of
        Session_on_readable \<Rightarrow> session_on_readable E sock user s
      | Session_on_error \<Rightarrow> session_on_error E user s
      | Listen_on_readable v i \<Rightarrow> None)"

section \<open>The array of sessions\<close>

lemma find_idx_Some: "find_idx a xs = Some i \<Longrightarrow> i < length xs \<and> xs ! i = a"
  by (induction xs arbitrary: i) (auto split: if_splits)

lemma find_idx_None: "find_idx a xs = None \<longleftrightarrow> a \<notin> set xs"
  by (induction xs) auto

lemma swap_remove_mset: "mset (swap_remove a xs) = mset xs - {#a#}"
proof (cases "find_idx a xs")
  case None
  moreover have "a \<notin> set xs" using None by (metis find_idx_None)
  ultimately show ?thesis by (simp add: swap_remove_def)
next
  case (Some i)
  then have i: "i < length xs" "xs ! i = a" using find_idx_Some by auto
  then obtain ys z where xs: "xs = ys @ [z]" by (cases xs rule: rev_cases) auto
  show ?thesis
  proof (cases "i = length ys")
    case True
    then show ?thesis using Some xs i by (simp add: swap_remove_def)
  next
    case False
    then have lt: "i < length ys" using i(1) xs by simp
    then have "ys ! i = a" using i(2) xs by (simp add: nth_append)
    then have "a \<in># mset ys" using lt by auto
    with lt show ?thesis using Some xs i
      by (simp add: swap_remove_def list_update_append butlast_append mset_update nth_append diff_union_swap2)
  qed
qed

lemma swap_remove_set: "distinct xs \<Longrightarrow> set (swap_remove a xs) = set xs - {a} \<and> distinct (swap_remove a xs)"
proof -
  assume d: "distinct xs"
  have m: "mset (swap_remove a xs) = mset xs - {#a#}" by (rule swap_remove_mset)
  have "count (mset (swap_remove a xs)) x = (if x \<in> set xs - {a} then 1 else 0)" for x
    unfolding m using d by (auto simp: distinct_count_atmost_1)
  then show ?thesis by (metis count_mset_0_iff distinct_count_atmost_1 set_mset_mset not_in_iff one_neq_zero set_eqI)
qed

section \<open>Destroying a session\<close>

text \<open>What the socket operations leave alone of the larger state.\<close>

definition keeps_tcp :: "('f, 'w, 'x) tnet \<Rightarrow> ('f, 'w, 'x) tnet \<Rightarrow> bool" where
  "keeps_tcp s s' \<longleftrightarrow> tbufs s' = tbufs s \<and> tsessions s' = tsessions s \<and> tservers s' = tservers s \<and> ttimers s' = ttimers s \<and>
     tpools s' = tpools s \<and> tloads s' = tloads s \<and> tapp s' = tapp s"

lemma keeps_tcp_trans: "keeps_tcp s s1 \<Longrightarrow> keeps_tcp s1 s2 \<Longrightarrow> keeps_tcp s s2"
  by (simp add: keeps_tcp_def)

lemma del_keeps: "poller_del_at os p fd s = Some (e, s') \<Longrightarrow> keeps_tcp s s' \<and> socks s' = socks s"
  by (auto simp: poller_del_at_def keeps_tcp_def Let_def split_def bind_eq_Some_conv split: option.splits)

lemma detach_keeps: "ztk_socket_detach_poller os (Some k) s = Some (e, s') \<Longrightarrow> keeps_tcp s s' \<and> (\<forall>b. b \<noteq> k \<longrightarrow> socks s' b = socks s b)"
  by (auto simp: ztk_socket_detach_poller_def keeps_tcp_def upd_sock_def bind_eq_Some_conv dest!: del_keeps split: if_splits)

lemma close_keeps: "close_fd os k s = Some s' \<Longrightarrow> keeps_tcp s s' \<and> (\<forall>b. b \<noteq> k \<longrightarrow> socks s' b = socks s b)"
  by (auto simp: close_fd_def keeps_tcp_def upd_sock_def bind_eq_Some_conv split: if_splits)

lemma destroy_keeps:
  assumes "ztk_socket_destroy os (Some k) s = Some s'"
  shows "keeps_tcp s s' \<and> socks s' k = None \<and> (\<forall>b. b \<noteq> k \<longrightarrow> socks s' b = socks s b)"
proof -
  obtain e s1 s2 where *: "ztk_socket_detach_poller os (Some k) s = Some (e, s1)" "close_fd os k s1 = Some s2"
      "s' = s2\<lparr>socks := (socks s2)(k := None)\<rparr>"
    using assms by (auto simp: ztk_socket_destroy_def bind_eq_Some_conv)
  from detach_keeps [OF *(1)] close_keeps [OF *(2)] show ?thesis unfolding *(3) by (auto simp: keeps_tcp_def)
qed

text \<open>A socket whose poller exists while it is attached.\<close>

definition sock_fine :: "('f, 'w, 'x) tnet \<Rightarrow> nat \<Rightarrow> bool" where
  "sock_fine s k \<longleftrightarrow> (\<exists>so. socks s k = Some so \<and> (\<forall>p. s_attached so \<longrightarrow> s_poller so = Some p \<longrightarrow> npollers s p \<noteq> None))"

lemma detach_returns:
  assumes "sock_fine s k"
  shows "\<exists>s'. ztk_socket_detach_poller os (Some k) s = Some (ZTK_OK, s') \<and> sock_fine s' k \<and>
     map_option s_fd (socks s' k) = map_option s_fd (socks s k)"
proof -
  obtain so where so: "socks s k = Some so" "\<forall>p. s_attached so \<longrightarrow> s_poller so = Some p \<longrightarrow> npollers s p \<noteq> None"
    using assms by (auto simp: sock_fine_def)
  show ?thesis
  proof (cases "\<not> s_attached so \<or> s_poller so = None \<or> s_fd so < 0")
    case True
    then show ?thesis using so assms by (auto simp: ztk_socket_detach_poller_def)
  next
    case False
    then obtain p e where p: "s_poller so = Some p" "npollers s p = Some e" "s_attached so" "\<not> s_fd so < 0" using so(2) by auto
    then show ?thesis
      using so(1) by (auto simp: ztk_socket_detach_poller_def poller_del_at_def upd_sock_def sock_fine_def Let_def split_def)
  qed
qed

lemma destroy_returns:
  assumes "sock_fine s k"
  shows "\<exists>s'. ztk_socket_destroy os (Some k) s = Some s'"
proof -
  obtain s1 where s1: "ztk_socket_detach_poller os (Some k) s = Some (ZTK_OK, s1)" "sock_fine s1 k"
    using detach_returns [OF assms] by blast
  then obtain so where "socks s1 k = Some so" by (auto simp: sock_fine_def)
  then have "\<exists>s2. close_fd os k s1 = Some s2" by (simp add: close_fd_def)
  then show ?thesis using s1(1) by (auto simp: ztk_socket_destroy_def)
qed

lemma destroy_closes:
  assumes "ztk_socket_destroy os (Some k) s = Some s'" and "sock_fine s k" and "socks s k = Some so" and "0 \<le> s_fd so" and "fds_ok os opn"
  shows "s_fd so \<notin> op_of opn (nsys s')"
proof -
  obtain s1 where s1: "ztk_socket_detach_poller os (Some k) s = Some (ZTK_OK, s1)"
      "map_option s_fd (socks s1 k) = map_option s_fd (socks s k)" using detach_returns [OF assms(2)] by blast
  then obtain so1 where so1: "socks s1 k = Some so1" "s_fd so1 = s_fd so" using assms(3) by auto
  have "s' = (upd_sock k (\<lambda>s. s\<lparr>s_fd := - 1\<rparr>) (s1\<lparr>nsys := snd (ztk_sockplat_close os (s_fd so) (nsys s1))\<rparr>))\<lparr>socks :=
      (socks (upd_sock k (\<lambda>s. s\<lparr>s_fd := - 1\<rparr>) (s1\<lparr>nsys := snd (ztk_sockplat_close os (s_fd so) (nsys s1))\<rparr>)))(k := None)\<rparr>"
    using assms(1,4) s1(1) so1 by (simp add: ztk_socket_destroy_def close_fd_def)
  then have "nsys s' = snd (ztk_sockplat_close os (s_fd so) (nsys s1))" by (simp add: upd_sock_def)
  then show ?thesis using sockplat_close_fds [OF assms(5,4)] by simp
qed

lemma pop_all_spec:
  assumes "queue_ok (te_self E) hold (tbufs s) (se_out se)" and "tsessions s a = Some se"
  shows "\<exists>h n. out_pop_all E a s = Some (put_sess a (se\<lparr>se_out := [], se_out_pending := n\<rparr>) h s) \<and>
     refs (te_self E) hold h \<and> same_data hold (tbufs s) h"
  using assms
proof (induction "se_out se" arbitrary: s se)
  case Nil
  have "owed hold [] = hold" by (simp add: owed_def fun_eq_iff)
  then have "refs (te_self E) hold (tbufs s)" using Nil by (simp add: queue_ok_def)
  moreover have "put_sess a (se\<lparr>se_out := [], se_out_pending := se_out_pending se\<rparr>) (tbufs s) s = s"
    using Nil by (simp add: put_sess_def fun_upd_idem)
  moreover have "out_pop_all E a s = Some s" using Nil by (subst out_pop_all.simps) simp
  ultimately show ?case by (intro exI [of _ "tbufs s"] exI [of _ "se_out_pending se"]) simp
next
  case (Cons c cs)
  note out = Cons.hyps(2) [symmetric]
  let ?se = "se\<lparr>se_out := cs, se_out_pending := sub_floor (se_out_pending se) (ck_len c)\<rparr>"
  obtain h where h: "session_out_pop_chunk E a s = Some (put_sess a ?se h s)" "queue_ok (te_self E) hold h cs"
      "same_data hold (tbufs s) h"
    using pop_chunk_spec [of E hold s c cs a se] Cons.prems out by auto
  have "\<exists>h' n. out_pop_all E a (put_sess a ?se h s) = Some (put_sess a (?se\<lparr>se_out := [], se_out_pending := n\<rparr>) h' (put_sess a ?se h s)) \<and>
     refs (te_self E) hold h' \<and> same_data hold (tbufs (put_sess a ?se h s)) h'"
    by (rule Cons.hyps(1)) (use h(2) in simp_all)
  then obtain h' n where ih: "out_pop_all E a (put_sess a ?se h s) = Some (put_sess a (se\<lparr>se_out := [], se_out_pending := n\<rparr>) h' s)"
      "refs (te_self E) hold h'" "same_data hold h h'" by auto
  have "out_pop_all E a s = Some (put_sess a (se\<lparr>se_out := [], se_out_pending := n\<rparr>) h' s)"
    using Cons.prems(2) out h(1) ih(1) by (subst out_pop_all.simps) simp
  then show ?case using ih(2) same_data_trans [OF h(3) ih(3)] by blast
qed

lemma net_ok_fields:
  assumes "nsys s' = nsys s" and "socks s' = socks s" and "npollers s' = npollers s"
  shows "net_ok os opn intr B s' = net_ok os opn intr B s"
  using assms by (simp add: net_ok_def)

lemma put_sess_net [simp]:
  "nsys (put_sess a se h s) = nsys s" "socks (put_sess a se h s) = socks s" "npollers (put_sess a se h s) = npollers s"
  "tservers (put_sess a se h s) = tservers s" "tapp (put_sess a se h s) = tapp s" "nmem (put_sess a se h s) = nmem s"
  by (simp_all add: put_sess_def)

text \<open>
  Destroying a session frees it and its socket, and gives back the references of its queue; other
  sessions and sockets stay. Where the invariant of the sockets holds, it is kept.
\<close>

lemma session_destroy_spec:
  assumes "tsessions s a = Some se" and "queue_ok (te_self E) hold (tbufs s) (se_out se)" and "se_sock se = Some k" and "sock_fine s k"
  shows "\<exists>s'. session_destroy E a s = Some s' \<and> tsessions s' = (tsessions s)(a := None) \<and> tservers s' = tservers s \<and>
     socks s' k = None \<and> (\<forall>b. b \<noteq> k \<longrightarrow> socks s' b = socks s b) \<and> refs (te_self E) hold (tbufs s') \<and>
     same_data hold (tbufs s) (tbufs s') \<and> tapp s' = tapp s \<and>
     (\<forall>opn so. fds_ok (te_os E) opn \<longrightarrow> socks s k = Some so \<longrightarrow> 0 \<le> s_fd so \<longrightarrow> s_fd so \<notin> op_of opn (nsys s')) \<and>
     (\<forall>opn intr B. net_ok (te_os E) opn intr B s \<longrightarrow> net_ok (te_os E) opn intr B s')"
proof -
  obtain s1 where s1: "ztk_socket_detach_poller (te_os E) (Some k) s = Some (ZTK_OK, s1)" "sock_fine s1 k"
    using detach_returns [OF assms(4)] by blast
  have k1: "keeps_tcp s s1" "\<And>b. b \<noteq> k \<Longrightarrow> socks s1 b = socks s b" using detach_keeps [OF s1(1)] by auto
  have t1: "tsessions s1 a = Some se" "tbufs s1 = tbufs s" using k1(1) assms(1) by (simp_all add: keeps_tcp_def)
  obtain h n where s2: "out_pop_all E a s1 = Some (put_sess a (se\<lparr>se_out := [], se_out_pending := n\<rparr>) h s1)"
      "refs (te_self E) hold h" "same_data hold (tbufs s) h"
    using pop_all_spec [of E hold s1 se a] t1 assms(2) by auto
  let ?s2 = "put_sess a (se\<lparr>se_out := [], se_out_pending := n\<rparr>) h s1"
  have "sock_fine ?s2 k" using s1(2) by (simp add: sock_fine_def)
  from destroy_returns [OF this] obtain s3 where s3: "ztk_socket_destroy (te_os E) (Some k) ?s2 = Some s3" by blast
  have k3: "keeps_tcp ?s2 s3" "socks s3 k = None" "\<And>b. b \<noteq> k \<Longrightarrow> socks s3 b = socks s1 b"
    using destroy_keeps [OF s3] by auto
  let ?s = "s3\<lparr>tsessions := (tsessions s3)(a := None)\<rparr>"
  have run: "session_destroy E a s = Some ?s"
    using assms(1,3) s1(1) s2(1) s3 by (simp add: session_destroy_def session_detach_def)
  have net: "net_ok (te_os E) opn intr B ?s" if ok: "net_ok (te_os E) opn intr B s" for opn intr B
  proof -
    obtain so where "socks s k = Some so" using assms(4) by (auto simp: sock_fine_def)
    from detach_ok [OF ok this] obtain so1 where "net_ok (te_os E) opn intr B s1" "socks s1 k = Some so1" using s1(1) by auto
    then have "net_ok (te_os E) opn intr B ?s2" "socks ?s2 k = Some so1" by (simp_all add: net_ok_def)
    from destroy_ok [OF this] s3 have "net_ok (te_os E) opn intr B s3" by simp
    then show ?thesis by (simp add: net_ok_def)
  qed
  have fdc: "s_fd so \<notin> op_of opn (nsys ?s)" if "fds_ok (te_os E) opn" "socks s k = Some so" "0 \<le> s_fd so" for opn so
  proof -
    have "map_option s_fd (socks s1 k) = Some (s_fd so)" using detach_returns [OF assms(4), of "te_os E"] s1(1) that(2) by auto
    then obtain so1 where so1: "socks s1 k = Some so1" "s_fd so1 = s_fd so" by auto
    have "sock_fine ?s2 k" "socks ?s2 k = Some so1" using s1(2) so1(1) by (simp_all add: sock_fine_def)
    from destroy_closes [OF s3 this] that so1(2) show ?thesis by simp
  qed
  have "tsessions s3 = (tsessions s)(a \<mapsto> se\<lparr>se_out := [], se_out_pending := n\<rparr>)" "tbufs s3 = h" "tservers s3 = tservers s" "tapp s3 = tapp s"
    using k3(1) k1(1) by (simp_all add: keeps_tcp_def put_sess_def)
  then show ?thesis using run s2(2,3) k3(2,3) k1(2) net fdc by (intro exI [of _ ?s]) simp
qed

text \<open>\<open>calm_calls\<close>: the callbacks for errors and for the manager only change the application's own state.\<close>

definition calm_calls :: "('f, 'w, 'x) tcp_env \<Rightarrow> bool" where
  "calm_calls E \<longleftrightarrow> (\<forall>f a u s. \<exists>x. te_call E f a u s = Some (s\<lparr>tapp := x\<rparr>))"

lemma session_remove_spec:
  assumes "calm_calls E" and "tsessions s a = Some se" and "\<not> se_closing se" and "queue_ok (te_self E) hold (tbufs s) (se_out se)"
    and "se_sock se = Some k" and "sock_fine s k" and "tservers s v = Some sv"
  shows "\<exists>s'. session_remove E (Some v) a s = Some s' \<and> tsessions s' = (tsessions s)(a := None) \<and>
     tservers s' = (tservers s)(v \<mapsto> sv\<lparr>sv_sessions := swap_remove a (sv_sessions sv)\<rparr>) \<and>
     socks s' k = None \<and> (\<forall>b. b \<noteq> k \<longrightarrow> socks s' b = socks s b) \<and> refs (te_self E) hold (tbufs s') \<and>
     same_data hold (tbufs s) (tbufs s') \<and>
     (\<forall>opn so. fds_ok (te_os E) opn \<longrightarrow> socks s k = Some so \<longrightarrow> 0 \<le> s_fd so \<longrightarrow> s_fd so \<notin> op_of opn (nsys s')) \<and>
     (\<forall>opn intr B. net_ok (te_os E) opn intr B s \<longrightarrow> net_ok (te_os E) opn intr B s')"
proof -
  let ?sv = "sv\<lparr>sv_sessions := swap_remove a (sv_sessions sv)\<rparr>"
  let ?se = "se\<lparr>se_closing := True\<rparr>"
  define s2 where "s2 = upd_srv v (\<lambda>sv. sv\<lparr>sv_sessions := swap_remove a (sv_sessions sv)\<rparr>) (upd_sess a (\<lambda>se. se\<lparr>se_closing := True\<rparr>) s)"
  have f2: "tsessions s2 = (tsessions s)(a \<mapsto> ?se)" "tservers s2 = (tservers s)(v \<mapsto> ?sv)" "tbufs s2 = tbufs s"
      "socks s2 = socks s" "npollers s2 = npollers s" "nsys s2 = nsys s"
    using assms(2,7) by (simp_all add: s2_def upd_srv_def upd_sess_def)
  have "\<exists>x. (case op_on_error (sv_ops sv) of None \<Rightarrow> Some s2 | Some f \<Rightarrow> te_call E f a (se_user se) s2) = Some (s2\<lparr>tapp := x\<rparr>)"
  proof (cases "op_on_error (sv_ops sv)")
    case None
    then show ?thesis by (intro exI [of _ "tapp s2"]) simp
  next
    case (Some f)
    then show ?thesis using assms(1) by (simp add: calm_calls_def)
  qed
  then obtain x where x: "(case op_on_error (sv_ops sv) of None \<Rightarrow> Some s2 | Some f \<Rightarrow> te_call E f a (se_user se) s2) = Some (s2\<lparr>tapp := x\<rparr>)"
    by blast
  let ?s3 = "s2\<lparr>tapp := x\<rparr>"
  have "\<exists>s'. session_destroy E a ?s3 = Some s' \<and> tsessions s' = (tsessions ?s3)(a := None) \<and> tservers s' = tservers ?s3 \<and>
     socks s' k = None \<and> (\<forall>b. b \<noteq> k \<longrightarrow> socks s' b = socks ?s3 b) \<and> refs (te_self E) hold (tbufs s') \<and>
     same_data hold (tbufs ?s3) (tbufs s') \<and> tapp s' = tapp ?s3 \<and>
     (\<forall>opn so. fds_ok (te_os E) opn \<longrightarrow> socks ?s3 k = Some so \<longrightarrow> 0 \<le> s_fd so \<longrightarrow> s_fd so \<notin> op_of opn (nsys s')) \<and>
     (\<forall>opn intr B. net_ok (te_os E) opn intr B ?s3 \<longrightarrow> net_ok (te_os E) opn intr B s')"
    by (rule session_destroy_spec [of _ _ ?se]) (use f2 assms(4-6) in \<open>simp_all add: sock_fine_def\<close>)
  then obtain s' where s': "session_destroy E a ?s3 = Some s'" "tsessions s' = (tsessions ?s3)(a := None)" "tservers s' = tservers ?s3"
     "socks s' k = None" "\<forall>b. b \<noteq> k \<longrightarrow> socks s' b = socks ?s3 b" "refs (te_self E) hold (tbufs s')"
     "same_data hold (tbufs ?s3) (tbufs s')"
     "\<forall>opn so. fds_ok (te_os E) opn \<longrightarrow> socks ?s3 k = Some so \<longrightarrow> 0 \<le> s_fd so \<longrightarrow> s_fd so \<notin> op_of opn (nsys s')"
     "\<forall>opn intr B. net_ok (te_os E) opn intr B ?s3 \<longrightarrow> net_ok (te_os E) opn intr B s'" by blast
  have "net_ok (te_os E) opn intr B ?s3 = net_ok (te_os E) opn intr B s" for opn intr B
    by (rule net_ok_fields) (simp_all add: f2)
  moreover have "tservers (upd_sess a (\<lambda>se. se\<lparr>se_closing := True\<rparr>) s) v = Some sv" using assms(7) by (simp add: upd_sess_def)
  then have "session_remove E (Some v) a s = session_destroy E a ?s3"
    using assms(2,3) x by (simp add: session_remove_def s2_def [symmetric])
  ultimately show ?thesis using s' f2 by simp
qed

lemma recv_loop_freed:
  assumes "ztk_socket_recv (te_os E) (Some k) ZTK_TCP_RECV_CHUNK s = Some ((n, bs), s1)" and "0 < n" and "tsessions s1 a = Some se"
    and "se_server se = Some v" and "tservers s1 v = Some sv" and "op_on_recv (sv_ops sv) = Some f"
    and "te_recv E f a (take (nat n) bs) (se_user se) s1 = Some s2" and "socks s2 k = None"
  shows "recv_loop E k a s = None"
proof -
  have "recv_loop E k a s2 = None" using assms(8) by (subst recv_loop.simps) (simp add: ztk_socket_recv_def)
  then show ?thesis using assms by (subst recv_loop.simps) simp
qed

section \<open>Properties\<close>

text \<open>
  C9. Closing a session releases everything it had, once. From a session with its queue in order,
  the close returns; the session is gone and its server no longer lists it, while the other sessions
  are listed as before; its socket is freed, unregistered, and its descriptor closed; every chunk that
  waited has given back its reference, and nobody else's references or buffers changed. The
  invariant of sockets and pollers is kept.
\<close>

theorem tcp_close_releases:
  assumes "calm_calls E" and "sess_ok E hold a fd s" and "tsessions s a = Some se" and "\<not> se_closing se"
    and "se_server se = Some v" and "tservers s v = Some sv" and "distinct (sv_sessions sv)"
    and "se_sock se = Some k" and "sock_fine s k" and "fds_ok (te_os E) opn"
  shows "\<exists>s'. ztk_tcp_session_close E (Some a) s = Some s' \<and> tsessions s' = (tsessions s)(a := None) \<and>
     (\<exists>sv'. tservers s' = (tservers s)(v \<mapsto> sv') \<and> set (sv_sessions sv') = set (sv_sessions sv) - {a} \<and> distinct (sv_sessions sv')) \<and>
     socks s' k = None \<and> (\<forall>b. b \<noteq> k \<longrightarrow> socks s' b = socks s b) \<and> fd \<notin> op_of opn (nsys s') \<and>
     refs (te_self E) hold (tbufs s') \<and> same_data hold (tbufs s) (tbufs s') \<and>
     (\<forall>opn intr B. net_ok (te_os E) opn intr B s \<longrightarrow> net_ok (te_os E) opn intr B s')"
proof -
  have q: "queue_ok (te_self E) hold (tbufs s) (se_out se)" and "live_sock s (Some k) fd"
    using assms(2,3,8) by (auto simp: sess_ok_def out_ok_def)
  then obtain so where so: "socks s k = Some so" "s_fd so = fd" "0 \<le> fd" by (auto simp: live_sock_def)
  from session_remove_spec [OF assms(1,3,4) q assms(8,9,6)] obtain s' where
    s': "session_remove E (Some v) a s = Some s'" "tsessions s' = (tsessions s)(a := None)"
      "tservers s' = (tservers s)(v \<mapsto> sv\<lparr>sv_sessions := swap_remove a (sv_sessions sv)\<rparr>)"
      "socks s' k = None" "\<forall>b. b \<noteq> k \<longrightarrow> socks s' b = socks s b" "refs (te_self E) hold (tbufs s')"
      "same_data hold (tbufs s) (tbufs s')"
      "\<forall>opn so. fds_ok (te_os E) opn \<longrightarrow> socks s k = Some so \<longrightarrow> 0 \<le> s_fd so \<longrightarrow> s_fd so \<notin> op_of opn (nsys s')"
      "\<forall>opn intr B. net_ok (te_os E) opn intr B s \<longrightarrow> net_ok (te_os E) opn intr B s'" by blast
  have "ztk_tcp_session_close E (Some a) s = Some s'"
    using s'(1) assms(3,5) by (simp add: ztk_tcp_session_close_def)
  moreover have "fd \<notin> op_of opn (nsys s')" using s'(8) so assms(10) by blast
  moreover have "\<exists>sv'. tservers s' = (tservers s)(v \<mapsto> sv') \<and> set (sv_sessions sv') = set (sv_sessions sv) - {a} \<and> distinct (sv_sessions sv')"
    using s'(3) swap_remove_set [OF assms(7), of a] by (intro exI [of _ "sv\<lparr>sv_sessions := swap_remove a (sv_sessions sv)\<rparr>"]) simp
  ultimately show ?thesis using s'(2,4-7,9) by blast
qed

definition tnet1 :: "(nat, kern, nat) tnet" where
  "tnet1 = tnet0\<lparr>npollers := [5 \<mapsto> \<lparr>epfd = 3, wake_r = 4, wake_w = 6, entries = []\<rparr>]\<rparr>"

lemma tnet1_ok: "sess_ok tenv0 hold0 3 5 tnet1" "sock_fine tnet1 1" "calm_calls tenv0"
proof -
  have "sess_ok tenv0 hold0 3 5 tnet0" using tnet0_good by (simp add: stream_good_def)
  then show "sess_ok tenv0 hold0 3 5 tnet1" by (simp add: sess_ok_def tnet1_def live_sock_def)
  show "sock_fine tnet1 1" by (simp add: sock_fine_def tnet1_def tnet0_def)
  have "\<exists>x. s = s\<lparr>tapp := x\<rparr>" for s :: "(nat, kern, nat) tnet" by (rule exI [of _ "tapp s"]) simp
  then show "calm_calls tenv0" by (simp add: calm_calls_def tenv0_def)
qed

lemma tnet1_parts: "tsessions tnet1 3 = Some sess0" "tservers tnet1 7 = Some srv0" "\<not> se_closing sess0" "se_server sess0 = Some 7"
    "se_sock sess0 = Some 1" "distinct (sv_sessions srv0)"
  by (simp_all add: tnet1_def tnet0_def sess0_def srv0_def)

theorem tcp_close_releases_witness:
  "calm_calls tenv0 \<and> (\<exists>s'. ztk_tcp_session_close tenv0 (Some 3) tnet1 = Some s' \<and> tsessions s' 3 = None \<and> socks s' 1 = None \<and>
     5 \<notin> op_of (set \<circ> k_open) (nsys s'))"
proof -
  have f: "fds_ok (te_os tenv0) (set \<circ> k_open)" using k_fds_ok by (simp add: tenv0_def)
  obtain s' where "ztk_tcp_session_close tenv0 (Some 3) tnet1 = Some s'" "tsessions s' = (tsessions tnet1)(3 := None)" "socks s' 1 = None"
      "5 \<notin> op_of (set \<circ> k_open) (nsys s')"
    using tcp_close_releases [OF tnet1_ok(3,1) tnet1_parts(1,3,4,2,6,5) tnet1_ok(2) f] by blast
  then show ?thesis using tnet1_ok(3) by simp
qed

text \<open>
  C23. A session must not be closed from its own receive callback. If the application does so, the
  loop that called it goes on to read from the socket that the close has freed: whenever data
  arrives, the run has no defined outcome.
\<close>

theorem recv_close_dangling:
  assumes "calm_calls E'" and "sess_ok E' hold a fd s" and "tsessions s a = Some se" and "\<not> se_closing se"
    and "se_server se = Some v" and "tservers s v = Some sv" and "se_sock se = Some k" and "sock_fine s k"
    and "op_on_recv (sv_ops sv) = Some f" and "te_recv E f = (\<lambda>a d u. ztk_tcp_session_close E' (Some a))"
    and "ztk_socket_recv (te_os E) (Some k) ZTK_TCP_RECV_CHUNK s = Some ((n, bs), s1)" and "0 < n"
  shows "session_on_readable E k (Some a) s = None"
proof -
  obtain y where s1: "s1 = s\<lparr>nsys := y\<rparr>"
    using assms(11,12) by (auto simp: ztk_socket_recv_def bind_eq_Some_conv Let_def split_def split: if_splits)
  have q: "queue_ok (te_self E') hold (tbufs s1) (se_out se)" using assms(2,3) s1 by (auto simp: sess_ok_def out_ok_def)
  have t: "tsessions s1 a = Some se" "tservers s1 v = Some sv" "sock_fine s1 k" using assms(3,6,8) s1 by (simp_all add: sock_fine_def)
  obtain s2 where s2: "session_remove E' (Some v) a s1 = Some s2" "socks s2 k = None"
    using session_remove_spec [OF assms(1) t(1) assms(4) q assms(7) t(3,2)] by blast
  have "te_recv E f a (take (nat n) bs) (se_user se) s1 = Some s2"
    using s2(1) t(1) assms(5,10) by (simp add: ztk_tcp_session_close_def)
  from recv_loop_freed [OF assms(11,12) t(1) assms(5) t(2) assms(9) this s2(2)] show ?thesis
    using assms(3,4) by (simp add: session_on_readable_def)
qed

definition srv1 :: "nat ztk_tcp_server" where
  "srv1 = srv0\<lparr>sv_ops := \<lparr>op_on_recv = Some 0, op_on_error = None, op_on_manager = None\<rparr>\<rparr>"

definition tenv1 :: "(nat, kern, nat) tcp_env" where
  "tenv1 = tenv0\<lparr>te_recv := (\<lambda>_ a _ _. ztk_tcp_session_close tenv0 (Some a))\<rparr>"

definition tnet2 :: "(nat, kern, nat) tnet" where
  "tnet2 = tnet1\<lparr>tservers := [7 \<mapsto> srv1]\<rparr>"

theorem recv_close_dangling_witness: "session_on_readable tenv1 1 (Some 3) tnet2 = None"
proof -
  have "sess_ok tenv0 hold0 3 5 tnet2"
    using tnet1_ok(1) by (auto simp: sess_ok_def tnet2_def live_sock_def tnet1_def tnet0_def sess0_def)
  moreover have "tsessions tnet2 3 = Some sess0" "tservers tnet2 7 = Some srv1" "op_on_recv (sv_ops srv1) = Some 0" "sock_fine tnet2 1"
    using tnet1_ok(2) by (simp_all add: tnet2_def tnet1_def tnet0_def srv1_def sock_fine_def)
  moreover have "te_recv tenv1 0 = (\<lambda>a d u. ztk_tcp_session_close tenv0 (Some a))" by (simp add: tenv1_def)
  moreover have "\<exists>s1. ztk_socket_recv (te_os tenv1) (Some 1) ZTK_TCP_RECV_CHUNK tnet2 = Some ((2, [1, 2]), s1)"
    by (simp add: ztk_socket_recv_def tnet2_def tnet1_def tnet0_def tenv1_def tenv0_def ztk_sockplat_recv_def sysc_def k_os_def
        k_give_def k_start_def k_res_def io_result_def ZTK_TCP_RECV_CHUNK_def Let_def)
  ultimately show ?thesis
    using recv_close_dangling [OF tnet1_ok(3), of hold0 3 5 tnet2 sess0 7 srv1 1 0 tenv1 2 "[1, 2]"] tnet1_parts(3-5)
    by auto
qed

end
