(* ===== verification/Thread_Pool.thy ===== *)
theory Thread_Pool
  imports Linked_Queue "HOL-Library.Multiset"
begin

text \<open>
  The thread pool, \<^verbatim>\<open>src/thread/thread_pool.c\<close>, over the counting semaphore of
  \<^verbatim>\<open>src/platform/linux/sem_pthread.c\<close> (its branch for POSIX semaphores, which the build selects on
  Linux): workers that wait on the semaphore and run the tasks of a linked queue, callers that post
  tasks, and the owner that starts, finishes and destroys the pool. The three kinds of thread
  interleave in the step relation \<open>tp_step\<close>; a critical section of \<^verbatim>\<open>pool->mtx\<close> is one step, since it
  neither blocks nor calls out. The allocator, thread creation, thread identifiers and the scheduler
  are the choices of the relation.
\<close>

section \<open>The semaphore\<close>

text \<open>
  \<^verbatim>\<open>sem_post\<close> fails when the value is \<^verbatim>\<open>SEM_VALUE_MAX\<close>; \<^verbatim>\<open>sem_wait\<close> blocks at 0 (\<open>None\<close>), and the
  library repeats it when a signal interrupts it.
\<close>

definition SEM_VALUE_MAX :: nat where "SEM_VALUE_MAX = 2147483647"

definition sem_post_native :: "nat \<Rightarrow> (ztk_err \<times> nat)" where
  "sem_post_native v = (if v = SEM_VALUE_MAX then (ZTK_ERR_PLATFORM, v) else (ZTK_OK, v + 1))"

definition ztk_sem_wait :: "nat \<Rightarrow> nat option" where
  "ztk_sem_wait v = (if v = 0 then None else Some (v - 1))"

fun sem_post_loop :: "nat \<Rightarrow> nat \<Rightarrow> ztk_err \<times> nat" where
  "sem_post_loop 0 v = (ZTK_OK, v)"
| "sem_post_loop (Suc k) v =
     (case sem_post_native v of (e, v') \<Rightarrow> if e \<noteq> ZTK_OK then (ZTK_ERR_PLATFORM, v') else sem_post_loop k v')"

definition ztk_sem_post :: "u32 \<Rightarrow> nat option \<Rightarrow> ztk_err \<times> nat option" where
  "ztk_sem_post cnt s =
     (case s of
        None \<Rightarrow> (ZTK_ERR_INVALID, None)
      | Some v \<Rightarrow> if cnt = 0 then (ZTK_ERR_INVALID, s)
                  else (case sem_post_loop (unat cnt) v of (e, v') \<Rightarrow> (e, Some v')))"

section \<open>The pool and its operations\<close>

text \<open>
  \<open>tp_workers\<close> says which thread handles are not \<^verbatim>\<open>NULL\<close>; \<open>tp_taken\<close> holds the nodes that a worker
  has taken off the queue, which stay allocated.
\<close>

record 't ztk_thread_pool =
  tp_q :: "'t lq"
  tp_sem :: nat
  tp_worker_count :: u32
  tp_workers :: "bool list"
  tp_worker_ids :: "u64 list"
  tp_priority :: nat
  tp_shutdown :: bool
  tp_started :: bool
  tp_taken :: "nat set"

record tp_opts =
  to_thread_count :: u32
  to_priority :: nat
  to_auto_start :: bool

definition is_pool_worker :: "u64 \<Rightarrow> 't ztk_thread_pool \<Rightarrow> bool" where
  "is_pool_worker self P = (\<exists>i < unat (tp_worker_count P). tp_worker_ids P ! i = self)"

definition pop_task :: "'t ztk_thread_pool \<Rightarrow> ('t option \<times> 't ztk_thread_pool) option" where
  "pop_task P =
     (case lhead (tp_q P) of
        None \<Rightarrow> Some (None, P)
      | Some a \<Rightarrow>
          map_option (\<lambda>(t, q). (Some t, P\<lparr>tp_q := q, tp_taken := insert a (tp_taken P)\<rparr>)) (lq_pop (tp_q P)))"

text \<open>The allocator hands out no node that is queued or was taken and never freed.\<close>

definition task_fresh :: "'t ztk_thread_pool \<Rightarrow> nat \<Rightarrow> bool" where
  "task_fresh P a \<longleftrightarrow> nodes (tp_q P) a = None \<and> a \<notin> tp_taken P"

definition push_locked :: "nat \<Rightarrow> 't \<Rightarrow> bool \<Rightarrow> 't ztk_thread_pool \<Rightarrow> 't ztk_thread_pool" where
  "push_locked a t first P =
     P\<lparr>tp_q := (if first then lq_push_front a t (tp_q P) else lq_push_back a t (tp_q P))\<rparr>"

text \<open>
  What a caller does next: nothing, run the task itself, append a task, post the semaphore for the
  task it appended, return.
\<close>

datatype 't caller = CIdle | CInline 't | CPush 't bool | CPost | CDone ztk_err

definition async_entry :: "u64 \<Rightarrow> 't ztk_thread_pool option \<Rightarrow> 't option \<Rightarrow> bool \<Rightarrow> bool \<Rightarrow> 't caller" where
  "async_entry self pool fn may_sync first =
     (case (pool, fn) of
        (Some P, Some t) \<Rightarrow>
          if \<not> tp_started P then CDone ZTK_ERR_STATE
          else if may_sync \<and> is_pool_worker self P then CInline t
          else CPush t first
      | _ \<Rightarrow> CDone ZTK_ERR_INVALID)"

definition ztk_thread_pool_async :: "u64 \<Rightarrow> 't ztk_thread_pool option \<Rightarrow> 't option \<Rightarrow> bool \<Rightarrow> 't caller" where
  "ztk_thread_pool_async self pool fn may_sync = async_entry self pool fn may_sync False"

definition ztk_thread_pool_async_first :: "u64 \<Rightarrow> 't ztk_thread_pool option \<Rightarrow> 't option \<Rightarrow> bool \<Rightarrow> 't caller" where
  "ztk_thread_pool_async_first self pool fn may_sync = async_entry self pool fn may_sync True"

definition ztk_thread_pool_worker_count :: "'t ztk_thread_pool option \<Rightarrow> u32" where
  "ztk_thread_pool_worker_count pool = (case pool of None \<Rightarrow> 0 | Some P \<Rightarrow> tp_worker_count P)"

text \<open>
  The owner between its steps: a \<open>cont\<close> says whether the operation under way is followed by freeing
  the pool (\<^verbatim>\<open>ztk_thread_pool_destroy\<close> calling \<^verbatim>\<open>fini\<close>, \<^verbatim>\<open>create\<close> with \<^verbatim>\<open>auto_start\<close> failing to
  start). \<open>OJoin fini c e i n\<close> is \<^verbatim>\<open>join_workers\<close> of \<open>n\<close> handles at index \<open>i\<close>, called by \<^verbatim>\<open>fini\<close> or by a
  \<^verbatim>\<open>start\<close> that is about to report \<open>e\<close>.
\<close>

datatype cont = Return | ThenDestroy
datatype tp_owner = OIdle | OStart cont nat | OPost cont nat | OJoin bool cont ztk_err nat nat | ODestroy | ODead

text \<open>
  \<^verbatim>\<open>create\<close> with the outcomes of its allocations; the second component is what it does next. A
  failure frees what was allocated through \<^verbatim>\<open>destroy\<close>, whose parts all accept \<^verbatim>\<open>NULL\<close>.
\<close>

record tp_mem = m_pool :: bool m_mtx :: bool m_sem :: bool m_workers :: bool m_ids :: bool

definition ztk_thread_pool_create ::
    "tp_mem \<Rightarrow> u32 \<Rightarrow> tp_opts option \<Rightarrow> ('t ztk_thread_pool \<times> tp_owner) option" where
  "ztk_thread_pool_create m hw opts =
     (let n0 = (case opts of Some o' \<Rightarrow> if to_thread_count o' \<noteq> 0 then to_thread_count o' else hw | None \<Rightarrow> hw);
          n = (if n0 < 1 then 1 else n0) in
      if \<not> m_pool m then None
      else if \<not> m_mtx m \<or> \<not> m_sem m then None
      else if \<not> m_workers m \<or> \<not> m_ids m then None
      else Some (\<lparr>tp_q = lq_empty, tp_sem = 0, tp_worker_count = n, tp_workers = replicate (unat n) False,
                  tp_worker_ids = replicate (unat n) 0,
                  tp_priority = (case opts of Some o' \<Rightarrow> to_priority o' | None \<Rightarrow> 4),
                  tp_shutdown = False, tp_started = False, tp_taken = {}\<rparr>,
                 if (case opts of Some o' \<Rightarrow> to_auto_start o' | None \<Rightarrow> False)
                 then OStart ThenDestroy 0 else OIdle))"

text \<open>\<^verbatim>\<open>start\<close> either returns at once (\<open>Some\<close>) or goes into its loop, and \<^verbatim>\<open>fini\<close> likewise.\<close>

definition ztk_thread_pool_start :: "'t ztk_thread_pool option \<Rightarrow> ztk_err option" where
  "ztk_thread_pool_start pool =
     (case pool of None \<Rightarrow> Some ZTK_ERR_INVALID
      | Some P \<Rightarrow> if tp_started P then Some ZTK_OK else None)"

text \<open>One turn of the loop of \<^verbatim>\<open>start\<close>: the context and the thread may be refused.\<close>

definition spawn ::
    "bool \<Rightarrow> bool \<Rightarrow> nat \<Rightarrow> 't ztk_thread_pool \<Rightarrow> (ztk_err \<times> 't ztk_thread_pool) + 't ztk_thread_pool" where
  "spawn ctx_ok thread_ok i P =
     (if \<not> ctx_ok then Inl (ZTK_ERR_NOMEM, P)
      else if \<not> thread_ok then Inl (ZTK_ERR_PLATFORM, P\<lparr>tp_workers := (tp_workers P)[i := False]\<rparr>)
      else Inr (P\<lparr>tp_workers := (tp_workers P)[i := True]\<rparr>))"

definition ztk_thread_pool_fini :: "'t ztk_thread_pool option \<Rightarrow> 't ztk_thread_pool option" where
  "ztk_thread_pool_fini pool =
     (case pool of None \<Rightarrow> None
      | Some P \<Rightarrow> if \<not> tp_started P then None else Some (P\<lparr>tp_shutdown := True\<rparr>))"

text \<open>The loop of \<^verbatim>\<open>destroy\<close> over the tasks still queued; a chain that is broken has no outcome.\<close>

partial_function (option) free_tasks :: "nat option \<Rightarrow> 't node_store \<Rightarrow> 't node_store option" where
  "free_tasks p h =
     (case p of None \<Rightarrow> Some h
      | Some a \<Rightarrow> (case h a of None \<Rightarrow> None | Some (t, next) \<Rightarrow> free_tasks next (h(a := None))))"

section \<open>Threads interleaved\<close>

text \<open>
  A worker has not been created, is about to record its identifier, waits, holds a token of the
  semaphore, runs a task, or has left.
\<close>

datatype 't worker = WNone | WStart u64 | WWait | WPop | WRun 't | WExit

text \<open>
  \<open>hist\<close> is the history of the critical sections on the queue and \<open>popped\<close>, \<open>finished\<close>, \<open>submitted\<close> the
  tasks taken by a worker, completed by a worker and put into the queue; \<open>posts\<close> counts the tokens
  \<^verbatim>\<open>fini\<close> has posted, \<open>exits\<close> the workers that left, \<open>lost\<close> the tasks whose post failed, and \<open>pfail\<close>
  records that a post of \<^verbatim>\<open>fini\<close> failed. None of these is read by a step.
\<close>

record 't tp_sys =
  pool :: "'t ztk_thread_pool"
  wpcs :: "'t worker list"
  cpcs :: "'t caller list"
  opc :: tp_owner
  oerr :: ztk_err
  hist :: "'t qop list"
  popped :: "'t list"
  finished :: "'t list"
  submitted :: "'t list"
  posts :: nat
  exits :: nat
  lost :: nat
  pfail :: bool

abbreviation nworkers :: "'t tp_sys \<Rightarrow> nat" where
  "nworkers s \<equiv> unat (tp_worker_count (pool s))"

definition upd_tp :: "('t ztk_thread_pool \<Rightarrow> 't ztk_thread_pool) \<Rightarrow> 't tp_sys \<Rightarrow> 't tp_sys" where
  "upd_tp f s = s\<lparr>pool := f (pool s)\<rparr>"

definition set_w :: "nat \<Rightarrow> 't worker \<Rightarrow> 't tp_sys \<Rightarrow> 't tp_sys" where
  "set_w i w s = s\<lparr>wpcs := (wpcs s)[i := w]\<rparr>"

definition set_c :: "nat \<Rightarrow> 't caller \<Rightarrow> 't tp_sys \<Rightarrow> 't tp_sys" where
  "set_c i c s = s\<lparr>cpcs := (cpcs s)[i := c]\<rparr>"

lemmas tp_sets = upd_tp_def set_w_def set_c_def

inductive pool_worker :: "nat \<Rightarrow> 't tp_sys \<Rightarrow> 't tp_sys \<Rightarrow> bool" for i s where
  w_begin: "i < length (wpcs s) \<Longrightarrow> wpcs s ! i = WStart self \<Longrightarrow>
    pool_worker i s (set_w i WWait (upd_tp (\<lambda>P. if i < unat (tp_worker_count P)
       then P\<lparr>tp_worker_ids := (tp_worker_ids P)[i := self]\<rparr> else P) s))"
| w_wait: "i < length (wpcs s) \<Longrightarrow> wpcs s ! i = WWait \<Longrightarrow> ztk_sem_wait (tp_sem (pool s)) = Some v \<Longrightarrow>
    pool_worker i s (set_w i WPop (upd_tp (\<lambda>P. P\<lparr>tp_sem := v\<rparr>) s))"
| w_pop: "i < length (wpcs s) \<Longrightarrow> wpcs s ! i = WPop \<Longrightarrow> pop_task (pool s) = Some (Some t, P') \<Longrightarrow>
    pool_worker i s (set_w i (WRun t) (s\<lparr>pool := P', hist := hist s @ [Pop], popped := popped s @ [t]\<rparr>))"
| w_exit: "i < length (wpcs s) \<Longrightarrow> wpcs s ! i = WPop \<Longrightarrow> pop_task (pool s) = Some (None, P') \<Longrightarrow>
    pool_worker i s (set_w i WExit (s\<lparr>pool := P', hist := hist s @ [Pop], exits := exits s + 1\<rparr>))"
| w_done: "i < length (wpcs s) \<Longrightarrow> wpcs s ! i = WRun t \<Longrightarrow>
    pool_worker i s (set_w i WWait (s\<lparr>finished := finished s @ [t]\<rparr>))"

inductive push_task :: "nat \<Rightarrow> 't tp_sys \<Rightarrow> 't tp_sys \<Rightarrow> bool" for i s where
  c_call: "i < length (cpcs s) \<Longrightarrow> cpcs s ! i = CIdle \<Longrightarrow> opc s \<noteq> ODead \<Longrightarrow>
    push_task i s (set_c i (ztk_thread_pool_async self (Some (pool s)) fn may_sync) s)"
| c_call_first: "i < length (cpcs s) \<Longrightarrow> cpcs s ! i = CIdle \<Longrightarrow> opc s \<noteq> ODead \<Longrightarrow>
    push_task i s (set_c i (ztk_thread_pool_async_first self (Some (pool s)) fn may_sync) s)"
| c_inline: "i < length (cpcs s) \<Longrightarrow> cpcs s ! i = CInline t \<Longrightarrow> push_task i s (set_c i (CDone ZTK_OK) s)"
| c_nomem: "i < length (cpcs s) \<Longrightarrow> cpcs s ! i = CPush t first \<Longrightarrow>
    push_task i s (set_c i (CDone ZTK_ERR_NOMEM) s)"
| c_push: "i < length (cpcs s) \<Longrightarrow> cpcs s ! i = CPush t first \<Longrightarrow> task_fresh (pool s) a \<Longrightarrow>
    push_task i s (set_c i CPost (upd_tp (push_locked a t first)
      (s\<lparr>hist := hist s @ [if first then PushFront a t else PushBack a t], submitted := submitted s @ [t]\<rparr>)))"
| c_post: "i < length (cpcs s) \<Longrightarrow> cpcs s ! i = CPost \<Longrightarrow>
    ztk_sem_post 1 (Some (tp_sem (pool s))) = (e, Some v) \<Longrightarrow>
    push_task i s (set_c i (CDone e) (upd_tp (\<lambda>P. P\<lparr>tp_sem := v\<rparr>)
      (s\<lparr>lost := lost s + (if e = ZTK_OK then 0 else 1)\<rparr>)))"
| c_return: "i < length (cpcs s) \<Longrightarrow> cpcs s ! i = CDone e \<Longrightarrow> push_task i s (set_c i CIdle s)"

inductive tp_owner_step :: "'t tp_sys \<Rightarrow> 't tp_sys \<Rightarrow> bool" for s where
  o_start: "opc s = OIdle \<Longrightarrow> ztk_thread_pool_start (Some (pool s)) = None \<Longrightarrow>
    tp_owner_step s (s\<lparr>opc := OStart Return 0\<rparr>)"
| o_start_again: "opc s = OIdle \<Longrightarrow> ztk_thread_pool_start (Some (pool s)) = Some e \<Longrightarrow>
    tp_owner_step s (s\<lparr>oerr := e\<rparr>)"
| o_spawn: "opc s = OStart c i \<Longrightarrow> i < nworkers s \<Longrightarrow> spawn True True i (pool s) = Inr P' \<Longrightarrow>
    tp_owner_step s (set_w i (WStart self) (s\<lparr>pool := P', opc := OStart c (i + 1)\<rparr>))"
| o_spawn_fail: "opc s = OStart c i \<Longrightarrow> i < nworkers s \<Longrightarrow> spawn ctx_ok thread_ok i (pool s) = Inl (e, P') \<Longrightarrow>
    tp_owner_step s (s\<lparr>pool := P', opc := OJoin False c e 0 i\<rparr>)"
| o_started: "opc s = OStart c i \<Longrightarrow> \<not> i < nworkers s \<Longrightarrow>
    tp_owner_step s (upd_tp (\<lambda>P. P\<lparr>tp_started := True\<rparr>) (s\<lparr>opc := OIdle, oerr := ZTK_OK\<rparr>))"
| o_fini: "opc s = OIdle \<Longrightarrow> ztk_thread_pool_fini (Some (pool s)) = Some P' \<Longrightarrow>
    tp_owner_step s (s\<lparr>pool := P', opc := OPost Return (nworkers s)\<rparr>)"
| o_destroy_fini: "opc s = OIdle \<Longrightarrow> ztk_thread_pool_fini (Some (pool s)) = Some P' \<Longrightarrow>
    tp_owner_step s (s\<lparr>pool := P', opc := OPost ThenDestroy (nworkers s)\<rparr>)"
| o_destroy: "opc s = OIdle \<Longrightarrow> ztk_thread_pool_fini (Some (pool s)) = None \<Longrightarrow>
    tp_owner_step s (s\<lparr>opc := ODestroy\<rparr>)"
| o_post: "opc s = OPost c (Suc k) \<Longrightarrow> sem_post_native (tp_sem (pool s)) = (ZTK_OK, v) \<Longrightarrow>
    tp_owner_step s (upd_tp (\<lambda>P. P\<lparr>tp_sem := v\<rparr>) (s\<lparr>opc := OPost c k, posts := posts s + 1\<rparr>))"
| o_post_fail: "opc s = OPost c (Suc k) \<Longrightarrow> sem_post_native (tp_sem (pool s)) = (e, v) \<Longrightarrow> e \<noteq> ZTK_OK \<Longrightarrow>
    tp_owner_step s (s\<lparr>opc := OJoin True c ZTK_OK 0 (nworkers s), pfail := True\<rparr>)"
| o_posted: "opc s = OPost c 0 \<Longrightarrow> tp_owner_step s (s\<lparr>opc := OJoin True c ZTK_OK 0 (nworkers s)\<rparr>)"
| o_join: "opc s = OJoin f c e i n \<Longrightarrow> i < n \<Longrightarrow> tp_workers (pool s) ! i \<Longrightarrow> wpcs s ! i = WExit \<Longrightarrow>
    tp_owner_step s (upd_tp (\<lambda>P. P\<lparr>tp_workers := (tp_workers P)[i := False]\<rparr>) (s\<lparr>opc := OJoin f c e (i + 1) n\<rparr>))"
| o_join_skip: "opc s = OJoin f c e i n \<Longrightarrow> i < n \<Longrightarrow> \<not> tp_workers (pool s) ! i \<Longrightarrow>
    tp_owner_step s (s\<lparr>opc := OJoin f c e (i + 1) n\<rparr>)"
| o_joined_fini: "opc s = OJoin True c e i n \<Longrightarrow> \<not> i < n \<Longrightarrow>
    tp_owner_step s (upd_tp (\<lambda>P. P\<lparr>tp_started := False\<rparr>)
      (s\<lparr>opc := (if c = ThenDestroy then ODestroy else OIdle)\<rparr>))"
| o_joined_fail: "opc s = OJoin False c e i n \<Longrightarrow> \<not> i < n \<Longrightarrow>
    tp_owner_step s (s\<lparr>opc := (if c = ThenDestroy then ODestroy else OIdle), oerr := e\<rparr>)"
| o_free: "opc s = ODestroy \<Longrightarrow> set (cpcs s) \<subseteq> {CIdle} \<Longrightarrow>
    free_tasks (lhead (tp_q (pool s))) (nodes (tp_q (pool s))) = Some h \<Longrightarrow>
    tp_owner_step s (upd_tp (\<lambda>P. P\<lparr>tp_q := (tp_q P)\<lparr>nodes := h\<rparr>\<rparr>) (s\<lparr>opc := ODead\<rparr>))"

definition tp_step :: "'t tp_sys \<Rightarrow> 't tp_sys \<Rightarrow> bool" where
  "tp_step s s' \<longleftrightarrow> (\<exists>i. pool_worker i s s') \<or> (\<exists>i. push_task i s s') \<or> tp_owner_step s s'"

definition tp_init :: "'t ztk_thread_pool \<Rightarrow> tp_owner \<Rightarrow> nat \<Rightarrow> 't tp_sys" where
  "tp_init P c n = \<lparr>pool = P, wpcs = replicate (unat (tp_worker_count P)) WNone, cpcs = replicate n CIdle,
     opc = c, oerr = ZTK_OK, hist = [], popped = [], finished = [], submitted = [],
     posts = 0, exits = 0, lost = 0, pfail = False\<rparr>"

text \<open>The states of a pool made by \<^verbatim>\<open>create\<close> and used by \<open>n\<close> calling threads.\<close>

inductive tp_reach :: "'t tp_sys \<Rightarrow> bool" where
  tp_created: "ztk_thread_pool_create m hw opts = Some (P, c) \<Longrightarrow> tp_reach (tp_init P c n)"
| tp_next: "tp_reach s \<Longrightarrow> tp_step s s' \<Longrightarrow> tp_reach s'"

section \<open>Counting threads\<close>

fun w_live :: "'t worker \<Rightarrow> nat" where
  "w_live WNone = 0" | "w_live WExit = 0" | "w_live _ = 1"

fun w_hold :: "'t worker \<Rightarrow> nat" where
  "w_hold WPop = 1" | "w_hold _ = 0"

fun w_task :: "'t worker \<Rightarrow> 't multiset" where
  "w_task (WRun t) = {#t#}" | "w_task _ = {#}"

text \<open>The steps a worker can make before it must wait or has taken one more task off the queue.\<close>

fun w_stage :: "'t worker \<Rightarrow> nat" where
  "w_stage (WStart _) = 3" | "w_stage WWait = 2" | "w_stage WPop = 1" | "w_stage (WRun _) = 3" | "w_stage _ = 0"

fun c_pend :: "'t caller \<Rightarrow> nat" where
  "c_pend CPost = 1" | "c_pend _ = 0"

abbreviation total :: "('a \<Rightarrow> 'b :: comm_monoid_add) \<Rightarrow> 'a list \<Rightarrow> 'b" where
  "total f xs \<equiv> sum_list (map f xs)"

lemma total_update:
  "i < length xs \<Longrightarrow> total f (xs[i := x]) + f (xs ! i) = total f xs + f x"
  by (induction xs arbitrary: i) (auto simp: nth_Cons add_ac split: nat.splits)

lemma total_member: "i < length xs \<Longrightarrow> f (xs ! i) \<le> (total f xs :: nat)"
  by (simp add: member_le_sum_list)

lemma total_zero_iff: "total f xs = (0 :: nat) \<longleftrightarrow> (\<forall>j < length xs. f (xs ! j) = 0)"
  by (auto simp: all_set_conv_all_nth)

lemma exchange:
  fixes a b f f' m n :: "'a :: cancel_comm_monoid_add"
  assumes "a + m = b + n" and "f' + n = f + m"
  shows "a + f' = b + f"
proof -
  have "(a + f') + n = a + (f' + n)" by (simp add: add.assoc)
  also have "\<dots> = (a + m) + f" unfolding assms(2) by (simp add: ac_simps)
  also have "\<dots> = (b + f) + n" unfolding assms(1) by (simp add: ac_simps)
  finally show ?thesis by simp
qed

lemma sum_list_empties [simp]: "sum_list (replicate n {#}) = {#}"
  by (induction n) auto

lemma w_live_le: "w_live w \<le> 1"
  by (cases w) auto

lemma total_live_full: "(\<forall>j < length xs. w_live (xs ! j) = 1) \<Longrightarrow> total w_live xs = length xs"
proof -
  have "(\<forall>x \<in> set xs. w_live x = 1) \<Longrightarrow> total w_live xs = length xs" by (induction xs) auto
  then show "(\<forall>j < length xs. w_live (xs ! j) = 1) \<Longrightarrow> total w_live xs = length xs"
    by (simp add: all_set_conv_all_nth)
qed

lemma total_live_only_full:
  assumes "total w_live xs = length xs"
  shows "\<forall>w \<in> set xs. w_live w = 1"
proof -
  have le: "total w_live ys \<le> length ys" for ys :: "'a worker list"
  proof (induction ys)
    case (Cons y ys)
    then show ?case using w_live_le [of y] by simp
  qed simp
  show ?thesis using assms
  proof (induction xs)
    case (Cons y ys)
    then show ?case using w_live_le [of y] le [of ys] by auto
  qed simp
qed

lemma total_stage_le: "total w_stage xs \<le> 3 * length xs"
proof (induction xs)
  case (Cons y ys)
  then show ?case by (cases y) auto
qed simp

lemma w_live_zero: "w_live w = 0 \<longleftrightarrow> w = WNone \<or> w = WExit"
  by (cases w) auto

lemma dead_no_task: "total w_live xs = 0 \<Longrightarrow> total w_task xs = {#}"
  by (induction xs) (auto simp: w_live_zero)

section \<open>The queue as its history\<close>

lemma qops_spec_append:
  "qops_spec xs (ops @ ops') =
     (case qops_spec xs ops of (ys, out) \<Rightarrow> case qops_spec ys ops' of (zs, out') \<Rightarrow> (zs, out @ out'))"
  by (induction xs ops rule: qops_spec.induct) (auto split: prod.splits)

definition waiting :: "'t tp_sys \<Rightarrow> 't list" where
  "waiting s = fst (qops_spec [] (hist s))"

definition outputs :: "'t tp_sys \<Rightarrow> 't option list" where
  "outputs s = snd (qops_spec [] (hist s))"

lemma pop_task_Nil: "lq_rep (tp_q P) [] \<Longrightarrow> pop_task P = Some (None, P)"
  by (auto simp: pop_task_def lq_rep_def lq_repn_def)

lemma pop_task_Cons:
  assumes "lq_rep (tp_q P) (x # xs)"
  shows "\<exists>q D. pop_task P = Some (Some x, P\<lparr>tp_q := q, tp_taken := D\<rparr>) \<and> lq_rep q xs"
proof -
  obtain a where "lhead (tp_q P) = Some a" using assms by (auto simp: lq_rep_def lq_repn_def)
  moreover obtain q where "lq_pop (tp_q P) = Some (x, q)" "lq_rep q xs" using lq_pop_Cons [OF assms] by blast
  ultimately have "pop_task P = Some (Some x, P\<lparr>tp_q := q, tp_taken := insert a (tp_taken P)\<rparr>) \<and> lq_rep q xs"
    by (simp add: pop_task_def)
  then show ?thesis by blast
qed

lemma pop_task_total: "lq_rep (tp_q P) xs \<Longrightarrow> \<exists>r P'. pop_task P = Some (r, P')"
  by (cases xs) (use pop_task_Nil in blast, use pop_task_Cons in fastforce)

section \<open>What holds in every state\<close>

definition tp_shape :: "'t tp_sys \<Rightarrow> bool" where
  "tp_shape s \<longleftrightarrow> 0 < nworkers s \<and> length (tp_workers (pool s)) = nworkers s \<and>
     length (tp_worker_ids (pool s)) = nworkers s \<and> length (wpcs s) = nworkers s \<and>
     (\<forall>j < nworkers s. w_live (wpcs s ! j) = 1 \<longrightarrow> tp_workers (pool s) ! j) \<and>
     (\<forall>j < nworkers s. tp_workers (pool s) ! j \<longrightarrow> wpcs s ! j \<noteq> WNone)"

text \<open>
  The tokens: those in the semaphore and in the hands of workers, with the posts callers still owe
  and lost, are the queued tasks and what \<^verbatim>\<open>fini\<close> posted for workers that have not left.
\<close>

definition tp_work :: "'t tp_sys \<Rightarrow> bool" where
  "tp_work s \<longleftrightarrow>
     (opc s \<noteq> ODead \<longrightarrow> lq_rep (tp_q (pool s)) (waiting s)) \<and>
     popped s = List.map_filter id (outputs s) \<and>
     mset (submitted s) = mset (popped s) + mset (waiting s) \<and>
     mset (popped s) = mset (finished s) + total w_task (wpcs s) \<and>
     tp_sem (pool s) + total w_hold (wpcs s) + total c_pend (cpcs s) + lost s + exits s =
       length (waiting s) + posts s \<and>
     exits s \<le> posts s"

abbreviation live_below :: "nat \<Rightarrow> 't tp_sys \<Rightarrow> bool" where
  "live_below i s \<equiv> (\<forall>j < nworkers s. w_live (wpcs s ! j) = (if j < i then 1 else 0))"

fun tp_ctl :: "tp_owner \<Rightarrow> 't tp_sys \<Rightarrow> bool" where
  "tp_ctl OIdle s \<longleftrightarrow> posts s = exits s \<and>
     total w_live (wpcs s) = (if tp_started (pool s) then nworkers s else 0)"
| "tp_ctl (OStart c i) s \<longleftrightarrow> \<not> tp_started (pool s) \<and> posts s = exits s \<and> i \<le> nworkers s \<and> live_below i s"
| "tp_ctl (OPost c k) s \<longleftrightarrow> tp_started (pool s) \<and> posts s + k = exits s + total w_live (wpcs s)"
| "tp_ctl (OJoin f c e i n) s \<longleftrightarrow>
     (if f then tp_started (pool s) \<and> n = nworkers s \<and> i \<le> n \<and> (\<forall>j < i. w_live (wpcs s ! j) = 0) \<and>
             posts s \<le> exits s + total w_live (wpcs s) \<and>
             (\<not> pfail s \<longrightarrow> posts s = exits s + total w_live (wpcs s))
      else \<not> tp_started (pool s) \<and> posts s = exits s \<and> n \<le> nworkers s \<and> i = 0 \<and> live_below n s)"
| "tp_ctl ODestroy s \<longleftrightarrow> \<not> tp_started (pool s) \<and> posts s = exits s \<and> total w_live (wpcs s) = 0"
| "tp_ctl ODead s \<longleftrightarrow> total w_live (wpcs s) = 0 \<and> set (cpcs s) \<subseteq> {CIdle}"

definition tp_inv :: "'t tp_sys \<Rightarrow> bool" where
  "tp_inv s \<longleftrightarrow> tp_shape s \<and> tp_work s \<and> tp_ctl (opc s) s"

lemma create_shape:
  assumes "ztk_thread_pool_create m hw opts = Some (P, c)"
  shows "tp_q P = lq_empty" and "tp_sem P = 0" and "\<not> tp_started P" and "tp_worker_count P \<noteq> 0"
    and "tp_workers P = replicate (unat (tp_worker_count P)) False"
    and "tp_worker_ids P = replicate (unat (tp_worker_count P)) 0"
    and "c = OIdle \<or> c = OStart ThenDestroy 0"
  using assms by (auto simp: ztk_thread_pool_create_def Let_def split: if_splits)

lemma tp_inv_init:
  assumes "ztk_thread_pool_create m hw opts = Some (P, c)"
  shows "tp_inv (tp_init P c n)"
  using create_shape [OF assms] lq_rep_empty
  by (auto simp: tp_inv_def tp_shape_def tp_work_def tp_init_def waiting_def outputs_def
      map_filter_simps sum_list_replicate unat_gt_0)


lemma tp_ctl_frame:
  assumes inv: "tp_inv s" and "opc s' = opc s" and "map w_live (wpcs s') = map w_live (wpcs s)"
    and "posts s' = posts s" "exits s' = exits s" "pfail s' = pfail s"
    and "tp_started (pool s') = tp_started (pool s)" "tp_worker_count (pool s') = tp_worker_count (pool s)"
    and "opc s = ODead \<Longrightarrow> cpcs s' = cpcs s"
  shows "tp_ctl (opc s') s'"
proof -
  have len: "length (wpcs s) = nworkers s" and ctl: "tp_ctl (opc s) s" using inv by (auto simp: tp_inv_def tp_shape_def)
  have "length (wpcs s') = length (wpcs s)" using assms(3) by (rule map_eq_imp_length_eq)
  then have nth: "\<And>j. j < nworkers s \<Longrightarrow> w_live (wpcs s' ! j) = w_live (wpcs s ! j)"
    using len assms(3) by (metis nth_map)
  show ?thesis using assms(2-) ctl nth len by (cases "opc s") (auto split: if_splits)
qed

lemma map_live_set: "w_live w = w_live (xs ! i) \<Longrightarrow> map w_live (xs[i := w]) = map w_live xs"
  by (cases "i < length xs") (simp_all add: map_update list_update_same_conv list_update_beyond)

lemma waiting_snoc:
  assumes "hist s' = hist s @ [Pop]"
  shows "waiting s = [] \<Longrightarrow> waiting s' = [] \<and> outputs s' = outputs s @ [None]"
    and "waiting s = t # ts \<Longrightarrow> waiting s' = ts \<and> outputs s' = outputs s @ [Some t]"
  using assms by (auto simp: waiting_def outputs_def qops_spec_append split: prod.splits)

lemma live_worker_queue:
  assumes "tp_inv s" and "i < length (wpcs s)" and "w_live (wpcs s ! i) = 1"
  shows "opc s \<noteq> ODead" and "lq_rep (tp_q (pool s)) (waiting s)"
proof -
  have "total w_live (wpcs s) \<noteq> 0" using total_member [OF assms(2), of w_live] assms(3) by linarith
  then show "opc s \<noteq> ODead" using assms(1) by (auto simp: tp_inv_def)
  then show "lq_rep (tp_q (pool s)) (waiting s)" using assms(1) by (simp add: tp_inv_def tp_work_def)
qed

text \<open>
  A worker finds the queue empty only when a token of \<^verbatim>\<open>fini\<close> is left for it: it is the only way out
  of its loop.
\<close>

lemma worker_exit_token:
  assumes inv: "tp_inv s" and i: "i < length (wpcs s)" "wpcs s ! i = WPop"
    and pop: "pop_task (pool s) = Some (None, P')"
  shows "waiting s = []" and "P' = pool s" and "exits s + 1 \<le> posts s"
proof -
  have rep: "lq_rep (tp_q (pool s)) (waiting s)" using live_worker_queue(2) [OF inv i(1)] i(2) by simp
  then show w: "waiting s = []"
    using pop pop_task_Cons [of "pool s"] by (cases "waiting s") fastforce+
  then show "P' = pool s" using pop rep pop_task_Nil [of "pool s"] by simp
  show "exits s + 1 \<le> posts s" using inv w total_member [OF i(1), of w_hold] i(2)
    by (simp add: tp_inv_def tp_work_def)
qed

lemma tp_workD:
  assumes "tp_inv s"
  shows "opc s \<noteq> ODead \<Longrightarrow> lq_rep (tp_q (pool s)) (waiting s)"
    and "popped s = List.map_filter id (outputs s)"
    and "mset (submitted s) = mset (popped s) + mset (waiting s)"
    and "mset (popped s) = mset (finished s) + total w_task (wpcs s)"
    and "tp_sem (pool s) + total w_hold (wpcs s) + total c_pend (cpcs s) + lost s + exits s =
       length (waiting s) + posts s"
    and "exits s \<le> posts s"
  using assms unfolding tp_inv_def tp_work_def by blast+

text \<open>A step that leaves the queue and the history of its tasks alone.\<close>

lemma tp_work_frame:
  assumes inv: "tp_inv s" and h: "hist s' = hist s" "popped s' = popped s" "submitted s' = submitted s"
    and q: "opc s' \<noteq> ODead \<Longrightarrow> opc s \<noteq> ODead \<and> tp_q (pool s') = tp_q (pool s)"
    and fin: "mset (finished s') + total w_task (wpcs s') = mset (finished s) + total w_task (wpcs s)"
    and tok: "tp_sem (pool s') + total w_hold (wpcs s') + total c_pend (cpcs s') + lost s' + exits s' + posts s =
       tp_sem (pool s) + total w_hold (wpcs s) + total c_pend (cpcs s) + lost s + exits s + posts s'"
    and le: "exits s' \<le> posts s'"
  shows "tp_work s'"
proof -
  have w: "waiting s' = waiting s" "outputs s' = outputs s" using h(1) by (simp_all add: waiting_def outputs_def)
  have "tp_sem (pool s') + total w_hold (wpcs s') + total c_pend (cpcs s') + lost s' + exits s' =
       length (waiting s) + posts s'"
    using tp_workD(5) [OF inv] tok by linarith
  moreover have "mset (popped s) = mset (finished s') + total w_task (wpcs s')"
    using fin tp_workD(4) [OF inv] by simp
  ultimately show ?thesis unfolding tp_work_def w h using tp_workD(1-3) [OF inv] q le by metis
qed

text \<open>A step of a worker that leaves the queue alone.\<close>

lemma worker_inv:
  assumes inv: "tp_inv s" and i: "i < length (wpcs s)"
    and s': "s' = set_w i w (s\<lparr>pool := (pool s)\<lparr>tp_sem := v, tp_worker_ids := ids\<rparr>, finished := fs\<rparr>)"
    and ids: "length ids = nworkers s" and live: "w_live (wpcs s ! i) = 1" "w_live w = 1"
    and tok: "v + w_hold w = tp_sem (pool s) + w_hold (wpcs s ! i)"
    and fin: "mset fs + w_task w = mset (finished s) + w_task (wpcs s ! i)"
  shows "tp_inv s'"
proof -
  have sh: "tp_shape s'" using inv s' i ids live unfolding tp_inv_def tp_shape_def
    by (auto simp: tp_sets nth_list_update)
  have c: "tp_ctl (opc s') s'" using s' live
    by (intro tp_ctl_frame [OF inv]) (simp_all add: tp_sets map_live_set)
  have "total w_task (wpcs s') + mset fs = total w_task (wpcs s) + mset (finished s)"
    using exchange [OF total_update [OF i, of w_task w] fin] s' by (simp add: tp_sets)
  then have "tp_work s'" using tp_workD(6) [OF inv] tok total_update [OF i, of w_hold w]
    by (intro tp_work_frame [OF inv]) (simp_all add: s' tp_sets add.commute)
  with sh c show ?thesis by (simp add: tp_inv_def)
qed

lemma pool_worker_inv:
  assumes step: "pool_worker i s s'" and inv: "tp_inv s"
  shows "tp_inv s'"
  using step
proof cases
  case (w_begin self)
  have "i < nworkers s" "length (tp_worker_ids (pool s)) = nworkers s"
    using inv w_begin(2) by (simp_all add: tp_inv_def tp_shape_def)
  then show ?thesis using w_begin
    by (intro worker_inv [OF inv, where w = WWait and v = "tp_sem (pool s)" and fs = "finished s"
          and ids = "(tp_worker_ids (pool s))[i := self]"]) (auto simp: tp_sets)
next
  case (w_wait v)
  have "length (tp_worker_ids (pool s)) = nworkers s" using inv by (simp add: tp_inv_def tp_shape_def)
  then show ?thesis using w_wait
    by (intro worker_inv [OF inv, where w = WPop and v = v and fs = "finished s" and ids = "tp_worker_ids (pool s)"])
      (auto simp: tp_sets ztk_sem_wait_def split: if_splits)
next
  case (w_done t)
  have "length (tp_worker_ids (pool s)) = nworkers s" using inv by (simp add: tp_inv_def tp_shape_def)
  then show ?thesis using w_done
    by (intro worker_inv [OF inv, where w = WWait and v = "tp_sem (pool s)" and fs = "finished s @ [t]"
          and ids = "tp_worker_ids (pool s)"]) (auto simp: tp_sets)
next
  case (w_pop t P')
  note u = total_update [OF w_pop(2), of _ "WRun t"]
  have rep: "lq_rep (tp_q (pool s)) (waiting s)" using live_worker_queue(2) [OF inv w_pop(2)] w_pop(3) by simp
  with w_pop(4) obtain ts where ts: "waiting s = t # ts"
    using pop_task_Nil [of "pool s"] pop_task_Cons [of "pool s"] by (cases "waiting s") fastforce+
  with rep w_pop(4) obtain q D where P': "P' = (pool s)\<lparr>tp_q := q, tp_taken := D\<rparr>" "lq_rep q ts"
    using pop_task_Cons [of "pool s" t ts] by auto
  have w: "waiting s' = ts" "outputs s' = outputs s @ [Some t]"
    using waiting_snoc(2) [OF _ ts, of s'] w_pop(1) by (simp_all add: tp_sets)
  have "tp_shape s'" using inv w_pop(1-3) P'(1) by (auto simp: tp_inv_def tp_shape_def tp_sets nth_list_update)
  moreover have "popped s' = List.map_filter id (outputs s')"
    using tp_workD(2) [OF inv] w(2) w_pop(1) by (simp add: tp_sets map_filter_def)
  then have "tp_work s'" using tp_workD(3-6) [OF inv] w_pop(1,3) P' u [of w_hold] u [of w_task] w(1) ts
    unfolding tp_work_def by (simp add: tp_sets)
  moreover have "tp_ctl (opc s') s'" using w_pop(1,3) P'(1)
    by (intro tp_ctl_frame [OF inv]) (simp_all add: tp_sets map_live_set)
  ultimately show ?thesis by (simp add: tp_inv_def)
next
  case (w_exit P')
  note u = total_update [OF w_exit(2), of _ WExit]
  note tok = worker_exit_token [OF inv w_exit(2-4)]
  have w: "waiting s' = []" "outputs s' = outputs s @ [None]"
    using waiting_snoc(1) [OF _ tok(1), of s'] w_exit(1) by (simp_all add: tp_sets)
  have live: "total w_live (wpcs s') + 1 = total w_live (wpcs s)"
    using u [of w_live] w_exit(1,3) by (simp add: tp_sets)
  have "tp_shape s'" using inv w_exit(1-3) tok(2) by (auto simp: tp_inv_def tp_shape_def tp_sets nth_list_update)
  moreover have "popped s' = List.map_filter id (outputs s')"
    using tp_workD(2) [OF inv] w(2) w_exit(1) by (simp add: tp_sets map_filter_def)
  then have "tp_work s'"
    using tp_workD(1,3-6) [OF inv] w_exit(1,3) tok u [of w_hold] u [of w_task] w(1)
    unfolding tp_work_def by (simp add: tp_sets)
  moreover have "tp_ctl (opc s') s'"
    using inv w_exit(1-3) tok live live_worker_queue(1) [OF inv w_exit(2)]
    by (cases "opc s") (auto simp: tp_inv_def tp_shape_def tp_sets nth_list_update split: if_splits)
  ultimately show ?thesis by (simp add: tp_inv_def)
qed

lemma sem_post_one:
  assumes "ztk_sem_post 1 (Some v) = (e, Some v')"
  shows "v' + (if e = ZTK_OK then 0 else 1) = v + 1"
  using assms by (auto simp: ztk_sem_post_def sem_post_native_def split: prod.splits if_splits)

lemma push_locked_rep:
  assumes "lq_rep (tp_q P) xs" and "task_fresh P a"
  shows "lq_rep (tp_q (push_locked a t first P)) (if first then t # xs else xs @ [t])"
  using assms by (simp add: push_locked_def task_fresh_def lq_fresh_def lq_rep_push_front lq_rep_push_back)

lemma waiting_push:
  assumes "hist s' = hist s @ [if first then PushFront a t else PushBack a t]"
  shows "waiting s' = (if first then t # waiting s else waiting s @ [t])" and "outputs s' = outputs s"
  using assms by (auto simp: waiting_def outputs_def qops_spec_append split: prod.splits)

lemma busy_caller:
  assumes "tp_inv s" and "i < length (cpcs s)" and "cpcs s ! i \<noteq> CIdle"
  shows "opc s \<noteq> ODead"
proof
  assume "opc s = ODead"
  then have "set (cpcs s) \<subseteq> {CIdle}" using assms(1) by (simp add: tp_inv_def)
  then show False using assms(2,3) nth_mem by fastforce
qed

text \<open>A step of a caller that touches nothing but its own control and, at most, the semaphore.\<close>

lemma caller_inv:
  assumes inv: "tp_inv s" and nd: "opc s \<noteq> ODead" and i: "i < length (cpcs s)"
    and s': "s' = set_c i c (s\<lparr>pool := (pool s)\<lparr>tp_sem := v\<rparr>, lost := n\<rparr>)"
    and tok: "v + c_pend c + n = tp_sem (pool s) + c_pend (cpcs s ! i) + lost s"
  shows "tp_inv s'"
proof -
  have c: "tp_ctl (opc s') s'" using nd s'
    by (intro tp_ctl_frame [OF inv]) (auto simp: tp_sets)
  have "tp_work s'" using tp_workD(6) [OF inv] tok nd total_update [OF i, of c_pend c]
    by (intro tp_work_frame [OF inv]) (simp_all add: s' tp_sets)
  moreover have "tp_shape s'" using inv s' by (simp add: tp_inv_def tp_shape_def tp_sets)
  ultimately show ?thesis using c by (simp add: tp_inv_def)
qed

lemma push_task_inv:
  assumes step: "push_task i s s'" and inv: "tp_inv s"
  shows "tp_inv s'"
proof -
  have pend: "c_pend (async_entry self P fn may_sync first) = 0" for self P fn may_sync first
    by (simp add: async_entry_def split: option.split)
  show ?thesis using step
  proof cases
    case (c_push t first a)
    note nd = busy_caller [OF inv c_push(2)]
    note w = waiting_push [of s' s first a t]
    have "tp_ctl (opc s') s'" using c_push(1,3) nd
      by (intro tp_ctl_frame [OF inv]) (auto simp: tp_sets push_locked_def)
    moreover have v: "waiting s' = (if first then t # waiting s else waiting s @ [t])" "outputs s' = outputs s"
      using w c_push(1) by (simp_all add: tp_sets)
    have "tp_sem (pool s') + total w_hold (wpcs s') + total c_pend (cpcs s') + lost s' + exits s' =
        length (waiting s') + posts s'"
      using tp_workD(5) [OF inv] total_update [OF c_push(2), of c_pend CPost] c_push(3)
      unfolding v(1) by (simp add: c_push(1) tp_sets push_locked_def)
    then have "tp_work s'"
      using tp_workD(1-4,6) [OF inv] c_push(1,4) nd push_locked_rep [of "pool s" "waiting s" a t first]
      unfolding tp_work_def v by (auto simp: tp_sets)
    moreover have "tp_shape s'" using inv c_push(1) by (simp add: tp_inv_def tp_shape_def tp_sets push_locked_def)
    ultimately show ?thesis by (simp add: tp_inv_def)
  next
    case (c_post e v)
    then show ?thesis using inv sem_post_one [OF c_post(4)] busy_caller [OF inv c_post(2)]
      by (intro caller_inv [OF inv, where i = i and c = "CDone e" and v = v
            and n = "lost s + (if e = ZTK_OK then 0 else 1)"]) (auto simp: tp_sets)
  qed (use inv busy_caller [OF inv, of i] pend in
        \<open>auto intro!: caller_inv [OF inv, where i = i and v = "tp_sem (pool s)" and n = "lost s"]
          simp: tp_sets ztk_thread_pool_async_def ztk_thread_pool_async_first_def\<close>)
qed


lemma free_tasks_path: "lpath h p ns \<Longrightarrow> distinct (map fst ns) \<Longrightarrow> \<exists>h'. free_tasks p h = Some h' \<and>
    (\<forall>a. h' a = (if a \<in> fst ` set ns then None else h a))"
proof (induction ns arbitrary: h p)
  case Nil
  then show ?case by (simp add: free_tasks.simps)
next
  case (Cons m ns)
  obtain a x where m: "m = (a, x)" by (cases m)
  with Cons.prems obtain n where n: "p = Some a" "h a = Some (x, n)" "lpath h n ns" by auto
  with Cons.prems m have "lpath (h(a := None)) n ns" by auto
  with Cons.IH [of "h(a := None)" n] Cons.prems obtain h' where "free_tasks n (h(a := None)) = Some h'"
      "\<forall>b. h' b = (if b \<in> fst ` set ns then None else (h(a := None)) b)"
    by (metis distinct.simps(2) list.simps(9))
  with n m show ?case by (intro exI [of _ h'], auto simp: free_tasks.simps [of "Some a"])
qed

lemma tp_shape_frame:
  assumes "tp_inv s" and "pool s' = (pool s)\<lparr>tp_q := q, tp_sem := v, tp_shutdown := d, tp_started := b\<rparr>"
    and "wpcs s' = wpcs s"
  shows "tp_shape s'"
  using assms by (simp add: tp_inv_def tp_shape_def)

text \<open>A step of the owner that moves its control and changes no worker, caller or task.\<close>

lemma owner_inv:
  assumes inv: "tp_inv s" and P: "pool s' = (pool s)\<lparr>tp_sem := v, tp_shutdown := d, tp_started := b\<rparr>"
    and same: "wpcs s' = wpcs s" "cpcs s' = cpcs s" "hist s' = hist s" "popped s' = popped s"
      "submitted s' = submitted s" "finished s' = finished s" "lost s' = lost s" "exits s' = exits s"
    and tok: "v + posts s = tp_sem (pool s) + posts s'" "posts s \<le> posts s'"
    and nd: "opc s \<noteq> ODead" and ctl: "tp_ctl (opc s') s'"
  shows "tp_inv s'"
proof -
  have "tp_work s'" using tok nd tp_workD(6) [OF inv] by (intro tp_work_frame [OF inv]) (simp_all add: P same)
  moreover have "tp_shape s'" using P same by (intro tp_shape_frame [OF inv, where q = "tp_q (pool s)"]) simp_all
  ultimately show ?thesis using ctl by (simp add: tp_inv_def)
qed

lemma no_handle_dead:
  assumes "tp_inv s" and "j < nworkers s" and "\<not> tp_workers (pool s) ! j"
  shows "w_live (wpcs s ! j) = 0"
  using assms w_live_le [of "wpcs s ! j"] by (fastforce simp: tp_inv_def tp_shape_def)

lemma dead_worker: "w_live w = 0 \<Longrightarrow> w_hold w = 0 \<and> w_task w = {#}"
  by (cases w) auto

lemma tp_owner_inv:
  assumes step: "tp_owner_step s s'" and inv: "tp_inv s"
  shows "tp_inv s'"
proof -
  have len: "length (wpcs s) = nworkers s" and ctl: "tp_ctl (opc s) s" using inv by (auto simp: tp_inv_def tp_shape_def)
  note move = owner_inv [OF inv, where v = "tp_sem (pool s)" and d = "tp_shutdown (pool s)" and b = "tp_started (pool s)"]
  show ?thesis using step
  proof cases
    case o_start
    then show ?thesis using ctl len
      by (intro move) (auto simp: total_zero_iff ztk_thread_pool_start_def split: if_splits)
  next
    case (o_start_again e)
    then show ?thesis using ctl by (intro move) auto
  next
    case (o_spawn_fail c i ctx_ok thread_ok e P')
    have i: "i < length (wpcs s)" "w_live (wpcs s ! i) = 0" using ctl o_spawn_fail(2,3) len by simp_all
    then have "tp_shape s'" using inv o_spawn_fail(1,4)
      by (auto simp: tp_inv_def tp_shape_def spawn_def nth_list_update split: if_splits)
    moreover have "tp_work s'" using o_spawn_fail(1,2,4) tp_workD(6) [OF inv]
      by (intro tp_work_frame [OF inv]) (auto simp: spawn_def split: if_splits)
    moreover have "tp_ctl (opc s') s'" using ctl o_spawn_fail(1-4) by (auto simp: spawn_def split: if_splits)
    ultimately show ?thesis by (simp add: tp_inv_def)
  next
    case (o_started c i)
    then have "total w_live (wpcs s) = nworkers s" using ctl len total_live_full [of "wpcs s"] by simp
    then show ?thesis using o_started ctl
      by (intro owner_inv [OF inv, where v = "tp_sem (pool s)" and d = "tp_shutdown (pool s)" and b = True])
        (auto simp: tp_sets)
  next
    case (o_fini P')
    then show ?thesis using ctl
      by (intro owner_inv [OF inv, where v = "tp_sem (pool s)" and d = True and b = "tp_started (pool s)"])
        (auto simp: ztk_thread_pool_fini_def split: if_splits)
  next
    case (o_destroy_fini P')
    then show ?thesis using ctl
      by (intro owner_inv [OF inv, where v = "tp_sem (pool s)" and d = True and b = "tp_started (pool s)"])
        (auto simp: ztk_thread_pool_fini_def split: if_splits)
  next
    case o_destroy
    then show ?thesis using ctl by (intro move) (auto simp: ztk_thread_pool_fini_def split: if_splits)
  next
    case (o_post c k v)
    then show ?thesis using ctl
      by (intro owner_inv [OF inv, where v = v and d = "tp_shutdown (pool s)" and b = "tp_started (pool s)"])
        (auto simp: tp_sets sem_post_native_def split: if_splits)
  next
    case (o_post_fail c k e v)
    then show ?thesis using ctl by (intro move) auto
  next
    case (o_posted c)
    then show ?thesis using ctl by (intro move) auto
  next
    case (o_joined_fini c e i n)
    then have "total w_live (wpcs s) = 0" using ctl len by (intro iffD2 [OF total_zero_iff]) simp
    moreover have "posts s \<le> exits s + total w_live (wpcs s)" using ctl o_joined_fini by simp
    ultimately have "posts s = exits s \<and> total w_live (wpcs s) = 0" using tp_workD(6) [OF inv] by linarith
    then show ?thesis using o_joined_fini
      by (intro owner_inv [OF inv, where v = "tp_sem (pool s)" and d = "tp_shutdown (pool s)" and b = False])
        (auto simp: tp_sets)
  next
    case (o_joined_fail c e i n)
    then have "total w_live (wpcs s) = 0" using ctl len by (intro iffD2 [OF total_zero_iff]) simp
    then show ?thesis using o_joined_fail ctl by (intro move) auto
  next
    case (o_join_skip f c e i n)
    then have "i < nworkers s" using ctl by (auto split: if_splits)
    with no_handle_dead [OF inv _ o_join_skip(4)] have "w_live (wpcs s ! i) = 0" by simp
    then show ?thesis using o_join_skip ctl by (intro move) (auto simp: less_Suc_eq split: if_splits)
  next
    case (o_join f c e i n)
    have "\<not> f \<Longrightarrow> i = 0 \<and> w_live (wpcs s ! 0) = 1" using ctl o_join(2,3) by simp
    with o_join(5) have f: f by (cases f) auto
    with ctl o_join(2,3) have iw: "i < nworkers s" by simp
    have "tp_shape s'" using inv o_join iw by (auto simp: tp_inv_def tp_shape_def tp_sets nth_list_update)
    moreover have "tp_work s'" using o_join tp_workD(6) [OF inv]
      by (intro tp_work_frame [OF inv]) (simp_all add: tp_sets)
    moreover have "tp_ctl (opc s') s'" using ctl o_join f by (auto simp: tp_sets less_Suc_eq)
    ultimately show ?thesis by (simp add: tp_inv_def)
  next
    case (o_spawn c i P' self)
    have P': "P' = (pool s)\<lparr>tp_workers := (tp_workers (pool s))[i := True]\<rparr>" using o_spawn(4) by (simp add: spawn_def)
    have "w_live (wpcs s ! i) = 0" and i: "i < length (wpcs s)" using ctl o_spawn(2,3) len by simp_all
    note u = total_update [OF i, of _ "WStart self"] dead_worker [OF this(1)]
    have "tp_shape s'" using inv o_spawn(1) P' i by (auto simp: tp_inv_def tp_shape_def tp_sets nth_list_update)
    moreover have "tp_work s'" using o_spawn(1,2) P' tp_workD(6) [OF inv] u(1) [of w_hold] u(1) [of w_task] u(2)
      by (intro tp_work_frame [OF inv]) (simp_all add: tp_sets)
    moreover have "tp_ctl (opc s') s'" using ctl o_spawn(1-3) P' i by (auto simp: tp_sets nth_list_update)
    ultimately show ?thesis by (simp add: tp_inv_def)
  next
    case (o_free h)
    have "tp_shape s'" using inv o_free by (simp add: tp_inv_def tp_shape_def tp_sets)
    moreover have "tp_work s'" using o_free tp_workD(6) [OF inv]
      by (intro tp_work_frame [OF inv]) (simp_all add: tp_sets)
    moreover have "tp_ctl (opc s') s'" using ctl o_free by (simp add: tp_sets)
    ultimately show ?thesis by (simp add: tp_inv_def)
  qed
qed

lemma tp_reach_inv: "tp_reach s \<Longrightarrow> tp_inv s"
proof (induction rule: tp_reach.induct)
  case (tp_created m hw opts P c n)
  then show ?case by (rule tp_inv_init)
next
  case (tp_next s s')
  then show ?case unfolding tp_step_def using pool_worker_inv push_task_inv tp_owner_inv by metis
qed

section \<open>Draining\<close>

definition workers_step :: "'t tp_sys \<Rightarrow> 't tp_sys \<Rightarrow> bool" where
  "workers_step s s' \<longleftrightarrow> (\<exists>i. pool_worker i s s')"

definition work_left :: "'t tp_sys \<Rightarrow> nat" where
  "work_left s = 3 * length (waiting s) + total w_stage (wpcs s)"

lemma worker_frame:
  assumes "pool_worker i s s'"
  shows "opc s' = opc s" "cpcs s' = cpcs s" "lost s' = lost s" "pfail s' = pfail s" "submitted s' = submitted s"
    "tp_worker_count (pool s') = tp_worker_count (pool s)" "length (wpcs s') = length (wpcs s)"
  using assms
  by (cases; auto simp: tp_sets pop_task_def split: option.splits)+

lemma worker_work_left:
  assumes step: "pool_worker i s s'" and inv: "tp_inv s"
  shows "work_left s' < work_left s"
  using step
proof cases
  case (w_begin self)
  then show ?thesis using total_update [OF w_begin(2), of w_stage WWait]
    by (simp add: work_left_def tp_sets waiting_def)
next
  case (w_wait v)
  then show ?thesis using total_update [OF w_wait(2), of w_stage WPop]
    by (simp add: work_left_def tp_sets waiting_def)
next
  case (w_pop t P')
  have rep: "lq_rep (tp_q (pool s)) (waiting s)" using live_worker_queue(2) [OF inv w_pop(2)] w_pop(3) by simp
  with w_pop(4) obtain ts where ts: "waiting s = t # ts"
    using pop_task_Nil [of "pool s"] pop_task_Cons [of "pool s"] by (cases "waiting s") fastforce+
  have "waiting s' = ts" using waiting_snoc(2) [OF _ ts, of s'] w_pop(1) by (simp add: tp_sets)
  then show ?thesis using ts total_update [OF w_pop(2), of w_stage "WRun t"] w_pop(1,3)
    by (simp add: work_left_def tp_sets)
next
  case (w_exit P')
  then show ?thesis using total_update [OF w_exit(2), of w_stage WExit] worker_exit_token [OF inv w_exit(2-4)]
      waiting_snoc(1) [of s' s] by (simp add: work_left_def tp_sets)
next
  case (w_done t)
  then show ?thesis using total_update [OF w_done(2), of w_stage WWait]
    by (simp add: work_left_def tp_sets waiting_def)
qed

lemma drain_run:
  assumes "(workers_step ^^ k) s s'" and "tp_inv s"
  shows "tp_inv s' \<and> work_left s' + k \<le> work_left s \<and> opc s' = opc s \<and> cpcs s' = cpcs s \<and>
     lost s' = lost s \<and> pfail s' = pfail s \<and> submitted s' = submitted s"
  using assms
proof (induction k arbitrary: s')
  case 0
  then show ?case by simp
next
  case (Suc k)
  then obtain u where "(workers_step ^^ k) s u" "workers_step u s'" by auto
  then obtain i where u: "(workers_step ^^ k) s u" "pool_worker i u s'" by (auto simp: workers_step_def)
  note ih = Suc.IH [OF u(1) Suc.prems(2)]
  then have "tp_inv s'" "work_left s' < work_left u" using pool_worker_inv [OF u(2)] worker_work_left [OF u(2)] by auto
  then show ?case using ih worker_frame [OF u(2)] by simp
qed

text \<open>The last worker that leaves leaves an empty queue.\<close>

lemma last_exit_empty:
  assumes "(workers_step ^^ k) s s'" and "tp_inv s" and "total w_live (wpcs s) \<noteq> 0" and "total w_live (wpcs s') = 0"
  shows "waiting s' = []"
proof (cases k)
  case 0
  then show ?thesis using assms by simp
next
  case (Suc m)
  then obtain u where "(workers_step ^^ m) s u" "workers_step u s'" using assms(1) by auto
  then obtain i where u: "tp_inv u" "pool_worker i u s'" using drain_run assms(2) by (metis workers_step_def)
  have "i < length (wpcs u)" using u(2) by cases auto
  then have dead: "w_live (wpcs s' ! i) = 0"
    using assms(4) worker_frame(7) [OF u(2)] total_member [of i "wpcs s'" w_live] by simp
  show ?thesis using u(2)
  proof cases
    case (w_exit P')
    then show ?thesis using worker_exit_token(1) [OF u(1) w_exit(2-4)] waiting_snoc(1) [of s' u] by (simp add: tp_sets)
  qed (use dead in \<open>auto simp: tp_sets\<close>)
qed

text \<open>A worker that cannot move has left, was never created, or waits at an empty semaphore.\<close>

lemma worker_stuck:
  assumes inv: "tp_inv s" and i: "i < length (wpcs s)" and stuck: "\<And>t. \<not> workers_step s t"
  shows "w_live (wpcs s ! i) = 0 \<or> wpcs s ! i = WWait \<and> tp_sem (pool s) = 0"
proof (cases "wpcs s ! i")
  case WPop
  then have "lq_rep (tp_q (pool s)) (waiting s)" using live_worker_queue(2) [OF inv i] by simp
  then obtain r P' where "pop_task (pool s) = Some (r, P')" using pop_task_total by blast
  then have "workers_step s (if r = None then set_w i WExit (s\<lparr>pool := P', hist := hist s @ [Pop], exits := exits s + 1\<rparr>)
     else set_w i (WRun (the r)) (s\<lparr>pool := P', hist := hist s @ [Pop], popped := popped s @ [the r]\<rparr>))"
    using w_pop [OF i WPop] w_exit [OF i WPop] unfolding workers_step_def by (cases r) auto
  then show ?thesis using stuck by blast
next
  case (WStart self)
  then show ?thesis using stuck w_begin [OF i WStart] by (auto simp: workers_step_def)
next
  case WWait
  then show ?thesis using stuck w_wait [OF i WWait]
    by (cases "tp_sem (pool s) = 0") (auto simp: workers_step_def ztk_sem_wait_def)
next
  case (WRun t)
  then show ?thesis using stuck w_done [OF i WRun] by (auto simp: workers_step_def)
qed simp_all

text \<open>When no post was lost, workers that cannot move after \<^verbatim>\<open>fini\<close> have all left.\<close>

lemma stuck_drained:
  assumes inv: "tp_inv s" and stuck: "\<And>t. \<not> workers_step s t" and opc: "opc s = OJoin True c e i n"
    and ok: "lost s = 0" "\<not> pfail s" "set (cpcs s) \<subseteq> {CIdle}"
  shows "total w_live (wpcs s) = 0"
proof -
  have st: "w_live (wpcs s ! j) = 0 \<or> wpcs s ! j = WWait \<and> tp_sem (pool s) = 0" if "j < length (wpcs s)" for j
    using worker_stuck [OF inv that] stuck by blast
  have "w_hold (wpcs s ! j) = 0" if "j < length (wpcs s)" for j using st [OF that] dead_worker by auto
  then have "total w_hold (wpcs s) = 0" by (intro iffD2 [OF total_zero_iff]) blast
  moreover have "total c_pend (cpcs s) = 0" using ok(3) by (fastforce simp: total_zero_iff dest: nth_mem)
  moreover have "posts s = exits s + total w_live (wpcs s)" using inv opc ok(2) by (simp add: tp_inv_def)
  moreover have "tp_sem (pool s) = 0 \<or> total w_live (wpcs s) = 0"
    using st by (cases "tp_sem (pool s) = 0") (auto simp only: total_zero_iff)
  ultimately show ?thesis using tp_workD(5) [OF inv] ok(1) by linarith
qed

section \<open>A call of fini\<close>

text \<open>
  The steps while \<^verbatim>\<open>fini\<close> is under way and nobody submits: those of the workers, and those of the owner from its
  first post to its return.
\<close>

fun in_fini :: "tp_owner \<Rightarrow> bool" where
  "in_fini (OPost _ _) = True" | "in_fini (OJoin f _ _ _ _) = f" | "in_fini _ = False"

definition fini_step :: "'t tp_sys \<Rightarrow> 't tp_sys \<Rightarrow> bool" where
  "fini_step s t \<longleftrightarrow> workers_step s t \<or> in_fini (opc s) \<and> tp_owner_step s t"

fun after_fini :: "cont \<Rightarrow> tp_owner" where
  "after_fini Return = OIdle" | "after_fini ThenDestroy = ODestroy"

fun owner_left :: "nat \<Rightarrow> tp_owner \<Rightarrow> nat" where
  "owner_left w (OPost _ k) = k + w + 2" | "owner_left w (OJoin _ _ _ i n) = n - i + 1" | "owner_left w _ = 0"

definition fini_left :: "'t tp_sys \<Rightarrow> nat" where
  "fini_left s = work_left s + owner_left (nworkers s) (opc s)"

fun fini_at :: "cont \<Rightarrow> 't tp_sys \<Rightarrow> tp_owner \<Rightarrow> bool" where
  "fini_at c s (OPost d k) \<longleftrightarrow> d = c \<and> tp_sem (pool s) + k \<le> SEM_VALUE_MAX"
| "fini_at c s (OJoin f d e i n) \<longleftrightarrow> f \<and> d = c \<and> e = ZTK_OK \<and> n = nworkers s"
| "fini_at c s p \<longleftrightarrow> p = after_fini c \<and> \<not> tp_started (pool s)"

definition fini_inv :: "cont \<Rightarrow> 't list \<Rightarrow> 't tp_sys \<Rightarrow> bool" where
  "fini_inv c ts s \<longleftrightarrow> tp_inv s \<and> lost s = 0 \<and> \<not> pfail s \<and> set (cpcs s) \<subseteq> {CIdle} \<and> submitted s = ts \<and>
     (total w_live (wpcs s) = 0 \<longrightarrow> waiting s = []) \<and> fini_at c s (opc s)"

lemma worker_sem_le: "pool_worker i s t \<Longrightarrow> tp_sem (pool t) \<le> tp_sem (pool s)"
  by (cases rule: pool_worker.cases) (auto simp: tp_sets pop_task_def ztk_sem_wait_def split: option.splits if_splits)

lemma worker_started: "pool_worker i s t \<Longrightarrow> tp_started (pool t) = tp_started (pool s)"
  by (cases rule: pool_worker.cases) (auto simp: tp_sets pop_task_def split: option.splits if_splits)

lemma after_fini_out [simp]: "\<not> in_fini (after_fini c)"
  by (cases c) simp_all

lemma fini_at_after [simp]: "fini_at c s (after_fini c) \<longleftrightarrow> \<not> tp_started (pool s)"
  by (cases c) simp_all

lemma fini_worker_inv:
  assumes "fini_inv c ts s" and "pool_worker i s t"
  shows "fini_inv c ts t"
proof -
  have inv: "tp_inv s" "tp_inv t" using assms pool_worker_inv by (auto simp: fini_inv_def)
  have i: "i < length (wpcs s)" "w_live (wpcs s ! i) = 1" using assms(2) by (cases; simp)+
  have "total w_live (wpcs s) \<noteq> 0" using total_member [OF i(1), of w_live] i(2) by linarith
  moreover have "(workers_step ^^ 1) s t" unfolding relpowp_1 using assms(2) by (auto simp: workers_step_def)
  ultimately have "total w_live (wpcs t) = 0 \<longrightarrow> waiting t = []" using last_exit_empty [OF _ inv(1)] by blast
  moreover have "fini_at c t (opc s)"
    using assms(1) worker_sem_le [OF assms(2)] worker_started [OF assms(2)] worker_frame(6) [OF assms(2)]
    by (cases "opc s") (auto simp: fini_inv_def)
  ultimately show ?thesis using assms(1) inv(2) worker_frame(1-5) [OF assms(2)] by (simp add: fini_inv_def)
qed

lemma fini_owner_inv:
  assumes f: "fini_inv c ts s" and p: "in_fini (opc s)" and st: "tp_owner_step s t"
  shows "fini_inv c ts t \<and> fini_left t < fini_left s"
proof -
  have inv: "tp_inv s" and at: "fini_at c s (opc s)" using f by (auto simp: fini_inv_def)
  have "tp_inv t" by (rule tp_owner_inv [OF st inv])
  with st show ?thesis
  proof cases
    case (o_post c' k v)
    then show ?thesis using f \<open>tp_inv t\<close> at
      by (auto simp: fini_inv_def fini_left_def work_left_def waiting_def tp_sets sem_post_native_def split: if_splits)
  next
    case (o_post_fail c' k e v)
    then show ?thesis using at by (auto simp: sem_post_native_def split: if_splits)
  next
    case (o_joined_fini c' e i n)
    then show ?thesis using f \<open>tp_inv t\<close> at
      by (cases c') (auto simp: fini_inv_def fini_left_def work_left_def waiting_def tp_sets)
  qed (use f \<open>tp_inv t\<close> at p in
      \<open>auto simp: fini_inv_def fini_left_def work_left_def waiting_def tp_sets\<close>)
qed

lemma fini_run:
  assumes "(fini_step ^^ k) s t" and "fini_inv c ts s"
  shows "fini_inv c ts t \<and> fini_left t + k \<le> fini_left s"
  using assms
proof (induction k arbitrary: t)
  case 0
  then show ?case by simp
next
  case (Suc k)
  then obtain u where u: "(fini_step ^^ k) s u" "fini_step u t" by auto
  note ih = Suc.IH [OF u(1) Suc.prems(2)]
  have "fini_inv c ts t \<and> fini_left t < fini_left u"
  proof (cases "workers_step u t")
    case True
    then obtain i where i: "pool_worker i u t" by (auto simp: workers_step_def)
    have "tp_inv u" using ih by (simp add: fini_inv_def)
    with i show ?thesis using fini_worker_inv [of c ts u i t] ih worker_work_left [OF i] worker_frame [OF i]
      by (auto simp: fini_left_def)
  next
    case False
    then show ?thesis using u(2) ih fini_owner_inv unfolding fini_step_def by blast
  qed
  then show ?case using ih by simp
qed

text \<open>While \<^verbatim>\<open>fini\<close> has not returned, some step is possible.\<close>

lemma fini_not_stuck:
  assumes f: "fini_inv c ts s" and stuck: "\<And>t. \<not> fini_step s t"
  shows "opc s = after_fini c"
proof (cases "opc s")
  case (OPost d k)
  have "tp_sem (pool s) + k \<le> SEM_VALUE_MAX" using f OPost by (simp add: fini_inv_def)
  then show ?thesis
    using stuck o_post [of s d _ "tp_sem (pool s) + 1"] o_posted [of s d] OPost
    by (cases k) (auto simp: fini_step_def sem_post_native_def)
next
  case (OJoin j d e i n)
  then have j: "j" "n = nworkers s" "tp_inv s" using f by (auto simp: fini_inv_def)
  have "total w_live (wpcs s) = 0"
    by (rule stuck_drained [of s d e i n]) (use f OJoin j stuck in \<open>auto simp: fini_inv_def fini_step_def\<close>)
  then have "w_live (wpcs s ! i) = 0" if "i < n" using that j by (auto simp: total_zero_iff tp_inv_def tp_shape_def)
  then have "wpcs s ! i = WExit" if "i < n" "tp_workers (pool s) ! i"
    using that j w_live_zero by (auto simp: tp_inv_def tp_shape_def)
  then have "\<exists>t. tp_owner_step s t"
    using OJoin j(1) o_join [of s True d e i n] o_join_skip [of s True d e i n] o_joined_fini [of s d e i n]
    by (cases "i < n"; cases "tp_workers (pool s) ! i") auto
  then show ?thesis using stuck OJoin j(1) by (auto simp: fini_step_def)
qed (use f in \<open>auto simp: fini_inv_def\<close>)

text \<open>The call itself, and a run of it to its end.\<close>

lemma fini_called:
  assumes "tp_reach s" and "opc s = OIdle" and "tp_owner_step s s0" and "opc s0 = OPost c m"
    and "set (cpcs s) \<subseteq> {CIdle}" and "lost s = 0" and "\<not> pfail s" and "tp_sem (pool s) + nworkers s \<le> SEM_VALUE_MAX"
  shows "fini_inv c (submitted s) s0" and "fini_left s0 \<le> 3 * length (waiting s) + 5 * nworkers s + 2"
proof -
  have inv: "tp_inv s" by (rule tp_reach_inv [OF assms(1)])
  have s0: "s0 = s\<lparr>pool := (pool s)\<lparr>tp_shutdown := True\<rparr>, opc := OPost c (nworkers s)\<rparr>" "tp_started (pool s)"
    using assms(3) by (cases; use assms(2,4) in \<open>auto simp: ztk_thread_pool_fini_def split: if_splits\<close>)+
  have "0 < total w_live (wpcs s)" using inv assms(2) s0(2) by (auto simp: tp_inv_def tp_shape_def)
  then have "total w_live (wpcs s0) = 0 \<longrightarrow> waiting s0 = []" unfolding s0(1) by (auto simp del: sum_list_eq_0_iff)
  then show "fini_inv c (submitted s) s0"
    unfolding fini_inv_def using tp_owner_inv [OF assms(3) inv] assms(5-8) unfolding s0(1) by auto
  show "fini_left s0 \<le> 3 * length (waiting s) + 5 * nworkers s + 2"
    using total_stage_le [of "wpcs s"] inv unfolding s0(1)
    by (auto simp: fini_left_def work_left_def waiting_def tp_inv_def tp_shape_def)
qed

lemma fini_ends:
  assumes "fini_inv c ts s"
  shows "\<exists>k s'. (fini_step ^^ k) s s' \<and> (\<forall>t. \<not> fini_step s' t)"
  using assms
proof (induction "fini_left s" arbitrary: s rule: less_induct)
  case less
  show ?case
  proof (cases "\<exists>t. fini_step s t")
    case False
    then show ?thesis by (intro exI [of _ 0] exI [of _ s]) simp
  next
    case True
    then obtain t where t: "fini_step s t" by blast
    then have "(fini_step ^^ 1) s t" unfolding relpowp_1 .
    from fini_run [OF this less.prems] obtain k s' where "(fini_step ^^ k) t s'" "\<forall>u. \<not> fini_step s' u"
      using less.hyps [of t] by auto
    then show ?thesis using t by (metis relpowp_Suc_I2)
  qed
qed

section \<open>A start that fails\<close>

lemma failed_start_stays:
  assumes inv: "tp_inv s" and opc: "opc s = OJoin False c e i n" and n: "0 < n" and step: "tp_step s s'"
  shows "opc s' = opc s"
proof -
  have i: "i = 0" and live: "w_live (wpcs s ! 0) = 1" using inv opc n by (auto simp: tp_inv_def)
  then have h: "tp_workers (pool s) ! 0" using inv n opc by (auto simp: tp_inv_def tp_shape_def)
  have "\<not> tp_owner_step s s'"
  proof
    assume "tp_owner_step s s'"
    then show False by cases (use opc i n live h in auto)
  qed
  moreover have "opc s' = opc s" if "push_task j s s'" for j using that by cases (auto simp: tp_sets)
  ultimately show ?thesis using step worker_frame(1) by (auto simp: tp_step_def)
qed

lemma failed_start_forever:
  assumes "tp_step\<^sup>*\<^sup>* s s'" and "tp_inv s" and "opc s = OJoin False c e i n" and "0 < n"
  shows "tp_inv s' \<and> opc s' = opc s"
  using assms
proof (induction rule: rtranclp_induct)
  case base
  then show ?case by simp
next
  case (step u t)
  then have "tp_inv t" unfolding tp_step_def using pool_worker_inv push_task_inv tp_owner_inv by metis
  then show ?case using step failed_start_stays [of u c e i n t] by simp
qed

section \<open>Sample runs\<close>

text \<open>One worker, one caller: the pool is started, a task is queued, and \<^verbatim>\<open>fini\<close> is called.\<close>

definition pool0 :: "nat ztk_thread_pool" where
  "pool0 = \<lparr>tp_q = lq_empty, tp_sem = 0, tp_worker_count = 1, tp_workers = [False], tp_worker_ids = [0],
     tp_priority = 4, tp_shutdown = False, tp_started = False, tp_taken = {}\<rparr>"

definition run0 :: "nat tp_sys" where "run0 = tp_init pool0 OIdle 1"
definition run1 :: "nat tp_sys" where "run1 = run0\<lparr>opc := OStart Return 0\<rparr>"
definition run2 :: "nat tp_sys" where
  "run2 = set_w 0 (WStart 77) (run1\<lparr>pool := pool0\<lparr>tp_workers := [True]\<rparr>, opc := OStart Return 1\<rparr>)"
definition run3 :: "nat tp_sys" where
  "run3 = upd_tp (\<lambda>P. P\<lparr>tp_started := True\<rparr>) (run2\<lparr>opc := OIdle, oerr := ZTK_OK\<rparr>)"
definition run4 :: "nat tp_sys" where "run4 = set_c 0 (CPush 5 False) run3"
definition run5 :: "nat tp_sys" where
  "run5 = set_c 0 CPost (upd_tp (push_locked 9 5 False) (run4\<lparr>hist := [PushBack 9 5], submitted := [5]\<rparr>))"
definition run6 :: "nat tp_sys" where
  "run6 = set_c 0 (CDone ZTK_OK) (upd_tp (\<lambda>P. P\<lparr>tp_sem := 1\<rparr>) (run5\<lparr>lost := 0\<rparr>))"
definition run7 :: "nat tp_sys" where "run7 = set_c 0 CIdle run6"
definition run8 :: "nat tp_sys" where
  "run8 = run7\<lparr>pool := (pool run7)\<lparr>tp_shutdown := True\<rparr>, opc := OPost Return 1\<rparr>"
definition run9 :: "nat tp_sys" where
  "run9 = upd_tp (\<lambda>P. P\<lparr>tp_sem := 2\<rparr>) (run8\<lparr>opc := OPost Return 0, posts := 1\<rparr>)"
definition run10 :: "nat tp_sys" where "run10 = run9\<lparr>opc := OJoin True Return ZTK_OK 0 1\<rparr>"

lemmas runs = run0_def run1_def run2_def run3_def run4_def run5_def run6_def run7_def run8_def run9_def run10_def
  pool0_def tp_init_def tp_sets

lemma run0_reach: "tp_reach run0"
proof -
  have "ztk_thread_pool_create \<lparr>m_pool = True, m_mtx = True, m_sem = True, m_workers = True, m_ids = True\<rparr> 1 None =
      Some (pool0, OIdle)"
    by (simp add: ztk_thread_pool_create_def pool0_def)
  then show ?thesis unfolding run0_def by (rule tp_created)
qed

lemma run_steps:
  "tp_owner_step run0 run1" "tp_owner_step run1 run2" "tp_owner_step run2 run3"
  "push_task 0 run3 run4" "push_task 0 run4 run5" "push_task 0 run5 run6" "push_task 0 run6 run7"
  "tp_owner_step run7 run8" "tp_owner_step run8 run9" "tp_owner_step run9 run10"
proof -
  show "tp_owner_step run0 run1" using o_start [of run0] by (simp add: runs ztk_thread_pool_start_def)
  show "tp_owner_step run1 run2" using o_spawn [of run1 Return 0 _ 77] by (simp add: runs spawn_def)
  show "tp_owner_step run2 run3" using o_started [of run2 Return 1] by (simp add: runs)
  show "push_task 0 run3 run4" using c_call [of 0 run3 3 "Some 5" False]
    by (simp add: runs ztk_thread_pool_async_def async_entry_def)
  show "push_task 0 run4 run5" using c_push [of 0 run4 5 False 9] by (simp add: runs task_fresh_def lq_empty_def)
  show "push_task 0 run5 run6" using c_post [of 0 run5 ZTK_OK 1]
    by (simp add: runs push_locked_def ztk_sem_post_def sem_post_native_def SEM_VALUE_MAX_def)
  show "push_task 0 run6 run7" using c_return [of 0 run6 ZTK_OK] by (simp add: runs)
  show "tp_owner_step run7 run8" using o_fini [of run7]
    by (simp add: runs push_locked_def ztk_thread_pool_fini_def)
  show "tp_owner_step run8 run9" using o_post [of run8 Return 0 2]
    by (simp add: runs push_locked_def sem_post_native_def SEM_VALUE_MAX_def)
  show "tp_owner_step run9 run10" using o_posted [of run9 Return] by (simp add: runs push_locked_def)
qed

lemma runs_reach: "tp_reach run7" "tp_reach run10"
proof -
  have o: "\<And>s t :: nat tp_sys. tp_owner_step s t \<Longrightarrow> tp_reach s \<Longrightarrow> tp_reach t"
    and c: "\<And>i (s :: nat tp_sys) t. push_task i s t \<Longrightarrow> tp_reach s \<Longrightarrow> tp_reach t"
    by (meson tp_next tp_step_def)+
  show 7: "tp_reach run7"
    by (rule c [OF run_steps(7)], rule c [OF run_steps(6)], rule c [OF run_steps(5)], rule c [OF run_steps(4)],
        rule o [OF run_steps(3)], rule o [OF run_steps(2)], rule o [OF run_steps(1)], rule run0_reach)
  show "tp_reach run10"
    by (rule o [OF run_steps(10)], rule o [OF run_steps(9)], rule o [OF run_steps(8)], rule 7)
qed

text \<open>
  A task submitted while \<^verbatim>\<open>fini\<close> is under way: \<^verbatim>\<open>started\<close> is reset only after the joins, so the call is accepted and
  returns \<^verbatim>\<open>ZTK_OK\<close> when the only worker has left already. No worker ever takes the task.
\<close>

definition race0 :: "nat tp_sys" where
  "race0 = run3\<lparr>pool := (pool run3)\<lparr>tp_shutdown := True\<rparr>, opc := OPost Return 1\<rparr>"
definition race1 :: "nat tp_sys" where
  "race1 = upd_tp (\<lambda>P. P\<lparr>tp_sem := 1\<rparr>) (race0\<lparr>opc := OPost Return 0, posts := 1\<rparr>)"
definition race2 :: "nat tp_sys" where "race2 = race1\<lparr>opc := OJoin True Return ZTK_OK 0 1\<rparr>"
definition race3 :: "nat tp_sys" where "race3 = set_w 0 WWait (upd_tp (\<lambda>P. P\<lparr>tp_worker_ids := [77]\<rparr>) race2)"
definition race4 :: "nat tp_sys" where "race4 = set_w 0 WPop (upd_tp (\<lambda>P. P\<lparr>tp_sem := 0\<rparr>) race3)"
definition race5 :: "nat tp_sys" where "race5 = set_w 0 WExit (race4\<lparr>hist := [Pop], exits := 1\<rparr>)"
definition race6 :: "nat tp_sys" where "race6 = set_c 0 (CPush 5 False) race5"
definition race7 :: "nat tp_sys" where
  "race7 = set_c 0 CPost (upd_tp (push_locked 9 5 False) (race6\<lparr>hist := [Pop, PushBack 9 5], submitted := [5]\<rparr>))"
definition race8 :: "nat tp_sys" where
  "race8 = set_c 0 (CDone ZTK_OK) (upd_tp (\<lambda>P. P\<lparr>tp_sem := 1\<rparr>) (race7\<lparr>lost := 0\<rparr>))"
definition race9 :: "nat tp_sys" where
  "race9 = upd_tp (\<lambda>P. P\<lparr>tp_workers := [False]\<rparr>) (race8\<lparr>opc := OJoin True Return ZTK_OK 1 1\<rparr>)"
definition race10 :: "nat tp_sys" where "race10 = upd_tp (\<lambda>P. P\<lparr>tp_started := False\<rparr>) (race9\<lparr>opc := OIdle\<rparr>)"

lemmas races = race0_def race1_def race2_def race3_def race4_def race5_def race6_def race7_def race8_def race9_def race10_def

lemma race_steps:
  "tp_owner_step run3 race0" "tp_owner_step race0 race1" "tp_owner_step race1 race2"
  "pool_worker 0 race2 race3" "pool_worker 0 race3 race4" "pool_worker 0 race4 race5"
  "push_task 0 race5 race6" "push_task 0 race6 race7" "push_task 0 race7 race8"
  "tp_owner_step race8 race9" "tp_owner_step race9 race10"
proof -
  show "tp_owner_step run3 race0" using o_fini [of run3] by (simp add: races runs ztk_thread_pool_fini_def)
  show "tp_owner_step race0 race1" using o_post [of race0 Return 0 1]
    by (simp add: races runs sem_post_native_def SEM_VALUE_MAX_def)
  show "tp_owner_step race1 race2" using o_posted [of race1 Return] by (simp add: races runs)
  show "pool_worker 0 race2 race3" using w_begin [of 0 race2 77] by (simp add: races runs)
  show "pool_worker 0 race3 race4" using w_wait [of 0 race3 0] by (simp add: races runs ztk_sem_wait_def)
  show "pool_worker 0 race4 race5" using w_exit [of 0 race4 "pool race4"]
    by (simp add: races runs pop_task_def lq_empty_def)
  show "push_task 0 race5 race6" using c_call [of 0 race5 3 "Some 5" False]
    by (simp add: races runs ztk_thread_pool_async_def async_entry_def)
  show "push_task 0 race6 race7" using c_push [of 0 race6 5 False 9] by (simp add: races runs task_fresh_def lq_empty_def)
  show "push_task 0 race7 race8" using c_post [of 0 race7 ZTK_OK 1]
    by (simp add: races runs push_locked_def ztk_sem_post_def sem_post_native_def SEM_VALUE_MAX_def)
  show "tp_owner_step race8 race9" using o_join [of race8 True Return ZTK_OK 0 1] by (simp add: races runs push_locked_def)
  show "tp_owner_step race9 race10" using o_joined_fini [of race9 Return ZTK_OK 1 1] by (simp add: races runs push_locked_def)
qed

lemma fini_race_loses_task:
  "tp_reach race10 \<and> opc race10 = OIdle \<and> cpcs race10 = [CDone ZTK_OK] \<and> wpcs race10 = [WExit] \<and>
   submitted race10 = [5] \<and> finished race10 = [] \<and> waiting race10 = [5] \<and> lost race10 = 0 \<and> \<not> pfail race10"
proof -
  note step = tp_next [unfolded tp_step_def]
  have "tp_reach run3" using run_steps(1-3) run0_reach step by blast
  then have "tp_reach race3" using race_steps(1-4) step by blast
  then have "tp_reach race7" using race_steps(5-8) step by blast
  then have "tp_reach race10" using race_steps(9-11) step by blast
  then show ?thesis by (simp add: races runs push_locked_def waiting_def)
qed

text \<open>Two workers asked for; the second thread cannot be created.\<close>

definition pool2 :: "nat ztk_thread_pool" where
  "pool2 = pool0\<lparr>tp_worker_count := 2, tp_workers := [False, False], tp_worker_ids := [0, 0]\<rparr>"

definition bad0 :: "nat tp_sys" where "bad0 = tp_init pool2 OIdle 1"
definition bad1 :: "nat tp_sys" where "bad1 = bad0\<lparr>opc := OStart Return 0\<rparr>"
definition bad2 :: "nat tp_sys" where
  "bad2 = set_w 0 (WStart 77) (bad1\<lparr>pool := pool2\<lparr>tp_workers := [True, False]\<rparr>, opc := OStart Return 1\<rparr>)"
definition bad3 :: "nat tp_sys" where "bad3 = bad2\<lparr>pool := pool2\<lparr>tp_workers := [True, False]\<rparr>, opc := OJoin False Return ZTK_ERR_PLATFORM 0 1\<rparr>"

lemma replicate_two: "replicate 2 x = [x, x]"
  by (simp add: numeral_2_eq_2)

lemma bad3_reach: "tp_reach bad3"
proof -
  note d = bad0_def bad1_def bad2_def bad3_def pool2_def pool0_def tp_init_def tp_sets
  have two: "unat (2 :: u32) = Suc (Suc 0)" by simp
  have "ztk_thread_pool_create \<lparr>m_pool = True, m_mtx = True, m_sem = True, m_workers = True, m_ids = True\<rparr> 2 None =
      Some (pool2, OIdle)"
    unfolding ztk_thread_pool_create_def pool2_def pool0_def by (simp add: replicate_two)
  then have "tp_reach bad0" unfolding bad0_def by (rule tp_created)
  moreover have "tp_owner_step bad0 bad1" using o_start [of bad0] by (simp add: d ztk_thread_pool_start_def)
  moreover have "tp_owner_step bad1 bad2" using o_spawn [of bad1 Return 0 _ 77]
    by (simp add: d spawn_def two)
  moreover have "tp_owner_step bad2 bad3" using o_spawn_fail [of bad2 Return 1 True False ZTK_ERR_PLATFORM]
    by (simp add: d spawn_def two)
  ultimately show ?thesis by (meson tp_next tp_step_def)
qed

section \<open>Properties\<close>

text \<open>
  C25. Tasks of a thread pool. In every state that workers, callers and the owner can reach, each task
  that was put into the queue is, exactly once, waiting in the queue, being run by a worker, or completed;
  the linked list holds the waiting tasks, and the workers took them, in the order that the operations on
  the queue, one after the other, determine on a plain sequence. While the pool is running and
  \<^verbatim>\<open>fini\<close> has not been called, no worker has left.
\<close>

theorem pool_tasks_exactly_once:
  assumes "tp_reach s"
  shows "mset (submitted s) = mset (finished s) + total w_task (wpcs s) + mset (fst (qops_spec [] (hist s))) \<and>
    (opc s \<noteq> ODead \<longrightarrow>
       lq_walk (nodes (tp_q (pool s))) (lhead (tp_q (pool s))) = Some (fst (qops_spec [] (hist s)))) \<and>
    popped s = List.map_filter id (snd (qops_spec [] (hist s))) \<and>
    (opc s = OIdle \<and> tp_started (pool s) \<longrightarrow> (\<forall>w \<in> set (wpcs s). w_live w = 1))"
proof (intro conjI)
  have inv: "tp_inv s" by (rule tp_reach_inv [OF assms])
  note w = tp_workD [OF inv, unfolded waiting_def outputs_def]
  show "mset (submitted s) = mset (finished s) + total w_task (wpcs s) + mset (fst (qops_spec [] (hist s)))"
    using w(3,4) by simp
  show "opc s \<noteq> ODead \<longrightarrow>
      lq_walk (nodes (tp_q (pool s))) (lhead (tp_q (pool s))) = Some (fst (qops_spec [] (hist s)))"
    using w(1) lq_walk_rep by blast
  show "popped s = List.map_filter id (snd (qops_spec [] (hist s)))" by (rule w(2))
  show "opc s = OIdle \<and> tp_started (pool s) \<longrightarrow> (\<forall>w \<in> set (wpcs s). w_live w = 1)"
    using inv total_live_only_full [of "wpcs s"] by (auto simp: tp_inv_def tp_shape_def)
qed

theorem pool_tasks_exactly_once_witness:
  "tp_reach run7 \<and> mset (submitted run7) = mset (finished run7) + total w_task (wpcs run7) + {#5#} \<and>
   lq_walk (nodes (tp_q (pool run7))) (lhead (tp_q (pool run7))) = Some [5] \<and> w_live (wpcs run7 ! 0) = 1"
proof -
  have "wpcs run7 = [WStart 77]" "hist run7 = [PushBack 9 5]" "opc run7 = OIdle" "tp_started (pool run7)" by (simp_all add: runs push_locked_def)
  then show ?thesis using pool_tasks_exactly_once [OF runs_reach(1)] runs_reach(1) by simp
qed

text \<open>
  C27. The arrays of a thread pool. In every reachable state the handles, the identifiers and the
  workers are as many as \<^verbatim>\<open>worker_count\<close>, which is not 0, every index the owner is about to use is within
  them, every worker that has not left has a handle to be joined by, and a handle belongs to a thread
  that was created.
\<close>

theorem pool_arrays_in_bounds:
  assumes "tp_reach s"
  shows "0 < nworkers s \<and> length (tp_workers (pool s)) = nworkers s \<and> length (tp_worker_ids (pool s)) = nworkers s \<and>
    length (wpcs s) = nworkers s \<and>
    (\<forall>j < nworkers s. (w_live (wpcs s ! j) = 1 \<longrightarrow> tp_workers (pool s) ! j) \<and>
       (tp_workers (pool s) ! j \<longrightarrow> wpcs s ! j \<noteq> WNone)) \<and>
    (\<forall>c i. opc s = OStart c i \<longrightarrow> i \<le> nworkers s) \<and>
    (\<forall>f c e i n. opc s = OJoin f c e i n \<longrightarrow> i \<le> n \<and> n \<le> nworkers s)"
proof -
  have "tp_shape s" and ctl: "tp_ctl (opc s) s" using tp_reach_inv [OF assms] by (simp_all add: tp_inv_def)
  moreover have "i \<le> n \<and> n \<le> nworkers s" if "opc s = OJoin f c e i n" for f c e i n
    using ctl that by (auto split: if_splits)
  moreover have "i \<le> nworkers s" if "opc s = OStart c i" for c i using ctl that by simp
  ultimately show ?thesis unfolding tp_shape_def by blast
qed

theorem pool_arrays_in_bounds_witness:
  "tp_reach run10 \<and> length (tp_worker_ids (pool run10)) = 1 \<and> tp_workers (pool run10) ! 0"
proof -
  have "nworkers run10 = 1" "w_live (wpcs run10 ! 0) = 1" by (simp_all add: runs push_locked_def)
  then show ?thesis using pool_arrays_in_bounds [OF runs_reach(2)] runs_reach(2) by simp
qed

text \<open>
  C26. Finishing a thread pool. Let \<^verbatim>\<open>fini\<close> be called on a running pool (alone or by \<^verbatim>\<open>destroy\<close>) while no call that submits a task is under
  way, let no such call be made until it returns (by a task neither), let the tasks return, and let no post to the semaphore fail: none has failed before, and the value
  has room for one token per worker. Then, however the workers and the owner interleave, they make at most three steps
  for each waiting task and five for each worker, and two more; and they can go on until \<^verbatim>\<open>fini\<close> has returned. Then every
  task that was ever submitted has been run to completion exactly once, the queue is empty and every worker has left. (A task submitted
  while \<^verbatim>\<open>fini\<close> is under way can be lost although the call returns \<^verbatim>\<open>ZTK_OK\<close>: \<open>fini_race_loses_task\<close>.)
\<close>

theorem pool_fini_drains:
  assumes "tp_reach s" and "opc s = OIdle" and "tp_owner_step s s0" and "opc s0 = OPost c m"
    and "set (cpcs s) \<subseteq> {CIdle}" and "lost s = 0" and "\<not> pfail s" and "tp_sem (pool s) + nworkers s \<le> SEM_VALUE_MAX"
    and "(fini_step ^^ k) s0 s'"
  shows "k \<le> 3 * length (waiting s) + 5 * nworkers s + 2 \<and>
    ((\<forall>t. \<not> fini_step s' t) \<longrightarrow>
       opc s' = after_fini c \<and> \<not> tp_started (pool s') \<and> waiting s' = [] \<and> mset (finished s') = mset (submitted s) \<and>
       (\<forall>w \<in> set (wpcs s'). w = WExit \<or> w = WNone))"
proof (intro conjI impI)
  note f = fini_called [OF assms(1-8)]
  note run = fini_run [OF assms(9) f(1)]
  show "k \<le> 3 * length (waiting s) + 5 * nworkers s + 2" using run f(2) by linarith
  assume stuck: "\<forall>t. \<not> fini_step s' t"
  have i': "tp_inv s'" and opc: "opc s' = after_fini c" using run fini_not_stuck stuck by (auto simp: fini_inv_def)
  then show "opc s' = after_fini c" by simp
  show "\<not> tp_started (pool s')" using run opc by (cases c) (auto simp: fini_inv_def)
  then have dead: "total w_live (wpcs s') = 0" using i' opc by (cases c) (auto simp: tp_inv_def)
  then show "waiting s' = []" using run by (simp add: fini_inv_def)
  then show "mset (finished s') = mset (submitted s)"
    using tp_workD(3,4) [OF i'] dead_no_task [OF dead] run by (simp add: fini_inv_def)
  show "\<forall>w \<in> set (wpcs s'). w = WExit \<or> w = WNone" using dead w_live_zero by auto
qed

theorem pool_fini_drains_witness:
  "\<exists>k s'. tp_reach run7 \<and> tp_owner_step run7 run8 \<and> (fini_step ^^ k) run8 s' \<and> k \<le> 10 \<and> opc s' = OIdle \<and>
     waiting s' = [] \<and> mset (finished s') = {#5#}"
proof -
  have h: "opc run7 = OIdle" "opc run8 = OPost Return 1" "set (cpcs run7) \<subseteq> {CIdle}" "lost run7 = 0" "\<not> pfail run7"
      "tp_sem (pool run7) + nworkers run7 \<le> SEM_VALUE_MAX" "submitted run7 = [5]" "waiting run7 = [5]" "nworkers run7 = 1"
    by (simp_all add: runs push_locked_def waiting_def SEM_VALUE_MAX_def)
  obtain k s' where run: "(fini_step ^^ k) run8 s'" and stuck: "\<forall>t. \<not> fini_step s' t"
    using fini_ends [OF fini_called(1) [OF runs_reach(1) h(1) run_steps(8) h(2-6)]] by blast
  from pool_fini_drains [OF runs_reach(1) h(1) run_steps(8) h(2-6) run]
  show ?thesis using h(7-9) runs_reach(1) run_steps(8) run stuck by auto
qed

text \<open>
  C28. A start that fails. When a thread cannot be created after at least one worker is running, the
  owner waits for workers that have no reason to leave: whatever any thread does afterwards, the
  call does not return.
\<close>

theorem failed_start_hangs:
  assumes "tp_reach s" and "opc s = OJoin False c e i n" and "0 < n" and "tp_step\<^sup>*\<^sup>* s s'"
  shows "opc s' = OJoin False c e i n"
  using failed_start_forever [OF assms(4) tp_reach_inv [OF assms(1)] assms(2,3)] assms(2) by simp

theorem failed_start_hangs_witness:
  "\<exists>s'. tp_reach bad3 \<and> tp_step\<^sup>*\<^sup>* bad3 s' \<and> wpcs s' ! 0 = WWait \<and> opc s' = OJoin False Return ZTK_ERR_PLATFORM 0 1"
proof -
  let ?s = "set_w 0 WWait (upd_tp (\<lambda>P. if 0 < unat (tp_worker_count P)
      then P\<lparr>tp_worker_ids := (tp_worker_ids P)[0 := 77]\<rparr> else P) bad3)"
  have w: "wpcs bad3 = [WStart 77, WNone]" by (simp add: bad3_def bad2_def bad1_def bad0_def pool2_def tp_init_def tp_sets replicate_two)
  have "pool_worker 0 bad3 ?s" by (rule w_begin) (simp_all add: w)
  then have "tp_step bad3 ?s" unfolding tp_step_def by (intro disjI1 exI)
  then have run: "tp_step\<^sup>*\<^sup>* bad3 ?s" by (rule r_into_rtranclp)
  have "opc bad3 = OJoin False Return ZTK_ERR_PLATFORM 0 1" by (simp add: bad3_def)
  from failed_start_hangs [OF bad3_reach this _ run] have "opc ?s = OJoin False Return ZTK_ERR_PLATFORM 0 1" by simp
  moreover have "wpcs ?s ! 0 = WWait" using w by (simp add: tp_sets)
  ultimately show ?thesis using run bad3_reach by blast
qed

end
