(* ===== verification/Socket_Frame.thy ===== *)
theory Socket_Frame
  imports Socket
begin

text \<open>
  What the socket operations leave alone, for the components that are built on sockets and keep more
  state in the same record: \<open>net.more\<close> is that state. The collection \<open>sock_frame\<close> says that no socket
  operation touches it; the specifications after it say in what state connecting, attaching and
  detaching leave the socket they work on.
\<close>

named_theorems sock_frame

lemma take_mem_more: "net.more (snd (take_mem n)) = net.more n"
  by (simp add: take_mem_def split: list.split)

lemma upd_sock_more [simp]: "net.more (upd_sock a f n) = net.more n"
  by (simp add: upd_sock_def)

lemma add_at_more [sock_frame]: "poller_add_at os p fd ev c n = Some (e, n') \<Longrightarrow> net.more n' = net.more n"
  using take_mem_more [of n]
  by (auto simp: poller_add_at_def bind_eq_Some_conv Let_def split_def split: option.splits if_splits)

lemma mod_at_more [sock_frame]: "poller_mod_at os p fd ev n = Some (e, n') \<Longrightarrow> net.more n' = net.more n"
  by (auto simp: poller_mod_at_def bind_eq_Some_conv Let_def split_def split: option.splits)

lemma del_at_more [sock_frame]: "poller_del_at os p fd n = Some (e, n') \<Longrightarrow> net.more n' = net.more n"
  by (auto simp: poller_del_at_def bind_eq_Some_conv Let_def split_def split: option.splits)

lemma ensure_more [simp]: "net.more (snd (ensure_sockplat n)) = net.more n"
  by (simp add: ensure_sockplat_def)

lemma create_more [sock_frame]: "ztk_socket_create n = (r, n') \<Longrightarrow> net.more n' = net.more n"
  using take_mem_more [of n]
  by (auto simp: ztk_socket_create_def Let_def split_def split: option.splits if_splits)

lemma close_fd_more [sock_frame]: "close_fd os a n = Some n' \<Longrightarrow> net.more n' = net.more n"
  by (auto simp: close_fd_def bind_eq_Some_conv split: if_splits)

lemma detach_more [sock_frame]: "ztk_socket_detach_poller os k n = Some (e, n') \<Longrightarrow> net.more n' = net.more n"
  by (auto simp: ztk_socket_detach_poller_def bind_eq_Some_conv split: option.splits if_splits dest: del_at_more)

lemma destroy_more [sock_frame]: "ztk_socket_destroy os k n = Some n' \<Longrightarrow> net.more n' = net.more n"
  by (auto simp: ztk_socket_destroy_def bind_eq_Some_conv split: option.splits dest!: detach_more close_fd_more)

lemma reset_more [sock_frame]: "reset_sock os a n = Some n' \<Longrightarrow> net.more n' = net.more n"
  by (auto simp: reset_sock_def bind_eq_Some_conv dest!: detach_more close_fd_more)

lemma connect_more [sock_frame]: "ztk_socket_connect os k h p n = Some (r, n') \<Longrightarrow> net.more n' = net.more n"
  by (auto simp: ztk_socket_connect_def bind_eq_Some_conv Let_def split_def
      split: option.splits if_splits dest!: reset_more)

lemma bind_udp_more [sock_frame]: "ztk_socket_bind_udp_ex os k h p ra rp n = Some (r, n') \<Longrightarrow> net.more n' = net.more n"
  by (auto simp: ztk_socket_bind_udp_ex_def bind_eq_Some_conv Let_def split_def
      split: option.splits if_splits dest!: reset_more)

lemma check_connect_more [sock_frame]: "ztk_socket_check_connect os k n = Some (r, n') \<Longrightarrow> net.more n' = net.more n"
  by (auto simp: ztk_socket_check_connect_def bind_eq_Some_conv Let_def split_def split: option.splits if_splits)

lemma attach_more [sock_frame]: "ztk_socket_attach_poller os k p c u n = Some (r, n') \<Longrightarrow> net.more n' = net.more n"
  by (auto simp: ztk_socket_attach_poller_def bind_eq_Some_conv Let_def split: option.splits if_splits
      dest!: detach_more add_at_more)

lemma mod_events_more [sock_frame]: "ztk_socket_mod_events os k ev n = Some (r, n') \<Longrightarrow> net.more n' = net.more n"
  by (auto simp: ztk_socket_mod_events_def bind_eq_Some_conv split: option.splits if_splits dest!: mod_at_more)

lemma data_in_keep:
  assumes "epoll_ok os intr"
  shows "in_of intr (snd (sysc os (Sys_recv fd n) s)) = in_of intr s"
    and "in_of intr (snd (sysc os (Sys_send fd m) s)) = in_of intr s"
    and "in_of intr (snd (sysc os (Sys_recvfrom fd n) s)) = in_of intr s"
    and "in_of intr (snd (sysc os (Sys_sendto fd m addr) s)) = in_of intr s"
    and "in_of intr (snd (sysc os (Sys_getsockname fd) s)) = in_of intr s"
  by (rule sysc_in_keepsI [OF assms], simp add: interest_effect_def)+

section \<open>What becomes of the socket\<close>

definition same_polls :: "('k, 'w, 'z) net_scheme \<Rightarrow> ('k, 'w, 'z) net_scheme \<Rightarrow> bool" where
  "same_polls n n' \<longleftrightarrow> dom (npollers n') = dom (npollers n)"

lemma same_polls_simps [simp]:
  "same_polls n n" "same_polls (n\<lparr>socks := S\<rparr>) n' = same_polls n n'" "same_polls n (n'\<lparr>socks := S\<rparr>) = same_polls n n'"
  "same_polls (n\<lparr>nsys := y\<rparr>) n' = same_polls n n'" "same_polls n (n'\<lparr>nsys := y\<rparr>) = same_polls n n'"
  "same_polls n (n'\<lparr>sockplat_inited := i\<rparr>) = same_polls n n'"
  by (simp_all add: same_polls_def)

lemma same_polls_trans [trans]: "same_polls n n1 \<Longrightarrow> same_polls n1 n2 \<Longrightarrow> same_polls n n2"
  by (simp add: same_polls_def)

text \<open>\<open>same_cbs a n n'\<close>: the pollers are the same, and socket \<open>a\<close> is still there with its callbacks.\<close>

definition same_cbs :: "nat \<Rightarrow> ('k, 'w, 'z) net_scheme \<Rightarrow> ('k, 'w, 'z) net_scheme \<Rightarrow> bool" where
  "same_cbs a n n' \<longleftrightarrow> same_polls n n' \<and>
     (\<forall>s. socks n a = Some s \<longrightarrow> (\<exists>s'. socks n' a = Some s' \<and> s_cb s' = s_cb s \<and> s_user s' = s_user s))"

text \<open>\<open>same_link a n n'\<close>: moreover it keeps its descriptor and its kind.\<close>

definition same_link :: "nat \<Rightarrow> ('k, 'w, 'z) net_scheme \<Rightarrow> ('k, 'w, 'z) net_scheme \<Rightarrow> bool" where
  "same_link a n n' \<longleftrightarrow> same_polls n n' \<and>
     (\<forall>s. socks n a = Some s \<longrightarrow> (\<exists>s'. socks n' a = Some s' \<and> s_cb s' = s_cb s \<and> s_user s' = s_user s \<and>
        s_fd s' = s_fd s \<and> s_type s' = s_type s \<and> s_connect_pending s' = s_connect_pending s))"

lemma same_link_cbs: "same_link a n n' \<Longrightarrow> same_cbs a n n'"
  by (fastforce simp: same_link_def same_cbs_def)

lemma same_cbs_trans: "same_cbs a n n1 \<Longrightarrow> same_cbs a n1 n2 \<Longrightarrow> same_cbs a n n2"
  by (fastforce simp: same_cbs_def intro: same_polls_trans)

lemma same_link_trans: "same_link a n n1 \<Longrightarrow> same_link a n1 n2 \<Longrightarrow> same_link a n n2"
  by (fastforce simp: same_link_def intro: same_polls_trans)

lemma same_linkI: "npollers n' = npollers n \<Longrightarrow> socks n' = socks n \<Longrightarrow> same_link a n n'"
  by (simp add: same_link_def same_polls_def)

lemma poller_ops_keep:
  "poller_del_at os p fd n = Some (e, n') \<Longrightarrow> socks n' = socks n \<and> same_polls n n'"
  "poller_mod_at os p fd ev n = Some (e, n') \<Longrightarrow> socks n' = socks n \<and> same_polls n n'"
  "poller_add_at os p fd ev c n = Some (e, n') \<Longrightarrow> socks n' = socks n \<and> same_polls n n'"
  by (auto simp: poller_del_at_def poller_mod_at_def poller_add_at_def take_mem_def ztk_poller_del_def
      ztk_poller_mod_def ztk_poller_add_def bind_eq_Some_conv Let_def split_def same_polls_def dom_def
      split: option.splits if_splits list.splits)

lemma detach_link: "ztk_socket_detach_poller os (Some a) n = Some (e, n') \<Longrightarrow> same_link a n n'"
  by (auto simp: ztk_socket_detach_poller_def same_link_def upd_sock_def bind_eq_Some_conv
      split: option.splits if_splits dest!: poller_ops_keep(1))

lemma mod_events_link: "ztk_socket_mod_events os (Some a) ev n = Some (e, n') \<Longrightarrow> same_link a n n'"
  by (auto simp: ztk_socket_mod_events_def same_link_def upd_sock_def bind_eq_Some_conv
      split: option.splits if_splits dest!: poller_ops_keep(2))

lemma close_fd_cbs: "close_fd os a n = Some n' \<Longrightarrow> same_cbs a n n'"
  by (auto simp: close_fd_def same_cbs_def upd_sock_def bind_eq_Some_conv split: if_splits)

lemma reset_cbs: "reset_sock os a n = Some n' \<Longrightarrow> same_cbs a n n'"
  by (auto simp: reset_sock_def bind_eq_Some_conv dest!: detach_link same_link_cbs close_fd_cbs intro: same_cbs_trans)

lemma close_fd_closed:
  assumes "close_fd os a n = Some n'" and "socks n' a = Some s'"
  shows "s_fd s' < 0"
proof -
  obtain s where s: "socks n a = Some s" using assms(1) by (auto simp: close_fd_def bind_eq_Some_conv)
  show ?thesis using assms s by (cases "s_fd s < 0") (auto simp: close_fd_def upd_sock_def)
qed

lemma reset_closed: "reset_sock os a n = Some n' \<Longrightarrow> socks n' a = Some s' \<Longrightarrow> s_fd s' < 0"
  by (auto simp: reset_sock_def bind_eq_Some_conv dest: close_fd_closed)

lemma ensure_cbs: "same_cbs a n (snd (ensure_sockplat n))"
  by (simp add: ensure_sockplat_def same_cbs_def)

text \<open>Connecting: the socket has a descriptor and its kind says whether the connection is pending.\<close>

definition dialled :: "bool option \<Rightarrow> 'k ztk_socket \<Rightarrow> bool" where
  "dialled pend s \<longleftrightarrow> pend = Some (s_connect_pending s) \<and> 0 \<le> s_fd s \<and>
     s_type s = (if s_connect_pending s then ZTK_SOCK_TCP_CLIENT else ZTK_SOCK_TCP_CONNECTED)"

lemma connect_link:
  assumes ok: "fds_ok os opn" and s: "socks n a = Some s"
    and c: "ztk_socket_connect os (Some a) host port n = Some ((err, pend), n')"
  shows "same_cbs a n n' \<and> (err = ZTK_OK \<longrightarrow> (\<exists>s'. socks n' a = Some s' \<and> dialled pend s')) \<and>
     (err \<noteq> ZTK_OK \<longrightarrow> same_link a n n' \<or> (\<exists>s'. socks n' a = Some s' \<and> s_fd s' < 0))"
proof (cases host)
  case None
  then show ?thesis using c by (auto simp: ztk_socket_connect_def same_cbs_def same_link_def)
next
  case (Some h)
  let ?n0 = "snd (ensure_sockplat n)"
  show ?thesis
  proof (cases "fst (ensure_sockplat n) = ZTK_OK")
    case False
    then show ?thesis by (simp add: ensure_sockplat_def ztk_sockplat_init_def split: if_splits)
  next
    case True
    with c Some obtain n1 where n1: "reset_sock os a ?n0 = Some n1"
      by (auto simp: ztk_socket_connect_def split_def Let_def bind_eq_Some_conv)
    obtain e fd b y where r: "ztk_sockplat_connect os (Some h) port (nsys n1) = ((e, fd, b), y)" by (metis prod.exhaust)
    have ho: "hands_over opn (nsys n1) e fd y" using sockplat_connect_fds [OF ok r] .
    have k: "same_cbs a n n1" using same_cbs_trans [OF ensure_cbs reset_cbs [OF n1]] .
    then obtain s1 where s1: "socks n1 a = Some s1" "s_cb s1 = s_cb s" "s_user s1 = s_user s"
      using s by (auto simp: same_cbs_def)
    have "s_fd s1 < 0" using reset_closed [OF n1 s1(1)] .
    then show ?thesis using c Some True n1 r ho k s s1
      by (auto simp: ztk_socket_connect_def split_def Let_def same_cbs_def upd_sock_def hands_over_def
          split: option.splits) (simp_all add: dialled_def)
  qed
qed

lemma check_connect_link:
  assumes s: "socks n a = Some s" and c: "ztk_socket_check_connect os (Some a) n = Some (err, n')"
    and t: "0 \<le> s_fd s \<and> \<not> s_connect_pending s \<Longrightarrow> s_type s = ZTK_SOCK_TCP_CONNECTED"
  shows "same_cbs a n n' \<and> (err \<noteq> ZTK_OK \<longrightarrow> same_link a n n') \<and>
     (\<exists>s'. socks n' a = Some s' \<and> s_fd s' = s_fd s \<and> (err = ZTK_OK \<longrightarrow>
        0 \<le> s_fd s' \<and> \<not> s_connect_pending s' \<and> s_type s' = ZTK_SOCK_TCP_CONNECTED))"
  using s c t
  by (auto simp: ztk_socket_check_connect_def split_def Let_def same_cbs_def same_link_def upd_sock_def
      split: if_splits)

lemma attach_link:
  assumes s: "socks n a = Some s" and c: "ztk_socket_attach_poller os (Some a) p cbs u n = Some (err, n')"
  shows "same_polls n n' \<and>
     (\<exists>s'. socks n' a = Some s' \<and> s_fd s' = s_fd s \<and> s_type s' = s_type s \<and> s_connect_pending s' = s_connect_pending s \<and>
        (s_cb s' = s_cb s \<and> s_user s' = s_user s \<or> s_cb s' = (case cbs of Some c \<Rightarrow> c | None \<Rightarrow> no_cbs) \<and> s_user s' = u))"
proof (cases "s_fd s < 0 \<or> p = None")
  case True
  then show ?thesis using s c by (auto simp: ztk_socket_attach_poller_def)
next
  case False
  let ?f = "\<lambda>s. s\<lparr>s_cb := (case cbs of Some c \<Rightarrow> c | None \<Rightarrow> no_cbs), s_user := u, s_poller := p,
      s_poll_events := default_poll_events s\<rparr>"
  obtain e1 n1 where n1: "ztk_socket_detach_poller os (Some a) n = Some (e1, n1)"
    using False s c by (auto simp: ztk_socket_attach_poller_def bind_eq_Some_conv)
  then obtain s1 where s1: "socks n1 a = Some s1" "s_fd s1 = s_fd s" "s_type s1 = s_type s"
      "s_connect_pending s1 = s_connect_pending s" "same_polls n n1"
    using detach_link [OF n1] s by (auto simp: same_link_def)
  obtain n3 where n3: "poller_add_at os p (s_fd s1) (default_poll_events s1) (Some (Socket_cb a)) (upd_sock a ?f n1) = Some (err, n3)"
      "n' = (if err \<noteq> ZTK_OK then n3 else upd_sock a (\<lambda>s. s\<lparr>s_attached := True\<rparr>) n3)"
    using False s c n1 s1 by (auto simp: ztk_socket_attach_poller_def bind_eq_Some_conv Let_def upd_sock_def split: if_splits)
  show ?thesis using poller_ops_keep(3) [OF n3(1)] n3(2) s1 same_polls_trans [of n n1 n3] by (auto simp: upd_sock_def)
qed

section \<open>Binding one socket leaves the others alone\<close>

lemma detach_other: "ztk_socket_detach_poller os (Some a) n = Some (e, n') \<Longrightarrow> b \<noteq> a \<Longrightarrow> socks n' b = socks n b"
  by (auto simp: ztk_socket_detach_poller_def upd_sock_def bind_eq_Some_conv split: option.splits if_splits
      dest!: poller_ops_keep(1))

lemma close_fd_other: "close_fd os a n = Some n' \<Longrightarrow> b \<noteq> a \<Longrightarrow> socks n' b = socks n b"
  by (auto simp: close_fd_def upd_sock_def bind_eq_Some_conv split: if_splits)

lemma reset_other: "reset_sock os a n = Some n' \<Longrightarrow> b \<noteq> a \<Longrightarrow> socks n' b = socks n b"
  by (fastforce simp: reset_sock_def bind_eq_Some_conv dest: detach_other close_fd_other)

lemma ensure_socks: "socks (snd (ensure_sockplat n)) = socks n"
  by (simp add: ensure_sockplat_def)

lemma bind_udp_other:
  "ztk_socket_bind_udp_ex os (Some a) h p ra rp n = Some (r, n') \<Longrightarrow> b \<noteq> a \<Longrightarrow> socks n' b = socks n b"
  by (auto simp: ztk_socket_bind_udp_ex_def bind_eq_Some_conv Let_def split_def upd_sock_def ensure_socks
      split: option.splits if_splits dest!: reset_other)

end
