(* ===== verification/Socket_Owner.thy ===== *)
theory Socket_Owner
  imports Socket_Frame
begin

text \<open>
  A socket with an owner, the pattern that the TCP and the TLS client share: the owner holds one socket,
  registers it with its poller under its own callbacks, and remembers whether the connection is
  established. \<open>sock_part\<close> is the invariant of that part of the state; every socket operation an owner
  uses keeps it, and touches nothing of what the owner's theory added to the state (\<open>net.more\<close>). The
  locale \<open>socket_user\<close> is what the dispatcher of the sockets needs to know of an owner.
\<close>

section \<open>The invariant\<close>

text \<open>The socket calls its owner or nobody, and a descriptor not waiting for its connection is a connected one.\<close>

definition owned_sock :: "'k socket_cbs \<Rightarrow> nat \<Rightarrow> 'k ztk_socket \<Rightarrow> bool" where
  "owned_sock cbs a so \<longleftrightarrow> (s_cb so = no_cbs \<or> s_cb so = cbs \<and> s_user so = Some a) \<and>
     (0 \<le> s_fd so \<and> \<not> s_connect_pending so \<longrightarrow> s_type so = ZTK_SOCK_TCP_CONNECTED)"

definition sock_part ::
    "'w os \<Rightarrow> ('w \<Rightarrow> int set) \<Rightarrow> ('w \<Rightarrow> int \<Rightarrow> int \<rightharpoonup> u32) \<Rightarrow> int set \<Rightarrow> 'k socket_cbs \<Rightarrow> nat \<Rightarrow> nat \<Rightarrow>
     nat option \<Rightarrow> bool \<Rightarrow> ('k, 'w, 'z) net_scheme \<Rightarrow> bool" where
  "sock_part os opn intr B cbs a p sk est n \<longleftrightarrow> net_ok os opn intr B n \<and> p \<in> dom (npollers n) \<and>
     (sk = None \<longrightarrow> \<not> est) \<and>
     (\<forall>k. sk = Some k \<longrightarrow> (\<exists>so. socks n k = Some so \<and> owned_sock cbs a so \<and>
        (est \<longrightarrow> 0 \<le> s_fd so \<and> \<not> s_connect_pending so)))"

lemma sock_part_net_ok: "sock_part os opn intr B cbs a p sk est n \<Longrightarrow> net_ok os opn intr B n"
  by (simp add: sock_part_def)

lemma sock_part_live:
  assumes "sock_part os opn intr B cbs a p (Some k) est n"
  obtains so where "socks n k = Some so" and "owned_sock cbs a so" and "est \<Longrightarrow> 0 \<le> s_fd so \<and> \<not> s_connect_pending so"
  using assms by (auto simp: sock_part_def)

text \<open>The fields that a theory adds to the state do not matter.\<close>

lemma sock_part_more [simp]:
  "sock_part os opn intr B cbs a p sk est (net.more_update f n) = sock_part os opn intr B cbs a p sk est n"
  by (simp add: sock_part_def net_ok_def)

lemma sock_part_apart: "sock_part os opn intr B cbs a p sk est n \<Longrightarrow> sock_part os opn intr B cbs a p sk False n"
  by (auto simp: sock_part_def)

lemma sock_part_link:
  assumes "sock_part os opn intr B cbs a p sk est n" and "net_ok os opn intr B n'" and "same_polls n n'"
    and "\<And>k. sk = Some k \<Longrightarrow> same_link k n n'"
  shows "sock_part os opn intr B cbs a p sk est n'"
  using assms unfolding sock_part_def owned_sock_def same_link_def same_polls_def by (cases sk) fastforce+

section \<open>Operations\<close>

lemma sys_part:
  assumes "sock_part os opn intr B cbs a p sk est n" and "op_of opn y = op_of opn (nsys n)"
    and "in_of intr y = in_of intr (nsys n)"
  shows "sock_part os opn intr B cbs a p sk est (n\<lparr>nsys := y\<rparr>)"
  using assms net_inv_keep [of os opn intr B n y] by (simp add: sock_part_def)

lemma detach_part:
  assumes "sock_part os opn intr B cbs a p sk est n"
  shows "\<exists>n'. ztk_socket_detach_poller os sk n = Some (ZTK_OK, n') \<and> sock_part os opn intr B cbs a p sk est n' \<and>
     net.more n' = net.more n"
proof (cases sk)
  case None
  then show ?thesis using assms by (simp add: ztk_socket_detach_poller_def)
next
  case (Some k)
  then obtain so where so: "socks n k = Some so" using assms sock_part_live by blast
  obtain n' where n': "ztk_socket_detach_poller os (Some k) n = Some (ZTK_OK, n')" "net_ok os opn intr B n'"
    using detach_ok [OF sock_part_net_ok [OF assms] so] by blast
  have l: "same_link k n n'" by (rule detach_link [OF n'(1)])
  have "sock_part os opn intr B cbs a p sk est n'"
    by (rule sock_part_link [OF assms n'(2)]) (use l Some in \<open>auto simp: same_link_def\<close>)
  then show ?thesis using n'(1) Some detach_more [OF n'(1)] by blast
qed

lemma mod_events_part:
  assumes "sock_part os opn intr B cbs a p (Some k) est n"
  shows "\<exists>e n'. ztk_socket_mod_events os (Some k) ev n = Some (e, n') \<and> sock_part os opn intr B cbs a p (Some k) est n' \<and>
     net.more n' = net.more n"
proof -
  obtain so where so: "socks n k = Some so" using assms sock_part_live by blast
  obtain e n' where n': "ztk_socket_mod_events os (Some k) ev n = Some (e, n')" "net_ok os opn intr B n'"
    using mod_events_ok [OF sock_part_net_ok [OF assms] so] by blast
  have l: "same_link k n n'" by (rule mod_events_link [OF n'(1)])
  have "sock_part os opn intr B cbs a p (Some k) est n'"
    by (rule sock_part_link [OF assms n'(2)]) (use l in \<open>auto simp: same_link_def\<close>)
  then show ?thesis using n'(1) mod_events_more [OF n'(1)] by blast
qed

text \<open>The owner's check of a pending connection; on success it is established.\<close>

lemma check_part:
  assumes "sock_part os opn intr B cbs a p (Some k) est n"
  shows "\<exists>err n'. ztk_socket_check_connect os (Some k) n = Some (err, n') \<and>
     sock_part os opn intr B cbs a p (Some k) (est \<or> err = ZTK_OK) n' \<and> net.more n' = net.more n"
proof -
  obtain so where so: "socks n k = Some so" "owned_sock cbs a so" "est \<Longrightarrow> 0 \<le> s_fd so \<and> \<not> s_connect_pending so"
    using assms sock_part_live by blast
  obtain err n' where n': "ztk_socket_check_connect os (Some k) n = Some (err, n')" "net_ok os opn intr B n'"
    using check_connect_ok [OF sock_part_net_ok [OF assms] so(1)] by blast
  have link: "same_cbs k n n'" "err \<noteq> ZTK_OK \<Longrightarrow> same_link k n n'"
    "\<exists>t. socks n' k = Some t \<and> (err = ZTK_OK \<longrightarrow> 0 \<le> s_fd t \<and> \<not> s_connect_pending t \<and> s_type t = ZTK_SOCK_TCP_CONNECTED)"
    using check_connect_link [OF so(1) n'(1)] so(2) by (auto simp: owned_sock_def)
  have polls: "same_polls n n'" using link(1) by (simp add: same_cbs_def)
  have "sock_part os opn intr B cbs a p (Some k) (est \<or> err = ZTK_OK) n'"
  proof (cases "err = ZTK_OK")
    case True
    then show ?thesis using link(1,3) so polls n'(2) assms
      by (auto simp: sock_part_def owned_sock_def same_cbs_def same_polls_def)
  next
    case False
    then show ?thesis using sock_part_link [OF assms n'(2) polls] link(2) by simp
  qed
  then show ?thesis using n'(1) check_connect_more [OF n'(1)] by blast
qed

text \<open>The dispatcher's check, which sets the kind of the socket once more.\<close>

lemma settled_part:
  assumes "sock_part os opn intr B cbs a p (Some k) True n"
  shows "sock_part os opn intr B cbs a p (Some k) est
     (upd_sock k (\<lambda>s. s\<lparr>s_connect_pending := False, s_type := ZTK_SOCK_TCP_CONNECTED\<rparr>) n)"
proof -
  obtain so where so: "socks n k = Some so" "owned_sock cbs a so" "0 \<le> s_fd so"
    using assms sock_part_live by blast
  have "net_ok os opn intr B (upd_sock k (\<lambda>s. s\<lparr>s_connect_pending := False, s_type := ZTK_SOCK_TCP_CONNECTED\<rparr>) n)"
    by (rule meta_ok [OF sock_part_net_ok [OF assms] so(1)]) simp_all
  then show ?thesis using assms so by (auto simp: sock_part_def upd_sock_def owned_sock_def)
qed

lemma dial_part:
  assumes part: "sock_part os opn intr B cbs a p (Some k) False n"
  shows "\<exists>err pend n'. ztk_socket_connect os (Some k) host port n = Some ((err, pend), n') \<and>
     sock_part os opn intr B cbs a p (Some k) (err = ZTK_OK \<and> pend \<noteq> Some True) n' \<and> net.more n' = net.more n"
proof -
  obtain so where so: "socks n k = Some so" "owned_sock cbs a so" using part sock_part_live by blast
  have ok: "net_ok os opn intr B n" using sock_part_net_ok [OF part] .
  obtain err pend n' where n': "ztk_socket_connect os (Some k) host port n = Some ((err, pend), n')" "net_ok os opn intr B n'"
    using connect_ok [OF ok so(1)] by (metis prod.collapse)
  note link = connect_link [OF net_okD(1) [OF ok] so(1) n'(1)]
  obtain t where t: "socks n' k = Some t" "s_cb t = s_cb so" "s_user t = s_user so"
    using link so(1) by (auto simp: same_cbs_def)
  have d: "err = ZTK_OK \<Longrightarrow> dialled pend t" using link t(1) by auto
  have "err \<noteq> ZTK_OK \<Longrightarrow> s_fd t < 0 \<or> s_fd t = s_fd so \<and> s_type t = s_type so \<and> s_connect_pending t = s_connect_pending so"
    using link so(1) t(1) by (auto simp: same_link_def)
  then have "owned_sock cbs a t" using so(2) t(2,3) d by (cases "err = ZTK_OK") (auto simp: owned_sock_def dialled_def)
  moreover have "p \<in> dom (npollers n')" using link part by (auto simp: sock_part_def same_cbs_def same_polls_def)
  ultimately have "sock_part os opn intr B cbs a p (Some k) (err = ZTK_OK \<and> pend \<noteq> Some True) n'"
    using n'(2) t(1) d by (auto simp: sock_part_def dialled_def)
  then show ?thesis using n'(1) connect_more [OF n'(1)] by blast
qed

lemma attach_part:
  assumes part: "sock_part os opn intr B cbs a p (Some k) est n"
  shows "\<exists>err n'. ztk_socket_attach_poller os (Some k) (Some p) (Some cbs) (Some a) n = Some (err, n') \<and>
     sock_part os opn intr B cbs a p (Some k) est n' \<and> net.more n' = net.more n"
proof -
  obtain so where so: "socks n k = Some so" "owned_sock cbs a so" "est \<Longrightarrow> 0 \<le> s_fd so \<and> \<not> s_connect_pending so"
    using part sock_part_live by blast
  have p: "npollers n p \<noteq> None" using part by (auto simp: sock_part_def)
  obtain err n' where n': "ztk_socket_attach_poller os (Some k) (Some p) (Some cbs) (Some a) n = Some (err, n')" "net_ok os opn intr B n'"
    using attach_ok [OF sock_part_net_ok [OF part] so(1) p] by blast
  obtain t where t: "socks n' k = Some t" "s_fd t = s_fd so" "s_type t = s_type so" "s_connect_pending t = s_connect_pending so"
      "same_polls n n'" "s_cb t = s_cb so \<and> s_user t = s_user so \<or> s_cb t = cbs \<and> s_user t = Some a"
    using attach_link [OF so(1) n'(1)] by auto
  have "sock_part os opn intr B cbs a p (Some k) est n'"
    using n'(2) t so part unfolding sock_part_def owned_sock_def same_polls_def by auto
  then show ?thesis using n'(1) attach_more [OF n'(1)] by blast
qed

lemma destroy_part:
  assumes "sock_part os opn intr B cbs a p sk est n"
  shows "\<exists>n'. ztk_socket_destroy os sk n = Some n' \<and> sock_part os opn intr B cbs a p None False n' \<and> net.more n' = net.more n"
proof (cases sk)
  case None
  then show ?thesis using assms by (auto simp: ztk_socket_destroy_def sock_part_def)
next
  case (Some k)
  then obtain so where so: "socks n k = Some so" using assms sock_part_live by blast
  obtain n' where n': "ztk_socket_destroy os (Some k) n = Some n'" "net_ok os opn intr B n'" "frame k n n'"
    using destroy_ok [OF sock_part_net_ok [OF assms] so] by blast
  then show ?thesis using Some assms destroy_more [OF n'(1)] by (auto simp: sock_part_def frame_def)
qed

lemma create_part:
  assumes "sock_part os opn intr B cbs a p None est n" and c: "ztk_socket_create n = (sk, n')"
  shows "sock_part os opn intr B cbs a p sk False n' \<and> net.more n' = net.more n"
proof -
  have "net_ok os opn intr B n'" using create_ok [OF sock_part_net_ok [OF assms(1)]] c by simp
  moreover have "npollers n' = npollers n" and "sk = Some k \<Longrightarrow> \<exists>so. socks n' k = Some so \<and> s_cb so = no_cbs \<and> s_fd so = - 1" for k
    using c by (auto simp: ztk_socket_create_def take_mem_def Let_def split: list.splits option.splits if_splits)
  ultimately show ?thesis using assms create_more [OF c] by (fastforce simp: sock_part_def owned_sock_def)
qed

text \<open>Which sockets the operations touch.\<close>

lemma detach_socks:
  assumes "sock_part os opn intr B cbs a p sk est n" and "ztk_socket_detach_poller os sk n = Some (e, n')"
  shows "\<forall>b. sk \<noteq> Some b \<longrightarrow> socks n' b = socks n b"
proof (cases sk)
  case (Some k)
  then obtain so where "socks n k = Some so" using assms(1) sock_part_live by blast
  then show ?thesis using detach_ok [OF sock_part_net_ok [OF assms(1)]] assms(2) Some by (fastforce simp: frame_def)
qed (use assms in \<open>simp add: ztk_socket_detach_poller_def\<close>)

lemma destroy_socks:
  assumes "sock_part os opn intr B cbs a p sk est n" and "ztk_socket_destroy os sk n = Some n'"
  shows "socks n' = (case sk of None \<Rightarrow> socks n | Some k \<Rightarrow> (socks n)(k := None))"
proof (cases sk)
  case (Some k)
  then obtain so where "socks n k = Some so" using assms(1) sock_part_live by blast
  then show ?thesis using destroy_ok [OF sock_part_net_ok [OF assms(1)]] assms(2) Some by (fastforce simp: frame_def)
qed (use assms in \<open>simp add: ztk_socket_destroy_def\<close>)

lemma create_socks:
  assumes "ztk_socket_create n = (sk, n')"
  shows "(case sk of None \<Rightarrow> socks n' = socks n | Some k \<Rightarrow> socks n k = None \<and> (\<exists>so. socks n' = (socks n)(k \<mapsto> so)))"
  using assms by (auto simp: ztk_socket_create_def take_mem_def Let_def split: list.splits option.splits if_splits)

section \<open>Events\<close>

text \<open>
  What the dispatcher asks of the owner of socket \<open>k\<close>: an invariant that the dispatcher's own socket
  calls and the owner's callbacks keep. Then every event is handled, and the invariant holds afterwards.
\<close>

locale socket_user =
  fixes os :: "'w os" and call :: "('k, 'w, 'z) sock_call" and k :: nat and I :: "('k, 'w, 'z) net_scheme \<Rightarrow> bool"
  assumes live: "I n \<Longrightarrow> socks n k \<noteq> None"
    and moved: "I n \<Longrightarrow> \<exists>e n'. ztk_socket_mod_events os (Some k) ev n = Some (e, n') \<and> I n'"
    and checked: "I n \<Longrightarrow> \<exists>err n'. ztk_socket_check_connect os (Some k) n = Some (err, n') \<and>
      (if err = ZTK_OK then I (upd_sock k (\<lambda>s. s\<lparr>s_connect_pending := False, s_type := ZTK_SOCK_TCP_CONNECTED\<rparr>) n') else I n')"
    and errors: "I n \<Longrightarrow> \<exists>n'. fire call on_error k n = Some n' \<and> I n'"
    and writables: "I n \<Longrightarrow> \<exists>n'. fire call on_writable k n = Some n' \<and> I n'"
    and readables: "I n \<Longrightarrow> \<exists>n'. fire call on_readable k n = Some n' \<and> I n'"
begin

lemma event:
  assumes inv: "I n"
  shows "\<exists>n'. socket_poller_cb os call fd ev (Some k) n = Some n' \<and> I n'"
proof -
  obtain so where so: "socks n k = Some so" using live [OF inv] by blast
  define settle where "settle = (if ev AND ZTK_POLL_OUT \<noteq> 0 \<and> s_connect_pending so then do {
       (err, m) \<leftarrow> ztk_socket_check_connect os (Some k) n;
       if err = ZTK_OK then do {
         let m1 = upd_sock k (\<lambda>s. s\<lparr>s_connect_pending := False, s_type := ZTK_SOCK_TCP_CONNECTED\<rparr>) m;
         s1 \<leftarrow> socks m1 k;
         if s_attached s1 then do {
           (_, m2) \<leftarrow> ztk_socket_mod_events os (Some k) (default_poll_events s1) m1;
           Some (False, m2)
         } else Some (False, m1)
       } else (if on_error (s_cb so) \<noteq> None then map_option (Pair True) (fire call on_error k m)
               else Some (False, m))
     } else Some (False, n))"
  have "\<exists>stop n1. settle = Some (stop, n1) \<and> I n1"
  proof (cases "ev AND ZTK_POLL_OUT \<noteq> 0 \<and> s_connect_pending so")
    case False
    then have "settle = Some (False, n)" unfolding settle_def by (rule if_not_P)
    then show ?thesis using inv by blast
  next
    case True
    obtain err m where m: "ztk_socket_check_connect os (Some k) n = Some (err, m)"
      and i: "if err = ZTK_OK then I (upd_sock k (\<lambda>s. s\<lparr>s_connect_pending := False, s_type := ZTK_SOCK_TCP_CONNECTED\<rparr>) m) else I m"
      using checked [OF inv] by blast
    let ?m1 = "upd_sock k (\<lambda>s. s\<lparr>s_connect_pending := False, s_type := ZTK_SOCK_TCP_CONNECTED\<rparr>) m"
    show ?thesis
    proof (cases "err = ZTK_OK")
      case ok: True
      then have i1: "I ?m1" using i by simp
      obtain t where t: "socks ?m1 k = Some t" using live [OF i1] by blast
      show ?thesis using True m ok i1 t moved [OF i1, of "default_poll_events t"] by (auto simp: settle_def Let_def)
    next
      case bad: False
      then have "I m" using i by simp
      then show ?thesis using True m bad errors [of m] by (auto simp: settle_def)
    qed
  qed
  then obtain stop n1 where n1: "settle = Some (stop, n1)" "I n1" by blast
  obtain n2 where n2: "(if ev AND ZTK_POLL_OUT \<noteq> 0 then fire call on_writable k n1 else Some n1) = Some n2" "I n2"
    using writables [OF n1(2)] n1(2) by (cases "ev AND ZTK_POLL_OUT \<noteq> 0") auto
  have "\<exists>n3. (if ev AND ZTK_POLL_IN \<noteq> 0 then fire call on_readable k n2 else Some n2) = Some n3 \<and> I n3"
    using readables [OF n2(2)] n2(2) by auto
  moreover have "\<exists>n'. fire call on_error k n = Some n' \<and> I n'" using errors [OF inv] .
  ultimately show ?thesis
    using so inv n1 n2 unfolding socket_poller_cb_def settle_def [symmetric] by (auto simp: settle_def [symmetric])
qed

end

end
