(* ===== verification/Tcp_Client.thy ===== *)
theory Tcp_Client
  imports Socket_Owner
begin

text \<open>
  TCP clients, \<^verbatim>\<open>src/net/tcp_client.c\<close>: a client owns a socket that it registers with a poller, reports
  the connection, received bytes and errors to the functions of the application, and sends. The state
  extends the sockets by the clients, at their addresses, and by the application's own state; what the
  functions of the application do is a parameter, and a client is read again after each of them, as the
  code does.
\<close>

section \<open>State\<close>

datatype client_cb = Client_on_readable | Client_on_writable | Client_on_error

record 'f ztk_tcp_client_ops =
  op_connect :: "'f option"
  op_recv :: "'f option"
  op_error :: "'f option"

record 'f ztk_tcp_client =
  c_sock :: "nat option"
  c_poller :: "nat option"
  c_ops :: "'f ztk_tcp_client_ops"
  c_user :: "nat option"
  c_connected :: bool
  c_closing :: bool

record 'f ztk_tcp_client_opts =
  o_poller :: "nat option"
  o_ops :: "'f ztk_tcp_client_ops option"
  o_user :: "nat option"

record ('f, 'w, 'x) cnet = "(client_cb, 'w) net" +
  clients :: "nat \<rightharpoonup> 'f ztk_tcp_client"
  capp :: 'x

record ('f, 'w, 's) cenv =
  ce_os :: "'w os"
  ce_call :: "'f \<Rightarrow> nat \<Rightarrow> nat option \<Rightarrow> 's \<Rightarrow> 's option"
  ce_recv :: "'f \<Rightarrow> nat \<Rightarrow> u8 list \<Rightarrow> nat option \<Rightarrow> 's \<Rightarrow> 's option"

type_synonym ('f, 'w, 'x) client_env = "('f, 'w, ('f, 'w, 'x) cnet) cenv"

definition upd_client :: "nat \<Rightarrow> ('f ztk_tcp_client \<Rightarrow> 'f ztk_tcp_client) \<Rightarrow> ('f, 'w, 'x) cnet \<Rightarrow> ('f, 'w, 'x) cnet" where
  "upd_client a f s = s\<lparr>clients := (clients s)(a := map_option f (clients s a))\<rparr>"

definition ZTK_TCP_CLIENT_RECV :: nat where "ZTK_TCP_CLIENT_RECV = 4096"

definition run_cb :: "('f, 'w, 'x) client_env \<Rightarrow> 'f option \<Rightarrow> nat \<Rightarrow> nat option \<Rightarrow> ('f, 'w, 'x) cnet \<Rightarrow> ('f, 'w, 'x) cnet option" where
  "run_cb E f a u s = (case f of None \<Rightarrow> Some s | Some g \<Rightarrow> ce_call E g a u s)"

section \<open>Events\<close>

definition fire_error :: "('f, 'w, 'x) client_env \<Rightarrow> nat option \<Rightarrow> ('f, 'w, 'x) cnet \<Rightarrow> ('f, 'w, 'x) cnet option" where
  "fire_error E client s =
     (case client of None \<Rightarrow> Some s
      | Some a \<Rightarrow> do {
          c \<leftarrow> clients s a;
          if c_closing c then Some s
          else do {
            s1 \<leftarrow> run_cb E (op_error (c_ops c)) a (c_user c) (upd_client a (\<lambda>c. c\<lparr>c_closing := True\<rparr>) s);
            c1 \<leftarrow> clients s1 a;
            (_, s2) \<leftarrow> ztk_socket_detach_poller (ce_os E) (c_sock c1) s1;
            Some s2
          }
        })"

definition client_on_writable ::
    "('f, 'w, 'x) client_env \<Rightarrow> nat \<Rightarrow> nat option \<Rightarrow> ('f, 'w, 'x) cnet \<Rightarrow> ('f, 'w, 'x) cnet option" where
  "client_on_writable E sock user s =
     (case user of None \<Rightarrow> Some s
      | Some a \<Rightarrow> do {
          c \<leftarrow> clients s a;
          if c_closing c \<or> c_connected c then Some s
          else do {
            (err, s1) \<leftarrow> ztk_socket_check_connect (ce_os E) (Some sock) s;
            if err = ZTK_OK
            then run_cb E (op_connect (c_ops c)) a (c_user c) (upd_client a (\<lambda>c. c\<lparr>c_connected := True\<rparr>) s1)
            else if err \<noteq> ZTK_ERR_AGAIN then fire_error E (Some a) s1
            else Some s1
          }
        })"

text \<open>The first component of the first part says whether the function goes on to receive.\<close>

definition client_on_readable ::
    "('f, 'w, 'x) client_env \<Rightarrow> nat \<Rightarrow> nat option \<Rightarrow> ('f, 'w, 'x) cnet \<Rightarrow> ('f, 'w, 'x) cnet option" where
  "client_on_readable E sock user s =
     (case user of None \<Rightarrow> Some s
      | Some a \<Rightarrow> do {
          c \<leftarrow> clients s a;
          if c_closing c then Some s
          else do {
            (go, s1) \<leftarrow>
              (if \<not> c_connected c then do {
                 s1 \<leftarrow> client_on_writable E sock user s;
                 c1 \<leftarrow> clients s1 a;
                 Some (c_connected c1 \<and> \<not> c_closing c1, s1)
               } else Some (True, s));
            if \<not> go then Some s1
            else do {
              ((n, bs), s2) \<leftarrow> ztk_socket_recv (ce_os E) (Some sock) ZTK_TCP_CLIENT_RECV s1;
              c2 \<leftarrow> clients s2 a;
              if 0 < n
              then (case op_recv (c_ops c2) of None \<Rightarrow> Some s2 | Some f \<Rightarrow> ce_recv E f a bs (c_user c2) s2)
              else if n = 0 \<or> n \<noteq> err_code ZTK_ERR_AGAIN then fire_error E (Some a) s2
              else Some s2
            }
          }
        })"

definition client_on_error ::
    "('f, 'w, 'x) client_env \<Rightarrow> nat \<Rightarrow> nat option \<Rightarrow> ('f, 'w, 'x) cnet \<Rightarrow> ('f, 'w, 'x) cnet option" where
  "client_on_error E sock user s = fire_error E user s"

text \<open>The functions a client hands to its socket, as the dispatcher of the sockets calls them.\<close>

definition client_call :: "('f, 'w, 'x) client_env \<Rightarrow> client_cb \<Rightarrow> nat \<Rightarrow> nat option \<Rightarrow> ('f, 'w, 'x) cnet \<Rightarrow> ('f, 'w, 'x) cnet option" where
  "client_call E k =
     (case k of Client_on_readable \<Rightarrow> client_on_readable E | Client_on_writable \<Rightarrow> client_on_writable E
      | Client_on_error \<Rightarrow> client_on_error E)"

section \<open>Life cycle\<close>

definition ztk_tcp_client_create ::
    "'f ztk_tcp_client_opts option \<Rightarrow> ('f, 'w, 'x) cnet \<Rightarrow> nat option \<times> ('f, 'w, 'x) cnet" where
  "ztk_tcp_client_create opts s =
     (case opts of None \<Rightarrow> (None, s)
      | Some o' \<Rightarrow>
        (case (o_poller o', o_ops o') of
           (Some p, Some ops) \<Rightarrow>
             let (m, s1) = take_mem s in
             (case m of None \<Rightarrow> (None, s1)
              | Some a \<Rightarrow>
                if clients s1 a \<noteq> None then (None, s1)
                else case ztk_socket_create s1 of
                  (None, s2) \<Rightarrow> (None, s2)
                | (Some k, s2) \<Rightarrow>
                    (Some a, s2\<lparr>clients := (clients s2)(a \<mapsto>
                       \<lparr>c_sock = Some k, c_poller = Some p, c_ops = ops, c_user = o_user o',
                        c_connected = False, c_closing = False\<rparr>)\<rparr>))
         | _ \<Rightarrow> (None, s)))"

definition ztk_tcp_client_close ::
    "('f, 'w, 'x) client_env \<Rightarrow> nat option \<Rightarrow> ('f, 'w, 'x) cnet \<Rightarrow> ('f, 'w, 'x) cnet option" where
  "ztk_tcp_client_close E client s =
     (case client of None \<Rightarrow> Some s
      | Some a \<Rightarrow> do {
          c \<leftarrow> clients s a;
          (_, s1) \<leftarrow> ztk_socket_detach_poller (ce_os E) (c_sock c) (upd_client a (\<lambda>c. c\<lparr>c_closing := True\<rparr>) s);
          s2 \<leftarrow> ztk_socket_destroy (ce_os E) (c_sock c) s1;
          let (k, s3) = ztk_socket_create s2;
          Some (upd_client a (\<lambda>c. c\<lparr>c_sock := k, c_connected := False, c_closing := False\<rparr>) s3)
        })"

definition ztk_tcp_client_destroy ::
    "('f, 'w, 'x) client_env \<Rightarrow> nat option \<Rightarrow> ('f, 'w, 'x) cnet \<Rightarrow> ('f, 'w, 'x) cnet option" where
  "ztk_tcp_client_destroy E client s =
     (case client of None \<Rightarrow> Some s
      | Some a \<Rightarrow> do {
          s1 \<leftarrow> ztk_tcp_client_close E (Some a) s;
          c1 \<leftarrow> clients s1 a;
          s2 \<leftarrow> ztk_socket_destroy (ce_os E) (c_sock c1) s1;
          Some (s2\<lparr>clients := (clients s2)(a := None)\<rparr>)
        })"

definition client_cbs :: "client_cb socket_cbs" where
  "client_cbs = \<lparr>on_readable = Some Client_on_readable, on_writable = Some Client_on_writable, on_error = Some Client_on_error\<rparr>"

definition ztk_tcp_client_connect ::
    "('f, 'w, 'x) client_env \<Rightarrow> nat option \<Rightarrow> string option \<Rightarrow> u16 \<Rightarrow> ('f, 'w, 'x) cnet \<Rightarrow>
     (ztk_err \<times> ('f, 'w, 'x) cnet) option" where
  "ztk_tcp_client_connect E client host port s =
     (case client of None \<Rightarrow> Some (ZTK_ERR_INVALID, s)
      | Some a \<Rightarrow> do {
          c \<leftarrow> clients s a;
          if c_closing c then Some (ZTK_ERR_INVALID, s)
          else do {
            (_, s1) \<leftarrow> ztk_socket_detach_poller (ce_os E) (c_sock c) s;
            let s2 = upd_client a (\<lambda>c. c\<lparr>c_connected := False\<rparr>) s1;
            ((err, pending), s3) \<leftarrow> ztk_socket_connect (ce_os E) (c_sock c) host port s2;
            if err \<noteq> ZTK_OK then Some (err, s3)
            else do {
              (err, s4) \<leftarrow> ztk_socket_attach_poller (ce_os E) (c_sock c) (c_poller c) (Some client_cbs) (Some a) s3;
              if err \<noteq> ZTK_OK then Some (err, s4)
              else if pending \<noteq> Some True then do {
                s5 \<leftarrow> run_cb E (op_connect (c_ops c)) a (c_user c) (upd_client a (\<lambda>c. c\<lparr>c_connected := True\<rparr>) s4);
                Some (ZTK_OK, s5)
              }
              else Some (ZTK_OK, s4)
            }
          }
        })"

definition ztk_tcp_client_is_connected :: "nat option \<Rightarrow> ('f, 'w, 'x) cnet \<Rightarrow> bool option" where
  "ztk_tcp_client_is_connected client s =
     (case client of None \<Rightarrow> Some False
      | Some a \<Rightarrow> map_option (\<lambda>c. c_connected c \<and> \<not> c_closing c) (clients s a))"

definition ztk_tcp_client_socket :: "nat option \<Rightarrow> ('f, 'w, 'x) cnet \<Rightarrow> nat option option" where
  "ztk_tcp_client_socket client s =
     (case client of None \<Rightarrow> Some None | Some a \<Rightarrow> map_option c_sock (clients s a))"

section \<open>Sending\<close>

text \<open>
  The loop of \<^verbatim>\<open>ztk_tcp_client_send\<close>: \<open>off\<close> bytes have been sent and the last \<open>spin\<close> attempts were refused.
  Each turn sends something, counts up to the limit of refusals, or ends.
\<close>

function send_loop ::
    "'w os \<Rightarrow> nat option \<Rightarrow> mem \<Rightarrow> nat \<Rightarrow> nat \<Rightarrow> ('k, 'w, 'z) net_scheme \<Rightarrow> (int \<times> ('k, 'w, 'z) net_scheme) option" where
  "send_loop os k data off spin s =
     (if length data \<le> off then Some (err_code ZTK_OK, s)
      else case ztk_socket_send os k (drop off data) s of
        None \<Rightarrow> None
      | Some (n, s1) \<Rightarrow>
          if 0 < n then send_loop os k data (off + nat n) 0 s1
          else if n = err_code ZTK_ERR_AGAIN
          then if 64 < spin + 1 then Some (err_code ZTK_ERR_AGAIN, s1) else send_loop os k data off (spin + 1) s1
          else if n < 0 then Some (n, s1)
          else Some (err_code ZTK_ERR_IO, s1))"
  by pat_completeness auto
termination
  by (relation "measures [\<lambda>(os, k, data, off, spin, s). length data - off, \<lambda>(os, k, data, off, spin, s). 65 - spin]") auto

declare send_loop.simps [simp del]

definition ztk_tcp_client_send ::
    "('f, 'w, 'x) client_env \<Rightarrow> nat option \<Rightarrow> mem option \<Rightarrow> ('f, 'w, 'x) cnet \<Rightarrow> (int \<times> ('f, 'w, 'x) cnet) option" where
  "ztk_tcp_client_send E client data s =
     (case client of None \<Rightarrow> Some (err_code ZTK_ERR_STATE, s)
      | Some a \<Rightarrow> do {
          c \<leftarrow> clients s a;
          (case data of None \<Rightarrow> Some (err_code ZTK_ERR_STATE, s)
           | Some m \<Rightarrow>
               if \<not> c_connected c \<or> c_closing c \<or> m = [] then Some (err_code ZTK_ERR_STATE, s)
               else send_loop (ce_os E) (c_sock c) m 0 0 s)
        })"

section \<open>Sending puts a prefix on the wire\<close>

lemma send_loop_spec:
  assumes "sends_ok os wire" and "socks s k = Some so" and "0 \<le> s_fd so" and "off \<le> length data"
  shows "\<exists>r m y. send_loop os (Some k) data off spin s = Some (r, s\<lparr>nsys := y\<rparr>) \<and> off + m \<le> length data \<and>
     wire (world y) = (wire (world (nsys s)))(s_fd so := wire (world (nsys s)) (s_fd so) @ take m (drop off data)) \<and>
     (r = 0 \<longleftrightarrow> off + m = length data)"
  using assms
proof (induction os "Some k" data off spin s rule: send_loop.induct)
  case (1 os data off spin s)
  show ?case
  proof (cases "length data \<le> off")
    case True
    then show ?thesis using 1(6)
      by (intro exI [of _ 0] exI [of _ "nsys s"]) (simp add: send_loop.simps [of os _ data off])
  next
    case False
    obtain n y where ny: "ztk_sockplat_send os (s_fd so) (drop off data) (nsys s) = (n, y)" by fastforce
    then have snd: "ztk_socket_send os (Some k) (drop off data) s = Some (n, s\<lparr>nsys := y\<rparr>)"
      using 1(4,5) by (simp add: ztk_socket_send_def)
    have tk: "takes wire (world (nsys s)) (world y) (s_fd so) (drop off data) n" by (rule sockplat_send_takes [OF 1(3) ny])
    have so': "socks (s\<lparr>nsys := y\<rparr>) k = Some so" using 1(4) by simp
    note un = send_loop.simps [of os "Some k" data off spin s] and neg = err_code_neg
    consider (sent) "0 < n" | (spin) "n = err_code ZTK_ERR_AGAIN" "\<not> 64 < spin + 1"
      | (stop) "\<not> 0 < n" "n \<noteq> err_code ZTK_ERR_AGAIN \<or> 64 < spin + 1" by fastforce
    then show ?thesis
    proof cases
      case sent
      then have "nat n \<le> length data - off" using tk by (simp add: takes_def)
      then have le: "off + nat n \<le> length data" using False by linarith
      obtain r m y' where ih: "send_loop os (Some k) data (off + nat n) 0 (s\<lparr>nsys := y\<rparr>) = Some (r, s\<lparr>nsys := y'\<rparr>)"
          "off + nat n + m \<le> length data" "r = 0 \<longleftrightarrow> off + nat n + m = length data"
          "wire (world y') = (wire (world y))(s_fd so := wire (world y) (s_fd so) @ take m (drop (off + nat n) data))"
        using 1(1) [OF False snd refl sent 1(3) so' 1(5) le] by auto
      have "take (nat n) (drop off data) @ take m (drop (off + nat n) data) = take (nat n + m) (drop off data)"
        by (subst take_add) (simp add: add.commute)
      then have "wire (world y') = (wire (world (nsys s)))(s_fd so := wire (world (nsys s)) (s_fd so) @ take (nat n + m) (drop off data))"
        using ih(4) tk sent by (simp add: takes_def)
      moreover have "send_loop os (Some k) data off spin s = Some (r, s\<lparr>nsys := y'\<rparr>)"
        using un False snd sent ih(1) by simp
      ultimately show ?thesis using ih(2,3)
        by (intro exI [of _ r] exI [of _ "nat n + m"] exI [of _ y']) (simp add: add.assoc)
    next
      case spin
      then have n: "\<not> 0 < n" by simp
      then have w: "wire (world y) = wire (world (nsys s))" using tk by (simp add: takes_def)
      have "send_loop os (Some k) data off spin s = send_loop os (Some k) data off (spin + 1) (s\<lparr>nsys := y\<rparr>)"
        using un False snd spin n by simp
      then show ?thesis using 1(2) [OF False snd refl n spin 1(3) so' 1(5,6)] w by simp
    next
      case stop
      then have w: "wire (world y) = wire (world (nsys s))" using tk by (simp add: takes_def)
      let ?r = "if n = err_code ZTK_ERR_AGAIN then n else if n < 0 then n else err_code ZTK_ERR_IO"
      have "send_loop os (Some k) data off spin s = Some (?r, s\<lparr>nsys := y\<rparr>)"
        using un False snd stop by auto
      moreover have "?r \<noteq> 0" using stop neg [of ZTK_ERR_AGAIN] neg [of ZTK_ERR_IO] by auto
      ultimately show ?thesis using False w
        by (intro exI [of _ ?r] exI [of _ 0] exI [of _ y]) simp
    qed
  qed
qed

section \<open>The life of a client\<close>

lemma cnet_more: "net.more s' = net.more s \<Longrightarrow> clients s' = clients s \<and> capp s' = capp s"
  by (cases s, cases s') simp

text \<open>A client owns its socket, and calls itself connected only when the connection is established.\<close>

definition cli_inv ::
    "'w os \<Rightarrow> ('w \<Rightarrow> int set) \<Rightarrow> ('w \<Rightarrow> int \<Rightarrow> int \<rightharpoonup> u32) \<Rightarrow> int set \<Rightarrow> nat \<Rightarrow> nat option \<Rightarrow> ('f, 'w, 'x) cnet \<Rightarrow> bool" where
  "cli_inv os opn intr B a sk s \<longleftrightarrow> (\<exists>c p. clients s a = Some c \<and> c_sock c = sk \<and> c_poller c = Some p \<and>
     sock_part os opn intr B client_cbs a p sk (c_connected c) s)"

lemma cli_invI:
  "clients s a = Some c \<Longrightarrow> c_sock c = sk \<Longrightarrow> c_poller c = Some p \<Longrightarrow>
   sock_part os opn intr B client_cbs a p sk (c_connected c) s \<Longrightarrow> cli_inv os opn intr B a sk s"
  by (auto simp: cli_inv_def)

lemma cli_invE:
  assumes "cli_inv os opn intr B a sk s"
  obtains c p where "clients s a = Some c" and "c_sock c = sk" and "c_poller c = Some p"
    and "sock_part os opn intr B client_cbs a p sk (c_connected c) s"
  using assms by (auto simp: cli_inv_def)

lemma part_app [simp]:
  "sock_part os opn intr B cbs a p sk est (s\<lparr>capp := x\<rparr>) = sock_part os opn intr B cbs a p sk est (s :: ('f, 'w, 'x) cnet)"
  "sock_part os opn intr B cbs a p sk est (upd_client b f s) = sock_part os opn intr B cbs a p sk est s"
  by (simp_all add: sock_part_def net_ok_def upd_client_def)

lemma clients_upd [simp]: "clients s a = Some c \<Longrightarrow> clients (upd_client a f s) a = Some (f c)"
  by (simp add: upd_client_def)

lemma sys_inv:
  assumes "cli_inv os opn intr B a sk s" and "op_of opn y = op_of opn (nsys s)" and "in_of intr y = in_of intr (nsys s)"
  shows "cli_inv os opn intr B a sk (s\<lparr>nsys := y\<rparr>)"
  using assms(1) sys_part [OF _ assms(2,3)] by (fastforce simp: cli_inv_def)

lemma cli_inv_app: "cli_inv os opn intr B a sk s \<Longrightarrow> cli_inv os opn intr B a sk (s\<lparr>capp := x\<rparr>)"
  by (simp add: cli_inv_def)

lemma cli_inv_closing: "cli_inv os opn intr B a sk s \<Longrightarrow> cli_inv os opn intr B a sk (upd_client a (\<lambda>c. c\<lparr>c_closing := b\<rparr>) s)"
  by (fastforce simp: cli_inv_def)

text \<open>
  Functions of the application that return, change their own state, and may send and receive, through the client too (lemma \<open>send_calm\<close>), but
  do not connect, close or destroy it, nor open or close other descriptors.
\<close>

definition calm_result ::
    "('w \<Rightarrow> int set) \<Rightarrow> ('w \<Rightarrow> int \<Rightarrow> int \<rightharpoonup> u32) \<Rightarrow> ('f, 'w, 'x) cnet \<Rightarrow> ('f, 'w, 'x) cnet option \<Rightarrow> bool" where
  "calm_result opn intr s r \<longleftrightarrow> (\<exists>x y. r = Some (s\<lparr>nsys := y, capp := x\<rparr>) \<and> op_of opn y = op_of opn (nsys s) \<and>
     in_of intr y = in_of intr (nsys s))"

definition app_calm ::
    "('w \<Rightarrow> int set) \<Rightarrow> ('w \<Rightarrow> int \<Rightarrow> int \<rightharpoonup> u32) \<Rightarrow> int set \<Rightarrow> ('f, 'w, 'x) client_env \<Rightarrow> bool" where
  "app_calm opn intr B E \<longleftrightarrow> (\<forall>f a u sk s. cli_inv (ce_os E) opn intr B a sk s \<longrightarrow>
     calm_result opn intr s (ce_call E f a u s) \<and> (\<forall>bs. calm_result opn intr s (ce_recv E f a bs u s)))"

lemma calm_result_inv:
  assumes "calm_result opn intr s r" and "cli_inv os opn intr B a sk s"
  shows "\<exists>s'. r = Some s' \<and> cli_inv os opn intr B a sk s'"
proof -
  obtain x y where r: "r = Some (s\<lparr>nsys := y, capp := x\<rparr>)" "op_of opn y = op_of opn (nsys s)" "in_of intr y = in_of intr (nsys s)"
    using assms(1) by (auto simp: calm_result_def)
  have "cli_inv os opn intr B a sk (s\<lparr>nsys := y, capp := x\<rparr>)" using cli_inv_app [OF sys_inv [OF assms(2) r(2,3)]] by simp
  with r(1) show ?thesis by simp
qed

lemma run_cb_inv:
  assumes "app_calm opn intr B E" and "cli_inv (ce_os E) opn intr B a sk s"
  shows "\<exists>s'. run_cb E f a u s = Some s' \<and> cli_inv (ce_os E) opn intr B a sk s'"
  using assms calm_result_inv [OF _ assms(2)] by (cases f) (auto simp: run_cb_def app_calm_def)

lemma detach_inv:
  assumes "cli_inv os opn intr B a sk s"
  shows "\<exists>s'. ztk_socket_detach_poller os sk s = Some (ZTK_OK, s') \<and> cli_inv os opn intr B a sk s' \<and> clients s' = clients s"
proof -
  obtain c p where c: "clients s a = Some c" "c_sock c = sk" "c_poller c = Some p"
      "sock_part os opn intr B client_cbs a p sk (c_connected c) s"
    using assms by (rule cli_invE)
  then show ?thesis using detach_part [OF c(4)] cnet_more by (metis cli_invI)
qed

lemma fire_error_inv:
  assumes "app_calm opn intr B E" and "cli_inv (ce_os E) opn intr B a sk s"
  shows "\<exists>s'. fire_error E (Some a) s = Some s' \<and> cli_inv (ce_os E) opn intr B a sk s'"
proof -
  obtain c where c: "clients s a = Some c" using assms(2) by (rule cli_invE)
  show ?thesis
  proof (cases "c_closing c")
    case True
    then show ?thesis using c assms(2) by (simp add: fire_error_def)
  next
    case False
    let ?s = "upd_client a (\<lambda>c. c\<lparr>c_closing := True\<rparr>) s"
    from run_cb_inv [OF assms(1) cli_inv_closing [OF assms(2)]] obtain s1 where
      s1: "run_cb E (op_error (c_ops c)) a (c_user c) ?s = Some s1" "cli_inv (ce_os E) opn intr B a sk s1" by blast
    obtain s2 where s2: "ztk_socket_detach_poller (ce_os E) sk s1 = Some (ZTK_OK, s2)" "cli_inv (ce_os E) opn intr B a sk s2"
      using detach_inv [OF s1(2)] by blast
    obtain c1 where "clients s1 a = Some c1" "c_sock c1 = sk" using s1(2) by (rule cli_invE)
    then show ?thesis using c False s1 s2 by (auto simp: fire_error_def)
  qed
qed

lemma on_writable_inv:
  assumes calm: "app_calm opn intr B E" and inv: "cli_inv (ce_os E) opn intr B a (Some k) s"
  shows "\<exists>s'. client_on_writable E k (Some a) s = Some s' \<and> cli_inv (ce_os E) opn intr B a (Some k) s'"
proof -
  obtain c p where c: "clients s a = Some c" "c_sock c = Some k" "c_poller c = Some p"
      "sock_part (ce_os E) opn intr B client_cbs a p (Some k) (c_connected c) s"
    using inv by (rule cli_invE)
  show ?thesis
  proof (cases "c_closing c \<or> c_connected c")
    case True
    then show ?thesis using c inv by (auto simp: client_on_writable_def)
  next
    case False
    obtain err s1 where s1: "ztk_socket_check_connect (ce_os E) (Some k) s = Some (err, s1)"
        "sock_part (ce_os E) opn intr B client_cbs a p (Some k) (c_connected c \<or> err = ZTK_OK) s1" "clients s1 = clients s"
      using check_part [OF c(4)] cnet_more by blast
    show ?thesis
    proof (cases "err = ZTK_OK")
      case True
      have "cli_inv (ce_os E) opn intr B a (Some k) (upd_client a (\<lambda>c. c\<lparr>c_connected := True\<rparr>) s1)"
        using s1 c True by (simp add: cli_inv_def)
      from run_cb_inv [OF calm this] show ?thesis using False c(1) s1(1) True by (simp add: client_on_writable_def)
    next
      case err: False
      have i1: "cli_inv (ce_os E) opn intr B a (Some k) s1" using s1 c err by (simp add: cli_inv_def)
      then show ?thesis using fire_error_inv [OF calm i1] False c(1) s1(1) err by (auto simp: client_on_writable_def)
    qed
  qed
qed

lemma cli_inv_live:
  assumes "cli_inv os opn intr B a (Some k) s"
  obtains so where "socks s k = Some so" and "owned_sock client_cbs a so" and "fds_ok os opn" and "epoll_ok os intr"
  using assms by (auto simp: cli_inv_def sock_part_def dest: net_okD(1,2))

lemma socket_recv_inv:
  assumes "cli_inv os opn intr B a (Some k) s"
  shows "\<exists>r s'. ztk_socket_recv os (Some k) len s = Some (r, s') \<and> cli_inv os opn intr B a (Some k) s' \<and> clients s' = clients s"
proof -
  obtain so where so: "socks s k = Some so" and os: "fds_ok os opn" "epoll_ok os intr" using assms by (rule cli_inv_live)
  let ?y = "snd (ztk_sockplat_recv os (s_fd so) len (nsys s))"
  have "op_of opn ?y = op_of opn (nsys s)" "in_of intr ?y = in_of intr (nsys s)"
    by (simp_all add: ztk_sockplat_recv_def io_result_def Let_def split_def fd_keep [OF os(1)] data_in_keep [OF os(2)])
  from sys_inv [OF assms this] show ?thesis
    using assms so by (cases "s_fd so < 0") (auto simp: ztk_socket_recv_def split_def Let_def)
qed

lemma on_readable_inv:
  assumes calm: "app_calm opn intr B E" and inv: "cli_inv (ce_os E) opn intr B a (Some k) s"
  shows "\<exists>s'. client_on_readable E k (Some a) s = Some s' \<and> cli_inv (ce_os E) opn intr B a (Some k) s'"
proof -
  let ?I = "cli_inv (ce_os E) opn intr B a (Some k)"
  have cl: "\<exists>c. clients t a = Some c" if "?I t" for t using that by (auto elim: cli_invE)
  obtain c where c: "clients s a = Some c" using cl [OF inv] by blast
  show ?thesis
  proof (cases "c_closing c")
    case True
    then show ?thesis using c inv by (simp add: client_on_readable_def)
  next
    case False
    let ?first = "if \<not> c_connected c then do {
           s1 \<leftarrow> client_on_writable E k (Some a) s; c1 \<leftarrow> clients s1 a; Some (c_connected c1 \<and> \<not> c_closing c1, s1)
         } else Some (True, s)"
    obtain go s1 where first: "?first = Some (go, s1)" and i1: "?I s1"
    proof (cases "c_connected c")
      case True
      then show ?thesis using that [of True s] inv by simp
    next
      case no: False
      obtain t where t: "client_on_writable E k (Some a) s = Some t" "?I t" using on_writable_inv [OF calm inv] by blast
      obtain d where "clients t a = Some d" using cl [OF t(2)] by blast
      then show ?thesis using that [of "c_connected d \<and> \<not> c_closing d" t] no t by simp
    qed
    obtain n bs s2 where s2: "ztk_socket_recv (ce_os E) (Some k) ZTK_TCP_CLIENT_RECV s1 = Some ((n, bs), s2)" "?I s2"
      using socket_recv_inv [OF i1] by (metis prod.collapse)
    obtain c2 where c2: "clients s2 a = Some c2" using cl [OF s2(2)] by blast
    have rec: "\<exists>s'. (case op_recv (c_ops c2) of None \<Rightarrow> Some s2 | Some f \<Rightarrow> ce_recv E f a bs (c_user c2) s2) = Some s' \<and> ?I s'"
    proof (cases "op_recv (c_ops c2)")
      case (Some f)
      have "calm_result opn intr s2 (ce_recv E f a bs (c_user c2) s2)" using calm s2(2) unfolding app_calm_def by blast
      then show ?thesis using Some calm_result_inv [OF _ s2(2)] by simp
    qed (use s2(2) in simp)
    show ?thesis
      using c False first i1 s2 c2 rec fire_error_inv [OF calm s2(2)]
      unfolding client_on_readable_def by (cases go) (auto simp del: not_None_eq)
  qed
qed

lemma client_call_inv:
  assumes "app_calm opn intr B E" and "cli_inv (ce_os E) opn intr B a (Some k) s"
  shows "\<exists>s'. client_call E f k (Some a) s = Some s' \<and> cli_inv (ce_os E) opn intr B a (Some k) s'"
  using on_readable_inv [OF assms] on_writable_inv [OF assms] fire_error_inv [OF assms]
  by (cases f) (simp_all add: client_call_def client_on_error_def)

lemma fire_inv:
  assumes calm: "app_calm opn intr B E" and inv: "cli_inv (ce_os E) opn intr B a (Some k) s"
    and which: "which no_cbs = None"
  shows "\<exists>s'. fire (client_call E) which k s = Some s' \<and> cli_inv (ce_os E) opn intr B a (Some k) s'"
proof -
  obtain so where so: "socks s k = Some so" "owned_sock client_cbs a so" using inv by (rule cli_inv_live)
  then consider "s_cb so = no_cbs" | "s_user so = Some a" by (auto simp: owned_sock_def)
  then show ?thesis
  proof cases
    case 1
    then show ?thesis using so which inv by (simp add: fire_def)
  next
    case 2
    then show ?thesis using so inv client_call_inv [OF calm inv] by (cases "which (s_cb so)") (simp_all add: fire_def)
  qed
qed

lemma mod_events_inv:
  assumes "cli_inv os opn intr B a (Some k) s"
  shows "\<exists>e s'. ztk_socket_mod_events os (Some k) ev s = Some (e, s') \<and> cli_inv os opn intr B a (Some k) s'"
proof -
  obtain c p where c: "clients s a = Some c" "c_sock c = Some k" "c_poller c = Some p"
      "sock_part os opn intr B client_cbs a p (Some k) (c_connected c) s"
    using assms by (rule cli_invE)
  then show ?thesis using mod_events_part [OF c(4)] cnet_more by (metis cli_invI)
qed

lemma check_connect_inv:
  assumes "cli_inv os opn intr B a (Some k) s"
  shows "\<exists>err m. ztk_socket_check_connect os (Some k) s = Some (err, m) \<and>
     (if err = ZTK_OK then cli_inv os opn intr B a (Some k)
        (upd_sock k (\<lambda>s. s\<lparr>s_connect_pending := False, s_type := ZTK_SOCK_TCP_CONNECTED\<rparr>) m)
      else cli_inv os opn intr B a (Some k) m)"
proof -
  obtain c p where c: "clients s a = Some c" "c_sock c = Some k" "c_poller c = Some p"
      "sock_part os opn intr B client_cbs a p (Some k) (c_connected c) s"
    using assms by (rule cli_invE)
  obtain err m where m: "ztk_socket_check_connect os (Some k) s = Some (err, m)"
      "sock_part os opn intr B client_cbs a p (Some k) (c_connected c \<or> err = ZTK_OK) m" "clients m = clients s"
    using check_part [OF c(4)] cnet_more by blast
  let ?m = "upd_sock k (\<lambda>s. s\<lparr>s_connect_pending := False, s_type := ZTK_SOCK_TCP_CONNECTED\<rparr>) m"
  have u: "clients ?m = clients m" by (simp add: upd_sock_def)
  have "cli_inv os opn intr B a (Some k) ?m" if "err = ZTK_OK"
    using settled_part [of os opn intr B client_cbs a p k m "c_connected c"] m u c that by (simp add: cli_inv_def)
  moreover have "cli_inv os opn intr B a (Some k) m" if "err \<noteq> ZTK_OK" using m c that by (simp add: cli_inv_def)
  ultimately show ?thesis using m(1) by auto
qed

text \<open>A client with a well-behaved application is a user of its socket.\<close>

interpretation tcp_cl: socket_user "ce_os E" "client_call E" k "\<lambda>s. app_calm opn intr B E \<and> cli_inv (ce_os E) opn intr B a (Some k) s"
  for E :: "('f, 'w, 'x) client_env" and opn intr B a k
proof (unfold_locales, goal_cases)
  case (1 n)
  then show ?case by (auto elim: cli_inv_live)
next
  case (2 n ev)
  then show ?case using mod_events_inv by fastforce
next
  case (3 n)
  then show ?case using check_connect_inv [of "ce_os E" opn intr B a k n] by (auto split: if_splits)
qed (use fire_inv in \<open>fastforce simp: no_cbs_def\<close>)+

lemma event_inv:
  assumes calm: "app_calm opn intr B E" and inv: "cli_inv (ce_os E) opn intr B a (Some k) s"
  shows "\<exists>s'. socket_poller_cb (ce_os E) (client_call E) fd ev (Some k) s = Some s' \<and>
     cli_inv (ce_os E) opn intr B a (Some k) s'"
  using tcp_cl.event [of opn intr B E a k s fd ev] assms by blast

section \<open>Operations of the application\<close>

lemma close_inv:
  assumes inv: "cli_inv (ce_os E) opn intr B a sk s"
  shows "\<exists>s' sk'. ztk_tcp_client_close E (Some a) s = Some s' \<and> cli_inv (ce_os E) opn intr B a sk' s'"
proof -
  let ?s0 = "upd_client a (\<lambda>c. c\<lparr>c_closing := True\<rparr>) s"
  obtain c where c: "clients s a = Some c" "c_sock c = sk" using inv by (rule cli_invE)
  from detach_inv [OF cli_inv_closing [OF inv]] obtain s1 where
    s1: "ztk_socket_detach_poller (ce_os E) sk ?s0 = Some (ZTK_OK, s1)" "cli_inv (ce_os E) opn intr B a sk s1" by blast
  obtain c1 p where c1: "clients s1 a = Some c1" "c_poller c1 = Some p"
      "sock_part (ce_os E) opn intr B client_cbs a p sk (c_connected c1) s1"
    using s1(2) by (rule cli_invE)
  obtain s2 where s2: "ztk_socket_destroy (ce_os E) sk s1 = Some s2" "sock_part (ce_os E) opn intr B client_cbs a p None False s2"
      "clients s2 = clients s1"
    using destroy_part [OF c1(3)] cnet_more by blast
  obtain k' s3 where s3: "ztk_socket_create s2 = (k', s3)" by (cases "ztk_socket_create s2")
  have "sock_part (ce_os E) opn intr B client_cbs a p k' False s3" "clients s3 = clients s1"
    using create_part [OF s2(2) s3] cnet_more [of s3 s2] s2(3) by auto
  then have "cli_inv (ce_os E) opn intr B a k' (upd_client a (\<lambda>c. c\<lparr>c_sock := k', c_connected := False, c_closing := False\<rparr>) s3)"
    using c1 by (simp add: cli_inv_def)
  then show ?thesis using c s1(1) s2(1) s3 by (auto simp: ztk_tcp_client_close_def)
qed

lemma connect_inv:
  assumes calm: "app_calm opn intr B E" and inv: "cli_inv (ce_os E) opn intr B a sk s"
  shows "\<exists>e s'. ztk_tcp_client_connect E (Some a) host port s = Some (e, s') \<and> cli_inv (ce_os E) opn intr B a sk s'"
proof -
  let ?I = "cli_inv (ce_os E) opn intr B a sk" and ?P = "\<lambda>p. sock_part (ce_os E) opn intr B client_cbs a p sk"
  obtain c p where c: "clients s a = Some c" "c_sock c = sk" "c_poller c = Some p" "?P p (c_connected c) s"
    using inv by (rule cli_invE)
  show ?thesis
  proof (cases "c_closing c")
    case True
    then show ?thesis using c inv by (simp add: ztk_tcp_client_connect_def)
  next
    case False
    obtain s1 where s1: "ztk_socket_detach_poller (ce_os E) sk s = Some (ZTK_OK, s1)" "?P p (c_connected c) s1" "clients s1 = clients s"
      using detach_part [OF c(4)] cnet_more by blast
    let ?c = "c\<lparr>c_connected := False\<rparr>" and ?s2 = "upd_client a (\<lambda>c. c\<lparr>c_connected := False\<rparr>) s1"
    have p2: "?P p False ?s2" "clients ?s2 a = Some ?c" using sock_part_apart [OF s1(2)] c(1) s1(3) by auto
    show ?thesis
    proof (cases sk)
      case None
      have "?I ?s2" using p2 c by (simp add: cli_inv_def)
      then show ?thesis using None c False s1(1) by (simp add: ztk_tcp_client_connect_def ztk_socket_connect_def)
    next
      case (Some k)
      obtain err pend s3 where s3: "ztk_socket_connect (ce_os E) sk host port ?s2 = Some ((err, pend), s3)"
          "?P p (err = ZTK_OK \<and> pend \<noteq> Some True) s3" "clients s3 a = Some ?c"
        using dial_part [OF p2(1) [unfolded Some]] cnet_more p2(2) Some by metis
      obtain err' s4 where s4: "ztk_socket_attach_poller (ce_os E) sk (Some p) (Some client_cbs) (Some a) s3 = Some (err', s4)"
          "?P p (err = ZTK_OK \<and> pend \<noteq> Some True) s4" "clients s4 a = Some ?c"
        using attach_part [OF s3(2) [unfolded Some]] cnet_more s3(3) Some by metis
      have i: "?I s3" "?I s4"
        using cli_invI [OF s3(3)] cli_invI [OF s4(3)] sock_part_apart [OF s3(2)] sock_part_apart [OF s4(2)] c(2,3) by auto
      have "?I (upd_client a (\<lambda>c. c\<lparr>c_connected := True\<rparr>) s4)" if "err = ZTK_OK" "pend \<noteq> Some True"
        using s4 c that by (simp add: cli_inv_def)
      then have "\<exists>s'. run_cb E (op_connect (c_ops c)) a (c_user c) (upd_client a (\<lambda>c. c\<lparr>c_connected := True\<rparr>) s4) = Some s' \<and> ?I s'"
        if "err = ZTK_OK" "pend \<noteq> Some True" using run_cb_inv [OF calm] that by blast
      then show ?thesis using c(1-3) False s1(1) s3(1) i s4(1) by (auto simp: ztk_tcp_client_connect_def)
    qed
  qed
qed

lemma send_loop_calm:
  assumes "cli_inv os opn intr B a (Some k) s"
  shows "\<exists>r y. send_loop os (Some k) data off spin s = Some (r, s\<lparr>nsys := y\<rparr>) \<and> op_of opn y = op_of opn (nsys s) \<and>
     in_of intr y = in_of intr (nsys s)"
  using assms
proof (induction os "Some k" data off spin s rule: send_loop.induct)
  case (1 os data off spin s)
  obtain so where so: "socks s k = Some so" and os: "fds_ok os opn" "epoll_ok os intr" using 1(3) by (rule cli_inv_live)
  let ?y = "snd (ztk_sockplat_send os (s_fd so) (drop off data) (nsys s))"
  have y: "op_of opn ?y = op_of opn (nsys s)" "in_of intr ?y = in_of intr (nsys s)"
    by (simp_all add: ztk_sockplat_send_def io_result_def Let_def split_def fd_keep [OF os(1)] data_in_keep [OF os(2)])
  obtain n z where s1: "ztk_socket_send os (Some k) (drop off data) s = Some (n, s\<lparr>nsys := z\<rparr>)"
      "op_of opn z = op_of opn (nsys s)" "in_of intr z = in_of intr (nsys s)"
    using y so that [of _ "nsys s"] by (cases "s_fd so < 0") (auto simp: ztk_socket_send_def split_def Let_def)
  note i = sys_inv [OF 1(3) s1(2,3)]
  show ?case
    using 1(1) [OF _ s1(1) refl _ i] 1(2) [OF _ s1(1) refl _ _ _ i] s1 exI [of _ "nsys s"]
    by (subst send_loop.simps) auto
qed

lemma send_calm:
  assumes inv: "cli_inv (ce_os E) opn intr B a sk s"
  shows "\<exists>r s'. ztk_tcp_client_send E (Some a) data s = Some (r, s') \<and> calm_result opn intr s (Some s')"
proof -
  obtain c where c: "clients s a = Some c" "c_sock c = sk" "sk = None \<longrightarrow> \<not> c_connected c"
    using inv by (auto simp: cli_inv_def sock_part_def)
  have same: "calm_result opn intr s (Some (s\<lparr>nsys := y\<rparr>))"
    if "op_of opn y = op_of opn (nsys s)" "in_of intr y = in_of intr (nsys s)" for y
    using that unfolding calm_result_def by (intro exI [of _ "capp s"] exI [of _ y]) simp
  from this [of "nsys s"] have "calm_result opn intr s (Some s)" by simp
  note same = same this
  show ?thesis using c inv same send_loop_calm [of "ce_os E" opn intr B a _ s _ 0 0]
    by (cases data; cases sk) (fastforce simp: ztk_tcp_client_send_def)+
qed

lemma send_inv:
  assumes inv: "cli_inv (ce_os E) opn intr B a sk s"
  shows "\<exists>r s'. ztk_tcp_client_send E (Some a) data s = Some (r, s') \<and> cli_inv (ce_os E) opn intr B a sk s'"
  using send_calm [OF inv, of data] calm_result_inv [OF _ inv] by blast

text \<open>Destroying a client frees it and its socket, and no other client or socket.\<close>

lemma destroy_inv:
  assumes inv: "cli_inv (ce_os E) opn intr B a sk s"
  shows "\<exists>s'. ztk_tcp_client_destroy E (Some a) s = Some s' \<and> net_ok (ce_os E) opn intr B s' \<and>
     clients s' = (clients s)(a := None) \<and> socks s' = (case sk of None \<Rightarrow> socks s | Some k \<Rightarrow> (socks s)(k := None))"
proof -
  let ?s0 = "upd_client a (\<lambda>c. c\<lparr>c_closing := True\<rparr>) s"
  obtain c p where c: "clients s a = Some c" "c_sock c = sk" "sock_part (ce_os E) opn intr B client_cbs a p sk (c_connected c) s"
    using inv by (rule cli_invE)
  then have p0: "sock_part (ce_os E) opn intr B client_cbs a p sk (c_connected c) ?s0" by simp
  obtain s1 where s1: "ztk_socket_detach_poller (ce_os E) sk ?s0 = Some (ZTK_OK, s1)" "clients s1 = clients ?s0"
      "sock_part (ce_os E) opn intr B client_cbs a p sk (c_connected c) s1"
    using detach_part [OF p0] cnet_more by blast
  obtain s2 where s2: "ztk_socket_destroy (ce_os E) sk s1 = Some s2" "sock_part (ce_os E) opn intr B client_cbs a p None False s2"
      "clients s2 = clients s1"
    using destroy_part [OF s1(3)] cnet_more by blast
  obtain k' s3 where s3: "ztk_socket_create s2 = (k', s3)" by (cases "ztk_socket_create s2")
  have p3: "sock_part (ce_os E) opn intr B client_cbs a p k' False s3" "clients s3 = clients s2"
    using create_part [OF s2(2) s3] cnet_more by blast+
  let ?s4 = "upd_client a (\<lambda>c. c\<lparr>c_sock := k', c_connected := False, c_closing := False\<rparr>) s3"
  have p4: "sock_part (ce_os E) opn intr B client_cbs a p k' False ?s4" using p3(1) by simp
  obtain s5 where s5: "ztk_socket_destroy (ce_os E) k' ?s4 = Some s5" "net_ok (ce_os E) opn intr B s5" "clients s5 = clients ?s4"
    using destroy_part [OF p4] cnet_more sock_part_net_ok by blast
  have k: "socks s5 = (case sk of None \<Rightarrow> socks s | Some k \<Rightarrow> (socks s)(k := None))"
    using detach_socks [OF p0 s1(1)] destroy_socks [OF s1(3) s2(1)] create_socks [OF s3] destroy_socks [OF p4 s5(1)]
    by (cases sk; cases k') (auto simp: upd_client_def fun_eq_iff)
  have cl: "clients s2 a = Some (c\<lparr>c_closing := True\<rparr>)" using c(1) s1(2) s2(3) by simp
  have "ztk_tcp_client_destroy E (Some a) s = Some (s5\<lparr>clients := (clients s5)(a := None)\<rparr>)"
    using c(1,2) s1(1) s2(1) s3 s5(1) cl p3(2) by (simp add: ztk_tcp_client_destroy_def ztk_tcp_client_close_def)
  moreover have "(clients s5)(a := None) = (clients s)(a := None)" using s5(3) p3(2) s2(3) s1(2) by (simp add: upd_client_def)
  ultimately show ?thesis using s5(2) k by (simp add: net_ok_def)
qed

datatype client_op = ClConnect "string option" u16 | ClClose | ClSend "mem option" | ClEvent int u32

text \<open>An event is what the poller calls for the socket the client has at that time.\<close>

fun client_step :: "('f, 'w, 'x) client_env \<Rightarrow> nat \<Rightarrow> client_op \<Rightarrow> ('f, 'w, 'x) cnet \<Rightarrow> ('f, 'w, 'x) cnet option" where
  "client_step E a (ClConnect h p) s = map_option snd (ztk_tcp_client_connect E (Some a) h p s)"
| "client_step E a ClClose s = ztk_tcp_client_close E (Some a) s"
| "client_step E a (ClSend d) s = map_option snd (ztk_tcp_client_send E (Some a) d s)"
| "client_step E a (ClEvent fd ev) s = do {
     c \<leftarrow> clients s a;
     socket_poller_cb (ce_os E) (client_call E) fd ev (c_sock c) s
   }"

primrec client_run :: "('f, 'w, 'x) client_env \<Rightarrow> nat \<Rightarrow> client_op list \<Rightarrow> ('f, 'w, 'x) cnet \<Rightarrow> ('f, 'w, 'x) cnet option" where
  "client_run E a [] s = Some s"
| "client_run E a (x # xs) s = Option.bind (client_step E a x s) (client_run E a xs)"

lemma client_step_inv:
  assumes "app_calm opn intr B E" and "cli_inv (ce_os E) opn intr B a sk s"
  shows "\<exists>s' sk'. client_step E a x s = Some s' \<and> cli_inv (ce_os E) opn intr B a sk' s'"
proof (cases x)
  case (ClConnect h p)
  then show ?thesis using connect_inv [OF assms, of h p] by fastforce
next
  case ClClose
  then show ?thesis using close_inv [OF assms(2)] by simp
next
  case (ClSend d)
  then show ?thesis using send_inv [OF assms(2), of d] by fastforce
next
  case (ClEvent fd ev)
  obtain c where c: "clients s a = Some c" "c_sock c = sk" using assms(2) by (rule cli_invE)
  show ?thesis
  proof (cases sk)
    case None
    then show ?thesis using ClEvent c assms(2) by (auto simp: socket_poller_cb_def)
  next
    case (Some k)
    then show ?thesis using ClEvent c event_inv [OF assms(1), of a k s fd ev] assms(2) by auto
  qed
qed

lemma client_run_inv:
  assumes "app_calm opn intr B E" and "cli_inv (ce_os E) opn intr B a sk s"
  shows "\<exists>s' sk'. client_run E a xs s = Some s' \<and> cli_inv (ce_os E) opn intr B a sk' s'"
  using assms(2)
proof (induction xs arbitrary: s sk)
  case Nil
  then show ?case by auto
next
  case (Cons x xs)
  then show ?case using client_step_inv [OF assms(1) Cons.prems, of x] by fastforce
qed

lemma client_create_inv:
  assumes ok: "net_ok os opn intr B s" and p: "o_poller opts = Some p" "npollers s p \<noteq> None"
    and c: "ztk_tcp_client_create (Some opts) s = (Some a, s')"
  shows "\<exists>sk. cli_inv os opn intr B a sk s'"
proof -
  obtain m s1 where s1: "take_mem s = (m, s1)" by (cases "take_mem s")
  then have n1: "sock_part os opn intr B client_cbs a p None False s1"
    using ok p(2) by (auto simp: take_mem_def sock_part_def net_ok_def split: list.splits)
  obtain k s2 where s2: "ztk_socket_create s1 = (k, s2)" by (cases "ztk_socket_create s1")
  have "sock_part os opn intr B client_cbs a p k False s2" using create_part [OF n1 s2] by blast
  then show ?thesis using c p(1) s1 s2
    by (fastforce simp: ztk_tcp_client_create_def cli_inv_def sock_part_def net_ok_def split: option.splits if_splits)
qed

section \<open>Samples\<close>

text \<open>An application that sends back what it receives.\<close>

definition quiet_env :: "(nat, kern \<times> (int \<Rightarrow> int \<rightharpoonup> u32), unit) client_env" where
  "quiet_env = \<lparr>ce_os = ep_os, ce_call = (\<lambda>f a u s. Some s), ce_recv = (\<lambda>f a bs u s. Some s)\<rparr>"

definition cli_env :: "(nat, kern \<times> (int \<Rightarrow> int \<rightharpoonup> u32), unit) client_env" where
  "cli_env = quiet_env\<lparr>ce_recv := (\<lambda>f a bs u s. map_option snd (ztk_tcp_client_send quiet_env (Some a) (Some (map Some bs)) s))\<rparr>"

definition cli_net :: "(nat, kern \<times> (int \<Rightarrow> int \<rightharpoonup> u32), unit) cnet" where
  "cli_net = \<lparr>nsys = nsys net0, socks = Map.empty, npollers = [1 \<mapsto> \<lparr>epfd = 3, wake_r = 4, wake_w = 5, entries = []\<rparr>],
     sockplat_inited = False, nmem = [Some 20, Some 11, Some 12, Some 13], clients = Map.empty, capp = ()\<rparr>"

definition cli_opts :: "nat ztk_tcp_client_opts" where
  "cli_opts = \<lparr>o_poller = Some 1, o_ops = Some \<lparr>op_connect = Some 0, op_recv = Some 1, op_error = Some 2\<rparr>, o_user = None\<rparr>"

lemma cli_net_ok: "net_ok ep_os (set \<circ> k_open \<circ> fst) snd {3, 4, 5} cli_net"
  by (auto simp: net_ok_def ep_fds_ok ep_epoll_ok net_inv_def cli_net_def net0_def owned_def table_ok_def agree_at_def watch_def
      entry_ok_def split: if_splits)

lemma cli_env_calm: "app_calm opn intr B cli_env"
proof -
  have "calm_result opn intr s (Some s)" for s by (auto simp: calm_result_def intro!: exI [of _ "capp s"] exI [of _ "nsys s"])
  moreover have "calm_result opn intr s (map_option snd (ztk_tcp_client_send quiet_env (Some a) d s))"
    if "cli_inv (ce_os quiet_env) opn intr B a sk s" for a sk d s
    using send_calm [OF that, of d] by auto
  ultimately show ?thesis by (auto simp: app_calm_def cli_env_def quiet_env_def)
qed

section \<open>Properties\<close>

text \<open>
  C31. Clients are safe to use by an application whose callbacks return and do not connect, close or destroy the client or
  open or close descriptors, but may use their own state and send and receive, on the client too (\<open>app_calm\<close>). Whatever sequence of
  connecting, closing, sending and poller events a client goes through after its creation, and whatever the
  kernel and the allocator answer, every call returns without undefined behaviour, descriptors and
  registrations stay consistent, and a client that reports itself connected has a socket whose descriptor is open and
  whose connection is established, not pending. At any point of such a sequence it can be destroyed, which frees the client and its
  socket and leaves all other clients and sockets and the consistency as they are.
\<close>

theorem tcp_client_safe:
  assumes "app_calm opn intr B E" and "net_ok (ce_os E) opn intr B s0" and "o_poller opts = Some p" and "npollers s0 p \<noteq> None"
    and "ztk_tcp_client_create (Some opts) s0 = (Some a, s1)"
  shows "\<exists>s s'. client_run E a xs s1 = Some s \<and> net_ok (ce_os E) opn intr B s \<and>
     (ztk_tcp_client_is_connected (Some a) s = Some True \<longrightarrow>
       (\<exists>k so. ztk_tcp_client_socket (Some a) s = Some (Some k) \<and> socks s k = Some so \<and> 0 \<le> s_fd so \<and>
          s_type so = ZTK_SOCK_TCP_CONNECTED \<and> \<not> s_connect_pending so)) \<and>
     ztk_tcp_client_destroy E (Some a) s = Some s' \<and> net_ok (ce_os E) opn intr B s' \<and>
     clients s' = (clients s)(a := None) \<and>
     (\<exists>sk. ztk_tcp_client_socket (Some a) s = Some sk \<and> socks s' = (case sk of None \<Rightarrow> socks s | Some k \<Rightarrow> (socks s)(k := None)))"
proof -
  obtain sk where "cli_inv (ce_os E) opn intr B a sk s1" using client_create_inv [OF assms(2-5)] by blast
  from client_run_inv [OF assms(1) this] obtain s sk' where s: "client_run E a xs s1 = Some s"
    "cli_inv (ce_os E) opn intr B a sk' s" by blast
  have k: "ztk_tcp_client_socket (Some a) s = Some sk'" using s(2) by (auto simp: cli_inv_def ztk_tcp_client_socket_def)
  from destroy_inv [OF s(2)] obtain s' where s': "ztk_tcp_client_destroy E (Some a) s = Some s'" "net_ok (ce_os E) opn intr B s'"
      "clients s' = (clients s)(a := None)" "socks s' = (case sk' of None \<Rightarrow> socks s | Some k \<Rightarrow> (socks s)(k := None))"
    by blast
  have "net_ok (ce_os E) opn intr B s" "ztk_tcp_client_is_connected (Some a) s = Some True \<longrightarrow>
       (\<exists>k so. sk' = Some k \<and> socks s k = Some so \<and> 0 \<le> s_fd so \<and> s_type so = ZTK_SOCK_TCP_CONNECTED \<and> \<not> s_connect_pending so)"
    using s(2) by (cases sk'; auto simp: cli_inv_def sock_part_def owned_sock_def ztk_tcp_client_is_connected_def)+
  then show ?thesis using s(1) k s' by (intro exI [of _ s] exI [of _ s']) simp
qed

theorem tcp_client_safe_witness:
  "\<exists>s1 s s'. ztk_tcp_client_create (Some cli_opts) cli_net = (Some 20, s1) \<and>
     client_run cli_env 20 [ClConnect (Some ''host'') 80, ClEvent 6 ZTK_POLL_OUT, ClSend (Some [Some 1]), ClEvent 6 ZTK_POLL_IN, ClClose] s1 = Some s \<and>
     net_ok ep_os (set \<circ> k_open \<circ> fst) snd {3, 4, 5} s \<and> ztk_tcp_client_destroy cli_env (Some 20) s = Some s' \<and> clients s' 20 = None"
proof -
  obtain s1 where s1: "ztk_tcp_client_create (Some cli_opts) cli_net = (Some 20, s1)"
    by (simp add: ztk_tcp_client_create_def cli_opts_def cli_net_def take_mem_def ztk_socket_create_def)
  have e: "ce_os cli_env = ep_os" by (simp add: cli_env_def quiet_env_def)
  have p: "o_poller cli_opts = Some 1" "npollers cli_net 1 \<noteq> None" by (simp_all add: cli_opts_def cli_net_def)
  have "net_ok (ce_os cli_env) (set \<circ> k_open \<circ> fst) snd {3, 4, 5} cli_net" unfolding e by (rule cli_net_ok)
  from tcp_client_safe [OF cli_env_calm this p s1, of "[ClConnect (Some ''host'') 80, ClEvent 6 ZTK_POLL_OUT,
      ClSend (Some [Some 1]), ClEvent 6 ZTK_POLL_IN, ClClose]"] s1 e
  show ?thesis by auto
qed

text \<open>
  Sending on a client. A send on a connected client returns after finitely many attempts; what it
  put on the wire is a prefix of the data, following what was there before, and it reports success
  exactly when the prefix is all of it. How long the prefix is after an error the caller cannot tell.
\<close>

lemma tcp_client_send_prefix:
  assumes "sends_ok (ce_os E) wire" and "clients s a = Some c" and "c_connected c" and "\<not> c_closing c"
    and "c_sock c = Some k" and "socks s k = Some so" and "0 \<le> s_fd so" and "data \<noteq> []"
  shows "\<exists>r m y. ztk_tcp_client_send E (Some a) (Some data) s = Some (r, s\<lparr>nsys := y\<rparr>) \<and> m \<le> length data \<and>
     wire (world y) = (wire (world (nsys s)))(s_fd so := wire (world (nsys s)) (s_fd so) @ take m data) \<and>
     (r = err_code ZTK_OK \<longleftrightarrow> m = length data)"
  using send_loop_spec [OF assms(1,6,7), of 0 data 0] assms(2-5,8) by (simp add: ztk_tcp_client_send_def)

end
