(* ===== verification/Udp_Client.thy ===== *)
theory Udp_Client
  imports Socket_Frame Poller_Pool
begin

text \<open>
  UDP clients, \<^verbatim>\<open>src/net/udp_client.c\<close>, and the state they share with UDP servers: the sockets extended
  by clients, servers, pools of pollers and the application's own state. What the functions of the
  application do is a parameter. The pointer of a server's registration is the slot itself, so the
  callback \<open>Udp_slot v i\<close> carries the server and the index of the slot.
\<close>

section \<open>State\<close>

datatype udp_cb = Udp_client_on_readable | Udp_client_on_error | Udp_slot nat nat

record 'f ztk_udp_client_ops =
  uo_packet :: "'f option"
  uo_error :: "'f option"

record 'f ztk_udp_client =
  uc_sock :: "nat option"
  uc_poller :: "nat option"
  uc_ops :: "'f ztk_udp_client_ops"
  uc_user :: "nat option"
  uc_peer_host :: string
  uc_peer_port :: u16
  uc_has_peer :: bool
  uc_started :: bool
  uc_recv_buf :: bool
  uc_recv_cap :: nat

record 'f ztk_udp_client_opts =
  uco_poller :: "nat option"
  uco_ops :: "'f ztk_udp_client_ops option"
  uco_user :: "nat option"

record ztk_udp_slot =
  sl_sock :: "nat option"
  sl_poller :: "nat option"

record 'f ztk_udp_server =
  us_slots :: "ztk_udp_slot list"
  us_slot_count :: u32
  us_packet :: "'f option"
  us_user :: "nat option"
  us_host :: string
  us_port :: u16
  us_reuse_addr :: bool
  us_reuse_port :: bool
  us_shared_fd_mode :: bool
  us_started :: bool

record ('f, 'w, 'x) unet = "(udp_cb, 'w) net" +
  uclients :: "nat \<rightharpoonup> 'f ztk_udp_client"
  uservers :: "nat \<rightharpoonup> 'f ztk_udp_server"
  upools :: "nat \<rightharpoonup> ztk_poller_pool"
  uapp :: 'x

text \<open>A packet arrives with its bytes, the sender's address (\<open>None\<close>: a buffer never written) and port.\<close>

record ('f, 'w, 's) uenv =
  ue_os :: "'w os"
  ue_packet :: "'f \<Rightarrow> nat \<Rightarrow> u8 list \<Rightarrow> string option \<Rightarrow> u16 \<Rightarrow> nat option \<Rightarrow> 's \<Rightarrow> 's option"
  ue_error :: "'f \<Rightarrow> nat \<Rightarrow> nat option \<Rightarrow> 's \<Rightarrow> 's option"

type_synonym ('f, 'w, 'x) udp_env = "('f, 'w, ('f, 'w, 'x) unet) uenv"

definition upd_uc :: "nat \<Rightarrow> ('f ztk_udp_client \<Rightarrow> 'f ztk_udp_client) \<Rightarrow> ('f, 'w, 'x) unet \<Rightarrow> ('f, 'w, 'x) unet" where
  "upd_uc a f s = s\<lparr>uclients := (uclients s)(a := map_option f (uclients s a))\<rparr>"

definition ZTK_UDP_CLIENT_RECV :: nat where "ZTK_UDP_CLIENT_RECV = 65536"

section \<open>Receiving\<close>

definition udp_client_ensure_recv_buf :: "nat option \<Rightarrow> ('f, 'w, 'x) unet \<Rightarrow> (bool \<times> ('f, 'w, 'x) unet) option" where
  "udp_client_ensure_recv_buf client s =
     (case client of None \<Rightarrow> Some (False, s)
      | Some a \<Rightarrow> do {
          c \<leftarrow> uclients s a;
          if uc_recv_buf c \<and> ZTK_UDP_CLIENT_RECV \<le> uc_recv_cap c then Some (True, s)
          else let (m, s1) = take_mem s in
            if m = None then Some (False, s1)
            else Some (True, upd_uc a (\<lambda>c. c\<lparr>uc_recv_buf := True, uc_recv_cap := ZTK_UDP_CLIENT_RECV\<rparr>) s1)
        })"

text \<open>What the address buffers hold after a call that may have left them alone.\<close>

definition kept :: "'a option \<Rightarrow> 'a option \<Rightarrow> 'a option" where
  "kept old new = (case new of None \<Rightarrow> old | Some x \<Rightarrow> Some x)"

definition run_err :: "('f, 'w, 'x) udp_env \<Rightarrow> 'f option \<Rightarrow> nat \<Rightarrow> nat option \<Rightarrow> ('f, 'w, 'x) unet \<Rightarrow> ('f, 'w, 'x) unet option" where
  "run_err E f a u s = (case f of None \<Rightarrow> Some s | Some g \<Rightarrow> ue_error E g a u s)"

partial_function (option) packet_loop ::
    "('f, 'w, 'x) udp_env \<Rightarrow> nat \<Rightarrow> nat \<Rightarrow> string option \<Rightarrow> u16 \<Rightarrow> ('f, 'w, 'x) unet \<Rightarrow> ('f, 'w, 'x) unet option" where
  "packet_loop E sock a ip port s =
     Option.bind (uclients s a) (\<lambda>c.
     Option.bind (ztk_socket_recvfrom (ue_os E) (Some sock) (uc_recv_cap c) (Some 64) True s) (\<lambda>((n, bs, ip', port'), s1).
       let ip1 = kept ip ip'; port1 = the (kept (Some port) port') in
       if 0 < n then
         (case uo_packet (uc_ops c) of None \<Rightarrow> None
          | Some f \<Rightarrow> Option.bind (ue_packet E f a bs ip1 port1 (uc_user c) s1) (packet_loop E sock a ip1 port1))
       else if n = err_code ZTK_ERR_AGAIN then Some s1
       else run_err E (uo_error (uc_ops c)) a (uc_user c) s1))"

definition udp_client_on_readable ::
    "('f, 'w, 'x) udp_env \<Rightarrow> nat \<Rightarrow> nat option \<Rightarrow> ('f, 'w, 'x) unet \<Rightarrow> ('f, 'w, 'x) unet option" where
  "udp_client_on_readable E sock user s =
     (case user of None \<Rightarrow> Some s
      | Some a \<Rightarrow> do {
          c \<leftarrow> uclients s a;
          if uo_packet (uc_ops c) = None then Some s
          else do {
            (ok, s1) \<leftarrow> udp_client_ensure_recv_buf user s;
            if \<not> ok then Some s1 else packet_loop E sock a None 0 s1
          }
        })"

definition udp_client_on_error ::
    "('f, 'w, 'x) udp_env \<Rightarrow> nat \<Rightarrow> nat option \<Rightarrow> ('f, 'w, 'x) unet \<Rightarrow> ('f, 'w, 'x) unet option" where
  "udp_client_on_error E sock user s =
     (case user of None \<Rightarrow> Some s
      | Some a \<Rightarrow> do { c \<leftarrow> uclients s a; run_err E (uo_error (uc_ops c)) a (uc_user c) s })"

section \<open>Life cycle\<close>

definition ztk_udp_client_create ::
    "'f ztk_udp_client_opts option \<Rightarrow> ('f, 'w, 'x) unet \<Rightarrow> nat option \<times> ('f, 'w, 'x) unet" where
  "ztk_udp_client_create opts s =
     (case opts of None \<Rightarrow> (None, s)
      | Some o' \<Rightarrow>
        (case (uco_poller o', uco_ops o') of
           (Some p, Some ops) \<Rightarrow>
             let (m, s1) = take_mem s in
             (case m of None \<Rightarrow> (None, s1)
              | Some a \<Rightarrow>
                if uclients s1 a \<noteq> None then (None, s1)
                else case ztk_socket_create s1 of
                  (None, s2) \<Rightarrow> (None, s2)
                | (Some k, s2) \<Rightarrow>
                    (Some a, s2\<lparr>uclients := (uclients s2)(a \<mapsto>
                       \<lparr>uc_sock = Some k, uc_poller = Some p, uc_ops = ops, uc_user = uco_user o', uc_peer_host = [],
                        uc_peer_port = 0, uc_has_peer = False, uc_started = False, uc_recv_buf = False, uc_recv_cap = 0\<rparr>)\<rparr>))
         | _ \<Rightarrow> (None, s)))"

definition ztk_udp_client_destroy ::
    "('f, 'w, 'x) udp_env \<Rightarrow> nat option \<Rightarrow> ('f, 'w, 'x) unet \<Rightarrow> ('f, 'w, 'x) unet option" where
  "ztk_udp_client_destroy E client s =
     (case client of None \<Rightarrow> Some s
      | Some a \<Rightarrow> do {
          c \<leftarrow> uclients s a;
          s1 \<leftarrow> (if uc_started c then map_option snd (ztk_socket_detach_poller (ue_os E) (uc_sock c) s) else Some s);
          s2 \<leftarrow> ztk_socket_destroy (ue_os E) (uc_sock c) s1;
          Some (s2\<lparr>uclients := (uclients s2)(a := None)\<rparr>)
        })"

definition udp_cbs :: "udp_cb socket_cbs" where
  "udp_cbs = \<lparr>on_readable = Some Udp_client_on_readable, on_writable = None, on_error = Some Udp_client_on_error\<rparr>"

definition udp_client_bind_and_attach ::
    "('f, 'w, 'x) udp_env \<Rightarrow> nat option \<Rightarrow> string option \<Rightarrow> u16 \<Rightarrow> bool \<Rightarrow> ('f, 'w, 'x) unet \<Rightarrow>
     (ztk_err \<times> ('f, 'w, 'x) unet) option" where
  "udp_client_bind_and_attach E client local_host local_port reuse s =
     (case client of None \<Rightarrow> Some (ZTK_ERR_INVALID, s)
      | Some a \<Rightarrow> do {
          c \<leftarrow> uclients s a;
          s1 \<leftarrow> (if uc_started c then map_option snd (ztk_socket_detach_poller (ue_os E) (uc_sock c) s) else Some s);
          (err, s2) \<leftarrow> ztk_socket_bind_udp (ue_os E) (uc_sock c) local_host local_port reuse s1;
          if err \<noteq> ZTK_OK then Some (err, s2)
          else do {
            (err, s3) \<leftarrow> ztk_socket_attach_poller (ue_os E) (uc_sock c) (uc_poller c) (Some udp_cbs) (Some a) s2;
            if err \<noteq> ZTK_OK then Some (err, s3)
            else Some (ZTK_OK, upd_uc a (\<lambda>c. c\<lparr>uc_started := True\<rparr>) s3)
          }
        })"

definition ztk_udp_client_bind ::
    "('f, 'w, 'x) udp_env \<Rightarrow> nat option \<Rightarrow> string option \<Rightarrow> u16 \<Rightarrow> bool \<Rightarrow> ('f, 'w, 'x) unet \<Rightarrow>
     (ztk_err \<times> ('f, 'w, 'x) unet) option" where
  "ztk_udp_client_bind E client local_host local_port reuse s =
     (case client of None \<Rightarrow> Some (ZTK_ERR_INVALID, s)
      | Some a \<Rightarrow> do {
          _ \<leftarrow> uclients s a;
          udp_client_bind_and_attach E client local_host local_port reuse
            (upd_uc a (\<lambda>c. c\<lparr>uc_has_peer := False, uc_peer_host := [], uc_peer_port := 0\<rparr>) s)
        })"

text \<open>\<^verbatim>\<open>snprintf\<close> keeps at most 63 characters of the host in the array of 64.\<close>

definition ztk_udp_client_set_peer :: "nat option \<Rightarrow> string option \<Rightarrow> u16 \<Rightarrow> ('f, 'w, 'x) unet \<Rightarrow> ('f, 'w, 'x) unet option" where
  "ztk_udp_client_set_peer client peer_host peer_port s =
     (case (client, peer_host) of
        (Some a, Some h) \<Rightarrow>
          if h = [] then Some s
          else do {
            _ \<leftarrow> uclients s a;
            Some (upd_uc a (\<lambda>c. c\<lparr>uc_peer_host := take 63 h, uc_peer_port := peer_port, uc_has_peer := True\<rparr>) s)
          }
      | _ \<Rightarrow> Some s)"

definition ztk_udp_client_start ::
    "('f, 'w, 'x) udp_env \<Rightarrow> nat option \<Rightarrow> string option \<Rightarrow> u16 \<Rightarrow> string option \<Rightarrow> u16 \<Rightarrow> bool \<Rightarrow> ('f, 'w, 'x) unet \<Rightarrow>
     (ztk_err \<times> ('f, 'w, 'x) unet) option" where
  "ztk_udp_client_start E client peer_host peer_port local_host local_port reuse s =
     (if client = None \<or> peer_host = None then Some (ZTK_ERR_INVALID, s)
      else do {
        (err, s1) \<leftarrow> udp_client_bind_and_attach E client local_host local_port reuse s;
        if err \<noteq> ZTK_OK then Some (err, s1)
        else do { s2 \<leftarrow> ztk_udp_client_set_peer client peer_host peer_port s1; Some (ZTK_OK, s2) }
      })"

definition ztk_udp_client_sendto ::
    "('f, 'w, 'x) udp_env \<Rightarrow> nat option \<Rightarrow> mem \<Rightarrow> string option \<Rightarrow> u16 \<Rightarrow> ('f, 'w, 'x) unet \<Rightarrow>
     (int \<times> ('f, 'w, 'x) unet) option" where
  "ztk_udp_client_sendto E client data ip port s =
     (case client of None \<Rightarrow> Some (err_code ZTK_ERR_STATE, s)
      | Some a \<Rightarrow> do {
          c \<leftarrow> uclients s a;
          if \<not> uc_started c \<or> ip = None then Some (err_code ZTK_ERR_STATE, s)
          else do {
            (n, s1) \<leftarrow> ztk_socket_sendto (ue_os E) (uc_sock c) data ip port s;
            Some (if n < 0 then n else err_code ZTK_OK, s1)
          }
        })"

definition ztk_udp_client_send ::
    "('f, 'w, 'x) udp_env \<Rightarrow> nat option \<Rightarrow> mem \<Rightarrow> ('f, 'w, 'x) unet \<Rightarrow> (int \<times> ('f, 'w, 'x) unet) option" where
  "ztk_udp_client_send E client data s =
     (case client of None \<Rightarrow> Some (err_code ZTK_ERR_STATE, s)
      | Some a \<Rightarrow> do {
          c \<leftarrow> uclients s a;
          if \<not> uc_has_peer c then Some (err_code ZTK_ERR_STATE, s)
          else ztk_udp_client_sendto E client data (Some (uc_peer_host c)) (uc_peer_port c) s
        })"

definition ztk_udp_client_local_port ::
    "('f, 'w, 'x) udp_env \<Rightarrow> nat option \<Rightarrow> ('f, 'w, 'x) unet \<Rightarrow> (u16 \<times> ('f, 'w, 'x) unet) option" where
  "ztk_udp_client_local_port E client s =
     (case client of None \<Rightarrow> Some (0, s)
      | Some a \<Rightarrow> do {
          c \<leftarrow> uclients s a;
          if \<not> uc_started c then Some (0, s)
          else do {
            ((_, _, port), s1) \<leftarrow> ztk_socket_get_local (ue_os E) (uc_sock c) None True s;
            Some (the (kept (Some 0) port), s1)
          }
        })"

end
