(* ===== verification/Udp_Server.thy ===== *)
theory Udp_Server
  imports Udp_Client
begin

text \<open>
  UDP servers, \<^verbatim>\<open>src/net/udp_server.c\<close>: one slot with a socket and a poller for each poller of a pool,
  bound to one port with \<^verbatim>\<open>SO_REUSEPORT\<close>, or, where that option is not available, one socket
  registered with every poller. Whether the option is available to this file is a matter of the
  headers it includes and an argument here (\<open>reuseport\<close>).
\<close>

section \<open>Receiving\<close>

definition ZTK_UDP_RECV :: nat where "ZTK_UDP_RECV = 65536"

definition upd_us :: "nat \<Rightarrow> ('f ztk_udp_server \<Rightarrow> 'f ztk_udp_server) \<Rightarrow> ('f, 'w, 'x) unet \<Rightarrow> ('f, 'w, 'x) unet" where
  "upd_us v f s = s\<lparr>uservers := (uservers s)(v := map_option f (uservers s v))\<rparr>"

definition slot_at :: "'f ztk_udp_server \<Rightarrow> nat \<Rightarrow> ztk_udp_slot option" where
  "slot_at sv i = (if i < length (us_slots sv) then Some (us_slots sv ! i) else None)"

partial_function (option) server_loop ::
    "('f, 'w, 'x) udp_env \<Rightarrow> nat option \<Rightarrow> nat \<Rightarrow> string option \<Rightarrow> u16 \<Rightarrow> ('f, 'w, 'x) unet \<Rightarrow> ('f, 'w, 'x) unet option" where
  "server_loop E sock v ip port s =
     Option.bind (ztk_socket_recvfrom (ue_os E) sock ZTK_UDP_RECV (Some 64) True s) (\<lambda>((n, bs, ip', port'), s1).
       let ip1 = kept ip ip'; port1 = the (kept (Some port) port') in
       if 0 < n then
         Option.bind (uservers s1 v) (\<lambda>sv.
           case us_packet sv of None \<Rightarrow> None
           | Some f \<Rightarrow> Option.bind (ue_packet E f v bs ip1 port1 (us_user sv) s1) (server_loop E sock v ip1 port1))
       else Some s1)"

definition udp_on_readable ::
    "('f, 'w, 'x) udp_env \<Rightarrow> int \<Rightarrow> nat \<Rightarrow> nat \<Rightarrow> ('f, 'w, 'x) unet \<Rightarrow> ('f, 'w, 'x) unet option" where
  "udp_on_readable E fd v i s = do {
     sv \<leftarrow> uservers s v;
     slot \<leftarrow> slot_at sv i;
     if sl_sock slot = None then Some s
     else do {
       f \<leftarrow> ztk_socket_fd (sl_sock slot) s;
       if f \<noteq> fd then Some s
       else if us_packet sv = None then Some s
       else do {
         slot0 \<leftarrow> slot_at sv 0;
         server_loop E (if us_shared_fd_mode sv then sl_sock slot0 else sl_sock slot) v None 0 s
       }
     }
   }"

section \<open>Creation and destruction\<close>

record 'f ztk_udp_server_opts =
  uso_host :: "string option"
  uso_port :: u16
  uso_reuse :: bool
  uso_reuse_port :: bool
  uso_poller :: "nat option"
  uso_poller_pool :: "nat option"
  uso_ops :: "'f option option"
  uso_user :: "nat option"

definition resolve_poller :: "'f ztk_udp_server_opts \<Rightarrow> u32 \<Rightarrow> ('f, 'w, 'x) unet \<Rightarrow> nat option option" where
  "resolve_poller o' index s =
     (case uso_poller_pool o' of
        Some q \<Rightarrow> map_option (\<lambda>pl. ztk_poller_pool_at (Some pl) index) (upools s q)
      | None \<Rightarrow> Some (if uso_poller o' \<noteq> None \<and> index = 0 then uso_poller o' else None))"

definition resolve_poller_count :: "'f ztk_udp_server_opts \<Rightarrow> ('f, 'w, 'x) unet \<Rightarrow> u32 option" where
  "resolve_poller_count o' s =
     (case uso_poller_pool o' of
        Some q \<Rightarrow> map_option (\<lambda>pl. ztk_poller_pool_size (Some pl)) (upools s q)
      | None \<Rightarrow> Some (if uso_poller o' \<noteq> None then 1 else 0))"

definition udp_events :: u32 where "udp_events = ZTK_POLL_IN OR ZTK_POLL_ERR OR ZTK_POLL_HUP"

text \<open>The two loops of \<^verbatim>\<open>stop\<close>: every poller forgets the shared descriptor, or that of its own socket.\<close>

fun stop_shared :: "'w os \<Rightarrow> int \<Rightarrow> ztk_udp_slot list \<Rightarrow> ('k, 'w, 'z) net_scheme \<Rightarrow> ('k, 'w, 'z) net_scheme option" where
  "stop_shared os fd [] s = Some s"
| "stop_shared os fd (sl # sls) s = do {
     s1 \<leftarrow> (if sl_poller sl \<noteq> None then map_option snd (poller_del_at os (sl_poller sl) fd s) else Some s);
     stop_shared os fd sls s1
   }"

fun stop_slots :: "'w os \<Rightarrow> ztk_udp_slot list \<Rightarrow> ('k, 'w, 'z) net_scheme \<Rightarrow> ('k, 'w, 'z) net_scheme option" where
  "stop_slots os [] s = Some s"
| "stop_slots os (sl # sls) s = do {
     s1 \<leftarrow> (if sl_sock sl \<noteq> None \<and> sl_poller sl \<noteq> None then do {
              fd \<leftarrow> ztk_socket_fd (sl_sock sl) s;
              map_option snd (poller_del_at os (sl_poller sl) fd s)
            } else Some s);
     stop_slots os sls s1
   }"

definition ztk_udp_server_stop ::
    "('f, 'w, 'x) udp_env \<Rightarrow> nat option \<Rightarrow> ('f, 'w, 'x) unet \<Rightarrow> ('f, 'w, 'x) unet option" where
  "ztk_udp_server_stop E srv s =
     (case srv of None \<Rightarrow> Some s
      | Some v \<Rightarrow> do {
          sv \<leftarrow> uservers s v;
          if \<not> us_started sv then Some s
          else do {
            s1 \<leftarrow> (if us_shared_fd_mode sv then do {
                     slot0 \<leftarrow> slot_at sv 0;
                     fd \<leftarrow> ztk_socket_fd (sl_sock slot0) s;
                     stop_shared (ue_os E) fd (us_slots sv) s
                   } else stop_slots (ue_os E) (us_slots sv) s);
            Some (upd_us v (\<lambda>sv. sv\<lparr>us_started := False, us_shared_fd_mode := False\<rparr>) s1)
          }
        })"

fun destroy_slots :: "'w os \<Rightarrow> ztk_udp_slot list \<Rightarrow> ('k, 'w, 'z) net_scheme \<Rightarrow> ('k, 'w, 'z) net_scheme option" where
  "destroy_slots os [] s = Some s"
| "destroy_slots os (sl # sls) s = do {
     s1 \<leftarrow> (if sl_sock sl \<noteq> None then ztk_socket_destroy os (sl_sock sl) s else Some s);
     destroy_slots os sls s1
   }"

definition ztk_udp_server_destroy ::
    "('f, 'w, 'x) udp_env \<Rightarrow> nat option \<Rightarrow> ('f, 'w, 'x) unet \<Rightarrow> ('f, 'w, 'x) unet option" where
  "ztk_udp_server_destroy E srv s =
     (case srv of None \<Rightarrow> Some s
      | Some v \<Rightarrow> do {
          s1 \<leftarrow> ztk_udp_server_stop E (Some v) s;
          sv \<leftarrow> uservers s1 v;
          s2 \<leftarrow> destroy_slots (ue_os E) (us_slots sv) s1;
          Some (s2\<lparr>uservers := (uservers s2)(v := None)\<rparr>)
        })"

text \<open>The loop of \<^verbatim>\<open>create\<close> over the slots from index \<open>i\<close>, \<open>k\<close> of them; the result says whether all were made.\<close>

fun create_slots ::
    "'f ztk_udp_server_opts \<Rightarrow> nat \<Rightarrow> nat \<Rightarrow> nat \<Rightarrow> ('f, 'w, 'x) unet \<Rightarrow> (bool \<times> ('f, 'w, 'x) unet) option" where
  "create_slots o' v i 0 s = Some (True, s)"
| "create_slots o' v i (Suc k) s = do {
     p \<leftarrow> resolve_poller o' (of_nat i) s;
     let (sk, s1) = ztk_socket_create s;
     let s2 = upd_us v (\<lambda>sv. sv\<lparr>us_slots := (us_slots sv)[i := \<lparr>sl_sock = sk, sl_poller = p\<rparr>]\<rparr>) s1;
     if p = None \<or> sk = None then Some (False, s2) else create_slots o' v (i + 1) k s2
   }"

definition no_udp_slot :: ztk_udp_slot where
  "no_udp_slot = \<lparr>sl_sock = None, sl_poller = None\<rparr>"

definition ztk_udp_server_create ::
    "('f, 'w, 'x) udp_env \<Rightarrow> 'f ztk_udp_server_opts option \<Rightarrow> ('f, 'w, 'x) unet \<Rightarrow>
     (nat option \<times> ('f, 'w, 'x) unet) option" where
  "ztk_udp_server_create E opts s =
     (case opts of None \<Rightarrow> Some (None, s)
      | Some o' \<Rightarrow>
        (case uso_ops o' of None \<Rightarrow> Some (None, s)
         | Some pkt \<Rightarrow> do {
             n \<leftarrow> resolve_poller_count o' s;
             if n = 0 then Some (None, s)
             else let (m, s1) = take_mem s in
               case m of None \<Rightarrow> Some (None, s1)
               | Some v \<Rightarrow>
                 if uservers s1 v \<noteq> None then Some (None, s1)
                 else let (m2, s2) = take_mem s1 in
                   if m2 = None then Some (None, s2)
                   else do {
                     (ok, s3) \<leftarrow> create_slots o' v 0 (unat n) (s2\<lparr>uservers := (uservers s2)(v \<mapsto>
                        \<lparr>us_slots = replicate (unat n) no_udp_slot, us_slot_count = n, us_packet = None, us_user = None,
                         us_host = [], us_port = 0, us_reuse_addr = False, us_reuse_port = False,
                         us_shared_fd_mode = False, us_started = False\<rparr>)\<rparr>);
                     if \<not> ok then do { s4 \<leftarrow> ztk_udp_server_destroy E (Some v) s3; Some (None, s4) }
                     else Some (Some v, upd_us v (\<lambda>sv. sv\<lparr>us_packet := pkt, us_user := uso_user o',
                        us_reuse_addr := (1 < n \<or> uso_reuse o'), us_reuse_port := (1 < n \<or> uso_reuse_port o'),
                        us_host := (case uso_host o' of None \<Rightarrow> [] | Some h \<Rightarrow> take 63 h), us_port := uso_port o'\<rparr>) s3)
                   }
           }))"

section \<open>Starting\<close>

definition udp_server_register_slot ::
    "('f, 'w, 'x) udp_env \<Rightarrow> nat \<Rightarrow> nat \<Rightarrow> ztk_udp_slot \<Rightarrow> ('f, 'w, 'x) unet \<Rightarrow> (ztk_err \<times> ('f, 'w, 'x) unet) option" where
  "udp_server_register_slot E v i slot s = do {
     fd \<leftarrow> ztk_socket_fd (sl_sock slot) s;
     poller_add_at (ue_os E) (sl_poller slot) fd udp_events (Some (Fd_cb (Udp_slot v i) None)) s
   }"

text \<open>The port that was bound, read back from the socket; 0 when that fails.\<close>

definition read_port ::
    "('f, 'w, 'x) udp_env \<Rightarrow> nat \<Rightarrow> nat option \<Rightarrow> ('f, 'w, 'x) unet \<Rightarrow> ('f, 'w, 'x) unet option" where
  "read_port E v sock s = do {
     ((err, _, port), s1) \<leftarrow> ztk_socket_get_local (ue_os E) sock None True s;
     Some (if err \<noteq> ZTK_OK then upd_us v (\<lambda>sv. sv\<lparr>us_port := 0\<rparr>) s1
           else upd_us v (\<lambda>sv. sv\<lparr>us_port := the (kept (Some (us_port sv)) port)\<rparr>) s1)
   }"

text \<open>\<^verbatim>\<open>stop\<close> after a failure: the server is not marked as started yet.\<close>

definition fail_start ::
    "('f, 'w, 'x) udp_env \<Rightarrow> nat \<Rightarrow> ztk_err \<Rightarrow> ('f, 'w, 'x) unet \<Rightarrow> (ztk_err \<times> ('f, 'w, 'x) unet) option" where
  "fail_start E v err s = map_option (Pair err) (ztk_udp_server_stop E (Some v) s)"

fun share_slots ::
    "('f, 'w, 'x) udp_env \<Rightarrow> nat \<Rightarrow> int \<Rightarrow> nat \<Rightarrow> ztk_udp_slot list \<Rightarrow> ('f, 'w, 'x) unet \<Rightarrow>
     (ztk_err \<times> ('f, 'w, 'x) unet) option" where
  "share_slots E v fd i [] s = Some (ZTK_OK, s)"
| "share_slots E v fd i (sl # sls) s = do {
     (err, s1) \<leftarrow> poller_add_at (ue_os E) (sl_poller sl) fd udp_events (Some (Fd_cb (Udp_slot v i) None)) s;
     if err \<noteq> ZTK_OK then fail_start E v err s1 else share_slots E v fd (i + 1) sls s1
   }"

fun bind_slots ::
    "('f, 'w, 'x) udp_env \<Rightarrow> nat \<Rightarrow> string option \<Rightarrow> nat \<Rightarrow> ztk_udp_slot list \<Rightarrow> ('f, 'w, 'x) unet \<Rightarrow>
     (ztk_err \<times> ('f, 'w, 'x) unet) option" where
  "bind_slots E v host i [] s = Some (ZTK_OK, s)"
| "bind_slots E v host i (sl # sls) s = do {
     sv \<leftarrow> uservers s v;
     (err, s1) \<leftarrow> ztk_socket_bind_udp_ex (ue_os E) (sl_sock sl) host (us_port sv) (us_reuse_addr sv) (us_reuse_port sv) s;
     if err \<noteq> ZTK_OK then fail_start E v err s1
     else do {
       s2 \<leftarrow> (if i = 0 then read_port E v (sl_sock sl) s1 else Some s1);
       (err, s3) \<leftarrow> udp_server_register_slot E v i sl s2;
       if err \<noteq> ZTK_OK then fail_start E v err s3 else bind_slots E v host (i + 1) sls s3
     }
   }"

definition ztk_udp_server_start ::
    "bool \<Rightarrow> ('f, 'w, 'x) udp_env \<Rightarrow> nat option \<Rightarrow> ('f, 'w, 'x) unet \<Rightarrow> (ztk_err \<times> ('f, 'w, 'x) unet) option" where
  "ztk_udp_server_start reuseport E srv s =
     (case srv of None \<Rightarrow> Some (ZTK_ERR_INVALID, s)
      | Some v \<Rightarrow> do {
          sv \<leftarrow> uservers s v;
          if us_started sv then Some (ZTK_OK, s)
          else do {
            let host = (if us_host sv = [] then None else Some (us_host sv));
            let shared = (1 < us_slot_count sv \<and> us_reuse_port sv \<and> \<not> reuseport);
            let s0 = upd_us v (\<lambda>sv. sv\<lparr>us_shared_fd_mode := shared\<rparr>) s;
            (err, s3) \<leftarrow>
              (if shared then do {
                 slot0 \<leftarrow> slot_at sv 0;
                 (err, s1) \<leftarrow> ztk_socket_bind_udp_ex (ue_os E) (sl_sock slot0) host (us_port sv) (us_reuse_addr sv) False s0;
                 if err \<noteq> ZTK_OK then Some (err, s1)
                 else do {
                   s2 \<leftarrow> read_port E v (sl_sock slot0) s1;
                   fd \<leftarrow> ztk_socket_fd (sl_sock slot0) s2;
                   share_slots E v fd 0 (us_slots sv) s2
                 }
               } else bind_slots E v host 0 (us_slots sv) s0);
            if err \<noteq> ZTK_OK then Some (err, s3)
            else Some (ZTK_OK, upd_us v (\<lambda>sv. sv\<lparr>us_started := True\<rparr>) s3)
          }
        })"

definition ztk_udp_server_port :: "nat option \<Rightarrow> ('f, 'w, 'x) unet \<Rightarrow> u16 option" where
  "ztk_udp_server_port srv s = (case srv of None \<Rightarrow> Some 0 | Some v \<Rightarrow> map_option us_port (uservers s v))"

definition ztk_udp_server_poller_count :: "nat option \<Rightarrow> ('f, 'w, 'x) unet \<Rightarrow> u32 option" where
  "ztk_udp_server_poller_count srv s = (case srv of None \<Rightarrow> Some 0 | Some v \<Rightarrow> map_option us_slot_count (uservers s v))"

definition ztk_udp_server_poller :: "nat option \<Rightarrow> u32 \<Rightarrow> ('f, 'w, 'x) unet \<Rightarrow> nat option option" where
  "ztk_udp_server_poller srv index s =
     (case srv of None \<Rightarrow> Some None
      | Some v \<Rightarrow> do {
          sv \<leftarrow> uservers s v;
          if us_slot_count sv \<le> index then Some None else map_option sl_poller (slot_at sv (unat index))
        })"

definition ztk_udp_server_sendto ::
    "('f, 'w, 'x) udp_env \<Rightarrow> nat option \<Rightarrow> string option \<Rightarrow> u16 \<Rightarrow> mem \<Rightarrow> ('f, 'w, 'x) unet \<Rightarrow>
     (int \<times> ('f, 'w, 'x) unet) option" where
  "ztk_udp_server_sendto E srv ip port data s =
     (case srv of None \<Rightarrow> Some (err_code ZTK_ERR_STATE, s)
      | Some v \<Rightarrow> do {
          sv \<leftarrow> uservers s v;
          if \<not> us_started sv \<or> ip = None \<or> us_slot_count sv = 0 then Some (err_code ZTK_ERR_STATE, s)
          else do {
            slot0 \<leftarrow> slot_at sv 0;
            (n, s1) \<leftarrow> ztk_socket_sendto (ue_os E) (sl_sock slot0) data ip port s;
            Some (if n < 0 then n else err_code ZTK_OK, s1)
          }
        })"

section \<open>Datagrams reach the application\<close>

text \<open>
  What the kernel promises of a bound descriptor: its datagrams wait in a queue, \<^verbatim>\<open>recvfrom\<close> takes the
  first one, cut to the size of the buffer, and reports \<^verbatim>\<open>EAGAIN\<close> when there is none.
\<close>

type_synonym dgram = "u8 list \<times> saddr"

definition dgrams_ok :: "'w os \<Rightarrow> ('w \<Rightarrow> int \<Rightarrow> dgram list) \<Rightarrow> bool" where
  "dgrams_ok os dq \<longleftrightarrow> (\<forall>fd n w. case os (Sys_recvfrom fd n) w of (r, w') \<Rightarrow>
     (case dq w fd of
        [] \<Rightarrow> ret r < 0 \<and> res_errno r = EAGAIN \<and> dq w' = dq w
      | (bs, ad) # ds \<Rightarrow> ret r = int (length (take n bs)) \<and> res_bytes r = take n bs \<and> res_addr r = ad \<and>
          dq w' = (dq w)(fd := ds)))"

text \<open>What the application gets: the address and port buffers keep their contents when a conversion fails.\<close>

fun delivered :: "string option \<Rightarrow> u16 \<Rightarrow> dgram list \<Rightarrow> (u8 list \<times> string option \<times> u16) list" where
  "delivered ip port [] = []"
| "delivered ip port ((bs, ad) # ds) =
     (let (ip', port') = snd (addr_to_string ad (Some 64) True); ip1 = kept ip ip'; port1 = the (kept (Some port) port')
      in (take ZTK_UDP_RECV bs, ip1, port1) # delivered ip1 port1 ds)"

definition records :: "('f, 'w, (u8 list \<times> string option \<times> u16) list) udp_env \<Rightarrow> 'f \<Rightarrow> bool" where
  "records E f \<longleftrightarrow> (\<forall>v bs ip port u s. ue_packet E f v bs ip port u s = Some (s\<lparr>uapp := uapp s @ [(bs, ip, port)]\<rparr>))"

lemma recvfrom_dgram:
  assumes os: "dgrams_ok os dq" and k: "socks s k = Some so" "s_type so = ZTK_SOCK_UDP"
  shows "\<exists>n bs ip port y. ztk_socket_recvfrom os (Some k) len (Some 64) True s = Some ((n, bs, ip, port), s\<lparr>nsys := y\<rparr>) \<and>
     (case dq (world (nsys s)) (s_fd so) of
        [] \<Rightarrow> n = err_code ZTK_ERR_AGAIN \<and> dq (world y) = dq (world (nsys s))
      | (b, ad) # ds \<Rightarrow> n = int (length (take len b)) \<and> bs = take len b \<and> (ip, port) = snd (addr_to_string ad (Some 64) True) \<and>
          dq (world y) = (dq (world (nsys s)))(s_fd so := ds))"
proof -
  obtain r w' where r: "os (Sys_recvfrom (s_fd so) len) (world (nsys s)) = (r, w')" by fastforce
  have d: "case dq (world (nsys s)) (s_fd so) of
        [] \<Rightarrow> ret r < 0 \<and> res_errno r = EAGAIN \<and> dq w' = dq (world (nsys s))
      | (bs, ad) # ds \<Rightarrow> ret r = int (length (take len bs)) \<and> res_bytes r = take len bs \<and> res_addr r = ad \<and>
          dq w' = (dq (world (nsys s)))(s_fd so := ds)"
    using spec [OF spec [OF spec [OF os [unfolded dgrams_ok_def], of "s_fd so"], of len], of "world (nsys s)"] r by simp
  show ?thesis
  proof (cases "dq (world (nsys s)) (s_fd so)")
    case Nil
    let ?y = "\<lparr>errno = EAGAIN, world = w'\<rparr>"
    have "ztk_socket_recvfrom os (Some k) len (Some 64) True s = Some ((err_code ZTK_ERR_AGAIN, [], None, None), s\<lparr>nsys := ?y\<rparr>)"
      using Nil d r k by (simp add: ztk_socket_recvfrom_def ztk_sockplat_recvfrom_def sysc_def map_errno_def)
    moreover have "dq (world ?y) = dq (world (nsys s))" using Nil d by simp
    ultimately show ?thesis unfolding Nil by fastforce
  next
    case (Cons p ds)
    obtain b ad where p: "p = (b, ad)" by (cases p)
    let ?y = "\<lparr>errno = errno (nsys s), world = w'\<rparr>"
    have "ztk_socket_recvfrom os (Some k) len (Some 64) True s =
        Some ((int (length (take len b)), take len b, snd (addr_to_string ad (Some 64) True)), s\<lparr>nsys := ?y\<rparr>)"
      using Cons p d r k by (simp add: ztk_socket_recvfrom_def ztk_sockplat_recvfrom_def sysc_def)
    moreover have "dq (world ?y) = (dq (world (nsys s)))(s_fd so := ds)" using Cons p d by simp
    ultimately show ?thesis unfolding Cons p
      by (intro exI [of _ "int (length (take len b))"] exI [of _ "take len b"]
          exI [of _ "fst (snd (addr_to_string ad (Some 64) True))"] exI [of _ "snd (snd (addr_to_string ad (Some 64) True))"]
          exI [of _ ?y]) simp
  qed
qed

lemma server_loop_delivers:
  assumes os: "dgrams_ok (ue_os E) dq" and rec: "records E f"
    and "socks s k = Some so" and "s_type so = ZTK_SOCK_UDP" and "uservers s v = Some sv" and "us_packet sv = Some f"
    and "dq (world (nsys s)) (s_fd so) = ds"
  shows "\<exists>y. server_loop E (Some k) v ip port s =
       Some (s\<lparr>nsys := y, uapp := uapp s @ delivered ip port (takeWhile (\<lambda>(bs, _). bs \<noteq> []) ds)\<rparr>) \<and>
     dq (world y) = (dq (world (nsys s)))(s_fd so := tl (dropWhile (\<lambda>(bs, _). bs \<noteq> []) ds))"
  using assms(3-)
proof (induction ds arbitrary: ip port s)
  case Nil
  obtain n bs ip' port' y where "ztk_socket_recvfrom (ue_os E) (Some k) ZTK_UDP_RECV (Some 64) True s =
      Some ((n, bs, ip', port'), s\<lparr>nsys := y\<rparr>)" "n = err_code ZTK_ERR_AGAIN" "dq (world y) = dq (world (nsys s))"
    using recvfrom_dgram [OF os Nil.prems(1,2), of ZTK_UDP_RECV] Nil.prems(5) by auto
  then show ?case using Nil.prems(5) by (auto simp: server_loop.simps [of E "Some k"] intro!: exI [of _ y])
next
  case (Cons d ds)
  obtain b ad where d: "d = (b, ad)" by (cases d)
  obtain n bs ip' port' y where y: "ztk_socket_recvfrom (ue_os E) (Some k) ZTK_UDP_RECV (Some 64) True s =
      Some ((n, bs, ip', port'), s\<lparr>nsys := y\<rparr>)" "n = int (length (take ZTK_UDP_RECV b))" "bs = take ZTK_UDP_RECV b"
      "(ip', port') = snd (addr_to_string ad (Some 64) True)" "dq (world y) = (dq (world (nsys s)))(s_fd so := ds)"
    using recvfrom_dgram [OF os Cons.prems(1,2), of ZTK_UDP_RECV] Cons.prems(5) d by auto
  show ?case
  proof (cases "b = []")
    case True
    then show ?thesis using y d by (auto simp: server_loop.simps [of E "Some k"] intro!: exI [of _ y])
  next
    case False
    let ?ip = "kept ip ip'" and ?port = "the (kept (Some port) port')"
    let ?s = "s\<lparr>nsys := y, uapp := uapp s @ [(bs, ?ip, ?port)]\<rparr>"
    have n: "0 < n" using False y(2) by (simp add: ZTK_UDP_RECV_def)
    have "server_loop E (Some k) v ip port s = server_loop E (Some k) v ?ip ?port ?s"
      using y(1) n Cons.prems(3,4) rec by (simp add: server_loop.simps [of E "Some k" v ip port s] records_def Let_def)
    moreover have "socks ?s k = Some so" "uservers ?s v = Some sv" "dq (world (nsys ?s)) (s_fd so) = ds"
      using Cons.prems y(5) by simp_all
    from Cons.IH [OF this(1) Cons.prems(2) this(2) Cons.prems(4) this(3), of ?ip ?port]
    obtain y' where "server_loop E (Some k) v ?ip ?port ?s =
        Some (?s\<lparr>nsys := y', uapp := uapp ?s @ delivered ?ip ?port (takeWhile (\<lambda>(bs, _). bs \<noteq> []) ds)\<rparr>)"
      "dq (world y') = (dq (world (nsys ?s)))(s_fd so := tl (dropWhile (\<lambda>(bs, _). bs \<noteq> []) ds))" by blast
    ultimately show ?thesis using d False y(3-5)
      by (intro exI [of _ y']) (simp add: Let_def split_def flip: y(4))
  qed
qed

section \<open>One descriptor for all pollers\<close>

lemma unet_more: "net.more s' = net.more s \<Longrightarrow> uservers s' = uservers s \<and> uclients s' = uclients s \<and> uapp s' = uapp s"
  by (cases s, cases s') simp

text \<open>The part of a server that starting it does not change.\<close>

definition same_slots :: "nat \<Rightarrow> ('f, 'w, 'x) unet \<Rightarrow> ('f, 'w, 'x) unet \<Rightarrow> bool" where
  "same_slots v s s' \<longleftrightarrow> (\<forall>sv. uservers s v = Some sv \<longrightarrow> (\<exists>sv'. uservers s' v = Some sv' \<and>
     us_slots sv' = us_slots sv \<and> us_shared_fd_mode sv' = us_shared_fd_mode sv \<and> us_started sv' = us_started sv))"

lemma same_slots_more: "net.more s' = net.more s \<Longrightarrow> same_slots v s s'"
  using unet_more [of s' s] by (simp add: same_slots_def)

lemma same_slots_trans: "same_slots v s s1 \<Longrightarrow> same_slots v s1 s2 \<Longrightarrow> same_slots v s s2"
  by (fastforce simp: same_slots_def)

lemma read_port_keeps:
  assumes "read_port E v k s = Some s'"
  shows "same_slots v s s'" and "socks s' = socks s"
  using assms
  by (auto simp: read_port_def ztk_socket_get_local_def bind_eq_Some_conv same_slots_def upd_us_def Let_def split_def
      split: option.splits if_splits)

lemma share_slots_keeps:
  assumes "share_slots E v fd i sls s = Some (ZTK_OK, s')"
  shows "same_slots v s s' \<and> socks s' = socks s"
  using assms
proof (induction E v fd i sls s rule: share_slots.induct)
  case (1 E v fd i s)
  then show ?case by (simp add: same_slots_def)
next
  case (2 E v fd i sl sls s)
  obtain err s1 where s1: "poller_add_at (ue_os E) (sl_poller sl) fd udp_events (Some (Fd_cb (Udp_slot v i) None)) s = Some (err, s1)"
    using 2(2) by (auto simp: bind_eq_Some_conv)
  have ok: "err = ZTK_OK" using 2(2) s1 by (auto simp: fail_start_def split: if_splits)
  then have "share_slots E v fd (i + 1) sls s1 = Some (ZTK_OK, s')" using 2(2) s1 by simp
  from 2(1) [OF s1 refl _ this] ok show ?case
    using same_slots_trans [OF same_slots_more [OF add_at_more [OF s1]]] poller_ops_keep(3) [OF s1] by auto
qed

lemma shared_start:
  assumes sv: "uservers s v = Some sv" "\<not> us_started sv" "1 < us_slot_count sv" "us_reuse_port sv"
    and slot: "us_slots sv = slot0 # slots" "sl_sock slot0 = Some k0"
    and st: "ztk_udp_server_start False E (Some v) s = Some (ZTK_OK, s')"
  shows "(\<exists>sv'. uservers s' v = Some sv' \<and> us_slots sv' = us_slots sv \<and> us_shared_fd_mode sv' \<and> us_started sv') \<and>
     (\<forall>b. b \<noteq> k0 \<longrightarrow> socks s' b = socks s b)"
proof -
  let ?s0 = "upd_us v (\<lambda>sv. sv\<lparr>us_shared_fd_mode := True\<rparr>) s"
  let ?h = "if us_host sv = [] then None else Some (us_host sv)"
  have s0: "slot_at sv 0 = Some slot0" using slot(1) by (simp add: slot_at_def)
  obtain err s1 where s1: "ztk_socket_bind_udp_ex (ue_os E) (Some k0) ?h (us_port sv) (us_reuse_addr sv) False ?s0 = Some (err, s1)"
    using st sv s0 slot(2) by (auto simp: ztk_udp_server_start_def bind_eq_Some_conv Let_def)
  have err: "err = ZTK_OK" using st sv s0 slot(2) s1 by (auto simp: ztk_udp_server_start_def Let_def split: if_splits)
  obtain s2 fd s3 where s2: "read_port E v (Some k0) s1 = Some s2" "share_slots E v fd 0 (us_slots sv) s2 = Some (ZTK_OK, s3)"
      "s' = upd_us v (\<lambda>sv. sv\<lparr>us_started := True\<rparr>) s3"
    using st sv s0 slot(2) s1 err by (auto simp: ztk_udp_server_start_def bind_eq_Some_conv Let_def split: if_splits)
  have "same_slots v ?s0 s3"
    using same_slots_trans same_slots_more [OF bind_udp_more [OF s1]] read_port_keeps(1) [OF s2(1)]
      share_slots_keeps [OF s2(2)] by blast
  moreover have "uservers ?s0 v = Some (sv\<lparr>us_shared_fd_mode := True\<rparr>)" using sv(1) by (simp add: upd_us_def)
  ultimately obtain sv3 where "uservers s3 v = Some sv3" "us_slots sv3 = us_slots sv" "us_shared_fd_mode sv3"
    by (auto simp: same_slots_def)
  moreover have "socks s' b = socks s b" if "b \<noteq> k0" for b
    using bind_udp_other [OF s1 that] read_port_keeps(2) [OF s2(1)] share_slots_keeps [OF s2(2)] s2(3)
    by (simp add: upd_us_def)
  ultimately show ?thesis using s2(3) by (simp add: upd_us_def)
qed

section \<open>A new server\<close>

text \<open>The sockets of a new server: one for each slot, none of them with a descriptor yet.\<close>

definition slots_fresh :: "ztk_udp_slot list \<Rightarrow> ('f, 'w, 'x) unet \<Rightarrow> bool" where
  "slots_fresh sls s \<longleftrightarrow> distinct (map sl_sock sls) \<and>
     (\<forall>sl \<in> set sls. \<exists>k so. sl_sock sl = Some k \<and> socks s k = Some so \<and> s_fd so < 0)"

lemma slots_fresh_snoc:
  assumes "slots_fresh sls s" and "ztk_socket_create s = (Some k, s1)" and "socks s' = socks s1"
  shows "slots_fresh (sls @ [\<lparr>sl_sock = Some k, sl_poller = p\<rparr>]) s'"
proof -
  obtain so where k: "socks s k = None" "socks s1 = (socks s)(k \<mapsto> so)" "s_fd so = - 1"
    using assms(2) by (auto simp: ztk_socket_create_def take_mem_def split: option.splits if_splits list.splits)
  have "Some k \<notin> set (map sl_sock sls)" using assms(1) k(1) by (force simp: slots_fresh_def)
  then show ?thesis using assms(1,3) k by (fastforce simp: slots_fresh_def)
qed

lemma create_slots_fresh:
  assumes "create_slots o' v i k s = Some (True, s')" and "uservers s v = Some sv"
    and "length (us_slots sv) = i + k" and "slots_fresh (take i (us_slots sv)) s"
  shows "\<exists>sls. uservers s' v = Some (sv\<lparr>us_slots := sls\<rparr>) \<and> length sls = i + k \<and> slots_fresh sls s'"
  using assms
proof (induction k arbitrary: i s sv)
  case 0
  then show ?case by (intro exI [of _ "us_slots sv"]) simp
next
  case (Suc k)
  obtain p where p: "resolve_poller o' (of_nat i) s = Some p" using Suc.prems(1) by (auto simp: bind_eq_Some_conv)
  obtain sk s1 where s1: "ztk_socket_create s = (sk, s1)" by (cases "ztk_socket_create s")
  obtain a where a: "sk = Some a" using Suc.prems(1) p s1 by (auto simp: Let_def split: if_splits)
  let ?sl = "\<lparr>sl_sock = Some a, sl_poller = p\<rparr>"
  let ?sv = "sv\<lparr>us_slots := (us_slots sv)[i := ?sl]\<rparr>"
  let ?s2 = "upd_us v (\<lambda>sv. sv\<lparr>us_slots := (us_slots sv)[i := ?sl]\<rparr>) s1"
  have r: "create_slots o' v (i + 1) k ?s2 = Some (True, s')"
    using Suc.prems(1) p s1 a by (auto simp: Let_def split: if_splits)
  have u: "uservers ?s2 v = Some ?sv" "socks ?s2 = socks s1"
    using unet_more [OF create_more [OF s1]] Suc.prems(2) by (simp_all add: upd_us_def)
  have "take (i + 1) (us_slots ?sv) = take i (us_slots sv) @ [?sl]"
    using Suc.prems(3) by (simp add: take_Suc_conv_app_nth)
  then have "slots_fresh (take (i + 1) (us_slots ?sv)) ?s2"
    using slots_fresh_snoc [OF Suc.prems(4) s1 [unfolded a] u(2)] by simp
  from Suc.IH [OF r u(1) _ this] Suc.prems(3) show ?case by simp
qed

lemma create_fresh:
  assumes "ztk_udp_server_create E (Some o') s = Some (Some v, s')"
  shows "\<exists>sv n. resolve_poller_count o' s = Some n \<and> uservers s' v = Some sv \<and> us_slot_count sv = n \<and> n \<noteq> 0 \<and>
     length (us_slots sv) = unat n \<and> \<not> us_started sv \<and> (1 < n \<longrightarrow> us_reuse_port sv) \<and> slots_fresh (us_slots sv) s'"
proof -
  obtain pkt n where n: "uso_ops o' = Some pkt" "resolve_poller_count o' s = Some n" "n \<noteq> 0"
    using assms by (auto simp: ztk_udp_server_create_def bind_eq_Some_conv split: option.splits if_splits)
  obtain m s1 where s1: "take_mem s = (m, s1)" by (cases "take_mem s")
  obtain m2 s2 where s2: "take_mem s1 = (m2, s2)" by (cases "take_mem s1")
  let ?sv = "\<lparr>us_slots = replicate (unat n) no_udp_slot, us_slot_count = n, us_packet = None, us_user = None,
      us_host = [], us_port = 0, us_reuse_addr = False, us_reuse_port = False,
      us_shared_fd_mode = False, us_started = False\<rparr>"
  let ?s = "s2\<lparr>uservers := (uservers s2)(v \<mapsto> ?sv)\<rparr>"
  obtain s3 where s3: "create_slots o' v 0 (unat n) ?s = Some (True, s3)"
      "s' = upd_us v (\<lambda>sv. sv\<lparr>us_packet := pkt, us_user := uso_user o',
         us_reuse_addr := (1 < n \<or> uso_reuse o'), us_reuse_port := (1 < n \<or> uso_reuse_port o'),
         us_host := (case uso_host o' of None \<Rightarrow> [] | Some h \<Rightarrow> take 63 h), us_port := uso_port o'\<rparr>) s3"
    using assms n s1 s2
    by (auto simp: ztk_udp_server_create_def bind_eq_Some_conv Let_def split: option.splits if_splits)
  have "uservers ?s v = Some ?sv" by simp
  from create_slots_fresh [OF s3(1) this]
  obtain sls where "uservers s3 v = Some (?sv\<lparr>us_slots := sls\<rparr>)" "length sls = unat n" "slots_fresh sls s3"
    by (auto simp: slots_fresh_def)
  then show ?thesis using n s3(2) by (simp add: upd_us_def slots_fresh_def)
qed

lemma deaf_slot:
  assumes "uservers s v = Some sv" and "slot_at sv i = Some sl" and "sl_sock sl = Some k" and "socks s k = Some so"
    and "s_fd so < 0" and "0 \<le> fd"
  shows "udp_on_readable E fd v i s = Some s"
  using assms by (simp add: udp_on_readable_def ztk_socket_fd_def)

section \<open>Sample kernel and server\<close>

text \<open>A kernel whose only state is the queue of datagrams of each descriptor; every other call succeeds.\<close>

definition dg_os :: "(int \<Rightarrow> dgram list) os" where
  "dg_os c w =
     (case c of
        Sys_recvfrom fd n \<Rightarrow>
          (case w fd of [] \<Rightarrow> (k_res (- 1), w)
           | (bs, ad) # ds \<Rightarrow> ((k_res (int (length (take n bs))))\<lparr>res_bytes := take n bs, res_addr := ad\<rparr>, w(fd := ds)))
      | Sys_socket _ _ _ \<Rightarrow> (k_res 7, w)
      | _ \<Rightarrow> (k_res 0, w))"

lemma dg_os_ok: "dgrams_ok dg_os id"
  by (auto simp: dgrams_ok_def dg_os_def k_res_def split: list.split)

definition dg_env :: "(nat, int \<Rightarrow> dgram list, (u8 list \<times> string option \<times> u16) list) udp_env" where
  "dg_env = \<lparr>ue_os = dg_os, ue_packet = (\<lambda>f v bs ip port u s. Some (s\<lparr>uapp := uapp s @ [(bs, ip, port)]\<rparr>)),
     ue_error = (\<lambda>f a u s. Some s)\<rparr>"

lemma dg_env_records: "records dg_env f"
  by (simp add: records_def dg_env_def)

definition dg_server :: "nat ztk_udp_server" where
  "dg_server = \<lparr>us_slots = [\<lparr>sl_sock = Some 11, sl_poller = Some 1\<rparr>], us_slot_count = 1, us_packet = Some 0, us_user = None,
     us_host = [], us_port = 80, us_reuse_addr = False, us_reuse_port = False, us_shared_fd_mode = False, us_started = True\<rparr>"

definition dg_sock :: "udp_cb ztk_socket" where
  "dg_sock = \<lparr>s_fd = 7, s_type = ZTK_SOCK_UDP, s_poller = None, s_cb = no_cbs, s_user = None, s_poll_events = 0,
     s_attached = False, s_connect_pending = False\<rparr>"

definition dg_pool :: ztk_poller_pool where
  "dg_pool = \<lparr>pl_slots = Some [\<lparr>pool_slot.sl_poller = Some 1, sl_thread = None, sl_stop = False, sl_buf_pool = None\<rparr>,
       \<lparr>pool_slot.sl_poller = Some 2, sl_thread = None, sl_stop = False, sl_buf_pool = None\<rparr>], pl_count = 2, pl_thread_pos = 0,
     pl_prefer_current = False, pl_started = True, pl_priority = 0, pl_mtx = True\<rparr>"

definition dg_opts :: "nat ztk_udp_server_opts" where
  "dg_opts = \<lparr>uso_host = None, uso_port = 80, uso_reuse = False, uso_reuse_port = False, uso_poller = None,
     uso_poller_pool = Some 30, uso_ops = Some (Some 0), uso_user = None\<rparr>"

definition dg_net :: "(nat, int \<Rightarrow> dgram list, (u8 list \<times> string option \<times> u16) list) unet" where
  "dg_net = \<lparr>nsys = \<lparr>errno = E_NONE, world = (\<lambda>_. [])(7 := [([1, 2], SA_inet ''10.0.0.1'' 90), ([3], SA_other)])\<rparr>,
     socks = [11 \<mapsto> dg_sock], npollers = [1 \<mapsto> \<lparr>epfd = 3, wake_r = 4, wake_w = 5, entries = []\<rparr>,
       2 \<mapsto> \<lparr>epfd = 13, wake_r = 14, wake_w = 15, entries = []\<rparr>],
     sockplat_inited = True, nmem = map Some [20, 21, 22, 23, 24, 25], uclients = Map.empty, uservers = [10 \<mapsto> dg_server],
     upools = [30 \<mapsto> dg_pool], uapp = []\<rparr>"

section \<open>Properties\<close>

text \<open>
  C32. What arrives is delivered. When a poller reports a server's own socket as readable, the
  handler returns, and the application has got every datagram that was waiting, in order, each cut to
  the size of the receive buffer, with its sender (or, where the sender's address cannot be converted, the
  previous one), up to the first empty datagram; an empty datagram is thrown away and ends the turn, so
  that those behind it stay in the queue. The application is assumed to do nothing but record.
\<close>

theorem udp_server_delivers:
  assumes "dgrams_ok (ue_os E) dq" and "records E f" and "uservers s v = Some sv" and "us_packet sv = Some f"
    and "\<not> us_shared_fd_mode sv" and "slot_at sv i = Some sl" and "sl_sock sl = Some k" and "socks s k = Some so"
    and "s_type so = ZTK_SOCK_UDP" and "dq (world (nsys s)) (s_fd so) = ds"
  shows "\<exists>y. udp_on_readable E (s_fd so) v i s =
       Some (s\<lparr>nsys := y, uapp := uapp s @ delivered None 0 (takeWhile (\<lambda>(bs, _). bs \<noteq> []) ds)\<rparr>) \<and>
     dq (world y) = (dq (world (nsys s)))(s_fd so := tl (dropWhile (\<lambda>(bs, _). bs \<noteq> []) ds))"
proof -
  obtain sl0 where "slot_at sv 0 = Some sl0" using assms(6) by (cases "us_slots sv") (auto simp: slot_at_def)
  then have "udp_on_readable E (s_fd so) v i s = server_loop E (Some k) v None 0 s"
    using assms(3-8) by (simp add: udp_on_readable_def ztk_socket_fd_def)
  then show ?thesis using server_loop_delivers [OF assms(1,2,8,9,3,4,10)] by simp
qed

theorem udp_server_delivers_witness:
  "\<exists>s. udp_on_readable dg_env 7 10 0 dg_net = Some s \<and> world (nsys s) 7 = [] \<and>
     uapp s = [([1, 2], Some ''10.0.0.1'', 90), ([3], Some ''10.0.0.1'', 90)]"
proof -
  let ?ds = "[([1, 2], SA_inet ''10.0.0.1'' 90), ([3], SA_other)] :: dgram list"
  have e: "dgrams_ok (ue_os dg_env) id" using dg_os_ok by (simp add: dg_env_def)
  have d: "uservers dg_net 10 = Some dg_server" "us_packet dg_server = Some 0" "\<not> us_shared_fd_mode dg_server"
    "slot_at dg_server 0 = Some \<lparr>sl_sock = Some 11, sl_poller = Some 1\<rparr>"
    "sl_sock \<lparr>sl_sock = Some 11, sl_poller = Some 1\<rparr> = Some 11" "socks dg_net 11 = Some dg_sock" "s_type dg_sock = ZTK_SOCK_UDP"
    "id (world (nsys dg_net)) (s_fd dg_sock) = ?ds"
    by (simp_all add: dg_net_def dg_server_def dg_sock_def slot_at_def)
  have "delivered None 0 (takeWhile (\<lambda>(bs, _). bs \<noteq> []) ?ds) = [([1, 2], Some ''10.0.0.1'', 90), ([3], Some ''10.0.0.1'', 90)]"
    by (simp add: addr_to_string_def ntop_def kept_def ZTK_UDP_RECV_def Let_def)
  with udp_server_delivers [of dg_env id 0, OF e dg_env_records d] show ?thesis by (auto simp: dg_sock_def dg_net_def)
qed

text \<open>
  C33. Only the first poller of a server receives. A server made for more than one poller and started
  where the option to share a port is not available registers one descriptor with every poller; the
  handler compares it with the descriptor of the slot's own socket, which was never bound, so that
  the events of every slot but the first are dropped, and leave the datagrams in the queue.
\<close>

theorem udp_shared_deaf:
  assumes "ztk_udp_server_create E (Some opts) s0 = Some (Some v, s1)" and "ztk_udp_server_poller_count (Some v) s1 = Some n"
    and "1 < n" and "ztk_udp_server_start False E (Some v) s1 = Some (ZTK_OK, s2)" and "0 < i" and "i < unat n" and "0 \<le> fd"
  shows "udp_on_readable E fd v i s2 = Some s2"
proof -
  obtain sv where sv: "uservers s1 v = Some sv" "us_slot_count sv = n" "length (us_slots sv) = unat n" "\<not> us_started sv"
      "us_reuse_port sv" "slots_fresh (us_slots sv) s1"
    using create_fresh [OF assms(1)] assms(2,3) by (auto simp: ztk_udp_server_poller_count_def)
  obtain sl0 sls where sls: "us_slots sv = sl0 # sls" using sv(3) assms(6) by (cases "us_slots sv") auto
  obtain k0 where k0: "sl_sock sl0 = Some k0" using sv(6) sls by (auto simp: slots_fresh_def)
  let ?sl = "us_slots sv ! i"
  obtain k so where k: "sl_sock ?sl = Some k" "socks s1 k = Some so" "s_fd so < 0"
    using sv(3,6) assms(6) nth_mem [of i "us_slots sv"] unfolding slots_fresh_def by metis
  have "k \<noteq> k0" 
    using nth_eq_iff_index_eq [of "map sl_sock (us_slots sv)" 0 i] sv(3,6) k(1) k0 sls assms(5,6) by (auto simp: slots_fresh_def)
  moreover obtain sv' where sv': "uservers s2 v = Some sv'" "us_slots sv' = us_slots sv"
      and "\<forall>b. b \<noteq> k0 \<longrightarrow> socks s2 b = socks s1 b"
    using shared_start [OF sv(1,4) _ sv(5) sls k0 assms(4)] sv(2) assms(3) by auto
  ultimately have "socks s2 k = Some so" using k(2) by simp
  then show ?thesis using deaf_slot [OF sv'(1) _ k(1) _ k(3) assms(7)] sv'(2) sv(3) assms(6) by (simp add: slot_at_def)
qed

theorem udp_shared_deaf_witness:
  "\<exists>s1 s2. ztk_udp_server_create dg_env (Some dg_opts) dg_net = Some (Some 20, s1) \<and>
     ztk_udp_server_start False dg_env (Some 20) s1 = Some (ZTK_OK, s2) \<and> udp_on_readable dg_env 7 20 1 s2 = Some s2"
proof -
  have "case ztk_udp_server_create dg_env (Some dg_opts) dg_net of None \<Rightarrow> False
      | Some (r, s1) \<Rightarrow> r = Some 20 \<and> ztk_udp_server_poller_count (Some 20) s1 = Some 2 \<and>
          map_option fst (ztk_udp_server_start False dg_env (Some 20) s1) = Some ZTK_OK"
    by code_simp
  then obtain s1 where s1: "ztk_udp_server_create dg_env (Some dg_opts) dg_net = Some (Some 20, s1)"
    "ztk_udp_server_poller_count (Some 20) s1 = Some 2"
    "map_option fst (ztk_udp_server_start False dg_env (Some 20) s1) = Some ZTK_OK"
    by (auto split: option.splits)
  then obtain s2 where s2: "ztk_udp_server_start False dg_env (Some 20) s1 = Some (ZTK_OK, s2)" by auto
  from udp_shared_deaf [OF s1(1,2) _ s2, of 1 7] s1(1) s2 show ?thesis by auto
qed

end
