(* ===== verification/Ssl_Ctx.thy ===== *)
theory Ssl_Ctx
  imports Socket_Frame
begin

text \<open>
  TLS contexts, \<^verbatim>\<open>src/net/ssl_ctx.c\<close>, and the message of the last error, \<^verbatim>\<open>src/core/ztk_errno.c\<close>. OpenSSL
  is a parameter: a function from calls to answers that may change the world, like the kernel. The model
  keeps which contexts it has handed out, so that using or freeing one that is not live has no defined
  outcome. The branch for OpenSSL 1.1 and later is the one modelled.
\<close>

section \<open>OpenSSL\<close>

datatype ssl_call =
    OPENSSL_init_ssl
  | SSL_CTX_new
  | SSL_CTX_set_options nat
  | SSL_CTX_set_min_proto_version nat
  | SSL_CTX_set_verify nat bool
  | SSL_CTX_load_verify_locations nat string
  | SSL_CTX_set_default_verify_paths nat
  | SSL_CTX_use_certificate_file nat string
  | SSL_CTX_use_PrivateKey_file nat string
  | SSL_CTX_check_private_key nat
  | SSL_CTX_free nat
  | SSL_new nat
  | SSL_set_fd nat int
  | SSL_set_tlsext_host_name nat string
  | SSL_connect nat
  | SSL_read nat nat
  | SSL_write nat mem int
  | SSL_get_error nat int
  | ERR_get_error
  | SSL_shutdown nat
  | SSL_free nat

record ssl_res =
  sr_ret :: int
  sr_ptr :: "nat option"
  sr_bytes :: "u8 list"
  sr_text :: string

type_synonym 'w ossl = "ssl_call \<Rightarrow> 'w sys \<Rightarrow> ssl_res \<times> 'w sys"

text \<open>The file's static variables, the contexts (a structure with one pointer) and the live \<^verbatim>\<open>SSL_CTX\<close> objects.\<close>

record ztk_ssl_ctx =
  sc_ctx :: "nat option"

record ('k, 'w) sslnet = "('k, 'w) net" +
  s_last :: string
  s_ssl_inited :: bool
  s_ssl_init_count :: int
  ssl_ctxs :: "nat \<rightharpoonup> ztk_ssl_ctx"
  live_ctxs :: "nat set"

definition ssl_do :: "'w ossl \<Rightarrow> ssl_call \<Rightarrow> ('k, 'w, 'z) net_scheme \<Rightarrow> ssl_res \<times> ('k, 'w, 'z) net_scheme" where
  "ssl_do ossl c s = (let (r, y) = ossl c (nsys s) in (r, s\<lparr>nsys := y\<rparr>))"

section \<open>The last error\<close>

text \<open>\<^verbatim>\<open>s_last\<close> has 256 bytes, the last of them always 0; it belongs to the calling thread.\<close>

definition ztk_set_last_error :: "string option \<Rightarrow> ('k, 'w, 'z) sslnet_scheme \<Rightarrow> ('k, 'w, 'z) sslnet_scheme" where
  "ztk_set_last_error msg s = s\<lparr>s_last := (case msg of None \<Rightarrow> [] | Some m \<Rightarrow> take 255 m)\<rparr>"

definition ztk_last_error :: "('k, 'w, 'z) sslnet_scheme \<Rightarrow> string" where
  "ztk_last_error s = s_last s"

section \<open>Initialisation\<close>

definition ztk_ssl_global_init :: "'w ossl \<Rightarrow> ('k, 'w, 'z) sslnet_scheme \<Rightarrow> ztk_err \<times> ('k, 'w, 'z) sslnet_scheme" where
  "ztk_ssl_global_init ossl s =
     (if s_ssl_inited s then (ZTK_OK, s)
      else let (r, s1) = ssl_do ossl OPENSSL_init_ssl s in
        if sr_ret r \<noteq> 1 then (ZTK_ERR_PLATFORM, ztk_set_last_error (Some ''OPENSSL_init_ssl failed'') s1)
        else (ZTK_OK, s1\<lparr>s_ssl_inited := True, s_ssl_init_count := 0\<rparr>))"

definition ztk_ssl_global_fini :: "('k, 'w, 'z) sslnet_scheme \<Rightarrow> ('k, 'w, 'z) sslnet_scheme" where
  "ztk_ssl_global_fini s = (if \<not> s_ssl_inited s \<or> 0 < s_ssl_init_count s then s else s\<lparr>s_ssl_inited := False\<rparr>)"

section \<open>Contexts\<close>

record ztk_ssl_config =
  ca_file :: "string option"
  verify_peer :: bool
  client_cert_file :: "string option"
  client_key_file :: "string option"

text \<open>\<^verbatim>\<open>cfg && cfg->field && cfg->field[0]\<close>.\<close>

definition cfg_file :: "(ztk_ssl_config \<Rightarrow> string option) \<Rightarrow> ztk_ssl_config option \<Rightarrow> string option" where
  "cfg_file sel cfg = (case cfg of None \<Rightarrow> None
     | Some c \<Rightarrow> (case sel c of None \<Rightarrow> None | Some f \<Rightarrow> if f = [] then None else Some f))"

text \<open>One step of the configuration: a call that must answer 1, or the context and the structure are freed and \<^verbatim>\<open>NULL\<close> returned.\<close>

definition ctx_step ::
    "'w ossl \<Rightarrow> nat \<Rightarrow> nat \<Rightarrow> ssl_call \<Rightarrow> string \<Rightarrow> ('k, 'w, 'z) sslnet_scheme \<Rightarrow> bool \<times> ('k, 'w, 'z) sslnet_scheme" where
  "ctx_step ossl a x call msg s =
     (let (r, s1) = ssl_do ossl call s in
      if sr_ret r \<noteq> 1
      then let (_, s2) = ssl_do ossl (SSL_CTX_free x) (ztk_set_last_error (Some msg) s1)
           in (False, s2\<lparr>live_ctxs := live_ctxs s2 - {x}, ssl_ctxs := (ssl_ctxs s2)(a := None)\<rparr>)
      else (True, s1))"

primrec ctx_steps ::
    "'w ossl \<Rightarrow> nat \<Rightarrow> nat \<Rightarrow> (ssl_call \<times> string) list \<Rightarrow> ('k, 'w, 'z) sslnet_scheme \<Rightarrow> bool \<times> ('k, 'w, 'z) sslnet_scheme" where
  "ctx_steps ossl a x [] s = (True, s)"
| "ctx_steps ossl a x (c # cs) s =
     (let (ok, s1) = ctx_step ossl a x (fst c) (snd c) s in if ok then ctx_steps ossl a x cs s1 else (False, s1))"

text \<open>The steps a configuration asks for, in the order of the code.\<close>

definition cfg_steps :: "nat \<Rightarrow> ztk_ssl_config option \<Rightarrow> (ssl_call \<times> string) list" where
  "cfg_steps x cfg =
     (case cfg_file ca_file cfg of
        Some f \<Rightarrow> [(SSL_CTX_load_verify_locations x f, ''SSL_CTX_load_verify_locations failed'')]
      | None \<Rightarrow> if cfg \<noteq> None \<and> verify_peer (the cfg)
                then [(SSL_CTX_set_default_verify_paths x, ''SSL_CTX_set_default_verify_paths failed'')] else []) @
     (case cfg_file client_cert_file cfg of
        Some f \<Rightarrow> [(SSL_CTX_use_certificate_file x f, ''SSL_CTX_use_certificate_file failed'')]
      | None \<Rightarrow> []) @
     (case cfg_file client_key_file cfg of
        Some f \<Rightarrow> [(SSL_CTX_use_PrivateKey_file x f, ''SSL_CTX_use_PrivateKey_file failed''),
                   (SSL_CTX_check_private_key x, ''SSL_CTX_check_private_key failed'')]
      | None \<Rightarrow> [])"

definition ctx_configure ::
    "'w ossl \<Rightarrow> nat \<Rightarrow> nat \<Rightarrow> ztk_ssl_config option \<Rightarrow> ('k, 'w, 'z) sslnet_scheme \<Rightarrow> bool \<times> ('k, 'w, 'z) sslnet_scheme" where
  "ctx_configure ossl a x cfg s =
     (let (_, s1) = ssl_do ossl (SSL_CTX_set_options x) s;
          (_, s2) = ssl_do ossl (SSL_CTX_set_min_proto_version x) s1;
          (_, s3) = ssl_do ossl (SSL_CTX_set_verify x (cfg \<noteq> None \<and> verify_peer (the cfg))) s2
      in ctx_steps ossl a x (cfg_steps x cfg) s3)"

definition ztk_ssl_ctx_create ::
    "'w ossl \<Rightarrow> ztk_ssl_config option \<Rightarrow> ('k, 'w, 'z) sslnet_scheme \<Rightarrow> nat option \<times> ('k, 'w, 'z) sslnet_scheme" where
  "ztk_ssl_ctx_create ossl cfg s =
     (let (err, s1) = ztk_ssl_global_init ossl s in
      if err \<noteq> ZTK_OK then (None, s1)
      else let (m, s2) = take_mem s1 in
        case m of None \<Rightarrow> (None, s2)
        | Some a \<Rightarrow>
          if ssl_ctxs s2 a \<noteq> None then (None, s2)
          else let (r, s3) = ssl_do ossl SSL_CTX_new (s2\<lparr>ssl_ctxs := (ssl_ctxs s2)(a \<mapsto> \<lparr>sc_ctx = None\<rparr>)\<rparr>);
                   s4 = ztk_set_last_error (Some ''SSL_CTX_new failed'') (s3\<lparr>ssl_ctxs := (ssl_ctxs s3)(a := None)\<rparr>) in
            case sr_ptr r of None \<Rightarrow> (None, s4)
            | Some x \<Rightarrow>
              if x \<in> live_ctxs s3 then (None, s4)
              else let (ok, s5) = ctx_configure ossl a x cfg (s3\<lparr>live_ctxs := insert x (live_ctxs s3),
                                    ssl_ctxs := (ssl_ctxs s3)(a \<mapsto> \<lparr>sc_ctx = Some x\<rparr>)\<rparr>)
                   in if \<not> ok then (None, s5)
                      else (Some a, s5\<lparr>s_ssl_init_count := s_ssl_init_count s5 + 1\<rparr>))"

definition ztk_ssl_ctx_destroy ::
    "'w ossl \<Rightarrow> nat option \<Rightarrow> ('k, 'w, 'z) sslnet_scheme \<Rightarrow> ('k, 'w, 'z) sslnet_scheme option" where
  "ztk_ssl_ctx_destroy ossl ctx s =
     (case ctx of None \<Rightarrow> Some s
      | Some a \<Rightarrow> do {
          sc \<leftarrow> ssl_ctxs s a;
          s1 \<leftarrow> (case sc_ctx sc of None \<Rightarrow> Some s
                | Some x \<Rightarrow> if x \<in> live_ctxs s
                    then let (_, s1) = ssl_do ossl (SSL_CTX_free x) s in Some (s1\<lparr>live_ctxs := live_ctxs s1 - {x}\<rparr>)
                    else None);
          let s2 = s1\<lparr>ssl_ctxs := (ssl_ctxs s1)(a := None)\<rparr>;
          Some (if 0 < s_ssl_init_count s2 then s2\<lparr>s_ssl_init_count := s_ssl_init_count s2 - 1\<rparr> else s2)
        })"

section \<open>Contexts are not leaked\<close>

text \<open>What a call to OpenSSL leaves alone: everything but the world.\<close>

definition ctx_same :: "('k, 'w, 'z) sslnet_scheme \<Rightarrow> ('k, 'w, 'z) sslnet_scheme \<Rightarrow> bool" where
  "ctx_same s s' \<longleftrightarrow> s_ssl_init_count s' = s_ssl_init_count s \<and> s_ssl_inited s' = s_ssl_inited s"

lemma ssl_do_frame [simp]:
  "ssl_ctxs (snd (ssl_do ossl c s)) = ssl_ctxs s" "live_ctxs (snd (ssl_do ossl c s)) = live_ctxs s"
  "s_ssl_init_count (snd (ssl_do ossl c s)) = s_ssl_init_count s" "s_ssl_inited (snd (ssl_do ossl c s)) = s_ssl_inited s"
  by (simp_all add: ssl_do_def split_def Let_def)

lemma ssl_do_same: "ssl_do ossl c s = (r, s') \<Longrightarrow> ctx_same s s' \<and> live_ctxs s' = live_ctxs s \<and> ssl_ctxs s' = ssl_ctxs s"
  using ssl_do_frame [of ossl c s] by (simp add: ctx_same_def)

lemma ctx_steps_spec:
  assumes "ctx_steps ossl a x cs s = (ok, s')"
  shows "ctx_same s s' \<and> live_ctxs s' = (if ok then live_ctxs s else live_ctxs s - {x}) \<and>
     ssl_ctxs s' = (if ok then ssl_ctxs s else (ssl_ctxs s)(a := None))"
  using assms
proof (induction cs arbitrary: s)
  case Nil
  then show ?case by (simp add: ctx_same_def)
next
  case (Cons c cs)
  obtain k s1 where s1: "ctx_step ossl a x (fst c) (snd c) s = (k, s1)" by fastforce
  then have f: "ctx_same s s1 \<and> live_ctxs s1 = (if k then live_ctxs s else live_ctxs s - {x}) \<and>
      ssl_ctxs s1 = (if k then ssl_ctxs s else (ssl_ctxs s)(a := None))"
    by (auto simp: ctx_step_def ctx_same_def ztk_set_last_error_def Let_def split_def split: if_splits)
  show ?case
  proof (cases k)
    case True
    then show ?thesis using Cons s1 f by (auto simp: ctx_same_def)
  next
    case False
    then show ?thesis using Cons.prems s1 f by auto
  qed
qed

lemma ctx_configure_spec:
  assumes "ctx_configure ossl a x cfg s = (ok, s')"
  shows "ctx_same s s' \<and> live_ctxs s' = (if ok then live_ctxs s else live_ctxs s - {x}) \<and>
     ssl_ctxs s' = (if ok then ssl_ctxs s else (ssl_ctxs s)(a := None))"
proof -
  obtain r1 s1 where s1: "ssl_do ossl (SSL_CTX_set_options x) s = (r1, s1)" by fastforce
  obtain r2 s2 where s2: "ssl_do ossl (SSL_CTX_set_min_proto_version x) s1 = (r2, s2)" by fastforce
  obtain r3 s3 where s3: "ssl_do ossl (SSL_CTX_set_verify x (cfg \<noteq> None \<and> verify_peer (the cfg))) s2 = (r3, s3)" by fastforce
  have "ctx_steps ossl a x (cfg_steps x cfg) s3 = (ok, s')" using assms s1 s2 s3 by (simp add: ctx_configure_def)
  from ctx_steps_spec [OF this] show ?thesis
    using ssl_do_same [OF s1] ssl_do_same [OF s2] ssl_do_same [OF s3] by (simp add: ctx_same_def)
qed

lemma ctx_create_spec:
  assumes "ztk_ssl_ctx_create ossl cfg s = (r, s')"
  shows "case r of
      None \<Rightarrow> ssl_ctxs s' = ssl_ctxs s \<and> live_ctxs s' = live_ctxs s \<and> (s_ssl_inited s \<longrightarrow> s_ssl_init_count s' = s_ssl_init_count s)
    | Some a \<Rightarrow> \<exists>x. ssl_ctxs s a = None \<and> x \<notin> live_ctxs s \<and> ssl_ctxs s' = (ssl_ctxs s)(a \<mapsto> \<lparr>sc_ctx = Some x\<rparr>) \<and>
        live_ctxs s' = insert x (live_ctxs s) \<and> s_ssl_inited s' \<and>
        s_ssl_init_count s' = (if s_ssl_inited s then s_ssl_init_count s else 0) + 1"
proof -
  obtain err s1 where s1: "ztk_ssl_global_init ossl s = (err, s1)" by fastforce
  have f1: "ssl_ctxs s1 = ssl_ctxs s" "live_ctxs s1 = live_ctxs s" "s_ssl_inited s \<Longrightarrow> s1 = s"
    "err = ZTK_OK \<Longrightarrow> s_ssl_inited s1 \<and> s_ssl_init_count s1 = (if s_ssl_inited s then s_ssl_init_count s else 0)"
    using s1 by (auto simp: ztk_ssl_global_init_def ztk_set_last_error_def Let_def split_def split: if_splits)
  obtain m s2 where s2: "take_mem s1 = (m, s2)" by fastforce
  have f2: "ssl_ctxs s2 = ssl_ctxs s1" "live_ctxs s2 = live_ctxs s1" "s_ssl_inited s2 = s_ssl_inited s1"
    "s_ssl_init_count s2 = s_ssl_init_count s1"
    using s2 by (auto simp: take_mem_def split: list.splits)
  consider (init) "err \<noteq> ZTK_OK" | (mem) "err = ZTK_OK" "m = None \<or> ssl_ctxs s2 (the m) \<noteq> None"
    | (new) a where "err = ZTK_OK" "m = Some a" "ssl_ctxs s2 a = None" by fastforce
  then show ?thesis
  proof cases
    case init
    then show ?thesis using assms s1 f1 by (auto simp: ztk_ssl_ctx_create_def)
  next
    case mem
    then have "(r, s') = (None, s2)" using assms s1 s2 by (cases m) (simp_all add: ztk_ssl_ctx_create_def)
    then show ?thesis using f1 f2 by simp
  next
    case new
    obtain r3 s3 where s3: "ssl_do ossl SSL_CTX_new (s2\<lparr>ssl_ctxs := (ssl_ctxs s2)(a \<mapsto> \<lparr>sc_ctx = None\<rparr>)\<rparr>) = (r3, s3)" by fastforce
    have f3: "ssl_ctxs s3 = (ssl_ctxs s2)(a \<mapsto> \<lparr>sc_ctx = None\<rparr>)" "live_ctxs s3 = live_ctxs s2" "s_ssl_inited s3 = s_ssl_inited s2"
      "s_ssl_init_count s3 = s_ssl_init_count s2"
      using ssl_do_same [OF s3] by (simp_all add: ctx_same_def)
    show ?thesis
    proof (cases "sr_ptr r3 = None \<or> the (sr_ptr r3) \<in> live_ctxs s3")
      case True
      then have "(r, s') = (None, ztk_set_last_error (Some ''SSL_CTX_new failed'') (s3\<lparr>ssl_ctxs := (ssl_ctxs s3)(a := None)\<rparr>))"
        using assms s1 s2 s3 new by (cases "sr_ptr r3") (simp_all add: ztk_ssl_ctx_create_def)
      then show ?thesis using f1 f2 f3 new(3) by (auto simp: ztk_set_last_error_def)
    next
      case False
      then obtain x where x: "sr_ptr r3 = Some x" "x \<notin> live_ctxs s3" by auto
      let ?s4 = "s3\<lparr>live_ctxs := insert x (live_ctxs s3), ssl_ctxs := (ssl_ctxs s3)(a \<mapsto> \<lparr>sc_ctx = Some x\<rparr>)\<rparr>"
      obtain ok s8 where s8: "ctx_configure ossl a x cfg ?s4 = (ok, s8)" by fastforce
      then have f8: "ctx_same ?s4 s8" "live_ctxs s8 = (if ok then insert x (live_ctxs s3) else live_ctxs s3)"
          "ssl_ctxs s8 = (if ok then (ssl_ctxs s2)(a \<mapsto> \<lparr>sc_ctx = Some x\<rparr>) else ssl_ctxs s2)"
        using ctx_configure_spec [OF s8] x(2) f3(1) new(3) by auto
      have "(r, s') = (if \<not> ok then (None, s8) else (Some a, s8\<lparr>s_ssl_init_count := s_ssl_init_count s8 + 1\<rparr>))"
        using assms s1 s2 s3 new x s8 by (simp add: ztk_ssl_ctx_create_def)
      then show ?thesis using f1 f2 f3 f8 new x by (cases ok) (auto simp: ctx_same_def)
    qed
  qed
qed

section \<open>Samples\<close>

text \<open>An OpenSSL that hands out one context and refuses the private key.\<close>

definition strict_ssl :: "unit ossl" where
  "strict_ssl c y =
     (\<lparr>sr_ret = (case c of SSL_CTX_use_PrivateKey_file _ _ \<Rightarrow> 0 | _ \<Rightarrow> 1), sr_ptr = Some 3, sr_bytes = [], sr_text = []\<rparr>, y)"

definition strict_net :: "(unit, unit) sslnet" where
  "strict_net = \<lparr>nsys = \<lparr>errno = E_NONE, world = ()\<rparr>, socks = Map.empty, npollers = Map.empty, sockplat_inited = False,
     nmem = [Some 40], s_last = [], s_ssl_inited = True, s_ssl_init_count = 2, ssl_ctxs = [41 \<mapsto> \<lparr>sc_ctx = Some 2\<rparr>], live_ctxs = {2}\<rparr>"

section \<open>Properties\<close>

text \<open>
  C34. Contexts are created whole or not at all. Whatever OpenSSL answers to the configuration calls, a
  failed creation leaves the structures allocated for contexts, the live \<^verbatim>\<open>SSL_CTX\<close> objects and the count of users as they
  were, and a successful one is undone by \<^verbatim>\<open>ztk_ssl_ctx_destroy\<close>: in both cases destroying the result
  is defined and gives back the state before.
\<close>

theorem ssl_ctx_round_trip:
  assumes "ztk_ssl_ctx_create ossl cfg s = (r, s1)" and "s_ssl_inited s" and "0 \<le> s_ssl_init_count s"
  shows "\<exists>s2. ztk_ssl_ctx_destroy ossl r s1 = Some s2 \<and> ssl_ctxs s2 = ssl_ctxs s \<and> live_ctxs s2 = live_ctxs s \<and>
     s_ssl_init_count s2 = s_ssl_init_count s"
proof (cases r)
  case None
  then show ?thesis using ctx_create_spec [OF assms(1)] assms(2) by (simp add: ztk_ssl_ctx_destroy_def)
next
  case (Some a)
  then obtain x where x: "ssl_ctxs s a = None" "x \<notin> live_ctxs s" "ssl_ctxs s1 = (ssl_ctxs s)(a \<mapsto> \<lparr>sc_ctx = Some x\<rparr>)"
      "live_ctxs s1 = insert x (live_ctxs s)" "s_ssl_init_count s1 = s_ssl_init_count s + 1"
    using ctx_create_spec [OF assms(1)] assms(2) by auto
  obtain r2 s2 where s2: "ssl_do ossl (SSL_CTX_free x) s1 = (r2, s2)" by fastforce
  then show ?thesis using Some x assms(3) ssl_do_same [OF s2]
    by (auto simp: ztk_ssl_ctx_destroy_def ctx_same_def Let_def)
qed

theorem ssl_ctx_round_trip_witness:
  "\<exists>r s1 s2. ztk_ssl_ctx_create strict_ssl (Some \<lparr>ca_file = None, verify_peer = True, client_cert_file = None,
       client_key_file = Some ''key.pem''\<rparr>) strict_net = (r, s1) \<and>
     ztk_ssl_ctx_destroy strict_ssl r s1 = Some s2 \<and> live_ctxs s2 = {2} \<and> s_ssl_init_count s2 = 2"
proof -
  let ?cfg = "\<lparr>ca_file = None, verify_peer = True, client_cert_file = None, client_key_file = Some ''key.pem''\<rparr>"
  obtain r s1 where r: "ztk_ssl_ctx_create strict_ssl (Some ?cfg) strict_net = (r, s1)" by fastforce
  have "s_ssl_inited strict_net" "0 \<le> s_ssl_init_count strict_net" "live_ctxs strict_net = {2}" "s_ssl_init_count strict_net = 2"
    by (simp_all add: strict_net_def)
  with ssl_ctx_round_trip [OF r] r show ?thesis by auto
qed

end
