(* ===== verification/Tls_Client.thy ===== *)
theory Tls_Client
  imports Ssl_Ctx Socket_Owner
begin

text \<open>
  TLS clients, \<^verbatim>\<open>src/net/tls_client.c\<close>: a TCP connection like that of \<open>Tcp_Client\<close>, a handshake over it, and
  a buffer for what the application sends before the handshake is over or faster than OpenSSL takes it.
  The structure of callbacks and the context belong to the application and are reached through
  pointers, as in the code; the live \<^verbatim>\<open>SSL\<close> objects are kept in the state, and a call on one that is not
  live, or on \<^verbatim>\<open>NULL\<close>, has no defined outcome.
\<close>

section \<open>State\<close>

datatype tls_state_t = TLS_ST_TCP | TLS_ST_HANDSHAKE | TLS_ST_READY

datatype tls_cb = Sock_on_readable | Sock_on_writable | Sock_on_error

record 'f ztk_tls_client_ops =
  tls_on_connect :: "'f option"
  tls_on_recv :: "'f option"
  tls_on_error :: "'f option"

record ztk_tls_client_opts =
  to_poller :: "nat option"
  to_ssl_ctx :: "nat option"
  to_ops :: "nat option"
  to_user :: "nat option"
  to_sni_host :: "string option"

record ztk_tls_client =
  t_opts :: ztk_tls_client_opts
  t_sock :: "nat option"
  t_ssl :: "nat option"
  t_state :: tls_state_t
  t_tcp_connected :: bool
  t_closing :: bool
  t_ready_sent :: bool
  t_host_for_connect :: string
  t_sni_name :: string
  t_pending :: mem

record ('f, 'w, 'x) tlsnet = "(tls_cb, 'w) sslnet" +
  tls_clients :: "nat \<rightharpoonup> ztk_tls_client"
  tls_opss :: "nat \<rightharpoonup> 'f ztk_tls_client_ops"
  live_ssls :: "nat set"
  tls_app :: 'x

record ('f, 'w, 's) tlsenv =
  te_os :: "'w os"
  te_ssl :: "'w ossl"
  te_call :: "'f \<Rightarrow> nat \<Rightarrow> nat option \<Rightarrow> 's \<Rightarrow> 's option"
  te_recv :: "'f \<Rightarrow> nat \<Rightarrow> u8 list \<Rightarrow> nat option \<Rightarrow> 's \<Rightarrow> 's option"

type_synonym ('f, 'w, 'x) tls_env = "('f, 'w, ('f, 'w, 'x) tlsnet) tlsenv"

definition TLS_RECV_BUF :: nat where "TLS_RECV_BUF = 16384"
definition TLS_SEND_BUF :: nat where "TLS_SEND_BUF = 65536"

definition SSL_ERROR_WANT_READ :: int where "SSL_ERROR_WANT_READ = 2"
definition SSL_ERROR_WANT_WRITE :: int where "SSL_ERROR_WANT_WRITE = 3"

definition upd_tls :: "nat \<Rightarrow> (ztk_tls_client \<Rightarrow> ztk_tls_client) \<Rightarrow> ('f, 'w, 'x) tlsnet \<Rightarrow> ('f, 'w, 'x) tlsnet" where
  "upd_tls a f s = s\<lparr>tls_clients := (tls_clients s)(a := map_option f (tls_clients s a))\<rparr>"

definition ssl_on ::
    "('f, 'w, 'x) tls_env \<Rightarrow> nat option \<Rightarrow> (nat \<Rightarrow> ssl_call) \<Rightarrow> ('f, 'w, 'x) tlsnet \<Rightarrow> (ssl_res \<times> ('f, 'w, 'x) tlsnet) option" where
  "ssl_on E h call s =
     (case h of None \<Rightarrow> None
      | Some x \<Rightarrow> if x \<in> live_ssls s then Some (ssl_do (te_ssl E) (call x) s) else None)"

text \<open>A function of \<^verbatim>\<open>c->opts.ops\<close>, if there is one.\<close>

definition tls_op :: "('f ztk_tls_client_ops \<Rightarrow> 'f option) \<Rightarrow> ztk_tls_client \<Rightarrow> ('f, 'w, 'x) tlsnet \<Rightarrow> 'f option option" where
  "tls_op sel c s = (case to_ops (t_opts c) of None \<Rightarrow> Some None | Some o' \<Rightarrow> map_option sel (tls_opss s o'))"

definition tls_notify ::
    "('f, 'w, 'x) tls_env \<Rightarrow> ('f ztk_tls_client_ops \<Rightarrow> 'f option) \<Rightarrow> nat \<Rightarrow> ('f, 'w, 'x) tlsnet \<Rightarrow> ('f, 'w, 'x) tlsnet option" where
  "tls_notify E sel a s = do {
     c \<leftarrow> tls_clients s a;
     f \<leftarrow> tls_op sel c s;
     (case f of None \<Rightarrow> Some s | Some g \<Rightarrow> te_call E g a (to_user (t_opts c)) s)
   }"

section \<open>Errors\<close>

definition tls_mod_poll :: "('f, 'w, 'x) tls_env \<Rightarrow> nat \<Rightarrow> bool \<Rightarrow> ('f, 'w, 'x) tlsnet \<Rightarrow> ('f, 'w, 'x) tlsnet option" where
  "tls_mod_poll E a want_write s = do {
     c \<leftarrow> tls_clients s a;
     (case t_sock c of None \<Rightarrow> Some s
      | Some k \<Rightarrow>
          let ev = ZTK_POLL_IN OR ZTK_POLL_ERR OR ZTK_POLL_HUP;
              ev = (if want_write \<or> \<not> t_tcp_connected c then ev OR ZTK_POLL_OUT else ev)
          in map_option snd (ztk_socket_mod_events (te_os E) (Some k) ev s))
   }"

text \<open>\<^verbatim>\<open>if (c->ssl_handle) { SSL_free(c->ssl_handle); c->ssl_handle = NULL; }\<close>\<close>

definition tls_drop_ssl :: "('f, 'w, 'x) tls_env \<Rightarrow> nat \<Rightarrow> ('f, 'w, 'x) tlsnet \<Rightarrow> ('f, 'w, 'x) tlsnet option" where
  "tls_drop_ssl E a s = do {
     c \<leftarrow> tls_clients s a;
     (case t_ssl c of None \<Rightarrow> Some s
      | Some h \<Rightarrow> do {
          (_, s1) \<leftarrow> ssl_on E (Some h) SSL_free s;
          Some (upd_tls a (\<lambda>c. c\<lparr>t_ssl := None\<rparr>) (s1\<lparr>live_ssls := live_ssls s1 - {h}\<rparr>))
        })
   }"

text \<open>The fields that an error, a close and a new connection all reset.\<close>

definition tls_reset :: "nat \<Rightarrow> ('f, 'w, 'x) tlsnet \<Rightarrow> ('f, 'w, 'x) tlsnet" where
  "tls_reset a = upd_tls a (\<lambda>c. c\<lparr>t_state := TLS_ST_TCP, t_tcp_connected := False, t_ready_sent := False, t_pending := []\<rparr>)"

definition tls_fire_error :: "('f, 'w, 'x) tls_env \<Rightarrow> nat option \<Rightarrow> ('f, 'w, 'x) tlsnet \<Rightarrow> ('f, 'w, 'x) tlsnet option" where
  "tls_fire_error E client s =
     (case client of None \<Rightarrow> Some s
      | Some a \<Rightarrow> do {
          c \<leftarrow> tls_clients s a;
          if t_closing c then Some s
          else do {
            (_, s1) \<leftarrow> ztk_socket_detach_poller (te_os E) (t_sock c) (upd_tls a (\<lambda>c. c\<lparr>t_closing := True\<rparr>) s);
            s2 \<leftarrow> tls_drop_ssl E a s1;
            tls_notify E tls_on_error a (tls_reset a s2)
          }
        })"

text \<open>\<^verbatim>\<open>snprintf(buf, 256, "%s ssl_err=%d", where, err)\<close>, or OpenSSL's own message.\<close>

definition tls_ssl_error ::
    "('f, 'w, 'x) tls_env \<Rightarrow> nat \<Rightarrow> int \<Rightarrow> string \<Rightarrow> ('f, 'w, 'x) tlsnet \<Rightarrow> (ztk_err \<times> ('f, 'w, 'x) tlsnet) option" where
  "tls_ssl_error E a n place s = do {
     c \<leftarrow> tls_clients s a;
     (r, s1) \<leftarrow> ssl_on E (t_ssl c) (\<lambda>h. SSL_get_error h n) s;
     if sr_ret r = SSL_ERROR_WANT_READ then map_option (Pair ZTK_ERR_AGAIN) (tls_mod_poll E a False s1)
     else if sr_ret r = SSL_ERROR_WANT_WRITE then map_option (Pair ZTK_ERR_AGAIN) (tls_mod_poll E a True s1)
     else do {
       let (e, s2) = ssl_do (te_ssl E) ERR_get_error s1;
       let buf = take 255 (if sr_ret e \<noteq> 0 then sr_text e else place @ '' ssl_err='' @ int_str (sr_ret r));
       s3 \<leftarrow> tls_fire_error E (Some a) (ztk_set_last_error (Some buf) s2);
       Some (ZTK_ERR_IO, s3)
     }
   }"

section \<open>Data\<close>

text \<open>\<^verbatim>\<open>(int)n\<close> of a \<^verbatim>\<open>size_t\<close>.\<close>

definition c_int :: "nat \<Rightarrow> int" where
  "c_int n = sint (of_nat n :: 32 word)"

text \<open>
  The loop that \<^verbatim>\<open>tls_flush_pending\<close> and \<^verbatim>\<open>ztk_tls_client_send\<close> share: write from offset \<open>off\<close> until all is
  written (\<open>None\<close>) or a write answers \<open>n\<close>, not positive (\<open>Some n\<close>).
\<close>

function ssl_write_all ::
    "('f, 'w, 'x) tls_env \<Rightarrow> nat option \<Rightarrow> mem \<Rightarrow> nat \<Rightarrow> ('f, 'w, 'x) tlsnet \<Rightarrow>
     (int option \<times> nat \<times> ('f, 'w, 'x) tlsnet) option" where
  "ssl_write_all E h data off s =
     (if length data \<le> off then Some (None, off, s)
      else case ssl_on E h (\<lambda>h. SSL_write h (drop off data) (c_int (length data - off))) s of
        None \<Rightarrow> None
      | Some (r, s1) \<Rightarrow>
          if 0 < sr_ret r then ssl_write_all E h data (off + nat (sr_ret r)) s1 else Some (Some (sr_ret r), off, s1))"
  by pat_completeness auto
termination
  by (relation "measure (\<lambda>(E, h, data, off, s). length data - off)") auto

declare ssl_write_all.simps [simp del]

definition tls_flush_pending :: "('f, 'w, 'x) tls_env \<Rightarrow> nat \<Rightarrow> ('f, 'w, 'x) tlsnet \<Rightarrow> ('f, 'w, 'x) tlsnet option" where
  "tls_flush_pending E a s = do {
     c \<leftarrow> tls_clients s a;
     if t_pending c = [] \<or> t_state c \<noteq> TLS_ST_READY \<or> t_ssl c = None then Some s
     else do {
       (r, off, s1) \<leftarrow> ssl_write_all E (t_ssl c) (t_pending c) 0 s;
       (case r of
          None \<Rightarrow> Some (upd_tls a (\<lambda>c. c\<lparr>t_pending := []\<rparr>) s1)
        | Some n \<Rightarrow> do {
            (err, s2) \<leftarrow> tls_ssl_error E a n ''SSL_write'' s1;
            Some (if err = ZTK_ERR_AGAIN \<and> 0 < off then upd_tls a (\<lambda>c. c\<lparr>t_pending := drop off (t_pending c)\<rparr>) s2 else s2)
          })
     }
   }"

partial_function (option) tls_drain_loop ::
    "('f, 'w, 'x) tls_env \<Rightarrow> nat \<Rightarrow> ('f, 'w, 'x) tlsnet \<Rightarrow> ('f, 'w, 'x) tlsnet option" where
  "tls_drain_loop E a s =
     Option.bind (tls_clients s a) (\<lambda>c.
     Option.bind (ssl_on E (t_ssl c) (\<lambda>h. SSL_read h TLS_RECV_BUF) s) (\<lambda>(r, s1).
       if 0 < sr_ret r then
         Option.bind (tls_op tls_on_recv c s1) (\<lambda>f.
         Option.bind (case f of None \<Rightarrow> Some s1 | Some g \<Rightarrow> te_recv E g a (sr_bytes r) (to_user (t_opts c)) s1)
           (tls_drain_loop E a))
       else if sr_ret r = 0 then tls_fire_error E (Some a) s1
       else Option.bind (ssl_on E (t_ssl c) (\<lambda>h. SSL_get_error h (sr_ret r)) s1) (\<lambda>(e, s2).
         if sr_ret e = SSL_ERROR_WANT_READ then tls_mod_poll E a False s2
         else if sr_ret e = SSL_ERROR_WANT_WRITE then tls_mod_poll E a True s2
         else map_option snd (tls_ssl_error E a (sr_ret r) ''SSL_read'' s2))))"

declare tls_drain_loop.simps [code]

definition tls_drain_plain :: "('f, 'w, 'x) tls_env \<Rightarrow> nat \<Rightarrow> ('f, 'w, 'x) tlsnet \<Rightarrow> ('f, 'w, 'x) tlsnet option" where
  "tls_drain_plain E a s = do {
     c \<leftarrow> tls_clients s a;
     if t_state c \<noteq> TLS_ST_READY \<or> t_ssl c = None \<or> t_closing c then Some s else tls_drain_loop E a s
   }"

section \<open>Handshake\<close>

definition tls_do_handshake ::
    "('f, 'w, 'x) tls_env \<Rightarrow> nat \<Rightarrow> ('f, 'w, 'x) tlsnet \<Rightarrow> (ztk_err \<times> ('f, 'w, 'x) tlsnet) option" where
  "tls_do_handshake E a s = do {
     c \<leftarrow> tls_clients s a;
     if t_ssl c = None then Some (ZTK_ERR_INVALID, s)
     else do {
       (r, s1) \<leftarrow> ssl_on E (t_ssl c) SSL_connect s;
       if sr_ret r = 1 then do {
         s2 \<leftarrow> tls_mod_poll E a False (upd_tls a (\<lambda>c. c\<lparr>t_state := TLS_ST_READY\<rparr>) s1);
         s3 \<leftarrow> (if \<not> t_ready_sent c then tls_notify E tls_on_connect a (upd_tls a (\<lambda>c. c\<lparr>t_ready_sent := True\<rparr>) s2)
               else Some s2);
         s4 \<leftarrow> tls_flush_pending E a s3;
         s5 \<leftarrow> tls_drain_plain E a s4;
         Some (ZTK_OK, s5)
       }
       else tls_ssl_error E a (sr_ret r) ''SSL_connect'' s1
     }
   }"

definition tls_start_ssl :: "('f, 'w, 'x) tls_env \<Rightarrow> nat \<Rightarrow> ('f, 'w, 'x) tlsnet \<Rightarrow> ('f, 'w, 'x) tlsnet option" where
  "tls_start_ssl E a s = do {
     c \<leftarrow> tls_clients s a;
     (case to_ssl_ctx (t_opts c) of None \<Rightarrow> Some s
      | Some q \<Rightarrow> do {
          sc \<leftarrow> ssl_ctxs s q;
          (case sc_ctx sc of None \<Rightarrow> Some s
           | Some x \<Rightarrow>
             if x \<notin> live_ctxs s then None
             else let (r, s1) = ssl_do (te_ssl E) (SSL_new x) s in
               if sr_ptr r = None \<or> the (sr_ptr r) \<in> live_ssls s1
               then tls_fire_error E (Some a) (ztk_set_last_error (Some ''SSL_new failed'') (upd_tls a (\<lambda>c. c\<lparr>t_ssl := None\<rparr>) s1))
               else do {
                 let h = the (sr_ptr r);
                 let s2 = upd_tls a (\<lambda>c. c\<lparr>t_ssl := Some h\<rparr>) (s1\<lparr>live_ssls := insert h (live_ssls s1)\<rparr>);
                 fd \<leftarrow> ztk_socket_fd (t_sock c) s2;
                 let (r, s3) = ssl_do (te_ssl E) (SSL_set_fd h fd) s2;
                 if sr_ret r \<noteq> 1 then tls_fire_error E (Some a) (ztk_set_last_error (Some ''SSL_set_fd failed'') s3)
                 else do {
                   let sni = (if t_sni_name c \<noteq> [] then t_sni_name c else t_host_for_connect c);
                   let s4 = (if sni \<noteq> [] then snd (ssl_do (te_ssl E) (SSL_set_tlsext_host_name h sni) s3) else s3);
                   s5 \<leftarrow> tls_mod_poll E a True (upd_tls a (\<lambda>c. c\<lparr>t_state := TLS_ST_HANDSHAKE, t_ready_sent := False\<rparr>) s4);
                   map_option snd (tls_do_handshake E a s5)
                 }
               })
        })
   }"

section \<open>Events\<close>

definition sock_on_writable ::
    "('f, 'w, 'x) tls_env \<Rightarrow> nat \<Rightarrow> nat option \<Rightarrow> ('f, 'w, 'x) tlsnet \<Rightarrow> ('f, 'w, 'x) tlsnet option" where
  "sock_on_writable E sock user s =
     (case user of None \<Rightarrow> Some s
      | Some a \<Rightarrow> do {
          c \<leftarrow> tls_clients s a;
          if t_closing c then Some s
          else if \<not> t_tcp_connected c then do {
            (err, s1) \<leftarrow> ztk_socket_check_connect (te_os E) (Some sock) s;
            if err = ZTK_OK then tls_start_ssl E a (upd_tls a (\<lambda>c. c\<lparr>t_tcp_connected := True\<rparr>) s1)
            else if err \<noteq> ZTK_ERR_AGAIN then tls_fire_error E (Some a) s1
            else Some s1
          }
          else if t_state c = TLS_ST_HANDSHAKE then map_option snd (tls_do_handshake E a s)
          else if t_state c = TLS_ST_READY then do { s1 \<leftarrow> tls_flush_pending E a s; tls_drain_plain E a s1 }
          else Some s
        })"

definition sock_on_readable ::
    "('f, 'w, 'x) tls_env \<Rightarrow> nat \<Rightarrow> nat option \<Rightarrow> ('f, 'w, 'x) tlsnet \<Rightarrow> ('f, 'w, 'x) tlsnet option" where
  "sock_on_readable E sock user s =
     (case user of None \<Rightarrow> Some s
      | Some a \<Rightarrow> do {
          c \<leftarrow> tls_clients s a;
          if t_closing c then Some s
          else do {
            s1 \<leftarrow> (if \<not> t_tcp_connected c then sock_on_writable E sock user s else Some s);
            c1 \<leftarrow> tls_clients s1 a;
            if \<not> t_tcp_connected c \<and> (\<not> t_tcp_connected c1 \<or> t_closing c1) then Some s1
            else if t_state c1 = TLS_ST_HANDSHAKE then map_option snd (tls_do_handshake E a s1)
            else if t_state c1 = TLS_ST_READY then tls_drain_plain E a s1
            else Some s1
          }
        })"

definition sock_on_error ::
    "('f, 'w, 'x) tls_env \<Rightarrow> nat \<Rightarrow> nat option \<Rightarrow> ('f, 'w, 'x) tlsnet \<Rightarrow> ('f, 'w, 'x) tlsnet option" where
  "sock_on_error E sock user s = tls_fire_error E user s"

definition tls_call :: "('f, 'w, 'x) tls_env \<Rightarrow> tls_cb \<Rightarrow> nat \<Rightarrow> nat option \<Rightarrow> ('f, 'w, 'x) tlsnet \<Rightarrow> ('f, 'w, 'x) tlsnet option" where
  "tls_call E k =
     (case k of Sock_on_readable \<Rightarrow> sock_on_readable E | Sock_on_writable \<Rightarrow> sock_on_writable E | Sock_on_error \<Rightarrow> sock_on_error E)"

definition tls_cbs :: "tls_cb socket_cbs" where
  "tls_cbs = \<lparr>on_readable = Some Sock_on_readable, on_writable = Some Sock_on_writable, on_error = Some Sock_on_error\<rparr>"

section \<open>Operations\<close>

definition ztk_tls_client_create ::
    "('f, 'w, 'x) tls_env \<Rightarrow> ztk_tls_client_opts option \<Rightarrow> ('f, 'w, 'x) tlsnet \<Rightarrow>
     (nat option \<times> ('f, 'w, 'x) tlsnet) option" where
  "ztk_tls_client_create E opts s =
     (case opts of None \<Rightarrow> Some (None, s)
      | Some o' \<Rightarrow>
        (case (to_poller o', to_ops o', to_ssl_ctx o') of
           (Some p, Some ops, Some q) \<Rightarrow> do {
             sc \<leftarrow> ssl_ctxs s q;
             if sc_ctx sc = None then Some (None, s)
             else let (err, s1) = ztk_ssl_global_init (te_ssl E) s in
               if err \<noteq> ZTK_OK then Some (None, s1)
               else let (m, s2) = take_mem s1 in
                 (case m of None \<Rightarrow> Some (None, s2)
                  | Some a \<Rightarrow>
                    if tls_clients s2 a \<noteq> None then Some (None, s2)
                    else case ztk_socket_create s2 of
                      (None, s3) \<Rightarrow> Some (None, s3)
                    | (Some k, s3) \<Rightarrow>
                        Some (Some a, s3\<lparr>tls_clients := (tls_clients s3)(a \<mapsto>
                          \<lparr>t_opts = o', t_sock = Some k, t_ssl = None, t_state = TLS_ST_TCP, t_tcp_connected = False,
                           t_closing = False, t_ready_sent = False, t_host_for_connect = [],
                           t_sni_name = (case to_sni_host o' of None \<Rightarrow> [] | Some h \<Rightarrow> take 255 h), t_pending = []\<rparr>)\<rparr>))
           }
         | _ \<Rightarrow> Some (None, s)))"

definition ztk_tls_client_close ::
    "('f, 'w, 'x) tls_env \<Rightarrow> nat option \<Rightarrow> ('f, 'w, 'x) tlsnet \<Rightarrow> ('f, 'w, 'x) tlsnet option" where
  "ztk_tls_client_close E client s =
     (case client of None \<Rightarrow> Some s
      | Some a \<Rightarrow> do {
          c \<leftarrow> tls_clients s a;
          if t_closing c then Some s
          else do {
            (_, s1) \<leftarrow> ztk_socket_detach_poller (te_os E) (t_sock c) (upd_tls a (\<lambda>c. c\<lparr>t_closing := True\<rparr>) s);
            s2 \<leftarrow> (if t_ssl c \<noteq> None then do { (_, s2) \<leftarrow> ssl_on E (t_ssl c) SSL_shutdown s1; tls_drop_ssl E a s2 }
                  else Some s1);
            s3 \<leftarrow> ztk_socket_destroy (te_os E) (t_sock c) s2;
            let (k, s4) = ztk_socket_create s3;
            Some (upd_tls a (\<lambda>c. c\<lparr>t_closing := False\<rparr>) (tls_reset a (upd_tls a (\<lambda>c. c\<lparr>t_sock := k\<rparr>) s4)))
          }
        })"

definition ztk_tls_client_destroy ::
    "('f, 'w, 'x) tls_env \<Rightarrow> nat option \<Rightarrow> ('f, 'w, 'x) tlsnet \<Rightarrow> ('f, 'w, 'x) tlsnet option" where
  "ztk_tls_client_destroy E client s =
     (case client of None \<Rightarrow> Some s
      | Some a \<Rightarrow> do {
          s1 \<leftarrow> ztk_tls_client_close E (Some a) s;
          s2 \<leftarrow> tls_drop_ssl E a s1;
          c \<leftarrow> tls_clients s2 a;
          s3 \<leftarrow> (if t_sock c \<noteq> None then ztk_socket_destroy (te_os E) (t_sock c) s2 else Some s2);
          Some (s3\<lparr>tls_clients := (tls_clients s3)(a := None)\<rparr>)
        })"

definition ztk_tls_client_connect ::
    "('f, 'w, 'x) tls_env \<Rightarrow> nat option \<Rightarrow> string option \<Rightarrow> u16 \<Rightarrow> ('f, 'w, 'x) tlsnet \<Rightarrow>
     (ztk_err \<times> ('f, 'w, 'x) tlsnet) option" where
  "ztk_tls_client_connect E client host port s =
     (case client of None \<Rightarrow> Some (ZTK_ERR_INVALID, s)
      | Some a \<Rightarrow> do {
          c \<leftarrow> tls_clients s a;
          (case host of None \<Rightarrow> Some (ZTK_ERR_INVALID, s)
           | Some h \<Rightarrow>
             if t_closing c then Some (ZTK_ERR_INVALID, s)
             else do {
               (_, s1) \<leftarrow> ztk_socket_detach_poller (te_os E) (t_sock c) s;
               s2 \<leftarrow> tls_drop_ssl E a s1;
               let s3 = upd_tls a (\<lambda>c. c\<lparr>t_host_for_connect := take 255 h,
                          t_sni_name := (if t_sni_name c = [] then take 255 h else t_sni_name c)\<rparr>) (tls_reset a s2);
               ((err, pending), s4) \<leftarrow> ztk_socket_connect (te_os E) (t_sock c) host port s3;
               if err \<noteq> ZTK_OK then Some (err, s4)
               else do {
                 (err, s5) \<leftarrow> ztk_socket_attach_poller (te_os E) (t_sock c) (to_poller (t_opts c)) (Some tls_cbs) (Some a) s4;
                 if err \<noteq> ZTK_OK then Some (err, s5)
                 else if pending \<noteq> Some True
                 then map_option (Pair ZTK_OK) (tls_start_ssl E a (upd_tls a (\<lambda>c. c\<lparr>t_tcp_connected := True\<rparr>) s5))
                 else Some (ZTK_OK, s5)
               }
             })
        })"

definition ztk_tls_client_is_connected :: "nat option \<Rightarrow> ('f, 'w, 'x) tlsnet \<Rightarrow> bool option" where
  "ztk_tls_client_is_connected client s =
     (case client of None \<Rightarrow> Some False
      | Some a \<Rightarrow> map_option (\<lambda>c. t_state c = TLS_ST_READY \<and> \<not> t_closing c \<and> t_ready_sent c) (tls_clients s a))"

text \<open>
  Queueing: the sum of the lengths is computed in \<^verbatim>\<open>size_t\<close>; a copy past the end of the array has no
  defined outcome.
\<close>

definition tls_queue ::
    "nat \<Rightarrow> mem \<Rightarrow> ztk_err \<Rightarrow> ('f, 'w, 'x) tlsnet \<Rightarrow> (ztk_err \<times> ('f, 'w, 'x) tlsnet) option" where
  "tls_queue a rest err s = do {
     c \<leftarrow> tls_clients s a;
     if (of_nat TLS_SEND_BUF :: size_t) < of_nat (length (t_pending c)) + of_nat (length rest)
     then Some (ZTK_ERR_BUFFER_TOO_SMALL, s)
     else if TLS_SEND_BUF < length (t_pending c) + length rest then None
     else Some (err, upd_tls a (\<lambda>c. c\<lparr>t_pending := t_pending c @ rest\<rparr>) s)
   }"

definition ztk_tls_client_send ::
    "('f, 'w, 'x) tls_env \<Rightarrow> nat option \<Rightarrow> mem option \<Rightarrow> ('f, 'w, 'x) tlsnet \<Rightarrow> (ztk_err \<times> ('f, 'w, 'x) tlsnet) option" where
  "ztk_tls_client_send E client data s =
     (case client of None \<Rightarrow> Some (ZTK_ERR_INVALID, s)
      | Some a \<Rightarrow> do {
          c \<leftarrow> tls_clients s a;
          (case data of None \<Rightarrow> Some (ZTK_ERR_INVALID, s)
           | Some m \<Rightarrow>
             if t_closing c \<or> m = [] then Some (ZTK_ERR_INVALID, s)
             else if t_state c \<noteq> TLS_ST_READY \<or> t_ssl c = None then tls_queue a m ZTK_ERR_AGAIN s
             else do {
               (r, off, s1) \<leftarrow> ssl_write_all E (t_ssl c) m 0 s;
               (case r of None \<Rightarrow> Some (ZTK_OK, s1)
                | Some n \<Rightarrow> do {
                    (err, s2) \<leftarrow> tls_ssl_error E a n ''SSL_write'' s1;
                    if err = ZTK_ERR_AGAIN \<and> off < length m then tls_queue a (drop off m) err s2 else Some (err, s2)
                  })
             })
        })"

section \<open>What is relied on\<close>

text \<open>OpenSSL works on descriptors it was given, but neither opens, closes nor registers any.\<close>

definition ossl_quiet :: "'w ossl \<Rightarrow> ('w \<Rightarrow> int set) \<Rightarrow> ('w \<Rightarrow> int \<Rightarrow> int \<rightharpoonup> u32) \<Rightarrow> bool" where
  "ossl_quiet ossl opn intr \<longleftrightarrow> (\<forall>c y. op_of opn (snd (ossl c y)) = op_of opn y \<and> in_of intr (snd (ossl c y)) = in_of intr y)"

text \<open>The peer has sent finitely much: \<open>left\<close> bounds the reads that still deliver something.\<close>

definition reads_end :: "'w ossl \<Rightarrow> ('w sys \<Rightarrow> nat \<Rightarrow> nat) \<Rightarrow> bool" where
  "reads_end ossl left \<longleftrightarrow> (\<forall>h n y. case ossl (SSL_read h n) y of (r, y') \<Rightarrow> 0 < sr_ret r \<longrightarrow> left y' h < left y h)"

text \<open>Functions of the application that return and use only their own state.\<close>

definition tls_calm :: "('f, 'w, 'x) tls_env \<Rightarrow> bool" where
  "tls_calm E \<longleftrightarrow> (\<forall>f a u s. \<exists>x. te_call E f a u s = Some (s\<lparr>tls_app := x\<rparr>)) \<and>
     (\<forall>f a bs u s. \<exists>x. te_recv E f a bs u s = Some (s\<lparr>tls_app := x\<rparr>))"

section \<open>The invariant\<close>

lemma tls_more:
  "net.more s' = net.more s \<Longrightarrow> tls_clients s' = tls_clients s \<and> tls_opss s' = tls_opss s \<and> live_ssls s' = live_ssls s \<and>
     tls_app s' = tls_app s \<and> ssl_ctxs s' = ssl_ctxs s \<and> live_ctxs s' = live_ctxs s"
  by (cases s, cases s') simp

text \<open>
  \<open>tls_good\<close>: the pointers of a client are live; of the \<^verbatim>\<open>SSL\<close> objects, those in \<open>L\<close> belong to others and
  the rest is the client's own; it has one only over an established connection; the buffer is within
  its bounds; and, except while it is being taken down (\<open>b\<close>), a client past the TCP stage has an \<^verbatim>\<open>SSL\<close> object.
\<close>

definition tls_good :: "bool \<Rightarrow> nat set \<Rightarrow> ztk_tls_client \<Rightarrow> ('f, 'w, 'x) tlsnet \<Rightarrow> bool" where
  "tls_good b L c s \<longleftrightarrow> (\<exists>q. to_ops (t_opts c) = Some q \<and> tls_opss s q \<noteq> None) \<and>
     (\<exists>q x. to_ssl_ctx (t_opts c) = Some q \<and> ssl_ctxs s q = Some \<lparr>sc_ctx = Some x\<rparr> \<and> x \<in> live_ctxs s) \<and>
     live_ssls s = L \<union> set_option (t_ssl c) \<and> set_option (t_ssl c) \<inter> L = {} \<and>
     (t_ssl c \<noteq> None \<longrightarrow> t_tcp_connected c) \<and> length (t_pending c) \<le> TLS_SEND_BUF \<and>
     (b \<longrightarrow> t_state c \<noteq> TLS_ST_TCP \<longrightarrow> t_ssl c \<noteq> None)"

definition tls_inv ::
    "'w os \<Rightarrow> ('w \<Rightarrow> int set) \<Rightarrow> ('w \<Rightarrow> int \<Rightarrow> int \<rightharpoonup> u32) \<Rightarrow> int set \<Rightarrow> bool \<Rightarrow> nat set \<Rightarrow> nat \<Rightarrow> nat option \<Rightarrow>
     ('f, 'w, 'x) tlsnet \<Rightarrow> bool" where
  "tls_inv os opn intr B b L a sk s \<longleftrightarrow> (\<exists>c p. tls_clients s a = Some c \<and> t_sock c = sk \<and> to_poller (t_opts c) = Some p \<and>
     sock_part os opn intr B tls_cbs a p sk (t_tcp_connected c) s \<and> tls_good b L c s)"

lemma tls_invE:
  assumes "tls_inv os opn intr B b L a sk s"
  obtains c p where "tls_clients s a = Some c" and "t_sock c = sk" and "to_poller (t_opts c) = Some p"
    and "sock_part os opn intr B tls_cbs a p sk (t_tcp_connected c) s" and "tls_good b L c s"
  using assms by (auto simp: tls_inv_def)

lemma tls_good_more: "net.more s' = net.more s \<Longrightarrow> tls_good b L c s' = tls_good b L c s"
  using tls_more [of s' s] by (simp add: tls_good_def)

lemma tls_good_simps [simp]:
  "tls_good b L c (s\<lparr>tls_app := x\<rparr>) = tls_good b L c s" "tls_good b L c (upd_tls a f s) = tls_good b L c s"
  "tls_good b L c (s\<lparr>nsys := y\<rparr>) = tls_good b L c s" "tls_good b L c (ztk_set_last_error m s) = tls_good b L c s"
  by (simp_all add: tls_good_def upd_tls_def ztk_set_last_error_def)

lemma tls_part_simps [simp]:
  "sock_part os opn intr B cbs a p sk est (s\<lparr>tls_app := x\<rparr>) = sock_part os opn intr B cbs a p sk est (s :: ('f, 'w, 'x) tlsnet)"
  "sock_part os opn intr B cbs a p sk est (s\<lparr>live_ssls := y\<rparr>) = sock_part os opn intr B cbs a p sk est s"
  "sock_part os opn intr B cbs a p sk est (upd_tls b f s) = sock_part os opn intr B cbs a p sk est s"
  "sock_part os opn intr B cbs a p sk est (ztk_set_last_error m s) = sock_part os opn intr B cbs a p sk est s"
  by (simp_all add: sock_part_def net_ok_def upd_tls_def ztk_set_last_error_def)

lemma tls_clients_simps [simp]:
  "tls_clients s a = Some c \<Longrightarrow> tls_clients (upd_tls a f s) a = Some (f c)"
  "tls_clients (ztk_set_last_error m s) = tls_clients s"
  by (simp_all add: upd_tls_def ztk_set_last_error_def)

lemma upd_tls_frame [simp]:
  "tls_opss (upd_tls a f s) = tls_opss s" "live_ssls (upd_tls a f s) = live_ssls s" "ssl_ctxs (upd_tls a f s) = ssl_ctxs s"
  "live_ctxs (upd_tls a f s) = live_ctxs s"
  by (simp_all add: upd_tls_def)

lemma tls_inv_app: "tls_inv os opn intr B b L a sk s \<Longrightarrow> tls_inv os opn intr B b L a sk (s\<lparr>tls_app := x\<rparr>)"
  by (simp add: tls_inv_def)

lemma tls_inv_msg: "tls_inv os opn intr B b L a sk s \<Longrightarrow> tls_inv os opn intr B b L a sk (ztk_set_last_error m s)"
  by (simp add: tls_inv_def)

lemma tls_inv_weak: "tls_inv os opn intr B b L a sk s \<Longrightarrow> tls_inv os opn intr B False L a sk s"
  by (auto simp: tls_inv_def tls_good_def)

text \<open>A step of the sockets alone, and one of the client's own fields.\<close>

lemma tls_inv_sock:
  assumes "tls_clients s a = Some c" and "t_sock c = sk" and "to_poller (t_opts c) = Some p" and "tls_good b L c s"
    and "net.more s' = net.more s" and "sock_part os opn intr B tls_cbs a p sk (t_tcp_connected c) s'"
  shows "tls_inv os opn intr B b L a sk s'"
  using assms tls_more [OF assms(5)] tls_good_more [OF assms(5)] by (auto simp: tls_inv_def)

lemma tls_inv_upd:
  assumes "tls_clients s a = Some c" and "t_sock (f c) = sk" and "to_poller (t_opts (f c)) = Some p"
    and "sock_part os opn intr B tls_cbs a p sk (t_tcp_connected (f c)) s" and "tls_good b L (f c) s"
  shows "tls_inv os opn intr B b L a sk (upd_tls a f s)"
  using assms by (simp add: tls_inv_def)

section \<open>Steps that keep it\<close>

lemma notify_inv:
  assumes "tls_calm E" and inv: "tls_inv os opn intr B b L a sk s"
  shows "\<exists>s'. tls_notify E sel a s = Some s' \<and> tls_inv os opn intr B b L a sk s'"
proof -
  obtain c where c: "tls_clients s a = Some c" "tls_good b L c s" using inv by (rule tls_invE)
  obtain f where f: "tls_op sel c s = Some f" using c(2) by (auto simp: tls_op_def tls_good_def)
  show ?thesis
  proof (cases f)
    case None
    then show ?thesis using c f inv by (simp add: tls_notify_def)
  next
    case (Some g)
    obtain x where "te_call E g a (to_user (t_opts c)) s = Some (s\<lparr>tls_app := x\<rparr>)" using assms(1) unfolding tls_calm_def by blast
    then show ?thesis using c f Some tls_inv_app [OF inv] by (simp add: tls_notify_def)
  qed
qed

lemma ssl_do_inv:
  assumes "ossl_quiet ossl opn intr" and "tls_inv os opn intr B b L a sk s"
  shows "\<exists>r y. ssl_do ossl call s = (r, s\<lparr>nsys := y\<rparr>) \<and> ossl call (nsys s) = (r, y) \<and> tls_inv os opn intr B b L a sk (s\<lparr>nsys := y\<rparr>)"
proof -
  obtain r y where y: "ossl call (nsys s) = (r, y)" by fastforce
  then have k: "op_of opn y = op_of opn (nsys s)" "in_of intr y = in_of intr (nsys s)"
    using assms(1) unfolding ossl_quiet_def by (metis snd_conv)+
  have "tls_inv os opn intr B b L a sk (s\<lparr>nsys := y\<rparr>)" using assms(2) sys_part [OF _ k] by (fastforce simp: tls_inv_def)
  then show ?thesis using y by (simp add: ssl_do_def)
qed

lemma ssl_on_inv:
  assumes "ossl_quiet (te_ssl E) opn intr" and "tls_inv os opn intr B b L a sk s" and "tls_clients s a = Some c" and "t_ssl c = Some h"
  shows "\<exists>r y. ssl_on E (t_ssl c) call s = Some (r, s\<lparr>nsys := y\<rparr>) \<and> te_ssl E (call h) (nsys s) = (r, y) \<and>
     tls_inv os opn intr B b L a sk (s\<lparr>nsys := y\<rparr>)"
proof -
  have "h \<in> live_ssls s" using assms(2-4) by (auto simp: tls_inv_def tls_good_def)
  then show ?thesis using ssl_do_inv [OF assms(1,2), of "call h"] assms(4) by (auto simp: ssl_on_def)
qed

lemma mod_poll_inv:
  assumes inv: "tls_inv (te_os E) opn intr B b L a sk s"
  shows "\<exists>s'. tls_mod_poll E a w s = Some s' \<and> tls_inv (te_os E) opn intr B b L a sk s' \<and> net.more s' = net.more s"
proof -
  obtain c p where c: "tls_clients s a = Some c" "t_sock c = sk" "to_poller (t_opts c) = Some p"
      "sock_part (te_os E) opn intr B tls_cbs a p sk (t_tcp_connected c) s" "tls_good b L c s"
    using inv by (rule tls_invE)
  show ?thesis
  proof (cases sk)
    case None
    then show ?thesis using c inv by (simp add: tls_mod_poll_def)
  next
    case (Some k)
    let ?ev = "if w \<or> \<not> t_tcp_connected c then ZTK_POLL_IN OR ZTK_POLL_ERR OR ZTK_POLL_HUP OR ZTK_POLL_OUT
      else ZTK_POLL_IN OR ZTK_POLL_ERR OR ZTK_POLL_HUP"
    obtain e s' where s': "ztk_socket_mod_events (te_os E) (Some k) ?ev s = Some (e, s')"
        "sock_part (te_os E) opn intr B tls_cbs a p sk (t_tcp_connected c) s'" "net.more s' = net.more s"
      using mod_events_part [OF c(4) [unfolded Some], of ?ev] Some by blast
    have "tls_mod_poll E a w s = Some s'" using c(1,2) Some s'(1) 
      by (cases "w \<or> \<not> t_tcp_connected c") (auto simp: tls_mod_poll_def Let_def or.assoc)
    then show ?thesis using tls_inv_sock [OF c(1-3,5) s'(3,2)] s'(3) by blast
  qed
qed

lemma drop_ssl_inv:
  assumes q: "ossl_quiet (te_ssl E) opn intr" and inv: "tls_inv os opn intr B b L a sk s" and c: "tls_clients s a = Some c"
  shows "\<exists>s'. tls_drop_ssl E a s = Some s' \<and> tls_inv os opn intr B False L a sk s' \<and>
     tls_clients s' a = Some (c\<lparr>t_ssl := None\<rparr>)"
proof (cases "t_ssl c")
  case None
  then have "c\<lparr>t_ssl := None\<rparr> = c" by simp
  then show ?thesis using c None tls_inv_weak [OF inv] by (simp add: tls_drop_ssl_def)
next
  case (Some h)
  obtain r y where y: "ssl_on E (Some h) SSL_free s = Some (r, s\<lparr>nsys := y\<rparr>)" "tls_inv os opn intr B b L a sk (s\<lparr>nsys := y\<rparr>)"
    using ssl_on_inv [OF q inv c Some, of SSL_free] Some by auto
  let ?s = "upd_tls a (\<lambda>c. c\<lparr>t_ssl := None\<rparr>) (s\<lparr>nsys := y, live_ssls := live_ssls s - {h}\<rparr>)"
  obtain p where p: "t_sock c = sk" "to_poller (t_opts c) = Some p" "tls_good b L c s"
      "sock_part os opn intr B tls_cbs a p sk (t_tcp_connected c) (s\<lparr>nsys := y\<rparr>)"
    using y(2) c by (auto simp: tls_inv_def)
  have "tls_good False L (c\<lparr>t_ssl := None\<rparr>) (s\<lparr>nsys := y, live_ssls := live_ssls s - {h}\<rparr>)"
    using p(3) Some by (auto simp: tls_good_def)
  then have "tls_inv os opn intr B False L a sk ?s" using p c by (intro tls_inv_upd [where c = c and p = p]) auto
  then show ?thesis using y(1) c Some by (simp add: tls_drop_ssl_def)
qed

lemma reset_inv:
  assumes "tls_inv os opn intr B b L a sk s" and "tls_clients s a = Some c" and "t_ssl c = None"
  shows "tls_inv os opn intr B True L a sk (tls_reset a s)"
proof -
  obtain p where "t_sock c = sk" "to_poller (t_opts c) = Some p" "sock_part os opn intr B tls_cbs a p sk (t_tcp_connected c) s"
      "tls_good b L c s" using assms(1,2) by (auto simp: tls_inv_def)
  then show ?thesis unfolding tls_reset_def using assms(2,3) sock_part_apart
    by (intro tls_inv_upd [where c = c and p = p]) (auto simp: tls_good_def)
qed

lemma detach_tls:
  assumes inv: "tls_inv os opn intr B b L a sk s"
  shows "\<exists>s'. ztk_socket_detach_poller os sk s = Some (ZTK_OK, s') \<and> tls_inv os opn intr B b L a sk s' \<and> tls_clients s' = tls_clients s"
proof -
  obtain c p where c: "tls_clients s a = Some c" "t_sock c = sk" "to_poller (t_opts c) = Some p"
      "sock_part os opn intr B tls_cbs a p sk (t_tcp_connected c) s" "tls_good b L c s"
    using inv by (rule tls_invE)
  obtain s' where s': "ztk_socket_detach_poller os sk s = Some (ZTK_OK, s')"
      "sock_part os opn intr B tls_cbs a p sk (t_tcp_connected c) s'" "net.more s' = net.more s"
    using detach_part [OF c(4)] by blast
  then show ?thesis using tls_inv_sock [OF c(1-3,5) s'(3,2)] tls_more [OF s'(3)] by simp
qed

lemma closing_inv:
  assumes "tls_inv os opn intr B b L a sk s"
  shows "tls_inv os opn intr B b L a sk (upd_tls a (\<lambda>c. c\<lparr>t_closing := x\<rparr>) s)"
proof -
  obtain c p where "tls_clients s a = Some c" "t_sock c = sk" "to_poller (t_opts c) = Some p"
      "sock_part os opn intr B tls_cbs a p sk (t_tcp_connected c) s" "tls_good b L c s"
    using assms by (rule tls_invE)
  then show ?thesis by (intro tls_inv_upd [where c = c and p = p]) (auto simp: tls_good_def)
qed

lemma fire_error_tls:
  assumes calm: "tls_calm E" and q: "ossl_quiet (te_ssl E) opn intr" and inv: "tls_inv (te_os E) opn intr B True L a sk s"
  shows "\<exists>s'. tls_fire_error E (Some a) s = Some s' \<and> tls_inv (te_os E) opn intr B True L a sk s'"
proof -
  obtain c where c: "tls_clients s a = Some c" "t_sock c = sk" using inv by (rule tls_invE)
  show ?thesis
  proof (cases "t_closing c")
    case True
    then show ?thesis using c inv by (simp add: tls_fire_error_def)
  next
    case False
    let ?s = "upd_tls a (\<lambda>c. c\<lparr>t_closing := True\<rparr>) s"
    obtain s1 where s1: "ztk_socket_detach_poller (te_os E) sk ?s = Some (ZTK_OK, s1)"
        "tls_inv (te_os E) opn intr B True L a sk s1" "tls_clients s1 = tls_clients ?s"
      using detach_tls [OF closing_inv [OF inv]] by blast
    obtain c1 where c1: "tls_clients s1 a = Some c1" using s1(2) by (rule tls_invE)
    obtain s2 where s2: "tls_drop_ssl E a s1 = Some s2" "tls_inv (te_os E) opn intr B False L a sk s2"
        "tls_clients s2 a = Some (c1\<lparr>t_ssl := None\<rparr>)"
      using drop_ssl_inv [OF q s1(2) c1] by blast
    have "tls_inv (te_os E) opn intr B True L a sk (tls_reset a s2)" by (rule reset_inv [OF s2(2,3)]) simp
    then show ?thesis using notify_inv [OF calm] c False s1(1) s2(1) by (simp add: tls_fire_error_def)
  qed
qed

lemma ssl_error_inv:
  assumes calm: "tls_calm E" and q: "ossl_quiet (te_ssl E) opn intr" and inv: "tls_inv (te_os E) opn intr B True L a sk s"
    and c: "tls_clients s a = Some c" "t_ssl c \<noteq> None"
  shows "\<exists>e s'. tls_ssl_error E a n w s = Some (e, s') \<and> tls_inv (te_os E) opn intr B True L a sk s' \<and>
     (e = ZTK_ERR_AGAIN \<and> net.more s' = net.more s \<or> e = ZTK_ERR_IO)"
proof -
  obtain h where h: "t_ssl c = Some h" using c(2) by blast
  obtain r y where y: "ssl_on E (t_ssl c) (\<lambda>h. SSL_get_error h n) s = Some (r, s\<lparr>nsys := y\<rparr>)"
      "tls_inv (te_os E) opn intr B True L a sk (s\<lparr>nsys := y\<rparr>)"
    using ssl_on_inv [OF q inv c(1) h] by blast
  obtain e y2 where y2: "ssl_do (te_ssl E) ERR_get_error (s\<lparr>nsys := y\<rparr>) = (e, s\<lparr>nsys := y2\<rparr>)"
      "tls_inv (te_os E) opn intr B True L a sk (s\<lparr>nsys := y2\<rparr>)"
    using ssl_do_inv [OF q y(2), of ERR_get_error] by auto
  obtain s3 where s3: "tls_mod_poll E a False (s\<lparr>nsys := y\<rparr>) = Some s3" "tls_inv (te_os E) opn intr B True L a sk s3" "net.more s3 = net.more s"
    using mod_poll_inv [OF y(2)] by auto
  obtain s4 where s4: "tls_mod_poll E a True (s\<lparr>nsys := y\<rparr>) = Some s4" "tls_inv (te_os E) opn intr B True L a sk s4" "net.more s4 = net.more s"
    using mod_poll_inv [OF y(2)] by auto
  let ?m = "Some (take 255 (if sr_ret e \<noteq> 0 then sr_text e else w @ '' ssl_err='' @ int_str (sr_ret r)))"
  obtain s5 where s5: "tls_fire_error E (Some a) (ztk_set_last_error ?m (s\<lparr>nsys := y2\<rparr>)) = Some s5"
      "tls_inv (te_os E) opn intr B True L a sk s5"
    using fire_error_tls [OF calm q tls_inv_msg [OF y2(2)]] by blast
  consider "sr_ret r = SSL_ERROR_WANT_READ" | "sr_ret r \<noteq> SSL_ERROR_WANT_READ" "sr_ret r = SSL_ERROR_WANT_WRITE"
    | "sr_ret r \<noteq> SSL_ERROR_WANT_READ" "sr_ret r \<noteq> SSL_ERROR_WANT_WRITE" by blast
  then show ?thesis
  proof cases
    case 1
    then show ?thesis using c(1) y(1) s3 by (simp add: tls_ssl_error_def)
  next
    case 2
    then show ?thesis using c(1) y(1) s4 by (simp add: tls_ssl_error_def)
  next
    case 3
    then have "tls_ssl_error E a n w s = Some (ZTK_ERR_IO, s5)" using c(1) y(1) y2(1) s5(1) by (simp add: tls_ssl_error_def)
    then show ?thesis using s5(2) by blast
  qed
qed

lemma write_all_inv:
  assumes q: "ossl_quiet (te_ssl E) opn intr" and "tls_inv os opn intr B b L a sk s" and "tls_clients s a = Some c" and "t_ssl c = Some h"
  shows "\<exists>r off' y. ssl_write_all E (Some h) data off s = Some (r, off', s\<lparr>nsys := y\<rparr>) \<and> tls_inv os opn intr B b L a sk (s\<lparr>nsys := y\<rparr>) \<and>
     (r \<noteq> None \<longrightarrow> off' < length data)"
  using assms
proof (induction E "Some h" data off s rule: ssl_write_all.induct)
  case (1 E data off s)
  show ?case
  proof (cases "length data \<le> off")
    case True
    then show ?thesis using 1(3) by (intro exI [of _ None] exI [of _ off] exI [of _ "nsys s"]) (simp add: ssl_write_all.simps)
  next
    case False
    obtain r y where y: "ssl_on E (Some h) (\<lambda>h. SSL_write h (drop off data) (c_int (length data - off))) s = Some (r, s\<lparr>nsys := y\<rparr>)"
        "tls_inv os opn intr B b L a sk (s\<lparr>nsys := y\<rparr>)"
      using ssl_on_inv [OF 1(2-5)] 1(5) by fastforce
    note un = ssl_write_all.simps [of E "Some h" data off s]
    show ?thesis
    proof (cases "0 < sr_ret r")
      case True
      then show ?thesis using 1(1) [OF False y(1) refl True 1(2) y(2)] 1(4,5) un False y(1) by auto
    next
      case no: False
      then show ?thesis using un False y by auto
    qed
  qed
qed

lemma pending_inv:
  assumes inv: "tls_inv os opn intr B b L a sk s" and "tls_clients s a = Some c" and "length (f (t_pending c)) \<le> TLS_SEND_BUF"
  shows "tls_inv os opn intr B b L a sk (upd_tls a (\<lambda>c. c\<lparr>t_pending := f (t_pending c)\<rparr>) s)"
proof -
  obtain p where "t_sock c = sk" "to_poller (t_opts c) = Some p"
      "sock_part os opn intr B tls_cbs a p sk (t_tcp_connected c) s" "tls_good b L c s"
    using inv assms(2) by (auto simp: tls_inv_def)
  then show ?thesis using assms(2,3) by (intro tls_inv_upd [where c = c and p = p]) (auto simp: tls_good_def)
qed

lemma flush_inv:
  assumes calm: "tls_calm E" and q: "ossl_quiet (te_ssl E) opn intr" and inv: "tls_inv (te_os E) opn intr B True L a sk s"
  shows "\<exists>s'. tls_flush_pending E a s = Some s' \<and> tls_inv (te_os E) opn intr B True L a sk s'"
proof -
  obtain c where c: "tls_clients s a = Some c" "tls_good True L c s" using inv by (rule tls_invE)
  show ?thesis
  proof (cases "t_pending c = [] \<or> t_state c \<noteq> TLS_ST_READY \<or> t_ssl c = None")
    case True
    then show ?thesis using c inv by (auto simp: tls_flush_pending_def)
  next
    case False
    then obtain h where h: "t_ssl c = Some h" by blast
    obtain r off y where y: "ssl_write_all E (Some h) (t_pending c) 0 s = Some (r, off, s\<lparr>nsys := y\<rparr>)"
        "tls_inv (te_os E) opn intr B True L a sk (s\<lparr>nsys := y\<rparr>)"
      using write_all_inv [OF q inv c(1) h] by blast
    have cy: "tls_clients (s\<lparr>nsys := y\<rparr>) a = Some c" using c(1) by simp
    show ?thesis
    proof (cases r)
      case None
      have "tls_inv (te_os E) opn intr B True L a sk (upd_tls a (\<lambda>c. c\<lparr>t_pending := []\<rparr>) (s\<lparr>nsys := y\<rparr>))"
        using pending_inv [OF y(2) cy, of "\<lambda>_. []"] by simp
      then show ?thesis using False c(1) h y(1) None by (auto simp: tls_flush_pending_def)
    next
      case (Some n)
      obtain e s2 where s2: "tls_ssl_error E a n ''SSL_write'' (s\<lparr>nsys := y\<rparr>) = Some (e, s2)" "tls_inv (te_os E) opn intr B True L a sk s2"
        using ssl_error_inv [OF calm q y(2) cy] h by blast
      obtain c2 where c2: "tls_clients s2 a = Some c2" "length (t_pending c2) \<le> TLS_SEND_BUF"
        using s2(2) by (auto simp: tls_inv_def tls_good_def)
      then have "tls_inv (te_os E) opn intr B True L a sk (upd_tls a (\<lambda>c. c\<lparr>t_pending := drop off (t_pending c)\<rparr>) s2)"
        using pending_inv [OF s2(2) c2(1), of "drop off"] by simp
      then show ?thesis using False c(1) h y(1) Some s2 by (auto simp: tls_flush_pending_def)
    qed
  qed
qed

lemma recv_inv:
  assumes "tls_calm E" and inv: "tls_inv os opn intr B b L a sk s" and c: "tls_clients s a = Some c"
  shows "\<exists>f s'. tls_op tls_on_recv c s = Some f \<and> (case f of None \<Rightarrow> Some s | Some g \<Rightarrow> te_recv E g a bs u s) = Some s' \<and>
     tls_inv os opn intr B b L a sk s' \<and> nsys s' = nsys s \<and> tls_clients s' = tls_clients s"
proof -
  obtain f where f: "tls_op tls_on_recv c s = Some f" using inv c by (auto simp: tls_inv_def tls_op_def tls_good_def)
  show ?thesis
  proof (cases f)
    case None
    then show ?thesis using f inv by simp
  next
    case (Some g)
    obtain x where "te_recv E g a bs u s = Some (s\<lparr>tls_app := x\<rparr>)" using assms(1) unfolding tls_calm_def by blast
    then show ?thesis using f Some tls_inv_app [OF inv] by simp
  qed
qed

lemma drain_loop_inv:
  assumes calm: "tls_calm E" and q: "ossl_quiet (te_ssl E) opn intr" and fin: "reads_end (te_ssl E) left"
    and "tls_inv (te_os E) opn intr B True L a sk s" and "tls_clients s a = Some c" and h: "t_ssl c = Some h"
  shows "\<exists>s'. tls_drain_loop E a s = Some s' \<and> tls_inv (te_os E) opn intr B True L a sk s'"
  using assms(4,5)
proof (induction "left (nsys s) h" arbitrary: s rule: less_induct)
  case less
  let ?I = "tls_inv (te_os E) opn intr B True L a sk"
  obtain r y where y: "ssl_on E (t_ssl c) (\<lambda>h. SSL_read h TLS_RECV_BUF) s = Some (r, s\<lparr>nsys := y\<rparr>)"
      "te_ssl E (SSL_read h TLS_RECV_BUF) (nsys s) = (r, y)" "?I (s\<lparr>nsys := y\<rparr>)"
    using ssl_on_inv [OF q less.prems h] by blast
  have cy: "tls_clients (s\<lparr>nsys := y\<rparr>) a = Some c" using less.prems(2) by simp
  note un = tls_drain_loop.simps [of E a s]
  consider (got) "0 < sr_ret r" | (eof) "sr_ret r = 0" | (err) "sr_ret r < 0" by linarith
  then show ?case
  proof cases
    case got
    have l: "left y h < left (nsys s) h" using fin y(2) got unfolding reads_end_def by (metis (mono_tags, lifting) case_prod_conv)
    obtain f s2 where s2: "tls_op tls_on_recv c (s\<lparr>nsys := y\<rparr>) = Some f"
        "(case f of None \<Rightarrow> Some (s\<lparr>nsys := y\<rparr>) | Some g \<Rightarrow> te_recv E g a (sr_bytes r) (to_user (t_opts c)) (s\<lparr>nsys := y\<rparr>)) = Some s2"
        "?I s2" "nsys s2 = y" "tls_clients s2 a = Some c"
      using recv_inv [OF calm y(3) cy] cy by fastforce
    have "\<exists>s'. tls_drain_loop E a s2 = Some s' \<and> ?I s'" using less.hyps [OF _ s2(3,5)] l s2(4) by simp
    then show ?thesis using un less.prems(2) y(1) got s2 by simp
  next
    case eof
    then show ?thesis using un less.prems(2) y(1) fire_error_tls [OF calm q y(3)] by simp
  next
    case err
    obtain e y2 where y2: "ssl_on E (t_ssl c) (\<lambda>h. SSL_get_error h (sr_ret r)) (s\<lparr>nsys := y\<rparr>) = Some (e, s\<lparr>nsys := y2\<rparr>)" "?I (s\<lparr>nsys := y2\<rparr>)"
      using ssl_on_inv [OF q y(3) cy h, of "\<lambda>h. SSL_get_error h (sr_ret r)"] by auto
    have cy2: "tls_clients (s\<lparr>nsys := y2\<rparr>) a = Some c" using less.prems(2) by simp
    have m: "\<exists>s'. tls_mod_poll E a w (s\<lparr>nsys := y2\<rparr>) = Some s' \<and> ?I s'" for w using mod_poll_inv [OF y2(2)] by blast
    have x: "\<exists>e s'. tls_ssl_error E a (sr_ret r) ''SSL_read'' (s\<lparr>nsys := y2\<rparr>) = Some (e, s') \<and> ?I s'"
      using ssl_error_inv [OF calm q y2(2) cy2] h by blast
    show ?thesis using un less.prems(2) y(1) y2(1) err m [of False] m [of True] x by auto
  qed
qed

lemma drain_inv:
  assumes calm: "tls_calm E" and q: "ossl_quiet (te_ssl E) opn intr" and fin: "reads_end (te_ssl E) left"
    and inv: "tls_inv (te_os E) opn intr B True L a sk s"
  shows "\<exists>s'. tls_drain_plain E a s = Some s' \<and> tls_inv (te_os E) opn intr B True L a sk s'"
proof -
  obtain c where c: "tls_clients s a = Some c" using inv by (rule tls_invE)
  then show ?thesis using drain_loop_inv [OF calm q fin inv c] inv by (auto simp: tls_drain_plain_def)
qed

lemma state_inv:
  assumes "tls_inv os opn intr B b L a sk s" and "tls_clients s a = Some c" and "t_ssl c \<noteq> None"
  shows "tls_inv os opn intr B b L a sk (upd_tls a (\<lambda>c. c\<lparr>t_state := st\<rparr>) s)"
    and "tls_inv os opn intr B b L a sk (upd_tls a (\<lambda>c. c\<lparr>t_state := st, t_ready_sent := x\<rparr>) s)"
    and "tls_inv os opn intr B b L a sk (upd_tls a (\<lambda>c. c\<lparr>t_ready_sent := x\<rparr>) s)"
proof -
  obtain p where "t_sock c = sk" "to_poller (t_opts c) = Some p"
      "sock_part os opn intr B tls_cbs a p sk (t_tcp_connected c) s" "tls_good b L c s"
    using assms(1,2) by (auto simp: tls_inv_def)
  then show "tls_inv os opn intr B b L a sk (upd_tls a (\<lambda>c. c\<lparr>t_state := st\<rparr>) s)"
    and "tls_inv os opn intr B b L a sk (upd_tls a (\<lambda>c. c\<lparr>t_state := st, t_ready_sent := x\<rparr>) s)"
    and "tls_inv os opn intr B b L a sk (upd_tls a (\<lambda>c. c\<lparr>t_ready_sent := x\<rparr>) s)"
    using assms(2,3) by (auto simp: tls_good_def intro!: tls_inv_upd [where c = c and p = p])
qed

lemma handshake_inv:
  assumes calm: "tls_calm E" and q: "ossl_quiet (te_ssl E) opn intr" and fin: "reads_end (te_ssl E) left"
    and inv: "tls_inv (te_os E) opn intr B True L a sk s"
  shows "\<exists>e s'. tls_do_handshake E a s = Some (e, s') \<and> tls_inv (te_os E) opn intr B True L a sk s'"
proof -
  let ?I = "tls_inv (te_os E) opn intr B True L a sk"
  obtain c where c: "tls_clients s a = Some c" using inv by (rule tls_invE)
  show ?thesis
  proof (cases "t_ssl c")
    case None
    then show ?thesis using c inv by (simp add: tls_do_handshake_def)
  next
    case (Some h)
    obtain r y where y: "ssl_on E (t_ssl c) SSL_connect s = Some (r, s\<lparr>nsys := y\<rparr>)" "?I (s\<lparr>nsys := y\<rparr>)"
      using ssl_on_inv [OF q inv c Some] by blast
    have cy: "tls_clients (s\<lparr>nsys := y\<rparr>) a = Some c" using c by simp
    show ?thesis
    proof (cases "sr_ret r = 1")
      case True
      let ?s1 = "upd_tls a (\<lambda>c. c\<lparr>t_state := TLS_ST_READY\<rparr>) (s\<lparr>nsys := y\<rparr>)"
      have "?I ?s1" using state_inv(1) [OF y(2) cy] Some by simp
      from mod_poll_inv [OF this] obtain s2 where s2: "tls_mod_poll E a False ?s1 = Some s2" "?I s2" "net.more s2 = net.more ?s1" by blast
      then obtain c2 where c2: "tls_clients s2 a = Some c2" "t_ssl c2 \<noteq> None" using tls_more [OF s2(3)] cy Some by simp
      obtain s3 where s3: "(if \<not> t_ready_sent c then tls_notify E tls_on_connect a (upd_tls a (\<lambda>c. c\<lparr>t_ready_sent := True\<rparr>) s2)
          else Some s2) = Some s3" "?I s3"
        using notify_inv [OF calm state_inv(3) [OF s2(2) c2]] s2(2) by (cases "t_ready_sent c") fastforce+
      obtain s4 where s4: "tls_flush_pending E a s3 = Some s4" "?I s4" using flush_inv [OF calm q s3(2)] by blast
      obtain s5 where s5: "tls_drain_plain E a s4 = Some s5" "?I s5" using drain_inv [OF calm q fin s4(2)] by blast
      have "tls_do_handshake E a s = Some (ZTK_OK, s5)"
        using c Some y(1) True s2(1) s3(1) s4(1) s5(1) by (simp add: tls_do_handshake_def)
      then show ?thesis using s5(2) by blast
    next
      case False
      then show ?thesis using c Some y(1) ssl_error_inv [OF calm q y(2) cy, of "sr_ret r" "''SSL_connect''"]
        by (auto simp: tls_do_handshake_def)
    qed
  qed
qed

lemma new_ssl_inv:
  assumes inv: "tls_inv os opn intr B True L a sk s" and c: "tls_clients s a = Some c" and n: "t_ssl c = None" and t: "t_tcp_connected c"
    and h: "h \<notin> live_ssls s"
  shows "tls_inv os opn intr B True L a sk (upd_tls a (\<lambda>c. c\<lparr>t_ssl := Some h\<rparr>) (s\<lparr>live_ssls := insert h (live_ssls s)\<rparr>))"
proof -
  obtain p where "t_sock c = sk" "to_poller (t_opts c) = Some p"
      "sock_part os opn intr B tls_cbs a p sk (t_tcp_connected c) s" "tls_good True L c s"
    using inv c by (auto simp: tls_inv_def)
  then show ?thesis using c n t h by (intro tls_inv_upd [where c = c and p = p]) (auto simp: tls_good_def)
qed

lemma sock_fd_defined:
  assumes "tls_inv os opn intr B b L a sk s" and "socks s' = socks s"
  shows "\<exists>fd. ztk_socket_fd sk s' = Some fd"
  using assms by (cases sk) (auto simp: ztk_socket_fd_def tls_inv_def sock_part_def)

lemma start_ssl_inv:
  assumes calm: "tls_calm E" and q: "ossl_quiet (te_ssl E) opn intr" and fin: "reads_end (te_ssl E) left"
    and inv: "tls_inv (te_os E) opn intr B True L a sk s" and c: "tls_clients s a = Some c" "t_ssl c = None" "t_tcp_connected c"
  shows "\<exists>s'. tls_start_ssl E a s = Some s' \<and> tls_inv (te_os E) opn intr B True L a sk s'"
proof -
  let ?I = "tls_inv (te_os E) opn intr B True L a sk"
  have sk: "t_sock c = sk" using inv c(1) by (auto simp: tls_inv_def)
  obtain x k where x: "to_ssl_ctx (t_opts c) = Some k" "ssl_ctxs s k = Some \<lparr>sc_ctx = Some x\<rparr>" "x \<in> live_ctxs s"
    using inv c(1) by (auto simp: tls_inv_def tls_good_def)
  obtain r y where y: "ssl_do (te_ssl E) (SSL_new x) s = (r, s\<lparr>nsys := y\<rparr>)" "?I (s\<lparr>nsys := y\<rparr>)"
    using ssl_do_inv [OF q inv] by blast
  have cy: "tls_clients (s\<lparr>nsys := y\<rparr>) a = Some c" using c(1) by simp
  have c0: "c\<lparr>t_ssl := None\<rparr> = c" using c(2) by simp
  show ?thesis
  proof (cases "sr_ptr r = None \<or> the (sr_ptr r) \<in> live_ssls s")
    case True
    have "upd_tls a (\<lambda>c. c\<lparr>t_ssl := None\<rparr>) (s\<lparr>nsys := y\<rparr>) = s\<lparr>nsys := y\<rparr>"
      using c(1) c0 by (simp add: upd_tls_def fun_upd_idem)
    then show ?thesis using c(1) x y(1) True fire_error_tls [OF calm q tls_inv_msg [OF y(2)]]
      by (auto simp: tls_start_ssl_def)
  next
    case False
    then obtain h where h: "sr_ptr r = Some h" "h \<notin> live_ssls s" by auto
    let ?s2 = "upd_tls a (\<lambda>c. c\<lparr>t_ssl := Some h\<rparr>) (s\<lparr>nsys := y, live_ssls := insert h (live_ssls s)\<rparr>)"
    have i2: "?I ?s2" using new_ssl_inv [OF y(2) cy c(2,3), of h] h(2) by simp
    obtain fd where fd: "ztk_socket_fd sk ?s2 = Some fd" using sock_fd_defined [OF i2 refl] by blast
    obtain r3 y3 where s3: "ssl_do (te_ssl E) (SSL_set_fd h fd) ?s2 = (r3, ?s2\<lparr>nsys := y3\<rparr>)" "?I (?s2\<lparr>nsys := y3\<rparr>)"
      using ssl_do_inv [OF q i2] by blast
    let ?sni = "if t_sni_name c \<noteq> [] then t_sni_name c else t_host_for_connect c"
    let ?s4 = "if ?sni \<noteq> [] then snd (ssl_do (te_ssl E) (SSL_set_tlsext_host_name h ?sni) (?s2\<lparr>nsys := y3\<rparr>)) else ?s2\<lparr>nsys := y3\<rparr>"
    obtain y4 where s4: "?s4 = ?s2\<lparr>nsys := y4\<rparr>" "?I (?s2\<lparr>nsys := y4\<rparr>)"
      using ssl_do_inv [OF q s3(2), of "SSL_set_tlsext_host_name h ?sni"] s3(2) by (cases "?sni = []") fastforce+
    let ?s5 = "upd_tls a (\<lambda>c. c\<lparr>t_state := TLS_ST_HANDSHAKE, t_ready_sent := False\<rparr>) (?s2\<lparr>nsys := y4\<rparr>)"
    have "tls_clients (?s2\<lparr>nsys := y4\<rparr>) a = Some (c\<lparr>t_ssl := Some h\<rparr>)" using c(1) by simp
    from state_inv(2) [OF s4(2) this, where st = TLS_ST_HANDSHAKE and x = False] have "?I ?s5" by simp
    from mod_poll_inv [OF this] obtain s6 where s6: "tls_mod_poll E a True ?s5 = Some s6" "?I s6" by blast
    obtain e s7 where s7: "tls_do_handshake E a s6 = Some (e, s7)" "?I s7" using handshake_inv [OF calm q fin s6(2)] by blast
    obtain s8 where s8: "tls_fire_error E (Some a) (ztk_set_last_error (Some ''SSL_set_fd failed'') (?s2\<lparr>nsys := y3\<rparr>)) = Some s8" "?I s8"
      using fire_error_tls [OF calm q tls_inv_msg [OF s3(2)]] by blast
    have "tls_start_ssl E a s = (if sr_ret r3 \<noteq> 1 then Some s8 else Some s7)"
      using c(1) x y(1) h sk fd s3(1) s4(1) s6(1) s7(1) s8(1) by (simp add: tls_start_ssl_def Let_def)
    then show ?thesis using s7(2) s8(2) by simp
  qed
qed

text \<open>The assumptions that the rest of the section shares.\<close>

definition tls_world :: "('f, 'w, 'x) tls_env \<Rightarrow> ('w \<Rightarrow> int set) \<Rightarrow> ('w \<Rightarrow> int \<Rightarrow> int \<rightharpoonup> u32) \<Rightarrow> ('w sys \<Rightarrow> nat \<Rightarrow> nat) \<Rightarrow> bool" where
  "tls_world E opn intr left \<longleftrightarrow> tls_calm E \<and> ossl_quiet (te_ssl E) opn intr \<and> reads_end (te_ssl E) left"

lemma tls_worldD:
  assumes "tls_world E opn intr left" and "tls_inv (te_os E) opn intr B True L a sk s"
  shows "\<exists>s'. tls_fire_error E (Some a) s = Some s' \<and> tls_inv (te_os E) opn intr B True L a sk s'"
    and "\<exists>e s'. tls_do_handshake E a s = Some (e, s') \<and> tls_inv (te_os E) opn intr B True L a sk s'"
    and "\<exists>s'. tls_flush_pending E a s = Some s' \<and> tls_inv (te_os E) opn intr B True L a sk s'"
    and "\<exists>s'. tls_drain_plain E a s = Some s' \<and> tls_inv (te_os E) opn intr B True L a sk s'"
    and "tls_clients s a = Some c \<Longrightarrow> t_ssl c = None \<Longrightarrow> t_tcp_connected c \<Longrightarrow>
      \<exists>s'. tls_start_ssl E a s = Some s' \<and> tls_inv (te_os E) opn intr B True L a sk s'"
  using assms fire_error_tls [of E opn intr B L a sk s] handshake_inv [of E opn intr left B L a sk s]
    flush_inv [of E opn intr B L a sk s] drain_inv [of E opn intr left B L a sk s]
    start_ssl_inv [of E opn intr left B L a sk s c]
  by (auto simp: tls_world_def)

lemma check_tls:
  assumes inv: "tls_inv os opn intr B True L a (Some k) s" and c: "tls_clients s a = Some c"
  shows "\<exists>err s'. ztk_socket_check_connect os (Some k) s = Some (err, s') \<and> tls_clients s' a = Some c \<and> net.more s' = net.more s \<and>
     (\<exists>p. to_poller (t_opts c) = Some p \<and> sock_part os opn intr B tls_cbs a p (Some k) (t_tcp_connected c \<or> err = ZTK_OK) s') \<and>
     (err \<noteq> ZTK_OK \<longrightarrow> tls_inv os opn intr B True L a (Some k) s')"
proof -
  obtain p where p: "t_sock c = Some k" "to_poller (t_opts c) = Some p" "tls_good True L c s"
      "sock_part os opn intr B tls_cbs a p (Some k) (t_tcp_connected c) s"
    using inv c by (auto simp: tls_inv_def)
  obtain err s' where s': "ztk_socket_check_connect os (Some k) s = Some (err, s')"
      "sock_part os opn intr B tls_cbs a p (Some k) (t_tcp_connected c \<or> err = ZTK_OK) s'" "net.more s' = net.more s"
    using check_part [OF p(4)] by blast
  have "tls_inv os opn intr B True L a (Some k) s'" if "err \<noteq> ZTK_OK"
    using tls_inv_sock [OF c p(1-3) s'(3)] s'(2) that by simp
  then show ?thesis using s' p c tls_more [OF s'(3)] by auto
qed

lemma connected_inv:
  assumes "tls_clients s a = Some c" and "t_sock c = sk" and "to_poller (t_opts c) = Some p" and "tls_good True L c s"
    and "sock_part os opn intr B tls_cbs a p sk True s"
  shows "tls_inv os opn intr B True L a sk (upd_tls a (\<lambda>c. c\<lparr>t_tcp_connected := True\<rparr>) s)"
  using assms by (intro tls_inv_upd [where c = c and p = p]) (auto simp: tls_good_def)

lemma on_writable_tls:
  assumes w: "tls_world E opn intr left" and inv: "tls_inv (te_os E) opn intr B True L a (Some k) s"
  shows "\<exists>s'. sock_on_writable E k (Some a) s = Some s' \<and> tls_inv (te_os E) opn intr B True L a (Some k) s'"
proof -
  let ?I = "tls_inv (te_os E) opn intr B True L a (Some k)"
  obtain c where c: "tls_clients s a = Some c" "t_sock c = Some k" "tls_good True L c s" using inv by (rule tls_invE)
  show ?thesis
  proof (cases "t_closing c \<or> t_tcp_connected c")
    case True
    have "\<exists>s2. Option.bind (tls_flush_pending E a s) (tls_drain_plain E a) = Some s2 \<and> ?I s2"
      using tls_worldD(3) [OF w inv] tls_worldD(4) [OF w] by fastforce
    then show ?thesis using True c(1) inv tls_worldD(2) [OF w inv] by (auto simp: sock_on_writable_def)
  next
    case False
    obtain err s1 p where s1: "ztk_socket_check_connect (te_os E) (Some k) s = Some (err, s1)" "tls_clients s1 a = Some c"
        "net.more s1 = net.more s" "to_poller (t_opts c) = Some p"
        "sock_part (te_os E) opn intr B tls_cbs a p (Some k) (t_tcp_connected c \<or> err = ZTK_OK) s1" "err \<noteq> ZTK_OK \<Longrightarrow> ?I s1"
      using check_tls [OF inv c(1)] by blast
    show ?thesis
    proof (cases "err = ZTK_OK")
      case True
      let ?s = "upd_tls a (\<lambda>c. c\<lparr>t_tcp_connected := True\<rparr>) s1"
      have "tls_good True L c s1" using c(3) tls_good_more [OF s1(3)] by simp
      then have i: "?I ?s" using connected_inv [OF s1(2) c(2) s1(4)] s1(5) True by simp
      have "t_ssl c = None" using c(3) False by (auto simp: tls_good_def)
      then have "\<exists>s'. tls_start_ssl E a ?s = Some s' \<and> ?I s'"
        using tls_worldD(5) [OF w i, of "c\<lparr>t_tcp_connected := True\<rparr>"] s1(2) by simp
      then show ?thesis using False c(1) s1(1) True by (simp add: sock_on_writable_def)
    next
      case bad: False
      then show ?thesis using False c(1) s1(1) s1(6) tls_worldD(1) [OF w s1(6) [OF bad]] by (auto simp: sock_on_writable_def)
    qed
  qed
qed

lemma on_readable_tls:
  assumes w: "tls_world E opn intr left" and inv: "tls_inv (te_os E) opn intr B True L a (Some k) s"
  shows "\<exists>s'. sock_on_readable E k (Some a) s = Some s' \<and> tls_inv (te_os E) opn intr B True L a (Some k) s'"
proof -
  let ?I = "tls_inv (te_os E) opn intr B True L a (Some k)"
  obtain c where c: "tls_clients s a = Some c" using inv by (rule tls_invE)
  obtain s1 where s1: "(if \<not> t_tcp_connected c then sock_on_writable E k (Some a) s else Some s) = Some s1" "?I s1"
    using on_writable_tls [OF w inv] inv by (cases "t_tcp_connected c") auto
  obtain c1 where c1: "tls_clients s1 a = Some c1" using s1(2) by (rule tls_invE)
  show ?thesis
    using c s1 c1 inv tls_worldD(2,4) [OF w s1(2)] by (auto simp: sock_on_readable_def)
qed

lemma tls_live:
  assumes "tls_inv os opn intr B b L a (Some k) s"
  obtains so where "socks s k = Some so" and "owned_sock tls_cbs a so"
  using assms by (auto simp: tls_inv_def sock_part_def)

lemma fire_tls:
  assumes w: "tls_world E opn intr left" and inv: "tls_inv (te_os E) opn intr B True L a (Some k) s" and which: "which no_cbs = None"
  shows "\<exists>s'. fire (tls_call E) which k s = Some s' \<and> tls_inv (te_os E) opn intr B True L a (Some k) s'"
proof -
  obtain so where so: "socks s k = Some so" "owned_sock tls_cbs a so" using inv by (rule tls_live)
  have call: "\<exists>s'. tls_call E f k (Some a) s = Some s' \<and> tls_inv (te_os E) opn intr B True L a (Some k) s'" for f
    using on_readable_tls [OF w inv] on_writable_tls [OF w inv] tls_worldD(1) [OF w inv]
    by (cases f) (simp_all add: tls_call_def sock_on_error_def)
  consider "s_cb so = no_cbs" | "s_user so = Some a" using so(2) by (auto simp: owned_sock_def)
  then show ?thesis
  proof cases
    case 1
    then show ?thesis using so which inv by (simp add: fire_def)
  next
    case 2
    then show ?thesis using so inv call by (cases "which (s_cb so)") (simp_all add: fire_def)
  qed
qed

lemma mod_events_tls:
  assumes "tls_inv os opn intr B True L a (Some k) s"
  shows "\<exists>e s'. ztk_socket_mod_events os (Some k) ev s = Some (e, s') \<and> tls_inv os opn intr B True L a (Some k) s'"
proof -
  obtain c p where c: "tls_clients s a = Some c" "t_sock c = Some k" "to_poller (t_opts c) = Some p"
      "sock_part os opn intr B tls_cbs a p (Some k) (t_tcp_connected c) s" "tls_good True L c s"
    using assms by (rule tls_invE)
  then show ?thesis using mod_events_part [OF c(4)] tls_inv_sock [OF c(1-3,5)] by blast
qed

lemma settled_tls:
  assumes "tls_inv os opn intr B True L a (Some k) s"
  shows "\<exists>err m. ztk_socket_check_connect os (Some k) s = Some (err, m) \<and>
     (if err = ZTK_OK then tls_inv os opn intr B True L a (Some k)
        (upd_sock k (\<lambda>s. s\<lparr>s_connect_pending := False, s_type := ZTK_SOCK_TCP_CONNECTED\<rparr>) m)
      else tls_inv os opn intr B True L a (Some k) m)"
proof -
  obtain c where c: "tls_clients s a = Some c" "t_sock c = Some k" "tls_good True L c s" using assms by (rule tls_invE)
  obtain err m p where m: "ztk_socket_check_connect os (Some k) s = Some (err, m)" "tls_clients m a = Some c"
      "net.more m = net.more s" "to_poller (t_opts c) = Some p"
      "sock_part os opn intr B tls_cbs a p (Some k) (t_tcp_connected c \<or> err = ZTK_OK) m"
      "err \<noteq> ZTK_OK \<Longrightarrow> tls_inv os opn intr B True L a (Some k) m"
    using check_tls [OF assms c(1)] by blast
  let ?m = "upd_sock k (\<lambda>s. s\<lparr>s_connect_pending := False, s_type := ZTK_SOCK_TCP_CONNECTED\<rparr>) m"
  have more: "net.more ?m = net.more s" using m(3) by simp
  have "tls_inv os opn intr B True L a (Some k) ?m" if "err = ZTK_OK"
    by (rule tls_inv_sock [OF c(1,2) m(4) c(3) more]) (use settled_part m(5) that in simp)
  then show ?thesis using m(1,6) by auto
qed

interpretation tls_cl: socket_user "te_os E" "tls_call E" k
    "\<lambda>s. tls_world E opn intr left \<and> tls_inv (te_os E) opn intr B True L a (Some k) s"
  for E :: "('f, 'w, 'x) tls_env" and opn intr left B L a k
proof (unfold_locales, goal_cases)
  case (1 n)
  then show ?case by (auto elim: tls_live)
next
  case (2 n ev)
  then show ?case using mod_events_tls by fastforce
next
  case (3 n)
  then show ?case using settled_tls [of "te_os E" opn intr B L a k n] by (auto split: if_splits)
qed (use fire_tls in \<open>fastforce simp: no_cbs_def\<close>)+

section \<open>The life of a client\<close>

lemma tls_close_inv:
  assumes q: "ossl_quiet (te_ssl E) opn intr" and inv: "tls_inv (te_os E) opn intr B True L a sk s"
  shows "\<exists>s' sk'. ztk_tls_client_close E (Some a) s = Some s' \<and> tls_inv (te_os E) opn intr B True L a sk' s'"
proof -
  obtain c where c: "tls_clients s a = Some c" "t_sock c = sk" using inv by (rule tls_invE)
  show ?thesis
  proof (cases "t_closing c")
    case True
    then show ?thesis using c inv by (auto simp: ztk_tls_client_close_def)
  next
    case False
    let ?s = "upd_tls a (\<lambda>c. c\<lparr>t_closing := True\<rparr>) s" and ?c = "c\<lparr>t_closing := True\<rparr>"
    obtain s1 where s1: "ztk_socket_detach_poller (te_os E) sk ?s = Some (ZTK_OK, s1)"
        "tls_inv (te_os E) opn intr B True L a sk s1" "tls_clients s1 a = Some ?c"
      using detach_tls [OF closing_inv [OF inv], of True] c(1) by auto
    obtain s2 where s2: "(if t_ssl c \<noteq> None then do { (_, s2) \<leftarrow> ssl_on E (t_ssl c) SSL_shutdown s1; tls_drop_ssl E a s2 }
          else Some s1) = Some s2" "tls_inv (te_os E) opn intr B False L a sk s2" "tls_clients s2 a = Some (?c\<lparr>t_ssl := None\<rparr>)"
    proof (cases "t_ssl c")
      case None
      have "?c\<lparr>t_ssl := None\<rparr> = ?c" using None by simp
      then show ?thesis using that [of s1] None s1(3) tls_inv_weak [OF s1(2)] by simp
    next
      case (Some h)
      obtain r y where y: "ssl_on E (t_ssl c) SSL_shutdown s1 = Some (r, s1\<lparr>nsys := y\<rparr>)" "tls_inv (te_os E) opn intr B True L a sk (s1\<lparr>nsys := y\<rparr>)"
        using ssl_on_inv [OF q s1(2,3), of h SSL_shutdown] Some by auto
      have "tls_clients (s1\<lparr>nsys := y\<rparr>) a = Some ?c" using s1(3) by simp
      from drop_ssl_inv [OF q y(2) this] show ?thesis using that y(1) Some by auto
    qed
    obtain p where p: "to_poller (t_opts c) = Some p" "sock_part (te_os E) opn intr B tls_cbs a p sk (t_tcp_connected c) s2"
        "tls_good False L (?c\<lparr>t_ssl := None\<rparr>) s2"
      using s2(2,3) by (auto simp: tls_inv_def)
    obtain s3 where s3: "ztk_socket_destroy (te_os E) sk s2 = Some s3" "sock_part (te_os E) opn intr B tls_cbs a p None False s3"
        "net.more s3 = net.more s2"
      using destroy_part [OF p(2)] by blast
    obtain k s4 where s4: "ztk_socket_create s3 = (k, s4)" by (cases "ztk_socket_create s3")
    have p4: "sock_part (te_os E) opn intr B tls_cbs a p k False s4" "net.more s4 = net.more s2"
      using create_part [OF s3(2) s4] s3(3) by auto
    have c4: "tls_clients s4 a = Some (?c\<lparr>t_ssl := None\<rparr>)" "tls_good False L (?c\<lparr>t_ssl := None\<rparr>) s4"
      using tls_more [OF p4(2)] tls_good_more [OF p4(2)] s2(3) p(3) by auto
    let ?s6 = "tls_reset a (upd_tls a (\<lambda>c. c\<lparr>t_sock := k\<rparr>) s4)"
    have "tls_inv (te_os E) opn intr B True L a k ?s6"
      unfolding tls_reset_def using c4 p(1) p4(1)
      by (intro tls_inv_upd [where c = "?c\<lparr>t_ssl := None, t_sock := k\<rparr>" and p = p]) (auto simp: tls_good_def)
    from closing_inv [OF this, of False] show ?thesis
      using c False s1(1) s2(1) s3(1) s4 by (auto simp: ztk_tls_client_close_def)
  qed
qed

lemma tls_dial:
  assumes w: "tls_world E opn intr left" and c: "tls_clients s a = Some c" "t_sock c = Some k" "to_poller (t_opts c) = Some p"
    and new: "tls_good True L c s" "\<not> t_tcp_connected c" "t_ssl c = None"
    and part: "sock_part (te_os E) opn intr B tls_cbs a p (Some k) False s"
  shows "\<exists>err pend s4 err' s5. ztk_socket_connect (te_os E) (Some k) host port s = Some ((err, pend), s4) \<and>
     tls_inv (te_os E) opn intr B True L a (Some k) s4 \<and>
     ztk_socket_attach_poller (te_os E) (Some k) (Some p) (Some tls_cbs) (Some a) s4 = Some (err', s5) \<and>
     tls_inv (te_os E) opn intr B True L a (Some k) s5 \<and>
     (err = ZTK_OK \<and> pend \<noteq> Some True \<longrightarrow> (\<exists>s'. tls_start_ssl E a (upd_tls a (\<lambda>c. c\<lparr>t_tcp_connected := True\<rparr>) s5) = Some s' \<and>
        tls_inv (te_os E) opn intr B True L a (Some k) s'))"
proof -
  let ?I = "tls_inv (te_os E) opn intr B True L a (Some k)" and ?P = "sock_part (te_os E) opn intr B tls_cbs a p (Some k)"
  have keep: "?I t" "tls_clients t a = Some c" "tls_good True L c t" if "net.more t = net.more s" "?P est t" for t est
    using tls_inv_sock [OF c new(1) that(1)] sock_part_apart [OF that(2)] new(1,2) c(1) tls_more [OF that(1)] tls_good_more [OF that(1)]
    by simp_all
  obtain err pend s4 where s4: "ztk_socket_connect (te_os E) (Some k) host port s = Some ((err, pend), s4)"
      "?P (err = ZTK_OK \<and> pend \<noteq> Some True) s4" "net.more s4 = net.more s"
    using dial_part [OF part, of host port] by blast
  obtain err' s5 where s5: "ztk_socket_attach_poller (te_os E) (Some k) (Some p) (Some tls_cbs) (Some a) s4 = Some (err', s5)"
      "?P (err = ZTK_OK \<and> pend \<noteq> Some True) s5" "net.more s5 = net.more s"
    using attach_part [OF s4(2)] s4(3) by force
  note k5 = keep [OF s5(3,2)]
  let ?s6 = "upd_tls a (\<lambda>c. c\<lparr>t_tcp_connected := True\<rparr>) s5"
  have "\<exists>s'. tls_start_ssl E a ?s6 = Some s' \<and> ?I s'" if "err = ZTK_OK" "pend \<noteq> Some True"
  proof -
    have "?I ?s6" using connected_inv [OF k5(2) c(2,3) k5(3)] s5(2) that by simp
    from tls_worldD(5) [OF w this, of "c\<lparr>t_tcp_connected := True\<rparr>"] show ?thesis using k5(2) new(3) by simp
  qed
  then show ?thesis using s4(1) s5(1) keep(1) [OF s4(3,2)] k5(1) by blast
qed

lemma tls_connect_inv:
  assumes w: "tls_world E opn intr left" and inv: "tls_inv (te_os E) opn intr B True L a sk s"
  shows "\<exists>e s'. ztk_tls_client_connect E (Some a) host port s = Some (e, s') \<and> tls_inv (te_os E) opn intr B True L a sk s'"
proof -
  let ?I = "tls_inv (te_os E) opn intr B True L a sk" and ?P = "\<lambda>p. sock_part (te_os E) opn intr B tls_cbs a p sk"
  have q: "ossl_quiet (te_ssl E) opn intr" using w by (simp add: tls_world_def)
  obtain c where c: "tls_clients s a = Some c" "t_sock c = sk" using inv by (rule tls_invE)
  show ?thesis
  proof (cases "host = None \<or> t_closing c")
    case True
    then show ?thesis using c inv by (cases host) (auto simp: ztk_tls_client_connect_def)
  next
    case False
    then obtain h where h: "host = Some h" "\<not> t_closing c" by auto
    obtain s1 where s1: "ztk_socket_detach_poller (te_os E) sk s = Some (ZTK_OK, s1)" "?I s1" "tls_clients s1 a = Some c"
      using detach_tls [OF inv] c(1) by auto
    obtain s2 where s2: "tls_drop_ssl E a s1 = Some s2" "tls_inv (te_os E) opn intr B False L a sk s2"
        "tls_clients s2 a = Some (c\<lparr>t_ssl := None\<rparr>)"
      using drop_ssl_inv [OF q s1(2,3)] by blast
    let ?f = "\<lambda>c. c\<lparr>t_host_for_connect := take 255 h, t_sni_name := (if t_sni_name c = [] then take 255 h else t_sni_name c)\<rparr>"
    let ?s3 = "upd_tls a ?f (tls_reset a s2)"
    let ?c = "?f (c\<lparr>t_ssl := None, t_state := TLS_ST_TCP, t_tcp_connected := False, t_ready_sent := False, t_pending := []\<rparr>)"
    obtain p where p: "to_poller (t_opts c) = Some p" "?P p (t_tcp_connected c) s2" "tls_good False L (c\<lparr>t_ssl := None\<rparr>) s2"
      using s2(2,3) by (auto simp: tls_inv_def)
    have c3: "tls_clients ?s3 a = Some ?c" "?P p False ?s3" "tls_good True L ?c ?s3"
      using s2(3) p sock_part_apart [OF p(2)] by (auto simp: tls_reset_def tls_good_def)
    have pc: "t_sock ?c = sk" "to_poller (t_opts ?c) = Some p" "\<not> t_tcp_connected ?c" "t_ssl ?c = None" using c(2) p(1) by auto
    show ?thesis
    proof (cases sk)
      case None
      have "?I ?s3" using c3 pc by (auto simp: tls_inv_def)
      then show ?thesis using None c h s1(1) s2(1) by (auto simp: ztk_tls_client_connect_def ztk_socket_connect_def Let_def)
    next
      case (Some k)
      obtain err pend s4 err' s5 where d: "ztk_socket_connect (te_os E) sk host port ?s3 = Some ((err, pend), s4)" "?I s4"
          "ztk_socket_attach_poller (te_os E) sk (Some p) (Some tls_cbs) (Some a) s4 = Some (err', s5)" "?I s5"
          "err = ZTK_OK \<and> pend \<noteq> Some True \<Longrightarrow>
             \<exists>s'. tls_start_ssl E a (upd_tls a (\<lambda>c. c\<lparr>t_tcp_connected := True\<rparr>) s5) = Some s' \<and> ?I s'"
        using tls_dial [OF w c3(1) pc(1) [unfolded Some] pc(2) c3(3) pc(3,4) c3(2) [unfolded Some], of host port]
        unfolding Some by blast
      have "ztk_tls_client_connect E (Some a) host port s =
          (if err \<noteq> ZTK_OK then Some (err, s4) else if err' \<noteq> ZTK_OK then Some (err', s5)
           else if pend \<noteq> Some True
           then map_option (Pair ZTK_OK) (tls_start_ssl E a (upd_tls a (\<lambda>c. c\<lparr>t_tcp_connected := True\<rparr>) s5))
           else Some (ZTK_OK, s5))"
        using c h s1(1) s2(1) d(1,3) p(1) by (simp add: ztk_tls_client_connect_def Let_def)
      then show ?thesis using d(2,4,5) by (cases "pend = Some True") auto
    qed
  qed
qed

lemma queue_spec:
  assumes c: "tls_clients s a = Some c" "length (t_pending c) \<le> TLS_SEND_BUF" and len: "length rest < 2 ^ 63"
  shows "tls_queue a rest err s = Some (if TLS_SEND_BUF < length (t_pending c) + length rest then (ZTK_ERR_BUFFER_TOO_SMALL, s)
     else (err, upd_tls a (\<lambda>c. c\<lparr>t_pending := t_pending c @ rest\<rparr>) s))"
proof -
  have small: "n < 2 ^ 64 \<Longrightarrow> unat (of_nat n :: size_t) = n" for n :: nat by (intro of_nat_inverse) auto
  have "length (t_pending c) + length rest < 2 ^ 64" using c(2) len by (simp add: TLS_SEND_BUF_def)
  then have "unat (of_nat (length (t_pending c)) + of_nat (length rest) :: size_t) = length (t_pending c) + length rest"
    "unat (of_nat TLS_SEND_BUF :: size_t) = TLS_SEND_BUF"
    using small [of "length (t_pending c) + length rest"] small [of TLS_SEND_BUF] by (simp_all add: TLS_SEND_BUF_def)
  then show ?thesis using c(1) by (simp add: tls_queue_def word_less_nat_alt)
qed

lemma queue_inv:
  assumes inv: "tls_inv os opn intr B True L a sk s" and len: "length rest < 2 ^ 63"
  shows "\<exists>e s'. tls_queue a rest err s = Some (e, s') \<and> tls_inv os opn intr B True L a sk s'"
proof -
  obtain c where c: "tls_clients s a = Some c" "length (t_pending c) \<le> TLS_SEND_BUF"
    using inv by (auto simp: tls_inv_def tls_good_def)
  show ?thesis using queue_spec [OF c len, of err] inv pending_inv [OF inv c(1), of "\<lambda>x. x @ rest"] by auto
qed

lemma tls_send_inv:
  assumes w: "tls_world E opn intr left" and inv: "tls_inv (te_os E) opn intr B True L a sk s"
    and len: "case data of None \<Rightarrow> True | Some m \<Rightarrow> length m < 2 ^ 63"
  shows "\<exists>e s'. ztk_tls_client_send E (Some a) data s = Some (e, s') \<and> tls_inv (te_os E) opn intr B True L a sk s'"
proof -
  have q: "tls_calm E" "ossl_quiet (te_ssl E) opn intr" using w by (simp_all add: tls_world_def)
  obtain c where c: "tls_clients s a = Some c" using inv by (rule tls_invE)
  show ?thesis
  proof (cases "data = None \<or> t_closing c \<or> data = Some []")
    case True
    then show ?thesis using c inv by (cases data) (auto simp: ztk_tls_client_send_def)
  next
    case False
    then obtain m where m: "data = Some m" "m \<noteq> []" "\<not> t_closing c" by auto
    have lm: "length m < 2 ^ 63" using len m(1) by simp
    show ?thesis
    proof (cases "t_state c \<noteq> TLS_ST_READY \<or> t_ssl c = None")
      case True
      then show ?thesis using c m queue_inv [OF inv lm] by (simp add: ztk_tls_client_send_def)
    next
      case ready: False
      then obtain h where h: "t_ssl c = Some h" by blast
      obtain r off y where y: "ssl_write_all E (Some h) m 0 s = Some (r, off, s\<lparr>nsys := y\<rparr>)"
          "tls_inv (te_os E) opn intr B True L a sk (s\<lparr>nsys := y\<rparr>)"
        using write_all_inv [OF q(2) inv c h] by blast
      show ?thesis
      proof (cases r)
        case None
        then show ?thesis using c m ready h y by (simp add: ztk_tls_client_send_def)
      next
        case (Some n)
        have cy: "tls_clients (s\<lparr>nsys := y\<rparr>) a = Some c" using c by simp
        obtain e s2 where s2: "tls_ssl_error E a n ''SSL_write'' (s\<lparr>nsys := y\<rparr>) = Some (e, s2)" "tls_inv (te_os E) opn intr B True L a sk s2"
          using ssl_error_inv [OF q y(2) cy] h by blast
        have "length (drop off m) < 2 ^ 63" using lm by simp
        from queue_inv [OF s2(2) this] show ?thesis using c m ready h y(1) Some s2 by (simp add: ztk_tls_client_send_def)
      qed
    qed
  qed
qed

lemma tls_destroy_inv:
  assumes q: "ossl_quiet (te_ssl E) opn intr" and inv: "tls_inv (te_os E) opn intr B True L a sk s"
  shows "\<exists>s'. ztk_tls_client_destroy E (Some a) s = Some s' \<and> net_ok (te_os E) opn intr B s' \<and> live_ssls s' = L \<and> tls_clients s' a = None"
proof -
  obtain s1 sk1 where s1: "ztk_tls_client_close E (Some a) s = Some s1" "tls_inv (te_os E) opn intr B True L a sk1 s1"
    using tls_close_inv [OF q inv] by blast
  obtain c1 where c1: "tls_clients s1 a = Some c1" "t_sock c1 = sk1" using s1(2) by (rule tls_invE)
  obtain s2 where s2: "tls_drop_ssl E a s1 = Some s2" "tls_inv (te_os E) opn intr B False L a sk1 s2"
      "tls_clients s2 a = Some (c1\<lparr>t_ssl := None\<rparr>)"
    using drop_ssl_inv [OF q s1(2) c1(1)] by blast
  obtain p where p: "sock_part (te_os E) opn intr B tls_cbs a p sk1 (t_tcp_connected c1) s2" "live_ssls s2 = L"
    using s2(2,3) by (auto simp: tls_inv_def tls_good_def)
  obtain s3 where s3: "ztk_socket_destroy (te_os E) sk1 s2 = Some s3" "sock_part (te_os E) opn intr B tls_cbs a p None False s3"
      "net.more s3 = net.more s2"
    using destroy_part [OF p(1)] by blast
  have "(if sk1 \<noteq> None then ztk_socket_destroy (te_os E) sk1 s2 else Some s2) = Some s3"
    using s3(1) by (auto simp: ztk_socket_destroy_def)
  then have "ztk_tls_client_destroy E (Some a) s = Some (s3\<lparr>tls_clients := (tls_clients s3)(a := None)\<rparr>)"
    using s1(1) s2(1,3) c1(2) by (cases sk1) (simp_all add: ztk_tls_client_destroy_def)
  moreover have "net_ok (te_os E) opn intr B (s3\<lparr>tls_clients := (tls_clients s3)(a := None)\<rparr>)" "live_ssls s3 = L"
    using s3(2) tls_more [OF s3(3)] p(2) by (simp_all add: sock_part_def net_ok_def)
  ultimately show ?thesis by simp
qed

datatype tls_action = TlConnect "string option" u16 | TlClose | TlSend "mem option" | TlEvent int u32

text \<open>An event is what the poller calls for the socket the client has at that time. An object has at most $2^{63}$ bytes.\<close>

fun tls_step :: "('f, 'w, 'x) tls_env \<Rightarrow> nat \<Rightarrow> tls_action \<Rightarrow> ('f, 'w, 'x) tlsnet \<Rightarrow> ('f, 'w, 'x) tlsnet option" where
  "tls_step E a (TlConnect h p) s = map_option snd (ztk_tls_client_connect E (Some a) h p s)"
| "tls_step E a TlClose s = ztk_tls_client_close E (Some a) s"
| "tls_step E a (TlSend d) s = map_option snd (ztk_tls_client_send E (Some a) d s)"
| "tls_step E a (TlEvent fd ev) s = do {
     c \<leftarrow> tls_clients s a;
     socket_poller_cb (te_os E) (tls_call E) fd ev (t_sock c) s
   }"

primrec tls_run :: "('f, 'w, 'x) tls_env \<Rightarrow> nat \<Rightarrow> tls_action list \<Rightarrow> ('f, 'w, 'x) tlsnet \<Rightarrow> ('f, 'w, 'x) tlsnet option" where
  "tls_run E a [] s = Some s"
| "tls_run E a (x # xs) s = Option.bind (tls_step E a x s) (tls_run E a xs)"

fun tls_sized :: "tls_action \<Rightarrow> bool" where
  "tls_sized (TlSend (Some m)) = (length m < 2 ^ 63)"
| "tls_sized _ = True"

lemma tls_step_inv:
  assumes w: "tls_world E opn intr left" and inv: "tls_inv (te_os E) opn intr B True L a sk s" and sz: "tls_sized x"
  shows "\<exists>s' sk'. tls_step E a x s = Some s' \<and> tls_inv (te_os E) opn intr B True L a sk' s'"
proof (cases x)
  case (TlConnect h p)
  then show ?thesis using tls_connect_inv [OF w inv, of h p] by fastforce
next
  case TlClose
  then show ?thesis using tls_close_inv [OF _ inv] w by (simp add: tls_world_def)
next
  case (TlSend d)
  then have "case d of None \<Rightarrow> True | Some m \<Rightarrow> length m < 2 ^ 63" using sz by (cases d) auto
  then show ?thesis using TlSend tls_send_inv [OF w inv] by fastforce
next
  case (TlEvent fd ev)
  obtain c where c: "tls_clients s a = Some c" "t_sock c = sk" using inv by (rule tls_invE)
  show ?thesis
  proof (cases sk)
    case None
    then show ?thesis using TlEvent c inv by (auto simp: socket_poller_cb_def)
  next
    case (Some k)
    then show ?thesis using TlEvent c tls_cl.event [of E opn intr left B L a k s fd ev] w inv by auto
  qed
qed

lemma tls_run_inv:
  assumes "tls_world E opn intr left" and "tls_inv (te_os E) opn intr B True L a sk s" and "list_all tls_sized xs"
  shows "\<exists>s' sk'. tls_run E a xs s = Some s' \<and> tls_inv (te_os E) opn intr B True L a sk' s'"
  using assms(2,3)
proof (induction xs arbitrary: s sk)
  case Nil
  then show ?case by auto
next
  case (Cons x xs)
  then show ?case using tls_step_inv [OF assms(1) Cons.prems(1), of x] by fastforce
qed

text \<open>What the options of a client must name: a poller, callbacks and a context that exist.\<close>

definition tls_opts_ok :: "ztk_tls_client_opts \<Rightarrow> ('f, 'w, 'x) tlsnet \<Rightarrow> bool" where
  "tls_opts_ok o' s \<longleftrightarrow> (\<exists>p. to_poller o' = Some p \<and> npollers s p \<noteq> None) \<and> (\<exists>q. to_ops o' = Some q \<and> tls_opss s q \<noteq> None) \<and>
     (\<exists>q x. to_ssl_ctx o' = Some q \<and> ssl_ctxs s q = Some \<lparr>sc_ctx = Some x\<rparr> \<and> x \<in> live_ctxs s)"

lemma tls_create_inv:
  assumes q: "ossl_quiet (te_ssl E) opn intr" and ok: "net_ok (te_os E) opn intr B s" and o': "tls_opts_ok o' s"
    and c: "ztk_tls_client_create E (Some o') s = Some (Some a, s')"
  shows "\<exists>sk. tls_inv (te_os E) opn intr B True (live_ssls s) a sk s'"
proof -
  obtain p where p: "to_poller o' = Some p" "npollers s p \<noteq> None" using o' by (auto simp: tls_opts_ok_def)
  let ?P = "sock_part (te_os E) opn intr B tls_cbs a p"
  let ?same = "\<lambda>t. tls_opss t = tls_opss s \<and> ssl_ctxs t = ssl_ctxs s \<and> live_ctxs t = live_ctxs s \<and> live_ssls t = live_ssls s"
  obtain err s1 where s1: "ztk_ssl_global_init (te_ssl E) s = (err, s1)" by fastforce
  obtain r y where y: "te_ssl E OPENSSL_init_ssl (nsys s) = (r, y)" by fastforce
  then have "op_of opn y = op_of opn (nsys s)" "in_of intr y = in_of intr (nsys s)"
    using q unfolding ossl_quiet_def by (metis snd_conv)+
  then have n1: "?P None False s1" "?same s1"
    using s1 y ok p(2)
    by (auto simp: ztk_ssl_global_init_def ssl_do_def ztk_set_last_error_def sock_part_def net_ok_def split: if_splits)
  obtain m s2 where s2: "take_mem s1 = (m, s2)" by fastforce
  then have n2: "?P None False s2" "?same s2"
    using n1 by (auto simp: take_mem_def sock_part_def net_ok_def split: list.splits)
  obtain k s3 where s3: "ztk_socket_create s2 = (k, s3)" by fastforce
  have n3: "?P k False s3" "?same s3" using create_part [OF n2(1) s3] n2(2) tls_more [of s3 s2] by auto
  have "tls_opts_ok o' s1" using o' n1 p by (auto simp: tls_opts_ok_def sock_part_def)
  let ?c = "\<lparr>t_opts = o', t_sock = k, t_ssl = None, t_state = TLS_ST_TCP, t_tcp_connected = False, t_closing = False,
      t_ready_sent = False, t_host_for_connect = [], t_sni_name = (case to_sni_host o' of None \<Rightarrow> [] | Some h \<Rightarrow> take 255 h), t_pending = []\<rparr>"
  have s': "s' = s3\<lparr>tls_clients := (tls_clients s3)(a \<mapsto> ?c)\<rparr>"
    using c s1 s2 s3 p(1) o'
    by (auto simp: ztk_tls_client_create_def tls_opts_ok_def Let_def split: option.splits if_splits prod.splits)
  have "tls_good True (live_ssls s) ?c s'" using n3(2) o' s' by (auto simp: tls_good_def tls_opts_ok_def)
  moreover have "?P k False s'" using n3(1) s' by (simp add: sock_part_def net_ok_def)
  ultimately show ?thesis using s' p(1) by (auto simp: tls_inv_def)
qed

section \<open>What goes on the wire\<close>

text \<open>
  What OpenSSL promises of writing, \<open>wire\<close> being the bytes of the application an \<^verbatim>\<open>SSL\<close> object has accepted:
  a write with a positive result accepted that many bytes from the front, and nothing else adds to them.
\<close>

definition silent :: "ssl_call \<Rightarrow> bool" where
  "silent c \<longleftrightarrow> (case c of SSL_write _ _ _ \<Rightarrow> False | _ \<Rightarrow> True)"

definition tls_wire_ok :: "('f, 'w, 'x) tls_env \<Rightarrow> ('w \<Rightarrow> nat \<Rightarrow> mem) \<Rightarrow> bool" where
  "tls_wire_ok E wire \<longleftrightarrow> (\<forall>c w. wire (snd (te_os E c w)) = wire w) \<and>
     (\<forall>c y. silent c \<longrightarrow> wire (world (snd (te_ssl E c y))) = wire (world y)) \<and>
     (\<forall>h data n y. case te_ssl E (SSL_write h data n) y of (r, y') \<Rightarrow> sr_ret r \<le> n \<and> wire (world y') =
        (if 0 < sr_ret r then (wire (world y))(h := wire (world y) h @ take (nat (sr_ret r)) data) else wire (world y)))"

lemma silent_simps [simp]:
  "silent (SSL_get_error h n)" "silent ERR_get_error" "silent (SSL_free h)"
  by (simp_all add: silent_def)

lemma sys_wire: "tls_wire_ok E wire \<Longrightarrow> wire (world (snd (sysc (te_os E) c y))) = wire (world y)"
  by (simp add: tls_wire_ok_def sysc_def split_def Let_def)

lemma ssl_do_wire:
  assumes "tls_wire_ok E wire" and "silent c" and "ssl_do (te_ssl E) c s = (r, s')"
  shows "wire (world (nsys s')) = wire (world (nsys s))"
proof -
  have "nsys s' = snd (te_ssl E c (nsys s))" using assms(3) by (auto simp: ssl_do_def split_def Let_def)
  then show ?thesis using assms(1,2) by (simp add: tls_wire_ok_def)
qed

lemma ssl_on_wire:
  "tls_wire_ok E wire \<Longrightarrow> silent (call h) \<Longrightarrow> ssl_on E (Some h) call s = Some (r, s') \<Longrightarrow>
   wire (world (nsys s')) = wire (world (nsys s)) \<and> tls_clients s' = tls_clients s \<and> s' = s\<lparr>nsys := nsys s'\<rparr>"
  using ssl_do_wire [of E wire "call h" s r s'] by (auto simp: ssl_on_def ssl_do_def split: if_splits prod.splits)

lemma mod_poll_wire:
  assumes "tls_wire_ok E wire" and "tls_mod_poll E a w s = Some s'"
  shows "wire (world (nsys s')) = wire (world (nsys s)) \<and> tls_clients s' = tls_clients s"
proof -
  obtain c where c: "tls_clients s a = Some c" using assms(2) by (auto simp: tls_mod_poll_def bind_eq_Some_conv)
  show ?thesis
  proof (cases "t_sock c")
    case None
    then show ?thesis using assms(2) c by (simp add: tls_mod_poll_def)
  next
    case (Some k)
    then obtain ev e where m: "ztk_socket_mod_events (te_os E) (Some k) ev s = Some (e, s')"
      using assms(2) c by (auto simp: tls_mod_poll_def Let_def)
    have "wire (world (nsys s')) = wire (world (nsys s))"
      using m sys_wire [OF assms(1)]
      by (auto simp: ztk_socket_mod_events_def poller_mod_at_def ztk_poller_mod_def epoll_ctl_wrap_def upd_sock_def bind_eq_Some_conv Let_def split_def
          split: option.splits if_splits)
    then show ?thesis using tls_more [OF mod_events_more [OF m]] by simp
  qed
qed

lemma detach_wire:
  assumes "tls_wire_ok E wire" and "ztk_socket_detach_poller (te_os E) k s = Some (e, s')"
  shows "wire (world (nsys s')) = wire (world (nsys s)) \<and> tls_clients s' = tls_clients s"
proof -
  have "wire (world (nsys s')) = wire (world (nsys s))"
    using assms(2) sys_wire [OF assms(1)]
    by (auto simp: ztk_socket_detach_poller_def poller_del_at_def ztk_poller_del_def epoll_ctl_wrap_def upd_sock_def bind_eq_Some_conv Let_def split_def
        split: option.splits if_splits)
  then show ?thesis using tls_more [OF detach_more [OF assms(2)]] by simp
qed

lemma drop_ssl_wire:
  assumes "tls_wire_ok E wire" and "tls_drop_ssl E a s = Some s'" and c: "tls_clients s a = Some c"
  shows "wire (world (nsys s')) = wire (world (nsys s)) \<and> tls_clients s' a = Some (c\<lparr>t_ssl := None\<rparr>)"
proof (cases "t_ssl c")
  case None
  then have "c\<lparr>t_ssl := None\<rparr> = c" by simp
  then show ?thesis using assms None by (simp add: tls_drop_ssl_def)
next
  case (Some h)
  then obtain r s1 where s1: "ssl_on E (Some h) SSL_free s = Some (r, s1)"
      "s' = upd_tls a (\<lambda>c. c\<lparr>t_ssl := None\<rparr>) (s1\<lparr>live_ssls := live_ssls s1 - {h}\<rparr>)"
    using assms(2) c by (auto simp: tls_drop_ssl_def bind_eq_Some_conv)
  then show ?thesis using ssl_on_wire [OF assms(1) _ s1(1)] c by (simp add: upd_tls_def)
qed

lemma notify_calm:
  assumes "tls_calm E" and "tls_notify E sel a s = Some s'"
  shows "\<exists>x. s' = s\<lparr>tls_app := x\<rparr>"
proof -
  obtain c f where f: "tls_clients s a = Some c" "tls_op sel c s = Some f"
      "(case f of None \<Rightarrow> Some s | Some g \<Rightarrow> te_call E g a (to_user (t_opts c)) s) = Some s'"
    using assms(2) by (auto simp: tls_notify_def bind_eq_Some_conv)
  show ?thesis
  proof (cases f)
    case None
    then show ?thesis using f(3) by (intro exI [of _ "tls_app s"]) simp
  next
    case (Some g)
    obtain x where "te_call E g a (to_user (t_opts c)) s = Some (s\<lparr>tls_app := x\<rparr>)" using assms(1) unfolding tls_calm_def by blast
    then show ?thesis using Some f(3) by auto
  qed
qed

lemma fire_error_wire:
  assumes wk: "tls_wire_ok E wire" and calm: "tls_calm E" and f: "tls_fire_error E (Some a) s = Some s'"
    and c: "tls_clients s a = Some c" "\<not> t_closing c"
  shows "wire (world (nsys s')) = wire (world (nsys s)) \<and> (\<exists>c'. tls_clients s' a = Some c' \<and> t_closing c' \<and> t_pending c' = [] \<and> t_ssl c' = None)"
proof -
  obtain e s1 s2 where s: "ztk_socket_detach_poller (te_os E) (t_sock c) (upd_tls a (\<lambda>c. c\<lparr>t_closing := True\<rparr>) s) = Some (e, s1)"
      "tls_drop_ssl E a s1 = Some s2" "tls_notify E tls_on_error a (tls_reset a s2) = Some s'"
    using f c by (auto simp: tls_fire_error_def bind_eq_Some_conv)
  note d = detach_wire [OF wk s(1)]
  have c1: "tls_clients s1 a = Some (c\<lparr>t_closing := True\<rparr>)" using d c(1) by simp
  obtain x where "s' = (tls_reset a s2)\<lparr>tls_app := x\<rparr>" using notify_calm [OF calm s(3)] by blast
  then show ?thesis using d drop_ssl_wire [OF wk s(2) c1] by (simp add: tls_reset_def upd_tls_def)
qed

lemma ssl_error_wire:
  assumes wk: "tls_wire_ok E wire" and calm: "tls_calm E" and f: "tls_ssl_error E a n w s = Some (e, s')"
    and c: "tls_clients s a = Some c" "t_ssl c = Some h" "\<not> t_closing c"
  shows "wire (world (nsys s')) = wire (world (nsys s)) \<and>
     (e = ZTK_ERR_AGAIN \<and> tls_clients s' a = Some c \<or>
      e = ZTK_ERR_IO \<and> (\<exists>c'. tls_clients s' a = Some c' \<and> t_closing c' \<and> t_pending c' = [] \<and> t_ssl c' = None))"
proof -
  obtain r s1 where s1: "ssl_on E (Some h) (\<lambda>h. SSL_get_error h n) s = Some (r, s1)" using f c by (auto simp: tls_ssl_error_def bind_eq_Some_conv)
  note w1 = ssl_on_wire [OF wk _ s1, simplified]
  consider (again) w' where "e = ZTK_ERR_AGAIN" "tls_mod_poll E a w' s1 = Some s'"
    | (io) q s2 m where "e = ZTK_ERR_IO" "ssl_do (te_ssl E) ERR_get_error s1 = (q, s2)"
        "tls_fire_error E (Some a) (ztk_set_last_error m s2) = Some s'"
    using f c s1 by (auto simp: tls_ssl_error_def bind_eq_Some_conv split: if_splits prod.splits)
  then show ?thesis
  proof cases
    case again
    then show ?thesis using mod_poll_wire [OF wk again(2)] w1 c by auto
  next
    case io
    have s2: "wire (world (nsys s2)) = wire (world (nsys s1))" "tls_clients s2 = tls_clients s1"
      using ssl_do_wire [OF wk _ io(2)] io(2) by (auto simp: ssl_do_def split: prod.splits)
    have "tls_clients (ztk_set_last_error m s2) a = Some c" using s2(2) w1 c(1) by auto
    from fire_error_wire [OF wk calm io(3) this c(3)] show ?thesis using io(1) s2(1) w1 by (auto simp: ztk_set_last_error_def)
  qed
qed

lemma c_int_small: "n < 2 ^ 31 \<Longrightarrow> c_int n = int n"
  by (simp add: c_int_def signed_of_nat signed_take_bit_int_eq_self)

lemma ssl_write_wire:
  assumes wk: "tls_wire_ok E wire" and o: "ssl_on E (Some h) (\<lambda>h. SSL_write h data n) s = Some (q, s1)"
  shows "sr_ret q \<le> n" and "tls_clients s1 = tls_clients s"
    and "wire (world (nsys s1)) =
      (if 0 < sr_ret q then (wire (world (nsys s)))(h := wire (world (nsys s)) h @ take (nat (sr_ret q)) data) else wire (world (nsys s)))"
proof -
  have y: "q = fst (te_ssl E (SSL_write h data n) (nsys s))" "s1 = s\<lparr>nsys := snd (te_ssl E (SSL_write h data n) (nsys s))\<rparr>"
    using o by (auto simp: ssl_on_def ssl_do_def split_def Let_def split: if_splits)
  then show "sr_ret q \<le> n" and "tls_clients s1 = tls_clients s" and "wire (world (nsys s1)) =
      (if 0 < sr_ret q then (wire (world (nsys s)))(h := wire (world (nsys s)) h @ take (nat (sr_ret q)) data) else wire (world (nsys s)))"
    using wk by (simp_all add: tls_wire_ok_def split_def)
qed

lemma write_all_wire:
  assumes "tls_wire_ok E wire" and "off \<le> length data" and "length data < 2 ^ 31"
    and "ssl_write_all E (Some h) data off s = Some (r, off', s')"
  shows "off \<le> off' \<and> off' \<le> length data \<and> (r = None \<longleftrightarrow> off' = length data) \<and> tls_clients s' = tls_clients s \<and>
     wire (world (nsys s')) = (wire (world (nsys s)))(h := wire (world (nsys s)) h @ take (off' - off) (drop off data))"
  using assms
proof (induction E "Some h" data off s rule: ssl_write_all.induct)
  case (1 E data off s)
  note un = ssl_write_all.simps [of E "Some h" data off s]
  show ?case
  proof (cases "length data \<le> off")
    case True
    then show ?thesis using 1 un by simp
  next
    case False
    let ?n = "c_int (length data - off)"
    obtain q s1 where s1: "ssl_on E (Some h) (\<lambda>h. SSL_write h (drop off data) (c_int (length data - off))) s = Some (q, s1)"
      using 1(5) un False by (auto split: option.splits)
    have n: "?n = int (length data - off)" using 1(4) by (intro c_int_small) simp
    note w = ssl_write_wire [OF 1(2) s1]
    show ?thesis
    proof (cases "0 < sr_ret q")
      case True
      have le: "off + nat (sr_ret q) \<le> length data" using w(1) n False by linarith
      have st: "ssl_write_all E (Some h) data (off + nat (sr_ret q)) s1 = Some (r, off', s')" using 1(5) un False s1 True by simp
      have ih: "off + nat (sr_ret q) \<le> off'" "off' \<le> length data" "r = None \<longleftrightarrow> off' = length data" "tls_clients s' = tls_clients s1"
        "wire (world (nsys s')) = (wire (world (nsys s1)))(h := wire (world (nsys s1)) h @ take (off' - (off + nat (sr_ret q))) (drop (off + nat (sr_ret q)) data))"
        using 1(1) [OF False s1 refl True 1(2) le 1(4) st] by auto
      have "take (nat (sr_ret q)) (drop off data) @ take (off' - (off + nat (sr_ret q))) (drop (off + nat (sr_ret q)) data) =
          take (nat (sr_ret q) + (off' - (off + nat (sr_ret q)))) (drop off data)"
        by (subst take_add) (simp add: add.commute)
      then show ?thesis using ih w(2,3) True by simp
    next
      case no: False
      then show ?thesis using 1(5) un False s1 w by auto
    qed
  qed
qed

lemma tls_reach_inv:
  assumes w: "tls_world E opn intr left" and "net_ok (te_os E) opn intr B s0" and "tls_opts_ok opts s0"
    and "ztk_tls_client_create E (Some opts) s0 = Some (Some a, s1)" and "list_all tls_sized xs" and "tls_run E a xs s1 = Some s"
  shows "\<exists>sk. tls_inv (te_os E) opn intr B True (live_ssls s0) a sk s"
proof -
  have q: "ossl_quiet (te_ssl E) opn intr" using w by (simp add: tls_world_def)
  obtain sk where "tls_inv (te_os E) opn intr B True (live_ssls s0) a sk s1" using tls_create_inv [OF q assms(2-4)] by blast
  from tls_run_inv [OF w this assms(5)] assms(6) show ?thesis by auto
qed

lemma tls_send_spec:
  assumes w: "tls_world E opn intr left" and wk: "tls_wire_ok E wire" and inv: "tls_inv (te_os E) opn intr B True L a sk s"
    and c: "tls_clients s a = Some c" "\<not> t_closing c" "t_state c = TLS_ST_READY" "t_ssl c = Some h"
    and d: "data \<noteq> []" "length data < 2 ^ 31"
  shows "\<exists>r m s' c'. ztk_tls_client_send E (Some a) (Some data) s = Some (r, s') \<and> tls_clients s' a = Some c' \<and> m \<le> length data \<and>
     wire (world (nsys s')) = (wire (world (nsys s)))(h := wire (world (nsys s)) h @ take m data) \<and>
     (r = ZTK_OK \<and> m = length data \<and> t_pending c' = t_pending c \<or>
      r = ZTK_ERR_AGAIN \<and> m < length data \<and> t_pending c' = t_pending c @ drop m data \<or>
      r = ZTK_ERR_BUFFER_TOO_SMALL \<and> TLS_SEND_BUF < length (t_pending c) + (length data - m) \<and> t_pending c' = t_pending c \<or>
      r = ZTK_ERR_IO \<and> t_closing c' \<and> t_pending c' = [])"
proof -
  have q: "tls_calm E" "ossl_quiet (te_ssl E) opn intr" using w by (simp_all add: tls_world_def)
  have p: "length (t_pending c) \<le> TLS_SEND_BUF" using inv c(1) by (auto simp: tls_inv_def tls_good_def)
  obtain r m y where y: "ssl_write_all E (Some h) data 0 s = Some (r, m, s\<lparr>nsys := y\<rparr>)"
      "tls_inv (te_os E) opn intr B True L a sk (s\<lparr>nsys := y\<rparr>)"
    using write_all_inv [OF q(2) inv c(1,4)] by blast
  have wr: "m \<le> length data" "r = None \<longleftrightarrow> m = length data"
      "wire (world y) = (wire (world (nsys s)))(h := wire (world (nsys s)) h @ take m data)"
    using write_all_wire [OF wk _ d(2) y(1)] by auto
  have cy: "tls_clients (s\<lparr>nsys := y\<rparr>) a = Some c" using c(1) by simp
  show ?thesis
  proof (cases r)
    case None
    then have "ztk_tls_client_send E (Some a) (Some data) s = Some (ZTK_OK, s\<lparr>nsys := y\<rparr>)"
      using c d y(1) by (simp add: ztk_tls_client_send_def)
    then show ?thesis using None wr cy by fastforce
  next
    case (Some n)
    obtain e s2 where s2: "tls_ssl_error E a n ''SSL_write'' (s\<lparr>nsys := y\<rparr>) = Some (e, s2)"
      using ssl_error_inv [OF q y(2) cy] c(4) by blast
    note we = ssl_error_wire [OF wk q(1) s2 cy c(4,2)]
    have m: "m < length data" using Some wr(1,2) by auto
    have snd: "ztk_tls_client_send E (Some a) (Some data) s = (if e = ZTK_ERR_AGAIN then tls_queue a (drop m data) e s2 else Some (e, s2))"
      using c d y(1) Some s2 m by (simp add: ztk_tls_client_send_def)
    show ?thesis
    proof (cases "e = ZTK_ERR_AGAIN")
      case False
      then show ?thesis using snd we wr by fastforce
    next
      case again: True
      have c2: "tls_clients s2 a = Some c" "wire (world (nsys s2)) = wire (world y)" using we again by auto
      have "length (drop m data) < 2 ^ 63" using d(2) by simp
      note qs = queue_spec [OF c2(1) p this, of e]
      show ?thesis
      proof (cases "TLS_SEND_BUF < length (t_pending c) + length (drop m data)")
        case True
        then show ?thesis using snd again qs c2 wr(1,3) by fastforce
      next
        case False
        let ?s3 = "upd_tls a (\<lambda>c. c\<lparr>t_pending := t_pending c @ drop m data\<rparr>) s2"
        have "tls_clients ?s3 a = Some (c\<lparr>t_pending := t_pending c @ drop m data\<rparr>)" "nsys ?s3 = nsys s2"
          using c2(1) by (simp_all add: upd_tls_def)
        then show ?thesis using False snd again qs c2(2) wr(1,3) m
          by (intro exI [of _ ZTK_ERR_AGAIN] exI [of _ m] exI [of _ ?s3]
              exI [of _ "c\<lparr>t_pending := t_pending c @ drop m data\<rparr>"]) simp
      qed
    qed
  qed
qed

lemma drop_ssl_clients:
  assumes "tls_drop_ssl E a s = Some s'" and "tls_clients s a = Some c"
  shows "tls_clients s' a = Some (c\<lparr>t_ssl := None\<rparr>)"
proof (cases "t_ssl c")
  case None
  then have "c\<lparr>t_ssl := None\<rparr> = c" by simp
  then show ?thesis using assms None by (simp add: tls_drop_ssl_def)
next
  case (Some h)
  then obtain r s1 where "ssl_on E (Some h) SSL_free s = Some (r, s1)"
      "s' = upd_tls a (\<lambda>c. c\<lparr>t_ssl := None\<rparr>) (s1\<lparr>live_ssls := live_ssls s1 - {h}\<rparr>)"
    using assms by (auto simp: tls_drop_ssl_def bind_eq_Some_conv)
  then show ?thesis using assms(2)
    by (auto simp: ssl_on_def ssl_do_def split_def Let_def upd_tls_def split: if_splits)
qed

lemma close_drops:
  assumes cl: "ztk_tls_client_close E (Some a) s = Some s'" and c: "tls_clients s a = Some c" "\<not> t_closing c"
  shows "\<exists>c'. tls_clients s' a = Some c' \<and> t_ssl c' = None"
proof -
  obtain e s1 where s1: "ztk_socket_detach_poller (te_os E) (t_sock c) (upd_tls a (\<lambda>c. c\<lparr>t_closing := True\<rparr>) s) = Some (e, s1)"
    using cl c by (auto simp: ztk_tls_client_close_def bind_eq_Some_conv)
  let ?m = "if t_ssl c \<noteq> None then do { (_, s2) \<leftarrow> ssl_on E (t_ssl c) SSL_shutdown s1; tls_drop_ssl E a s2 } else Some s1"
  obtain s2 where s2: "?m = Some s2" using cl c s1 by (cases ?m) (simp_all add: ztk_tls_client_close_def)
  obtain s3 where s3: "ztk_socket_destroy (te_os E) (t_sock c) s2 = Some s3"
    using cl c s1 s2 by (cases "ztk_socket_destroy (te_os E) (t_sock c) s2") (simp_all add: ztk_tls_client_close_def)
  obtain k s4 where s4: "ztk_socket_create s3 = (k, s4)" by fastforce
  have s': "s' = upd_tls a (\<lambda>c. c\<lparr>t_closing := False\<rparr>) (tls_reset a (upd_tls a (\<lambda>c. c\<lparr>t_sock := k\<rparr>) s4))"
    using cl c s1 s2 s3 s4 by (simp add: ztk_tls_client_close_def)
  have c1: "tls_clients s1 a = Some (c\<lparr>t_closing := True\<rparr>)" using tls_more [OF detach_more [OF s1]] c(1) by simp
  obtain c2 where c2: "tls_clients s2 a = Some c2" "t_ssl c2 = None"
  proof (cases "t_ssl c")
    case None
    then show ?thesis using that s2 c1 by simp
  next
    case (Some h)
    then obtain r t where t: "ssl_on E (t_ssl c) SSL_shutdown s1 = Some (r, t)" "tls_drop_ssl E a t = Some s2"
      using s2 by (auto simp: bind_eq_Some_conv)
    then have "tls_clients t a = Some (c\<lparr>t_closing := True\<rparr>)"
      using c1 by (auto simp: ssl_on_def ssl_do_def split_def Let_def split: option.splits if_splits)
    from drop_ssl_clients [OF t(2) this] show ?thesis using that by simp
  qed
  have "tls_clients s4 a = Some c2" using c2(1) tls_more [OF destroy_more [OF s3]] tls_more [OF create_more [OF s4]]
    by simp
  then show ?thesis using s' c2(2) by (simp add: tls_reset_def)
qed

section \<open>Samples\<close>

text \<open>
  The sample kernel with a record of what each \<^verbatim>\<open>SSL\<close> object accepted, and an OpenSSL that completes
  every handshake, takes all that is written and has nothing to read.
\<close>

type_synonym tworld = "(kern \<times> (int \<Rightarrow> int \<rightharpoonup> u32)) \<times> (nat \<Rightarrow> mem)"

definition tw_os :: "tworld os" where
  "tw_os c w = (let (r, v) = ep_os c (fst w) in (r, (v, snd w)))"

lemma tw_fds_ok: "fds_ok tw_os (set \<circ> k_open \<circ> fst \<circ> fst)"
proof -
  have e: "fd_effect (f \<circ> fst) c w r w' = fd_effect f c (fst w) r (fst w')" for f :: "kern \<times> (int \<Rightarrow> int \<rightharpoonup> u32) \<Rightarrow> int set"
      and c r and w w' :: tworld
    by (cases c) (simp_all add: fd_effect_def opens_def opens_two_def)
  show ?thesis using ep_fds_ok by (simp add: fds_ok_def tw_os_def e split_def Let_def)
qed

lemma tw_epoll_ok: "epoll_ok tw_os (snd \<circ> fst)"
proof -
  have e: "interest_effect (f \<circ> fst) c w r w' = interest_effect f c (fst w) r (fst w')"
      for f :: "kern \<times> (int \<Rightarrow> int \<rightharpoonup> u32) \<Rightarrow> int \<Rightarrow> int \<rightharpoonup> u32" and c r and w w' :: tworld
    by (cases c) (simp_all add: interest_effect_def)
  show ?thesis using ep_epoll_ok by (simp add: epoll_ok_def tw_os_def e split_def Let_def)
qed

definition easy_ssl :: "tworld ossl" where
  "easy_ssl c y =
     (\<lparr>sr_ret = (case c of SSL_read _ _ \<Rightarrow> - 1 | SSL_get_error _ _ \<Rightarrow> SSL_ERROR_WANT_READ | SSL_write _ _ n \<Rightarrow> n | _ \<Rightarrow> 1),
       sr_ptr = Some 70, sr_bytes = [], sr_text = []\<rparr>,
      case c of
        SSL_write h data n \<Rightarrow>
          if 0 < n then y\<lparr>world := (fst (world y), (snd (world y))(h := snd (world y) h @ take (nat n) data))\<rparr> else y
      | _ \<Rightarrow> y)"

definition easy_env :: "(nat, tworld, unit) tls_env" where
  "easy_env = \<lparr>te_os = tw_os, te_ssl = easy_ssl, te_call = (\<lambda>f a u s. Some s), te_recv = (\<lambda>f a bs u s. Some s)\<rparr>"

lemma easy_world: "tls_world easy_env (set \<circ> k_open \<circ> fst \<circ> fst) (snd \<circ> fst) (\<lambda>_ _. 0)"
proof -
  have "tls_calm easy_env" unfolding tls_calm_def by (simp add: easy_env_def)
  moreover have "ossl_quiet (te_ssl easy_env) (set \<circ> k_open \<circ> fst \<circ> fst) (snd \<circ> fst)"
    by (auto simp: easy_env_def easy_ssl_def ossl_quiet_def split: ssl_call.split)
  moreover have "reads_end (te_ssl easy_env) (\<lambda>_ _. 0)" by (simp add: easy_env_def easy_ssl_def reads_end_def)
  ultimately show ?thesis by (simp add: tls_world_def)
qed

lemma easy_wire: "tls_wire_ok easy_env snd"
  by (auto simp: tls_wire_ok_def easy_env_def tw_os_def easy_ssl_def silent_def split_def Let_def split: ssl_call.split)

definition easy_net :: "(nat, tworld, unit) tlsnet" where
  "easy_net = \<lparr>nsys = \<lparr>errno = E_NONE, world = (world (nsys net0), \<lambda>_. [])\<rparr>, socks = Map.empty,
     npollers = [1 \<mapsto> \<lparr>epfd = 3, wake_r = 4, wake_w = 5, entries = []\<rparr>],
     sockplat_inited = False, nmem = [Some 20, Some 11, Some 12, Some 13], s_last = [], s_ssl_inited = True, s_ssl_init_count = 1,
     ssl_ctxs = [40 \<mapsto> \<lparr>sc_ctx = Some 3\<rparr>], live_ctxs = {3}, tls_clients = Map.empty,
     tls_opss = [50 \<mapsto> \<lparr>tls_on_connect = Some 0, tls_on_recv = Some 1, tls_on_error = Some 2\<rparr>], live_ssls = {}, tls_app = ()\<rparr>"

definition easy_opts :: ztk_tls_client_opts where
  "easy_opts = \<lparr>to_poller = Some 1, to_ssl_ctx = Some 40, to_ops = Some 50, to_user = None, to_sni_host = None\<rparr>"

lemma easy_net_ok: "net_ok tw_os (set \<circ> k_open \<circ> fst \<circ> fst) (snd \<circ> fst) {3, 4, 5} easy_net"
  by (auto simp: net_ok_def tw_fds_ok tw_epoll_ok net_inv_def easy_net_def net0_def owned_def table_ok_def agree_at_def watch_def
      entry_ok_def split: if_splits)

lemma easy_opts_ok: "tls_opts_ok easy_opts easy_net"
  by (simp add: tls_opts_ok_def easy_opts_def easy_net_def)

text \<open>A connected client of an OpenSSL that always has one more byte.\<close>

definition chatty_env :: "(nat, tworld, unit) tls_env" where
  "chatty_env = easy_env\<lparr>te_ssl := (\<lambda>c y. case c of
     SSL_read _ _ \<Rightarrow> (\<lparr>sr_ret = 1, sr_ptr = None, sr_bytes = [7], sr_text = []\<rparr>, y) | _ \<Rightarrow> easy_ssl c y)\<rparr>"

definition chatty_client :: ztk_tls_client where
  "chatty_client = \<lparr>t_opts = easy_opts, t_sock = None, t_ssl = Some 70, t_state = TLS_ST_READY, t_tcp_connected = True,
     t_closing = False, t_ready_sent = True, t_host_for_connect = ''h'', t_sni_name = ''h'', t_pending = []\<rparr>"

definition chatty_net :: "(nat, tworld, unit) tlsnet" where
  "chatty_net = easy_net\<lparr>tls_clients := [20 \<mapsto> chatty_client], live_ssls := {70}\<rparr>"

section \<open>Properties\<close>



text \<open>
  C36. What a send accounts for. On a connected client that is reached by any sequence of operations, a
  send returns, and every byte of the data is accounted for: a prefix has been accepted by OpenSSL,
  behind what it had accepted before; on success that is all of it, on \<^verbatim>\<open>ZTK_ERR_AGAIN\<close> the rest is at the end of
  the buffer. When the rest does not fit the buffer it is dropped and reported, although the prefix is
  gone, and a failed write takes the client down. The prefix goes out ahead of what the buffer still
  held: nothing makes a send wait for the bytes sent before it.
\<close>

theorem tls_send_outcomes:
  assumes "tls_world E opn intr left" and "tls_wire_ok E wire" and "net_ok (te_os E) opn intr B s0" and "tls_opts_ok opts s0"
    and "ztk_tls_client_create E (Some opts) s0 = Some (Some a, s1)" and "list_all tls_sized xs" and "tls_run E a xs s1 = Some s"
    and "tls_clients s a = Some c" and "ztk_tls_client_is_connected (Some a) s = Some True" and "t_ssl c = Some h"
    and "data \<noteq> []" and "length data < 2 ^ 31"
  shows "\<exists>r m s' c'. ztk_tls_client_send E (Some a) (Some data) s = Some (r, s') \<and> tls_clients s' a = Some c' \<and> m \<le> length data \<and>
     wire (world (nsys s')) = (wire (world (nsys s)))(h := wire (world (nsys s)) h @ take m data) \<and>
     (r = ZTK_OK \<and> m = length data \<and> t_pending c' = t_pending c \<or>
      r = ZTK_ERR_AGAIN \<and> m < length data \<and> t_pending c' = t_pending c @ drop m data \<or>
      r = ZTK_ERR_BUFFER_TOO_SMALL \<and> TLS_SEND_BUF < length (t_pending c) + (length data - m) \<and> t_pending c' = t_pending c \<or>
      r = ZTK_ERR_IO \<and> t_closing c' \<and> t_pending c' = [])"
proof -
  obtain sk where inv: "tls_inv (te_os E) opn intr B True (live_ssls s0) a sk s" using tls_reach_inv [OF assms(1,3-7)] by blast
  have "\<not> t_closing c" "t_state c = TLS_ST_READY" using assms(8,9) by (auto simp: ztk_tls_client_is_connected_def)
  from tls_send_spec [OF assms(1,2) inv assms(8) this assms(10-12)] show ?thesis .
qed

theorem tls_send_outcomes_witness:
  "\<exists>s1 s r m s'. ztk_tls_client_create easy_env (Some easy_opts) easy_net = Some (Some 20, s1) \<and>
     tls_run easy_env 20 [TlConnect (Some ''h'') 443] s1 = Some s \<and>
     ztk_tls_client_send easy_env (Some 20) (Some [Some 1, Some 2]) s = Some (r, s') \<and>
     snd (world (nsys s')) 70 = snd (world (nsys s)) 70 @ take m [Some 1, Some 2]"
proof -
  have "case ztk_tls_client_create easy_env (Some easy_opts) easy_net of None \<Rightarrow> False
      | Some (r, s1) \<Rightarrow> r = Some 20 \<and> (case tls_run easy_env 20 [TlConnect (Some ''h'') 443] s1 of None \<Rightarrow> False
          | Some s \<Rightarrow> ztk_tls_client_is_connected (Some 20) s = Some True \<and> map_option t_ssl (tls_clients s 20) = Some (Some 70))"
    by code_simp
  then obtain s1 s where s: "ztk_tls_client_create easy_env (Some easy_opts) easy_net = Some (Some 20, s1)"
      "tls_run easy_env 20 [TlConnect (Some ''h'') 443] s1 = Some s" "ztk_tls_client_is_connected (Some 20) s = Some True"
      "map_option t_ssl (tls_clients s 20) = Some (Some 70)"
    by (auto split: option.splits)
  then obtain c where c: "tls_clients s 20 = Some c" "t_ssl c = Some 70" by auto
  have e: "te_os easy_env = tw_os" by (simp add: easy_env_def)
  have sz: "list_all tls_sized [TlConnect (Some ''h'') 443]" by simp
  let ?d = "[Some 1, Some 2] :: mem"
  from tls_send_outcomes [OF easy_world easy_wire easy_net_ok [folded e] easy_opts_ok s(1) sz s(2) c(1) s(3) c(2), of ?d]
  obtain r m s' where "ztk_tls_client_send easy_env (Some 20) (Some ?d) s = Some (r, s')"
      "snd (world (nsys s')) = (snd (world (nsys s)))(70 := snd (world (nsys s)) 70 @ take m ?d)" by auto
  then have "ztk_tls_client_send easy_env (Some 20) (Some ?d) s = Some (r, s')"
      "snd (world (nsys s')) 70 = snd (world (nsys s)) 70 @ take m ?d" by simp_all
  then show ?thesis using s(1,2) by blast
qed

text \<open>
  C37. Closing a client in its own receive callback is undefined. If the function for received data closes
  the client, the loop that delivers data goes on with the client's \<^verbatim>\<open>SSL\<close> object, which is gone: whenever
  something is received, the call has no defined outcome. (Closing uses the kernel and OpenSSL only, so the
  environment \<open>E'\<close> in which the function closes may be any.)
\<close>

theorem tls_recv_close_undefined:
  assumes "tls_clients s a = Some c" and "t_state c = TLS_ST_READY" and "\<not> t_closing c" and "t_ssl c = Some h" and "h \<in> live_ssls s"
    and "0 < sr_ret (fst (te_ssl E (SSL_read h TLS_RECV_BUF) (nsys s)))" and "tls_op tls_on_recv c s = Some (Some f)"
    and "te_recv E f = (\<lambda>a bs u. ztk_tls_client_close E' (Some a))"
  shows "tls_drain_plain E a s = None"
proof -
  let ?y = "snd (te_ssl E (SSL_read h TLS_RECV_BUF) (nsys s))"
  have c1: "tls_clients (s\<lparr>nsys := ?y\<rparr>) a = Some c" "tls_op tls_on_recv c (s\<lparr>nsys := ?y\<rparr>) = Some (Some f)"
    using assms(1,7) by (simp_all add: tls_op_def split: option.splits)
  have "tls_drain_plain E a s = Option.bind (ztk_tls_client_close E' (Some a) (s\<lparr>nsys := ?y\<rparr>)) (tls_drain_loop E a)"
    using assms c1 by (simp add: tls_drain_plain_def tls_drain_loop.simps [of E a s] ssl_on_def ssl_do_def split_def Let_def)
  also have "\<dots> = None"
  proof (cases "ztk_tls_client_close E' (Some a) (s\<lparr>nsys := ?y\<rparr>)")
    case (Some s2)
    then obtain c2 where "tls_clients s2 a = Some c2" "t_ssl c2 = None" using close_drops [OF Some c1(1) assms(3)] by blast
    then show ?thesis using Some by (simp add: tls_drain_loop.simps [of E a s2] ssl_on_def)
  qed simp
  finally show ?thesis .
qed

theorem tls_recv_close_undefined_witness:
  "tls_drain_plain (chatty_env\<lparr>te_recv := (\<lambda>f a bs u. ztk_tls_client_close chatty_env (Some a))\<rparr>) 20 chatty_net = None"
proof -
  let ?E = "chatty_env\<lparr>te_recv := (\<lambda>f a bs u. ztk_tls_client_close chatty_env (Some a))\<rparr>"
  have "tls_clients chatty_net 20 = Some chatty_client" "t_state chatty_client = TLS_ST_READY" "\<not> t_closing chatty_client"
    "t_ssl chatty_client = Some 70" "70 \<in> live_ssls chatty_net"
    by (simp_all add: chatty_net_def chatty_client_def)
  moreover have "0 < sr_ret (fst (te_ssl ?E (SSL_read 70 TLS_RECV_BUF) (nsys chatty_net)))" by (simp add: chatty_env_def)
  moreover have "tls_op tls_on_recv chatty_client chatty_net = Some (Some 1)"
    by (simp add: chatty_net_def chatty_client_def easy_opts_def easy_net_def tls_op_def)
  moreover have "te_recv ?E 1 = (\<lambda>a bs u. ztk_tls_client_close chatty_env (Some a))" by simp
  ultimately show ?thesis by (rule tls_recv_close_undefined)
qed

end
