(* ===== verification/Log.thy ===== *)
theory Log
  imports Decimal
begin

text \<open>
  The log, \<^verbatim>\<open>src/util/log.c\<close>: lines at or above a level go to the standard error stream and to a file, which
  is renamed when it has grown enough. The file system is a directory from names to files and the
  contents of the files, so that a stream stays with its file when the name goes elsewhere; which calls
  fail is an input. The text of a message is the expansion of its format, an argument here, as is the
  clock.
\<close>

section \<open>Files\<close>

text \<open>
  \<open>faults\<close> has the outcomes of the calls to come: \<open>Some n\<close> for a call that fails, and that has written \<open>n\<close>
  characters if it is a write. Beyond the list every call succeeds.
\<close>

record fs =
  dir :: "string \<rightharpoonup> nat"
  contents :: "nat \<Rightarrow> string"
  next_ino :: nat
  faults :: "nat option list"

definition take_fault :: "fs \<Rightarrow> nat option \<times> fs" where
  "take_fault fs = (case faults fs of [] \<Rightarrow> (None, fs) | x # xs \<Rightarrow> (x, fs\<lparr>faults := xs\<rparr>))"

text \<open>\<^verbatim>\<open>fopen(path, "a")\<close>\<close>

definition fopen_a :: "string \<Rightarrow> fs \<Rightarrow> nat option \<times> fs" where
  "fopen_a path fs =
     (let (e, fs) = take_fault fs in
      if e \<noteq> None then (None, fs)
      else case dir fs path of
        Some i \<Rightarrow> (Some i, fs)
      | None \<Rightarrow> (Some (next_ino fs), fs\<lparr>dir := (dir fs)(path \<mapsto> next_ino fs),
                  contents := (contents fs)(next_ino fs := []), next_ino := next_ino fs + 1\<rparr>))"

definition rename :: "string \<Rightarrow> string \<Rightarrow> fs \<Rightarrow> fs" where
  "rename old new fs =
     (let (e, fs) = take_fault fs in
      case dir fs old of
        Some i \<Rightarrow> if e \<noteq> None then fs else fs\<lparr>dir := (dir fs)(old := None, new \<mapsto> i)\<rparr>
      | None \<Rightarrow> fs)"

definition fwrite :: "nat \<Rightarrow> string \<Rightarrow> fs \<Rightarrow> fs" where
  "fwrite i l fs =
     (let (e, fs) = take_fault fs in
      fs\<lparr>contents := (contents fs)(i := contents fs i @ (case e of None \<Rightarrow> l | Some n \<Rightarrow> take n l))\<rparr>)"

section \<open>State\<close>

definition ZTK_LOG_TRACE :: int where "ZTK_LOG_TRACE = 0"
definition ZTK_LOG_DEBUG :: int where "ZTK_LOG_DEBUG = 1"
definition ZTK_LOG_INFO :: int where "ZTK_LOG_INFO = 2"
definition ZTK_LOG_WARN :: int where "ZTK_LOG_WARN = 3"
definition ZTK_LOG_ERROR :: int where "ZTK_LOG_ERROR = 4"

lemmas log_levels = ZTK_LOG_TRACE_def ZTK_LOG_DEBUG_def ZTK_LOG_INFO_def ZTK_LOG_WARN_def ZTK_LOG_ERROR_def

definition ZTK_LOG_PATH_MAX :: nat where "ZTK_LOG_PATH_MAX = 512"

record ztk_log =
  s_level :: int
  s_log_file :: "nat option"
  s_rotate_max_bytes :: size_t
  s_rotate_keep_count :: int
  s_written_bytes :: size_t
  s_log_path :: string
  log_fs :: fs
  log_stderr :: string

definition log_static :: "fs \<Rightarrow> ztk_log" where
  "log_static fs = \<lparr>s_level = ZTK_LOG_INFO, s_log_file = None, s_rotate_max_bytes = 0, s_rotate_keep_count = 3,
     s_written_bytes = 0, s_log_path = [], log_fs = fs, log_stderr = []\<rparr>"

section \<open>Rotation\<close>

text \<open>\<^verbatim>\<open>snprintf(p, ZTK_LOG_PATH_MAX + 16, "%s.%d", s_log_path, i)\<close>\<close>

definition log_name :: "string \<Rightarrow> nat \<Rightarrow> string" where
  "log_name path i = take (ZTK_LOG_PATH_MAX + 15) (path @ ''.'' @ dec_digits i)"

text \<open>The loop from \<^verbatim>\<open>s_rotate_keep_count - 1\<close> down to 1.\<close>

primrec rotate_loop :: "string \<Rightarrow> nat \<Rightarrow> fs \<Rightarrow> fs" where
  "rotate_loop path 0 fs = fs"
| "rotate_loop path (Suc i) fs = rotate_loop path i (rename (log_name path (Suc i)) (log_name path (Suc (Suc i))) fs)"

definition do_rotate :: "ztk_log \<Rightarrow> ztk_log" where
  "do_rotate s =
     (if s_log_path s = [] then s
      else let path = s_log_path s;
               fs1 = rotate_loop path (nat (s_rotate_keep_count s - 1)) (log_fs s);
               (f, fs2) = fopen_a path (rename path (log_name path 1) fs1)
           in s\<lparr>s_log_file := f, log_fs := fs2, s_written_bytes := 0\<rparr>)"

section \<open>Operations\<close>

definition ztk_log_open_file :: "string option \<Rightarrow> ztk_log \<Rightarrow> int \<times> ztk_log" where
  "ztk_log_open_file path s =
     (case path of None \<Rightarrow> (- 1, s)
      | Some p \<Rightarrow>
        if p = [] then (- 1, s)
        else let (f, fs) = fopen_a p (log_fs s)
             in (if f \<noteq> None then 0 else - 1,
                 s\<lparr>s_log_path := take (ZTK_LOG_PATH_MAX - 1) p, s_log_file := f, log_fs := fs, s_written_bytes := 0\<rparr>))"

definition ztk_log_close_file :: "ztk_log \<Rightarrow> ztk_log" where
  "ztk_log_close_file s = s\<lparr>s_log_file := None, s_log_path := [], s_written_bytes := 0\<rparr>"

definition ztk_log_reopen_file :: "ztk_log \<Rightarrow> ztk_log" where
  "ztk_log_reopen_file s =
     (if s_log_path s = [] then s
      else let (f, fs) = fopen_a (s_log_path s) (log_fs s) in s\<lparr>s_log_file := f, log_fs := fs, s_written_bytes := 0\<rparr>)"

definition ztk_log_set_rotate :: "size_t \<Rightarrow> int \<Rightarrow> ztk_log \<Rightarrow> ztk_log" where
  "ztk_log_set_rotate max_bytes keep_count s =
     s\<lparr>s_rotate_max_bytes := max_bytes, s_rotate_keep_count := (if 0 < keep_count then keep_count else 1)\<rparr>"

definition level_name :: "int \<Rightarrow> string" where
  "level_name l =
     (if l = ZTK_LOG_TRACE then ''T'' else if l = ZTK_LOG_DEBUG then ''D'' else if l = ZTK_LOG_INFO then ''I''
      else if l = ZTK_LOG_WARN then ''W'' else if l = ZTK_LOG_ERROR then ''E'' else ''?'')"

definition ztk_log_set_level :: "int \<Rightarrow> ztk_log \<Rightarrow> ztk_log" where
  "ztk_log_set_level level s = s\<lparr>s_level := level\<rparr>"

text \<open>\<^verbatim>\<open>strrchr(s, c)\<close>, moved past the character.\<close>

definition after_last :: "char \<Rightarrow> string \<Rightarrow> string option" where
  "after_last c s = (if c \<in> set s then Some (rev (takeWhile (\<lambda>x. x \<noteq> c) (rev s))) else None)"

definition log_base :: "string option \<Rightarrow> string" where
  "log_base file =
     (case file of None \<Rightarrow> ''?''
      | Some f \<Rightarrow> (case after_last (CHR ''/'') f of Some b \<Rightarrow> b
                  | None \<Rightarrow> (case after_last (CHR 0x5C) f of Some b \<Rightarrow> b | None \<Rightarrow> f)))"

definition log_prefix :: "int \<Rightarrow> u64 \<Rightarrow> string option \<Rightarrow> int \<Rightarrow> string" where
  "log_prefix level now file line =
     take 127 (''['' @ level_name level @ '']['' @ dec_digits (unat now) @ '']['' @ log_base file @ '':'' @ int_str line @ ''] '')"

record log_call =
  l_level :: int
  l_file :: "string option"
  l_line :: int
  l_text :: string
  l_now :: u64

definition log_line :: "log_call \<Rightarrow> string" where
  "log_line x = log_prefix (l_level x) (l_now x) (l_file x) (l_line x) @ take 4095 (l_text x) @ [CHR 0x0A]"

definition ztk_log_writev :: "log_call \<Rightarrow> ztk_log \<Rightarrow> ztk_log" where
  "ztk_log_writev x s =
     (if l_level x < s_level s then s
      else let l = log_line x;
               s1 = s\<lparr>log_stderr := log_stderr s @ l\<rparr>
           in case s_log_file s1 of None \<Rightarrow> s1
              | Some f \<Rightarrow>
                  let w = s_written_bytes s1 + of_nat (length l);
                      s2 = s1\<lparr>log_fs := fwrite f l (log_fs s1), s_written_bytes := w\<rparr>
                  in if 0 < s_rotate_max_bytes s2 \<and> s_rotate_max_bytes s2 \<le> w then do_rotate s2 else s2)"

definition log_run :: "log_call list \<Rightarrow> ztk_log \<Rightarrow> ztk_log" where
  "log_run xs s = fold ztk_log_writev xs s"

section \<open>What rotation does to the files\<close>

definition log_nm :: "string \<Rightarrow> nat \<Rightarrow> string" where
  "log_nm path j = (if j = 0 then path else log_name path j)"

lemma log_nm_Suc [simp]: "log_nm path 0 = path" "log_nm path (Suc i) = log_name path (Suc i)"
  by (simp_all add: log_nm_def)

lemma log_name_eq:
  assumes "length path < ZTK_LOG_PATH_MAX" and "j < 2 ^ 31"
  shows "log_name path j = path @ ''.'' @ dec_digits j"
proof -
  have "length (dec_digits j) \<le> Suc 9" using assms(2) by (intro dec_digits_length) simp
  then show ?thesis using assms(1) by (simp add: log_name_def ZTK_LOG_PATH_MAX_def)
qed

lemma log_nm_inj:
  assumes "length path < ZTK_LOG_PATH_MAX" and "i < 2 ^ 31" and "j < 2 ^ 31"
  shows "log_nm path i = log_nm path j \<longleftrightarrow> i = j"
  using assms by (auto simp: log_nm_def log_name_eq dest: dec_digits_inj)

definition fs_good :: "fs \<Rightarrow> bool" where
  "fs_good fs \<longleftrightarrow> faults fs = [] \<and> (\<forall>p i. dir fs p = Some i \<longrightarrow> i < next_ino fs) \<and>
     (\<forall>p q i. dir fs p = Some i \<longrightarrow> dir fs q = Some i \<longrightarrow> p = q)"

definition look :: "string \<Rightarrow> fs \<Rightarrow> nat \<Rightarrow> string option" where
  "look path fs j = map_option (contents fs) (dir fs (log_nm path j))"

lemma rename_good: "fs_good fs \<Longrightarrow> fs_good (rename p q fs)"
  by (auto simp: fs_good_def rename_def take_fault_def split: option.splits if_splits)

lemma rename_look:
  assumes "fs_good fs" and "length path < ZTK_LOG_PATH_MAX" and "i < 2 ^ 31" and "j < 2 ^ 31" and "k < 2 ^ 31" and "i \<noteq> j"
  shows "look path (rename (log_nm path i) (log_nm path j) fs) k =
     (if look path fs i = None then look path fs k else if k = j then look path fs i else if k = i then None else look path fs k)"
  using assms log_nm_inj [OF assms(2,5,3)] log_nm_inj [OF assms(2,5,4)] log_nm_inj [OF assms(2,3,4)]
  by (auto simp: look_def rename_def take_fault_def fs_good_def split: option.splits)

primrec shifts :: "string \<Rightarrow> nat \<Rightarrow> fs \<Rightarrow> fs" where
  "shifts path 0 fs = fs"
| "shifts path (Suc i) fs = shifts path i (rename (log_nm path i) (log_nm path (Suc i)) fs)"

lemma rotate_shifts: "rename path (log_name path 1) (rotate_loop path n fs) = shifts path (Suc n) fs"
  by (induction n arbitrary: fs) simp_all

lemma shifts_good: "fs_good fs \<Longrightarrow> fs_good (shifts path k fs)"
  by (induction k arbitrary: fs) (simp_all add: rename_good)

lemma shifts_look:
  assumes "fs_good fs" and "length path < ZTK_LOG_PATH_MAX" and "k < 2 ^ 31" and "j < 2 ^ 31"
    and "\<And>j. j \<le> k \<Longrightarrow> look path fs j \<noteq> None \<longleftrightarrow> j < n"
  shows "look path (shifts path k fs) j =
     (if 0 < j \<and> j \<le> k \<and> j - 1 < n then look path fs (j - 1) else if j = 0 \<and> 0 < k then None else look path fs j)"
  using assms
proof (induction k arbitrary: fs n)
  case (Suc k)
  let ?fs = "rename (log_nm path k) (log_nm path (Suc k)) fs"
  have l: "look path ?fs i = (if look path fs k = None then look path fs i else if i = Suc k then look path fs k
      else if i = k then None else look path fs i)" if "i < 2 ^ 31" for i
    using rename_look [OF Suc.prems(1,2), of k "Suc k" i] Suc.prems(3) that by auto
  have def: "look path ?fs i \<noteq> None \<longleftrightarrow> i < min n k" if "i \<le> k" for i
    using that l [of i] Suc.prems(3) Suc.prems(5) [of i] Suc.prems(5) [of k] by auto
  show ?case
    using Suc.IH [OF rename_good [OF Suc.prems(1)] Suc.prems(2) _ Suc.prems(4), of "log_nm path k" "log_nm path (Suc k)" "min n k"]
      def l [of j] l [of "j - 1"] Suc.prems(3,4) Suc.prems(5) [of j] Suc.prems(5) [of k] Suc.prems(5) [of "j - 1"]
    by (auto simp: less_Suc_eq_le split: if_splits)
qed simp

lemma log_nm_new: "length path < ZTK_LOG_PATH_MAX \<Longrightarrow> j < 2 ^ 31 \<Longrightarrow> log_nm path j = path \<longleftrightarrow> j = 0"
  using log_nm_inj [of path j 0] by simp

lemma fopen_new:
  assumes "fs_good fs" and "length path < ZTK_LOG_PATH_MAX" and "look path fs 0 = None" and "fopen_a path fs = (f, fs')"
  shows "fs_good fs' \<and> f = dir fs' path \<and> (\<forall>j < 2 ^ 31. look path fs' j = (if j = 0 then Some [] else look path fs j))"
proof -
  have none: "dir fs path = None" and fl: "faults fs = []" using assms(1,3) by (simp_all add: look_def fs_good_def)
  have f: "f = Some (next_ino fs)" "fs' = fs\<lparr>dir := (dir fs)(path \<mapsto> next_ino fs),
      contents := (contents fs)(next_ino fs := []), next_ino := next_ino fs + 1\<rparr>"
    using assms(4) none fl by (auto simp: fopen_a_def take_fault_def)
  have "dir fs p \<noteq> Some (next_ino fs)" for p using assms(1) by (auto simp: fs_good_def)
  then have "look path fs' j = (if j = 0 then Some [] else look path fs j)" if "j < 2 ^ 31" for j
    using log_nm_new [OF assms(2) that] by (auto simp: f(2) look_def intro!: map_option_cong)
  moreover have "fs_good fs'" using assms(1) by (fastforce simp: f(2) fs_good_def split: if_splits)
  ultimately show ?thesis using f by simp
qed

lemma fopen_old:
  assumes "fs_good fs" and "look path fs 0 \<noteq> None"
  shows "fopen_a path fs = (dir fs path, fs)"
  using assms by (auto simp: fopen_a_def take_fault_def fs_good_def look_def)

lemma fwrite_look:
  assumes "fs_good fs" and "length path < ZTK_LOG_PATH_MAX" and "dir fs path = Some i"
  shows "fs_good (fwrite i l fs) \<and> dir (fwrite i l fs) = dir fs \<and>
     (\<forall>j < 2 ^ 31. look path (fwrite i l fs) j = (if j = 0 then map_option (\<lambda>c. c @ l) (look path fs 0) else look path fs j))"
proof -
  have w: "fwrite i l fs = fs\<lparr>contents := (contents fs)(i := contents fs i @ l)\<rparr>"
    using assms(1) by (simp add: fwrite_def take_fault_def fs_good_def)
  have "dir fs (log_nm path j) \<noteq> Some i" if "j < 2 ^ 31" "j \<noteq> 0" for j
    using assms log_nm_new [OF assms(2) that(1)] that(2) unfolding fs_good_def by metis
  then have "look path (fwrite i l fs) j = (if j = 0 then map_option (\<lambda>c. c @ l) (look path fs 0) else look path fs j)"
    if "j < 2 ^ 31" for j
    using that assms(3) by (auto simp: w look_def intro!: map_option_cong)
  moreover have "fs_good (fwrite i l fs)" "dir (fwrite i l fs) = dir fs" using assms(1) by (simp_all add: w fs_good_def)
  ultimately show ?thesis by blast
qed

section \<open>A log of segments\<close>

text \<open>
  The log as a specification: the bytes written since the current file was opened, and the contents of the
  files from the current one to the oldest. A line goes to the end of the first; when enough is written,
  a new file is begun and at most \<open>keep\<close> old ones remain.
\<close>

fun roll :: "nat \<Rightarrow> nat \<Rightarrow> 'c list \<Rightarrow> nat \<times> 'c list list \<Rightarrow> nat \<times> 'c list list" where
  "roll mx keep l (n, segs) =
     (let segs' = (hd segs @ l) # tl segs in
      if mx \<le> n + length l then (0, [] # take keep segs') else (n + length l, segs'))"

text \<open>
  The same log with nothing dropped: the lines in groups, one for each file, the newest first. The oldest group
  continues the file that was there at the beginning.
\<close>

definition log_history :: "'c list list list \<Rightarrow> 'c list list \<Rightarrow> 'c list list" where
  "log_history gs segs = map concat (butlast gs) @ (concat (take 1 segs) @ concat (last gs)) # tl segs"

text \<open>A group is closed by the line that reaches the limit.\<close>

definition group_full :: "nat \<Rightarrow> 'c list list \<Rightarrow> bool" where
  "group_full mx g \<longleftrightarrow> mx \<le> length (concat g) \<and> length (concat (butlast g)) < mx"

lemma history_Cons:
  "\<exists>c H. log_history (g # gs) segs = (c @ concat g) # H \<and> (\<forall>g'. log_history (g' # gs) segs = (c @ concat g') # H)"
  by (cases "gs = []") (simp_all add: log_history_def)

lemma history_new: "log_history ([] # g # gs) segs = [] # log_history (g # gs) segs"
  by (simp add: log_history_def)

locale rolling_log =
  fixes rep :: "nat \<times> 'c list list \<Rightarrow> 's \<Rightarrow> bool" and emit :: "'x \<Rightarrow> 's \<Rightarrow> 's" and line :: "'x \<Rightarrow> 'c list"
    and mx keep :: nat
  assumes emit_rolls: "rep v s \<Longrightarrow> rep (roll mx keep (line x) v) (emit x s)"
    and written_below: "rep (n, segs) s \<Longrightarrow> n < mx"
begin

lemma run_groups:
  assumes "rep (0, take (Suc keep) (log_history [[]] segs)) s"
  shows "\<exists>g gs. concat (rev (g # gs)) = map line xs \<and> (\<forall>h \<in> set gs. group_full mx h) \<and>
     rep (length (concat g), take (Suc keep) (log_history (g # gs) segs)) (fold emit xs s)"
proof (induction xs rule: rev_induct)
  case Nil
  then show ?case using assms by (intro exI [of _ "[]"]) simp
next
  case (snoc x xs)
  then obtain g gs where g: "concat (rev (g # gs)) = map line xs" "\<forall>h \<in> set gs. group_full mx h"
      "rep (length (concat g), take (Suc keep) (log_history (g # gs) segs)) (fold emit xs s)" by blast
  obtain c H where H: "log_history (g # gs) segs = (c @ concat g) # H"
      "log_history ((g @ [line x]) # gs) segs = (c @ concat g @ line x) # H"
    using history_Cons [of g gs segs] by force
  note r = emit_rolls [OF g(3), of x]
  show ?case
  proof (cases "mx \<le> length (concat g) + length (line x)")
    case True
    have "group_full mx (g @ [line x])" using True written_below [OF g(3)] by (simp add: group_full_def)
    moreover have "take keep (l # take keep H) = take keep (l # H)" for l by (cases keep) simp_all
    ultimately show ?thesis using g(1,2) r True H
      by (intro exI [of _ "[]"] exI [of _ "(g @ [line x]) # gs"]) (auto simp: history_new)
  next
    case False
    then show ?thesis using g(1,2) r H by (intro exI [of _ "g @ [line x]"] exI [of _ gs]) simp
  qed
qed

end

section \<open>The files are the segments\<close>

text \<open>The files of a log: the current one and up to \<open>keep\<close> older ones, numbered without a gap.\<close>

definition log_files :: "string \<Rightarrow> nat \<Rightarrow> fs \<Rightarrow> string list \<Rightarrow> bool" where
  "log_files path keep fs segs \<longleftrightarrow> length segs \<le> Suc keep \<and>
     (\<forall>j \<le> keep. look path fs j = (if j < length segs then Some (segs ! j) else None))"

definition log_limits :: "string \<Rightarrow> nat \<Rightarrow> size_t \<Rightarrow> bool" where
  "log_limits path keep mx \<longleftrightarrow> path \<noteq> [] \<and> length path < ZTK_LOG_PATH_MAX \<and> 0 < keep \<and> keep < 2 ^ 31 \<and> 0 < mx \<and> unat mx < 2 ^ 63"

definition log_rep :: "string \<Rightarrow> nat \<Rightarrow> size_t \<Rightarrow> int \<Rightarrow> nat \<times> string list \<Rightarrow> ztk_log \<Rightarrow> bool" where
  "log_rep path keep mx lev v s \<longleftrightarrow> log_limits path keep mx \<and> s_log_path s = path \<and> s_rotate_keep_count s = int keep \<and>
     s_rotate_max_bytes s = mx \<and> s_level s = lev \<and> fs_good (log_fs s) \<and> s_log_file s = dir (log_fs s) path \<and>
     log_files path keep (log_fs s) (snd v) \<and> snd v \<noteq> [] \<and> unat (s_written_bytes s) = fst v \<and> fst v < unat mx"

definition shown :: "int \<Rightarrow> log_call \<Rightarrow> string" where
  "shown lev x = (if l_level x < lev then [] else log_line x)"

lemma log_line_length: "0 < length (log_line x) \<and> length (log_line x) \<le> 4223"
  by (simp add: log_line_def log_prefix_def)

lemma files_write:
  assumes "fs_good fs" and "length path < ZTK_LOG_PATH_MAX" and "keep < 2 ^ 31" and "dir fs path = Some i" and "log_files path keep fs (c # cs)"
  shows "log_files path keep (fwrite i l fs) ((c @ l) # cs)"
proof -
  have "look path fs 0 = Some c" using assms(5) by (auto simp: log_files_def)
  then show ?thesis using fwrite_look [OF assms(1,2,4), of l] assms(3,5) by (auto simp: log_files_def nth_Cons split: nat.split)
qed

lemma files_rotate:
  assumes "fs_good fs" and "length path < ZTK_LOG_PATH_MAX" and "0 < keep" and "keep < 2 ^ 31" and "log_files path keep fs segs"
    and "fopen_a path (shifts path keep fs) = (f, fs')"
  shows "fs_good fs' \<and> f = dir fs' path \<and> log_files path keep fs' ([] # take keep segs)"
proof -
  have sh: "look path (shifts path keep fs) j =
      (if 0 < j \<and> j \<le> keep \<and> j - 1 < length segs then look path fs (j - 1) else if j = 0 \<and> 0 < keep then None else look path fs j)"
    if "j < 2 ^ 31" for j
    using shifts_look [OF assms(1,2,4) that, of "length segs"] assms(5) by (auto simp: log_files_def)
  then have "look path (shifts path keep fs) 0 = None" using assms(3) by simp
  from fopen_new [OF shifts_good [OF assms(1)] assms(2) this assms(6)]
  have f: "fs_good fs'" "f = dir fs' path" "\<And>j. j < 2 ^ 31 \<Longrightarrow> look path fs' j = (if j = 0 then Some [] else look path (shifts path keep fs) j)"
    by blast+
  have "look path fs' j = (if j < length ([] # take keep segs) then Some (([] # take keep segs) ! j) else None)" if "j \<le> keep" for j
    using that f(3) [of j] sh [of j] assms(4,5) by (cases j) (auto simp: log_files_def)
  then show ?thesis using f by (simp add: log_files_def)
qed

lemma writev_rolls:
  assumes "log_rep path keep mx lev v s"
  shows "log_rep path keep mx lev (roll (unat mx) keep (shown lev x) v) (ztk_log_writev x s)"
proof -
  obtain n c cs where v: "v = (n, c # cs)" using assms by (cases v; cases "snd v") (auto simp: log_rep_def)
  have lim: "path \<noteq> []" "length path < ZTK_LOG_PATH_MAX" "0 < keep" "keep < 2 ^ 31" "0 < mx" "unat mx < 2 ^ 63"
    using assms by (auto simp: log_rep_def log_limits_def)
  have s: "fs_good (log_fs s)" "log_files path keep (log_fs s) (c # cs)" "unat (s_written_bytes s) = n" "n < unat mx"
      "s_level s = lev" "s_log_path s = path" "s_rotate_keep_count s = int keep" "s_rotate_max_bytes s = mx"
    using assms v by (simp_all add: log_rep_def)
  have "look path (log_fs s) 0 = Some c" using s(2) by (auto simp: log_files_def)
  then obtain i where i: "dir (log_fs s) path = Some i" "s_log_file s = Some i" using assms by (auto simp: look_def log_rep_def)
  show ?thesis
  proof (cases "l_level x < lev")
    case True
    then show ?thesis using assms s(4,5) v by (simp add: ztk_log_writev_def shown_def)
  next
    case False
    let ?l = "log_line x"
    let ?w = "s_written_bytes s + of_nat (length ?l)"
    let ?fs = "fwrite i ?l (log_fs s)"
    have w: "unat ?w = n + length ?l"
      using s(3,4) lim(6) log_line_length [of x] by (simp add: unat_word_ariths unat_of_nat take_bit_nat_eq_self_iff)
    have fs: "fs_good ?fs" "dir ?fs = dir (log_fs s)" using fwrite_look [OF s(1) lim(2) i(1)] by blast+
    note fl = files_write [OF s(1) lim(2,4) i(1) s(2), of ?l]
    have pos: "0 < unat mx" using s(4) by simp
    have le: "mx \<le> ?w \<longleftrightarrow> unat mx \<le> n + length ?l" by (simp add: word_le_nat_alt w)
    show ?thesis
    proof (cases "mx \<le> ?w")
      case True
      obtain f fs' where f: "fopen_a path (shifts path keep ?fs) = (f, fs')" by fastforce
      have rs: "rename path (log_name path 1) (rotate_loop path (nat (int keep - 1)) ?fs) = shifts path keep ?fs"
        using rotate_shifts [of path "keep - 1" ?fs] lim(3) by (simp add: nat_diff_distrib)
      from files_rotate [OF fs(1) lim(2-4) fl f] True le False f rs show ?thesis using lim s(5-8) i v pos
        by (simp add: ztk_log_writev_def do_rotate_def shown_def log_rep_def log_limits_def Let_def)
    next
      case nr: False
      then show ?thesis using le False fl fs lim s(5-8) i v w
        by (simp add: ztk_log_writev_def shown_def log_rep_def log_limits_def Let_def)
    qed
  qed
qed

interpretation lg: rolling_log "log_rep path keep mx lev" ztk_log_writev "shown lev" "unat mx" keep for path keep mx lev
  by unfold_locales (simp_all add: writev_rolls, simp_all add: log_rep_def)

lemma rotate_other [simp]:
  "log_stderr (do_rotate s) = log_stderr s" "s_level (do_rotate s) = s_level s"
  by (simp_all add: do_rotate_def Let_def split_def)

lemma run_stderr: "log_stderr (log_run xs s) = log_stderr s @ concat (map (shown (s_level s)) xs) \<and> s_level (log_run xs s) = s_level s"
  unfolding log_run_def
proof (induction xs arbitrary: s)
  case (Cons x xs)
  have "log_stderr (ztk_log_writev x s) = log_stderr s @ shown (s_level s) x \<and> s_level (ztk_log_writev x s) = s_level s"
    by (simp add: ztk_log_writev_def shown_def Let_def split: option.split)
  then show ?case using Cons.IH [of "ztk_log_writev x s"] by simp
qed simp

lemma run_filter: "log_run (filter (\<lambda>x. s_level s \<le> l_level x) xs) s = log_run xs s"
proof (induction xs arbitrary: s)
  case (Cons x xs)
  have "s_level (ztk_log_writev x s) = s_level s" using run_stderr [of "[x]" s] by (simp add: log_run_def)
  then show ?case using Cons.IH [of "ztk_log_writev x s"]
    by (cases "s_level s \<le> l_level x") (simp_all add: log_run_def ztk_log_writev_def Cons.IH [unfolded log_run_def])
qed simp

lemma open_rep:
  assumes "log_limits path keep mx" and "fs_good (log_fs s0)" and "log_files path keep (log_fs s0) segs"
  shows "log_rep path keep mx (s_level s0) (0, if segs = [] then [[]] else segs)
     (ztk_log_set_rotate mx (int keep) (snd (ztk_log_open_file (Some path) s0)))"
proof -
  have lim: "path \<noteq> []" "length path < ZTK_LOG_PATH_MAX" "0 < keep" "keep < 2 ^ 31" "0 < unat mx"
    using assms(1) by (auto simp: log_limits_def unat_gt_0 word_gt_0)
  obtain f fs where f: "fopen_a path (log_fs s0) = (f, fs)" by fastforce
  have l0: "look path (log_fs s0) 0 = (if segs = [] then None else Some (segs ! 0))" using assms(3) by (auto simp: log_files_def)
  have "fs_good fs \<and> f = dir fs path \<and> log_files path keep fs (if segs = [] then [[]] else segs)"
  proof (cases "segs = []")
    case True
    with l0 have "look path (log_fs s0) 0 = None" by simp
    from fopen_new [OF assms(2) lim(2) this f] show ?thesis using True assms(3) lim(4) by (auto simp: log_files_def)
  next
    case False
    with l0 have "look path (log_fs s0) 0 \<noteq> None" by simp
    from fopen_old [OF assms(2) this] f False assms(2,3) show ?thesis by auto
  qed
  then show ?thesis using lim assms(1) f by (simp add: log_rep_def ztk_log_open_file_def ztk_log_set_rotate_def ZTK_LOG_PATH_MAX_def)
qed

lemma faults_simps [simp]:
  "faults (rename p q fs) = tl (faults fs)" "faults (fwrite i l fs) = tl (faults fs)"
  by (simp_all add: rename_def fwrite_def take_fault_def split: list.split option.split)

lemma faults_loop [simp]: "faults (rotate_loop path n fs) = drop n (faults fs)"
  by (induction n arbitrary: fs) (simp_all add: drop_Suc)

lemma closed_silent: "s_log_file s = None \<Longrightarrow> s_log_file (log_run xs s) = None \<and> log_fs (log_run xs s) = log_fs s"
  unfolding log_run_def by (induction xs arbitrary: s) (simp_all add: ztk_log_writev_def Let_def)

section \<open>Samples\<close>

definition log_sample :: ztk_log where
  "log_sample = (log_static \<lparr>dir = [''a.log'' \<mapsto> 1, ''a.log.1'' \<mapsto> 2], contents = (\<lambda>i. if i = 1 then ''new'' else ''old''),
     next_ino = 3, faults = []\<rparr>)"

definition log_hello :: log_call where
  "log_hello = \<lparr>l_level = ZTK_LOG_WARN, l_file = Some ''src/m.c'', l_line = 7, l_text = ''hello'', l_now = 12\<rparr>"

section \<open>Properties\<close>

text \<open>
  C30. The log keeps the newest lines. Let a log be opened over files that are absent or were left by an earlier
  run, numbered without a gap, let no operation on files fail (\<open>fs_good\<close>), and let rotation be on, with a path of less than 512 characters and
  \<open>keep\<close> and \<open>max_bytes\<close> positive and below \<open>2^31\<close> and \<open>2^63\<close> (\<open>log_limits\<close>). After any sequence of messages the lines at or above the level,
  each whole and in order, fall into groups, one for each file since the opening; the first group follows what
  the current file held then. The files on disk are exactly the newest ones of these, the current one and at most \<open>keep\<close>
  rotated ones: what is dropped is dropped by whole files, the oldest first, and only when there are more than that. Since the opening, less than
  \<open>max_bytes\<close> went into the current file, and into each rotated file \<open>max_bytes\<close> or more, passing the limit by
  its last line only: the limit triggers the rotation, it does not bound the file. The standard error stream has every line.
\<close>

theorem log_keeps_newest:
  assumes "log_limits path keep mx" and "fs_good (log_fs s0)" and "log_files path keep (log_fs s0) segs"
  shows "\<exists>s g gs. s = log_run xs (ztk_log_set_rotate mx (int keep) (snd (ztk_log_open_file (Some path) s0))) \<and>
     concat (rev (g # gs)) = map log_line (filter (\<lambda>x. s_level s0 \<le> l_level x) xs) \<and>
     log_files path keep (log_fs s) (take (Suc keep) (log_history (g # gs) segs)) \<and>
     length (concat g) < unat mx \<and>
     (\<forall>h \<in> set gs. unat mx \<le> length (concat h) \<and> length (concat (butlast h)) < unat mx) \<and>
     log_stderr s = log_stderr s0 @ concat (map log_line (filter (\<lambda>x. s_level s0 \<le> l_level x) xs))"
proof -
  let ?s1 = "ztk_log_set_rotate mx (int keep) (snd (ztk_log_open_file (Some path) s0))"
  let ?xs = "filter (\<lambda>x. s_level s0 \<le> l_level x) xs"
  have sh: "map (shown (s_level s0)) ?xs = map log_line ?xs" by (simp add: shown_def not_less)
  have lev: "s_level ?s1 = s_level s0 \<and> log_stderr ?s1 = log_stderr s0"
    by (simp add: ztk_log_set_rotate_def ztk_log_open_file_def split_def Let_def)
  have "length segs \<le> Suc keep" using assms(3) by (simp add: log_files_def)
  then have "take (Suc keep) (log_history [[]] segs) = (if segs = [] then [[]] else segs)"
    by (cases segs) (simp_all add: log_history_def)
  then have "log_rep path keep mx (s_level s0) (0, take (Suc keep) (log_history [[]] segs)) ?s1"
    using open_rep [OF assms] by simp
  from lg.run_groups [OF this, of ?xs] obtain g gs where
    r: "concat (rev (g # gs)) = map log_line ?xs" "\<forall>h \<in> set gs. group_full (unat mx) h"
      "log_rep path keep mx (s_level s0) (length (concat g), take (Suc keep) (log_history (g # gs) segs)) (log_run ?xs ?s1)"
    unfolding log_run_def sh by blast
  have "log_run xs ?s1 = log_run ?xs ?s1" using run_filter [of ?s1 xs] lev by simp
  then show ?thesis using r run_stderr [of ?xs ?s1] lev sh by (auto simp: log_rep_def group_full_def)
qed

theorem log_keeps_newest_witness:
  "\<exists>g gs. log_files ''a.log'' 2 (log_fs (log_run [log_hello, log_hello, log_hello]
       (ztk_log_set_rotate 30 2 (snd (ztk_log_open_file (Some ''a.log'') log_sample))))) (take 3 (log_history (g # gs) [''new'', ''old''])) \<and>
     concat (rev (g # gs)) = [log_line log_hello, log_line log_hello, log_line log_hello] \<and> length (concat g) < 30"
proof -
  have "log_limits ''a.log'' 2 30" by (simp add: log_limits_def ZTK_LOG_PATH_MAX_def)
  moreover have "fs_good (log_fs log_sample)" by (auto simp: fs_good_def log_sample_def log_static_def split: if_splits)
  moreover have "look ''a.log'' (log_fs log_sample) 0 = Some ''new''" "look ''a.log'' (log_fs log_sample) 1 = Some ''old''"
      "look ''a.log'' (log_fs log_sample) 2 = None"
    by code_simp+
  then have "log_files ''a.log'' 2 (log_fs log_sample) [''new'', ''old'']"
    by (auto simp: log_files_def le_Suc_eq numeral_2_eq_2)
  moreover have "s_level log_sample \<le> l_level log_hello" by (simp add: log_sample_def log_static_def log_hello_def log_levels)
  ultimately show ?thesis
    using log_keeps_newest [of "''a.log''" 2 30 log_sample "[''new'', ''old'']" "[log_hello, log_hello, log_hello]"]
    by (auto simp: numeral_3_eq_3)
qed

text \<open>
  A failed rotation ends the file log. When the limit is reached and, after the renames, the new
  file cannot be opened, the log has no file any more: no later message, however many, is written to a
  file or tries to open it again. Only reopening by hand does.
\<close>

lemma log_stops_after_failed_open:
  assumes "s_log_file s = Some i" and "s_log_path s \<noteq> []" and "s_level s \<le> l_level x" and "0 < s_rotate_max_bytes s"
    and "s_rotate_max_bytes s \<le> s_written_bytes s + of_nat (length (log_line x))" and "0 < s_rotate_keep_count s"
    and "faults (log_fs s) = replicate (Suc (nat (s_rotate_keep_count s))) None @ Some k # fl"
  shows "s_log_file (log_run xs (ztk_log_writev x s)) = None \<and> log_fs (log_run xs (ztk_log_writev x s)) = log_fs (ztk_log_writev x s)"
proof -
  obtain n where n: "nat (s_rotate_keep_count s) = Suc n" using assms(6) by (cases "nat (s_rotate_keep_count s)") auto
  then have "nat (s_rotate_keep_count s - 1) = n" by simp
  moreover have "fopen_a p fs = (None, fs\<lparr>faults := fl\<rparr>)" if "faults fs = Some k # fl" for p fs
    using that by (simp add: fopen_a_def take_fault_def)
  ultimately have "s_log_file (ztk_log_writev x s) = None"
    using assms n by (simp add: ztk_log_writev_def do_rotate_def Let_def split_def tl_drop)
  then show ?thesis by (rule closed_silent)
qed

end
