(* ===== verification/Timer_Handle.thy ===== *)
theory Timer_Handle
  imports Poller_Timer
begin

text \<open>
  Timer handles, \<^verbatim>\<open>src/util/timer.c\<close>: a handle holds the interval, the callback of the application and the
  poller's timer, whose callback \<^verbatim>\<open>timer_bridge\<close> gets the handle as its user pointer; so the callbacks of the
  poller's timers are the addresses of handles here. Allocation outcomes, clocks and the callbacks
  of the application are arguments, as in \<open>Poller_Timer\<close>; \<open>None\<close> is an execution without a defined outcome.
\<close>

section \<open>Operations\<close>

record 'd ztk_timer =
  h_handle :: "nat option"
  h_interval_ms :: u64
  h_repeat :: bool
  h_cb :: "'d option"

record ('d, 'u) hpoller = "(nat, 'u) tpoller" +
  handles :: "nat \<rightharpoonup> 'd ztk_timer"

definition timer_bridge ::
    "('d \<Rightarrow> ('d, 'u, 'z) hpoller_scheme \<Rightarrow> ('d, 'u, 'z) hpoller_scheme option) \<Rightarrow> nat \<Rightarrow>
     ('d, 'u, 'z) hpoller_scheme \<Rightarrow> (u64 \<times> ('d, 'u, 'z) hpoller_scheme) option" where
  "timer_bridge app user p = do {
     t \<leftarrow> handles p user;
     p1 \<leftarrow> (case h_cb t of None \<Rightarrow> Some p | Some f \<Rightarrow> app f p);
     t1 \<leftarrow> handles p1 user;
     Some (if h_repeat t1 then h_interval_ms t1 else 0, p1)
   }"

definition ztk_timer_start ::
    "u64 \<Rightarrow> u64 \<Rightarrow> nat option \<Rightarrow> nat option \<Rightarrow> nat option \<Rightarrow> nat option \<Rightarrow> bool \<Rightarrow> ztk_err \<Rightarrow>
     ('d, 'u, 'z) hpoller_scheme option \<Rightarrow> u64 \<Rightarrow> bool \<Rightarrow> 'd option \<Rightarrow>
     (nat option \<times> ('d, 'u, 'z) hpoller_scheme option) option" where
  "ztk_timer_start self now hmem tmem cmem nmem rok wake p interval_ms repeat fn =
     (case p of None \<Rightarrow> Some (None, p)
      | Some s \<Rightarrow>
        if fn = None \<or> interval_ms = 0 then Some (None, p)
        else (case fresh_or_null hmem (handles s) of None \<Rightarrow> Some (None, p)
        | Some t \<Rightarrow>
          let s1 = s\<lparr>handles := (handles s)(t \<mapsto> \<lparr>h_handle = None, h_interval_ms = interval_ms, h_repeat = repeat, h_cb = fn\<rparr>)\<rparr> in
          (case ztk_poller_do_delay self now tmem cmem nmem rok wake (Some s1) interval_ms (Some t) of
             Some (None, Some s2) \<Rightarrow> Some (None, Some (s2\<lparr>handles := (handles s2)(t := None)\<rparr>))
           | Some (Some x, Some s2) \<Rightarrow>
               Some (Some t, Some (s2\<lparr>handles := (handles s2)(t := map_option (\<lambda>h. h\<lparr>h_handle := Some x\<rparr>) (handles s2 t))\<rparr>))
           | _ \<Rightarrow> None)))"

definition ztk_timer_stop ::
    "u64 \<Rightarrow> nat option \<Rightarrow> nat option \<Rightarrow> ztk_err \<Rightarrow> ('d, 'u, 'z) hpoller_scheme \<Rightarrow> nat option \<Rightarrow>
     ('d, 'u, 'z) hpoller_scheme option" where
  "ztk_timer_stop self cmem nmem wake p timer =
     (case timer of None \<Rightarrow> Some p
      | Some t \<Rightarrow> do {
          h \<leftarrow> handles p t;
          p1 \<leftarrow> (if h_handle h \<noteq> None then ztk_poller_timer_cancel self cmem nmem wake p (h_handle h) else Some p);
          Some (p1\<lparr>handles := (handles p1)(t := None)\<rparr>)
        })"

text \<open>\<^verbatim>\<open>gettimeofday\<close> gives seconds and microseconds; the sum wraps at 64 bits.\<close>

definition ztk_wall_ms :: "u64 \<times> u64 \<Rightarrow> u64" where
  "ztk_wall_ms tv = fst tv * 1000 + snd tv div 1000"

section \<open>Starting\<close>

lemma frame_handles: "cb_frame p (p\<lparr>handles := h\<rparr>)"
  using cb_frame_refl [of p] by (simp add: cb_frame_def)

lemma frame_new_timer:
  assumes "timers p x = None" and "heap_index t = ZTK_TIMER_HEAP_INDEX_NONE"
  shows "cb_frame p (p\<lparr>timers := (timers p)(x \<mapsto> t)\<rparr>)"
  using assms cb_frame_refl [of p] by (auto simp: cb_frame_def)

lemma tfr_handles:
  fixes p :: "('d, 'u, 'z) hpoller_scheme"
  assumes "tfr A p p'"
  shows "handles p' = handles p" and "hpoller.more p' = hpoller.more p"
proof -
  have "p' = p\<lparr>timer_heap_count := timer_heap_count p', timer_heap_cap := timer_heap_cap p',
      timer_heap := timer_heap p', timers := timers p'\<rparr>"
    using assms by (simp add: tfr_def idx_upd_def)
  then have "f p' = f (p\<lparr>timer_heap_count := timer_heap_count p', timer_heap_cap := timer_heap_cap p',
      timer_heap := timer_heap p', timers := timers p'\<rparr>)" for f :: "('d, 'u, 'z) hpoller_scheme \<Rightarrow> 'y"
    by (rule arg_cong)
  from this [of handles] this [of hpoller.more]
  show "handles p' = handles p" "hpoller.more p' = hpoller.more p" by simp_all
qed

text \<open>The timer of a handle, armed and not cancelled.\<close>

definition runs :: "('d, 'u, 'z) hpoller_scheme \<Rightarrow> nat \<Rightarrow> nat \<Rightarrow> 'd ztk_timer \<Rightarrow> bool" where
  "runs p a x h \<longleftrightarrow> timer_inv p \<and> handles p a = Some h \<and> h_handle h = Some x \<and> x \<in> armed p \<and>
     (\<exists>t. timers p x = Some t \<and> cb t = Some a \<and> \<not> cancelled t)"

lemma tfr_timer:
  assumes "tfr A p p'" and "timers p x = Some t"
  shows "\<exists>t'. timers p' x = Some t' \<and> cb t' = cb t \<and> cancelled t' = cancelled t"
proof -
  have "rel_option but_index (Some t) (timers p' x)" using tfrD(9) [OF assms(1), of x] assms(2) by simp
  then show ?thesis by (cases "timers p' x") (auto dest: but_indexD)
qed

lemma arm_timer:
  fixes p :: "('d, 'u, 'z) hpoller_scheme"
  assumes inv: "timer_inv p" and t: "timers p x = Some t" and room: "card (armed p) + 1 < 2 ^ 59"
  shows "\<exists>p'. ztk_poller_timer_insert_locked True p x d = Some p' \<and> timer_inv p' \<and> keyof p' = (keyof p)(x := d) \<and>
     armed p' = insert x (armed p) \<and> handles p' = handles p \<and> hpoller.more p' = hpoller.more p \<and> timer_mtx p' = timer_mtx p \<and> owner_thread p' = owner_thread p \<and>
     (\<exists>t'. timers p' x = Some t' \<and> cb t' = cb t \<and> cancelled t' = cancelled t)"
proof -
  let ?q = "p\<lparr>timers := (timers p)(x \<mapsto> t\<lparr>deadline_ms := d\<rparr>)\<rparr>"
  obtain p' where p': "ztk_poller_timer_insert_locked True p x d = Some p'" "timer_inv p'" "keyof p' = (keyof p)(x := d)"
      "tfr (insert x (armed p)) ?q p'" "armed p' = insert x (armed p)"
    using insert_spec [OF inv t room, of True d] by auto
  obtain t' where "timers p' x = Some t'" "cb t' = cb t" "cancelled t' = cancelled t"
    using tfr_timer [OF p'(4), of x "t\<lparr>deadline_ms := d\<rparr>"] by auto
  moreover have "handles p' = handles p" "hpoller.more p' = hpoller.more p" using tfr_handles [OF p'(4)] by simp_all
  ultimately show ?thesis using p' tfrD(1,8) [OF p'(4)] by auto
qed

lemma start_runs:
  fixes p :: "('d, 'u, 'z) hpoller_scheme"
  assumes inv: "timer_inv p" "timer_mtx p" and own: "owner_thread p = self" "self \<noteq> 0"
    and new: "handles p a = None" "timers p x = None" and iv: "0 < iv" and room: "card (armed p) + 1 < 2 ^ 59"
  shows "\<exists>p'. ztk_timer_start self now (Some a) (Some x) cm nm True wake (Some p) iv r (Some f) = Some (Some a, Some p') \<and>
     runs p' a x \<lparr>h_handle = Some x, h_interval_ms = iv, h_repeat = r, h_cb = Some f\<rparr> \<and> armed p' = insert x (armed p) \<and>
     keyof p' x = now + iv \<and> (\<forall>y \<in> armed p. keyof p' y = keyof p y) \<and> hpoller.more p' = hpoller.more p \<and> timer_mtx p' \<and>
     owner_thread p' = self"
proof -
  let ?h = "\<lparr>h_handle = None, h_interval_ms = iv, h_repeat = r, h_cb = Some f\<rparr>"
  let ?s = "p\<lparr>handles := (handles p)(a \<mapsto> ?h)\<rparr>"
  let ?t = "\<lparr>cb = Some a, cancelled = False, deadline_ms = 0, heap_index = ZTK_TIMER_HEAP_INDEX_NONE\<rparr>"
  let ?s1 = "?s\<lparr>timers := (timers ?s)(x \<mapsto> ?t)\<rparr>"
  have i1: "timer_inv ?s" "armed ?s = armed p" by (rule cb_frame_inv [OF inv(1) frame_handles])+
  have f1: "cb_frame ?s ?s1" using new(2) by (intro frame_new_timer) simp_all
  note i2 = cb_frame_inv [OF i1(1) f1]
  have "timers ?s1 x = Some ?t" by simp
  from arm_timer [OF i2(1) this, of "now + iv"] room i1(2) i2(2) obtain p' where
    p': "ztk_poller_timer_insert_locked True ?s1 x (now + iv) = Some p'" "timer_inv p'" "keyof p' = (keyof ?s1)(x := now + iv)"
      "armed p' = insert x (armed p)" "handles p' = handles ?s1" "timer_mtx p' = timer_mtx ?s1" "owner_thread p' = owner_thread ?s1"
      "hpoller.more p' = hpoller.more ?s1"
      "\<exists>t'. timers p' x = Some t' \<and> cb t' = Some a \<and> \<not> cancelled t'"
    by auto
  have dd: "ztk_poller_do_delay self now (Some x) cm nm True wake (Some ?s) iv (Some a) = Some (Some x, Some p')"
    using p'(1) new(2) inv(2) own by (simp add: ztk_poller_do_delay_def fresh_or_null_def)
  let ?p' = "p'\<lparr>handles := (handles p')(a \<mapsto> \<lparr>h_handle = Some x, h_interval_ms = iv, h_repeat = r, h_cb = Some f\<rparr>)\<rparr>"
  have "ztk_timer_start self now (Some a) (Some x) cm nm True wake (Some p) iv r (Some f) = Some (Some a, Some ?p')"
    using dd new(1) iv p'(5) by (simp add: ztk_timer_start_def fresh_or_null_def)
  moreover have "timer_inv ?p'" "armed ?p' = armed p'" by (rule cb_frame_inv [OF p'(2) frame_handles])+
  moreover have "keyof ?p' = keyof p'" by (simp add: keyof_def [abs_def])
  moreover have "keyof p' y = keyof p y" if "y \<in> armed p" for y
    using p'(3) armed_live [OF inv(1) that] new(2) by (auto simp: keyof_def)
  ultimately show ?thesis using p' inv(2) own by (intro exI [of _ ?p']) (auto simp: runs_def)
qed

section \<open>Firing and stopping\<close>

text \<open>
  A callback of the application that returns and leaves timers and handles alone; \<open>g\<close> is what it does to the application's
  state, the part of the record beyond the poller.
\<close>

definition timer_quiet ::
    "('d \<Rightarrow> ('d, 'u, 'z) hpoller_scheme \<Rightarrow> ('d, 'u, 'z) hpoller_scheme option) \<Rightarrow> 'd \<Rightarrow> ('z \<Rightarrow> 'z) \<Rightarrow> bool" where
  "timer_quiet app f g \<longleftrightarrow> (\<forall>q. \<exists>q'. app f q = Some q' \<and> cb_frame q q' \<and> timers q' = timers q \<and> handles q' = handles q \<and>
     owner_thread q' = owner_thread q \<and> hpoller.more q' = g (hpoller.more q))"

text \<open>A flush before any deadline does nothing.\<close>

lemma flush_early:
  assumes "timer_inv p" and "\<And>y. y \<in> armed p \<Longrightarrow> now < keyof p y"
  shows "flush_loop cbs rok now ZTK_TIMER_FLUSH_MAX q = Some p \<Longrightarrow> \<exists>r. flush_expired_timers cbs rok q now = Some (r, p)"
    and "flush_loop cbs rok now n p = Some p"
proof -
  have k: "timer_heap_count p = 0 \<or> (\<exists>k. heap_key p 0 = Some k \<and> now < k)"
    using pop_spec [OF assms(1)] count_armed [OF assms(1)] assms(2) by blast
  then show "flush_loop cbs rok now n p = Some p" by (cases n) auto
  show "\<exists>r. flush_expired_timers cbs rok q now = Some (r, p)" if "flush_loop cbs rok now ZTK_TIMER_FLUSH_MAX q = Some p"
    using that k by (auto simp: flush_expired_timers_def)
qed

lemma stop_runs:
  assumes "runs p a x h" and "owner_thread p = self" and "self \<noteq> 0" and "timer_mtx p"
  shows "\<exists>p'. ztk_timer_stop self cm nm wake p (Some a) = Some p' \<and> armed p' = armed p - {x} \<and> handles p' a = None \<and> timer_inv p'"
proof -
  obtain t where t: "timers p x = Some t" using assms(1) by (auto simp: runs_def)
  let ?q = "p\<lparr>timers := (timers p)(x \<mapsto> t\<lparr>cancelled := True\<rparr>)\<rparr>"
  have inv: "timer_inv p" using assms(1) by (simp add: runs_def)
  have "cb_frame p ?q" using t cb_frame_refl [of p] by (auto simp: cb_frame_def)
  note i = cb_frame_inv [OF inv this]
  obtain p' where p': "timer_heap_remove ?q x = Some p'" "timer_inv p'" "armed p' = armed p - {x}"
    using remove_spec [OF i(1), of x] i(2) by auto
  then have "ztk_timer_stop self cm nm wake p (Some a) = Some (p'\<lparr>handles := (handles p')(a := None)\<rparr>)"
    using assms t by (simp add: ztk_timer_stop_def runs_def ztk_poller_timer_cancel_def unlink_timer_def)
  moreover note cb_frame_inv [OF p'(2) frame_handles, of "(handles p')(a := None)"]
  ultimately show ?thesis using p'(3) by auto
qed

lemma free_armed:
  assumes "timer_inv p" and "x \<notin> armed p"
  shows "timer_inv (p\<lparr>timers := (timers p)(x := None)\<rparr>)" and "armed (p\<lparr>timers := (timers p)(x := None)\<rparr>) = armed p"
proof -
  let ?q = "p\<lparr>timers := (timers p)(x := None)\<rparr>"
  obtain xs where xs: "arr_rep p xs" "heap_on (keyof p) xs" "length xs < 2 ^ 59" "loose p xs" "armed p = set xs"
    using assms(1) by (rule timer_invE)
  have k: "keyof ?q y = keyof p y" "at_index ?q y i = at_index p y i" if "y \<noteq> x" for y i using that by (auto simp: keyof_def at_index_def)
  have "xs ! i \<noteq> x" if "i < length xs" for i using that xs(5) assms(2) nth_mem by metis
  then have rep: "arr_rep ?q xs" using xs(1) k by (auto simp: arr_rep_def)
  moreover have "heap_on (keyof ?q) xs" by (rule heap_on_cong [OF _ xs(2)]) (use k(1) xs(5) assms(2) in metis)
  moreover have "loose ?q xs" using xs(4) k by (auto simp: loose_def split: if_splits)
  ultimately show inv: "timer_inv ?q" using xs(3) by (intro timer_invI)
  show "armed ?q = armed p" using armed_rep [OF inv rep] xs(5) by simp
qed

lemma fire_handle:
  assumes run: "runs p a x h" and later: "\<And>y. y \<in> armed p \<Longrightarrow> y \<noteq> x \<Longrightarrow> now < keyof p y" and due: "keyof p x \<le> now"
    and cb: "h_cb h = Some f" and q: "timer_quiet app f g" and iv: "now < now + h_interval_ms h"
  shows "\<exists>r p'. flush_expired_timers (timer_bridge app) True p now = Some (r, p') \<and> handles p' = handles p \<and>
     timer_mtx p' = timer_mtx p \<and> owner_thread p' = owner_thread p \<and> hpoller.more p' = g (hpoller.more p) \<and>
     (if h_repeat h then runs p' a x h \<and> armed p' = armed p \<and> keyof p' x = now + h_interval_ms h
      else timers p' x = None \<and> armed p' = armed p - {x})"
proof -
  obtain t where r: "timer_inv p" "handles p a = Some h" "h_handle h = Some x" "timers p x = Some t" "cb t = Some a"
      "\<not> cancelled t" "x \<in> armed p"
    using run by (auto simp: runs_def)
  then obtain z p1 where z: "timer_heap_pop_min p = Some (Some z, p1)" "z \<in> armed p" "heap_key p 0 = Some (keyof p z)"
      "\<forall>b \<in> armed p. keyof p z \<le> keyof p b" "timer_inv p1" "armed p1 = armed p - {z}" "tfr (armed p) p p1"
    using pop_spec [OF r(1)] by blast
  have "z = x" using z(2,4) r(7) later [of z] due by force
  note p1 = z [unfolded this]
  have cnt: "timer_heap_count p \<noteq> 0" using count_armed [OF r(1)] r(7) by auto
  obtain t1 where t1: "timers p1 x = Some t1" "cb t1 = Some a" "\<not> cancelled t1" using tfr_timer [OF p1(7) r(4)] r(5,6) by auto
  have h1: "handles p1 a = Some h" using tfr_handles [OF p1(7)] r(2) by simp
  obtain p2 where p2: "app f p1 = Some p2" "cb_frame p1 p2" "timers p2 = timers p1" "handles p2 = handles p1"
      "owner_thread p2 = owner_thread p1" "hpoller.more p2 = g (hpoller.more p1)"
    using q unfolding timer_quiet_def by blast
  have br: "timer_bridge app a p1 = Some (if h_repeat h then h_interval_ms h else 0, p2)"
    using h1 cb p2(1,4) by (simp add: timer_bridge_def)
  note i2 = cb_frame_inv [OF p1(5) p2(2)]
  have k2: "keyof p2 = keyof p" using p2(3) tfrD(5) [OF p1(7)] by (simp add: keyof_def [abs_def])
  have nz: "0 < h_interval_ms h" using iv by (auto intro: ccontr simp: word_gt_0)
  have fr: "handles p2 = handles p" "timer_mtx p2 = timer_mtx p" "owner_thread p2 = owner_thread p"
      "hpoller.more p2 = g (hpoller.more p)"
    using p2 tfr_handles [OF p1(7)] tfrD(1,8) [OF p1(7)] by (simp_all add: cb_frame_def)
  obtain n where sz: "ZTK_TIMER_FLUSH_MAX = Suc n" using that [of 255] by (simp add: ZTK_TIMER_FLUSH_MAX_def)
  show ?thesis
  proof (cases "h_repeat h")
    case True
    have card: "card (armed p2) + 1 < 2 ^ 59"
    proof -
      obtain xs where "length xs < 2 ^ 59" "armed p = set xs" using r(1) by (rule timer_invE)
      then have "card (armed p) < 2 ^ 59" using card_length [of xs] by simp
      then show ?thesis using i2(2) p1(6) r(7) armed_card [OF r(1)] by (simp add: card_Suc_Diff1)
    qed
    have "timers p2 x = Some t1" using p2(3) t1(1) by simp
    from arm_timer [OF i2(1) this card, of "now + h_interval_ms h"] obtain p3 where
      p3: "ztk_poller_timer_insert_locked True p2 x (now + h_interval_ms h) = Some p3" "timer_inv p3"
        "keyof p3 = (keyof p2)(x := now + h_interval_ms h)" "armed p3 = armed p" "handles p3 = handles p2" "timer_mtx p3 = timer_mtx p2"
        "owner_thread p3 = owner_thread p2" "hpoller.more p3 = hpoller.more p2"
        "\<exists>t'. timers p3 x = Some t' \<and> cb t' = Some a \<and> \<not> cancelled t'"
      using t1 i2(2) p1(6) insert_absorb [OF r(7)] by auto
    have "now < keyof p3 y" if "y \<in> armed p3" for y using that p3(3,4) k2 later iv by auto
    note e = flush_early [OF p3(2) this]
    have "flush_loop (timer_bridge app) True now (Suc n) p = Some p3"
      using cnt p1(1,3) due t1 br True nz p2(3) p3(1) e(2) by (simp add: not_less)
    then have "\<exists>r. flush_expired_timers (timer_bridge app) True p now = Some (r, p3)"
      using e(1) sz by simp
    then show ?thesis using True p3 fr r(2,3,7) by (auto simp: runs_def)
  next
    case False
    let ?p3 = "p2\<lparr>timers := (timers p2)(x := None)\<rparr>"
    have out: "x \<notin> armed p2" using i2(2) p1(6) by simp
    note i3 = free_armed [OF i2(1) out]
    have "now < keyof ?p3 y" if "y \<in> armed ?p3" for y
    proof -
      have y: "y \<in> armed p" "y \<noteq> x" using that i3(2) i2(2) p1(6) by auto
      then have "keyof ?p3 y = keyof p2 y" by (simp add: keyof_def)
      then show ?thesis using later [OF y] k2 by simp
    qed
    note e = flush_early [OF i3(1) this]
    have "flush_loop (timer_bridge app) True now (Suc n) p = Some ?p3"
      using cnt p1(1,3) due t1 br False p2(3) e(2) by (simp add: not_less free_timer_def)
    then have "\<exists>r. flush_expired_timers (timer_bridge app) True p now = Some (r, ?p3)"
      using e(1) sz by simp
    then show ?thesis using False fr i3(2) i2(2) p1(6) by auto
  qed
qed

section \<open>Properties\<close>

definition hp_idle :: "(nat, nat, nat) hpoller_scheme" where
  "hp_idle = \<lparr>task_mtx = True, task_q = lq_empty, owner_thread = 1, timer_mtx = True, timers = Map.empty, timer_heap = [],
     timer_heap_count = 0, timer_heap_cap = 0, ctxs = Map.empty, handles = Map.empty, \<dots> = 0\<rparr>"

lemma hp_idle_inv: "timer_inv hp_idle" and hp_idle_armed: "armed hp_idle = {}"
proof -
  have rep: "arr_rep hp_idle []" by (simp add: arr_rep_def hp_idle_def)
  moreover have "heap_on (keyof hp_idle) []" by (simp add: heap_on_def)
  moreover have "loose hp_idle []" by (simp add: loose_def hp_idle_def)
  ultimately show inv: "timer_inv hp_idle" by (intro timer_invI) simp_all
  show "armed hp_idle = {}" using armed_rep [OF inv rep] by simp
qed

text \<open>
  C29. The life of a timer handle, on the poller's thread, with the allocations succeeding, a callback that returns
  and leaves timers and handles alone, and other timers (if any) that are due later than the moment considered. A
  handle is started; its timer is armed for one interval from now, and a flush before that does nothing. When a flush comes at or
  after its deadline, the callback runs, exactly once: the state of the application is what the callback makes of it. A repeating timer
  is then armed again, one interval after the moment it was served (not after its deadline: delays add up), and
  stopping it disarms the timer and frees the handle. A timer that runs once is freed by the poller, while the handle
  still points to it: stopping the handle, which is the only way to free it, uses freed memory. Other timers stay armed throughout.
\<close>

theorem timer_handle_life:
  fixes p :: "('d, 'u, 'z) hpoller_scheme"
  assumes "timer_inv p" and "card (armed p) + 1 < 2 ^ 59" and "timer_mtx p" and "owner_thread p = self" and "self \<noteq> 0"
    and "handles p a = None" and "timers p x = None" and "timer_quiet app f g" and "0 < iv" and "now + iv \<le> t" and "t < t + iv"
    and "\<And>y. y \<in> armed p \<Longrightarrow> t < keyof p y"
  shows "\<exists>p1 r p2. ztk_timer_start self now (Some a) (Some x) cm nm True wake (Some p) iv rep (Some f) = Some (Some a, Some p1) \<and>
     armed p1 = insert x (armed p) \<and> keyof p1 x = now + iv \<and> hpoller.more p1 = hpoller.more p \<and>
     (\<forall>u. u < now + iv \<longrightarrow> (\<exists>r0. flush_expired_timers (timer_bridge app) True p1 u = Some (r0, p1))) \<and>
     flush_expired_timers (timer_bridge app) True p1 t = Some (r, p2) \<and> hpoller.more p2 = g (hpoller.more p) \<and>
     (if rep then armed p2 = insert x (armed p) \<and> keyof p2 x = t + iv \<and>
        (\<exists>p3. ztk_timer_stop self cm nm wake p2 (Some a) = Some p3 \<and> armed p3 = armed p \<and> handles p3 a = None)
      else armed p2 = armed p \<and> ztk_timer_stop self cm nm wake p2 (Some a) = None)"
proof -
  let ?h = "\<lparr>h_handle = Some x, h_interval_ms = iv, h_repeat = rep, h_cb = Some f\<rparr>"
  have new: "x \<notin> armed p" using armed_live [OF assms(1), of x] assms(7) by blast
  obtain p1 where p1: "ztk_timer_start self now (Some a) (Some x) cm nm True wake (Some p) iv rep (Some f) = Some (Some a, Some p1)"
      "runs p1 a x ?h" "armed p1 = insert x (armed p)" "keyof p1 x = now + iv" "\<forall>y \<in> armed p. keyof p1 y = keyof p y"
      "hpoller.more p1 = hpoller.more p" "timer_mtx p1" "owner_thread p1 = self"
    using start_runs [OF assms(1,3-7,9,2)] by blast
  have early: "\<exists>r0. flush_expired_timers (timer_bridge app) True p1 u = Some (r0, p1)" if "u < now + iv" for u
    using p1(2-5) assms(10,12) that by (intro flush_early) (auto simp: runs_def intro: less_trans order_less_le_trans)
  have "t < keyof p1 y" if "y \<in> armed p1" "y \<noteq> x" for y using that p1(3,5) assms(12) by auto
  then obtain r p2 where p2: "flush_expired_timers (timer_bridge app) True p1 t = Some (r, p2)" "handles p2 = handles p1"
      "timer_mtx p2" "owner_thread p2 = self" "hpoller.more p2 = g (hpoller.more p)"
      "if rep then runs p2 a x ?h \<and> armed p2 = armed p1 \<and> keyof p2 x = t + iv else timers p2 x = None \<and> armed p2 = armed p1 - {x}"
    using fire_handle [OF p1(2) _ _ _ assms(8), of t] p1(4,6-8) assms(10,11) by (auto split: if_splits)
  show ?thesis
  proof (cases rep)
    case True
    obtain p3 where "ztk_timer_stop self cm nm wake p2 (Some a) = Some p3" "armed p3 = armed p" "handles p3 a = None"
      using stop_runs [of p2 a x ?h self cm nm wake] True p1(3) p2 assms(5) new by auto
    then show ?thesis using True p1(1,3,4,6) p2(1,5,6) early by auto
  next
    case False
    have "handles p2 a = Some ?h" using p1(2) p2(2) by (simp add: runs_def)
    then have "ztk_timer_stop self cm nm wake p2 (Some a) = None" 
      using False p2(6) by (auto simp: ztk_timer_stop_def ztk_poller_timer_cancel_def)
    then show ?thesis using False p1(1,3,4,6) p2(1,5,6) early new by auto
  qed
qed

text \<open>A callback that counts its calls in the application's state.\<close>

definition count_calls :: "nat \<Rightarrow> (nat, nat, nat) hpoller_scheme \<Rightarrow> (nat, nat, nat) hpoller_scheme option" where
  "count_calls f q = Some (hpoller.more_update (\<lambda>n. n + f) q)"

theorem timer_handle_life_witness:
  "\<exists>p1 r p2. ztk_timer_start 1 100 (Some 7) (Some 8) None None True ZTK_OK (Some hp_idle) 20 False (Some 3) = Some (Some 7, Some p1) \<and>
     flush_expired_timers (timer_bridge count_calls) True p1 120 = Some (r, p2) \<and> hpoller.more p2 = 3 \<and>
     ztk_timer_stop 1 None None ZTK_OK p2 (Some 7) = None"
proof -
  have "cb_frame q (hpoller.more_update f q)" for f and q :: "(nat, nat, nat) hpoller_scheme" using cb_frame_refl [of q] by (simp add: cb_frame_def)
  then have "timer_quiet count_calls 3 (\<lambda>n. n + 3)" by (simp add: timer_quiet_def count_calls_def)
  moreover have "timer_mtx hp_idle" "owner_thread hp_idle = 1" "handles hp_idle 7 = None" "timers hp_idle 8 = None" "hpoller.more hp_idle = 0"
    by (simp_all add: hp_idle_def)
  ultimately show ?thesis
    using timer_handle_life [of hp_idle 1 7 8 count_calls 3 "\<lambda>n. n + 3" 20 100 120 None None ZTK_OK False] hp_idle_inv hp_idle_armed
    by auto
qed

end
