(* ===== verification/Poller_Select.thy ===== *)
theory Poller_Select
  imports Poller_Epoll
begin

text \<open>
  The pollers for systems without epoll: \<^verbatim>\<open>src/poller/poller_select.c\<close> over \<^verbatim>\<open>select\<close> (the branch for POSIX
  systems) and \<^verbatim>\<open>src/poller/poller_stub.c\<close>, which watches nothing. The poller, its table of descriptors, its
  timers and its tasks are the records of \<open>Poller_Epoll\<close>; there is no kernel table, so registration
  only changes the list of entries. The names of the operations, which the files share with
  \<^verbatim>\<open>poller_epoll.c\<close>, have the prefixes \<open>select_\<close> and \<open>stub_\<close>. \<^verbatim>\<open>select\<close> is a parameter: it gets the number of
  descriptors, the three sets as lists and the time limit, and answers with a number and three sets.
\<close>

section \<open>The table\<close>

definition FD_SETSIZE :: int where "FD_SETSIZE = 1024"

type_synonym 'w selector =
  "int \<Rightarrow> int list \<Rightarrow> int list \<Rightarrow> int list \<Rightarrow> (int \<times> int) option \<Rightarrow> 'w sys \<Rightarrow> (int \<times> int list \<times> int list \<times> int list) \<times> 'w sys"

definition select_wouldblock :: "errno_t \<Rightarrow> bool" where
  "select_wouldblock e \<longleftrightarrow> e = EAGAIN"

text \<open>\<open>pipe2_ok\<close> says whether the build has \<^verbatim>\<open>pipe2\<close>.\<close>

definition set_nonblock :: "'w os \<Rightarrow> int \<Rightarrow> 'w sys \<Rightarrow> 'w sys" where
  "set_nonblock os fd s =
     (let (g, s') = sysc os (Sys_getfl fd) s in
      if ret g \<ge> 0 then snd (sysc os (Sys_setfl fd (ret g OR O_NONBLOCK)) s') else s')"

definition make_wake_pair :: "'w os \<Rightarrow> bool \<Rightarrow> 'w sys \<Rightarrow> (int \<times> int) option \<times> 'w sys" where
  "make_wake_pair os pipe2_ok s =
     (let (r, s1) = (if pipe2_ok then let (r, s1) = sysc os Sys_pipe2 s in (if ret r = 0 then Some (res_fds r) else None, s1)
                     else (None, s))
      in case r of Some fds \<Rightarrow> (Some fds, s1)
         | None \<Rightarrow>
             let (r2, s2) = sysc os Sys_pipe s1 in
             if ret r2 \<noteq> 0 then (None, s2)
             else (Some (res_fds r2), set_nonblock os (snd (res_fds r2)) (set_nonblock os (fst (res_fds r2)) s2)))"

definition select_poller_add ::
    "bool \<Rightarrow> 'e epset option \<Rightarrow> int \<Rightarrow> u32 \<Rightarrow> 'e option \<Rightarrow> ztk_err \<times> 'e epset option" where
  "select_poller_add calloc_ok poller fd events cbk =
     (case poller of None \<Rightarrow> (ZTK_ERR_INVALID, poller)
      | Some p \<Rightarrow>
        if fd < 0 then (ZTK_ERR_INVALID, poller)
        else if find_entry p fd \<noteq> None then
          (ZTK_OK, Some (p\<lparr>entries := upd_entry fd (\<lambda>e. e\<lparr>eevents := events, ecb := cbk\<rparr>) (entries p)\<rparr>))
        else if \<not> calloc_ok then (ZTK_ERR_NOMEM, poller)
        else (ZTK_OK, Some (p\<lparr>entries := \<lparr>efd = fd, eevents = events, ecb = cbk\<rparr> # entries p\<rparr>)))"

definition select_poller_mod :: "'e epset option \<Rightarrow> int \<Rightarrow> u32 \<Rightarrow> ztk_err \<times> 'e epset option" where
  "select_poller_mod poller fd events =
     (case poller of None \<Rightarrow> (ZTK_ERR_INVALID, poller)
      | Some p \<Rightarrow>
        if find_entry p fd = None then (ZTK_ERR_INVALID, poller)
        else (ZTK_OK, Some (p\<lparr>entries := upd_entry fd (\<lambda>e. e\<lparr>eevents := events\<rparr>) (entries p)\<rparr>)))"

definition select_poller_del :: "'e epset option \<Rightarrow> int \<Rightarrow> ztk_err \<times> 'e epset option" where
  "select_poller_del poller fd =
     (case poller of None \<Rightarrow> (ZTK_ERR_INVALID, poller)
      | Some p \<Rightarrow>
        if fd = wake_r p then (ZTK_ERR_INVALID, poller)
        else if find_entry p fd = None then (ZTK_ERR_INVALID, poller)
        else (ZTK_OK, Some (p\<lparr>entries := unlink_entry fd (entries p)\<rparr>)))"

definition select_poller_wake_read_fd :: "'e epset option \<Rightarrow> int" where
  "select_poller_wake_read_fd p = (case p of None \<Rightarrow> - 1 | Some p \<Rightarrow> wake_r p)"

definition select_poller_wake_write_fd :: "'e epset option \<Rightarrow> int" where
  "select_poller_wake_write_fd p = (case p of None \<Rightarrow> - 1 | Some p \<Rightarrow> wake_w p)"

definition select_poller_wake :: "'w os \<Rightarrow> 'e epset option \<Rightarrow> 'w sys \<Rightarrow> ztk_err \<times> 'w sys" where
  "select_poller_wake os poller s =
     (case poller of None \<Rightarrow> (ZTK_ERR_INVALID, s)
      | Some p \<Rightarrow>
        if wake_w p < 0 then (ZTK_ERR_INVALID, s)
        else let (r, s1) = sysc os (Sys_write (wake_w p) [Some 1]) s in
          if ret r < 0 then (if select_wouldblock (errno s1) then ZTK_OK else ZTK_ERR_PLATFORM, s1)
          else (ZTK_OK, s1))"

section \<open>Creation and destruction\<close>

definition select_poller_destroy ::
    "'w os \<Rightarrow> ('c, 'u, 'e, 'w, 'z) task_run \<Rightarrow> ('c, 'u, 'e, 'w, 'z) epoller_scheme \<Rightarrow> 'w sys option" where
  "select_poller_destroy os run p =
     map_option (\<lambda>p1. close_if_open os (wake_r (eps p1)) (close_if_open os (wake_w (eps p1)) (psys p1)))
       (ztk_poller_task_fini run p)"

definition select_poller_create ::
    "'w os \<Rightarrow> bool \<Rightarrow> bool \<Rightarrow> bool \<Rightarrow> bool \<Rightarrow> bool \<Rightarrow> bool \<Rightarrow> u64 \<Rightarrow> 'w sys \<Rightarrow>
     (('c, 'u, 'e, 'w) epoller option \<times> 'w sys) option" where
  "select_poller_create os pipe2_ok calloc_p calloc_we tm mm lm now s =
     (if \<not> calloc_p then Some (None, s)
      else let p = ztk_poller_task_init tm mm lm now (empty_poller s);
               fail = (\<lambda>q. map_option (Pair None) (select_poller_destroy os (\<lambda>_ _. None) q))
           in (case make_wake_pair os pipe2_ok s of
               (None, s1) \<Rightarrow> fail (p\<lparr>psys := s1\<rparr>)
             | (Some (rd, wr), s1) \<Rightarrow>
                 let p1 = p\<lparr>eps := (eps p)\<lparr>wake_r := rd, wake_w := wr\<rparr>, psys := s1\<rparr> in
                 if \<not> calloc_we then fail p1
                 else Some (Some (p1\<lparr>eps := (eps p1)\<lparr>entries := \<lparr>efd = rd, eevents = ZTK_POLL_IN, ecb = None\<rparr> # entries (eps p1)\<rparr>\<rparr>), s1)))"

section \<open>One turn\<close>

text \<open>The sets to ask for, and the largest descriptor among the entries that fit them.\<close>

fun fill_sets :: "'e fd_entry list \<Rightarrow> int \<times> int list \<times> int list \<times> int list \<Rightarrow> int \<times> int list \<times> int list \<times> int list" where
  "fill_sets [] acc = acc"
| "fill_sets (e # es) (maxfd, r, w, x) =
     (if efd e < 0 \<or> FD_SETSIZE \<le> efd e then fill_sets es (maxfd, r, w, x)
      else fill_sets es
        (max maxfd (efd e),
         if eevents e AND (ZTK_POLL_IN OR ZTK_POLL_HUP) \<noteq> 0 then efd e # r else r,
         if eevents e AND ZTK_POLL_OUT \<noteq> 0 then efd e # w else w,
         if eevents e AND ZTK_POLL_ERR \<noteq> 0 then efd e # x else x))"

definition ready_out :: "int \<Rightarrow> int list \<times> int list \<times> int list \<Rightarrow> u32" where
  "ready_out fd sets =
     (let (r, w, x) = sets;
          out = 0;
          out = (if fd \<in> set r then out OR ZTK_POLL_IN else out);
          out = (if fd \<in> set w then out OR ZTK_POLL_OUT else out);
          out = (if fd \<in> set x then out OR ZTK_POLL_ERR else out)
      in out)"

text \<open>The entries behind the one of a descriptor.\<close>

definition behind :: "int \<Rightarrow> 'e fd_entry list \<Rightarrow> 'e fd_entry list" where
  "behind fd es = tl (dropWhile (\<lambda>e. efd e \<noteq> fd) es)"

text \<open>
  Collecting what is ready. At the wake descriptor the tasks run in the middle of the walk over the list, which
  then goes on behind that entry, in the list as the tasks have left it. The array holds 64 elements; the
  ones beyond are counted only, so that the model collects all and uses the first 64.
\<close>

partial_function (option) collect ::
    "'w os \<Rightarrow> ('c, 'u, 'e, 'w, 'z) task_run \<Rightarrow> int list \<times> int list \<times> int list \<Rightarrow> 'e fd_entry list \<Rightarrow> (int \<times> u32 \<times> 'e) list \<Rightarrow>
     ('c, 'u, 'e, 'w, 'z) epoller_scheme \<Rightarrow> ((int \<times> u32 \<times> 'e) list \<times> ('c, 'u, 'e, 'w, 'z) epoller_scheme) option" where
  "collect os run sets es acc p =
     (case es of [] \<Rightarrow> Some (acc, p)
      | e # es' \<Rightarrow>
        if efd e < 0 \<or> FD_SETSIZE \<le> efd e then collect os run sets es' acc p
        else if efd e = wake_r (eps p) \<and> efd e \<in> set (fst sets) then
          Option.bind (drain_wake_pipe os (wake_r (eps p)) (psys p)) (\<lambda>s.
            case ztk_poller_drain_tasks run (Some (p\<lparr>psys := s\<rparr>)) of
              Some (Some p1) \<Rightarrow> collect os run sets (behind (efd e) (entries (eps p1))) acc p1
            | _ \<Rightarrow> None)
        else let out = ready_out (efd e) sets in
          (case ecb e of None \<Rightarrow> collect os run sets es' acc p
           | Some c \<Rightarrow> if out = 0 then collect os run sets es' acc p
                       else collect os run sets es' (acc @ [(efd e, out, c)]) p))"

declare collect.simps [code]

fun run_ready ::
    "('c, 'u, 'e, 'w, 'z) fd_run \<Rightarrow> (int \<times> u32 \<times> 'e) list \<Rightarrow> ('c, 'u, 'e, 'w, 'z) epoller_scheme \<Rightarrow>
     ('c, 'u, 'e, 'w, 'z) epoller_scheme option" where
  "run_ready ecbs [] p = Some p"
| "run_ready ecbs ((fd, out, c) # rs) p = (case ecbs c fd out p of None \<Rightarrow> None | Some p1 \<Rightarrow> run_ready ecbs rs p1)"

definition select_timeval :: "int \<Rightarrow> (int \<times> int) option" where
  "select_timeval wait_ms = (if 0 \<le> wait_ms then Some (wait_ms div 1000, (wait_ms mod 1000) * 1000) else None)"

definition select_poller_poll ::
    "'w os \<Rightarrow> 'w selector \<Rightarrow> ('c, 'u, 'e, 'w, 'z) task_run \<Rightarrow> ('c, 'u, 'e, 'w, 'z) timer_run \<Rightarrow>
     ('c, 'u, 'e, 'w, 'z) fd_run \<Rightarrow> bool \<Rightarrow> u64 \<Rightarrow> u64 \<Rightarrow> u64 \<Rightarrow>
     ('c, 'u, 'e, 'w, 'z) epoller_scheme option \<Rightarrow> int \<Rightarrow> (int \<times> ('c, 'u, 'e, 'w, 'z) epoller_scheme option) option" where
  "select_poller_poll os sel run cbs ecbs rok now t1 t2 poller timeout_ms =
     (case poller of None \<Rightarrow> Some (- 1, None)
      | Some p \<Rightarrow>
        let (maxfd, r, w, x) = fill_sets (entries (eps p)) (- 1, [], [], []) in
        (case ztk_poller_resolve_timeout_ms cbs rok now (Some p) timeout_ms of
           Some (wait_ms, Some p1) \<Rightarrow>
             let p2 = p1\<lparr>load := ztk_poller_load_on_sleep t1 (load p1)\<rparr>;
                 ((n, sets), s) = sel (maxfd + 1) r w x (select_timeval wait_ms) (psys p2);
                 p3 = p2\<lparr>psys := s, load := ztk_poller_load_on_wake t2 (load p2)\<rparr>
             in if n < 0 then Some (if select_wouldblock (errno s) \<or> errno s = EINTR then 0 else - 1, Some p3)
                else if n = 0 then map_option (\<lambda>p4. (0, Some p4)) (drain_pending run p3)
                else Option.bind (collect os run sets (entries (eps p3)) [] p3) (\<lambda>(rd, p4).
                       map_option (\<lambda>p5. (int (length rd), Some p5)) (run_ready ecbs (take 64 rd) p4))
         | _ \<Rightarrow> None))"

section \<open>The stub\<close>

definition stub_poller_create ::
    "bool \<Rightarrow> bool \<Rightarrow> bool \<Rightarrow> bool \<Rightarrow> u64 \<Rightarrow> 'w sys \<Rightarrow> ('c, 'u, 'e, 'w) epoller option" where
  "stub_poller_create calloc_p tm mm lm now s =
     (if \<not> calloc_p then None else Some (ztk_poller_task_init tm mm lm now (empty_poller s)))"

definition stub_poller_destroy ::
    "('c, 'u, 'e, 'w, 'z) task_run \<Rightarrow> ('c, 'u, 'e, 'w, 'z) epoller_scheme option \<Rightarrow> bool" where
  "stub_poller_destroy run poller = (case poller of None \<Rightarrow> True | Some p \<Rightarrow> ztk_poller_task_fini run p \<noteq> None)"

definition stub_poller_add :: "'e epset option \<Rightarrow> int \<Rightarrow> u32 \<Rightarrow> 'e option \<Rightarrow> ztk_err \<times> 'e epset option" where
  "stub_poller_add p fd events cbk = (ZTK_ERR_NOT_IMPL, p)"

definition stub_poller_mod :: "'e epset option \<Rightarrow> int \<Rightarrow> u32 \<Rightarrow> ztk_err \<times> 'e epset option" where
  "stub_poller_mod p fd events = (ZTK_ERR_NOT_IMPL, p)"

definition stub_poller_del :: "'e epset option \<Rightarrow> int \<Rightarrow> ztk_err \<times> 'e epset option" where
  "stub_poller_del p fd = (ZTK_ERR_NOT_IMPL, p)"

definition stub_poller_poll ::
    "('c, 'u, 'e, 'w, 'z) task_run \<Rightarrow> ('c, 'u, 'e, 'w, 'z) timer_run \<Rightarrow> bool \<Rightarrow> u64 \<Rightarrow>
     ('c, 'u, 'e, 'w, 'z) epoller_scheme option \<Rightarrow> int \<Rightarrow> (int \<times> ('c, 'u, 'e, 'w, 'z) epoller_scheme option) option" where
  "stub_poller_poll run cbs rok now poller timeout_ms =
     (case poller of None \<Rightarrow> Some (- 1, None)
      | Some p \<Rightarrow>
        (case ztk_poller_resolve_timeout_ms cbs rok now (Some p) timeout_ms of
           Some (_, Some p1) \<Rightarrow> map_option (Pair 0) (ztk_poller_drain_tasks run (Some p1))
         | _ \<Rightarrow> None))"

definition stub_poller_wake_read_fd :: "'e epset option \<Rightarrow> int" where
  "stub_poller_wake_read_fd p = - 1"

definition stub_poller_wake_write_fd :: "'e epset option \<Rightarrow> int" where
  "stub_poller_wake_write_fd p = - 1"

definition stub_poller_wake :: "'e epset option \<Rightarrow> ztk_err" where
  "stub_poller_wake p = (case p of None \<Rightarrow> ZTK_ERR_INVALID | Some _ \<Rightarrow> ZTK_OK)"

section \<open>What is asked for\<close>

fun sel_step :: "unit \<Rightarrow> 'e reg_op \<Rightarrow> 'e epset \<Rightarrow> ztk_err \<times> 'e epset" where
  "sel_step u (RegAdd ok fd ev c) p = map_prod id the (select_poller_add ok (Some p) fd ev c)"
| "sel_step u (RegMod fd ev) p = map_prod id the (select_poller_mod (Some p) fd ev)"
| "sel_step u (RegDel fd) p = map_prod id the (select_poller_del (Some p) fd)"

definition distinct_fds :: "unit \<Rightarrow> 'e epset \<Rightarrow> bool" where
  "distinct_fds u p \<longleftrightarrow> distinct (map efd (entries p))"

lemma sel_step_table:
  assumes "distinct_fds u p" and "sel_step u x p = (e, p')"
  shows "distinct_fds u p' \<and> watch p' = (if e = ZTK_OK then reg_spec x (watch p) else watch p)"
proof (cases x)
  case (RegAdd ok fd ev c)
  show ?thesis
  proof (cases "watch p fd")
    case None
    have "fd \<notin> efd ` set (entries p)" using None by (auto simp: watch_def map_of_eq_None_iff image_image)
    moreover have "watch (p\<lparr>entries := \<lparr>efd = fd, eevents = ev, ecb = c\<rparr> # entries p\<rparr>) = (watch p)(fd \<mapsto> (ev, c))"
      by (simp add: watch_def)
    ultimately show ?thesis using assms RegAdd None
      by (auto simp: select_poller_add_def find_watch distinct_fds_def split: if_splits)
  next
    case (Some y)
    then show ?thesis using assms RegAdd upd_watch(1) [of p fd "fst y" "snd y" c ev]
      by (auto simp: select_poller_add_def find_watch distinct_fds_def split: if_splits)
  qed
next
  case (RegMod fd ev)
  then show ?thesis using assms upd_watch(2) [of p fd _ _ ev]
    by (cases "watch p fd") (auto simp: select_poller_mod_def find_watch distinct_fds_def split: if_splits)
next
  case (RegDel fd)
  have "watch (p\<lparr>entries := unlink_entry fd (entries p)\<rparr>) = (watch p)(fd := None)"
    using assms(1) by (simp add: watch_def unlink_map_of distinct_fds_def)
  then show ?thesis using assms RegDel unlink_fds [of "entries p" fd]
    by (auto simp: select_poller_del_def find_watch distinct_fds_def split: if_splits)
qed

interpretation sel: all_or_nothing distinct_fds sel_step watch reg_spec
  by unfold_locales (use sel_step_table in blast)+

text \<open>The descriptors of a table whose events have a bit in common with a mask, as far as they fit the sets.\<close>

definition asked :: "(int \<rightharpoonup> u32 \<times> 'e option) \<Rightarrow> u32 \<Rightarrow> int set" where
  "asked m bs = {fd. 0 \<le> fd \<and> fd < FD_SETSIZE \<and> (\<exists>ev c. m fd = Some (ev, c) \<and> ev AND bs \<noteq> 0)}"

definition wants :: "'e fd_entry list \<Rightarrow> u32 \<Rightarrow> int set" where
  "wants es bs = {fd. 0 \<le> fd \<and> fd < FD_SETSIZE \<and> (\<exists>e \<in> set es. efd e = fd \<and> eevents e AND bs \<noteq> 0)}"

lemma fill_sets_wants:
  assumes "fill_sets es (m, r, w, x) = (m', r', w', x')"
  shows "set r' = set r \<union> wants es (ZTK_POLL_IN OR ZTK_POLL_HUP) \<and> set w' = set w \<union> wants es ZTK_POLL_OUT \<and>
     set x' = set x \<union> wants es ZTK_POLL_ERR \<and> m \<le> m' \<and> (m < FD_SETSIZE \<longrightarrow> m' < FD_SETSIZE) \<and>
     (\<forall>e \<in> set es. 0 \<le> efd e \<and> efd e < FD_SETSIZE \<longrightarrow> efd e \<le> m')"
  using assms
proof (induction es arbitrary: m r w x)
  case Nil
  then show ?case by (simp add: wants_def)
next
  case (Cons e es)
  have c: "wants (e # es) bs = (if 0 \<le> efd e \<and> efd e < FD_SETSIZE \<and> eevents e AND bs \<noteq> 0 then {efd e} else {}) \<union> wants es bs" for bs
    by (auto simp: wants_def)
  show ?case
  proof (cases "efd e < 0 \<or> FD_SETSIZE \<le> efd e")
    case True
    then show ?thesis using Cons.IH [of m r w x] Cons.prems by (auto simp: c)
  next
    case False
    from Cons.IH [OF Cons.prems [unfolded fill_sets.simps if_not_P [OF False]]] show ?thesis using False
      by (auto simp: c)
  qed
qed

lemma watch_iff:
  assumes "distinct (map efd (entries p))"
  shows "watch p fd = Some (ev, c) \<longleftrightarrow> (\<exists>e \<in> set (entries p). efd e = fd \<and> eevents e = ev \<and> ecb e = c)"
  using assms by (auto simp: watch_def comp_def)

lemma wants_asked: "distinct (map efd (entries p)) \<Longrightarrow> wants (entries p) bs = asked (watch p) bs"
  by (fastforce simp: wants_def asked_def watch_iff)

section \<open>What is ready\<close>

definition ready_list :: "int list \<times> int list \<times> int list \<Rightarrow> 'e fd_entry list \<Rightarrow> (int \<times> u32 \<times> 'e) list" where
  "ready_list sets es = concat (map (\<lambda>e. case ecb e of None \<Rightarrow> []
     | Some c \<Rightarrow> if 0 \<le> efd e \<and> efd e < FD_SETSIZE \<and> ready_out (efd e) sets \<noteq> 0 then [(efd e, ready_out (efd e) sets, c)] else []) es)"

lemma collect_ready:
  assumes "wake_r (eps p) \<notin> set (fst sets)"
  shows "collect os run sets es acc p = Some (acc @ ready_list sets es, p)"
proof (induction es arbitrary: acc)
  case Nil
  then show ?case by (simp add: collect.simps ready_list_def)
next
  case (Cons e es)
  then show ?case using assms
    by (subst collect.simps) (auto simp: ready_list_def Let_def split: option.split)
qed

definition in_sets :: "int \<Rightarrow> int list \<times> int list \<times> int list \<Rightarrow> bool" where
  "in_sets fd sets \<longleftrightarrow> fd \<in> set (fst sets) \<or> fd \<in> set (fst (snd sets)) \<or> fd \<in> set (snd (snd sets))"

lemma ready_out_iff: "ready_out fd sets \<noteq> 0 \<longleftrightarrow> in_sets fd sets"
  by (cases sets) (simp add: ready_out_def in_sets_def poll_bits)

lemma ready_list_fds:
  "map fst (ready_list sets es) = map efd (filter (\<lambda>e. ecb e \<noteq> None \<and> 0 \<le> efd e \<and> efd e < FD_SETSIZE \<and> in_sets (efd e) sets) es)"
  by (induction es) (auto simp: ready_list_def ready_out_iff split: option.split)

lemma ready_list_out: "y \<in> set (ready_list sets es) \<Longrightarrow> fst (snd y) = ready_out (fst y) sets"
  by (auto simp: ready_list_def split: option.splits if_splits)

lemma ready_fds_set:
  assumes "distinct (map efd (entries p))"
  shows "fst ` set (ready_list sets (entries p)) =
     {fd. 0 \<le> fd \<and> fd < FD_SETSIZE \<and> (\<exists>ev c. watch p fd = Some (ev, Some c)) \<and> in_sets fd sets}"
proof -
  have "fst ` set (ready_list sets (entries p)) = set (map fst (ready_list sets (entries p)))" by simp
  also have "\<dots> = {fd. 0 \<le> fd \<and> fd < FD_SETSIZE \<and> (\<exists>ev c. watch p fd = Some (ev, Some c)) \<and> in_sets fd sets}"
    by (auto simp: ready_list_fds watch_iff [OF assms])
  finally show ?thesis .
qed

text \<open>Callbacks that return and are recorded; they may do anything else, also change the table.\<close>

definition logged ::
    "('c, 'u, 'e, 'w, 'z) fd_run \<Rightarrow> (('c, 'u, 'e, 'w, 'z) epoller_scheme \<Rightarrow> (int \<times> u32) list) \<Rightarrow> bool" where
  "logged ecbs lg \<longleftrightarrow> (\<forall>c fd ev p. \<exists>p'. ecbs c fd ev p = Some p' \<and> lg p' = lg p @ [(fd, ev)]) \<and>
     (\<forall>p y l. lg (p\<lparr>psys := y\<rparr>) = lg p \<and> lg (p\<lparr>load := l\<rparr>) = lg p)"

lemma run_ready_logged:
  assumes "logged ecbs lg"
  shows "\<exists>q. run_ready ecbs rs p = Some q \<and> lg q = lg p @ map (\<lambda>y. (fst y, fst (snd y))) rs"
proof (induction rs arbitrary: p)
  case (Cons y rs)
  obtain fd out c where y: "y = (fd, out, c)" by (cases y)
  obtain p1 where p1: "ecbs c fd out p = Some p1" "lg p1 = lg p @ [(fd, out)]" using assms unfolding logged_def by blast
  obtain q where "run_ready ecbs rs p1 = Some q" "lg q = lg p1 @ map (\<lambda>y. (fst y, fst (snd y))) rs" using Cons.IH by blast
  then show ?case using y p1 by simp
qed simp

section \<open>Samples\<close>

definition sel_table :: "nat epset" where
  "sel_table = \<lparr>epfd = - 1, wake_r = 4, wake_w = 5,
     entries = [\<lparr>efd = 9, eevents = 1, ecb = Some 1\<rparr>, \<lparr>efd = 8, eevents = 1, ecb = Some 0\<rparr>, \<lparr>efd = 4, eevents = 1, ecb = None\<rparr>]\<rparr>"

record sel_demo = "(nat, nat, nat, unit) epoller" +
  seen :: "(int \<times> u32) list"

definition sel_poller :: sel_demo where
  "sel_poller = \<lparr>task_mtx = True, task_q = lq_empty, owner_thread = 0, timer_mtx = False,
     timers = Map.empty, timer_heap = [], timer_heap_count = 0, timer_heap_cap = 0, ctxs = Map.empty,
     load = ztk_poller_load_init True 0, eps = sel_table, psys = \<lparr>errno = E_NONE, world = ()\<rparr>, seen = []\<rparr>"

text \<open>The callback 1 removes the descriptor 8.\<close>

definition sel_cbs :: "(nat, nat, nat, unit, \<lparr>seen :: (int \<times> u32) list\<rparr>) fd_run" where
  "sel_cbs c fd ev p = Some (p\<lparr>seen := seen p @ [(fd, ev)],
     eps := (if c = 1 then the (snd (select_poller_del (Some (eps p)) 8)) else eps p)\<rparr>)"

definition sel_two :: "unit selector" where
  "sel_two n r w x tv y = ((2, [8, 9], [], []), y)"

section \<open>Properties\<close>

text \<open>
  C38. A select poller asks for its table. After any sequence of add, mod and del calls, whatever fails in
  between, every call that returned OK had exactly its effect on the table and every other none, and the three sets
  that a turn hands to \<^verbatim>\<open>select\<close> are those of the table's descriptors: to read those with IN or HUP, to write
  those with OUT, exceptions for those with ERR, all below the number of descriptors that is given. A
  descriptor from 1024 on is accepted by add like any other, and is in no set.
\<close>

theorem select_asks_for_table:
  assumes "distinct (map efd (entries p))" and "run_ops sel_step () ops p = (es, p')"
    and "fill_sets (entries p') (- 1, [], [], []) = (maxfd, r, w, x)"
  shows "\<exists>m. m = eff_ops reg_spec ops es (watch p) \<and> watch p' = m \<and>
     set r = asked m (ZTK_POLL_IN OR ZTK_POLL_HUP) \<and> set w = asked m ZTK_POLL_OUT \<and> set x = asked m ZTK_POLL_ERR \<and>
     set r \<union> set w \<union> set x \<subseteq> {0..maxfd} \<and> maxfd < FD_SETSIZE"
proof -
  have v: "distinct (map efd (entries p'))" "watch p' = eff_ops reg_spec ops es (watch p)"
    using sel.run_view [OF _ assms(2)] assms(1) by (simp_all add: distinct_fds_def)
  have "(- 1 :: int) < FD_SETSIZE" by (simp add: FD_SETSIZE_def)
  with fill_sets_wants [OF assms(3)] have f: "set r = wants (entries p') (ZTK_POLL_IN OR ZTK_POLL_HUP)"
      "set w = wants (entries p') ZTK_POLL_OUT" "set x = wants (entries p') ZTK_POLL_ERR" "maxfd < FD_SETSIZE"
      "\<forall>e \<in> set (entries p'). 0 \<le> efd e \<and> efd e < FD_SETSIZE \<longrightarrow> efd e \<le> maxfd"
    by simp_all
  have "wants (entries p') bs \<subseteq> {0..maxfd}" for bs using f(5) by (auto simp: wants_def)
  then show ?thesis using f v by (auto simp: wants_asked)
qed

theorem select_asks_for_table_witness:
  "\<exists>p' maxfd r w x. run_ops sel_step () [RegAdd True 2000 1 (Some 7), RegAdd True 3 2 None, RegDel 8, RegDel 4] sel_table =
       ([ZTK_OK, ZTK_OK, ZTK_OK, ZTK_ERR_INVALID], p') \<and>
     fill_sets (entries p') (- 1, [], [], []) = (maxfd, r, w, x) \<and> 2000 \<notin> set r \<and> watch p' 2000 = Some (1, Some 7)"
proof -
  let ?ops = "[RegAdd True 2000 1 (Some 7), RegAdd True 3 2 None, RegDel 8, RegDel 4]"
  have "fst (run_ops sel_step () ?ops sel_table) = [ZTK_OK, ZTK_OK, ZTK_OK, ZTK_ERR_INVALID]" by code_simp
  then obtain p' where p': "run_ops sel_step () ?ops sel_table = ([ZTK_OK, ZTK_OK, ZTK_OK, ZTK_ERR_INVALID], p')"
    by (cases "run_ops sel_step () ?ops sel_table") simp
  obtain maxfd r w x where f: "fill_sets (entries p') (- 1, [], [], []) = (maxfd, r, w, x)" by (metis prod_cases4)
  have "distinct (map efd (entries sel_table))" by (simp add: sel_table_def)
  from select_asks_for_table [OF this p' f] have
    "watch p' = eff_ops reg_spec ?ops [ZTK_OK, ZTK_OK, ZTK_OK, ZTK_ERR_INVALID] (watch sel_table)" "set r \<subseteq> {0..maxfd}" "maxfd < FD_SETSIZE"
    by auto
  then show ?thesis using p' f by (auto simp: FD_SETSIZE_def)
qed

text \<open>
  C39. A turn of the select poller serves what was ready when it began. When \<^verbatim>\<open>select\<close> reports
  descriptors, and not the wake pipe, the turn returns the number of descriptors that have a callback and are in one of
  the sets, and calls the callbacks of the first 64 of them, each once, with the events of its sets. Which
  ones is decided before the first of them runs: one that an earlier callback has removed is
  called all the same.
\<close>

theorem select_serves_ready:
  assumes "logged ecbs lg" and "distinct (map efd (entries (eps p1)))"
    and "ztk_poller_resolve_timeout_ms cbs rok now (Some p) timeout = Some (wait, Some p1)"
    and "fill_sets (entries (eps p)) (- 1, [], [], []) = (maxfd, r, w, x)"
    and "sel (maxfd + 1) r w x (select_timeval wait) (psys p1) = ((n, sets), y)" and "0 < n"
    and "wake_r (eps p1) \<notin> set (fst sets)"
  shows "\<exists>fds q. select_poller_poll os sel run cbs ecbs rok now t1 t2 (Some p) timeout = Some (int (length fds), Some q) \<and>
     distinct fds \<and>
     set fds = {fd. 0 \<le> fd \<and> fd < FD_SETSIZE \<and> (\<exists>ev c. watch (eps p1) fd = Some (ev, Some c)) \<and> in_sets fd sets} \<and>
     lg q = lg p1 @ map (\<lambda>fd. (fd, ready_out fd sets)) (take 64 fds)"
proof -
  let ?p3 = "p1\<lparr>psys := y, load := ztk_poller_load_on_wake t2 (ztk_poller_load_on_sleep t1 (load p1))\<rparr>"
  let ?rd = "ready_list sets (entries (eps p1))"
  have lg3: "lg ?p3 = lg p1" using assms(1) by (simp add: logged_def)
  obtain q where q: "run_ready ecbs (take 64 ?rd) ?p3 = Some q" "lg q = lg p1 @ map (\<lambda>y. (fst y, fst (snd y))) (take 64 ?rd)"
    using run_ready_logged [OF assms(1), of "take 64 ?rd" ?p3] lg3 by auto
  have "select_poller_poll os sel run cbs ecbs rok now t1 t2 (Some p) timeout = Some (int (length (map fst ?rd)), Some q)"
    using assms(3-7) q(1) by (simp add: select_poller_poll_def collect_ready Let_def)
  moreover have "distinct (map fst ?rd)" unfolding ready_list_fds by (rule distinct_map_filter [OF assms(2)])
  moreover have "map (\<lambda>y. (fst y, fst (snd y))) (take 64 ?rd) = map (\<lambda>fd. (fd, ready_out fd sets)) (take 64 (map fst ?rd))"
    by (auto simp: take_map dest!: in_set_takeD ready_list_out)
  ultimately show ?thesis using q(2) ready_fds_set [OF assms(2), of sets] by (intro exI [of _ "map fst ?rd"] exI [of _ q]) simp
qed

theorem select_serves_ready_witness:
  "\<exists>fds q. select_poller_poll (\<lambda>_ w. (k_res 0, w)) sel_two (\<lambda>_ p. Some p) (\<lambda>_ _. None) sel_cbs True 0 0 0
       (Some sel_poller) 10 = Some (int (length fds), Some q) \<and>
     set fds = {8, 9} \<and> seen q = map (\<lambda>fd. (fd, ZTK_POLL_IN)) fds"
proof -
  have lgd: "logged sel_cbs seen" by (simp add: logged_def sel_cbs_def)
  have d: "distinct (map efd (entries (eps sel_poller)))" by (simp add: sel_poller_def sel_table_def)
  have rs: "ztk_poller_resolve_timeout_ms (\<lambda>_ _. None) True 0 (Some sel_poller) 10 = Some (10, Some sel_poller)"
    by (simp add: ztk_poller_resolve_timeout_ms_def sel_poller_def)
  have wk: "wake_r (eps sel_poller) \<notin> set (fst ([8, 9 :: int], [], []))" by (simp add: sel_poller_def sel_table_def)
  have fl: "fill_sets (entries (eps sel_poller)) (- 1, [], [], []) = (9, [4, 8, 9], [], [])"
    by (simp add: sel_poller_def sel_table_def FD_SETSIZE_def poll_bits)
  have sl: "sel_two (9 + 1) [4, 8, 9] [] [] (select_timeval 10) (psys sel_poller) = ((2, [8, 9], [], []), psys sel_poller)"
    by (simp add: sel_two_def)
  from select_serves_ready [where sel = sel_two and os = "\<lambda>_ w. (k_res 0, w)" and run = "\<lambda>_ p. Some p" and ?t1.0 = 0 and ?t2.0 = 0,
      OF lgd d rs fl sl _ wk]
  obtain fds q where q: "select_poller_poll (\<lambda>_ w. (k_res 0, w)) sel_two (\<lambda>_ p. Some p) (\<lambda>_ _. None) sel_cbs
      True 0 0 0 (Some sel_poller) 10 = Some (int (length fds), Some q)" "distinct fds"
      "set fds = {fd. 0 \<le> fd \<and> fd < FD_SETSIZE \<and> (\<exists>ev c. watch (eps sel_poller) fd = Some (ev, Some c)) \<and> in_sets fd ([8, 9], [], [])}"
      "seen q = seen sel_poller @ map (\<lambda>fd. (fd, ready_out fd ([8, 9], [], []))) (take 64 fds)"
    by auto
  have s: "set fds = {8, 9}" unfolding q(3) by (auto simp: in_sets_def FD_SETSIZE_def sel_poller_def sel_table_def watch_def)
  then have "length fds = 2" using distinct_card [OF q(2)] by simp
  moreover have "ready_out fd ([8, 9], [], []) = ZTK_POLL_IN" if "fd \<in> set fds" for fd
    using that s by (auto simp: ready_out_def)
  ultimately show ?thesis using q(1,4) s by (auto simp: sel_poller_def)
qed

end
