(* ===== verification/Platform_Linux.thy ===== *)
theory Platform_Linux
  imports Sock_Linux "HOL-Library.Signed_Division"
begin

text \<open>
  The platform layer on Linux, \<^verbatim>\<open>src/platform/linux/\<close>: clocks and information (\<^verbatim>\<open>platform_linux.c\<close>), mutexes
  (\<^verbatim>\<open>sync_pthread.c\<close>), threads (\<^verbatim>\<open>thread_pthread.c\<close>, \<^verbatim>\<open>thread_priority_linux.c\<close>) and semaphores
  (\<^verbatim>\<open>sem_pthread.c\<close>, the branch for POSIX semaphores, which the build selects on Linux). The calls to the system and to pthreads are a
  parameter, like those of \<open>Sock_Linux\<close>; objects live at addresses, and a call on one that does not
  exist has no defined outcome (\<open>None\<close>). The clients of this layer are modelled with their own, more abstract view of it:
  critical sections as steps, semaphores as counters.
\<close>

section \<open>State\<close>

datatype pt_call =
    Clock_realtime | Clock_monotonic | Nanosleep "int \<times> int" | Gettid | Nprocs
  | Mutex_init nat bool | Mutex_destroy nat | Mutex_lock nat | Mutex_unlock nat | Mutex_trylock nat
  | Thread_create nat | Thread_join nat | Prio_min | Prio_max | Set_prio int
  | Sem_init nat u32 | Sem_destroy nat | Sem_wait nat | Sem_timedwait nat "int \<times> int" | Sem_post nat

record pt_res =
  pr_ret :: int
  pr_ts :: "int \<times> int"

type_synonym 'w pthreads = "pt_call \<Rightarrow> 'w sys \<Rightarrow> pt_res \<times> 'w sys"

record ztk_platform_info =
  pi_name :: string
  pi_poller_epoll :: bool
  pi_poller_iocp :: bool

record 'f ztk_thread =
  th_fn :: 'f
  th_user :: "nat option"
  th_priority :: int

record ('f, 'w) plat =
  pl_sys :: "'w sys"
  pl_mem :: "nat option list"
  mutexes :: "nat set"
  threads :: "nat \<rightharpoonup> 'f ztk_thread"
  sems :: "nat set"
  min_prio :: int
  max_prio :: int
  s_info :: ztk_platform_info

definition pt_do :: "'w pthreads \<Rightarrow> pt_call \<Rightarrow> ('f, 'w, 'z) plat_scheme \<Rightarrow> pt_res \<times> ('f, 'w, 'z) plat_scheme" where
  "pt_do pt c s = (let (r, y) = pt c (pl_sys s) in (r, s\<lparr>pl_sys := y\<rparr>))"

definition pl_alloc :: "('f, 'w, 'z) plat_scheme \<Rightarrow> nat option \<times> ('f, 'w, 'z) plat_scheme" where
  "pl_alloc s = (case pl_mem s of [] \<Rightarrow> (None, s) | a # as \<Rightarrow> (a, s\<lparr>pl_mem := as\<rparr>))"

section \<open>Information and clocks\<close>

definition ztk_platform_init :: "bool \<Rightarrow> ('f, 'w, 'z) plat_scheme \<Rightarrow> ('f, 'w, 'z) plat_scheme" where
  "ztk_platform_init have_epoll s = (if have_epoll then s\<lparr>s_info := (s_info s)\<lparr>pi_poller_epoll := True\<rparr>\<rparr> else s)"

definition ztk_platform_get_info :: "('f, 'w, 'z) plat_scheme \<Rightarrow> ztk_platform_info" where
  "ztk_platform_get_info s = s_info s"

definition ztk_monotonic_ms :: "'w pthreads \<Rightarrow> ('f, 'w, 'z) plat_scheme \<Rightarrow> u64 \<times> ('f, 'w, 'z) plat_scheme" where
  "ztk_monotonic_ms pt s =
     (let (r, s1) = pt_do pt Clock_monotonic s in
      if pr_ret r \<noteq> 0 then (0, s1) else (of_int (fst (pr_ts r)) * 1000 + of_int (snd (pr_ts r)) div 1000000, s1))"

definition ztk_sleep_ms :: "'w pthreads \<Rightarrow> u32 \<Rightarrow> ('f, 'w, 'z) plat_scheme \<Rightarrow> ('f, 'w, 'z) plat_scheme" where
  "ztk_sleep_ms pt ms s = snd (pt_do pt (Nanosleep (uint (ms div 1000), uint ((ms mod 1000) * 1000000))) s)"

definition ztk_thread_self_id :: "'w pthreads \<Rightarrow> ('f, 'w, 'z) plat_scheme \<Rightarrow> u64 \<times> ('f, 'w, 'z) plat_scheme" where
  "ztk_thread_self_id pt s = (let (r, s1) = pt_do pt Gettid s in (of_int (pr_ret r), s1))"

section \<open>Mutexes\<close>

definition EBUSY :: int where "EBUSY = 16"

definition ztk_mutex_create :: "'w pthreads \<Rightarrow> bool \<Rightarrow> ('f, 'w, 'z) plat_scheme \<Rightarrow> nat option \<times> ('f, 'w, 'z) plat_scheme" where
  "ztk_mutex_create pt recursive s =
     (let (m, s1) = pl_alloc s in
      case m of None \<Rightarrow> (None, s1)
      | Some a \<Rightarrow> if a \<in> mutexes s1 then (None, s1)
          else let (r, s2) = pt_do pt (Mutex_init a recursive) s1 in
            if pr_ret r \<noteq> 0 then (None, s2) else (Some a, s2\<lparr>mutexes := insert a (mutexes s2)\<rparr>))"

definition ztk_mutex_destroy :: "'w pthreads \<Rightarrow> nat option \<Rightarrow> ('f, 'w, 'z) plat_scheme \<Rightarrow> ('f, 'w, 'z) plat_scheme option" where
  "ztk_mutex_destroy pt m s =
     (case m of None \<Rightarrow> Some s
      | Some a \<Rightarrow> if a \<notin> mutexes s then None
          else let s1 = snd (pt_do pt (Mutex_destroy a) s) in Some (s1\<lparr>mutexes := mutexes s1 - {a}\<rparr>))"

definition mutex_do ::
    "'w pthreads \<Rightarrow> (nat \<Rightarrow> pt_call) \<Rightarrow> nat option \<Rightarrow> ('f, 'w, 'z) plat_scheme \<Rightarrow> (ztk_err \<times> ('f, 'w, 'z) plat_scheme) option" where
  "mutex_do pt c m s =
     (case m of None \<Rightarrow> Some (ZTK_ERR_INVALID, s)
      | Some a \<Rightarrow> if a \<notin> mutexes s then None
          else let (r, s1) = pt_do pt (c a) s in Some (if pr_ret r = 0 then ZTK_OK else ZTK_ERR_PLATFORM, s1))"

definition ztk_mutex_lock :: "'w pthreads \<Rightarrow> nat option \<Rightarrow> ('f, 'w, 'z) plat_scheme \<Rightarrow> (ztk_err \<times> ('f, 'w, 'z) plat_scheme) option" where
  "ztk_mutex_lock pt = mutex_do pt Mutex_lock"

definition ztk_mutex_unlock :: "'w pthreads \<Rightarrow> nat option \<Rightarrow> ('f, 'w, 'z) plat_scheme \<Rightarrow> (ztk_err \<times> ('f, 'w, 'z) plat_scheme) option" where
  "ztk_mutex_unlock pt = mutex_do pt Mutex_unlock"

definition ztk_mutex_trylock :: "'w pthreads \<Rightarrow> nat option \<Rightarrow> ('f, 'w, 'z) plat_scheme \<Rightarrow> (ztk_err \<times> ('f, 'w, 'z) plat_scheme) option" where
  "ztk_mutex_trylock pt m s =
     (case m of None \<Rightarrow> Some (ZTK_ERR_INVALID, s)
      | Some a \<Rightarrow> if a \<notin> mutexes s then None
          else let (r, s1) = pt_do pt (Mutex_trylock a) s in
            Some (if pr_ret r = 0 then ZTK_OK else if pr_ret r = EBUSY then ZTK_ERR_AGAIN else ZTK_ERR_PLATFORM, s1))"

section \<open>Threads\<close>

text \<open>The five priorities between the limits of the scheduler; \<^verbatim>\<open>/\<close> truncates.\<close>

definition prios :: "int \<Rightarrow> int \<Rightarrow> int list" where
  "prios lo hi = [lo, lo + (hi - lo) sdiv 4, lo + (hi - lo) sdiv 2, lo + ((hi - lo) * 3) sdiv 4, hi]"

definition prio_index :: "int \<Rightarrow> nat" where
  "prio_index priority = (let idx = priority; idx = (if idx < 0 then 0 else idx); idx = (if idx > 4 then 4 else idx) in nat idx)"

definition ztk_thread_set_current_priority :: "'w pthreads \<Rightarrow> int \<Rightarrow> ('f, 'w, 'z) plat_scheme \<Rightarrow> ('f, 'w, 'z) plat_scheme" where
  "ztk_thread_set_current_priority pt priority s =
     (let apply = (\<lambda>s. snd (pt_do pt (Set_prio (prios (min_prio s) (max_prio s) ! prio_index priority)) s)) in
      if min_prio s < 0
      then let (r, s1) = pt_do pt Prio_min s; (r', s2) = pt_do pt Prio_max s1;
               s3 = s2\<lparr>min_prio := pr_ret r, max_prio := pr_ret r'\<rparr>
           in if min_prio s3 < 0 \<or> max_prio s3 < 0 then s3 else apply s3
      else apply s)"

definition ZTK_THREAD_PRIO_NORMAL :: int where "ZTK_THREAD_PRIO_NORMAL = 2"

text \<open>What a new thread does; \<open>run\<close> is the function it was given.\<close>

definition thread_trampoline ::
    "'w pthreads \<Rightarrow> ('f \<Rightarrow> nat option \<Rightarrow> ('f, 'w, 'z) plat_scheme \<Rightarrow> ('f, 'w, 'z) plat_scheme option) \<Rightarrow> nat \<Rightarrow>
     ('f, 'w, 'z) plat_scheme \<Rightarrow> ('f, 'w, 'z) plat_scheme option" where
  "thread_trampoline pt run a s =
     Option.bind (threads s a) (\<lambda>t. run (th_fn t) (th_user t) (ztk_thread_set_current_priority pt (th_priority t) s))"

definition ztk_thread_create_ex ::
    "'w pthreads \<Rightarrow> 'f option \<Rightarrow> nat option \<Rightarrow> int \<Rightarrow> ('f, 'w, 'z) plat_scheme \<Rightarrow> nat option \<times> ('f, 'w, 'z) plat_scheme" where
  "ztk_thread_create_ex pt fn user priority s =
     (case fn of None \<Rightarrow> (None, s)
      | Some f \<Rightarrow>
        let (m, s1) = pl_alloc s in
        case m of None \<Rightarrow> (None, s1)
        | Some a \<Rightarrow> if threads s1 a \<noteq> None then (None, s1)
            else let (r, s2) = pt_do pt (Thread_create a) (s1\<lparr>threads := (threads s1)(a \<mapsto> \<lparr>th_fn = f, th_user = user, th_priority = priority\<rparr>)\<rparr>) in
              if pr_ret r \<noteq> 0 then (None, s2\<lparr>threads := (threads s2)(a := None)\<rparr>) else (Some a, s2))"

definition ztk_thread_create :: "'w pthreads \<Rightarrow> 'f option \<Rightarrow> nat option \<Rightarrow> ('f, 'w, 'z) plat_scheme \<Rightarrow> nat option \<times> ('f, 'w, 'z) plat_scheme" where
  "ztk_thread_create pt fn user = ztk_thread_create_ex pt fn user ZTK_THREAD_PRIO_NORMAL"

definition ztk_thread_join :: "'w pthreads \<Rightarrow> nat option \<Rightarrow> ('f, 'w, 'z) plat_scheme \<Rightarrow> (ztk_err \<times> ('f, 'w, 'z) plat_scheme) option" where
  "ztk_thread_join pt t s =
     (case t of None \<Rightarrow> Some (ZTK_ERR_INVALID, s)
      | Some a \<Rightarrow> if threads s a = None then None
          else let (r, s1) = pt_do pt (Thread_join a) s in Some (if pr_ret r \<noteq> 0 then ZTK_ERR_PLATFORM else ZTK_OK, s1))"

definition ztk_thread_destroy :: "nat option \<Rightarrow> ('f, 'w, 'z) plat_scheme \<Rightarrow> ('f, 'w, 'z) plat_scheme option" where
  "ztk_thread_destroy t s =
     (case t of None \<Rightarrow> Some s | Some a \<Rightarrow> if threads s a = None then None else Some (s\<lparr>threads := (threads s)(a := None)\<rparr>))"

definition ztk_thread_hardware_concurrency :: "'w pthreads \<Rightarrow> ('f, 'w, 'z) plat_scheme \<Rightarrow> u32 \<times> ('f, 'w, 'z) plat_scheme" where
  "ztk_thread_hardware_concurrency pt s = (let (r, s1) = pt_do pt Nprocs s in (of_int (if pr_ret r < 1 then 1 else pr_ret r), s1))"

section \<open>Semaphores\<close>

definition ztk_sem_create :: "'w pthreads \<Rightarrow> u32 \<Rightarrow> ('f, 'w, 'z) plat_scheme \<Rightarrow> nat option \<times> ('f, 'w, 'z) plat_scheme" where
  "ztk_sem_create pt initial s =
     (let (m, s1) = pl_alloc s in
      case m of None \<Rightarrow> (None, s1)
      | Some a \<Rightarrow> if a \<in> sems s1 then (None, s1)
          else let (r, s2) = pt_do pt (Sem_init a initial) s1 in
            if pr_ret r \<noteq> 0 then (None, s2) else (Some a, s2\<lparr>sems := insert a (sems s2)\<rparr>))"

definition ztk_sem_destroy :: "'w pthreads \<Rightarrow> nat option \<Rightarrow> ('f, 'w, 'z) plat_scheme \<Rightarrow> ('f, 'w, 'z) plat_scheme option" where
  "ztk_sem_destroy pt m s =
     (case m of None \<Rightarrow> Some s
      | Some a \<Rightarrow> if a \<notin> sems s then None
          else let s1 = snd (pt_do pt (Sem_destroy a) s) in Some (s1\<lparr>sems := sems s1 - {a}\<rparr>))"

partial_function (option) sem_wait_loop ::
    "'w pthreads \<Rightarrow> nat \<Rightarrow> ('f, 'w, 'z) plat_scheme \<Rightarrow> (ztk_err \<times> ('f, 'w, 'z) plat_scheme) option" where
  "sem_wait_loop pt a s =
     (let rs = pt_do pt (Sem_wait a) s in
      if pr_ret (fst rs) = 0 then Some (ZTK_OK, snd rs)
      else if errno (pl_sys (snd rs)) \<noteq> EINTR then Some (ZTK_ERR_PLATFORM, snd rs)
      else sem_wait_loop pt a (snd rs))"

partial_function (option) sem_timed_loop ::
    "'w pthreads \<Rightarrow> nat \<Rightarrow> int \<times> int \<Rightarrow> ('f, 'w, 'z) plat_scheme \<Rightarrow> (int \<times> ('f, 'w, 'z) plat_scheme) option" where
  "sem_timed_loop pt a ts s =
     (let rs = pt_do pt (Sem_timedwait a ts) s in
      if pr_ret (fst rs) \<noteq> 0 \<and> errno (pl_sys (snd rs)) = EINTR then sem_timed_loop pt a ts (snd rs)
      else Some (pr_ret (fst rs), snd rs))"

declare sem_wait_loop.simps [code] sem_timed_loop.simps [code]

text \<open>The time \<^verbatim>\<open>timeout_ms\<close> after \<open>now\<close>, in seconds and nanoseconds.\<close>

definition sem_deadline :: "int \<times> int \<Rightarrow> int \<Rightarrow> int \<times> int" where
  "sem_deadline now timeout_ms =
     (let sec = fst now + timeout_ms div 1000;
          nsec = snd now + (timeout_ms mod 1000) * 1000000
      in if nsec \<ge> 1000000000 then (sec + 1, nsec - 1000000000) else (sec, nsec))"

definition sem_wait_impl ::
    "'w pthreads \<Rightarrow> nat \<Rightarrow> int \<Rightarrow> ('f, 'w, 'z) plat_scheme \<Rightarrow> (ztk_err \<times> ('f, 'w, 'z) plat_scheme) option" where
  "sem_wait_impl pt a timeout_ms s =
     (if a \<notin> sems s then None
      else if timeout_ms < 0 then sem_wait_loop pt a s
      else let (t, s1) = pt_do pt Clock_realtime s in
        map_option (\<lambda>(r, s2). (if r = 0 then ZTK_OK else if errno (pl_sys s2) = ETIMEDOUT then ZTK_ERR_TIMEOUT else ZTK_ERR_PLATFORM, s2))
          (sem_timed_loop pt a (sem_deadline (pr_ts t) timeout_ms) s1))"

definition ztk_sem_wait :: "'w pthreads \<Rightarrow> nat option \<Rightarrow> ('f, 'w, 'z) plat_scheme \<Rightarrow> (ztk_err \<times> ('f, 'w, 'z) plat_scheme) option" where
  "ztk_sem_wait pt m s = (case m of None \<Rightarrow> Some (ZTK_ERR_INVALID, s) | Some a \<Rightarrow> sem_wait_impl pt a (- 1) s)"

definition ztk_sem_timedwait :: "'w pthreads \<Rightarrow> nat option \<Rightarrow> u32 \<Rightarrow> ('f, 'w, 'z) plat_scheme \<Rightarrow> (ztk_err \<times> ('f, 'w, 'z) plat_scheme) option" where
  "ztk_sem_timedwait pt m timeout_ms s = (case m of None \<Rightarrow> Some (ZTK_ERR_INVALID, s) | Some a \<Rightarrow> sem_wait_impl pt a (sint timeout_ms) s)"

primrec sem_post_times :: "'w pthreads \<Rightarrow> nat \<Rightarrow> nat \<Rightarrow> ('f, 'w, 'z) plat_scheme \<Rightarrow> ztk_err \<times> ('f, 'w, 'z) plat_scheme" where
  "sem_post_times pt a 0 s = (ZTK_OK, s)"
| "sem_post_times pt a (Suc n) s =
     (let (r, s1) = pt_do pt (Sem_post a) s in if pr_ret r \<noteq> 0 then (ZTK_ERR_PLATFORM, s1) else sem_post_times pt a n s1)"

definition ztk_sem_post :: "'w pthreads \<Rightarrow> nat option \<Rightarrow> u32 \<Rightarrow> ('f, 'w, 'z) plat_scheme \<Rightarrow> (ztk_err \<times> ('f, 'w, 'z) plat_scheme) option" where
  "ztk_sem_post pt m cnt s =
     (case m of None \<Rightarrow> Some (ZTK_ERR_INVALID, s)
      | Some a \<Rightarrow> if cnt = 0 then Some (ZTK_ERR_INVALID, s)
          else if a \<notin> sems s then None else Some (sem_post_times pt a (unat cnt) s))"

section \<open>Lemmas\<close>

lemma deadline_exact:
  assumes "0 \<le> snd now" and "snd now < 1000000000" and "0 \<le> ms"
  shows "0 \<le> snd (sem_deadline now ms) \<and> snd (sem_deadline now ms) < 1000000000 \<and>
     fst (sem_deadline now ms) * 1000000000 + snd (sem_deadline now ms) = fst now * 1000000000 + snd now + ms * 1000000"
proof -
  obtain q r where d: "ms div 1000 = q" "ms mod 1000 = r" "0 \<le> r" "r < 1000" "ms = q * 1000 + r"
    using that [of "ms div 1000" "ms mod 1000"] by simp
  show ?thesis unfolding sem_deadline_def Let_def d(1,2) using assms(1,2) d(3-5) by (auto simp: algebra_simps)
qed

lemma sint_u32: "sint (t :: u32) = (int (unat t) + 2 ^ 31) mod 2 ^ 32 - 2 ^ 31"
  using int_word_sint [where ?'a = 32, of "int (unat t)"] by simp

lemma sint_below: "unat (t :: u32) < 2 ^ 31 \<Longrightarrow> sint t = int (unat t)"
proof -
  have "m < 2 ^ 31 \<Longrightarrow> (int m + 2 ^ 31) mod 2 ^ 32 - 2 ^ 31 = int m" for m by (subst mod_pos_pos_trivial) auto
  then show "unat t < 2 ^ 31 \<Longrightarrow> sint t = int (unat t)" unfolding sint_u32 .
qed

lemma sint_above:
  assumes "2 ^ 31 \<le> unat (t :: u32)"
  shows "sint t < 0"
proof -
  have "(int m + 2 ^ 31) mod 2 ^ 32 - 2 ^ 31 < 0" if "2 ^ 31 \<le> m" "m < 2 ^ 32" for m
  proof -
    have "(int m + 2 ^ 31) mod 2 ^ 32 = int m - 2 ^ 31" using that by (intro int_mod_pos_eq [of _ _ 1]) auto
    then show ?thesis using that by auto
  qed
  moreover have "unat t < 2 ^ 32" using unsigned_less [of t] by simp
  ultimately show ?thesis unfolding sint_u32 using assms by blast
qed

section \<open>Properties\<close>

definition early_pt :: "unit pthreads" where
  "early_pt c y = (\<lparr>pr_ret = (case c of Sem_timedwait _ _ \<Rightarrow> - 1 | _ \<Rightarrow> 0), pr_ts = (5, 999000000)\<rparr>,
     y\<lparr>errno := (case c of Sem_timedwait _ _ \<Rightarrow> ETIMEDOUT | _ \<Rightarrow> errno y)\<rparr>)"

definition one_sem :: "(nat, unit) plat" where
  "one_sem = \<lparr>pl_sys = \<lparr>errno = E_NONE, world = ()\<rparr>, pl_mem = [], mutexes = {}, threads = Map.empty, sems = {1}, min_prio = - 1,
     max_prio = - 1, s_info = \<lparr>pi_name = ''linux'', pi_poller_epoll = False, pi_poller_iocp = False\<rparr>\<rparr>"

text \<open>
  C24. The limit of a timed wait. On a semaphore that exists, a wait with a limit below $2^{31}$ ms waits for exactly
  that long: it calls \<^verbatim>\<open>sem_timedwait\<close>, again after every interruption, with the time that lies the given number
  of milliseconds after the clock's, in normal form; it succeeds when the call does and otherwise reports
  a time-out or an error. A longer limit is taken for a negative number: the wait has no limit at all.
\<close>

theorem sem_timedwait_limit:
  assumes "a \<in> sems s" and "pt_do pt Clock_realtime s = (t, s1)" and "0 \<le> snd (pr_ts t)" and "snd (pr_ts t) < 1000000000"
  shows "(if unat timeout < 2 ^ 31
     then \<exists>sec nsec. 0 \<le> nsec \<and> nsec < 1000000000 \<and>
            sec * 1000000000 + nsec = fst (pr_ts t) * 1000000000 + snd (pr_ts t) + int (unat timeout) * 1000000 \<and>
            ztk_sem_timedwait pt (Some a) timeout s = map_option (\<lambda>(r, s2). (if r = 0 then ZTK_OK
              else if errno (pl_sys s2) = ETIMEDOUT then ZTK_ERR_TIMEOUT else ZTK_ERR_PLATFORM, s2)) (sem_timed_loop pt a (sec, nsec) s1)
     else ztk_sem_timedwait pt (Some a) timeout s = ztk_sem_wait pt (Some a) s)"
proof (cases "unat timeout < 2 ^ 31")
  case True
  let ?d = "sem_deadline (pr_ts t) (int (unat timeout))"
  have "ztk_sem_timedwait pt (Some a) timeout s = map_option (\<lambda>(r, s2). (if r = 0 then ZTK_OK
      else if errno (pl_sys s2) = ETIMEDOUT then ZTK_ERR_TIMEOUT else ZTK_ERR_PLATFORM, s2)) (sem_timed_loop pt a (fst ?d, snd ?d) s1)"
    using assms(1,2) unfolding ztk_sem_timedwait_def sem_wait_impl_def sint_below [OF True] by simp
  then show ?thesis unfolding if_P [OF True] using deadline_exact [OF assms(3,4), of "int (unat timeout)"]
    by (intro exI [of _ "fst ?d"] exI [of _ "snd ?d"] conjI) simp_all
next
  case False
  then show ?thesis using sint_above [of timeout] by (simp add: ztk_sem_timedwait_def ztk_sem_wait_def sem_wait_impl_def)
qed

theorem sem_timedwait_limit_witness:
  "\<exists>sec nsec. sec * 1000000000 + nsec = 5 * 1000000000 + 999000000 + 1500 * 1000000 \<and>
     ztk_sem_timedwait early_pt (Some 1) 1500 one_sem = map_option (\<lambda>(r, s2). (if r = 0 then ZTK_OK
       else if errno (pl_sys s2) = ETIMEDOUT then ZTK_ERR_TIMEOUT else ZTK_ERR_PLATFORM, s2)) (sem_timed_loop early_pt 1 (sec, nsec) one_sem)"
proof -
  have "pt_do early_pt Clock_realtime one_sem = (\<lparr>pr_ret = 0, pr_ts = (5, 999000000)\<rparr>, one_sem)"
    by (simp add: pt_do_def early_pt_def one_sem_def)
  from sem_timedwait_limit [OF _ this, of 1 1500] show ?thesis by (auto simp: one_sem_def)
qed

text \<open>
  Thread priorities stay within what the scheduler allows. When its limits are known and in order, the priority
  that is set for any level, also one outside the enumeration, lies between them, a higher level never
  gets a lower priority, and the lowest and highest levels get the limits themselves.
\<close>

lemma thread_priority_in_range:
  assumes "0 \<le> min_prio s" and "min_prio s \<le> max_prio s" and "l \<le> l'"
  shows "\<exists>p p'. ztk_thread_set_current_priority pt l s = snd (pt_do pt (Set_prio p) s) \<and>
     ztk_thread_set_current_priority pt l' s = snd (pt_do pt (Set_prio p') s) \<and>
     min_prio s \<le> p \<and> p \<le> p' \<and> p' \<le> max_prio s \<and> (l \<le> 0 \<longrightarrow> p = min_prio s) \<and> (4 \<le> l' \<longrightarrow> p' = max_prio s)"
proof -
  let ?lo = "min_prio s" and ?hi = "max_prio s"
  have P: "prios ?lo ?hi = [?lo, ?lo + (?hi - ?lo) div 4, ?lo + (?hi - ?lo) div 2, ?lo + ((?hi - ?lo) * 3) div 4, ?hi]"
    using assms(2) by (simp add: prios_def signed_divide_int_def sgn_if)
  have b: "0 \<le> (?hi - ?lo) div 4" "(?hi - ?lo) div 4 \<le> (?hi - ?lo) div 2" "(?hi - ?lo) div 2 \<le> ((?hi - ?lo) * 3) div 4"
      "((?hi - ?lo) * 3) div 4 \<le> ?hi - ?lo"
    using assms(2) by presburger+
  have srt: "sorted (prios ?lo ?hi)" unfolding P using b by auto
  have i: "prio_index l \<le> prio_index l'" "prio_index l' < 5" using assms(3) by (auto simp: prio_index_def Let_def)
  have len: "length (prios ?lo ?hi) = 5" by (simp add: P)
  have "prios ?lo ?hi ! 0 \<le> prios ?lo ?hi ! prio_index l" "prios ?lo ?hi ! prio_index l \<le> prios ?lo ?hi ! prio_index l'"
      "prios ?lo ?hi ! prio_index l' \<le> prios ?lo ?hi ! 4"
    using i len by (auto intro!: sorted_nth_mono [OF srt])
  moreover have "l \<le> 0 \<Longrightarrow> prio_index l = 0" "4 \<le> l' \<Longrightarrow> prio_index l' = 4" by (auto simp: prio_index_def Let_def)
  moreover have "prios ?lo ?hi ! 0 = ?lo" "prios ?lo ?hi ! 4 = ?hi" by (simp_all add: P)
  moreover have "ztk_thread_set_current_priority pt k s = snd (pt_do pt (Set_prio (prios ?lo ?hi ! prio_index k)) s)" for k
    using assms(1) by (simp add: ztk_thread_set_current_priority_def)
  ultimately show ?thesis by (intro exI [of _ "prios ?lo ?hi ! prio_index l"] exI [of _ "prios ?lo ?hi ! prio_index l'"]) auto
qed

end
