(* ===== verification/Sock_Win32.thy ===== *)
theory Sock_Win32
  imports Sock_Linux
begin

text \<open>
  The socket platform layer on Windows, \<^verbatim>\<open>src/net/win32/sock_win32.c\<close>, the other implementation of
  \<^verbatim>\<open>internal/sock_platform.h\<close>. Winsock is a parameter: a function from calls to answers that may also set the last
  error. A \<^verbatim>\<open>SOCKET\<close> is a 64-bit word with the invalid one all ones, while the interface passes descriptors
  as \<^verbatim>\<open>int\<close>; the conversions are written out. The names have the prefix \<open>win_\<close>; the functions of the file that
  are the same as in \<^verbatim>\<open>sock_linux.c\<close> (\<^verbatim>\<open>is_any_host\<close>, \<^verbatim>\<open>multicast_if_addr\<close>, \<^verbatim>\<open>addr_to_string\<close>) are those of \<open>Sock_Linux\<close>.
\<close>

section \<open>Winsock\<close>

type_synonym sock = u64

datatype wsa_err = WSA_NONE | WSAEWOULDBLOCK | WSAETIMEDOUT | WSA_OTHER int

datatype wcall =
    W_startup | W_cleanup
  | W_nonblock sock bool
  | W_no_inherit sock
  | W_setsockopt sock sockopt
  | W_so_error sock
  | W_getaddrinfo "string option" string int int bool
  | W_socket int int int
  | W_bind sock saddr
  | W_listen sock int
  | W_connect sock saddr
  | W_accept sock
  | W_closesocket sock
  | W_getsockname sock
  | W_getpeername sock
  | W_send sock mem
  | W_recv sock nat
  | W_sendto sock mem saddr
  | W_recvfrom sock nat

record wres =
  w_ret :: int
  w_sock :: sock
  w_addrs :: "addrinfo list"
  w_addr :: saddr
  w_bytes :: "u8 list"
  w_errval :: wsa_err

record 'w wsys =
  wsa_last :: wsa_err
  wworld :: 'w

type_synonym 'w winsock = "wcall \<Rightarrow> 'w wsys \<Rightarrow> wres \<times> 'w wsys"

definition INVALID_SOCKET :: sock where "INVALID_SOCKET = - 1"
definition SOCKET_ERROR :: int where "SOCKET_ERROR = - 1"
definition SOMAXCONN :: int where "SOMAXCONN = 0x7fffffff"

definition win_to_sock :: "int \<Rightarrow> sock" where
  "win_to_sock fd = of_int fd"

text \<open>\<^verbatim>\<open>(int)fd\<close> of a \<^verbatim>\<open>SOCKET\<close> keeps the lower 32 bits, as a signed number.\<close>

definition to_fd :: "sock \<Rightarrow> int" where
  "to_fd s = sint (ucast s :: u32)"

definition win_map_wsa :: "wsa_err \<Rightarrow> ztk_err" where
  "win_map_wsa e = (if e = WSAEWOULDBLOCK then ZTK_ERR_AGAIN else if e = WSAETIMEDOUT then ZTK_ERR_TIMEOUT else ZTK_ERR_IO)"

definition win_map_errno :: "'w wsys \<Rightarrow> ztk_err" where
  "win_map_errno s = win_map_wsa (wsa_last s)"

definition win_ok :: "wres \<times> 'w wsys \<Rightarrow> ztk_err \<times> 'w wsys" where
  "win_ok rs = (if w_ret (fst rs) = 0 then ZTK_OK else ZTK_ERR_PLATFORM, snd rs)"

definition win_set_nonblock :: "'w winsock \<Rightarrow> int \<Rightarrow> bool \<Rightarrow> 'w wsys \<Rightarrow> ztk_err \<times> 'w wsys" where
  "win_set_nonblock ws fd on s = win_ok (ws (W_nonblock (win_to_sock fd) on) s)"

text \<open>\<^verbatim>\<open>SetHandleInformation\<close> returns a truth value.\<close>

definition win_set_cloexec :: "'w winsock \<Rightarrow> int \<Rightarrow> 'w wsys \<Rightarrow> ztk_err \<times> 'w wsys" where
  "win_set_cloexec ws fd s =
     (let (r, s1) = ws (W_no_inherit (win_to_sock fd)) s in (if w_ret r \<noteq> 0 then ZTK_OK else ZTK_ERR_PLATFORM, s1))"

definition win_set_opt :: "'w winsock \<Rightarrow> int \<Rightarrow> sockopt \<Rightarrow> 'w wsys \<Rightarrow> ztk_err \<times> 'w wsys" where
  "win_set_opt ws fd opt s = win_ok (ws (W_setsockopt (win_to_sock fd) opt) s)"

definition win_set_reuseaddr :: "'w winsock \<Rightarrow> int \<Rightarrow> bool \<Rightarrow> 'w wsys \<Rightarrow> ztk_err \<times> 'w wsys" where
  "win_set_reuseaddr ws fd on = win_set_opt ws fd (SO_REUSEADDR (if on then 1 else 0))"

text \<open>\<open>has_rp\<close>: whether \<^verbatim>\<open>SO_REUSEPORT\<close> is defined when the file is compiled.\<close>

definition win_set_reuseport :: "'w winsock \<Rightarrow> bool \<Rightarrow> int \<Rightarrow> bool \<Rightarrow> 'w wsys \<Rightarrow> ztk_err \<times> 'w wsys" where
  "win_set_reuseport ws has_rp fd on s =
     (if has_rp then win_set_opt ws fd (SO_REUSEPORT (if on then 1 else 0)) s
      else (if on then ZTK_ERR_NOT_IMPL else ZTK_OK, s))"

definition win_set_nodelay :: "'w winsock \<Rightarrow> int \<Rightarrow> 'w wsys \<Rightarrow> ztk_err \<times> 'w wsys" where
  "win_set_nodelay ws fd = win_set_opt ws fd (TCP_NODELAY 1)"

text \<open>The state of these two is the static \<^verbatim>\<open>s_wsa_refs\<close>.\<close>

definition win_sockplat_init :: "'w winsock \<Rightarrow> int \<Rightarrow> 'w wsys \<Rightarrow> ztk_err \<times> int \<times> 'w wsys" where
  "win_sockplat_init ws refs s =
     (if 0 < refs then (ZTK_OK, refs, s)
      else let (r, s1) = ws W_startup s in if w_ret r \<noteq> 0 then (ZTK_ERR_PLATFORM, refs, s1) else (ZTK_OK, 1, s1))"

definition win_sockplat_fini :: "'w winsock \<Rightarrow> int \<Rightarrow> 'w wsys \<Rightarrow> int \<times> 'w wsys" where
  "win_sockplat_fini ws refs s = (if refs = 0 then (refs, s) else (0, snd (ws W_cleanup s)))"

definition win_sockplat_apply_tcp_server_opts :: "'w winsock \<Rightarrow> int \<Rightarrow> 'w wsys \<Rightarrow> ztk_err \<times> 'w wsys" where
  "win_sockplat_apply_tcp_server_opts ws fd s =
     (let (e1, s1) = win_set_nonblock ws fd True s in
      if e1 \<noteq> ZTK_OK then (ZTK_ERR_PLATFORM, s1)
      else (ZTK_OK, snd (win_set_reuseaddr ws fd True (snd (win_set_cloexec ws fd s1)))))"

definition win_sockplat_apply_tcp_client_opts :: "'w winsock \<Rightarrow> int \<Rightarrow> 'w wsys \<Rightarrow> ztk_err \<times> 'w wsys" where
  "win_sockplat_apply_tcp_client_opts ws fd s =
     (let (e1, s1) = win_set_nonblock ws fd True s in
      if e1 \<noteq> ZTK_OK then (ZTK_ERR_PLATFORM, s1)
      else (ZTK_OK, snd (win_set_nodelay ws fd (snd (win_set_cloexec ws fd s1)))))"

definition win_sockplat_apply_udp_opts :: "'w winsock \<Rightarrow> int \<Rightarrow> 'w wsys \<Rightarrow> ztk_err \<times> 'w wsys" where
  "win_sockplat_apply_udp_opts ws fd s =
     (let (e1, s1) = win_set_nonblock ws fd True s in
      if e1 \<noteq> ZTK_OK then (ZTK_ERR_PLATFORM, s1) else (ZTK_OK, snd (win_set_cloexec ws fd s1)))"

section \<open>Opening\<close>

definition win_resolve ::
    "'w winsock \<Rightarrow> string option \<Rightarrow> u16 \<Rightarrow> int \<Rightarrow> int \<Rightarrow> bool \<Rightarrow> 'w wsys \<Rightarrow> (ztk_err \<times> addrinfo list) \<times> 'w wsys" where
  "win_resolve ws host port family type passive s =
     (let (r, s1) = ws (W_getaddrinfo host (port_str port) family type passive) s in
      if w_ret r \<noteq> 0 then ((ZTK_ERR_IO, []), s1) else ((ZTK_OK, w_addrs r), s1))"

definition win_resolve_bind ::
    "'w winsock \<Rightarrow> string option \<Rightarrow> u16 \<Rightarrow> int \<Rightarrow> bool \<Rightarrow> 'w wsys \<Rightarrow> (ztk_err \<times> addrinfo list) \<times> 'w wsys" where
  "win_resolve_bind ws host port type passive =
     win_resolve ws (if is_any_host host then None else host) port (if is_any_host host then AF_INET else AF_UNSPEC) type passive"

definition win_resolve_connect ::
    "'w winsock \<Rightarrow> string \<Rightarrow> u16 \<Rightarrow> 'w wsys \<Rightarrow> (ztk_err \<times> addrinfo list) \<times> 'w wsys" where
  "win_resolve_connect ws host port = win_resolve ws (Some host) port AF_UNSPEC SOCK_STREAM False"

definition win_resolve_endpoint ::
    "'w winsock \<Rightarrow> string option \<Rightarrow> u16 \<Rightarrow> 'w wsys \<Rightarrow> (ztk_err \<times> addrinfo list) \<times> 'w wsys" where
  "win_resolve_endpoint ws ip port = win_resolve ws ip port AF_UNSPEC SOCK_DGRAM False"

definition win_close_next :: "'w winsock \<Rightarrow> sock \<Rightarrow> 'w wsys \<Rightarrow> 'w wsys" where
  "win_close_next ws k s = snd (ws (W_closesocket k) s)"

fun win_listen_loop :: "'w winsock \<Rightarrow> int \<Rightarrow> addrinfo list \<Rightarrow> sock \<Rightarrow> 'w wsys \<Rightarrow> sock \<times> 'w wsys" where
  "win_listen_loop ws backlog [] k s = (k, s)"
| "win_listen_loop ws backlog (p # ps) _ s =
     (let (r, s1) = ws (W_socket (ai_family p) (ai_socktype p) (ai_protocol p)) s; k = w_sock r in
      if k = INVALID_SOCKET then win_listen_loop ws backlog ps k s1
      else let (e, s2) = win_sockplat_apply_tcp_server_opts ws (to_fd k) s1 in
      if e \<noteq> ZTK_OK then win_listen_loop ws backlog ps INVALID_SOCKET (win_close_next ws k s2)
      else let (_, s3) = win_set_reuseaddr ws (to_fd k) True s2; (rb, s4) = ws (W_bind k (ai_addr p)) s3 in
      if w_ret rb \<noteq> 0 then win_listen_loop ws backlog ps INVALID_SOCKET (win_close_next ws k s4)
      else let (rl, s5) = ws (W_listen k (if backlog > 0 then backlog else SOMAXCONN)) s4 in
      if w_ret rl \<noteq> 0 then win_listen_loop ws backlog ps INVALID_SOCKET (win_close_next ws k s5)
      else (k, s5))"

definition win_bind_and_listen ::
    "'w winsock \<Rightarrow> string option \<Rightarrow> u16 \<Rightarrow> int \<Rightarrow> 'w wsys \<Rightarrow> (ztk_err \<times> int option) \<times> 'w wsys" where
  "win_bind_and_listen ws host port backlog s =
     (let ((e, res), s1) = win_resolve_bind ws host port SOCK_STREAM True s in
      if e \<noteq> ZTK_OK then ((e, None), s1)
      else let (k, s2) = win_listen_loop ws backlog res INVALID_SOCKET s1 in
        if k = INVALID_SOCKET then ((win_map_errno s2, None), s2) else ((ZTK_OK, Some (to_fd k)), s2))"

definition win_sockplat_listen ::
    "'w winsock \<Rightarrow> string option \<Rightarrow> u16 \<Rightarrow> int \<Rightarrow> 'w wsys \<Rightarrow> (ztk_err \<times> int option) \<times> 'w wsys" where
  "win_sockplat_listen ws host port backlog s = win_bind_and_listen ws host port backlog s"

fun win_bind_udp_loop ::
    "'w winsock \<Rightarrow> bool \<Rightarrow> bool \<Rightarrow> bool \<Rightarrow> addrinfo list \<Rightarrow> sock \<Rightarrow> 'w wsys \<Rightarrow> sock \<times> 'w wsys" where
  "win_bind_udp_loop ws has_rp ra rp [] k s = (k, s)"
| "win_bind_udp_loop ws has_rp ra rp (p # ps) _ s =
     (let (r, s1) = ws (W_socket (ai_family p) (ai_socktype p) (ai_protocol p)) s; k = w_sock r in
      if k = INVALID_SOCKET then win_bind_udp_loop ws has_rp ra rp ps k s1
      else let (e, s2) = win_sockplat_apply_udp_opts ws (to_fd k) s1 in
      if e \<noteq> ZTK_OK then win_bind_udp_loop ws has_rp ra rp ps INVALID_SOCKET (win_close_next ws k s2)
      else let s3 = (if ra then snd (win_set_reuseaddr ws (to_fd k) True s2) else s2);
               (e2, s4) = (if rp then win_set_reuseport ws has_rp (to_fd k) True s3 else (ZTK_OK, s3)) in
      if e2 \<noteq> ZTK_OK then win_bind_udp_loop ws has_rp ra rp ps INVALID_SOCKET (win_close_next ws k s4)
      else let (rb, s5) = ws (W_bind k (ai_addr p)) s4 in
      if w_ret rb \<noteq> 0 then win_bind_udp_loop ws has_rp ra rp ps INVALID_SOCKET (win_close_next ws k s5)
      else (k, s5))"

definition win_sockplat_bind_udp ::
    "'w winsock \<Rightarrow> bool \<Rightarrow> string option \<Rightarrow> u16 \<Rightarrow> bool \<Rightarrow> bool \<Rightarrow> 'w wsys \<Rightarrow> (ztk_err \<times> int option) \<times> 'w wsys" where
  "win_sockplat_bind_udp ws has_rp host port reuse_addr reuse_port s =
     (let ((e, res), s1) = win_resolve_bind ws host port SOCK_DGRAM True s in
      if e \<noteq> ZTK_OK then ((e, None), s1)
      else let (k, s2) = win_bind_udp_loop ws has_rp reuse_addr reuse_port res INVALID_SOCKET s1 in
        if k = INVALID_SOCKET then ((win_map_errno s2, None), s2) else ((ZTK_OK, Some (to_fd k)), s2))"

fun win_connect_loop :: "'w winsock \<Rightarrow> addrinfo list \<Rightarrow> sock \<Rightarrow> 'w wsys \<Rightarrow> (sock \<times> bool) \<times> 'w wsys" where
  "win_connect_loop ws [] k s = ((k, False), s)"
| "win_connect_loop ws (p # ps) _ s =
     (let (r, s1) = ws (W_socket (ai_family p) (ai_socktype p) (ai_protocol p)) s; k = w_sock r in
      if k = INVALID_SOCKET then win_connect_loop ws ps k s1
      else let (e, s2) = win_sockplat_apply_tcp_client_opts ws (to_fd k) s1 in
      if e \<noteq> ZTK_OK then win_connect_loop ws ps INVALID_SOCKET (win_close_next ws k s2)
      else let (rc, s3) = ws (W_connect k (ai_addr p)) s2 in
      if w_ret rc = 0 then ((k, False), s3)
      else if wsa_last s3 = WSAEWOULDBLOCK then ((k, True), s3)
      else win_connect_loop ws ps INVALID_SOCKET (win_close_next ws k s3))"

definition win_sockplat_connect ::
    "'w winsock \<Rightarrow> string option \<Rightarrow> u16 \<Rightarrow> 'w wsys \<Rightarrow> (ztk_err \<times> int option \<times> bool) \<times> 'w wsys" where
  "win_sockplat_connect ws host port s =
     (case host of None \<Rightarrow> ((ZTK_ERR_INVALID, None, False), s)
      | Some h \<Rightarrow>
        let ((e, res), s1) = win_resolve_connect ws h port s in
        if e \<noteq> ZTK_OK then ((e, None, False), s1)
        else let ((k, pend), s2) = win_connect_loop ws res INVALID_SOCKET s1 in
          if k = INVALID_SOCKET then ((win_map_errno s2, None, pend), s2) else ((ZTK_OK, Some (to_fd k), pend), s2))"

definition win_sockplat_accept :: "'w winsock \<Rightarrow> int \<Rightarrow> 'w wsys \<Rightarrow> (ztk_err \<times> int option) \<times> 'w wsys" where
  "win_sockplat_accept ws listen_fd s =
     (let (r, s1) = ws (W_accept (win_to_sock listen_fd)) s; k = w_sock r in
      if k = INVALID_SOCKET then ((win_map_errno s1, None), s1)
      else ((ZTK_OK, Some (to_fd k)), snd (win_sockplat_apply_tcp_client_opts ws (to_fd k) s1)))"

definition win_sockplat_close :: "'w winsock \<Rightarrow> int \<Rightarrow> 'w wsys \<Rightarrow> ztk_err \<times> 'w wsys" where
  "win_sockplat_close ws fd s =
     (if fd < 0 \<or> win_to_sock fd = INVALID_SOCKET then (ZTK_OK, s)
      else let (r, s1) = ws (W_closesocket (win_to_sock fd)) s in (if w_ret r = 0 then ZTK_OK else win_map_errno s1, s1))"

section \<open>Addresses\<close>

definition win_sockplat_get_local ::
    "'w winsock \<Rightarrow> int \<Rightarrow> nat option \<Rightarrow> bool \<Rightarrow> 'w wsys \<Rightarrow> (ztk_err \<times> string option \<times> u16 option) \<times> 'w wsys" where
  "win_sockplat_get_local ws fd ip_len want_port s =
     (let (r, s1) = ws (W_getsockname (win_to_sock fd)) s in
      if w_ret r \<noteq> 0 then ((win_map_errno s1, None, None), s1) else (addr_to_string (w_addr r) ip_len want_port, s1))"

definition win_sockplat_get_peer ::
    "'w winsock \<Rightarrow> int \<Rightarrow> nat option \<Rightarrow> bool \<Rightarrow> 'w wsys \<Rightarrow> (ztk_err \<times> string option \<times> u16 option) \<times> 'w wsys" where
  "win_sockplat_get_peer ws fd ip_len want_port s =
     (let (r, s1) = ws (W_getpeername (win_to_sock fd)) s in
      if w_ret r \<noteq> 0 then ((win_map_errno s1, None, None), s1) else (addr_to_string (w_addr r) ip_len want_port, s1))"

definition win_sockplat_check_connect :: "'w winsock \<Rightarrow> int \<Rightarrow> 'w wsys \<Rightarrow> ztk_err \<times> 'w wsys" where
  "win_sockplat_check_connect ws fd s =
     (let (r, s1) = ws (W_getpeername (win_to_sock fd)) s in
      if w_ret r = 0 then (ZTK_OK, s1)
      else let (r2, s2) = ws (W_so_error (win_to_sock fd)) s1 in
        if w_ret r2 \<noteq> 0 then (win_map_errno s2, s2)
        else if w_errval r2 = WSA_NONE then (ZTK_ERR_AGAIN, s2)
        else (win_map_wsa (w_errval r2), s2))"

section \<open>Data transfer\<close>

text \<open>\<^verbatim>\<open>(int)(len > 0x7fffffff ? 0x7fffffff : len)\<close>\<close>

definition INT_MAX :: nat where "INT_MAX = 0x7fffffff"

definition win_io :: "wres \<times> 'w wsys \<Rightarrow> int \<times> 'w wsys" where
  "win_io rs = (let (r, s) = rs in (if w_ret r = SOCKET_ERROR then err_code (win_map_errno s) else w_ret r, s))"

definition win_sockplat_send :: "'w winsock \<Rightarrow> int \<Rightarrow> mem \<Rightarrow> 'w wsys \<Rightarrow> int \<times> 'w wsys" where
  "win_sockplat_send ws fd buf s = win_io (ws (W_send (win_to_sock fd) (take INT_MAX buf)) s)"

text \<open>
  The two loops of \<^verbatim>\<open>ztk_sockplat_sendv\<close>: the first buffer of the list is what is left of the current
  one. A send that accepts nothing is repeated, and gives no result if that never ends. The count \<^verbatim>\<open>sent\<close> is a number here: the
  buffers of one call are in memory together, so that it stays far below the range of \<^verbatim>\<open>ztk_ssize_t\<close>.
\<close>

partial_function (option) win_sendv_loop ::
    "'w winsock \<Rightarrow> int \<Rightarrow> mem list \<Rightarrow> nat \<Rightarrow> 'w wsys \<Rightarrow> (int \<times> 'w wsys) option" where
  "win_sendv_loop ws fd iov sent s =
     (case iov of [] \<Rightarrow> Some (int sent, s)
      | m # ms \<Rightarrow>
        if m = [] then win_sendv_loop ws fd ms sent s
        else let rs = ws (W_send (win_to_sock fd) (take INT_MAX m)) s; n = w_ret (fst rs) in
          if n = SOCKET_ERROR then Some (if 0 < sent then int sent else err_code (win_map_errno (snd rs)), snd rs)
          else win_sendv_loop ws fd (drop (nat n) m # ms) (sent + nat n) (snd rs))"

declare win_sendv_loop.simps [code]

definition win_sockplat_sendv :: "'w winsock \<Rightarrow> int \<Rightarrow> mem list \<Rightarrow> 'w wsys \<Rightarrow> (int \<times> 'w wsys) option" where
  "win_sockplat_sendv ws fd iov s = (if iov = [] then Some (err_code ZTK_ERR_INVALID, s) else win_sendv_loop ws fd iov 0 s)"

definition win_sockplat_set_tcp_bbr :: "int \<Rightarrow> bool \<Rightarrow> ztk_err" where
  "win_sockplat_set_tcp_bbr fd on = ZTK_ERR_NOT_IMPL"

definition win_sockplat_recv :: "'w winsock \<Rightarrow> int \<Rightarrow> nat \<Rightarrow> 'w wsys \<Rightarrow> (int \<times> u8 list) \<times> 'w wsys" where
  "win_sockplat_recv ws fd len s =
     (let rs = ws (W_recv (win_to_sock fd) (min INT_MAX len)) s; (n, s1) = win_io rs in ((n, w_bytes (fst rs)), s1))"

fun win_sendto_loop :: "'w winsock \<Rightarrow> int \<Rightarrow> mem \<Rightarrow> addrinfo list \<Rightarrow> int \<Rightarrow> 'w wsys \<Rightarrow> int \<times> 'w wsys" where
  "win_sendto_loop ws fd buf [] n s = (n, s)"
| "win_sendto_loop ws fd buf (p # ps) _ s =
     (let (r, s1) = ws (W_sendto (win_to_sock fd) buf (ai_addr p)) s in
      if w_ret r \<noteq> SOCKET_ERROR then (w_ret r, s1) else win_sendto_loop ws fd buf ps (w_ret r) s1)"

definition win_sockplat_sendto ::
    "'w winsock \<Rightarrow> int \<Rightarrow> mem \<Rightarrow> string option \<Rightarrow> u16 \<Rightarrow> 'w wsys \<Rightarrow> int \<times> 'w wsys" where
  "win_sockplat_sendto ws fd buf ip port s =
     (let ((e, res), s1) = win_resolve_endpoint ws ip port s in
      if e \<noteq> ZTK_OK then (err_code ZTK_ERR_IO, s1)
      else let (n, s2) = win_sendto_loop ws fd (take INT_MAX buf) res SOCKET_ERROR s1 in
        (if n = SOCKET_ERROR then err_code (win_map_errno s2) else n, s2))"

definition win_sockplat_recvfrom ::
    "'w winsock \<Rightarrow> int \<Rightarrow> nat \<Rightarrow> nat option \<Rightarrow> bool \<Rightarrow> 'w wsys \<Rightarrow> (int \<times> u8 list \<times> string option \<times> u16 option) \<times> 'w wsys" where
  "win_sockplat_recvfrom ws fd len ip_len want_port s =
     (let (r, s1) = ws (W_recvfrom (win_to_sock fd) (min INT_MAX len)) s in
      if w_ret r = SOCKET_ERROR then ((err_code (win_map_errno s1), [], None, None), s1)
      else let peer = (case ip_len of None \<Rightarrow> (None, None)
                       | Some n \<Rightarrow> if n > 0 then snd (addr_to_string (w_addr r) ip_len want_port) else (None, None))
           in ((w_ret r, w_bytes r, peer), s1))"

section \<open>Options\<close>

definition win_sockplat_set_broadcast :: "'w winsock \<Rightarrow> int \<Rightarrow> bool \<Rightarrow> 'w wsys \<Rightarrow> ztk_err \<times> 'w wsys" where
  "win_sockplat_set_broadcast ws fd on = win_set_opt ws fd (SO_BROADCAST (if on then 1 else 0))"

definition win_sockplat_set_multicast_ttl :: "'w winsock \<Rightarrow> int \<Rightarrow> u8 \<Rightarrow> 'w wsys \<Rightarrow> ztk_err \<times> 'w wsys" where
  "win_sockplat_set_multicast_ttl ws fd ttl = win_set_opt ws fd (IP_MULTICAST_TTL ttl)"

definition win_sockplat_set_multicast_if :: "'w winsock \<Rightarrow> int \<Rightarrow> string option \<Rightarrow> 'w wsys \<Rightarrow> ztk_err \<times> 'w wsys" where
  "win_sockplat_set_multicast_if ws fd local_ip = win_set_opt ws fd (IP_MULTICAST_IF (multicast_if_addr local_ip))"

definition win_sockplat_set_multicast_loop :: "'w winsock \<Rightarrow> int \<Rightarrow> bool \<Rightarrow> 'w wsys \<Rightarrow> ztk_err \<times> 'w wsys" where
  "win_sockplat_set_multicast_loop ws fd on = win_set_opt ws fd (IP_MULTICAST_LOOP (if on then 1 else 0))"

definition win_group_opt :: "'w winsock \<Rightarrow> int \<Rightarrow> sockopt \<Rightarrow> 'w wsys \<Rightarrow> ztk_err \<times> 'w wsys" where
  "win_group_opt ws fd opt s =
     (let (r, s1) = ws (W_setsockopt (win_to_sock fd) opt) s in (if w_ret r \<noteq> 0 then win_map_errno s1 else ZTK_OK, s1))"

definition win_sockplat_join_multicast ::
    "'w winsock \<Rightarrow> int \<Rightarrow> string \<Rightarrow> string option \<Rightarrow> 'w wsys \<Rightarrow> ztk_err \<times> 'w wsys" where
  "win_sockplat_join_multicast ws fd grp local_if =
     win_group_opt ws fd (IP_ADD_MEMBERSHIP (Inet_addr grp) (multicast_if_addr local_if))"

definition win_sockplat_leave_multicast ::
    "'w winsock \<Rightarrow> int \<Rightarrow> string \<Rightarrow> string option \<Rightarrow> 'w wsys \<Rightarrow> ztk_err \<times> 'w wsys" where
  "win_sockplat_leave_multicast ws fd grp local_if =
     win_group_opt ws fd (IP_DROP_MEMBERSHIP (Inet_addr grp) (multicast_if_addr local_if))"

text \<open>The headers of Winsock define the options for source-specific groups, so the fallbacks are not compiled.\<close>

definition win_sockplat_join_multicast_filter ::
    "'w winsock \<Rightarrow> int \<Rightarrow> string \<Rightarrow> string \<Rightarrow> string option \<Rightarrow> 'w wsys \<Rightarrow> ztk_err \<times> 'w wsys" where
  "win_sockplat_join_multicast_filter ws fd grp src_ip local_if =
     win_group_opt ws fd (IP_ADD_SOURCE_MEMBERSHIP (Inet_addr grp) (Inet_addr src_ip) (multicast_if_addr local_if))"

definition win_sockplat_leave_multicast_filter ::
    "'w winsock \<Rightarrow> int \<Rightarrow> string \<Rightarrow> string \<Rightarrow> string option \<Rightarrow> 'w wsys \<Rightarrow> ztk_err \<times> 'w wsys" where
  "win_sockplat_leave_multicast_filter ws fd grp src_ip local_if =
     win_group_opt ws fd (IP_DROP_SOURCE_MEMBERSHIP (Inet_addr grp) (Inet_addr src_ip) (multicast_if_addr local_if))"

section \<open>Winsock's contract on sockets\<close>

text \<open>
  \<open>opn w\<close> is the set of open sockets of the process. A new socket is not in use and its number is below
  \<open>2 ^ 31\<close>, which is what the interface needs to pass it as an \<^verbatim>\<open>int\<close>; \<^verbatim>\<open>closesocket\<close> releases its
  argument; all other calls leave the table alone.
\<close>

definition fits_int :: "sock \<Rightarrow> bool" where
  "fits_int k \<longleftrightarrow> k < 2 ^ 31"

definition wopens :: "('w \<Rightarrow> sock set) \<Rightarrow> 'w \<Rightarrow> 'w \<Rightarrow> sock \<Rightarrow> bool" where
  "wopens opn w w' k \<longleftrightarrow>
     (if k = INVALID_SOCKET then opn w' = opn w
      else fits_int k \<and> k \<notin> opn w \<and> opn w' = insert k (opn w))"

definition sock_effect :: "('w \<Rightarrow> sock set) \<Rightarrow> wcall \<Rightarrow> 'w \<Rightarrow> wres \<Rightarrow> 'w \<Rightarrow> bool" where
  "sock_effect opn c w r w' \<longleftrightarrow>
     (case c of
        W_socket _ _ _ \<Rightarrow> wopens opn w w' (w_sock r)
      | W_accept _ \<Rightarrow> wopens opn w w' (w_sock r)
      | W_closesocket k \<Rightarrow> opn w' = opn w - {k}
      | _ \<Rightarrow> opn w' = opn w)"

definition socks_ok :: "'w winsock \<Rightarrow> ('w \<Rightarrow> sock set) \<Rightarrow> bool" where
  "socks_ok ws opn \<longleftrightarrow> (\<forall>c s. sock_effect opn c (wworld s) (fst (ws c s)) (wworld (snd (ws c s))))"

lemma socks_okD: "socks_ok ws opn \<Longrightarrow> sock_effect opn c (wworld s) (fst (ws c s)) (wworld (snd (ws c s)))"
  by (simp add: socks_ok_def)

text \<open>A socket below \<open>2 ^ 31\<close> survives the way through \<^verbatim>\<open>int\<close>.\<close>

lemma to_fd_nonneg:
  assumes "fits_int k"
  shows "to_fd k = uint k" and "0 \<le> to_fd k" and "to_fd k < 2 ^ 31"
proof -
  have u: "uint k < 2 ^ 31"
    using assms by (simp add: fits_int_def word_less_def)
  have "take_bit 32 (uint k) = uint k"
    using u by (intro take_bit_int_eq_self) auto
  moreover have "signed_take_bit 31 (uint k) = uint k"
    using u order_trans [OF _ uint_ge_0, of "- 2147483648" k] by (intro signed_take_bit_int_eq_self) auto
  ultimately show "to_fd k = uint k"
    by (simp add: to_fd_def sint_uint unsigned_ucast_eq)
  then show "0 \<le> to_fd k" "to_fd k < 2 ^ 31"
    using u by simp_all
qed

lemma to_sock_to_fd: "fits_int k \<Longrightarrow> win_to_sock (to_fd k) = k"
  by (simp add: to_fd_nonneg(1) win_to_sock_def)

lemma fits_int_to_sock: "0 \<le> fd \<Longrightarrow> fd < 2 ^ 31 \<Longrightarrow> fits_int (win_to_sock fd)"
  by (simp add: fits_int_def win_to_sock_def word_less_def uint_word_of_int)

lemma to_fd_to_sock: "0 \<le> fd \<Longrightarrow> fd < 2 ^ 31 \<Longrightarrow> to_fd (win_to_sock fd) = fd"
  by (simp add: to_fd_nonneg(1) fits_int_to_sock) (simp add: win_to_sock_def uint_word_of_int)

lemma invalid_not_small [simp]: "\<not> fits_int INVALID_SOCKET"
  by (simp add: fits_int_def INVALID_SOCKET_def)

named_theorems sock_keep \<open>operations that leave the sockets alone\<close>

lemma winsock_keep_calls [sock_keep]:
  assumes "socks_ok ws opn"
  shows "opn (wworld (snd (ws (W_nonblock k on) s))) = opn (wworld s)"
    and "opn (wworld (snd (ws (W_no_inherit k) s))) = opn (wworld s)"
    and "opn (wworld (snd (ws (W_setsockopt k so) s))) = opn (wworld s)"
    and "opn (wworld (snd (ws (W_getaddrinfo h p i j b) s))) = opn (wworld s)"
    and "opn (wworld (snd (ws (W_bind k a) s))) = opn (wworld s)"
    and "opn (wworld (snd (ws (W_listen k n) s))) = opn (wworld s)"
    and "opn (wworld (snd (ws (W_connect k a) s))) = opn (wworld s)"
  using socks_okD [OF assms, of "W_nonblock k on" s] socks_okD [OF assms, of "W_no_inherit k" s]
    socks_okD [OF assms, of "W_setsockopt k so" s] socks_okD [OF assms, of "W_getaddrinfo h p i j b" s]
    socks_okD [OF assms, of "W_bind k a" s] socks_okD [OF assms, of "W_listen k n" s]
    socks_okD [OF assms, of "W_connect k a" s]
  by (simp_all add: sock_effect_def)

lemmas win_opts_defs =
  win_ok_def win_set_nonblock_def win_set_cloexec_def win_set_opt_def win_set_reuseaddr_def
  win_set_reuseport_def win_set_nodelay_def

lemma win_opts_keep [sock_keep]:
  assumes "socks_ok ws opn"
  shows "opn (wworld (snd (win_set_reuseaddr ws fd on s))) = opn (wworld s)"
    and "opn (wworld (snd (win_set_reuseport ws rp fd on s))) = opn (wworld s)"
    and "opn (wworld (snd (win_sockplat_apply_tcp_server_opts ws fd s))) = opn (wworld s)"
    and "opn (wworld (snd (win_sockplat_apply_tcp_client_opts ws fd s))) = opn (wworld s)"
    and "opn (wworld (snd (win_sockplat_apply_udp_opts ws fd s))) = opn (wworld s)"
  by (simp_all add: win_opts_defs win_sockplat_apply_tcp_server_opts_def win_sockplat_apply_tcp_client_opts_def
      win_sockplat_apply_udp_opts_def Let_def split_def sock_keep [OF assms])

lemma win_resolve_keep:
  assumes "socks_ok ws opn"
  shows "opn (wworld (snd (win_resolve ws h p fam ty pas s))) = opn (wworld s)"
  by (simp add: win_resolve_def Let_def split_def sock_keep [OF assms])

lemma win_resolve_code: "fst (fst (win_resolve ws h p fam ty pas s)) \<in> {ZTK_OK, ZTK_ERR_IO}"
  by (simp add: win_resolve_def Let_def split_def)

lemma win_close_next_socks: "socks_ok ws opn \<Longrightarrow> opn (wworld (win_close_next ws k s)) = opn (wworld s) - {k}"
  using socks_okD [of ws opn "W_closesocket k" s] by (simp add: win_close_next_def sock_effect_def)

text \<open>One attempt at an address: a socket is opened, and either kept or closed again.\<close>

lemma wopens_from: "opn w1 = opn w \<Longrightarrow> wopens opn w1 w2 k \<Longrightarrow> wopens opn w w2 k"
  by (auto simp: wopens_def split: if_splits)

lemma wopens_valid:
  "wopens opn w w' k \<Longrightarrow> k \<noteq> INVALID_SOCKET \<Longrightarrow> fits_int k \<and> k \<notin> opn w \<and> opn w' = insert k (opn w)"
  by (simp add: wopens_def)

lemma wopens_invalid: "wopens opn w w' k \<Longrightarrow> k = INVALID_SOCKET \<Longrightarrow> opn w' = opn w"
  by (simp add: wopens_def)

lemma wopensI: "fits_int k \<Longrightarrow> k \<notin> opn w \<Longrightarrow> opn w' = insert k (opn w) \<Longrightarrow> wopens opn w w' k"
  by (auto simp: wopens_def)

lemma winsock_opens:
  assumes "socks_ok ws opn"
  shows "wopens opn (wworld s) (wworld (snd (ws (W_socket a b c) s))) (w_sock (fst (ws (W_socket a b c) s)))"
    and "wopens opn (wworld s) (wworld (snd (ws (W_accept l) s))) (w_sock (fst (ws (W_accept l) s)))"
  using socks_okD [OF assms, of "W_socket a b c" s] socks_okD [OF assms, of "W_accept l" s]
  by (simp_all add: sock_effect_def)

lemma win_listen_loop_socks:
  assumes "socks_ok ws opn" and "k = INVALID_SOCKET"
  shows "wopens opn (wworld s) (wworld (snd (win_listen_loop ws bl ps k s))) (fst (win_listen_loop ws bl ps k s))"
  using assms(2)
proof (induction ps arbitrary: k s)
  case Nil
  then show ?case by (simp add: wopens_def)
next
  case (Cons p ps)
  note so = winsock_opens(1) [OF assms(1), of s "ai_family p" "ai_socktype p" "ai_protocol p"]
  note IH = wopens_from [where opn = opn and w = "wworld s", OF _ Cons.IH]
  show ?case
    using wopens_valid [OF so] wopens_invalid [OF so]
    by (simp add: Let_def split_def sock_keep [OF assms(1)] win_close_next_socks [OF assms(1)] IH wopensI)
qed

lemma win_bind_udp_loop_socks:
  assumes "socks_ok ws opn" and "k = INVALID_SOCKET"
  shows "wopens opn (wworld s) (wworld (snd (win_bind_udp_loop ws hrp ra rp ps k s)))
           (fst (win_bind_udp_loop ws hrp ra rp ps k s))"
  using assms(2)
proof (induction ps arbitrary: k s ra rp)
  case Nil
  then show ?case by (simp add: wopens_def)
next
  case (Cons p ps)
  note so = winsock_opens(1) [OF assms(1), of s "ai_family p" "ai_socktype p" "ai_protocol p"]
  note IH = wopens_from [where opn = opn and w = "wworld s", OF _ Cons.IH]
  show ?case
    using wopens_valid [OF so] wopens_invalid [OF so]
    by (simp add: Let_def split_def sock_keep [OF assms(1)] win_close_next_socks [OF assms(1)] IH wopensI)
qed

lemma win_connect_loop_socks:
  assumes "socks_ok ws opn" and "k = INVALID_SOCKET"
  shows "wopens opn (wworld s) (wworld (snd (win_connect_loop ws ps k s))) (fst (fst (win_connect_loop ws ps k s)))"
  using assms(2)
proof (induction ps arbitrary: k s)
  case Nil
  then show ?case by (simp add: wopens_def)
next
  case (Cons p ps)
  note so = winsock_opens(1) [OF assms(1), of s "ai_family p" "ai_socktype p" "ai_protocol p"]
  note IH = wopens_from [where opn = opn and w = "wworld s", OF _ Cons.IH]
  show ?case
    using wopens_valid [OF so] wopens_invalid [OF so]
    by (simp add: Let_def split_def sock_keep [OF assms(1)] win_close_next_socks [OF assms(1)] IH wopensI)
qed

text \<open>
  The descriptors the users of the layer see, and the promise of an opening operation in terms of
  them: success hands over one new descriptor, failure leaves the sockets as they were.
\<close>

definition win_fds :: "('w \<Rightarrow> sock set) \<Rightarrow> 'w wsys \<Rightarrow> int set" where
  "win_fds opn s = {fd. 0 \<le> fd \<and> fd < 2 ^ 31 \<and> win_to_sock fd \<in> opn (wworld s)}"

definition win_hands_over :: "('w \<Rightarrow> sock set) \<Rightarrow> 'w wsys \<Rightarrow> ztk_err \<Rightarrow> int option \<Rightarrow> 'w wsys \<Rightarrow> bool" where
  "win_hands_over opn s e fd s' \<longleftrightarrow>
     (case fd of None \<Rightarrow> e \<noteq> ZTK_OK \<and> opn (wworld s') = opn (wworld s)
      | Some f \<Rightarrow> e = ZTK_OK \<and> 0 \<le> f \<and> f < 2 ^ 31 \<and> win_to_sock f \<notin> opn (wworld s) \<and>
          opn (wworld s') = insert (win_to_sock f) (opn (wworld s)))"

lemma win_map_errno_not_ok [simp]: "win_map_errno s \<noteq> ZTK_OK"
  by (simp add: win_map_errno_def win_map_wsa_def)

lemma wopens_hands_over:
  assumes "wopens opn (wworld s) (wworld s') k" and "k \<noteq> INVALID_SOCKET"
  shows "win_hands_over opn s ZTK_OK (Some (to_fd k)) s'"
  using wopens_valid [OF assms] to_fd_nonneg(3) [of k] by (auto simp: win_hands_over_def to_sock_to_fd to_fd_nonneg(2))

lemma wopens_fails:
  assumes "wopens opn (wworld s) (wworld s') INVALID_SOCKET" and "e \<noteq> ZTK_OK"
  shows "win_hands_over opn s e None s'"
  using assms by (simp add: win_hands_over_def wopens_def)

lemma win_keep_fails: "e \<noteq> ZTK_OK \<Longrightarrow> opn (wworld s') = opn (wworld s) \<Longrightarrow> win_hands_over opn s e None s'"
  by (simp add: win_hands_over_def)

lemma win_sockplat_listen_socks:
  assumes "socks_ok ws opn" and "win_sockplat_listen ws host port bl s = ((e, fd), s')"
  shows "win_hands_over opn s e fd s'"
proof -
  let ?r = "win_resolve_bind ws host port SOCK_STREAM True s"
  have k: "opn (wworld (snd ?r)) = opn (wworld s)"
    unfolding win_resolve_bind_def by (rule win_resolve_keep [OF assms(1)])
  note o = wopens_from [OF k win_listen_loop_socks [OF assms(1) refl, of "snd ?r" bl "snd (fst ?r)"]]
  show ?thesis
    using assms(2) k wopens_hands_over [where s' = s', of opn s] wopens_fails [where s' = s', of opn s] o
    by (auto simp: win_sockplat_listen_def win_bind_and_listen_def Let_def split_def win_keep_fails split: if_splits)
qed

lemma win_sockplat_bind_udp_socks:
  assumes "socks_ok ws opn" and "win_sockplat_bind_udp ws hrp host port ra rp s = ((e, fd), s')"
  shows "win_hands_over opn s e fd s'"
proof -
  let ?r = "win_resolve_bind ws host port SOCK_DGRAM True s"
  have k: "opn (wworld (snd ?r)) = opn (wworld s)"
    unfolding win_resolve_bind_def by (rule win_resolve_keep [OF assms(1)])
  note o = wopens_from [OF k win_bind_udp_loop_socks [OF assms(1) refl, of "snd ?r" hrp ra rp "snd (fst ?r)"]]
  show ?thesis
    using assms(2) k wopens_hands_over [where s' = s', of opn s] wopens_fails [where s' = s', of opn s] o
    by (auto simp: win_sockplat_bind_udp_def Let_def split_def win_keep_fails split: if_splits)
qed

lemma win_sockplat_connect_socks:
  assumes "socks_ok ws opn" and "win_sockplat_connect ws host port s = ((e, fd, pend), s')"
  shows "win_hands_over opn s e fd s'"
proof (cases host)
  case None
  with assms(2) show ?thesis by (auto simp: win_sockplat_connect_def win_hands_over_def)
next
  case (Some h)
  let ?r = "win_resolve_connect ws h port s"
  have k: "opn (wworld (snd ?r)) = opn (wworld s)"
    unfolding win_resolve_connect_def by (rule win_resolve_keep [OF assms(1)])
  note o = wopens_from [OF k win_connect_loop_socks [OF assms(1) refl, of "snd ?r" "snd (fst ?r)"]]
  show ?thesis
    using assms(2) Some k wopens_hands_over [where s' = s', of opn s] wopens_fails [where s' = s', of opn s] o
    by (auto simp: win_sockplat_connect_def Let_def split_def win_keep_fails split: if_splits)
qed

lemma win_sockplat_accept_socks:
  assumes "socks_ok ws opn" and "win_sockplat_accept ws l s = ((e, fd), s')"
  shows "win_hands_over opn s e fd s'"
proof -
  let ?a = "ws (W_accept (win_to_sock l)) s"
  note o = winsock_opens(2) [OF assms(1), of s "win_to_sock l"]
  have *: "wopens opn (wworld s) (wworld s') (w_sock (fst ?a))"
    using o assms(2) sock_keep [OF assms(1)]
    by (auto simp: win_sockplat_accept_def wopens_def Let_def split_def split: if_splits)
  show ?thesis
    using assms(2) wopens_hands_over [OF *] wopens_fails [where s' = s', of opn s] *
    by (auto simp: win_sockplat_accept_def Let_def split_def split: if_splits)
qed

lemma win_sockplat_close_socks:
  assumes "socks_ok ws opn" and "0 \<le> fd" and "fd < 2 ^ 31"
  shows "opn (wworld (snd (win_sockplat_close ws fd s))) = opn (wworld s) - {win_to_sock fd}"
proof -
  have "win_to_sock fd \<noteq> INVALID_SOCKET"
    using fits_int_to_sock [OF assms(2,3)] by auto
  then show ?thesis
    using win_close_next_socks [OF assms(1), of "win_to_sock fd" s] assms(2)
    by (simp add: win_sockplat_close_def win_close_next_def Let_def split_def)
qed

text \<open>Where \<^verbatim>\<open>SO_REUSEPORT\<close> is missing, asking for it makes every attempt fail.\<close>

lemma win_no_reuseport: "fst (win_bind_udp_loop ws False ra True ps INVALID_SOCKET s) = INVALID_SOCKET"
proof (induction ps arbitrary: s)
  case (Cons p ps)
  then show ?case by (simp add: Let_def split_def win_set_reuseport_def)
qed simp

lemma win_bind_udp_reuseport:
  "fst (fst (win_sockplat_bind_udp ws False host port ra True s)) \<noteq> ZTK_OK"
  by (simp add: win_sockplat_bind_udp_def Let_def split_def win_no_reuseport)

section \<open>Winsock's contract on byte streams\<close>

text \<open>
  \<open>wire w k\<close> is everything Winsock has accepted for transmission on \<open>k\<close>. A send of at least one byte either
  fails and takes nothing, or takes a non-empty prefix.
\<close>

definition send_effect :: "('w \<Rightarrow> sock \<Rightarrow> mem) \<Rightarrow> sock \<Rightarrow> mem \<Rightarrow> 'w \<Rightarrow> int \<Rightarrow> 'w \<Rightarrow> bool" where
  "send_effect wire k m w n w' \<longleftrightarrow>
     (if n = SOCKET_ERROR then wire w' = wire w
      else 0 < n \<and> nat n \<le> length m \<and> wire w' = (wire w)(k := wire w k @ take (nat n) m))"

definition wsends_ok :: "'w winsock \<Rightarrow> ('w \<Rightarrow> sock \<Rightarrow> mem) \<Rightarrow> bool" where
  "wsends_ok ws wire \<longleftrightarrow>
     (\<forall>k m s. m \<noteq> [] \<longrightarrow>
        send_effect wire k m (wworld s) (w_ret (fst (ws (W_send k m) s))) (wworld (snd (ws (W_send k m) s))))"

text \<open>
  The promise of a send as the callers use it: a positive result counts the bytes taken from the front
  of the data, any other result means that nothing was taken.
\<close>

definition win_takes :: "('w \<Rightarrow> sock \<Rightarrow> mem) \<Rightarrow> 'w wsys \<Rightarrow> 'w wsys \<Rightarrow> sock \<Rightarrow> mem \<Rightarrow> int \<Rightarrow> bool" where
  "win_takes wire s s' k m n \<longleftrightarrow>
     (if 0 < n then nat n \<le> length m \<and> wire (wworld s') = (wire (wworld s))(k := wire (wworld s) k @ take (nat n) m)
      else wire (wworld s') = wire (wworld s))"

lemma win_err_code_errno [simp]: "\<not> 0 < err_code (win_map_errno s)" "err_code (win_map_errno s) \<le> 0"
  using err_code_neg [OF win_map_errno_not_ok [of s]] by linarith+

lemma win_sockplat_send_takes:
  assumes "wsends_ok ws wire" and "m \<noteq> []" and "win_sockplat_send ws fd m s = (n, s')"
  shows "win_takes wire s s' (win_to_sock fd) m n"
proof -
  have ne: "take INT_MAX m \<noteq> []"
    using assms(2) by (simp add: INT_MAX_def)
  show ?thesis
    using assms(1) [unfolded wsends_ok_def, rule_format, OF ne, of "win_to_sock fd" s] assms(3)
    by (auto simp: win_sockplat_send_def win_io_def win_takes_def send_effect_def Let_def split_def
        split: if_splits)
qed

lemma win_sendv_nil [simp]: "win_sendv_loop ws fd [] sent s = Some (int sent, s)"
  by (subst win_sendv_loop.simps) simp

lemma win_sendv_skip [simp]: "win_sendv_loop ws fd ([] # ms) sent s = win_sendv_loop ws fd ms sent s"
  by (subst win_sendv_loop.simps) simp

lemma win_sendv_send:
  assumes "m \<noteq> []"
  shows "win_sendv_loop ws fd (m # ms) sent s =
     (let rs = ws (W_send (win_to_sock fd) (take INT_MAX m)) s; n = w_ret (fst rs) in
      if n = SOCKET_ERROR then Some (if 0 < sent then int sent else err_code (win_map_errno (snd rs)), snd rs)
      else win_sendv_loop ws fd (drop (nat n) m # ms) (sent + nat n) (snd rs))"
  using assms by (subst win_sendv_loop.simps) simp

text \<open>
  What the loop leaves: it returns, with the bytes that went out a prefix of the buffers in their order,
  \<open>sent\<close> bytes before this point and \<open>d\<close> from here on.
\<close>

definition sendv_done ::
    "('w \<Rightarrow> sock \<Rightarrow> mem) \<Rightarrow> sock \<Rightarrow> mem \<Rightarrow> nat \<Rightarrow> 'w wsys \<Rightarrow> (int \<times> 'w wsys) option \<Rightarrow> bool" where
  "sendv_done wire k m sent s res \<longleftrightarrow>
     (\<exists>n s' d. res = Some (n, s') \<and> d \<le> length m \<and>
        wire (wworld s') = (wire (wworld s))(k := wire (wworld s) k @ take d m) \<and>
        (if 0 < sent + d then n = int (sent + d) else n \<le> 0))"

lemma sendv_done_stop:
  "wire (wworld s') = wire (wworld s) \<Longrightarrow> n \<le> 0 \<Longrightarrow>
    sendv_done wire k m sent s (Some (if 0 < sent then int sent else n, s'))"
  unfolding sendv_done_def by (intro exI [of _ "if 0 < sent then int sent else n"] exI [of _ s'] exI [of _ 0]) simp

lemma sendv_done_step:
  assumes "sendv_done wire k (drop j m @ ms) (sent + j) s1 res"
    and "wire (wworld s1) = (wire (wworld s))(k := wire (wworld s) k @ take j m)" and "0 < j" and "j \<le> length m"
  shows "sendv_done wire k (m @ ms) sent s res"
proof -
  obtain n s' d where "res = Some (n, s')" "d \<le> length (drop j m @ ms)" "n = int (sent + j + d)"
    "wire (wworld s') = (wire (wworld s1))(k := wire (wworld s1) k @ take d (drop j m @ ms))"
    using assms(1,3) by (auto simp: sendv_done_def)
  moreover have "take (j + d) (m @ ms) = take j m @ take d (drop j m @ ms)"
    using assms(4) take_add [of j d "m @ ms"] by simp
  ultimately show ?thesis
    using assms(2-4) unfolding sendv_done_def
    by (intro exI [of _ n] exI [of _ s'] exI [of _ "j + d"]) auto
qed

lemma win_sendv_loop_returns:
  assumes "wsends_ok ws wire"
  shows "sendv_done wire (win_to_sock fd) (concat iov) sent s (win_sendv_loop ws fd iov sent s)"
proof (induction "length (concat iov) + length iov" arbitrary: iov sent s rule: less_induct)
  case less
  consider "iov = []" | ms where "iov = [] # ms" | m ms where "iov = m # ms" "m \<noteq> []"
    by (metis neq_Nil_conv)
  then show ?case
  proof cases
    case 1
    then show ?thesis by (auto simp: sendv_done_def)
  next
    case 2
    then show ?thesis using less [of ms sent s] by simp
  next
    case 3
    let ?rs = "ws (W_send (win_to_sock fd) (take INT_MAX m)) s"
    let ?n = "w_ret (fst ?rs)"
    have "take INT_MAX m \<noteq> []"
      using 3 by (simp add: INT_MAX_def)
    note e = assms [unfolded wsends_ok_def, rule_format, OF this, of "win_to_sock fd" s]
    show ?thesis
    proof (cases "?n = SOCKET_ERROR")
      case True
      with e 3 show ?thesis by (simp add: win_sendv_send Let_def send_effect_def sendv_done_stop)
    next
      case False
      with e have n: "0 < nat ?n" "nat ?n \<le> length m"
        and w: "wire (wworld (snd ?rs)) =
          (wire (wworld s))(win_to_sock fd := wire (wworld s) (win_to_sock fd) @ take (nat ?n) m)"
        by (auto simp: send_effect_def)
      then show ?thesis
        using less [of "drop (nat ?n) m # ms" "sent + nat ?n" "snd ?rs"] 3 False
        by (simp add: win_sendv_send Let_def sendv_done_step [OF _ w n])
    qed
  qed
qed

lemma win_sockplat_sendv_takes:
  assumes "wsends_ok ws wire"
  obtains n s' where "win_sockplat_sendv ws fd iov s = Some (n, s')" and "win_takes wire s s' (win_to_sock fd) (concat iov) n"
proof (cases "iov = []")
  case True
  with that show ?thesis by (simp add: win_sockplat_sendv_def win_takes_def)
next
  case False
  obtain n s' d where "win_sendv_loop ws fd iov 0 s = Some (n, s')" "d \<le> length (concat iov)"
    "wire (wworld s') = (wire (wworld s))(win_to_sock fd := wire (wworld s) (win_to_sock fd) @ take d (concat iov))"
    "if 0 < d then n = int d else n \<le> 0"
    using win_sendv_loop_returns [OF assms, of fd iov 0 s] by (auto simp: sendv_done_def)
  then show ?thesis
    using False by (intro that [of n s']) (auto simp: win_sockplat_sendv_def win_takes_def split: if_splits)
qed

section \<open>A sample Winsock\<close>

text \<open>
  A small executable Winsock that meets both contracts, for evaluating the model: sockets are multiples
  of four, each send consumes one number of a script that says how many bytes it accepts (none left, or
  not positive: \<^verbatim>\<open>WSAEWOULDBLOCK\<close>).
\<close>

record wkern =
  wk_open :: "sock list"
  wk_next :: sock
  wk_wire :: "sock \<Rightarrow> mem"
  wk_script :: "int list"

definition wk_res :: "int \<Rightarrow> sock \<Rightarrow> wres" where
  "wk_res n k = \<lparr>w_ret = n, w_sock = k,
     w_addrs = [\<lparr>ai_family = 2, ai_socktype = 1, ai_protocol = 0, ai_addr = SA_inet ''127.0.0.1'' 80\<rparr>],
     w_addr = SA_inet ''127.0.0.1'' 80, w_bytes = [], w_errval = WSA_NONE\<rparr>"

definition wk_open_one :: "wkern wsys \<Rightarrow> wres \<times> wkern wsys" where
  "wk_open_one s =
     (let k = wk_next (wworld s) in
      if fits_int k \<and> k \<notin> set (wk_open (wworld s))
      then (wk_res 0 k, s\<lparr>wworld := (wworld s)\<lparr>wk_open := k # wk_open (wworld s), wk_next := k + 4\<rparr>\<rparr>)
      else (wk_res (- 1) INVALID_SOCKET, s\<lparr>wsa_last := WSA_OTHER 10024\<rparr>))"

definition wk_take :: "sock \<Rightarrow> mem \<Rightarrow> wkern wsys \<Rightarrow> wres \<times> wkern wsys" where
  "wk_take k m s =
     (let w = wworld s; j = (case wk_script w of [] \<Rightarrow> 0 | n # _ \<Rightarrow> min (nat n) (length m)) in
      if j = 0 then (wk_res SOCKET_ERROR 0, s\<lparr>wsa_last := WSAEWOULDBLOCK, wworld := w\<lparr>wk_script := tl (wk_script w)\<rparr>\<rparr>)
      else (wk_res (int j) 0,
        s\<lparr>wworld := w\<lparr>wk_script := tl (wk_script w), wk_wire := (wk_wire w)(k := wk_wire w k @ take j m)\<rparr>\<rparr>))"

definition wk_ws :: "wkern winsock" where
  "wk_ws c s =
     (case c of
        W_socket _ _ _ \<Rightarrow> wk_open_one s
      | W_accept _ \<Rightarrow> wk_open_one s
      | W_closesocket k \<Rightarrow> (wk_res 0 0, s\<lparr>wworld := (wworld s)\<lparr>wk_open := filter (\<lambda>f. f \<noteq> k) (wk_open (wworld s))\<rparr>\<rparr>)
      | W_send k m \<Rightarrow> wk_take k m s
      | W_no_inherit _ \<Rightarrow> (wk_res 1 0, s)
      | _ \<Rightarrow> (wk_res 0 0, s))"

lemma wk_res_simps [simp]: "w_ret (wk_res n k) = n" "w_sock (wk_res n k) = k"
  by (simp_all add: wk_res_def)

lemma wk_open_one_opens:
  "wopens (set \<circ> wk_open) (wworld s) (wworld (snd (wk_open_one s))) (w_sock (fst (wk_open_one s)))"
  by (auto simp: wk_open_one_def wopens_def Let_def)

lemma wk_take_keeps: "wk_open (wworld (snd (wk_take k m s))) = wk_open (wworld s)"
  by (simp add: wk_take_def Let_def)

lemma wk_socks_ok: "socks_ok wk_ws (set \<circ> wk_open)"
  unfolding socks_ok_def
proof (intro allI)
  fix c s
  show "sock_effect (set \<circ> wk_open) c (wworld s) (fst (wk_ws c s)) (wworld (snd (wk_ws c s)))"
    by (cases c) (auto simp: wk_ws_def sock_effect_def wk_open_one_opens wk_take_keeps)
qed

lemma wk_wsends_ok: "wsends_ok wk_ws wk_wire"
  by (auto simp: wsends_ok_def wk_ws_def wk_take_def send_effect_def SOCKET_ERROR_def Let_def split: list.splits)

definition wk_start :: "int list \<Rightarrow> wkern wsys" where
  "wk_start script = \<lparr>wsa_last = WSA_NONE,
     wworld = \<lparr>wk_open = [8], wk_next = 12, wk_wire = (\<lambda>_. []), wk_script = script\<rparr>\<rparr>"

section \<open>Property\<close>

text \<open>
  C40. The gathering send of the Windows layer is a loop over plain sends that stops only at an error or at
  the end. Provided a send of at least one byte either fails or takes a non-empty prefix, it returns for
  every list of buffers, empty ones included: a positive result counts the bytes that went out, which are
  the front of the buffers in their order, and any other result means that nothing went out, so that an error
  after a partial send is not reported and no byte is sent twice or skipped when the caller goes on from the count.
\<close>

theorem win_sendv_in_order:
  assumes "wsends_ok ws wire"
  shows "\<exists>n s'. win_sockplat_sendv ws fd iov s = Some (n, s') \<and>
           win_takes wire s s' (win_to_sock fd) (concat iov) n"
  using win_sockplat_sendv_takes [OF assms, of fd iov s] by blast

theorem win_sendv_in_order_witness:
  "wsends_ok wk_ws wk_wire \<and>
   (\<exists>s'. win_sockplat_sendv wk_ws 8 [[Some 1, Some 2], [], [Some 3, Some 4]] (wk_start [1, 5, 1]) = Some (3, s') \<and>
      wk_wire (wworld s') 8 = [Some 1, Some 2, Some 3])"
proof -
  have r: "map_option fst (win_sockplat_sendv wk_ws 8 [[Some 1, Some 2], [], [Some 3, Some 4]] (wk_start [1, 5, 1])) = Some 3"
    by (simp add: win_sockplat_sendv_def win_sendv_send wk_ws_def wk_take_def wk_start_def INT_MAX_def
        SOCKET_ERROR_def Let_def)
  obtain n s' where "win_sockplat_sendv wk_ws 8 [[Some 1, Some 2], [], [Some 3, Some 4]] (wk_start [1, 5, 1]) = Some (n, s')"
    and "win_takes wk_wire (wk_start [1, 5, 1]) s' (win_to_sock 8) (concat [[Some 1, Some 2], [], [Some 3, Some 4]]) n"
    using win_sendv_in_order [OF wk_wsends_ok, of 8 "[[Some 1, Some 2], [], [Some 3, Some 4]]" "wk_start [1, 5, 1]"] by blast
  with r show ?thesis
    using wk_wsends_ok by (auto simp: win_takes_def wk_start_def win_to_sock_def)
qed

end
