(* ===== verification/Sock_Platform.thy ===== *)
theory Sock_Platform
  imports Sock_Win32
begin

text \<open>
  The interface \<^verbatim>\<open>internal/sock_platform.h\<close> as far as descriptors go, and its two implementations. \<open>good p\<close>
  says that the system below meets its contract, \<open>fds p s\<close> are the descriptors that are open in \<open>s\<close>, \<open>opener\<close> is any
  of listen, UDP bind, connect and accept with its arguments, \<open>closer\<close> is close.
\<close>

locale descriptor_layer =
  fixes good :: "'p \<Rightarrow> bool"
    and fds :: "'p \<Rightarrow> 's \<Rightarrow> int set"
    and opener :: "'p \<Rightarrow> 'r \<Rightarrow> 's \<Rightarrow> (ztk_err \<times> int option) \<times> 's"
    and closer :: "'p \<Rightarrow> int \<Rightarrow> 's \<Rightarrow> 's"
  assumes opens_new: "good p \<Longrightarrow> opener p r s = ((e, Some fd), s') \<Longrightarrow>
      e = ZTK_OK \<and> fd \<notin> fds p s \<and> fds p s' = insert fd (fds p s)"
    and open_fails: "good p \<Longrightarrow> opener p r s = ((e, None), s') \<Longrightarrow> e \<noteq> ZTK_OK \<and> fds p s' = fds p s"
    and closes: "good p \<Longrightarrow> fd \<in> fds p s \<Longrightarrow> fds p (closer p fd s) = fds p s - {fd}"
begin

text \<open>A client that opens a descriptor and closes it again leaves no trace.\<close>

lemma open_close: "good p \<Longrightarrow> opener p r s = ((e, Some fd), s') \<Longrightarrow> fds p (closer p fd s') = fds p s"
  using opens_new [of p r s e fd s'] closes [of p fd s'] by auto

text \<open>Any number of requests, one after the other; what is collected is new, distinct and open.\<close>

fun open_all :: "'p \<Rightarrow> 'r list \<Rightarrow> 's \<Rightarrow> int list \<times> 's" where
  "open_all p [] s = ([], s)"
| "open_all p (r # rs) s =
     (let ((e, fd), s1) = opener p r s; (fs, s2) = open_all p rs s1
      in (case fd of None \<Rightarrow> fs | Some f \<Rightarrow> f # fs, s2))"

lemma open_all_fds:
  assumes "good p" and "open_all p rs s = (fs, s')"
  shows "distinct fs \<and> set fs \<inter> fds p s = {} \<and> fds p s' = set fs \<union> fds p s"
  using assms(2)
proof (induction rs arbitrary: s fs s')
  case (Cons r rs)
  obtain e fd s1 where o: "opener p r s = ((e, fd), s1)"
    by (metis prod.collapse)
  obtain gs s2 where g: "open_all p rs s1 = (gs, s2)"
    by (metis prod.collapse)
  note IH = Cons.IH [OF g]
  show ?case
  proof (cases fd)
    case None
    with Cons.prems o g IH open_fails [OF assms(1)] show ?thesis by auto
  next
    case (Some f)
    with Cons.prems o g have "fs = f # gs" "s' = s2" by auto
    with IH Some o opens_new [OF assms(1), of r s e f s1] show ?thesis by auto
  qed
qed simp

text \<open>Closing them, in the order they were opened, restores the table.\<close>

lemma close_all_fds:
  assumes "good p" and "distinct fs" and "set fs \<subseteq> fds p s"
  shows "fds p (fold (closer p) fs s) = fds p s - set fs"
  using assms(2,3)
proof (induction fs arbitrary: s)
  case (Cons f fs)
  then have "fds p (closer p f s) = fds p s - {f}"
    by (intro closes [OF assms(1)]) simp
  with Cons show ?case by auto
qed simp

lemma open_close_all:
  assumes "good p" and "open_all p rs s = (fs, s')"
  shows "fds p (fold (closer p) fs s') = fds p s"
  using open_all_fds [OF assms] close_all_fds [OF assms(1), of fs s'] by auto

end

section \<open>Requests\<close>

text \<open>One call of the interface that opens a descriptor, with its arguments.\<close>

datatype open_req =
    Req_listen "string option" u16 int
  | Req_bind_udp "string option" u16 bool bool
  | Req_connect "string option" u16
  | Req_accept int

fun linux_open :: "'w os \<times> ('w \<Rightarrow> int set) \<Rightarrow> open_req \<Rightarrow> 'w sys \<Rightarrow> (ztk_err \<times> int option) \<times> 'w sys" where
  "linux_open (os, opn) (Req_listen host port backlog) s = ztk_sockplat_listen os host port backlog s"
| "linux_open (os, opn) (Req_bind_udp host port ra rp) s = ztk_sockplat_bind_udp os host port ra rp s"
| "linux_open (os, opn) (Req_connect host port) s =
     (case ztk_sockplat_connect os host port s of ((e, fd, pend), s') \<Rightarrow> ((e, fd), s'))"
| "linux_open (os, opn) (Req_accept l) s = ztk_sockplat_accept os l s"

fun win_open ::
    "'w winsock \<times> bool \<times> ('w \<Rightarrow> sock set) \<Rightarrow> open_req \<Rightarrow> 'w wsys \<Rightarrow> (ztk_err \<times> int option) \<times> 'w wsys" where
  "win_open (ws, hrp, opn) (Req_listen host port backlog) s = win_sockplat_listen ws host port backlog s"
| "win_open (ws, hrp, opn) (Req_bind_udp host port ra rp) s = win_sockplat_bind_udp ws hrp host port ra rp s"
| "win_open (ws, hrp, opn) (Req_connect host port) s =
     (case win_sockplat_connect ws host port s of ((e, fd, pend), s') \<Rightarrow> ((e, fd), s'))"
| "win_open (ws, hrp, opn) (Req_accept l) s = win_sockplat_accept ws l s"

lemma linux_open_hands:
  assumes "fds_ok os opn" and "linux_open (os, opn) r s = ((e, fd), s')"
  shows "hands_over opn s e fd s'"
  using assms(2) sockplat_listen_fds [OF assms(1)] sockplat_bind_udp_fds [OF assms(1)]
    sockplat_connect_fds [OF assms(1)] sockplat_accept_fds [OF assms(1)]
  by (cases r) (auto split: prod.splits)

lemma win_open_hands:
  assumes "socks_ok ws opn" and "win_open (ws, hrp, opn) r s = ((e, fd), s')"
  shows "win_hands_over opn s e fd s'"
  using assms(2) win_sockplat_listen_socks [OF assms(1)] win_sockplat_bind_udp_socks [OF assms(1)]
    win_sockplat_connect_socks [OF assms(1)] win_sockplat_accept_socks [OF assms(1)]
  by (cases r) (auto split: prod.splits)

section \<open>The two layers\<close>

text \<open>The descriptors of the process that the layer can name: those that are not negative.\<close>

definition linux_fds :: "('w \<Rightarrow> int set) \<Rightarrow> 'w sys \<Rightarrow> int set" where
  "linux_fds opn s = {fd \<in> op_of opn s. 0 \<le> fd}"

interpretation linux: descriptor_layer
  "\<lambda>(os, opn). fds_ok os opn" "\<lambda>(os, opn). linux_fds opn" linux_open
  "\<lambda>(os, opn) fd s. snd (ztk_sockplat_close os fd s)"
proof
  fix p :: "'w os \<times> ('w \<Rightarrow> int set)" and r s e fd s'
  assume "case p of (os, opn) \<Rightarrow> fds_ok os opn" and "linux_open p r s = ((e, Some fd), s')"
  then show "e = ZTK_OK \<and> fd \<notin> (case p of (os, opn) \<Rightarrow> linux_fds opn) s \<and>
      (case p of (os, opn) \<Rightarrow> linux_fds opn) s' = insert fd ((case p of (os, opn) \<Rightarrow> linux_fds opn) s)"
    by (cases p) (auto dest!: linux_open_hands simp: hands_over_def linux_fds_def)
next
  fix p :: "'w os \<times> ('w \<Rightarrow> int set)" and r s e s'
  assume "case p of (os, opn) \<Rightarrow> fds_ok os opn" and "linux_open p r s = ((e, None), s')"
  then show "e \<noteq> ZTK_OK \<and> (case p of (os, opn) \<Rightarrow> linux_fds opn) s' = (case p of (os, opn) \<Rightarrow> linux_fds opn) s"
    by (cases p) (simp, drule (1) linux_open_hands, simp add: hands_over_def linux_fds_def)
next
  fix p :: "'w os \<times> ('w \<Rightarrow> int set)" and fd s
  assume "case p of (os, opn) \<Rightarrow> fds_ok os opn" and "fd \<in> (case p of (os, opn) \<Rightarrow> linux_fds opn) s"
  then show "(case p of (os, opn) \<Rightarrow> linux_fds opn) ((case p of (os, opn) \<Rightarrow> \<lambda>fd s. snd (ztk_sockplat_close os fd s)) fd s) =
      (case p of (os, opn) \<Rightarrow> linux_fds opn) s - {fd}"
    by (cases p) (auto simp: linux_fds_def sockplat_close_fds)
qed

lemma win_to_sock_eq_iff:
  assumes "0 \<le> a" "a < 2 ^ 31" "0 \<le> b" "b < 2 ^ 31"
  shows "win_to_sock a = win_to_sock b \<longleftrightarrow> a = b"
  using to_fd_to_sock [OF assms(1,2)] to_fd_to_sock [OF assms(3,4)] by metis

interpretation win: descriptor_layer
  "\<lambda>(ws, hrp, opn). socks_ok ws opn" "\<lambda>(ws, hrp, opn). win_fds opn" win_open
  "\<lambda>(ws, hrp, opn) fd s. snd (win_sockplat_close ws fd s)"
proof
  fix p :: "'w winsock \<times> bool \<times> ('w \<Rightarrow> sock set)" and r s e fd s'
  assume "case p of (ws, hrp, opn) \<Rightarrow> socks_ok ws opn" and "win_open p r s = ((e, Some fd), s')"
  then show "e = ZTK_OK \<and> fd \<notin> (case p of (ws, hrp, opn) \<Rightarrow> win_fds opn) s \<and>
      (case p of (ws, hrp, opn) \<Rightarrow> win_fds opn) s' = insert fd ((case p of (ws, hrp, opn) \<Rightarrow> win_fds opn) s)"
    by (cases p) (auto dest!: win_open_hands simp: win_hands_over_def win_fds_def win_to_sock_eq_iff)
next
  fix p :: "'w winsock \<times> bool \<times> ('w \<Rightarrow> sock set)" and r s e s'
  assume "case p of (ws, hrp, opn) \<Rightarrow> socks_ok ws opn" and "win_open p r s = ((e, None), s')"
  then show "e \<noteq> ZTK_OK \<and> (case p of (ws, hrp, opn) \<Rightarrow> win_fds opn) s' = (case p of (ws, hrp, opn) \<Rightarrow> win_fds opn) s"
    by (cases p) (simp, drule (1) win_open_hands, simp add: win_hands_over_def win_fds_def)
next
  fix p :: "'w winsock \<times> bool \<times> ('w \<Rightarrow> sock set)" and fd s
  assume "case p of (ws, hrp, opn) \<Rightarrow> socks_ok ws opn" and "fd \<in> (case p of (ws, hrp, opn) \<Rightarrow> win_fds opn) s"
  then show "(case p of (ws, hrp, opn) \<Rightarrow> win_fds opn) ((case p of (ws, hrp, opn) \<Rightarrow> \<lambda>fd s. snd (win_sockplat_close ws fd s)) fd s) =
      (case p of (ws, hrp, opn) \<Rightarrow> win_fds opn) s - {fd}"
    by (cases p) (auto simp: win_fds_def win_sockplat_close_socks win_to_sock_eq_iff)
qed

text \<open>
  On both systems, a sequence of requests followed by closing what they opened leaves the descriptors as they
  were, whatever requests failed on the way.
\<close>

lemma linux_open_close_all:
  assumes "fds_ok os opn" and "linux.open_all (os, opn) rs s = (fs, s')"
  shows "linux_fds opn (fold (\<lambda>fd s. snd (ztk_sockplat_close os fd s)) fs s') = linux_fds opn s"
  using linux.open_close_all [of "(os, opn)" rs s fs s'] assms by simp

lemma win_open_close_all:
  assumes "socks_ok ws opn" and "win.open_all (ws, hrp, opn) rs s = (fs, s')"
  shows "win_fds opn (fold (\<lambda>fd s. snd (win_sockplat_close ws fd s)) fs s') = win_fds opn s"
  using win.open_close_all [of "(ws, hrp, opn)" rs s fs s'] assms by simp

end
