(* ===== verification/Spec2Isabelle.thy ===== *)
theory Spec2Isabelle
  imports Byte_Buf Linked_Queue Mpsc Rtp_Port Poller_Timer Buf Sock_Linux Poller_Load Tcp_Server Thread_Pool Tcp_Client Udp_Server Tls_Client
    Log Timer_Handle Poller_Select Platform_Linux Sock_Platform
begin

text \<open>
  A verification of the zero-tool-kit library, a C library of event-driven networking: pollers with
  tasks and timers, sockets, TCP and UDP servers and clients, TLS clients, buffers, queues and threads. Everything below is a
  translation of the files under \<^verbatim>\<open>src/\<close> (and the headers under \<^verbatim>\<open>include/ztk/\<close>) into definitions that
  compute, with theorems about them.

  \<^bold>\<open>The program.\<close> A poller (\<^verbatim>\<open>poller_epoll.c\<close>) is a loop over \<^verbatim>\<open>epoll_wait\<close> that serves three things on
  its own thread: descriptors registered with callbacks, a queue of tasks that other threads post
  (\<^verbatim>\<open>poller_task.c\<close>), and a heap of timers (\<^verbatim>\<open>poller_timer.c\<close>); it accounts for the time it spends
  (\<^verbatim>\<open>poller_load.c\<close>), and a pool of pollers (\<^verbatim>\<open>poller_pool.c\<close>) spreads work by that load. Sockets
  (\<^verbatim>\<open>socket.c\<close>) own a descriptor of the platform layer (\<^verbatim>\<open>sock_linux.c\<close>) and register it with a
  poller. A TCP server (\<^verbatim>\<open>tcp_server.c\<close>) accepts connections on a listening socket, gives each session
  to a poller and queues outgoing bytes in reference-counted buffers (\<^verbatim>\<open>buf.c\<close>), whose blocks come
  from size-class pools that belong to pollers (\<^verbatim>\<open>poller_buf.c\<close>). TCP clients (\<^verbatim>\<open>tcp_client.c\<close>) and UDP
  clients (\<^verbatim>\<open>udp_client.c\<close>) wrap one socket each, a UDP server (\<^verbatim>\<open>udp_server.c\<close>) one for every poller; a TLS client (\<^verbatim>\<open>tls_client.c\<close>)
  runs OpenSSL over its socket, configured by a context (\<^verbatim>\<open>ssl_ctx.c\<close>). Timer handles
  (\<^verbatim>\<open>timer.c\<close>) wrap the timers of a poller. On systems without epoll the poller is one over \<^verbatim>\<open>select\<close>
  (\<^verbatim>\<open>poller_select.c\<close>) or a stub. Independent of these are the byte
  buffer, the lock-free MPSC ring, the RTP port pool, the thread pool and the log (\<^verbatim>\<open>log.c\<close>); all rest on the
  wrappers of pthreads and of the system (\<^verbatim>\<open>platform/linux\<close>).

  \<^bold>\<open>Theories and sources.\<close>
  \<^item> \<open>Ztk_Prelude\<close>: machine types, the error codes of \<^verbatim>\<open>ztk_errno.h\<close> and \<^verbatim>\<open>ztk_errno.c\<close>, memory as lists of
    possibly uninitialised bytes, the capacity-doubling loop, and the locale \<open>all_or_nothing\<close> of
    operations that either take effect or report an error and change nothing.
  \<^item> \<open>Byte_Buf\<close>: \<^verbatim>\<open>util/byte_buf.c\<close>. The buffer is a byte sequence with a
    terminating NUL, whatever the allocator answers (locale \<open>byte_queue\<close>).
  \<^item> \<open>Linked_Queue\<close>: the linked list with head and tail that \<^verbatim>\<open>poller_task.c\<close> and \<^verbatim>\<open>thread_pool.c\<close> share
    (locale \<open>linked_queue\<close>).
  \<^item> \<open>Mpsc\<close>: \<^verbatim>\<open>util/mpsc.c\<close>, both as sequential functions and as the step relation \<open>mpsc_step\<close> with one
    atomic access per step (locale \<open>bounded_queue\<close>).
  \<^item> \<open>Rtp_Port\<close>: \<^verbatim>\<open>net/rtp_port.c\<close> (locale \<open>resource_pool\<close>).
  \<^item> \<open>Poller_Task\<close>, \<open>Timer_Heap\<close>, \<open>Poller_Timer\<close>: \<^verbatim>\<open>poller_task.c\<close> and \<^verbatim>\<open>poller_timer.c\<close>. The locale
    \<open>task_runner\<close> is what a task owes the poller that runs it, \<open>min_queue\<close> what the heap of timers
    promises.
  \<^item> \<open>Buf\<close>, \<open>Buf_Refs\<close>: \<^verbatim>\<open>util/buf.c\<close> and \<^verbatim>\<open>poller/poller_buf.c\<close> over a heap of blocks; \<open>Buf_Refs\<close> counts the
    references that clients hold.
  \<^item> \<open>Sock_Linux\<close>: \<^verbatim>\<open>net/linux/sock_linux.c\<close> over system calls that are a parameter. \<open>Sock_Win32\<close>:
    \<^verbatim>\<open>net/win32/sock_win32.c\<close>, the same interface over Winsock, also a parameter, with sockets of 64 bits passed as
    \<^verbatim>\<open>int\<close>. \<open>Sock_Platform\<close>: what both promise about descriptors (locale \<open>descriptor_layer\<close>, interpreted on each).
  \<^item> \<open>Poller_Load\<close>, \<open>Poller_Epoll\<close>, \<open>Poller_Pool\<close>: \<^verbatim>\<open>poller_load.c\<close>, \<^verbatim>\<open>poller_epoll.c\<close> with the rest of
    \<^verbatim>\<open>poller_task.c\<close>, \<^verbatim>\<open>poller_pool.c\<close>.
  \<^item> \<open>Socket\<close>: \<^verbatim>\<open>net/socket.c\<close> with the dispatcher that the poller calls.
  \<^item> \<open>Tcp_Session\<close>, \<open>Tcp_Server\<close>: \<^verbatim>\<open>net/tcp_server.c\<close>; sending is an ordered byte stream (locale
    \<open>ordered_stream\<close>).
  \<^item> \<open>Socket_Frame\<close>: what the socket operations leave alone, for the theories of clients, which extend the state
    of \<open>Socket\<close> by their own. \<open>Socket_Owner\<close>: the invariant of an object that owns one stream socket, and the locale
    \<open>socket_user\<close>, what its event handlers owe the dispatcher. \<open>Tcp_Client\<close>: \<^verbatim>\<open>net/tcp_client.c\<close>. \<open>Ssl_Ctx\<close>:
    \<^verbatim>\<open>net/ssl_ctx.c\<close> and the message of the last error. \<open>Tls_Client\<close>: \<^verbatim>\<open>net/tls_client.c\<close>; both clients interpret
    \<open>socket_user\<close>. \<open>Udp_Client\<close>, \<open>Udp_Server\<close>: \<^verbatim>\<open>net/udp_client.c\<close>
    and \<^verbatim>\<open>net/udp_server.c\<close>.
  \<^item> \<open>Decimal\<close>: decimal numbers as \<^verbatim>\<open>snprintf\<close> prints them. \<open>Log\<close>: \<^verbatim>\<open>util/log.c\<close> over a file system whose calls may
    fail; rotation is a log of segments (locale \<open>rolling_log\<close>). \<open>Timer_Handle\<close>: \<^verbatim>\<open>util/timer.c\<close> over \<open>Poller_Timer\<close>.
  \<^item> \<open>Poller_Select\<close>: \<^verbatim>\<open>poller_select.c\<close> and \<^verbatim>\<open>poller_stub.c\<close>, on the records of \<open>Poller_Epoll\<close>; registration
    interprets the contract \<open>all_or_nothing\<close> with the specification of the poller over epoll, without conditions on the kernel.
  \<^item> \<open>Platform_Linux\<close>: \<^verbatim>\<open>platform/linux\<close>: clocks, mutexes, threads, priorities and semaphores.
  \<^item> \<open>Thread_Pool\<close>: \<^verbatim>\<open>thread/thread_pool.c\<close> over the semaphore of \<^verbatim>\<open>platform/linux/sem_pthread.c\<close>, as the
    step relation \<open>tp_step\<close> of workers, callers and the owner.

  \<^bold>\<open>State.\<close> A C structure is a record with the fields of the structure, a pointer an address into a
  map that plays the heap, and \<^verbatim>\<open>NULL\<close> the value \<open>None\<close>. A theory keeps only the parts of an object
  that its functions touch: the address of one poller indexes its descriptor table in \<open>npollers\<close> of
  \<open>net\<close>, its timers in \<open>ttimers\<close> and its load in \<open>tloads\<close> of \<open>tnet\<close>, and its task queue and buffer pool in
  \<open>pollers\<close> of \<open>bheap\<close>; \<open>Poller_Epoll\<close> has the poller as one record, in the order of its structure.
  An operation whose C counterpart has undefined behaviour for a state (a dangling pointer, a read
  of freed memory), or does not return, has the value \<open>None\<close> there; the theorems therefore state that
  operations return, together with what they return.

  \<^bold>\<open>Parameters.\<close> The kernel is a function \<open>os\<close> from system calls to answers on a world of any type;
  what is assumed of it is stated where it is used: \<open>fds_ok\<close> (descriptors are opened and closed by the
  calls that do so), \<open>epoll_ok\<close> (\<^verbatim>\<open>epoll_ctl\<close> maintains the interest list;
  each of its operations may fail, and then changes nothing), \<open>ctls_ok\<close> (it does not fail to modify or delete what is registered; needed only
  for the equality of the event sets of kernel and table), \<open>sends_ok\<close> and \<open>sends_some\<close>
  (a send that succeeds puts that many of the bytes on the wire, and at least one), \<open>dgrams_ok\<close> (datagrams
  wait in a queue for each descriptor). Winsock is such a function too, with \<open>socks_ok\<close> (its numbers of sockets fit an
  \<^verbatim>\<open>int\<close>) and \<open>wsends_ok\<close>. OpenSSL is a function \<open>ossl\<close> of the same kind, with \<open>ossl_quiet\<close> (it
  opens and registers no descriptors), \<open>reads_end\<close> (the peer has sent finitely much) and \<open>tls_wire_ok\<close>
  (a write accepts as many bytes as it says); \<^verbatim>\<open>select\<close> and pthreads are functions as well, of which nothing is assumed. Allocation
  outcomes, clocks, thread identifiers and the functions of the application are arguments; \<open>mild\<close>
  and \<open>calm_calls\<close> say that a callback leaves the sessions of the server alone, \<open>app_calm\<close> that it may send but does not connect, close or destroy
  the TCP client, \<open>tls_calm\<close> that it does not call the TLS client, \<open>timer_quiet\<close> that it leaves timers and handles alone, \<open>records\<close> that it only writes down what it got, for the theorems that need it. Each such hypothesis has a concrete instance in a witness.

  \<^bold>\<open>Bounds and loops.\<close> Integers keep their width: sizes are 64-bit words and wrap, error codes and
  descriptors are integers. A loop that can run forever in C is a \<open>partial_function\<close> into \<open>option\<close>; no
  fuel is used. One flush of timers serves at most 256 of them, as in the source
  (\<^verbatim>\<open>ZTK_TIMER_FLUSH_MAX\<close>), which is where the bound in \<open>flush_serves_due\<close> comes from. The MPSC
  theorems assume fewer than $2^{63}$ reservations, after which the signed difference of sequence
  numbers is no longer meaningful, and the time theorems that deadlines do not wrap 64 bits. The
  value of a POSIX semaphore is limited to $2^{31} - 1$.

  \<^bold>\<open>What is shown.\<close> The queues and the stream are refinements: MPSC ring, byte buffer, linked queue,
  timer requests, interest list, outgoing stream and thread pool behave like a plain sequence or
  map. Resources are exclusive and released: ports, pool blocks, buffer references, descriptors,
  sessions. Timers are served in order of deadline and none late; a poll turn runs every posted
  task, unless its wait fails; a log keeps the newest lines; \<^verbatim>\<open>fini\<close> of a thread pool drains it, if nothing is submitted meanwhile. Error paths are shown to change nothing, or, where the
  code has a defect, the theorem says what goes wrong (for instance \<open>do_delay_wake_failure\<close>,
  \<open>recv_close_dangling\<close>, \<open>failed_start_hangs\<close>, \<open>rtp_double_release\<close>, \<open>pool_get_misses_least\<close>,
  \<open>poller_mod_failure\<close>, \<open>fini_race_loses_task\<close>,
  \<open>udp_shared_deaf\<close>, \<open>tls_recv_close_undefined\<close>).

  \<^bold>\<open>Not modelled.\<close> The rest of the Windows layer (the poller over wepoll and the wrappers in \<^verbatim>\<open>platform/win32\<close>, and the Windows branches of \<^verbatim>\<open>poller_select.c\<close> and
  \<^verbatim>\<open>timer.c\<close>), which has the interfaces of the Linux layer over an interface of the system that is not in the sources; the
  vendored wepoll, which is code of another project; the branches for OpenSSL before 1.1 and for systems without POSIX
  semaphores; the version string, a constant of the build. The expansion of a format of the log is an
  argument. Callbacks and threads are interleaved in the MPSC ring and in the thread pool, where the code
  relies on it; the other components are modelled on the thread of their poller, with what other threads do as
  requests in its queue.
\<close>

end
